(* ===== verification/Prelude.thy ===== *)
theory Prelude
  imports Main "HOL-Library.Word" "HOL-Library.Multiset"
begin

text \<open>
  Shared vocabulary of the development: the error values of the model (a C++ exception, a failed
  \<open>assert\<close> or an access the language leaves undefined is a value of \<open>error\<close>), the
  result type and its sequencing, C's fixed-width unsigned arithmetic on natural numbers with the
  wrap-around written out, the little-endian byte representation that
  \<open>reinterpret_cast<char*>\<close> exposes, and the generic lemmas on lists and counts that
  the component theories share.
\<close>

named_theorems inv_defs \<comment> \<open>the definitions of the component invariants\<close>
named_theorems frame_simps \<comment> \<open>what an operation leaves unchanged\<close>

unbundle bit_operations_syntax

section \<open>Types and errors\<close>

type_synonym byte = "8 word"
type_synonym bytes = "8 word list"

text \<open>
  \<open>NoMoreData\<close> is the exception of \<open>PacketInBase::GetByte\<close>, \<open>AssertFailed\<close> a failing
  \<open>assert\<close>, the other values are the accesses C++ leaves undefined (a null pointer, an object
  that was deleted, an index out of range, a division by zero), the two standard exceptions the
  sources throw, a loop whose bound in the model is exhausted (\<open>Diverges\<close>), an exception
  escaping from a user callback (\<open>HandlerFailed\<close>) and the exceptions of the database classes (\<open>ExceptionThrown\<close>).
\<close>

datatype error =
    NoMoreData
  | AssertFailed
  | NullDeref
  | UseAfterFree
  | OutOfRange
  | LengthError
  | InvalidArgument
  | DivByZero
  | Diverges
  | HandlerFailed
  | ExceptionThrown

type_synonym 'a result = "error + 'a"

definition bindE :: "'a result \<Rightarrow> ('a \<Rightarrow> 'b result) \<Rightarrow> 'b result" where
  "bindE m f = (case m of Inl e \<Rightarrow> Inl e | Inr x \<Rightarrow> f x)"

lemma bindE_Inl [simp]: "bindE (Inl e) f = Inl e"
  by (simp add: bindE_def)

lemma bindE_Inr [simp]: "bindE (Inr x) f = f x"
  by (simp add: bindE_def)

lemma bindE_eq_Inr: "bindE m f = Inr y \<longleftrightarrow> (\<exists>x. m = Inr x \<and> f x = Inr y)"
  by (cases m) auto

lemma bindE_eq_Inl: "bindE m f = Inl e \<longleftrightarrow> m = Inl e \<or> (\<exists>x. m = Inr x \<and> f x = Inl e)"
  by (cases m) auto

lemma bindE_cong [fundef_cong]:
  "m = m' \<Longrightarrow> (\<And>x. m' = Inr x \<Longrightarrow> f x = g x) \<Longrightarrow> bindE m f = bindE m' g"
  by (cases m') auto

definition assertE :: "bool \<Rightarrow> 'a result \<Rightarrow> 'a result" where
  "assertE b m = (if b then m else Inl AssertFailed)"

lemma assertE_True [simp]: "assertE True m = m"
  by (simp add: assertE_def)

lemma assertE_False [simp]: "assertE False m = Inl AssertFailed"
  by (simp add: assertE_def)

lemma assertE_eq_Inr: "assertE b m = Inr y \<longleftrightarrow> b \<and> m = Inr y"
  by (simp add: assertE_def)

section \<open>Fixed-width unsigned arithmetic on naturals\<close>

definition u16 :: "nat \<Rightarrow> nat" where
  "u16 n = n mod 65536"

definition u32 :: "nat \<Rightarrow> nat" where
  "u32 n = n mod 4294967296"

definition u64 :: "nat \<Rightarrow> nat" where
  "u64 n = n mod 18446744073709551616"

text \<open>Decrement, with the wrap of \<open>0\<close> to the largest value of the type.\<close>

definition u32_dec :: "nat \<Rightarrow> nat" where
  "u32_dec n = (n + 4294967295) mod 4294967296"

definition u64_dec :: "nat \<Rightarrow> nat" where
  "u64_dec n = (n + 18446744073709551615) mod 18446744073709551616"

text \<open>Subtraction modulo \<open>2 ^ 32\<close>.\<close>

definition u32_sub :: "nat \<Rightarrow> nat \<Rightarrow> nat" where
  "u32_sub a b = (if b \<le> a then a - b else (a + 4294967296 - b) mod 4294967296)"

lemma u16_id [simp]: "n < 65536 \<Longrightarrow> u16 n = n"
  by (simp add: u16_def)

lemma u32_id [simp]: "n < 4294967296 \<Longrightarrow> u32 n = n"
  by (simp add: u32_def)

lemma u64_id [simp]: "n < 18446744073709551616 \<Longrightarrow> u64 n = n"
  by (simp add: u64_def)

lemma u16_bound [simp]: "u16 n < 65536"
  by (simp add: u16_def)

lemma u32_bound [simp]: "u32 n < 4294967296"
  by (simp add: u32_def)

lemma u32_dec_Suc [simp]: "n < 4294967296 \<Longrightarrow> 0 < n \<Longrightarrow> u32_dec n = n - 1"
proof -
  assume "n < 4294967296" and "0 < n"
  then obtain k where "n = Suc k" and "k < 4294967295"
    by (cases n) auto
  then have "n + 4294967295 = k + 4294967296" by simp
  then have "(n + 4294967295) mod 4294967296 = k mod 4294967296"
    by (metis mod_add_self2)
  with \<open>n = Suc k\<close> \<open>k < 4294967295\<close> show ?thesis
    by (simp add: u32_dec_def)
qed

lemma u64_dec_Suc [simp]: "n < 18446744073709551616 \<Longrightarrow> 0 < n \<Longrightarrow> u64_dec n = n - 1"
proof -
  assume "n < 18446744073709551616" and "0 < n"
  then obtain k where "n = Suc k" and "k < 18446744073709551615"
    by (cases n) auto
  then have "n + 18446744073709551615 = k + 18446744073709551616" by simp
  then have "(n + 18446744073709551615) mod 18446744073709551616 = k mod 18446744073709551616"
    by (metis mod_add_self2)
  with \<open>n = Suc k\<close> \<open>k < 18446744073709551615\<close> show ?thesis
    by (simp add: u64_dec_def)
qed

lemma u32_sub_le [simp]: "b \<le> a \<Longrightarrow> u32_sub a b = a - b"
  by (simp add: u32_sub_def)

section \<open>Texts as bytes\<close>

definition bytes_of_string :: "string \<Rightarrow> bytes" where
  "bytes_of_string s = map of_char s"

lemma length_bytes_of_string [simp]: "length (bytes_of_string s) = length s"
  by (simp add: bytes_of_string_def)

section \<open>Little-endian bytes\<close>

text \<open>
  \<open>le_bytes n v\<close> are the \<open>n\<close> bytes of the object representation of the unsigned value \<open>v\<close> on
  the little-endian targets the server is built for, lowest address first.
\<close>

primrec le_bytes :: "nat \<Rightarrow> nat \<Rightarrow> bytes" where
  "le_bytes 0 v = []"
| "le_bytes (Suc n) v = word_of_nat (v mod 256) # le_bytes n (v div 256)"

primrec le_val :: "bytes \<Rightarrow> nat" where
  "le_val [] = 0"
| "le_val (b # bs) = unat b + 256 * le_val bs"

lemma length_le_bytes [simp]: "length (le_bytes n v) = n"
  by (induction n arbitrary: v) auto

lemma unat_byte_mod: "unat (word_of_nat (v mod 256) :: byte) = v mod 256"
  by (simp add: unat_of_nat)

lemma le_val_le_bytes: "le_val (le_bytes n v) = v mod 256 ^ n"
proof (induction n arbitrary: v)
  case 0
  show ?case by simp
next
  case (Suc n)
  have "le_val (le_bytes (Suc n) v) = v mod 256 + 256 * (v div 256 mod 256 ^ n)"
    by (simp add: Suc.IH unat_byte_mod)
  also have "\<dots> = v mod (256 * 256 ^ n)"
    by (metis mod_mult2_eq add.commute)
  finally show ?case by simp
qed

lemma le_val_bound: "le_val bs < 256 ^ length bs"
proof (induction bs)
  case Nil
  show ?case by simp
next
  case (Cons b bs)
  have "unat b < 256"
    using unsigned_less [of b] by simp
  with Cons show ?case by simp
qed

lemma le_bytes_le_val: "length bs = n \<Longrightarrow> le_bytes n (le_val bs) = bs"
proof (induction bs arbitrary: n)
  case Nil
  then show ?case by simp
next
  case (Cons b bs)
  have b: "unat b < 256"
    using unsigned_less [of b] by simp
  then have "(unat b + 256 * le_val bs) mod 256 = unat b"
    by simp
  moreover from b have "(unat b + 256 * le_val bs) div 256 = le_val bs"
    by simp
  ultimately show ?case
    using Cons by auto
qed

lemma le_bytes_inj: "a < 256 ^ n \<Longrightarrow> b < 256 ^ n \<Longrightarrow> le_bytes n a = le_bytes n b \<Longrightarrow> a = b"
  by (metis le_val_le_bytes mod_less)

section \<open>Lists\<close>

lemma take_drop_append_split: "take n xs @ take m (drop n xs) = take (n + m) xs"
  by (simp add: take_add)

text \<open>Overwriting a slice in place: what \<open>memcpy\<close> into a buffer does.\<close>

definition overwrite :: "'a list \<Rightarrow> nat \<Rightarrow> 'a list \<Rightarrow> 'a list" where
  "overwrite xs i ys = take i xs @ ys @ drop (i + length ys) xs"

lemma length_overwrite [simp]: "i + length ys \<le> length xs \<Longrightarrow> length (overwrite xs i ys) = length xs"
  by (simp add: overwrite_def)

lemma overwrite_Nil [simp]: "overwrite xs i [] = xs"
  by (simp add: overwrite_def)

lemma take_drop_overwrite_same:
  "i + length ys \<le> length xs \<Longrightarrow> take (length ys) (drop i (overwrite xs i ys)) = ys"
  by (simp add: overwrite_def)

lemma nth_overwrite:
  assumes "i + length ys \<le> length xs" and "k < length xs"
  shows "overwrite xs i ys ! k = (if i \<le> k \<and> k < i + length ys then ys ! (k - i) else xs ! k)"
  using assms by (auto simp: overwrite_def nth_append min_def)

lemma take_drop_overwrite_before:
  "i + length ys \<le> length xs \<Longrightarrow> a + n \<le> i \<Longrightarrow> take n (drop a (overwrite xs i ys)) = take n (drop a xs)"
  by (intro nth_equalityI) (auto simp: nth_overwrite)

lemma take_drop_overwrite_after:
  "i + length ys \<le> length xs \<Longrightarrow> i + length ys \<le> a \<Longrightarrow>
     take n (drop a (overwrite xs i ys)) = take n (drop a xs)"
  by (intro nth_equalityI) (auto simp: nth_overwrite)

lemma overwrite_append:
  "i + length ys \<le> length xs \<Longrightarrow> overwrite (xs @ zs) i ys = overwrite xs i ys @ zs"
  by (simp add: overwrite_def)

lemma take_drop_overwrite_inside:
  assumes "i + length ys \<le> n" and "a + n \<le> length xs"
  shows "take n (drop a (overwrite xs (a + i) ys)) = overwrite (take n (drop a xs)) i ys"
  using assms by (intro nth_equalityI) (auto simp: nth_overwrite)

lemma overwrite_append_split:
  assumes "i \<le> length xs" and "length xs \<le> i + length ys"
  shows "overwrite (xs @ zs) i ys =
    overwrite xs i (take (length xs - i) ys) @ overwrite zs 0 (drop (length xs - i) ys)"
  using assms by (simp add: overwrite_def min_def) (metis add.commute append.assoc append_take_drop_id)

lemma overwrite_append_right:
  "overwrite (zs @ xs) (length zs + i) ys = zs @ overwrite xs i ys"
  by (simp add: overwrite_def)

lemma count_mset_map_remove1:
  "x \<in> set xs \<Longrightarrow> count (mset (map f (remove1 x xs))) c + (if f x = c then 1 else 0) = count (mset (map f xs)) c"
  by (induction xs) auto

end
