(* ===== verification/IntrusiveList.thy ===== *)
theory IntrusiveList
  imports Prelude
begin

text \<open>
  The intrusive doubly linked list of \<open>base/utils/intrusive_list.h\<close>. Every element carries an
  \<open>IntrusiveListMemberHook\<close> with the addresses of its neighbours and of the list it is linked in;
  the list object holds the head pointer and a size. The operations are modelled on an explicit
  store of hooks, with the assignments in the order of the source. The abstract meaning of a list
  is the sequence of its elements: \<open>il_rep\<close> says when a store and a list object represent a
  sequence, and the operations are proved to refine the operations on sequences. The contract is
  the locale \<open>linked_sequence\<close>, which the client components rely on.
\<close>

section \<open>Hooks, lists and operations\<close>

type_synonym addr = nat
type_synonym list_id = nat

record hook =
  list_pre :: "addr option"
  list_next :: "addr option"
  list_in :: "list_id option"

type_synonym hooks = "addr \<Rightarrow> hook"

definition IntrusiveListMemberHook :: hook where
  "IntrusiveListMemberHook = \<lparr>list_pre = None, list_next = None, list_in = None\<rparr>"

definition list_linked :: "hooks \<Rightarrow> addr \<Rightarrow> bool" where
  "list_linked h item \<longleftrightarrow> list_in (h item) \<noteq> None"

record ilist =
  il_this :: list_id
  il_head :: "addr option"
  il_size :: nat

definition IntrusiveList_new :: "list_id \<Rightarrow> ilist" where
  "IntrusiveList_new this = \<lparr>il_this = this, il_head = None, il_size = 0\<rparr>"

definition IntrusiveList_empty :: "ilist \<Rightarrow> bool" where
  "IntrusiveList_empty l \<longleftrightarrow> il_size l = 0"

definition IntrusiveList_front :: "ilist \<Rightarrow> addr option" where
  "IntrusiveList_front l = il_head l"

definition IntrusiveList_contains :: "hooks \<Rightarrow> ilist \<Rightarrow> addr \<Rightarrow> bool" where
  "IntrusiveList_contains h l item \<longleftrightarrow> list_in (h item) = Some (il_this l)"

definition IntrusiveList_next :: "hooks \<Rightarrow> addr \<Rightarrow> addr option" where
  "IntrusiveList_next h item = list_next (h item)"

definition set_pre :: "hooks \<Rightarrow> addr option \<Rightarrow> addr option \<Rightarrow> hooks" where
  "set_pre h p v = (case p of None \<Rightarrow> h | Some a \<Rightarrow> h(a := (h a)\<lparr>list_pre := v\<rparr>))"

definition set_next :: "hooks \<Rightarrow> addr option \<Rightarrow> addr option \<Rightarrow> hooks" where
  "set_next h p v = (case p of None \<Rightarrow> h | Some a \<Rightarrow> h(a := (h a)\<lparr>list_next := v\<rparr>))"

text \<open>
  \<open>erase\<close> unlinks an element and returns its successor. It does not check that the element is in
  this list.
\<close>

definition IntrusiveList_erase :: "hooks \<Rightarrow> ilist \<Rightarrow> addr \<Rightarrow> addr option \<times> hooks \<times> ilist" where
  "IntrusiveList_erase h l item =
     (let (nxt, h1, hd1) =
        (if Some item = il_head l then
           (let h0 = set_pre h (list_next (h item)) None;
                new_head = list_next (h0 item)
            in (new_head, h0, new_head))
         else
           (let h0 = set_pre h (list_next (h item)) (list_pre (h item));
                h0' = set_next h0 (list_pre (h0 item)) (list_next (h0 item))
            in (list_next (h0' item), h0', il_head l)))
      in (nxt,
          h1(item := (h1 item)\<lparr>list_next := None, list_pre := None, list_in := None\<rparr>),
          l\<lparr>il_head := hd1, il_size := u64_dec (il_size l)\<rparr>))"

definition IntrusiveList_push_front :: "hooks \<Rightarrow> ilist \<Rightarrow> addr \<Rightarrow> hooks \<times> ilist" where
  "IntrusiveList_push_front h l item =
     (let h1 =
        (case il_head l of
           None \<Rightarrow> h(item := (h item)\<lparr>list_pre := None, list_next := None\<rparr>)
         | Some hd0 \<Rightarrow>
             (let h0 = h(item := (h item)\<lparr>list_next := Some hd0, list_pre := None\<rparr>)
              in h0(hd0 := (h0 hd0)\<lparr>list_pre := Some item\<rparr>)))
      in (h1(item := (h1 item)\<lparr>list_in := Some (il_this l)\<rparr>),
          l\<lparr>il_head := Some item, il_size := u64 (il_size l + 1)\<rparr>))"

text \<open>
  The loop \<open>for (cur = front(); cur; cur = cur->list_next())\<close> of the clients, with a bound on the
  number of elements visited; \<open>None\<close> when the bound is exceeded (a cyclic chain).
\<close>

fun il_walk :: "nat \<Rightarrow> hooks \<Rightarrow> addr option \<Rightarrow> addr list option" where
  "il_walk fuel h None = Some []"
| "il_walk 0 h (Some a) = None"
| "il_walk (Suc fuel) h (Some a) = map_option (Cons a) (il_walk fuel h (IntrusiveList_next h a))"

section \<open>Representation of a sequence\<close>

definition hd_or :: "'a option \<Rightarrow> 'a list \<Rightarrow> 'a option" where
  "hd_or q xs = (case xs of [] \<Rightarrow> q | x # _ \<Rightarrow> Some x)"

definition last_or :: "'a option \<Rightarrow> 'a list \<Rightarrow> 'a option" where
  "last_or p xs = (if xs = [] then p else Some (last xs))"

lemma hd_or_simps [simp]: "hd_or q [] = q" "hd_or q (x # xs) = Some x"
  by (simp_all add: hd_or_def)

lemma last_or_simps [simp]:
  "last_or p [] = p" "last_or p (x # xs) = last_or (Some x) xs" "last_or p (xs @ [x]) = Some x"
  by (simp_all add: last_or_def)

lemma hd_or_append: "hd_or q (xs @ ys) = hd_or (hd_or q ys) xs"
  by (cases xs) auto

primrec linked :: "hooks \<Rightarrow> addr option \<Rightarrow> addr list \<Rightarrow> addr option \<Rightarrow> bool" where
  "linked h p [] q \<longleftrightarrow> True"
| "linked h p (x # xs) q \<longleftrightarrow>
     list_pre (h x) = p \<and> list_next (h x) = hd_or q xs \<and> linked h (Some x) xs q"

definition il_rep :: "hooks \<Rightarrow> ilist \<Rightarrow> addr list \<Rightarrow> bool" where
  [inv_defs]: "il_rep h l xs \<longleftrightarrow>
     distinct xs \<and> length xs < 18446744073709551616 \<and>
     il_head l = hd_or None xs \<and> il_size l = length xs \<and> linked h None xs None \<and>
     (\<forall>a. list_in (h a) = Some (il_this l) \<longleftrightarrow> a \<in> set xs)"

lemma linked_append:
  "linked h p (xs @ ys) q \<longleftrightarrow> linked h p xs (hd_or q ys) \<and> linked h (last_or p xs) ys q"
  by (induction xs arbitrary: p) (auto simp: hd_or_append)

lemma linked_frame:
  "(\<And>x. x \<in> set xs \<Longrightarrow> list_pre (h' x) = list_pre (h x) \<and> list_next (h' x) = list_next (h x)) \<Longrightarrow>
     linked h' p xs q = linked h p xs q"
  by (induction xs arbitrary: p) auto

lemma linked_upd_other: "a \<notin> set xs \<Longrightarrow> linked (h(a := v)) p xs q = linked h p xs q"
  by (rule linked_frame) auto

text \<open>Redirecting the pointer into the first element, or out of the last one.\<close>

lemma linked_set_pre_hd:
  "linked h p (x # xs) q \<Longrightarrow> distinct (x # xs) \<Longrightarrow>
     linked (h(x := (h x)\<lparr>list_pre := p'\<rparr>)) p' (x # xs) q"
  by (simp add: linked_upd_other)

lemma linked_set_next_last:
  assumes "linked h p (xs @ [x]) q" and "distinct (xs @ [x])"
  shows "linked (h(x := (h x)\<lparr>list_next := q'\<rparr>)) p (xs @ [x]) q'"
  using assms by (auto simp: linked_append linked_upd_other)

section \<open>The operations refine the operations on sequences\<close>

lemma il_rep_new:
  assumes "\<And>a. list_in (h a) \<noteq> Some this"
  shows "il_rep h (IntrusiveList_new this) []"
  using assms by (simp add: il_rep_def IntrusiveList_new_def)

lemma il_rep_empty: "il_rep h l xs \<Longrightarrow> IntrusiveList_empty l \<longleftrightarrow> xs = []"
  by (simp add: il_rep_def IntrusiveList_empty_def)

lemma il_rep_front: "il_rep h l xs \<Longrightarrow> IntrusiveList_front l = hd_or None xs"
  by (simp add: il_rep_def IntrusiveList_front_def)

lemma il_rep_contains: "il_rep h l xs \<Longrightarrow> IntrusiveList_contains h l a \<longleftrightarrow> a \<in> set xs"
  by (simp add: il_rep_def IntrusiveList_contains_def)

lemma il_rep_next: "il_rep h l (xs @ x # ys) \<Longrightarrow> IntrusiveList_next h x = hd_or None ys"
  by (simp add: il_rep_def IntrusiveList_next_def linked_append)

lemma il_rep_push_front:
  assumes rep: "il_rep h l xs" and fresh: "list_in (h item) = None"
    and room: "Suc (length xs) < 18446744073709551616"
    and eq: "IntrusiveList_push_front h l item = (h', l')"
  shows "il_rep h' l' (item # xs)"
proof (cases xs)
  case Nil
  with rep fresh eq show ?thesis
    by (auto simp: il_rep_def IntrusiveList_push_front_def split: if_splits)
next
  case (Cons y ys)
  have new: "item \<notin> set xs"
    using rep fresh by (metis il_rep_def option.distinct(1))
  have h': "h' = h(item := (h item)\<lparr>list_next := Some y, list_pre := None, list_in := Some (il_this l)\<rparr>,
                   y := (h y)\<lparr>list_pre := Some item\<rparr>)"
    using eq rep Cons new
    by (auto simp: IntrusiveList_push_front_def il_rep_def Let_def fun_upd_twist)
  have "linked h None (y # ys) None" and d: "distinct (y # ys)"
    using rep Cons by (simp_all add: il_rep_def)
  then have "linked (h(y := (h y)\<lparr>list_pre := Some item\<rparr>)) (Some item) (y # ys) None"
    by (rule linked_set_pre_hd)
  then have "linked h' (Some item) (y # ys) None"
    using new Cons by (subst h', subst fun_upd_twist) (auto simp: linked_upd_other)
  moreover have "list_pre (h' item) = None" "list_next (h' item) = Some y"
    using h' new Cons by auto
  moreover have "\<forall>a. list_in (h' a) = Some (il_this l) \<longleftrightarrow> a \<in> set (item # xs)"
    using h' rep Cons by (auto simp: il_rep_def)
  moreover have "l' = l\<lparr>il_head := Some item, il_size := length xs + 1\<rparr>"
    using eq rep room by (simp add: IntrusiveList_push_front_def il_rep_def Let_def)
  ultimately show ?thesis
    using rep new Cons room by (auto simp: il_rep_def)
qed

text \<open>Erasing from a chain: the neighbours are joined, the element's hook is reset.\<close>

lemma linked_unlink:
  assumes lk: "linked h None (xs @ x # ys) None" and d: "distinct (xs @ x # ys)"
  shows "linked (set_next (set_pre h (hd_or None ys) (last_or None xs)) (last_or None xs) (hd_or None ys))
           None (xs @ ys) None"
proof -
  let ?h1 = "set_pre h (hd_or None ys) (last_or None xs)"
  have l1: "linked h None xs (Some x)" and l2: "linked h (Some x) ys None"
    using lk by (simp_all add: linked_append)
  have dx: "distinct xs" "distinct ys" "set xs \<inter> set ys = {}"
    using d by auto
  have r: "linked ?h1 (last_or None xs) ys None"
  proof (cases ys)
    case (Cons z zs)
    then show ?thesis
      using linked_set_pre_hd [OF l2 [unfolded Cons], of "last_or None xs"] dx
      by (simp add: set_pre_def)
  qed simp
  have "linked ?h1 None xs (Some x)"
    using l1 dx by (cases ys) (auto simp: set_pre_def linked_upd_other)
  show ?thesis
  proof (cases xs rule: rev_cases)
    case Nil
    with r show ?thesis by (simp add: set_next_def)
  next
    case (snoc as a)
    have "linked (?h1(a := (?h1 a)\<lparr>list_next := hd_or None ys\<rparr>)) None (as @ [a]) (hd_or None ys)"
      using \<open>linked ?h1 None xs (Some x)\<close> dx snoc by (intro linked_set_next_last) auto
    moreover have "linked (?h1(a := (?h1 a)\<lparr>list_next := hd_or None ys\<rparr>)) (Some a) ys None"
      using r dx snoc by (simp add: linked_upd_other)
    ultimately show ?thesis
      using snoc by (simp only: linked_append) (simp add: set_next_def linked_append)
  qed
qed

lemma hook_reset:
  "(r::hook)\<lparr>list_next := None, list_pre := None, list_in := None\<rparr> = IntrusiveListMemberHook"
  by (cases r) (simp add: IntrusiveListMemberHook_def)

lemma erase_hooks:
  assumes rep: "il_rep h l (xs @ x # ys)" and eq: "IntrusiveList_erase h l x = (nxt, h', l')"
  shows "h' = (set_next (set_pre h (hd_or None ys) (last_or None xs)) (last_or None xs) (hd_or None ys))
                (x := IntrusiveListMemberHook)"
    and "nxt = hd_or None ys"
    and "il_head l' = hd_or None (xs @ ys)" and "il_this l' = il_this l"
    and "il_size l' = length xs + length ys"
proof -
  have lk: "list_pre (h x) = last_or None xs" "list_next (h x) = hd_or None ys"
    using rep by (simp_all add: il_rep_def linked_append)
  have d: "distinct (xs @ x # ys)" and hd: "il_head l = hd_or None (xs @ x # ys)"
    and sz: "il_size l = length xs + Suc (length ys)" "length xs + Suc (length ys) < 18446744073709551616"
    using rep by (simp_all add: il_rep_def)
  have is_hd: "Some x = il_head l \<longleftrightarrow> xs = []"
    using d hd by (cases xs) auto
  have nx: "hd_or None ys \<noteq> Some x" and lx: "last_or None xs \<noteq> Some x"
    using d by (auto simp: last_or_def hd_or_def split: list.splits)
  show "h' = (set_next (set_pre h (hd_or None ys) (last_or None xs)) (last_or None xs) (hd_or None ys))
                (x := IntrusiveListMemberHook)"
    using eq lk is_hd nx lx
    by (cases "xs = []") (auto simp: IntrusiveList_erase_def Let_def set_pre_def set_next_def
        hook_reset last_or_def split: option.splits)
  show "nxt = hd_or None ys"
    using eq lk is_hd nx lx
    by (cases "xs = []") (auto simp: IntrusiveList_erase_def Let_def set_pre_def set_next_def
        last_or_def split: option.splits)
  show "il_head l' = hd_or None (xs @ ys)"
    using eq lk is_hd nx lx hd
    by (cases xs) (auto simp: IntrusiveList_erase_def Let_def set_pre_def set_next_def
        last_or_def split: option.splits)
  show "il_this l' = il_this l"
    using eq by (auto simp: IntrusiveList_erase_def Let_def split: if_splits)
  show "il_size l' = length xs + length ys"
    using eq sz by (auto simp: IntrusiveList_erase_def Let_def split: if_splits)
qed

lemma il_rep_erase:
  assumes rep: "il_rep h l (xs @ x # ys)" and eq: "IntrusiveList_erase h l x = (nxt, h', l')"
  shows "il_rep h' l' (xs @ ys)" and "nxt = hd_or None ys" and "\<not> list_linked h' x"
proof -
  let ?g = "set_next (set_pre h (hd_or None ys) (last_or None xs)) (last_or None xs) (hd_or None ys)"
  note e = erase_hooks [OF rep eq]
  have d: "distinct (xs @ x # ys)" using rep by (simp add: il_rep_def)
  have "linked ?g None (xs @ ys) None"
    using rep by (intro linked_unlink) (auto simp: il_rep_def)
  then have lk: "linked h' None (xs @ ys) None"
    using d by (subst e(1)) (simp add: linked_upd_other)
  have "list_in (?g a) = list_in (h a)" for a
    by (simp add: set_next_def set_pre_def split: option.splits)
  then have mem: "\<forall>a. list_in (h' a) = Some (il_this l) \<longleftrightarrow> a \<in> set (xs @ ys)"
    using rep d by (subst e(1)) (auto simp: il_rep_def IntrusiveListMemberHook_def)
  show "il_rep h' l' (xs @ ys)"
    using d e lk mem rep by (auto simp: il_rep_def)
  show "nxt = hd_or None ys" by (rule e(2))
  show "\<not> list_linked h' x"
    by (subst e(1)) (simp add: list_linked_def IntrusiveListMemberHook_def)
qed

lemma il_walk_linked: "linked h p xs None \<Longrightarrow> length xs \<le> fuel \<Longrightarrow> il_walk fuel h (hd_or None xs) = Some xs"
proof (induction xs arbitrary: p fuel)
  case (Cons x xs)
  then obtain f where "fuel = Suc f" by (cases fuel) auto
  with Cons show ?case by (auto simp: IntrusiveList_next_def)
qed simp

lemma il_rep_walk: "il_rep h l xs \<Longrightarrow> il_walk (il_size l) h (IntrusiveList_front l) = Some xs"
  by (auto simp: il_rep_def IntrusiveList_front_def intro: il_walk_linked)


section \<open>The contract clients rely on\<close>

text \<open>
  What a client of the list may assume: its state represents a sequence, pushing an element that is
  in no list puts it in front, erasing an element removes it and returns its successor, and the
  successor of an element is the next one of the sequence. The client lemmas say that a traversal
  that saved its current element is not disturbed by elements pushed meanwhile, and that the
  traversal loop visits the sequence in order.
\<close>

locale linked_sequence =
  fixes rep :: "'s \<Rightarrow> 'a list \<Rightarrow> bool"
    and fresh :: "'s \<Rightarrow> 'a \<Rightarrow> bool"
    and push :: "'s \<Rightarrow> 'a \<Rightarrow> 's"
    and erase :: "'s \<Rightarrow> 'a \<Rightarrow> 'a option \<times> 's"
    and front :: "'s \<Rightarrow> 'a option"
    and succ :: "'s \<Rightarrow> 'a \<Rightarrow> 'a option"
    and limit :: nat
  assumes rep_distinct: "rep s xs \<Longrightarrow> distinct xs"
    and fresh_notin: "rep s xs \<Longrightarrow> fresh s a \<Longrightarrow> a \<notin> set xs"
    and rep_front: "rep s xs \<Longrightarrow> front s = hd_or None xs"
    and rep_succ: "rep s (xs @ x # ys) \<Longrightarrow> succ s x = hd_or None ys"
    and rep_push: "rep s xs \<Longrightarrow> fresh s a \<Longrightarrow> Suc (length xs) < limit \<Longrightarrow> rep (push s a) (a # xs)"
    and rep_erase: "rep s (xs @ x # ys) \<Longrightarrow> rep (snd (erase s x)) (xs @ ys)"
    and erase_succ: "rep s (xs @ x # ys) \<Longrightarrow> fst (erase s x) = hd_or None ys"
    and erase_fresh: "rep s (xs @ x # ys) \<Longrightarrow> fresh (snd (erase s x)) x"
begin

lemma succ_push:
  assumes "rep s (xs @ x # ys)" and "fresh s a" and "Suc (length (xs @ x # ys)) < limit"
  shows "succ (push s a) x = hd_or None ys"
proof -
  have "rep (push s a) ((a # xs) @ x # ys)"
    using rep_push [OF assms] by simp
  then show ?thesis by (rule rep_succ)
qed

lemma erase_then_succ_of_earlier:
  assumes "rep s (xs @ w # x # ys)"
  shows "succ (snd (erase s x)) w = hd_or None ys"
proof -
  have "rep (snd (erase s x)) ((xs @ [w]) @ ys)"
    by (rule rep_erase) (simp add: assms)
  then show ?thesis by (simp add: rep_succ)
qed

lemma erase_push_cycle:
  assumes "rep s (xs @ x # ys)" and "Suc (length (xs @ ys)) < limit"
  shows "rep (push (snd (erase s x)) x) (x # xs @ ys)"
  using rep_push [OF rep_erase [OF assms(1)] erase_fresh [OF assms(1)] assms(2)] .

end

definition il_state_rep :: "hooks \<times> ilist \<Rightarrow> addr list \<Rightarrow> bool" where
  "il_state_rep s xs \<longleftrightarrow> il_rep (fst s) (snd s) xs"

definition il_state_fresh :: "hooks \<times> ilist \<Rightarrow> addr \<Rightarrow> bool" where
  "il_state_fresh s a \<longleftrightarrow> \<not> list_linked (fst s) a"

definition il_state_push :: "hooks \<times> ilist \<Rightarrow> addr \<Rightarrow> hooks \<times> ilist" where
  "il_state_push s a = IntrusiveList_push_front (fst s) (snd s) a"

definition il_state_erase :: "hooks \<times> ilist \<Rightarrow> addr \<Rightarrow> addr option \<times> hooks \<times> ilist" where
  "il_state_erase s a = IntrusiveList_erase (fst s) (snd s) a"

lemmas il_state_defs =
  il_state_rep_def il_state_fresh_def il_state_push_def il_state_erase_def list_linked_def

interpretation il: linked_sequence il_state_rep il_state_fresh il_state_push il_state_erase
  "\<lambda>s. IntrusiveList_front (snd s)" "\<lambda>s. IntrusiveList_next (fst s)" 18446744073709551616
proof (unfold_locales, goal_cases)
  case (1 s xs)
  then show ?case by (simp add: il_state_defs il_rep_def)
next
  case (2 s xs a)
  then show ?case by (metis il_state_rep_def il_state_fresh_def list_linked_def il_rep_def option.distinct(1))
next
  case (3 s xs)
  then show ?case by (simp add: il_state_defs il_rep_front)
next
  case (4 s xs x ys)
  then show ?case by (simp add: il_state_defs il_rep_next)
next
  case (5 s xs a)
  then show ?case
    by (cases "IntrusiveList_push_front (fst s) (snd s) a") (auto simp: il_state_defs intro: il_rep_push_front)
next
  case (6 s xs x ys)
  then show ?case
    by (cases "IntrusiveList_erase (fst s) (snd s) x") (auto simp: il_state_defs dest: il_rep_erase(1))
next
  case (7 s xs x ys)
  then show ?case
    by (cases "IntrusiveList_erase (fst s) (snd s) x") (auto simp: il_state_defs dest: il_rep_erase(2))
next
  case (8 s xs x ys)
  then show ?case
    by (cases "IntrusiveList_erase (fst s) (snd s) x")
      (use il_rep_erase(3) in \<open>auto simp: il_state_defs\<close>)
qed

section \<open>Properties\<close>

text \<open>
  C39. Erasing an element of a linked list keeps the list linked: the store then represents the
  sequence without that element, the returned pointer is its successor (null at the end), and the
  element's hook says it is in no list.
\<close>

theorem IntrusiveList_erase_refines:
  assumes "il_rep h l (xs @ x # ys)"
  shows "\<exists>h' l'. IntrusiveList_erase h l x = (hd_or None ys, h', l') \<and> il_rep h' l' (xs @ ys)
           \<and> \<not> list_linked h' x"
proof -
  obtain n h' l' where e: "IntrusiveList_erase h l x = (n, h', l')"
    by (cases "IntrusiveList_erase h l x") auto
  with il_rep_erase [OF assms e] show ?thesis by auto
qed

definition demo_hooks :: hooks where
  "demo_hooks = (\<lambda>_. IntrusiveListMemberHook)"

lemma demo_rep1: "il_rep (fst (IntrusiveList_push_front demo_hooks (IntrusiveList_new 9) 3))
    (snd (IntrusiveList_push_front demo_hooks (IntrusiveList_new 9) 3)) [3]"
proof -
  have "il_rep demo_hooks (IntrusiveList_new 9) []"
    by (rule il_rep_new) (simp add: demo_hooks_def IntrusiveListMemberHook_def)
  then show ?thesis
    by (rule il_rep_push_front) (simp_all add: demo_hooks_def IntrusiveListMemberHook_def)
qed

theorem IntrusiveList_erase_refines_witness:
  "\<exists>h' l'. IntrusiveList_erase (fst (IntrusiveList_push_front demo_hooks (IntrusiveList_new 9) 3))
       (snd (IntrusiveList_push_front demo_hooks (IntrusiveList_new 9) 3)) 3 = (None, h', l')
     \<and> il_rep h' l' [] \<and> \<not> list_linked h' 3"
  using IntrusiveList_erase_refines [of _ _ "[]" 3 "[]"] demo_rep1 by simp

fun push_all :: "hooks \<times> ilist \<Rightarrow> addr list \<Rightarrow> hooks \<times> ilist" where
  "push_all s [] = s"
| "push_all s (a # as) = push_all (IntrusiveList_push_front (fst s) (snd s) a) as"

lemma push_front_frame:
  "list_in (fst (IntrusiveList_push_front h l a) b) = (if b = a then Some (il_this l) else list_in (h b))"
  by (auto simp: IntrusiveList_push_front_def Let_def split: option.splits)

lemma push_all_rep:
  assumes "il_rep (fst s) (snd s) xs" and "distinct as" and "\<And>a. a \<in> set as \<Longrightarrow> \<not> list_linked (fst s) a"
    and "length xs + length as < 18446744073709551616"
  shows "il_rep (fst (push_all s as)) (snd (push_all s as)) (rev as @ xs)"
  using assms
proof (induction as arbitrary: s xs)
  case (Cons a as)
  let ?s = "IntrusiveList_push_front (fst s) (snd s) a"
  have "il_rep (fst ?s) (snd ?s) (a # xs)"
    using Cons.prems by (intro il_rep_push_front [of "fst s" "snd s"]) (auto simp: list_linked_def)
  moreover have "\<And>b. b \<in> set as \<Longrightarrow> \<not> list_linked (fst ?s) b"
    using Cons.prems(2,3) by (auto simp: push_front_frame list_linked_def)
  ultimately have "il_rep (fst (push_all ?s as)) (snd (push_all ?s as)) (rev as @ a # xs)"
    using Cons.prems(2,4) by (intro Cons.IH) auto
  then show ?case by simp
qed simp

text \<open>
  Elements pushed one after the other are visited by the traversal loop exactly once each, the
  last pushed first, and the loop ends after as many steps as the list's size.
\<close>

lemma IntrusiveList_traversal_order:
  assumes "il_rep h l []" and "distinct as" and "\<And>a. a \<in> set as \<Longrightarrow> \<not> list_linked h a"
    and "length as < 18446744073709551616"
  shows "il_walk (il_size (snd (push_all (h, l) as))) (fst (push_all (h, l) as))
           (IntrusiveList_front (snd (push_all (h, l) as))) = Some (rev as)"
proof -
  have "il_rep (fst (push_all (h, l) as)) (snd (push_all (h, l) as)) (rev as @ [])"
    using assms by (intro push_all_rep) auto
  then show ?thesis by (simp add: il_rep_walk)
qed

lemma IntrusiveList_traversal_order_witness:
  "il_walk 3 (fst (push_all (demo_hooks, IntrusiveList_new 9) [4, 5, 6]))
     (IntrusiveList_front (snd (push_all (demo_hooks, IntrusiveList_new 9) [4, 5, 6]))) = Some [6, 5, 4]"
proof -
  have "il_rep demo_hooks (IntrusiveList_new 9) []"
    by (rule il_rep_new) (simp add: demo_hooks_def IntrusiveListMemberHook_def)
  then have r: "il_rep (fst (push_all (demo_hooks, IntrusiveList_new 9) [4, 5, 6]))
      (snd (push_all (demo_hooks, IntrusiveList_new 9) [4, 5, 6])) ([6, 5, 4] @ [])"
    using push_all_rep [of "(demo_hooks, IntrusiveList_new 9)" "[]" "[4, 5, 6]"]
    by (simp add: demo_hooks_def IntrusiveListMemberHook_def list_linked_def)
  have "il_walk (il_size (snd (push_all (demo_hooks, IntrusiveList_new 9) [4, 5, 6])))
      (fst (push_all (demo_hooks, IntrusiveList_new 9) [4, 5, 6]))
      (IntrusiveList_front (snd (push_all (demo_hooks, IntrusiveList_new 9) [4, 5, 6]))) = Some [6, 5, 4]"
    using IntrusiveList_traversal_order [OF \<open>il_rep demo_hooks (IntrusiveList_new 9) []\<close>, of "[4, 5, 6]"]
    by (simp add: demo_hooks_def IntrusiveListMemberHook_def list_linked_def)
  moreover have "il_size (snd (push_all (demo_hooks, IntrusiveList_new 9) [4, 5, 6])) = 3"
    using r by (simp add: il_rep_def)
  ultimately show ?thesis by simp
qed

end
