(* ===== verification/ObjectModel.thy ===== *)
theory ObjectModel
  imports Prelude
begin

text \<open>
  Reference-counted objects: \<open>base/object.h\<close> and \<open>object.cpp\<close>, the autorelease pools of
  \<open>base/autoreleasepool.h\<close>, the \<open>ObjectMaintainer\<close> of \<open>base/objectmaintainer.h\<close> and the
  callback object of \<open>base/callback.h\<close>. The store maps the address of every live object to its
  reference count; an operation on an address that is not in the store is a use after free.
\<close>

section \<open>Objects\<close>

type_synonym oid = nat

record objheap =
  rc :: "oid \<Rightarrow> nat option"
  g_object_count :: nat
  obj_next :: oid

definition objheap_empty :: objheap where
  "objheap_empty = \<lparr>rc = (\<lambda>_. None), g_object_count = 0, obj_next = 0\<rparr>"

definition Object_new :: "objheap \<Rightarrow> oid \<times> objheap" where
  "Object_new h = (obj_next h, h\<lparr>rc := (rc h)(obj_next h \<mapsto> 1),
     g_object_count := u32 (g_object_count h + 1), obj_next := obj_next h + 1\<rparr>)"

text \<open>The destructor \<open>~Object\<close>, run by \<open>delete this\<close>: the count of live objects drops.\<close>

definition Object_delete :: "oid \<Rightarrow> objheap \<Rightarrow> objheap" where
  "Object_delete a h = h\<lparr>rc := (rc h)(a := None), g_object_count := u32_dec (g_object_count h)\<rparr>"

definition Object_reference_count :: "oid \<Rightarrow> objheap \<Rightarrow> nat result" where
  "Object_reference_count a h = (case rc h a of None \<Rightarrow> Inl UseAfterFree | Some n \<Rightarrow> Inr n)"

definition Object_IsSingleReference :: "oid \<Rightarrow> objheap \<Rightarrow> bool result" where
  "Object_IsSingleReference a h = bindE (Object_reference_count a h) (\<lambda>n. Inr (n = 1))"

definition Object_Retain :: "oid \<Rightarrow> objheap \<Rightarrow> objheap result" where
  "Object_Retain a h = (case rc h a of None \<Rightarrow> Inl UseAfterFree
     | Some n \<Rightarrow> Inr (h\<lparr>rc := (rc h)(a \<mapsto> u32 (n + 1))\<rparr>))"

definition Object_Release :: "oid \<Rightarrow> objheap \<Rightarrow> objheap result" where
  "Object_Release a h = (case rc h a of None \<Rightarrow> Inl UseAfterFree
     | Some n \<Rightarrow>
        (let h' = h\<lparr>rc := (rc h)(a \<mapsto> u32_dec n)\<rparr>
         in if u32_dec n = 0 then Inr (Object_delete a h') else Inr h'))"

definition SAFE_RELEASE :: "oid option \<Rightarrow> objheap \<Rightarrow> (oid option \<times> objheap) result" where
  "SAFE_RELEASE p h = (case p of None \<Rightarrow> Inr (None, h)
     | Some a \<Rightarrow> bindE (Object_Release a h) (\<lambda>h'. Inr (None, h')))"

text \<open>\<open>CallbackObject::operator()\<close> runs the function only while somebody else holds the object.\<close>

definition CallbackObject_call :: "oid \<Rightarrow> ('args \<Rightarrow> 'w \<Rightarrow> 'w) \<Rightarrow> 'args \<Rightarrow> objheap \<times> 'w \<Rightarrow> 'w result" where
  "CallbackObject_call a f args s = bindE (Object_reference_count a (fst s))
     (\<lambda>n. Inr (if n \<ge> 2 then f args (snd s) else snd s))"

section \<open>Autorelease pools\<close>

type_synonym pool = "oid list"

fun release_all :: "oid list \<Rightarrow> objheap \<Rightarrow> objheap result" where
  "release_all [] h = Inr h"
| "release_all (a # as) h = bindE (Object_Release a h) (release_all as)"

definition AutoReleasePool_Clear :: "pool \<Rightarrow> objheap \<Rightarrow> (pool \<times> objheap) result" where
  "AutoReleasePool_Clear objects h =
     (if objects \<noteq> [] then bindE (release_all objects h) (\<lambda>h'. Inr ([], h')) else Inr (objects, h))"

definition AutoReleasePool_AddObject :: "oid \<Rightarrow> pool \<Rightarrow> pool" where
  "AutoReleasePool_AddObject obj objects = objects @ [obj]"

text \<open>The stack of pools, top first.\<close>

type_synonym pools = "pool list"

definition PoolManager_Push :: "pools \<Rightarrow> pools" where
  "PoolManager_Push ps = [] # ps"

definition PoolManager_AddObject :: "oid \<Rightarrow> pools \<Rightarrow> pools" where
  "PoolManager_AddObject obj ps =
     (let ps' = (if ps = [] then PoolManager_Push ps else ps)
      in AutoReleasePool_AddObject obj (hd ps') # tl ps')"

definition PoolManager_Pop :: "pools \<Rightarrow> objheap \<Rightarrow> (pools \<times> objheap) result" where
  "PoolManager_Pop ps h =
     (if length ps > 1 then
        bindE (AutoReleasePool_Clear (hd ps) h) (\<lambda>(_, h'). Inr (tl ps, h'))
      else if length ps = 1 then
        bindE (AutoReleasePool_Clear (hd ps) h) (\<lambda>(p, h'). Inr ([p], h'))
      else Inr (ps, h))"

text \<open>The destructor of the pool manager, run by \<open>DeleteInstance\<close>: pools are deleted from the top.\<close>

fun PoolManager_destroy :: "pools \<Rightarrow> objheap \<Rightarrow> objheap result" where
  "PoolManager_destroy [] h = Inr h"
| "PoolManager_destroy (p # ps) h =
     bindE (AutoReleasePool_Clear p h) (\<lambda>(_, h'). PoolManager_destroy ps h')"

definition PoolManager_CreateInstance :: "pools option \<Rightarrow> pools option result" where
  "PoolManager_CreateInstance inst = assertE (inst = None) (Inr (Some []))"

definition PoolManager_DeleteInstance :: "pools option \<Rightarrow> objheap \<Rightarrow> (pools option \<times> objheap) result" where
  "PoolManager_DeleteInstance inst h = (case inst of None \<Rightarrow> Inl AssertFailed
     | Some ps \<Rightarrow> bindE (PoolManager_destroy ps h) (\<lambda>h'. Inr (None, h')))"

text \<open>\<open>Object::AutoRelease\<close> hands the object to the pool manager's instance.\<close>

definition Object_AutoRelease :: "oid \<Rightarrow> pools option \<Rightarrow> pools option result" where
  "Object_AutoRelease obj inst = (case inst of None \<Rightarrow> Inl NullDeref
     | Some ps \<Rightarrow> Inr (Some (PoolManager_AddObject obj ps)))"

section \<open>ObjectMaintainer\<close>

type_synonym maintainer = "(oid \<times> int) list"

definition ObjectMaintainer_Add :: "oid \<Rightarrow> int \<Rightarrow> maintainer \<Rightarrow> objheap \<Rightarrow> (maintainer \<times> objheap) result" where
  "ObjectMaintainer_Add obj tag m h = bindE (Object_Retain obj h) (\<lambda>h'. Inr (m @ [(obj, tag)], h'))"

fun ObjectMaintainer_ClearByTag :: "int \<Rightarrow> maintainer \<Rightarrow> objheap \<Rightarrow> (maintainer \<times> objheap) result" where
  "ObjectMaintainer_ClearByTag tag [] h = Inr ([], h)"
| "ObjectMaintainer_ClearByTag tag ((obj, t) # m) h =
     (if t = tag then bindE (Object_Release obj h) (ObjectMaintainer_ClearByTag tag m)
      else bindE (ObjectMaintainer_ClearByTag tag m h) (\<lambda>(m', h'). Inr ((obj, t) # m', h')))"

definition ObjectMaintainer_ClearAll :: "maintainer \<Rightarrow> objheap \<Rightarrow> (maintainer \<times> objheap) result" where
  "ObjectMaintainer_ClearAll m h = bindE (release_all (map fst m) h) (\<lambda>h'. Inr ([], h'))"

section \<open>Invariant and counting lemmas\<close>

text \<open>
  The counts of live objects are positive and fit their type, addresses not yet handed out are
  free, and the global counter equals the number of live objects modulo its width.
\<close>

definition obj_inv :: "objheap \<Rightarrow> bool" where
  [inv_defs]: "obj_inv h \<longleftrightarrow>
     (\<forall>a n. rc h a = Some n \<longrightarrow> 0 < n \<and> n < 4294967296) \<and>
     (\<forall>a \<ge> obj_next h. rc h a = None) \<and>
     g_object_count h = u32 (card (dom (rc h)))"

definition refs :: "objheap \<Rightarrow> oid \<Rightarrow> nat" where
  "refs h a = (case rc h a of None \<Rightarrow> 0 | Some n \<Rightarrow> n)"

lemma refs_pos_iff: "obj_inv h \<Longrightarrow> 0 < refs h a \<longleftrightarrow> a \<in> dom (rc h)"
  by (fastforce simp: refs_def obj_inv_def split: option.splits)

lemma obj_inv_finite: "obj_inv h \<Longrightarrow> finite (dom (rc h))"
proof -
  assume inv: "obj_inv h"
  have "dom (rc h) \<subseteq> {..<obj_next h}"
  proof
    fix a assume "a \<in> dom (rc h)"
    then have "\<not> obj_next h \<le> a" using inv by (auto simp: obj_inv_def)
    then show "a \<in> {..<obj_next h}" by simp
  qed
  then show ?thesis by (rule finite_subset) simp
qed

lemma obj_inv_empty: "obj_inv objheap_empty"
  by (simp add: obj_inv_def objheap_empty_def)

lemma Object_new_inv: "obj_inv h \<Longrightarrow> obj_inv (snd (Object_new h))"
proof -
  assume inv: "obj_inv h"
  have "obj_next h \<notin> dom (rc h)" using inv by (auto simp: obj_inv_def)
  then have "card (insert (obj_next h) (dom (rc h))) = Suc (card (dom (rc h)))"
    using obj_inv_finite [OF inv] by simp
  with inv show ?thesis
    by (auto simp: obj_inv_def Object_new_def u32_def mod_simps)
qed

lemma Object_Retain_refs:
  assumes "obj_inv h" and "a \<in> dom (rc h)" and "refs h a < 4294967295"
  shows "\<exists>h'. Object_Retain a h = Inr h' \<and> obj_inv h' \<and> refs h' = (refs h)(a := refs h a + 1)"
proof -
  obtain n where n: "rc h a = Some n" using assms(2) by auto
  let ?h = "h\<lparr>rc := (rc h)(a \<mapsto> n + 1)\<rparr>"
  have "n < 4294967295" using n assms(3) by (simp add: refs_def)
  then have "Object_Retain a h = Inr ?h" using n by (simp add: Object_Retain_def)
  moreover have "dom (rc ?h) = dom (rc h)" using n by auto
  then have "obj_inv ?h"
    using assms(1) n \<open>n < 4294967295\<close> by (auto simp: obj_inv_def)
  moreover have "refs ?h = (refs h)(a := refs h a + 1)"
    using n by (auto simp: refs_def fun_eq_iff)
  ultimately show ?thesis by blast
qed

lemma u32_dec_card: "0 < n \<Longrightarrow> u32_dec (u32 n) = u32 (n - 1)"
  by (cases n) (simp_all add: u32_dec_def u32_def mod_simps)

lemma Object_Release_refs:
  assumes inv: "obj_inv h" and live: "a \<in> dom (rc h)"
  shows "\<exists>h'. Object_Release a h = Inr h' \<and> obj_inv h' \<and> refs h' = (refs h)(a := refs h a - 1)
           \<and> (a \<in> dom (rc h') \<longleftrightarrow> 1 < refs h a) \<and> obj_next h' = obj_next h"
proof -
  obtain n where n: "rc h a = Some n" using live by auto
  then have b: "0 < n" "n < 4294967296" using inv by (auto simp: obj_inv_def)
  show ?thesis
  proof (cases "n = 1")
    case True
    let ?h = "h\<lparr>rc := (rc h)(a := None), g_object_count := u32_dec (g_object_count h)\<rparr>"
    have "Object_Release a h = Inr ?h"
      using n True by (simp add: Object_Release_def Object_delete_def Let_def u32_dec_def)
    moreover have "card (dom (rc h) - {a}) = card (dom (rc h)) - 1"
      using n by (simp add: card_Diff_singleton domI)
    moreover have "0 < card (dom (rc h))"
      using live obj_inv_finite [OF inv] by (auto simp: card_gt_0_iff)
    ultimately have "obj_inv ?h"
      using inv by (auto simp: obj_inv_def u32_dec_card)
    moreover have "refs ?h = (refs h)(a := refs h a - 1)"
      using n True by (auto simp: refs_def fun_eq_iff)
    ultimately show ?thesis
      using \<open>Object_Release a h = Inr ?h\<close> n True by (auto simp: refs_def)
  next
    case False
    let ?h = "h\<lparr>rc := (rc h)(a \<mapsto> n - 1)\<rparr>"
    have "Object_Release a h = Inr ?h"
      using n b False by (simp add: Object_Release_def Let_def)
    moreover have "dom (rc ?h) = dom (rc h)" using n by auto
    then have "obj_inv ?h"
      using inv n by (auto simp: obj_inv_def) (use b False in linarith)+
    moreover have "refs ?h = (refs h)(a := refs h a - 1)"
      using n by (auto simp: refs_def fun_eq_iff)
    ultimately show ?thesis
      using n b False by (auto simp: refs_def)
  qed
qed

lemma release_all_refs:
  assumes "obj_inv h" and "\<And>a. count_list as a \<le> refs h a"
  shows "\<exists>h'. release_all as h = Inr h' \<and> obj_inv h' \<and> refs h' = (\<lambda>a. refs h a - count_list as a)
           \<and> obj_next h' = obj_next h"
  using assms
proof (induction as arbitrary: h)
  case (Cons a as)
  have "0 < refs h a" using Cons.prems(2) [of a] by simp
  then have "a \<in> dom (rc h)" using Cons.prems(1) by (simp add: refs_pos_iff)
  then obtain h1 where h1: "Object_Release a h = Inr h1" "obj_inv h1"
      "refs h1 = (refs h)(a := refs h a - 1)" "obj_next h1 = obj_next h"
    using Object_Release_refs [OF Cons.prems(1)] by blast
  have "count_list as b \<le> refs h1 b" for b
    using Cons.prems(2) [of b] h1(3) by (auto split: if_splits)
  then obtain h2 where "release_all as h1 = Inr h2" "obj_inv h2"
      "refs h2 = (\<lambda>b. refs h1 b - count_list as b)" "obj_next h2 = obj_next h1"
    using Cons.IH [OF h1(2)] by blast
  with h1 show ?case by (auto simp: fun_eq_iff)
qed simp

lemma release_all_append: "release_all (as @ bs) h = bindE (release_all as h) (release_all bs)"
proof (induction as arbitrary: h)
  case (Cons a as)
  then show ?case by (cases "Object_Release a h") auto
qed simp

lemma Clear_eq: "AutoReleasePool_Clear p h = bindE (release_all p h) (\<lambda>h'. Inr ([], h'))"
  by (simp add: AutoReleasePool_Clear_def)

lemma Pop_eq:
  "release_all p h = Inr h' \<Longrightarrow> PoolManager_Pop (p # ps) h = Inr (if ps = [] then [[]] else ps, h')"
  by (simp add: PoolManager_Pop_def Clear_eq)

lemma PoolManager_destroy_eq: "PoolManager_destroy ps h = release_all (concat ps) h"
proof (induction ps arbitrary: h)
  case (Cons p ps)
  then show ?case
    by (cases "release_all p h") (auto simp: Clear_eq release_all_append)
qed simp

lemma ClearByTag_eq:
  "ObjectMaintainer_ClearByTag tag m h =
     bindE (release_all (map fst (filter (\<lambda>i. snd i = tag) m)) h) (\<lambda>h'. Inr (filter (\<lambda>i. snd i \<noteq> tag) m, h'))"
proof (induction tag m h rule: ObjectMaintainer_ClearByTag.induct)
  case (2 tag obj t m h)
  show ?case
  proof (cases "t = tag")
    case True
    with "2.IH"(1) show ?thesis by (cases "Object_Release obj h") auto
  next
    case False
    with "2.IH"(2) show ?thesis
      by (cases "release_all (map fst (filter (\<lambda>i. snd i = tag) m)) h") auto
  qed
qed simp

section \<open>Properties\<close>

text \<open>
  Popping the autorelease pools at the end of a dispatcher frame releases every object of the
  top pool exactly once per \<open>AutoRelease\<close>, without a use after free as long as each object is
  referenced at least that often; no other object changes, the pools below are untouched, one
  pool always remains, and the invariant of the store is kept.
\<close>

lemma PoolManager_Pop_releases:
  assumes "obj_inv h" and "\<And>a. count_list p a \<le> refs h a"
  shows "\<exists>h'. PoolManager_Pop (p # ps) h = Inr (if ps = [] then [[]] else ps, h') \<and> obj_inv h'
           \<and> refs h' = (\<lambda>a. refs h a - count_list p a)"
  using release_all_refs [OF assms] Pop_eq by blast

lemma PoolManager_Pop_releases_witness:
  "\<exists>h'. PoolManager_Pop [[0, 0]] (objheap_empty\<lparr>rc := [0 \<mapsto> 3], g_object_count := 1, obj_next := 1\<rparr>) = Inr ([[]], h')
     \<and> obj_inv h' \<and> refs h' = (\<lambda>a. refs (objheap_empty\<lparr>rc := [0 \<mapsto> 3], g_object_count := 1, obj_next := 1\<rparr>) a
         - count_list [0, 0] a)"
proof -
  let ?h = "objheap_empty\<lparr>rc := [0 \<mapsto> 3], g_object_count := 1, obj_next := 1\<rparr>"
  have "obj_inv ?h" by (simp add: obj_inv_def objheap_empty_def)
  moreover have "count_list [0, 0] a \<le> refs ?h a" for a by (simp add: refs_def)
  ultimately show ?thesis using PoolManager_Pop_releases [of ?h "[0, 0]" "[]"] by simp
qed

text \<open>
  \<open>ClearByTag\<close> drops exactly the items with the given tag, keeps the others in their order, and
  releases each dropped item's object once; it cannot touch a freed object when every item of the
  maintainer holds a reference.
\<close>

lemma ObjectMaintainer_ClearByTag_releases:
  assumes "obj_inv h" and "\<And>a. count_list (map fst m) a \<le> refs h a"
  shows "\<exists>h'. ObjectMaintainer_ClearByTag tag m h = Inr (filter (\<lambda>i. snd i \<noteq> tag) m, h') \<and> obj_inv h'
           \<and> refs h' = (\<lambda>a. refs h a - count_list (map fst (filter (\<lambda>i. snd i = tag) m)) a)
           \<and> (\<forall>a. count_list (map fst (filter (\<lambda>i. snd i \<noteq> tag) m)) a \<le> refs h' a)"
proof -
  have split: "count_list (map fst m) a = count_list (map fst (filter (\<lambda>i. snd i = tag) m)) a
      + count_list (map fst (filter (\<lambda>i. snd i \<noteq> tag) m)) a" for a
    by (induction m) auto
  have "count_list (map fst (filter (\<lambda>i. snd i = tag) m)) a \<le> refs h a" for a
    using assms(2) [of a] split [of a] by simp
  then obtain h' where h': "release_all (map fst (filter (\<lambda>i. snd i = tag) m)) h = Inr h'" "obj_inv h'"
      "refs h' = (\<lambda>a. refs h a - count_list (map fst (filter (\<lambda>i. snd i = tag) m)) a)"
    using release_all_refs [OF assms(1)] by blast
  moreover have "count_list (map fst (filter (\<lambda>i. snd i \<noteq> tag) m)) a \<le> refs h' a" for a
    using assms(2) [of a] split [of a] h'(3) by simp
  ultimately show ?thesis by (auto simp: ClearByTag_eq)
qed

lemma ObjectMaintainer_ClearByTag_releases_witness:
  "\<exists>h'. ObjectMaintainer_ClearByTag 7 [(0, 7), (0, 1)]
       (objheap_empty\<lparr>rc := [0 \<mapsto> 2], g_object_count := 1, obj_next := 1\<rparr>)
     = Inr ([(0, 1)], h') \<and> obj_inv h' \<and> refs h' 0 = 1"
proof -
  let ?h = "objheap_empty\<lparr>rc := [0 \<mapsto> 2], g_object_count := 1, obj_next := 1\<rparr>"
  have "obj_inv ?h" by (simp add: obj_inv_def objheap_empty_def)
  moreover have "refs ?h 0 = 2" by (simp add: refs_def)
  moreover have "count_list (map fst [(0::nat, 7::int), (0, 1)]) a \<le> refs ?h a" for a
    by (simp add: refs_def)
  ultimately show ?thesis
    using ObjectMaintainer_ClearByTag_releases [of ?h "[(0, 7), (0, 1)]" 7] \<open>refs ?h 0 = 2\<close> by auto
qed

text \<open>
  The life of an autoreleased object: created with one reference, handed to the pool, it lives
  until the pool is popped and is freed there; the store returns to what it was.
\<close>

lemma AutoRelease_lifetime:
  assumes "obj_inv h"
  shows "\<exists>ps h'. Object_AutoRelease (obj_next h) (Some []) = Inr (Some ps) \<and>
           refs (snd (Object_new h)) (obj_next h) = 1 \<and>
           PoolManager_Pop ps (snd (Object_new h)) = Inr ([[]], h') \<and> obj_inv h' \<and> refs h' = refs h \<and>
           g_object_count h' = g_object_count h"
proof -
  let ?h = "snd (Object_new h)" and ?a = "obj_next h"
  have inv: "obj_inv ?h" using assms by (rule Object_new_inv)
  have r: "refs ?h = (refs h)(?a := 1)" and f: "rc h ?a = None"
    using assms by (auto simp: refs_def Object_new_def fun_eq_iff obj_inv_def)
  have "count_list [?a] a \<le> refs ?h a" for a using r by simp
  then obtain h' where "release_all [?a] ?h = Inr h'" and h': "obj_inv h'"
      "refs h' = (\<lambda>a. refs ?h a - count_list [?a] a)"
    using release_all_refs [OF inv, of "[?a]"] by blast
  then have pop: "PoolManager_Pop [[?a]] ?h = Inr ([[]], h')" by (simp add: Pop_eq)
  have "refs h' = refs h" using h'(2) r f by (auto simp: fun_eq_iff refs_def)
  then have "dom (rc h') = dom (rc h)"
    using refs_pos_iff [OF h'(1)] refs_pos_iff [OF assms] by auto
  then have "g_object_count h' = g_object_count h"
    using h'(1) assms by (simp add: obj_inv_def)
  with h' pop r \<open>refs h' = refs h\<close> show ?thesis
    by (simp add: Object_AutoRelease_def PoolManager_AddObject_def PoolManager_Push_def
        AutoReleasePool_AddObject_def)
qed

lemma AutoRelease_lifetime_witness:
  "\<exists>ps h'. Object_AutoRelease 0 (Some []) = Inr (Some ps) \<and>
     PoolManager_Pop ps (snd (Object_new objheap_empty)) = Inr ([[]], h') \<and> refs h' = refs objheap_empty"
  using AutoRelease_lifetime [OF obj_inv_empty] by (auto simp: objheap_empty_def)

end
