(* ===== verification/Memory.thy ===== *)
theory Memory
  imports Prelude
begin

text \<open>
  The buffers of \<open>base/memory\<close>: \<open>MemoryChunk\<close>, the counted views \<open>RefMemoryChunk\<close> onto a chunk
  and the \<open>MemoryPool\<close> that recycles chunks. The store holds the chunks of one pool; a view is the
  chunk it maps, the offset of its first byte in the chunk, the cursor and the length. A chunk that
  is not in the store has been deleted. The bytes of a fresh chunk are not initialised by
  \<open>new char[length]\<close>: they come from the parameter \<open>mp_junk\<close>, about which nothing is assumed.
\<close>

section \<open>Chunks, views and the pool\<close>

type_synonym cid = nat

record chunk =
  ck_data :: bytes
  ck_ref :: nat

record mem =
  mp_chunksize :: nat
  mp_poolsize :: nat
  mp_chunks :: "cid list"
  ck_store :: "cid \<Rightarrow> chunk option"
  ck_next :: cid
  mp_junk :: "cid \<Rightarrow> nat \<Rightarrow> byte"

record refchunk =
  rm_chunk :: "cid option"
  rm_data :: nat
  rm_pos :: nat
  rm_count :: nat

definition MemoryChunk_new :: "nat \<Rightarrow> mem \<Rightarrow> cid \<times> mem" where
  "MemoryChunk_new len m = (ck_next m,
     m\<lparr>ck_store := (ck_store m)(ck_next m \<mapsto> \<lparr>ck_data = map (mp_junk m (ck_next m)) [0..<len], ck_ref = 0\<rparr>),
       ck_next := ck_next m + 1\<rparr>)"

definition MemoryChunk_delete :: "cid \<Rightarrow> mem \<Rightarrow> mem" where
  "MemoryChunk_delete c m = m\<lparr>ck_store := (ck_store m)(c := None)\<rparr>"

definition MemoryChunk_IncRef :: "cid \<Rightarrow> mem \<Rightarrow> mem result" where
  "MemoryChunk_IncRef c m = (case ck_store m c of None \<Rightarrow> Inl UseAfterFree
     | Some ch \<Rightarrow> Inr (m\<lparr>ck_store := (ck_store m)(c \<mapsto> ch\<lparr>ck_ref := u32 (ck_ref ch + 1)\<rparr>)\<rparr>))"

definition MemoryChunk_DecRef :: "cid \<Rightarrow> mem \<Rightarrow> mem result" where
  "MemoryChunk_DecRef c m = (case ck_store m c of None \<Rightarrow> Inl UseAfterFree
     | Some ch \<Rightarrow> Inr (m\<lparr>ck_store := (ck_store m)(c \<mapsto> ch\<lparr>ck_ref := u32_dec (ck_ref ch)\<rparr>)\<rparr>))"

definition MemoryChunk_ref :: "cid \<Rightarrow> mem \<Rightarrow> nat result" where
  "MemoryChunk_ref c m = (case ck_store m c of None \<Rightarrow> Inl UseAfterFree | Some ch \<Rightarrow> Inr (ck_ref ch))"

text \<open>\<open>memcpy\<close> from and to a chunk; reading or writing past its end is out of range.\<close>

definition chunk_load :: "cid option \<Rightarrow> nat \<Rightarrow> nat \<Rightarrow> mem \<Rightarrow> bytes result" where
  "chunk_load p off n m = (case p of None \<Rightarrow> (if n = 0 then Inr [] else Inl NullDeref)
     | Some c \<Rightarrow> (case ck_store m c of None \<Rightarrow> Inl UseAfterFree
        | Some ch \<Rightarrow> if off + n \<le> length (ck_data ch) then Inr (take n (drop off (ck_data ch)))
                     else Inl OutOfRange))"

definition chunk_save :: "cid option \<Rightarrow> nat \<Rightarrow> bytes \<Rightarrow> mem \<Rightarrow> mem result" where
  "chunk_save p off bs m = (case p of None \<Rightarrow> (if bs = [] then Inr m else Inl NullDeref)
     | Some c \<Rightarrow> (case ck_store m c of None \<Rightarrow> Inl UseAfterFree
        | Some ch \<Rightarrow> if off + length bs \<le> length (ck_data ch)
                     then Inr (m\<lparr>ck_store := (ck_store m)(c \<mapsto> ch\<lparr>ck_data := overwrite (ck_data ch) off bs\<rparr>)\<rparr>)
                     else Inl OutOfRange))"

definition MemoryPool_Release :: "cid \<Rightarrow> mem \<Rightarrow> mem" where
  "MemoryPool_Release c m =
     (if length (mp_chunks m) \<ge> mp_poolsize m then MemoryChunk_delete c m
      else m\<lparr>mp_chunks := mp_chunks m @ [c]\<rparr>)"

definition RefMemoryChunk_default :: refchunk where
  "RefMemoryChunk_default = \<lparr>rm_chunk = None, rm_data = 0, rm_pos = 0, rm_count = 0\<rparr>"

definition RefMemoryChunk_RetainChunk :: "refchunk \<Rightarrow> mem \<Rightarrow> mem result" where
  "RefMemoryChunk_RetainChunk r m = (case rm_chunk r of None \<Rightarrow> Inr m | Some c \<Rightarrow> MemoryChunk_IncRef c m)"

definition RefMemoryChunk_ReleaseChunk :: "refchunk \<Rightarrow> mem \<Rightarrow> (refchunk \<times> mem) result" where
  "RefMemoryChunk_ReleaseChunk r m = (case rm_chunk r of None \<Rightarrow> Inr (r, m)
     | Some c \<Rightarrow> bindE (MemoryChunk_DecRef c m) (\<lambda>m1.
         bindE (MemoryChunk_ref c m1) (\<lambda>n.
           Inr (RefMemoryChunk_default, if n = 0 then MemoryPool_Release c m1 else m1))))"

definition RefMemoryChunk_new :: "cid \<Rightarrow> mem \<Rightarrow> (refchunk \<times> mem) result" where
  "RefMemoryChunk_new c m = (case ck_store m c of None \<Rightarrow> Inl UseAfterFree
     | Some ch \<Rightarrow>
        (let r = \<lparr>rm_chunk = Some c, rm_data = 0, rm_pos = 0, rm_count = length (ck_data ch)\<rparr>
         in bindE (RefMemoryChunk_RetainChunk r m) (\<lambda>m'. Inr (r, m'))))"

definition RefMemoryChunk_copy :: "refchunk \<Rightarrow> mem \<Rightarrow> (refchunk \<times> mem) result" where
  "RefMemoryChunk_copy rhs m = bindE (RefMemoryChunk_RetainChunk rhs m) (\<lambda>m'. Inr (rhs, m'))"

definition RefMemoryChunk_destroy :: "refchunk \<Rightarrow> mem \<Rightarrow> mem result" where
  "RefMemoryChunk_destroy r m = bindE (RefMemoryChunk_ReleaseChunk r m) (\<lambda>(_, m'). Inr m')"

text \<open>
  Copy assignment releases the old chunk before it retains the new one. The right side is another view or, for
  \<open>None\<close>, the view itself, which the release has emptied by the time its fields are read.
\<close>

definition RefMemoryChunk_assign :: "refchunk \<Rightarrow> refchunk option \<Rightarrow> mem \<Rightarrow> (refchunk \<times> mem) result" where
  "RefMemoryChunk_assign r rhs m = bindE (RefMemoryChunk_ReleaseChunk r m) (\<lambda>(r1, m1).
     let q = (case rhs of None \<Rightarrow> r1 | Some q \<Rightarrow> q) in bindE (RefMemoryChunk_RetainChunk q m1) (\<lambda>m2. Inr (q, m2)))"

section \<open>Moving a view\<close>

definition RefMemoryChunk_Reset :: "refchunk \<Rightarrow> refchunk" where
  "RefMemoryChunk_Reset r = r\<lparr>rm_pos := 0\<rparr>"

definition RefMemoryChunk_ResetOffset :: "refchunk \<Rightarrow> nat \<Rightarrow> nat \<Rightarrow> mem \<Rightarrow> refchunk result" where
  "RefMemoryChunk_ResetOffset r offset cnt m = (case rm_chunk r of None \<Rightarrow> Inl NullDeref
     | Some c \<Rightarrow> (case ck_store m c of None \<Rightarrow> Inl UseAfterFree
        | Some ch \<Rightarrow> assertE (offset \<le> length (ck_data ch) \<and> cnt \<le> length (ck_data ch) - offset)
             (Inr (RefMemoryChunk_Reset (r\<lparr>rm_data := offset, rm_count := cnt\<rparr>)))))"

definition RefMemoryChunk_ShrinkCount :: "refchunk \<Rightarrow> nat \<Rightarrow> refchunk result" where
  "RefMemoryChunk_ShrinkCount r shrink = assertE (rm_count r \<ge> shrink)
     (Inr (RefMemoryChunk_Reset (r\<lparr>rm_count := rm_count r - shrink\<rparr>)))"

definition RefMemoryChunk_ForwardOffset :: "refchunk \<Rightarrow> nat \<Rightarrow> refchunk result" where
  "RefMemoryChunk_ForwardOffset r forward = assertE (forward \<le> rm_count r)
     (Inr (RefMemoryChunk_Reset (r\<lparr>rm_data := rm_data r + forward, rm_count := rm_count r - forward\<rparr>)))"

definition RefMemoryChunk_Skip :: "refchunk \<Rightarrow> nat \<Rightarrow> refchunk result" where
  "RefMemoryChunk_Skip r step = assertE (u32 (rm_pos r + step) \<le> rm_count r)
     (Inr (r\<lparr>rm_pos := u32 (rm_pos r + step)\<rparr>))"

definition RefMemoryChunk_SkipTo :: "refchunk \<Rightarrow> nat \<Rightarrow> refchunk result" where
  "RefMemoryChunk_SkipTo r pos = assertE (pos \<le> rm_count r) (Inr (r\<lparr>rm_pos := pos\<rparr>))"

definition RefMemoryChunk_FreeCount :: "refchunk \<Rightarrow> nat" where
  "RefMemoryChunk_FreeCount r = u32_sub (rm_count r) (rm_pos r)"

section \<open>Reading and writing through a view\<close>

text \<open>The bytes copied out; their number is the value the source returns.\<close>

definition RefMemoryChunk_Read :: "refchunk \<Rightarrow> nat \<Rightarrow> mem \<Rightarrow> (bytes \<times> refchunk) result" where
  "RefMemoryChunk_Read r cnt m =
     (let free = RefMemoryChunk_FreeCount r in
      if free \<ge> cnt then
        bindE (chunk_load (rm_chunk r) (rm_data r + rm_pos r) cnt m)
          (\<lambda>bs. Inr (bs, r\<lparr>rm_pos := u32 (rm_pos r + cnt)\<rparr>))
      else if free > 0 then
        bindE (chunk_load (rm_chunk r) (rm_data r + rm_pos r) free m)
          (\<lambda>bs. Inr (bs, r\<lparr>rm_pos := u32 (rm_pos r + free)\<rparr>))
      else Inr ([], r))"

definition RefMemoryChunk_Write :: "refchunk \<Rightarrow> bytes \<Rightarrow> mem \<Rightarrow> (nat \<times> refchunk \<times> mem) result" where
  "RefMemoryChunk_Write r src m =
     (let free = RefMemoryChunk_FreeCount r; cnt = length src in
      if free \<ge> cnt then
        bindE (chunk_save (rm_chunk r) (rm_data r + rm_pos r) src m)
          (\<lambda>m'. Inr (cnt, r\<lparr>rm_pos := u32 (rm_pos r + cnt)\<rparr>, m'))
      else if free > 0 then
        bindE (chunk_save (rm_chunk r) (rm_data r + rm_pos r) (take free src) m)
          (\<lambda>m'. Inr (free, r\<lparr>rm_pos := u32 (rm_pos r + free)\<rparr>, m'))
      else Inr (0, r, m))"

section \<open>The pool\<close>

fun MemoryPool_fill :: "nat \<Rightarrow> mem \<Rightarrow> mem" where
  "MemoryPool_fill 0 m = m"
| "MemoryPool_fill (Suc n) m =
     (let (c, m1) = MemoryChunk_new (mp_chunksize m) m
      in MemoryPool_fill n (m1\<lparr>mp_chunks := mp_chunks m1 @ [c]\<rparr>))"

definition MemoryPool_new :: "(cid \<Rightarrow> nat \<Rightarrow> byte) \<Rightarrow> nat \<Rightarrow> nat \<Rightarrow> mem" where
  "MemoryPool_new junk chunksize poolsize = MemoryPool_fill poolsize
     \<lparr>mp_chunksize = chunksize, mp_poolsize = poolsize, mp_chunks = [],
      ck_store = (\<lambda>_. None), ck_next = 0, mp_junk = junk\<rparr>"

text \<open>The destructor: the leak report it logs, and the store after the pooled chunks are deleted.\<close>

definition MemoryPool_destroy :: "mem \<Rightarrow> bool \<times> mem" where
  "MemoryPool_destroy m = (length (mp_chunks m) \<noteq> mp_poolsize m,
     (fold MemoryChunk_delete (mp_chunks m) m)\<lparr>mp_chunks := []\<rparr>)"

definition MemoryPool_CalculateChunkCount :: "nat \<Rightarrow> mem \<Rightarrow> nat result" where
  "MemoryPool_CalculateChunkCount bytes_count m =
     (if mp_chunksize m = 0 then Inl DivByZero
      else (let r = bytes_count div mp_chunksize m
            in Inr (u32 (if bytes_count mod mp_chunksize m > 0 then r + 1 else r))))"

text \<open>
  One round of \<open>Aquire\<close>: a chunk from the pool or a new one, wrapped in a temporary view that is
  copied into the container and destroyed.
\<close>

definition MemoryPool_take :: "mem \<Rightarrow> cid \<times> mem" where
  "MemoryPool_take m = (case mp_chunks m of c # cs \<Rightarrow> (c, m\<lparr>mp_chunks := cs\<rparr>)
     | [] \<Rightarrow> MemoryChunk_new (mp_chunksize m) m)"

fun MemoryPool_Aquire :: "refchunk list \<Rightarrow> nat \<Rightarrow> mem \<Rightarrow> (refchunk list \<times> mem) result" where
  "MemoryPool_Aquire container 0 m = Inr (container, m)"
| "MemoryPool_Aquire container (Suc n) m =
     (let (chk, m0) = MemoryPool_take m in
      bindE (RefMemoryChunk_new chk m0) (\<lambda>(tmp, m1).
        bindE (RefMemoryChunk_copy tmp m1) (\<lambda>(r, m2).
          bindE (RefMemoryChunk_destroy tmp m2) (\<lambda>m3.
            MemoryPool_Aquire (container @ [r]) n m3))))"

definition MemoryPool_AquireByByteNeed :: "refchunk list \<Rightarrow> nat \<Rightarrow> mem \<Rightarrow> (refchunk list \<times> mem) result" where
  "MemoryPool_AquireByByteNeed container bytes_count m =
     bindE (MemoryPool_CalculateChunkCount bytes_count m) (\<lambda>need. MemoryPool_Aquire container need m)"

text \<open>Destroying a container of views destroys each of them.\<close>

fun destroy_views :: "refchunk list \<Rightarrow> mem \<Rightarrow> mem result" where
  "destroy_views [] m = Inr m"
| "destroy_views (r # rs) m = bindE (RefMemoryChunk_destroy r m) (destroy_views rs)"

section \<open>Invariant\<close>

text \<open>
  \<open>hs\<close> lists all live views onto the chunks of the pool. The reference count of every chunk is the
  number of views that map it, the free queue holds exactly the chunks no view maps and is no longer
  than the pool size, every view lies inside its chunk, and the pool never owns fewer chunks than it
  was built with.
\<close>

definition rm_wf :: "mem \<Rightarrow> refchunk \<Rightarrow> bool" where
  [inv_defs]: "rm_wf m r \<longleftrightarrow> rm_pos r \<le> rm_count r \<and> rm_count r < 4294967296 \<and>
     (case rm_chunk r of None \<Rightarrow> rm_count r = 0
      | Some c \<Rightarrow> (case ck_store m c of None \<Rightarrow> False
          | Some ch \<Rightarrow> rm_data r + rm_count r \<le> length (ck_data ch)))"

definition held :: "refchunk list \<Rightarrow> cid \<Rightarrow> nat" where
  "held hs c = count_list (map rm_chunk hs) (Some c)"

definition data_of :: "mem \<Rightarrow> cid \<Rightarrow> bytes option" where
  "data_of m c = map_option ck_data (ck_store m c)"

definition ref_bytes :: "mem \<Rightarrow> refchunk \<Rightarrow> bytes" where
  "ref_bytes m r = (case rm_chunk r of None \<Rightarrow> [] | Some c \<Rightarrow>
     (case ck_store m c of None \<Rightarrow> [] | Some ch \<Rightarrow> take (rm_count r) (drop (rm_data r) (ck_data ch))))"

definition mem_inv :: "mem \<Rightarrow> refchunk list \<Rightarrow> bool" where
  [inv_defs]: "mem_inv m hs \<longleftrightarrow>
     (\<forall>r \<in> set hs. rm_wf m r) \<and>
     (\<forall>c ch. ck_store m c = Some ch \<longrightarrow> ck_ref ch = held hs c \<and> length (ck_data ch) = mp_chunksize m) \<and>
     distinct (mp_chunks m) \<and>
     (\<forall>c. c \<in> set (mp_chunks m) \<longleftrightarrow> ck_store m c \<noteq> None \<and> held hs c = 0) \<and>
     length (mp_chunks m) \<le> mp_poolsize m \<and> (\<forall>c \<ge> ck_next m. ck_store m c = None) \<and>
     mp_poolsize m \<le> card (dom (ck_store m)) \<and> mp_chunksize m < 4294967296 \<and> length hs < 4294967296"

lemma held_simps [simp]:
  "held [] c = 0"
  "held (r # hs) c = (if rm_chunk r = Some c then Suc (held hs c) else held hs c)"
  by (simp_all add: held_def)

lemma held_append [simp]: "held (hs @ hs') c = held hs c + held hs' c"
  by (induction hs) auto

lemma held_le: "held hs c \<le> length hs"
  using count_le_length [of "map rm_chunk hs" "Some c"] by (simp add: held_def)

lemma held_pos: "r \<in> set hs \<Longrightarrow> rm_chunk r = Some c \<Longrightarrow> 0 < held hs c"
  by (induction hs) auto

lemma held_perm: "mset hs = mset hs' \<Longrightarrow> held hs c = held hs' c"
  by (metis held_def mset_map count_mset)

lemma mem_inv_perm:
  assumes "mem_inv m hs" and "mset hs = mset hs'"
  shows "mem_inv m hs'"
proof -
  have "set hs = set hs'" using assms(2) by (metis set_mset_mset)
  moreover have "length hs = length hs'" using assms(2) by (metis size_mset)
  ultimately show ?thesis
    using assms(1) held_perm [OF assms(2)] by (simp add: mem_inv_def)
qed

lemma mem_inv_finite: "mem_inv m hs \<Longrightarrow> finite (dom (ck_store m))"
proof -
  assume "mem_inv m hs"
  then have "dom (ck_store m) \<subseteq> {..<ck_next m}"
    by (auto simp: mem_inv_def) (metis not_le option.distinct(1))
  then show ?thesis by (rule finite_subset) simp
qed

lemma length_ref_bytes: "rm_wf m r \<Longrightarrow> length (ref_bytes m r) = rm_count r"
  by (auto simp: rm_wf_def ref_bytes_def split: option.splits)

lemma ref_bytes_cong: "(\<And>c. rm_chunk r = Some c \<Longrightarrow> data_of m' c = data_of m c) \<Longrightarrow> ref_bytes m' r = ref_bytes m r"
  by (auto simp: ref_bytes_def data_of_def split: option.splits)

lemma rm_wf_cong: "(\<And>c. rm_chunk r = Some c \<Longrightarrow> data_of m' c = data_of m c) \<Longrightarrow> rm_wf m' r = rm_wf m r"
  by (auto simp: rm_wf_def data_of_def split: option.splits)

lemma ref_bytes_pos [simp]: "ref_bytes m (r\<lparr>rm_pos := p\<rparr>) = ref_bytes m r"
  by (simp add: ref_bytes_def split: option.splits)

text \<open>Replacing a view by another one onto the same chunk that is still inside it.\<close>

lemma mem_inv_move:
  assumes "mem_inv m (hs @ r # hs')" and "rm_chunk r' = rm_chunk r" and "rm_wf m r'"
  shows "mem_inv m (hs @ r' # hs')"
  using assms by (auto simp: mem_inv_def)

section \<open>Lifetime lemmas\<close>

lemma RetainChunk_inv:
  assumes inv: "mem_inv m hs" and wf: "rm_wf m r" and sh: "rm_chunk r \<in> insert None (rm_chunk ` set hs)"
    and len: "Suc (length hs) < 4294967296"
  shows "\<exists>m'. RefMemoryChunk_RetainChunk r m = Inr m' \<and> mem_inv m' (r # hs) \<and> data_of m' = data_of m
           \<and> mp_chunksize m' = mp_chunksize m"
proof (cases "rm_chunk r")
  case None
  then show ?thesis
    using inv wf len by (auto simp: RefMemoryChunk_RetainChunk_def mem_inv_def)
next
  case (Some c)
  then obtain ch where ch: "ck_store m c = Some ch"
    using wf by (auto simp: rm_wf_def split: option.splits)
  have pos: "0 < held hs c" using sh Some held_pos by fastforce
  have ref: "ck_ref ch = held hs c" using inv ch by (auto simp: mem_inv_def)
  have "held hs c < 4294967295" using held_le [of hs c] len by simp
  then have eq: "RefMemoryChunk_RetainChunk r m
      = Inr (m\<lparr>ck_store := (ck_store m)(c \<mapsto> ch\<lparr>ck_ref := held hs c + 1\<rparr>)\<rparr>)" (is "_ = Inr ?m")
    using Some ch ref by (simp add: RefMemoryChunk_RetainChunk_def MemoryChunk_IncRef_def)
  have data: "data_of ?m = data_of m" using ch by (auto simp: data_of_def)
  then have "\<forall>r \<in> set (r # hs). rm_wf ?m r"
    using inv wf rm_wf_cong [of _ ?m m] by (simp add: mem_inv_def)
  moreover have "dom (ck_store ?m) = dom (ck_store m)" using ch by auto
  ultimately have "mem_inv ?m (r # hs)"
    using inv ch ref pos Some len by (auto simp: mem_inv_def)
  with eq data show ?thesis by auto
qed

lemma mem_inv_upd_ref:
  assumes inv: "mem_inv m (r # hs)" and r: "rm_chunk r = Some c" and ch: "ck_store m c = Some ch"
    and h: "0 < held hs c"
  shows "mem_inv (m\<lparr>ck_store := (ck_store m)(c \<mapsto> ch\<lparr>ck_ref := held hs c\<rparr>)\<rparr>) hs" (is "mem_inv ?m hs")
proof -
  have data: "data_of ?m = data_of m" using ch by (auto simp: data_of_def)
  then have "\<forall>r \<in> set hs. rm_wf ?m r"
    using inv rm_wf_cong [of _ ?m m] by (simp add: mem_inv_def)
  moreover have "dom (ck_store ?m) = dom (ck_store m)" using ch by auto
  ultimately show ?thesis
    using inv ch r h by (auto simp: mem_inv_def split: if_splits)
qed

lemma rm_wf_other: "rm_chunk r \<noteq> Some c \<Longrightarrow> ck_store m' = (ck_store m)(c := x) \<Longrightarrow> rm_wf m' r = rm_wf m r"
  by (auto simp: rm_wf_def split: option.splits)

lemma not_held: "held hs c = 0 \<Longrightarrow> r \<in> set hs \<Longrightarrow> rm_chunk r \<noteq> Some c"
  using held_pos by fastforce

lemma mem_inv_to_pool:
  assumes inv: "mem_inv m (r # hs)" and r: "rm_chunk r = Some c" and ch: "ck_store m c = Some ch"
    and h: "held hs c = 0" and room: "length (mp_chunks m) < mp_poolsize m"
  shows "mem_inv (m\<lparr>ck_store := (ck_store m)(c \<mapsto> ch\<lparr>ck_ref := 0\<rparr>), mp_chunks := mp_chunks m @ [c]\<rparr>) hs"
    (is "mem_inv ?m hs")
proof -
  have "\<forall>r \<in> set hs. rm_wf ?m r"
    using inv rm_wf_other [of _ c ?m m] not_held [OF h] by (simp add: mem_inv_def)
  moreover have "dom (ck_store ?m) = dom (ck_store m)" using ch by auto
  moreover have "c \<notin> set (mp_chunks m)" using inv r by (auto simp: mem_inv_def)
  ultimately show ?thesis
    using inv ch r h room by (auto simp: mem_inv_def split: if_splits)
qed

lemma mem_inv_delete:
  assumes inv: "mem_inv m (r # hs)" and r: "rm_chunk r = Some c" and ch: "ck_store m c = Some ch"
    and h: "held hs c = 0" and full: "mp_poolsize m \<le> length (mp_chunks m)"
  shows "mem_inv (m\<lparr>ck_store := (ck_store m)(c := None)\<rparr>) hs" (is "mem_inv ?m hs")
proof -
  have "\<forall>r \<in> set hs. rm_wf ?m r"
    using inv rm_wf_other [of _ c ?m m] not_held [OF h] by (simp add: mem_inv_def)
  moreover have cn: "c \<notin> set (mp_chunks m)" using inv r by (auto simp: mem_inv_def)
  moreover have "set (mp_chunks m) \<subseteq> dom (ck_store m) - {c}"
    using inv cn by (auto simp: mem_inv_def)
  then have "card (set (mp_chunks m)) \<le> card (dom (ck_store m) - {c})"
    using mem_inv_finite [OF inv] by (intro card_mono) auto
  then have "mp_poolsize m \<le> card (dom (ck_store ?m))"
    using inv full by (simp add: mem_inv_def distinct_card)
  ultimately show ?thesis
    using inv ch r h by (auto simp: mem_inv_def split: if_splits)
qed

lemma ReleaseChunk_inv:
  assumes inv: "mem_inv m (r # hs)"
  shows "\<exists>m'. RefMemoryChunk_destroy r m = Inr m' \<and> mem_inv m' hs
           \<and> (\<forall>c. 0 < held hs c \<longrightarrow> data_of m' c = data_of m c) \<and> mp_chunksize m' = mp_chunksize m"
proof (cases "rm_chunk r")
  case None
  then show ?thesis
    using inv by (auto simp: RefMemoryChunk_destroy_def RefMemoryChunk_ReleaseChunk_def mem_inv_def)
next
  case (Some c)
  then obtain ch where ch: "ck_store m c = Some ch"
    using inv by (auto simp: mem_inv_def rm_wf_def split: option.splits)
  have ref: "ck_ref ch = Suc (held hs c)" using inv ch Some by (auto simp: mem_inv_def)
  have "Suc (held hs c) < 4294967296"
    using inv held_le [of hs c] by (simp add: mem_inv_def)
  then have dec: "u32_dec (ck_ref ch) = held hs c" using ref by simp
  let ?m1 = "m\<lparr>ck_store := (ck_store m)(c \<mapsto> ch\<lparr>ck_ref := held hs c\<rparr>)\<rparr>"
  have eq: "RefMemoryChunk_destroy r m = Inr (if held hs c = 0 then MemoryPool_Release c ?m1 else ?m1)"
    using Some ch dec
    by (simp add: RefMemoryChunk_destroy_def RefMemoryChunk_ReleaseChunk_def MemoryChunk_DecRef_def MemoryChunk_ref_def)
  show ?thesis
  proof (cases "held hs c = 0")
    case False
    then have "mem_inv ?m1 hs" using mem_inv_upd_ref [OF inv Some ch] by simp
    moreover have "data_of ?m1 = data_of m" using ch by (auto simp: data_of_def)
    ultimately show ?thesis using eq False by auto
  next
    case True
    show ?thesis
    proof (cases "length (mp_chunks m) < mp_poolsize m")
      case room: True
      let ?m2 = "m\<lparr>ck_store := (ck_store m)(c \<mapsto> ch\<lparr>ck_ref := 0\<rparr>), mp_chunks := mp_chunks m @ [c]\<rparr>"
      have "RefMemoryChunk_destroy r m = Inr ?m2"
        using eq True room by (simp add: MemoryPool_Release_def)
      moreover have "data_of ?m2 = data_of m" using ch by (auto simp: data_of_def)
      ultimately show ?thesis using mem_inv_to_pool [OF inv Some ch True room] by auto
    next
      case room: False
      let ?m2 = "m\<lparr>ck_store := (ck_store m)(c := None)\<rparr>"
      have "RefMemoryChunk_destroy r m = Inr ?m2"
        using eq True room by (simp add: MemoryPool_Release_def MemoryChunk_delete_def)
      moreover have "\<forall>d. 0 < held hs d \<longrightarrow> data_of ?m2 d = data_of m d"
        using True by (auto simp: data_of_def)
      ultimately show ?thesis using mem_inv_delete [OF inv Some ch True] room by auto
    qed
  qed
qed

lemma destroy_views_inv:
  "mem_inv m (rs @ hs) \<Longrightarrow> \<exists>m'. destroy_views rs m = Inr m' \<and> mem_inv m' hs
     \<and> (\<forall>c. 0 < held hs c \<longrightarrow> data_of m' c = data_of m c) \<and> mp_chunksize m' = mp_chunksize m"
proof (induction rs arbitrary: m)
  case (Cons r rs)
  then obtain m1 where m1: "RefMemoryChunk_destroy r m = Inr m1" "mem_inv m1 (rs @ hs)"
      "\<forall>c. 0 < held (rs @ hs) c \<longrightarrow> data_of m1 c = data_of m c" "mp_chunksize m1 = mp_chunksize m"
    using ReleaseChunk_inv [of m r "rs @ hs"] by auto
  with Cons.IH [OF m1(2)] show ?case by auto
qed auto

text \<open>Taking a chunk: from the pool, or a new one when the pool is empty.\<close>

definition fresh_view :: "mem \<Rightarrow> refchunk" where
  "fresh_view m = \<lparr>rm_chunk = Some (fst (MemoryPool_take m)), rm_data = 0, rm_pos = 0, rm_count = mp_chunksize m\<rparr>"

lemma take_new_view:
  assumes inv: "mem_inv m hs" and len: "Suc (length hs) < 4294967296"
  shows "\<exists>m'. RefMemoryChunk_new (fst (MemoryPool_take m)) (snd (MemoryPool_take m)) = Inr (fresh_view m, m')
     \<and> mem_inv m' (fresh_view m # hs) \<and> (\<forall>c. 0 < held hs c \<longrightarrow> data_of m' c = data_of m c)
     \<and> mp_chunksize m' = mp_chunksize m \<and> held hs (fst (MemoryPool_take m)) = 0"
proof (cases "mp_chunks m")
  case (Cons c cs)
  then have c: "held hs c = 0" "ck_store m c \<noteq> None" using inv by (auto simp: mem_inv_def)
  then obtain ch where ch: "ck_store m c = Some ch" "ck_ref ch = 0" "length (ck_data ch) = mp_chunksize m"
    using inv by (auto simp: mem_inv_def)
  let ?m = "m\<lparr>mp_chunks := cs, ck_store := (ck_store m)(c \<mapsto> ch\<lparr>ck_ref := 1\<rparr>)\<rparr>"
  have eq: "RefMemoryChunk_new (fst (MemoryPool_take m)) (snd (MemoryPool_take m)) = Inr (fresh_view m, ?m)"
    using Cons ch by (simp add: RefMemoryChunk_new_def MemoryPool_take_def fresh_view_def
        RefMemoryChunk_RetainChunk_def MemoryChunk_IncRef_def)
  have f: "fst (MemoryPool_take m) = c" using Cons by (simp add: MemoryPool_take_def)
  have "rm_wf ?m (fresh_view m)"
    using ch inv f by (auto simp: rm_wf_def fresh_view_def mem_inv_def)
  moreover have "rm_wf ?m r = rm_wf m r" if "r \<in> set hs" for r
    using rm_wf_other [of r c ?m m] not_held [OF c(1) that] by simp
  moreover have "dom (ck_store ?m) = dom (ck_store m)" using ch by auto
  moreover have "x \<in> set cs \<longleftrightarrow> x \<noteq> c \<and> ck_store m x \<noteq> None \<and> held hs x = 0" for x
    using inv Cons by (auto simp: mem_inv_def)
  ultimately have "mem_inv ?m (fresh_view m # hs)"
    using inv ch c Cons len f by (auto simp: mem_inv_def fresh_view_def)
  moreover have "data_of ?m = data_of m" using ch by (auto simp: data_of_def)
  ultimately show ?thesis using eq c f by auto
next
  case Nil
  let ?c = "ck_next m"
  have none: "ck_store m ?c = None" using inv by (auto simp: mem_inv_def)
  let ?ch = "\<lparr>ck_data = map (mp_junk m ?c) [0..<mp_chunksize m], ck_ref = 1\<rparr>"
  let ?m = "m\<lparr>ck_next := ?c + 1, ck_store := (ck_store m)(?c \<mapsto> ?ch)\<rparr>"
  have f: "fst (MemoryPool_take m) = ?c" using Nil by (simp add: MemoryPool_take_def MemoryChunk_new_def)
  have eq: "RefMemoryChunk_new (fst (MemoryPool_take m)) (snd (MemoryPool_take m)) = Inr (fresh_view m, ?m)"
    using Nil by (simp add: RefMemoryChunk_new_def MemoryPool_take_def fresh_view_def MemoryChunk_new_def
        RefMemoryChunk_RetainChunk_def MemoryChunk_IncRef_def)
  have nh: "held hs ?c = 0"
  proof (rule ccontr)
    assume "held hs ?c \<noteq> 0"
    then have "Some ?c \<in> set (map rm_chunk hs)"
      unfolding held_def by (simp only: count_list_0_iff simp_thms)
    then obtain r where "r \<in> set hs" "rm_chunk r = Some ?c" by auto
    then show False using inv none by (auto simp: mem_inv_def rm_wf_def)
  qed
  have "rm_wf ?m (fresh_view m)"
    using inv f by (auto simp: rm_wf_def fresh_view_def mem_inv_def)
  moreover have "rm_wf ?m r = rm_wf m r" if "r \<in> set hs" for r
    using rm_wf_other [of r ?c ?m m] not_held [OF nh that] by simp
  moreover have "card (dom (ck_store ?m)) = Suc (card (dom (ck_store m)))"
    using none mem_inv_finite [OF inv] by (simp add: domIff)
  ultimately have "mem_inv ?m (fresh_view m # hs)"
    using inv nh none len f Nil by (auto simp: mem_inv_def fresh_view_def split: if_splits)
  moreover have "\<forall>c. 0 < held hs c \<longrightarrow> data_of ?m c = data_of m c" using nh by (auto simp: data_of_def)
  ultimately show ?thesis using eq nh f by auto
qed

lemma Aquire_step:
  assumes inv: "mem_inv m hs" and len: "Suc (Suc (length hs)) < 4294967296"
  shows "\<exists>m'. MemoryPool_Aquire rs (Suc n) m = MemoryPool_Aquire (rs @ [fresh_view m]) n m'
     \<and> mem_inv m' (fresh_view m # hs) \<and> (\<forall>c. 0 < held hs c \<longrightarrow> data_of m' c = data_of m c)
     \<and> mp_chunksize m' = mp_chunksize m \<and> held hs (fst (MemoryPool_take m)) = 0"
proof -
  let ?r = "fresh_view m"
  obtain m1 where m1: "RefMemoryChunk_new (fst (MemoryPool_take m)) (snd (MemoryPool_take m)) = Inr (?r, m1)"
      "mem_inv m1 (?r # hs)" "\<forall>c. 0 < held hs c \<longrightarrow> data_of m1 c = data_of m c"
      "mp_chunksize m1 = mp_chunksize m" and nh: "held hs (fst (MemoryPool_take m)) = 0"
    using take_new_view [OF inv] len by auto
  obtain m2 where m2: "RefMemoryChunk_RetainChunk ?r m1 = Inr m2" "mem_inv m2 (?r # ?r # hs)"
      "data_of m2 = data_of m1" "mp_chunksize m2 = mp_chunksize m1"
    using RetainChunk_inv [OF m1(2), of ?r] m1(2) len by (auto simp: mem_inv_def)
  obtain m3 where m3: "RefMemoryChunk_destroy ?r m2 = Inr m3" "mem_inv m3 (?r # hs)"
      "\<forall>c. 0 < held (?r # hs) c \<longrightarrow> data_of m3 c = data_of m2 c" "mp_chunksize m3 = mp_chunksize m2"
    using ReleaseChunk_inv [OF m2(2)] by auto
  have "MemoryPool_Aquire rs (Suc n) m = MemoryPool_Aquire (rs @ [?r]) n m3"
    using m1(1) m2(1) m3(1) by (simp add: RefMemoryChunk_copy_def case_prod_unfold)
  moreover have "\<forall>c. 0 < held hs c \<longrightarrow> data_of m3 c = data_of m c"
    using m1(3) m2(3) m3(3) by auto
  ultimately show ?thesis using m1(4) m2(4) m3(2,4) nh by (intro exI [of _ m3]) simp
qed

text \<open>What \<open>Aquire\<close> delivers: whole, distinct chunks that no other view maps.\<close>

definition whole_view :: "mem \<Rightarrow> refchunk \<Rightarrow> bool" where
  "whole_view m r \<longleftrightarrow> rm_chunk r \<noteq> None \<and> rm_data r = 0 \<and> rm_pos r = 0 \<and> rm_count r = mp_chunksize m"

lemma Aquire_inv:
  assumes "mem_inv m hs" and "length hs + Suc n < 4294967296"
  shows "\<exists>rs' m'. MemoryPool_Aquire rs n m = Inr (rs @ rs', m') \<and> length rs' = n \<and> mem_inv m' (rs' @ hs)
     \<and> distinct (map rm_chunk rs') \<and> (\<forall>r \<in> set rs'. whole_view m r \<and> rm_chunk r \<notin> rm_chunk ` set hs)
     \<and> (\<forall>c. 0 < held hs c \<longrightarrow> data_of m' c = data_of m c) \<and> mp_chunksize m' = mp_chunksize m"
  using assms
proof (induction n arbitrary: rs m hs)
  case 0
  then show ?case by (intro exI [of _ "[]"]) auto
next
  case (Suc n)
  let ?r = "fresh_view m"
  have len: "Suc (Suc (length hs)) < 4294967296" using Suc.prems(2) by simp
  obtain m1 where m1: "MemoryPool_Aquire rs (Suc n) m = MemoryPool_Aquire (rs @ [?r]) n m1"
      "mem_inv m1 (?r # hs)" "\<forall>c. 0 < held hs c \<longrightarrow> data_of m1 c = data_of m c"
      "mp_chunksize m1 = mp_chunksize m" and nh: "held hs (fst (MemoryPool_take m)) = 0"
    using Aquire_step [OF Suc.prems(1) len, of rs n] by blast
  obtain rs' m' where r: "MemoryPool_Aquire (rs @ [?r]) n m1 = Inr ((rs @ [?r]) @ rs', m')" "length rs' = n"
      "mem_inv m' (rs' @ ?r # hs)" "distinct (map rm_chunk rs')"
      "\<forall>r \<in> set rs'. whole_view m1 r \<and> rm_chunk r \<notin> rm_chunk ` set (?r # hs)"
      "\<forall>c. 0 < held (?r # hs) c \<longrightarrow> data_of m' c = data_of m1 c" "mp_chunksize m' = mp_chunksize m1"
    using Suc.IH [OF m1(2), of "rs @ [?r]"] Suc.prems(2) by auto
  have "mem_inv m' ((?r # rs') @ hs)"
    by (rule mem_inv_perm [OF r(3)]) simp
  moreover have "rm_chunk ?r \<notin> rm_chunk ` set hs"
    using not_held [OF nh] by (metis fresh_view_def imageE refchunk.select_convs(1))
  moreover have "whole_view m ?r" by (simp add: whole_view_def fresh_view_def)
  ultimately show ?case
    using m1 r by (intro exI [of _ "?r # rs'"] exI [of _ m']) (auto simp: whole_view_def split: if_splits)
qed

section \<open>Read and Write through a view\<close>

lemma Read_eq:
  assumes "rm_wf m r"
  shows "RefMemoryChunk_Read r n m =
    Inr (take n (drop (rm_pos r) (ref_bytes m r)), r\<lparr>rm_pos := rm_pos r + min n (rm_count r - rm_pos r)\<rparr>)"
proof (cases "rm_chunk r")
  case None
  with assms show ?thesis
    by (auto simp: rm_wf_def RefMemoryChunk_Read_def RefMemoryChunk_FreeCount_def chunk_load_def ref_bytes_def)
next
  case (Some c)
  with assms obtain ch where ch: "ck_store m c = Some ch" "rm_data r + rm_count r \<le> length (ck_data ch)"
      "rm_pos r \<le> rm_count r" "rm_count r < 4294967296"
    by (auto simp: rm_wf_def split: option.splits)
  define k where "k = rm_count r - rm_pos r"
  have free: "RefMemoryChunk_FreeCount r = k"
    using ch by (simp add: RefMemoryChunk_FreeCount_def k_def)
  have bytes: "drop (rm_pos r) (ref_bytes m r) = take k (drop (rm_data r + rm_pos r) (ck_data ch))"
    using Some ch by (simp add: ref_bytes_def drop_take k_def add.commute)
  have load: "chunk_load (rm_chunk r) (rm_data r + rm_pos r) j m
      = Inr (take j (drop (rm_data r + rm_pos r) (ck_data ch)))" if "j \<le> k" for j
    using that Some ch by (auto simp: chunk_load_def k_def)
  have pos: "u32 (rm_pos r + j) = rm_pos r + j" if "j \<le> k" for j
    using that ch by (auto simp: k_def)
  consider "n \<le> k" | "k < n" "0 < k" | "k < n" "k = 0" by linarith
  then show ?thesis
    using free bytes load pos
    by cases (auto simp: RefMemoryChunk_Read_def Let_def k_def [symmetric] min_def)
qed

text \<open>A read or write of at least one byte makes progress or uses the view up.\<close>

lemma Read_progress:
  assumes "RefMemoryChunk_Read r n m = Inr (bs, r')" and "0 < n" and "0 < RefMemoryChunk_FreeCount r'"
  shows "0 < length bs"
  using assms
  by (auto simp: RefMemoryChunk_Read_def Let_def bindE_eq_Inr chunk_load_def split: if_splits option.splits)

lemma Write_progress:
  assumes "RefMemoryChunk_Write r src m = Inr (k, r', m')" and "src \<noteq> []"
    and "0 < RefMemoryChunk_FreeCount r'"
  shows "0 < k \<and> 0 < length src"
  using assms by (auto simp: RefMemoryChunk_Write_def Let_def bindE_eq_Inr split: if_splits)

lemma Write_null:
  "rm_wf m r \<Longrightarrow> rm_chunk r = None \<Longrightarrow> RefMemoryChunk_Write r src m = Inr (0, r, m)"
  by (cases src; cases r)
    (auto simp: rm_wf_def RefMemoryChunk_Write_def RefMemoryChunk_FreeCount_def chunk_save_def Let_def)

lemma Write_eq:
  fixes src :: bytes
  assumes wf: "rm_wf m r" and r: "rm_chunk r = Some c" and ch: "ck_store m c = Some ch"
  defines "k \<equiv> min (length src) (rm_count r - rm_pos r)"
  shows "RefMemoryChunk_Write r src m = Inr (k, r\<lparr>rm_pos := rm_pos r + k\<rparr>,
    m\<lparr>ck_store := (ck_store m)(c \<mapsto> ch\<lparr>ck_data := overwrite (ck_data ch) (rm_data r + rm_pos r) (take k src)\<rparr>)\<rparr>)"
proof -
  have b: "rm_data r + rm_count r \<le> length (ck_data ch)" "rm_pos r \<le> rm_count r" "rm_count r < 4294967296"
    using wf r ch by (auto simp: rm_wf_def)
  have free: "RefMemoryChunk_FreeCount r = rm_count r - rm_pos r"
    using b by (simp add: RefMemoryChunk_FreeCount_def)
  have upd: "m\<lparr>ck_store := (ck_store m)(c \<mapsto> ch)\<rparr> = m"
    using ch by (cases m) (auto simp: fun_upd_idem)
  consider "length src \<le> rm_count r - rm_pos r"
    | "rm_count r - rm_pos r < length src" "0 < rm_count r - rm_pos r"
    | "rm_count r - rm_pos r < length src" "rm_count r - rm_pos r = 0" by linarith
  then show ?thesis
  proof cases
    case 1
    then show ?thesis
      using b r ch by (auto simp: RefMemoryChunk_Write_def free chunk_save_def k_def Let_def)
  next
    case 2
    then show ?thesis
      using b r ch by (auto simp: RefMemoryChunk_Write_def free chunk_save_def k_def Let_def)
  next
    case 3
    then show ?thesis
      using b r ch upd by (auto simp: RefMemoryChunk_Write_def free chunk_save_def k_def Let_def)
  qed
qed

lemma mem_inv_data:
  assumes inv: "mem_inv m hs" and ch: "ck_store m c = Some ch" and len: "length d = length (ck_data ch)"
  shows "mem_inv (m\<lparr>ck_store := (ck_store m)(c \<mapsto> ch\<lparr>ck_data := d\<rparr>)\<rparr>) hs" (is "mem_inv ?m hs")
proof -
  have "rm_wf ?m r = rm_wf m r" for r
    using ch len by (auto simp: rm_wf_def split: option.splits)
  moreover have "dom (ck_store ?m) = dom (ck_store m)" using ch by auto
  ultimately show ?thesis using inv ch len by (auto simp: mem_inv_def)
qed

section \<open>The pool as a whole\<close>

definition pool_full :: "mem \<Rightarrow> bool" where
  "pool_full m \<longleftrightarrow> mp_chunks m = [0..<ck_next m] \<and> dom (ck_store m) = {..<ck_next m} \<and>
     (\<forall>c ch. ck_store m c = Some ch \<longrightarrow> ck_ref ch = 0 \<and> length (ck_data ch) = mp_chunksize m)"

lemma MemoryPool_fill_full:
  "pool_full m \<Longrightarrow> pool_full (MemoryPool_fill n m) \<and> ck_next (MemoryPool_fill n m) = ck_next m + n
     \<and> mp_chunksize (MemoryPool_fill n m) = mp_chunksize m \<and> mp_poolsize (MemoryPool_fill n m) = mp_poolsize m"
proof (induction n arbitrary: m)
  case (Suc n)
  let ?m1 = "snd (MemoryChunk_new (mp_chunksize m) m)"
  let ?m = "?m1\<lparr>mp_chunks := mp_chunks ?m1 @ [ck_next m]\<rparr>"
  have "pool_full ?m"
    using Suc.prems by (auto simp: pool_full_def MemoryChunk_new_def lessThan_Suc split: if_splits)
  then show ?case using Suc.IH [of ?m] by (simp add: MemoryChunk_new_def)
qed simp

lemma MemoryPool_new_inv:
  "chunksize < 4294967296 \<Longrightarrow> mem_inv (MemoryPool_new junk chunksize poolsize) []"
proof -
  assume cs: "chunksize < 4294967296"
  let ?m0 = "\<lparr>mp_chunksize = chunksize, mp_poolsize = poolsize, mp_chunks = [],
      ck_store = (\<lambda>_. None), ck_next = 0, mp_junk = junk\<rparr>"
  have "pool_full ?m0" by (simp add: pool_full_def)
  then have f: "pool_full (MemoryPool_new junk chunksize poolsize)"
      "ck_next (MemoryPool_new junk chunksize poolsize) = poolsize"
      "mp_chunksize (MemoryPool_new junk chunksize poolsize) = chunksize"
      "mp_poolsize (MemoryPool_new junk chunksize poolsize) = poolsize"
    using MemoryPool_fill_full [of ?m0 poolsize] by (auto simp: MemoryPool_new_def)
  then have d: "dom (ck_store (MemoryPool_new junk chunksize poolsize)) = {..<poolsize}"
    and q: "mp_chunks (MemoryPool_new junk chunksize poolsize) = [0..<poolsize]"
    by (auto simp: pool_full_def)
  have "ck_store (MemoryPool_new junk chunksize poolsize) c \<noteq> None \<longleftrightarrow> c < poolsize" for c
    using d by (metis domIff lessThan_iff)
  then have "ck_store (MemoryPool_new junk chunksize poolsize) c = None" if "poolsize \<le> c" for c
    using that by (metis not_le)
  then show ?thesis
    using f q d cs by (auto simp: mem_inv_def pool_full_def)
qed

lemma fold_delete_store:
  "ck_store (fold MemoryChunk_delete cs m) c = (if c \<in> set cs then None else ck_store m c)"
  by (induction cs arbitrary: m) (auto simp: MemoryChunk_delete_def)

text \<open>The life of the pool as a step relation on the store and the list of live views.\<close>

inductive pool_step :: "mem \<times> refchunk list \<Rightarrow> mem \<times> refchunk list \<Rightarrow> bool" where
  acquire: "length hs + 3 < 4294967296 \<Longrightarrow> MemoryPool_Aquire [] 1 m = Inr ([r], m') \<Longrightarrow>
     pool_step (m, hs) (m', r # hs)"
| copy: "length hs + 3 < 4294967296 \<Longrightarrow> r \<in> set hs \<Longrightarrow> RefMemoryChunk_copy r m = Inr (r', m') \<Longrightarrow>
     pool_step (m, hs) (m', r' # hs)"
| destroy: "RefMemoryChunk_destroy r m = Inr m' \<Longrightarrow> pool_step (m, hs @ r # hs') (m', hs @ hs')"
| shrink: "RefMemoryChunk_ShrinkCount r n = Inr r' \<Longrightarrow> pool_step (m, hs @ r # hs') (m, hs @ r' # hs')"
| forward: "RefMemoryChunk_ForwardOffset r n = Inr r' \<Longrightarrow> pool_step (m, hs @ r # hs') (m, hs @ r' # hs')"
| read: "RefMemoryChunk_Read r n m = Inr (bs, r') \<Longrightarrow> pool_step (m, hs @ r # hs') (m, hs @ r' # hs')"
| skipto: "RefMemoryChunk_SkipTo r n = Inr r' \<Longrightarrow> pool_step (m, hs @ r # hs') (m, hs @ r' # hs')"
| reset: "RefMemoryChunk_Reset r = r' \<Longrightarrow> pool_step (m, hs @ r # hs') (m, hs @ r' # hs')"
| save: "RefMemoryChunk_Write r bs m = Inr (k, r', m') \<Longrightarrow> pool_step (m, hs @ r # hs') (m', hs @ r' # hs')"

inductive pool_reachable :: "mem \<Rightarrow> mem \<times> refchunk list \<Rightarrow> bool" for m0 :: mem where
  init: "pool_reachable m0 (m0, [])"
| step: "pool_reachable m0 s \<Longrightarrow> pool_step s t \<Longrightarrow> pool_reachable m0 t"

lemma Write_inv:
  assumes inv: "mem_inv m (hs @ r # hs')" and eq: "RefMemoryChunk_Write r bs m = Inr (k, r', m')"
  shows "mem_inv m' (hs @ r' # hs')"
proof -
  have wf: "rm_wf m r" using inv by (simp add: mem_inv_def)
  show ?thesis
  proof (cases "rm_chunk r")
    case None
    then show ?thesis using inv eq Write_null [OF wf, of bs] by simp
  next
    case (Some c)
    then obtain ch where ch: "ck_store m c = Some ch" and b: "rm_data r + rm_count r \<le> length (ck_data ch)"
        "rm_pos r \<le> rm_count r"
      using wf by (auto simp: rm_wf_def split: option.splits)
    let ?k = "min (length bs) (rm_count r - rm_pos r)"
    let ?d = "overwrite (ck_data ch) (rm_data r + rm_pos r) (take ?k bs)"
    let ?m = "m\<lparr>ck_store := (ck_store m)(c \<mapsto> ch\<lparr>ck_data := ?d\<rparr>)\<rparr>"
    have e: "m' = ?m" "r' = r\<lparr>rm_pos := rm_pos r + ?k\<rparr>"
      using eq Write_eq [OF wf Some ch, of bs] by auto
    have len: "length ?d = length (ck_data ch)" using b by (intro length_overwrite) auto
    then have "mem_inv ?m (hs @ r # hs')" using mem_inv_data [OF inv ch] by blast
    moreover have "rm_wf ?m (r\<lparr>rm_pos := rm_pos r + ?k\<rparr>)"
      using wf Some ch b len by (auto simp: rm_wf_def)
    ultimately show ?thesis using mem_inv_move [of ?m hs r hs'] e by simp
  qed
qed

lemma view_moves_wf:
  "rm_wf m r \<Longrightarrow> RefMemoryChunk_ShrinkCount r n = Inr r' \<Longrightarrow> rm_wf m r' \<and> rm_chunk r' = rm_chunk r"
  "rm_wf m r \<Longrightarrow> RefMemoryChunk_ForwardOffset r n = Inr r' \<Longrightarrow> rm_wf m r' \<and> rm_chunk r' = rm_chunk r"
  "rm_wf m r \<Longrightarrow> RefMemoryChunk_SkipTo r n = Inr r' \<Longrightarrow> rm_wf m r' \<and> rm_chunk r' = rm_chunk r"
  "rm_wf m r \<Longrightarrow> rm_wf m (RefMemoryChunk_Reset r) \<and> rm_chunk (RefMemoryChunk_Reset r) = rm_chunk r"
  "rm_wf m r \<Longrightarrow> RefMemoryChunk_Read r n m = Inr (bs, r') \<Longrightarrow> rm_wf m r' \<and> rm_chunk r' = rm_chunk r"
  by (auto simp: rm_wf_def RefMemoryChunk_ShrinkCount_def RefMemoryChunk_ForwardOffset_def
      RefMemoryChunk_SkipTo_def RefMemoryChunk_Reset_def assertE_def Read_eq [unfolded rm_wf_def]
      split: option.splits if_splits)

lemma pool_step_inv: "pool_step s t \<Longrightarrow> mem_inv (fst s) (snd s) \<Longrightarrow> mem_inv (fst t) (snd t)"
proof (induction rule: pool_step.induct)
  case (acquire hs m r m')
  then show ?case using Aquire_inv [of m hs 1 "[]"] by auto
next
  case (copy hs r m r' m')
  then have "rm_wf m r" by (simp add: mem_inv_def)
  with copy show ?case using RetainChunk_inv [of m hs r] by (auto simp: RefMemoryChunk_copy_def)
next
  case (destroy r m m' hs hs')
  have "mem_inv m (r # hs @ hs')"
    by (rule mem_inv_perm [of m "hs @ r # hs'"]) (use destroy(2) in simp_all)
  then show ?case using destroy(1) ReleaseChunk_inv [of m r "hs @ hs'"] by auto
next
  case (shrink r n r' m hs hs')
  then have "rm_wf m r" by (simp add: mem_inv_def)
  with shrink show ?case using view_moves_wf(1) mem_inv_move by fastforce
next
  case (forward r n r' m hs hs')
  then have "rm_wf m r" by (simp add: mem_inv_def)
  with forward show ?case using view_moves_wf(2) mem_inv_move by fastforce
next
  case (read r n m bs r' hs hs')
  then have "rm_wf m r" by (simp add: mem_inv_def)
  with read show ?case using view_moves_wf(5) mem_inv_move by fastforce
next
  case (skipto r n r' m hs hs')
  then have "rm_wf m r" by (simp add: mem_inv_def)
  with skipto show ?case using view_moves_wf(3) mem_inv_move by fastforce
next
  case (reset r r' m hs hs')
  then have "rm_wf m r" by (simp add: mem_inv_def)
  with reset show ?case using view_moves_wf(4) mem_inv_move by fastforce
next
  case (save r bs m k r' m' hs hs')
  then show ?case using Write_inv by simp
qed

lemma pool_reachable_inv: "pool_reachable m0 s \<Longrightarrow> mem_inv m0 [] \<Longrightarrow> mem_inv (fst s) (snd s)"
  by (induction rule: pool_reachable.induct) (auto dest: pool_step_inv)

section \<open>Properties\<close>

text \<open>
  C25. However views are acquired, copied, moved, written through and destroyed, the pool stays
  consistent: a chunk's reference count is the number of live views onto it, the free queue holds
  exactly the unreferenced chunks, each once, and never more than the pool size, and every live view
  stays inside its chunk; and any live view can be destroyed or copied without touching freed memory.
\<close>

theorem MemoryPool_views_safe:
  assumes "pool_reachable (MemoryPool_new junk chunksize poolsize) (m, hs)" and "chunksize < 4294967296"
    and "r \<in> set hs" and "length hs + 1 < 4294967296"
  shows "mem_inv m hs \<and> (\<exists>m'. RefMemoryChunk_destroy r m = Inr m' \<and> mem_inv m' (remove1 r hs))
           \<and> (\<exists>m'. RefMemoryChunk_copy r m = Inr (r, m') \<and> mem_inv m' (r # hs))"
proof -
  have inv: "mem_inv m hs"
    using pool_reachable_inv [OF assms(1) MemoryPool_new_inv [OF assms(2)]] by simp
  have "mem_inv m (r # remove1 r hs)" using inv assms(3) by (intro mem_inv_perm [OF inv]) simp
  then have "\<exists>m'. RefMemoryChunk_destroy r m = Inr m' \<and> mem_inv m' (remove1 r hs)"
    using ReleaseChunk_inv by blast
  moreover have "rm_wf m r" using inv assms(3) by (simp add: mem_inv_def)
  then have "\<exists>m'. RefMemoryChunk_copy r m = Inr (r, m') \<and> mem_inv m' (r # hs)"
    using RetainChunk_inv [OF inv, of r] assms(3,4) by (auto simp: RefMemoryChunk_copy_def)
  ultimately show ?thesis using inv by blast
qed

theorem MemoryPool_views_safe_witness:
  "\<exists>m r. mem_inv m [r] \<and> (\<exists>m'. RefMemoryChunk_destroy r m = Inr m' \<and> mem_inv m' [])"
proof -
  let ?m0 = "MemoryPool_new (\<lambda>_ _. 0) 4 2"
  obtain rs' m' where "MemoryPool_Aquire [] 1 ?m0 = Inr ([] @ rs', m')" "length rs' = 1"
    using Aquire_inv [OF MemoryPool_new_inv, of 4 1 "[]" "\<lambda>_ _. 0" 2] by auto
  then obtain r where "MemoryPool_Aquire [] 1 ?m0 = Inr ([r], m')" by (cases rs') auto
  then have "pool_reachable ?m0 (m', [r])"
    using pool_reachable.step [OF pool_reachable.init pool_step.acquire] by simp
  then show ?thesis using MemoryPool_views_safe [of "\<lambda>_ _. 0" 4 2 m' "[r]" r] by auto
qed

text \<open>
  The leak check of the pool's destructor has no false alarms: when no view is alive it reports
  nothing, and deleting the pool then deletes every chunk that was ever allocated.
\<close>

lemma MemoryPool_destroy_complete:
  assumes "mem_inv m []"
  shows "fst (MemoryPool_destroy m) = False \<and> ck_store (snd (MemoryPool_destroy m)) = (\<lambda>_. None)"
proof -
  have fin: "finite (dom (ck_store m))" using assms by (rule mem_inv_finite)
  have set_eq: "set (mp_chunks m) = dom (ck_store m)" using assms by (auto simp: mem_inv_def)
  then have "length (mp_chunks m) = card (dom (ck_store m))"
    using assms distinct_card [of "mp_chunks m"] by (simp add: mem_inv_def)
  then have "length (mp_chunks m) = mp_poolsize m"
    using assms by (simp add: mem_inv_def)
  moreover have "ck_store (fold MemoryChunk_delete (mp_chunks m) m) = (\<lambda>_. None)"
    using set_eq by (auto simp: fold_delete_store fun_eq_iff)
  ultimately show ?thesis by (simp add: MemoryPool_destroy_def)
qed

lemma MemoryPool_destroy_complete_witness:
  "fst (MemoryPool_destroy (MemoryPool_new (\<lambda>_ _. 0) 64 3)) = False"
  using MemoryPool_destroy_complete [OF MemoryPool_new_inv, of 64 "\<lambda>_ _. 0" 3] by simp

end
