(* ===== verification/PacketBase.thy ===== *)
theory PacketBase
  imports Memory
begin

text \<open>
  \<open>base/gateway/packet_base.h\<close>: the packet as a sequence of chunk views with a cursor, the reading
  side \<open>PacketInBase\<close> and the writing side \<open>PacketOutBase\<close>. Abstractly a packet is a byte string
  and a position: \<open>GetByte\<close> returns the next bytes or throws, \<open>PutByte\<close> overwrites or appends at the
  position whatever the chunk boundaries are, and \<open>FetchData\<close> hands out views onto exactly the bytes
  written. These refinements carry the round trips of all typed reads and writes.
\<close>

section \<open>The packet and its cursor\<close>

record pkt =
  pk_data :: "refchunk list"
  pk_size :: nat
  pk_pos :: nat
  pk_pos_y :: nat
  pk_capacity :: nat

definition Packet_new :: pkt where
  "Packet_new = \<lparr>pk_data = [], pk_size = 0, pk_pos = 0, pk_pos_y = 0, pk_capacity = 0\<rparr>"

definition Packet_UpdateSize :: "pkt \<Rightarrow> pkt" where
  "Packet_UpdateSize p = (if pk_size p < pk_pos p then p\<lparr>pk_size := pk_pos p\<rparr> else p)"

definition Packet_UpdateCapacity :: "pkt \<Rightarrow> pkt" where
  "Packet_UpdateCapacity p = p\<lparr>pk_capacity := fold (\<lambda>r cap. u32 (cap + rm_count r)) (pk_data p) 0\<rparr>"

fun SkipTo_loop :: "refchunk list \<Rightarrow> nat \<Rightarrow> nat \<Rightarrow> (refchunk list \<times> nat) result" where
  "SkipTo_loop [] pos y = Inr ([], y)"
| "SkipTo_loop (r # rs) pos y =
     (if pos = 0 then
        bindE (RefMemoryChunk_SkipTo r pos) (\<lambda>r'. bindE (SkipTo_loop rs pos y) (\<lambda>(rs', y'). Inr (r' # rs', y')))
      else if pos < rm_count r then
        bindE (RefMemoryChunk_SkipTo r pos) (\<lambda>r'. bindE (SkipTo_loop rs 0 y) (\<lambda>(rs', y'). Inr (r' # rs', y')))
      else
        bindE (RefMemoryChunk_SkipTo r (rm_count r)) (\<lambda>r'.
          bindE (SkipTo_loop rs (pos - rm_count r) (y + 1)) (\<lambda>(rs', y'). Inr (r' # rs', y'))))"

definition Packet_SkipTo :: "pkt \<Rightarrow> nat \<Rightarrow> pkt result" where
  "Packet_SkipTo p pos = assertE (pos \<le> pk_capacity p)
     (let p1 = Packet_UpdateSize (p\<lparr>pk_pos := pos\<rparr>)
      in bindE (SkipTo_loop (pk_data p) pos 0) (\<lambda>(d, y). Inr (p1\<lparr>pk_data := d, pk_pos_y := y\<rparr>)))"

section \<open>Reading\<close>

definition PacketInBase_new :: "refchunk list \<Rightarrow> pkt result" where
  "PacketInBase_new data =
     (let p = Packet_UpdateCapacity (Packet_new\<lparr>pk_data := data\<rparr>)
      in Packet_SkipTo (p\<lparr>pk_size := pk_capacity p\<rparr>) 0)"

function GetByte_loop :: "mem \<Rightarrow> refchunk list \<Rightarrow> nat \<Rightarrow> nat \<Rightarrow> (bytes \<times> refchunk list \<times> nat) result" where
  "GetByte_loop m data y cnt =
     (if cnt > 0 \<and> y < length data then
        bindE (RefMemoryChunk_Read (data ! y) cnt m) (\<lambda>(bs, r).
          bindE (GetByte_loop m (data[y := r]) (if RefMemoryChunk_FreeCount r = 0 then y + 1 else y) (cnt - length bs))
            (\<lambda>(bs', data', y'). Inr (bs @ bs', data', y')))
      else Inr ([], data, y))"
  by pat_completeness auto
termination
  by (relation "measure (\<lambda>(m, data, y, cnt). (length data - y) + cnt)")
    (auto dest!: Read_progress simp: neq_Nil_conv)

declare GetByte_loop.simps [simp del]

definition PacketInBase_GetByte :: "nat \<Rightarrow> mem \<Rightarrow> pkt \<Rightarrow> (bytes \<times> pkt) result" where
  "PacketInBase_GetByte cnt m p =
     (if u32 (pk_pos p + cnt) > pk_size p then Inl NoMoreData
      else bindE (GetByte_loop m (pk_data p) (pk_pos_y p) cnt) (\<lambda>(bs, d, y).
             Inr (bs, p\<lparr>pk_pos := u32 (pk_pos p + cnt), pk_data := d, pk_pos_y := y\<rparr>)))"

section \<open>Writing\<close>

definition PacketOutBase_AquireMemory :: "nat \<Rightarrow> pkt \<times> mem \<Rightarrow> (pkt \<times> mem) result" where
  "PacketOutBase_AquireMemory need_bytes s =
     bindE (MemoryPool_AquireByByteNeed (pk_data (fst s)) (u32 (need_bytes + 10)) (snd s))
       (\<lambda>(d, m). Inr (Packet_UpdateCapacity ((fst s)\<lparr>pk_data := d\<rparr>), m))"

definition PacketOutBase_new :: "nat \<Rightarrow> mem \<Rightarrow> (pkt \<times> mem) result" where
  "PacketOutBase_new approx_size m = PacketOutBase_AquireMemory approx_size (Packet_new, m)"

text \<open>
  The loop \<open>while (pos_ + count > capacity_) AquireMemory(count)\<close>. One round makes room unless the
  32-bit counters overflow, so two rounds of fuel are enough for every packet below that bound.
\<close>

fun PutByte_grow :: "nat \<Rightarrow> nat \<Rightarrow> pkt \<times> mem \<Rightarrow> (pkt \<times> mem) result" where
  "PutByte_grow 0 cnt s = (if u32 (pk_pos (fst s) + cnt) > pk_capacity (fst s) then Inl Diverges else Inr s)"
| "PutByte_grow (Suc fuel) cnt s =
     (if u32 (pk_pos (fst s) + cnt) > pk_capacity (fst s)
      then bindE (PacketOutBase_AquireMemory cnt s) (PutByte_grow fuel cnt) else Inr s)"

function PutByte_loop :: "mem \<Rightarrow> refchunk list \<Rightarrow> nat \<Rightarrow> bytes \<Rightarrow> (refchunk list \<times> nat \<times> mem) result" where
  "PutByte_loop m data y src =
     (if src \<noteq> [] \<and> y < length data then
        bindE (RefMemoryChunk_Write (data ! y) src m) (\<lambda>(writed, r, m').
          PutByte_loop m' (data[y := r]) (if RefMemoryChunk_FreeCount r = 0 then y + 1 else y) (drop writed src))
      else Inr (data, y, m))"
  by pat_completeness auto
termination
  by (relation "measure (\<lambda>(m, data, y, src). (length data - y) + length src)")
    (auto dest!: Write_progress simp: neq_Nil_conv)

declare PutByte_loop.simps [simp del]

definition PacketOutBase_PutByte :: "bytes \<Rightarrow> pkt \<times> mem \<Rightarrow> (pkt \<times> mem) result" where
  "PacketOutBase_PutByte src s =
     bindE (PutByte_grow 2 (length src) s) (\<lambda>(p, m).
       let p1 = Packet_UpdateSize (p\<lparr>pk_pos := u32 (pk_pos p + length src)\<rparr>)
       in bindE (PutByte_loop m (pk_data p1) (pk_pos_y p1) src) (\<lambda>(d, y, m').
            Inr (p1\<lparr>pk_data := d, pk_pos_y := y\<rparr>, m')))"

fun FetchData_loop :: "refchunk list \<Rightarrow> nat \<Rightarrow> mem \<Rightarrow> (refchunk list \<times> mem) result" where
  "FetchData_loop [] s m = Inr ([], m)"
| "FetchData_loop (ck # rs) s m =
     (if s > 0 then
        (if s < rm_count ck then
           bindE (RefMemoryChunk_copy ck m) (\<lambda>(c, m1).
             bindE (RefMemoryChunk_ShrinkCount c (rm_count ck - s)) (\<lambda>c'.
               bindE (FetchData_loop rs 0 m1) (\<lambda>(ret, m2). Inr (c' # ret, m2))))
         else
           bindE (RefMemoryChunk_copy ck m) (\<lambda>(c, m1).
             bindE (FetchData_loop rs (s - rm_count ck) m1) (\<lambda>(ret, m2). Inr (c # ret, m2))))
      else Inr ([], m))"

definition PacketOutBase_FetchData :: "pkt \<times> mem \<Rightarrow> (refchunk list \<times> mem) result" where
  "PacketOutBase_FetchData s = FetchData_loop (pk_data (fst s)) (pk_size (fst s)) (snd s)"

section \<open>Typed reads\<close>

text \<open>
  Every read copies the object representation of the value. Signed and floating-point values are
  the words with the same bits.
\<close>

definition read_word :: "nat \<Rightarrow> mem \<Rightarrow> pkt \<Rightarrow> ('w::len word \<times> pkt) result" where
  "read_word n m p = bindE (PacketInBase_GetByte n m p) (\<lambda>(bs, p'). Inr (word_of_nat (le_val bs), p'))"

definition PacketInBase_ReadByte :: "mem \<Rightarrow> pkt \<Rightarrow> (8 word \<times> pkt) result" where
  "PacketInBase_ReadByte m p = read_word 1 m p"

definition PacketInBase_ReadBoolean :: "mem \<Rightarrow> pkt \<Rightarrow> (bool \<times> pkt) result" where
  "PacketInBase_ReadBoolean m p = bindE (PacketInBase_ReadByte m p) (\<lambda>(b, p'). Inr (b = 1, p'))"

definition PacketInBase_ReadSByte :: "mem \<Rightarrow> pkt \<Rightarrow> (8 word \<times> pkt) result" where
  "PacketInBase_ReadSByte m p = read_word 1 m p"

definition PacketInBase_ReadShort :: "mem \<Rightarrow> pkt \<Rightarrow> (16 word \<times> pkt) result" where
  "PacketInBase_ReadShort m p = read_word 2 m p"

definition PacketInBase_ReadUShort :: "mem \<Rightarrow> pkt \<Rightarrow> (16 word \<times> pkt) result" where
  "PacketInBase_ReadUShort m p = read_word 2 m p"

definition PacketInBase_ReadInt :: "mem \<Rightarrow> pkt \<Rightarrow> (32 word \<times> pkt) result" where
  "PacketInBase_ReadInt m p = read_word 4 m p"

definition PacketInBase_ReadUInt :: "mem \<Rightarrow> pkt \<Rightarrow> (32 word \<times> pkt) result" where
  "PacketInBase_ReadUInt m p = read_word 4 m p"

definition PacketInBase_ReadFloat :: "mem \<Rightarrow> pkt \<Rightarrow> (32 word \<times> pkt) result" where
  "PacketInBase_ReadFloat m p = read_word 4 m p"

definition PacketInBase_ReadDouble :: "mem \<Rightarrow> pkt \<Rightarrow> (64 word \<times> pkt) result" where
  "PacketInBase_ReadDouble m p = read_word 8 m p"

definition PacketInBase_ReadLong :: "mem \<Rightarrow> pkt \<Rightarrow> (64 word \<times> pkt) result" where
  "PacketInBase_ReadLong m p = read_word 8 m p"

definition PacketInBase_ReadULong :: "mem \<Rightarrow> pkt \<Rightarrow> (64 word \<times> pkt) result" where
  "PacketInBase_ReadULong m p = read_word 8 m p"

definition PacketInBase_ReadString :: "mem \<Rightarrow> pkt \<Rightarrow> (bytes \<times> pkt) result" where
  "PacketInBase_ReadString m p = bindE (PacketInBase_ReadUShort m p) (\<lambda>(len, p1).
     PacketInBase_GetByte (unat len) m p1)"

definition PacketInBase_ReadBits :: "mem \<Rightarrow> pkt \<Rightarrow> (bytes \<times> pkt) result" where
  "PacketInBase_ReadBits m p = bindE (PacketInBase_ReadUShort m p) (\<lambda>(len, p1).
     PacketInBase_GetByte (unat len) m p1)"

definition PacketInBase_ReadRaw :: "16 word \<Rightarrow> mem \<Rightarrow> pkt \<Rightarrow> (bytes \<times> pkt) result" where
  "PacketInBase_ReadRaw sz m p = PacketInBase_GetByte (unat sz) m p"

text \<open>The overloads of \<open>operator >>\<close>.\<close>

definition PacketInBase_in_u8 :: "mem \<Rightarrow> pkt \<Rightarrow> (8 word \<times> pkt) result" where
  "PacketInBase_in_u8 m p = read_word 1 m p"

definition PacketInBase_in_bool :: "mem \<Rightarrow> pkt \<Rightarrow> (bool \<times> pkt) result" where
  "PacketInBase_in_bool m p = bindE (PacketInBase_in_u8 m p) (\<lambda>(b, p'). Inr (b = 1, p'))"

definition PacketInBase_in_u16 :: "mem \<Rightarrow> pkt \<Rightarrow> (16 word \<times> pkt) result" where
  "PacketInBase_in_u16 m p = read_word 2 m p"

definition PacketInBase_in_u32 :: "mem \<Rightarrow> pkt \<Rightarrow> (32 word \<times> pkt) result" where
  "PacketInBase_in_u32 m p = read_word 4 m p"

definition PacketInBase_in_u64 :: "mem \<Rightarrow> pkt \<Rightarrow> (64 word \<times> pkt) result" where
  "PacketInBase_in_u64 m p = read_word 8 m p"

definition PacketInBase_in_string :: "mem \<Rightarrow> pkt \<Rightarrow> (bytes \<times> pkt) result" where
  "PacketInBase_in_string m p = bindE (PacketInBase_in_u16 m p) (\<lambda>(len, p1).
     PacketInBase_GetByte (unat len) m p1)"

text \<open>
  All overloads together: the static type of the argument selects the read.
\<close>

datatype outval =
    OutU8 "8 word" | OutI8 "8 word" | OutU16 "16 word" | OutI16 "16 word" | OutU32 "32 word"
  | OutI32 "32 word" | OutU64 "64 word" | OutI64 "64 word" | OutFloat "32 word" | OutDouble "64 word"
  | OutCString bytes | OutString bytes | OutBool bool

datatype inkind = InU8 | InI8 | InU16 | InI16 | InU32 | InI32 | InU64 | InI64 | InFloat | InDouble | InString | InBool

fun PacketInBase_in :: "inkind \<Rightarrow> mem \<Rightarrow> pkt \<Rightarrow> (outval \<times> pkt) result" where
  "PacketInBase_in InU8 m p = bindE (PacketInBase_in_u8 m p) (\<lambda>(v, q). Inr (OutU8 v, q))"
| "PacketInBase_in InI8 m p = bindE (PacketInBase_in_u8 m p) (\<lambda>(v, q). Inr (OutI8 v, q))"
| "PacketInBase_in InU16 m p = bindE (PacketInBase_in_u16 m p) (\<lambda>(v, q). Inr (OutU16 v, q))"
| "PacketInBase_in InI16 m p = bindE (PacketInBase_in_u16 m p) (\<lambda>(v, q). Inr (OutI16 v, q))"
| "PacketInBase_in InU32 m p = bindE (PacketInBase_in_u32 m p) (\<lambda>(v, q). Inr (OutU32 v, q))"
| "PacketInBase_in InI32 m p = bindE (PacketInBase_in_u32 m p) (\<lambda>(v, q). Inr (OutI32 v, q))"
| "PacketInBase_in InU64 m p = bindE (PacketInBase_in_u64 m p) (\<lambda>(v, q). Inr (OutU64 v, q))"
| "PacketInBase_in InI64 m p = bindE (PacketInBase_in_u64 m p) (\<lambda>(v, q). Inr (OutI64 v, q))"
| "PacketInBase_in InFloat m p = bindE (PacketInBase_in_u32 m p) (\<lambda>(v, q). Inr (OutFloat v, q))"
| "PacketInBase_in InDouble m p = bindE (PacketInBase_in_u64 m p) (\<lambda>(v, q). Inr (OutDouble v, q))"
| "PacketInBase_in InString m p = bindE (PacketInBase_in_string m p) (\<lambda>(v, q). Inr (OutString v, q))"
| "PacketInBase_in InBool m p = bindE (PacketInBase_in_bool m p) (\<lambda>(v, q). Inr (OutBool v, q))"

section \<open>Typed writes\<close>

definition write_word :: "nat \<Rightarrow> 'w::len word \<Rightarrow> pkt \<times> mem \<Rightarrow> (pkt \<times> mem) result" where
  "write_word n v s = PacketOutBase_PutByte (le_bytes n (unat v)) s"

definition PacketOutBase_WriteByte :: "8 word \<Rightarrow> pkt \<times> mem \<Rightarrow> (pkt \<times> mem) result" where
  "PacketOutBase_WriteByte v s = write_word 1 v s"

definition PacketOutBase_WriteBoolean :: "bool \<Rightarrow> pkt \<times> mem \<Rightarrow> (pkt \<times> mem) result" where
  "PacketOutBase_WriteBoolean v s = (if v then PacketOutBase_WriteByte 1 s else PacketOutBase_WriteByte 0 s)"

definition PacketOutBase_WriteSByte :: "8 word \<Rightarrow> pkt \<times> mem \<Rightarrow> (pkt \<times> mem) result" where
  "PacketOutBase_WriteSByte v s = write_word 1 v s"

definition PacketOutBase_WriteShort :: "16 word \<Rightarrow> pkt \<times> mem \<Rightarrow> (pkt \<times> mem) result" where
  "PacketOutBase_WriteShort v s = write_word 2 v s"

definition PacketOutBase_WriteUShort :: "16 word \<Rightarrow> pkt \<times> mem \<Rightarrow> (pkt \<times> mem) result" where
  "PacketOutBase_WriteUShort v s = write_word 2 v s"

definition PacketOutBase_WriteInt :: "32 word \<Rightarrow> pkt \<times> mem \<Rightarrow> (pkt \<times> mem) result" where
  "PacketOutBase_WriteInt v s = write_word 4 v s"

definition PacketOutBase_WriteUInt :: "32 word \<Rightarrow> pkt \<times> mem \<Rightarrow> (pkt \<times> mem) result" where
  "PacketOutBase_WriteUInt v s = write_word 4 v s"

definition PacketOutBase_WriteFloat :: "32 word \<Rightarrow> pkt \<times> mem \<Rightarrow> (pkt \<times> mem) result" where
  "PacketOutBase_WriteFloat v s = write_word 4 v s"

definition PacketOutBase_WriteDouble :: "64 word \<Rightarrow> pkt \<times> mem \<Rightarrow> (pkt \<times> mem) result" where
  "PacketOutBase_WriteDouble v s = write_word 8 v s"

definition PacketOutBase_WriteLong :: "64 word \<Rightarrow> pkt \<times> mem \<Rightarrow> (pkt \<times> mem) result" where
  "PacketOutBase_WriteLong v s = write_word 8 v s"

definition PacketOutBase_WriteULong :: "64 word \<Rightarrow> pkt \<times> mem \<Rightarrow> (pkt \<times> mem) result" where
  "PacketOutBase_WriteULong v s = write_word 8 v s"

text \<open>
  \<open>WriteString\<close> of a C string cuts the length and the bytes to 16 bits; of a \<open>std::string\<close> it cuts
  the length field only and writes all bytes.
\<close>

definition PacketOutBase_WriteString_c :: "bytes \<Rightarrow> pkt \<times> mem \<Rightarrow> (pkt \<times> mem) result" where
  "PacketOutBase_WriteString_c str s =
     (let len = u16 (length str) in
      bindE (PacketOutBase_WriteUShort (word_of_nat (length str)) s) (PacketOutBase_PutByte (take len str)))"

definition PacketOutBase_WriteString :: "bytes \<Rightarrow> pkt \<times> mem \<Rightarrow> (pkt \<times> mem) result" where
  "PacketOutBase_WriteString str s =
     bindE (PacketOutBase_WriteUShort (word_of_nat (length str)) s)
       (PacketOutBase_PutByte (take (u32 (length str)) str))"

definition PacketOutBase_WriteBits :: "bytes \<Rightarrow> 16 word \<Rightarrow> pkt \<times> mem \<Rightarrow> (pkt \<times> mem) result" where
  "PacketOutBase_WriteBits v len s = (if length v < unat len then Inl OutOfRange else
     bindE (PacketOutBase_WriteUShort len s) (PacketOutBase_PutByte (take (unat len) v)))"

definition PacketOutBase_WriteRaw :: "bytes \<Rightarrow> 16 word \<Rightarrow> pkt \<times> mem \<Rightarrow> (pkt \<times> mem) result" where
  "PacketOutBase_WriteRaw data sz s = (if length data < unat sz then Inl OutOfRange
     else PacketOutBase_PutByte (take (unat sz) data) s)"

text \<open>
  The overloads of \<open>operator <<\<close>; the container overloads write the element count as 16 bits and then
  the elements.
\<close>

fun PacketOutBase_out :: "outval \<Rightarrow> pkt \<times> mem \<Rightarrow> (pkt \<times> mem) result" where
  "PacketOutBase_out (OutU8 v) s = PacketOutBase_WriteByte v s"
| "PacketOutBase_out (OutI8 v) s = PacketOutBase_WriteSByte v s"
| "PacketOutBase_out (OutU16 v) s = PacketOutBase_WriteUShort v s"
| "PacketOutBase_out (OutI16 v) s = PacketOutBase_WriteShort v s"
| "PacketOutBase_out (OutU32 v) s = PacketOutBase_WriteUInt v s"
| "PacketOutBase_out (OutI32 v) s = PacketOutBase_WriteInt v s"
| "PacketOutBase_out (OutU64 v) s = PacketOutBase_WriteULong v s"
| "PacketOutBase_out (OutI64 v) s = PacketOutBase_WriteLong v s"
| "PacketOutBase_out (OutFloat v) s = PacketOutBase_WriteFloat v s"
| "PacketOutBase_out (OutDouble v) s = PacketOutBase_WriteDouble v s"
| "PacketOutBase_out (OutCString v) s = PacketOutBase_WriteString_c v s"
| "PacketOutBase_out (OutString v) s = PacketOutBase_WriteString v s"
| "PacketOutBase_out (OutBool v) s = PacketOutBase_WriteBoolean v s"

primrec out_each :: "('a \<Rightarrow> pkt \<times> mem \<Rightarrow> (pkt \<times> mem) result) \<Rightarrow> 'a list \<Rightarrow> pkt \<times> mem \<Rightarrow> (pkt \<times> mem) result" where
  "out_each wr [] s = Inr s"
| "out_each wr (v # vs) s = bindE (wr v s) (out_each wr vs)"

definition out_vector :: "('a \<Rightarrow> pkt \<times> mem \<Rightarrow> (pkt \<times> mem) result) \<Rightarrow> 'a list \<Rightarrow> pkt \<times> mem \<Rightarrow> (pkt \<times> mem) result" where
  "out_vector wr vs s = bindE (PacketOutBase_WriteUShort (word_of_nat (length vs)) s) (out_each wr vs)"

section \<open>Cursor and content\<close>

definition data_bytes :: "mem \<Rightarrow> refchunk list \<Rightarrow> bytes" where
  "data_bytes m rs = concat (map (ref_bytes m) rs)"

lemma data_bytes_simps [simp]:
  "data_bytes m [] = []" "data_bytes m (r # rs) = ref_bytes m r @ data_bytes m rs"
  "data_bytes m (rs @ rs') = data_bytes m rs @ data_bytes m rs'"
  by (simp_all add: data_bytes_def)

text \<open>
  The chunk cursors agree with the packet cursor: the chunks before the current one are used up, the
  ones after it are untouched.
\<close>

fun cursor_at :: "refchunk list \<Rightarrow> nat \<Rightarrow> nat \<Rightarrow> bool" where
  "cursor_at [] y pos \<longleftrightarrow> y = 0 \<and> pos = 0"
| "cursor_at (r # rs) 0 pos \<longleftrightarrow> rm_pos r = pos \<and> (\<forall>x \<in> set rs. rm_pos x = 0)"
| "cursor_at (r # rs) (Suc y) pos \<longleftrightarrow>
     rm_pos r = rm_count r \<and> rm_count r \<le> pos \<and> cursor_at rs y (pos - rm_count r)"

lemma cursor_at_start: "\<forall>x \<in> set rs. rm_pos x = 0 \<Longrightarrow> cursor_at rs 0 0"
  by (cases rs) auto

definition same_views :: "refchunk list \<Rightarrow> refchunk list \<Rightarrow> bool" where
  "same_views rs rs' \<longleftrightarrow> map RefMemoryChunk_Reset rs' = map RefMemoryChunk_Reset rs"

lemma same_views_refl [simp]: "same_views rs rs"
  by (simp add: same_views_def)

lemma same_views_Cons [simp]:
  "same_views (r # rs) (r' # rs') \<longleftrightarrow> RefMemoryChunk_Reset r' = RefMemoryChunk_Reset r \<and> same_views rs rs'"
  by (simp add: same_views_def)

lemma Reset_eqD:
  "RefMemoryChunk_Reset r' = RefMemoryChunk_Reset r \<Longrightarrow>
     rm_chunk r' = rm_chunk r \<and> rm_data r' = rm_data r \<and> rm_count r' = rm_count r"
  by (cases r; cases r') (simp add: RefMemoryChunk_Reset_def)

lemma Reset_set_pos [simp]: "RefMemoryChunk_Reset (r\<lparr>rm_pos := k\<rparr>) = RefMemoryChunk_Reset r"
  by (simp add: RefMemoryChunk_Reset_def)

lemma ref_bytes_Reset: "RefMemoryChunk_Reset r' = RefMemoryChunk_Reset r \<Longrightarrow> ref_bytes m r' = ref_bytes m r"
  by (drule Reset_eqD) (simp add: ref_bytes_def split: option.splits)

lemma same_views_length: "same_views rs rs' \<Longrightarrow> length rs' = length rs"
  unfolding same_views_def by (metis length_map)

lemma same_views_ConsE:
  assumes "same_views (r # rs) rs'"
  obtains r' rs'' where "rs' = r' # rs''" "RefMemoryChunk_Reset r' = RefMemoryChunk_Reset r" "same_views rs rs''"
  using assms by (cases rs') (auto simp: same_views_def)

lemma same_views_bytes: "same_views rs rs' \<Longrightarrow> data_bytes m rs' = data_bytes m rs"
proof (induction rs arbitrary: rs')
  case (Cons r rs)
  from Cons.prems obtain r' rs'' where "rs' = r' # rs''" "RefMemoryChunk_Reset r' = RefMemoryChunk_Reset r"
      "same_views rs rs''" by (rule same_views_ConsE)
  with Cons.IH [of rs''] ref_bytes_Reset [of r' r m] show ?case by auto
qed (simp add: same_views_def)

lemma same_views_chunks: "same_views rs rs' \<Longrightarrow> map rm_chunk rs' = map rm_chunk rs"
proof (induction rs arbitrary: rs')
  case (Cons r rs)
  from Cons.prems obtain r' rs'' where "rs' = r' # rs''" "RefMemoryChunk_Reset r' = RefMemoryChunk_Reset r"
      "same_views rs rs''" by (rule same_views_ConsE)
  with Cons.IH [of rs''] Reset_eqD [of r' r] show ?case by auto
qed (simp add: same_views_def)

lemma same_views_count: "same_views rs rs' \<Longrightarrow> map rm_count rs' = map rm_count rs"
proof (induction rs arbitrary: rs')
  case (Cons r rs)
  from Cons.prems obtain r' rs'' where "rs' = r' # rs''" "RefMemoryChunk_Reset r' = RefMemoryChunk_Reset r"
      "same_views rs rs''" by (rule same_views_ConsE)
  with Cons.IH [of rs''] Reset_eqD [of r' r] show ?case by auto
qed (simp add: same_views_def)

abbreviation all_wf :: "mem \<Rightarrow> refchunk list \<Rightarrow> bool" where
  "all_wf m rs \<equiv> \<forall>r \<in> set rs. rm_wf m r"

lemma length_data_bytes: "all_wf m rs \<Longrightarrow> length (data_bytes m rs) = sum_list (map rm_count rs)"
  by (induction rs) (auto simp: length_ref_bytes)

lemma capacity_eq:
  "sum_list (map rm_count rs) + a < 4294967296 \<Longrightarrow>
     fold (\<lambda>r cap. u32 (cap + rm_count r)) rs a = a + sum_list (map rm_count rs)"
  by (induction rs arbitrary: a) (auto simp: algebra_simps)

section \<open>SkipTo\<close>

lemma SkipTo_loop_spec:
  assumes "all_wf m rs" and "pos \<le> sum_list (map rm_count rs)"
  shows "\<exists>rs' y'. SkipTo_loop rs pos y = Inr (rs', y + y') \<and> cursor_at rs' y' pos \<and> same_views rs rs' \<and> all_wf m rs'
           \<and> (pos = 0 \<longrightarrow> y' = 0 \<and> (\<forall>x \<in> set rs'. rm_pos x = 0))"
  using assms
proof (induction rs arbitrary: pos y)
  case Nil
  then show ?case by simp
next
  case (Cons r rs)
  have wf: "rm_wf m r" "all_wf m rs" using Cons.prems(1) by auto
  have wf0: "rm_wf m (r\<lparr>rm_pos := k\<rparr>)" if "k \<le> rm_count r" for k
    using wf(1) that by (auto simp: rm_wf_def split: option.splits)
  show ?case
  proof (cases "pos < rm_count r \<or> pos = 0")
    case True
    obtain rs' y' where "SkipTo_loop rs 0 y = Inr (rs', y + y')" "same_views rs rs'" "all_wf m rs'"
        "y' = 0" "\<forall>x \<in> set rs'. rm_pos x = 0"
      using Cons.IH [OF wf(2), of 0 y] by auto
    with True wf0 show ?thesis
      by (cases "pos = 0") (auto simp: RefMemoryChunk_SkipTo_def assertE_def)
  next
    case False
    then have le: "rm_count r \<le> pos" "0 < pos" by auto
    have rest: "pos - rm_count r \<le> sum_list (map rm_count rs)" using Cons.prems(2) le by simp
    obtain rs' y' where "SkipTo_loop rs (pos - rm_count r) (y + 1) = Inr (rs', (y + 1) + y')"
        "cursor_at rs' y' (pos - rm_count r)" "same_views rs rs'" "all_wf m rs'"
      using Cons.IH [OF wf(2) rest, of "y + 1"] by blast
    with False le wf0 [of "rm_count r"] show ?thesis
      by (auto simp: RefMemoryChunk_SkipTo_def assertE_def intro!: exI [of _ "Suc y'"])
  qed
qed

section \<open>GetByte\<close>

lemma GetByte_loop_shift:
  "GetByte_loop m (r # rs) (Suc y) n =
     bindE (GetByte_loop m rs y n) (\<lambda>(bs, rs', y'). Inr (bs, r # rs', Suc y'))"
proof (induction m rs y n rule: GetByte_loop.induct)
  case (1 m rs y n)
  show ?case
  proof (cases "n > 0 \<and> y < length rs")
    case False
    then show ?thesis by (subst (1 2) GetByte_loop.simps) auto
  next
    case True
    show ?thesis
    proof (cases "RefMemoryChunk_Read (rs ! y) n m")
      case (Inl e)
      with True show ?thesis by (subst (1 2) GetByte_loop.simps) auto
    next
      case (Inr br)
      obtain bs r' where br: "br = (bs, r')" by (cases br)
      let ?y = "if RefMemoryChunk_FreeCount r' = 0 then y + 1 else y"
      have IH: "GetByte_loop m (r # rs[y := r']) (Suc ?y) (n - length bs) =
          bindE (GetByte_loop m (rs[y := r']) ?y (n - length bs)) (\<lambda>(bs, rs', y'). Inr (bs, r # rs', Suc y'))"
        using "1.IH" [OF True] Inr br by auto
      have "GetByte_loop m (r # rs) (Suc y) n =
          bindE (GetByte_loop m (r # rs[y := r']) (Suc ?y) (n - length bs)) (\<lambda>(bs', data', y'). Inr (bs @ bs', data', y'))"
        using True Inr br by (subst GetByte_loop.simps) auto
      moreover have "GetByte_loop m rs y n =
          bindE (GetByte_loop m (rs[y := r']) ?y (n - length bs)) (\<lambda>(bs', data', y'). Inr (bs @ bs', data', y'))"
        using True Inr br by (subst GetByte_loop.simps) auto
      ultimately show ?thesis
        by (simp only: IH) (cases "GetByte_loop m (rs[y := r']) ?y (n - length bs)", auto)
    qed
  qed
qed

lemma GetByte_loop_0 [simp]: "GetByte_loop m rs y 0 = Inr ([], rs, y)"
  by (subst GetByte_loop.simps) simp

lemma GetByte_loop_spec:
  assumes "all_wf m rs" and "cursor_at rs y pos" and "pos + n \<le> sum_list (map rm_count rs)"
  shows "\<exists>rs' y'. GetByte_loop m rs y n = Inr (take n (drop pos (data_bytes m rs)), rs', y')
           \<and> cursor_at rs' y' (pos + n) \<and> same_views rs rs' \<and> all_wf m rs'"
  using assms
proof (induction rs arbitrary: y pos n)
  case Nil
  then show ?case by (simp add: same_views_def)
next
  case (Cons r rs)
  have wf: "rm_wf m r" "all_wf m rs" using Cons.prems(1) by auto
  have len: "length (ref_bytes m r) = rm_count r" using wf(1) by (rule length_ref_bytes)
  show ?case
  proof (cases y)
    case (Suc y1)
    then have c: "rm_pos r = rm_count r" "rm_count r \<le> pos" "cursor_at rs y1 (pos - rm_count r)"
      using Cons.prems(2) by auto
    have rest: "pos - rm_count r + n \<le> sum_list (map rm_count rs)" using Cons.prems(3) c(2) by simp
    obtain rs' y' where "GetByte_loop m rs y1 n = Inr (take n (drop (pos - rm_count r) (data_bytes m rs)), rs', y')"
        "cursor_at rs' y' (pos - rm_count r + n)" "same_views rs rs'" "all_wf m rs'"
      using Cons.IH [OF wf(2) c(3) rest] by blast
    with c len Suc wf(1) show ?thesis by (auto simp: GetByte_loop_shift intro!: exI [of _ "Suc y'"])
  next
    case 0
    then have c: "rm_pos r = pos" "\<forall>x \<in> set rs. rm_pos x = 0" using Cons.prems(2) by auto
    have le: "pos \<le> rm_count r" "rm_count r < 4294967296" using wf(1) c by (auto simp: rm_wf_def)
    let ?k = "min n (rm_count r - pos)"
    let ?r = "r\<lparr>rm_pos := pos + ?k\<rparr>"
    have rd: "RefMemoryChunk_Read r n m = Inr (take n (drop pos (ref_bytes m r)), ?r)"
      using Read_eq [OF wf(1), of n] c(1) by simp
    have wfr: "rm_wf m ?r" using wf(1) le by (auto simp: rm_wf_def split: option.splits)
    have free: "RefMemoryChunk_FreeCount ?r = rm_count r - (pos + ?k)"
      using le by (simp add: RefMemoryChunk_FreeCount_def)
    consider "n = 0" | "0 < n" "n < rm_count r - pos" | "0 < n" "rm_count r - pos \<le> n" by linarith
    then show ?thesis
    proof cases
      case 1
      with Cons.prems 0 show ?thesis by auto
    next
      case 2
      then have "RefMemoryChunk_FreeCount ?r \<noteq> 0" "?k = n" using free by auto
      then have "GetByte_loop m (r # rs) 0 n = Inr (take n (drop pos (ref_bytes m r)), ?r # rs, 0)"
        using 2 rd len by (subst GetByte_loop.simps) simp
      with 2 0 c len wf wfr show ?thesis by (intro exI [of _ "?r # rs"] exI [of _ 0]) simp
    next
      case 3
      then have k: "?k = rm_count r - pos" by simp
      have rest: "0 + (n - ?k) \<le> sum_list (map rm_count rs)" using Cons.prems(3) k le by simp
      obtain rs' y' where IH: "GetByte_loop m rs 0 (n - ?k) = Inr (take (n - ?k) (drop 0 (data_bytes m rs)), rs', y')"
          "cursor_at rs' y' (0 + (n - ?k))" "same_views rs rs'" "all_wf m rs'"
        using Cons.IH [OF wf(2) cursor_at_start [OF c(2)] rest] by blast
      have "GetByte_loop m (r # rs) 0 n =
          Inr (take n (drop pos (ref_bytes m r)) @ take (n - ?k) (data_bytes m rs), ?r # rs', Suc y')"
        using 3 rd len free k IH(1) by (subst GetByte_loop.simps) (simp add: GetByte_loop_shift)
      moreover have "take n (drop pos (ref_bytes m r)) @ take (n - ?k) (data_bytes m rs)
          = take n (drop pos (data_bytes m (r # rs)))"
        using len le k by simp
      moreover have "0 + (n - ?k) = pos + n - rm_count r" using 3 k le by simp
      ultimately show ?thesis
        using IH(2-4) 0 c(1) wfr le 3 k by (intro exI [of _ "?r # rs'"] exI [of _ "Suc y'"]) simp
    qed
  qed
qed

section \<open>PutByte\<close>

lemma Write_spec:
  fixes src :: bytes
  assumes wf: "rm_wf m r"
  defines "k \<equiv> min (length src) (rm_count r - rm_pos r)"
  obtains m' where "RefMemoryChunk_Write r src m = Inr (k, r\<lparr>rm_pos := rm_pos r + k\<rparr>, m')"
    "ref_bytes m' r = overwrite (ref_bytes m r) (rm_pos r) (take k src)"
    "\<And>x. rm_chunk x \<noteq> rm_chunk r \<Longrightarrow> ref_bytes m' x = ref_bytes m x"
    "\<And>x. rm_wf m' x = rm_wf m x" "mp_chunksize m' = mp_chunksize m"
proof (cases "rm_chunk r")
  case None
  then have "rm_count r = 0" "rm_pos r = 0" using wf by (auto simp: rm_wf_def)
  moreover have "r\<lparr>rm_pos := 0\<rparr> = r" if "rm_pos r = 0" using that by (cases r) simp
  ultimately show ?thesis
    using that [of m] Write_null [OF wf None, of src] None by (simp add: k_def ref_bytes_def)
next
  case (Some c)
  then obtain ch where ch: "ck_store m c = Some ch" and b: "rm_data r + rm_count r \<le> length (ck_data ch)"
      "rm_pos r \<le> rm_count r"
    using wf by (auto simp: rm_wf_def split: option.splits)
  let ?d = "overwrite (ck_data ch) (rm_data r + rm_pos r) (take k src)"
  let ?m = "m\<lparr>ck_store := (ck_store m)(c \<mapsto> ch\<lparr>ck_data := ?d\<rparr>)\<rparr>"
  have len: "length ?d = length (ck_data ch)" using b by (intro length_overwrite) (auto simp: k_def)
  have "RefMemoryChunk_Write r src m = Inr (k, r\<lparr>rm_pos := rm_pos r + k\<rparr>, ?m)"
    unfolding k_def by (rule Write_eq [OF wf Some ch])
  moreover have "ref_bytes ?m r = overwrite (ref_bytes m r) (rm_pos r) (take k src)"
    using Some ch b take_drop_overwrite_inside [of "rm_pos r" "take k src" "rm_count r" "rm_data r" "ck_data ch"]
    by (simp add: ref_bytes_def k_def)
  moreover have "ref_bytes ?m x = ref_bytes m x" if "rm_chunk x \<noteq> rm_chunk r" for x
    using that Some by (auto simp: ref_bytes_def split: option.splits)
  moreover have "rm_wf ?m x = rm_wf m x" for x
    using ch len by (auto simp: rm_wf_def split: option.splits)
  ultimately show ?thesis using that [of ?m] by simp
qed

lemma PutByte_loop_Nil [simp]: "PutByte_loop m rs y [] = Inr (rs, y, m)"
  by (subst PutByte_loop.simps) simp

lemma PutByte_loop_shift:
  "PutByte_loop m (r # rs) (Suc y) src =
     bindE (PutByte_loop m rs y src) (\<lambda>(rs', y', m'). Inr (r # rs', Suc y', m'))"
proof (induction m rs y src rule: PutByte_loop.induct)
  case (1 m rs y src)
  show ?case
  proof (cases "src \<noteq> [] \<and> y < length rs")
    case False
    then show ?thesis by (subst (1 2) PutByte_loop.simps) auto
  next
    case True
    show ?thesis
    proof (cases "RefMemoryChunk_Write (rs ! y) src m")
      case (Inl e)
      with True show ?thesis by (subst (1 2) PutByte_loop.simps) auto
    next
      case (Inr kr)
      obtain k r' m' where kr: "kr = (k, r', m')" by (cases kr)
      let ?y = "if RefMemoryChunk_FreeCount r' = 0 then y + 1 else y"
      have IH: "PutByte_loop m' (r # rs[y := r']) (Suc ?y) (drop k src) =
          bindE (PutByte_loop m' (rs[y := r']) ?y (drop k src)) (\<lambda>(rs', y', m'). Inr (r # rs', Suc y', m'))"
        using "1.IH" [OF True] Inr kr by auto
      have "PutByte_loop m (r # rs) (Suc y) src = PutByte_loop m' (r # rs[y := r']) (Suc ?y) (drop k src)"
        using True Inr kr by (subst PutByte_loop.simps) auto
      moreover have "PutByte_loop m rs y src = PutByte_loop m' (rs[y := r']) ?y (drop k src)"
        using True Inr kr by (subst PutByte_loop.simps) auto
      ultimately show ?thesis by (simp only: IH)
    qed
  qed
qed

text \<open>
  What a successful write through the views \<open>rs\<close> leaves: the same views, the memory of everybody else
  and the ownership invariant.
\<close>

definition wrote :: "mem \<Rightarrow> refchunk list \<Rightarrow> mem \<Rightarrow> refchunk list \<Rightarrow> bool" where
  "wrote m rs m' rs' \<longleftrightarrow> same_views rs rs' \<and> all_wf m rs' \<and> (\<forall>x. rm_wf m' x = rm_wf m x) \<and>
     (\<forall>x. rm_chunk x \<notin> rm_chunk ` set rs \<longrightarrow> ref_bytes m' x = ref_bytes m x) \<and>
     (\<forall>hs. mem_inv m (rs @ hs) \<longrightarrow> mem_inv m' (rs' @ hs)) \<and> mp_chunksize m' = mp_chunksize m"

lemma data_bytes_frame:
  assumes "wrote m rs m' rs'" and "\<forall>x \<in> set xs. rm_chunk x \<notin> rm_chunk ` set rs"
  shows "data_bytes m' xs = data_bytes m xs"
  using assms by (induction xs) (auto simp: wrote_def)

lemma wrote_refl: "all_wf m rs \<Longrightarrow> wrote m rs m rs"
  by (simp add: wrote_def)

lemma wrote_later:
  assumes "wrote m rs m' rs'" and "rm_wf m r"
  shows "wrote m (r # rs) m' (r # rs')"
proof -
  have "mem_inv m' ((r # rs') @ hs)" if "mem_inv m ((r # rs) @ hs)" for hs
  proof -
    have "mem_inv m (rs @ (r # hs))" by (rule mem_inv_perm [OF that]) simp
    then have "mem_inv m' (rs' @ (r # hs))" using assms(1) by (simp add: wrote_def)
    then show ?thesis by (rule mem_inv_perm) simp
  qed
  then show ?thesis using assms by (simp add: wrote_def)
qed

lemma wrote_trans:
  assumes "wrote m rs m1 rs1" and "wrote m1 rs1 m2 rs2"
  shows "wrote m rs m2 rs2"
proof -
  have "rm_chunk ` set rs1 = rm_chunk ` set rs"
    using assms(1) same_views_chunks [of rs rs1] unfolding wrote_def by (metis list.set_map)
  then show ?thesis using assms by (auto simp: wrote_def same_views_def)
qed

lemma write_first:
  fixes src :: bytes
  assumes wf: "rm_wf m r" "all_wf m rs" and dis: "rm_chunk r \<notin> rm_chunk ` set rs"
  defines "k \<equiv> min (length src) (rm_count r - rm_pos r)"
  shows "\<exists>m'. RefMemoryChunk_Write r src m = Inr (k, r\<lparr>rm_pos := rm_pos r + k\<rparr>, m') \<and>
    ref_bytes m' r = overwrite (ref_bytes m r) (rm_pos r) (take k src) \<and>
    wrote m (r # rs) m' (r\<lparr>rm_pos := rm_pos r + k\<rparr> # rs) \<and>
    data_bytes m' rs = data_bytes m rs \<and> all_wf m' rs"
proof -
  let ?r = "r\<lparr>rm_pos := rm_pos r + k\<rparr>"
  obtain m' where w: "RefMemoryChunk_Write r src m = Inr (k, ?r, m')"
      "ref_bytes m' r = overwrite (ref_bytes m r) (rm_pos r) (take k src)"
      "\<And>x. rm_chunk x \<noteq> rm_chunk r \<Longrightarrow> ref_bytes m' x = ref_bytes m x"
      "\<And>x. rm_wf m' x = rm_wf m x" "mp_chunksize m' = mp_chunksize m"
    using Write_spec [OF wf(1), of src] unfolding k_def by metis
  have "rm_wf m ?r" using wf(1) by (auto simp: rm_wf_def k_def split: option.splits)
  moreover have "mem_inv m' (?r # rs @ hs)" if "mem_inv m (r # rs @ hs)" for hs
    using Write_inv [of m "[]" r "rs @ hs" src] that w(1) by simp
  ultimately have wr: "wrote m (r # rs) m' (?r # rs)"
    using w wf by (auto simp: wrote_def)
  have "ref_bytes m' x = ref_bytes m x" if "x \<in> set rs" for x
    using that dis w(3) [of x] by (metis imageI)
  then have "data_bytes m' rs = data_bytes m rs" unfolding data_bytes_def by (metis map_eq_conv)
  with w wr wf show ?thesis by blast
qed

lemma PutByte_loop_spec:
  assumes "all_wf m rs" and "distinct (map rm_chunk rs)" and "cursor_at rs y pos"
    and "pos + length src \<le> sum_list (map rm_count rs)"
  shows "\<exists>rs' y' m'. PutByte_loop m rs y src = Inr (rs', y', m') \<and> wrote m rs m' rs'
           \<and> data_bytes m' rs = overwrite (data_bytes m rs) pos src \<and> cursor_at rs' y' (pos + length src)"
  using assms
proof (induction rs arbitrary: m y pos src)
  case Nil
  then show ?case by (simp add: wrote_refl)
next
  case (Cons r rs)
  have wf: "rm_wf m r" "all_wf m rs" using Cons.prems(1) by auto
  have dis: "distinct (map rm_chunk rs)" "rm_chunk r \<notin> rm_chunk ` set rs" using Cons.prems(2) by auto
  have len: "length (ref_bytes m r) = rm_count r" using wf(1) by (rule length_ref_bytes)
  show ?case
  proof (cases y)
    case (Suc y1)
    then have c: "rm_pos r = rm_count r" "rm_count r \<le> pos" "cursor_at rs y1 (pos - rm_count r)"
      using Cons.prems(3) by auto
    have rest: "pos - rm_count r + length src \<le> sum_list (map rm_count rs)" using Cons.prems(4) c(2) by simp
    obtain rs' y' m' where IH: "PutByte_loop m rs y1 src = Inr (rs', y', m')" "wrote m rs m' rs'"
        "data_bytes m' rs = overwrite (data_bytes m rs) (pos - rm_count r) src"
        "cursor_at rs' y' (pos - rm_count r + length src)"
      using Cons.IH [OF wf(2) dis(1) c(3) rest] by blast
    have "ref_bytes m' r = ref_bytes m r" using IH(2) dis(2) by (simp add: wrote_def)
    moreover have "overwrite (data_bytes m (r # rs)) pos src
        = ref_bytes m r @ overwrite (data_bytes m rs) (pos - rm_count r) src"
      using overwrite_append_right [of "ref_bytes m r" "data_bytes m rs" "pos - rm_count r" src] len c(2) by simp
    ultimately show ?thesis
      using IH c Suc wrote_later [OF IH(2) wf(1)]
      by (intro exI [of _ "r # rs'"] exI [of _ "Suc y'"] exI [of _ m']) (simp add: PutByte_loop_shift)
  next
    case 0
    then have c: "rm_pos r = pos" "\<forall>x \<in> set rs. rm_pos x = 0" using Cons.prems(3) by auto
    have le: "pos \<le> rm_count r" "rm_count r < 4294967296" using wf(1) c by (auto simp: rm_wf_def)
    let ?k = "min (length src) (rm_count r - pos)"
    let ?r = "r\<lparr>rm_pos := pos + ?k\<rparr>"
    obtain m1 where w: "RefMemoryChunk_Write r src m = Inr (?k, ?r, m1)"
        "ref_bytes m1 r = overwrite (ref_bytes m r) pos (take ?k src)" "wrote m (r # rs) m1 (?r # rs)"
        "data_bytes m1 rs = data_bytes m rs" "all_wf m1 rs"
      using write_first [OF wf dis(2), of src] c(1) by blast
    have free: "RefMemoryChunk_FreeCount ?r = rm_count r - (pos + ?k)"
      using le by (simp add: RefMemoryChunk_FreeCount_def)
    consider "src = []" | "src \<noteq> []" "length src < rm_count r - pos" | "src \<noteq> []" "rm_count r - pos \<le> length src"
      by linarith
    then show ?thesis
    proof cases
      case 1
      with Cons.prems 0 wrote_refl [OF Cons.prems(1)] show ?thesis by auto
    next
      case 2
      then have "RefMemoryChunk_FreeCount ?r \<noteq> 0" "?k = length src" using free by auto
      then have "PutByte_loop m (r # rs) 0 src = Inr (?r # rs, 0, m1)"
        using 2 w(1) by (subst PutByte_loop.simps) simp
      moreover have "data_bytes m1 (r # rs) = overwrite (data_bytes m (r # rs)) pos src"
        using w(2,4) 2 len by (simp add: overwrite_append)
      ultimately show ?thesis
        using w(3) 0 c 2 by (intro exI [of _ "?r # rs"] exI [of _ 0] exI [of _ m1]) simp
    next
      case 3
      then have k: "?k = rm_count r - pos" by simp
      let ?src = "drop ?k src"
      have rest: "0 + length ?src \<le> sum_list (map rm_count rs)" using Cons.prems(4) k le by simp
      obtain rs' y' m' where IH: "PutByte_loop m1 rs 0 ?src = Inr (rs', y', m')" "wrote m1 rs m' rs'"
          "data_bytes m' rs = overwrite (data_bytes m1 rs) 0 ?src" "cursor_at rs' y' (0 + length ?src)"
        using Cons.IH [OF w(5) dis(1) cursor_at_start [OF c(2)] rest] by blast
      have wfr: "rm_wf m1 ?r" using w(3) by (auto simp: wrote_def)
      have "ref_bytes m' r = ref_bytes m1 r" using IH(2) dis(2) by (simp add: wrote_def)
      then have "data_bytes m' (r # rs) = overwrite (data_bytes m (r # rs)) pos src"
        using IH(3) w(2,4) 3 k le len overwrite_append_split [of pos "ref_bytes m r" src "data_bytes m rs"] by simp
      moreover have "PutByte_loop m (r # rs) 0 src = Inr (?r # rs', Suc y', m')"
        using 3 w(1) free k IH(1) by (subst PutByte_loop.simps) (simp add: PutByte_loop_shift)
      moreover have "0 + length ?src = pos + length src - rm_count r" using 3 k le by simp
      moreover have "wrote m (r # rs) m' (?r # rs')"
        by (rule wrote_trans [OF w(3) wrote_later [OF IH(2) wfr]])
      ultimately show ?thesis
        using IH(4) 0 c(1) le 3 k by (intro exI [of _ "?r # rs'"] exI [of _ "Suc y'"] exI [of _ m']) simp
    qed
  qed
qed

end
