(* ===== verification/PacketSpec.thy ===== *)
theory PacketSpec
  imports PacketBase
begin

text \<open>
  What a packet promises: a byte string with a position. \<open>PutByte\<close> overwrites or appends at the
  position, \<open>FetchData\<close> hands out views onto exactly the bytes written, \<open>GetByte\<close> returns the next
  bytes or throws. On top of these, the encodings of all typed values and their round trip.
\<close>

section \<open>The writer\<close>

definition content :: "mem \<Rightarrow> pkt \<Rightarrow> bytes" where
  "content m p = take (pk_size p) (data_bytes m (pk_data p))"

text \<open>
  The packet under construction owns its chunks alone; \<open>hs\<close> are the views of everybody else.
\<close>

definition pout_wf :: "mem \<Rightarrow> refchunk list \<Rightarrow> pkt \<Rightarrow> bool" where
  [inv_defs]: "pout_wf m hs p \<longleftrightarrow> mem_inv m (pk_data p @ hs) \<and> distinct (map rm_chunk (pk_data p)) \<and>
     rm_chunk ` set (pk_data p) \<inter> rm_chunk ` set hs = {} \<and>
     cursor_at (pk_data p) (pk_pos_y p) (pk_pos p) \<and> pk_pos p \<le> pk_size p \<and> pk_size p \<le> pk_capacity p \<and>
     pk_capacity p = sum_list (map rm_count (pk_data p)) \<and> pk_capacity p < 4294967296"

text \<open>
  \<open>n\<close> more bytes of capacity and \<open>n\<close> more views, each of them copied at most twice, keep all 32-bit counters below their wrap-around. A
  write of \<open>k\<close> bytes uses up at most \<open>cost m k\<close> of this room.
\<close>

definition room :: "mem \<Rightarrow> refchunk list \<Rightarrow> pkt \<Rightarrow> nat \<Rightarrow> bool" where
  "room m hs p n \<longleftrightarrow> 0 < mp_chunksize m \<and> pk_capacity p + n < 4294967296 \<and>
     3 * length (pk_data p) + length hs + 3 * n + 2 < 4294967296"

definition cost :: "mem \<Rightarrow> nat \<Rightarrow> nat" where
  "cost m k = k + 10 + mp_chunksize m"

lemma cursor_at_append:
  "cursor_at rs y pos \<Longrightarrow> \<forall>x \<in> set new. rm_pos x = 0 \<Longrightarrow> cursor_at (rs @ new) y pos"
  by (induction rs y pos rule: cursor_at.induct) (auto intro: cursor_at_start)

lemma chunk_count_bounds:
  fixes n cs :: nat
  assumes "0 < cs"
  defines "k \<equiv> if n mod cs > 0 then n div cs + 1 else n div cs"
  shows "n \<le> k * cs" and "k * cs \<le> n + cs" and "k \<le> n"
proof -
  define d r where "d = n div cs" and "r = n mod cs"
  have n: "n = d * cs + r" and r: "r < cs" using assms(1) by (simp_all add: d_def r_def)
  have k: "k = (if r > 0 then d + 1 else d)" by (simp add: k_def d_def r_def)
  show "n \<le> k * cs" "k * cs \<le> n + cs" using n r by (auto simp: k)
  have "d \<le> d * cs" using assms(1) by simp
  then have "d + r \<le> n" using n by linarith
  then show "k \<le> n" by (auto simp: k)
qed

lemma AquireMemory_spec:
  assumes wf: "pout_wf m hs p" and room: "room m hs p (n + cost m k)"
  shows "\<exists>p' m'. PacketOutBase_AquireMemory k (p, m) = Inr (p', m') \<and> pout_wf m' hs p' \<and> room m' hs p' n
     \<and> content m' p' = content m p \<and> pk_pos p' = pk_pos p \<and> pk_size p' = pk_size p
     \<and> pk_capacity p + k + 10 \<le> pk_capacity p' \<and> data_bytes m' hs = data_bytes m hs \<and> mp_chunksize m' = mp_chunksize m"
proof -
  let ?cs = "mp_chunksize m"
  define c where "c = (if (k + 10) mod ?cs > 0 then (k + 10) div ?cs + 1 else (k + 10) div ?cs)"
  have cs: "0 < ?cs" and b: "pk_capacity p + (n + (k + 10 + ?cs)) < 4294967296"
      "3 * length (pk_data p) + length hs + 3 * (n + (k + 10 + ?cs)) + 2 < 4294967296"
    using room by (auto simp: room_def cost_def)
  have cb: "k + 10 \<le> c * ?cs" "c * ?cs \<le> k + 10 + ?cs" "c \<le> k + 10"
    unfolding c_def using chunk_count_bounds [OF cs] by blast+
  have cc: "MemoryPool_CalculateChunkCount (u32 (k + 10)) m = Inr c"
    using cs b cb(3) by (simp add: MemoryPool_CalculateChunkCount_def c_def Let_def split: if_splits)
  have inv: "mem_inv m (pk_data p @ hs)" using wf by (simp add: pout_wf_def)
  have "length (pk_data p @ hs) + Suc c < 4294967296" using b cb by simp
  from Aquire_inv [OF inv this, of "pk_data p"] obtain rs m' where
    r: "MemoryPool_Aquire (pk_data p) c m = Inr (pk_data p @ rs, m')" "length rs = c"
      "mem_inv m' (rs @ pk_data p @ hs)" "distinct (map rm_chunk rs)"
      "\<forall>r \<in> set rs. whole_view m r \<and> rm_chunk r \<notin> rm_chunk ` set (pk_data p @ hs)"
      "\<forall>c. 0 < held (pk_data p @ hs) c \<longrightarrow> data_of m' c = data_of m c" "mp_chunksize m' = ?cs"
    by blast
  let ?p = "p\<lparr>pk_data := pk_data p @ rs, pk_capacity := pk_capacity p + c * ?cs\<rparr>"
  have "map rm_count rs = map (\<lambda>_. ?cs) rs" using r(5) by (auto simp: whole_view_def)
  then have cnt: "map rm_count rs = replicate c ?cs" using r(2) by (simp add: map_replicate_const)
  have cap: "pk_capacity p = sum_list (map rm_count (pk_data p))" using wf by (simp add: pout_wf_def)
  have sum: "sum_list (map rm_count (pk_data p @ rs)) = pk_capacity p + c * ?cs"
    using cap by (simp add: cnt sum_list_replicate)
  have eq: "PacketOutBase_AquireMemory k (p, m) = Inr (?p, m')"
    using cc r(1) b cb(2) sum capacity_eq [of "pk_data p @ rs" 0]
    by (simp add: PacketOutBase_AquireMemory_def MemoryPool_AquireByByteNeed_def Packet_UpdateCapacity_def)
  have old: "ref_bytes m' x = ref_bytes m x" if "x \<in> set (pk_data p @ hs)" for x
    using that r(6) held_pos [OF that] by (intro ref_bytes_cong) blast
  have bytes: "data_bytes m' (pk_data p) = data_bytes m (pk_data p)" "data_bytes m' hs = data_bytes m hs"
    using old unfolding data_bytes_def by (metis (no_types, lifting) UnCI map_eq_conv set_append)+
  have "all_wf m (pk_data p)" using inv by (auto simp: mem_inv_def)
  then have len: "length (data_bytes m (pk_data p)) = pk_capacity p" using cap length_data_bytes by simp
  have "mem_inv m' ((pk_data p @ rs) @ hs)" by (rule mem_inv_perm [OF r(3)]) simp
  moreover have "cursor_at (pk_data p @ rs) (pk_pos_y p) (pk_pos p)"
    using wf r(5) by (intro cursor_at_append) (auto simp: pout_wf_def whole_view_def)
  moreover have "rm_chunk ` set rs \<inter> rm_chunk ` set (pk_data p @ hs) = {}" using r(5) by blast
  ultimately have "pout_wf m' hs ?p"
    using wf r(4) sum b cb by (simp add: pout_wf_def image_Un Int_Un_distrib2 Int_Un_distrib Int_commute)
  moreover have "room m' hs ?p n" using r(2,7) cs b cb by (simp add: room_def)
  moreover have "content m' ?p = content m p" using wf bytes len by (simp add: content_def pout_wf_def)
  ultimately show ?thesis using eq bytes r(7) cb by auto
qed

lemma overwrite_take:
  assumes "i \<le> s" and "s \<le> length xs" and "i + length ys \<le> length xs"
  shows "take (max s (i + length ys)) (overwrite xs i ys) = overwrite (take s xs) i ys"
proof (cases "s \<le> i + length ys")
  case True
  then show ?thesis using assms by (cases ys) (simp_all add: overwrite_def max_def min_def)
next
  case False
  then show ?thesis using assms take_drop_overwrite_inside [of i ys s 0 xs] by (simp add: max_def)
qed

lemma PutByte_grow_spec:
  assumes wf: "pout_wf m hs p" and room: "room m hs p (n + cost m k)"
  shows "\<exists>p' m'. PutByte_grow 2 k (p, m) = Inr (p', m') \<and> pout_wf m' hs p' \<and> room m' hs p' n
     \<and> content m' p' = content m p \<and> pk_pos p' = pk_pos p \<and> pk_size p' = pk_size p
     \<and> pk_pos p + k \<le> pk_capacity p' \<and> data_bytes m' hs = data_bytes m hs \<and> mp_chunksize m' = mp_chunksize m"
proof -
  have b: "pk_pos p \<le> pk_capacity p" "pk_capacity p + (n + (k + 10)) < 4294967296"
    using wf room by (auto simp: pout_wf_def room_def cost_def)
  have u: "u32 (pk_pos p + k) = pk_pos p + k" using b by (intro u32_id) simp
  show ?thesis
  proof (cases "pk_pos p + k \<le> pk_capacity p")
    case True
    moreover have "room m hs p n" using room by (auto simp: room_def)
    ultimately show ?thesis using wf u by (auto simp: numeral_2_eq_2)
  next
    case False
    obtain p' m' where a: "PacketOutBase_AquireMemory k (p, m) = Inr (p', m')" "pout_wf m' hs p'" "room m' hs p' n"
        "content m' p' = content m p" "pk_pos p' = pk_pos p" "pk_size p' = pk_size p"
        "pk_capacity p + k + 10 \<le> pk_capacity p'" "data_bytes m' hs = data_bytes m hs" "mp_chunksize m' = mp_chunksize m"
      using AquireMemory_spec [OF wf room] by blast
    have cap: "pk_pos p + k \<le> pk_capacity p'" using a(7) b by simp
    have "PutByte_grow 2 k (p, m) = Inr (p', m')"
      using False u a(1,5) cap by (simp add: numeral_2_eq_2)
    then show ?thesis using a cap by blast
  qed
qed

definition put_done :: "mem \<Rightarrow> refchunk list \<Rightarrow> pkt \<Rightarrow> bytes \<Rightarrow> nat \<Rightarrow> pkt \<times> mem \<Rightarrow> bool" where
  "put_done m hs p src n = (\<lambda>(p', m'). pout_wf m' hs p' \<and> room m' hs p' n \<and>
     content m' p' = overwrite (content m p) (pk_pos p) src \<and> pk_pos p' = pk_pos p + length src \<and>
     data_bytes m' hs = data_bytes m hs \<and> mp_chunksize m' = mp_chunksize m)"

lemma PutByte_spec:
  assumes wf: "pout_wf m hs p" and room: "room m hs p (n + cost m (length src))"
  shows "\<exists>s. PacketOutBase_PutByte src (p, m) = Inr s \<and> put_done m hs p src n s"
proof -
  let ?k = "length src"
  obtain p1 m1 where g: "PutByte_grow 2 ?k (p, m) = Inr (p1, m1)" "pout_wf m1 hs p1" "room m1 hs p1 n"
      "content m1 p1 = content m p" "pk_pos p1 = pk_pos p" "pk_size p1 = pk_size p"
      "pk_pos p + ?k \<le> pk_capacity p1" "data_bytes m1 hs = data_bytes m hs" "mp_chunksize m1 = mp_chunksize m"
    using PutByte_grow_spec [OF wf room] by blast
  let ?d = "pk_data p1"
  have p1: "mem_inv m1 (?d @ hs)" "distinct (map rm_chunk ?d)" "rm_chunk ` set ?d \<inter> rm_chunk ` set hs = {}"
      "cursor_at ?d (pk_pos_y p1) (pk_pos p)" "pk_pos p \<le> pk_size p1" "pk_size p1 \<le> pk_capacity p1"
      "pk_capacity p1 = sum_list (map rm_count ?d)" "pk_capacity p1 < 4294967296"
    using g(2,5) by (auto simp: pout_wf_def)
  have wf1: "all_wf m1 ?d" using p1(1) by (auto simp: mem_inv_def)
  have fit: "pk_pos p + length src \<le> sum_list (map rm_count ?d)" using g(7) p1(7) by simp
  obtain d y m' where l: "PutByte_loop m1 ?d (pk_pos_y p1) src = Inr (d, y, m')" "wrote m1 ?d m' d"
      "data_bytes m' ?d = overwrite (data_bytes m1 ?d) (pk_pos p) src" "cursor_at d y (pk_pos p + ?k)"
    using PutByte_loop_spec [OF wf1 p1(2,4) fit] by blast
  let ?s = "max (pk_size p1) (pk_pos p + ?k)"
  let ?p = "p1\<lparr>pk_pos := pk_pos p + ?k, pk_size := ?s, pk_data := d, pk_pos_y := y\<rparr>"
  have "u32 (pk_pos p + ?k) = pk_pos p + ?k" using g(7) p1(8) by (intro u32_id) simp
  then have eq: "PacketOutBase_PutByte src (p, m) = Inr (?p, m')"
    using g(1,5) l(1) by (simp add: PacketOutBase_PutByte_def Packet_UpdateSize_def max_def)
  have sv: "same_views ?d d" "mem_inv m' (d @ hs)" using l(2) p1(1) by (auto simp: wrote_def)
  have mp: "map rm_chunk d = map rm_chunk ?d" "map rm_count d = map rm_count ?d" "data_bytes m' d = data_bytes m' ?d"
    using same_views_chunks [OF sv(1)] same_views_count [OF sv(1)] same_views_bytes [OF sv(1)] by auto
  then have "rm_chunk ` set d = rm_chunk ` set ?d" by (metis list.set_map)
  then have "pout_wf m' hs ?p" using p1 g sv mp l(4) by (auto simp: pout_wf_def)
  moreover have "room m' hs ?p n"
    using g(3) l(2) same_views_length [OF sv(1)] by (auto simp: room_def wrote_def)
  moreover have "content m' ?p = overwrite (content m p) (pk_pos p) src"
    using overwrite_take [of "pk_pos p" "pk_size p1" "data_bytes m1 ?d" src] g(4,7) p1 l(3) mp(3)
      length_data_bytes [OF wf1] by (simp add: content_def)
  moreover have "data_bytes m' hs = data_bytes m hs"
    using data_bytes_frame [OF l(2), of hs] p1(3) g(8) by auto
  ultimately show ?thesis using eq l(2) g(9) by (auto simp: put_done_def wrote_def)
qed

section \<open>FetchData\<close>

lemma data_of_bytes: "data_of m' = data_of m \<Longrightarrow> data_bytes m' rs = data_bytes m rs"
  unfolding data_bytes_def using ref_bytes_cong [of _ m' m] by (metis map_eq_conv)

lemma copy_inv:
  assumes "mem_inv m hs" and "r \<in> set hs" and "Suc (length hs) < 4294967296"
  shows "\<exists>m'. RefMemoryChunk_copy r m = Inr (r, m') \<and> mem_inv m' (r # hs) \<and> data_of m' = data_of m
     \<and> mp_chunksize m' = mp_chunksize m"
proof -
  have "rm_wf m r" using assms(1,2) by (auto simp: mem_inv_def)
  moreover have "rm_chunk r \<in> insert None (rm_chunk ` set hs)" using assms(2) by blast
  ultimately show ?thesis
    using RetainChunk_inv [OF assms(1) _ _ assms(3), of r] by (auto simp: RefMemoryChunk_copy_def)
qed

lemma FetchData_loop_0 [simp]: "FetchData_loop rs 0 m = Inr ([], m)"
  by (cases rs) auto

lemma FetchData_loop_spec:
  assumes "mem_inv m hs" and "set rs \<subseteq> set hs" and "s \<le> sum_list (map rm_count rs)"
    and "length hs + length rs < 4294967295"
  shows "\<exists>ret m'. FetchData_loop rs s m = Inr (ret, m') \<and> data_bytes m ret = take s (data_bytes m rs) \<and>
     mem_inv m' (ret @ hs) \<and> data_of m' = data_of m \<and> mp_chunksize m' = mp_chunksize m
     \<and> sum_list (map rm_count ret) = s \<and> length ret \<le> length rs"
  using assms
proof (induction rs arbitrary: s m hs)
  case Nil
  then show ?case by auto
next
  case (Cons r rs)
  have wf: "rm_wf m r" using Cons.prems by (auto simp: mem_inv_def)
  have len: "length (ref_bytes m r) = rm_count r" by (rule length_ref_bytes [OF wf])
  obtain m1 where c: "RefMemoryChunk_copy r m = Inr (r, m1)" "mem_inv m1 (r # hs)" "data_of m1 = data_of m"
      "mp_chunksize m1 = mp_chunksize m"
    using copy_inv [OF Cons.prems(1), of r] Cons.prems(2,4) by auto
  consider "s = 0" | "0 < s" "s < rm_count r" | "0 < s" "rm_count r \<le> s" by linarith
  then show ?case
  proof cases
    case 1
    then show ?thesis using Cons.prems(1) by auto
  next
    case 2
    let ?r = "RefMemoryChunk_Reset (r\<lparr>rm_count := s\<rparr>)"
    have sh: "RefMemoryChunk_ShrinkCount r (rm_count r - s) = Inr ?r"
      using 2 by (simp add: RefMemoryChunk_ShrinkCount_def assertE_def)
    have "rm_wf m1 r" using c(2) by (simp add: mem_inv_def)
    then have "mem_inv m1 (?r # hs)"
      using mem_inv_move [of m1 "[]" r hs ?r] c(2) view_moves_wf(1) [OF _ sh] by simp
    moreover have "ref_bytes m ?r = take s (ref_bytes m r)"
      using 2 by (auto simp: ref_bytes_def RefMemoryChunk_Reset_def split: option.splits)
    ultimately show ?thesis
      using 2 c sh len by (intro exI [of _ "[?r]"] exI [of _ m1]) (simp add: RefMemoryChunk_Reset_def)
  next
    case 3
    have sub: "set rs \<subseteq> set (r # hs)" using Cons.prems(2) by auto
    have le: "s - rm_count r \<le> sum_list (map rm_count rs)" using Cons.prems(3) by simp
    have ln: "length (r # hs) + length rs < 4294967295" using Cons.prems(4) by simp
    obtain ret m' where IH: "FetchData_loop rs (s - rm_count r) m1 = Inr (ret, m')"
        "data_bytes m1 ret = take (s - rm_count r) (data_bytes m1 rs)" "mem_inv m' (ret @ r # hs)"
        "data_of m' = data_of m1" "mp_chunksize m' = mp_chunksize m1" "sum_list (map rm_count ret) = s - rm_count r"
        "length ret \<le> length rs"
      using Cons.IH [OF c(2) sub le ln] by blast
    have "mem_inv m' ((r # ret) @ hs)" by (rule mem_inv_perm [OF IH(3)]) simp
    then show ?thesis
      using 3 c IH len data_of_bytes [OF c(3)] by (intro exI [of _ "r # ret"] exI [of _ m']) simp
  qed
qed

lemma FetchData_spec:
  assumes wf: "pout_wf m hs p" and n: "2 * length (pk_data p) + length hs < 4294967295"
  shows "\<exists>ret m'. PacketOutBase_FetchData (p, m) = Inr (ret, m') \<and> data_bytes m' ret = content m p \<and>
     mem_inv m' (ret @ pk_data p @ hs) \<and> data_of m' = data_of m \<and> mp_chunksize m' = mp_chunksize m \<and>
     sum_list (map rm_count ret) = pk_size p \<and> length ret \<le> length (pk_data p)"
proof -
  have w: "mem_inv m (pk_data p @ hs)" "pk_size p \<le> sum_list (map rm_count (pk_data p))"
    using wf by (auto simp: pout_wf_def)
  obtain ret m' where f: "FetchData_loop (pk_data p) (pk_size p) m = Inr (ret, m')"
      "data_bytes m ret = take (pk_size p) (data_bytes m (pk_data p))" "mem_inv m' (ret @ pk_data p @ hs)"
      "data_of m' = data_of m" "mp_chunksize m' = mp_chunksize m" "sum_list (map rm_count ret) = pk_size p"
      "length ret \<le> length (pk_data p)"
    using FetchData_loop_spec [OF w(1) _ w(2)] n by (auto simp: mult_2)
  then show ?thesis
    using data_of_bytes [OF f(4), of ret] by (auto simp: PacketOutBase_FetchData_def content_def)
qed

section \<open>The reader\<close>

definition pin_wf :: "mem \<Rightarrow> pkt \<Rightarrow> bool" where
  [inv_defs]: "pin_wf m p \<longleftrightarrow> all_wf m (pk_data p) \<and> cursor_at (pk_data p) (pk_pos_y p) (pk_pos p) \<and>
     pk_pos p \<le> pk_size p \<and> pk_size p = sum_list (map rm_count (pk_data p)) \<and> pk_size p < 4294967296"

lemma content_pin: "pin_wf m p \<Longrightarrow> content m p = data_bytes m (pk_data p)"
  by (simp add: pin_wf_def content_def length_data_bytes)

lemma length_content_pin: "pin_wf m p \<Longrightarrow> length (content m p) = pk_size p"
  using length_data_bytes [of "pk_data p" m] by (simp add: content_pin) (simp add: pin_wf_def)

lemma PacketInBase_new_spec:
  assumes "all_wf m rs" and "sum_list (map rm_count rs) < 4294967296"
  shows "\<exists>p. PacketInBase_new rs = Inr p \<and> pin_wf m p \<and> content m p = data_bytes m rs \<and> pk_pos p = 0
     \<and> pk_capacity p = pk_size p"
proof -
  let ?n = "sum_list (map rm_count rs)"
  obtain d where l: "SkipTo_loop rs 0 0 = Inr (d, 0)" "cursor_at d 0 0" "same_views rs d" "all_wf m d"
    using SkipTo_loop_spec [OF assms(1), of 0 0] by auto
  let ?p = "\<lparr>pk_data = d, pk_size = ?n, pk_pos = 0, pk_pos_y = 0, pk_capacity = ?n\<rparr>"
  have "PacketInBase_new rs = Inr ?p"
    using assms(2) capacity_eq [of rs 0] l(1)
    by (simp add: PacketInBase_new_def Packet_UpdateCapacity_def Packet_new_def Packet_SkipTo_def
        Packet_UpdateSize_def assertE_def Let_def)
  moreover have "pin_wf m ?p"
    using l assms(2) same_views_count [OF l(3)] by (simp add: pin_wf_def)
  ultimately show ?thesis
    using content_pin [of m ?p] same_views_bytes [OF l(3)] by auto
qed

lemma GetByte_spec:
  assumes wf: "pin_wf m p" and n: "pk_pos p + n < 4294967296"
  shows "pk_pos p + n \<le> length (content m p) \<Longrightarrow> \<exists>p'. PacketInBase_GetByte n m p =
      Inr (take n (drop (pk_pos p) (content m p)), p') \<and> pin_wf m p' \<and> content m p' = content m p \<and>
      pk_pos p' = pk_pos p + n"
    and "length (content m p) < pk_pos p + n \<Longrightarrow> PacketInBase_GetByte n m p = Inl NoMoreData"
proof -
  have u: "u32 (pk_pos p + n) = pk_pos p + n" using n by (rule u32_id)
  have len: "length (content m p) = pk_size p" by (rule length_content_pin [OF wf])
  show "PacketInBase_GetByte n m p = Inl NoMoreData" if "length (content m p) < pk_pos p + n"
    using that u len by (simp add: PacketInBase_GetByte_def)
  assume le: "pk_pos p + n \<le> length (content m p)"
  have w: "all_wf m (pk_data p)" "cursor_at (pk_data p) (pk_pos_y p) (pk_pos p)"
      "pk_size p = sum_list (map rm_count (pk_data p))"
    using wf by (auto simp: pin_wf_def)
  have "pk_pos p + n \<le> sum_list (map rm_count (pk_data p))" using le len w(3) by simp
  from GetByte_loop_spec [OF w(1,2) this] obtain d y where
    l: "GetByte_loop m (pk_data p) (pk_pos_y p) n = Inr (take n (drop (pk_pos p) (data_bytes m (pk_data p))), d, y)"
      "cursor_at d y (pk_pos p + n)" "same_views (pk_data p) d" "all_wf m d"
    by blast
  let ?p = "p\<lparr>pk_pos := pk_pos p + n, pk_data := d, pk_pos_y := y\<rparr>"
  have "pin_wf m ?p" using wf l le len same_views_count [OF l(3)] by (simp add: pin_wf_def)
  moreover from this have "content m ?p = content m p"
    using content_pin [of m ?p] content_pin [OF wf] same_views_bytes [OF l(3)] by simp
  ultimately show "\<exists>p'. PacketInBase_GetByte n m p =
      Inr (take n (drop (pk_pos p) (content m p)), p') \<and> pin_wf m p' \<and> content m p' = content m p \<and>
      pk_pos p' = pk_pos p + n"
    using l(1) u le len content_pin [OF wf] by (auto simp: PacketInBase_GetByte_def)
qed

section \<open>Codecs\<close>

text \<open>
  One typed value at a time: what a writer must put and what the reader of the same kind must give
  back. A write is at most three calls of \<open>PutByte\<close>.
\<close>

definition cost2 :: "mem \<Rightarrow> nat \<Rightarrow> nat" where
  "cost2 m k = k + 3 * (10 + mp_chunksize m)"

definition advanced :: "mem \<Rightarrow> pkt \<Rightarrow> nat \<Rightarrow> pkt \<Rightarrow> bool" where
  "advanced m p k p' \<longleftrightarrow> pin_wf m p' \<and> content m p' = content m p \<and> pk_pos p' = pk_pos p + k"

lemma drop_advanced:
  "advanced m p k p' \<Longrightarrow> drop (pk_pos p') (content m p') = drop k (drop (pk_pos p) (content m p))"
  by (simp add: advanced_def add.commute)

primrec in_each :: "('k \<Rightarrow> mem \<Rightarrow> pkt \<Rightarrow> ('b \<times> pkt) result) \<Rightarrow> 'k list \<Rightarrow> mem \<Rightarrow> pkt \<Rightarrow> ('b list \<times> pkt) result" where
  "in_each rd [] m p = Inr ([], p)"
| "in_each rd (k # ks) m p = bindE (rd k m p) (\<lambda>(v, p1). bindE (in_each rd ks m p1) (\<lambda>(vs, p2). Inr (v # vs, p2)))"

lemma overwrite_chain:
  "i \<le> length xs \<Longrightarrow> overwrite (overwrite xs i a) (i + length a) b = overwrite xs i (a @ b)"
  by (auto simp: overwrite_def min_def ac_simps)

lemma length_content: "pout_wf m hs p \<Longrightarrow> length (content m p) = pk_size p"
  using length_data_bytes [of "pk_data p" m] by (auto simp: pout_wf_def mem_inv_def content_def)

lemma put_done_trans:
  assumes wf: "pout_wf m hs p" and "put_done m hs p a k (p1, m1)" and "put_done m1 hs p1 b n s"
  shows "put_done m hs p (a @ b) n s"
proof -
  have "pk_pos p \<le> length (content m p)" using wf length_content [OF wf] by (simp add: pout_wf_def)
  then show ?thesis using assms(2,3) overwrite_chain by (auto simp: put_done_def)
qed

lemma PutByte_chain_spec:
  assumes wf: "pout_wf m hs p" and room: "room m hs p (n + cost m (length a) + k)"
    and next_call: "\<And>p1 m1. put_done m hs p a (n + k) (p1, m1) \<Longrightarrow> \<exists>s. f (p1, m1) = Inr s \<and> put_done m1 hs p1 b n s"
  shows "\<exists>s. bindE (PacketOutBase_PutByte a (p, m)) f = Inr s \<and> put_done m hs p (a @ b) n s"
proof -
  have "room m hs p ((n + k) + cost m (length a))" using room by (simp add: ac_simps)
  from PutByte_spec [OF wf this] obtain p1 m1 where
    1: "PacketOutBase_PutByte a (p, m) = Inr (p1, m1)" "put_done m hs p a (n + k) (p1, m1)" by auto
  with next_call [OF 1(2)] put_done_trans [OF wf 1(2)] show ?thesis by auto
qed

lemma PutByte2_spec:
  assumes wf: "pout_wf m hs p" and room: "room m hs p (n + cost m (length a) + cost m (length b))"
  shows "\<exists>s. bindE (PacketOutBase_PutByte a (p, m)) (PacketOutBase_PutByte b) = Inr s \<and> put_done m hs p (a @ b) n s"
proof (rule PutByte_chain_spec [OF wf room])
  fix p1 m1
  assume "put_done m hs p a (n + cost m (length b)) (p1, m1)"
  then have "pout_wf m1 hs p1" "room m1 hs p1 (n + cost m1 (length b))" by (auto simp: put_done_def cost_def)
  from PutByte_spec [OF this] show "\<exists>s. PacketOutBase_PutByte b (p1, m1) = Inr s \<and> put_done m1 hs p1 b n s" .
qed

lemma GetByte_next:
  assumes wf: "pin_wf m p" and d: "drop (pk_pos p) (content m p) = bs @ r"
  shows "\<exists>p'. PacketInBase_GetByte (length bs) m p = Inr (bs, p') \<and> advanced m p (length bs) p'
     \<and> drop (pk_pos p') (content m p') = r"
proof -
  have "length (content m p) - pk_pos p = length bs + length r" using arg_cong [OF d, of length] by simp
  moreover have "pk_pos p \<le> length (content m p)" using wf length_content_pin [OF wf] by (simp add: pin_wf_def)
  ultimately have le: "pk_pos p + length bs \<le> length (content m p)" by simp
  have "pk_pos p + length bs < 4294967296" using le length_content_pin [OF wf] wf by (simp add: pin_wf_def)
  from GetByte_spec(1) [OF wf this le] d show ?thesis
    by (auto simp: advanced_def add.commute simp flip: drop_drop)
qed

locale packet_codec =
  fixes wr :: "'a \<Rightarrow> pkt \<times> mem \<Rightarrow> (pkt \<times> mem) result"
    and rd :: "'k \<Rightarrow> mem \<Rightarrow> pkt \<Rightarrow> ('b \<times> pkt) result"
    and kind :: "'a \<Rightarrow> 'k" and seen :: "'a \<Rightarrow> 'b"
    and enc :: "'a \<Rightarrow> bytes" and ok :: "'a \<Rightarrow> bool"
  assumes write_law: "pout_wf m hs p \<Longrightarrow> ok v \<Longrightarrow> room m hs p (n + cost2 m (length (enc v))) \<Longrightarrow>
      \<exists>s. wr v (p, m) = Inr s \<and> put_done m hs p (enc v) n s"
    and read_law: "pin_wf m p \<Longrightarrow> ok v \<Longrightarrow> drop (pk_pos p) (content m p) = enc v @ r \<Longrightarrow>
      \<exists>p'. rd (kind v) m p = Inr (seen v, p') \<and> advanced m p (length (enc v)) p'"
begin

lemma write_each:
  assumes "pout_wf m hs p" and "\<forall>v \<in> set vs. ok v"
    and "room m hs p (n + sum_list (map (\<lambda>v. cost2 m (length (enc v))) vs))"
  shows "\<exists>s. out_each wr vs (p, m) = Inr s \<and> put_done m hs p (concat (map enc vs)) n s"
  using assms
proof (induction vs arbitrary: m p)
  case Nil
  then show ?case by (simp add: put_done_def)
next
  case (Cons v vs)
  let ?rest = "sum_list (map (\<lambda>v. cost2 m (length (enc v))) vs)"
  have "room m hs p ((n + ?rest) + cost2 m (length (enc v)))" using Cons.prems(3) by (simp add: add.commute add.left_commute)
  from write_law [OF Cons.prems(1) _ this] Cons.prems(2) obtain p1 m1 where
    1: "wr v (p, m) = Inr (p1, m1)" "put_done m hs p (enc v) (n + ?rest) (p1, m1)" by auto
  have w: "pout_wf m1 hs p1" "room m1 hs p1 (n + sum_list (map (\<lambda>v. cost2 m1 (length (enc v))) vs))"
    using 1(2) by (auto simp: put_done_def cost2_def)
  obtain s where "out_each wr vs (p1, m1) = Inr s" "put_done m1 hs p1 (concat (map enc vs)) n s"
    using Cons.IH [OF w(1) _ w(2)] Cons.prems(2) by auto
  with 1 put_done_trans [OF Cons.prems(1) 1(2)] show ?case by simp
qed

lemma read_each:
  assumes "pin_wf m p" and "\<forall>v \<in> set vs. ok v" and "drop (pk_pos p) (content m p) = concat (map enc vs) @ r"
  shows "\<exists>p'. in_each rd (map kind vs) m p = Inr (map seen vs, p') \<and> advanced m p (length (concat (map enc vs))) p'"
  using assms
proof (induction vs arbitrary: p)
  case Nil
  then show ?case by (simp add: advanced_def)
next
  case (Cons v vs)
  have d: "drop (pk_pos p) (content m p) = enc v @ (concat (map enc vs) @ r)" using Cons.prems(3) by simp
  from read_law [OF Cons.prems(1) _ d] Cons.prems(2) obtain p1 where
    1: "rd (kind v) m p = Inr (seen v, p1)" "advanced m p (length (enc v)) p1" by auto
  have "drop (pk_pos p1) (content m p1) = concat (map enc vs) @ r" using drop_advanced [OF 1(2)] d by simp
  from Cons.IH [OF _ _ this] 1(2) Cons.prems(2) obtain p2 where
    "in_each rd (map kind vs) m p1 = Inr (map seen vs, p2)" "advanced m p1 (length (concat (map enc vs))) p2"
    by (auto simp: advanced_def)
  with 1 show ?case by (auto simp: advanced_def)
qed

lemma written_read_back:
  assumes inv: "mem_inv m hs" and ok: "\<forall>v \<in> set vs. ok v"
    and room: "room m hs Packet_new (cost m approx + sum_list (map (\<lambda>v. cost2 m (length (enc v))) vs) + 1)"
  shows "\<exists>s p' m' ret m2 q q'. PacketOutBase_new approx m = Inr s \<and> out_each wr vs s = Inr (p', m') \<and>
     PacketOutBase_FetchData (p', m') = Inr (ret, m2) \<and> PacketInBase_new ret = Inr q \<and>
     in_each rd (map kind vs) m2 q = Inr (map seen vs, q') \<and> PacketInBase_GetByte 1 m2 q' = Inl NoMoreData \<and>
     data_bytes m2 ret = concat (map enc vs) \<and> mem_inv m2 (ret @ pk_data p' @ hs) \<and>
     data_bytes m2 hs = data_bytes m hs"
proof -
  let ?n = "sum_list (map (\<lambda>v. cost2 m (length (enc v))) vs)"
  have wf0: "pout_wf m hs Packet_new" using inv by (simp add: pout_wf_def Packet_new_def)
  have r0: "room m hs Packet_new ((1 + ?n) + cost m approx)" using room by (simp add: add.commute)
  obtain p m1 where a: "PacketOutBase_new approx m = Inr (p, m1)" "pout_wf m1 hs p" "room m1 hs p (1 + ?n)"
      "content m1 p = []" "pk_pos p = 0" "data_bytes m1 hs = data_bytes m hs" "mp_chunksize m1 = mp_chunksize m"
    using AquireMemory_spec [OF wf0 r0] by (auto simp: PacketOutBase_new_def content_def Packet_new_def)
  have "room m1 hs p (1 + sum_list (map (\<lambda>v. cost2 m1 (length (enc v))) vs))"
    using a(3,7) by (simp add: cost2_def)
  from write_each [OF a(2) ok this] obtain p' m' where
    w: "out_each wr vs (p, m1) = Inr (p', m')" "put_done m1 hs p (concat (map enc vs)) 1 (p', m')" by auto
  have w': "pout_wf m' hs p'" "room m' hs p' 1" "content m' p' = concat (map enc vs)"
      "data_bytes m' hs = data_bytes m hs"
    using w(2) a(4-6) by (auto simp: put_done_def overwrite_def)
  have "2 * length (pk_data p') + length hs < 4294967295" using w'(2) by (simp add: room_def)
  from FetchData_spec [OF w'(1) this] obtain ret m2 where
    f: "PacketOutBase_FetchData (p', m') = Inr (ret, m2)" "data_bytes m2 ret = content m' p'"
      "mem_inv m2 (ret @ pk_data p' @ hs)" "data_of m2 = data_of m'" "sum_list (map rm_count ret) = pk_size p'"
    by blast
  have wf2: "all_wf m2 ret" using f(3) by (auto simp: mem_inv_def)
  have "sum_list (map rm_count ret) < 4294967296" using f(5) w'(1) by (simp add: pout_wf_def)
  from PacketInBase_new_spec [OF wf2 this] obtain q where
    q: "PacketInBase_new ret = Inr q" "pin_wf m2 q" "content m2 q = concat (map enc vs)" "pk_pos q = 0"
    using f(2) w'(3) by auto
  have d: "drop (pk_pos q) (content m2 q) = concat (map enc vs) @ []" using q(3,4) by simp
  obtain q' where r: "in_each rd (map kind vs) m2 q = Inr (map seen vs, q')"
      "advanced m2 q (length (concat (map enc vs))) q'"
    using read_each [OF q(2) ok d] by blast
  have q': "pin_wf m2 q'" "length (content m2 q') = pk_pos q'" using r(2) q(3,4) by (auto simp: advanced_def)
  have "PacketInBase_GetByte 1 m2 q' = Inl NoMoreData"
  proof (rule GetByte_spec(2) [OF q'(1)])
    have "pk_pos q' \<le> sum_list (map rm_count ret)"
      using q' length_content_pin [OF q'(1)] r(2) q f(2) w'(3) length_data_bytes [OF wf2] by (simp add: advanced_def)
    also have "\<dots> \<le> pk_capacity p'" using f(5) w'(1) by (simp add: pout_wf_def)
    finally show "pk_pos q' + 1 < 4294967296" using w'(2) by (simp add: room_def)
  qed (use q' in simp)
  then show ?thesis using a(1) w(1) f q r(1) w' data_of_bytes [OF f(4), of hs] by auto
qed

end

section \<open>The encodings\<close>

lemma cost_le_cost2: "room m hs p (n + cost2 m k) \<Longrightarrow> room m hs p (n + cost m k)"
  by (auto simp: room_def cost_def cost2_def)

lemma write_word_law:
  assumes "pout_wf m hs p" and "room m hs p (n + cost2 m k)"
  shows "\<exists>s. write_word k v (p, m) = Inr s \<and> put_done m hs p (le_bytes k (unat v)) n s"
  using PutByte_spec [OF assms(1), of n "le_bytes k (unat v)"] cost_le_cost2 [OF assms(2)]
  by (simp add: write_word_def)

lemma read_word_law:
  fixes v :: "'w::len word"
  assumes wf: "pin_wf m p" and w: "LENGTH('w) = 8 * k"
    and d: "drop (pk_pos p) (content m p) = le_bytes k (unat v) @ r"
  shows "\<exists>p'. read_word k m p = Inr (v, p') \<and> advanced m p k p' \<and> drop (pk_pos p') (content m p') = r"
proof -
  have "unat v < 256 ^ k" using unsigned_less [of v] w by (simp add: power_mult)
  then have "word_of_nat (le_val (le_bytes k (unat v))) = v" by (simp add: le_val_le_bytes)
  with GetByte_next [OF wf d] show ?thesis by (auto simp: read_word_def)
qed

definition str_bytes :: "bytes \<Rightarrow> bytes" where
  "str_bytes str = le_bytes 2 (length str) @ str"

lemma u16_word: "length str < 65536 \<Longrightarrow> unat (word_of_nat (length str) :: 16 word) = length str"
  by (simp add: unsigned_of_nat take_bit_nat_eq_self)

lemma write_string_law:
  assumes "pout_wf m hs p" and "length str < 65536" and "room m hs p (n + cost2 m (length (str_bytes str)))"
  shows "\<exists>s. PacketOutBase_WriteString str (p, m) = Inr s \<and> put_done m hs p (str_bytes str) n s"
    and "\<exists>s. PacketOutBase_WriteString_c str (p, m) = Inr s \<and> put_done m hs p (str_bytes str) n s"
proof -
  have r: "room m hs p (n + cost m (length (le_bytes 2 (length str))) + cost m (length str))"
    using assms(3) by (simp add: str_bytes_def room_def cost_def cost2_def)
  have e: "PacketOutBase_WriteString str (p, m)
      = bindE (PacketOutBase_PutByte (le_bytes 2 (length str)) (p, m)) (PacketOutBase_PutByte str)"
      "PacketOutBase_WriteString_c str (p, m)
      = bindE (PacketOutBase_PutByte (le_bytes 2 (length str)) (p, m)) (PacketOutBase_PutByte str)"
    using assms(2) u16_word [OF assms(2)]
    by (simp_all add: PacketOutBase_WriteString_def PacketOutBase_WriteString_c_def PacketOutBase_WriteUShort_def write_word_def)
  show "\<exists>s. PacketOutBase_WriteString str (p, m) = Inr s \<and> put_done m hs p (str_bytes str) n s"
      "\<exists>s. PacketOutBase_WriteString_c str (p, m) = Inr s \<and> put_done m hs p (str_bytes str) n s"
    using PutByte2_spec [OF assms(1) r] by (simp_all only: e str_bytes_def)
qed

lemma read_string_law:
  assumes wf: "pin_wf m p" and len: "length str < 65536" and d: "drop (pk_pos p) (content m p) = str_bytes str @ r"
  shows "\<exists>p'. bindE (read_word 2 m p) (\<lambda>(l :: 16 word, p1). PacketInBase_GetByte (unat l) m p1) = Inr (str, p')
     \<and> advanced m p (length (str_bytes str)) p'"
proof -
  let ?l = "word_of_nat (length str) :: 16 word"
  have "drop (pk_pos p) (content m p) = le_bytes 2 (unat ?l) @ (str @ r)"
    using d u16_word [OF len] by (simp add: str_bytes_def)
  from read_word_law [OF wf _ this] obtain p1 where
    1: "read_word 2 m p = Inr (?l, p1)" "advanced m p 2 p1" "drop (pk_pos p1) (content m p1) = str @ r"
    by auto
  have "pin_wf m p1" using 1(2) by (simp add: advanced_def)
  from GetByte_next [OF this 1(3)] 1 u16_word [OF len] show ?thesis
    by (auto simp: advanced_def str_bytes_def)
qed

fun enc_val :: "outval \<Rightarrow> bytes" where
  "enc_val (OutU8 v) = le_bytes 1 (unat v)"
| "enc_val (OutI8 v) = le_bytes 1 (unat v)"
| "enc_val (OutU16 v) = le_bytes 2 (unat v)"
| "enc_val (OutI16 v) = le_bytes 2 (unat v)"
| "enc_val (OutU32 v) = le_bytes 4 (unat v)"
| "enc_val (OutI32 v) = le_bytes 4 (unat v)"
| "enc_val (OutU64 v) = le_bytes 8 (unat v)"
| "enc_val (OutI64 v) = le_bytes 8 (unat v)"
| "enc_val (OutFloat v) = le_bytes 4 (unat v)"
| "enc_val (OutDouble v) = le_bytes 8 (unat v)"
| "enc_val (OutCString s) = str_bytes s"
| "enc_val (OutString s) = str_bytes s"
| "enc_val (OutBool b) = [if b then 1 else 0]"

fun kind_of :: "outval \<Rightarrow> inkind" where
  "kind_of (OutU8 v) = InU8" | "kind_of (OutI8 v) = InI8" | "kind_of (OutU16 v) = InU16"
| "kind_of (OutI16 v) = InI16" | "kind_of (OutU32 v) = InU32" | "kind_of (OutI32 v) = InI32"
| "kind_of (OutU64 v) = InU64" | "kind_of (OutI64 v) = InI64" | "kind_of (OutFloat v) = InFloat"
| "kind_of (OutDouble v) = InDouble" | "kind_of (OutCString s) = InString" | "kind_of (OutString s) = InString"
| "kind_of (OutBool b) = InBool"

text \<open>A C string is read back as a \<open>std::string\<close>; strings longer than 16 bits of length are excluded.\<close>

fun seen_val :: "outval \<Rightarrow> outval" where
  "seen_val (OutCString s) = OutString s"
| "seen_val v = v"

fun ok_val :: "outval \<Rightarrow> bool" where
  "ok_val (OutCString s) \<longleftrightarrow> length s < 65536"
| "ok_val (OutString s) \<longleftrightarrow> length s < 65536"
| "ok_val v \<longleftrightarrow> True"

lemma out_val_law:
  assumes "pout_wf m hs p" and "ok_val v" and "room m hs p (n + cost2 m (length (enc_val v)))"
  shows "\<exists>s. PacketOutBase_out v (p, m) = Inr s \<and> put_done m hs p (enc_val v) n s"
proof (cases v)
  case (OutBool b)
  then show ?thesis
    using write_word_law [OF assms(1), of n 1 "1 :: 8 word"] write_word_law [OF assms(1), of n 1 "0 :: 8 word"] assms(3)
    by (cases b) (simp_all add: PacketOutBase_WriteBoolean_def PacketOutBase_WriteByte_def)
qed (use assms write_string_law [OF assms(1)] write_word_law [OF assms(1)] in
    \<open>simp_all add: PacketOutBase_WriteByte_def PacketOutBase_WriteSByte_def PacketOutBase_WriteShort_def
      PacketOutBase_WriteUShort_def PacketOutBase_WriteInt_def PacketOutBase_WriteUInt_def PacketOutBase_WriteLong_def
      PacketOutBase_WriteULong_def PacketOutBase_WriteFloat_def PacketOutBase_WriteDouble_def
      del: le_bytes.simps One_nat_def\<close>)

lemma in_val_law:
  assumes "pin_wf m p" and "ok_val v" and "drop (pk_pos p) (content m p) = enc_val v @ r"
  shows "\<exists>p'. PacketInBase_in (kind_of v) m p = Inr (seen_val v, p') \<and> advanced m p (length (enc_val v)) p'"
proof (cases v)
  case (OutBool b)
  then show ?thesis
    using read_word_law [OF assms(1), of 1 "1 :: 8 word" r] read_word_law [OF assms(1), of 1 "0 :: 8 word" r] assms(3)
    by (cases b) (auto simp: PacketInBase_in_bool_def PacketInBase_in_u8_def)
next
  case (OutCString str)
  then show ?thesis using read_string_law [OF assms(1), of str r] assms(2,3)
    by (auto simp: PacketInBase_in_string_def PacketInBase_in_u16_def)
next
  case (OutString str)
  then show ?thesis using read_string_law [OF assms(1), of str r] assms(2,3)
    by (auto simp: PacketInBase_in_string_def PacketInBase_in_u16_def)
qed (use assms(3) in \<open>auto simp: PacketInBase_in_u8_def PacketInBase_in_u16_def PacketInBase_in_u32_def
      PacketInBase_in_u64_def simp del: le_bytes.simps One_nat_def
      dest!: read_word_law [OF assms(1), rotated]\<close>)

interpretation stream: packet_codec PacketOutBase_out PacketInBase_in kind_of seen_val enc_val ok_val
  by unfold_locales (rule out_val_law in_val_law; assumption)+

interpretation strings: packet_codec PacketOutBase_WriteString "\<lambda>_ :: unit. PacketInBase_ReadString" "\<lambda>_. ()" id
    str_bytes "\<lambda>str. length str < 65536"
proof unfold_locales
  fix m hs p v n
  assume "pout_wf m hs p" "length v < 65536" "room m hs p (n + cost2 m (length (str_bytes v)))"
  then show "\<exists>s. PacketOutBase_WriteString v (p, m) = Inr s \<and> put_done m hs p (str_bytes v) n s"
    by (rule write_string_law)
next
  fix m p v r
  assume "pin_wf m p" "length (v :: bytes) < 65536" "drop (pk_pos p) (content m p) = str_bytes v @ r"
  then show "\<exists>p'. PacketInBase_ReadString m p = Inr (id v, p') \<and> advanced m p (length (str_bytes v)) p'"
    using read_string_law by (simp add: PacketInBase_ReadString_def PacketInBase_ReadUShort_def)
qed

section \<open>Properties\<close>

text \<open>
  C1. The wire format round trip. Any sequence of values, their strings shorter than 65536 bytes, streamed with \<open>operator <<\<close> into a new packet,
  taken out with \<open>FetchData\<close> and given to a reading packet comes back value by value from the
  \<open>operator >>\<close> of the same types, whatever the chunk size; nothing is left over, the next read
  throws, and no other view of the pool sees a changed byte. The 32-bit counters must not run out. (A longer string is
  written in full behind a 16-bit length and does not come back.)
\<close>

theorem packet_stream_roundtrip:
  assumes "mem_inv m hs" and "\<forall>v \<in> set vs. ok_val v"
    and "room m hs Packet_new (cost m approx + sum_list (map (\<lambda>v. cost2 m (length (enc_val v))) vs) + 1)"
  shows "\<exists>s p' m' ret m2 q q'. PacketOutBase_new approx m = Inr s \<and> out_each PacketOutBase_out vs s = Inr (p', m') \<and>
     PacketOutBase_FetchData (p', m') = Inr (ret, m2) \<and> PacketInBase_new ret = Inr q \<and>
     in_each PacketInBase_in (map kind_of vs) m2 q = Inr (map seen_val vs, q') \<and>
     PacketInBase_GetByte 1 m2 q' = Inl NoMoreData \<and>
     data_bytes m2 ret = concat (map enc_val vs) \<and> mem_inv m2 (ret @ pk_data p' @ hs) \<and>
     data_bytes m2 hs = data_bytes m hs"
  by (rule stream.written_read_back [OF assms])

lemma new_pool_inv: "mem_inv (MemoryPool_new (\<lambda>_ _. 0) 3 2) []"
  by (rule MemoryPool_new_inv) simp

lemma new_pool_room: "n \<le> 1000 \<Longrightarrow> room (MemoryPool_new (\<lambda>_ _. 0) 3 2) [] Packet_new n"
  by (simp add: room_def Packet_new_def MemoryPool_new_def MemoryChunk_new_def numeral_2_eq_2)

lemma new_pool_chunksize: "mp_chunksize (MemoryPool_new (\<lambda>_ _. 0) 3 2) = 3"
  by (simp add: MemoryPool_new_def MemoryChunk_new_def numeral_2_eq_2)

theorem packet_stream_roundtrip_witness:
  "\<exists>s p' m' ret m2 q q'. PacketOutBase_new 0 (MemoryPool_new (\<lambda>_ _. 0) 3 2) = Inr s \<and>
     out_each PacketOutBase_out [OutU16 513, OutCString [65, 66], OutBool True] s = Inr (p', m') \<and>
     PacketOutBase_FetchData (p', m') = Inr (ret, m2) \<and> PacketInBase_new ret = Inr q \<and>
     in_each PacketInBase_in [InU16, InString, InBool] m2 q = Inr ([OutU16 513, OutString [65, 66], OutBool True], q') \<and>
     data_bytes m2 ret = [1, 2, 2, 0, 65, 66, 1]"
proof -
  let ?m = "MemoryPool_new (\<lambda>_ _. 0) 3 2"
  let ?vs = "[OutU16 513, OutCString [65, 66], OutBool True]"
  have e: "concat (map enc_val ?vs) = [1, 2, 2, 0, 65, 66, 1]"
    by code_simp
  have maps: "map kind_of ?vs = [InU16, InString, InBool]"
      "map seen_val ?vs = [OutU16 513, OutString [65, 66], OutBool True]"
    by simp_all
  have ok: "\<forall>v \<in> set ?vs. ok_val v" by simp
  have r: "room ?m [] Packet_new (cost ?m 0 + sum_list (map (\<lambda>v. cost2 ?m (length (enc_val v))) ?vs) + 1)"
    by (rule new_pool_room) (simp add: cost_def cost2_def new_pool_chunksize str_bytes_def)
  show ?thesis
    using packet_stream_roundtrip [OF new_pool_inv ok r] unfolding maps e by blast
qed

text \<open>
  C2. \<open>PutByte\<close> refines writing into a byte string: the new content is the old one overwritten (or
  extended) at the position, the position advances by the number of bytes, the loop that acquires
  memory ends, and the packet owns its chunks as before; views of other owners see the same bytes.
\<close>

theorem PacketOutBase_PutByte_refines:
  assumes "pout_wf m hs p" and "room m hs p (cost m (length src))"
  shows "\<exists>p' m'. PacketOutBase_PutByte src (p, m) = Inr (p', m') \<and> pout_wf m' hs p' \<and>
     content m' p' = overwrite (content m p) (pk_pos p) src \<and> pk_pos p' = pk_pos p + length src \<and>
     data_bytes m' hs = data_bytes m hs"
  using PutByte_spec [OF assms(1), of 0 src] assms(2) by (auto simp: put_done_def)

theorem PacketOutBase_PutByte_refines_witness:
  "\<exists>p' m'. PacketOutBase_PutByte [1, 2, 3, 4, 5] (Packet_new, MemoryPool_new (\<lambda>_ _. 0) 3 2) = Inr (p', m') \<and>
     content m' p' = [1, 2, 3, 4, 5] \<and> pk_pos p' = 5"
proof -
  have wf: "pout_wf (MemoryPool_new (\<lambda>_ _. 0) 3 2) [] Packet_new"
    using new_pool_inv by (simp add: pout_wf_def Packet_new_def)
  have r: "room (MemoryPool_new (\<lambda>_ _. 0) 3 2) [] Packet_new (cost (MemoryPool_new (\<lambda>_ _. 0) 3 2) (length [1, 2, 3, 4, 5 :: byte]))"
    by (rule new_pool_room) (simp add: cost_def new_pool_chunksize)
  show ?thesis
    using PacketOutBase_PutByte_refines [OF wf r]
    by (auto simp: content_def Packet_new_def overwrite_def)
qed

text \<open>
  C28. \<open>GetByte\<close> is total on a reading packet: it returns exactly the next bytes of the content and
  advances, or, when fewer are left, throws without a partial read.
\<close>

theorem PacketInBase_GetByte_total:
  assumes "pin_wf m p" and "pk_pos p + n < 4294967296"
  shows "if pk_pos p + n \<le> length (content m p)
     then \<exists>p'. PacketInBase_GetByte n m p = Inr (take n (drop (pk_pos p) (content m p)), p') \<and> pin_wf m p' \<and>
            content m p' = content m p \<and> pk_pos p' = pk_pos p + n
     else PacketInBase_GetByte n m p = Inl NoMoreData"
  using GetByte_spec [OF assms] by auto

theorem PacketInBase_GetByte_total_witness:
  "\<exists>p. PacketInBase_new [] = Inr p \<and> PacketInBase_GetByte 1 (MemoryPool_new (\<lambda>_ _. 0) 3 2) p = Inl NoMoreData"
proof -
  let ?m = "MemoryPool_new (\<lambda>_ _. 0) 3 2"
  obtain p where p: "PacketInBase_new [] = Inr p" "pin_wf ?m p" "content ?m p = []" "pk_pos p = 0"
    using PacketInBase_new_spec [of "[]" ?m] by auto
  then show ?thesis using PacketInBase_GetByte_total [OF p(2), of 1] by auto
qed

end
