(* ===== verification/Message.thy ===== *)
theory Message
  imports PacketSpec
begin

text \<open>
  \<open>base/gateway/packet.h\<close>, \<open>base/cluster/message.h\<close> and \<open>base/cluster/mailboxid.*\<close>: the two packet
  formats of the system, a client packet with a ten byte head and a cluster message with a sixteen
  byte head, and the mailbox addresses the latter carries. A head is written over the first bytes
  after the body, and both heads and bodies read back what was written.
\<close>

unbundle bit_operations_syntax

section \<open>Mailbox addresses\<close>

record mailboxid =
  mb_nodeid :: "32 word"
  mb_pid :: "32 word"

definition MailboxID_NullID :: mailboxid where
  "MailboxID_NullID = \<lparr>mb_nodeid = 0, mb_pid = 0\<rparr>"

definition MailboxID_new :: "8 word \<Rightarrow> 32 word \<Rightarrow> mailboxid" where
  "MailboxID_new nodeid pid = \<lparr>mb_nodeid = ucast nodeid, mb_pid = pid\<rparr>"

definition MailboxID_nodeid :: "mailboxid \<Rightarrow> 8 word" where
  "MailboxID_nodeid mb = ucast (mb_nodeid mb)"

definition MailboxID_bool :: "mailboxid \<Rightarrow> bool" where
  "MailboxID_bool mb \<longleftrightarrow> mb_nodeid mb \<noteq> 0 \<and> mb_pid mb \<noteq> 0"

definition MailboxID_eq :: "mailboxid \<Rightarrow> mailboxid \<Rightarrow> bool" where
  "MailboxID_eq a b \<longleftrightarrow> MailboxID_nodeid a = MailboxID_nodeid b \<and> mb_pid a = mb_pid b"

text \<open>
  \<open>~0 >> 8\<close> shifts a signed \<open>-1\<close>, so the mask keeps all 32 bits of the process id.
\<close>

definition MailboxID_ValueID :: "mailboxid \<Rightarrow> 32 word" where
  "MailboxID_ValueID mb = push_bit 24 (mb_nodeid mb) OR (signed_drop_bit 8 (NOT 0) AND mb_pid mb)"

definition MailboxID_Parse :: "32 word \<Rightarrow> mailboxid" where
  "MailboxID_Parse v = \<lparr>mb_nodeid = drop_bit 24 v, mb_pid = drop_bit 8 (push_bit 8 v)\<rparr>"

definition MailboxID_out :: "mailboxid \<Rightarrow> pkt \<times> mem \<Rightarrow> (pkt \<times> mem) result" where
  "MailboxID_out mb s = PacketOutBase_WriteUInt (MailboxID_ValueID mb) s"

definition MailboxID_in :: "mem \<Rightarrow> pkt \<Rightarrow> (mailboxid \<times> pkt) result" where
  "MailboxID_in m p = bindE (PacketInBase_ReadUInt m p) (\<lambda>(v, q). Inr (MailboxID_Parse v, q))"

section \<open>Client packets\<close>

definition PacketIn_IDENTIFIER :: "16 word" where
  "PacketIn_IDENTIFIER = 28380"

definition PacketIn_HEAD_SIZE :: nat where
  "PacketIn_HEAD_SIZE = 10"

record packetin =
  pi_pkt :: pkt
  pi_code :: "16 word"
  pi_sessionid :: "16 word"

definition PacketIn_new :: "refchunk list \<Rightarrow> packetin result" where
  "PacketIn_new data = bindE (PacketInBase_new data) (\<lambda>p. Inr \<lparr>pi_pkt = p, pi_code = 0, pi_sessionid = 0\<rparr>)"

text \<open>The signature is read and not compared: the check of the source is commented out.\<close>

definition PacketIn_ReadHead :: "mem \<Rightarrow> packetin \<Rightarrow> packetin result" where
  "PacketIn_ReadHead m pi = bindE (Packet_SkipTo (pi_pkt pi) 4) (\<lambda>p0.
     bindE (PacketInBase_in_u16 m p0) (\<lambda>(code, p1).
     bindE (PacketInBase_in_u16 m p1) (\<lambda>(signature, p2).
     bindE (PacketInBase_in_u16 m p2) (\<lambda>(sid, p3).
       Inr \<lparr>pi_pkt = p3, pi_code = code, pi_sessionid = sid\<rparr>))))"

definition PacketOut_HEAD_SIZE :: nat where
  "PacketOut_HEAD_SIZE = 10"

record packetout =
  po_pkt :: pkt
  po_code :: "16 word"
  po_sessionid :: "16 word"
  po_head_writed :: bool

definition PacketOut_new :: "16 word \<Rightarrow> nat \<Rightarrow> mem \<Rightarrow> (packetout \<times> mem) result" where
  "PacketOut_new code approx_size m = bindE (PacketOutBase_new approx_size m) (\<lambda>(p, m1).
     bindE (Packet_SkipTo p PacketOut_HEAD_SIZE) (\<lambda>p1.
       Inr (\<lparr>po_pkt = p1, po_code = code, po_sessionid = 0, po_head_writed = False\<rparr>, m1)))"

definition PacketOut_SetSessionID :: "16 word \<Rightarrow> packetout \<Rightarrow> packetout" where
  "PacketOut_SetSessionID sid po = po\<lparr>po_sessionid := sid\<rparr>"

definition PacketOut_CalculateSignature :: "16 word" where
  "PacketOut_CalculateSignature = 0"

definition PacketOut_WriteHead :: "bool \<Rightarrow> packetout \<times> mem \<Rightarrow> (packetout \<times> mem) result" where
  "PacketOut_WriteHead rewrite s = (case s of (po, m) \<Rightarrow>
     if \<not> po_head_writed po \<or> rewrite then
       bindE (Packet_SkipTo (po_pkt po) 0) (\<lambda>p0.
       bindE (PacketOutBase_WriteUShort PacketIn_IDENTIFIER (p0, m)) (\<lambda>s1.
       bindE (PacketOutBase_WriteUShort (word_of_nat (pk_size (fst s1))) s1) (\<lambda>s2.
       bindE (PacketOutBase_WriteUShort (po_code po) s2) (\<lambda>s3.
       bindE (PacketOutBase_WriteShort PacketOut_CalculateSignature s3) (\<lambda>s4.
       bindE (PacketOutBase_WriteUShort (po_sessionid po) s4) (\<lambda>(p5, m5).
         Inr (po\<lparr>po_pkt := p5, po_head_writed := True\<rparr>, m5)))))))
     else Inr (po, m))"

section \<open>Cluster messages\<close>

definition Message_HEAD_SIZE :: nat where
  "Message_HEAD_SIZE = 16"

record messagein =
  mi_pkt :: pkt
  mi_code :: "16 word"
  mi_session :: "16 word"
  mi_from :: mailboxid
  mi_to :: mailboxid

text \<open>The constructor leaves \<open>code_\<close> and \<open>session_\<close> as they are in memory; \<open>ReadHead\<close> sets them.\<close>

definition MessageIn_new :: "16 word \<Rightarrow> 16 word \<Rightarrow> refchunk list \<Rightarrow> messagein result" where
  "MessageIn_new code0 session0 data = bindE (PacketInBase_new data) (\<lambda>p.
     Inr \<lparr>mi_pkt = p, mi_code = code0, mi_session = session0, mi_from = MailboxID_NullID, mi_to = MailboxID_NullID\<rparr>)"

definition MessageIn_ReadHead :: "mem \<Rightarrow> messagein \<Rightarrow> messagein result" where
  "MessageIn_ReadHead m mi = bindE (Packet_SkipTo (mi_pkt mi) 4) (\<lambda>p0.
     bindE (PacketInBase_ReadUShort m p0) (\<lambda>(code, p1).
     bindE (PacketInBase_ReadUInt m p1) (\<lambda>(from, p2).
     bindE (PacketInBase_ReadUInt m p2) (\<lambda>(to, p3).
     bindE (PacketInBase_ReadUShort m p3) (\<lambda>(session, p4).
       Inr \<lparr>mi_pkt = p4, mi_code = code, mi_session = session,
            mi_from = MailboxID_Parse from, mi_to = MailboxID_Parse to\<rparr>)))))"

record messageout =
  mo_pkt :: pkt
  mo_code :: "16 word"
  mo_from :: mailboxid
  mo_to :: mailboxid
  mo_session :: "16 word"

definition MessageOut_new :: "16 word \<Rightarrow> nat \<Rightarrow> mem \<Rightarrow> (messageout \<times> mem) result" where
  "MessageOut_new code approx_size m =
     bindE (PacketOutBase_new (if approx_size < Message_HEAD_SIZE then Message_HEAD_SIZE else approx_size) m) (\<lambda>(p, m1).
       bindE (Packet_SkipTo p Message_HEAD_SIZE) (\<lambda>p1.
         Inr (\<lparr>mo_pkt = p1, mo_code = code, mo_from = MailboxID_NullID, mo_to = MailboxID_NullID, mo_session = 0\<rparr>, m1)))"

definition MessageOut_SetFrom :: "mailboxid \<Rightarrow> messageout \<Rightarrow> messageout" where
  "MessageOut_SetFrom from mo = mo\<lparr>mo_from := from\<rparr>"

definition MessageOut_SetTo :: "mailboxid \<Rightarrow> messageout \<Rightarrow> messageout" where
  "MessageOut_SetTo to mo = mo\<lparr>mo_to := to\<rparr>"

definition MessageOut_SetSession :: "16 word \<Rightarrow> messageout \<Rightarrow> messageout" where
  "MessageOut_SetSession session mo = mo\<lparr>mo_session := session\<rparr>"

definition MessageOut_WriteHead :: "messageout \<times> mem \<Rightarrow> (messageout \<times> mem) result" where
  "MessageOut_WriteHead s = (case s of (mo, m) \<Rightarrow>
     bindE (Packet_SkipTo (mo_pkt mo) 0) (\<lambda>p0.
     bindE (PacketOutBase_WriteUInt (word_of_nat (pk_size p0)) (p0, m)) (\<lambda>s1.
     bindE (PacketOutBase_WriteUShort (mo_code mo) s1) (\<lambda>s2.
     bindE (PacketOutBase_WriteUInt (MailboxID_ValueID (mo_from mo)) s2) (\<lambda>s3.
     bindE (PacketOutBase_WriteUInt (MailboxID_ValueID (mo_to mo)) s3) (\<lambda>s4.
     bindE (PacketOutBase_WriteUShort (mo_session mo) s4) (\<lambda>(p5, m5).
       Inr (mo\<lparr>mo_pkt := p5\<rparr>, m5))))))))"

section \<open>SkipTo on both kinds of packets\<close>

lemma mem_inv_same_views:
  assumes inv: "mem_inv m (rs @ hs)" and sv: "same_views rs rs'" and wf: "all_wf m rs'"
  shows "mem_inv m (rs' @ hs)"
proof -
  have "map rm_chunk rs' = map rm_chunk rs" "length rs' = length rs"
    using same_views_chunks [OF sv] same_views_length [OF sv] by auto
  then have "held (rs' @ hs) c = held (rs @ hs) c" for c by (simp add: held_def)
  then show ?thesis using inv wf \<open>length rs' = length rs\<close> by (auto simp: mem_inv_def)
qed

lemma SkipTo_pout:
  assumes wf: "pout_wf m hs p" and pos: "pos \<le> pk_capacity p"
  shows "\<exists>p'. Packet_SkipTo p pos = Inr p' \<and> pout_wf m hs p' \<and> pk_pos p' = pos \<and> pk_size p' = max (pk_size p) pos \<and>
     pk_capacity p' = pk_capacity p \<and> length (pk_data p') = length (pk_data p) \<and>
     take (pk_size p) (content m p') = content m p"
proof -
  have w: "mem_inv m (pk_data p @ hs)" "pk_capacity p = sum_list (map rm_count (pk_data p))"
    using wf by (auto simp: pout_wf_def)
  then have aw: "all_wf m (pk_data p)" by (auto simp: mem_inv_def)
  obtain d y where l: "SkipTo_loop (pk_data p) pos 0 = Inr (d, 0 + y)" "cursor_at d y pos" "same_views (pk_data p) d" "all_wf m d"
    using SkipTo_loop_spec [OF aw, of pos 0] pos w(2) by auto
  let ?p = "p\<lparr>pk_pos := pos, pk_size := max (pk_size p) pos, pk_data := d, pk_pos_y := y\<rparr>"
  have "Packet_SkipTo p pos = Inr ?p"
    using pos l(1) by (auto simp: Packet_SkipTo_def Packet_UpdateSize_def assertE_def Let_def max_def)
  moreover have chunks: "rm_chunk ` set d = rm_chunk ` set (pk_data p)"
    using same_views_chunks [OF l(3)] by (metis list.set_map)
  have "pout_wf m hs ?p"
    using wf pos l mem_inv_same_views [OF w(1) l(3,4)] same_views_count [OF l(3)] same_views_chunks [OF l(3)] chunks
    by (simp add: pout_wf_def)
  moreover have "take (pk_size p) (content m ?p) = content m p"
    using same_views_bytes [OF l(3)] by (simp add: content_def min_def)
  ultimately show ?thesis using same_views_length [OF l(3)] by auto
qed

lemma SkipTo_pin:
  assumes wf: "pin_wf m p" and pos: "pos \<le> pk_size p" and cap: "pk_capacity p = pk_size p"
  shows "\<exists>p'. Packet_SkipTo p pos = Inr p' \<and> pin_wf m p' \<and> pk_pos p' = pos \<and> content m p' = content m p"
proof -
  have w: "all_wf m (pk_data p)" "pk_size p = sum_list (map rm_count (pk_data p))"
    using wf by (auto simp: pin_wf_def)
  obtain d y where l: "SkipTo_loop (pk_data p) pos 0 = Inr (d, 0 + y)" "cursor_at d y pos" "same_views (pk_data p) d" "all_wf m d"
    using SkipTo_loop_spec [OF w(1), of pos 0] pos w(2) by auto
  let ?p = "p\<lparr>pk_pos := pos, pk_data := d, pk_pos_y := y\<rparr>"
  have "Packet_SkipTo p pos = Inr ?p"
    using pos cap l(1) by (auto simp: Packet_SkipTo_def Packet_UpdateSize_def assertE_def Let_def)
  moreover have "pin_wf m ?p" using wf pos l same_views_count [OF l(3)] by (simp add: pin_wf_def)
  moreover from this have "content m ?p = content m p"
    using content_pin [of m ?p] content_pin [OF wf] same_views_bytes [OF l(3)] by simp
  ultimately show ?thesis by auto
qed

lemma read_word_total:
  assumes wf: "pin_wf m p" and le: "pk_pos p + n \<le> length (content m p)"
  shows "\<exists>v p'. read_word n m p = Inr (v, p') \<and> advanced m p n p'"
proof -
  have "pk_pos p + n < 4294967296" using le length_content_pin [OF wf] wf by (simp add: pin_wf_def)
  from GetByte_spec(1) [OF wf this le] show ?thesis by (auto simp: read_word_def advanced_def)
qed

lemma PacketIn_ReadHead_total:
  assumes sk: "Packet_SkipTo (pi_pkt pi) 4 = Inr q" and wf: "pin_wf m q" and pos: "pk_pos q = 4"
    and len: "10 \<le> length (content m q)"
  shows "\<exists>pi'. PacketIn_ReadHead m pi = Inr pi' \<and> pin_wf m (pi_pkt pi') \<and> content m (pi_pkt pi') = content m q \<and>
    pk_pos (pi_pkt pi') = 10"
proof -
  obtain c p1 where 1: "read_word 2 m q = Inr (c :: 16 word, p1)" "advanced m q 2 p1"
    using read_word_total [OF wf, of 2] pos len by auto
  obtain g p2 where 2: "read_word 2 m p1 = Inr (g :: 16 word, p2)" "advanced m p1 2 p2"
    using read_word_total [of m p1 2] 1(2) pos len by (auto simp: advanced_def)
  obtain s p3 where 3: "read_word 2 m p2 = Inr (s :: 16 word, p3)" "advanced m p2 2 p3"
    using read_word_total [of m p2 2] 1(2) 2(2) pos len by (auto simp: advanced_def)
  show ?thesis
    using sk 1 2 3 pos by (auto simp: PacketIn_ReadHead_def PacketInBase_in_u16_def advanced_def)
qed

section \<open>A head over a body\<close>

lemma room_mono: "room m hs p n \<Longrightarrow> k \<le> n \<Longrightarrow> room m hs p k"
  by (auto simp: room_def)

abbreviation body_cost :: "mem \<Rightarrow> outval list \<Rightarrow> nat" where
  "body_cost m vs \<equiv> sum_list (map (\<lambda>v. cost2 m (length (enc_val v))) vs)"

abbreviation body_bytes :: "outval list \<Rightarrow> bytes" where
  "body_bytes vs \<equiv> concat (map enc_val vs)"

lemma open_frame:
  assumes inv: "mem_inv m hs" and room: "room m hs Packet_new (n + cost m approx)" and h: "h \<le> approx + 10"
  shows "\<exists>p m1 p1. PacketOutBase_new approx m = Inr (p, m1) \<and> Packet_SkipTo p h = Inr p1 \<and> pout_wf m1 hs p1 \<and>
     pk_pos p1 = h \<and> length (content m1 p1) = h \<and> room m1 hs p1 n \<and> mp_chunksize m1 = mp_chunksize m \<and>
     data_bytes m1 hs = data_bytes m hs"
proof -
  have wf0: "pout_wf m hs Packet_new" using inv by (simp add: pout_wf_def Packet_new_def)
  obtain p m1 where a: "PacketOutBase_new approx m = Inr (p, m1)" "pout_wf m1 hs p" "room m1 hs p n"
      "pk_size p = 0" "approx + 10 \<le> pk_capacity p" "mp_chunksize m1 = mp_chunksize m" "data_bytes m1 hs = data_bytes m hs"
    using AquireMemory_spec [OF wf0 room] by (auto simp: PacketOutBase_new_def Packet_new_def)
  obtain p1 where s: "Packet_SkipTo p h = Inr p1" "pout_wf m1 hs p1" "pk_pos p1 = h" "pk_size p1 = h"
      "pk_capacity p1 = pk_capacity p" "length (pk_data p1) = length (pk_data p)"
    using SkipTo_pout [OF a(2), of h] a(4,5) h by auto
  have "room m1 hs p1 n" using a(3) s(5,6) by (simp add: room_def)
  with a s length_content [OF s(2)] show ?thesis by auto
qed

context packet_codec
begin

lemma close_frame:
  assumes wf: "pout_wf m hs p" and c: "content m p = junk @ body" and h: "length (concat (map enc hvs)) = length junk"
    and ok: "\<forall>v \<in> set hvs. ok v" and room: "room m hs p (n + sum_list (map (\<lambda>v. cost2 m (length (enc v))) hvs))"
  shows "\<exists>p0 p' m'. Packet_SkipTo p 0 = Inr p0 \<and> pk_size p0 = length junk + length body \<and>
     pout_wf m hs p0 \<and> out_each wr hvs (p0, m) = Inr (p', m') \<and>
     pout_wf m' hs p' \<and> room m' hs p' n \<and> content m' p' = concat (map enc hvs) @ body \<and> data_bytes m' hs = data_bytes m hs"
proof -
  have sz: "pk_size p = length junk + length body" using length_content [OF wf] c by simp
  obtain p0 where s: "Packet_SkipTo p 0 = Inr p0" "pout_wf m hs p0" "pk_pos p0 = 0" "pk_size p0 = pk_size p"
      "pk_capacity p0 = pk_capacity p" "length (pk_data p0) = length (pk_data p)" "take (pk_size p) (content m p0) = content m p"
    using SkipTo_pout [OF wf, of 0] by auto
  have c0: "content m p0 = junk @ body" using s(4,7) length_content [OF s(2)] c by simp
  have "room m hs p0 (n + sum_list (map (\<lambda>v. cost2 m (length (enc v))) hvs))" using room s(5,6) by (simp add: room_def)
  from write_each [OF s(2) ok this] obtain p' m' where
    w: "out_each wr hvs (p0, m) = Inr (p', m')" "put_done m hs p0 (concat (map enc hvs)) n (p', m')" by auto
  have "content m' p' = concat (map enc hvs) @ body"
    using w(2) c0 s(3) h by (simp add: put_done_def overwrite_def)
  then show ?thesis using s w sz by (auto simp: put_done_def)
qed

text \<open>The whole of it: body after a gap, head over the gap, data fetched.\<close>

lemma framed:
  assumes inv: "mem_inv m hs" and ok: "\<forall>v \<in> set vs. ok v" and h: "h \<le> approx + 10"
    and hd_len: "\<And>n. length (concat (map enc (hvs n))) = h" and hd_ok: "\<And>n. \<forall>v \<in> set (hvs n). ok v"
    and hd_cost: "\<And>n. sum_list (map (\<lambda>v. cost2 m (length (enc v))) (hvs n)) \<le> hc"
    and room: "room m hs Packet_new (cost m approx + sum_list (map (\<lambda>v. cost2 m (length (enc v))) vs) + hc + 1)"
  defines "tot \<equiv> h + length (concat (map enc vs))"
  shows "\<exists>p m1 p1 p2 m2 p3 p4 m4 ret m5. PacketOutBase_new approx m = Inr (p, m1) \<and> Packet_SkipTo p h = Inr p1 \<and>
     out_each wr vs (p1, m1) = Inr (p2, m2) \<and> Packet_SkipTo p2 0 = Inr p3 \<and> pk_size p3 = tot \<and>
     pout_wf m2 hs p3 \<and> out_each wr (hvs tot) (p3, m2) = Inr (p4, m4) \<and>
     PacketOutBase_FetchData (p4, m4) = Inr (ret, m5) \<and> data_bytes m5 ret = concat (map enc (hvs tot)) @ concat (map enc vs) \<and>
     mem_inv m5 (ret @ pk_data p4 @ hs) \<and> data_bytes m5 hs = data_bytes m hs \<and> sum_list (map rm_count ret) = tot \<and>
     tot < 4294967295 \<and> length ret \<le> length (pk_data p4) \<and> 3 * length (pk_data p4) + length hs + 5 < 4294967296"
proof -
  have "room m hs Packet_new ((1 + hc + sum_list (map (\<lambda>v. cost2 m (length (enc v))) vs)) + cost m approx)" using room by (simp add: ac_simps)
  from open_frame [OF inv this h] obtain p m1 p1 where
    o: "PacketOutBase_new approx m = Inr (p, m1)" "Packet_SkipTo p h = Inr p1" "pout_wf m1 hs p1"
      "pk_pos p1 = h" "length (content m1 p1) = h" "room m1 hs p1 (1 + hc + sum_list (map (\<lambda>v. cost2 m (length (enc v))) vs))"
      "mp_chunksize m1 = mp_chunksize m" "data_bytes m1 hs = data_bytes m hs" by blast
  have "room m1 hs p1 ((1 + hc) + sum_list (map (\<lambda>v. cost2 m1 (length (enc v))) vs))" using o(6,7) by (simp add: cost2_def)
  from write_each [OF o(3) ok this] obtain p2 m2 where
    b: "out_each wr vs (p1, m1) = Inr (p2, m2)" "put_done m1 hs p1 (concat (map enc vs)) (1 + hc) (p2, m2)" by auto
  have b2: "pout_wf m2 hs p2" "room m2 hs p2 (1 + hc)" "content m2 p2 = content m1 p1 @ concat (map enc vs)"
      "data_bytes m2 hs = data_bytes m hs" "mp_chunksize m2 = mp_chunksize m"
    using b(2) o(4,5,7,8) by (auto simp: put_done_def overwrite_def)
  have "room m2 hs p2 (1 + sum_list (map (\<lambda>v. cost2 m2 (length (enc v))) (hvs tot)))"
    using b2(2,5) hd_cost [of tot] by (intro room_mono [OF b2(2)]) (simp add: cost2_def)
  from close_frame [OF b2(1,3) _ hd_ok this] hd_len [of tot] o(5) obtain p3 p4 m4 where
    c: "Packet_SkipTo p2 0 = Inr p3" "pk_size p3 = tot" "pout_wf m2 hs p3"
      "out_each wr (hvs tot) (p3, m2) = Inr (p4, m4)" "pout_wf m4 hs p4" "room m4 hs p4 1"
      "content m4 p4 = concat (map enc (hvs tot)) @ concat (map enc vs)" "data_bytes m4 hs = data_bytes m2 hs"
    unfolding tot_def by auto
  have "2 * length (pk_data p4) + length hs < 4294967295" using c(6) by (simp add: room_def)
  from FetchData_spec [OF c(5) this] obtain ret m5 where
    f: "PacketOutBase_FetchData (p4, m4) = Inr (ret, m5)" "data_bytes m5 ret = content m4 p4"
      "mem_inv m5 (ret @ pk_data p4 @ hs)" "data_of m5 = data_of m4" "sum_list (map rm_count ret) = pk_size p4"
      "length ret \<le> length (pk_data p4)"
    by blast
  have sz: "pk_size p4 = tot" using length_content [OF c(5)] c(7) hd_len [of tot] by (simp add: tot_def)
  have "tot < 4294967295" "3 * length (pk_data p4) + length hs + 5 < 4294967296" using c(5,6) sz by (auto simp: pout_wf_def room_def)
  then show ?thesis using o b c f sz b2(4) data_of_bytes [OF f(4), of hs] by auto
qed

end

lemma open_reader:
  assumes "all_wf m ret" and "sum_list (map rm_count ret) < 4294967296"
    and "data_bytes m ret = a @ b"
  shows "\<exists>q q'. PacketInBase_new ret = Inr q \<and> Packet_SkipTo q (length a) = Inr q' \<and> pin_wf m q' \<and>
     pk_pos q' = length a \<and> content m q' = a @ b"
proof -
  obtain q where q: "PacketInBase_new ret = Inr q" "pin_wf m q" "content m q = a @ b" "pk_capacity q = pk_size q"
    using PacketInBase_new_spec [OF assms(1,2)] assms(3) by auto
  have "length a \<le> pk_size q" using length_content_pin [OF q(2)] q(3) by simp
  from SkipTo_pin [OF q(2) this q(4)] q show ?thesis by auto
qed

section \<open>Properties\<close>

lemma Parse_ValueID:
  "MailboxID_Parse (MailboxID_ValueID mb) =
     \<lparr>mb_nodeid = take_bit 8 (mb_nodeid mb) OR drop_bit 24 (mb_pid mb), mb_pid = take_bit 24 (mb_pid mb)\<rparr>"
proof -
  have "drop_bit 24 (push_bit 24 n OR p) = take_bit 8 n OR drop_bit 24 p" for n p :: "32 word"
    by (rule bit_word_eqI) (auto simp: bit_simps)
  moreover have "drop_bit 8 (push_bit 8 (push_bit 24 n OR p)) = take_bit 24 p" for n p :: "32 word"
    by (rule bit_word_eqI) (auto simp: bit_simps)
  moreover have "signed_drop_bit 8 (NOT (0 :: 32 word)) = NOT 0"
    by (rule bit_word_eqI) (auto simp: bit_simps)
  ultimately show ?thesis by (simp add: MailboxID_Parse_def MailboxID_ValueID_def)
qed

lemma take_bit_self:
  "take_bit 24 (w :: 32 word) = w \<longleftrightarrow> w < 16777216" "take_bit 8 (w :: 32 word) = w \<longleftrightarrow> w < 256"
  by (simp_all add: word_unat_eq_iff word_less_nat_alt unsigned_take_bit_eq take_bit_nat_eq_self_iff)

lemma mailbox_fits:
  assumes "mb_nodeid mb < 256" and "mb_pid mb < 16777216"
  shows "MailboxID_Parse (MailboxID_ValueID mb) = mb"
proof -
  have "take_bit 24 (mb_pid mb) = mb_pid mb" "take_bit 8 (mb_nodeid mb) = mb_nodeid mb"
    using assms by (simp_all add: take_bit_self)
  moreover have "drop_bit 24 (take_bit 24 (mb_pid mb)) = 0" by (simp add: drop_bit_take_bit)
  ultimately show ?thesis by (simp add: Parse_ValueID)
qed

text \<open>
  C30. A mailbox address survives \<open>ValueID\<close> and \<open>Parse\<close> exactly when its node fits 8 bits and its
  process id, read as unsigned, fits 24 bits. The mask in \<open>ValueID\<close> does not cut larger ids, so a
  negative or too large process id also changes the node.
\<close>

theorem MailboxID_roundtrip_iff:
  "MailboxID_Parse (MailboxID_ValueID mb) = mb \<longleftrightarrow> mb_nodeid mb < 256 \<and> mb_pid mb < 16777216"
proof
  assume e: "MailboxID_Parse (MailboxID_ValueID mb) = mb"
  then have 1: "take_bit 24 (mb_pid mb) = mb_pid mb" unfolding Parse_ValueID by (metis mailboxid.select_convs(2))
  then have p: "mb_pid mb < 16777216" by (simp add: take_bit_self)
  have "drop_bit 24 (take_bit 24 (mb_pid mb)) = 0" by (simp add: drop_bit_take_bit)
  with 1 e have "take_bit 8 (mb_nodeid mb) = mb_nodeid mb" unfolding Parse_ValueID
    by (metis mailboxid.select_convs(1) or.right_neutral)
  then show "mb_nodeid mb < 256 \<and> mb_pid mb < 16777216" using p by (simp add: take_bit_self)
qed (use mailbox_fits in blast)

lemma unat_u32: "n < 4294967296 \<Longrightarrow> unat (word_of_nat n :: 32 word) = n"
  by (simp add: unsigned_of_nat take_bit_nat_eq_self)

lemma unat_u16: "unat (word_of_nat n :: 16 word) = n mod 65536"
  by (simp add: unsigned_of_nat take_bit_eq_mod)

definition message_head :: "16 word \<Rightarrow> mailboxid \<Rightarrow> mailboxid \<Rightarrow> 16 word \<Rightarrow> nat \<Rightarrow> outval list" where
  "message_head code from to sid n = [OutU32 (word_of_nat n), OutU16 code, OutU32 (MailboxID_ValueID from),
     OutU32 (MailboxID_ValueID to), OutU16 sid]"

lemma message_head_laws:
  "length (body_bytes (message_head code from to sid n)) = 16" "\<forall>v \<in> set (message_head code from to sid n). ok_val v"
  "body_cost m (message_head code from to sid n) \<le> 166 + 15 * mp_chunksize m"
  by (simp_all add: message_head_def cost2_def)

lemma WriteHead_message:
  assumes "Packet_SkipTo p 0 = Inr p0" and "mo_pkt mo = p"
    and "out_each PacketOutBase_out (message_head (mo_code mo) (mo_from mo) (mo_to mo) (mo_session mo) (pk_size p0)) (p0, m) = Inr (p', m')"
  shows "MessageOut_WriteHead (mo, m) = Inr (mo\<lparr>mo_pkt := p'\<rparr>, m')"
  using assms by (auto simp: MessageOut_WriteHead_def message_head_def bindE_eq_Inr)

lemma ReadHead_message:
  assumes wf: "pin_wf m q" and pos: "pk_pos q = 4" and sk: "Packet_SkipTo (mi_pkt mi) 4 = Inr q"
    and c: "content m q = le_bytes 4 n @ body_bytes (tl (message_head code from to sid k)) @ r"
  shows "\<exists>mi'. MessageIn_ReadHead m mi = Inr mi' \<and> mi_code mi' = code \<and> mi_session mi' = sid \<and>
     mi_from mi' = MailboxID_Parse (MailboxID_ValueID from) \<and> mi_to mi' = MailboxID_Parse (MailboxID_ValueID to) \<and>
     pin_wf m (mi_pkt mi') \<and> drop (pk_pos (mi_pkt mi')) (content m (mi_pkt mi')) = r"
proof -
  let ?hs = "tl (message_head code from to sid k)"
  have d: "drop (pk_pos q) (content m q) = body_bytes ?hs @ r" using c pos by simp
  have ok: "\<forall>v \<in> set ?hs. ok_val v" by (simp add: message_head_def)
  from stream.read_each [OF wf ok d] obtain q' where
    r: "in_each PacketInBase_in (map kind_of ?hs) m q = Inr (map seen_val ?hs, q')"
      "advanced m q (length (body_bytes ?hs)) q'" by blast
  have "drop (pk_pos q') (content m q') = r"
    using drop_advanced [OF r(2)] d by simp
  then show ?thesis
    using r sk by (auto simp: message_head_def MessageIn_ReadHead_def bindE_eq_Inr advanced_def PacketInBase_in_u16_def
        PacketInBase_in_u32_def PacketInBase_ReadUShort_def PacketInBase_ReadUInt_def)
qed

text \<open>
  C3. A cluster message sent and received. Its body is streamed after the sixteen byte gap, the
  addresses and the session are set, \<open>WriteHead\<close> fills the gap and \<open>FetchData\<close> takes the bytes; the
  receiver's \<open>ReadHead\<close> finds the same code, sender, receiver and session, the body reads back value by
  value behind it, and the first four bytes are the total length the receiver frames the stream with.
\<close>

theorem message_roundtrip:
  assumes "mem_inv m hs" and "\<forall>v \<in> set vs. ok_val v"
    and "mb_nodeid from < 256" "mb_pid from < 16777216" "mb_nodeid to < 256" "mb_pid to < 16777216"
    and "room m hs Packet_new (cost m (max 16 approx) + body_cost m vs + (166 + 15 * mp_chunksize m) + 1)"
  shows "\<exists>mo m1 p2 m2 mo' m4 ret m5 mi mi' q. MessageOut_new code approx m = Inr (mo, m1) \<and>
     out_each PacketOutBase_out vs (mo_pkt mo, m1) = Inr (p2, m2) \<and>
     MessageOut_WriteHead (MessageOut_SetSession sid (MessageOut_SetTo to (MessageOut_SetFrom from (mo\<lparr>mo_pkt := p2\<rparr>))), m2)
       = Inr (mo', m4) \<and>
     PacketOutBase_FetchData (mo_pkt mo', m4) = Inr (ret, m5) \<and> data_bytes m5 hs = data_bytes m hs \<and>
     le_val (take 4 (data_bytes m5 ret)) = length (data_bytes m5 ret) \<and>
     MessageIn_new code0 session0 ret = Inr mi \<and> MessageIn_ReadHead m5 mi = Inr mi' \<and>
     mi_code mi' = code \<and> mi_from mi' = from \<and> mi_to mi' = to \<and> mi_session mi' = sid \<and>
     in_each PacketInBase_in (map kind_of vs) m5 (mi_pkt mi') = Inr (map seen_val vs, q)"
proof -
  let ?a = "max 16 approx" and ?hvs = "message_head code from to sid" and ?n = "16 + length (body_bytes vs)"
  have gap: "16 \<le> ?a + 10" by simp
  obtain p m1 p1 p2 m2 p3 p4 m4 ret m5 where
    f: "PacketOutBase_new ?a m = Inr (p, m1)" "Packet_SkipTo p 16 = Inr p1"
      "out_each PacketOutBase_out vs (p1, m1) = Inr (p2, m2)" "Packet_SkipTo p2 0 = Inr p3" "pk_size p3 = ?n"
      "out_each PacketOutBase_out (?hvs ?n) (p3, m2) = Inr (p4, m4)"
      "PacketOutBase_FetchData (p4, m4) = Inr (ret, m5)" "data_bytes m5 ret = body_bytes (?hvs ?n) @ body_bytes vs"
      "mem_inv m5 (ret @ pk_data p4 @ hs)" "data_bytes m5 hs = data_bytes m hs" "sum_list (map rm_count ret) = ?n"
      "?n < 4294967295"
    using stream.framed [where hvs = "message_head code from to sid" and approx = "max 16 approx",
        OF assms(1,2) gap message_head_laws assms(7)] by blast
  let ?mo = "\<lparr>mo_pkt = p1, mo_code = code, mo_from = MailboxID_NullID, mo_to = MailboxID_NullID, mo_session = 0\<rparr>"
  let ?mo2 = "MessageOut_SetSession sid (MessageOut_SetTo to (MessageOut_SetFrom from (?mo\<lparr>mo_pkt := p2\<rparr>)))"
  have new: "MessageOut_new code approx m = Inr (?mo, m1)"
    using f(1,2) by (simp add: MessageOut_new_def Message_HEAD_SIZE_def max_def split: if_splits)
  have hd: "MessageOut_WriteHead (?mo2, m2) = Inr (?mo2\<lparr>mo_pkt := p4\<rparr>, m4)"
    using WriteHead_message [of p2 p3 ?mo2 m2 p4 m4] f(4-6)
    by (simp add: MessageOut_SetSession_def MessageOut_SetTo_def MessageOut_SetFrom_def)
  have bytes: "data_bytes m5 ret = le_bytes 4 ?n @ body_bytes (tl (?hvs ?n)) @ body_bytes vs"
    using f(8) unat_u32 [of ?n] f(12) by (simp add: message_head_def del: of_nat_add)
  have "all_wf m5 ret" using f(9) by (auto simp: mem_inv_def)
  from open_reader [OF this _ bytes] f(11,12) obtain q0 q where
    r: "PacketInBase_new ret = Inr q0" "Packet_SkipTo q0 4 = Inr q" "pin_wf m5 q" "pk_pos q = 4"
      "content m5 q = le_bytes 4 ?n @ body_bytes (tl (?hvs ?n)) @ body_bytes vs" by auto
  let ?mi = "\<lparr>mi_pkt = q0, mi_code = code0, mi_session = session0, mi_from = MailboxID_NullID, mi_to = MailboxID_NullID\<rparr>"
  obtain mi' where mi: "MessageIn_ReadHead m5 ?mi = Inr mi'" "mi_code mi' = code" "mi_session mi' = sid"
      "mi_from mi' = from" "mi_to mi' = to" "pin_wf m5 (mi_pkt mi')"
      "drop (pk_pos (mi_pkt mi')) (content m5 (mi_pkt mi')) = body_bytes vs @ []"
    using ReadHead_message [OF r(3,4) _ r(5), of ?mi] r(2) mailbox_fits [OF assms(3,4)] mailbox_fits [OF assms(5,6)] by auto
  obtain q' where "in_each PacketInBase_in (map kind_of vs) m5 (mi_pkt mi') = Inr (map seen_val vs, q')"
    using stream.read_each [OF mi(6) assms(2) mi(7)] by blast
  moreover have "le_val (take 4 (data_bytes m5 ret)) = length (data_bytes m5 ret)"
    using bytes f(8,12) by (simp add: le_val_le_bytes message_head_def)
  moreover have "MessageIn_new code0 session0 ret = Inr ?mi" using r(1) by (simp add: MessageIn_new_def)
  ultimately show ?thesis using new f(3,7,10) hd mi by fastforce
qed

theorem message_roundtrip_witness:
  "\<exists>ret m5 mi mi'. MessageIn_new 0 0 ret = Inr mi \<and> MessageIn_ReadHead m5 mi = Inr mi' \<and> mi_code mi' = 7 \<and>
     mi_from mi' = MailboxID_new 1 2 \<and> mi_to mi' = MailboxID_new 3 10001 \<and> mi_session mi' = 5 \<and>
     length (data_bytes m5 ret) = le_val (take 4 (data_bytes m5 ret))"
proof -
  let ?m = "MemoryPool_new (\<lambda>_ _. 0) 3 2" and ?from = "MailboxID_new 1 2" and ?to = "MailboxID_new 3 10001"
  have ok: "\<forall>v \<in> set [OutU16 9]. ok_val v" by simp
  have mb: "mb_nodeid ?from < 256" "mb_pid ?from < 16777216" "mb_nodeid ?to < 256" "mb_pid ?to < 16777216"
    by (simp_all add: MailboxID_new_def)
  have r: "room ?m [] Packet_new (cost ?m (max 16 0) + body_cost ?m [OutU16 9] + (166 + 15 * mp_chunksize ?m) + 1)"
    by (rule new_pool_room) (simp add: cost_def cost2_def new_pool_chunksize)
  show ?thesis
    using message_roundtrip [OF new_pool_inv ok mb r, of 7 5 0 0] by fastforce
qed

definition packet_head :: "16 word \<Rightarrow> 16 word \<Rightarrow> nat \<Rightarrow> outval list" where
  "packet_head code sid n = [OutU16 PacketIn_IDENTIFIER, OutU16 (word_of_nat n), OutU16 code,
     OutI16 PacketOut_CalculateSignature, OutU16 sid]"

lemma packet_head_laws:
  "length (body_bytes (packet_head code sid n)) = 10" "\<forall>v \<in> set (packet_head code sid n). ok_val v"
  "body_cost m (packet_head code sid n) \<le> 160 + 15 * mp_chunksize m"
  by (simp_all add: packet_head_def cost2_def)

lemma PutByte_keeps_size:
  assumes wf: "pout_wf m hs p" and fit: "pk_pos p + length src \<le> pk_size p"
    and eq: "PacketOutBase_PutByte src (p, m) = Inr (p', m')"
  shows "pk_size p' = pk_size p"
proof -
  have b: "pk_size p \<le> pk_capacity p" "pk_capacity p < 4294967296" using wf by (auto simp: pout_wf_def)
  then have "u32 (pk_pos p + length src) = pk_pos p + length src" using fit by (intro u32_id) simp
  then show ?thesis
    using eq fit b by (auto simp: PacketOutBase_PutByte_def numeral_2_eq_2 Packet_UpdateSize_def Let_def
        bindE_eq_Inr split: if_splits)
qed

lemma WriteHead_packet:
  assumes sk: "Packet_SkipTo p 0 = Inr p0" and po: "po_pkt po = p" "\<not> po_head_writed po"
    and wf: "pout_wf m hs p0" and pos: "pk_pos p0 = 0" "2 \<le> pk_size p0"
    and out: "out_each PacketOutBase_out (packet_head (po_code po) (po_sessionid po) (pk_size p0)) (p0, m) = Inr (p', m')"
  shows "PacketOut_WriteHead rewrite (po, m) = Inr (po\<lparr>po_pkt := p', po_head_writed := True\<rparr>, m')"
proof -
  obtain p1 m1 where 1: "PacketOutBase_WriteUShort PacketIn_IDENTIFIER (p0, m) = Inr (p1, m1)"
    using out by (auto simp: packet_head_def bindE_eq_Inr)
  have "pk_size p1 = pk_size p0"
    using PutByte_keeps_size [OF wf _ 1 [unfolded PacketOutBase_WriteUShort_def write_word_def]] pos by simp
  then show ?thesis
    using sk po out 1 by (auto simp: PacketOut_WriteHead_def packet_head_def bindE_eq_Inr)
qed

lemma ReadHead_packet:
  assumes wf: "pin_wf m q" and pos: "pk_pos q = 4" and sk: "Packet_SkipTo (pi_pkt pi) 4 = Inr q"
    and c: "content m q = a @ body_bytes (drop 2 (packet_head code sid k)) @ r" "length a = 4"
  shows "\<exists>pi'. PacketIn_ReadHead m pi = Inr pi' \<and> pi_code pi' = code \<and> pi_sessionid pi' = sid \<and>
     pin_wf m (pi_pkt pi') \<and> drop (pk_pos (pi_pkt pi')) (content m (pi_pkt pi')) = r"
proof -
  let ?hs = "drop 2 (packet_head code sid k)"
  have d: "drop (pk_pos q) (content m q) = body_bytes ?hs @ r" using c pos by simp
  have ok: "\<forall>v \<in> set ?hs. ok_val v" by (simp add: packet_head_def)
  from stream.read_each [OF wf ok d] obtain q' where
    r: "in_each PacketInBase_in (map kind_of ?hs) m q = Inr (map seen_val ?hs, q')"
      "advanced m q (length (body_bytes ?hs)) q'" by blast
  have "drop (pk_pos q') (content m q') = r" using drop_advanced [OF r(2)] d by simp
  then show ?thesis
    using r sk by (auto simp: packet_head_def PacketIn_ReadHead_def bindE_eq_Inr advanced_def)
qed

text \<open>
  C4. A client packet sent and received: behind \<open>WriteHead\<close> the bytes start with the identifier and the
  total length (cut to 16 bits), and \<open>ReadHead\<close> on the other side finds the same code and call number and
  leaves the cursor at the body, which reads back value by value.
\<close>

theorem packet_roundtrip:
  assumes "mem_inv m hs" and "\<forall>v \<in> set vs. ok_val v"
    and "room m hs Packet_new (cost m approx + body_cost m vs + (160 + 15 * mp_chunksize m) + 1)"
  shows "\<exists>po m1 p2 m2 po' m4 ret m5 pi pi' q. PacketOut_new code approx m = Inr (po, m1) \<and>
     out_each PacketOutBase_out vs (po_pkt po, m1) = Inr (p2, m2) \<and>
     PacketOut_WriteHead False (PacketOut_SetSessionID sid (po\<lparr>po_pkt := p2\<rparr>), m2) = Inr (po', m4) \<and>
     PacketOutBase_FetchData (po_pkt po', m4) = Inr (ret, m5) \<and> data_bytes m5 hs = data_bytes m hs \<and>
     take 4 (data_bytes m5 ret) = le_bytes 2 28380 @ le_bytes 2 (length (data_bytes m5 ret) mod 65536) \<and>
     PacketIn_new ret = Inr pi \<and> PacketIn_ReadHead m5 pi = Inr pi' \<and> pi_code pi' = code \<and> pi_sessionid pi' = sid \<and>
     in_each PacketInBase_in (map kind_of vs) m5 (pi_pkt pi') = Inr (map seen_val vs, q)"
proof -
  let ?hvs = "packet_head code sid" and ?n = "10 + length (body_bytes vs)"
  obtain p m1 p1 p2 m2 p3 p4 m4 ret m5 where
    f: "PacketOutBase_new approx m = Inr (p, m1)" "Packet_SkipTo p 10 = Inr p1"
      "out_each PacketOutBase_out vs (p1, m1) = Inr (p2, m2)" "Packet_SkipTo p2 0 = Inr p3" "pk_size p3 = ?n"
      "pout_wf m2 hs p3" "out_each PacketOutBase_out (?hvs ?n) (p3, m2) = Inr (p4, m4)"
      "PacketOutBase_FetchData (p4, m4) = Inr (ret, m5)" "data_bytes m5 ret = body_bytes (?hvs ?n) @ body_bytes vs"
      "mem_inv m5 (ret @ pk_data p4 @ hs)" "data_bytes m5 hs = data_bytes m hs" "sum_list (map rm_count ret) = ?n"
      "?n < 4294967295"
    using stream.framed [where hvs = "packet_head code sid", OF assms(1,2) le_add2 packet_head_laws assms(3)] by blast
  let ?po = "\<lparr>po_pkt = p1, po_code = code, po_sessionid = 0, po_head_writed = False\<rparr>"
  let ?po2 = "PacketOut_SetSessionID sid (?po\<lparr>po_pkt := p2\<rparr>)"
  have new: "PacketOut_new code approx m = Inr (?po, m1)"
    using f(1,2) by (simp add: PacketOut_new_def PacketOut_HEAD_SIZE_def)
  have p3: "pk_pos p3 = 0" using f(4)
    by (auto simp: Packet_SkipTo_def assertE_def bindE_eq_Inr Packet_UpdateSize_def Let_def split: if_splits)
  have wh: "PacketOut_WriteHead False (?po2, m2) = Inr (?po2\<lparr>po_pkt := p4, po_head_writed := True\<rparr>, m4)"
    using WriteHead_packet [of p2 p3 ?po2 m2 hs p4 m4] f(4-7) p3 by (simp add: PacketOut_SetSessionID_def)
  let ?a = "le_bytes 2 28380 @ le_bytes 2 (?n mod 65536)"
  have bytes: "data_bytes m5 ret = ?a @ body_bytes (drop 2 (?hvs ?n)) @ body_bytes vs"
    using f(9) unat_u16 [of ?n] by (simp add: packet_head_def PacketIn_IDENTIFIER_def del: of_nat_add)
  have "all_wf m5 ret" using f(10) by (auto simp: mem_inv_def)
  from open_reader [OF this _ bytes] f(12,13) obtain q0 q where
    r: "PacketInBase_new ret = Inr q0" "Packet_SkipTo q0 4 = Inr q" "pin_wf m5 q" "pk_pos q = 4"
      "content m5 q = ?a @ body_bytes (drop 2 (?hvs ?n)) @ body_bytes vs" by auto
  let ?pi = "\<lparr>pi_pkt = q0, pi_code = 0, pi_sessionid = 0\<rparr>"
  obtain pi' where pi: "PacketIn_ReadHead m5 ?pi = Inr pi'" "pi_code pi' = code" "pi_sessionid pi' = sid"
      "pin_wf m5 (pi_pkt pi')" "drop (pk_pos (pi_pkt pi')) (content m5 (pi_pkt pi')) = body_bytes vs @ []"
    using ReadHead_packet [OF r(3,4) _ r(5), of ?pi] r(2) by auto
  obtain q' where "in_each PacketInBase_in (map kind_of vs) m5 (pi_pkt pi') = Inr (map seen_val vs, q')"
    using stream.read_each [OF pi(4) assms(2) pi(5)] by blast
  moreover have "length (data_bytes m5 ret) = ?n" using f(9) by (simp add: packet_head_def)
  moreover have "take 4 (data_bytes m5 ret) = ?a" using bytes by simp
  moreover have "PacketIn_new ret = Inr ?pi" using r(1) by (simp add: PacketIn_new_def)
  ultimately show ?thesis using new f(3,8,11) wh pi by fastforce
qed

theorem packet_roundtrip_witness:
  "\<exists>ret m5 pi pi'. PacketIn_new ret = Inr pi \<and> PacketIn_ReadHead m5 pi = Inr pi' \<and> pi_code pi' = 7 \<and>
     pi_sessionid pi' = 5 \<and> take 4 (data_bytes m5 ret) = le_bytes 2 28380 @ le_bytes 2 (length (data_bytes m5 ret) mod 65536)"
proof -
  let ?m = "MemoryPool_new (\<lambda>_ _. 0) 3 2"
  have ok: "\<forall>v \<in> set [OutU16 9]. ok_val v" by simp
  have r: "room ?m [] Packet_new (cost ?m 20 + body_cost ?m [OutU16 9] + (160 + 15 * mp_chunksize ?m) + 1)"
    by (rule new_pool_room) (simp add: cost_def cost2_def new_pool_chunksize)
  show ?thesis using packet_roundtrip [OF new_pool_inv ok r, of 7 5] by blast
qed

end
