(* ===== verification/EventIO.thy ===== *)
theory EventIO
  imports Prelude
begin

text \<open>
  \<open>base/event/eventio.*\<close>: one file descriptor registered with the dispatcher. \<open>io_linked\<close> is membership
  in the dispatcher's list of registered objects, \<open>io_queued\<close> the number of entries of the object in the
  queue of closed objects, \<open>io_os\<close> the descriptors closed so far. \<open>epoll_ctl\<close> succeeds on an open
  descriptor and fails on \<open>-1\<close>; every other failure aborts the process in the source.
\<close>

unbundle bit_operations_syntax

record eventio =
  io_evt :: nat
  io_fd :: int
  io_closed :: bool
  io_linked :: bool
  io_queued :: nat
  io_os :: "int list"

definition IO_READABLE :: nat where "IO_READABLE = 1"
definition IO_WRITEABLE :: nat where "IO_WRITEABLE = 2"

definition EventIO_new :: eventio where
  "EventIO_new = \<lparr>io_evt = 0, io_fd = -1, io_closed = False, io_linked = False, io_queued = 0, io_os = []\<rparr>"

definition EventIO_AddToDispatcher :: "int \<Rightarrow> nat \<Rightarrow> eventio \<Rightarrow> eventio result" where
  "EventIO_AddToDispatcher fd evt io = assertE (\<not> io_linked io)
     (let io1 = io\<lparr>io_evt := evt\<rparr>;
          io2 = (if fd \<noteq> -1 \<and> fd \<noteq> io_fd io1
                 then (if io_fd io1 \<noteq> -1 then io1\<lparr>io_os := io_os io1 @ [io_fd io1]\<rparr> else io1)\<lparr>io_fd := fd\<rparr>
                 else io1)
      in assertE (io_fd io2 \<noteq> -1) (Inr (io2\<lparr>io_linked := True\<rparr>)))"

definition EventIO_ModifyIOEvent :: "nat \<Rightarrow> eventio \<Rightarrow> eventio result" where
  "EventIO_ModifyIOEvent evt io = assertE (io_linked io)
     (assertE (io_fd io \<noteq> -1) (Inr (io\<lparr>io_evt := evt\<rparr>)))"

definition EventIO_CloseFD :: "eventio \<Rightarrow> eventio" where
  "EventIO_CloseFD io = (if io_fd io \<noteq> -1 then io\<lparr>io_os := io_os io @ [io_fd io], io_fd := -1\<rparr> else io)"

definition EventIO_Close :: "eventio \<Rightarrow> eventio result" where
  "EventIO_Close io =
     (if \<not> io_closed io \<and> io_linked io
      then assertE (io_fd io \<noteq> -1) (Inr (EventIO_CloseFD (io\<lparr>io_queued := io_queued io + 1, io_closed := True\<rparr>)))
      else Inr (EventIO_CloseFD io))"

text \<open>
  A registered object that is not closed has a descriptor; an object is queued for its close callback
  exactly when it is registered and closed, and at most once.
\<close>

definition eventio_ok :: "eventio \<Rightarrow> bool" where
  [inv_defs]: "eventio_ok io \<longleftrightarrow> (io_linked io \<and> \<not> io_closed io \<longrightarrow> io_fd io \<noteq> -1) \<and>
     (io_closed io \<longrightarrow> io_fd io = -1) \<and> io_queued io = (if io_closed io \<and> io_linked io then 1 else 0)"

lemma EventIO_new_ok: "eventio_ok EventIO_new"
  by (simp add: EventIO_new_def eventio_ok_def)

lemma Close_ok:
  assumes "eventio_ok io"
  shows "\<exists>io'. EventIO_Close io = Inr io' \<and> eventio_ok io' \<and> io_fd io' = -1 \<and>
    io_linked io' = io_linked io \<and> io_closed io' = (io_closed io \<or> io_linked io)"
proof (cases "\<not> io_closed io \<and> io_linked io")
  case True
  with assms show ?thesis by (simp add: EventIO_Close_def EventIO_CloseFD_def eventio_ok_def assertE_def)
next
  case False
  with assms show ?thesis by (auto simp: EventIO_Close_def EventIO_CloseFD_def eventio_ok_def)
qed

lemma Close_closed: "eventio_ok io \<Longrightarrow> io_closed io \<Longrightarrow> EventIO_Close io = Inr io"
  by (cases io) (simp add: EventIO_Close_def EventIO_CloseFD_def eventio_ok_def)

lemma ModifyIOEvent_ok:
  "eventio_ok io \<Longrightarrow> io_linked io \<Longrightarrow> \<not> io_closed io \<Longrightarrow>
     EventIO_ModifyIOEvent evt io = Inr (io\<lparr>io_evt := evt\<rparr>) \<and> eventio_ok (io\<lparr>io_evt := evt\<rparr>)"
  by (simp add: EventIO_ModifyIOEvent_def eventio_ok_def assertE_def)

lemma AddToDispatcher_ok:
  "\<not> io_linked io \<Longrightarrow> \<not> io_closed io \<Longrightarrow> fd \<noteq> -1 \<Longrightarrow> eventio_ok io \<Longrightarrow>
     \<exists>io'. EventIO_AddToDispatcher fd evt io = Inr io' \<and> eventio_ok io' \<and> io_linked io' \<and> io_fd io' = fd \<and> \<not> io_closed io'"
  by (auto simp: EventIO_AddToDispatcher_def eventio_ok_def assertE_def Let_def)

end
