(* ===== verification/NetClient.thy ===== *)
theory NetClient
  imports PacketSpec EventIO
begin

text \<open>
  \<open>base/net/client.*\<close>: one TCP connection. Received bytes are scattered by \<open>readv\<close> into the pool of
  receive views, moved to the receive queue without copying and popped from there; bytes to send are
  queued as views and gathered by \<open>writev\<close>. The kernel is a script: the results of the calls of
  \<open>readv\<close> and \<open>writev\<close> to come. Theorems: the receive queue is a byte queue (what arrives is what is
  popped, in order), the bytes on the wire followed by those still queued are exactly the bytes pushed,
  and both loops end.
\<close>

section \<open>The kernel\<close>

datatype rdres = RdData bytes | RdAgain | RdError | RdEof

datatype wrres = WrSent nat | WrAgain | WrError

fun kernel_readv :: "int \<Rightarrow> nat \<Rightarrow> rdres list \<Rightarrow> rdres \<times> rdres list" where
  "kernel_readv fd cap rx = (if fd = -1 then (RdError, rx) else
     (case rx of [] \<Rightarrow> (RdAgain, [])
      | RdData bs # k \<Rightarrow> if length bs \<le> cap then (RdData bs, k) else (RdData (take cap bs), RdData (drop cap bs) # k)
      | r # k \<Rightarrow> (r, k)))"

text \<open>\<open>writev\<close> of \<open>n\<close> bytes; it never reports more than it was given.\<close>

fun kernel_writev :: "int \<Rightarrow> nat \<Rightarrow> wrres list \<Rightarrow> wrres \<times> wrres list" where
  "kernel_writev fd n tx = (if fd = -1 then (WrError, tx) else
     (case tx of [] \<Rightarrow> (WrAgain, []) | WrSent k # r \<Rightarrow> (WrSent (min k n), r) | w # r \<Rightarrow> (w, r)))"

lemma kernel_writev_sent: "kernel_writev fd n tx = (WrSent k, tx') \<Longrightarrow> length tx' < length tx \<and> k \<le> n"
  by (auto split: if_splits list.splits wrres.splits)

fun rx_size :: "rdres list \<Rightarrow> nat" where
  "rx_size [] = 0"
| "rx_size (RdData bs # k) = 1 + length bs + rx_size k"
| "rx_size (r # k) = 1 + rx_size k"

lemma kernel_readv_data:
  "kernel_readv fd cap rx = (RdData bs, rx') \<Longrightarrow> bs \<noteq> [] \<Longrightarrow> rx_size rx' < rx_size rx \<and> length bs \<le> cap"
  by (auto split: if_splits list.splits rdres.splits)

declare kernel_writev.simps [simp del] kernel_readv.simps [simp del]

text \<open>The kernel fills the vectors one after the other.\<close>

fun scatter :: "refchunk list \<Rightarrow> bytes \<Rightarrow> mem \<Rightarrow> mem result" where
  "scatter rs [] m = Inr m"
| "scatter [] (b # bs) m = Inl OutOfRange"
| "scatter (r # rs) (b # bs) m = bindE (chunk_save (rm_chunk r) (rm_data r) (take (rm_count r) (b # bs)) m)
     (scatter rs (drop (rm_count r) (b # bs)))"

section \<open>The connection\<close>

record client =
  cl_io :: eventio
  cl_connect :: bool
  cl_pending :: bool
  cl_sendq :: "refchunk list"
  cl_recvq :: "refchunk list"
  cl_recvq_count :: nat
  cl_recvp :: "refchunk list"
  cl_tx :: "wrres list"
  cl_wire :: bytes

definition SENDIOV_SIZE :: nat where "SENDIOV_SIZE = 200"
definition RECVIOV_SIZE :: nat where "RECVIOV_SIZE = 200"
definition RECVP_SIZE :: nat where "RECVP_SIZE = 20"

definition Client_new :: "wrres list \<Rightarrow> client" where
  "Client_new tx = \<lparr>cl_io = EventIO_new, cl_connect = False, cl_pending = False, cl_sendq = [], cl_recvq = [],
     cl_recvq_count = 0, cl_recvp = [], cl_tx = tx, cl_wire = []\<rparr>"

definition Client_Close :: "client \<Rightarrow> client result" where
  "Client_Close c = bindE (EventIO_Close (cl_io c)) (\<lambda>io. Inr (c\<lparr>cl_io := io\<rparr>))"

definition Client_closed :: "client \<Rightarrow> bool" where
  "Client_closed c = io_closed (cl_io c)"

definition Client_Recvp2IOVec :: "client \<Rightarrow> refchunk list" where
  "Client_Recvp2IOVec c = take RECVIOV_SIZE (cl_recvp c)"

definition Client_Sendq2IOVec :: "client \<Rightarrow> refchunk list" where
  "Client_Sendq2IOVec c = take SENDIOV_SIZE (cl_sendq c)"

subsection \<open>Popping received data\<close>

text \<open>The bytes copied out and the queue, whose views keep their cursor at the start.\<close>

fun CopyReceive_loop :: "refchunk list \<Rightarrow> nat \<Rightarrow> mem \<Rightarrow> (bytes \<times> refchunk list) result" where
  "CopyReceive_loop [] cnt m = Inr ([], [])"
| "CopyReceive_loop (r # q) cnt m =
     (if cnt > 0 then
        bindE (RefMemoryChunk_Read r cnt m) (\<lambda>(bs, r').
          bindE (CopyReceive_loop q (cnt - length bs) m) (\<lambda>(bs', q'). Inr (bs @ bs', RefMemoryChunk_Reset r' # q')))
      else Inr ([], r # q))"

definition Client_CopyReceive :: "nat \<Rightarrow> mem \<Rightarrow> client \<Rightarrow> (bytes \<times> client) result" where
  "Client_CopyReceive cnt m c = bindE (CopyReceive_loop (cl_recvq c) cnt m) (\<lambda>(bs, q). Inr (bs, c\<lparr>cl_recvq := q\<rparr>))"

fun PopReceive_loop :: "refchunk list \<Rightarrow> refchunk list \<Rightarrow> nat \<Rightarrow> nat \<Rightarrow> mem
    \<Rightarrow> (nat \<times> refchunk list \<times> refchunk list \<times> mem) result" where
  "PopReceive_loop [] dst cnt tot m = Inr (tot, [], dst, m)"
| "PopReceive_loop (ck # q) dst cnt tot m =
     (if cnt > 0 then
        (if cnt \<ge> rm_count ck then
           bindE (RefMemoryChunk_copy ck m) (\<lambda>(d, m1).
             bindE (RefMemoryChunk_destroy ck m1) (\<lambda>m2.
               PopReceive_loop q (dst @ [d]) (cnt - rm_count ck) (tot + rm_count ck) m2))
         else
           bindE (RefMemoryChunk_copy ck m) (\<lambda>(d, m1).
             bindE (RefMemoryChunk_ShrinkCount d (rm_count ck - cnt)) (\<lambda>d'.
               bindE (RefMemoryChunk_ForwardOffset ck cnt) (\<lambda>ck'. Inr (tot + cnt, ck' # q, dst @ [d'], m1)))))
      else Inr (tot, ck # q, dst, m))"

definition Client_PopReceive :: "refchunk list \<Rightarrow> nat \<Rightarrow> client \<times> mem
    \<Rightarrow> (nat \<times> refchunk list \<times> client \<times> mem) result" where
  "Client_PopReceive dst cnt s = bindE (PopReceive_loop (cl_recvq (fst s)) dst cnt 0 (snd s)) (\<lambda>(tot, q, dst', m).
     Inr (tot, dst', (fst s)\<lparr>cl_recvq := q, cl_recvq_count := cl_recvq_count (fst s) - tot\<rparr>, m))"

text \<open>
  The overload that copies into a buffer: \<open>dst\<close> is not advanced between two views, so the bytes of
  each view land at the start of the buffer.
\<close>

fun PopReceive_raw_loop :: "refchunk list \<Rightarrow> bytes \<Rightarrow> nat \<Rightarrow> nat \<Rightarrow> mem \<Rightarrow> (nat \<times> refchunk list \<times> bytes \<times> mem) result" where
  "PopReceive_raw_loop [] buf cnt tot m = Inr (tot, [], buf, m)"
| "PopReceive_raw_loop (ck # q) buf cnt tot m =
     (if cnt > 0 then
        (if cnt \<ge> rm_count ck then
           bindE (RefMemoryChunk_Read ck (rm_count ck) m) (\<lambda>(bs, ck').
             bindE (RefMemoryChunk_destroy ck' m) (\<lambda>m1.
               PopReceive_raw_loop q (overwrite buf 0 bs) (cnt - rm_count ck) (tot + rm_count ck) m1))
         else
           bindE (RefMemoryChunk_Read ck cnt m) (\<lambda>(bs, ck').
             bindE (RefMemoryChunk_ForwardOffset ck' cnt) (\<lambda>ck''.
               Inr (tot + cnt, ck'' # q, overwrite buf 0 bs, m))))
      else Inr (tot, ck # q, buf, m))"

definition Client_PopReceive_raw :: "bytes \<Rightarrow> nat \<Rightarrow> client \<times> mem \<Rightarrow> (nat \<times> bytes \<times> client \<times> mem) result" where
  "Client_PopReceive_raw buf cnt s = bindE (PopReceive_raw_loop (cl_recvq (fst s)) buf cnt 0 (snd s)) (\<lambda>(tot, q, buf', m).
     Inr (tot, buf', (fst s)\<lparr>cl_recvq := q, cl_recvq_count := cl_recvq_count (fst s) - tot\<rparr>, m))"

subsection \<open>Sending\<close>

fun InvokeSend_pop :: "nat \<Rightarrow> refchunk list \<Rightarrow> mem \<Rightarrow> (refchunk list \<times> mem) result" where
  "InvokeSend_pop num [] m = (if num > 0 then Inl OutOfRange else Inr ([], m))"
| "InvokeSend_pop num (ck # q) m =
     (if num > 0 then
        (if num \<ge> rm_count ck then
           bindE (RefMemoryChunk_destroy ck m) (InvokeSend_pop (num - rm_count ck) q)
         else bindE (RefMemoryChunk_ForwardOffset ck num) (\<lambda>ck'. Inr (ck' # q, m)))
      else Inr (ck # q, m))"

text \<open>
  The bytes \<open>writev\<close> accepts are the first ones of the vectors; \<open>cl_wire\<close> collects them. The callback
  \<open>OnSendCompleted\<close> does nothing unless a subclass overrides it; the flag reports that it is called.
\<close>

function InvokeSend_loop :: "bool \<Rightarrow> client \<times> mem \<Rightarrow> (bool \<times> client \<times> mem) result" where
  "InvokeSend_loop sendevt s = (case s of (c, m) \<Rightarrow>
     (let iov = Client_Sendq2IOVec c in
      if iov = [] then Inr (sendevt, c, m)
      else (let (rc, tx) = kernel_writev (io_fd (cl_io c)) (sum_list (map rm_count iov)) (cl_tx c); c1 = c\<lparr>cl_tx := tx\<rparr>
        in (case rc of
             WrSent n \<Rightarrow>
               if n > 0
               then bindE (InvokeSend_pop n (cl_sendq c1) m) (\<lambda>(q, m1).
                      InvokeSend_loop True
                        (c1\<lparr>cl_sendq := q, cl_wire := cl_wire c1 @ take n (concat (map (ref_bytes m) iov))\<rparr>, m1))
               else Inr (sendevt, c1, m)
           | WrAgain \<Rightarrow> bindE (EventIO_ModifyIOEvent (IO_READABLE OR IO_WRITEABLE) (cl_io c1)) (\<lambda>io.
               Inr (sendevt, c1\<lparr>cl_io := io\<rparr>, m))
           | WrError \<Rightarrow> bindE (Client_Close c1) (\<lambda>c2. Inr (sendevt, c2, m))))))"
  by pat_completeness auto
termination
  by (relation "measure (\<lambda>(b, c, m). length (cl_tx c))") (auto dest!: kernel_writev_sent [OF sym])

declare InvokeSend_loop.simps [simp del]

definition Client_InvokeSend :: "client \<times> mem \<Rightarrow> (bool \<times> client \<times> mem) result" where
  "Client_InvokeSend s = bindE (InvokeSend_loop False s) (\<lambda>(sendevt, c, m).
     Inr (sendevt \<and> cl_sendq c = [], c, m))"

fun push_copies :: "refchunk list \<Rightarrow> refchunk list \<Rightarrow> mem \<Rightarrow> (refchunk list \<times> mem) result" where
  "push_copies q [] m = Inr (q, m)"
| "push_copies q (r # rs) m = bindE (RefMemoryChunk_copy r m) (\<lambda>(d, m1). push_copies (q @ [d]) rs m1)"

definition Client_PushSend :: "refchunk list \<Rightarrow> client \<times> mem \<Rightarrow> (bool \<times> client \<times> mem) result" where
  "Client_PushSend src s =
     (if \<not> cl_connect (fst s) then Inr (False, s)
      else bindE (push_copies (cl_sendq (fst s)) src (snd s)) (\<lambda>(q, m). Client_InvokeSend ((fst s)\<lparr>cl_sendq := q\<rparr>, m)))"

subsection \<open>Events\<close>

text \<open>
  The virtual callbacks of the subclass, on the connection, the memory and the subclass's own state.
\<close>

record 'u hooks =
  on_connect :: "client \<times> mem \<times> 'u \<Rightarrow> (client \<times> mem \<times> 'u) result"
  on_connect_fail :: "client \<times> mem \<times> 'u \<Rightarrow> (client \<times> mem \<times> 'u) result"
  on_close :: "client \<times> mem \<times> 'u \<Rightarrow> (client \<times> mem \<times> 'u) result"
  on_receive :: "nat \<Rightarrow> client \<times> mem \<times> 'u \<Rightarrow> (client \<times> mem \<times> 'u) result"

definition Client_OnConnectSuccess :: "'u hooks \<Rightarrow> client \<times> mem \<times> 'u \<Rightarrow> (client \<times> mem \<times> 'u) result" where
  "Client_OnConnectSuccess h s = on_connect h ((fst s)\<lparr>cl_connect := True\<rparr>, snd s)"

definition lift_close :: "client \<times> mem \<times> 'u \<Rightarrow> (client \<times> mem \<times> 'u) result" where
  "lift_close s = bindE (Client_Close (fst s)) (\<lambda>c. Inr (c, snd s))"

definition Client_Connect_fd :: "'u hooks \<Rightarrow> int \<Rightarrow> client \<times> mem \<times> 'u \<Rightarrow> (client \<times> mem \<times> 'u) result" where
  "Client_Connect_fd h fd s = bindE (EventIO_AddToDispatcher fd IO_WRITEABLE (cl_io (fst s))) (\<lambda>io.
     Client_OnConnectSuccess h ((fst s)\<lparr>cl_io := io\<rparr>, snd s))"

datatype connres = ConnDone | ConnInProgress | ConnFailed

text \<open>\<open>fd\<close> and \<open>rc\<close> are what \<open>socket\<close> and \<open>connect\<close> returned.\<close>

definition Client_Connect :: "'u hooks \<Rightarrow> int \<Rightarrow> connres \<Rightarrow> client \<times> mem \<times> 'u \<Rightarrow> (client \<times> mem \<times> 'u) result" where
  "Client_Connect h fd rc s = assertE (fd \<noteq> -1)
     (bindE (EventIO_AddToDispatcher fd IO_WRITEABLE (cl_io (fst s))) (\<lambda>io.
        let c1 = (fst s)\<lparr>cl_io := io\<rparr> in
        case rc of
          ConnFailed \<Rightarrow> bindE (on_connect_fail h (c1, snd s)) lift_close
        | ConnInProgress \<Rightarrow> Inr (c1\<lparr>cl_pending := True\<rparr>, snd s)
        | ConnDone \<Rightarrow> Client_OnConnectSuccess h (c1, snd s)))"

text \<open>\<open>err\<close> is the outcome of \<open>getsockopt(SO_ERROR)\<close>: failed, or the pending error.\<close>

definition Client_CheckIfConnectCompleted :: "'u hooks \<Rightarrow> nat option \<Rightarrow> client \<times> mem \<times> 'u \<Rightarrow> (client \<times> mem \<times> 'u) result" where
  "Client_CheckIfConnectCompleted h err s =
     (let s1 = ((fst s)\<lparr>cl_pending := False\<rparr>, snd s) in
      case err of None \<Rightarrow> bindE (on_connect_fail h s1) lift_close
      | Some e \<Rightarrow> if e \<noteq> 0 then bindE (on_connect_fail h s1) lift_close else Client_OnConnectSuccess h s1)"

definition Client_OnEventIOWriteable :: "'u hooks \<Rightarrow> nat option \<Rightarrow> client \<times> mem \<times> 'u \<Rightarrow> (client \<times> mem \<times> 'u) result" where
  "Client_OnEventIOWriteable h err s =
     bindE (if cl_pending (fst s) then Client_CheckIfConnectCompleted h err s else Inr s) (\<lambda>(c, m, u).
       if cl_connect c then
         bindE (EventIO_ModifyIOEvent IO_READABLE (cl_io c)) (\<lambda>io.
           bindE (Client_InvokeSend (c\<lparr>cl_io := io\<rparr>, m)) (\<lambda>(_, c', m'). Inr (c', m', u)))
       else Inr (c, m, u))"

definition Client_OnEventIOClose :: "'u hooks \<Rightarrow> client \<times> mem \<times> 'u \<Rightarrow> (client \<times> mem \<times> 'u) result" where
  "Client_OnEventIOClose h s =
     (if cl_connect (fst s) then on_close h ((fst s)\<lparr>cl_connect := False\<rparr>, snd s) else Inr s)"

text \<open>Moving the bytes just read from the receive pool to the receive queue.\<close>

fun recv_move :: "nat \<Rightarrow> refchunk list \<Rightarrow> refchunk list \<Rightarrow> mem \<Rightarrow> (refchunk list \<times> refchunk list \<times> mem) result" where
  "recv_move tot [] q m = (if tot > 0 then Inl OutOfRange else Inr ([], q, m))"
| "recv_move tot (ck # p) q m =
     (if tot > 0 then
        (if tot \<ge> rm_count ck then
           bindE (RefMemoryChunk_copy ck m) (\<lambda>(d, m1).
             bindE (RefMemoryChunk_destroy ck m1) (\<lambda>m2. recv_move (tot - rm_count ck) p (q @ [d]) m2))
         else
           bindE (RefMemoryChunk_copy ck m) (\<lambda>(d, m1).
             bindE (RefMemoryChunk_ShrinkCount d (rm_count ck - tot)) (\<lambda>d'.
               bindE (RefMemoryChunk_ForwardOffset ck tot) (\<lambda>ck'. Inr (ck' # p, q @ [d'], m1)))))
      else Inr (ck # p, q, m))"

definition Client_refill :: "client \<times> mem \<Rightarrow> (client \<times> mem) result" where
  "Client_refill s = (if length (cl_recvp (fst s)) < RECVP_SIZE
     then bindE (MemoryPool_Aquire (cl_recvp (fst s)) (RECVP_SIZE - length (cl_recvp (fst s))) (snd s)) (\<lambda>(p, m).
       Inr ((fst s)\<lparr>cl_recvp := p\<rparr>, m))
     else Inr s)"

definition Client_take_in :: "bytes \<Rightarrow> client \<times> mem \<Rightarrow> (client \<times> mem) result" where
  "Client_take_in bs s = bindE (scatter (Client_Recvp2IOVec (fst s)) bs (snd s)) (\<lambda>m1.
     bindE (recv_move (length bs) (cl_recvp (fst s)) (cl_recvq (fst s)) m1) (\<lambda>(p, q, m2).
       Inr ((fst s)\<lparr>cl_recvp := p, cl_recvq := q, cl_recvq_count := cl_recvq_count (fst s) + length bs\<rparr>, m2)))"

function Readable_loop :: "'u hooks \<Rightarrow> rdres list \<Rightarrow> client \<times> mem \<times> 'u \<Rightarrow> (rdres list \<times> client \<times> mem \<times> 'u) result" where
  "Readable_loop h rx s = (case s of (c0, m0, u) \<Rightarrow>
     if cl_connect c0 \<and> \<not> Client_closed c0 then
       bindE (Client_refill (c0, m0)) (\<lambda>(c, m).
         let iov = Client_Recvp2IOVec c in
         if iov = [] then bindE (lift_close (c, m, u)) (\<lambda>s1. Inr (rx, s1))
         else (let (rc, rx') = kernel_readv (io_fd (cl_io c)) (sum_list (map rm_count iov)) rx in
               case rc of
                 RdData bs \<Rightarrow>
                   if bs \<noteq> []
                   then bindE (Client_take_in bs (c, m)) (\<lambda>(c1, m1).
                          bindE (on_receive h (cl_recvq_count c1) (c1, m1, u)) (Readable_loop h rx'))
                   else bindE (lift_close (c, m, u)) (\<lambda>s1. Inr (rx', s1))
               | RdAgain \<Rightarrow> Inr (rx', c, m, u)
               | _ \<Rightarrow> bindE (lift_close (c, m, u)) (\<lambda>s1. Inr (rx', s1))))
     else Inr (rx, s))"
  by pat_completeness auto
termination
  by (relation "measure (\<lambda>(h, rx, s). rx_size rx)") (auto dest!: kernel_readv_data [OF sym])

declare Readable_loop.simps [simp del]

definition Client_OnEventIOReadable :: "'u hooks \<Rightarrow> rdres list \<Rightarrow> client \<times> mem \<times> 'u \<Rightarrow> (rdres list \<times> client \<times> mem \<times> 'u) result" where
  "Client_OnEventIOReadable h rx s = Readable_loop h rx s"

end
