(* ===== verification/NetClientSpec.thy ===== *)
theory NetClientSpec
  imports NetClient
begin

text \<open>
  What a connection promises. The receive queue is a byte queue over shared memory: \<open>readv\<close> appends,
  \<open>PopReceive\<close> takes from the front, and writing into the receive pool never changes bytes that were
  already received, because the pool's views are apart from all other views of their chunks.
\<close>

section \<open>Views that do not overlap\<close>

definition apart :: "refchunk \<Rightarrow> refchunk \<Rightarrow> bool" where
  "apart r x \<longleftrightarrow> rm_chunk r = None \<or> rm_chunk r \<noteq> rm_chunk x \<or>
     rm_data r + rm_count r \<le> rm_data x \<or> rm_data x + rm_count x \<le> rm_data r"

definition subview :: "refchunk \<Rightarrow> refchunk \<Rightarrow> bool" where
  "subview x r \<longleftrightarrow> rm_chunk x = rm_chunk r \<and> rm_data r \<le> rm_data x \<and>
     rm_data x + rm_count x \<le> rm_data r + rm_count r"

lemma apart_sym: "apart r x \<longleftrightarrow> apart x r"
  by (auto simp: apart_def)

lemma apart_sub: "apart r y \<Longrightarrow> subview x r \<Longrightarrow> apart x y"
  by (auto simp: apart_def subview_def)

lemma subview_refl [simp]: "subview r r"
  by (simp add: subview_def)

lemma chunk_save_spec:
  fixes bs :: bytes
  assumes wf: "rm_wf m r" and len: "length bs \<le> rm_count r"
  shows "\<exists>m'. chunk_save (rm_chunk r) (rm_data r) bs m = Inr m' \<and>
    ref_bytes m' r = overwrite (ref_bytes m r) 0 bs \<and> (\<forall>x. rm_wf m' x = rm_wf m x) \<and>
    (\<forall>x. rm_wf m x \<longrightarrow> apart r x \<longrightarrow> ref_bytes m' x = ref_bytes m x) \<and>
    (\<forall>hs. mem_inv m hs \<longrightarrow> mem_inv m' hs) \<and> mp_chunksize m' = mp_chunksize m"
proof (cases "rm_chunk r")
  case None
  then show ?thesis using wf len by (simp add: rm_wf_def chunk_save_def ref_bytes_def)
next
  case (Some c)
  then obtain ch where ch: "ck_store m c = Some ch" and b: "rm_data r + rm_count r \<le> length (ck_data ch)"
    using wf by (auto simp: rm_wf_def split: option.splits)
  let ?d = "overwrite (ck_data ch) (rm_data r) bs"
  let ?m = "m\<lparr>ck_store := (ck_store m)(c \<mapsto> ch\<lparr>ck_data := ?d\<rparr>)\<rparr>"
  have bl: "rm_data r + length bs \<le> length (ck_data ch)" using b len by simp
  then have dl: "length ?d = length (ck_data ch)" by simp
  have eq: "chunk_save (rm_chunk r) (rm_data r) bs m = Inr ?m"
    using Some ch bl by (simp add: chunk_save_def)
  have own: "ref_bytes ?m r = overwrite (ref_bytes m r) 0 bs"
    using Some ch b len take_drop_overwrite_inside [of 0 bs "rm_count r" "rm_data r" "ck_data ch"]
    by (simp add: ref_bytes_def)
  have wfs: "rm_wf ?m x = rm_wf m x" for x
    using ch dl by (auto simp: rm_wf_def split: option.splits)
  have frame: "ref_bytes ?m x = ref_bytes m x" if "rm_wf m x" "apart r x" for x
  proof (cases "rm_chunk x = Some c")
    case True
    then have "rm_data r + rm_count r \<le> rm_data x \<or> rm_data x + rm_count x \<le> rm_data r" using that(2) Some
      by (simp add: apart_def)
    moreover have "rm_data x + rm_count x \<le> length (ck_data ch)"
      using that(1) True ch by (simp add: rm_wf_def)
    ultimately show ?thesis
      using True ch bl len take_drop_overwrite_before [OF bl, of "rm_data x" "rm_count x"]
        take_drop_overwrite_after [OF bl, of "rm_data x" "rm_count x"]
      by (auto simp: ref_bytes_def)
  qed (auto simp: ref_bytes_def split: option.splits)
  show ?thesis
    using eq own wfs frame mem_inv_data [OF _ ch dl] by auto
qed

lemma scatter_spec:
  assumes "all_wf m rs" and "sorted_wrt apart rs" and "length bs \<le> sum_list (map rm_count rs)"
  shows "\<exists>m'. scatter rs bs m = Inr m' \<and> data_bytes m' rs = overwrite (data_bytes m rs) 0 bs \<and>
    (\<forall>x. rm_wf m' x = rm_wf m x) \<and>
    (\<forall>x. rm_wf m x \<longrightarrow> (\<forall>r \<in> set rs. apart r x) \<longrightarrow> ref_bytes m' x = ref_bytes m x) \<and>
    (\<forall>hs. mem_inv m hs \<longrightarrow> mem_inv m' hs) \<and> mp_chunksize m' = mp_chunksize m"
  using assms
proof (induction rs arbitrary: m bs)
  case Nil
  then show ?case by simp
next
  case (Cons r rs)
  show ?case
  proof (cases bs)
    case Nil
    then show ?thesis by simp
  next
    case bs: (Cons b bs1)
    have wf: "rm_wf m r" "all_wf m rs" using Cons.prems(1) by auto
    have len: "length (ref_bytes m r) = rm_count r" by (rule length_ref_bytes [OF wf(1)])
    let ?a = "take (rm_count r) bs" and ?z = "drop (rm_count r) bs"
    obtain m1 where s: "chunk_save (rm_chunk r) (rm_data r) ?a m = Inr m1"
        "ref_bytes m1 r = overwrite (ref_bytes m r) 0 ?a" "\<forall>x. rm_wf m1 x = rm_wf m x"
        "\<forall>x. rm_wf m x \<longrightarrow> apart r x \<longrightarrow> ref_bytes m1 x = ref_bytes m x"
        "\<forall>hs. mem_inv m hs \<longrightarrow> mem_inv m1 hs" "mp_chunksize m1 = mp_chunksize m"
      using chunk_save_spec [OF wf(1), of ?a] by auto
    have "length ?z \<le> sum_list (map rm_count rs)" using Cons.prems(3) by simp
    from Cons.IH [OF _ _ this, of m1] obtain m2 where t: "scatter rs ?z m1 = Inr m2"
        "data_bytes m2 rs = overwrite (data_bytes m1 rs) 0 ?z" "\<forall>x. rm_wf m2 x = rm_wf m1 x"
        "\<forall>x. rm_wf m1 x \<longrightarrow> (\<forall>r \<in> set rs. apart r x) \<longrightarrow> ref_bytes m2 x = ref_bytes m1 x"
        "\<forall>hs. mem_inv m1 hs \<longrightarrow> mem_inv m2 hs" "mp_chunksize m2 = mp_chunksize m1"
      using wf s(3) Cons.prems(2) by auto
    have "data_bytes m1 rs = data_bytes m rs"
      using s(4) wf(2) Cons.prems(2) unfolding data_bytes_def by (auto intro!: arg_cong [where f = concat])
    moreover have "ref_bytes m2 r = ref_bytes m1 r"
      using t(4) s(3) wf(1) Cons.prems(2) apart_sym by auto
    moreover have "overwrite (ref_bytes m r @ data_bytes m rs) 0 bs
        = overwrite (ref_bytes m r) 0 ?a @ overwrite (data_bytes m rs) 0 ?z"
    proof (cases "length bs \<le> rm_count r")
      case True
      then show ?thesis using len by (simp add: overwrite_append)
    next
      case False
      then show ?thesis using len overwrite_append_split [of 0 "ref_bytes m r" bs] by simp
    qed
    ultimately have "data_bytes m2 (r # rs) = overwrite (data_bytes m (r # rs)) 0 bs"
      using s(2) t(2) by simp
    moreover have "scatter (r # rs) bs m = Inr m2" using s(1) t(1) bs by simp
    ultimately show ?thesis using s(3-6) t(3-6) by auto
  qed
qed

section \<open>Taking views from the front of a queue\<close>

definition keeps :: "mem \<Rightarrow> refchunk list \<Rightarrow> mem \<Rightarrow> bool" where
  "keeps m hs m' \<longleftrightarrow> (\<forall>c. 0 < held hs c \<longrightarrow> data_of m' c = data_of m c) \<and> mp_chunksize m' = mp_chunksize m"

lemma keeps_bytes:
  assumes "keeps m hs m'" and "\<forall>x \<in> set xs. rm_chunk x \<in> rm_chunk ` set hs"
  shows "data_bytes m' xs = data_bytes m xs"
proof -
  have "ref_bytes m' x = ref_bytes m x" if x: "x \<in> set xs" for x
  proof (rule ref_bytes_cong)
    fix c
    assume "rm_chunk x = Some c"
    moreover obtain r where "r \<in> set hs" "rm_chunk r = rm_chunk x" using assms(2) x by force
    ultimately show "data_of m' c = data_of m c" using assms(1) held_pos by (auto simp: keeps_def)
  qed
  then show ?thesis unfolding data_bytes_def by (metis map_eq_conv)
qed

lemma held_pos_iff: "0 < held hs c \<longleftrightarrow> Some c \<in> rm_chunk ` set hs"
  by (induction hs) auto

lemma keeps_trans:
  assumes "keeps m hs m1" and "keeps m1 hs1 m2" and "\<forall>c. 0 < held hs c \<longrightarrow> 0 < held hs1 c"
  shows "keeps m hs m2"
  using assms by (auto simp: keeps_def)

lemma copy_then_destroy:
  assumes inv: "mem_inv m (ck # hs)" and len: "length hs + 2 < 4294967296"
  shows "\<exists>m1 m2. RefMemoryChunk_copy ck m = Inr (ck, m1) \<and> RefMemoryChunk_destroy ck m1 = Inr m2 \<and>
     mem_inv m2 (ck # hs) \<and> keeps m (ck # hs) m2"
proof -
  obtain m1 where c: "RefMemoryChunk_copy ck m = Inr (ck, m1)" "mem_inv m1 (ck # ck # hs)" "data_of m1 = data_of m"
      "mp_chunksize m1 = mp_chunksize m"
    using copy_inv [OF inv, of ck] len by auto
  obtain m2 where "RefMemoryChunk_destroy ck m1 = Inr m2" "mem_inv m2 (ck # hs)"
      "\<forall>c. 0 < held (ck # hs) c \<longrightarrow> data_of m2 c = data_of m1 c" "mp_chunksize m2 = mp_chunksize m1"
    using ReleaseChunk_inv [OF c(2)] by blast
  then show ?thesis using c by (auto simp: keeps_def)
qed

lemma split_view:
  assumes inv: "mem_inv m (ck # hs)" and n: "0 < n" "n < rm_count ck" and len: "length hs + 2 < 4294967296"
  shows "\<exists>m1 d ck'. RefMemoryChunk_copy ck m = Inr (ck, m1) \<and> RefMemoryChunk_ShrinkCount ck (rm_count ck - n) = Inr d \<and>
     RefMemoryChunk_ForwardOffset ck n = Inr ck' \<and> mem_inv m1 (d # ck' # hs) \<and> data_of m1 = data_of m \<and>
     mp_chunksize m1 = mp_chunksize m \<and> ref_bytes m d = take n (ref_bytes m ck) \<and> ref_bytes m ck' = drop n (ref_bytes m ck) \<and>
     subview d ck \<and> subview ck' ck \<and> apart d ck' \<and> rm_pos d = 0 \<and> rm_pos ck' = 0 \<and> rm_count d = n \<and> rm_count ck' = rm_count ck - n"
proof -
  let ?d = "ck\<lparr>rm_count := n, rm_pos := 0\<rparr>"
  let ?c = "ck\<lparr>rm_data := rm_data ck + n, rm_count := rm_count ck - n, rm_pos := 0\<rparr>"
  obtain m1 where c: "RefMemoryChunk_copy ck m = Inr (ck, m1)" "mem_inv m1 (ck # ck # hs)" "data_of m1 = data_of m"
      "mp_chunksize m1 = mp_chunksize m"
    using copy_inv [OF inv, of ck] len by auto
  have sh: "RefMemoryChunk_ShrinkCount ck (rm_count ck - n) = Inr ?d"
    using n by (simp add: RefMemoryChunk_ShrinkCount_def RefMemoryChunk_Reset_def assertE_def)
  have fw: "RefMemoryChunk_ForwardOffset ck n = Inr ?c"
    using n by (simp add: RefMemoryChunk_ForwardOffset_def RefMemoryChunk_Reset_def assertE_def)
  have wf: "rm_wf m1 ck" using c(2) by (simp add: mem_inv_def)
  have "mem_inv m1 ([] @ ?d # ck # hs)"
    using mem_inv_move [of m1 "[]" ck "ck # hs" ?d] c(2) view_moves_wf(1) [OF wf sh] by simp
  then have "mem_inv m1 ([?d] @ ?c # hs)"
    using mem_inv_move [of m1 "[?d]" ck hs ?c] view_moves_wf(2) [OF wf fw] by simp
  moreover have "ref_bytes m ?d = take n (ref_bytes m ck)" "ref_bytes m ?c = drop n (ref_bytes m ck)"
    using n by (auto simp: ref_bytes_def min_def drop_take add.commute split: option.splits)
  ultimately show ?thesis
    using c sh fw n by (auto simp: subview_def apart_def)
qed

lemma PopReceive_loop_spec:
  assumes "mem_inv m (q @ dst @ hs)" and "length (q @ dst @ hs) + 2 < 4294967296"
    and "\<forall>x \<in> set q. rm_pos x = 0"
  shows "\<exists>q' new m'. PopReceive_loop q dst n tot m = Inr (tot + min n (sum_list (map rm_count q)), q', dst @ new, m') \<and>
    mem_inv m' (q' @ (dst @ new) @ hs) \<and> keeps m (q @ dst @ hs) m' \<and>
    data_bytes m new = take n (data_bytes m q) \<and> data_bytes m q' = drop n (data_bytes m q) \<and>
    (\<forall>x \<in> set (new @ q'). rm_pos x = 0 \<and> (\<exists>r \<in> set q. subview x r)) \<and>
    (sorted_wrt apart q \<longrightarrow> sorted_wrt apart (new @ q')) \<and> length (new @ q') \<le> length q + 1 \<and> length q' \<le> length q"
  using assms
proof (induction q arbitrary: dst n tot m)
  case Nil
  then show ?case by (auto simp: keeps_def)
next
  case (Cons ck q)
  have wf: "rm_wf m ck" using Cons.prems(1) by (simp add: mem_inv_def)
  have len: "length (ref_bytes m ck) = rm_count ck" by (rule length_ref_bytes [OF wf])
  have inv: "mem_inv m (ck # (q @ dst @ hs))" using Cons.prems(1) by simp
  have ln: "length (q @ dst @ hs) + 2 < 4294967296" using Cons.prems(2) by simp
  consider "n = 0" | "0 < n" "rm_count ck \<le> n" | "0 < n" "n < rm_count ck" by linarith
  then show ?case
  proof cases
    case 1
    have "\<forall>x \<in> set (ck # q). rm_pos x = 0 \<and> (\<exists>r \<in> set (ck # q). subview x r)"
      using Cons.prems(3) subview_refl by blast
    then show ?thesis
      using 1 Cons.prems(1) by - (rule exI [of _ "ck # q"], rule exI [of _ "[]"], rule exI [of _ m], simp add: keeps_def)
  next
    case 2
    obtain m1 m2 where c: "RefMemoryChunk_copy ck m = Inr (ck, m1)" "RefMemoryChunk_destroy ck m1 = Inr m2"
        "mem_inv m2 (ck # (q @ dst @ hs))" "keeps m (ck # (q @ dst @ hs)) m2"
      using copy_then_destroy [OF inv ln] by blast
    have "mem_inv m2 (q @ (dst @ [ck]) @ hs)" by (rule mem_inv_perm [OF c(3)]) simp
    from Cons.IH [OF this, of "n - rm_count ck" "tot + rm_count ck"] Cons.prems(2,3) obtain q' new m' where
      r: "PopReceive_loop q (dst @ [ck]) (n - rm_count ck) (tot + rm_count ck) m2
          = Inr (tot + rm_count ck + min (n - rm_count ck) (sum_list (map rm_count q)), q', (dst @ [ck]) @ new, m')"
        "mem_inv m' (q' @ ((dst @ [ck]) @ new) @ hs)" "keeps m2 (q @ (dst @ [ck]) @ hs) m'"
        "data_bytes m2 new = take (n - rm_count ck) (data_bytes m2 q)"
        "data_bytes m2 q' = drop (n - rm_count ck) (data_bytes m2 q)"
        "\<forall>x \<in> set (new @ q'). rm_pos x = 0 \<and> (\<exists>r \<in> set q. subview x r)"
        "sorted_wrt apart q \<longrightarrow> sorted_wrt apart (new @ q')" "length (new @ q') \<le> length q + 1" "length q' \<le> length q"
      by auto
    have sub: "\<forall>x \<in> set (new @ q'). rm_chunk x \<in> rm_chunk ` set (ck # (q @ dst @ hs))"
      using r(6) by (auto simp: subview_def)
    have b: "data_bytes m2 new = data_bytes m new" "data_bytes m2 q' = data_bytes m q'" "data_bytes m2 q = data_bytes m q"
      by (rule keeps_bytes [OF c(4)], use sub in auto)+
    have "\<forall>x \<in> set (new @ q'). apart ck x" if "sorted_wrt apart (ck # q)"
      using that r(6) apart_sub apart_sym by (metis sorted_wrt.simps(2))
    then have srt: "sorted_wrt apart (ck # q) \<longrightarrow> sorted_wrt apart ((ck # new) @ q')" using r(7) by simp
    have "tot + rm_count ck + min (n - rm_count ck) (sum_list (map rm_count q)) = tot + min n (sum_list (map rm_count (ck # q)))"
      using 2 by simp
    moreover have "keeps m ((ck # q) @ dst @ hs) m'"
      using keeps_trans [OF c(4) r(3)] by (simp split: if_splits)
    ultimately show ?thesis
      using 2 c(1,2) r b srt len Cons.prems(3)
      by - (rule exI [of _ q'], rule exI [of _ "ck # new"], rule exI [of _ m'], auto)
  next
    case 3
    obtain m1 d ck' where s: "RefMemoryChunk_copy ck m = Inr (ck, m1)" "RefMemoryChunk_ShrinkCount ck (rm_count ck - n) = Inr d"
        "RefMemoryChunk_ForwardOffset ck n = Inr ck'" "mem_inv m1 (d # ck' # (q @ dst @ hs))" "data_of m1 = data_of m"
        "mp_chunksize m1 = mp_chunksize m" "ref_bytes m d = take n (ref_bytes m ck)" "ref_bytes m ck' = drop n (ref_bytes m ck)"
        "subview d ck" "subview ck' ck" "apart d ck'" "rm_pos d = 0" "rm_pos ck' = 0"
      using split_view [OF inv 3 ln] by blast
    have "mem_inv m1 ((ck' # q) @ (dst @ [d]) @ hs)" by (rule mem_inv_perm [OF s(4)]) simp
    moreover have "sorted_wrt apart (ck # q) \<longrightarrow> sorted_wrt apart ([d] @ (ck' # q))"
      using s(9-11) apart_sub by auto
    moreover have "\<forall>x \<in> set ([d] @ (ck' # q)). rm_pos x = 0 \<and> (\<exists>r \<in> set (ck # q). subview x r)"
    proof
      fix x
      assume "x \<in> set ([d] @ (ck' # q))"
      then consider "x = d" | "x = ck'" | "x \<in> set q" by auto
      then show "rm_pos x = 0 \<and> (\<exists>r \<in> set (ck # q). subview x r)"
        using s(9,10,12,13) Cons.prems(3) by cases (auto intro: bexI [of _ x])
    qed
    ultimately show ?thesis
      using 3 s len by - (rule exI [of _ "ck' # q"], rule exI [of _ "[d]"], rule exI [of _ m1], simp add: keeps_def)
  qed
qed

lemma recv_move_pop:
  "tot \<le> sum_list (map rm_count p) \<Longrightarrow>
     recv_move tot p q m = bindE (PopReceive_loop p q tot t m) (\<lambda>(_, p', q', m'). Inr (p', q', m'))"
proof (induction p arbitrary: tot q m t)
  case (Cons ck p)
  show ?case
  proof (cases "0 < tot \<and> rm_count ck \<le> tot")
    case True
    have le: "tot - rm_count ck \<le> sum_list (map rm_count p)" using Cons.prems by simp
    show ?thesis
      using True Cons.IH [OF le, where t = "t + rm_count ck"] by (cases "RefMemoryChunk_copy ck m") (auto simp: bindE_def split: sum.splits)
  next
    case False
    then show ?thesis by (auto simp: bindE_def split: sum.splits)
  qed
qed simp

lemma InvokeSend_pop_spec:
  assumes "mem_inv m (q @ hs)" and "n \<le> sum_list (map rm_count q)"
  shows "\<exists>q' m'. InvokeSend_pop n q m = Inr (q', m') \<and> mem_inv m' (q' @ hs) \<and>
    data_bytes m q' = drop n (data_bytes m q) \<and> keeps m (q' @ hs) m' \<and>
    (\<forall>x \<in> set q'. \<exists>r \<in> set q. subview x r) \<and> ((\<forall>x \<in> set q. 0 < rm_count x) \<longrightarrow> (\<forall>x \<in> set q'. 0 < rm_count x))"
  using assms
proof (induction q arbitrary: n m)
  case Nil
  then show ?case by (simp add: keeps_def)
next
  case (Cons ck q)
  have wf: "rm_wf m ck" using Cons.prems(1) by (simp add: mem_inv_def)
  have len: "length (ref_bytes m ck) = rm_count ck" by (rule length_ref_bytes [OF wf])
  consider "n = 0" | "0 < n" "rm_count ck \<le> n" | "0 < n" "n < rm_count ck" by linarith
  then show ?case
  proof cases
    case 1
    have "\<forall>x \<in> set (ck # q). \<exists>r \<in> set (ck # q). subview x r" using subview_refl by blast
    then show ?thesis using 1 Cons.prems(1) by (simp add: keeps_def)
  next
    case 2
    obtain m1 where c: "RefMemoryChunk_destroy ck m = Inr m1" "mem_inv m1 (q @ hs)" "keeps m (q @ hs) m1"
      using ReleaseChunk_inv [of m ck "q @ hs"] Cons.prems(1) by (auto simp: keeps_def)
    have "n - rm_count ck \<le> sum_list (map rm_count q)" using Cons.prems(2) by simp
    from Cons.IH [OF c(2) this] obtain q' m' where
      r: "InvokeSend_pop (n - rm_count ck) q m1 = Inr (q', m')" "mem_inv m' (q' @ hs)"
        "data_bytes m1 q' = drop (n - rm_count ck) (data_bytes m1 q)" "keeps m1 (q' @ hs) m'"
        "\<forall>x \<in> set q'. \<exists>r \<in> set q. subview x r" "(\<forall>x \<in> set q. 0 < rm_count x) \<longrightarrow> (\<forall>x \<in> set q'. 0 < rm_count x)"
      by blast
    have sub: "rm_chunk ` set q' \<subseteq> rm_chunk ` set q" using r(5) by (auto simp: subview_def)
    have b: "data_bytes m1 q = data_bytes m q" "data_bytes m1 q' = data_bytes m q'"
      by (rule keeps_bytes [OF c(3)], use sub in auto)+
    have "keeps m (q' @ hs) m'"
      using c(3) r(4) sub unfolding keeps_def held_pos_iff by (auto simp: image_Un)
    then show ?thesis using 2 c(1) r b len by auto
  next
    case 3
    let ?c = "ck\<lparr>rm_data := rm_data ck + n, rm_count := rm_count ck - n, rm_pos := 0\<rparr>"
    have fw: "RefMemoryChunk_ForwardOffset ck n = Inr ?c"
      using 3 by (simp add: RefMemoryChunk_ForwardOffset_def RefMemoryChunk_Reset_def assertE_def)
    have "mem_inv m (?c # q @ hs)"
      using mem_inv_move [of m "[]" ck "q @ hs" ?c] Cons.prems(1) view_moves_wf(2) [OF wf fw] by simp
    moreover have "ref_bytes m ?c = drop n (ref_bytes m ck)"
      using 3 by (auto simp: ref_bytes_def drop_take add.commute split: option.splits)
    moreover have "subview ?c ck" using 3 by (simp add: subview_def)
    then have "\<forall>x \<in> set (?c # q). \<exists>r \<in> set (ck # q). subview x r" using subview_refl by (metis list.set_intros set_ConsD)
    ultimately show ?thesis using 3 fw len by (simp add: keeps_def)
  qed
qed

section \<open>The connection's invariant\<close>

lemma distinct_map_iff_sorted: "distinct (map f xs) \<longleftrightarrow> sorted_wrt (\<lambda>x y. f x \<noteq> f y) xs"
  by (induction xs) auto


text \<open>\<open>hs\<close> are the views held outside of the connection.\<close>

abbreviation all_views :: "client \<Rightarrow> refchunk list \<Rightarrow> refchunk list" where
  "all_views c hs \<equiv> cl_recvp c @ cl_recvq c @ cl_sendq c @ hs"

definition net_inv :: "mem \<Rightarrow> refchunk list \<Rightarrow> client \<Rightarrow> bool" where
  [inv_defs]: "net_inv m hs c \<longleftrightarrow> mem_inv m (all_views c hs) \<and> sorted_wrt apart (cl_recvp c) \<and>
     (\<forall>r \<in> set (cl_recvp c). \<forall>x \<in> set (cl_recvq c @ cl_sendq c @ hs). apart r x) \<and>
     (\<forall>x \<in> set (cl_recvp c @ cl_recvq c). rm_pos x = 0) \<and> cl_recvq_count c = sum_list (map rm_count (cl_recvq c)) \<and>
     length (cl_recvp c) \<le> RECVP_SIZE \<and> 0 < mp_chunksize m \<and>
     eventio_ok (cl_io c) \<and> (cl_connect c \<longrightarrow> io_linked (cl_io c))"

definition stream_of :: "mem \<Rightarrow> client \<Rightarrow> bytes" where
  "stream_of m c = data_bytes m (cl_recvq c)"

lemma net_inv_wf: "net_inv m hs c \<Longrightarrow> all_wf m (all_views c hs)"
  by (auto simp: net_inv_def mem_inv_def)

lemma length_stream_of: "net_inv m hs c \<Longrightarrow> length (stream_of m c) = cl_recvq_count c"
  using length_data_bytes [of "cl_recvq c" m] by (simp add: stream_of_def net_inv_def mem_inv_def)

lemma CopyReceive_loop_spec:
  assumes "all_wf m q" and "\<forall>x \<in> set q. rm_pos x = 0"
  shows "CopyReceive_loop q n m = Inr (take n (data_bytes m q), q)"
  using assms
proof (induction q arbitrary: n)
  case (Cons r q)
  have wf: "rm_wf m r" "rm_pos r = 0" using Cons.prems by auto
  have len: "length (ref_bytes m r) = rm_count r" by (rule length_ref_bytes [OF wf(1)])
  have "RefMemoryChunk_Reset (r\<lparr>rm_pos := k\<rparr>) = r" for k
    using wf(2) by (cases r) (simp add: RefMemoryChunk_Reset_def)
  then show ?case
    using Cons len Read_eq [OF wf(1), of n] wf(2) by (auto simp: min_def)
qed simp

lemma CopyReceive_spec:
  assumes "net_inv m hs c"
  shows "Client_CopyReceive n m c = Inr (take n (stream_of m c), c)"
  using CopyReceive_loop_spec [of "cl_recvq c" m n] assms net_inv_wf [OF assms]
  by (simp add: Client_CopyReceive_def stream_of_def net_inv_def)

lemma PopReceive_spec:
  assumes inv: "net_inv m hs c" and len: "length (all_views c hs) + 2 < 4294967296"
  shows "\<exists>dst c' m'. Client_PopReceive [] n (c, m) = Inr (min n (length (stream_of m c)), dst, c', m') \<and>
     net_inv m' (dst @ hs) c' \<and> data_bytes m' dst = take n (stream_of m c) \<and> stream_of m' c' = drop n (stream_of m c) \<and>
     cl_connect c' = cl_connect c \<and> cl_io c' = cl_io c \<and> cl_sendq c' = cl_sendq c \<and> cl_recvp c' = cl_recvp c \<and>
     keeps m (all_views c hs) m' \<and> length (dst @ cl_recvq c') \<le> length (cl_recvq c) + 1 \<and>
     length (cl_recvq c') \<le> length (cl_recvq c) \<and> (\<forall>x \<in> set dst. rm_pos x = 0)"
proof -
  let ?q = "cl_recvq c" and ?hs = "cl_recvp c @ cl_sendq c @ hs"
  have p: "mset (all_views c hs) = mset (?q @ [] @ ?hs)" by simp
  have i: "mem_inv m (?q @ [] @ ?hs)" "\<forall>x \<in> set ?q. rm_pos x = 0"
    using inv mem_inv_perm [OF _ p] by (auto simp: net_inv_def)
  have l: "length (?q @ [] @ ?hs) + 2 < 4294967296" using len by simp
  obtain q' new m' where
    r: "PopReceive_loop ?q [] n 0 m = Inr (0 + min n (sum_list (map rm_count ?q)), q', [] @ new, m')"
      "mem_inv m' (q' @ ([] @ new) @ ?hs)" "keeps m (?q @ [] @ ?hs) m'"
      "data_bytes m new = take n (data_bytes m ?q)" "data_bytes m q' = drop n (data_bytes m ?q)"
      "\<forall>x \<in> set (new @ q'). rm_pos x = 0 \<and> (\<exists>r \<in> set ?q. subview x r)"
      "length (new @ q') \<le> length ?q + 1" "length q' \<le> length ?q"
    using PopReceive_loop_spec [OF i(1) l i(2), of n 0] by blast
  let ?c = "c\<lparr>cl_recvq := q', cl_recvq_count := cl_recvq_count c - min n (sum_list (map rm_count ?q))\<rparr>"
  have eq: "Client_PopReceive [] n (c, m) = Inr (min n (sum_list (map rm_count ?q)), new, ?c, m')"
    using r(1) by (simp add: Client_PopReceive_def)
  have k: "keeps m (all_views c hs) m'" using r(3) held_perm [OF p] by (simp add: keeps_def)
  have sub: "\<forall>x \<in> set (new @ q'). rm_chunk x \<in> rm_chunk ` set (all_views c hs)"
    using r(6) by (force simp: subview_def)
  have b: "data_bytes m' new = data_bytes m new" "data_bytes m' q' = data_bytes m q'"
    by (rule keeps_bytes [OF k], use sub in auto)+
  have "mset (q' @ ([] @ new) @ ?hs) = mset (all_views ?c (new @ hs))" by simp
  then have mi: "mem_inv m' (all_views ?c (new @ hs))" by (rule mem_inv_perm [OF r(2)])
  have ap: "\<forall>r \<in> set (cl_recvp c). \<forall>x \<in> set (new @ q'). apart r x"
    using inv r(6) apart_sub apart_sym unfolding net_inv_def by (metis UnI1 set_append)
  have wf': "all_wf m' q'" "all_wf m ?q" using r(2) i(1) by (auto simp: mem_inv_def)
  have "sum_list (map rm_count q') = sum_list (map rm_count ?q) - n"
    using arg_cong [OF r(5), of length] b(2) length_data_bytes [OF wf'(1)] length_data_bytes [OF wf'(2)] by simp
  moreover have "cl_recvq_count c = sum_list (map rm_count ?q)" using inv by (simp add: net_inv_def)
  ultimately have cnt: "sum_list (map rm_count q') = cl_recvq_count c - min n (sum_list (map rm_count ?q))"
    by linarith
  have "net_inv m' (new @ hs) ?c"
    using inv mi ap r(3,6) cnt by (auto simp: net_inv_def keeps_def)
  moreover have "length (stream_of m c) = sum_list (map rm_count ?q)"
    using length_data_bytes [OF wf'(2)] by (simp add: stream_of_def)
  ultimately show ?thesis using eq b r k by (auto simp: stream_of_def)
qed

lemma refill_spec:
  assumes inv: "net_inv m hs c" and len: "length (all_views c hs) + 22 < 4294967296"
  shows "\<exists>c' m'. Client_refill (c, m) = Inr (c', m') \<and> net_inv m' hs c' \<and> stream_of m' c' = stream_of m c \<and>
     length (cl_recvp c') = RECVP_SIZE \<and> cl_recvq c' = cl_recvq c \<and> cl_sendq c' = cl_sendq c \<and> cl_io c' = cl_io c \<and>
     cl_connect c' = cl_connect c \<and> keeps m (all_views c hs) m' \<and> cl_recvp c' \<noteq> []"
proof (cases "length (cl_recvp c) < RECVP_SIZE")
  case False
  then have "length (cl_recvp c) = RECVP_SIZE" using inv by (simp add: net_inv_def)
  then show ?thesis using False inv by (auto simp: Client_refill_def keeps_def RECVP_SIZE_def)
next
  case True
  let ?n = "RECVP_SIZE - length (cl_recvp c)"
  have mi: "mem_inv m (all_views c hs)" using inv by (simp add: net_inv_def)
  have "length (all_views c hs) + Suc ?n < 4294967296" using len by (simp add: RECVP_SIZE_def)
  from Aquire_inv [OF mi this, of "cl_recvp c"] obtain rs m' where
    r: "MemoryPool_Aquire (cl_recvp c) ?n m = Inr (cl_recvp c @ rs, m')" "length rs = ?n"
      "mem_inv m' (rs @ all_views c hs)" "distinct (map rm_chunk rs)"
      "\<forall>r \<in> set rs. whole_view m r \<and> rm_chunk r \<notin> rm_chunk ` set (all_views c hs)"
      "\<forall>c'. 0 < held (all_views c hs) c' \<longrightarrow> data_of m' c' = data_of m c'" "mp_chunksize m' = mp_chunksize m"
    by blast
  let ?c = "c\<lparr>cl_recvp := cl_recvp c @ rs\<rparr>"
  have k: "keeps m (all_views c hs) m'" using r(6,7) by (simp add: keeps_def)
  have "sorted_wrt (\<lambda>x y. rm_chunk x \<noteq> rm_chunk y) rs" using r(4) by (simp add: distinct_map_iff_sorted)
  then have "sorted_wrt apart rs" by (rule sorted_wrt_mono_rel [rotated]) (simp add: apart_def)
  moreover have new: "apart x r \<and> apart r x" if "r \<in> set rs" "x \<in> set (all_views c hs)" for r x
    using that r(5) by (metis apart_def imageI)
  ultimately have "sorted_wrt apart (cl_recvp c @ rs)" using inv by (auto simp: net_inv_def sorted_wrt_append)
  moreover have "mem_inv m' (all_views ?c hs)" by (rule mem_inv_perm [OF r(3)]) simp
  ultimately have "net_inv m' hs ?c"
    using inv new r(2,5,7) True by (auto simp: net_inv_def whole_view_def)
  moreover have "stream_of m' ?c = stream_of m c"
    unfolding stream_of_def using keeps_bytes [OF k, of "cl_recvq c"] by simp
  ultimately show ?thesis using r(1,2) True k by (auto simp: Client_refill_def)
qed

lemma take_in_spec:
  assumes inv: "net_inv m hs c" and bs: "length bs \<le> sum_list (map rm_count (cl_recvp c))"
    and len: "length (all_views c hs) + 2 < 4294967296"
  shows "\<exists>c' m'. Client_take_in bs (c, m) = Inr (c', m') \<and> net_inv m' hs c' \<and> stream_of m' c' = stream_of m c @ bs \<and>
     data_bytes m' hs = data_bytes m hs \<and> data_bytes m' (cl_sendq c) = data_bytes m (cl_sendq c) \<and>
     cl_sendq c' = cl_sendq c \<and> cl_io c' = cl_io c \<and> cl_connect c' = cl_connect c \<and>
     length (all_views c' hs) \<le> length (all_views c hs) + 1"
proof -
  let ?p = "cl_recvp c" and ?q = "cl_recvq c" and ?hs = "cl_sendq c @ hs"
  have iov: "Client_Recvp2IOVec c = ?p"
    using inv by (simp add: Client_Recvp2IOVec_def RECVIOV_SIZE_def net_inv_def RECVP_SIZE_def)
  have wf: "all_wf m (all_views c hs)" by (rule net_inv_wf [OF inv])
  have i: "mem_inv m (?p @ ?q @ ?hs)" "sorted_wrt apart ?p" "\<forall>x \<in> set ?p. rm_pos x = 0"
      "\<forall>r \<in> set ?p. \<forall>x \<in> set (?q @ ?hs). apart r x"
    using inv by (auto simp: net_inv_def)
  obtain m1 where s: "scatter ?p bs m = Inr m1" "data_bytes m1 ?p = overwrite (data_bytes m ?p) 0 bs"
      "\<forall>x. rm_wf m x \<longrightarrow> (\<forall>r \<in> set ?p. apart r x) \<longrightarrow> ref_bytes m1 x = ref_bytes m x"
      "\<forall>hs. mem_inv m hs \<longrightarrow> mem_inv m1 hs" "mp_chunksize m1 = mp_chunksize m"
    using scatter_spec [OF _ i(2) bs, of m] wf by auto
  have old: "data_bytes m1 xs = data_bytes m xs" if "set xs \<subseteq> set (?q @ ?hs)" for xs
  proof -
    have "ref_bytes m1 x = ref_bytes m x" if "x \<in> set xs" for x
      using that \<open>set xs \<subseteq> _\<close> s(3) i(4) wf by auto
    then show ?thesis unfolding data_bytes_def by (metis map_eq_conv)
  qed
  have i1: "mem_inv m1 (?p @ ?q @ ?hs)" using s(4) i(1) by blast
  have l: "length (?p @ ?q @ ?hs) + 2 < 4294967296" using len by simp
  obtain p' new m' where
    r: "PopReceive_loop ?p ?q (length bs) 0 m1 = Inr (0 + min (length bs) (sum_list (map rm_count ?p)), p', ?q @ new, m')"
      "mem_inv m' (p' @ (?q @ new) @ ?hs)" "keeps m1 (?p @ ?q @ ?hs) m'"
      "data_bytes m1 new = take (length bs) (data_bytes m1 ?p)" "data_bytes m1 p' = drop (length bs) (data_bytes m1 ?p)"
      "\<forall>x \<in> set (new @ p'). rm_pos x = 0 \<and> (\<exists>r \<in> set ?p. subview x r)"
      "sorted_wrt apart ?p \<longrightarrow> sorted_wrt apart (new @ p')" "length (new @ p') \<le> length ?p + 1" "length p' \<le> length ?p"
    using PopReceive_loop_spec [OF i1 l i(3), of "length bs" 0] by blast
  let ?c = "c\<lparr>cl_recvp := p', cl_recvq := ?q @ new, cl_recvq_count := cl_recvq_count c + length bs\<rparr>"
  have eq: "Client_take_in bs (c, m) = Inr (?c, m')"
    using s(1) r(1) recv_move_pop [OF bs, of ?q m1 0] by (simp add: Client_take_in_def iov)
  have sub: "\<forall>x \<in> set (new @ p'). rm_chunk x \<in> rm_chunk ` set (?p @ ?q @ ?hs)"
    using r(6) by (force simp: subview_def)
  have b: "data_bytes m' new = bs"
    using keeps_bytes [OF r(3), of new] sub r(4) s(2) by (simp add: overwrite_def)
  have rest: "data_bytes m' xs = data_bytes m xs" if "set xs \<subseteq> set (?q @ ?hs)" for xs
    using keeps_bytes [OF r(3), of xs] old [OF that] that by auto
  have ap: "\<forall>r \<in> set p'. \<forall>x \<in> set (?q @ ?hs). apart r x" using i(4) r(6) apart_sub by (metis UnI2 set_append)
  have ap2: "sorted_wrt apart p'" "\<forall>r \<in> set p'. \<forall>x \<in> set new. apart r x"
    using r(7) i(2) apart_sym by (auto simp: sorted_wrt_append)
  have "all_wf m' new" using r(2) by (auto simp: mem_inv_def)
  then have "sum_list (map rm_count new) = length bs" using length_data_bytes [of new m'] b by simp
  then have "net_inv m' hs ?c"
    using inv r(2,3,6,9) ap ap2 s(5) by (auto simp: net_inv_def keeps_def)
  moreover have "stream_of m' ?c = stream_of m c @ bs" using b rest [of ?q] by (simp add: stream_of_def)
  ultimately show ?thesis using eq rest [of hs] rest [of "cl_sendq c"] r(8) by auto
qed

section \<open>Sending\<close>

definition send_inv :: "mem \<Rightarrow> refchunk list \<Rightarrow> client \<Rightarrow> bool" where
  [inv_defs]: "send_inv m hs c \<longleftrightarrow> mem_inv m (cl_sendq c @ hs) \<and> eventio_ok (cl_io c) \<and> io_linked (cl_io c)"

definition unsent :: "mem \<Rightarrow> client \<Rightarrow> bytes" where
  "unsent m c = data_bytes m (cl_sendq c)"

lemma iovec_prefix:
  assumes "all_wf m q" and "n \<le> sum_list (map rm_count (take k q))"
  shows "take n (concat (map (ref_bytes m) (take k q))) = take n (data_bytes m q)" and "n \<le> sum_list (map rm_count q)"
proof -
  have "data_bytes m q = data_bytes m (take k q) @ data_bytes m (drop k q)"
    by (metis append_take_drop_id data_bytes_simps(3))
  moreover have "length (data_bytes m (take k q)) = sum_list (map rm_count (take k q))"
    using assms(1) by (intro length_data_bytes) (auto dest: in_set_takeD)
  ultimately show "take n (concat (map (ref_bytes m) (take k q))) = take n (data_bytes m q)"
    using assms(2) by (simp add: data_bytes_def)
  have "sum_list (map rm_count q) = sum_list (map rm_count (take k q)) + sum_list (map rm_count (drop k q))"
    by (metis append_take_drop_id map_append sum_list_append)
  then show "n \<le> sum_list (map rm_count q)" using assms(2) by simp
qed

lemma InvokeSend_loop_spec:
  assumes "send_inv m hs c"
  shows "\<exists>ev c' m'. InvokeSend_loop b (c, m) = Inr (ev, c', m') \<and> send_inv m' hs c' \<and>
     cl_wire c' @ unsent m' c' = cl_wire c @ unsent m c \<and> data_bytes m' hs = data_bytes m hs \<and>
     cl_recvq c' = cl_recvq c \<and> cl_recvp c' = cl_recvp c \<and> cl_connect c' = cl_connect c \<and> cl_recvq_count c' = cl_recvq_count c \<and>
     mp_chunksize m' = mp_chunksize m"
  using assms
proof (induction b "(c, m)" arbitrary: c m rule: InvokeSend_loop.induct)
  case (1 sendevt c m)
  let ?iov = "Client_Sendq2IOVec c"
  obtain rc tx where w: "kernel_writev (io_fd (cl_io c)) (sum_list (map rm_count ?iov)) (cl_tx c) = (rc, tx)"
    by fastforce
  let ?c1 = "c\<lparr>cl_tx := tx\<rparr>"
  have io: "eventio_ok (cl_io c)" "io_linked (cl_io c)" using "1.prems" by (auto simp: send_inv_def)
  show ?case
  proof (cases "?iov = []")
    case True
    then show ?thesis using "1.prems" by (subst InvokeSend_loop.simps) (auto simp: Let_def)
  next
    case False
    show ?thesis
    proof (cases rc)
      case (WrSent n)
      show ?thesis
      proof (cases "n > 0")
        case True
        have mi: "mem_inv m (cl_sendq c @ hs)" using "1.prems" by (simp add: send_inv_def)
        have wf: "all_wf m (cl_sendq c)" using mi by (auto simp: mem_inv_def)
        have le: "n \<le> sum_list (map rm_count (take SENDIOV_SIZE (cl_sendq c)))"
          using kernel_writev_sent [of _ _ _ n tx] w WrSent by (auto simp: Client_Sendq2IOVec_def)
        note pre = iovec_prefix [OF wf le]
        obtain q' m' where p: "InvokeSend_pop n (cl_sendq c) m = Inr (q', m')" "mem_inv m' (q' @ hs)"
            "data_bytes m q' = drop n (data_bytes m (cl_sendq c))" "keeps m (q' @ hs) m'"
          using InvokeSend_pop_spec [OF mi pre(2)] by blast
        let ?c2 = "?c1\<lparr>cl_sendq := q', cl_wire := cl_wire c @ take n (concat (map (ref_bytes m) ?iov))\<rparr>"
        have k: "data_bytes m' q' = data_bytes m q'" "data_bytes m' hs = data_bytes m hs"
          by (rule keeps_bytes [OF p(4)], auto)+
        have "send_inv m' hs ?c2" using p(2) io by (simp add: send_inv_def)
        moreover have "InvokeSend_pop n (cl_sendq ?c1) m = Inr (q', m')" using p(1) by simp
        note hyp = "1.hyps" [OF refl refl False refl w [symmetric] refl WrSent True this refl]
        ultimately obtain ev c' m'' where
          r: "InvokeSend_loop True (?c2, m') = Inr (ev, c', m'')" "send_inv m'' hs c'"
            "cl_wire c' @ unsent m'' c' = cl_wire ?c2 @ unsent m' ?c2" "data_bytes m'' hs = data_bytes m' hs"
            "cl_recvq c' = cl_recvq c" "cl_recvp c' = cl_recvp c" "cl_connect c' = cl_connect c"
            "cl_recvq_count c' = cl_recvq_count c" "mp_chunksize m'' = mp_chunksize m'"
          using hyp by auto
        have "InvokeSend_loop sendevt (c, m) = InvokeSend_loop True (?c2, m')"
          using False w WrSent True p(1) by (subst InvokeSend_loop.simps) (simp add: Let_def)
        moreover have "cl_wire ?c2 @ unsent m' ?c2 = cl_wire c @ unsent m c"
          using pre(1) k p(3) by (simp add: unsent_def Client_Sendq2IOVec_def)
        ultimately show ?thesis using r k p(4) by (auto simp: keeps_def)
      next
        case f: False
        have "InvokeSend_loop sendevt (c, m) = Inr (sendevt, ?c1, m)"
          using False w WrSent f by (subst InvokeSend_loop.simps) (simp add: Let_def)
        then show ?thesis using "1.prems" by (auto simp: send_inv_def unsent_def)
      qed
    next
      case WrAgain
      then have "io_fd (cl_io c) \<noteq> -1" using w by (auto simp: kernel_writev.simps)
      then have "\<not> io_closed (cl_io c)" using io by (auto simp: eventio_ok_def)
      note mod = ModifyIOEvent_ok [OF io this, of "IO_READABLE OR IO_WRITEABLE"]
      let ?io = "(cl_io c)\<lparr>io_evt := IO_READABLE OR IO_WRITEABLE\<rparr>"
      have "InvokeSend_loop sendevt (c, m) = Inr (sendevt, ?c1\<lparr>cl_io := ?io\<rparr>, m)"
        using False w WrAgain mod by (subst InvokeSend_loop.simps) (simp add: Let_def)
      then show ?thesis using "1.prems" mod by (auto simp: send_inv_def unsent_def)
    next
      case WrError
      obtain io' where i: "EventIO_Close (cl_io c) = Inr io'" "eventio_ok io'" "io_linked io' = io_linked (cl_io c)"
        using Close_ok [OF io(1)] by blast
      have "InvokeSend_loop sendevt (c, m) = Inr (sendevt, ?c1\<lparr>cl_io := io'\<rparr>, m)"
        using False w WrError i(1) by (subst InvokeSend_loop.simps) (simp add: Let_def Client_Close_def)
      then show ?thesis using "1.prems" i by (auto simp: send_inv_def unsent_def)
    qed
  qed
qed

lemma push_copies_spec:
  assumes "mem_inv m (q @ hs)" and "set src \<subseteq> set hs" and "length (q @ hs) + length src + 1 < 4294967296"
  shows "\<exists>m'. push_copies q src m = Inr (q @ src, m') \<and> mem_inv m' ((q @ src) @ hs) \<and> data_of m' = data_of m \<and>
     mp_chunksize m' = mp_chunksize m"
  using assms
proof (induction src arbitrary: q m)
  case (Cons r src)
  obtain m1 where c: "RefMemoryChunk_copy r m = Inr (r, m1)" "mem_inv m1 (r # (q @ hs))" "data_of m1 = data_of m"
      "mp_chunksize m1 = mp_chunksize m"
    using copy_inv [OF Cons.prems(1), of r] Cons.prems(2,3) by auto
  have "mem_inv m1 ((q @ [r]) @ hs)" by (rule mem_inv_perm [OF c(2)]) simp
  from Cons.IH [OF this] Cons.prems(2,3) c show ?case by auto
qed simp

section \<open>The read loop\<close>

fun rx_bytes :: "rdres list \<Rightarrow> bytes" where
  "rx_bytes [] = []"
| "rx_bytes (RdData bs # k) = bs @ rx_bytes k"
| "rx_bytes (r # k) = rx_bytes k"

lemma kernel_readv_bytes:
  "kernel_readv fd cap rx = (rc, rx') \<Longrightarrow> rx_bytes rx = (case rc of RdData bs \<Rightarrow> bs | _ \<Rightarrow> []) @ rx_bytes rx'"
  by (auto simp: kernel_readv.simps split: if_splits list.splits rdres.splits)

text \<open>
  A receiver is a subclass whose \<open>OnReceive\<close> takes bytes only from the front of the receive queue.
  \<open>views u\<close> are the views its state holds, \<open>taken u\<close> the bytes it has taken so far, \<open>ready u\<close> what it
  needs of its own state, \<open>cap\<close> the number of queued bytes below which it works.
\<close>

locale receiver =
  fixes h :: "'u hooks" and views :: "'u \<Rightarrow> refchunk list" and taken :: "'u \<Rightarrow> bytes"
    and ready :: "'u \<Rightarrow> bool" and cap :: nat
  assumes receive_law: "ready u \<Longrightarrow> net_inv m (views u) c \<Longrightarrow> length (all_views c (views u)) + 2 < 4294967296 \<Longrightarrow>
    length (stream_of m c) < cap \<Longrightarrow>
    \<exists>c' m' u'. on_receive h (cl_recvq_count c) (c, m, u) = Inr (c', m', u') \<and> ready u' \<and> net_inv m' (views u') c' \<and>
      taken u' @ stream_of m' c' = taken u @ stream_of m c \<and> length (stream_of m' c') \<le> length (stream_of m c) \<and>
      length (all_views c' (views u')) \<le> length (all_views c (views u))"
begin

lemma close_net_inv:
  assumes "net_inv m hs c"
  shows "\<exists>c'. lift_close (c, m, u) = Inr (c', m, u) \<and> net_inv m hs c' \<and> stream_of m c' = stream_of m c"
proof -
  have "eventio_ok (cl_io c)" using assms by (simp add: net_inv_def)
  from Close_ok [OF this] show ?thesis
    using assms by (auto simp: lift_close_def Client_Close_def net_inv_def stream_of_def)
qed

lemma readable:
  assumes "net_inv m (views u) c" and "ready u" and "length (all_views c (views u)) + 22 * (rx_size rx + 1) + 4 < 4294967296"
    and "length (stream_of m c) + length (rx_bytes rx) < cap"
  shows "\<exists>rx' c' m' u' got. Readable_loop h rx (c, m, u) = Inr (rx', c', m', u') \<and> net_inv m' (views u') c' \<and> ready u' \<and>
     rx_bytes rx = got @ rx_bytes rx' \<and> taken u' @ stream_of m' c' = taken u @ stream_of m c @ got"
  using assms
proof (induction "rx_size rx" arbitrary: rx c m u rule: less_induct)
  case (less rx c0 m0 u)
  show ?case
  proof (cases "cl_connect c0 \<and> \<not> Client_closed c0")
    case False
    then show ?thesis using less.prems(1,2) by (subst Readable_loop.simps) auto
  next
    case True
    obtain c m where f: "Client_refill (c0, m0) = Inr (c, m)" "net_inv m (views u) c" "stream_of m c = stream_of m0 c0"
        "length (cl_recvp c) = RECVP_SIZE" "cl_recvq c = cl_recvq c0" "cl_sendq c = cl_sendq c0" "cl_recvp c \<noteq> []"
      using refill_spec [OF less.prems(1)] less.prems(3) by auto
    have iov: "Client_Recvp2IOVec c = cl_recvp c"
      using f(4) by (simp add: Client_Recvp2IOVec_def RECVIOV_SIZE_def RECVP_SIZE_def)
    obtain rc rx' where k: "kernel_readv (io_fd (cl_io c)) (sum_list (map rm_count (cl_recvp c))) rx = (rc, rx')"
      by fastforce
    note rb = kernel_readv_bytes [OF k]
    note step = Readable_loop.simps [of h rx "(c0, m0, u)"]
    obtain cc where cl: "lift_close (c, m, u) = Inr (cc, m, u)" "net_inv m (views u) cc" "stream_of m cc = stream_of m c"
      using close_net_inv [OF f(2), of u] by blast
    consider (data) bs where "rc = RdData bs" "bs \<noteq> []" | (again) "rc = RdAgain"
      | (stop) "rc = RdError \<or> rc = RdEof \<or> rc = RdData []"
      by (cases rc) auto
    then show ?thesis
    proof cases
      case again
      then show ?thesis using step True f(1-3,7) iov k rb less.prems(2) by simp
    next
      case stop
      then have "Readable_loop h rx (c0, m0, u) = Inr (rx', cc, m, u)" "rx_bytes rx = rx_bytes rx'"
        using step True f(1,7) iov k cl(1) rb by auto
      then show ?thesis using cl f(3) less.prems(2) by auto
    next
      case (data bs)
      note kd = kernel_readv_data [OF k [unfolded data(1)] data(2)]
      have l1: "length (all_views c (views u)) + 2 < 4294967296"
        using less.prems(3) f(4-6) by (simp add: RECVP_SIZE_def)
      obtain c1 m1 where t: "Client_take_in bs (c, m) = Inr (c1, m1)" "net_inv m1 (views u) c1"
          "stream_of m1 c1 = stream_of m c @ bs" "length (all_views c1 (views u)) \<le> length (all_views c (views u)) + 1"
        using take_in_spec [OF f(2) conjunct2 [OF kd] l1] by blast
      have l2: "length (all_views c1 (views u)) + 2 < 4294967296"
        using less.prems(3) t(4) f(4-6) by (simp add: RECVP_SIZE_def)
      have rl: "length (rx_bytes rx) = length bs + length (rx_bytes rx')" using rb data(1) by simp
      then have s1: "length (stream_of m1 c1) < cap" using less.prems(4) t(3) f(3) by simp
      obtain c2 m2 u2 where r: "on_receive h (cl_recvq_count c1) (c1, m1, u) = Inr (c2, m2, u2)" "net_inv m2 (views u2) c2" "ready u2"
          "taken u2 @ stream_of m2 c2 = taken u @ stream_of m1 c1"
          "length (all_views c2 (views u2)) \<le> length (all_views c1 (views u))"
        "length (stream_of m2 c2) \<le> length (stream_of m1 c1)"
        using receive_law [OF less.prems(2) t(2) l2 s1] by blast
      have l3: "length (all_views c2 (views u2)) + 22 * (rx_size rx' + 1) + 4 < 4294967296"
        using less.prems(3) r(5) t(4) f(4-6) kd by (simp add: RECVP_SIZE_def)
      obtain rx2 c3 m3 u3 got where e: "Readable_loop h rx' (c2, m2, u2) = Inr (rx2, c3, m3, u3)" "net_inv m3 (views u3) c3" "ready u3"
          "rx_bytes rx' = got @ rx_bytes rx2" "taken u3 @ stream_of m3 c3 = taken u2 @ stream_of m2 c2 @ got"
        using less.hyps [OF conjunct1 [OF kd] r(2,3) l3] less.prems(4) r(6) t(3) f(3) rl by auto
      have "Readable_loop h rx (c0, m0, u) = Inr (rx2, c3, m3, u3)"
        using step True f(1,7) iov k data t(1) r(1) e(1) by simp
      moreover have "rx_bytes rx = (bs @ got) @ rx_bytes rx2" using rb data(1) e(4) by simp
      moreover have "taken u3 @ stream_of m3 c3 = taken u @ stream_of m0 c0 @ (bs @ got)"
        using e(5) r(4) t(3) f(3) by (metis append.assoc)
      ultimately show ?thesis using e(2,3) by blast
    qed
  qed
qed

end

section \<open>Properties of sending\<close>

lemma InvokeSend_loop_drains:
  assumes "send_inv m hs c" and "\<forall>w \<in> set (cl_tx c). \<exists>k > 0. w = WrSent k" and "length (unsent m c) \<le> length (cl_tx c)"
    and "io_fd (cl_io c) \<noteq> -1" and "\<forall>r \<in> set (cl_sendq c). 0 < rm_count r"
  shows "\<exists>ev c' m'. InvokeSend_loop b (c, m) = Inr (ev, c', m') \<and> cl_sendq c' = [] \<and> (unsent m c \<noteq> [] \<longrightarrow> ev) \<and> (b \<longrightarrow> ev)"
  using assms
proof (induction "length (cl_tx c)" arbitrary: b c m rule: less_induct)
  case (less c b m)
  let ?iov = "Client_Sendq2IOVec c"
  have mi: "mem_inv m (cl_sendq c @ hs)" "eventio_ok (cl_io c)" "io_linked (cl_io c)" using less.prems(1) by (auto simp: send_inv_def)
  have wf: "all_wf m (cl_sendq c)" using mi by (auto simp: mem_inv_def)
  show ?case
  proof (cases "cl_sendq c")
    case Nil
    then show ?thesis by (subst InvokeSend_loop.simps) (auto simp: Client_Sendq2IOVec_def unsent_def)
  next
    case (Cons r q)
    let ?s = "sum_list (map rm_count ?iov)"
    have iov: "?iov \<noteq> []" "0 < ?s" using Cons less.prems(5) by (auto simp: Client_Sendq2IOVec_def SENDIOV_SIZE_def)
    have "unsent m c \<noteq> []"
      using Cons less.prems(5) length_data_bytes [OF wf] by (auto simp: unsent_def)
    then obtain k tx where tx: "cl_tx c = WrSent k # tx" "0 < k"
      using less.prems(2,3) by (cases "cl_tx c") auto
    let ?n = "min k ?s"
    have w: "kernel_writev (io_fd (cl_io c)) ?s (cl_tx c) = (WrSent ?n, tx)"
      using tx(1) less.prems(4) by (simp add: kernel_writev.simps)
    have le: "?n \<le> sum_list (map rm_count (take SENDIOV_SIZE (cl_sendq c)))" by (simp add: Client_Sendq2IOVec_def)
    obtain q' m' where p: "InvokeSend_pop ?n (cl_sendq c) m = Inr (q', m')" "mem_inv m' (q' @ hs)"
        "data_bytes m q' = drop ?n (data_bytes m (cl_sendq c))" "keeps m (q' @ hs) m'"
        "(\<forall>x \<in> set (cl_sendq c). 0 < rm_count x) \<longrightarrow> (\<forall>x \<in> set q'. 0 < rm_count x)"
      using InvokeSend_pop_spec [OF mi(1) iovec_prefix(2) [OF wf le]] by blast
    let ?c2 = "c\<lparr>cl_tx := tx, cl_sendq := q', cl_wire := cl_wire c @ take ?n (concat (map (ref_bytes m) ?iov))\<rparr>"
    have "data_bytes m' q' = data_bytes m q'" by (rule keeps_bytes [OF p(4)]) auto
    then have un: "unsent m' ?c2 = drop ?n (unsent m c)" using p(3) by (simp add: unsent_def)
    have n0: "0 < ?n" using tx(2) iov(2) by simp
    have "send_inv m' hs ?c2" using p(2) mi by (simp add: send_inv_def)
    moreover have "length (unsent m' ?c2) = length (unsent m c) - ?n" using un by simp
    then have "length (unsent m' ?c2) \<le> length tx" using n0 less.prems(3) tx(1) by (simp only: list.size)
    ultimately obtain ev c' m'' where r: "InvokeSend_loop True (?c2, m') = Inr (ev, c', m'')" "cl_sendq c' = []" "ev"
      using less.hyps [of ?c2 m' True] less.prems(2,4,5) tx(1) p(5) by auto
    have "InvokeSend_loop b (c, m) = InvokeSend_loop True (?c2, m')"
      using iov(1) w n0 p(1) by (subst InvokeSend_loop.simps) (simp add: Let_def)
    then show ?thesis using r by auto
  qed
qed

lemma PushSend_spec:
  assumes "send_inv m hs c" and "cl_connect c" and "set src \<subseteq> set hs"
    and "length (cl_sendq c @ hs) + length src + 1 < 4294967296"
  shows "\<exists>ev c' m'. Client_PushSend src (c, m) = Inr (ev, c', m') \<and> send_inv m' hs c' \<and>
     cl_wire c' @ unsent m' c' = cl_wire c @ unsent m c @ data_bytes m src \<and> data_bytes m' hs = data_bytes m hs"
proof -
  have mi: "mem_inv m (cl_sendq c @ hs)" using assms(1) by (simp add: send_inv_def)
  obtain m1 where p: "push_copies (cl_sendq c) src m = Inr (cl_sendq c @ src, m1)"
      "mem_inv m1 ((cl_sendq c @ src) @ hs)" "data_of m1 = data_of m"
    using push_copies_spec [OF mi assms(3,4)] by blast
  let ?c = "c\<lparr>cl_sendq := cl_sendq c @ src\<rparr>"
  have "send_inv m1 hs ?c" using assms(1) p(2) by (simp add: send_inv_def)
  from InvokeSend_loop_spec [OF this, of False] obtain ev c' m' where
    r: "InvokeSend_loop False (?c, m1) = Inr (ev, c', m')" "send_inv m' hs c'"
      "cl_wire c' @ unsent m' c' = cl_wire ?c @ unsent m1 ?c" "data_bytes m' hs = data_bytes m1 hs" by blast
  have "Client_PushSend src (c, m) = Inr (ev \<and> cl_sendq c' = [], c', m')"
    using assms(2) p(1) r(1) by (simp add: Client_PushSend_def Client_InvokeSend_def)
  then show ?thesis using r data_of_bytes [OF p(3)] by (auto simp: unsent_def)
qed

text \<open>
  Sending keeps the byte stream. However \<open>writev\<close> cuts its work, and also when it would block or
  fails, \<open>PushSend\<close> ends, and the bytes on the wire followed by the queued ones are the earlier ones
  followed by the bytes pushed; the views of others are untouched.
\<close>

lemma Client_PushSend_wire:
  assumes "send_inv m hs c" and "cl_connect c" and "set src \<subseteq> set hs"
    and "length (cl_sendq c @ hs) + length src + 1 < 4294967296"
  shows "\<exists>ev c' m'. Client_PushSend src (c, m) = Inr (ev, c', m') \<and> send_inv m' hs c' \<and>
     cl_wire c' @ unsent m' c' = cl_wire c @ unsent m c @ data_bytes m src \<and> data_bytes m' hs = data_bytes m hs"
  by (rule PushSend_spec [OF assms])

text \<open>
  C36. Progress. When \<open>writev\<close> accepts at least one byte each time, \<open>InvokeSend\<close> puts everything on the
  wire, empties the queue and reports completion.
\<close>

theorem Client_InvokeSend_drains:
  assumes "send_inv m hs c" and "\<forall>w \<in> set (cl_tx c). \<exists>k > 0. w = WrSent k" and "length (unsent m c) \<le> length (cl_tx c)"
    and "io_fd (cl_io c) \<noteq> -1" and "\<forall>r \<in> set (cl_sendq c). 0 < rm_count r"
  shows "\<exists>c' m'. Client_InvokeSend (c, m) = Inr (unsent m c \<noteq> [], c', m') \<and> cl_sendq c' = [] \<and>
     cl_wire c' = cl_wire c @ unsent m c"
proof -
  obtain ev c' m' where r: "InvokeSend_loop False (c, m) = Inr (ev, c', m')" "cl_sendq c' = []" "unsent m c \<noteq> [] \<longrightarrow> ev"
    using InvokeSend_loop_drains [OF assms, of False] by blast
  have w: "cl_wire c' @ unsent m' c' = cl_wire c @ unsent m c"
    using InvokeSend_loop_spec [OF assms(1), of False] r(1) by auto
  have "unsent m c = [] \<Longrightarrow> cl_sendq c = []"
    using assms(1,5) length_data_bytes [of "cl_sendq c" m] by (auto simp: unsent_def send_inv_def mem_inv_def neq_Nil_conv)
  then have "unsent m c = [] \<Longrightarrow> \<not> ev"
    using r(1) by (subst (asm) InvokeSend_loop.simps) (simp add: Client_Sendq2IOVec_def)
  then show ?thesis using r w by (auto simp: Client_InvokeSend_def unsent_def)
qed

definition pool2 :: mem where
  "pool2 = MemoryPool_new (\<lambda>c i. word_of_nat (65 + c)) 1 2"

definition two_views :: "refchunk list \<times> mem" where
  "two_views = (case MemoryPool_Aquire [] 2 pool2 of Inr s \<Rightarrow> s | Inl _ \<Rightarrow> ([], pool2))"

lemma two_views_inv: "mem_inv (snd two_views) (fst two_views)" "length (fst two_views) = 2"
    "\<forall>r \<in> set (fst two_views). rm_count r = 1" "mp_chunksize (snd two_views) = 1"
proof -
  have i: "mem_inv pool2 []" unfolding pool2_def by (rule MemoryPool_new_inv) simp
  obtain rs m' where a: "MemoryPool_Aquire [] 2 pool2 = Inr ([] @ rs, m')" "length rs = 2" "mem_inv m' (rs @ [])"
      "\<forall>r \<in> set rs. whole_view pool2 r" "mp_chunksize m' = mp_chunksize pool2"
    using Aquire_inv [OF i, of 2 "[]"] by auto
  have c: "mp_chunksize pool2 = 1" by (simp add: pool2_def MemoryPool_new_def numeral_2_eq_2 MemoryChunk_new_def)
  have e: "two_views = (rs, m')" using a(1) by (simp add: two_views_def)
  show "mem_inv (snd two_views) (fst two_views)" "length (fst two_views) = 2"
      "\<forall>r \<in> set (fst two_views). rm_count r = 1" "mp_chunksize (snd two_views) = 1"
    using a(2-5) c by (auto simp: e whole_view_def)
qed

definition sender :: "wrres list \<Rightarrow> refchunk list \<Rightarrow> client" where
  "sender tx q = (Client_new tx)\<lparr>cl_io := EventIO_new\<lparr>io_linked := True, io_fd := 5\<rparr>, cl_connect := True, cl_sendq := q\<rparr>"

lemma Client_PushSend_wire_witness:
  "\<exists>ev c' m'. Client_PushSend (fst two_views) (sender [WrSent 1] [], snd two_views) = Inr (ev, c', m') \<and>
     cl_wire c' @ unsent m' c' = data_bytes (snd two_views) (fst two_views)"
proof -
  have s: "send_inv (snd two_views) (fst two_views) (sender [WrSent 1] [])"
    using two_views_inv(1) by (simp add: send_inv_def sender_def Client_new_def EventIO_new_def eventio_ok_def)
  show ?thesis
    using Client_PushSend_wire [OF s, of "fst two_views"] two_views_inv(2)
    by (auto simp: sender_def Client_new_def unsent_def)
qed

theorem Client_InvokeSend_drains_witness:
  "\<exists>c' m'. Client_InvokeSend (sender [WrSent 1, WrSent 7] (fst two_views), snd two_views) = Inr (True, c', m') \<and>
     cl_sendq c' = [] \<and> length (cl_wire c') = 2"
proof -
  let ?c = "sender [WrSent 1, WrSent 7] (fst two_views)"
  have s: "send_inv (snd two_views) [] ?c"
    using two_views_inv(1) by (simp add: send_inv_def sender_def Client_new_def EventIO_new_def eventio_ok_def)
  have "all_wf (snd two_views) (fst two_views)" using two_views_inv(1) by (simp add: mem_inv_def)
  moreover have "map rm_count (fst two_views) = [1, 1]"
    using two_views_inv(2,3) by (cases "fst two_views" rule: remdups_adj.cases) auto
  ultimately have l: "length (unsent (snd two_views) ?c) = 2"
    using length_data_bytes [of "fst two_views" "snd two_views"] by (simp add: unsent_def sender_def)
  then have "unsent (snd two_views) ?c \<noteq> []" by auto
  then show ?thesis
    using Client_InvokeSend_drains [OF s] l two_views_inv(3)
    by (auto simp: sender_def Client_new_def EventIO_new_def)
qed

text \<open>
  The raw \<open>PopReceive\<close> does not advance its target: popping two one-byte views leaves the second byte
  in the place of the first.
\<close>

definition two_bytes :: mem where
  "two_bytes = \<lparr>mp_chunksize = 1, mp_poolsize = 2, mp_chunks = [],
     ck_store = [0 \<mapsto> \<lparr>ck_data = [65], ck_ref = 1\<rparr>, 1 \<mapsto> \<lparr>ck_data = [66], ck_ref = 1\<rparr>], ck_next = 2, mp_junk = (\<lambda>_ _. 0)\<rparr>"

lemma PopReceive_raw_overwrites:
  "\<exists>c m. Client_PopReceive_raw [0, 0] 2 ((sender [] [])\<lparr>cl_recvq :=
       [\<lparr>rm_chunk = Some 0, rm_data = 0, rm_pos = 0, rm_count = 1\<rparr>, \<lparr>rm_chunk = Some 1, rm_data = 0, rm_pos = 0, rm_count = 1\<rparr>],
       cl_recvq_count := 2\<rparr>, two_bytes) = Inr (2, [66, 0], c, m)"
  by (simp add: Client_PopReceive_raw_def sender_def two_bytes_def RefMemoryChunk_Read_def RefMemoryChunk_FreeCount_def
      chunk_load_def RefMemoryChunk_destroy_def RefMemoryChunk_ReleaseChunk_def MemoryChunk_DecRef_def MemoryChunk_ref_def
      MemoryPool_Release_def overwrite_def Let_def u32_dec_def u32_sub_def)

section \<open>Connections for examples\<close>

text \<open>A connected client with nothing queued, and one with the given bytes in its receive queue.\<close>

definition idle_client :: client where
  "idle_client = (Client_new [])\<lparr>cl_io := EventIO_new\<lparr>io_linked := True, io_fd := 5\<rparr>, cl_connect := True\<rparr>"

definition loaded_client :: "bytes \<Rightarrow> client" where
  "loaded_client bs = idle_client\<lparr>cl_recvq := [\<lparr>rm_chunk = Some 0, rm_data = 0, rm_pos = 0, rm_count = length bs\<rparr>],
     cl_recvq_count := length bs\<rparr>"

definition loaded_mem :: "bytes \<Rightarrow> mem" where
  "loaded_mem bs = \<lparr>mp_chunksize = length bs, mp_poolsize = 0, mp_chunks = [],
     ck_store = [0 \<mapsto> \<lparr>ck_data = bs, ck_ref = 1\<rparr>], ck_next = 1, mp_junk = (\<lambda>_ _. 0)\<rparr>"

lemma MemoryPool_new_chunksize: "mp_chunksize (MemoryPool_new junk cs n) = cs"
proof -
  have "mp_chunksize (MemoryPool_fill n m) = mp_chunksize m" for n m
    by (induction n arbitrary: m) (simp_all add: MemoryChunk_new_def)
  then show ?thesis by (simp add: MemoryPool_new_def)
qed

lemma idle_client_inv: "0 < cs \<Longrightarrow> cs < 4294967296 \<Longrightarrow> net_inv (MemoryPool_new junk cs n) [] idle_client"
  using MemoryPool_new_inv [of cs junk n]
  by (simp add: net_inv_def idle_client_def Client_new_def EventIO_new_def eventio_ok_def MemoryPool_new_chunksize)

lemma loaded_client_inv:
  assumes "bs \<noteq> []" and "length bs < 4294967296"
  shows "net_inv (loaded_mem bs) [] (loaded_client bs)" "stream_of (loaded_mem bs) (loaded_client bs) = bs"
    "length (all_views (loaded_client bs) []) = 1" "io_fd (cl_io (loaded_client bs)) = 5"
  using assms
  by (simp_all add: net_inv_def mem_inv_def rm_wf_def loaded_client_def loaded_mem_def idle_client_def Client_new_def EventIO_new_def
      eventio_ok_def stream_of_def ref_bytes_def)

end
