(* ===== verification/UserClient.thy ===== *)
theory UserClient
  imports Message NetClientSpec
begin

text \<open>
  \<open>base/gateway/userclient.*\<close> and \<open>usersession.*\<close>: a client connection that cuts the received stream
  into packets and hands each to its session. The theorem: whatever the sizes of the pieces the kernel
  delivers, the session receives exactly the packets of the byte stream, each once, in order and whole,
  until the stream is broken or the handler throws, which closes the connection.
\<close>

section \<open>Model\<close>

record 'u userclient =
  uc_session :: bool
  uc_pkthead :: bytes
  uc_user :: 'u

text \<open>
  The session's handler \<open>OnUserClientReceivePacket\<close>: whether it returned normally (an exception
  otherwise) and the state it leaves.
\<close>

type_synonym 'u handler = "packetin \<Rightarrow> client \<times> mem \<times> 'u \<Rightarrow> (bool \<times> client \<times> mem \<times> 'u) result"

definition UserClient_SetSession :: "'u userclient \<Rightarrow> 'u userclient" where
  "UserClient_SetSession uc = uc\<lparr>uc_session := True\<rparr>"

definition UserClient_ResetSession :: "'u userclient \<Rightarrow> 'u userclient" where
  "UserClient_ResetSession uc = uc\<lparr>uc_session := False\<rparr>"

text \<open>The body of the \<open>try\<close> block.\<close>

definition UserClient_handle :: "'u handler \<Rightarrow> packetin \<Rightarrow> client \<times> mem \<times> 'u userclient
    \<Rightarrow> (bool \<times> client \<times> mem \<times> 'u userclient) result" where
  "UserClient_handle h pktin s = (case s of (c, m, u) \<Rightarrow>
     (case PacketIn_ReadHead m pktin of
        Inl NoMoreData \<Rightarrow> Inr (False, c, m, u)
      | Inl e \<Rightarrow> Inl e
      | Inr pi \<Rightarrow> if uc_session u
          then bindE (h pi (c, m, uc_user u)) (\<lambda>(ok, c', m', v). Inr (ok, c', m', u\<lparr>uc_user := v\<rparr>))
          else Inr (True, c, m, u)))"

definition UserClient_close :: "client \<times> mem \<times> 'u userclient \<Rightarrow> (client \<times> mem \<times> 'u userclient) result" where
  "UserClient_close s = lift_close s"

text \<open>One complete packet: popped, parsed, handled, destroyed.\<close>

definition UserClient_packet :: "'u handler \<Rightarrow> nat \<Rightarrow> client \<times> mem \<times> 'u userclient
    \<Rightarrow> (bool \<times> client \<times> mem \<times> 'u userclient) result" where
  "UserClient_packet h len s = (case s of (c, m, u) \<Rightarrow>
     bindE (Client_PopReceive [] len (c, m)) (\<lambda>(_, data, c1, m1).
     bindE (PacketIn_new data) (\<lambda>pktin.
     bindE (UserClient_handle h pktin (c1, m1, u)) (\<lambda>(ok, c2, m2, u2).
     bindE (destroy_views (pk_data (pi_pkt pktin)) m2) (\<lambda>m3. Inr (ok, c2, m3, u2))))))"

function OnReceive_loop :: "'u handler \<Rightarrow> nat \<Rightarrow> client \<times> mem \<times> 'u userclient
    \<Rightarrow> (client \<times> mem \<times> 'u userclient) result" where
  "OnReceive_loop h cnt s = (case s of (c, m, u) \<Rightarrow>
     if cnt \<ge> PacketIn_HEAD_SIZE then
       bindE (Client_CopyReceive 4 m c) (\<lambda>(hd4, c1).
         let head = overwrite (uc_pkthead u) 0 hd4; u1 = u\<lparr>uc_pkthead := head\<rparr>;
             ident = le_val (take 2 head); len = le_val (take 2 (drop 2 head)) in
         if ident = unat PacketIn_IDENTIFIER \<and> len \<ge> PacketIn_HEAD_SIZE then
           (if cnt \<ge> len then
              bindE (UserClient_packet h len (c1, m, u1)) (\<lambda>(ok, s2).
                if ok then OnReceive_loop h (cnt - len) s2 else UserClient_close s2)
            else Inr (c1, m, u1))
         else bindE (Client_CopyReceive PacketIn_HEAD_SIZE m c1) (\<lambda>(_, c2). UserClient_close (c2, m, u1)))
     else Inr s)"
  by pat_completeness auto
termination
  by (relation "measure (\<lambda>(h, cnt, s). cnt)") (auto simp: PacketIn_HEAD_SIZE_def)

declare OnReceive_loop.simps [simp del]

definition UserClient_OnReceive :: "'u handler \<Rightarrow> nat \<Rightarrow> client \<times> mem \<times> 'u userclient
    \<Rightarrow> (client \<times> mem \<times> 'u userclient) result" where
  "UserClient_OnReceive h cnt s = OnReceive_loop h cnt s"

text \<open>
  \<open>OnConnect\<close>, \<open>OnConnectFail\<close> and \<open>OnClose\<close> forward to the event handler the client was built with.
\<close>

type_synonym 'u notify = "client \<times> mem \<times> 'u userclient \<Rightarrow> (client \<times> mem \<times> 'u userclient) result"

definition UserClient_hooks :: "'u notify \<Rightarrow> 'u notify \<Rightarrow> 'u notify \<Rightarrow> 'u handler \<Rightarrow> 'u userclient hooks" where
  "UserClient_hooks conn fail close h = \<lparr>on_connect = conn, on_connect_fail = fail, on_close = close,
     on_receive = UserClient_OnReceive h\<rparr>"

text \<open>\<open>Send\<close>: write the head, fetch the data, queue it; the fetched views are destroyed afterwards.\<close>

definition UserClient_Send :: "packetout \<Rightarrow> client \<times> mem \<Rightarrow> (packetout \<times> client \<times> mem) result" where
  "UserClient_Send po s = bindE (PacketOut_WriteHead False (po, snd s)) (\<lambda>(po1, m1).
     bindE (PacketOutBase_FetchData (po_pkt po1, m1)) (\<lambda>(data, m2).
     bindE (Client_PushSend data (fst s, m2)) (\<lambda>(_, c, m3).
     bindE (destroy_views data m3) (\<lambda>m4. Inr (po1, c, m4)))))"

definition UserSession_Send :: "packetout \<Rightarrow> client \<times> mem \<Rightarrow> (packetout \<times> client \<times> mem) result" where
  "UserSession_Send po s = UserClient_Send po s"

section \<open>The packets of a byte stream\<close>

function frames :: "bytes \<Rightarrow> bytes list \<times> bytes \<times> bool" where
  "frames bs = (if length bs < 10 then ([], bs, False)
     else let len = le_val (take 2 (drop 2 bs)) in
       if le_val (take 2 bs) = 28380 \<and> 10 \<le> len then
         (if len \<le> length bs then let (fs, rest, broken) = frames (drop len bs) in (take len bs # fs, rest, broken)
          else ([], bs, False))
       else ([], bs, True))"
  by pat_completeness auto
termination by (relation "measure length") auto

declare frames.simps [simp del]

lemma frames_concat: "frames bs = (fs, rest, broken) \<Longrightarrow> concat fs @ rest = bs"
proof (induction bs arbitrary: fs rest broken rule: frames.induct)
  case (1 bs)
  let ?len = "le_val (take 2 (drop 2 bs))"
  show ?case
  proof (cases "\<not> length bs < 10 \<and> le_val (take 2 bs) = 28380 \<and> 10 \<le> ?len \<and> ?len \<le> length bs")
    case True
    obtain fs' r' b' where f: "frames (drop ?len bs) = (fs', r', b')" by (metis prod_cases3)
    then have "concat fs' @ r' = drop ?len bs" using "1.IH" True by simp
    moreover have "fs = take ?len bs # fs'" "rest = r'"
      using "1.prems" True f by (auto simp: frames.simps [of bs] Let_def)
    ultimately show ?thesis by simp
  next
    case False
    then show ?thesis using "1.prems" by (auto simp: frames.simps [of bs] Let_def split: if_splits)
  qed
qed

lemma destroy_views_chunks:
  "map rm_chunk rs = map rm_chunk rs' \<Longrightarrow> destroy_views rs m = destroy_views rs' m"
proof (induction rs arbitrary: rs' m)
  case (Cons r rs)
  then obtain r' rs'' where e: "rs' = r' # rs''" "rm_chunk r = rm_chunk r'" "map rm_chunk rs = map rm_chunk rs''"
    by auto
  have "RefMemoryChunk_destroy r m = RefMemoryChunk_destroy r' m"
    using e(2) by (cases "rm_chunk r'") (auto simp: RefMemoryChunk_destroy_def RefMemoryChunk_ReleaseChunk_def)
  then show ?case using Cons.IH [OF e(3)] e(1) by (auto simp: bindE_def split: sum.splits)
qed simp

lemma destroy_net_inv:
  assumes inv: "net_inv m (data @ hs) c"
  shows "\<exists>m'. destroy_views data m = Inr m' \<and> net_inv m' hs c \<and> stream_of m' c = stream_of m c"
proof -
  have "mem_inv m (data @ all_views c hs)"
    using inv mem_inv_perm [of m "all_views c (data @ hs)" "data @ all_views c hs"] by (simp add: net_inv_def)
  from destroy_views_inv [OF this] obtain m' where
    d: "destroy_views data m = Inr m'" "mem_inv m' (all_views c hs)" "keeps m (all_views c hs) m'"
    by (auto simp: keeps_def)
  have "net_inv m' hs c" using inv d(2,3) by (auto simp: net_inv_def keeps_def)
  moreover have "stream_of m' c = stream_of m c"
    unfolding stream_of_def by (rule keeps_bytes [OF d(3)]) auto
  ultimately show ?thesis using d(1) by blast
qed

lemma destroy_keeps:
  assumes "mem_inv m (q @ ds @ hs)"
  shows "\<exists>m'. destroy_views ds m = Inr m' \<and> mem_inv m' (q @ hs) \<and> data_bytes m' q = data_bytes m q"
proof -
  have "mem_inv m (ds @ q @ hs)" by (rule mem_inv_perm [OF assms]) simp
  from destroy_views_inv [OF this] obtain m' where
    d: "destroy_views ds m = Inr m'" "mem_inv m' (q @ hs)" "keeps m (q @ hs) m'" by (auto simp: keeps_def)
  then show ?thesis using keeps_bytes [OF d(3), of q] by auto
qed

lemma close_leaves:
  assumes "net_inv m hs c"
  shows "\<exists>c'. Client_Close c = Inr c' \<and> net_inv m hs c' \<and> stream_of m c' = stream_of m c \<and> io_fd (cl_io c') = -1 \<and>
    all_views c' hs = all_views c hs"
proof -
  have "eventio_ok (cl_io c)" using assms by (simp add: net_inv_def)
  from Close_ok [OF this] show ?thesis using assms by (auto simp: Client_Close_def net_inv_def stream_of_def)
qed

text \<open>What a handler that does not send does to its connection: at most, it closes it.\<close>

definition left_alone :: "mem \<Rightarrow> refchunk list \<Rightarrow> client \<Rightarrow> client \<Rightarrow> bool" where
  "left_alone m hs c c' \<longleftrightarrow> net_inv m hs c' \<and> stream_of m c' = stream_of m c \<and> all_views c' hs = all_views c hs"

lemma left_alone_refl: "net_inv m hs c \<Longrightarrow> left_alone m hs c c"
  by (simp add: left_alone_def)

lemma left_alone_close: "net_inv m hs c \<Longrightarrow> \<exists>c'. Client_Close c = Inr c' \<and> left_alone m hs c c'"
  using close_leaves by (fastforce simp: left_alone_def)

lemma left_alone_trans: "left_alone m hs c c1 \<Longrightarrow> left_alone m hs c1 c2 \<Longrightarrow> left_alone m hs c c2"
  by (simp add: left_alone_def)

text \<open>After handling, the popped views are given back.\<close>

lemma finish_message:
  assumes "net_inv m1 data c1" and "left_alone m1 data c1 c2"
  shows "\<exists>m3. destroy_views data m1 = Inr m3 \<and> net_inv m3 [] c2 \<and> stream_of m3 c2 = stream_of m1 c1 \<and>
    length (all_views c2 []) = length (all_views c1 [])"
proof -
  have k: "net_inv m1 (data @ []) c2" "stream_of m1 c2 = stream_of m1 c1" "all_views c2 data = all_views c1 data"
    using assms by (simp_all add: left_alone_def)
  obtain m3 where "destroy_views data m1 = Inr m3" "net_inv m3 [] c2" "stream_of m3 c2 = stream_of m1 c2"
    using destroy_net_inv [OF k(1)] by blast
  then show ?thesis using k(2) arg_cong [OF k(3), of length] by simp
qed

section \<open>Contract of a session handler\<close>

text \<open>
  \<open>views u\<close> are the views the session's state holds and \<open>seen u\<close> the packets it was given. A handler may
  read the packet, send and close; it leaves the receive queue alone and frees what it takes.
\<close>

definition nothrow :: "'u handler \<Rightarrow> bool" where
  "nothrow h \<longleftrightarrow> (\<forall>pi s r. h pi s = Inr r \<longrightarrow> fst r)"

locale packet_handler =
  fixes h :: "'u handler" and views :: "'u \<Rightarrow> refchunk list" and seen :: "'u \<Rightarrow> bytes list"
  assumes handle_law: "net_inv m (rs @ views u) c \<Longrightarrow> length (all_views c (rs @ views u)) + 1 < 4294967296 \<Longrightarrow>
      pin_wf m (pi_pkt pi) \<Longrightarrow> \<exists>ok c' m' u'. h pi (c, m, u) = Inr (ok, c', m', u') \<and>
      net_inv m' (rs @ views u') c' \<and> stream_of m' c' = stream_of m c \<and> seen u' = seen u @ [content m (pi_pkt pi)] \<and>
      length (all_views c' (rs @ views u')) \<le> length (all_views c (rs @ views u))"
begin

lemma handle_packet:
  assumes inv: "net_inv m (data @ views (uc_user u)) c" and len: "length (all_views c (data @ views (uc_user u))) + 1 < 4294967296"
    and sess: "uc_session u" and size: "10 \<le> length (data_bytes m data)" "length (data_bytes m data) < 4294967296"
  shows "\<exists>pktin ok c' m' u'. PacketIn_new data = Inr pktin \<and> same_views data (pk_data (pi_pkt pktin)) \<and>
     all_wf m (pk_data (pi_pkt pktin)) \<and> UserClient_handle h pktin (c, m, u) = Inr (ok, c', m', u') \<and> (nothrow h \<longrightarrow> ok) \<and>
     net_inv m' (data @ views (uc_user u')) c' \<and> stream_of m' c' = stream_of m c \<and> uc_session u' \<and> uc_pkthead u' = uc_pkthead u \<and>
     seen (uc_user u') = seen (uc_user u) @ [data_bytes m data] \<and>
     length (all_views c' (data @ views (uc_user u'))) \<le> length (all_views c (data @ views (uc_user u)))"
proof -
  have wf: "all_wf m data" using net_inv_wf [OF inv] by auto
  have bytes: "data_bytes m data = take 4 (data_bytes m data) @ drop 4 (data_bytes m data)" by simp
  have sum: "sum_list (map rm_count data) < 4294967296" using size(2) length_data_bytes [OF wf] by simp
  obtain q q' where q: "PacketInBase_new data = Inr q" "Packet_SkipTo q 4 = Inr q'" "pin_wf m q'" "pk_pos q' = 4"
      "content m q' = data_bytes m data"
    using open_reader [OF wf sum bytes] size(1) by auto
  obtain d where d: "SkipTo_loop data 0 0 = Inr (d, 0)" "same_views data d" "all_wf m d"
    using SkipTo_loop_spec [OF wf, of 0 0] by auto
  have pd: "pk_data q = d"
    using q(1) d(1) by (auto simp: PacketInBase_new_def Packet_UpdateCapacity_def Packet_new_def Packet_SkipTo_def
        Packet_UpdateSize_def assertE_def Let_def split: if_splits)
  let ?pi = "\<lparr>pi_pkt = q, pi_code = 0, pi_sessionid = 0\<rparr>"
  have hd: "\<exists>pi. PacketIn_ReadHead m ?pi = Inr pi \<and> pin_wf m (pi_pkt pi) \<and> content m (pi_pkt pi) = data_bytes m data"
    using PacketIn_ReadHead_total [of ?pi q' m] q size(1) by auto
  then obtain pi where pi: "PacketIn_ReadHead m ?pi = Inr pi" "pin_wf m (pi_pkt pi)" "content m (pi_pkt pi) = data_bytes m data"
    by blast
  obtain ok c' m' v where h: "h pi (c, m, uc_user u) = Inr (ok, c', m', v)" "net_inv m' (data @ views v) c'"
      "stream_of m' c' = stream_of m c" "seen v = seen (uc_user u) @ [content m (pi_pkt pi)]"
      "length (all_views c' (data @ views v)) \<le> length (all_views c (data @ views (uc_user u)))"
    using handle_law [OF inv len pi(2)] by blast
  have "UserClient_handle h ?pi (c, m, u) = Inr (ok, c', m', u\<lparr>uc_user := v\<rparr>)"
    using pi(1) h(1) sess by (simp add: UserClient_handle_def)
  moreover have "PacketIn_new data = Inr ?pi" using q(1) by (simp add: PacketIn_new_def)
  moreover have "nothrow h \<longrightarrow> ok" using h(1) by (force simp: nothrow_def)
  ultimately show ?thesis using pd d h pi(3) sess by fastforce
qed

lemma packet_step:
  assumes inv: "net_inv m (views (uc_user u)) c" and room: "length (all_views c (views (uc_user u))) + 2 < 4294967296"
    and sess: "uc_session u" and len: "10 \<le> len" "len \<le> length (stream_of m c)" "len < 65536"
  shows "\<exists>ok c' m' u'. UserClient_packet h len (c, m, u) = Inr (ok, c', m', u') \<and> net_inv m' (views (uc_user u')) c' \<and>
     (nothrow h \<longrightarrow> ok) \<and> stream_of m' c' = drop len (stream_of m c) \<and> seen (uc_user u') = seen (uc_user u) @ [take len (stream_of m c)] \<and>
     uc_session u' \<and> uc_pkthead u' = uc_pkthead u \<and>
     length (all_views c' (views (uc_user u'))) \<le> length (all_views c (views (uc_user u)))"
proof -
  obtain n data c1 m1 where p: "Client_PopReceive [] len (c, m) = Inr (n, data, c1, m1)"
      "net_inv m1 (data @ views (uc_user u)) c1" "data_bytes m1 data = take len (stream_of m c)"
      "stream_of m1 c1 = drop len (stream_of m c)" "cl_sendq c1 = cl_sendq c" "cl_recvp c1 = cl_recvp c"
      "length (data @ cl_recvq c1) \<le> length (cl_recvq c) + 1"
    using PopReceive_spec [OF inv room, of len] by blast
  have le: "length (all_views c1 (data @ views (uc_user u))) \<le> length (all_views c (views (uc_user u))) + 1"
    using p(5-7) by simp
  have sz: "10 \<le> length (data_bytes m1 data)" "length (data_bytes m1 data) < 4294967296" using p(3) len by auto
  have "length (all_views c1 (data @ views (uc_user u))) + 1 < 4294967296" using le room by simp
  from handle_packet [OF p(2) this sess sz] obtain pktin ok c2 m2 u2 where
    g: "PacketIn_new data = Inr pktin" "same_views data (pk_data (pi_pkt pktin))"
      "UserClient_handle h pktin (c1, m1, u) = Inr (ok, c2, m2, u2)" "nothrow h \<longrightarrow> ok" "net_inv m2 (data @ views (uc_user u2)) c2"
      "stream_of m2 c2 = stream_of m1 c1" "uc_session u2" "uc_pkthead u2 = uc_pkthead u"
      "seen (uc_user u2) = seen (uc_user u) @ [data_bytes m1 data]"
      "length (all_views c2 (data @ views (uc_user u2))) \<le> length (all_views c1 (data @ views (uc_user u)))"
    by blast
  obtain m3 where d: "destroy_views data m2 = Inr m3" "net_inv m3 (views (uc_user u2)) c2" "stream_of m3 c2 = stream_of m2 c2"
    using destroy_net_inv [OF g(5)] by blast
  have "destroy_views (pk_data (pi_pkt pktin)) m2 = Inr m3"
    using destroy_views_chunks [OF same_views_chunks [OF g(2)]] d(1) by simp
  then have "UserClient_packet h len (c, m, u) = Inr (ok, c2, m3, u2)"
    using p(1) g(1,3) by (simp add: UserClient_packet_def)
  moreover have "data \<noteq> []" using sz(1) by auto
  then have "1 \<le> length data" by (cases data) auto
  then have "length (all_views c2 (views (uc_user u2))) \<le> length (all_views c (views (uc_user u)))"
    using g(10) le unfolding length_append by linarith
  ultimately show ?thesis using d g p(3,4) by auto
qed

definition received :: "client \<times> mem \<times> 'u userclient \<Rightarrow> client \<times> mem \<times> 'u userclient \<Rightarrow> bool" where
  "received s s' = (case (s, s') of ((c, m, u), (c', m', u')) \<Rightarrow>
     (case frames (stream_of m c) of (fs, rest, broken) \<Rightarrow> \<exists>k \<le> length fs.
        seen (uc_user u') = seen (uc_user u) @ take k fs \<and> stream_of m' c' = concat (drop k fs) @ rest \<and>
        (io_fd (cl_io c') \<noteq> -1 \<longrightarrow> k = length fs \<and> \<not> broken) \<and>
        (nothrow h \<longrightarrow> k = length fs)))"

lemma close_step:
  assumes "net_inv m hs c"
  shows "\<exists>c'. UserClient_close (c, m, u) = Inr (c', m, u) \<and> net_inv m hs c' \<and> stream_of m c' = stream_of m c \<and>
     io_fd (cl_io c') = -1 \<and> length (all_views c' hs) = length (all_views c hs)"
proof -
  have "eventio_ok (cl_io c)" using assms by (simp add: net_inv_def)
  from Close_ok [OF this] show ?thesis
    using assms by (auto simp: UserClient_close_def lift_close_def Client_Close_def net_inv_def stream_of_def)
qed

lemma OnReceive_frames:
  assumes "net_inv m (views (uc_user u)) c" and "length (all_views c (views (uc_user u))) + 2 < 4294967296"
    and "uc_session u" and "cnt = cl_recvq_count c"
  shows "\<exists>c' m' u'. OnReceive_loop h cnt (c, m, u) = Inr (c', m', u') \<and> net_inv m' (views (uc_user u')) c' \<and>
     uc_session u' \<and> length (all_views c' (views (uc_user u'))) \<le> length (all_views c (views (uc_user u))) \<and>
     received (c, m, u) (c', m', u')"
  using assms
proof (induction cnt arbitrary: c m u rule: less_induct)
  case (less cnt)
  let ?st = "stream_of m c"
  have cnt: "cnt = length ?st" using less.prems(4) length_stream_of [OF less.prems(1)] by simp
  note step = OnReceive_loop.simps [of h cnt "(c, m, u)"]
  have cp: "Client_CopyReceive n m c = Inr (take n ?st, c)" for n by (rule CopyReceive_spec [OF less.prems(1)])
  define head where "head = overwrite (uc_pkthead u) 0 (take 4 ?st)"
  let ?u1 = "u\<lparr>uc_pkthead := head\<rparr>" and ?len = "le_val (take 2 (drop 2 ?st))"
  show ?case
  proof (cases "10 \<le> cnt")
    case False
    have "OnReceive_loop h cnt (c, m, u) = Inr (c, m, u)" using step False by (simp add: PacketIn_HEAD_SIZE_def)
    moreover have "frames ?st = ([], ?st, False)" using False cnt by (simp add: frames.simps [of ?st])
    ultimately show ?thesis using less.prems by (auto simp: received_def)
  next
    case True
    have hd: "take 2 head = take 2 ?st" "take 2 (drop 2 head) = take 2 (drop 2 ?st)"
      using True cnt by (simp_all add: head_def overwrite_def drop_take)
    have id: "unat PacketIn_IDENTIFIER = 28380" by (simp add: PacketIn_IDENTIFIER_def)
    consider (bad) "\<not> (le_val (take 2 ?st) = 28380 \<and> 10 \<le> ?len)"
      | (part) "le_val (take 2 ?st) = 28380" "10 \<le> ?len" "cnt < ?len"
      | (full) "le_val (take 2 ?st) = 28380" "10 \<le> ?len" "?len \<le> cnt" by linarith
    then show ?thesis
    proof cases
      case bad
      obtain c' where c': "UserClient_close (c, m, ?u1) = Inr (c', m, ?u1)" "net_inv m (views (uc_user u)) c'"
          "stream_of m c' = ?st" "io_fd (cl_io c') = -1"
          "length (all_views c' (views (uc_user u))) = length (all_views c (views (uc_user u)))"
        using close_step [OF less.prems(1), of ?u1] by blast
      have "OnReceive_loop h cnt (c, m, u) = Inr (c', m, ?u1)"
        using step True cp bad hd id c'(1) by (auto simp: PacketIn_HEAD_SIZE_def Let_def head_def [symmetric])
      moreover have "frames ?st = ([], ?st, True)" using True cnt bad by (auto simp: frames.simps [of ?st] Let_def)
      ultimately show ?thesis using c' less.prems(3) by (auto simp: received_def)
    next
      case part
      have "OnReceive_loop h cnt (c, m, u) = Inr (c, m, ?u1)"
        using step True cp part hd id by (simp add: PacketIn_HEAD_SIZE_def Let_def head_def [symmetric])
      moreover have "frames ?st = ([], ?st, False)" using True cnt part by (simp add: frames.simps [of ?st] Let_def)
      ultimately show ?thesis using less.prems by (auto simp: received_def)
    next
      case full
      have "?len < 65536" using le_val_bound [of "take 2 (drop 2 ?st)"] True cnt by simp
      moreover have "?len \<le> length ?st" using full(3) cnt by simp
      ultimately obtain ok c2 m2 u2 where
        p: "UserClient_packet h ?len (c, m, ?u1) = Inr (ok, c2, m2, u2)" "nothrow h \<longrightarrow> ok" "net_inv m2 (views (uc_user u2)) c2"
          "stream_of m2 c2 = drop ?len ?st" "seen (uc_user u2) = seen (uc_user u) @ [take ?len ?st]" "uc_session u2"
          "length (all_views c2 (views (uc_user u2))) \<le> length (all_views c (views (uc_user u)))"
        using packet_step [of m ?u1 c ?len] less.prems full(2) by auto
      obtain fs rest broken where f: "frames (drop ?len ?st) = (fs, rest, broken)" by (metis prod_cases3)
      have fst: "frames ?st = (take ?len ?st # fs, rest, broken)"
        using True cnt full f by (simp add: frames.simps [of ?st] Let_def)
      show ?thesis
      proof (cases ok)
        case False
        obtain c3 where c3: "UserClient_close (c2, m2, u2) = Inr (c3, m2, u2)" "net_inv m2 (views (uc_user u2)) c3"
            "stream_of m2 c3 = stream_of m2 c2" "io_fd (cl_io c3) = -1"
            "length (all_views c3 (views (uc_user u2))) = length (all_views c2 (views (uc_user u2)))"
          using close_step [OF p(3), of u2] by blast
        have "OnReceive_loop h cnt (c, m, u) = Inr (c3, m2, u2)"
          using step True cp full hd id p(1) False c3(1) by (simp add: PacketIn_HEAD_SIZE_def Let_def head_def [symmetric])
        moreover have "stream_of m2 c3 = concat fs @ rest" using c3(3) p(4) frames_concat [OF f] by simp
        ultimately show ?thesis
          using c3 p False fst by (auto simp: received_def intro!: exI [of _ 1])
      next
        case okt: True
        have lt: "cnt - ?len < cnt" using full by simp
        have cn: "cnt - ?len = cl_recvq_count c2" using length_stream_of [OF p(3)] p(4) cnt by simp
        have rm: "length (all_views c2 (views (uc_user u2))) + 2 < 4294967296" using p(7) less.prems(2) by simp
        obtain c3 m3 u3 where r: "OnReceive_loop h (cnt - ?len) (c2, m2, u2) = Inr (c3, m3, u3)"
            "net_inv m3 (views (uc_user u3)) c3" "uc_session u3"
            "length (all_views c3 (views (uc_user u3))) \<le> length (all_views c2 (views (uc_user u2)))"
            "received (c2, m2, u2) (c3, m3, u3)"
          using less.IH [OF lt p(3) rm p(6) cn] by blast
        have "OnReceive_loop h cnt (c, m, u) = Inr (c3, m3, u3)"
          using step True cp full hd id p(1) okt r(1) by (simp add: PacketIn_HEAD_SIZE_def Let_def head_def [symmetric])
        moreover obtain k where "k \<le> length fs" "seen (uc_user u3) = seen (uc_user u2) @ take k fs"
            "stream_of m3 c3 = concat (drop k fs) @ rest" "io_fd (cl_io c3) \<noteq> -1 \<longrightarrow> k = length fs \<and> \<not> broken"
            "nothrow h \<longrightarrow> k = length fs"
          using r(5) f p(4) by (auto simp: received_def)
        then have "received (c, m, u) (c3, m3, u3)"
          using fst p(5) by (auto simp: received_def intro!: exI [of _ "Suc k"])
        ultimately show ?thesis using r p(7) by auto
      qed
    qed
  qed
qed

end

sublocale packet_handler \<subseteq> user: receiver "UserClient_hooks conn fail close h"
    "\<lambda>u. views (uc_user u)" "\<lambda>u. concat (seen (uc_user u))" uc_session cap
proof
  fix u :: "'u userclient" and m c
  assume a: "uc_session u" "net_inv m (views (uc_user u)) c" "length (all_views c (views (uc_user u))) + 2 < 4294967296"
  obtain c' m' u' where r: "OnReceive_loop h (cl_recvq_count c) (c, m, u) = Inr (c', m', u')"
      "net_inv m' (views (uc_user u')) c'" "uc_session u'"
      "length (all_views c' (views (uc_user u'))) \<le> length (all_views c (views (uc_user u)))"
      "received (c, m, u) (c', m', u')"
    using OnReceive_frames [OF a(2,3,1) refl] by blast
  obtain fs rest broken where f: "frames (stream_of m c) = (fs, rest, broken)" by (metis prod_cases3)
  obtain k where k: "seen (uc_user u') = seen (uc_user u) @ take k fs" "stream_of m' c' = concat (drop k fs) @ rest"
    using r(5) f by (auto simp: received_def)
  have "concat (take k fs) @ concat (drop k fs) = concat fs" by (metis append_take_drop_id concat_append)
  then have "concat (seen (uc_user u')) @ stream_of m' c' = concat (seen (uc_user u)) @ stream_of m c"
    using k frames_concat [OF f] by simp (metis append.assoc)
  moreover have "length (stream_of m' c') \<le> length (stream_of m c)"
    using k(2) frames_concat [OF f] \<open>concat (take k fs) @ concat (drop k fs) = concat fs\<close> by (metis append.assoc length_append le_add2)
  ultimately show "\<exists>c' m' u'. on_receive (UserClient_hooks conn fail close h) (cl_recvq_count c) (c, m, u) = Inr (c', m', u') \<and>
      uc_session u' \<and> net_inv m' (views (uc_user u')) c' \<and>
      concat (seen (uc_user u')) @ stream_of m' c' = concat (seen (uc_user u)) @ stream_of m c \<and>
      length (stream_of m' c') \<le> length (stream_of m c) \<and>
      length (all_views c' (views (uc_user u'))) \<le> length (all_views c (views (uc_user u)))"
    using r by (auto simp: UserClient_hooks_def UserClient_OnReceive_def)
qed

end
