(* ===== verification/GateSession.thy ===== *)
theory GateSession
  imports UserClient
begin

text \<open>
  \<open>gateserver/gatesession.*\<close>: the session of the gate server, which dispatches every packet to the
  handler registered for its code. \<open>gs_trace\<close> lists the packets given to the session with the handler
  selected for each; what the handler does is the component's that registered it, and an exception it
  throws is caught here. Linked with \<open>UserClient\<close> this gives the receive path of the gate server.
\<close>

record gatesession =
  gs_uid :: nat
  gs_ready :: bool
  gs_response :: bool
  gs_linker :: "nat option"
  gs_handlers :: "16 word \<rightharpoonup> nat"
  gs_trace :: "(nat option \<times> bytes) list"

definition GateSession_new :: "bool \<Rightarrow> gatesession" where
  "GateSession_new ready0 = \<lparr>gs_uid = 0, gs_ready = ready0, gs_response = False, gs_linker = None,
     gs_handlers = (\<lambda>_. None), gs_trace = []\<rparr>"

definition GateSession_Setup :: "gatesession \<Rightarrow> bool \<times> gatesession" where
  "GateSession_Setup gs = (True, gs\<lparr>gs_response := True\<rparr>)"

text \<open>\<open>emplace\<close> keeps an existing entry; the flag is the duplicate report.\<close>

definition GateSession_RegisterPacketHandler :: "16 word \<Rightarrow> nat \<Rightarrow> gatesession \<Rightarrow> bool \<times> gatesession" where
  "GateSession_RegisterPacketHandler code hdl gs = (case gs_handlers gs code of
     None \<Rightarrow> (False, gs\<lparr>gs_handlers := (gs_handlers gs)(code \<mapsto> hdl)\<rparr>)
   | Some _ \<Rightarrow> (True, gs))"

definition GateSession_OnUserClientReceivePacket :: "gatesession handler" where
  "GateSession_OnUserClientReceivePacket pktin s = (case s of (c, m, gs) \<Rightarrow>
     Inr (True, c, m, gs\<lparr>gs_trace := gs_trace gs @ [(gs_handlers gs (pi_code pktin), content m (pi_pkt pktin))]\<rparr>))"

definition GateSession_Exit :: "client \<Rightarrow> client result" where
  "GateSession_Exit c = Client_Close c"

text \<open>The timer link: the released one, if any, and the session.\<close>

definition GateSession_StopTimer :: "gatesession \<Rightarrow> nat option \<times> gatesession" where
  "GateSession_StopTimer gs = (gs_linker gs, gs\<lparr>gs_linker := None\<rparr>)"

definition GateSession_StartTimer :: "nat \<Rightarrow> gatesession \<Rightarrow> nat option \<times> gatesession" where
  "GateSession_StartTimer linker gs = (gs_linker gs, gs\<lparr>gs_linker := Some linker\<rparr>)"

definition GateSession_OnUserClientClose :: "gatesession \<Rightarrow> gatesession" where
  "GateSession_OnUserClientClose gs = (snd (GateSession_StopTimer gs))\<lparr>gs_ready := False\<rparr>"

section \<open>The receive path\<close>

abbreviation packets_seen :: "gatesession \<Rightarrow> bytes list" where
  "packets_seen gs \<equiv> map snd (gs_trace gs)"

interpretation gate: packet_handler GateSession_OnUserClientReceivePacket "\<lambda>_. []" packets_seen
  by unfold_locales (auto simp: GateSession_OnUserClientReceivePacket_def)

lemma gate_nothrow: "nothrow GateSession_OnUserClientReceivePacket"
  by (auto simp: nothrow_def GateSession_OnUserClientReceivePacket_def)

text \<open>
  C9. Packet framing. When data has arrived, \<open>OnReceive\<close> gives the session exactly the complete
  packets of the byte stream, each once and in order, leaves the incomplete rest queued, and closes the
  connection when the stream is broken: a head with a wrong identifier or a length below ten.
\<close>

theorem UserClient_OnReceive_frames:
  assumes "net_inv m [] c" and "length (all_views c []) + 2 < 4294967296" and "uc_session u"
    and "frames (stream_of m c) = (fs, rest, broken)"
  shows "\<exists>c' m' u'. UserClient_OnReceive GateSession_OnUserClientReceivePacket (cl_recvq_count c) (c, m, u) = Inr (c', m', u') \<and>
     net_inv m' [] c' \<and> uc_session u' \<and> packets_seen (uc_user u') = packets_seen (uc_user u) @ fs \<and>
     stream_of m' c' = rest \<and> (broken \<longrightarrow> io_fd (cl_io c') = -1)"
proof -
  obtain c' m' u' where r: "OnReceive_loop GateSession_OnUserClientReceivePacket (cl_recvq_count c) (c, m, u) = Inr (c', m', u')"
      "net_inv m' [] c'" "uc_session u'" "gate.received (c, m, u) (c', m', u')"
    using gate.OnReceive_frames [OF assms(1-3) refl] by blast
  have "packets_seen (uc_user u') = packets_seen (uc_user u) @ fs \<and> stream_of m' c' = rest \<and> (broken \<longrightarrow> io_fd (cl_io c') = -1)"
    using r(4) gate_nothrow assms(4) by (auto simp: gate.received_def)
  then show ?thesis using r by (auto simp: UserClient_OnReceive_def)
qed

text \<open>
  C6. The whole receive path. For every way the kernel may cut the arriving bytes into pieces, a read
  event ends without a failed assertion or a wild access, and no byte is lost, repeated or reordered:
  the packets handed to the session followed by the bytes still queued are the earlier ones followed
  by the bytes read.
\<close>

theorem Client_OnEventIOReadable_stream:
  assumes "net_inv m [] c" and "uc_session u" and "length (all_views c []) + 22 * (rx_size rx + 1) + 4 < 4294967296"
  shows "\<exists>rx' c' m' u' got.
     Client_OnEventIOReadable (UserClient_hooks conn fail close GateSession_OnUserClientReceivePacket) rx (c, m, u)
       = Inr (rx', c', m', u') \<and> net_inv m' [] c' \<and> rx_bytes rx = got @ rx_bytes rx' \<and>
     concat (packets_seen (uc_user u')) @ stream_of m' c' = concat (packets_seen (uc_user u)) @ stream_of m c @ got"
  using gate.user.readable [OF assms less_add_one] unfolding Client_OnEventIOReadable_def by blast

theorem Client_OnEventIOReadable_stream_witness:
  "\<exists>rx' c' m' u' got. Client_OnEventIOReadable (UserClient_hooks Inr Inr Inr GateSession_OnUserClientReceivePacket)
       [RdData [220, 110, 10], RdData [0, 1, 0, 0, 0, 0, 0]]
       (idle_client, MemoryPool_new (\<lambda>_ _. 0) 4 2, \<lparr>uc_session = True, uc_pkthead = [], uc_user = GateSession_new False\<rparr>)
     = Inr (rx', c', m', u') \<and> [220, 110, 10, 0, 1, 0, 0, 0, 0, 0] = got @ rx_bytes rx' \<and>
     concat (packets_seen (uc_user u')) @ stream_of m' c' = got"
proof -
  let ?u = "\<lparr>uc_session = True, uc_pkthead = [], uc_user = GateSession_new False\<rparr>"
  let ?rx = "[RdData [220, 110, 10], RdData [0, 1, 0, 0, 0, 0, 0]]" and ?m = "MemoryPool_new (\<lambda>_ _. 0) 4 2"
  have i: "net_inv ?m [] idle_client" by (rule idle_client_inv) simp_all
  have "length (all_views idle_client []) + 22 * (rx_size ?rx + 1) + 4 < 4294967296"
    by (simp add: idle_client_def Client_new_def)
  from Client_OnEventIOReadable_stream [OF i _ this, of ?u Inr Inr Inr] show ?thesis
    by (auto simp: GateSession_new_def stream_of_def idle_client_def Client_new_def)
qed

theorem UserClient_OnReceive_frames_witness:
  "\<exists>c' m' u'. UserClient_OnReceive GateSession_OnUserClientReceivePacket
       (cl_recvq_count (loaded_client [220, 110, 10, 0, 1, 0, 0, 0, 0, 0, 220]))
       (loaded_client [220, 110, 10, 0, 1, 0, 0, 0, 0, 0, 220], loaded_mem [220, 110, 10, 0, 1, 0, 0, 0, 0, 0, 220],
        \<lparr>uc_session = True, uc_pkthead = [], uc_user = GateSession_new False\<rparr>)
       = Inr (c', m', u') \<and> packets_seen (uc_user u') = [[220, 110, 10, 0, 1, 0, 0, 0, 0, 0]] \<and> stream_of m' c' = [220]"
proof -
  let ?u = "\<lparr>uc_session = True, uc_pkthead = [], uc_user = GateSession_new False\<rparr>" and ?b = "[220, 110, 10, 0, 1, 0, 0, 0, 0, 0, 220] :: bytes"
  have i: "net_inv (loaded_mem ?b) [] (loaded_client ?b)" "stream_of (loaded_mem ?b) (loaded_client ?b) = ?b"
      "length (all_views (loaded_client ?b) []) + 2 < 4294967296"
    using loaded_client_inv [of ?b] by simp_all
  have "frames [220] = ([], [220], False)" by (simp add: frames.simps)
  then have f: "frames (stream_of (loaded_mem ?b) (loaded_client ?b)) = ([take 10 ?b], [220], False)"
    unfolding i(2) by (simp add: frames.simps [of ?b])
  show ?thesis
    using UserClient_OnReceive_frames [OF i(1,3) _ f, of ?u] by (auto simp: GateSession_new_def)
qed

text \<open>
  After any sequence of registrations the handler of a code is the one registered first for it; later
  ones are reported and ignored. So the packet is dispatched to that handler.
\<close>

lemma GateSession_first_registration:
  "gs_handlers (fold (\<lambda>(code, hdl) gs. snd (GateSession_RegisterPacketHandler code hdl gs)) regs gs) code =
     (case gs_handlers gs code of Some hdl \<Rightarrow> Some hdl | None \<Rightarrow> map_of regs code)"
proof (induction regs arbitrary: gs)
  case (Cons r regs)
  then show ?case
    by (cases r) (auto simp: GateSession_RegisterPacketHandler_def split: option.splits)
qed (simp split: option.splits)

end
