(* ===== verification/Gateway.thy ===== *)
theory Gateway
  imports GateSession
begin

text \<open>
  \<open>base/gateway/gateway.*\<close>, \<open>base/net/listener.*\<close>, \<open>base/gateway/usersession.*\<close> and, of the gate
  server, \<open>sessionmanager.*\<close> and \<open>gatewaymanager.*\<close>: the lifetime of connections and sessions. A connection
  is held by the gateway, the dispatcher and its session, a session by the session manager; the state
  has both heaps with their reference counts and every access to a freed object is an error. The step
  relation interleaves accepting, closing for any reason, the dispatcher's close callbacks, the
  shutdown of the server and \<open>BeginCleanup\<close>; the invariant shows that no freed object is touched, none
  leaks, the limit of connections holds and the cleanup callback is called exactly once.
\<close>

section \<open>Model\<close>

record conn =
  co_io :: eventio
  co_connect :: bool
  co_session :: "nat option"
  co_ref :: nat

record sess =
  se_client :: nat
  se_ref :: nat
  se_data :: gatesession

record gateway =
  gw_conns :: "nat \<rightharpoonup> conn"
  gw_sess :: "nat \<rightharpoonup> sess"
  gw_clients :: "nat list"
  gw_players :: "nat list"
  gw_closing :: "nat list"
  gw_listener :: "eventio option"
  gw_max :: nat
  gw_cleanup :: bool
  gw_cb :: nat
  gw_next :: nat
  gw_refused :: "int list"

definition conn_at :: "nat \<Rightarrow> gateway \<Rightarrow> conn result" where
  "conn_at i g = (case gw_conns g i of None \<Rightarrow> Inl UseAfterFree | Some x \<Rightarrow> Inr x)"

definition sess_at :: "nat \<Rightarrow> gateway \<Rightarrow> sess result" where
  "sess_at i g = (case gw_sess g i of None \<Rightarrow> Inl UseAfterFree | Some x \<Rightarrow> Inr x)"

definition put_conn :: "nat \<Rightarrow> conn \<Rightarrow> gateway \<Rightarrow> gateway" where
  "put_conn i x g = g\<lparr>gw_conns := (gw_conns g)(i \<mapsto> x)\<rparr>"

definition put_sess :: "nat \<Rightarrow> sess \<Rightarrow> gateway \<Rightarrow> gateway" where
  "put_sess i x g = g\<lparr>gw_sess := (gw_sess g)(i \<mapsto> x)\<rparr>"

definition conn_Retain :: "nat \<Rightarrow> gateway \<Rightarrow> gateway result" where
  "conn_Retain i g = bindE (conn_at i g) (\<lambda>x. Inr (put_conn i (x\<lparr>co_ref := co_ref x + 1\<rparr>) g))"

definition conn_Release :: "nat \<Rightarrow> gateway \<Rightarrow> gateway result" where
  "conn_Release i g = bindE (conn_at i g) (\<lambda>x. if co_ref x \<le> 1
     then Inr (g\<lparr>gw_conns := (gw_conns g)(i := None)\<rparr>) else Inr (put_conn i (x\<lparr>co_ref := co_ref x - 1\<rparr>) g))"

text \<open>\<open>~UserSession\<close> releases the client.\<close>

definition UserSession_destroy :: "nat \<Rightarrow> gateway \<Rightarrow> gateway result" where
  "UserSession_destroy i g = bindE (sess_at i g) (\<lambda>s.
     conn_Release (se_client s) (g\<lparr>gw_sess := (gw_sess g)(i := None)\<rparr>))"

definition sess_Release :: "nat \<Rightarrow> gateway \<Rightarrow> gateway result" where
  "sess_Release i g = bindE (sess_at i g) (\<lambda>s. if se_ref s \<le> 1
     then UserSession_destroy i g else Inr (put_sess i (s\<lparr>se_ref := se_ref s - 1\<rparr>) g))"

text \<open>The constructor of the session sets itself at the client and retains it.\<close>

definition UserSession_new :: "nat \<Rightarrow> gateway \<Rightarrow> (nat \<times> gateway) result" where
  "UserSession_new i g = bindE (conn_at i g) (\<lambda>x.
     let s = gw_next g;
         g1 = (put_sess s \<lparr>se_client = i, se_ref = 1, se_data = GateSession_new False\<rparr> g)\<lparr>gw_next := s + 1\<rparr>
     in bindE (conn_Retain i (put_conn i (x\<lparr>co_session := Some s\<rparr>) g1)) (\<lambda>g2. Inr (s, g2)))"

subsection \<open>Session manager\<close>

definition SessionManager_CreateSession :: "nat \<Rightarrow> gateway \<Rightarrow> (nat option \<times> gateway) result" where
  "SessionManager_CreateSession i g = bindE (UserSession_new i g) (\<lambda>(s, g1).
     bindE (sess_at s g1) (\<lambda>x. let (ok, d) = GateSession_Setup (se_data x); g2 = put_sess s (x\<lparr>se_data := d\<rparr>) g1 in
       if ok then Inr (Some s, g2\<lparr>gw_players := s # gw_players g2\<rparr>)
       else bindE (sess_Release s g2) (\<lambda>g3. Inr (None, g3))))"

definition SessionManager_DeleteSession :: "nat \<Rightarrow> gateway \<Rightarrow> gateway result" where
  "SessionManager_DeleteSession s g = sess_Release s (g\<lparr>gw_players := remove1 s (gw_players g)\<rparr>)"

subsection \<open>Gateway\<close>

text \<open>\<open>Client::Close\<close> on a connection: \<open>EventIO::Close\<close> queues it for the dispatcher once.\<close>

definition conn_Close :: "nat \<Rightarrow> gateway \<Rightarrow> gateway result" where
  "conn_Close i g = bindE (conn_at i g) (\<lambda>x. bindE (EventIO_Close (co_io x)) (\<lambda>io.
     let g1 = put_conn i (x\<lparr>co_io := io\<rparr>) g in
     Inr (if io_queued (co_io x) < io_queued io then g1\<lparr>gw_closing := gw_closing g1 @ [i]\<rparr> else g1)))"

definition HandleAcceptUserClient :: "nat \<Rightarrow> gateway \<Rightarrow> (bool \<times> gateway) result" where
  "HandleAcceptUserClient i g = bindE (SessionManager_CreateSession i g) (\<lambda>(ps, g1). Inr (ps \<noteq> None, g1))"

definition Gateway_OnUserClientConnect :: "nat \<Rightarrow> gateway \<Rightarrow> gateway result" where
  "Gateway_OnUserClientConnect i g =
     bindE (HandleAcceptUserClient i (g\<lparr>gw_clients := List.insert i (gw_clients g)\<rparr>)) (\<lambda>(ok, g1).
       if ok then Inr g1 else conn_Close i g1)"

definition Gateway_CheckIfCleanupFinish :: "gateway \<Rightarrow> gateway" where
  "Gateway_CheckIfCleanupFinish g = (if gw_cleanup g \<and> gw_clients g = [] then g\<lparr>gw_cb := gw_cb g + 1\<rparr> else g)"

text \<open>
  The session's callback deletes the session; afterwards the gateway reads the client's pointer to it
  again, which is not null although the object is gone, and resets it.
\<close>

definition Gateway_OnUserClientClose :: "nat \<Rightarrow> gateway \<Rightarrow> gateway result" where
  "Gateway_OnUserClientClose i g = bindE (conn_at i g) (\<lambda>x.
     bindE (case co_session x of None \<Rightarrow> Inr g
       | Some s \<Rightarrow> bindE (sess_at s g) (\<lambda>y.
           SessionManager_DeleteSession s (put_sess s (y\<lparr>se_data := GateSession_OnUserClientClose (se_data y)\<rparr>) g))) (\<lambda>g1.
     bindE (conn_at i g1) (\<lambda>x1.
     let g2 = put_conn i (x1\<lparr>co_session := None\<rparr>) g1 in
     bindE (assertE (i \<in> set (gw_clients g2)) (Inr (g2\<lparr>gw_clients := remove1 i (gw_clients g2)\<rparr>))) (\<lambda>g3.
     bindE (conn_Release i g3) (\<lambda>g4. Inr (Gateway_CheckIfCleanupFinish g4))))))"

text \<open>A new client (reference 1), registered with the dispatcher (reference 2), then connected.\<close>

definition UserClient_Connect :: "int \<Rightarrow> gateway \<Rightarrow> gateway result" where
  "UserClient_Connect fd g = bindE (EventIO_AddToDispatcher fd IO_WRITEABLE EventIO_new) (\<lambda>io.
     let i = gw_next g in
     Gateway_OnUserClientConnect i
       ((put_conn i \<lparr>co_io = io, co_connect = True, co_session = None, co_ref = 2\<rparr> g)\<lparr>gw_next := i + 1\<rparr>))"

definition Gateway_OnListenerAccept :: "int \<Rightarrow> gateway \<Rightarrow> gateway result" where
  "Gateway_OnListenerAccept fd g =
     (if length (gw_clients g) \<ge> gw_max g then Inr (g\<lparr>gw_refused := gw_refused g @ [fd]\<rparr>) else UserClient_Connect fd g)"

text \<open>The accept loop: the descriptors \<open>accept\<close> returns until it would block.\<close>

fun Listener_OnEventIOReadable :: "int list \<Rightarrow> gateway \<Rightarrow> gateway result" where
  "Listener_OnEventIOReadable [] g = Inr g"
| "Listener_OnEventIOReadable (fd # fds) g = bindE (Gateway_OnListenerAccept fd g) (Listener_OnEventIOReadable fds)"

definition Listener_Bind :: "int \<Rightarrow> eventio result" where
  "Listener_Bind fd = EventIO_AddToDispatcher fd IO_READABLE EventIO_new"

definition Gateway_new :: gateway where
  "Gateway_new = \<lparr>gw_conns = (\<lambda>_. None), gw_sess = (\<lambda>_. None), gw_clients = [], gw_players = [], gw_closing = [],
     gw_listener = None, gw_max = 1000, gw_cleanup = False, gw_cb = 0, gw_next = 0, gw_refused = []\<rparr>"

definition Gateway_Setup :: "int \<Rightarrow> nat \<Rightarrow> gateway \<Rightarrow> gateway result" where
  "Gateway_Setup fd max_connections g = bindE (Listener_Bind fd) (\<lambda>l. Inr (g\<lparr>gw_max := max_connections, gw_listener := Some l\<rparr>))"

definition Gateway_StopListener :: "gateway \<Rightarrow> gateway result" where
  "Gateway_StopListener g = (case gw_listener g of None \<Rightarrow> Inr g
     | Some l \<Rightarrow> bindE (EventIO_Close l) (\<lambda>_. Inr (g\<lparr>gw_listener := None\<rparr>)))"

fun close_each :: "nat list \<Rightarrow> gateway \<Rightarrow> gateway result" where
  "close_each [] g = Inr g"
| "close_each (i # is) g = bindE (conn_Close i g) (close_each is)"

definition Gateway_BeginCleanup :: "gateway \<Rightarrow> gateway result" where
  "Gateway_BeginCleanup g = bindE (Gateway_StopListener (g\<lparr>gw_cleanup := True\<rparr>)) (\<lambda>g1.
     bindE (close_each (gw_clients g1) g1) (\<lambda>g2. Inr (Gateway_CheckIfCleanupFinish g2)))"

text \<open>\<open>SendLogout\<close> only queues a packet; \<open>Exit\<close> closes the session's client.\<close>

fun DisconnectAll_loop :: "nat list \<Rightarrow> gateway \<Rightarrow> gateway result" where
  "DisconnectAll_loop [] g = Inr g"
| "DisconnectAll_loop (s # ss) g = bindE (sess_at s g) (\<lambda>x. bindE (conn_Close (se_client x) g) (DisconnectAll_loop ss))"

definition SessionManager_DisconnectAllSession :: "gateway \<Rightarrow> gateway result" where
  "SessionManager_DisconnectAllSession g = DisconnectAll_loop (gw_players g) g"

definition GatewayManager_Setup :: "int \<Rightarrow> nat \<Rightarrow> gateway result" where
  "GatewayManager_Setup fd max_connections = Gateway_Setup fd max_connections Gateway_new"

definition GatewayManager_Stop :: "gateway \<Rightarrow> gateway result" where
  "GatewayManager_Stop g = bindE (Gateway_StopListener g) SessionManager_DisconnectAllSession"

text \<open>The dispatcher's treatment of the first closed object: callback, unlink, release, pop.\<close>

definition close_callback :: "gateway \<Rightarrow> gateway result" where
  "close_callback g = (case gw_closing g of [] \<Rightarrow> Inr g
   | i # rest \<Rightarrow> bindE (conn_at i g) (\<lambda>x.
       bindE (if co_connect x then Gateway_OnUserClientClose i (put_conn i (x\<lparr>co_connect := False\<rparr>) g) else Inr g) (\<lambda>g1.
       bindE (conn_at i g1) (\<lambda>x1.
       bindE (conn_Release i (put_conn i (x1\<lparr>co_io := (co_io x1)\<lparr>io_linked := False\<rparr>\<rparr>) g1)) (\<lambda>g2.
         Inr (g2\<lparr>gw_closing := rest\<rparr>))))))"

section \<open>Invariant\<close>

definition conn_ok :: "gateway \<Rightarrow> nat \<Rightarrow> conn \<Rightarrow> bool" where
  "conn_ok g i x \<longleftrightarrow> co_ref x = 3 \<and> co_connect x \<and> eventio_ok (co_io x) \<and> io_linked (co_io x) \<and>
     (io_closed (co_io x) \<longleftrightarrow> i \<in> set (gw_closing g)) \<and>
     (\<exists>s y. co_session x = Some s \<and> gw_sess g s = Some y \<and> se_client y = i)"

definition gw_core :: "gateway \<Rightarrow> bool" where
  [inv_defs]: "gw_core g \<longleftrightarrow> distinct (gw_clients g) \<and> dom (gw_conns g) = set (gw_clients g) \<and>
     (\<forall>i x. gw_conns g i = Some x \<longrightarrow> conn_ok g i x) \<and>
     distinct (gw_players g) \<and> dom (gw_sess g) = set (gw_players g) \<and>
     (\<forall>s y. gw_sess g s = Some y \<longrightarrow> se_ref y = 1 \<and> (\<exists>x. gw_conns g (se_client y) = Some x \<and> co_session x = Some s)) \<and>
     distinct (gw_closing g) \<and> set (gw_closing g) \<subseteq> set (gw_clients g) \<and> length (gw_clients g) \<le> gw_max g \<and>
     (\<forall>i \<in> set (gw_clients g) \<union> set (gw_players g). i < gw_next g) \<and>
     (\<forall>l. gw_listener g = Some l \<longrightarrow> eventio_ok l)"

text \<open>Once cleanup has begun nothing is accepted and every client left is on its way out.\<close>

definition gw_inv :: "gateway \<Rightarrow> bool" where
  [inv_defs]: "gw_inv g \<longleftrightarrow> gw_core g \<and>
     (gw_cleanup g \<longrightarrow> gw_listener g = None \<and> set (gw_closing g) = set (gw_clients g)) \<and>
     gw_cb g = (if gw_cleanup g \<and> gw_clients g = [] then 1 else 0)"

lemma Gateway_new_inv: "gw_inv Gateway_new"
  by (simp add: gw_inv_def gw_core_def Gateway_new_def)

lemma Setup_inv:
  assumes "fd \<noteq> -1"
  shows "\<exists>g. GatewayManager_Setup fd k = Inr g \<and> gw_inv g \<and> gw_max g = k \<and> \<not> gw_cleanup g"
proof -
  obtain l where "EventIO_AddToDispatcher fd IO_READABLE EventIO_new = Inr l" "eventio_ok l"
    using AddToDispatcher_ok [of EventIO_new fd IO_READABLE] assms EventIO_new_ok by (auto simp: EventIO_new_def)
  then show ?thesis
    by (simp add: GatewayManager_Setup_def Gateway_Setup_def Listener_Bind_def gw_inv_def gw_core_def Gateway_new_def)
qed

lemma core_conn:
  assumes "gw_core g" and "i \<in> set (gw_clients g)"
  shows "\<exists>x. gw_conns g i = Some x \<and> conn_ok g i x"
proof -
  have "i \<in> dom (gw_conns g)" using assms by (simp add: gw_core_def)
  then obtain x where "gw_conns g i = Some x" by blast
  then show ?thesis using assms(1) by (simp add: gw_core_def)
qed

lemma core_sess:
  assumes "gw_core g" and "s \<in> set (gw_players g)"
  shows "\<exists>y x. gw_sess g s = Some y \<and> se_ref y = 1 \<and> se_client y \<in> set (gw_clients g) \<and>
    gw_conns g (se_client y) = Some x \<and> co_session x = Some s"
proof -
  have "s \<in> dom (gw_sess g)" using assms by (simp add: gw_core_def)
  then obtain y where y: "gw_sess g s = Some y" by blast
  then obtain x where "se_ref y = 1" "gw_conns g (se_client y) = Some x" "co_session x = Some s"
    using assms(1) unfolding gw_core_def by blast
  moreover from this have "se_client y \<in> set (gw_clients g)" using assms(1) unfolding gw_core_def by blast
  ultimately show ?thesis using y by blast
qed

subsection \<open>Closing a connection\<close>

lemma conn_Close_core:
  assumes core: "gw_core g" and i: "i \<in> set (gw_clients g)"
  shows "\<exists>g'. conn_Close i g = Inr g' \<and> gw_core g' \<and> set (gw_closing g') = insert i (set (gw_closing g)) \<and>
     gw_clients g' = gw_clients g \<and> gw_players g' = gw_players g \<and> gw_cleanup g' = gw_cleanup g \<and> gw_cb g' = gw_cb g \<and>
     gw_listener g' = gw_listener g \<and> gw_max g' = gw_max g \<and> gw_sess g' = gw_sess g"
proof -
  obtain x where x: "gw_conns g i = Some x" "conn_ok g i x" using core_conn [OF core i] by blast
  obtain io where io: "EventIO_Close (co_io x) = Inr io" "eventio_ok io" "io_linked io" "io_closed io"
    using Close_ok [of "co_io x"] x(2) by (auto simp: conn_ok_def)
  have q: "io_queued io = 1" "io_queued (co_io x) = (if i \<in> set (gw_closing g) then 1 else 0)"
    using io x(2) by (auto simp: eventio_ok_def conn_ok_def)
  let ?g = "put_conn i (x\<lparr>co_io := io\<rparr>) g"
  let ?g' = "if i \<in> set (gw_closing g) then ?g else ?g\<lparr>gw_closing := gw_closing g @ [i]\<rparr>"
  have eq: "conn_Close i g = Inr ?g'"
    using x(1) io(1) q by (auto simp: conn_Close_def conn_at_def put_conn_def)
  have conn: "gw_conns ?g' = (gw_conns g)(i \<mapsto> x\<lparr>co_io := io\<rparr>)" by (simp add: put_conn_def)
  have cl: "set (gw_closing ?g') = insert i (set (gw_closing g))" "distinct (gw_closing ?g')"
    using core by (auto simp: put_conn_def gw_core_def)
  have same: "gw_sess ?g' = gw_sess g" "gw_clients ?g' = gw_clients g" "gw_players ?g' = gw_players g"
      "gw_max ?g' = gw_max g" "gw_next ?g' = gw_next g" "gw_listener ?g' = gw_listener g" "gw_cleanup ?g' = gw_cleanup g" "gw_cb ?g' = gw_cb g"
    by (simp_all add: put_conn_def)
  have ok: "conn_ok ?g' j y" if "gw_conns ?g' j = Some y" for j y
  proof (cases "j = i")
    case True
    then show ?thesis using that conn x(2) io cl by (auto simp: conn_ok_def same)
  next
    case False
    then have "conn_ok g j y" using that conn core by (auto simp: gw_core_def)
    then show ?thesis using False cl by (auto simp: conn_ok_def same)
  qed
  have se: "\<exists>z. gw_conns ?g' (se_client y) = Some z \<and> co_session z = Some s" if "gw_sess g s = Some y" for s y
    using that core x(1) by (auto simp: gw_core_def conn) (metis option.inject)
  have dm: "dom (gw_conns ?g') = set (gw_clients g)" using core x(1) by (auto simp: gw_core_def conn)
  have "gw_core ?g'"
    unfolding gw_core_def using core dm ok se cl i by (simp add: same gw_core_def)
  then show ?thesis using eq cl same by blast
qed

lemma close_each_core:
  assumes "gw_core g" and "set is \<subseteq> set (gw_clients g)"
  shows "\<exists>g'. close_each is g = Inr g' \<and> gw_core g' \<and> set (gw_closing g') = set is \<union> set (gw_closing g) \<and>
     gw_clients g' = gw_clients g \<and> gw_players g' = gw_players g \<and> gw_cleanup g' = gw_cleanup g \<and> gw_cb g' = gw_cb g \<and>
     gw_listener g' = gw_listener g \<and> gw_max g' = gw_max g"
  using assms
proof (induction "is" arbitrary: g)
  case (Cons i "is")
  obtain g1 where 1: "conn_Close i g = Inr g1" "gw_core g1" "set (gw_closing g1) = insert i (set (gw_closing g))"
      "gw_clients g1 = gw_clients g" "gw_players g1 = gw_players g" "gw_cleanup g1 = gw_cleanup g" "gw_cb g1 = gw_cb g"
      "gw_listener g1 = gw_listener g" "gw_max g1 = gw_max g"
    using conn_Close_core [OF Cons.prems(1), of i] Cons.prems(2) by auto
  with Cons.IH [OF 1(2)] Cons.prems(2) show ?case by auto
qed simp

lemma DisconnectAll_core:
  assumes "gw_core g" and "set ss \<subseteq> set (gw_players g)"
  shows "\<exists>g'. DisconnectAll_loop ss g = Inr g' \<and> gw_core g' \<and> gw_clients g' = gw_clients g \<and>
     set (gw_closing g) \<subseteq> set (gw_closing g') \<and>
     (\<forall>s \<in> set ss. \<forall>y. gw_sess g s = Some y \<longrightarrow> se_client y \<in> set (gw_closing g')) \<and>
     gw_players g' = gw_players g \<and> gw_cleanup g' = gw_cleanup g \<and> gw_cb g' = gw_cb g \<and>
     gw_listener g' = gw_listener g \<and> gw_max g' = gw_max g \<and> gw_sess g' = gw_sess g"
  using assms
proof (induction ss arbitrary: g)
  case (Cons s ss)
  obtain y where y: "gw_sess g s = Some y" "se_client y \<in> set (gw_clients g)"
    using core_sess [OF Cons.prems(1), of s] Cons.prems(2) by auto
  obtain g1 where 1: "conn_Close (se_client y) g = Inr g1" "gw_core g1"
      "set (gw_closing g1) = insert (se_client y) (set (gw_closing g))" "gw_clients g1 = gw_clients g"
      "gw_players g1 = gw_players g" "gw_cleanup g1 = gw_cleanup g" "gw_cb g1 = gw_cb g"
      "gw_listener g1 = gw_listener g" "gw_max g1 = gw_max g" "gw_sess g1 = gw_sess g"
    using conn_Close_core [OF Cons.prems(1) y(2)] by blast
  have "set ss \<subseteq> set (gw_players g1)" using Cons.prems(2) 1(5) by simp
  from Cons.IH [OF 1(2) this] 1 y show ?case by (auto simp: sess_at_def)
qed simp

lemma StopListener_core:
  assumes "gw_core g"
  shows "\<exists>g'. Gateway_StopListener g = Inr g' \<and> g' = g\<lparr>gw_listener := None\<rparr> \<and> gw_core g'"
proof (cases "gw_listener g")
  case None
  then have "g\<lparr>gw_listener := None\<rparr> = g" by (cases g) simp
  then show ?thesis using None assms by (simp add: Gateway_StopListener_def)
next
  case (Some l)
  then obtain l' where "EventIO_Close l = Inr l'" using Close_ok [of l] assms by (auto simp: gw_core_def)
  then show ?thesis
    using Some assms by (auto simp: Gateway_StopListener_def gw_core_def conn_ok_def)
qed

subsection \<open>Accepting\<close>

lemma accept_eq:
  assumes "fd \<noteq> -1"
  shows "\<exists>io d. eventio_ok io \<and> io_linked io \<and> \<not> io_closed io \<and> UserClient_Connect fd g =
     Inr (g\<lparr>gw_conns := (gw_conns g)(gw_next g \<mapsto> \<lparr>co_io = io, co_connect = True, co_session = Some (gw_next g + 1), co_ref = 3\<rparr>),
            gw_sess := (gw_sess g)(gw_next g + 1 \<mapsto> \<lparr>se_client = gw_next g, se_ref = 1, se_data = d\<rparr>),
            gw_clients := List.insert (gw_next g) (gw_clients g), gw_players := (gw_next g + 1) # gw_players g,
            gw_next := gw_next g + 2\<rparr>)"
proof -
  obtain io where io: "EventIO_AddToDispatcher fd IO_WRITEABLE EventIO_new = Inr io" "eventio_ok io" "io_linked io" "\<not> io_closed io"
    using AddToDispatcher_ok [of EventIO_new fd IO_WRITEABLE] assms EventIO_new_ok by (auto simp: EventIO_new_def)
  show ?thesis
    using io by (intro exI [of _ io] exI [of _ "(GateSession_new False)\<lparr>gs_response := True\<rparr>"], cases g)
      (simp add: UserClient_Connect_def Gateway_OnUserClientConnect_def HandleAcceptUserClient_def
        SessionManager_CreateSession_def UserSession_new_def conn_at_def sess_at_def put_conn_def put_sess_def conn_Retain_def
        GateSession_Setup_def Let_def)
qed

lemma accept_core:
  assumes core: "gw_core g" and fd: "fd \<noteq> -1"
  shows "\<exists>g'. Gateway_OnListenerAccept fd g = Inr g' \<and> gw_core g' \<and> gw_cleanup g' = gw_cleanup g \<and> gw_cb g' = gw_cb g \<and>
     gw_listener g' = gw_listener g \<and> gw_max g' = gw_max g"
proof (cases "length (gw_clients g) \<ge> gw_max g")
  case True
  then show ?thesis using core by (simp add: Gateway_OnListenerAccept_def gw_core_def conn_ok_def)
next
  case False
  define i s where "i = gw_next g" and "s = gw_next g + 1"
  obtain io d g' where io: "eventio_ok io" "io_linked io" "\<not> io_closed io" and eq: "UserClient_Connect fd g = Inr g'"
    and sel: "gw_conns g' = (gw_conns g)(i \<mapsto> \<lparr>co_io = io, co_connect = True, co_session = Some s, co_ref = 3\<rparr>)"
      "gw_sess g' = (gw_sess g)(s \<mapsto> \<lparr>se_client = i, se_ref = 1, se_data = d\<rparr>)"
      "gw_clients g' = List.insert i (gw_clients g)" "gw_players g' = s # gw_players g" "gw_next g' = gw_next g + 2"
      "gw_closing g' = gw_closing g" "gw_max g' = gw_max g" "gw_listener g' = gw_listener g" "gw_cleanup g' = gw_cleanup g" "gw_cb g' = gw_cb g"
    using accept_eq [OF fd, of g] unfolding i_def s_def by force
  have lt: "\<forall>j \<in> set (gw_clients g). j < gw_next g" "\<forall>j \<in> set (gw_players g). j < gw_next g"
    using core by (simp_all add: gw_core_def)
  have fresh: "i \<notin> set (gw_clients g)" "s \<notin> set (gw_players g)" using lt by (auto simp: i_def s_def)
  then have "i \<notin> dom (gw_conns g)" "s \<notin> dom (gw_sess g)" using core by (simp_all add: gw_core_def)
  then have nc: "gw_conns g i = None" "gw_sess g s = None" by (simp_all only: domIff not_not)
  have sub: "set (gw_closing g) \<subseteq> set (gw_clients g)" using core by (simp add: gw_core_def)
  have cok: "\<And>j x. gw_conns g j = Some x \<Longrightarrow> conn_ok g j x" using core by (simp add: gw_core_def)
  have sok: "\<And>k y. gw_sess g k = Some y \<Longrightarrow> se_ref y = 1 \<and> (\<exists>x. gw_conns g (se_client y) = Some x \<and> co_session x = Some k)"
    using core by (simp add: gw_core_def)
  have ok: "conn_ok g' j x" if "gw_conns g' j = Some x" for j x
  proof (cases "j = i")
    case True
    have "i \<notin> set (gw_closing g)" using fresh sub by blast
    then show ?thesis using that io True by (auto simp: conn_ok_def sel)
  next
    case False
    then have c: "conn_ok g j x" using that cok by (simp add: sel)
    then obtain k y where k: "co_session x = Some k" "gw_sess g k = Some y" "se_client y = j" by (auto simp: conn_ok_def)
    then have "gw_sess g' k = Some y" using nc(2) by (auto simp: sel)
    then show ?thesis using c k by (simp add: conn_ok_def sel(6))
  qed
  have se: "se_ref y = 1 \<and> (\<exists>x. gw_conns g' (se_client y) = Some x \<and> co_session x = Some k)" if "gw_sess g' k = Some y" for k y
  proof (cases "k = s")
    case True
    then show ?thesis using that by (auto simp: sel)
  next
    case False
    then have "gw_sess g k = Some y" using that by (simp add: sel)
    from sok [OF this] obtain x where "se_ref y = 1" "gw_conns g (se_client y) = Some x" "co_session x = Some k" by blast
    moreover from this have "se_client y \<noteq> i" using nc(1) by auto
    ultimately show ?thesis by (simp add: sel)
  qed
  have "gw_core g'"
    unfolding gw_core_def
  proof (intro conjI)
    show "dom (gw_conns g') = set (gw_clients g')" "dom (gw_sess g') = set (gw_players g')"
        "distinct (gw_clients g')" "distinct (gw_players g')" "distinct (gw_closing g')"
        "\<forall>l. gw_listener g' = Some l \<longrightarrow> eventio_ok l"
      using core fresh by (simp_all add: gw_core_def sel)
    show "set (gw_closing g') \<subseteq> set (gw_clients g')" using sub by (auto simp: sel)
    show "length (gw_clients g') \<le> gw_max g'" using False fresh by (simp add: sel)
    show "\<forall>i \<in> set (gw_clients g') \<union> set (gw_players g'). i < gw_next g'"
      using lt by (auto simp: sel i_def s_def less_SucI)
  qed (use ok se in blast)+
  then show ?thesis using False eq sel by (simp add: Gateway_OnListenerAccept_def)
qed

subsection \<open>The close callback\<close>

lemma close_callback_eq:
  assumes core: "gw_core g" and cl: "gw_closing g = i # rest"
  obtains s where "close_callback g = Inr (Gateway_CheckIfCleanupFinish
      (g\<lparr>gw_conns := (gw_conns g)(i := None), gw_sess := (gw_sess g)(s := None), gw_clients := remove1 i (gw_clients g),
         gw_players := remove1 s (gw_players g), gw_closing := rest\<rparr>))"
    and "s \<in> set (gw_players g)" and "\<exists>y. gw_sess g s = Some y \<and> se_client y = i" and "i \<in> set (gw_clients g)"
    and "\<exists>x. gw_conns g i = Some x \<and> co_session x = Some s"
proof -
  have i: "i \<in> set (gw_clients g)" using core cl by (auto simp: gw_core_def)
  obtain x where x: "gw_conns g i = Some x" "conn_ok g i x" using core_conn [OF core i] by blast
  obtain s y where s: "co_session x = Some s" "gw_sess g s = Some y" "se_client y = i" using x(2) by (auto simp: conn_ok_def)
  have sp: "s \<in> set (gw_players g)" using core s(2) unfolding gw_core_def by blast
  have r: "se_ref y = 1" using core s(2) unfolding gw_core_def by blast
  have x3: "co_ref x = 3" "co_connect x" using x(2) by (auto simp: conn_ok_def)
  have "close_callback g = Inr (Gateway_CheckIfCleanupFinish
      (g\<lparr>gw_conns := (gw_conns g)(i := None), gw_sess := (gw_sess g)(s := None), gw_clients := remove1 i (gw_clients g),
         gw_players := remove1 s (gw_players g), gw_closing := rest\<rparr>))"
    using cl x(1) x3 s r i
    by (simp add: close_callback_def conn_at_def sess_at_def Gateway_OnUserClientClose_def put_conn_def put_sess_def
        SessionManager_DeleteSession_def sess_Release_def UserSession_destroy_def conn_Release_def assertE_def
        Gateway_CheckIfCleanupFinish_def Let_def)
  then show ?thesis using that sp s i x(1) by blast
qed

lemma close_callback_core:
  assumes core: "gw_core g" and cl: "gw_closing g = i # rest"
  shows "\<exists>g' g1. close_callback g = Inr g' \<and> g' = Gateway_CheckIfCleanupFinish g1 \<and> gw_core g1 \<and>
     gw_clients g1 = remove1 i (gw_clients g) \<and> gw_closing g1 = rest \<and> gw_cleanup g1 = gw_cleanup g \<and> gw_cb g1 = gw_cb g \<and>
     gw_listener g1 = gw_listener g \<and> gw_max g1 = gw_max g \<and> i \<in> set (gw_clients g)"
proof -
  obtain s where eq: "close_callback g = Inr (Gateway_CheckIfCleanupFinish
      (g\<lparr>gw_conns := (gw_conns g)(i := None), gw_sess := (gw_sess g)(s := None), gw_clients := remove1 i (gw_clients g),
         gw_players := remove1 s (gw_players g), gw_closing := rest\<rparr>))" (is "_ = Inr (Gateway_CheckIfCleanupFinish ?g)")
    and s: "s \<in> set (gw_players g)" "\<exists>y. gw_sess g s = Some y \<and> se_client y = i" "i \<in> set (gw_clients g)"
      "\<exists>x. gw_conns g i = Some x \<and> co_session x = Some s"
    using close_callback_eq [OF core cl] by blast
  have ok: "conn_ok ?g j x" if "gw_conns ?g j = Some x" for j x
  proof -
    have j: "j \<noteq> i" "gw_conns g j = Some x" using that by (auto split: if_splits)
    then have c: "conn_ok g j x" using core by (auto simp: gw_core_def)
    then obtain k y where k: "co_session x = Some k" "gw_sess g k = Some y" "se_client y = j" by (auto simp: conn_ok_def)
    then have "k \<noteq> s" using s(2) j(1) by auto
    then show ?thesis using c k j(1) cl by (auto simp: conn_ok_def)
  qed
  have se: "se_ref y = 1 \<and> (\<exists>x. gw_conns ?g (se_client y) = Some x \<and> co_session x = Some k)" if "gw_sess ?g k = Some y" for k y
  proof -
    have k: "k \<noteq> s" "gw_sess g k = Some y" using that by (auto split: if_splits)
    then obtain x where x: "se_ref y = 1" "gw_conns g (se_client y) = Some x" "co_session x = Some k"
      using core unfolding gw_core_def by blast
    then have "se_client y \<noteq> i" using s(4) k(1) by auto
    then show ?thesis using x by simp
  qed
  have "gw_core ?g"
    unfolding gw_core_def
  proof (intro conjI)
    show "dom (gw_conns ?g) = set (gw_clients ?g)" "dom (gw_sess ?g) = set (gw_players ?g)" "distinct (gw_clients ?g)"
        "distinct (gw_players ?g)" "distinct (gw_closing ?g)" "set (gw_closing ?g) \<subseteq> set (gw_clients ?g)"
      using core cl by (auto simp: gw_core_def)
    have "length (gw_clients g) \<le> gw_max g" using core by (simp add: gw_core_def)
    then show "length (gw_clients ?g) \<le> gw_max ?g" by (auto simp: length_remove1)
    show "\<forall>i \<in> set (gw_clients ?g) \<union> set (gw_players ?g). i < gw_next ?g"
      using core by (auto simp: gw_core_def dest: notin_set_remove1)
    show "\<forall>l. gw_listener ?g = Some l \<longrightarrow> eventio_ok l" using core by (simp add: gw_core_def)
  qed (use ok se in blast)+
  then show ?thesis using eq s(3) by (intro exI [of _ "Gateway_CheckIfCleanupFinish ?g"] exI [of _ ?g]) simp
qed

lemma CheckIfCleanupFinish_core: "gw_core g \<Longrightarrow> gw_core (Gateway_CheckIfCleanupFinish g)"
  by (auto simp: Gateway_CheckIfCleanupFinish_def gw_core_def conn_ok_def)

lemma close_callback_inv:
  assumes inv: "gw_inv g" and cl: "gw_closing g = i # rest"
  shows "\<exists>g'. close_callback g = Inr g' \<and> gw_inv g' \<and> gw_clients g' = remove1 i (gw_clients g) \<and> gw_closing g' = rest \<and>
     gw_cleanup g' = gw_cleanup g"
proof -
  have core: "gw_core g" using inv by (simp add: gw_inv_def)
  obtain g' g1 where r: "close_callback g = Inr g'" "g' = Gateway_CheckIfCleanupFinish g1" "gw_core g1"
      "gw_clients g1 = remove1 i (gw_clients g)" "gw_closing g1 = rest" "gw_cleanup g1 = gw_cleanup g" "gw_cb g1 = gw_cb g"
      "gw_listener g1 = gw_listener g" "i \<in> set (gw_clients g)"
    using close_callback_core [OF core cl] by blast
  have "gw_clients g \<noteq> []" using r(9) by auto
  then have cb: "gw_cb g = 0" using inv by (simp add: gw_inv_def)
  have "set rest = set (remove1 i (gw_clients g))" if "gw_cleanup g"
    using inv core cl that by (auto simp: gw_inv_def gw_core_def)
  then have "gw_inv g'"
    using inv r cb CheckIfCleanupFinish_core [OF r(3)] by (auto simp: gw_inv_def Gateway_CheckIfCleanupFinish_def)
  then show ?thesis using r by (auto simp: Gateway_CheckIfCleanupFinish_def)
qed

section \<open>Steps and properties\<close>

inductive gw_step :: "gateway \<Rightarrow> gateway \<Rightarrow> bool" where
  accept: "gw_listener g \<noteq> None \<Longrightarrow> -1 \<notin> set fds \<Longrightarrow> Listener_OnEventIOReadable fds g = Inr g' \<Longrightarrow> gw_step g g'"
| close: "i \<in> set (gw_clients g) \<Longrightarrow> conn_Close i g = Inr g' \<Longrightarrow> gw_step g g'"
| callback: "close_callback g = Inr g' \<Longrightarrow> gw_step g g'"
| stop: "GatewayManager_Stop g = Inr g' \<Longrightarrow> gw_step g g'"
| cleanup: "\<not> gw_cleanup g \<Longrightarrow> Gateway_BeginCleanup g = Inr g' \<Longrightarrow> gw_step g g'"

inductive gw_reachable :: "gateway \<Rightarrow> bool" where
  init: "fd \<noteq> -1 \<Longrightarrow> GatewayManager_Setup fd k = Inr g \<Longrightarrow> gw_reachable g"
| step: "gw_reachable g \<Longrightarrow> gw_step g g' \<Longrightarrow> gw_reachable g'"

lemma accept_loop_inv:
  assumes "gw_inv g" and "gw_listener g \<noteq> None" and "-1 \<notin> set fds"
  shows "\<exists>g'. Listener_OnEventIOReadable fds g = Inr g' \<and> gw_inv g' \<and> gw_listener g' \<noteq> None"
  using assms
proof (induction fds arbitrary: g)
  case (Cons fd fds)
  have core: "gw_core g" and nc: "\<not> gw_cleanup g" and cb: "gw_cb g = 0" using Cons.prems by (auto simp: gw_inv_def)
  obtain g1 where 1: "Gateway_OnListenerAccept fd g = Inr g1" "gw_core g1" "gw_cleanup g1 = gw_cleanup g" "gw_cb g1 = gw_cb g"
      "gw_listener g1 = gw_listener g"
    using accept_core [OF core, of fd] Cons.prems(3) by auto
  then have "gw_inv g1" using nc cb by (simp add: gw_inv_def)
  with Cons.IH [of g1] 1 Cons.prems(2,3) show ?case by auto
qed simp

lemma BeginCleanup_inv:
  assumes inv: "gw_inv g" and nc: "\<not> gw_cleanup g"
  shows "\<exists>g'. Gateway_BeginCleanup g = Inr g' \<and> gw_inv g' \<and> gw_cleanup g' \<and> gw_clients g' = gw_clients g"
proof -
  let ?g0 = "g\<lparr>gw_cleanup := True\<rparr>" let ?g1 = "?g0\<lparr>gw_listener := None\<rparr>"
  have "gw_core ?g0" using inv by (simp add: gw_inv_def gw_core_def conn_ok_def)
  then have s: "Gateway_StopListener ?g0 = Inr ?g1" "gw_core ?g1" using StopListener_core [of ?g0] by auto
  obtain g2 where c: "close_each (gw_clients ?g1) ?g1 = Inr g2" "gw_core g2"
      "set (gw_closing g2) = set (gw_clients g) \<union> set (gw_closing g)" "gw_clients g2 = gw_clients g" "gw_cleanup g2"
      "gw_cb g2 = gw_cb g" "gw_listener g2 = None"
    using close_each_core [OF s(2), of "gw_clients ?g1"] by auto
  have "gw_cb g = 0" "set (gw_closing g) \<subseteq> set (gw_clients g)" using inv nc by (auto simp: gw_inv_def gw_core_def)
  then have "gw_inv (Gateway_CheckIfCleanupFinish g2)"
    using c CheckIfCleanupFinish_core [OF c(2)] by (auto simp: gw_inv_def Gateway_CheckIfCleanupFinish_def)
  then show ?thesis using s(1) c by (auto simp: Gateway_BeginCleanup_def Gateway_CheckIfCleanupFinish_def)
qed

lemma Stop_inv:
  assumes inv: "gw_inv g"
  shows "\<exists>g'. GatewayManager_Stop g = Inr g' \<and> gw_inv g' \<and> gw_listener g' = None \<and> set (gw_closing g') = set (gw_clients g')"
proof -
  let ?g1 = "g\<lparr>gw_listener := None\<rparr>"
  have core: "gw_core g" using inv by (simp add: gw_inv_def)
  have s: "Gateway_StopListener g = Inr ?g1" "gw_core ?g1" using StopListener_core [OF core] by auto
  obtain g2 where d: "DisconnectAll_loop (gw_players ?g1) ?g1 = Inr g2" "gw_core g2" "gw_clients g2 = gw_clients g"
      "\<forall>s \<in> set (gw_players g). \<forall>y. gw_sess g s = Some y \<longrightarrow> se_client y \<in> set (gw_closing g2)"
      "gw_cleanup g2 = gw_cleanup g" "gw_cb g2 = gw_cb g" "gw_listener g2 = None"
    using DisconnectAll_core [OF s(2), of "gw_players ?g1"] by auto
  have "i \<in> set (gw_closing g2)" if i: "i \<in> set (gw_clients g)" for i
  proof -
    obtain x where "gw_conns g i = Some x" "conn_ok g i x" using core_conn [OF core i] by blast
    then obtain s y where "gw_sess g s = Some y" "se_client y = i" by (auto simp: conn_ok_def)
    moreover from this have "s \<in> set (gw_players g)" using core unfolding gw_core_def by blast
    ultimately show ?thesis using d(4) by blast
  qed
  moreover have "set (gw_closing g2) \<subseteq> set (gw_clients g2)" using d(2) by (simp add: gw_core_def)
  ultimately have "set (gw_closing g2) = set (gw_clients g2)" using d(3) by auto
  then show ?thesis
    using s(1) d inv by (auto simp: GatewayManager_Stop_def SessionManager_DisconnectAllSession_def gw_inv_def)
qed

lemma gw_step_inv: "gw_step g g' \<Longrightarrow> gw_inv g \<Longrightarrow> gw_inv g'"
proof (induction rule: gw_step.induct)
  case (accept g fds g')
  then show ?case using accept_loop_inv [of g fds] by auto
next
  case (close i g g')
  then show ?case using conn_Close_core [of g i] by (auto simp: gw_inv_def)
next
  case (callback g g')
  show ?case
  proof (cases "gw_closing g")
    case Nil
    then show ?thesis using callback by (simp add: close_callback_def)
  next
    case (Cons i rest)
    then show ?thesis using callback close_callback_inv [of g i rest] by auto
  qed
next
  case (stop g g')
  then show ?case using Stop_inv [of g] by auto
next
  case (cleanup g g')
  then show ?case using BeginCleanup_inv [of g] by auto
qed

lemma gw_reachable_inv: "gw_reachable g \<Longrightarrow> gw_inv g"
proof (induction rule: gw_reachable.induct)
  case (init fd k g)
  then show ?case using Setup_inv [of fd k] by auto
qed (use gw_step_inv in blast)

primrec run_callbacks :: "nat \<Rightarrow> gateway \<Rightarrow> gateway result" where
  "run_callbacks 0 g = Inr g"
| "run_callbacks (Suc n) g = bindE (close_callback g) (run_callbacks n)"

lemma run_callbacks_empty:
  assumes "gw_inv g" and "gw_cleanup g" and "length (gw_closing g) = n"
  shows "\<exists>g'. run_callbacks n g = Inr g' \<and> gw_inv g' \<and> gw_clients g' = [] \<and> gw_closing g' = [] \<and> gw_cleanup g'"
  using assms
proof (induction n arbitrary: g)
  case 0
  then have "set (gw_clients g) = {}" by (auto simp: gw_inv_def)
  then show ?case using 0 by auto
next
  case (Suc n)
  obtain i rest where cl: "gw_closing g = i # rest" using Suc.prems(3) by (cases "gw_closing g") auto
  obtain g1 where "close_callback g = Inr g1" "gw_inv g1" "gw_closing g1 = rest" "gw_cleanup g1"
    using close_callback_inv [OF Suc.prems(1) cl] Suc.prems(2) by auto
  with Suc.IH [of g1] Suc.prems(3) cl show ?case by auto
qed

text \<open>
  C13. Lifetimes at the gateway. In every state reachable by accepting, closing, the dispatcher's close
  callbacks, stopping and cleanup: each connection of the gateway is alive with exactly the three
  references of the gateway, the dispatcher and its session, each session belongs to one connection and
  back, nothing else is alive, there are never more connections than allowed, and no operation touches a
  freed object or fails an assertion.
\<close>

theorem Gateway_lifetimes:
  assumes "gw_reachable g"
  shows "dom (gw_conns g) = set (gw_clients g) \<and> dom (gw_sess g) = set (gw_players g) \<and> length (gw_clients g) \<le> gw_max g \<and>
     (\<forall>i \<in> set (gw_clients g). \<exists>x s y. gw_conns g i = Some x \<and> co_ref x = 3 \<and> co_session x = Some s \<and>
        gw_sess g s = Some y \<and> se_client y = i \<and> se_ref y = 1) \<and>
     (\<forall>i \<in> set (gw_clients g). \<exists>g'. conn_Close i g = Inr g') \<and> (\<exists>g'. close_callback g = Inr g') \<and>
     (\<exists>g'. GatewayManager_Stop g = Inr g') \<and> (\<exists>g'. Gateway_BeginCleanup g = Inr g' \<or> gw_cleanup g) \<and>
     (\<forall>fd. fd = -1 \<or> (\<exists>g'. Gateway_OnListenerAccept fd g = Inr g'))"
proof (intro conjI ballI allI)
  have inv: "gw_inv g" using assms by (rule gw_reachable_inv)
  then have core: "gw_core g" by (simp add: gw_inv_def)
  show "dom (gw_conns g) = set (gw_clients g)" "dom (gw_sess g) = set (gw_players g)" "length (gw_clients g) \<le> gw_max g"
    using core by (simp_all add: gw_core_def)
  show "\<exists>g'. close_callback g = Inr g'"
    using close_callback_inv [OF inv] by (cases "gw_closing g") (auto simp: close_callback_def)
  show "\<exists>g'. GatewayManager_Stop g = Inr g'" using Stop_inv [OF inv] by blast
  show "\<exists>g'. Gateway_BeginCleanup g = Inr g' \<or> gw_cleanup g" using BeginCleanup_inv [OF inv] by blast
  show "fd = -1 \<or> (\<exists>g'. Gateway_OnListenerAccept fd g = Inr g')" for fd using accept_core [OF core] by blast
  fix i
  assume i: "i \<in> set (gw_clients g)"
  show "\<exists>g'. conn_Close i g = Inr g'" using conn_Close_core [OF core i] by blast
  obtain x where x: "gw_conns g i = Some x" "conn_ok g i x" using core_conn [OF core i] by blast
  then obtain s y where s: "co_session x = Some s" "gw_sess g s = Some y" "se_client y = i" "co_ref x = 3" by (auto simp: conn_ok_def)
  moreover have "se_ref y = 1" using core s(2) unfolding gw_core_def by blast
  ultimately show "\<exists>x s y. gw_conns g i = Some x \<and> co_ref x = 3 \<and> co_session x = Some s \<and>
        gw_sess g s = Some y \<and> se_client y = i \<and> se_ref y = 1" using x(1) by blast
qed

lemma setup_reachable: "\<exists>g. GatewayManager_Setup 3 1 = Inr g \<and> gw_reachable g \<and> gw_listener g \<noteq> None"
proof -
  obtain g where g: "GatewayManager_Setup 3 1 = Inr g" using Setup_inv [of 3 1] by auto
  moreover have "gw_reachable g" using gw_reachable.init [OF _ g] by simp
  moreover have "gw_listener g \<noteq> None"
    using g by (auto simp: GatewayManager_Setup_def Gateway_Setup_def bindE_eq_Inr)
  ultimately show ?thesis by blast
qed

theorem Gateway_lifetimes_witness:
  "\<exists>g g'. GatewayManager_Setup 3 1 = Inr g \<and> Gateway_OnListenerAccept 4 g = Inr g' \<and> length (gw_clients g') \<le> gw_max g' \<and>
     (\<exists>g''. GatewayManager_Stop g' = Inr g'')"
proof -
  obtain g where g: "GatewayManager_Setup 3 1 = Inr g" "gw_reachable g" "gw_listener g \<noteq> None"
    using setup_reachable by blast
  obtain g' where a: "Gateway_OnListenerAccept 4 g = Inr g'" 
    using accept_core [of g 4] gw_reachable_inv [OF g(2)] by (auto simp: gw_inv_def)
  then have "Listener_OnEventIOReadable [4] g = Inr g'" by simp
  then have "gw_reachable g'" using gw_reachable.step [OF g(2) gw_step.accept [OF g(3), of "[4]"]] by simp
  from Gateway_lifetimes [OF this] show ?thesis using g a by blast
qed

text \<open>
  C17. Cleanup finishes. After \<open>BeginCleanup\<close> in any reachable state, running the pending close callbacks
  leaves no connection and no session alive, and the completion callback has been called exactly once.
\<close>

theorem Gateway_cleanup_completes:
  assumes "gw_reachable g" and "\<not> gw_cleanup g" and "Gateway_BeginCleanup g = Inr g1"
  shows "\<exists>g'. run_callbacks (length (gw_closing g1)) g1 = Inr g' \<and> gw_clients g' = [] \<and>
     gw_conns g' = (\<lambda>_. None) \<and> gw_sess g' = (\<lambda>_. None) \<and> gw_cb g' = 1"
proof -
  have i1: "gw_inv g1" "gw_cleanup g1" using BeginCleanup_inv [OF gw_reachable_inv [OF assms(1)] assms(2)] assms(3) by auto
  obtain g' where r: "run_callbacks (length (gw_closing g1)) g1 = Inr g'" "gw_inv g'" "gw_clients g' = []" "gw_cleanup g'"
    using run_callbacks_empty [OF i1 refl] by blast
  have core: "gw_core g'" "gw_cb g' = 1" using r(2-4) by (auto simp: gw_inv_def)
  then have cn: "gw_conns g' = (\<lambda>_. None)" using r(3) by (simp add: gw_core_def)
  have "gw_sess g' s = None" for s
  proof (rule ccontr)
    assume "gw_sess g' s \<noteq> None"
    then obtain y where "gw_sess g' s = Some y" by blast
    then have "gw_conns g' (se_client y) \<noteq> None" using core(1) unfolding gw_core_def by blast
    then show False using cn by simp
  qed
  then show ?thesis using r core cn by auto
qed

theorem Gateway_cleanup_completes_witness:
  "\<exists>g g1 g'. GatewayManager_Setup 3 1 = Inr g \<and> Gateway_BeginCleanup g = Inr g1 \<and>
     run_callbacks (length (gw_closing g1)) g1 = Inr g' \<and> gw_cb g' = 1"
proof -
  obtain g where g: "GatewayManager_Setup 3 1 = Inr g" "gw_reachable g" using setup_reachable by blast
  have nc: "\<not> gw_cleanup g"
    using g(1) by (auto simp: GatewayManager_Setup_def Gateway_Setup_def Gateway_new_def bindE_eq_Inr)
  obtain g1 where b: "Gateway_BeginCleanup g = Inr g1" using BeginCleanup_inv [OF gw_reachable_inv [OF g(2)] nc] by blast
  from Gateway_cleanup_completes [OF g(2) nc b] show ?thesis using g(1) b by blast
qed

end
