(* ===== verification/Timer.thy ===== *)
theory Timer
  imports ObjectModel
begin

text \<open>
  \<open>base/timer.h\<close>: the timer queue of the dispatcher, a multimap from expiry to delayed actions; an action
  with a linker runs only while somebody besides the timer holds the linker. A callback is its identity
  together with the timeouts it sets while it runs, so that callbacks that re-enter the timer are
  covered; the trace lists the callbacks run. The tick provider is the argument \<open>now\<close> of the operations
  and, for the callbacks run by \<open>Update\<close>, a clock read per callback. Theorems: \<open>Update\<close> ends, runs exactly the due actions in
  order of expiry and of insertion, leaves nothing due, keeps one reference per linker, and re-arms
  interval actions.
\<close>

section \<open>Model\<close>

datatype callback = Callback (cb_id: nat) (cb_sets: "(int \<times> callback) list")

record delayaction =
  da_fun :: callback
  da_tick :: int
  da_linker :: "oid option"
  da_interval :: int

type_synonym timerq = "(int \<times> delayaction) list"

record timer =
  tm_queue :: timerq
  tm_intervals :: "delayaction list"

text \<open>\<open>emplace\<close> of a multimap: behind all entries with the same key.\<close>

fun tm_emplace :: "int \<Rightarrow> delayaction \<Rightarrow> timerq \<Rightarrow> timerq" where
  "tm_emplace k a [] = [(k, a)]"
| "tm_emplace k a ((k', a') # q) = (if k' \<le> k then (k', a') # tm_emplace k a q else (k, a) # (k', a') # q)"

definition Timer_new :: timer where
  "Timer_new = \<lparr>tm_queue = [], tm_intervals = []\<rparr>"

definition Timer_size :: "timer \<Rightarrow> nat" where
  "Timer_size t = length (tm_queue t)"

definition DelayAction_delete :: "delayaction \<Rightarrow> objheap \<Rightarrow> objheap result" where
  "DelayAction_delete a h = bindE (SAFE_RELEASE (da_linker a) h) (\<lambda>(_, h'). Inr h')"

definition DelayAction_ResetTimeout :: "int \<Rightarrow> delayaction \<Rightarrow> delayaction" where
  "DelayAction_ResetTimeout timeout a = a\<lparr>da_tick := timeout\<rparr>"

text \<open>Whether \<open>operator()\<close> calls the function.\<close>

definition DelayAction_call :: "delayaction \<Rightarrow> objheap \<Rightarrow> bool result" where
  "DelayAction_call a h = (case da_linker a of None \<Rightarrow> Inr True
     | Some l \<Rightarrow> bindE (Object_reference_count l h) (\<lambda>n. Inr (n = 2)))"

definition timeout_action :: "int \<Rightarrow> callback \<Rightarrow> delayaction" where
  "timeout_action tick f = \<lparr>da_fun = f, da_tick = tick, da_linker = None, da_interval = 0\<rparr>"

definition Timer_SetTimeout :: "int \<Rightarrow> callback \<Rightarrow> int \<Rightarrow> timer \<Rightarrow> timer" where
  "Timer_SetTimeout now f timeout t = (let k = timeout + now in t\<lparr>tm_queue := tm_emplace k (timeout_action k f) (tm_queue t)\<rparr>)"

definition Timer_SetTimeoutWithLinker :: "int \<Rightarrow> callback \<Rightarrow> int \<Rightarrow> timer \<times> objheap \<Rightarrow> oid \<times> timer \<times> objheap" where
  "Timer_SetTimeoutWithLinker now f timeout s = (let (l, h) = Object_new (snd s); k = timeout + now in
     (l, (fst s)\<lparr>tm_queue := tm_emplace k \<lparr>da_fun = f, da_tick = k, da_linker = Some l, da_interval = 0\<rparr> (tm_queue (fst s))\<rparr>, h))"

definition Timer_SetIntervalWithLinker :: "int \<Rightarrow> callback \<Rightarrow> int \<Rightarrow> timer \<times> objheap \<Rightarrow> oid \<times> timer \<times> objheap" where
  "Timer_SetIntervalWithLinker now f interval s = (let (l, h) = Object_new (snd s); k = interval + now in
     (l, (fst s)\<lparr>tm_queue := tm_emplace k \<lparr>da_fun = f, da_tick = k, da_linker = Some l, da_interval = interval\<rparr> (tm_queue (fst s))\<rparr>, h))"

text \<open>
  The loop of \<open>Update\<close>: \<open>bef\<close> are the entries before the iterator, the head of the second list the entry
  it points to. Timeouts set by the callback land before or behind the iterator by their key.
\<close>

fun place_sets :: "int \<Rightarrow> int \<Rightarrow> (int \<times> callback) list \<Rightarrow> timerq \<times> timerq \<Rightarrow> timerq \<times> timerq" where
  "place_sets now key [] z = z"
| "place_sets now key ((d, f) # sets) z =
     (let k = d + now; a = timeout_action k f in
      place_sets now key sets (if k < key then (tm_emplace k a (fst z), snd z) else (fst z, tm_emplace k a (snd z))))"

definition q_weight :: "timerq \<Rightarrow> nat" where
  "q_weight q = sum_list (map (\<lambda>e. size (da_fun (snd e))) q)"

lemma q_weight_emplace [simp]: "q_weight (tm_emplace k a q) = size (da_fun a) + q_weight q"
  by (induction k a q rule: tm_emplace.induct) (auto simp: q_weight_def)

lemma q_weight_place_sets:
  "q_weight (snd (place_sets now key sets z)) \<le> q_weight (snd z) + sum_list (map (\<lambda>x. size (snd x)) sets)"
proof (induction now key sets z rule: place_sets.induct)
  case (2 now key d f sets z)
  show ?case
    using 2 [OF refl refl] by (auto simp: Let_def timeout_action_def split: if_splits)
qed simp

lemma size_callback: "sum_list (map (\<lambda>x. size (snd x)) (cb_sets c)) < size c"
proof (cases c)
  case (Callback i sets)
  have "sum_list (map (\<lambda>x. size (snd x)) sets) \<le> size_list (size_prod (\<lambda>x. 0) size) sets"
    by (induction sets) auto
  then show ?thesis
    using Callback by simp
qed

lemma place_sets_head:
  "snd (place_sets now key sets (bef, (key, a) # q)) = (key, a) # tl (snd (place_sets now key sets (bef, (key, a) # q)))"
proof -
  have "snd z = (key, a) # q \<Longrightarrow> snd (place_sets now key sets z) = (key, a) # tl (snd (place_sets now key sets z))" for z
    by (induction now key sets z arbitrary: q rule: place_sets.induct) (auto simp: Let_def)
  then show ?thesis by simp
qed

lemma q_weight_Cons: "q_weight (e # q) = size (da_fun (snd e)) + q_weight q"
  by (simp add: q_weight_def)

lemma update_step_decreases:
  "q_weight (tl (snd (if run then place_sets now k (cb_sets (da_fun a)) (bef, (k, a) # q) else (bef, (k, a) # q))))
     < q_weight ((k, a) # q)"
proof (cases run)
  case True
  let ?z = "snd (place_sets now k (cb_sets (da_fun a)) (bef, (k, a) # q))"
  have "q_weight ?z = size (da_fun a) + q_weight (tl ?z)"
    using place_sets_head [of now k "cb_sets (da_fun a)" bef a q] by (metis q_weight_Cons snd_conv)
  moreover have "q_weight ?z < q_weight ((k, a) # q) + size (da_fun a)"
    using q_weight_place_sets [of now k "cb_sets (da_fun a)" "(bef, (k, a) # q)"] size_callback [of "da_fun a"]
    by simp
  ultimately show ?thesis
    using True by simp
next
  case False
  have "0 < size (da_fun a)"
    by (cases "da_fun a") simp
  then show ?thesis
    using False by (simp add: q_weight_Cons)
qed

function Update_loop ::
  "(nat \<Rightarrow> int) \<Rightarrow> int \<Rightarrow> timerq \<Rightarrow> timerq \<Rightarrow> delayaction list \<Rightarrow> objheap \<Rightarrow> nat list
     \<Rightarrow> (timerq \<times> delayaction list \<times> objheap \<times> nat list) result" where
  "Update_loop clock tick bef [] ivs h tr = Inr (bef, ivs, h, tr)"
| "Update_loop clock tick bef ((k, a) # q) ivs h tr =
     (if k > tick then Inr (bef @ (k, a) # q, ivs, h, tr)
      else bindE (DelayAction_call a h) (\<lambda>run.
        let z = (if run then place_sets (clock (length tr)) k (cb_sets (da_fun a)) (bef, (k, a) # q) else (bef, (k, a) # q));
            tr' = (if run then tr @ [cb_id (da_fun a)] else tr)
        in if da_interval a > 0 then Update_loop clock tick (fst z) (tl (snd z)) (ivs @ [a]) h tr'
           else bindE (DelayAction_delete a h) (\<lambda>h'. Update_loop clock tick (fst z) (tl (snd z)) ivs h' tr')))"
  by pat_completeness auto
termination
  by (relation "measure (\<lambda>(clock, tick, bef, aft, ivs, h, tr). q_weight aft)")
    (simp_all only: wf_measure in_measure split_conv update_step_decreases)

fun rearm :: "int \<Rightarrow> delayaction list \<Rightarrow> timerq \<Rightarrow> timerq" where
  "rearm tick [] q = q"
| "rearm tick (a # as) q = (let a' = DelayAction_ResetTimeout (tick + da_interval a) a in
     rearm tick as (tm_emplace (da_tick a') a' q))"

definition Timer_Update :: "(nat \<Rightarrow> int) \<Rightarrow> int \<Rightarrow> timer \<times> objheap \<Rightarrow> ((timer \<times> objheap) \<times> nat list) result" where
  "Timer_Update clock tick s =
     (if tm_queue (fst s) = [] then Inr (s, [])
      else bindE (Update_loop clock tick [] (tm_queue (fst s)) (tm_intervals (fst s)) (snd s) [])
        (\<lambda>(q, ivs, h, tr). Inr (((fst s)\<lparr>tm_queue := (if ivs \<noteq> [] then rearm tick ivs q else q), tm_intervals := []\<rparr>, h), tr)))"

fun delete_actions :: "delayaction list \<Rightarrow> objheap \<Rightarrow> objheap result" where
  "delete_actions [] h = Inr h"
| "delete_actions (a # as) h = bindE (DelayAction_delete a h) (delete_actions as)"

definition Timer_StopAll :: "timer \<times> objheap \<Rightarrow> (timer \<times> objheap) result" where
  "Timer_StopAll s = bindE (delete_actions (map snd (tm_queue (fst s))) (snd s)) (\<lambda>h.
     bindE (delete_actions (tm_intervals (fst s)) h) (\<lambda>h'. Inr (\<lparr>tm_queue = [], tm_intervals = []\<rparr>, h')))"


section \<open>The queue\<close>

definition emplace_all :: "timerq \<Rightarrow> timerq \<Rightarrow> timerq" where
  "emplace_all es q = foldl (\<lambda>q e. tm_emplace (fst e) (snd e) q) q es"

lemma emplace_all_simps [simp]:
  "emplace_all [] q = q"
  "emplace_all (e # es) q = emplace_all es (tm_emplace (fst e) (snd e) q)"
  "emplace_all (es @ fs) q = emplace_all fs (emplace_all es q)"
  by (simp_all add: emplace_all_def)

lemma set_tm_emplace [simp]: "set (tm_emplace k a q) = insert (k, a) (set q)"
  by (induction k a q rule: tm_emplace.induct) auto

lemma mset_tm_emplace [simp]: "mset (tm_emplace k a q) = add_mset (k, a) (mset q)"
  by (induction k a q rule: tm_emplace.induct) auto

lemma sorted_tm_emplace [simp]: "sorted (map fst (tm_emplace k a q)) = sorted (map fst q)"
proof (induction k a q rule: tm_emplace.induct)
  case (2 k a k' a' q)
  show ?case
    using 2 by auto
qed simp

lemma tm_emplace_skip: "\<forall>e \<in> set D. fst e \<le> k \<Longrightarrow> tm_emplace k a (D @ R) = D @ tm_emplace k a R"
  by (induction D) (auto split: prod.splits)

text \<open>Among entries with one key, a new entry is the last.\<close>

lemma tm_emplace_fifo:
  "sorted (map fst q) \<Longrightarrow>
     filter (\<lambda>e. fst e = j) (tm_emplace k a q) = filter (\<lambda>e. fst e = j) q @ (if j = k then [(k, a)] else [])"
proof (induction k a q rule: tm_emplace.induct)
  case (2 k a k' a' q)
  show ?case
  proof (cases "k' \<le> k")
    case False
    with 2(2) have "filter (\<lambda>e. fst e = k) ((k', a') # q) = []"
      by (fastforce simp: filter_empty_conv)
    with False show ?thesis by auto
  qed (use 2 in auto)
qed auto

lemma set_emplace_all [simp]: "set (emplace_all es q) = set es \<union> set q"
  by (induction es arbitrary: q) auto

lemma mset_emplace_all [simp]: "mset (emplace_all es q) = mset es + mset q"
  by (induction es arbitrary: q) auto

lemma sorted_emplace_all [simp]: "sorted (map fst (emplace_all es q)) = sorted (map fst q)"
  by (induction es arbitrary: q) auto

text \<open>Entries past the tick stay past the tick.\<close>

definition past :: "int \<Rightarrow> timerq \<Rightarrow> bool" where
  "past tick q \<longleftrightarrow> q = [] \<or> tick < fst (hd q)"

lemma past_emplace: "past tick q \<Longrightarrow> tick < k \<Longrightarrow> past tick (tm_emplace k a q)"
  by (cases "(k, a, q)" rule: tm_emplace.cases) (auto simp: past_def)

lemma past_emplace_all: "past tick q \<Longrightarrow> \<forall>e \<in> set es. tick < fst e \<Longrightarrow> past tick (emplace_all es q)"
  by (induction es arbitrary: q) (auto simp: past_emplace)

lemma past_dropWhile: "past tick (dropWhile (\<lambda>e. fst e \<le> tick) q)"
  by (induction q) (auto simp: past_def)

section \<open>Linkers\<close>

definition linkers :: "delayaction list \<Rightarrow> oid list" where
  "linkers as = concat (map (\<lambda>a. case da_linker a of None \<Rightarrow> [] | Some l \<Rightarrow> [l]) as)"

lemma linkers_simps [simp]:
  "linkers [] = []"
  "linkers (a # as) = (case da_linker a of None \<Rightarrow> linkers as | Some l \<Rightarrow> l # linkers as)"
  "linkers (as @ bs) = linkers as @ linkers bs"
  by (simp_all add: linkers_def split: option.splits)

text \<open>Every linker is referenced by one action, and is alive.\<close>

definition linked :: "delayaction list \<Rightarrow> objheap \<Rightarrow> bool" where
  "linked as h \<longleftrightarrow> distinct (linkers as) \<and> (\<forall>l \<in> set (linkers as). \<exists>n. rc h l = Some n \<and> 0 < n \<and> n < 4294967296)"

definition alive :: "objheap \<Rightarrow> delayaction \<Rightarrow> bool" where
  "alive h a \<longleftrightarrow> (case da_linker a of None \<Rightarrow> True | Some l \<Rightarrow> rc h l = Some 2)"

text \<open>The counts after one reference to each of a list of linkers is given up.\<close>

definition dropped :: "oid list \<Rightarrow> (oid \<Rightarrow> nat option) \<Rightarrow> oid \<Rightarrow> nat option" where
  "dropped ls r l = (if l \<in> set ls then (if r l = Some 1 then None else map_option (\<lambda>n. n - 1) (r l)) else r l)"

lemma DelayAction_delete_ok:
  assumes "linked (a # as) h"
  shows "\<exists>h'. DelayAction_delete a h = Inr h' \<and> rc h' = dropped (linkers [a]) (rc h) \<and> obj_next h' = obj_next h"
proof (cases "da_linker a")
  case None
  then show ?thesis
    by (auto simp: DelayAction_delete_def SAFE_RELEASE_def dropped_def)
next
  case (Some l)
  with assms obtain n where n: "rc h l = Some n" "0 < n" "n < 4294967296"
    by (auto simp: linked_def)
  show ?thesis
  proof (cases "n = 1")
    case True
    then show ?thesis
      using n Some by (auto simp: DelayAction_delete_def SAFE_RELEASE_def Object_Release_def Object_delete_def
          Let_def dropped_def fun_eq_iff)
  next
    case False
    then have "0 < n - 1" using n by simp
    then show ?thesis
      using n Some False by (auto simp: DelayAction_delete_def SAFE_RELEASE_def Object_Release_def
          Let_def dropped_def fun_eq_iff)
  qed
qed

lemma linked_tl: "linked (a # as) h \<Longrightarrow> linked as h"
  by (auto simp: linked_def split: option.splits)

lemma dropped_other: "l \<notin> set ls \<Longrightarrow> dropped ls r l = r l"
  by (simp add: dropped_def)

lemma linked_disjoint: "linked (a # as) h \<Longrightarrow> l \<in> set (linkers as) \<Longrightarrow> l \<notin> set (linkers [a])"
  by (auto simp: linked_def split: option.splits)

lemma linked_dropped:
  assumes "linked (a # as) h" and "rc h' = dropped (linkers [a]) (rc h)"
  shows "linked as h'"
proof -
  have "rc h' l = rc h l" if "l \<in> set (linkers as)" for l
    using assms(2) linked_disjoint [OF assms(1) that] by (simp add: dropped_other)
  then show ?thesis
    using linked_tl [OF assms(1)] by (simp add: linked_def)
qed

lemma alive_dropped:
  assumes "linked (a # as) h" and "rc h' = dropped (linkers [a]) (rc h)" and "b \<in> set as"
  shows "alive h' b = alive h b"
proof (cases "da_linker b")
  case (Some l)
  then have "l \<in> set (linkers as)"
    using assms(3) by (force simp: linkers_def)
  then show ?thesis
    using assms(2) linked_disjoint [OF assms(1)] Some by (simp add: alive_def dropped_other)
qed (simp add: alive_def)

lemma dropped_append:
  assumes "distinct (ls @ ms)"
  shows "dropped ms (dropped ls r) = dropped (ls @ ms) r"
  using assms by (auto simp: dropped_def fun_eq_iff)

lemma DelayAction_call_ok: "linked (a # as) h \<Longrightarrow> DelayAction_call a h = Inr (alive h a)"
  by (auto simp: DelayAction_call_def alive_def linked_def Object_reference_count_def split: option.splits)

lemma delete_actions_ok:
  "linked as h \<Longrightarrow> \<exists>h'. delete_actions as h = Inr h' \<and> rc h' = dropped (linkers as) (rc h) \<and> obj_next h' = obj_next h"
proof (induction as arbitrary: h)
  case Nil
  show ?case by (simp add: dropped_def)
next
  case (Cons a as)
  obtain h1 where h1: "DelayAction_delete a h = Inr h1" "rc h1 = dropped (linkers [a]) (rc h)" "obj_next h1 = obj_next h"
    using DelayAction_delete_ok [OF Cons.prems] by blast
  obtain h2 where h2: "delete_actions as h1 = Inr h2" "rc h2 = dropped (linkers as) (rc h1)" "obj_next h2 = obj_next h1"
    using Cons.IH [OF linked_dropped [OF Cons.prems h1(2)]] by blast
  have "distinct (linkers [a] @ linkers as)"
    using Cons.prems by (simp add: linked_def split: option.splits)
  from dropped_append [OF this, of "rc h"] h1 h2 show ?case
    by (simp split: option.splits)
qed


section \<open>The loop of Update\<close>

text \<open>The timeouts a callback sets at time \<open>now\<close>, and those a sequence of callbacks sets.\<close>

definition timed :: "int \<Rightarrow> (int \<times> callback) list \<Rightarrow> timerq" where
  "timed now sets = map (\<lambda>(d, f). (d + now, timeout_action (d + now) f)) sets"

fun sets_of :: "(nat \<Rightarrow> int) \<Rightarrow> nat \<Rightarrow> delayaction list \<Rightarrow> timerq" where
  "sets_of clock n [] = []"
| "sets_of clock n (a # as) = timed (clock n) (cb_sets (da_fun a)) @ sets_of clock (Suc n) as"

definition delayed :: "delayaction \<Rightarrow> bool" where
  "delayed a \<longleftrightarrow> (\<forall>x \<in> set (cb_sets (da_fun a)). 0 < fst x)"

lemma place_sets_skip:
  assumes "\<forall>x \<in> set sets. 0 < fst x" and "tick \<le> now" and "key \<le> tick" and "\<forall>e \<in> set D. fst e \<le> tick"
  shows "place_sets now key sets (bef, D @ R) = (bef, D @ emplace_all (timed now sets) R)"
  using assms(1)
proof (induction sets arbitrary: R)
  case Nil
  show ?case by (simp add: timed_def)
next
  case (Cons x sets)
  obtain d f where x: "x = (d, f)" by (cases x)
  have "\<forall>e \<in> set D. fst e \<le> d + now" and "\<not> d + now < key"
    using Cons.prems assms x by force+
  with Cons x show ?case
    by (simp add: Let_def tm_emplace_skip timed_def)
qed

lemma timed_later: "tick \<le> now \<Longrightarrow> delayed a \<Longrightarrow> \<forall>e \<in> set (timed now (cb_sets (da_fun a))). tick < fst e"
  by (force simp: timed_def delayed_def)

lemma Update_loop_due:
  assumes "\<forall>n. tick \<le> clock n"
  shows "\<forall>e \<in> set D. fst e \<le> tick \<Longrightarrow> \<forall>e \<in> set D. delayed (snd e) \<Longrightarrow> past tick R \<Longrightarrow> linked (map snd D) h \<Longrightarrow>
    Update_loop clock tick bef (D @ R) ivs h tr =
      bindE (delete_actions (filter (\<lambda>a. da_interval a \<le> 0) (map snd D)) h) (\<lambda>h'.
        Inr (bef @ emplace_all (sets_of clock (length tr) (filter (alive h) (map snd D))) R,
          ivs @ filter (\<lambda>a. 0 < da_interval a) (map snd D), h', tr @ map (\<lambda>a. cb_id (da_fun a)) (filter (alive h) (map snd D))))"
proof (induction D arbitrary: R ivs h tr)
  case Nil
  then show ?case
    by (cases R) (auto simp: past_def)
next
  case (Cons e D)
  obtain k a where e: "e = (k, a)" by (cases e)
  let ?now = "clock (length tr)"
  let ?R = "if alive h a then emplace_all (timed ?now (cb_sets (da_fun a))) R else R"
  let ?tr = "if alive h a then tr @ [cb_id (da_fun a)] else tr"
  let ?z = "if alive h a then place_sets ?now k (cb_sets (da_fun a)) (bef, (k, a) # D @ R) else (bef, (k, a) # D @ R)"
  have lk: "linked (a # map snd D) h"
    using Cons.prems(4) e by simp
  have due: "k \<le> tick" "\<forall>e \<in> set D. fst e \<le> tick" "\<forall>e \<in> set D. delayed (snd e)" "delayed a"
    using Cons.prems e by auto
  have z: "?z = (bef, (k, a) # D @ ?R)"
    using place_sets_skip [of "cb_sets (da_fun a)" tick ?now k "(k, a) # D" bef R] due assms
    by (auto simp: delayed_def)
  have "\<forall>e \<in> set (timed ?now (cb_sets (da_fun a))). tick < fst e"
    using timed_later [of tick ?now a] due(4) assms by blast
  then have R: "past tick ?R"
    using Cons.prems(3) by (simp add: past_emplace_all)
  have al: "filter (alive h) (map snd (e # D)) = (if alive h a then [a] else []) @ filter (alive h) (map snd D)"
    using e by simp
  show ?case
  proof (cases "0 < da_interval a")
    case True
    have "Update_loop clock tick bef ((e # D) @ R) ivs h tr = Update_loop clock tick bef (D @ ?R) (ivs @ [a]) h ?tr"
      using True due e z by (simp add: DelayAction_call_ok [OF lk] Let_def)
    then show ?thesis
      using Cons.IH [OF due(2,3) R linked_tl [OF lk], of "ivs @ [a]" ?tr] True al e by simp
  next
    case False
    obtain h1 where h1: "DelayAction_delete a h = Inr h1" "rc h1 = dropped (linkers [a]) (rc h)"
      using DelayAction_delete_ok [OF lk] by blast
    have "filter (alive h1) (map snd D) = filter (alive h) (map snd D)"
      using alive_dropped [OF lk h1(2)] by (auto intro: filter_cong)
    moreover have "Update_loop clock tick bef ((e # D) @ R) ivs h tr = Update_loop clock tick bef (D @ ?R) ivs h1 ?tr"
      using False due e z h1 by (simp add: DelayAction_call_ok [OF lk] Let_def)
    ultimately show ?thesis
      using Cons.IH [OF due(2,3) R linked_dropped [OF lk h1(2)], of ivs ?tr] False al e h1 by simp
  qed
qed


section \<open>Update\<close>

text \<open>What \<open>Update\<close> finds due, what it runs, and the interval actions it re-arms.\<close>

definition due :: "int \<Rightarrow> timer \<Rightarrow> delayaction list" where
  "due tick t = map snd (takeWhile (\<lambda>e. fst e \<le> tick) (tm_queue t))"

definition rearmed :: "int \<Rightarrow> delayaction list \<Rightarrow> timerq" where
  "rearmed tick as = map (\<lambda>a. (tick + da_interval a, a\<lparr>da_tick := tick + da_interval a\<rparr>)) (filter (\<lambda>a. 0 < da_interval a) as)"

definition timer_inv :: "timer \<Rightarrow> objheap \<Rightarrow> bool" where
  "timer_inv t h \<longleftrightarrow> sorted (map fst (tm_queue t)) \<and> tm_intervals t = [] \<and> linked (map snd (tm_queue t)) h \<and>
     (\<forall>l \<in> set (linkers (map snd (tm_queue t))). l < obj_next h) \<and> (\<forall>e \<in> set (tm_queue t). da_tick (snd e) = fst e)"

lemma rearm_emplace: "rearm tick as q =
    emplace_all (map (\<lambda>a. (tick + da_interval a, a\<lparr>da_tick := tick + da_interval a\<rparr>)) as) q"
  by (induction as arbitrary: q) (auto simp: Let_def DelayAction_ResetTimeout_def)

lemma linked_append1: "linked (as @ bs) h \<Longrightarrow> linked as h"
  by (auto simp: linked_def)

lemma set_linkers_filter: "set (linkers (filter P as)) \<subseteq> set (linkers as)"
  by (auto simp: linkers_def)

lemma linked_filter: "linked as h \<Longrightarrow> linked (filter P as) h"
proof (induction as)
  case (Cons a as)
  have "linked (filter P as) h"
    using Cons linked_tl by blast
  moreover have "l \<notin> set (linkers (filter P as))" if "da_linker a = Some l" for l
    using Cons.prems that set_linkers_filter [of P as] by (auto simp: linked_def)
  ultimately show ?case
    using Cons.prems by (auto simp: linked_def split: option.splits)
qed simp

lemma due_split: "map snd (tm_queue t) = due tick t @ map snd (dropWhile (\<lambda>e. fst e \<le> tick) (tm_queue t))"
  unfolding due_def by (metis map_append takeWhile_dropWhile_id)

text \<open>The exact result of \<open>Update\<close>.\<close>

definition ran :: "int \<Rightarrow> timer \<Rightarrow> objheap \<Rightarrow> delayaction list" where
  "ran tick t h = filter (alive h) (due tick t)"

definition updated :: "(nat \<Rightarrow> int) \<Rightarrow> int \<Rightarrow> timer \<Rightarrow> objheap \<Rightarrow> timer" where
  "updated clock tick t h =
     \<lparr>tm_queue = emplace_all (sets_of clock 0 (ran tick t h) @ rearmed tick (due tick t))
        (dropWhile (\<lambda>e. fst e \<le> tick) (tm_queue t)), tm_intervals = []\<rparr>"

lemma updated_sel:
  "tm_queue (updated clock tick t h) = emplace_all (sets_of clock 0 (ran tick t h) @ rearmed tick (due tick t))
     (dropWhile (\<lambda>e. fst e \<le> tick) (tm_queue t))"
  "tm_intervals (updated clock tick t h) = []"
  by (simp_all add: updated_def)

lemma Update_result:
  assumes inv: "timer_inv t h" and clock: "\<forall>n. tick \<le> clock n" and dl: "\<forall>a \<in> set (due tick t). delayed a"
  shows "\<exists>h'. Timer_Update clock tick (t, h) =
      Inr ((updated clock tick t h, h'), map (\<lambda>a. cb_id (da_fun a)) (ran tick t h)) \<and>
    rc h' = dropped (linkers (filter (\<lambda>a. da_interval a \<le> 0) (due tick t))) (rc h) \<and> obj_next h' = obj_next h \<and>
    delete_actions (filter (\<lambda>a. da_interval a \<le> 0) (due tick t)) h = Inr h'"
proof -
  let ?D = "takeWhile (\<lambda>e. fst e \<le> tick) (tm_queue t)" and ?R = "dropWhile (\<lambda>e. fst e \<le> tick) (tm_queue t)"
  have lk: "linked (due tick t) h"
    using inv due_split [of t tick] linked_append1 unfolding timer_inv_def by metis
  obtain h' where h': "delete_actions (filter (\<lambda>a. da_interval a \<le> 0) (due tick t)) h = Inr h'"
      "rc h' = dropped (linkers (filter (\<lambda>a. da_interval a \<le> 0) (due tick t))) (rc h)" "obj_next h' = obj_next h"
    using delete_actions_ok [OF linked_filter [OF lk]] by blast
  have "\<forall>e \<in> set ?D. fst e \<le> tick"
    by (auto dest: set_takeWhileD)
  moreover have "\<forall>e \<in> set ?D. delayed (snd e)"
    using dl by (simp add: due_def)
  ultimately have "Update_loop clock tick [] (?D @ ?R) [] h [] =
      Inr (emplace_all (sets_of clock 0 (filter (alive h) (due tick t))) ?R,
          filter (\<lambda>a. 0 < da_interval a) (due tick t), h', map (\<lambda>a. cb_id (da_fun a)) (filter (alive h) (due tick t)))"
    using Update_loop_due [OF clock, of ?D ?R h "[]" "[]" "[]"] past_dropWhile lk h'(1) by (simp add: due_def)
  then have loop: "Update_loop clock tick [] (tm_queue t) [] h [] =
      Inr (emplace_all (sets_of clock 0 (filter (alive h) (due tick t))) ?R,
          filter (\<lambda>a. 0 < da_interval a) (due tick t), h', map (\<lambda>a. cb_id (da_fun a)) (filter (alive h) (due tick t)))"
    by simp
  have iv: "tm_intervals t = []"
    using inv by (simp add: timer_inv_def)
  show ?thesis
  proof (cases "tm_queue t = []")
    case True
    then have "h' = h" using h'(1) by (simp add: due_def)
    then show ?thesis
      using True h' iv by (simp add: Timer_Update_def due_def rearmed_def ran_def updated_def)
  next
    case False
    then show ?thesis
      using loop h' iv by (simp add: Timer_Update_def rearm_emplace rearmed_def ran_def updated_def)
  qed
qed

lemma linkers_map: "linkers (map snd (map (\<lambda>a. (f a, a\<lparr>da_tick := g a\<rparr>)) as)) = linkers as"
  by (simp add: linkers_def o_def)

lemma linkers_timed: "linkers (map snd (timed now sets)) = []"
  by (induction sets) (auto simp: timed_def timeout_action_def)

lemma linkers_sets_of [simp]: "linkers (map snd (sets_of clock n as)) = []"
  by (induction as arbitrary: n) (simp_all add: linkers_timed)

text \<open>The invariant depends on the queue as a multiset only.\<close>

lemma mset_linkers: "mset (linkers as) = (\<Sum>a \<in># mset as. (case da_linker a of None \<Rightarrow> {#} | Some l \<Rightarrow> {#l#}))"
  by (induction as) (auto split: option.splits)

lemma linked_mset: "mset (linkers as) = mset (linkers bs) \<Longrightarrow> linked as h = linked bs h"
  unfolding linked_def by (metis mset_eq_imp_distinct_iff mset_eq_setD)

lemma mset_linkers_emplace_all:
  "mset (linkers (map snd (emplace_all es q))) = mset (linkers (map snd es @ map snd q))"
  unfolding mset_linkers by (simp add: image_mset_union)


lemma linked_keep:
  assumes "linked (as @ bs) h" and "rc h' = dropped (linkers as) (rc h)"
  shows "linked bs h'"
proof -
  have "rc h' l = rc h l" if "l \<in> set (linkers bs)" for l
    using assms that by (auto simp: linked_def dropped_def)
  then show ?thesis
    using assms(1) by (simp add: linked_def)
qed

lemma linkers_partition:
  "mset (linkers (filter P as @ filter (\<lambda>a. \<not> P a) as)) = mset (linkers as)"
  by (induction as) (auto split: option.splits)

lemma sorted_fst_dropWhile: "sorted (map fst q) \<Longrightarrow> sorted (map fst (dropWhile P q))"
  by (induction q) auto

lemma sorted_past: "sorted (map fst q) \<Longrightarrow> past tick q \<Longrightarrow> \<forall>e \<in> set q. tick < fst e"
  by (cases q) (auto simp: past_def)

lemma sets_of_tick: "\<forall>e \<in> set (sets_of clock n as). da_tick (snd e) = fst e"
  by (induction as arbitrary: n) (auto simp: timed_def timeout_action_def)

lemma linkers_split:
  "mset (linkers (filter (\<lambda>a. da_interval a \<le> 0) (due tick t) @ filter (\<lambda>a. 0 < da_interval a) (due tick t)
     @ map snd (dropWhile (\<lambda>e. fst e \<le> tick) (tm_queue t)))) = mset (linkers (map snd (tm_queue t)))"
  using linkers_partition [of "\<lambda>a. da_interval a \<le> 0" "due tick t"]
  unfolding due_split [of t tick] linkers_simps mset_append not_le by simp

lemma Update_inv:
  assumes inv: "timer_inv t h" and clock: "\<forall>n. tick \<le> clock n" and dl: "\<forall>a \<in> set (due tick t). delayed a"
    and up: "Timer_Update clock tick (t, h) = Inr ((t', h'), tr)"
  shows "timer_inv t' h'"
proof -
  let ?R = "dropWhile (\<lambda>e. fst e \<le> tick) (tm_queue t)"
  let ?int = "filter (\<lambda>a. 0 < da_interval a) (due tick t)" and ?non = "filter (\<lambda>a. da_interval a \<le> 0) (due tick t)"
  have h': "rc h' = dropped (linkers ?non) (rc h)" "obj_next h' = obj_next h" and "t' = updated clock tick t h"
    using Update_result [OF inv clock dl] unfolding up by (simp_all only: sum.inject prod.inject) blast+
  note t' = this(3) [THEN arg_cong, of tm_queue, unfolded updated_sel] this(3) [THEN arg_cong, of tm_intervals, unfolded updated_sel]
  have lk: "mset (linkers (map snd (tm_queue t'))) = mset (linkers (?int @ map snd ?R))"
    unfolding t' by (simp add: mset_linkers_emplace_all rearmed_def linkers_map del: map_map)
  have all: "mset (linkers (?non @ ?int @ map snd ?R)) = mset (linkers (map snd (tm_queue t)))"
    by (rule linkers_split)
  have "linked (?non @ ?int @ map snd ?R) h"
    using inv linked_mset [OF all] by (simp add: timer_inv_def)
  then have "linked (?int @ map snd ?R) h'"
    using linked_keep h'(1) by blast
  then have 1: "linked (map snd (tm_queue t')) h'"
    using linked_mset [OF lk] by simp
  have "set (linkers (map snd (tm_queue t'))) \<subseteq> set (linkers (map snd (tm_queue t)))"
    using mset_eq_setD [OF lk] mset_eq_setD [OF all] by auto
  then have 2: "\<forall>l \<in> set (linkers (map snd (tm_queue t'))). l < obj_next h'"
    using inv h' by (auto simp: timer_inv_def)
  have "\<forall>e \<in> set (rearmed tick (due tick t)). da_tick (snd e) = fst e"
    by (auto simp: rearmed_def)
  moreover have "\<forall>e \<in> set ?R. da_tick (snd e) = fst e"
    using inv set_dropWhileD unfolding timer_inv_def by metis
  ultimately have 3: "\<forall>e \<in> set (tm_queue t'). da_tick (snd e) = fst e"
    unfolding t' set_emplace_all set_append ball_Un using sets_of_tick by blast
  have "sorted (map fst ?R)"
    using inv by (simp add: timer_inv_def sorted_fst_dropWhile)
  then show ?thesis
    using 1 2 3 unfolding timer_inv_def t' by simp
qed

lemma sets_of_later:
  assumes "\<forall>n. tick \<le> clock n"
  shows "\<forall>a \<in> set as. delayed a \<Longrightarrow> \<forall>e \<in> set (sets_of clock n as). tick < fst e"
proof (induction as arbitrary: n)
  case (Cons a as)
  then show ?case
    using timed_later [of tick "clock n" a] assms by (simp add: ball_Un)
qed simp

lemma updated_not_due:
  assumes "timer_inv t h" and "\<forall>n. tick \<le> clock n" and "\<forall>a \<in> set (due tick t). delayed a"
  shows "\<forall>e \<in> set (tm_queue (updated clock tick t h)). tick < fst e"
proof -
  let ?R = "dropWhile (\<lambda>e. fst e \<le> tick) (tm_queue t)"
  have "sorted (map fst ?R)"
    using assms(1) by (simp add: timer_inv_def sorted_fst_dropWhile)
  then have R: "\<forall>e \<in> set ?R. tick < fst e"
    using sorted_past past_dropWhile by blast
  have S: "\<forall>e \<in> set (sets_of clock 0 (ran tick t h)). tick < fst e"
    using assms(3) by (intro sets_of_later [OF assms(2)]) (simp add: ran_def)
  have "\<forall>e \<in> set (rearmed tick (due tick t)). tick < fst e"
    by (auto simp: rearmed_def)
  with R S show ?thesis
    unfolding updated_sel set_emplace_all set_append ball_Un by blast
qed

lemma updated_content:
  "mset (tm_queue (updated clock tick t h)) = mset (dropWhile (\<lambda>e. fst e \<le> tick) (tm_queue t))
     + mset (sets_of clock 0 (ran tick t h)) + mset (rearmed tick (due tick t))"
  by (simp add: updated_sel ac_simps)

lemma timer_inv_add:
  assumes "timer_inv t h" and "da_tick a = k"
    and "case da_linker a of None \<Rightarrow> h' = h | Some l \<Rightarrow> (l, h') = Object_new h"
  shows "timer_inv (t\<lparr>tm_queue := tm_emplace k a (tm_queue t)\<rparr>) h'"
proof -
  have lk: "mset (linkers (map snd (tm_emplace k a (tm_queue t)))) = mset (linkers (a # map snd (tm_queue t)))"
    using mset_linkers_emplace_all [of "[(k, a)]" "tm_queue t"] by simp
  have "linked (a # map snd (tm_queue t)) h'" and "\<forall>l \<in> set (linkers (a # map snd (tm_queue t))). l < obj_next h'"
    using assms by (auto simp: timer_inv_def linked_def Object_new_def split: option.splits)
  then show ?thesis
    using assms linked_mset [OF lk] mset_eq_setD [OF lk] by (auto simp: timer_inv_def)
qed

lemma Timer_SetTimeout_inv: "timer_inv t h \<Longrightarrow> timer_inv (Timer_SetTimeout now f d t) h"
  unfolding Timer_SetTimeout_def Let_def by (rule timer_inv_add) (auto simp: timeout_action_def)

lemma Timer_SetTimeoutWithLinker_inv:
  "timer_inv t h \<Longrightarrow> Timer_SetTimeoutWithLinker now f d (t, h) = (l, t', h') \<Longrightarrow> timer_inv t' h'"
  by (auto simp: Timer_SetTimeoutWithLinker_def Let_def split: prod.splits intro!: timer_inv_add)

lemma Timer_SetIntervalWithLinker_inv:
  "timer_inv t h \<Longrightarrow> Timer_SetIntervalWithLinker now f d (t, h) = (l, t', h') \<Longrightarrow> timer_inv t' h'"
  by (auto simp: Timer_SetIntervalWithLinker_def Let_def split: prod.splits intro!: timer_inv_add)


section \<open>Properties\<close>

text \<open>
  C20. \<open>Update\<close> ends without touching a freed linker. It runs exactly the actions that are due and that have no linker or a
  linker with exactly two references, the timer's and that of a single holder (a linker that two owners hold is not run any more than one
  that nobody holds), in order of expiry and, for equal expiries, of insertion; it leaves
  nothing due in the queue, whose new content is what was not due, the timeouts the callbacks set and the
  interval actions at \<open>tick + interval\<close>; it gives up exactly the references of the actions it deletes;
  and the invariant of the timer holds again. The clock never reads less than the tick, and callbacks
  set positive delays.
\<close>

theorem Timer_Update_exact:
  assumes "timer_inv t h" and "\<forall>n. tick \<le> clock n" and "\<forall>a \<in> set (due tick t). delayed a"
  shows "\<exists>t' h'. Timer_Update clock tick (t, h) =
        Inr ((t', h'), map (\<lambda>a. cb_id (da_fun a)) (filter (alive h) (due tick t))) \<and>
      timer_inv t' h' \<and>
      (\<forall>e \<in> set (tm_queue t'). tick < fst e) \<and>
      mset (tm_queue t') = mset (dropWhile (\<lambda>e. fst e \<le> tick) (tm_queue t))
        + mset (sets_of clock 0 (filter (alive h) (due tick t))) + mset (rearmed tick (due tick t)) \<and>
      rc h' = dropped (linkers (filter (\<lambda>a. da_interval a \<le> 0) (due tick t))) (rc h)"
proof -
  obtain h' where h': "Timer_Update clock tick (t, h) = Inr ((updated clock tick t h, h'), map (\<lambda>a. cb_id (da_fun a)) (ran tick t h))"
      "rc h' = dropped (linkers (filter (\<lambda>a. da_interval a \<le> 0) (due tick t))) (rc h)"
    using Update_result [OF assms] by blast
  show ?thesis
    by (rule exI [of _ "updated clock tick t h"], rule exI [of _ h'])
      (use h' Update_inv [OF assms h'(1)] updated_not_due [OF assms] updated_content [of clock tick t h] in \<open>simp add: ran_def\<close>)
qed

definition leaf :: "nat \<Rightarrow> callback" where
  "leaf i = Callback i []"

definition timer_example :: "timer \<times> objheap" where
  "timer_example = (let t1 = Timer_SetTimeout 0 (leaf 1) 20 Timer_new; t2 = Timer_SetTimeout 0 (Callback 2 [(5, leaf 9)]) 10 t1;
     (l, s3) = Timer_SetIntervalWithLinker 0 (leaf 3) 10 (t2, objheap_empty) in s3)"

lemma timer_inv_new: "timer_inv Timer_new h"
  by (simp add: timer_inv_def Timer_new_def linked_def)

lemma timer_example_inv: "timer_inv (fst timer_example) (snd timer_example)"
proof -
  obtain l t h where e: "Timer_SetIntervalWithLinker 0 (leaf 3) 10
      (Timer_SetTimeout 0 (Callback 2 [(5, leaf 9)]) 10 (Timer_SetTimeout 0 (leaf 1) 20 Timer_new), objheap_empty) = (l, t, h)"
    by (metis prod_cases3)
  have "timer_inv t h"
    using Timer_SetIntervalWithLinker_inv [OF Timer_SetTimeout_inv [OF Timer_SetTimeout_inv [OF timer_inv_new]] e] .
  then show ?thesis
    using e by (simp add: timer_example_def)
qed

theorem Timer_Update_exact_witness:
  "\<exists>t' h'. Timer_Update (\<lambda>n. 12) 12 timer_example = Inr ((t', h'), [2])"
proof -
  have due: "due 12 (fst timer_example) = [timeout_action 10 (Callback 2 [(5, leaf 9)]),
      \<lparr>da_fun = leaf 3, da_tick = 10, da_linker = Some 0, da_interval = 10\<rparr>]"
    by (simp add: due_def timer_example_def Timer_SetTimeout_def Timer_SetIntervalWithLinker_def Object_new_def
        Timer_new_def timeout_action_def objheap_empty_def)
  have "filter (alive (snd timer_example)) (due 12 (fst timer_example)) = [timeout_action 10 (Callback 2 [(5, leaf 9)])]"
    unfolding due by (simp add: alive_def Let_def timer_example_def Timer_SetIntervalWithLinker_def Object_new_def
        timeout_action_def objheap_empty_def)
  moreover have "\<forall>a \<in> set (due 12 (fst timer_example)). delayed a"
    unfolding due by (simp add: delayed_def leaf_def timeout_action_def)
  ultimately show ?thesis
    using Timer_Update_exact [OF timer_example_inv, of 12 "\<lambda>n. 12"] by (auto simp: timeout_action_def)
qed

text \<open>
  \<open>StopAll\<close>, and with it the destructor of the timer, ends without error, empties the timer and
  gives up exactly one reference to each linker the timer holds: a linker nobody else holds is freed.
\<close>

lemma Timer_StopAll_releases:
  assumes "timer_inv t h"
  shows "\<exists>h'. Timer_StopAll (t, h) = Inr (Timer_new, h') \<and>
    (\<forall>l. rc h' l = (if l \<in> set (linkers (map snd (tm_queue t)))
       then (if rc h l = Some 1 then None else map_option (\<lambda>n. n - 1) (rc h l)) else rc h l))"
proof -
  obtain h' where "delete_actions (map snd (tm_queue t)) h = Inr h'" "rc h' = dropped (linkers (map snd (tm_queue t))) (rc h)"
    using delete_actions_ok assms unfolding timer_inv_def by blast
  then show ?thesis
    using assms by (auto simp: Timer_StopAll_def timer_inv_def Timer_new_def dropped_def)
qed

lemma Timer_StopAll_releases_witness:
  "\<exists>h'. Timer_StopAll timer_example = Inr (Timer_new, h') \<and> rc h' 0 = None"
  using Timer_StopAll_releases [OF timer_example_inv]
  by (auto simp: timer_example_def Timer_SetTimeout_def Timer_SetIntervalWithLinker_def Object_new_def
      Timer_new_def timeout_action_def objheap_empty_def)

text \<open>
  An interval action stays in the queue through every later \<open>Update\<close>, also after its owner has
  released the linker: it is not run any more, but neither it nor its linker is ever freed before
  \<open>StopAll\<close>.
\<close>

definition interval_of :: "oid \<Rightarrow> timer \<Rightarrow> bool" where
  "interval_of l t \<longleftrightarrow> (\<exists>e \<in> set (tm_queue t). da_linker (snd e) = Some l \<and> 0 < da_interval (snd e))"

lemma Timer_interval_kept:
  assumes "timer_inv t h" and "\<forall>n. tick \<le> clock n" and "\<forall>a \<in> set (due tick t). delayed a"
    and "interval_of l t"
  shows "\<exists>t' h' tr. Timer_Update clock tick (t, h) = Inr ((t', h'), tr) \<and> interval_of l t' \<and> rc h' l = rc h l \<and> rc h l \<noteq> None"
proof -
  let ?R = "dropWhile (\<lambda>e. fst e \<le> tick) (tm_queue t)" and ?D = "takeWhile (\<lambda>e. fst e \<le> tick) (tm_queue t)"
  let ?non = "filter (\<lambda>a. da_interval a \<le> 0) (due tick t)" and ?int = "filter (\<lambda>a. 0 < da_interval a) (due tick t)"
  obtain h' where h': "Timer_Update clock tick (t, h) = Inr ((updated clock tick t h, h'), map (\<lambda>a. cb_id (da_fun a)) (ran tick t h))"
      "rc h' = dropped (linkers ?non) (rc h)"
    using Update_result [OF assms(1-3)] by blast
  obtain e where e: "e \<in> set (tm_queue t)" "da_linker (snd e) = Some l" "0 < da_interval (snd e)"
    using assms(4) by (auto simp: interval_of_def)
  then have "e \<in> set ?D \<or> e \<in> set ?R"
    by (metis Un_iff set_append takeWhile_dropWhile_id)
  then have place: "snd e \<in> set ?int \<or> e \<in> set ?R"
    using e by (auto simp: due_def)
  have "linked (?non @ ?int @ map snd ?R) h"
    using assms(1) linked_mset [OF linkers_split] by (simp add: timer_inv_def)
  moreover have "l \<in> set (linkers (?int @ map snd ?R))"
    using place e(2) by (force simp: linkers_def)
  ultimately have "l \<notin> set (linkers ?non)" and "rc h l \<noteq> None"
    by (auto simp: linked_def)
  moreover have "interval_of l (updated clock tick t h)"
    using place e(2,3) unfolding interval_of_def updated_sel set_emplace_all set_append bex_Un rearmed_def by auto
  ultimately show ?thesis
    using h' by (simp add: dropped_other)
qed

lemma Timer_interval_kept_witness:
  "\<exists>t' h' tr. Timer_Update (\<lambda>n. 5) 5 timer_example = Inr ((t', h'), tr) \<and> interval_of 0 t' \<and> rc h' 0 = Some 1"
proof -
  have "due 5 (fst timer_example) = []" and "interval_of 0 (fst timer_example)" and "rc (snd timer_example) 0 = Some 1"
    by (simp_all add: due_def interval_of_def timer_example_def Timer_SetTimeout_def Timer_SetIntervalWithLinker_def Object_new_def
        Timer_new_def timeout_action_def objheap_empty_def)
  then show ?thesis
    using Timer_interval_kept [OF timer_example_inv, of 5 "\<lambda>n. 5" 0] by auto
qed

end
