(* ===== verification/Crypto.thy ===== *)
theory Crypto
  imports Prelude
begin

text \<open>
  \<open>base/utils/crypto.cpp\<close>: base64 with the 32-bit accumulator and the bit counter of the source, the output
  string of the encoder written by index, and the hexadecimal rendering of digests, for which OpenSSL's
  \<open>MD5\<close> and \<open>SHA1\<close> are arguments. Theorems: decoding what was encoded gives the input back, the encoder's
  assertions and writes are in range, and the decoder fails exactly on illegal characters and ignores
  white space and padding.
\<close>

section \<open>Model\<close>

type_synonym word32 = "32 word"

definition b64_table :: bytes where
  "b64_table = map (\<lambda>c. of_char c)
     ''ABCDEFGHIJKLMNOPQRSTUVWXYZabcdefghijklmnopqrstuvwxyz0123456789+/''"

definition reverse_table :: "nat list" where
  "reverse_table =
    [64, 64, 64, 64, 64, 64, 64, 64, 64, 64, 64, 64, 64, 64, 64, 64,
     64, 64, 64, 64, 64, 64, 64, 64, 64, 64, 64, 64, 64, 64, 64, 64,
     64, 64, 64, 64, 64, 64, 64, 64, 64, 64, 64, 62, 64, 64, 64, 63,
     52, 53, 54, 55, 56, 57, 58, 59, 60, 61, 64, 64, 64, 64, 64, 64,
     64,  0,  1,  2,  3,  4,  5,  6,  7,  8,  9, 10, 11, 12, 13, 14,
     15, 16, 17, 18, 19, 20, 21, 22, 23, 24, 25, 64, 64, 64, 64, 64,
     64, 26, 27, 28, 29, 30, 31, 32, 33, 34, 35, 36, 37, 38, 39, 40,
     41, 42, 43, 44, 45, 46, 47, 48, 49, 50, 51, 64, 64, 64, 64, 64]"

text \<open>\<open>retval[i] = c\<close>.\<close>

definition str_set :: "bytes \<Rightarrow> nat \<Rightarrow> byte \<Rightarrow> bytes result" where
  "str_set s i c = (if i < length s then Inr (s[i := c]) else Inl OutOfRange)"

text \<open>The state of the encoder: \<open>retval\<close>, \<open>outpos\<close>, \<open>bits_collected\<close>, \<open>accumulator\<close>.\<close>

record b64enc =
  be_retval :: bytes
  be_outpos :: nat
  be_bits :: nat
  be_acc :: word32

definition b64_put :: "nat \<Rightarrow> b64enc \<Rightarrow> b64enc result" where
  "b64_put sextet s = bindE (str_set (be_retval s) (be_outpos s) (b64_table ! sextet))
     (\<lambda>r. Inr (s\<lparr>be_retval := r, be_outpos := be_outpos s + 1\<rparr>))"

function (sequential) b64_flush :: "b64enc \<Rightarrow> b64enc result" where
  "b64_flush s = (if be_bits s \<ge> 6 then
      let s1 = s\<lparr>be_bits := be_bits s - 6\<rparr> in
      (case b64_put (unat (drop_bit (be_bits s1) (be_acc s1) AND 0x3f)) s1 of Inl e \<Rightarrow> Inl e | Inr s2 \<Rightarrow> b64_flush s2)
    else Inr s)"
  by pat_completeness auto
termination
  by (relation "measure be_bits") (auto simp: b64_put_def str_set_def split: if_splits)

declare b64_flush.simps [simp del]

fun b64_encode_loop :: "bytes \<Rightarrow> b64enc \<Rightarrow> b64enc result" where
  "b64_encode_loop [] s = Inr s"
| "b64_encode_loop (c # cs) s =
     bindE (b64_flush (s\<lparr>be_acc := push_bit 8 (be_acc s) OR ucast c, be_bits := be_bits s + 8\<rparr>)) (b64_encode_loop cs)"

text \<open>The subtraction in the assertion at the end is one of \<open>size_t\<close>.\<close>

definition base64_encode :: "bytes \<Rightarrow> bytes result" where
  "base64_encode bindata =
     (if length bindata > (18446744073709551615 div 4) * 3 then Inl LengthError
      else bindE (b64_encode_loop bindata
          \<lparr>be_retval = replicate (((length bindata + 2) div 3) * 4) (0x3d), be_outpos = 0, be_bits = 0, be_acc = 0\<rparr>) (\<lambda>s.
        bindE (if be_bits s > 0 then
            assertE (be_bits s < 6)
              (let s1 = s\<lparr>be_acc := push_bit (6 - be_bits s) (be_acc s)\<rparr> in b64_put (unat (be_acc s1 AND 0x3f)) s1)
          else Inr s) (\<lambda>s'.
        assertE (be_outpos s' \<ge> u64 (length (be_retval s') + 18446744073709551614)) (assertE (be_outpos s' \<le> length (be_retval s'))
          (Inr (be_retval s'))))))"

definition isspace :: "int \<Rightarrow> bool" where
  "isspace c \<longleftrightarrow> c = 32 \<or> (9 \<le> c \<and> c \<le> 13)"

fun b64_decode_loop :: "bytes \<Rightarrow> bytes \<Rightarrow> nat \<Rightarrow> word32 \<Rightarrow> bytes result" where
  "b64_decode_loop [] retval bits acc = Inr retval"
| "b64_decode_loop (i # is) retval bits acc =
     (let c = sint i in
      if isspace c \<or> c = 61 then b64_decode_loop is retval bits acc
      else if c > 127 \<or> c < 0 \<or> reverse_table ! nat c > 63 then Inl InvalidArgument
      else let acc1 = push_bit 6 acc OR word_of_nat (reverse_table ! nat c); bits1 = bits + 6 in
        if bits1 \<ge> 8 then b64_decode_loop is (retval @ [ucast (drop_bit (bits1 - 8) acc1 AND 0xff)]) (bits1 - 8) acc1
        else b64_decode_loop is retval bits1 acc1)"

definition base64_decode :: "bytes \<Rightarrow> bytes result" where
  "base64_decode ascdata = b64_decode_loop ascdata [] 0 0"

text \<open>\<open>sprintf(c, "%02x", b)\<close>, and the loops over the digest.\<close>

definition hex_digit :: "nat \<Rightarrow> byte" where
  "hex_digit n = (if n < 10 then word_of_nat (48 + n) else word_of_nat (87 + n))"

definition hex02 :: "byte \<Rightarrow> bytes" where
  "hex02 b = [hex_digit (unat b div 16), hex_digit (unat b mod 16)]"

fun hex_loop :: "nat \<Rightarrow> nat \<Rightarrow> bytes \<Rightarrow> bytes \<Rightarrow> bytes" where
  "hex_loop 0 i tmp acc = acc"
| "hex_loop (Suc n) i tmp acc = hex_loop n (i + 1) tmp (acc @ hex02 (tmp ! i))"

definition md5hex :: "(bytes \<Rightarrow> bytes) \<Rightarrow> bytes \<Rightarrow> bytes" where
  "md5hex MD5 plain = hex_loop 16 0 (MD5 plain) []"

definition sha1hex :: "(bytes \<Rightarrow> bytes) \<Rightarrow> bytes \<Rightarrow> bytes" where
  "sha1hex SHA1 plain = hex_loop 20 0 (SHA1 plain) []"

section \<open>Bits of a word\<close>

text \<open>The lowest \<open>n\<close> bits, most significant first.\<close>

definition lowbits :: "nat \<Rightarrow> 'a::len word \<Rightarrow> bool list" where
  "lowbits n x = map (bit x) (rev [0..<n])"

lemma length_lowbits [simp]: "length (lowbits n x) = n"
  by (simp add: lowbits_def)

lemma lowbits_0 [simp]: "lowbits 0 x = []"
  by (simp add: lowbits_def)

lemma lowbits_add: "lowbits (m + k) x = lowbits m (drop_bit k x) @ lowbits k x"
proof -
  have "[0..<m + k] = [0..<k] @ map (\<lambda>i. k + i) [0..<m]"
    by (simp add: upt_add_eq_append [of 0 k m] add.commute map_add_upt)
  then show ?thesis
    by (simp add: lowbits_def rev_map bit_drop_bit_eq o_def)
qed

lemma lowbits_cong: "(\<And>i. i < n \<Longrightarrow> bit x i = bit y i) \<Longrightarrow> lowbits n x = lowbits n y"
  by (auto simp: lowbits_def)

lemma lowbits_cong2:
  fixes x :: "'a::len word" and y :: "'b::len word"
  shows "(\<And>i. i < n \<Longrightarrow> bit x i = bit y i) \<Longrightarrow> lowbits n x = lowbits n y"
  by (auto simp: lowbits_def)

lemma lowbits_mask: "lowbits n (x AND mask n) = lowbits n x"
  by (rule lowbits_cong) (auto simp: bit_and_iff bit_mask_iff dest: bit_imp_le_length)

lemma lowbits_inj: "lowbits LENGTH('a) (x :: 'a::len word) = lowbits LENGTH('a) y \<Longrightarrow> x = y"
proof (rule bit_word_eqI)
  fix n assume *: "lowbits LENGTH('a) x = lowbits LENGTH('a) y" "n < LENGTH('a)"
  then have "n \<in> set (rev [0..<LENGTH('a)])" by simp
  then show "bit x n = bit y n"
    using *(1) unfolding lowbits_def map_eq_conv by blast
qed


section \<open>The encoder\<close>

definition sx :: "nat \<Rightarrow> bool list" where
  "sx k = lowbits 6 (word_of_nat k :: word32)"

lemma length_sx [simp]: "length (sx k) = 6"
  by (simp add: sx_def)

definition bits8 :: "bytes \<Rightarrow> bool list" where
  "bits8 cs = concat (map (lowbits 8) cs)"

lemma bits8_simps [simp]: "bits8 [] = []" "bits8 (c # cs) = lowbits 8 c @ bits8 cs" "bits8 (cs @ ds) = bits8 cs @ bits8 ds"
  by (simp_all add: bits8_def)

lemma length_bits8 [simp]: "length (bits8 cs) = 8 * length cs"
  by (induction cs) auto

lemma length_concat_sx [simp]: "length (concat (map sx ss)) = 6 * length ss"
  by (induction ss) auto

lemma bits8_inj: "bits8 cs = bits8 ds \<Longrightarrow> cs = ds"
proof (induction cs arbitrary: ds)
  case Nil
  then show ?case
    by (cases ds) (auto simp flip: length_0_conv)
next
  case (Cons c cs)
  from Cons.prems obtain d es where ds: "ds = d # es"
    by (cases ds) (auto simp flip: length_0_conv)
  with Cons.prems have "lowbits 8 c = lowbits 8 d" "bits8 cs = bits8 es"
    by (auto simp: append_eq_append_conv)
  then show ?case
    using Cons.IH ds lowbits_inj [of c d] by simp
qed

lemma lowbits_push8:
  assumes "n + 8 \<le> 32"
  shows "lowbits (n + 8) (push_bit 8 acc OR ucast c :: word32) = lowbits n acc @ lowbits 8 (c :: byte)"
proof -
  have "lowbits n (drop_bit 8 (push_bit 8 acc OR ucast c :: word32)) = lowbits n acc"
    using assms by (intro lowbits_cong)
      (auto simp: bit_drop_bit_eq bit_or_iff bit_push_bit_iff bit_ucast_iff dest: bit_imp_le_length)
  moreover have "lowbits 8 (push_bit 8 acc OR ucast c :: word32) = lowbits 8 c"
    by (intro lowbits_cong2) (auto simp: bit_or_iff bit_push_bit_iff bit_ucast_iff)
  ultimately show ?thesis
    by (simp only: lowbits_add)
qed

lemma lowbits_push6:
  assumes "n + 6 \<le> 32" and "k < 64"
  shows "lowbits (n + 6) (push_bit 6 acc OR word_of_nat k :: word32) = lowbits n acc @ sx k"
proof -
  have k: "\<not> bit k i" if "i \<ge> 6" for i
  proof -
    have "k < 2 ^ i"
      using assms(2) that power_increasing [of 6 i "2::nat"] by simp
    then show ?thesis
      by (simp add: bit_iff_odd)
  qed
  have "lowbits n (drop_bit 6 (push_bit 6 acc OR word_of_nat k :: word32)) = lowbits n acc"
    using assms k by (intro lowbits_cong)
      (auto simp: bit_drop_bit_eq bit_or_iff bit_push_bit_iff bit_of_nat_iff dest: bit_imp_le_length)
  moreover have "lowbits 6 (push_bit 6 acc OR word_of_nat k :: word32) = sx k"
    unfolding sx_def by (intro lowbits_cong) (auto simp: bit_or_iff bit_push_bit_iff)
  ultimately show ?thesis
    by (simp only: lowbits_add)
qed

lemma sextet: "unat (x AND 0x3f :: word32) < 64" "sx (unat (x AND 0x3f)) = lowbits 6 x"
proof -
  have m: "0x3f = (mask 6 :: word32)"
    by (simp add: mask_eq_exp_minus_1)
  show "unat (x AND 0x3f :: word32) < 64"
    unfolding m using and_mask_less' [of 6 x] by (simp add: word_less_nat_alt)
  show "sx (unat (x AND 0x3f)) = lowbits 6 x"
    unfolding m sx_def by (simp add: lowbits_mask)
qed

definition enc_rel :: "b64enc \<Rightarrow> nat list \<Rightarrow> nat \<Rightarrow> bool" where
  "enc_rel s ss N \<longleftrightarrow> be_retval s = map ((!) b64_table) ss @ replicate (N - length ss) 0x3d \<and>
     be_outpos s = length ss \<and> length ss \<le> N \<and> (\<forall>k \<in> set ss. k < 64)"

lemma enc_rel_update [simp]:
  "enc_rel (s\<lparr>be_bits := b\<rparr>) ss N = enc_rel s ss N" "enc_rel (s\<lparr>be_acc := a\<rparr>) ss N = enc_rel s ss N"
  by (simp_all add: enc_rel_def)

lemma b64_put_ok:
  assumes "enc_rel s ss N" and "length ss < N" and "k < 64"
  shows "\<exists>s'. b64_put k s = Inr s' \<and> enc_rel s' (ss @ [k]) N \<and> be_bits s' = be_bits s \<and> be_acc s' = be_acc s"
proof -
  obtain m where m: "N = Suc (length ss + m)"
    using assms(2) less_imp_Suc_add by blast
  have "be_retval s = map ((!) b64_table) ss @ 0x3d # replicate m 0x3d"
    using assms(1) m by (simp add: enc_rel_def)
  then show ?thesis
    using assms m by (auto simp: b64_put_def str_set_def enc_rel_def list_update_append)
qed

lemma b64_flush_ok:
  assumes "enc_rel s ss N" and "6 * length ss + be_bits s \<le> 6 * N"
  shows "\<exists>s' ts. b64_flush s = Inr s' \<and> enc_rel s' (ss @ ts) N \<and> be_bits s' < 6 \<and> be_acc s' = be_acc s \<and>
    concat (map sx ts) @ lowbits (be_bits s') (be_acc s) = lowbits (be_bits s) (be_acc s)"
  using assms
proof (induction s arbitrary: ss rule: b64_flush.induct)
  case (1 s)
  show ?case
  proof (cases "be_bits s \<ge> 6")
    case False
    then show ?thesis
      using 1(2) by (intro exI [of _ s] exI [of _ "[]"]) (simp add: b64_flush.simps)
  next
    case True
    define n where "n = be_bits s - 6"
    define k where "k = unat (drop_bit n (be_acc s) AND 0x3f)"
    have "enc_rel (s\<lparr>be_bits := n\<rparr>) ss N" and "length ss < N"
      using 1(2,3) True by auto
    then obtain s1 where s1: "b64_put k (s\<lparr>be_bits := n\<rparr>) = Inr s1" "enc_rel s1 (ss @ [k]) N"
        "be_bits s1 = n" "be_acc s1 = be_acc s"
      using b64_put_ok sextet(1) unfolding k_def by fastforce
    have fl: "b64_flush s = b64_flush s1"
      using True s1(1) unfolding n_def k_def by (subst b64_flush.simps) (simp add: Let_def)
    have "6 * length (ss @ [k]) + be_bits s1 \<le> 6 * N"
      using 1(3) True s1(3) n_def by simp
    then obtain s' ts where s': "b64_flush s1 = Inr s'" "enc_rel s' ((ss @ [k]) @ ts) N" "be_bits s' < 6" "be_acc s' = be_acc s1"
        "concat (map sx ts) @ lowbits (be_bits s') (be_acc s1) = lowbits (be_bits s1) (be_acc s1)"
      using 1(1) [OF True refl _ s1(2)] s1(1) unfolding n_def k_def by (simp add: Let_def) blast
    have "lowbits (be_bits s) (be_acc s) = sx k @ lowbits n (be_acc s)"
      using True lowbits_add [of 6 n "be_acc s"] sextet(2) unfolding n_def k_def by simp
    then show ?thesis
      using s' s1 fl by (intro exI [of _ s'] exI [of _ "k # ts"]) simp
  qed
qed

lemma b64_encode_loop_ok:
  "enc_rel s ss N \<Longrightarrow> be_bits s < 6 \<Longrightarrow> 6 * length ss + be_bits s + 8 * length cs \<le> 6 * N \<Longrightarrow>
    \<exists>s' ts. b64_encode_loop cs s = Inr s' \<and> enc_rel s' (ss @ ts) N \<and> be_bits s' < 6 \<and>
      concat (map sx ts) @ lowbits (be_bits s') (be_acc s') = lowbits (be_bits s) (be_acc s) @ bits8 cs"
proof (induction cs arbitrary: s ss)
  case Nil
  then show ?case
    by (intro exI [of _ s] exI [of _ "[]"]) simp
next
  case (Cons c cs)
  let ?s = "s\<lparr>be_acc := push_bit 8 (be_acc s) OR ucast c, be_bits := be_bits s + 8\<rparr>"
  have "enc_rel ?s ss N" "6 * length ss + be_bits ?s \<le> 6 * N"
    using Cons.prems by auto
  then obtain s1 ts where s1: "b64_flush ?s = Inr s1" "enc_rel s1 (ss @ ts) N" "be_bits s1 < 6" "be_acc s1 = be_acc ?s"
      "concat (map sx ts) @ lowbits (be_bits s1) (be_acc ?s) = lowbits (be_bits ?s) (be_acc ?s)"
    using b64_flush_ok by blast
  have fl: "concat (map sx ts) @ lowbits (be_bits s1) (be_acc s1) = lowbits (be_bits s) (be_acc s) @ lowbits 8 c"
    using s1(4,5) lowbits_push8 [of "be_bits s" "be_acc s" c] Cons.prems(2) by simp
  have "6 * length ts + be_bits s1 = be_bits s + 8"
    using arg_cong [OF fl, of length] by simp
  then have "6 * length (ss @ ts) + be_bits s1 + 8 * length cs \<le> 6 * N"
    using Cons.prems(3) by simp
  then obtain s' us where s': "b64_encode_loop cs s1 = Inr s'" "enc_rel s' ((ss @ ts) @ us) N" "be_bits s' < 6"
      "concat (map sx us) @ lowbits (be_bits s') (be_acc s') = lowbits (be_bits s1) (be_acc s1) @ bits8 cs"
    using Cons.IH [OF s1(2,3)] by blast
  have "concat (map sx (ts @ us)) @ lowbits (be_bits s') (be_acc s')
      = (lowbits (be_bits s) (be_acc s) @ lowbits 8 c) @ bits8 cs"
    by (simp only: map_append concat_append append_assoc s'(4) flip: fl)
  then show ?case
    using s' s1(1) by (intro exI [of _ s'] exI [of _ "ts @ us"]) simp
qed


text \<open>What the encoder returns: whole sextets, and padding to a multiple of four characters.\<close>

lemma u64_two_less: "2 \<le> n \<Longrightarrow> n < 18446744073709551616 \<Longrightarrow> u64 (n + 18446744073709551614) = n - 2"
  by (simp add: u64_def mod_if)

lemma base64_encode_ok:
  assumes "length bs \<le> 13835058055282163709" and "bs \<noteq> []"
  shows "\<exists>ss r pad. base64_encode bs = Inr (map ((!) b64_table) ss @ replicate r 0x3d) \<and> (\<forall>k \<in> set ss. k < 64) \<and>
    concat (map sx ss) = bits8 bs @ pad \<and> length pad < 6 \<and> length ss + r = (length bs + 2) div 3 * 4"
proof -
  define N where "N = (length bs + 2) div 3 * 4"
  define s0 where "s0 = \<lparr>be_retval = replicate N 0x3d, be_outpos = 0, be_bits = 0, be_acc = 0\<rparr>"
  have N: "8 * length bs \<le> 6 * N" and N2: "6 * N \<le> 8 * length bs + 16"
    unfolding N_def by linarith+
  have "1 \<le> length bs" using assms(2) by (cases bs) simp_all
  then have "2 \<le> N" "N < 18446744073709551616" using assms(1) unfolding N_def by linarith+
  note two = u64_two_less [OF this]
  have "enc_rel s0 [] N" "be_bits s0 < 6" "6 * length [] + be_bits s0 + 8 * length bs \<le> 6 * N"
    using N by (auto simp: s0_def enc_rel_def)
  then obtain s ss where s: "b64_encode_loop bs s0 = Inr s" "enc_rel s ss N" "be_bits s < 6"
      "concat (map sx ss) @ lowbits (be_bits s) (be_acc s) = bits8 bs"
    using b64_encode_loop_ok [of s0 "[]" N bs] by (auto simp: s0_def)
  have len: "6 * length ss + be_bits s = 8 * length bs"
    using arg_cong [OF s(4), of length] by simp
  have enc: "base64_encode bs = bindE (if be_bits s > 0 then
            assertE (be_bits s < 6)
              (let s1 = s\<lparr>be_acc := push_bit (6 - be_bits s) (be_acc s)\<rparr> in b64_put (unat (be_acc s1 AND 0x3f)) s1)
          else Inr s) (\<lambda>s'.
        assertE (be_outpos s' \<ge> u64 (length (be_retval s') + 18446744073709551614)) (assertE (be_outpos s' \<le> length (be_retval s'))
          (Inr (be_retval s'))))"
    using assms s(1) unfolding base64_encode_def N_def [symmetric] s0_def [symmetric] by simp
  show ?thesis
  proof (cases "be_bits s = 0")
    case True
    have "length ss \<ge> N - 2" using len True N2 by linarith
    with True s enc two show ?thesis
      by (intro exI [of _ ss] exI [of _ "N - length ss"] exI [of _ "[]"]) (auto simp: enc_rel_def N_def)
  next
    case False
    define b where "b = be_bits s"
    define k where "k = unat (push_bit (6 - b) (be_acc s) AND 0x3f)"
    have "length ss < N" using len False N by linarith
    then obtain s' where s': "b64_put k (s\<lparr>be_acc := push_bit (6 - b) (be_acc s)\<rparr>) = Inr s'" "enc_rel s' (ss @ [k]) N"
      using b64_put_ok [of "s\<lparr>be_acc := push_bit (6 - b) (be_acc s)\<rparr>" ss N k] s(2) sextet(1) by (auto simp: k_def)
    have b: "0 < b" "b < 6" using False s(3) by (auto simp: b_def)
    have "sx k = lowbits (b + (6 - b)) (push_bit (6 - b) (be_acc s))"
      using b by (simp add: k_def sextet(2))
    also have "\<dots> = lowbits b (drop_bit (6 - b) (push_bit (6 - b) (be_acc s))) @ lowbits (6 - b) (push_bit (6 - b) (be_acc s))"
      by (rule lowbits_add)
    also have "lowbits b (drop_bit (6 - b) (push_bit (6 - b) (be_acc s))) = lowbits b (be_acc s)"
      using b by (intro lowbits_cong) (auto simp: bit_drop_bit_eq bit_push_bit_iff)
    finally have "concat (map sx (ss @ [k])) = bits8 bs @ lowbits (6 - b) (push_bit (6 - b) (be_acc s))"
      using s(4) by (simp add: b_def flip: append_assoc)
    moreover have "N - 2 \<le> Suc (length ss)"
      using len N2 b unfolding b_def by linarith
    then have "base64_encode bs = Inr (be_retval s')"
      using enc s' b two unfolding b_def [symmetric] by (auto simp: Let_def k_def [symmetric] enc_rel_def)
    ultimately show ?thesis
      using s'(2) b by (intro exI [of _ "ss @ [k]"] exI [of _ "N - Suc (length ss)"] exI [of _ "lowbits (6 - b) (push_bit (6 - b) (be_acc s))"])
        (auto simp: enc_rel_def N_def)
  qed
qed

section \<open>The decoder\<close>

lemma b64_tables: "\<forall>k < 64. (let c = sint (b64_table ! k) in \<not> isspace c \<and> c \<noteq> 61 \<and> 0 \<le> c \<and> c \<le> 127 \<and> reverse_table ! nat c = k)"
proof -
  have "list_all (\<lambda>k. let c = sint (b64_table ! k) in \<not> isspace c \<and> c \<noteq> 61 \<and> 0 \<le> c \<and> c \<le> 127 \<and> reverse_table ! nat c = k) [0..<64]"
    by code_simp
  then show ?thesis
    by (simp add: list_all_iff)
qed

lemma byte_of: "lowbits 8 (ucast (x AND 0xff :: word32) :: byte) = lowbits 8 x"
proof -
  have m: "0xff = (mask 8 :: word32)"
    by (simp add: mask_eq_exp_minus_1)
  show ?thesis
    unfolding m by (intro lowbits_cong2) (auto simp: bit_ucast_iff bit_and_iff bit_mask_iff)
qed

lemma decode_padding: "b64_decode_loop (replicate r 0x3d) ret n acc = Inr ret"
  by (induction r) simp_all

lemma b64_decode_loop_ok:
  "n < 8 \<Longrightarrow> \<forall>k \<in> set ss. k < 64 \<Longrightarrow>
    \<exists>out pend. b64_decode_loop (map ((!) b64_table) ss @ replicate r 0x3d) ret n acc = Inr (ret @ out) \<and>
      bits8 out @ pend = lowbits n acc @ concat (map sx ss) \<and> length pend < 8"
proof (induction ss arbitrary: ret n acc)
  case Nil
  then show ?case
    by (intro exI [of _ "[]"] exI [of _ "lowbits n acc"]) (simp add: decode_padding)
next
  case (Cons k ss)
  let ?acc = "push_bit 6 acc OR word_of_nat k :: word32"
  define ret' n' where "ret' = (if n + 6 \<ge> 8 then ret @ [ucast (drop_bit (n + 6 - 8) ?acc AND 0xff)] else ret)"
    and "n' = (if n + 6 \<ge> 8 then n + 6 - 8 else n + 6)"
  have c: "\<not> isspace (sint (b64_table ! k))" "sint (b64_table ! k) \<noteq> 61" "0 \<le> sint (b64_table ! k)"
      "sint (b64_table ! k) \<le> 127" "reverse_table ! nat (sint (b64_table ! k)) = k"
    using b64_tables Cons.prems(2) by (auto simp: Let_def)
  have step: "b64_decode_loop (map ((!) b64_table) (k # ss) @ replicate r 0x3d) ret n acc =
      b64_decode_loop (map ((!) b64_table) ss @ replicate r 0x3d) ret' n' ?acc"
    using c Cons.prems(2) by (simp add: Let_def ret'_def n'_def)
  have "n' < 8" using Cons.prems(1) by (auto simp: n'_def)
  then obtain out pend where o: "b64_decode_loop (map ((!) b64_table) ss @ replicate r 0x3d) ret' n' ?acc = Inr (ret' @ out)"
      "bits8 out @ pend = lowbits n' ?acc @ concat (map sx ss)" "length pend < 8"
    using Cons.IH Cons.prems(2) by fastforce
  have push: "lowbits (n + 6) ?acc = lowbits n acc @ sx k"
    using Cons.prems by (intro lowbits_push6) auto
  show ?case
  proof (cases "n + 6 \<ge> 8")
    case True
    let ?c = "ucast (drop_bit (n + 6 - 8) ?acc AND 0xff) :: byte"
    have "n + 6 = 8 + n'" using True by (simp add: n'_def)
    note n = this
    have "lowbits 8 ?c = lowbits 8 (drop_bit n' ?acc)"
      using True unfolding byte_of n'_def by simp
    then have "lowbits 8 ?c @ lowbits n' ?acc = lowbits (8 + n') ?acc"
      by (simp only: lowbits_add)
    also have "\<dots> = lowbits n acc @ sx k"
      unfolding n [symmetric] by (rule push)
    finally have c8: "lowbits 8 ?c @ lowbits n' ?acc = lowbits n acc @ sx k" .
    have "bits8 (?c # out) @ pend = (lowbits 8 ?c @ lowbits n' ?acc) @ concat (map sx ss)"
      by (simp only: bits8_simps append_assoc o(2))
    then have "bits8 (?c # out) @ pend = lowbits n acc @ concat (map sx (k # ss))"
      unfolding c8 by simp
    then show ?thesis
      using step o True by (intro exI [of _ "?c # out"] exI [of _ pend]) (simp add: ret'_def)
  next
    case False
    then show ?thesis
      using step o push by (intro exI [of _ out] exI [of _ pend]) (simp add: ret'_def n'_def)
  qed
qed


text \<open>Characters the decoder skips, and characters it rejects.\<close>

definition b64_skipped :: "byte \<Rightarrow> bool" where
  "b64_skipped c \<longleftrightarrow> isspace (sint c) \<or> sint c = 61"

definition b64_legal :: "byte \<Rightarrow> bool" where
  "b64_legal c \<longleftrightarrow> 0 \<le> sint c \<and> reverse_table ! nat (sint c) \<le> 63"

lemma sint_byte_le: "sint (c :: byte) \<le> 127"
  using sint_less [of c] by simp

lemma b64_decode_loop_filter:
  "b64_decode_loop (filter (\<lambda>c. \<not> b64_skipped c) s) ret n acc = b64_decode_loop s ret n acc"
  by (induction s arbitrary: ret n acc) (auto simp: b64_skipped_def Let_def)

lemma b64_decode_loop_fails:
  "b64_decode_loop s ret n acc = Inl e \<longleftrightarrow> e = InvalidArgument \<and> (\<exists>c \<in> set s. \<not> b64_skipped c \<and> \<not> b64_legal c)"
proof (induction s arbitrary: ret n acc)
  case (Cons c s)
  have "\<not> sint c > 127" using sint_byte_le [of c] by simp
  with Cons show ?case
    by (auto simp: Let_def b64_skipped_def b64_legal_def)
qed simp

section \<open>Properties\<close>

text \<open>
  C26. Base64. Every string that is not empty and not longer than the encoder accepts is encoded without a write out of range or a failing assertion, to four
  characters for every three bytes begun, and decodes to itself; a longer one is rejected; and the empty string fails the assertion at the end of the encoder,
  where two is subtracted from its length zero.
\<close>

theorem base64_roundtrip:
  "if length bs > 13835058055282163709 then base64_encode bs = Inl LengthError
   else if bs = [] then base64_encode bs = Inl AssertFailed
   else \<exists>asc. base64_encode bs = Inr asc \<and> length asc = (length bs + 2) div 3 * 4 \<and> base64_decode asc = Inr bs"
proof -
  have "\<exists>asc. base64_encode bs = Inr asc \<and> length asc = (length bs + 2) div 3 * 4 \<and> base64_decode asc = Inr bs"
    if l: "length bs \<le> 13835058055282163709" and ne: "bs \<noteq> []"
  proof -
    obtain ss r pad where e: "base64_encode bs = Inr (map ((!) b64_table) ss @ replicate r 0x3d)" "\<forall>k \<in> set ss. k < 64"
        "concat (map sx ss) = bits8 bs @ pad" "length pad < 6" "length ss + r = (length bs + 2) div 3 * 4"
      using base64_encode_ok [OF l ne] by blast
    obtain out pend where d: "base64_decode (map ((!) b64_table) ss @ replicate r 0x3d) = Inr out"
        "bits8 out @ pend = concat (map sx ss)" "length pend < 8"
      using b64_decode_loop_ok [OF _ e(2), of 0 r "[]" 0] by (auto simp: base64_decode_def)
    have eq: "bits8 out @ pend = bits8 bs @ pad" using d(2) e(3) by simp
    have "8 * length out + length pend = 8 * length bs + length pad" using arg_cong [OF eq, of length] by simp
    then have "length out = length bs" using d(3) e(4) by linarith
    then have "bits8 out = bits8 bs" using eq by (simp add: append_eq_append_conv)
    then have "out = bs" by (rule bits8_inj)
    then show ?thesis using e d by auto
  qed
  moreover have "base64_encode [] = Inl AssertFailed" by (simp add: base64_encode_def assertE_def u64_def)
  moreover have "base64_encode bs = Inl LengthError" if "length bs > 13835058055282163709" using that by (simp add: base64_encode_def)
  ultimately show ?thesis by auto
qed

theorem base64_roundtrip_witness:
  "\<exists>asc. base64_encode [0x4d, 0x61] = Inr asc \<and> length asc = 4 \<and> base64_decode asc = Inr [0x4d, 0x61]"
  using base64_roundtrip [of "[0x4d, 0x61]"] by simp

text \<open>
  The decoder throws exactly when the input has a character that is neither skipped (white space,
  padding) nor in the alphabet, wherever it stands; and skipped characters never change the result.
\<close>

lemma base64_decode_errors:
  "(base64_decode s = Inl e \<longleftrightarrow> e = InvalidArgument \<and> (\<exists>c \<in> set s. \<not> b64_skipped c \<and> \<not> b64_legal c)) \<and>
   base64_decode (filter (\<lambda>c. \<not> b64_skipped c) s) = base64_decode s"
  by (simp add: base64_decode_def b64_decode_loop_fails b64_decode_loop_filter)

end
