(* ===== verification/Strings.thy ===== *)
theory Strings
  imports Prelude
begin

text \<open>
  \<open>base/utils/string.h\<close> and \<open>string.cpp\<close>: splitting, hashing and dumping of strings, with positions as in
  the source. Theorems: \<open>split_string\<close> agrees with a recursive definition of the fields of a string, the
  hash is the polynomial of the signed characters before the first NUL modulo \<open>2 ^ 31\<close>, and the fields of a
  binary dump are the decimal numbers of its bytes.
\<close>

section \<open>Model\<close>

text \<open>\<open>std::string::find(c, pos)\<close> and \<open>substr(pos, n)\<close>; \<open>npos\<close> is \<open>None\<close>.\<close>

definition str_find :: "'c \<Rightarrow> 'c list \<Rightarrow> nat \<Rightarrow> nat option" where
  "str_find c s pos = (let k = length (takeWhile (\<lambda>x. x \<noteq> c) (drop pos s))
     in if pos + k < length s then Some (pos + k) else None)"

definition substr :: "'c list \<Rightarrow> nat \<Rightarrow> nat \<Rightarrow> 'c list" where
  "substr s pos n = take n (drop pos s)"

lemma str_find_ge: "str_find c s pos = Some tag \<Longrightarrow> pos \<le> tag \<and> tag < length s"
  by (auto simp: str_find_def Let_def split: if_splits)

function split_loop :: "'c list \<Rightarrow> 'c \<Rightarrow> bool \<Rightarrow> nat \<Rightarrow> 'c list list \<Rightarrow> 'c list list" where
  "split_loop str separator trim_empty pos ls =
     (if pos < length str then
        (let tag = str_find separator str pos;
             temp = (case tag of Some t \<Rightarrow> substr str pos (t - pos) | None \<Rightarrow> drop pos str);
             ls' = (if \<not> trim_empty \<or> temp \<noteq> [] then ls @ [temp] else ls)
         in (case tag of None \<Rightarrow> ls' | Some t \<Rightarrow> split_loop str separator trim_empty (t + 1) ls'))
      else ls)"
  by pat_completeness auto
termination
  by (relation "measure (\<lambda>(str, _, _, pos, _). length str - pos)") (auto dest!: sym [of "Some _"] str_find_ge)

declare split_loop.simps [simp del]

definition split_string :: "'c list \<Rightarrow> 'c \<Rightarrow> bool \<Rightarrow> 'c list list" where
  "split_string str separator trim_empty = split_loop str separator trim_empty 0 []"

text \<open>\<open>hash * seed + *str++\<close> in 32 bits; the characters are signed.\<close>

fun hash_loop :: "bytes \<Rightarrow> 32 word \<Rightarrow> 32 word" where
  "hash_loop [] hash = hash"
| "hash_loop (c # str) hash = (if c = 0 then hash else hash_loop str (hash * 13131 + scast c))"

definition hash_string :: "bytes \<Rightarrow> 32 word" where
  "hash_string str = hash_loop str 0 AND 0x7FFFFFFF"

text \<open>\<open>sprintf\<close> with \<open>"%u"\<close> and \<open>"%d"\<close>.\<close>

definition digit_char :: "nat \<Rightarrow> byte" where
  "digit_char n = word_of_nat (48 + n)"

fun to_string_u :: "nat \<Rightarrow> bytes" where
  "to_string_u n = (if n < 10 then [digit_char n] else to_string_u (n div 10) @ [digit_char (n mod 10)])"

declare to_string_u.simps [simp del]

definition to_string_d :: "int \<Rightarrow> bytes" where
  "to_string_d v = (if v < 0 then 0x2d # to_string_u (nat (- v)) else to_string_u (nat v))"

fun string_dump_binary :: "bytes \<Rightarrow> bytes" where
  "string_dump_binary [] = []"
| "string_dump_binary (c # src) = to_string_u (unat c) @ [0x2c] @ string_dump_binary src"

section \<open>Fields\<close>

fun fields :: "'c \<Rightarrow> 'c list \<Rightarrow> 'c list list" where
  "fields sep [] = [[]]"
| "fields sep (c # s) = (if c = sep then [] # fields sep s else (c # hd (fields sep s)) # tl (fields sep s))"

lemma fields_ne [simp]: "fields sep s \<noteq> []"
  by (cases s) auto

lemma fields_free: "sep \<notin> set s \<Longrightarrow> fields sep s = [s]"
  by (induction s) auto

lemma fields_cut: "sep \<notin> set s \<Longrightarrow> fields sep (s @ sep # t) = s # fields sep t"
  by (induction s) auto

text \<open>The empty field behind a last separator is not a field for the code.\<close>

definition visible_fields :: "'c \<Rightarrow> 'c list \<Rightarrow> 'c list list" where
  "visible_fields sep s = (if last (fields sep s) = [] then butlast (fields sep s) else fields sep s)"

lemma visible_fields_Nil [simp]: "visible_fields sep [] = []"
  by (simp add: visible_fields_def)

lemma visible_fields_free: "sep \<notin> set s \<Longrightarrow> s \<noteq> [] \<Longrightarrow> visible_fields sep s = [s]"
  by (simp add: visible_fields_def fields_free)

lemma visible_fields_cut: "sep \<notin> set s \<Longrightarrow> visible_fields sep (s @ sep # t) = s # visible_fields sep t"
  by (simp add: visible_fields_def fields_cut)

lemma str_find_None: "str_find sep s pos = None \<Longrightarrow> sep \<notin> set (drop pos s)"
proof (rule ccontr)
  assume "str_find sep s pos = None" and "\<not> sep \<notin> set (drop pos s)"
  then have "length (takeWhile (\<lambda>x. x \<noteq> sep) (drop pos s)) < length (drop pos s)"
    by (metis (mono_tags, lifting) length_takeWhile_le nat_less_le takeWhile_eq_all_conv takeWhile_eq_take take_all order_refl)
  then show False
    using \<open>str_find sep s pos = None\<close> by (auto simp: str_find_def Let_def split: if_splits)
qed

lemma str_find_Some:
  assumes "str_find sep s pos = Some t"
  shows "drop pos s = substr s pos (t - pos) @ sep # drop (t + 1) s" and "sep \<notin> set (substr s pos (t - pos))"
proof -
  let ?w = "takeWhile (\<lambda>x. x \<noteq> sep) (drop pos s)"
  have t: "t = pos + length ?w" "t < length s"
    using assms by (auto simp: str_find_def Let_def split: if_splits)
  then have w: "substr s pos (t - pos) = ?w"
    by (simp add: substr_def takeWhile_eq_take [symmetric])
  then show "sep \<notin> set (substr s pos (t - pos))"
    by (auto dest: set_takeWhileD)
  have "length ?w < length (drop pos s)"
    using t by simp
  then have "s ! t = sep"
    using nth_length_takeWhile [of "\<lambda>x. x \<noteq> sep" "drop pos s"] t by simp
  then have "drop t s = sep # drop (t + 1) s"
    using t(2) Cons_nth_drop_Suc [of t s] by simp
  moreover have "drop pos s = ?w @ drop t s"
    using t(1) by (metis drop_drop add.commute dropWhile_eq_drop takeWhile_dropWhile_id)
  ultimately show "drop pos s = substr s pos (t - pos) @ sep # drop (t + 1) s"
    using w by simp
qed

definition kept :: "bool \<Rightarrow> 'c list list \<Rightarrow> 'c list list" where
  "kept trim fs = (if trim then filter (\<lambda>f. f \<noteq> []) fs else fs)"

lemma kept_Cons: "kept trim (f # fs) = (if \<not> trim \<or> f \<noteq> [] then [f] else []) @ kept trim fs"
  by (simp add: kept_def)

lemma split_loop_fields:
  "split_loop str sep trim pos ls = ls @ kept trim (visible_fields sep (drop pos str))"
proof (induction str sep trim pos ls rule: split_loop.induct)
  case (1 str sep trim pos ls)
  show ?case
  proof (cases "pos < length str")
    case False
    then show ?thesis
      by (subst split_loop.simps) (simp add: kept_def)
  next
    case True
    show ?thesis
    proof (cases "str_find sep str pos")
      case None
      then show ?thesis
        using True visible_fields_free [OF str_find_None [OF None]]
        by (subst split_loop.simps) (simp add: Let_def kept_def)
    next
      case (Some t)
      note IH = 1 [OF True refl refl refl Some]
      have "split_loop str sep trim pos ls = split_loop str sep trim (t + 1)
          (if \<not> trim \<or> substr str pos (t - pos) \<noteq> [] then ls @ [substr str pos (t - pos)] else ls)"
        using True Some by (subst split_loop.simps) (simp add: Let_def)
      also have "\<dots> = ls @ kept trim (substr str pos (t - pos) # visible_fields sep (drop (t + 1) str))"
        using IH Some by (auto simp: kept_Cons)
      finally show ?thesis
        using str_find_Some(1) [OF Some] visible_fields_cut [OF str_find_Some(2) [OF Some]] by simp
    qed
  qed
qed

section \<open>Numbers and hashes\<close>

lemma digit_char_eq: "n < 10 \<Longrightarrow> unat (digit_char n) = 48 + n"
  by (simp add: digit_char_def unat_of_nat del: of_nat_add)

lemma to_string_u_digits: "c \<in> set (to_string_u n) \<Longrightarrow> 48 \<le> unat c \<and> unat c \<le> 57"
proof (induction n rule: to_string_u.induct)
  case (1 n)
  then show ?case
    by (subst (asm) to_string_u.simps) (auto simp: digit_char_eq split: if_splits)
qed

lemma to_string_u_ne [simp]: "to_string_u n \<noteq> []"
  by (subst to_string_u.simps) simp

lemma dump_fields: "visible_fields 0x2c (string_dump_binary src) = map (\<lambda>c. to_string_u (unat c)) src"
proof (induction src)
  case (Cons c src)
  have "0x2c \<notin> set (to_string_u (unat c))"
    using to_string_u_digits [of "0x2c" "unat c"] by auto
  with Cons show ?case
    by (simp add: visible_fields_cut)
qed simp

lemma hash_loop_poly:
  "uint (hash_loop s (word_of_int h)) =
     foldl (\<lambda>h c. h * 13131 + sint c) h (takeWhile (\<lambda>c. c \<noteq> 0) s) mod 2 ^ 32"
proof (induction s arbitrary: h)
  case Nil
  show ?case by (simp add: uint_word_of_int take_bit_eq_mod)
next
  case (Cons c s)
  have "(word_of_int h * 13131 + scast c :: 32 word) = word_of_int (h * 13131 + sint c)"
    by (simp only: scast_eq of_int_add of_int_mult of_int_numeral)
  then have "hash_loop s (word_of_int h * 13131 + scast c) = hash_loop s (word_of_int (h * 13131 + sint c))"
    by (rule arg_cong)
  with Cons.IH [of "h * 13131 + sint c"] have IH: "uint (hash_loop s (word_of_int h * 13131 + scast c)) =
      foldl (\<lambda>h c. h * 13131 + sint c) (h * 13131 + sint c) (takeWhile (\<lambda>c. c \<noteq> 0) s) mod 2 ^ 32"
    by (simp only:)
  show ?case
  proof (cases "c = 0")
    case True
    then show ?thesis by (simp add: uint_word_of_int)
  next
    case False
    then show ?thesis
      using IH by (simp only: hash_loop.simps takeWhile.simps foldl.simps if_False if_True not_False_eq_True)
  qed
qed


section \<open>Properties\<close>

text \<open>
  \<open>split_string\<close> is the recursive splitting into fields: without trimming it returns the fields of the
  string less an empty field at the end, with trimming exactly the non-empty fields; the scan by
  positions always ends.
\<close>

lemma split_string_fields:
  "split_string s sep False = (if last (fields sep s) = [] then butlast (fields sep s) else fields sep s) \<and>
   split_string s sep True = filter (\<lambda>f. f \<noteq> []) (fields sep s)"
proof -
  have "filter (\<lambda>f. f \<noteq> []) (butlast (fields sep s)) @ filter (\<lambda>f. f \<noteq> []) [last (fields sep s)]
      = filter (\<lambda>f. f \<noteq> []) (fields sep s)"
    using arg_cong [OF append_butlast_last_id [OF fields_ne], of "filter (\<lambda>f. f \<noteq> [])"] unfolding filter_append .
  then have "filter (\<lambda>f. f \<noteq> []) (visible_fields sep s) = filter (\<lambda>f. f \<noteq> []) (fields sep s)"
    by (auto simp: visible_fields_def split: if_splits)
  then show ?thesis
    by (simp add: split_string_def split_loop_fields kept_def visible_fields_def)
qed

text \<open>
  The fields of a binary dump are the decimal renderings of its bytes, in order: the dump loses
  nothing.
\<close>

lemma string_dump_binary_fields:
  "split_string (string_dump_binary src) 0x2c trim = map (\<lambda>c. to_string_u (unat c)) src"
proof -
  have "kept trim (map (\<lambda>c. to_string_u (unat c)) src) = map (\<lambda>c. to_string_u (unat c)) src"
    by (auto simp: kept_def filter_map o_def)
  then show ?thesis
    by (simp add: split_string_def split_loop_fields dump_fields)
qed

text \<open>
  \<open>hash_string\<close> is the polynomial with base 13131 of the characters before the first NUL, read as
  signed numbers, modulo \<open>2 ^ 31\<close>: the wrap-around of the 32-bit accumulator is invisible and the result
  fits a non-negative \<open>int32_t\<close>.
\<close>

lemma hash_string_poly:
  "uint (hash_string s) = foldl (\<lambda>h c. h * 13131 + sint c) 0 (takeWhile (\<lambda>c. c \<noteq> 0) s) mod 2 ^ 31"
proof -
  let ?p = "foldl (\<lambda>h c. h * 13131 + sint c) 0 (takeWhile (\<lambda>c. c \<noteq> 0) s)"
  have m: "0x7FFFFFFF = (mask 31 :: 32 word)"
    by (simp add: mask_eq_exp_minus_1)
  have "uint (hash_string s) = uint (hash_loop s 0) mod 2 ^ 31"
    unfolding hash_string_def m take_bit_eq_mask [symmetric] unsigned_take_bit_eq by (rule take_bit_eq_mod)
  also have "\<dots> = ?p mod 2 ^ 32 mod 2 ^ 31"
    using hash_loop_poly [of s 0] by simp
  also have "\<dots> = ?p mod 2 ^ 31"
    by (rule mod_mod_cancel) simp
  finally show ?thesis .
qed

end
