(* ===== verification/Files.thy ===== *)
theory Files
  imports Strings
begin

text \<open>
  \<open>base/file/utils.cpp\<close>, \<open>base/utils/time.h\<close>, \<open>time.cpp\<close> and \<open>random.cpp\<close>. The file system is a map from
  paths to files and directories with the permissions \<open>access\<close> reports; local time is Unix time shifted by
  libc's \<open>timezone\<close>; the numbers \<open>rand\<close> and \<open>random\<close> return are arguments. Theorems: reading a saved file
  gives the content up to its first NUL, the parts of a file name, the day a time stamp falls into, and the
  range of random numbers.
\<close>

section \<open>File system\<close>

datatype fsnode = Dir | File bytes

record fs =
  fs_nodes :: "bytes \<Rightarrow> fsnode option"
  fs_readable :: "bytes \<Rightarrow> bool"
  fs_writable :: "bytes \<Rightarrow> bool"
  fs_creatable :: "bytes \<Rightarrow> bool"

text \<open>\<open>fopen\<close>: for reading, and for writing (which creates a missing file).\<close>

definition fopen_r :: "fs \<Rightarrow> bytes \<Rightarrow> bool" where
  "fopen_r f name \<longleftrightarrow> fs_nodes f name \<noteq> None \<and> fs_readable f name"

definition fopen_w :: "fs \<Rightarrow> bytes \<Rightarrow> bool" where
  "fopen_w f name \<longleftrightarrow> (case fs_nodes f name of None \<Rightarrow> fs_creatable f name | Some Dir \<Rightarrow> False | Some (File _) \<Rightarrow> fs_writable f name)"

definition file_bytes :: "fs \<Rightarrow> bytes \<Rightarrow> bytes" where
  "file_bytes f name = (case fs_nodes f name of Some (File b) \<Rightarrow> b | _ \<Rightarrow> [])"

definition dir_ensure :: "bytes \<Rightarrow> fs \<Rightarrow> bool \<times> fs" where
  "dir_ensure dir f = (case fs_nodes f dir of Some Dir \<Rightarrow> (True, f) | Some (File _) \<Rightarrow> (False, f)
     | None \<Rightarrow> if fs_creatable f dir then (True, f\<lparr>fs_nodes := (fs_nodes f)(dir \<mapsto> Dir)\<rparr>) else (False, f))"

text \<open>The loop over \<open>fread\<close> with a buffer of 512 bytes; the position is the bytes left to read.\<close>

function fread_loop :: "bytes \<Rightarrow> bytes \<Rightarrow> bytes" where
  "fread_loop rest content = (let b = take 512 rest in
     if length b > 0 then fread_loop (drop (length b) rest) (content @ b) else content)"
  by pat_completeness auto
termination
  by (relation "measure (\<lambda>(rest, _). length rest)") auto

declare fread_loop.simps [simp del]

definition file_get_content :: "bytes \<Rightarrow> fs \<Rightarrow> bytes" where
  "file_get_content name f = (if fopen_r f name then fread_loop (file_bytes f name) [] else [])"

text \<open>\<open>fputs(content.c_str(), f)\<close> writes the bytes before the first NUL.\<close>

definition c_str :: "bytes \<Rightarrow> bytes" where
  "c_str s = takeWhile (\<lambda>c. c \<noteq> 0) s"

definition file_save_content :: "bytes \<Rightarrow> bytes \<Rightarrow> fs \<Rightarrow> bool \<times> fs" where
  "file_save_content name content f =
     (if fopen_w f name then (True, f\<lparr>fs_nodes := (fs_nodes f)(name \<mapsto> File (c_str content))\<rparr>) else (False, f))"

definition file_append_content :: "bytes \<Rightarrow> bytes \<Rightarrow> fs \<Rightarrow> bool \<times> fs" where
  "file_append_content name content f =
     (if fopen_w f name then (True, f\<lparr>fs_nodes := (fs_nodes f)(name \<mapsto> File (file_bytes f name @ c_str content))\<rparr>)
      else (False, f))"

text \<open>The entries of a directory, in the order \<open>readdir\<close> returns them, that are regular files.\<close>

fun readdir_loop :: "bytes \<Rightarrow> bytes list \<Rightarrow> fs \<Rightarrow> bytes list \<Rightarrow> bytes list result" where
  "readdir_loop dir [] f ret = Inr ret"
| "readdir_loop dir (d_name # ds) f ret =
     (if dir = [] then Inl OutOfRange
      else let filename = (if last dir \<noteq> 0x2f then dir @ [0x2f] else dir) @ d_name in
        readdir_loop dir ds f (case fs_nodes f filename of Some (File _) \<Rightarrow> ret @ [filename] | _ \<Rightarrow> ret))"

definition dir_get_files :: "(fs \<Rightarrow> bytes \<Rightarrow> bytes list option) \<Rightarrow> bytes \<Rightarrow> fs \<Rightarrow> bytes list result" where
  "dir_get_files opendir dir f = (case opendir f dir of None \<Rightarrow> Inr [] | Some ds \<Rightarrow> readdir_loop dir ds f [])"

definition filename_is_extension :: "bytes \<Rightarrow> bytes \<Rightarrow> bool result" where
  "filename_is_extension filename ext =
     (let n = length (c_str filename); m = length (c_str ext) in
      if n < m then Inl OutOfRange else Inr (drop (n - m) (c_str filename) = c_str ext))"

definition file_is_exist :: "bytes \<Rightarrow> fs \<Rightarrow> bool" where
  "file_is_exist name f \<longleftrightarrow> fs_nodes f name \<noteq> None"

definition file_can_read :: "bytes \<Rightarrow> fs \<Rightarrow> bool" where
  "file_can_read name f \<longleftrightarrow> fs_nodes f name \<noteq> None \<and> fs_readable f name"

definition file_can_write :: "bytes \<Rightarrow> fs \<Rightarrow> bool" where
  "file_can_write name f \<longleftrightarrow> fs_nodes f name \<noteq> None \<and> fs_writable f name"

definition file_can_read_write :: "bytes \<Rightarrow> fs \<Rightarrow> bool" where
  "file_can_read_write name f \<longleftrightarrow> fs_nodes f name \<noteq> None \<and> fs_readable f name \<and> fs_writable f name"

text \<open>\<open>std::string::rfind\<close>.\<close>

fun rfind_at :: "byte \<Rightarrow> bytes \<Rightarrow> nat \<Rightarrow> nat option" where
  "rfind_at c s 0 = None"
| "rfind_at c s (Suc i) = (if s ! i = c then Some i else rfind_at c s i)"

definition rfind :: "byte \<Rightarrow> bytes \<Rightarrow> nat option" where
  "rfind c s = rfind_at c s (length s)"

definition filename_extenstion :: "bytes \<Rightarrow> bytes" where
  "filename_extenstion filename = (case rfind 0x2e filename of None \<Rightarrow> []
     | Some pos \<Rightarrow> substr filename pos (length filename - pos))"

text \<open>\<open>pos2 - pos1\<close> wraps when the last dot stands before the last slash.\<close>

definition filename_shortname :: "bytes \<Rightarrow> bytes" where
  "filename_shortname filename = (case rfind 0x2e filename of None \<Rightarrow> []
     | Some pos2 \<Rightarrow> let pos1 = (case rfind 0x2f filename of None \<Rightarrow> 0 | Some p \<Rightarrow> p + 1) in
         substr filename pos1 (if pos1 \<le> pos2 then pos2 - pos1 else u64 (pos2 + 18446744073709551616 - pos1)))"

section \<open>Time\<close>

text \<open>C's integer division truncates towards zero.\<close>

definition tdiv :: "int \<Rightarrow> int \<Rightarrow> int" where
  "tdiv a b = (if (a < 0) = (b < 0) then \<bar>a\<bar> div \<bar>b\<bar> else - (\<bar>a\<bar> div \<bar>b\<bar>))"

definition SECONDS_OF_ONE_HOUR :: int where
  "SECONDS_OF_ONE_HOUR = 3600"

definition SECONDS_OF_ONE_DAY :: int where
  "SECONDS_OF_ONE_DAY = SECONDS_OF_ONE_HOUR * 24"

definition get_today_timestamp_at_hour :: "int \<Rightarrow> int \<Rightarrow> nat \<Rightarrow> int" where
  "get_today_timestamp_at_hour timezone timestamp hour =
     (let today = tdiv (timestamp - timezone) SECONDS_OF_ONE_DAY in
      today * SECONDS_OF_ONE_DAY + int hour * SECONDS_OF_ONE_HOUR + timezone)"

text \<open>\<open>now\<close> is the dispatcher's time stamp.\<close>

definition before_timepoint_in_today :: "int \<Rightarrow> int \<Rightarrow> int \<Rightarrow> nat \<Rightarrow> bool" where
  "before_timepoint_in_today timezone now timestamp today_hour =
     (let today = tdiv (now - timezone) SECONDS_OF_ONE_DAY;
          ts = today * SECONDS_OF_ONE_DAY + int today_hour * SECONDS_OF_ONE_HOUR + timezone
      in timestamp < ts)"

definition days_since_epoch :: "int \<Rightarrow> int" where
  "days_since_epoch timestamp = tdiv timestamp (24 * 60 * 60)"

definition is_today_from_timestamp :: "int \<Rightarrow> int \<Rightarrow> int \<Rightarrow> bool" where
  "is_today_from_timestamp timezone nowts timestamp \<longleftrightarrow>
     tdiv (nowts - timezone) SECONDS_OF_ONE_DAY = tdiv (timestamp - timezone) SECONDS_OF_ONE_DAY"

definition today_zero_timestamp :: "int \<Rightarrow> int \<Rightarrow> int" where
  "today_zero_timestamp timezone nowts = (nowts - tdiv timezone SECONDS_OF_ONE_DAY) * SECONDS_OF_ONE_DAY"

text \<open>The fields of \<open>gmtime\<close> the code reads.\<close>

definition tm_wday :: "int \<Rightarrow> int" where
  "tm_wday t = (t div 86400 + 4) mod 7"

definition tm_hour :: "int \<Rightarrow> int" where
  "tm_hour t = t mod 86400 div 3600"

definition GetWeekDay :: "int \<Rightarrow> int" where
  "GetWeekDay tick = tm_wday (tdiv tick 1000)"

definition GetHour :: "int \<Rightarrow> int" where
  "GetHour tick = tm_hour (tdiv tick 1000)"

definition daytick :: int where
  "daytick = 86400000"

definition hourtick :: int where
  "hourtick = 3600000"

section \<open>Random\<close>

definition RANDOM_DICT :: bytes where
  "RANDOM_DICT = map of_char ''abcdefghijklmnopqrstuvwxyzABCDEFGHIJKLMNOPQRSTUVWXYZ0123456789''"

text \<open>\<open>draw i\<close> is the number the \<open>i\<close>-th call of \<open>rand\<close> returns.\<close>

fun random_string_loop :: "(nat \<Rightarrow> nat) \<Rightarrow> nat \<Rightarrow> nat \<Rightarrow> bytes \<Rightarrow> bytes" where
  "random_string_loop draw i 0 str = str"
| "random_string_loop draw i (Suc n) str = random_string_loop draw (i + 1) n (str @ [RANDOM_DICT ! (draw i mod length RANDOM_DICT)])"

definition Random_GenRandomString :: "(nat \<Rightarrow> nat) \<Rightarrow> int \<Rightarrow> bytes" where
  "Random_GenRandomString draw n = random_string_loop draw 0 (nat n) []"

text \<open>C's remainder has the sign of the dividend, which \<open>random\<close> returns non-negative.\<close>

definition Random_GenRandomNum :: "nat \<Rightarrow> int \<Rightarrow> int" where
  "Random_GenRandomNum r mx = (if mx = 0 then 0 else int r mod \<bar>mx\<bar>)"

definition Random_GenRandomNum_range :: "nat \<Rightarrow> int \<Rightarrow> int \<Rightarrow> int" where
  "Random_GenRandomNum_range r mn mx = (if mx = mn then mn else int r mod \<bar>mx - mn\<bar> + mn)"

section \<open>Lemmas\<close>

lemma fread_loop_all: "fread_loop rest content = content @ rest"
proof (induction rest content rule: fread_loop.induct)
  case (1 rest content)
  show ?case
    using 1 by (subst fread_loop.simps) (auto simp: Let_def min_def)
qed

lemma rfind_at_None: "rfind_at c s n = None \<longleftrightarrow> (\<forall>i < n. s ! i \<noteq> c)"
  by (induction n) (auto simp: less_Suc_eq)

lemma rfind_at_last: "i < n \<Longrightarrow> s ! i = c \<Longrightarrow> \<forall>j. i < j \<and> j < n \<longrightarrow> s ! j \<noteq> c \<Longrightarrow> rfind_at c s n = Some i"
proof (induction n)
  case (Suc n)
  then show ?case
    by (cases "i = n") (auto simp: less_Suc_eq)
qed simp

lemma rfind_append: "c \<notin> set t \<Longrightarrow> rfind c (s @ c # t) = Some (length s)"
  unfolding rfind_def
proof (rule rfind_at_last)
  assume c: "c \<notin> set t"
  show "\<forall>j. length s < j \<and> j < length (s @ c # t) \<longrightarrow> (s @ c # t) ! j \<noteq> c"
  proof (intro allI impI)
    fix j assume j: "length s < j \<and> j < length (s @ c # t)"
    then have "(s @ c # t) ! j = t ! (j - Suc (length s))" and "j - Suc (length s) < length t"
      by (auto simp: nth_append nth_Cons')
    with c show "(s @ c # t) ! j \<noteq> c"
      by (metis nth_mem)
  qed
qed simp_all

lemma rfind_None: "c \<notin> set s \<Longrightarrow> rfind c s = None"
  by (auto simp: rfind_def rfind_at_None in_set_conv_nth)

lemma tdiv_nonneg: "0 \<le> a \<Longrightarrow> tdiv a 86400 = a div 86400"
  by (simp add: tdiv_def)


text \<open>The parts of a file name \<open>dir/base.ext\<close>.\<close>

lemma filename_parts:
  assumes "0x2f \<notin> set base" and "0x2f \<notin> set ext" and "0x2e \<notin> set ext"
  shows "filename_extenstion (dir @ 0x2f # base @ 0x2e # ext) = 0x2e # ext"
    and "filename_shortname (dir @ 0x2f # base @ 0x2e # ext) = base"
    and "filename_shortname (base @ 0x2e # ext) = base"
proof -
  let ?f = "dir @ 0x2f # base @ 0x2e # ext"
  have dot: "rfind 0x2e ?f = Some (length (dir @ 0x2f # base))"
    using rfind_append [OF assms(3), of "dir @ 0x2f # base"] by simp
  have slash: "rfind 0x2f ?f = Some (length dir)"
    using assms by (intro rfind_append) auto
  show "filename_extenstion ?f = 0x2e # ext"
    unfolding filename_extenstion_def dot by (simp add: substr_def)
  show "filename_shortname ?f = base"
    unfolding filename_shortname_def dot slash by (simp add: substr_def Let_def)
  have "rfind 0x2e (base @ 0x2e # ext) = Some (length base)" "rfind 0x2f (base @ 0x2e # ext) = None"
    using assms by (auto intro: rfind_append rfind_None)
  then show "filename_shortname (base @ 0x2e # ext) = base"
    by (simp add: filename_shortname_def substr_def)
qed

lemma random_string_loop_chars:
  "length (random_string_loop draw i n str) = length str + n \<and>
   set (random_string_loop draw i n str) \<subseteq> set str \<union> set RANDOM_DICT"
proof (induction n arbitrary: i str)
  case (Suc n)
  have "RANDOM_DICT ! (draw i mod length RANDOM_DICT) \<in> set RANDOM_DICT"
    by (intro nth_mem mod_less_divisor) (simp add: RANDOM_DICT_def)
  then show ?case
    using Suc [of "i + 1" "str @ [RANDOM_DICT ! (draw i mod length RANDOM_DICT)]"] by auto
qed simp

section \<open>Properties\<close>

text \<open>
  Reading a file that was just saved gives the saved content up to its first NUL, whatever its length
  (the read proceeds in blocks of 512 bytes), and appending adds the new content behind the old one; a
  content with no NUL is read back unchanged.
\<close>

lemma file_content_roundtrip:
  assumes "fopen_w f name" and "fs_readable f name"
  shows "file_get_content name (snd (file_save_content name content f)) = takeWhile (\<lambda>c. c \<noteq> 0) content \<and>
    file_get_content name (snd (file_append_content name content f)) = file_get_content name f @ takeWhile (\<lambda>c. c \<noteq> 0) content \<and>
    (0 \<notin> set content \<longrightarrow> file_get_content name (snd (file_save_content name content f)) = content)"
proof -
  have "file_get_content name f = file_bytes f name"
    using assms by (auto simp: file_get_content_def fopen_r_def fread_loop_all file_bytes_def)
  then show ?thesis
    using assms by (auto simp: file_save_content_def file_append_content_def file_get_content_def fopen_r_def
        fread_loop_all file_bytes_def c_str_def takeWhile_eq_all_conv)
qed

lemma file_content_roundtrip_witness:
  "file_get_content [0x61] (snd (file_save_content [0x61] [1, 2, 0, 3]
     \<lparr>fs_nodes = (\<lambda>_. None), fs_readable = (\<lambda>_. True), fs_writable = (\<lambda>_. True), fs_creatable = (\<lambda>_. True)\<rparr>)) = [1, 2]"
  using file_content_roundtrip [of "\<lparr>fs_nodes = (\<lambda>_. None), fs_readable = (\<lambda>_. True), fs_writable = (\<lambda>_. True),
      fs_creatable = (\<lambda>_. True)\<rparr>" "[0x61]" "[1, 2, 0, 3]"]
  by (simp add: fopen_w_def)

text \<open>
  For a time stamp after local midnight of the first day, hour 0 of its day is a local midnight at most
  a day before it; a second such time stamp is of the same day exactly when it lies in the day that starts
  there; and a time stamp is before an hour of today exactly when it is below today's time stamp at that
  hour.
\<close>

lemma today_window:
  assumes "timezone \<le> ts" and "timezone \<le> now"
  shows "(let z = get_today_timestamp_at_hour timezone ts 0 in
      z \<le> ts \<and> ts < z + 86400 \<and> (z - timezone) mod 86400 = 0 \<and>
      (is_today_from_timestamp timezone now ts \<longleftrightarrow> z \<le> now \<and> now < z + 86400)) \<and>
    before_timepoint_in_today timezone now ts h = (ts < get_today_timestamp_at_hour timezone now h)"
proof -
  let ?a = "ts - timezone" and ?b = "now - timezone"
  have nn: "0 \<le> ?a" "0 \<le> ?b" using assms by auto
  have day: "SECONDS_OF_ONE_DAY = 86400"
    by (simp add: SECONDS_OF_ONE_DAY_def SECONDS_OF_ONE_HOUR_def)
  have z: "get_today_timestamp_at_hour timezone ts 0 = ?a div 86400 * 86400 + timezone"
    using nn by (simp add: get_today_timestamp_at_hour_def day tdiv_nonneg)
  have "?b div 86400 = ?a div 86400 \<longleftrightarrow> ?a div 86400 * 86400 \<le> ?b \<and> ?b < ?a div 86400 * 86400 + 86400"
    by linarith
  then have "is_today_from_timestamp timezone now ts \<longleftrightarrow>
      get_today_timestamp_at_hour timezone ts 0 \<le> now \<and> now < get_today_timestamp_at_hour timezone ts 0 + 86400"
    using nn unfolding z by (auto simp: is_today_from_timestamp_def day tdiv_nonneg)
  moreover have "get_today_timestamp_at_hour timezone ts 0 \<le> ts" "ts < get_today_timestamp_at_hour timezone ts 0 + 86400"
    unfolding z by linarith+
  moreover have "(get_today_timestamp_at_hour timezone ts 0 - timezone) mod 86400 = 0"
    unfolding z by simp
  ultimately show ?thesis
    by (simp add: Let_def before_timepoint_in_today_def get_today_timestamp_at_hour_def)
qed

lemma today_window_witness:
  "is_today_from_timestamp (- 28800) 1400000000 1400000001"
  using today_window [of "- 28800" 1400000001 1400000000 0]
  by (simp add: Let_def get_today_timestamp_at_hour_def tdiv_def SECONDS_OF_ONE_DAY_def SECONDS_OF_ONE_HOUR_def)

text \<open>\<open>today_zero_timestamp\<close>, documented as the time stamp of the midnight of today, lies beyond now.\<close>

lemma today_zero_timestamp_beyond:
  "\<bar>timezone\<bar> < 86400 \<Longrightarrow> 0 < now \<Longrightarrow> now < today_zero_timestamp timezone now"
  by (simp add: today_zero_timestamp_def tdiv_def SECONDS_OF_ONE_DAY_def SECONDS_OF_ONE_HOUR_def div_pos_pos_trivial)

lemma Random_GenRandomNum_range_bounds:
  "mn < mx \<Longrightarrow> mn \<le> Random_GenRandomNum_range r mn mx \<and> Random_GenRandomNum_range r mn mx < mx"
  using pos_mod_bound [of "mx - mn" "int r"] by (simp add: Random_GenRandomNum_range_def del: pos_mod_bound)

end
