(* ===== verification/Event.thy ===== *)
theory Event
  imports ObjectModel
begin

text \<open>
  \<open>base/event.h\<close>: events with handlers that are bound through reference-counted linkers. A callback is its
  identity, the linkers whose owner's reference it gives up while it runs, and the callbacks it attaches to
  the same event, each with the owner's retain or without. Theorem: a trigger runs exactly the handlers
  whose linker is held, the last attached first, and frees exactly the others.
\<close>

section \<open>Model\<close>

datatype evcb = EvCb (ev_id: nat) (ev_drops: "oid list") (ev_attach: "(bool \<times> evcb) list")

record handler =
  eh_cb :: evcb
  eh_linker :: oid

type_synonym event = "handler list"

definition Handler_new :: "evcb \<Rightarrow> objheap \<Rightarrow> handler \<times> objheap" where
  "Handler_new cb h = (let (l, h') = Object_new h in (\<lparr>eh_cb = cb, eh_linker = l\<rparr>, h'))"

definition Handler_delete :: "handler \<Rightarrow> objheap \<Rightarrow> objheap result" where
  "Handler_delete x h = bindE (SAFE_RELEASE (Some (eh_linker x)) h) (\<lambda>(_, h'). Inr h')"

definition Event_Attach :: "evcb \<Rightarrow> event \<times> objheap \<Rightarrow> oid \<times> event \<times> objheap" where
  "Event_Attach cb s = (let (x, h) = Handler_new cb (snd s) in (eh_linker x, x # fst s, h))"

text \<open>What a callback does: it gives up linkers, then attaches callbacks and retains some of their linkers.\<close>

fun run_attach :: "(bool \<times> evcb) list \<Rightarrow> event \<times> objheap \<Rightarrow> (event \<times> objheap) result" where
  "run_attach [] s = Inr s"
| "run_attach ((keep, cb) # as) s = (let (l, s') = Event_Attach cb s in
     if keep then bindE (Object_Retain l (snd s')) (\<lambda>h. run_attach as (fst s', h)) else run_attach as s')"

definition run_callback :: "evcb \<Rightarrow> event \<times> objheap \<Rightarrow> (event \<times> objheap) result" where
  "run_callback cb s = bindE (release_all (ev_drops cb) (snd s)) (\<lambda>h. run_attach (ev_attach cb) (fst s, h))"

text \<open>
  The loop of \<open>Trigger\<close>: the first list holds the handlers before \<open>cur\<close>, to whose front new handlers are
  pushed, the second the handlers from \<open>cur\<close> on.
\<close>

fun Trigger_loop :: "event \<Rightarrow> event \<Rightarrow> objheap \<Rightarrow> nat list \<Rightarrow> (event \<times> objheap \<times> nat list) result" where
  "Trigger_loop bef [] h tr = Inr (bef, h, tr)"
| "Trigger_loop bef (cur # rest) h tr =
     bindE (Object_reference_count (eh_linker cur) h) (\<lambda>n.
       if n \<ge> 2 then
         bindE (run_callback (eh_cb cur) (bef, h)) (\<lambda>(bef', h').
           Trigger_loop (bef' @ [cur]) rest h' (tr @ [ev_id (eh_cb cur)]))
       else bindE (Handler_delete cur h) (\<lambda>h'. Trigger_loop bef rest h' tr))"

definition Event_Trigger :: "event \<times> objheap \<Rightarrow> ((event \<times> objheap) \<times> nat list) result" where
  "Event_Trigger s = bindE (Trigger_loop [] (fst s) (snd s) []) (\<lambda>(e, h, tr). Inr ((e, h), tr))"

fun Clear_loop :: "event \<Rightarrow> objheap \<Rightarrow> objheap result" where
  "Clear_loop [] h = Inr h"
| "Clear_loop (cur # rest) h = bindE (Handler_delete cur h) (Clear_loop rest)"

definition Event_Clear :: "event \<times> objheap \<Rightarrow> (event \<times> objheap) result" where
  "Event_Clear s = bindE (Clear_loop (fst s) (snd s)) (\<lambda>h. Inr ([], h))"

section \<open>Invariant\<close>

text \<open>Every handler holds one reference of a live linker of its own; the counts are far from wrapping.\<close>

definition ev_inv :: "event \<Rightarrow> objheap \<Rightarrow> bool" where
  "ev_inv e h \<longleftrightarrow> distinct (map eh_linker e) \<and>
     (\<forall>x \<in> set e. eh_linker x < obj_next h \<and> (\<exists>n. rc h (eh_linker x) = Some n \<and> 0 < n \<and> n < 4294967295))"

definition held :: "objheap \<Rightarrow> handler \<Rightarrow> bool" where
  "held h x \<longleftrightarrow> (\<exists>n \<ge> 2. rc h (eh_linker x) = Some n)"

text \<open>A callback gives up the linker of its own binding or none.\<close>

definition own_drops :: "handler \<Rightarrow> bool" where
  "own_drops x \<longleftrightarrow> ev_drops (eh_cb x) = [] \<or> ev_drops (eh_cb x) = [eh_linker x]"

text \<open>The counts of the linkers below \<open>m\<close> that are not in \<open>ls\<close> are those of \<open>h\<close>.\<close>

definition same_below :: "oid \<Rightarrow> oid set \<Rightarrow> objheap \<Rightarrow> objheap \<Rightarrow> bool" where
  "same_below m ls h h' \<longleftrightarrow> (\<forall>l. l < m \<longrightarrow> l \<notin> ls \<longrightarrow> rc h' l = rc h l)"

lemma run_attach_ok:
  "\<exists>new h'. run_attach as (e, h) = Inr (new @ e, h') \<and> map eh_cb new = rev (map snd as) \<and>
     same_below (obj_next h) {} h h' \<and> obj_next h \<le> obj_next h' \<and> ev_inv new h' \<and> (\<forall>x \<in> set new. obj_next h \<le> eh_linker x)"
proof (induction as arbitrary: e h)
  case Nil
  show ?case by (intro exI [of _ "[]"]) (simp add: same_below_def ev_inv_def)
next
  case (Cons a as)
  obtain keep cb where a: "a = (keep, cb)" by (cases a)
  let ?x = "\<lparr>eh_cb = cb, eh_linker = obj_next h\<rparr>"
  define h1 where "h1 = snd (Object_new h)"
  define h2 where "h2 = (if keep then h1\<lparr>rc := (rc h1)(obj_next h \<mapsto> 2)\<rparr> else h1)"
  have h2: "obj_next h2 = obj_next h + 1" "rc h2 (obj_next h) = Some (if keep then 2 else 1)"
      "\<And>l. l < obj_next h \<Longrightarrow> rc h2 l = rc h l"
    by (auto simp: h2_def h1_def Object_new_def)
  have step: "run_attach (a # as) (e, h) = run_attach as (?x # e, h2)"
    by (simp add: a Event_Attach_def Handler_new_def h2_def h1_def Object_new_def Object_Retain_def numeral_2_eq_2)
  obtain new h' where n: "run_attach as (?x # e, h2) = Inr (new @ ?x # e, h')" "map eh_cb new = rev (map snd as)"
      "same_below (obj_next h2) {} h2 h'" "obj_next h2 \<le> obj_next h'" "ev_inv new h'" "\<forall>x \<in> set new. obj_next h2 \<le> eh_linker x"
    using Cons.IH [of "?x # e" h2] by blast
  have "rc h' (obj_next h) = Some (if keep then 2 else 1)"
    using n(3) h2 by (simp add: same_below_def)
  then have "ev_inv (new @ [?x]) h'"
    using n(4-6) h2(1) by (fastforce simp: ev_inv_def)
  moreover have "same_below (obj_next h) {} h h'"
    using n(3) h2 by (simp add: same_below_def)
  ultimately show ?case
    using step n h2(1) by (intro exI [of _ "new @ [?x]"] exI [of _ h']) (auto simp: a)
qed


lemma ev_inv_append:
  "ev_inv (e @ f) h \<longleftrightarrow> ev_inv e h \<and> ev_inv f h \<and> eh_linker ` set e \<inter> eh_linker ` set f = {}"
  by (auto simp: ev_inv_def)

lemma ev_inv_frame:
  assumes "ev_inv e h" and "\<forall>x \<in> set e. rc h' (eh_linker x) = rc h (eh_linker x)" and "obj_next h \<le> obj_next h'"
  shows "ev_inv e h'"
  using assms by (fastforce simp: ev_inv_def)

text \<open>The count of a handler's linker when a trigger has passed it.\<close>

definition count_after :: "objheap \<Rightarrow> handler \<Rightarrow> nat option" where
  "count_after h x = (if \<not> held h x then None
     else if ev_drops (eh_cb x) \<noteq> [] then map_option (\<lambda>n. n - 1) (rc h (eh_linker x)) else rc h (eh_linker x))"

lemma Handler_delete_ok:
  assumes "ev_inv [x] h" and "\<not> held h x"
  shows "\<exists>h'. Handler_delete x h = Inr h' \<and> rc h' = (rc h)(eh_linker x := None) \<and> obj_next h' = obj_next h"
proof -
  obtain n where "rc h (eh_linker x) = Some n" "0 < n"
    using assms(1) by (auto simp: ev_inv_def)
  moreover from this have "n < 2"
    using assms(2) by (auto simp: held_def)
  ultimately have "rc h (eh_linker x) = Some 1"
    by (cases n) auto
  then show ?thesis
    by (auto simp: Handler_delete_def SAFE_RELEASE_def Object_Release_def Object_delete_def Let_def)
qed

lemma run_callback_ok:
  assumes "ev_inv [x] h" and "held h x" and "own_drops x"
  shows "\<exists>new h'. run_callback (eh_cb x) (e, h) = Inr (new @ e, h') \<and> map eh_cb new = rev (map snd (ev_attach (eh_cb x))) \<and>
    same_below (obj_next h) {eh_linker x} h h' \<and> rc h' (eh_linker x) = count_after h x \<and> obj_next h \<le> obj_next h' \<and>
    ev_inv new h' \<and> (\<forall>y \<in> set new. obj_next h \<le> eh_linker y)"
proof -
  obtain n where n: "rc h (eh_linker x) = Some n" "2 \<le> n" "n < 4294967295" "eh_linker x < obj_next h"
    using assms(1,2) by (auto simp: ev_inv_def held_def)
  have "0 < n - 1" using n(2) by simp
  then have "\<exists>h1. release_all (ev_drops (eh_cb x)) h = Inr h1 \<and> rc h1 (eh_linker x) = count_after h x \<and>
      same_below (obj_next h) {eh_linker x} h h1 \<and> obj_next h1 = obj_next h"
    using assms(2,3) n by (auto simp: own_drops_def count_after_def same_below_def Object_Release_def Let_def)
  then obtain h1 where h1: "release_all (ev_drops (eh_cb x)) h = Inr h1" "rc h1 (eh_linker x) = count_after h x"
      "same_below (obj_next h) {eh_linker x} h h1" "obj_next h1 = obj_next h"
    by blast
  obtain new h' where n': "run_attach (ev_attach (eh_cb x)) (e, h1) = Inr (new @ e, h')" "map eh_cb new = rev (map snd (ev_attach (eh_cb x)))"
      "same_below (obj_next h1) {} h1 h'" "obj_next h1 \<le> obj_next h'" "ev_inv new h'" "\<forall>y \<in> set new. obj_next h1 \<le> eh_linker y"
    using run_attach_ok by blast
  have "same_below (obj_next h) {eh_linker x} h h'" "rc h' (eh_linker x) = count_after h x"
    using h1 n'(3) n(4) by (auto simp: same_below_def)
  then show ?thesis
    using h1 n' by (intro exI [of _ new] exI [of _ h']) (simp add: run_callback_def)
qed

definition attached :: "event \<Rightarrow> evcb list" where
  "attached xs = rev (concat (map (\<lambda>x. map snd (ev_attach (eh_cb x))) xs))"

definition visited :: "event \<Rightarrow> event \<Rightarrow> objheap \<Rightarrow> event \<Rightarrow> event \<Rightarrow> objheap \<Rightarrow> bool" where
  "visited bef rest h new e h' \<longleftrightarrow> e = new @ bef @ filter (held h) rest \<and> map eh_cb new = attached (filter (held h) rest) \<and>
     ev_inv e h' \<and> obj_next h \<le> obj_next h' \<and> (\<forall>x \<in> set rest. rc h' (eh_linker x) = count_after h x) \<and>
     same_below (obj_next h) (eh_linker ` set rest) h h'"

lemma Trigger_loop_ok:
  "ev_inv (bef @ rest) h \<Longrightarrow> \<forall>x \<in> set rest. own_drops x \<Longrightarrow>
    \<exists>new e h'. Trigger_loop bef rest h tr = Inr (e, h', tr @ map (\<lambda>x. ev_id (eh_cb x)) (filter (held h) rest)) \<and>
      visited bef rest h new e h'"
proof (induction rest arbitrary: bef h tr)
  case Nil
  then show ?case
    by (auto simp: visited_def attached_def same_below_def)
next
  case (Cons x rest)
  have inv: "ev_inv bef h" "ev_inv [x] h" "ev_inv rest h" "eh_linker x \<notin> eh_linker ` set rest"
      "eh_linker x \<notin> eh_linker ` set bef" "eh_linker ` set bef \<inter> eh_linker ` set rest = {}"
    using Cons.prems(1) by (auto simp: ev_inv_append ev_inv_def)
  have below: "\<forall>y \<in> set bef \<union> set rest. eh_linker y < obj_next h" and x_below: "eh_linker x < obj_next h"
    using inv(1-3) by (auto simp: ev_inv_def)
  have ne: "\<forall>y \<in> set bef \<union> set rest. eh_linker y \<noteq> eh_linker x"
    using inv(4,5) by (auto simp: image_iff)
  have all: "ev_inv (bef @ rest) h"
    using inv by (simp add: ev_inv_append)
  obtain n where n: "rc h (eh_linker x) = Some n"
    using inv(2) by (auto simp: ev_inv_def)
  have held: "held h x \<longleftrightarrow> n \<ge> 2"
    using n by (auto simp: held_def)
  have frame: "filter (held h1) rest = filter (held h) rest \<and> (\<forall>y \<in> set rest. count_after h1 y = count_after h y)"
    if "same_below (obj_next h) {eh_linker x} h h1" for h1
  proof -
    have "rc h1 (eh_linker y) = rc h (eh_linker y)" if "y \<in> set rest" for y
    proof -
      have "eh_linker y < obj_next h" and "eh_linker y \<noteq> eh_linker x"
        using that below inv(4) by (auto simp: image_iff)
      then show ?thesis
        using \<open>same_below (obj_next h) {eh_linker x} h h1\<close> by (simp add: same_below_def)
    qed
    then show ?thesis
      by (auto simp: held_def count_after_def cong: filter_cong)
  qed
  show ?case
  proof (cases "held h x")
    case False
    obtain h1 where h1: "Handler_delete x h = Inr h1" "rc h1 = (rc h)(eh_linker x := None)" "obj_next h1 = obj_next h"
      using Handler_delete_ok [OF inv(2) False] by blast
    have sb: "same_below (obj_next h) {eh_linker x} h h1"
      using h1(2) by (simp add: same_below_def)
    have "ev_inv (bef @ rest) h1"
    proof (rule ev_inv_frame [of _ h])
      show "\<forall>y \<in> set (bef @ rest). rc h1 (eh_linker y) = rc h (eh_linker y)"
        using ne unfolding h1(2) by simp
    qed (use all h1(3) in simp_all)
    then obtain new e h' where IH: "Trigger_loop bef rest h1 tr = Inr (e, h', tr @ map (\<lambda>x. ev_id (eh_cb x)) (filter (held h1) rest))"
        "visited bef rest h1 new e h'"
      using Cons.IH [of bef h1 tr] Cons.prems(2) by (meson list.set_intros(2))
    have "rc h' (eh_linker x) = rc h1 (eh_linker x)"
      using IH(2) inv(4) x_below h1(3) by (simp add: visited_def same_below_def)
    then have "visited bef (x # rest) h new e h'"
      using IH(2) frame [OF sb] False h1 by (auto simp: visited_def count_after_def same_below_def)
    moreover have "Trigger_loop bef (x # rest) h tr = Trigger_loop bef rest h1 tr"
      using False held n h1(1) by (simp add: Object_reference_count_def)
    ultimately show ?thesis
      using IH(1) frame [OF sb] False by auto
  next
    case True
    obtain new1 h1 where r: "run_callback (eh_cb x) (bef, h) = Inr (new1 @ bef, h1)" "map eh_cb new1 = rev (map snd (ev_attach (eh_cb x)))"
        "same_below (obj_next h) {eh_linker x} h h1" "rc h1 (eh_linker x) = count_after h x" "obj_next h \<le> obj_next h1"
        "ev_inv new1 h1" "\<forall>y \<in> set new1. obj_next h \<le> eh_linker y"
      using run_callback_ok [OF inv(2) True, of bef] Cons.prems(2) by auto
    have "ev_inv (bef @ rest) h1"
    proof (rule ev_inv_frame [of _ h])
      show "\<forall>y \<in> set (bef @ rest). rc h1 (eh_linker y) = rc h (eh_linker y)"
        using r(3) ne below by (simp add: same_below_def)
    qed (use all r(5) in simp_all)
    moreover have "ev_inv [x] h1"
      using r(4,5) inv(2) True n held by (auto simp: ev_inv_def count_after_def)
    moreover have disj: "eh_linker y \<noteq> eh_linker z" if "y \<in> set new1" "z \<in> set bef \<union> {x} \<union> set rest" for y z
    proof -
      have "obj_next h \<le> eh_linker y" "eh_linker z < obj_next h"
        using that r(7) below x_below by auto
      then show ?thesis by simp
    qed
    ultimately have "ev_inv (((new1 @ bef) @ [x]) @ rest) h1"
      using r(6) ne unfolding ev_inv_append by (auto simp: image_iff dest: disj [where z = x])
    then obtain new e h' where IH: "Trigger_loop ((new1 @ bef) @ [x]) rest h1 (tr @ [ev_id (eh_cb x)]) =
        Inr (e, h', (tr @ [ev_id (eh_cb x)]) @ map (\<lambda>x. ev_id (eh_cb x)) (filter (held h1) rest))"
        "visited ((new1 @ bef) @ [x]) rest h1 new e h'"
      using Cons.IH [of "(new1 @ bef) @ [x]" h1 "tr @ [ev_id (eh_cb x)]"] Cons.prems(2) by (meson list.set_intros(2))
    have x': "rc h' (eh_linker x) = rc h1 (eh_linker x)"
      using IH(2) inv(4) x_below r(5) by (simp add: visited_def same_below_def)
    have "visited bef (x # rest) h (new @ new1) e h'"
      using IH(2) frame [OF r(3)] True r(2-5) x' by (auto simp: visited_def attached_def same_below_def)
    moreover have "Trigger_loop bef (x # rest) h tr = Trigger_loop ((new1 @ bef) @ [x]) rest h1 (tr @ [ev_id (eh_cb x)])"
      using True held n r(1) by (simp add: Object_reference_count_def)
    ultimately show ?thesis
      using IH(1) frame [OF r(3)] True by auto
  qed
qed

section \<open>Properties\<close>

text \<open>
  C29. A trigger ends without touching a freed linker. It runs exactly the callbacks whose linker somebody
  besides the event holds, the last attached first; afterwards the event consists of the handlers attached
  meanwhile, which this trigger does not run, followed by those that were run, in their order; the linkers
  of the handlers it removed are freed, and a callback that gives up its own binding is removed only by the
  next trigger. Callbacks give up no linker but their own.
\<close>

theorem Event_Trigger_exact:
  assumes "ev_inv e h" and "\<forall>x \<in> set e. own_drops x"
  shows "\<exists>new h'. Event_Trigger (e, h) = Inr ((new @ filter (held h) e, h'), map (\<lambda>x. ev_id (eh_cb x)) (filter (held h) e)) \<and>
    map eh_cb new = attached (filter (held h) e) \<and> ev_inv (new @ filter (held h) e) h' \<and>
    (\<forall>x \<in> set e. rc h' (eh_linker x) = (if \<not> held h x then None
       else if ev_drops (eh_cb x) \<noteq> [] then map_option (\<lambda>n. n - 1) (rc h (eh_linker x)) else rc h (eh_linker x)))"
proof -
  obtain new f h' where "Trigger_loop [] e h [] = Inr (f, h', map (\<lambda>x. ev_id (eh_cb x)) (filter (held h) e))" "visited [] e h new f h'"
    using Trigger_loop_ok [of "[]" e h "[]"] assms by auto
  then show ?thesis
    by (auto simp: Event_Trigger_def visited_def count_after_def)
qed

definition event_example :: "event \<times> objheap" where
  "event_example = (let (l1, s1) = Event_Attach (EvCb 1 [] []) ([], objheap_empty); (l2, s2) = Event_Attach (EvCb 2 [] [(True, EvCb 3 [] [])]) s1
     in (fst s2, (snd s2)\<lparr>rc := (rc (snd s2))(l2 \<mapsto> 2)\<rparr>))"

theorem Event_Trigger_exact_witness:
  "\<exists>new h'. Event_Trigger event_example = Inr ((new @ filter (held (snd event_example)) (fst event_example), h'), [2])"
proof -
  have e: "event_example = ([\<lparr>eh_cb = EvCb 2 [] [(True, EvCb 3 [] [])], eh_linker = 1\<rparr>, \<lparr>eh_cb = EvCb 1 [] [], eh_linker = 0\<rparr>],
      \<lparr>rc = [0 \<mapsto> 1, 1 \<mapsto> 2], g_object_count = 2, obj_next = 2\<rparr>)"
    by (simp add: event_example_def Event_Attach_def Handler_new_def Object_new_def objheap_empty_def)
  have "ev_inv (fst event_example) (snd event_example)" "\<forall>x \<in> set (fst event_example). own_drops x"
    by (auto simp: e ev_inv_def own_drops_def)
  moreover have "filter (held (snd event_example)) (fst event_example) = [hd (fst event_example)]"
    by (auto simp: e held_def)
  ultimately show ?thesis
    using Event_Trigger_exact [of "fst event_example" "snd event_example"] by (auto simp: e)
qed

end
