(* ===== verification/Command.thy ===== *)
theory Command
  imports ObjectModel "HOL-Library.Sublist"
begin

text \<open>
  \<open>base/command\<close>: runners with command queues and the manager that executes them frame by frame. What a
  command does is data: whether its set-up succeeds, whether it stops itself when executed, and which
  commands it pushes to its own runner meanwhile. Queues are reference-counted by their runner and by the
  manager's list; the log records what happened to which queue. Theorem: in every reachable state no
  operation touches a freed queue, every pushed command is deleted exactly once and in order, and
  commands are executed at most once and in the order they were pushed.
\<close>

section \<open>Model\<close>

datatype cmdspec = CmdSpec (cs_id: nat) (cs_setup: bool) (cs_stops: bool) (cs_pushes: "cmdspec list")

record command =
  cm_spec :: cmdspec
  cm_executed :: bool
  cm_finish :: bool

datatype cevent = CPush nat | CSetup nat | CExecute nat | CCleanup nat | CDelete nat

record cqueue =
  cq_cmds :: "command list"
  cq_ref :: nat

record cworld =
  cw_queues :: "oid \<Rightarrow> cqueue option"
  cw_list :: "oid list"
  cw_next :: oid
  cw_log :: "(oid \<times> cevent) list"

abbreviation cm_id :: "command \<Rightarrow> nat" where
  "cm_id c \<equiv> cs_id (cm_spec c)"

definition clog :: "oid \<Rightarrow> cevent list \<Rightarrow> cworld \<Rightarrow> cworld" where
  "clog q es w = w\<lparr>cw_log := cw_log w @ map (\<lambda>e. (q, e)) es\<rparr>"

definition cw_set :: "oid \<Rightarrow> cqueue option \<Rightarrow> cworld \<Rightarrow> cworld" where
  "cw_set q v w = w\<lparr>cw_queues := (cw_queues w)(q := v)\<rparr>"

definition with_queue :: "oid \<Rightarrow> cworld \<Rightarrow> (cqueue \<Rightarrow> 'a result) \<Rightarrow> 'a result" where
  "with_queue q w f = (case cw_queues w q of None \<Rightarrow> Inl UseAfterFree | Some x \<Rightarrow> f x)"

definition Command_new :: "cmdspec \<Rightarrow> command" where
  "Command_new s = \<lparr>cm_spec = s, cm_executed = False, cm_finish = False\<rparr>"

definition Command_Stop :: "command \<Rightarrow> command" where
  "Command_Stop c = c\<lparr>cm_finish := True\<rparr>"

definition CommandQueue_destroy :: "oid \<Rightarrow> cqueue \<Rightarrow> cworld \<Rightarrow> cworld" where
  "CommandQueue_destroy q x w = cw_set q None (clog q (map (\<lambda>c. CDelete (cm_id c)) (cq_cmds x)) w)"

definition CommandQueue_Retain :: "oid \<Rightarrow> cworld \<Rightarrow> cworld result" where
  "CommandQueue_Retain q w = with_queue q w (\<lambda>x. Inr (cw_set q (Some (x\<lparr>cq_ref := cq_ref x + 1\<rparr>)) w))"

definition CommandQueue_Release :: "oid \<Rightarrow> cworld \<Rightarrow> cworld result" where
  "CommandQueue_Release q w = with_queue q w (\<lambda>x.
     if cq_ref x = 1 then Inr (CommandQueue_destroy q x w) else Inr (cw_set q (Some (x\<lparr>cq_ref := cq_ref x - 1\<rparr>)) w))"

definition CommandQueue_Push :: "oid \<Rightarrow> cmdspec \<Rightarrow> cworld \<Rightarrow> cworld result" where
  "CommandQueue_Push q s w = with_queue q w (\<lambda>x.
     Inr (cw_set q (Some (x\<lparr>cq_cmds := cq_cmds x @ [Command_new s]\<rparr>)) (clog q [CPush (cs_id s)] w)))"

definition RunnerMgr_Register :: "oid \<Rightarrow> cworld \<Rightarrow> cworld result" where
  "RunnerMgr_Register q w = (if q \<in> set (cw_list w) then Inr w
     else CommandQueue_Retain q (w\<lparr>cw_list := q # cw_list w\<rparr>))"

definition Runner_new :: "cworld \<Rightarrow> oid \<times> cworld" where
  "Runner_new w = (cw_next w, (cw_set (cw_next w) (Some \<lparr>cq_cmds = [], cq_ref = 1\<rparr>) w)\<lparr>cw_next := cw_next w + 1\<rparr>)"

definition Runner_delete :: "oid \<Rightarrow> cworld \<Rightarrow> cworld result" where
  "Runner_delete q w = CommandQueue_Release q w"

definition Runner_PushCommand :: "oid \<Rightarrow> cmdspec \<Rightarrow> cworld \<Rightarrow> cworld result" where
  "Runner_PushCommand q s w = bindE (CommandQueue_Push q s w) (RunnerMgr_Register q)"

fun push_all :: "oid \<Rightarrow> cmdspec list \<Rightarrow> cworld \<Rightarrow> cworld result" where
  "push_all q [] w = Inr w"
| "push_all q (s # ss) w = bindE (Runner_PushCommand q s w) (push_all q ss)"

text \<open>\<open>Execute\<close> marks the front command and runs \<open>OnCommandExecute\<close>.\<close>

definition Command_Execute :: "oid \<Rightarrow> cworld \<Rightarrow> cworld result" where
  "Command_Execute q w = with_queue q w (\<lambda>x. case cq_cmds x of [] \<Rightarrow> Inl NullDeref
     | frt # cs \<Rightarrow>
        let frt' = frt\<lparr>cm_executed := True, cm_finish := cm_finish frt \<or> cs_stops (cm_spec frt)\<rparr> in
        push_all q (cs_pushes (cm_spec frt))
          (cw_set q (Some (x\<lparr>cq_cmds := frt' # cs\<rparr>)) (clog q [CExecute (cm_id frt)] w)))"

definition pop_front :: "oid \<Rightarrow> cevent list \<Rightarrow> cworld \<Rightarrow> cworld result" where
  "pop_front q es w = with_queue q w (\<lambda>x. Inr (cw_set q (Some (x\<lparr>cq_cmds := tl (cq_cmds x)\<rparr>)) (clog q es w)))"

definition CommandQueue_TryExecute :: "oid \<Rightarrow> cworld \<Rightarrow> (bool \<times> cworld) result" where
  "CommandQueue_TryExecute q w = with_queue q w (\<lambda>x. case cq_cmds x of [] \<Rightarrow> Inr (True, w)
     | frt # cs \<Rightarrow>
        bindE (if \<not> cm_executed frt then
                 let w1 = clog q [CSetup (cm_id frt)] w in
                 if cs_setup (cm_spec frt) then bindE (Command_Execute q w1) (\<lambda>w2. Inr (True, w2))
                 else bindE (pop_front q [CDelete (cm_id frt)] w1) (\<lambda>w2. Inr (False, w2))
               else Inr (True, w)) (\<lambda>(is_frt, w2).
        with_queue q w2 (\<lambda>x2.
        bindE (if is_frt \<and> cm_finish (hd (cq_cmds x2)) then pop_front q [CCleanup (cm_id frt), CDelete (cm_id frt)] w2 else Inr w2) (\<lambda>w3.
        with_queue q w3 (\<lambda>x3. Inr (cq_cmds x3 = [], w3))))))"

text \<open>
  The loop of \<open>Update\<close>: \<open>rest\<close> are the entries of the list from \<open>q\<close> on. Queues registered meanwhile are pushed
  to the front of the list and not visited.
\<close>

fun RunnerMgr_loop :: "oid list \<Rightarrow> cworld \<Rightarrow> cworld result" where
  "RunnerMgr_loop [] w = Inr w"
| "RunnerMgr_loop (q # rest) w = with_queue q w (\<lambda>x.
     if cq_ref x = 2 then
       bindE (CommandQueue_TryExecute q w) (\<lambda>(fin, w').
         if fin then bindE (CommandQueue_Release q (w'\<lparr>cw_list := remove1 q (cw_list w')\<rparr>)) (RunnerMgr_loop rest)
         else RunnerMgr_loop rest w')
     else bindE (CommandQueue_Release q (w\<lparr>cw_list := remove1 q (cw_list w)\<rparr>)) (RunnerMgr_loop rest))"

definition RunnerMgr_Update :: "cworld \<Rightarrow> cworld result" where
  "RunnerMgr_Update w = RunnerMgr_loop (cw_list w) w"

fun RunnerMgr_destroy_loop :: "oid list \<Rightarrow> cworld \<Rightarrow> cworld result" where
  "RunnerMgr_destroy_loop [] w = Inr w"
| "RunnerMgr_destroy_loop (q # rest) w =
     bindE (CommandQueue_Release q (w\<lparr>cw_list := remove1 q (cw_list w)\<rparr>)) (RunnerMgr_destroy_loop rest)"

definition RunnerMgr_destroy :: "cworld \<Rightarrow> cworld result" where
  "RunnerMgr_destroy w = RunnerMgr_destroy_loop (cw_list w) w"

definition cworld_empty :: cworld where
  "cworld_empty = \<lparr>cw_queues = (\<lambda>_. None), cw_list = [], cw_next = 0, cw_log = []\<rparr>"

section \<open>What the log says of a queue\<close>

definition evs :: "oid \<Rightarrow> cworld \<Rightarrow> cevent list" where
  "evs q w = map snd (filter (\<lambda>e. fst e = q) (cw_log w))"

definition pushed :: "cevent list \<Rightarrow> nat list" where
  "pushed es = concat (map (\<lambda>e. case e of CPush i \<Rightarrow> [i] | _ \<Rightarrow> []) es)"

definition deleted :: "cevent list \<Rightarrow> nat list" where
  "deleted es = concat (map (\<lambda>e. case e of CDelete i \<Rightarrow> [i] | _ \<Rightarrow> []) es)"

definition execs :: "cevent list \<Rightarrow> nat list" where
  "execs es = concat (map (\<lambda>e. case e of CExecute i \<Rightarrow> [i] | _ \<Rightarrow> []) es)"

lemma log_simps [simp]:
  "pushed [] = []" "deleted [] = []" "execs [] = []"
  "pushed (e # es) = (case e of CPush i \<Rightarrow> [i] | _ \<Rightarrow> []) @ pushed es"
  "deleted (e # es) = (case e of CDelete i \<Rightarrow> [i] | _ \<Rightarrow> []) @ deleted es"
  "execs (e # es) = (case e of CExecute i \<Rightarrow> [i] | _ \<Rightarrow> []) @ execs es"
  "pushed (es @ fs) = pushed es @ pushed fs" "deleted (es @ fs) = deleted es @ deleted fs" "execs (es @ fs) = execs es @ execs fs"
  by (simp_all add: pushed_def deleted_def execs_def)

definition executing :: "command list \<Rightarrow> nat list" where
  "executing cs = (case cs of [] \<Rightarrow> [] | c # _ \<Rightarrow> if cm_executed c then [cm_id c] else [])"

text \<open>
  The commands pushed are those deleted followed by those still queued; the commands executed are, in the
  same order, some of those deleted and perhaps the front one; nothing behind the front is executed.
\<close>

definition cq_ok :: "cevent list \<Rightarrow> command list \<Rightarrow> bool" where
  "cq_ok es cs \<longleftrightarrow> pushed es = deleted es @ map cm_id cs \<and> subseq (execs es) (deleted es @ executing cs) \<and>
     (\<forall>c \<in> set (tl cs). \<not> cm_executed c)"

text \<open>\<open>R\<close> are the queues of the live runners.\<close>

definition q_ok :: "oid set \<Rightarrow> cworld \<Rightarrow> oid \<Rightarrow> bool" where
  "q_ok R w q \<longleftrightarrow> (case cw_queues w q of
      None \<Rightarrow> q \<notin> R \<and> q \<notin> set (cw_list w) \<and> cq_ok (evs q w) []
    | Some x \<Rightarrow> q < cw_next w \<and> (q \<in> R \<or> q \<in> set (cw_list w)) \<and>
        cq_ref x = (if q \<in> R then 1 else 0) + (if q \<in> set (cw_list w) then 1 else 0) \<and> cq_ok (evs q w) (cq_cmds x))"

definition cw_inv :: "oid set \<Rightarrow> cworld \<Rightarrow> bool" where
  "cw_inv R w \<longleftrightarrow> distinct (cw_list w) \<and> (\<forall>q. q_ok R w q) \<and> (\<forall>q \<ge> cw_next w. evs q w = [])"

section \<open>Lemmas\<close>

lemma cw_simps [simp]:
  "cw_queues (cw_set q v w) = (cw_queues w)(q := v)" "cw_queues (clog q es w) = cw_queues w"
  "cw_list (cw_set q v w) = cw_list w" "cw_list (clog q es w) = cw_list w"
  "cw_next (cw_set q v w) = cw_next w" "cw_next (clog q es w) = cw_next w"
  "clog q es (cw_set q' v w) = cw_set q' v (clog q es w)" "clog q es (clog q fs w) = clog q (fs @ es) w"
  "cw_set q v (cw_set q v' w) = cw_set q v w" "clog q [] w = w"
  "evs q (cw_set q' v w) = evs q w" "evs q (clog q' es w) = evs q w @ (if q = q' then es else [])"
  "evs q (w\<lparr>cw_list := ls\<rparr>) = evs q w" "evs q (w\<lparr>cw_next := n\<rparr>) = evs q w"
  by (simp_all add: cw_set_def clog_def evs_def o_def)

lemma with_queue_Some [simp]: "cw_queues w q = Some x \<Longrightarrow> with_queue q w f = f x"
  by (simp add: with_queue_def)

lemma with_queue_cong [fundef_cong]:
  "q = q' \<Longrightarrow> w = w' \<Longrightarrow> (\<And>x. cw_queues w' q' = Some x \<Longrightarrow> f x = g x) \<Longrightarrow> with_queue q w f = with_queue q' w' g"
  by (auto simp: with_queue_def split: option.splits)

text \<open>A change that concerns one queue only.\<close>

lemma cw_inv_change:
  assumes "cw_inv R w" and "\<And>p. p \<noteq> q \<Longrightarrow> cw_queues w' p = cw_queues w p \<and> evs p w' = evs p w \<and>
      (p \<in> set (cw_list w') \<longleftrightarrow> p \<in> set (cw_list w)) \<and> (p \<in> R' \<longleftrightarrow> p \<in> R)"
    and "cw_next w \<le> cw_next w'" and "distinct (cw_list w')" and "q_ok R' w' q" and "q < cw_next w'"
  shows "cw_inv R' w'"
proof -
  have "q_ok R' w' p" for p
  proof (cases "p = q")
    case False
    have "q_ok R w p" using assms(1) by (simp add: cw_inv_def)
    then show ?thesis
      using assms(2) [OF False] assms(3) by (auto simp: q_ok_def split: option.splits)
  qed (use assms(5) in simp)
  moreover have "evs p w' = []" if "cw_next w' \<le> p" for p
    using assms(1,2,3,6) that by (metis cw_inv_def leD le_trans)
  ultimately show ?thesis
    using assms(4) by (simp add: cw_inv_def)
qed

lemma push_all_ok:
  "q \<in> set (cw_list w) \<Longrightarrow> cw_queues w q = Some x \<Longrightarrow>
    push_all q ss w = Inr (cw_set q (Some (x\<lparr>cq_cmds := cq_cmds x @ map Command_new ss\<rparr>)) (clog q (map (\<lambda>s. CPush (cs_id s)) ss) w))"
proof (induction ss arbitrary: w x)
  case Nil
  then show ?case
    by (simp add: cw_set_def fun_upd_idem)
next
  case (Cons s ss)
  let ?x = "x\<lparr>cq_cmds := cq_cmds x @ [Command_new s]\<rparr>"
  have "Runner_PushCommand q s w = Inr (cw_set q (Some ?x) (clog q [CPush (cs_id s)] w))"
    using Cons.prems by (simp add: Runner_PushCommand_def CommandQueue_Push_def RunnerMgr_Register_def)
  then show ?case
    using Cons.prems Cons.IH [of "cw_set q (Some ?x) (clog q [CPush (cs_id s)] w)" ?x] by simp
qed

lemma pushed_pushes [simp]: "pushed (map (\<lambda>s. CPush (cs_id s)) ss) = map cs_id ss"
    "deleted (map (\<lambda>s. CPush (cs_id s)) ss) = []" "execs (map (\<lambda>s. CPush (cs_id s)) ss) = []"
  by (induction ss) auto

lemma cm_id_new [simp]: "cm_id (Command_new s) = cs_id s" "\<not> cm_executed (Command_new s)" "cm_spec (Command_new s) = s"
  by (simp_all add: Command_new_def)

lemma executing_Cons [simp]: "executing (c # cs) = (if cm_executed c then [cm_id c] else [])"
  by (simp add: executing_def)

lemma executing_Nil [simp]: "executing [] = []"
  by (simp add: executing_def)

lemma executing_fresh: "\<forall>c \<in> set cs. \<not> cm_executed c \<Longrightarrow> executing cs = []"
  by (cases cs) auto

lemma cq_ok_push: "cq_ok es cs \<Longrightarrow> cq_ok (es @ map (\<lambda>s. CPush (cs_id s)) ss) (cs @ map Command_new ss)"
proof (cases cs)
  case Nil
  assume "cq_ok es cs"
  moreover have "executing (map Command_new ss) = []"
    by (rule executing_fresh) auto
  moreover have "\<forall>c \<in> set (tl (map Command_new ss)). \<not> cm_executed c"
    by (cases ss) auto
  ultimately show ?thesis
    using Nil by (auto simp: cq_ok_def)
qed (auto simp: cq_ok_def)

lemma cq_ok_execute:
  "cq_ok es (c # cs) \<Longrightarrow> \<not> cm_executed c \<Longrightarrow> cm_spec c' = cm_spec c \<Longrightarrow> cm_executed c' \<Longrightarrow>
     cq_ok (es @ [CSetup i, CExecute (cm_id c)]) (c' # cs)"
  by (auto simp: cq_ok_def)

lemma cq_ok_pop:
  assumes "cq_ok es (c # cs)" and "pushed fs = []" and "execs fs = []" and "deleted fs = [cm_id c]"
  shows "cq_ok (es @ fs) cs"
proof -
  have fresh: "executing cs = []" and "\<forall>d \<in> set (tl cs). \<not> cm_executed d"
    using assms(1) by (auto simp: cq_ok_def executing_fresh dest: list.set_sel(2) [rotated]) (metis list.set_sel(2) tl_Nil)
  moreover have "subseq (execs es) (deleted es @ [cm_id c])"
    using assms(1) by (auto simp: cq_ok_def subseq_append' split: if_splits intro: subseq_order.trans)
  ultimately show ?thesis
    using assms by (auto simp: cq_ok_def)
qed


lemma Command_Execute_ok:
  assumes "q \<in> set (cw_list w)" and "cw_queues w q = Some x" and "cq_cmds x = frt # cs"
  shows "Command_Execute q w = Inr (cw_set q (Some (x\<lparr>cq_cmds :=
      frt\<lparr>cm_executed := True, cm_finish := cm_finish frt \<or> cs_stops (cm_spec frt)\<rparr> # cs @ map Command_new (cs_pushes (cm_spec frt))\<rparr>))
    (clog q (CExecute (cm_id frt) # map (\<lambda>s. CPush (cs_id s)) (cs_pushes (cm_spec frt))) w))"
  using assms push_all_ok [of q "cw_set q (Some (x\<lparr>cq_cmds := frt\<lparr>cm_executed := True,
      cm_finish := cm_finish frt \<or> cs_stops (cm_spec frt)\<rparr> # cs\<rparr>)) (clog q [CExecute (cm_id frt)] w)"]
  by (simp add: Command_Execute_def Let_def)

text \<open>One attempt on a registered queue changes only that queue, keeps its count, and keeps the order of its log.\<close>

definition tried :: "oid \<Rightarrow> cworld \<Rightarrow> cqueue \<Rightarrow> cworld \<Rightarrow> cqueue \<Rightarrow> bool" where
  "tried q w x w' x' \<longleftrightarrow> (\<exists>es. w' = cw_set q (Some x') (clog q es w) \<and> cq_ref x' = cq_ref x \<and> cq_ok (evs q w @ es) (cq_cmds x'))"

lemma finish_front:
  assumes "cw_queues w q = Some x" and "cq_cmds x = frt # cs" and "cq_ok (evs q w) (cq_cmds x)" and "cm_id frt = i"
  shows "\<exists>w' x'. bindE (if True \<and> cm_finish (hd (cq_cmds x)) then pop_front q [CCleanup i, CDelete i] w else Inr w)
      (\<lambda>w3. with_queue q w3 (\<lambda>x3. Inr (cq_cmds x3 = [], w3))) = Inr (cq_cmds x' = [], w') \<and> tried q w x w' x'"
proof (cases "cm_finish frt")
  case True
  let ?w = "cw_set q (Some (x\<lparr>cq_cmds := cs\<rparr>)) (clog q [CCleanup i, CDelete i] w)"
  have "cq_ok (evs q w @ [CCleanup i, CDelete i]) cs"
    using assms by (intro cq_ok_pop [of _ frt]) auto
  then have "tried q w x ?w (x\<lparr>cq_cmds := cs\<rparr>)"
    unfolding tried_def by (intro exI [of _ "[CCleanup i, CDelete i]"]) simp
  then show ?thesis
    using True assms by (intro exI [of _ ?w] exI [of _ "x\<lparr>cq_cmds := cs\<rparr>"]) (simp add: pop_front_def)
next
  case False
  have "tried q w x w x"
    unfolding tried_def using assms by (intro exI [of _ "[]"]) (simp add: cw_set_def fun_upd_idem)
  then show ?thesis
    using False assms by (intro exI [of _ w] exI [of _ x]) simp
qed

lemma tried_trans: "tried q w x w1 x1 \<Longrightarrow> tried q w1 x1 w2 x2 \<Longrightarrow> tried q w x w2 x2"
  unfolding tried_def by (elim exE conjE) (rule exI, simp)

lemma TryExecute_ok:
  assumes "q \<in> set (cw_list w)" and "cw_queues w q = Some x" and "cq_ok (evs q w) (cq_cmds x)"
  shows "\<exists>w' x'. CommandQueue_TryExecute q w = Inr (cq_cmds x' = [], w') \<and> tried q w x w' x'"
proof (cases "cq_cmds x")
  case Nil
  have "tried q w x w x"
    unfolding tried_def using assms by (intro exI [of _ "[]"]) (simp add: cw_set_def fun_upd_idem)
  then show ?thesis
    using assms Nil by (intro exI [of _ w] exI [of _ x]) (simp add: CommandQueue_TryExecute_def)
next
  case (Cons frt cs)
  let ?i = "cm_id frt"
  consider (go) "\<not> cm_executed frt" "cs_setup (cm_spec frt)" | (fail) "\<not> cm_executed frt" "\<not> cs_setup (cm_spec frt)"
    | (run) "cm_executed frt" by blast
  then show ?thesis
  proof cases
    case go
    let ?frt = "frt\<lparr>cm_executed := True, cm_finish := cm_finish frt \<or> cs_stops (cm_spec frt)\<rparr>"
    let ?new = "cs_pushes (cm_spec frt)"
    define x1 where "x1 = x\<lparr>cq_cmds := ?frt # cs @ map Command_new ?new\<rparr>"
    define es where "es = [CSetup ?i, CExecute ?i] @ map (\<lambda>s. CPush (cs_id s)) ?new"
    define w1 where "w1 = cw_set q (Some x1) (clog q es w)"
    have "cq_ok (evs q w @ [CSetup ?i, CExecute ?i]) (?frt # cs)"
      using assms(3) go Cons by (intro cq_ok_execute) auto
    then have ok: "cq_ok (evs q w @ es) (cq_cmds x1)"
      using cq_ok_push [of "evs q w @ [CSetup ?i, CExecute ?i]" "?frt # cs" ?new] by (simp add: x1_def es_def)
    then have t: "tried q w x w1 x1"
      unfolding tried_def w1_def by (intro exI [of _ es]) (simp add: x1_def)
    have x1: "cw_queues w1 q = Some x1" "cq_cmds x1 = ?frt # cs @ map Command_new ?new" "evs q w1 = evs q w @ es"
      by (simp_all add: w1_def x1_def)
    have ex: "Command_Execute q (clog q [CSetup ?i] w) = Inr w1"
      using Command_Execute_ok [of q "clog q [CSetup ?i] w" x frt cs] assms Cons by (simp add: w1_def x1_def es_def)
    obtain w' x' where f: "bindE (if True \<and> cm_finish (hd (cq_cmds x1)) then pop_front q [CCleanup ?i, CDelete ?i] w1 else Inr w1)
        (\<lambda>w3. with_queue q w3 (\<lambda>x3. Inr (cq_cmds x3 = [], w3))) = Inr (cq_cmds x' = [], w')" "tried q w1 x1 w' x'"
      using finish_front [OF x1(1,2), of ?i] ok x1(3) by auto
    have "CommandQueue_TryExecute q w = Inr (cq_cmds x' = [], w')"
      using go assms Cons f(1) ex x1(1) by (simp add: CommandQueue_TryExecute_def Let_def)
    then show ?thesis
      using tried_trans [OF t f(2)] by blast
  next
    case fail
    let ?es = "[CSetup ?i, CDelete ?i]"
    have "cq_ok (evs q w @ ?es) cs"
      using assms(3) Cons by (intro cq_ok_pop [of _ frt]) auto
    then have "tried q w x (cw_set q (Some (x\<lparr>cq_cmds := cs\<rparr>)) (clog q ?es w)) (x\<lparr>cq_cmds := cs\<rparr>)"
      unfolding tried_def by (intro exI [of _ ?es]) simp
    then show ?thesis
      using fail assms Cons by (intro exI [of _ "cw_set q (Some (x\<lparr>cq_cmds := cs\<rparr>)) (clog q ?es w)"] exI [of _ "x\<lparr>cq_cmds := cs\<rparr>"])
        (simp add: CommandQueue_TryExecute_def Let_def pop_front_def)
  next
    case run
    then show ?thesis
      using finish_front [OF assms(2) Cons assms(3) refl] assms Cons by (simp add: CommandQueue_TryExecute_def)
  qed
qed


section \<open>Preservation\<close>

lemma q_ok_live:
  "cw_inv R w \<Longrightarrow> q \<in> R \<or> q \<in> set (cw_list w) \<Longrightarrow>
    \<exists>x. cw_queues w q = Some x \<and> q < cw_next w \<and> cq_ok (evs q w) (cq_cmds x) \<and>
      cq_ref x = (if q \<in> R then 1 else 0) + (if q \<in> set (cw_list w) then 1 else 0)"
  by (auto simp: cw_inv_def q_ok_def split: option.splits dest!: spec [of _ q])

lemma Release_ok:
  assumes inv: "cw_inv R w" and x: "cw_queues w q = Some x" and "cq_ref x \<noteq> 0"
    and "cw_list w' = (if b then remove1 q (cw_list w) else cw_list w)" and "b \<Longrightarrow> q \<in> set (cw_list w)" and "\<not> b \<Longrightarrow> q \<in> R"
    and "cw_queues w' = cw_queues w" and "cw_next w' = cw_next w" and "\<And>p. evs p w' = evs p w"
  shows "\<exists>w2. CommandQueue_Release q w' = Inr w2 \<and> cw_inv (if b then R else R - {q}) w2 \<and> cw_list w2 = cw_list w'"
proof -
  have q: "q < cw_next w" "cq_ok (evs q w) (cq_cmds x)" "distinct (cw_list w)"
      "cq_ref x = (if q \<in> R then 1 else 0) + (if q \<in> set (cw_list w) then 1 else 0)"
    using inv x by (auto simp: cw_inv_def q_ok_def split: option.splits dest!: spec [of _ q])
  let ?R = "if b then R else R - {q}"
  have lst: "distinct (cw_list w')" "\<And>p. p \<noteq> q \<Longrightarrow> p \<in> set (cw_list w') \<longleftrightarrow> p \<in> set (cw_list w)" "b \<Longrightarrow> q \<notin> set (cw_list w')"
    using assms(4) q(3) by auto
  show ?thesis
  proof (cases "cq_ref x = 1")
    case True
    let ?w = "CommandQueue_destroy q x w'"
    have "q \<notin> ?R" "q \<notin> set (cw_list w')"
      using True q(3,4) assms(4-6) by (auto split: if_splits)
    moreover have "pushed (map (\<lambda>c. CDelete (cm_id c)) cs) = [] \<and> execs (map (\<lambda>c. CDelete (cm_id c)) cs) = [] \<and>
        deleted (map (\<lambda>c. CDelete (cm_id c)) cs) = map cm_id cs" for cs
      by (induction cs) auto
    then have "cq_ok (evs q w @ map (\<lambda>c. CDelete (cm_id c)) (cq_cmds x)) []"
      using q(2) by (auto simp: cq_ok_def executing_def split: list.splits if_splits intro: subseq_order.trans)
    ultimately have "cw_inv ?R ?w"
      using assms q lst by (intro cw_inv_change [OF inv, of q]) (auto simp: CommandQueue_destroy_def q_ok_def)
    then show ?thesis
      using True assms by (auto simp: CommandQueue_Release_def CommandQueue_destroy_def)
  next
    case False
    let ?w = "cw_set q (Some (x\<lparr>cq_ref := cq_ref x - 1\<rparr>)) w'"
    have two: "q \<in> R" "q \<in> set (cw_list w)" "cq_ref x = 2"
      using False q(4) assms(3) by (auto split: if_splits)
    then have "cw_inv ?R ?w"
      using assms q lst by (intro cw_inv_change [OF inv, of q]) (auto simp: q_ok_def)
    then show ?thesis
      using False assms by (auto simp: CommandQueue_Release_def)
  qed
qed

lemma tried_inv:
  assumes "cw_inv R w" and "q \<in> set (cw_list w)" and "cw_queues w q = Some x" and "tried q w x w' x'"
  shows "cw_inv R w' \<and> cw_list w' = cw_list w \<and> cw_queues w' q = Some x'"
proof -
  obtain es where es: "w' = cw_set q (Some x') (clog q es w)" "cq_ref x' = cq_ref x" "cq_ok (evs q w @ es) (cq_cmds x')"
    using assms(4) by (auto simp: tried_def)
  have q: "q < cw_next w" "cq_ref x = (if q \<in> R then 1 else 0) + (if q \<in> set (cw_list w) then 1 else 0)" "distinct (cw_list w)"
    using assms(1,3) by (auto simp: cw_inv_def q_ok_def split: option.splits dest!: spec [of _ q])
  then have "cw_inv R w'"
    using assms es by (intro cw_inv_change [OF assms(1), of q]) (auto simp: q_ok_def)
  then show ?thesis
    using es by simp
qed

lemma RunnerMgr_loop_ok:
  "cw_inv R w \<Longrightarrow> set rest \<subseteq> set (cw_list w) \<Longrightarrow> distinct rest \<Longrightarrow> \<exists>w'. RunnerMgr_loop rest w = Inr w' \<and> cw_inv R w'"
proof (induction rest arbitrary: w)
  case Nil
  then show ?case by simp
next
  case (Cons q rest)
  obtain x where x: "cw_queues w q = Some x" "cq_ok (evs q w) (cq_cmds x)" "cq_ref x \<noteq> 0"
    using q_ok_live [OF Cons.prems(1), of q] Cons.prems(2) by auto
  have erase: "\<exists>w2. bindE (CommandQueue_Release q (v\<lparr>cw_list := remove1 q (cw_list v)\<rparr>)) (RunnerMgr_loop rest) = Inr w2 \<and> cw_inv R w2"
    if v: "cw_inv R v" "cw_list v = cw_list w" "cw_queues v q = Some y" "cq_ref y \<noteq> 0" for v y
  proof -
    obtain w2 where "CommandQueue_Release q (v\<lparr>cw_list := remove1 q (cw_list v)\<rparr>) = Inr w2" "cw_inv R w2"
        "cw_list w2 = remove1 q (cw_list v)"
      using Release_ok [of R v q y "v\<lparr>cw_list := remove1 q (cw_list v)\<rparr>" True] v Cons.prems(2) by auto
    moreover have "set rest \<subseteq> set (remove1 q (cw_list v))"
      using Cons.prems v(1,2) by (auto simp: cw_inv_def)
    ultimately show ?thesis
      using Cons.IH [of w2] Cons.prems(3) by auto
  qed
  show ?case
  proof (cases "cq_ref x = 2")
    case True
    obtain w' x' where t: "CommandQueue_TryExecute q w = Inr (cq_cmds x' = [], w')" "tried q w x w' x'"
      using TryExecute_ok [OF _ x(1,2)] Cons.prems(2) by auto
    then have w': "cw_inv R w'" "cw_list w' = cw_list w" "cw_queues w' q = Some x'" "cq_ref x' = 2"
      using tried_inv [OF Cons.prems(1) _ x(1) t(2)] Cons.prems(2) True by (auto simp: tried_def)
    show ?thesis
    proof (cases "cq_cmds x' = []")
      case c: True
      then show ?thesis
        using True x(1) t(1) erase [OF w'(1-3)] w'(4) by simp
    next
      case c: False
      have "\<exists>w''. RunnerMgr_loop rest w' = Inr w'' \<and> cw_inv R w''"
        using Cons.IH [OF w'(1)] Cons.prems(2,3) w'(2) by auto
      then show ?thesis
        using True x(1) t(1) c by simp
    qed
  next
    case False
    then show ?thesis
      using x erase [OF Cons.prems(1) refl x(1,3)] by simp
  qed
qed


lemma RunnerMgr_destroy_loop_ok:
  "cw_inv R w \<Longrightarrow> set rest \<subseteq> set (cw_list w) \<Longrightarrow> distinct rest \<Longrightarrow> \<exists>w'. RunnerMgr_destroy_loop rest w = Inr w' \<and> cw_inv R w'"
proof (induction rest arbitrary: w)
  case (Cons q rest)
  obtain x where x: "cw_queues w q = Some x" "cq_ref x \<noteq> 0"
    using q_ok_live [OF Cons.prems(1), of q] Cons.prems(2) by auto
  obtain w2 where w2: "CommandQueue_Release q (w\<lparr>cw_list := remove1 q (cw_list w)\<rparr>) = Inr w2" "cw_inv R w2"
      "cw_list w2 = remove1 q (cw_list w)"
    using Release_ok [of R w q x "w\<lparr>cw_list := remove1 q (cw_list w)\<rparr>" True] x Cons.prems(1,2) by auto
  have "set rest \<subseteq> set (cw_list w2)"
    using Cons.prems w2(3) by (auto simp: cw_inv_def)
  then show ?case
    using Cons.IH [OF w2(2)] Cons.prems(3) w2(1) by auto
qed simp

lemma Runner_PushCommand_ok:
  assumes inv: "cw_inv R w" and "q \<in> R"
  shows "\<exists>w'. Runner_PushCommand q s w = Inr w' \<and> cw_inv R w'"
proof -
  obtain x where x: "cw_queues w q = Some x" "q < cw_next w" "cq_ok (evs q w) (cq_cmds x)"
      "cq_ref x = 1 + (if q \<in> set (cw_list w) then 1 else 0)"
    using q_ok_live [OF inv, of q] assms(2) by auto
  have ok: "cq_ok (evs q w @ [CPush (cs_id s)]) (cq_cmds x @ [Command_new s])"
    using cq_ok_push [OF x(3), of "[s]"] by simp
  have "distinct (cw_list w)" using inv by (simp add: cw_inv_def)
  show ?thesis
  proof (cases "q \<in> set (cw_list w)")
    case True
    let ?w = "cw_set q (Some (x\<lparr>cq_cmds := cq_cmds x @ [Command_new s]\<rparr>)) (clog q [CPush (cs_id s)] w)"
    have "cw_inv R ?w"
      using x ok True assms(2) \<open>distinct (cw_list w)\<close> by (intro cw_inv_change [OF inv, of q]) (auto simp: q_ok_def)
    then show ?thesis
      using True x by (simp add: Runner_PushCommand_def CommandQueue_Push_def RunnerMgr_Register_def)
  next
    case False
    let ?w = "cw_set q (Some (x\<lparr>cq_cmds := cq_cmds x @ [Command_new s], cq_ref := 2\<rparr>))
      ((clog q [CPush (cs_id s)] w)\<lparr>cw_list := q # cw_list w\<rparr>)"
    have "cw_inv R ?w"
      using x ok False assms(2) \<open>distinct (cw_list w)\<close> by (intro cw_inv_change [OF inv, of q]) (auto simp: q_ok_def)
    moreover have "Runner_PushCommand q s w = Inr ?w"
      using False x by (simp add: Runner_PushCommand_def CommandQueue_Push_def RunnerMgr_Register_def CommandQueue_Retain_def
          cw_set_def clog_def with_queue_def numeral_2_eq_2)
    ultimately show ?thesis by blast
  qed
qed

text \<open>\<open>Stop\<close> of the \<open>i\<close>-th queued command, called by whoever holds the command.\<close>

definition stop_at :: "oid \<Rightarrow> nat \<Rightarrow> cworld \<Rightarrow> cworld result" where
  "stop_at q i w = with_queue q w (\<lambda>x. if i < length (cq_cmds x)
     then Inr (cw_set q (Some (x\<lparr>cq_cmds := (cq_cmds x)[i := Command_Stop (cq_cmds x ! i)]\<rparr>)) w) else Inl UseAfterFree)"

lemma executing_stop: "i < length cs \<Longrightarrow> executing (cs[i := Command_Stop (cs ! i)]) = executing cs"
  by (cases cs) (auto simp: Command_Stop_def split: nat.splits)

lemma cq_ok_stop:
  assumes "cq_ok es cs" and "i < length cs"
  shows "cq_ok es (cs[i := Command_Stop (cs ! i)])"
proof -
  have "map cm_id (cs[i := Command_Stop (cs ! i)]) = map cm_id cs"
    using assms(2) by (simp add: map_update Command_Stop_def list_update_same_conv)
  moreover have "\<forall>c \<in> set (tl (cs[i := Command_Stop (cs ! i)])). \<not> cm_executed c"
  proof (cases cs)
    case (Cons c ds)
    show ?thesis
    proof (cases i)
      case (Suc j)
      have "\<not> cm_executed (Command_Stop (ds ! j))"
        using assms Cons Suc by (simp add: cq_ok_def Command_Stop_def)
      then show ?thesis
        using assms(1) Cons Suc set_update_subset_insert [of ds j "Command_Stop (ds ! j)"] by (auto simp: cq_ok_def)
    qed (use assms(1) Cons in \<open>simp add: cq_ok_def\<close>)
  qed simp
  ultimately show ?thesis
    using assms executing_stop [OF assms(2)] by (simp add: cq_ok_def)
qed

lemma stop_at_ok:
  assumes inv: "cw_inv R w" and "stop_at q i w = Inr w'"
  shows "cw_inv R w'"
proof -
  obtain x where x: "cw_queues w q = Some x"
    using assms(2) by (cases "cw_queues w q") (auto simp: stop_at_def with_queue_def)
  then have i: "i < length (cq_cmds x)" and w': "w' = cw_set q (Some (x\<lparr>cq_cmds := (cq_cmds x)[i := Command_Stop (cq_cmds x ! i)]\<rparr>)) w"
    using assms(2) by (auto simp: stop_at_def split: if_splits)
  have "q_ok R w q" and d: "distinct (cw_list w)"
    using inv by (auto simp: cw_inv_def)
  then have q: "q < cw_next w" "q_ok R w' q"
    using x i by (auto simp: q_ok_def w' cq_ok_stop)
  show ?thesis
    by (rule cw_inv_change [OF inv _ _ _ q(2)]) (use q d in \<open>simp_all add: w'\<close>)
qed

lemma Runner_new_ok:
  assumes "cw_inv R w"
  shows "cw_inv (insert (cw_next w) R) (snd (Runner_new w))"
proof -
  have "q_ok R w (cw_next w)" "evs (cw_next w) w = []"
    using assms by (auto simp: cw_inv_def)
  then have "cw_next w \<notin> set (cw_list w)"
    by (auto simp: q_ok_def split: option.splits)
  then show ?thesis
    using assms \<open>evs (cw_next w) w = []\<close>
    by (intro cw_inv_change [OF assms, of "cw_next w"]) (auto simp: Runner_new_def q_ok_def cq_ok_def cw_inv_def)
qed

lemma Runner_delete_ok:
  assumes "cw_inv R w" and "q \<in> R"
  shows "\<exists>w'. Runner_delete q w = Inr w' \<and> cw_inv (R - {q}) w'"
proof -
  obtain x where "cw_queues w q = Some x" "cq_ref x \<noteq> 0"
    using q_ok_live [OF assms(1), of q] assms(2) by auto
  then show ?thesis
    using Release_ok [of R w q x w False] assms by (auto simp: Runner_delete_def)
qed

section \<open>Reachable states and properties\<close>

inductive cmd_reachable :: "oid set \<Rightarrow> cworld \<Rightarrow> bool" where
  start: "cmd_reachable {} cworld_empty"
| new: "cmd_reachable R w \<Longrightarrow> Runner_new w = (q, w') \<Longrightarrow> cmd_reachable (insert q R) w'"
| push: "cmd_reachable R w \<Longrightarrow> q \<in> R \<Longrightarrow> Runner_PushCommand q s w = Inr w' \<Longrightarrow> cmd_reachable R w'"
| stop: "cmd_reachable R w \<Longrightarrow> stop_at q i w = Inr w' \<Longrightarrow> cmd_reachable R w'"
| delete: "cmd_reachable R w \<Longrightarrow> q \<in> R \<Longrightarrow> Runner_delete q w = Inr w' \<Longrightarrow> cmd_reachable (R - {q}) w'"
| update: "cmd_reachable R w \<Longrightarrow> RunnerMgr_Update w = Inr w' \<Longrightarrow> cmd_reachable R w'"

lemma RunnerMgr_Update_ok: "cw_inv R w \<Longrightarrow> \<exists>w'. RunnerMgr_Update w = Inr w' \<and> cw_inv R w'"
  unfolding RunnerMgr_Update_def by (rule RunnerMgr_loop_ok) (auto simp: cw_inv_def)

lemma reachable_cw_inv: "cmd_reachable R w \<Longrightarrow> cw_inv R w"
proof (induction rule: cmd_reachable.induct)
  case start
  show ?case by (simp add: cw_inv_def q_ok_def cworld_empty_def evs_def cq_ok_def)
next
  case (new R w q w')
  then show ?case
    using Runner_new_ok [of R w] by (simp add: Runner_new_def) (metis snd_conv)
next
  case (push R w q s w')
  then show ?case using Runner_PushCommand_ok [of R w q s] by auto
next
  case (stop R w q i w')
  then show ?case using stop_at_ok by blast
next
  case (delete R w q w')
  then show ?case using Runner_delete_ok [of R w q] by auto
next
  case (update R w w')
  then show ?case using RunnerMgr_Update_ok [of R w] by auto
qed

text \<open>
  C31. In every reachable state of the command runners every operation succeeds: updating, pushing to and
  deleting a live runner, and destroying the manager never touch a freed queue. For every queue, live or
  freed, the commands pushed are exactly those deleted followed by those still queued, in push order, so
  that each command is deleted exactly once; and the commands executed are a subsequence of the commands
  pushed, so that each is executed at most once and in push order.
\<close>

theorem Command_fifo:
  assumes "cmd_reachable R w"
  shows "(\<exists>w'. RunnerMgr_Update w = Inr w') \<and> (\<exists>w'. RunnerMgr_destroy w = Inr w') \<and>
    (\<forall>q \<in> R. (\<forall>s. \<exists>w'. Runner_PushCommand q s w = Inr w') \<and> (\<exists>w'. Runner_delete q w = Inr w')) \<and>
    (\<forall>q. pushed (evs q w) = deleted (evs q w) @ (case cw_queues w q of None \<Rightarrow> [] | Some x \<Rightarrow> map cm_id (cq_cmds x)) \<and>
       subseq (execs (evs q w)) (pushed (evs q w)))"
proof -
  have inv: "cw_inv R w"
    using reachable_cw_inv [OF assms] .
  have "subseq (execs es) (pushed es)" if "cq_ok es cs" for es cs
  proof -
    have "subseq (executing cs) (map cm_id cs)"
      by (cases cs) auto
    then have "subseq (deleted es @ executing cs) (pushed es)"
      using that by (auto simp: cq_ok_def list_emb_append_mono)
    then show ?thesis
      using that subseq_order.trans by (auto simp: cq_ok_def)
  qed
  then have "pushed (evs q w) = deleted (evs q w) @ (case cw_queues w q of None \<Rightarrow> [] | Some x \<Rightarrow> map cm_id (cq_cmds x)) \<and>
       subseq (execs (evs q w)) (pushed (evs q w))" for q
    using inv by (cases "cw_queues w q") (auto simp: cw_inv_def q_ok_def cq_ok_def dest!: spec [of _ q])
  moreover have "\<exists>w'. RunnerMgr_destroy w = Inr w'"
    using RunnerMgr_destroy_loop_ok [OF inv subset_refl] inv by (auto simp: RunnerMgr_destroy_def cw_inv_def)
  ultimately show ?thesis
    using RunnerMgr_Update_ok [OF inv] Runner_PushCommand_ok [OF inv] Runner_delete_ok [OF inv] by blast
qed

theorem Command_fifo_witness:
  "\<exists>w. Runner_PushCommand 0 (CmdSpec 7 True True []) (snd (Runner_new cworld_empty)) = Inr w \<and> pushed (evs 0 w) = [7] \<and>
     (\<exists>w'. RunnerMgr_Update w = Inr w')"
proof -
  have r: "cmd_reachable {0} (snd (Runner_new cworld_empty))"
    using cmd_reachable.new [OF cmd_reachable.start, of 0] by (simp add: Runner_new_def cworld_empty_def)
  then obtain w where w: "Runner_PushCommand 0 (CmdSpec 7 True True []) (snd (Runner_new cworld_empty)) = Inr w"
    using Command_fifo by blast
  have "pushed (evs 0 w) = [7]"
    using w by (auto simp: Runner_PushCommand_def CommandQueue_Push_def Runner_new_def RunnerMgr_Register_def CommandQueue_Retain_def
        cworld_empty_def with_queue_def evs_def clog_def cw_set_def)
  moreover have "cmd_reachable {0} w"
    using cmd_reachable.push [OF r _ w] by simp
  ultimately show ?thesis
    using Command_fifo [of "{0}" w] w by blast
qed

end
