(* ===== verification/ClusterConfig.thy ===== *)
theory ClusterConfig
  imports Strings
begin

text \<open>
  The configuration of the cluster, \<open>base/cluster/configure.h\<close> and \<open>configure.cpp\<close>, and the matching of
  process names of \<open>base/cluster/nodemonitor.h\<close>. The property trees that boost's \<open>read_xml\<close> builds are a
  datatype; the parser itself and boost's conversions of text to numbers are arguments. Theorems: which
  nodes a node links to, which names a matcher of the four documented styles accepts, and that a parsed
  configuration always allows the empty cookie.
\<close>

section \<open>Property trees\<close>

datatype ptree = PTree (pt_data: string) (pt_children: "(string \<times> ptree) list")

fun get_child :: "string list \<Rightarrow> ptree \<Rightarrow> ptree option" where
  "get_child [] t = Some t"
| "get_child (k # ks) t = (case map_of (pt_children t) k of None \<Rightarrow> None | Some c \<Rightarrow> get_child ks c)"

text \<open>A failing \<open>get_child\<close> or \<open>get_value\<close> throws; \<open>ParseXml\<close> catches every exception.\<close>

definition attr :: "string \<Rightarrow> ptree \<Rightarrow> string option" where
  "attr k t = map_option pt_data (get_child [''<xmlattr>'', k] t)"

section \<open>Configuration\<close>

datatype linktype = BY_NAME | BY_TYPE

record linkinfo =
  li_type :: linktype
  li_matcher :: string
  li_require :: bool

record nodeinfo =
  ni_id :: "8 word"
  ni_name :: string
  ni_type :: string
  ni_ip :: string
  ni_port :: int
  ni_links :: "linkinfo list"

definition NodeInfo_HasListener :: "nodeinfo \<Rightarrow> bool" where
  "NodeInfo_HasListener n \<longleftrightarrow> ni_ip n \<noteq> [] \<and> ni_port n \<noteq> -1"

record configure =
  cf_local :: "nodeinfo option"
  cf_cookies :: "string list"
  cf_nodes :: "nodeinfo list"

definition Configure_new :: configure where
  "Configure_new = \<lparr>cf_local = None, cf_cookies = [], cf_nodes = []\<rparr>"

fun cookie_loop :: "string \<Rightarrow> string list \<Rightarrow> bool" where
  "cookie_loop ck [] = False"
| "cookie_loop ck (c # cs) = (if ck = c then True else cookie_loop ck cs)"

definition IsCookieAllow :: "configure \<Rightarrow> string \<Rightarrow> bool" where
  "IsCookieAllow cf ck = cookie_loop ck (cf_cookies cf)"

fun find_node_loop :: "8 word \<Rightarrow> nodeinfo list \<Rightarrow> nodeinfo option" where
  "find_node_loop i [] = None"
| "find_node_loop i (n # ns) = (if ni_id n = i then Some n else find_node_loop i ns)"

definition FindNodeInfoByID :: "configure \<Rightarrow> 8 word \<Rightarrow> nodeinfo option" where
  "FindNodeInfoByID cf i = find_node_loop i (cf_nodes cf)"

text \<open>The inner loop of \<open>FetchLinkNodeList\<close>: the first link of the local node that fits, with its flag.\<close>

fun link_loop :: "nodeinfo \<Rightarrow> linkinfo list \<Rightarrow> bool option" where
  "link_loop n [] = None"
| "link_loop n (l # ls) = (case li_type l of
      BY_NAME \<Rightarrow> if ni_name n = li_matcher l then Some (li_require l) else link_loop n ls
    | BY_TYPE \<Rightarrow> if ni_type n = li_matcher l then Some (li_require l) else link_loop n ls)"

fun fetch_loop :: "nodeinfo \<Rightarrow> nodeinfo list \<Rightarrow> (nodeinfo \<times> bool) list \<Rightarrow> (nodeinfo \<times> bool) list" where
  "fetch_loop lc [] ls = ls"
| "fetch_loop lc (n # ns) ls = (if ni_name n = ni_name lc then fetch_loop lc ns ls
     else fetch_loop lc ns (case link_loop n (ni_links lc) of None \<Rightarrow> ls | Some r \<Rightarrow> ls @ [(n, r)]))"

definition FetchLinkNodeList :: "configure \<Rightarrow> (nodeinfo \<times> bool) list result" where
  "FetchLinkNodeList cf = (case cf_local cf of None \<Rightarrow> Inl NullDeref | Some lc \<Rightarrow> Inr (fetch_loop lc (cf_nodes cf) []))"

text \<open>boost's conversions of the text of a node.\<close>

record lexical =
  lx_u8 :: "string \<Rightarrow> 8 word option"
  lx_int :: "string \<Rightarrow> int option"
  lx_bool :: "string \<Rightarrow> bool option"

definition node_child :: "lexical \<Rightarrow> string \<times> ptree \<Rightarrow> nodeinfo \<Rightarrow> nodeinfo option" where
  "node_child lx c n =
     (if fst c = ''listener'' then
        Option.bind (attr ''ip'' (snd c)) (\<lambda>ip. Option.bind (attr ''port'' (snd c)) (\<lambda>p. Option.bind (lx_int lx p) (\<lambda>port.
          Some (n\<lparr>ni_ip := ip, ni_port := port\<rparr>))))
      else if fst c = ''link_by_name'' then
        Option.bind (attr ''required'' (snd c)) (\<lambda>v. Option.bind (lx_bool lx v) (\<lambda>r.
          Some (n\<lparr>ni_links := ni_links n @ [\<lparr>li_type = BY_NAME, li_matcher = pt_data (snd c), li_require = r\<rparr>]\<rparr>)))
      else if fst c = ''link_by_type'' then
        Option.bind (attr ''required'' (snd c)) (\<lambda>v. Option.bind (lx_bool lx v) (\<lambda>r.
          Some (n\<lparr>ni_links := ni_links n @ [\<lparr>li_type = BY_TYPE, li_matcher = pt_data (snd c), li_require = r\<rparr>]\<rparr>)))
      else Some n)"

fun node_children :: "lexical \<Rightarrow> (string \<times> ptree) list \<Rightarrow> nodeinfo \<Rightarrow> nodeinfo option" where
  "node_children lx [] n = Some n"
| "node_children lx (c # cs) n = Option.bind (node_child lx c n) (node_children lx cs)"

definition parse_node :: "lexical \<Rightarrow> ptree \<Rightarrow> nodeinfo option" where
  "parse_node lx t = Option.bind (attr ''id'' t) (\<lambda>v. Option.bind (lx_u8 lx v) (\<lambda>i. Option.bind (attr ''name'' t) (\<lambda>name.
     Option.bind (attr ''type'' t) (\<lambda>ty. node_children lx (pt_children t)
       \<lparr>ni_id = i, ni_name = name, ni_type = ty, ni_ip = [], ni_port = -1, ni_links = []\<rparr>))))"

text \<open>Whether all nodes were read, and the nodes read so far.\<close>

fun parse_nodes :: "lexical \<Rightarrow> (string \<times> ptree) list \<Rightarrow> nodeinfo list \<Rightarrow> bool \<times> nodeinfo list" where
  "parse_nodes lx [] ns = (True, ns)"
| "parse_nodes lx (c # cs) ns = (if fst c \<noteq> ''node'' then parse_nodes lx cs ns
     else case parse_node lx (snd c) of None \<Rightarrow> (False, ns) | Some n \<Rightarrow> parse_nodes lx cs (ns @ [n]))"

fun find_name :: "string \<Rightarrow> nodeinfo list \<Rightarrow> nodeinfo option" where
  "find_name nm [] = None"
| "find_name nm (n # ns) = (if ni_name n = nm then Some n else find_name nm ns)"

text \<open>
  The result and the configuration afterwards; the arguments are the two documents, \<open>None\<close> when
  \<open>read_xml\<close> throws. What was stored before an exception stays stored.
\<close>

definition ParseXml :: "lexical \<Rightarrow> ptree option \<Rightarrow> ptree option \<Rightarrow> configure \<Rightarrow> bool \<times> configure" where
  "ParseXml lx cluster_conf node_conf cf =
     (case Option.bind cluster_conf (get_child [''framework'', ''cluster'']) of None \<Rightarrow> (False, cf)
      | Some cl \<Rightarrow>
        let (ok, ns) = parse_nodes lx (pt_children cl) (cf_nodes cf); cf1 = cf\<lparr>cf_nodes := ns\<rparr> in
         if \<not> ok then (False, cf1) else
         (case Option.bind node_conf (get_child [''framework'', ''cluster'', ''localnode'']) of None \<Rightarrow> (False, cf1)
          | Some ln \<Rightarrow>
           (case attr ''name'' ln of None \<Rightarrow> (False, cf1)
            | Some nm \<Rightarrow>
               let cf2 = cf1\<lparr>cf_cookies := cf_cookies cf1 @ map (\<lambda>c. pt_data (snd c)) (pt_children ln),
                     cf_local := (case find_name nm ns of None \<Rightarrow> cf_local cf1 | Some n \<Rightarrow> Some n)\<rparr>
               in (cf_local cf2 \<noteq> None, cf2))))"

section \<open>Process names\<close>

text \<open>The loop over the matcher and the name; \<open>None\<close> when it returns false.\<close>

function (sequential) match_loop :: "string \<Rightarrow> string \<Rightarrow> nat \<Rightarrow> nat \<Rightarrow> bool \<Rightarrow> (nat \<times> nat) option" where
  "match_loop matcher name m p star =
     (if m < length matcher \<and> p < length name then
        (if star then
           (if name ! p = CHR ''@'' then match_loop matcher name m p False
            else match_loop matcher name m (p + 1) star)
         else if matcher ! m = CHR ''*'' then match_loop matcher name (m + 1) p True
         else if matcher ! m = name ! p then match_loop matcher name (m + 1) (p + 1) star
         else None)
      else Some (m, p))"
  by pat_completeness auto
termination
  by (relation "measure (\<lambda>(matcher, name, m, p, star). 2 * (length matcher - m) + 2 * (length name - p) + (if star then 1 else 0))") auto

declare match_loop.simps [simp del]

definition is_process_name_match :: "string \<Rightarrow> string \<Rightarrow> bool result" where
  "is_process_name_match matcher name =
     (case match_loop matcher name 0 0 False of None \<Rightarrow> Inr False
      | Some (m, p) \<Rightarrow>
         if m < length matcher then
           (let rest = length matcher - m in
            if rest = 2 then (if matcher ! m = CHR ''@'' \<and> matcher ! (m + 1) = CHR ''*'' then Inr True else Inr False) else Inr False)
         else if p < length name then
           (if matcher = [] then Inl OutOfRange else Inr (matcher ! (length matcher - 1) = CHR ''*''))
         else Inr True)"

section \<open>Lemmas on the configuration\<close>

lemma cookie_loop_iff: "cookie_loop ck cs \<longleftrightarrow> ck \<in> set cs"
  by (induction cs) auto

lemma find_name_Some: "find_name nm ns = Some n \<Longrightarrow> n \<in> set ns \<and> ni_name n = nm"
  by (induction ns) (auto split: if_splits)

definition link_fits :: "nodeinfo \<Rightarrow> linkinfo \<Rightarrow> bool" where
  "link_fits n l \<longleftrightarrow> (case li_type l of BY_NAME \<Rightarrow> ni_name n | BY_TYPE \<Rightarrow> ni_type n) = li_matcher l"

lemma link_loop_find: "link_loop n ls = map_option li_require (List.find (link_fits n) ls)"
  by (induction ls) (auto simp: link_fits_def split: linktype.splits)

lemma fetch_loop_filter:
  "fetch_loop lc ns ls = ls @ concat (map (\<lambda>n. case List.find (link_fits n) (ni_links lc) of None \<Rightarrow> [] | Some l \<Rightarrow> [(n, li_require l)])
     (filter (\<lambda>n. ni_name n \<noteq> ni_name lc) ns))"
  by (induction ns arbitrary: ls) (auto simp: link_loop_find split: option.splits)

lemma attr_child: "attr k t = Some v \<Longrightarrow> \<exists>a. map_of (pt_children t) ''<xmlattr>'' = Some a"
  by (auto simp: attr_def split: option.splits)

section \<open>Lemmas on matching\<close>

lemma match_end: "\<not> (m < length M \<and> p < length N) \<Longrightarrow> match_loop M N m p star = Some (m, p)"
  by (subst match_loop.simps) auto

lemma match_star:
  "m < length M \<Longrightarrow> p < length N \<Longrightarrow> M ! m = CHR ''*'' \<Longrightarrow> match_loop M N m p False = match_loop M N (m + 1) p True"
  by (subst match_loop.simps) simp

text \<open>A literal segment of the matcher.\<close>

lemma match_literal:
  assumes "M = A @ s @ B" and "N = C @ t" and "CHR ''*'' \<notin> set s"
  shows "match_loop M N (length A) (length C) False =
    (if length s \<le> length t then
       (if take (length s) t = s then match_loop M N (length A + length s) (length C + length s) False else None)
     else if t = take (length t) s then Some (length A + length t, length C + length t) else None)"
  using assms
proof (induction s arbitrary: A C t)
  case Nil
  then show ?case by simp
next
  case (Cons c s)
  show ?case
  proof (cases t)
    case Nil
    then show ?thesis
      using Cons.prems by (simp add: match_end)
  next
    case (Cons d u)
    note t = this
    have step: "match_loop M N (length A) (length C) False =
        (if c = d then match_loop M N (length (A @ [c])) (length (C @ [d])) False else None)"
      using Cons.prems t by (subst match_loop.simps) auto
    have "match_loop M N (length (A @ [c])) (length (C @ [d])) False =
      (if length s \<le> length u then
         (if take (length s) u = s then match_loop M N (length (A @ [c]) + length s) (length (C @ [d]) + length s) False else None)
       else if u = take (length u) s then Some (length (A @ [c]) + length u, length (C @ [d]) + length u) else None)"
      using Cons.prems t by (intro Cons.IH) auto
    then show ?thesis
      using step t by auto
  qed
qed

text \<open>A star: the name is skipped up to the next at sign.\<close>

lemma match_skip:
  assumes "m < length M" and "N = C @ t"
  shows "match_loop M N m (length C) True =
    (if CHR ''@'' \<in> set t then match_loop M N m (length C + length (takeWhile (\<lambda>c. c \<noteq> CHR ''@'') t)) False
     else Some (m, length N))"
  using assms(2)
proof (induction t arbitrary: C)
  case Nil
  then show ?case by (simp add: match_end)
next
  case (Cons d u)
  show ?case
  proof (cases "d = CHR ''@''")
    case True
    then show ?thesis
      using Cons.prems assms(1) by (subst match_loop.simps) simp
  next
    case False
    have "match_loop M N m (length C) True = match_loop M N m (length (C @ [d])) True"
      using Cons.prems assms(1) False by (subst match_loop.simps) simp
    then show ?thesis
      using Cons.IH [of "C @ [d]"] Cons.prems False by simp
  qed
qed


text \<open>The value that belongs to a result of the loop.\<close>

lemma match_None: "match_loop M N 0 0 False = None \<Longrightarrow> is_process_name_match M N = Inr False"
  by (simp add: is_process_name_match_def)

lemma match_all:
  "match_loop M N 0 0 False = Some (length M, p) \<Longrightarrow> M \<noteq> [] \<Longrightarrow> is_process_name_match M N = Inr (p < length N \<longrightarrow> last M = CHR ''*'')"
  by (simp add: is_process_name_match_def last_conv_nth)

lemma match_rest:
  assumes "match_loop M N 0 0 False = Some (m, p)" and "m < length M"
  shows "is_process_name_match M N = Inr (drop m M = ''@*'')"
proof (cases "length M - m = 2")
  case True
  then have "drop m M = [M ! m, M ! (m + 1)]"
    using assms(2) by (auto simp: list_eq_iff_nth_eq less_Suc_eq numeral_2_eq_2)
  then show ?thesis
    using assms True by (simp add: is_process_name_match_def)
next
  case False
  then have "drop m M \<noteq> ''@*''"
    by (metis length_drop length_Cons list.size(3) numeral_2_eq_2)
  then show ?thesis
    using assms False by (simp add: is_process_name_match_def)
qed

lemma prefix_cases:
  "(length s < length t \<and> take (length s) t = s) \<or> t = s \<or> (length t < length s \<and> t = take (length t) s) \<or>
   (if length s \<le> length t then take (length s) t \<noteq> s else t \<noteq> take (length t) s)"
  by (metis order_le_imp_less_or_eq order_refl take_all linorder_not_le)

lemma match_plain:
  assumes "CHR ''*'' \<notin> set base" and "base \<noteq> []"
  shows "is_process_name_match base name = Inr (name = base)"
proof -
  note lit = match_literal [of base "[]" base "[]" name "[]" name, simplified, OF assms(1)]
  have star: "last base \<noteq> CHR ''*''"
    using assms last_in_set by metis
  from prefix_cases [of base name] show ?thesis
  proof (elim disjE)
    assume "length base < length name \<and> take (length base) name = base"
    moreover from this have "match_loop base name 0 0 False = Some (length base, length base)"
      using lit by (simp add: match_end)
    ultimately show ?thesis
      using match_all [of base name] star assms(2) by auto
  next
    assume "name = base"
    moreover from this have "match_loop base name 0 0 False = Some (length base, length base)"
      using lit by (simp add: match_end)
    ultimately show ?thesis
      using match_all [of base name] assms(2) by simp
  next
    assume *: "length name < length base \<and> name = take (length name) base"
    then have "match_loop base name 0 0 False = Some (length name, length name)"
      using lit by simp
    moreover have "drop (length name) base \<noteq> ''@*''"
      using assms(1) by (metis in_set_dropD list.set_intros(1) list.set_intros(2))
    ultimately show ?thesis
      using match_rest [of base name] * by auto
  next
    assume "if length base \<le> length name then take (length base) name \<noteq> base else name \<noteq> take (length name) base"
    moreover from this have "match_loop base name 0 0 False = None"
      using lit by (simp split: if_splits)
    ultimately show ?thesis
      using match_None [of base name] by auto
  qed
qed

lemma match_any_node:
  assumes "CHR ''*'' \<notin> set base"
  shows "is_process_name_match (base @ ''@*'') name =
    Inr (name = base \<or> (length base + 1 < length name \<and> take (length base + 1) name = base @ ''@''))"
proof -
  define s where "s = base @ ''@''"
  define M where "M = base @ ''@*''"
  have M: "M = s @ ''*''" "M \<noteq> []" "last M = CHR ''*''" and ls: "length s = length base + 1"
    by (simp_all add: M_def s_def)
  have lit: "match_loop M name 0 0 False = (if length s \<le> length name then
       (if take (length s) name = s then match_loop M name (length s) (length s) False else None)
     else if name = take (length name) s then Some (length name, length name) else None)"
    using match_literal [of M "[]" s "''*''" name "[]" name] assms(1) by (simp add: M(1) s_def)
  have "is_process_name_match M name = Inr (name = base \<or> (length s < length name \<and> take (length s) name = s))"
    using prefix_cases [of s name]
  proof (elim disjE)
    assume *: "length s < length name \<and> take (length s) name = s"
    then have "match_loop M name 0 0 False = match_loop M name (length s) (length s) False"
      using lit by simp
    also have "\<dots> = Some (length M, length s)"
      using * by (simp add: M(1) match_star match_end)
    finally show ?thesis
      using match_all [of M name] * M by simp
  next
    assume *: "name = s"
    then have "match_loop M name 0 0 False = Some (length s, length s)"
      using lit by (simp add: match_end)
    then show ?thesis
      using match_rest [of M name] * M(1) by (simp add: s_def)
  next
    assume *: "length name < length s \<and> name = take (length name) s"
    then have "match_loop M name 0 0 False = Some (length name, length name)"
      using lit by simp
    moreover have "length name < length M"
      using * M(1) by simp
    moreover have "drop (length name) M = ''@*'' \<longleftrightarrow> name = base"
    proof
      assume "drop (length name) M = ''@*''"
      then have "length M - length name = 2"
        by (metis length_drop length_Cons list.size(3) numeral_2_eq_2)
      then have "length name = length base"
        using * ls M(1) by simp
      then show "name = base"
        using * by (simp add: s_def)
    qed (simp add: M_def)
    ultimately show ?thesis
      using match_rest [of M name] * by auto
  next
    assume "if length s \<le> length name then take (length s) name \<noteq> s else name \<noteq> take (length name) s"
    moreover from this have "match_loop M name 0 0 False = None"
      using lit by (simp split: if_splits)
    ultimately show ?thesis
      using match_None [of M name] by (auto simp: s_def split: if_splits)
  qed
  then show ?thesis
    unfolding ls by (simp only: M_def s_def)
qed

text \<open>The part of a matcher behind its star.\<close>

lemma match_behind_star:
  assumes "CHR ''*'' \<notin> set node" and M: "M = A @ ''@'' @ node" and N: "N = C @ u" and loop: "match_loop M N 0 0 False = match_loop M N (length A) (length C) False"
  shows "is_process_name_match M N = Inr (u = ''@'' @ node)"
proof -
  define s where "s = ''@'' @ node"
  have lit: "match_loop M N 0 0 False = (if length s \<le> length u then
       (if take (length s) u = s then match_loop M N (length A + length s) (length C + length s) False else None)
     else if u = take (length u) s then Some (length A + length u, length C + length u) else None)"
    using match_literal [of M A s "[]" N C u] M N assms(1) loop by (simp add: s_def)
  have ls: "length M = length A + length s" "M \<noteq> []"
    by (simp_all add: M s_def)
  have "CHR ''*'' \<notin> set s" "s \<noteq> []"
    using assms(1) by (simp_all add: s_def)
  then have "last s \<noteq> CHR ''*''"
    using last_in_set by metis
  then have ls3: "last M \<noteq> CHR ''*''"
    using \<open>s \<noteq> []\<close> by (simp add: M s_def)
  have "is_process_name_match M N = Inr (u = s)"
    using prefix_cases [of s u]
  proof (elim disjE)
    assume *: "length s < length u \<and> take (length s) u = s"
    then have "match_loop M N 0 0 False = Some (length M, length C + length s)"
      using lit ls(1) by (simp add: match_end)
    then show ?thesis
      using match_all [of M N] * ls ls3 N by auto
  next
    assume *: "u = s"
    then have "match_loop M N 0 0 False = Some (length M, length C + length s)"
      using lit ls(1) by (simp add: match_end)
    then show ?thesis
      using match_all [of M N] * ls N by simp
  next
    assume *: "length u < length s \<and> u = take (length u) s"
    then have "match_loop M N 0 0 False = Some (length A + length u, length C + length u)"
      using lit by simp
    moreover have "drop (length A + length u) M \<noteq> ''@*''"
    proof -
      have "drop (length A + length u) M = drop (length u) s"
        by (simp add: M s_def)
      moreover have "CHR ''*'' \<notin> set s"
        using assms(1) by (simp add: s_def)
      ultimately show ?thesis
        by (metis in_set_dropD list.set_intros(1) list.set_intros(2))
    qed
    ultimately show ?thesis
      using match_rest [of M N] * ls(1) by auto
  next
    assume "if length s \<le> length u then take (length s) u \<noteq> s else u \<noteq> take (length u) s"
    moreover from this have "match_loop M N 0 0 False = None"
      using lit by (simp split: if_splits)
    ultimately show ?thesis
      using match_None [of M N] by auto
  qed
  then show ?thesis
    by (simp only: s_def)
qed

lemma at_split:
  "(\<exists>mid. CHR ''@'' \<notin> set mid \<and> t = mid @ ''@'' @ node) \<longleftrightarrow>
     CHR ''@'' \<in> set t \<and> dropWhile (\<lambda>c. c \<noteq> CHR ''@'') t = ''@'' @ node"
proof
  assume "\<exists>mid. CHR ''@'' \<notin> set mid \<and> t = mid @ ''@'' @ node"
  then obtain mid where "CHR ''@'' \<notin> set mid" "t = mid @ CHR ''@'' # node"
    by auto
  moreover from this have "\<forall>c \<in> set mid. c \<noteq> CHR ''@''"
    by metis
  then have "dropWhile (\<lambda>c. c \<noteq> CHR ''@'') mid = []"
    by (simp only: dropWhile_eq_Nil_conv)
  ultimately show "CHR ''@'' \<in> set t \<and> dropWhile (\<lambda>c. c \<noteq> CHR ''@'') t = ''@'' @ node"
    by (simp add: dropWhile_append3)
next
  assume "CHR ''@'' \<in> set t \<and> dropWhile (\<lambda>c. c \<noteq> CHR ''@'') t = ''@'' @ node"
  then have "t = takeWhile (\<lambda>c. c \<noteq> CHR ''@'') t @ ''@'' @ node"
    using takeWhile_dropWhile_id [of "\<lambda>c. c \<noteq> CHR ''@''" t] by simp
  moreover have "CHR ''@'' \<notin> set (takeWhile (\<lambda>c. c \<noteq> CHR ''@'') t)"
    using set_takeWhileD [of "CHR ''@''" "\<lambda>c. c \<noteq> CHR ''@''" t] by blast
  ultimately show "\<exists>mid. CHR ''@'' \<notin> set mid \<and> t = mid @ ''@'' @ node"
    by blast
qed

lemma match_on_node:
  assumes "CHR ''*'' \<notin> set base" and "CHR ''*'' \<notin> set node"
  shows "is_process_name_match (base @ ''*@'' @ node) name = Inr (\<exists>mid. CHR ''@'' \<notin> set mid \<and> name = base @ mid @ ''@'' @ node)"
proof -
  define M where "M = base @ ''*@'' @ node"
  define A where "A = base @ ''*''"
  have M: "M = A @ ''@'' @ node" "length A = length base + 1" "M ! length base = CHR ''*''" "length base < length M"
    by (simp_all add: M_def A_def nth_append)
  have lit: "match_loop M name 0 0 False = (if length base \<le> length name then
       (if take (length base) name = base then match_loop M name (length base) (length base) False else None)
     else if name = take (length name) base then Some (length name, length name) else None)"
    using match_literal [of M "[]" base "''*@'' @ node" name "[]" name] assms(1) by (simp add: M_def)
  have long: "drop k M \<noteq> ''@*''" if "k \<le> length base" for k
  proof (cases "k = length base")
    case False
    then have "length (drop k M) > 2"
      using that by (simp add: M_def)
    then show ?thesis
      by (metis length_Cons list.size(3) numeral_2_eq_2 less_irrefl)
  qed (simp add: M_def)
  have "is_process_name_match M name = Inr (\<exists>mid. CHR ''@'' \<notin> set mid \<and> name = base @ mid @ ''@'' @ node)"
    using prefix_cases [of base name]
  proof (elim disjE)
    assume *: "length base < length name \<and> take (length base) name = base"
    define t where "t = drop (length base) name"
    have name: "name = base @ t"
      using * append_take_drop_id [of "length base" name] unfolding t_def by simp
    have "match_loop M name 0 0 False = match_loop M name (length A) (length base) True"
      using lit * M by (simp add: match_star)
    also have "\<dots> = (if CHR ''@'' \<in> set t then match_loop M name (length A) (length base + length (takeWhile (\<lambda>c. c \<noteq> CHR ''@'') t)) False
        else Some (length A, length name))"
      using name M(1) by (intro match_skip) auto
    finally have skip: "match_loop M name 0 0 False = (if CHR ''@'' \<in> set t
        then match_loop M name (length A) (length (base @ takeWhile (\<lambda>c. c \<noteq> CHR ''@'') t)) False else Some (length A, length name))"
      by simp
    have ex: "(\<exists>mid. CHR ''@'' \<notin> set mid \<and> name = base @ mid @ ''@'' @ node) \<longleftrightarrow>
        CHR ''@'' \<in> set t \<and> dropWhile (\<lambda>c. c \<noteq> CHR ''@'') t = ''@'' @ node"
      unfolding at_split [symmetric] by (simp add: name)
    show ?thesis
    proof (cases "CHR ''@'' \<in> set t")
      case True
      have "name = (base @ takeWhile (\<lambda>c. c \<noteq> CHR ''@'') t) @ dropWhile (\<lambda>c. c \<noteq> CHR ''@'') t"
        using name by simp
      then have "is_process_name_match M name = Inr (dropWhile (\<lambda>c. c \<noteq> CHR ''@'') t = ''@'' @ node)"
        by (rule match_behind_star [OF assms(2) M(1)]) (use skip True in simp)
      then show ?thesis
        by (simp only: ex True simp_thms)
    next
      case False
      have "drop (length A) M \<noteq> ''@*''"
        using assms(2) by (auto simp: M(1))
      then show ?thesis
        using match_rest [of M name "length A" "length name"] skip False M(1) unfolding ex by simp
    qed
  next
    assume *: "name = base"
    then have "match_loop M name 0 0 False = Some (length base, length base)"
      using lit by (simp add: match_end)
    then show ?thesis
      using match_rest [of M name] M(4) long * by simp
  next
    assume *: "length name < length base \<and> name = take (length name) base"
    then have "match_loop M name 0 0 False = Some (length name, length name)"
      using lit by simp
    moreover have "name \<noteq> base @ v" for v
      using * by auto
    ultimately show ?thesis
      using match_rest [of M name] M(4) long [of "length name"] * by simp
  next
    assume *: "if length base \<le> length name then take (length base) name \<noteq> base else name \<noteq> take (length name) base"
    then have "match_loop M name 0 0 False = None"
      using lit by (simp split: if_splits)
    moreover have "name \<noteq> base @ v" for v
      using * by auto
    ultimately show ?thesis
      using match_None [of M name] by simp
  qed
  then show ?thesis
    by (simp only: M_def)
qed

section \<open>Properties\<close>

text \<open>
  \<open>FetchLinkNodeList\<close> returns, in the order of the configuration, exactly the nodes with another name
  than the local one that some link of the local node fits by name or by type, each once, and with the
  flag of the first link that fits.
\<close>

lemma FetchLinkNodeList_exact:
  assumes "cf_local cf = Some lc"
  shows "FetchLinkNodeList cf = Inr (map (\<lambda>n. (n, li_require (the (List.find (link_fits n) (ni_links lc)))))
    (filter (\<lambda>n. ni_name n \<noteq> ni_name lc \<and> (\<exists>l \<in> set (ni_links lc). link_fits n l)) (cf_nodes cf)))"
proof -
  have "concat (map (\<lambda>n. case List.find (link_fits n) ls of None \<Rightarrow> [] | Some l \<Rightarrow> [(n, li_require l)]) (filter P ns)) =
      map (\<lambda>n. (n, li_require (the (List.find (link_fits n) ls)))) (filter (\<lambda>n. P n \<and> (\<exists>l \<in> set ls. link_fits n l)) ns)" for ls P ns
  proof (induction ns)
    case (Cons n ns)
    show ?case
    proof (cases "List.find (link_fits n) ls")
      case None
      then show ?thesis
        using Cons find_None_iff [of "link_fits n" ls] by auto
    next
      case (Some l)
      then have "\<exists>l \<in> set ls. link_fits n l"
        using find_Some_iff [of "link_fits n" ls l] by auto
      then show ?thesis
        using Cons Some by auto
    qed
  qed simp
  then show ?thesis
    using assms by (simp add: FetchLinkNodeList_def fetch_loop_filter)
qed

definition node_example :: "string \<Rightarrow> string \<Rightarrow> linkinfo list \<Rightarrow> nodeinfo" where
  "node_example nm ty ls = \<lparr>ni_id = 1, ni_name = nm, ni_type = ty, ni_ip = [], ni_port = -1, ni_links = ls\<rparr>"

lemma FetchLinkNodeList_exact_witness:
  "FetchLinkNodeList \<lparr>cf_local = Some (node_example ''a'' ''gate'' [\<lparr>li_type = BY_TYPE, li_matcher = ''db'', li_require = True\<rparr>]), cf_cookies = [],
     cf_nodes = [node_example ''a'' ''db'' [], node_example ''b'' ''db'' [], node_example ''c'' ''gate'' []]\<rparr> =
   Inr [(node_example ''b'' ''db'' [], True)]"
  using FetchLinkNodeList_exact [of "\<lparr>cf_local = Some (node_example ''a'' ''gate'' [\<lparr>li_type = BY_TYPE, li_matcher = ''db'', li_require = True\<rparr>]), cf_cookies = [],
     cf_nodes = [node_example ''a'' ''db'' [], node_example ''b'' ''db'' [], node_example ''c'' ''gate'' []]\<rparr>"]
  by (simp add: node_example_def link_fits_def)

text \<open>
  After every successful parse the empty string is an allowed cookie: the loop over the children of the
  local node also takes the text of the \<open><xmlattr>\<close> node, in which the parser keeps the attributes and
  whose own text is empty. A peer that presents the empty cookie passes the check whatever cookies are
  configured.
\<close>

lemma ParseXml_allows_empty_cookie:
  assumes "ParseXml lx cl (Some doc) cf = (True, cf')"
    and "\<And>ln a. get_child [''framework'', ''cluster'', ''localnode''] doc = Some ln \<Longrightarrow>
      map_of (pt_children ln) ''<xmlattr>'' = Some a \<Longrightarrow> pt_data a = []"
  shows "IsCookieAllow cf' []"
proof -
  obtain ln nm where ln: "get_child [''framework'', ''cluster'', ''localnode''] doc = Some ln" "attr ''name'' ln = Some nm"
      and ck: "map (\<lambda>c. pt_data (snd c)) (pt_children ln) = drop (length (cf_cookies cf)) (cf_cookies cf')"
    using assms(1) by (auto simp: ParseXml_def Let_def simp del: get_child.simps split: option.splits prod.splits if_splits)
  obtain a where a: "map_of (pt_children ln) ''<xmlattr>'' = Some a"
    using attr_child [OF ln(2)] by blast
  then have "pt_data a = []"
    using assms(2) ln(1) by blast
  moreover have "(''<xmlattr>'', a) \<in> set (pt_children ln)"
    using a by (rule map_of_SomeD)
  ultimately have "[] \<in> set (map (\<lambda>c. pt_data (snd c)) (pt_children ln))"
    by force
  then show ?thesis
    unfolding ck IsCookieAllow_def cookie_loop_iff by (rule in_set_dropD)
qed

definition lexical_example :: lexical where
  "lexical_example = \<lparr>lx_u8 = (\<lambda>s. if s = ''1'' then Some 1 else None), lx_int = (\<lambda>_. None), lx_bool = (\<lambda>_. None)\<rparr>"

definition cluster_doc :: ptree where
  "cluster_doc = PTree [] [(''framework'', PTree [] [(''cluster'', PTree [] [(''node'', PTree []
     [(''<xmlattr>'', PTree [] [(''id'', PTree ''1'' []), (''name'', PTree ''a'' []), (''type'', PTree ''gate'' [])])])])])]"

definition node_doc :: ptree where
  "node_doc = PTree [] [(''framework'', PTree [] [(''cluster'', PTree [] [(''localnode'', PTree []
     [(''<xmlattr>'', PTree [] [(''name'', PTree ''a'' [])]), (''cookie'', PTree ''secret'' [])])])])]"

lemma ParseXml_allows_empty_cookie_witness:
  "IsCookieAllow (snd (ParseXml lexical_example (Some cluster_doc) (Some node_doc) Configure_new)) []"
proof -
  have p: "fst (ParseXml lexical_example (Some cluster_doc) (Some node_doc) Configure_new)"
    by (simp add: ParseXml_def cluster_doc_def node_doc_def lexical_example_def attr_def parse_node_def node_child_def Configure_new_def)
  show ?thesis
  proof (rule ParseXml_allows_empty_cookie [of lexical_example "Some cluster_doc" node_doc Configure_new])
    show "ParseXml lexical_example (Some cluster_doc) (Some node_doc) Configure_new =
        (True, snd (ParseXml lexical_example (Some cluster_doc) (Some node_doc) Configure_new))"
      using p by (simp add: prod_eq_iff)
  qed (auto simp: node_doc_def)
qed

text \<open>
  Matching of process names, for literal parts without a star: a plain name matches only itself; \<open>base@*\<close>
  matches \<open>base\<close> itself and every \<open>base@\<close> with something behind it; \<open>pre*@node\<close> matches exactly \<open>pre\<close>, then
  anything without an at sign, then \<open>@node\<close>. Matching ends and reads nothing out of range.
\<close>

lemma is_process_name_match_styles:
  assumes "CHR ''*'' \<notin> set base" and "base \<noteq> []" and "CHR ''*'' \<notin> set node"
  shows "is_process_name_match base name = Inr (name = base) \<and>
    is_process_name_match (base @ ''@*'') name =
      Inr (name = base \<or> (length base + 1 < length name \<and> take (length base + 1) name = base @ ''@'')) \<and>
    is_process_name_match (base @ ''*@'' @ node) name = Inr (\<exists>mid. CHR ''@'' \<notin> set mid \<and> name = base @ mid @ ''@'' @ node)"
  using match_plain [OF assms(1,2)] match_any_node [OF assms(1)] match_on_node [OF assms(1,3)] by blast

lemma is_process_name_match_styles_witness:
  "is_process_name_match ''calc.*@a'' ''calc.2@b'' = Inr False"
proof -
  have "\<not> (\<exists>mid. CHR ''@'' \<notin> set mid \<and> ''calc.2@b'' = ''calc.'' @ mid @ ''@'' @ ''a'')"
  proof
    assume "\<exists>mid. CHR ''@'' \<notin> set mid \<and> ''calc.2@b'' = ''calc.'' @ mid @ ''@'' @ ''a''"
    then obtain mid where "''calc.2@b'' = ''calc.'' @ mid @ ''@'' @ ''a''" by blast
    then have "last ''calc.2@b'' = CHR ''a''"
      by (metis append_Cons append_Nil append_assoc last_snoc)
    then show False by simp
  qed
  then show ?thesis
    using is_process_name_match_styles [of "''calc.''" "''a''" "''calc.2@b''"] by simp
qed

end
