(* ===== verification/NodeMonitor.thy ===== *)
theory NodeMonitor
  imports ClusterConfig Message ObjectModel
begin

text \<open>
  The node monitor of \<open>base/cluster/nodemonitor.cpp\<close> with its connectors, and the mailboxes of
  \<open>base/cluster/mailbox.cpp\<close>. Messages are records of their header fields and their content; the bytes are
  the subject of the theory of messages, of which the conversion of addresses is used here. What user code
  sees (delivered messages, completed fetches, events, the set-up and clean-up callbacks) is the trace.
\<close>

section \<open>Model\<close>

datatype nmstate = IN_SETUP | IN_ROLLBACK | STATE_OK | IN_CLEANUP | STATE_STOP

datatype cbody = BAuth "8 word" "string list" | BNamed string mailboxid | BName string | BUser bytes

record cmsg =
  ms_code :: "16 word"
  ms_from :: mailboxid
  ms_to :: mailboxid
  ms_session :: "16 word"
  ms_body :: cbody

definition INTERNAL_AUTH :: "16 word" where
  "INTERNAL_AUTH = 1"

definition INTERNAL_REGISTER_NAMED_MAILBOX :: "16 word" where
  "INTERNAL_REGISTER_NAMED_MAILBOX = 3"

definition INTERNAL_UNREGISTER_NAMED_MAILBOX :: "16 word" where
  "INTERNAL_UNREGISTER_NAMED_MAILBOX = 4"

definition cmsg_new :: "16 word \<Rightarrow> cbody \<Rightarrow> cmsg" where
  "cmsg_new code b = \<lparr>ms_code = code, ms_from = MailboxID_NullID, ms_to = MailboxID_NullID, ms_session = 0, ms_body = b\<rparr>"

text \<open>The message as the receiver reads it: the addresses pass through \<open>ValueID\<close> and \<open>Parse\<close>.\<close>

definition on_wire :: "cmsg \<Rightarrow> cmsg" where
  "on_wire m = m\<lparr>ms_from := MailboxID_Parse (MailboxID_ValueID (ms_from m)), ms_to := MailboxID_Parse (MailboxID_ValueID (ms_to m))\<rparr>"

record connector =
  co_info :: "nodeinfo option"
  co_required :: bool
  co_connect :: bool
  co_closed :: bool

record mailbox =
  mx_mbid :: mailboxid
  mx_name :: string

record fetch =
  fe_matcher :: string
  fe_callback :: nat
  fe_linker :: "oid option"

record procidgen =
  sys_cur :: int
  normal_cur :: int

datatype nmevent =
    EvNamedUp string mailboxid
  | EvNamedDown string
  | EvNodeUp "8 word"
  | EvNodeDown "8 word"
  | EvFetched nat mailboxid
  | EvDelivered oid cmsg
  | EvSetup bool
  | EvCleanup
  | EvStop

record monitor =
  nm_state :: nmstate
  nm_cf :: configure
  nm_listening :: bool
  nm_anon :: "oid list"
  nm_connectors :: "(8 word \<times> oid) list"
  nm_conn :: "oid \<Rightarrow> connector"
  nm_mailboxes :: "(32 word \<times> oid) list"
  nm_mbox :: "oid \<Rightarrow> mailbox option"
  nm_named :: "(string \<times> mailboxid) list"
  nm_fetch :: "fetch list"
  nm_gen :: procidgen
  nm_calls :: "(bool \<times> mailboxid \<times> cmsg) list"
  nm_cb_stop :: bool
  nm_sent :: "(oid \<times> cmsg) list"
  nm_heap :: objheap
  nm_next :: oid
  nm_trace :: "nmevent list"

definition tell :: "nmevent \<Rightarrow> monitor \<Rightarrow> monitor" where
  "tell e s = s\<lparr>nm_trace := nm_trace s @ [e]\<rparr>"

definition ProcessIDGen_new :: procidgen where
  "ProcessIDGen_new = \<lparr>sys_cur = 1, normal_cur = 10000\<rparr>"

definition ProcessIDGen_Gen :: "bool \<Rightarrow> procidgen \<Rightarrow> (int \<times> procidgen) result" where
  "ProcessIDGen_Gen sys g =
     (if sys then assertE (sys_cur g < 10000) (Inr (sys_cur g, g\<lparr>sys_cur := sys_cur g + 1\<rparr>))
      else let n = normal_cur g + 1; n' = (if n \<ge> 256 * 256 * 256 then 1000 else n)
        in Inr (n', g\<lparr>normal_cur := n' + 1\<rparr>))"

definition local_id :: "monitor \<Rightarrow> 8 word result" where
  "local_id s = (case cf_local (nm_cf s) of None \<Rightarrow> Inl NullDeref | Some n \<Rightarrow> Inr (ni_id n))"

definition IsLocalMailbox :: "mailboxid \<Rightarrow> monitor \<Rightarrow> bool result" where
  "IsLocalMailbox mb s = bindE (local_id s) (\<lambda>i. Inr (i = MailboxID_nodeid mb))"

definition GenerateMailboxID :: "bool \<Rightarrow> monitor \<Rightarrow> (mailboxid \<times> monitor) result" where
  "GenerateMailboxID sys s = bindE (local_id s) (\<lambda>i. bindE (ProcessIDGen_Gen sys (nm_gen s)) (\<lambda>(p, g).
     Inr (MailboxID_new i (word_of_int p), s\<lparr>nm_gen := g\<rparr>)))"

definition FindMailboxByPID :: "32 word \<Rightarrow> monitor \<Rightarrow> oid option" where
  "FindMailboxByPID pid s = map_of (nm_mailboxes s) pid"

definition FindConnectorByNodeID :: "8 word \<Rightarrow> monitor \<Rightarrow> oid option" where
  "FindConnectorByNodeID i s = map_of (nm_connectors s) i"

text \<open>\<open>insert\<close> of a map keeps an existing entry, \<open>erase\<close> removes an entry by its key.\<close>

definition map_insert :: "'k \<Rightarrow> 'v \<Rightarrow> ('k \<times> 'v) list \<Rightarrow> ('k \<times> 'v) list" where
  "map_insert k v m = (if k \<in> fst ` set m then m else m @ [(k, v)])"

definition map_erase :: "'k \<Rightarrow> ('k \<times> 'v) list \<Rightarrow> ('k \<times> 'v) list" where
  "map_erase k m = filter (\<lambda>e. fst e \<noteq> k) m"

definition Connector_SendMessage :: "oid \<Rightarrow> cmsg \<Rightarrow> monitor \<Rightarrow> monitor" where
  "Connector_SendMessage c m s = s\<lparr>nm_sent := nm_sent s @ [(c, on_wire m)]\<rparr>"

definition SendRegisterNamedMailbox :: "oid \<Rightarrow> string \<Rightarrow> mailboxid \<Rightarrow> monitor \<Rightarrow> monitor" where
  "SendRegisterNamedMailbox c name mb s =
     Connector_SendMessage c (cmsg_new INTERNAL_REGISTER_NAMED_MAILBOX (BNamed name (MailboxID_Parse (MailboxID_ValueID mb)))) s"

definition BroadcastRegisterNamedMailbox :: "string \<Rightarrow> mailboxid \<Rightarrow> monitor \<Rightarrow> monitor" where
  "BroadcastRegisterNamedMailbox name mb s = foldl (\<lambda>s e. SendRegisterNamedMailbox (snd e) name mb s) s (nm_connectors s)"

definition BroadcastUnRegisterNamedMailbox :: "string \<Rightarrow> monitor \<Rightarrow> monitor" where
  "BroadcastUnRegisterNamedMailbox name s =
     foldl (\<lambda>s e. Connector_SendMessage (snd e) (cmsg_new INTERNAL_UNREGISTER_NAMED_MAILBOX (BName name)) s) s (nm_connectors s)"

text \<open>\<open>delete\<close> of a pending fetch releases its linker.\<close>

definition fetch_delete :: "fetch \<Rightarrow> monitor \<Rightarrow> monitor result" where
  "fetch_delete f s = bindE (SAFE_RELEASE (fe_linker f) (nm_heap s)) (\<lambda>(_, h). Inr (s\<lparr>nm_heap := h\<rparr>))"

fun CheckAsync_loop :: "fetch list \<Rightarrow> fetch list \<Rightarrow> string \<Rightarrow> mailboxid \<Rightarrow> monitor \<Rightarrow> monitor result" where
  "CheckAsync_loop bef [] name mb s = Inr (s\<lparr>nm_fetch := bef\<rparr>)"
| "CheckAsync_loop bef (f # fs) name mb s =
     bindE (case fe_linker f of None \<Rightarrow> Inr True | Some l \<Rightarrow> bindE (Object_reference_count l (nm_heap s)) (\<lambda>n. Inr (n = 2))) (\<lambda>alive.
       if \<not> alive then bindE (fetch_delete f s) (CheckAsync_loop bef fs name mb)
       else bindE (is_process_name_match (fe_matcher f) name) (\<lambda>m.
         if m then bindE (fetch_delete f (tell (EvFetched (fe_callback f) mb) s)) (CheckAsync_loop bef fs name mb)
         else CheckAsync_loop (bef @ [f]) fs name mb s))"

definition CheckAsyncFetchList :: "string \<Rightarrow> mailboxid \<Rightarrow> monitor \<Rightarrow> monitor result" where
  "CheckAsyncFetchList name mb s = CheckAsync_loop [] (nm_fetch s) name mb s"

definition OnNamedMailboxUp :: "string \<Rightarrow> mailboxid \<Rightarrow> monitor \<Rightarrow> monitor result" where
  "OnNamedMailboxUp name mb s = bindE (CheckAsyncFetchList name mb (s\<lparr>nm_named := map_insert name mb (nm_named s)\<rparr>))
     (\<lambda>s'. Inr (tell (EvNamedUp name mb) s'))"

definition OnNamedMailboxDown :: "string \<Rightarrow> monitor \<Rightarrow> monitor" where
  "OnNamedMailboxDown name s = tell (EvNamedDown name) s"

definition NodeMonitor_Register :: "oid \<Rightarrow> bool \<Rightarrow> monitor \<Rightarrow> (bool \<times> monitor) result" where
  "NodeMonitor_Register mb sys s = (case nm_mbox s mb of None \<Rightarrow> Inl UseAfterFree
     | Some x \<Rightarrow>
        if mx_name x \<noteq> [] \<and> mx_name x \<in> fst ` set (nm_named s) then Inr (False, s)
        else bindE (GenerateMailboxID sys s) (\<lambda>(mbid, s1).
          let s2 = s1\<lparr>nm_mbox := (nm_mbox s1)(mb \<mapsto> x\<lparr>mx_mbid := mbid\<rparr>),
                nm_mailboxes := map_insert (mb_pid mbid) mb (nm_mailboxes s1)\<rparr> in
          if mx_name x \<noteq> [] then bindE (OnNamedMailboxUp (mx_name x) mbid s2)
            (\<lambda>s3. Inr (True, BroadcastRegisterNamedMailbox (mx_name x) mbid s3))
          else Inr (True, s2)))"

definition NodeMonitor_UnRegister :: "oid \<Rightarrow> monitor \<Rightarrow> monitor result" where
  "NodeMonitor_UnRegister mb s = (case nm_mbox s mb of None \<Rightarrow> Inl UseAfterFree
     | Some x \<Rightarrow>
        let s1 = (if mx_name x \<noteq> [] then BroadcastUnRegisterNamedMailbox (mx_name x)
                    (OnNamedMailboxDown (mx_name x) (s\<lparr>nm_named := map_erase (mx_name x) (nm_named s)\<rparr>)) else s)
        in Inr (s1\<lparr>nm_mailboxes := map_erase (mb_pid (mx_mbid x)) (nm_mailboxes s1),
                   nm_mbox := (nm_mbox s1)(mb \<mapsto> x\<lparr>mx_mbid := MailboxID_NullID\<rparr>)\<rparr>))"

definition Mailbox_delete :: "oid \<Rightarrow> monitor \<Rightarrow> monitor result" where
  "Mailbox_delete mb s = bindE (NodeMonitor_UnRegister mb s) (\<lambda>s'. Inr (s'\<lparr>nm_mbox := (nm_mbox s')(mb := None)\<rparr>))"

definition Mailbox_Create :: "string \<Rightarrow> bool \<Rightarrow> monitor \<Rightarrow> (oid option \<times> monitor) result" where
  "Mailbox_Create name sys s = (let mb = nm_next s;
       s1 = s\<lparr>nm_mbox := (nm_mbox s)(mb \<mapsto> \<lparr>mx_mbid = MailboxID_NullID, mx_name = name\<rparr>), nm_next := mb + 1\<rparr> in
     bindE (NodeMonitor_Register mb sys s1) (\<lambda>(ok, s2).
       if ok then Inr (Some mb, s2) else bindE (Mailbox_delete mb s2) (\<lambda>s3. Inr (None, s3))))"

text \<open>
  A message to a mailbox of this node becomes an action of the monitor's executor, which keeps its actions
  with the newest in front, each with the flag that it was stopped.
\<close>

definition NodeMonitor_SendMessage :: "cmsg \<Rightarrow> monitor \<Rightarrow> monitor result" where
  "NodeMonitor_SendMessage m s = bindE (IsLocalMailbox (ms_to m) s) (\<lambda>loc.
     if loc then Inr (s\<lparr>nm_calls := (False, ms_to m, on_wire m) # nm_calls s\<rparr>)
     else case FindConnectorByNodeID (MailboxID_nodeid (ms_to m)) s of None \<Rightarrow> Inr s | Some c \<Rightarrow> Inr (Connector_SendMessage c m s))"

definition Mailbox_Cast :: "oid \<Rightarrow> mailboxid \<Rightarrow> cmsg \<Rightarrow> monitor \<Rightarrow> monitor result" where
  "Mailbox_Cast mb to m s = (case nm_mbox s mb of None \<Rightarrow> Inl UseAfterFree
     | Some x \<Rightarrow> NodeMonitor_SendMessage (m\<lparr>ms_from := mx_mbid x, ms_to := to\<rparr>) s)"

text \<open>The action of the next frame that delivers a message to a mailbox of this node.\<close>

definition SendInternalMessageAtNextCall :: "mailboxid \<Rightarrow> cmsg \<Rightarrow> monitor \<Rightarrow> monitor" where
  "SendInternalMessageAtNextCall to m s = (case FindMailboxByPID (mb_pid to) s of None \<Rightarrow> s | Some mb \<Rightarrow> tell (EvDelivered mb m) s)"

fun run_calls :: "(bool \<times> mailboxid \<times> cmsg) list \<Rightarrow> monitor \<Rightarrow> monitor" where
  "run_calls [] s = s"
| "run_calls ((stopped, to, m) # cs) s = run_calls cs (if stopped then s else SendInternalMessageAtNextCall to m s)"

fun fetch_scan :: "string \<Rightarrow> (string \<times> mailboxid) list \<Rightarrow> mailboxid option result" where
  "fetch_scan matcher [] = Inr None"
| "fetch_scan matcher (e # es) = bindE (is_process_name_match matcher (fst e)) (\<lambda>m. if m then Inr (Some (snd e)) else fetch_scan matcher es)"

definition FetchNamedMailbox :: "string \<Rightarrow> nat \<Rightarrow> monitor \<Rightarrow> monitor result" where
  "FetchNamedMailbox matcher cb s = bindE (fetch_scan matcher (nm_named s)) (\<lambda>r. case r of
     Some mb \<Rightarrow> Inr (tell (EvFetched cb mb) s)
   | None \<Rightarrow> Inr (s\<lparr>nm_fetch := nm_fetch s @ [\<lparr>fe_matcher = matcher, fe_callback = cb, fe_linker = None\<rparr>]\<rparr>))"

definition FetchNamedMailboxWithLinker :: "string \<Rightarrow> nat \<Rightarrow> monitor \<Rightarrow> (oid option \<times> monitor) result" where
  "FetchNamedMailboxWithLinker matcher cb s = bindE (fetch_scan matcher (nm_named s)) (\<lambda>r. case r of
     Some mb \<Rightarrow> Inr (None, tell (EvFetched cb mb) s)
   | None \<Rightarrow> let (l, h) = Object_new (nm_heap s) in
       Inr (Some l, s\<lparr>nm_heap := h, nm_fetch := nm_fetch s @ [\<lparr>fe_matcher = matcher, fe_callback = cb, fe_linker = Some l\<rparr>]\<rparr>))"

section \<open>Nodes\<close>

fun node_up_loop :: "oid \<Rightarrow> (string \<times> mailboxid) list \<Rightarrow> monitor \<Rightarrow> monitor result" where
  "node_up_loop c [] s = Inr s"
| "node_up_loop c (e # es) s = bindE (IsLocalMailbox (snd e) s) (\<lambda>loc.
     node_up_loop c es (if loc then SendRegisterNamedMailbox c (fst e) (snd e) s else s))"

definition OnNodeUp :: "oid \<Rightarrow> nodeinfo \<Rightarrow> monitor \<Rightarrow> monitor result" where
  "OnNodeUp c n s = bindE (node_up_loop c (nm_named s) s) (\<lambda>s'. Inr (tell (EvNodeUp (ni_id n)) s'))"

fun node_down_loop :: "8 word \<Rightarrow> (string \<times> mailboxid) list \<Rightarrow> (string \<times> mailboxid) list \<Rightarrow> monitor \<Rightarrow> monitor" where
  "node_down_loop i bef [] s = s\<lparr>nm_named := bef\<rparr>"
| "node_down_loop i bef (e # es) s = (if MailboxID_nodeid (snd e) = i then node_down_loop i bef es (OnNamedMailboxDown (fst e) s)
     else node_down_loop i (bef @ [e]) es s)"

definition OnNodeDown :: "nodeinfo \<Rightarrow> monitor \<Rightarrow> monitor" where
  "OnNodeDown n s = tell (EvNodeDown (ni_id n)) (node_down_loop (ni_id n) [] (nm_named s) s)"

definition conn_release :: "oid \<Rightarrow> monitor \<Rightarrow> monitor result" where
  "conn_release c s = bindE (Object_Release c (nm_heap s)) (\<lambda>h. Inr (s\<lparr>nm_heap := h\<rparr>))"

definition conn_close :: "oid \<Rightarrow> monitor \<Rightarrow> monitor" where
  "conn_close c s = s\<lparr>nm_conn := (nm_conn s)(c := (nm_conn s c)\<lparr>co_closed := True\<rparr>)\<rparr>"

fun close_anon :: "oid list \<Rightarrow> monitor \<Rightarrow> monitor result" where
  "close_anon [] s = Inr s"
| "close_anon (c # cs) s = (let s1 = conn_close c s in
     if \<not> co_connect (nm_conn s1 c) then bindE (conn_release c s1) (\<lambda>s2. close_anon cs (s2\<lparr>nm_anon := remove1 c (nm_anon s2)\<rparr>))
     else close_anon cs s1)"

fun close_conns :: "(8 word \<times> oid) list \<Rightarrow> monitor \<Rightarrow> monitor result" where
  "close_conns [] s = Inr s"
| "close_conns (e # es) s = (let s1 = conn_close (snd e) s in
     if \<not> co_connect (nm_conn s1 (snd e)) then
       bindE (conn_release (snd e) s1) (\<lambda>s2. close_conns es (s2\<lparr>nm_connectors := map_erase (fst e) (nm_connectors s2)\<rparr>))
     else close_conns es s1)"

definition CloseAll :: "monitor \<Rightarrow> monitor result" where
  "CloseAll s = bindE (close_anon (nm_anon s) (s\<lparr>nm_listening := False\<rparr>)) (\<lambda>s1. close_conns (nm_connectors s1) s1)"

definition CheckIfAllSetup :: "monitor \<Rightarrow> monitor" where
  "CheckIfAllSetup s = (if nm_state s = IN_SETUP \<and> nm_anon s = [] then (tell (EvSetup True) s)\<lparr>nm_state := STATE_OK\<rparr> else s)"

definition CheckIfAllRollback :: "monitor \<Rightarrow> monitor" where
  "CheckIfAllRollback s = (if nm_state s = IN_ROLLBACK \<and> nm_anon s = [] \<and> nm_connectors s = []
     then (tell (EvSetup False) s)\<lparr>nm_state := STATE_STOP\<rparr> else s)"

definition CheckIfAllCleanup :: "monitor \<Rightarrow> monitor" where
  "CheckIfAllCleanup s = (if nm_state s = IN_CLEANUP \<and> nm_anon s = [] \<and> nm_connectors s = [] \<and> nm_calls s = []
     then (tell EvCleanup s)\<lparr>nm_state := STATE_STOP\<rparr> else s)"

text \<open>One update of the monitor's executor by the action manager; the dispatcher, which would call it, has the call commented out.\<close>

definition exe_update :: "monitor \<Rightarrow> monitor" where
  "exe_update s = (if nm_calls s = [] then (if nm_cb_stop s then CheckIfAllCleanup s else s)
     else run_calls (nm_calls s) (s\<lparr>nm_calls := []\<rparr>))"

text \<open>\<open>new Connector\<close> and \<open>Connect\<close>: the dispatcher takes a second reference.\<close>

definition Connector_new :: "bool \<Rightarrow> bool \<Rightarrow> monitor \<Rightarrow> oid \<times> monitor" where
  "Connector_new req connected s = (let (c, h) = Object_new (nm_heap s) in
     (c, s\<lparr>nm_heap := h\<lparr>rc := (rc h)(c \<mapsto> 2)\<rparr>, nm_conn := (nm_conn s)(c := \<lparr>co_info = None, co_required = req, co_connect = connected, co_closed = False\<rparr>)\<rparr>))"

definition OnListenerAccept :: "monitor \<Rightarrow> monitor" where
  "OnListenerAccept s = (let (c, s1) = Connector_new False True s in s1\<lparr>nm_anon := nm_anon s1 @ [c]\<rparr>)"

definition OnConnectorAuthSuccess :: "oid \<Rightarrow> monitor \<Rightarrow> monitor result" where
  "OnConnectorAuthSuccess c s = (case co_info (nm_conn s c) of None \<Rightarrow> Inl NullDeref
     | Some n \<Rightarrow>
        if ni_id n \<in> fst ` set (nm_connectors s) then Inr (tell EvStop s)
        else OnNodeUp c n (CheckIfAllSetup (s\<lparr>nm_connectors := nm_connectors s @ [(ni_id n, c)], nm_anon := removeAll c (nm_anon s)\<rparr>)))"

definition OnConnectorAuthFail :: "oid \<Rightarrow> monitor \<Rightarrow> monitor result" where
  "OnConnectorAuthFail c s = bindE (conn_release c (s\<lparr>nm_anon := removeAll c (nm_anon s)\<rparr>)) (\<lambda>s1.
     if rc (nm_heap s1) c = None then Inl UseAfterFree
     else bindE (if co_required (nm_conn s1 c) \<and> nm_state s1 = IN_SETUP then CloseAll (s1\<lparr>nm_state := IN_ROLLBACK\<rparr>) else Inr s1)
       (\<lambda>s2. Inr (CheckIfAllRollback s2)))"

definition OnConnectorClose :: "oid \<Rightarrow> monitor \<Rightarrow> monitor result" where
  "OnConnectorClose c s =
     (let s1 = (case co_info (nm_conn s c) of
          Some n \<Rightarrow> OnNodeDown n (s\<lparr>nm_connectors := map_erase (ni_id n) (nm_connectors s)\<rparr>)
        | None \<Rightarrow> s\<lparr>nm_anon := removeAll c (nm_anon s)\<rparr>)
      in bindE (conn_release c s1) (\<lambda>s2.
         bindE (if nm_state s2 = IN_SETUP then CloseAll (s2\<lparr>nm_state := IN_ROLLBACK\<rparr>) else Inr s2)
           (\<lambda>s3. Inr (CheckIfAllRollback (CheckIfAllCleanup s3)))))"

text \<open>The dispatcher's handling of a closed connector: the callback if it was connected, and its own release.\<close>

definition Connector_OnEventIOClose :: "oid \<Rightarrow> monitor \<Rightarrow> monitor result" where
  "Connector_OnEventIOClose c s =
     bindE (if co_connect (nm_conn s c) then OnConnectorClose c (s\<lparr>nm_conn := (nm_conn s)(c := (nm_conn s c)\<lparr>co_connect := False\<rparr>)\<rparr>) else Inr s)
       (conn_release c)"

text \<open>The authentication message: a node id and the cookies of the peer.\<close>

fun cookie_passed :: "configure \<Rightarrow> string list \<Rightarrow> bool" where
  "cookie_passed cf [] = False"
| "cookie_passed cf (c # cs) = (if IsCookieAllow cf c then True else cookie_passed cf cs)"

definition HandleInternalMessage :: "oid \<Rightarrow> cmsg \<Rightarrow> monitor \<Rightarrow> monitor result" where
  "HandleInternalMessage c m s =
     (if ms_code m = INTERNAL_AUTH then
        (case ms_body m of
           BAuth nodeid cookies \<Rightarrow>
             if cookie_passed (nm_cf s) cookies then
               (case FindNodeInfoByID (nm_cf s) nodeid of
                  None \<Rightarrow> Inr (conn_close c (s\<lparr>nm_conn := (nm_conn s)(c := (nm_conn s c)\<lparr>co_info := None\<rparr>)\<rparr>))
                | Some n \<Rightarrow> OnConnectorAuthSuccess c (s\<lparr>nm_conn := (nm_conn s)(c := (nm_conn s c)\<lparr>co_info := Some n\<rparr>)\<rparr>))
             else Inr (conn_close c s)
         | _ \<Rightarrow> Inr (conn_close c s))
      else Inr s)"

definition Connector_OnConnect :: "oid \<Rightarrow> monitor \<Rightarrow> monitor result" where
  "Connector_OnConnect c s = bindE (local_id s) (\<lambda>i.
     Inr (Connector_SendMessage c (cmsg_new INTERNAL_AUTH (BAuth i (cf_cookies (nm_cf s))))
       (s\<lparr>nm_conn := (nm_conn s)(c := (nm_conn s c)\<lparr>co_connect := True\<rparr>)\<rparr>)))"

definition OnConnectorReceiveMessage :: "oid \<Rightarrow> cmsg \<Rightarrow> monitor \<Rightarrow> monitor result" where
  "OnConnectorReceiveMessage c m s =
     (if \<not> MailboxID_bool (ms_to m) then
        (case co_info (nm_conn s c) of None \<Rightarrow> Inl NullDeref
         | Some n \<Rightarrow>
            if ms_code m = INTERNAL_REGISTER_NAMED_MAILBOX then
              (case ms_body m of BNamed name mb \<Rightarrow> OnNamedMailboxUp (name @ ''@'' @ ni_name n) mb s | _ \<Rightarrow> Inl NoMoreData)
            else if ms_code m = INTERNAL_UNREGISTER_NAMED_MAILBOX then
              (case ms_body m of BName name \<Rightarrow>
                 let k = name @ ''@'' @ ni_name n in
                 if k \<in> fst ` set (nm_named s) then Inr (OnNamedMailboxDown k (s\<lparr>nm_named := map_erase k (nm_named s)\<rparr>)) else Inr s
               | _ \<Rightarrow> Inl NoMoreData)
            else Inr s)
      else case FindMailboxByPID (mb_pid (ms_to m)) s of None \<Rightarrow> Inr s | Some mb \<Rightarrow> Inr (tell (EvDelivered mb m) s))"

text \<open>One message in \<open>Connector::OnReceive\<close>: an exception closes the connector.\<close>

definition Connector_message :: "oid \<Rightarrow> cmsg \<Rightarrow> monitor \<Rightarrow> monitor result" where
  "Connector_message c m s =
     (case (if \<not> MailboxID_bool (ms_to m) \<and> co_info (nm_conn s c) = None then HandleInternalMessage c m s
            else OnConnectorReceiveMessage c m s) of
        Inr s' \<Rightarrow> Inr s'
      | Inl NoMoreData \<Rightarrow> Inr (conn_close c s)
      | Inl e \<Rightarrow> Inl e)"

text \<open>
  \<open>BeginSetup\<close>: \<open>parsed\<close> are the result of \<open>ParseXml\<close> and the configuration, \<open>bound\<close> whether the listener could
  be bound; the connections are begun and not yet complete.
\<close>

fun connect_loop :: "(nodeinfo \<times> bool) list \<Rightarrow> monitor \<Rightarrow> monitor" where
  "connect_loop [] s = s"
| "connect_loop (l # ls) s = (let (c, s1) = Connector_new (snd l) False s in connect_loop ls (s1\<lparr>nm_anon := nm_anon s1 @ [c]\<rparr>))"

definition NodeMonitor_BeginSetup :: "bool \<times> configure \<Rightarrow> bool \<Rightarrow> monitor \<Rightarrow> monitor result" where
  "NodeMonitor_BeginSetup parsed bound s =
     (let s1 = s\<lparr>nm_state := IN_SETUP, nm_cf := snd parsed\<rparr> in
      if \<not> fst parsed then Inr (tell (EvSetup False) s1)
      else case cf_local (nm_cf s1) of None \<Rightarrow> Inl NullDeref
       | Some lc \<Rightarrow>
          if NodeInfo_HasListener lc \<and> \<not> bound then Inr (tell (EvSetup False) s1)
          else bindE (FetchLinkNodeList (nm_cf s1)) (\<lambda>links.
            let s2 = s1\<lparr>nm_listening := NodeInfo_HasListener lc\<rparr>;
                s3 = (if \<exists>l \<in> set links. \<not> NodeInfo_HasListener (fst l) then tell (EvSetup False) s2 else s2)
            in Inr (CheckIfAllSetup (connect_loop links s3))))"

definition NodeMonitor_BeginCleanup :: "monitor \<Rightarrow> monitor result" where
  "NodeMonitor_BeginCleanup s = bindE (CloseAll (s\<lparr>nm_state := IN_CLEANUP\<rparr>)) (\<lambda>s1.
     Inr (CheckIfAllCleanup (if nm_calls s1 = [] then CheckIfAllCleanup s1
       else s1\<lparr>nm_cb_stop := True, nm_calls := map (\<lambda>(_, x). (True, x)) (nm_calls s1)\<rparr>)))"

end
