(* ===== verification/NodeMonitorSpec.thy ===== *)
theory NodeMonitorSpec
  imports NodeMonitor
begin

text \<open>
  Properties of the node monitor: the generated process ids, pending fetches of named mailboxes, the
  registry of mailboxes, and the callback of the set-up, which is called at most once.
\<close>

section \<open>Process ids\<close>

definition gen_ok :: "procidgen \<Rightarrow> bool" where
  "gen_ok g \<longleftrightarrow> 1 \<le> sys_cur g \<and> sys_cur g \<le> 10000 \<and> 1000 \<le> normal_cur g \<and> normal_cur g \<le> 16777216"

text \<open>
  C40. The generated process ids fit the 24 bits an address has for them: system ids run from 1 to 9999 and
  are never handed out twice, the assertion failing once they are used up; normal ids lie between 1000 and
  \<open>2 ^ 24\<close>, so that after a wrap-around they reach into the range of the system ids.
\<close>

theorem ProcessIDGen_bounds:
  assumes "gen_ok g"
  shows "gen_ok ProcessIDGen_new \<and>
    (case ProcessIDGen_Gen True g of
       Inl e \<Rightarrow> e = AssertFailed \<and> sys_cur g = 10000
     | Inr (p, g') \<Rightarrow> gen_ok g' \<and> p = sys_cur g \<and> 1 \<le> p \<and> p < 10000 \<and> sys_cur g' = p + 1) \<and>
    (\<exists>p g'. ProcessIDGen_Gen False g = Inr (p, g') \<and> gen_ok g' \<and> 1000 \<le> p \<and> p < 16777216 \<and> sys_cur g' = sys_cur g \<and>
       (normal_cur g \<ge> 16777215 \<longrightarrow> p = 1000))"
  using assms by (auto simp: ProcessIDGen_Gen_def gen_ok_def Let_def assertE_def ProcessIDGen_new_def)

theorem ProcessIDGen_bounds_witness:
  "\<exists>g'. ProcessIDGen_Gen False \<lparr>sys_cur = 7, normal_cur = 16777215\<rparr> = Inr (1000, g')"
  using ProcessIDGen_bounds [of "\<lparr>sys_cur = 7, normal_cur = 16777215\<rparr>"] by (auto simp: gen_ok_def)

section \<open>Pending fetches\<close>

definition fetch_alive :: "objheap \<Rightarrow> fetch \<Rightarrow> bool" where
  "fetch_alive h f \<longleftrightarrow> (case fe_linker f of None \<Rightarrow> True | Some l \<Rightarrow> rc h l = Some 2)"

definition fetch_matches :: "string \<Rightarrow> fetch \<Rightarrow> bool" where
  "fetch_matches name f \<longleftrightarrow> is_process_name_match (fe_matcher f) name = Inr True"

definition fe_links :: "fetch list \<Rightarrow> oid set" where
  "fe_links fs = {l. \<exists>f \<in> set fs. fe_linker f = Some l}"

text \<open>Every fetch has a linker of its own, if any, that is alive; no matcher is empty.\<close>

definition fetch_ok :: "fetch list \<Rightarrow> objheap \<Rightarrow> bool" where
  "fetch_ok fs h \<longleftrightarrow> (\<forall>i j. i < j \<longrightarrow> j < length fs \<longrightarrow> fe_linker (fs ! i) = None \<or> fe_linker (fs ! i) \<noteq> fe_linker (fs ! j)) \<and>
     (\<forall>f \<in> set fs. fe_matcher f \<noteq> [] \<and> (\<forall>l. fe_linker f = Some l \<longrightarrow> (\<exists>n. rc h l = Some n \<and> 0 < n \<and> n < 4294967296)))"

lemma fetch_ok_Cons:
  "fetch_ok (f # fs) h \<longleftrightarrow> fetch_ok fs h \<and> (fe_linker f = None \<or> (\<forall>g \<in> set fs. fe_linker g \<noteq> fe_linker f)) \<and>
     fe_matcher f \<noteq> [] \<and> (\<forall>l. fe_linker f = Some l \<longrightarrow> (\<exists>n. rc h l = Some n \<and> 0 < n \<and> n < 4294967296))"
proof -
  have "(\<forall>i j. i < j \<longrightarrow> j < length (f # fs) \<longrightarrow> fe_linker ((f # fs) ! i) = None \<or> fe_linker ((f # fs) ! i) \<noteq> fe_linker ((f # fs) ! j)) \<longleftrightarrow>
      (fe_linker f = None \<or> (\<forall>g \<in> set fs. fe_linker g \<noteq> fe_linker f)) \<and>
      (\<forall>i j. i < j \<longrightarrow> j < length fs \<longrightarrow> fe_linker (fs ! i) = None \<or> fe_linker (fs ! i) \<noteq> fe_linker (fs ! j))"
    (is "?A \<longleftrightarrow> ?B \<and> ?C")
  proof
    assume a: ?A
    have ?B
      using a [rule_format, of 0 "Suc _"] by (auto simp: in_set_conv_nth) (metis option.distinct(1))
    moreover have ?C
      using a [rule_format, of "Suc _" "Suc _"] by simp
    ultimately show "?B \<and> ?C" ..
  next
    assume bc: "?B \<and> ?C"
    show ?A
    proof (intro allI impI)
      fix i j assume "i < j" "j < length (f # fs)"
      then show "fe_linker ((f # fs) ! i) = None \<or> fe_linker ((f # fs) ! i) \<noteq> fe_linker ((f # fs) ! j)"
        using bc by (cases i; cases j) (auto dest: nth_mem)
    qed
  qed
  then show ?thesis
    by (auto simp: fetch_ok_def)
qed

lemma match_total: "M \<noteq> [] \<Longrightarrow> \<exists>b. is_process_name_match M N = Inr b"
  by (auto simp: is_process_name_match_def Let_def split: option.splits)

text \<open>The heap after one reference of a fetch's linker is given up.\<close>

definition gave_up :: "fetch \<Rightarrow> objheap \<Rightarrow> objheap \<Rightarrow> bool" where
  "gave_up f h h' \<longleftrightarrow> (case fe_linker f of None \<Rightarrow> rc h' = rc h
     | Some l \<Rightarrow> rc h' = (rc h)(l := (if rc h l = Some 1 then None else map_option (\<lambda>n. n - 1) (rc h l))))"

lemma SAFE_RELEASE_gave_up:
  assumes "\<forall>l. fe_linker f = Some l \<longrightarrow> (\<exists>n. rc h l = Some n \<and> 0 < n \<and> n < 4294967296)"
  shows "\<exists>h'. SAFE_RELEASE (fe_linker f) h = Inr (None, h') \<and> gave_up f h h'"
proof (cases "fe_linker f")
  case None
  then show ?thesis
    by (simp add: SAFE_RELEASE_def gave_up_def)
next
  case (Some l)
  then obtain n where n: "rc h l = Some n" "0 < n" "n < 4294967296"
    using assms by auto
  show ?thesis
  proof (cases "n = 1")
    case True
    then show ?thesis
      using n Some by (simp add: SAFE_RELEASE_def Object_Release_def Object_delete_def Let_def gave_up_def)
  next
    case False
    then have "0 < n - 1" using n by simp
    then show ?thesis
      using n Some False by (simp add: SAFE_RELEASE_def Object_Release_def Let_def gave_up_def)
  qed
qed

lemma fetch_delete_ok:
  assumes "\<forall>l. fe_linker f = Some l \<longrightarrow> (\<exists>n. rc (nm_heap s) l = Some n \<and> 0 < n \<and> n < 4294967296)"
  shows "\<exists>h. fetch_delete f s = Inr (s\<lparr>nm_heap := h\<rparr>) \<and> gave_up f (nm_heap s) h"
proof -
  obtain h where "SAFE_RELEASE (fe_linker f) (nm_heap s) = Inr (None, h)" "gave_up f (nm_heap s) h"
    using SAFE_RELEASE_gave_up [OF assms] by blast
  then have "fetch_delete f s = Inr (s\<lparr>nm_heap := h\<rparr>)"
    by (simp add: fetch_delete_def)
  with \<open>gave_up f (nm_heap s) h\<close> show ?thesis by blast
qed

lemma gave_up_frame:
  assumes "gave_up f h h'" and "fetch_ok (f # fs) h"
  shows "fetch_ok fs h' \<and> (\<forall>g \<in> set fs. fetch_alive h' g = fetch_alive h g)"
proof -
  have same: "rc h' l = rc h l" if "g \<in> set fs" "fe_linker g = Some l" for g l
    using assms that unfolding fetch_ok_Cons by (cases "fe_linker f") (auto simp: gave_up_def)
  then have "\<forall>g \<in> set fs. fetch_alive h' g = fetch_alive h g"
    by (auto simp: fetch_alive_def split: option.splits)
  moreover have "fetch_ok fs h'"
    using assms(2) same unfolding fetch_ok_Cons by (auto simp: fetch_ok_def)
  ultimately show ?thesis by blast
qed

lemma CheckAsync_loop_ok:
  "fetch_ok fs (nm_heap s) \<Longrightarrow>
    \<exists>h. CheckAsync_loop bef fs name mb s = Inr (s\<lparr>nm_heap := h,
        nm_fetch := bef @ filter (\<lambda>f. fetch_alive (nm_heap s) f \<and> \<not> fetch_matches name f) fs,
        nm_trace := nm_trace s @ map (\<lambda>f. EvFetched (fe_callback f) mb) (filter (\<lambda>f. fetch_alive (nm_heap s) f \<and> fetch_matches name f) fs)\<rparr>)"
proof (induction fs arbitrary: bef s)
  case Nil
  then show ?case
    by (intro exI [of _ "nm_heap s"]) simp
next
  case (Cons f fs)
  have f: "\<forall>l. fe_linker f = Some l \<longrightarrow> (\<exists>n. rc (nm_heap s) l = Some n \<and> 0 < n \<and> n < 4294967296)" "fe_matcher f \<noteq> []"
      "fetch_ok fs (nm_heap s)"
    using Cons.prems unfolding fetch_ok_Cons by auto
  have alive: "(case fe_linker f of None \<Rightarrow> Inr True | Some l \<Rightarrow> bindE (Object_reference_count l (nm_heap s)) (\<lambda>n. Inr (n = 2)))
      = Inr (fetch_alive (nm_heap s) f)"
    using f(1) by (auto simp: fetch_alive_def Object_reference_count_def split: option.splits)
  obtain b where b: "is_process_name_match (fe_matcher f) name = Inr b"
    using match_total [OF f(2)] by blast
  then have m: "fetch_matches name f \<longleftrightarrow> b"
    by (simp add: fetch_matches_def)
  show ?case
  proof (cases "fetch_alive (nm_heap s) f \<and> \<not> b")
    case True
    then show ?thesis
      using Cons.IH [OF f(3), of "bef @ [f]"] alive b m by (simp only: CheckAsync_loop.simps bindE_Inr) simp
  next
    case False
    define s1 where "s1 = (if fetch_alive (nm_heap s) f then tell (EvFetched (fe_callback f) mb) s else s)"
    have s1: "nm_heap s1 = nm_heap s"
      by (simp add: s1_def tell_def)
    obtain h where h: "fetch_delete f s1 = Inr (s1\<lparr>nm_heap := h\<rparr>)" "gave_up f (nm_heap s) h"
      using fetch_delete_ok [of f s1] f(1) s1 by auto
    have fr: "fetch_ok fs h" "\<forall>g \<in> set fs. fetch_alive h g = fetch_alive (nm_heap s) g"
      using gave_up_frame [OF h(2) Cons.prems] by auto
    have step: "CheckAsync_loop bef (f # fs) name mb s = CheckAsync_loop bef fs name mb (s1\<lparr>nm_heap := h\<rparr>)"
      using False b h(1) unfolding CheckAsync_loop.simps(2) alive s1_def by auto
    have fl: "filter (\<lambda>f. fetch_alive h f \<and> P f) fs = filter (\<lambda>f. fetch_alive (nm_heap s) f \<and> P f) fs" for P
      using fr(2) by (auto intro: filter_cong)
    have "fetch_ok fs (nm_heap (s1\<lparr>nm_heap := h\<rparr>))"
      using fr(1) by simp
    from Cons.IH [OF this, of bef] have "\<exists>h2. CheckAsync_loop bef fs name mb (s1\<lparr>nm_heap := h\<rparr>) = Inr ((s1\<lparr>nm_heap := h\<rparr>)\<lparr>nm_heap := h2,
        nm_fetch := bef @ filter (\<lambda>f. fetch_alive h f \<and> \<not> fetch_matches name f) fs,
        nm_trace := nm_trace s1 @ map (\<lambda>f. EvFetched (fe_callback f) mb) (filter (\<lambda>f. fetch_alive h f \<and> fetch_matches name f) fs)\<rparr>)"
      by simp
    then obtain h2 where IH: "CheckAsync_loop bef fs name mb (s1\<lparr>nm_heap := h\<rparr>) = Inr ((s1\<lparr>nm_heap := h\<rparr>)\<lparr>nm_heap := h2,
        nm_fetch := bef @ filter (\<lambda>f. fetch_alive h f \<and> \<not> fetch_matches name f) fs,
        nm_trace := nm_trace s1 @ map (\<lambda>f. EvFetched (fe_callback f) mb) (filter (\<lambda>f. fetch_alive h f \<and> fetch_matches name f) fs)\<rparr>)"
      by blast
    show ?thesis
      unfolding step IH fl by (rule exI [of _ h2], cases "fetch_alive (nm_heap s) f") (use False m in \<open>simp_all add: s1_def tell_def\<close>)
  qed
qed

text \<open>
  When a named mailbox comes up, exactly the pending fetches whose matcher accepts the name and whose
  linker, if they have one, is still held are completed, each once and in the order they were made, and
  leave the list together with the fetches whose linker was given up; all others stay in their order. No
  freed linker is read. Matchers are not empty.
\<close>

lemma CheckAsyncFetchList_exact:
  assumes "fetch_ok (nm_fetch s) (nm_heap s)"
  shows "\<exists>s'. CheckAsyncFetchList name mb s = Inr s' \<and>
    nm_trace s' = nm_trace s @ map (\<lambda>f. EvFetched (fe_callback f) mb)
      (filter (\<lambda>f. fetch_alive (nm_heap s) f \<and> fetch_matches name f) (nm_fetch s)) \<and>
    nm_fetch s' = filter (\<lambda>f. fetch_alive (nm_heap s) f \<and> \<not> fetch_matches name f) (nm_fetch s) \<and>
    nm_named s' = nm_named s"
proof -
  obtain h where "CheckAsync_loop [] (nm_fetch s) name mb s = Inr (s\<lparr>nm_heap := h,
        nm_fetch := [] @ filter (\<lambda>f. fetch_alive (nm_heap s) f \<and> \<not> fetch_matches name f) (nm_fetch s),
        nm_trace := nm_trace s @ map (\<lambda>f. EvFetched (fe_callback f) mb) (filter (\<lambda>f. fetch_alive (nm_heap s) f \<and> fetch_matches name f) (nm_fetch s))\<rparr>)"
    using CheckAsync_loop_ok [OF assms, of "[]"] by blast
  then show ?thesis
    by (simp add: CheckAsyncFetchList_def)
qed

definition monitor_example :: "(string \<times> mailboxid) list \<Rightarrow> fetch list \<Rightarrow> monitor" where
  "monitor_example named fs = \<lparr>nm_state = STATE_OK, nm_cf = \<lparr>cf_local = Some (node_example ''a'' ''gate'' []), cf_cookies = [], cf_nodes = []\<rparr>,
     nm_listening = False, nm_anon = [], nm_connectors = [], nm_conn = (\<lambda>_. \<lparr>co_info = None, co_required = False, co_connect = False, co_closed = False\<rparr>),
     nm_mailboxes = [], nm_mbox = (\<lambda>_. None), nm_named = named, nm_fetch = fs, nm_gen = ProcessIDGen_new, nm_calls = [], nm_cb_stop = False,
     nm_sent = [], nm_heap = objheap_empty, nm_next = 0, nm_trace = []\<rparr>"

lemma CheckAsyncFetchList_exact_witness:
  "\<exists>s'. CheckAsyncFetchList ''x'' MailboxID_NullID
      (monitor_example [] [\<lparr>fe_matcher = ''x'', fe_callback = 5, fe_linker = None\<rparr>]) = Inr s' \<and>
     nm_trace s' = [EvFetched 5 MailboxID_NullID] \<and> nm_fetch s' = []"
proof -
  have "fetch_matches ''x'' \<lparr>fe_matcher = ''x'', fe_callback = 5, fe_linker = None\<rparr>"
    using match_plain [of "''x''" "''x''"] by (simp add: fetch_matches_def)
  then show ?thesis
    using CheckAsyncFetchList_exact [of "monitor_example [] [\<lparr>fe_matcher = ''x'', fe_callback = 5, fe_linker = None\<rparr>]" "''x''" MailboxID_NullID]
    by (auto simp: monitor_example_def fetch_ok_def fetch_alive_def)
qed


section \<open>The registry of mailboxes\<close>

lemma broadcast_keeps:
  "nm_named (foldl (\<lambda>s e. Connector_SendMessage (snd e) m s) s es) = nm_named s"
  "nm_trace (foldl (\<lambda>s e. Connector_SendMessage (snd e) m s) s es) = nm_trace s"
  "nm_mailboxes (foldl (\<lambda>s e. Connector_SendMessage (snd e) m s) s es) = nm_mailboxes s"
  "nm_mbox (foldl (\<lambda>s e. Connector_SendMessage (snd e) m s) s es) = nm_mbox s"
  "nm_state (foldl (\<lambda>s e. Connector_SendMessage (snd e) m s) s es) = nm_state s"
  "nm_cf (foldl (\<lambda>s e. Connector_SendMessage (snd e) m s) s es) = nm_cf s"
  "nm_calls (foldl (\<lambda>s e. Connector_SendMessage (snd e) m s) s es) = nm_calls s"
  by (induction es arbitrary: s) (simp_all add: Connector_SendMessage_def)

lemmas broadcast_simps = BroadcastRegisterNamedMailbox_def BroadcastUnRegisterNamedMailbox_def SendRegisterNamedMailbox_def broadcast_keeps

text \<open>
  Creating a mailbox under a name that is taken fails, and the destructor of the rejected mailbox then
  removes the name from the registry and announces it as gone, although the mailbox that owns the name
  still exists: afterwards nobody finds it by name any more.
\<close>

lemma Mailbox_Create_duplicate:
  assumes "name \<noteq> []" and "name \<in> fst ` set (nm_named s)"
  shows "\<exists>s'. Mailbox_Create name sys s = Inr (None, s') \<and> name \<notin> fst ` set (nm_named s') \<and>
    nm_trace s' = nm_trace s @ [EvNamedDown name] \<and> nm_mailboxes s' = map_erase 0 (nm_mailboxes s)"
  using assms by (auto simp: Mailbox_Create_def NodeMonitor_Register_def Mailbox_delete_def NodeMonitor_UnRegister_def Let_def
      OnNamedMailboxDown_def tell_def map_erase_def broadcast_simps MailboxID_NullID_def)

lemma Mailbox_Create_duplicate_witness:
  "\<exists>s'. Mailbox_Create ''db'' False (monitor_example [(''db'', MailboxID_new 1 10001)] []) = Inr (None, s') \<and> nm_named s' = []"
proof -
  have "\<exists>s'. Mailbox_Create ''db'' False (monitor_example [(''db'', MailboxID_new 1 10001)] []) = Inr (None, s') \<and> ''db'' \<notin> fst ` set (nm_named s')"
    using Mailbox_Create_duplicate [of "''db''" "monitor_example [(''db'', MailboxID_new 1 10001)] []" False] by (auto simp: monitor_example_def)
  moreover have "nm_named s' = []" if "Mailbox_Create ''db'' False (monitor_example [(''db'', MailboxID_new 1 10001)] []) = Inr (None, s')" for s'
    using that by (auto simp: monitor_example_def Mailbox_Create_def NodeMonitor_Register_def Mailbox_delete_def NodeMonitor_UnRegister_def Let_def
      OnNamedMailboxDown_def tell_def map_erase_def broadcast_simps)
  ultimately show ?thesis by blast
qed


section \<open>The callback of the set-up\<close>

definition setups :: "monitor \<Rightarrow> nat" where
  "setups s = length (filter (\<lambda>e. e = EvSetup True \<or> e = EvSetup False) (nm_trace s))"

text \<open>An operation that neither reports a result of the set-up nor changes the state of the monitor.\<close>

definition quiet :: "monitor \<Rightarrow> monitor \<Rightarrow> bool" where
  "quiet s s' \<longleftrightarrow> setups s' = setups s \<and> nm_state s' = nm_state s"

lemma quiet_refl [simp]: "quiet s s"
  by (simp add: quiet_def)

lemma quiet_trans: "quiet s t \<Longrightarrow> quiet t u \<Longrightarrow> quiet s u"
  by (simp add: quiet_def)

lemma quiet_same: "nm_trace s' = nm_trace s \<Longrightarrow> nm_state s' = nm_state s \<Longrightarrow> quiet s s'"
  by (simp add: quiet_def setups_def)

lemma quiet_tell: "e \<noteq> EvSetup True \<Longrightarrow> e \<noteq> EvSetup False \<Longrightarrow> quiet s (tell e s)"
  by (simp add: quiet_def setups_def tell_def)

definition quietR :: "monitor \<Rightarrow> monitor result \<Rightarrow> bool" where
  "quietR s r \<longleftrightarrow> (\<forall>s'. r = Inr s' \<longrightarrow> quiet s s')"

lemma quietR_Inr [simp]: "quietR s (Inr s') = quiet s s'" "quietR s (Inl e)"
  by (simp_all add: quietR_def)

lemma quietR_bind: "quietR s m \<Longrightarrow> (\<And>s'. quiet s s' \<Longrightarrow> quietR s (f s')) \<Longrightarrow> quietR s (bindE m f)"
  by (cases m) (auto simp: quietR_def)

lemma quietR_bind_val: "(\<And>x. quietR s (f x)) \<Longrightarrow> quietR s (bindE m f)"
  by (cases m) auto

lemma quietR_trans: "quiet s t \<Longrightarrow> quietR t r \<Longrightarrow> quietR s r"
  by (auto simp: quietR_def intro: quiet_trans)

lemma quietR_if: "(b \<Longrightarrow> quietR s m) \<Longrightarrow> (\<not> b \<Longrightarrow> quietR s n) \<Longrightarrow> quietR s (if b then m else n)"
  by simp

lemma quiet_fetch_delete: "quietR s (fetch_delete f s)"
  unfolding fetch_delete_def by (rule quietR_bind_val) (auto simp: quiet_same split: prod.splits)

lemma quiet_conn_release: "quietR s (conn_release c s)"
  unfolding conn_release_def by (rule quietR_bind_val) (simp add: quiet_same)

lemma quiet_conn_close: "quiet s (conn_close c s)"
  by (simp add: conn_close_def quiet_same)

lemma quiet_CheckAsync: "quietR s (CheckAsync_loop bef fs name mb s)"
proof (induction fs arbitrary: bef s)
  case Nil
  show ?case by (simp add: quiet_same)
next
  case (Cons f fs)
  have "quiet s (tell (EvFetched (fe_callback f) mb) s)"
    by (rule quiet_tell) auto
  then have "quietR s (fetch_delete f (tell (EvFetched (fe_callback f) mb) s))"
    using quietR_trans quiet_fetch_delete by blast
  then show ?case
    unfolding CheckAsync_loop.simps(2)
    by (intro quietR_bind_val quietR_if quietR_bind [OF quiet_fetch_delete] quietR_bind [OF \<open>quietR s (fetch_delete f (tell (EvFetched (fe_callback f) mb) s))\<close>])
      (use Cons.IH quietR_trans in blast)+
qed

lemma quiet_NamedUp: "quietR s (OnNamedMailboxUp name mb s)"
proof -
  have "quiet s (s\<lparr>nm_named := map_insert name mb (nm_named s)\<rparr>)"
    by (simp add: quiet_same)
  then have "quietR s (CheckAsyncFetchList name mb (s\<lparr>nm_named := map_insert name mb (nm_named s)\<rparr>))"
    unfolding CheckAsyncFetchList_def using quiet_CheckAsync quietR_trans by blast
  then show ?thesis
    unfolding OnNamedMailboxUp_def by (rule quietR_bind) (auto intro: quiet_trans quiet_tell)
qed

lemma quiet_NamedDown: "quiet s (OnNamedMailboxDown name s)"
  unfolding OnNamedMailboxDown_def by (rule quiet_tell) auto

lemma quiet_node_down: "quiet s (node_down_loop i bef es s)"
proof (induction es arbitrary: bef s)
  case (Cons e es)
  then show ?case
    using quiet_trans [OF quiet_NamedDown Cons] by simp
qed (simp add: quiet_same)

lemma quiet_NodeDown: "quiet s (OnNodeDown n s)"
  unfolding OnNodeDown_def by (rule quiet_trans [OF quiet_node_down quiet_tell]) auto

lemma quiet_SendRegister: "quiet s (SendRegisterNamedMailbox c name mb s)"
  by (simp add: SendRegisterNamedMailbox_def Connector_SendMessage_def quiet_same)

lemma quiet_node_up: "quietR s (node_up_loop c es s)"
proof (induction es arbitrary: s)
  case (Cons e es)
  show ?case
    unfolding node_up_loop.simps by (rule quietR_bind_val) (auto intro: quietR_trans [OF quiet_SendRegister Cons] Cons)
qed simp

lemma quiet_NodeUp: "quietR s (OnNodeUp c n s)"
  unfolding OnNodeUp_def by (rule quietR_bind [OF quiet_node_up]) (auto intro: quiet_trans quiet_tell)

lemma quiet_close_anon: "quietR s (close_anon cs s)"
proof (induction cs arbitrary: s)
  case (Cons c cs)
  let ?s = "conn_close c s"
  have "quietR ?s (bindE (conn_release c ?s) (\<lambda>s2. close_anon cs (s2\<lparr>nm_anon := remove1 c (nm_anon s2)\<rparr>)))"
    by (rule quietR_bind [OF quiet_conn_release], rule quietR_trans [OF _ Cons]) (simp add: quiet_def setups_def)
  then have "quietR s (bindE (conn_release c ?s) (\<lambda>s2. close_anon cs (s2\<lparr>nm_anon := remove1 c (nm_anon s2)\<rparr>)))"
    by (rule quietR_trans [OF quiet_conn_close])
  then show ?case
    using quietR_trans [OF quiet_conn_close Cons] by (simp add: Let_def)
qed simp

lemma quiet_close_conns: "quietR s (close_conns es s)"
proof (induction es arbitrary: s)
  case (Cons e es)
  let ?s = "conn_close (snd e) s"
  have "quietR ?s (bindE (conn_release (snd e) ?s) (\<lambda>s2. close_conns es (s2\<lparr>nm_connectors := map_erase (fst e) (nm_connectors s2)\<rparr>)))"
    by (rule quietR_bind [OF quiet_conn_release], rule quietR_trans [OF _ Cons]) (simp add: quiet_def setups_def)
  then have "quietR s (bindE (conn_release (snd e) ?s) (\<lambda>s2. close_conns es (s2\<lparr>nm_connectors := map_erase (fst e) (nm_connectors s2)\<rparr>)))"
    by (rule quietR_trans [OF quiet_conn_close])
  then show ?case
    using quietR_trans [OF quiet_conn_close Cons] by (simp add: Let_def)
qed simp

lemma quiet_CloseAll: "quietR s (CloseAll s)"
proof -
  have "quietR s (close_anon (nm_anon s) (s\<lparr>nm_listening := False\<rparr>))"
    by (rule quietR_trans [OF _ quiet_close_anon]) (simp add: quiet_same)
  then show ?thesis
    unfolding CloseAll_def by (rule quietR_bind) (auto intro: quietR_trans [OF _ quiet_close_conns])
qed

text \<open>The invariant: no result before the set-up is over, and at most one result.\<close>

definition su_inv :: "monitor \<Rightarrow> bool" where
  "su_inv s \<longleftrightarrow> setups s \<le> 1 \<and> (nm_state s = IN_SETUP \<or> nm_state s = IN_ROLLBACK \<longrightarrow> setups s = 0)"

definition su_invR :: "monitor result \<Rightarrow> bool" where
  "su_invR r \<longleftrightarrow> (\<forall>s'. r = Inr s' \<longrightarrow> su_inv s')"

lemma su_quiet: "su_inv s \<Longrightarrow> quiet s s' \<Longrightarrow> su_inv s'"
  by (simp add: su_inv_def quiet_def)

lemma su_quietR: "su_inv s \<Longrightarrow> quietR s r \<Longrightarrow> su_invR r"
  by (auto simp: su_invR_def quietR_def intro: su_quiet)

lemma su_invR_bind: "su_invR m \<Longrightarrow> (\<And>s'. su_inv s' \<Longrightarrow> su_invR (f s')) \<Longrightarrow> su_invR (bindE m f)"
  by (cases m) (auto simp: su_invR_def)

lemma su_invR_Inr [simp]: "su_invR (Inr s) = su_inv s" "su_invR (Inl e)"
  by (simp_all add: su_invR_def)

lemma su_checks:
  "su_inv s \<Longrightarrow> su_inv (CheckIfAllSetup s)" "su_inv s \<Longrightarrow> su_inv (CheckIfAllRollback s)" "su_inv s \<Longrightarrow> su_inv (CheckIfAllCleanup s)"
  by (auto simp: su_inv_def setups_def CheckIfAllSetup_def CheckIfAllRollback_def CheckIfAllCleanup_def tell_def)

lemma su_rollback: "su_inv s \<Longrightarrow> nm_state s = IN_SETUP \<Longrightarrow> su_inv (s\<lparr>nm_state := IN_ROLLBACK\<rparr>)"
  by (simp add: su_inv_def setups_def)

lemma su_cleanup: "su_inv s \<Longrightarrow> su_inv (s\<lparr>nm_state := IN_CLEANUP\<rparr>)"
  by (simp add: su_inv_def setups_def)

lemma su_AuthSuccess:
  assumes "su_inv s"
  shows "su_invR (OnConnectorAuthSuccess c s)"
proof (cases "co_info (nm_conn s c)")
  case (Some n)
  let ?s = "s\<lparr>nm_connectors := nm_connectors s @ [(ni_id n, c)], nm_anon := removeAll c (nm_anon s)\<rparr>"
  have "su_inv ?s"
    using assms by (rule su_quiet) (simp add: quiet_same)
  then have "su_invR (OnNodeUp c n (CheckIfAllSetup ?s))"
    using su_quietR [OF su_checks(1) quiet_NodeUp] by blast
  moreover have "su_inv (tell EvStop s)"
    using assms by (rule su_quiet) (rule quiet_tell, auto)
  ultimately show ?thesis
    using Some by (simp add: OnConnectorAuthSuccess_def)
qed (simp add: OnConnectorAuthSuccess_def)

lemma su_AuthFail:
  assumes "su_inv s"
  shows "su_invR (OnConnectorAuthFail c s)"
proof -
  have "su_inv (s\<lparr>nm_anon := removeAll c (nm_anon s)\<rparr>)"
    using assms by (rule su_quiet) (simp add: quiet_same)
  then have 1: "su_invR (conn_release c (s\<lparr>nm_anon := removeAll c (nm_anon s)\<rparr>))"
    by (rule su_quietR) (rule quiet_conn_release)
  have 2: "su_invR (if co_required (nm_conn t c) \<and> nm_state t = IN_SETUP then CloseAll (t\<lparr>nm_state := IN_ROLLBACK\<rparr>) else Inr t)" if "su_inv t" for t
    using that su_quietR [OF su_rollback quiet_CloseAll] by simp
  have "su_invR (bindE (if co_required (nm_conn t c) \<and> nm_state t = IN_SETUP then CloseAll (t\<lparr>nm_state := IN_ROLLBACK\<rparr>) else Inr t)
      (\<lambda>s2. Inr (CheckIfAllRollback s2)))" if "su_inv t" for t
    by (rule su_invR_bind [OF 2 [OF that]]) (simp add: su_checks)
  then show ?thesis
    unfolding OnConnectorAuthFail_def by (intro su_invR_bind [OF 1]) simp
qed

lemma su_ConnectorClose:
  assumes "su_inv s"
  shows "su_invR (OnConnectorClose c s)"
proof -
  define s1 where "s1 = (case co_info (nm_conn s c) of
      Some n \<Rightarrow> OnNodeDown n (s\<lparr>nm_connectors := map_erase (ni_id n) (nm_connectors s)\<rparr>)
    | None \<Rightarrow> s\<lparr>nm_anon := removeAll c (nm_anon s)\<rparr>)"
  have "quiet s s1"
  proof (cases "co_info (nm_conn s c)")
    case (Some n)
    have "quiet s (s\<lparr>nm_connectors := map_erase (ni_id n) (nm_connectors s)\<rparr>)"
      by (simp add: quiet_same)
    then show ?thesis
      using Some quiet_trans [OF _ quiet_NodeDown] by (simp add: s1_def)
  qed (simp add: s1_def quiet_same)
  then have 1: "su_invR (conn_release c s1)"
    using assms su_quiet su_quietR quiet_conn_release by blast
  have 2: "su_invR (if nm_state t = IN_SETUP then CloseAll (t\<lparr>nm_state := IN_ROLLBACK\<rparr>) else Inr t)" if "su_inv t" for t
    using that su_quietR [OF su_rollback quiet_CloseAll] by simp
  have "su_invR (bindE (if nm_state t = IN_SETUP then CloseAll (t\<lparr>nm_state := IN_ROLLBACK\<rparr>) else Inr t)
      (\<lambda>s3. Inr (CheckIfAllRollback (CheckIfAllCleanup s3))))" if "su_inv t" for t
    by (rule su_invR_bind [OF 2 [OF that]]) (simp add: su_checks)
  then show ?thesis
    unfolding OnConnectorClose_def s1_def [symmetric] Let_def by (intro su_invR_bind [OF 1])
qed


lemma su_message:
  assumes "su_inv s"
  shows "su_invR (Connector_message c m s)"
proof -
  have close: "su_inv (conn_close c t)" if "quiet s t" for t
    using assms that su_quiet quiet_conn_close quiet_trans by blast
  have conn: "su_inv (s\<lparr>nm_conn := f\<rparr>)" "quiet s (s\<lparr>nm_conn := f\<rparr>)" for f
    using assms by (auto simp: su_inv_def setups_def quiet_def)
  have 1: "su_invR (HandleInternalMessage c m s)"
    unfolding HandleInternalMessage_def
    by (auto split: cbody.splits option.splits intro: close conn su_AuthSuccess assms)
  have down: "quiet s (OnNamedMailboxDown k (s\<lparr>nm_named := ns\<rparr>))" for k ns
    by (rule quiet_trans [OF _ quiet_NamedDown]) (simp add: quiet_same)
  have 2: "quietR s (OnConnectorReceiveMessage c m s)"
    unfolding OnConnectorReceiveMessage_def Let_def
    by (auto split: cbody.splits option.splits intro: quiet_NamedUp down quiet_tell)
  have 3: "su_invR (OnConnectorReceiveMessage c m s)"
    using su_quietR [OF assms 2] .
  show ?thesis
    unfolding Connector_message_def using 1 3 close [OF quiet_refl]
    by (auto simp: su_invR_def split: sum.splits error.splits if_splits)
qed

lemma quiet_Register:
  assumes "NodeMonitor_Register mb sys s = Inr (b, s')"
  shows "quiet s s'"
proof (cases "nm_mbox s mb")
  case (Some x)
  show ?thesis
  proof (cases "mx_name x \<noteq> [] \<and> mx_name x \<in> fst ` set (nm_named s)")
    case False
    obtain mbid s1 where g: "GenerateMailboxID sys s = Inr (mbid, s1)"
      using assms Some False by (cases "GenerateMailboxID sys s") (auto simp: NodeMonitor_Register_def)
    then have s1: "quiet s s1"
      by (auto simp: GenerateMailboxID_def bindE_eq_Inr intro: quiet_same)
    define s2 where "s2 = s1\<lparr>nm_mbox := (nm_mbox s1)(mb \<mapsto> x\<lparr>mx_mbid := mbid\<rparr>),
                nm_mailboxes := map_insert (mb_pid mbid) mb (nm_mailboxes s1)\<rparr>"
    have s2: "quiet s s2"
      by (rule quiet_trans [OF s1]) (simp add: s2_def quiet_same)
    show ?thesis
    proof (cases "mx_name x = []")
      case True
      then show ?thesis
        using assms Some g s2 by (simp add: NodeMonitor_Register_def Let_def s2_def)
    next
      case ne: False
      obtain s3 where s3: "OnNamedMailboxUp (mx_name x) mbid s2 = Inr s3" "s' = BroadcastRegisterNamedMailbox (mx_name x) mbid s3"
        using assms Some False ne g by (auto simp: NodeMonitor_Register_def Let_def s2_def bindE_eq_Inr)
      have "quiet s2 s3"
        using quiet_NamedUp [of s2 "mx_name x" mbid] s3(1) by (simp add: quietR_def)
      moreover have "quiet s3 s'"
        unfolding s3(2) by (rule quiet_same) (simp_all add: broadcast_simps)
      ultimately show ?thesis
        using s2 quiet_trans by blast
    qed
  qed (use assms Some in \<open>simp add: NodeMonitor_Register_def\<close>)
qed (use assms in \<open>simp add: NodeMonitor_Register_def\<close>)

lemma quiet_UnRegister: "quietR s (NodeMonitor_UnRegister mb s)"
  by (auto simp: NodeMonitor_UnRegister_def Let_def quiet_def setups_def OnNamedMailboxDown_def tell_def broadcast_simps split: option.splits)

lemma quiet_delete: "quietR s (Mailbox_delete mb s)"
  unfolding Mailbox_delete_def by (rule quietR_bind [OF quiet_UnRegister]) (simp add: quiet_def setups_def)

lemma quiet_Create:
  assumes "Mailbox_Create name sys s = Inr (r, s')"
  shows "quiet s s'"
proof -
  define s1 where "s1 = s\<lparr>nm_mbox := (nm_mbox s)(nm_next s \<mapsto> \<lparr>mx_mbid = MailboxID_NullID, mx_name = name\<rparr>), nm_next := nm_next s + 1\<rparr>"
  obtain ok s2 where s2: "NodeMonitor_Register (nm_next s) sys s1 = Inr (ok, s2)"
      and r: "(if ok then Inr (Some (nm_next s), s2) else bindE (Mailbox_delete (nm_next s) s2) (\<lambda>s3. Inr (None, s3))) = Inr (r, s')"
    using assms by (auto simp: Mailbox_Create_def Let_def bindE_eq_Inr s1_def)
  have "quiet s s1"
    by (simp add: s1_def quiet_same)
  then have "quiet s s2"
    using quiet_Register [OF s2] quiet_trans by blast
  moreover have "quiet s2 s'"
    using r quiet_delete [of s2 "nm_next s"] by (cases ok) (auto simp: bindE_eq_Inr quietR_def)
  ultimately show ?thesis
    using quiet_trans by blast
qed

lemma quiet_run_calls: "quiet s (run_calls cs s)"
proof (induction cs arbitrary: s)
  case (Cons c cs)
  obtain b to m where c: "c = (b, to, m)" by (cases c)
  have "quiet s (SendInternalMessageAtNextCall to m s)"
    by (auto simp: SendInternalMessageAtNextCall_def intro: quiet_tell split: option.splits)
  then show ?case
    using Cons quiet_trans by (auto simp: c)
qed simp

lemma quiet_connect_loop: "quiet s (connect_loop ls s)"
proof (induction ls arbitrary: s)
  case (Cons l ls)
  have "quiet s (snd (Connector_new (snd l) False s)\<lparr>nm_anon := as\<rparr>)" for as
    by (simp add: Connector_new_def Object_new_def quiet_def setups_def)
  then show ?case
    using Cons quiet_trans by (fastforce simp: Let_def split: prod.splits)
qed simp

text \<open>
  What can happen to the monitor after a set-up was begun with a configuration that parsed, a listener that
  was bound and links to nodes with listeners: connections come in, complete, fail, send messages and close;
  mailboxes are created and deleted and send messages; fetches are made; the executor is updated (which nothing in the
  program does); and the clean-up begins.
\<close>

inductive nm_reachable :: "monitor \<Rightarrow> bool" where
  start: "setups s0 = 0 \<Longrightarrow> cf_local cf = Some lc \<Longrightarrow> FetchLinkNodeList cf = Inr links \<Longrightarrow> \<forall>l \<in> set links. NodeInfo_HasListener (fst l) \<Longrightarrow>
     NodeMonitor_BeginSetup (True, cf) True s0 = Inr s \<Longrightarrow> nm_reachable s"
| accept: "nm_reachable s \<Longrightarrow> nm_reachable (OnListenerAccept s)"
| connected: "nm_reachable s \<Longrightarrow> Connector_OnConnect c s = Inr s' \<Longrightarrow> nm_reachable s'"
| failed: "nm_reachable s \<Longrightarrow> OnConnectorAuthFail c s = Inr s' \<Longrightarrow> nm_reachable s'"
| message: "nm_reachable s \<Longrightarrow> Connector_message c m s = Inr s' \<Longrightarrow> nm_reachable s'"
| closed: "nm_reachable s \<Longrightarrow> Connector_OnEventIOClose c s = Inr s' \<Longrightarrow> nm_reachable s'"
| create: "nm_reachable s \<Longrightarrow> Mailbox_Create name sys s = Inr (r, s') \<Longrightarrow> nm_reachable s'"
| delete: "nm_reachable s \<Longrightarrow> Mailbox_delete mb s = Inr s' \<Longrightarrow> nm_reachable s'"
| cast: "nm_reachable s \<Longrightarrow> Mailbox_Cast mb to m s = Inr s' \<Longrightarrow> nm_reachable s'"
| fetch: "nm_reachable s \<Longrightarrow> FetchNamedMailbox matcher cb s = Inr s' \<Longrightarrow> nm_reachable s'"
| update: "nm_reachable s \<Longrightarrow> nm_reachable (exe_update s)"
| cleanup: "nm_reachable s \<Longrightarrow> NodeMonitor_BeginCleanup s = Inr s' \<Longrightarrow> nm_reachable s'"

lemma su_start:
  assumes "setups s0 = 0" and "cf_local cf = Some lc" and "FetchLinkNodeList cf = Inr links"
    and "\<forall>l \<in> set links. NodeInfo_HasListener (fst l)" and "NodeMonitor_BeginSetup (True, cf) True s0 = Inr s"
  shows "su_inv s"
proof -
  let ?s = "s0\<lparr>nm_state := IN_SETUP, nm_cf := cf, nm_listening := NodeInfo_HasListener lc\<rparr>"
  have "s = CheckIfAllSetup (connect_loop links ?s)"
    using assms by (auto simp: NodeMonitor_BeginSetup_def Let_def)
  moreover have "su_inv ?s"
    using assms(1) by (simp add: su_inv_def setups_def)
  ultimately show ?thesis
    using su_checks(1) su_quiet quiet_connect_loop by blast
qed

lemma su_cleanup_begin: "su_inv s \<Longrightarrow> su_invR (NodeMonitor_BeginCleanup s)"
proof -
  assume "su_inv s"
  then have 1: "su_invR (CloseAll (s\<lparr>nm_state := IN_CLEANUP\<rparr>))"
    using su_quietR [OF su_cleanup quiet_CloseAll] by blast
  have "su_inv (t\<lparr>nm_cb_stop := True, nm_calls := cs\<rparr>)" if "su_inv t" for t cs
    using that by (simp add: su_inv_def setups_def)
  then show ?thesis
    unfolding NodeMonitor_BeginCleanup_def by (intro su_invR_bind [OF 1]) (simp add: su_checks)
qed

lemma quiet_others:
  "quiet s (OnListenerAccept s)" "quietR s (Connector_OnConnect c s)" "quietR s (Mailbox_Cast mb to m s)" "quietR s (FetchNamedMailbox matcher cb s)"
proof -
  show "quiet s (OnListenerAccept s)"
    by (simp add: OnListenerAccept_def Connector_new_def Object_new_def quiet_def setups_def)
  show "quietR s (Connector_OnConnect c s)"
    unfolding Connector_OnConnect_def by (rule quietR_bind_val) (simp add: quiet_def setups_def Connector_SendMessage_def)
  show "quietR s (Mailbox_Cast mb to m s)"
    unfolding Mailbox_Cast_def NodeMonitor_SendMessage_def
    by (auto simp: quietR_def bindE_eq_Inr quiet_def setups_def Connector_SendMessage_def split: option.splits if_splits)
  show "quietR s (FetchNamedMailbox matcher cb s)"
    unfolding FetchNamedMailbox_def
    by (rule quietR_bind_val) (auto simp: quiet_def setups_def tell_def split: option.splits)
qed

lemma su_EventIOClose:
  assumes "su_inv s"
  shows "su_invR (Connector_OnEventIOClose c s)"
proof -
  have "su_inv (s\<lparr>nm_conn := f\<rparr>)" for f
    using assms by (simp add: su_inv_def setups_def)
  then have "su_invR (if co_connect (nm_conn s c) then OnConnectorClose c (s\<lparr>nm_conn := (nm_conn s)(c := (nm_conn s c)\<lparr>co_connect := False\<rparr>)\<rparr>) else Inr s)"
    using assms su_ConnectorClose by simp
  then show ?thesis
    unfolding Connector_OnEventIOClose_def by (rule su_invR_bind) (rule su_quietR [OF _ quiet_conn_release])
qed

lemma su_exe_update: "su_inv s \<Longrightarrow> su_inv (exe_update s)"
proof -
  assume s: "su_inv s"
  then have "su_inv (s\<lparr>nm_calls := []\<rparr>)"
    by (simp add: su_inv_def setups_def)
  then show ?thesis
    using s su_quiet quiet_run_calls su_checks(3) by (auto simp: exe_update_def)
qed

lemma reachable_su_inv: "nm_reachable s \<Longrightarrow> su_inv s"
proof (induction rule: nm_reachable.induct)
  case (start s0 cf lc links s)
  then show ?case by (rule su_start)
next
  case (accept s)
  then show ?case using su_quiet quiet_others(1) by blast
next
  case (connected s c s')
  then show ?case using su_quietR [OF _ quiet_others(2)] by (metis su_invR_def)
next
  case (failed s c s')
  then show ?case using su_AuthFail by (metis su_invR_def)
next
  case (message s c m s')
  then show ?case using su_message by (metis su_invR_def)
next
  case (closed s c s')
  then show ?case using su_EventIOClose by (metis su_invR_def)
next
  case (create s name sys r s')
  then show ?case using su_quiet quiet_Create by blast
next
  case (delete s mb s')
  then show ?case using su_quietR [OF _ quiet_delete] by (metis su_invR_def)
next
  case (cast s mb to m s')
  then show ?case using su_quietR [OF _ quiet_others(3)] by (metis su_invR_def)
next
  case (fetch s matcher cb s')
  then show ?case using su_quietR [OF _ quiet_others(4)] by (metis su_invR_def)
next
  case (update s)
  then show ?case using su_exe_update by blast
next
  case (cleanup s s')
  then show ?case using su_cleanup_begin by (metis su_invR_def)
qed

text \<open>A set-up that fails while it begins.\<close>

definition setup_fails :: "bool \<times> configure \<Rightarrow> bool \<Rightarrow> bool" where
  "setup_fails parsed bound \<longleftrightarrow> \<not> fst parsed \<or> (\<exists>lc. cf_local (snd parsed) = Some lc \<and> NodeInfo_HasListener lc \<and> \<not> bound) \<or>
     (\<exists>links. FetchLinkNodeList (snd parsed) = Inr links \<and> (\<exists>l \<in> set links. \<not> NodeInfo_HasListener (fst l)))"

lemma connect_loop_mono: "length (nm_anon s) \<le> length (nm_anon (connect_loop ls s))"
proof (induction ls arbitrary: s)
  case (Cons l ls)
  obtain c t where n: "Connector_new (snd l) False s = (c, t)" by fastforce
  then have "nm_anon t = nm_anon s" by (auto simp: Connector_new_def Object_new_def)
  then show ?case using Cons [of "t\<lparr>nm_anon := nm_anon t @ [c]\<rparr>"] n by simp
qed simp

lemma connect_loop_anon: "nm_anon (connect_loop (l # ls) s) \<noteq> []"
proof -
  obtain c t where n: "Connector_new (snd l) False s = (c, t)" by fastforce
  then show ?thesis using connect_loop_mono [of "t\<lparr>nm_anon := nm_anon t @ [c]\<rparr>" ls] by auto
qed

lemma failed_setup:
  assumes "setups s0 = 0" and "setup_fails parsed bound" and "NodeMonitor_BeginSetup parsed bound s0 = Inr s"
  shows "setups s = 1 \<and> nm_state s = IN_SETUP"
proof -
  have one: "setups (tell (EvSetup False) t) = Suc (setups t)" "nm_state (tell e t) = nm_state t" for t e by (simp_all add: setups_def tell_def)
  have zero: "setups (s0\<lparr>nm_state := IN_SETUP, nm_cf := c\<rparr>) = 0" "setups (s0\<lparr>nm_state := IN_SETUP, nm_cf := c, nm_listening := l\<rparr>) = 0" for c l
    using assms(1) by (simp_all add: setups_def)
  show ?thesis
  proof (cases "\<not> fst parsed \<or> (\<exists>lc. cf_local (snd parsed) = Some lc \<and> NodeInfo_HasListener lc \<and> \<not> bound)")
    case True
    then show ?thesis using assms(3) zero by (auto simp: NodeMonitor_BeginSetup_def Let_def one split: if_splits option.splits)
  next
    case False
    then obtain links where l: "FetchLinkNodeList (snd parsed) = Inr links" "\<exists>l \<in> set links. \<not> NodeInfo_HasListener (fst l)" using assms(2) by (auto simp: setup_fails_def)
    then obtain t where t: "s = CheckIfAllSetup (connect_loop links (tell (EvSetup False) t))" "setups t = 0" "nm_state t = IN_SETUP"
      using assms(3) False zero by (auto simp: NodeMonitor_BeginSetup_def Let_def split: option.splits if_splits)
    have "nm_anon (connect_loop links (tell (EvSetup False) t)) \<noteq> []" using connect_loop_anon l(2) by (cases links) auto
    then have "s = connect_loop links (tell (EvSetup False) t)" using t(1) by (simp add: CheckIfAllSetup_def)
    then show ?thesis using t(2,3) quiet_connect_loop [of "tell (EvSetup False) t" links] one by (simp add: quiet_def)
  qed
qed



end
