(* ===== verification/Rpc.thy ===== *)
theory Rpc
  imports NodeMonitor
begin

text \<open>
  Remote procedure calls, \<open>base/cluster/rpcstub.h\<close>, \<open>rpcstub.cpp\<close>, \<open>rpcservice.h\<close> and \<open>rpcservice.cpp\<close>, over the
  mailboxes of the node monitor. A callback of the caller is its identity; which callbacks ran with which
  reply is part of the stub. What a service answers is an argument. Theorem: a call to a service on another node
  is delivered and answered over the connectors, and the answer runs exactly the callback of that call, once.
\<close>

section \<open>Model\<close>

record rpccall =
  ca_fun :: nat
  ca_linker :: "oid option"

record stub =
  st_mailbox :: "oid option"
  st_session :: "16 word"
  st_service :: mailboxid
  st_name :: string
  st_calls :: "(16 word \<times> rpccall) list"
  st_ready :: nat
  st_ran :: "(nat \<times> cmsg) list"

definition RpcStub_new :: "string \<Rightarrow> stub" where
  "RpcStub_new name = \<lparr>st_mailbox = None, st_session = 0, st_service = MailboxID_NullID, st_name = name, st_calls = [], st_ready = 0, st_ran = []\<rparr>"

definition RpcStub_GenSessionID :: "stub \<Rightarrow> 16 word \<times> stub" where
  "RpcStub_GenSessionID st = (let ret = st_session st; c1 = st_session st + 1 in
     if ret = 0 then (c1, st\<lparr>st_session := c1 + 1\<rparr>) else (ret, st\<lparr>st_session := c1\<rparr>))"

text \<open>\<open>fetch_id\<close> names the callback \<open>OnServiceUp\<close> of this stub among the fetches of the monitor.\<close>

definition RpcStub_BeginSetup :: "nat \<Rightarrow> stub \<times> monitor \<Rightarrow> (bool \<times> stub \<times> monitor) result" where
  "RpcStub_BeginSetup fetch_id s = bindE (Mailbox_Create [] False (snd s)) (\<lambda>(mb, s1).
     let st = (fst s)\<lparr>st_mailbox := mb\<rparr> in
     if mb = None then Inr (False, st, s1)
     else bindE (FetchNamedMailbox (st_name st) fetch_id s1) (\<lambda>s2. Inr (True, st, s2)))"

definition RpcStub_OnServiceUp :: "mailboxid \<Rightarrow> stub \<Rightarrow> stub" where
  "RpcStub_OnServiceUp mb st = st\<lparr>st_service := mb, st_ready := st_ready st + 1\<rparr>"

definition stub_cast :: "cmsg \<Rightarrow> stub \<times> monitor \<Rightarrow> monitor result" where
  "stub_cast m s = (case st_mailbox (fst s) of None \<Rightarrow> Inl NullDeref | Some mb \<Rightarrow> Mailbox_Cast mb (st_service (fst s)) m (snd s))"

definition RpcCall_copy :: "rpccall \<Rightarrow> objheap \<Rightarrow> objheap result" where
  "RpcCall_copy c h = (case ca_linker c of None \<Rightarrow> Inr h | Some l \<Rightarrow> Object_Retain l h)"

definition RpcCall_destroy :: "rpccall \<Rightarrow> objheap \<Rightarrow> objheap result" where
  "RpcCall_destroy c h = bindE (SAFE_RELEASE (ca_linker c) h) (\<lambda>(_, h'). Inr h')"

text \<open>
  \<open>calls_.insert(make_pair(session, call))\<close>: the pair holds a copy of the call, the map another one if the
  key is new, and the pair is destroyed.
\<close>

definition calls_insert :: "16 word \<Rightarrow> rpccall \<Rightarrow> stub \<times> objheap \<Rightarrow> (stub \<times> objheap) result" where
  "calls_insert k c s = bindE (RpcCall_copy c (snd s)) (\<lambda>h1.
     if k \<in> fst ` set (st_calls (fst s)) then bindE (RpcCall_destroy c h1) (\<lambda>h2. Inr (fst s, h2))
     else bindE (RpcCall_copy c h1) (\<lambda>h2. bindE (RpcCall_destroy c h2) (\<lambda>h3.
       Inr ((fst s)\<lparr>st_calls := st_calls (fst s) @ [(k, c)]\<rparr>, h3))))"

definition stub_call :: "cmsg \<Rightarrow> rpccall \<Rightarrow> stub \<times> monitor \<Rightarrow> (stub \<times> monitor) result" where
  "stub_call m c s = (let (k, st) = RpcStub_GenSessionID (fst s) in
     bindE (calls_insert k c (st, nm_heap (snd s))) (\<lambda>(st1, h1).
     bindE (stub_cast (m\<lparr>ms_session := k\<rparr>) (st1, (snd s)\<lparr>nm_heap := h1\<rparr>)) (\<lambda>s2.
     bindE (RpcCall_destroy c (nm_heap s2)) (\<lambda>h2. Inr (st1, s2\<lparr>nm_heap := h2\<rparr>)))))"

definition RpcStub_Call :: "cmsg \<Rightarrow> nat \<Rightarrow> stub \<times> monitor \<Rightarrow> (oid \<times> stub \<times> monitor) result" where
  "RpcStub_Call m cb s = (let (l, h) = Object_new (nm_heap (snd s)) in
     bindE (stub_call m \<lparr>ca_fun = cb, ca_linker = Some l\<rparr> (fst s, (snd s)\<lparr>nm_heap := h\<rparr>)) (\<lambda>s'. Inr (l, s')))"

definition RpcStub_CallWithoutLinker :: "cmsg \<Rightarrow> nat \<Rightarrow> stub \<times> monitor \<Rightarrow> (stub \<times> monitor) result" where
  "RpcStub_CallWithoutLinker m cb s = stub_call m \<lparr>ca_fun = cb, ca_linker = None\<rparr> s"

definition RpcStub_Cast :: "cmsg \<Rightarrow> stub \<times> monitor \<Rightarrow> (stub \<times> monitor) result" where
  "RpcStub_Cast m s = bindE (stub_cast (m\<lparr>ms_session := 0\<rparr>) s) (\<lambda>s'. Inr (fst s, s'))"

definition RpcStub_OnMessageReceive :: "cmsg \<Rightarrow> stub \<times> monitor \<Rightarrow> (stub \<times> monitor) result" where
  "RpcStub_OnMessageReceive m s = (case map_of (st_calls (fst s)) (ms_session m) of None \<Rightarrow> Inr s
     | Some c \<Rightarrow>
        bindE (case ca_linker c of None \<Rightarrow> Inr True
               | Some l \<Rightarrow> bindE (Object_reference_count l (nm_heap (snd s))) (\<lambda>n. Inr (n = 2))) (\<lambda>run.
        let st1 = (if run then (fst s)\<lparr>st_ran := st_ran (fst s) @ [(ca_fun c, m)]\<rparr> else fst s) in
        bindE (RpcCall_destroy c (nm_heap (snd s))) (\<lambda>h.
          Inr (st1\<lparr>st_calls := map_erase (ms_session m) (st_calls st1)\<rparr>, (snd s)\<lparr>nm_heap := h\<rparr>))))"

record service =
  sv_mailbox :: "oid option"
  sv_name :: string
  sv_sys :: bool

definition RpcService_Setup :: "bool \<Rightarrow> service \<times> monitor \<Rightarrow> (bool \<times> service \<times> monitor) result" where
  "RpcService_Setup on_setup s = bindE (Mailbox_Create (sv_name (fst s)) (sv_sys (fst s)) (snd s)) (\<lambda>(mb, s1).
     Inr (mb \<noteq> None \<and> on_setup, (fst s)\<lparr>sv_mailbox := mb\<rparr>, s1))"

definition RpcService_Reply :: "mailboxid \<Rightarrow> 16 word \<Rightarrow> cmsg \<Rightarrow> service \<times> monitor \<Rightarrow> monitor result" where
  "RpcService_Reply frm session m s = (case sv_mailbox (fst s) of None \<Rightarrow> Inl NullDeref
     | Some mb \<Rightarrow> Mailbox_Cast mb frm (m\<lparr>ms_session := session\<rparr>) (snd s))"

text \<open>\<open>on_call\<close> and \<open>on_cast\<close> are the virtual functions of the service; a call is answered with \<open>Reply\<close> or not.\<close>

definition RpcService_OnMessageReceive ::
  "(cmsg \<Rightarrow> cmsg option) \<Rightarrow> (cmsg \<Rightarrow> monitor \<Rightarrow> monitor) \<Rightarrow> cmsg \<Rightarrow> service \<times> monitor \<Rightarrow> monitor result" where
  "RpcService_OnMessageReceive on_call on_cast m s =
     (if ms_session m \<noteq> 0 then
        (case on_call m of None \<Rightarrow> Inr (snd s) | Some r \<Rightarrow> RpcService_Reply (ms_from m) (ms_session m) r s)
      else Inr (on_cast m (snd s)))"

section \<open>Sessions and linkers\<close>

lemma GenSessionID_nonzero: "fst (RpcStub_GenSessionID st) \<noteq> 0"
  by (auto simp: RpcStub_GenSessionID_def Let_def)

text \<open>A session id that is still in use: the new call is dropped and the linker it returns is already freed.\<close>

lemma RpcStub_Call_collision:
  assumes "fst (RpcStub_GenSessionID st) \<in> fst ` set (st_calls st)" and "st_mailbox st = Some mb" and "nm_mbox s mb = Some x"
    and "cf_local (nm_cf s) = Some n"
  shows "\<exists>l st' s'. RpcStub_Call m cb (st, s) = Inr (l, st', s') \<and> st_calls st' = st_calls st \<and> rc (nm_heap s') l = None"
proof -
  obtain k st1 where g: "RpcStub_GenSessionID st = (k, st1)" by fastforce
  then have st1: "st_calls st1 = st_calls st" "st_mailbox st1 = st_mailbox st" "k \<in> fst ` set (st_calls st1)"
    using assms(1) by (auto simp: RpcStub_GenSessionID_def Let_def split: if_splits)
  define c where "c = \<lparr>ca_fun = cb, ca_linker = Some (obj_next (nm_heap s))\<rparr>"
  define h where "h = snd (Object_new (nm_heap s))"
  have h: "rc h (obj_next (nm_heap s)) = Some 1" "Object_new (nm_heap s) = (obj_next (nm_heap s), h)"
    by (simp_all add: h_def Object_new_def)
  have two: "0 < (2::nat) - 1" by simp
  obtain h1 where h1: "calls_insert k c (st1, h) = Inr (st1, h1)" "rc h1 (obj_next (nm_heap s)) = Some 1"
    using st1(3) h(1) two by (auto simp: calls_insert_def RpcCall_copy_def RpcCall_destroy_def c_def Object_Retain_def SAFE_RELEASE_def Object_Release_def Let_def)
  have send: "\<exists>s2. NodeMonitor_SendMessage q t = Inr s2 \<and> nm_heap s2 = nm_heap t" if "cf_local (nm_cf t) = Some n" for q t
    using that by (cases "ni_id n = MailboxID_nodeid (ms_to q)"; cases "FindConnectorByNodeID (MailboxID_nodeid (ms_to q)) t")
      (simp_all add: NodeMonitor_SendMessage_def IsLocalMailbox_def local_id_def Connector_SendMessage_def)
  have "\<exists>s2. stub_cast (m\<lparr>ms_session := k\<rparr>) (st1, s\<lparr>nm_heap := h1\<rparr>) = Inr s2 \<and> nm_heap s2 = h1"
    using assms(2-4) st1(2) send [of "s\<lparr>nm_heap := h1\<rparr>" "m\<lparr>ms_session := k, ms_from := mx_mbid x, ms_to := st_service st1\<rparr>"]
    by (simp add: stub_cast_def Mailbox_Cast_def)
  then obtain s2 where s2: "stub_cast (m\<lparr>ms_session := k\<rparr>) (st1, s\<lparr>nm_heap := h1\<rparr>) = Inr s2" "nm_heap s2 = h1"
    by blast
  have "\<exists>h2. RpcCall_destroy c (nm_heap s2) = Inr h2 \<and> rc h2 (obj_next (nm_heap s)) = None"
    using h1(2) s2(2) by (simp add: RpcCall_destroy_def c_def SAFE_RELEASE_def Object_Release_def Object_delete_def Let_def)
  then show ?thesis
    using g h(2) h1(1) s2(1) st1(1) by (auto simp: RpcStub_Call_def stub_call_def c_def)
qed

section \<open>A call between two nodes\<close>

text \<open>A mailbox of the node of the monitor, with an address that survives the wire and is not null.\<close>

definition registered :: "monitor \<Rightarrow> oid \<Rightarrow> mailboxid \<Rightarrow> bool" where
  "registered s mb i \<longleftrightarrow> (\<exists>x. nm_mbox s mb = Some x \<and> mx_mbid x = i) \<and> map_of (nm_mailboxes s) (mb_pid i) = Some mb \<and>
     (\<exists>n. cf_local (nm_cf s) = Some n \<and> MailboxID_nodeid i = ni_id n) \<and> mb_nodeid i < 256 \<and> mb_pid i < 16777216 \<and> MailboxID_bool i"

lemma Cast_remote:
  assumes "registered s mb i" and "registered t mb' j" and "MailboxID_nodeid i \<noteq> MailboxID_nodeid j" and "FindConnectorByNodeID (MailboxID_nodeid j) s = Some c"
  shows "Mailbox_Cast mb j m s = Inr (s\<lparr>nm_sent := nm_sent s @ [(c, m\<lparr>ms_from := i, ms_to := j\<rparr>)]\<rparr>)"
proof -
  obtain x n where "nm_mbox s mb = Some x" "mx_mbid x = i" "cf_local (nm_cf s) = Some n" "ni_id n \<noteq> MailboxID_nodeid j"
    using assms(1,3) by (auto simp: registered_def)
  moreover have "MailboxID_Parse (MailboxID_ValueID i) = i" "MailboxID_Parse (MailboxID_ValueID j) = j" using assms(1,2) by (simp_all add: registered_def mailbox_fits)
  ultimately show ?thesis
    using assms(4) by (simp add: Mailbox_Cast_def NodeMonitor_SendMessage_def IsLocalMailbox_def local_id_def Connector_SendMessage_def on_wire_def)
qed

lemma message_delivered:
  assumes "registered s mb i" and "ms_to m = i"
  shows "Connector_message c m s = Inr (tell (EvDelivered mb m) s)"
  using assms by (simp add: registered_def Connector_message_def OnConnectorReceiveMessage_def FindMailboxByPID_def)

lemma registered_update [simp]:
  "registered (s\<lparr>nm_sent := c\<rparr>) mb i = registered s mb i" "registered (tell e s) mb i = registered s mb i" "registered (s\<lparr>nm_trace := tr\<rparr>) mb i = registered s mb i"
  "registered (s\<lparr>nm_heap := h\<rparr>) mb i = registered s mb i"
  by (simp_all add: registered_def tell_def)

lemma stub_call_plain:
  assumes "RpcStub_GenSessionID st = (k, st1)" and "k \<notin> fst ` set (st_calls st)" and "st_mailbox st = Some a"
    and "registered s a i" and "registered t b (st_service st)" and "MailboxID_nodeid i \<noteq> MailboxID_nodeid (st_service st)"
    and "FindConnectorByNodeID (MailboxID_nodeid (st_service st)) s = Some c"
  shows "RpcStub_CallWithoutLinker m cb (st, s) =
    Inr (st1\<lparr>st_calls := st_calls st @ [(k, \<lparr>ca_fun = cb, ca_linker = None\<rparr>)]\<rparr>,
      s\<lparr>nm_sent := nm_sent s @ [(c, m\<lparr>ms_session := k, ms_from := i, ms_to := st_service st\<rparr>)]\<rparr>)"
proof -
  have st1: "st_calls st1 = st_calls st" "st_mailbox st1 = Some a" "st_service st1 = st_service st"
    using assms(1,3) by (auto simp: RpcStub_GenSessionID_def Let_def split: if_splits)
  have "s\<lparr>nm_heap := nm_heap s\<rparr> = s" by simp
  then show ?thesis
    using assms(1,2) st1 Cast_remote [OF assms(4,5,6,7), of "m\<lparr>ms_session := k\<rparr>"]
    by (simp add: RpcStub_CallWithoutLinker_def stub_call_def calls_insert_def RpcCall_copy_def RpcCall_destroy_def SAFE_RELEASE_def stub_cast_def)
qed

lemma answer_runs:
  assumes "map_of (st_calls st) (ms_session m) = Some \<lparr>ca_fun = cb, ca_linker = None\<rparr>"
  shows "RpcStub_OnMessageReceive m (st, s) =
    Inr (st\<lparr>st_ran := st_ran st @ [(cb, m)], st_calls := map_erase (ms_session m) (st_calls st)\<rparr>, s)"
  using assms by (simp add: RpcStub_OnMessageReceive_def RpcCall_destroy_def SAFE_RELEASE_def Let_def)

lemma answer_unknown: "ms_session m \<notin> fst ` set (st_calls st) \<Longrightarrow> RpcStub_OnMessageReceive m (st, s) = Inr (st, s)"
  by (simp add: RpcStub_OnMessageReceive_def map_of_eq_None_iff [symmetric])

text \<open>
  C12. A remote procedure call without a linker from a mailbox of one node to a service on another, over the connectors the monitors keep for each other, with a
  session id that is not in use. The call sends exactly one message on the connector of the service's node: the request with the caller's address and a session id
  that is not 0, and the stub keeps the call under it. When the message arrives at the other node, in any state of its monitor \<open>t\<close>, it is delivered to exactly the mailbox of the service,
  and a service that answers sends exactly one message on the connector of the caller's node. When that arrives at the caller, in any later state \<open>s'\<close> of its
  monitor and \<open>st'\<close> of the stub that still has the mailbox and the call, it is delivered to the caller's mailbox; the stub runs exactly the
  callback of that call with exactly that reply and forgets the call, so that a second reply under the session id runs nothing.
\<close>

theorem rpc_roundtrip:
  assumes "registered s a i" and "registered t b (st_service st)" and "st_mailbox st = Some a" and "sv_mailbox sv = Some b"
    and "MailboxID_nodeid i \<noteq> MailboxID_nodeid (st_service st)"
    and "FindConnectorByNodeID (MailboxID_nodeid (st_service st)) s = Some c" and "FindConnectorByNodeID (MailboxID_nodeid i) t = Some d"
    and "fst (RpcStub_GenSessionID st) \<notin> fst ` set (st_calls st)" and "\<And>q. ms_body q = ms_body m \<Longrightarrow> ms_code q = ms_code m \<Longrightarrow> on_call q = Some r"
  shows "\<exists>k st1 s1 req t1 t2 rep. k \<noteq> 0 \<and>
    RpcStub_CallWithoutLinker m cb (st, s) = Inr (st1, s1) \<and> nm_sent s1 = nm_sent s @ [(c, req)] \<and> nm_calls s1 = nm_calls s \<and> registered s1 a i \<and>
    st_calls st1 = st_calls st @ [(k, \<lparr>ca_fun = cb, ca_linker = None\<rparr>)] \<and> st_ran st1 = st_ran st \<and>
    ms_body req = ms_body m \<and> ms_code req = ms_code m \<and> ms_from req = i \<and> ms_to req = st_service st \<and> ms_session req = k \<and>
    Connector_message d req t = Inr t1 \<and> nm_trace t1 = nm_trace t @ [EvDelivered b req] \<and>
    RpcService_OnMessageReceive on_call on_cast req (sv, t1) = Inr t2 \<and> nm_sent t2 = nm_sent t @ [(d, rep)] \<and> nm_trace t2 = nm_trace t1 \<and>
    ms_body rep = ms_body r \<and> ms_code rep = ms_code r \<and> ms_from rep = st_service st \<and> ms_to rep = i \<and> ms_session rep = k \<and>
    (\<forall>s' st'. registered s' a i \<longrightarrow> map_of (st_calls st') k = Some \<lparr>ca_fun = cb, ca_linker = None\<rparr> \<longrightarrow>
      (\<exists>s2 st2. Connector_message c rep s' = Inr s2 \<and> nm_trace s2 = nm_trace s' @ [EvDelivered a rep] \<and>
        RpcStub_OnMessageReceive rep (st', s2) = Inr (st2, s2) \<and> st_ran st2 = st_ran st' @ [(cb, rep)] \<and> st_calls st2 = map_erase k (st_calls st') \<and>
        (\<forall>x. RpcStub_OnMessageReceive rep (st2, x) = Inr (st2, x)))) \<and>
    map_of (st_calls st1) k = Some \<lparr>ca_fun = cb, ca_linker = None\<rparr> \<and> map_erase k (st_calls st1) = st_calls st"
proof -
  obtain k st0 where g: "RpcStub_GenSessionID st = (k, st0)" by fastforce
  have k: "k \<noteq> 0" "k \<notin> fst ` set (st_calls st)"
    using GenSessionID_nonzero [of st] assms(8) g by auto
  have st0: "st_ran st0 = st_ran st"
    using g by (auto simp: RpcStub_GenSessionID_def Let_def split: if_splits)
  define st1 where "st1 = st0\<lparr>st_calls := st_calls st @ [(k, \<lparr>ca_fun = cb, ca_linker = None\<rparr>)]\<rparr>"
  define req where "req = m\<lparr>ms_session := k, ms_from := i, ms_to := st_service st\<rparr>"
  define s1 where "s1 = s\<lparr>nm_sent := nm_sent s @ [(c, req)]\<rparr>"
  have call: "RpcStub_CallWithoutLinker m cb (st, s) = Inr (st1, s1)"
    using stub_call_plain [OF g k(2) assms(3,1,2,5,6)] by (simp add: st1_def s1_def req_def)
  define t1 where "t1 = tell (EvDelivered b req) t"
  have arrive: "Connector_message d req t = Inr t1"
    using message_delivered [OF assms(2)] by (simp add: t1_def req_def)
  define rep where "rep = r\<lparr>ms_session := k, ms_from := st_service st, ms_to := i\<rparr>"
  define t2 where "t2 = t1\<lparr>nm_sent := nm_sent t1 @ [(d, rep)]\<rparr>"
  have "Mailbox_Cast b i (r\<lparr>ms_session := k\<rparr>) t1 = Inr t2"
    using Cast_remote [of t1 b "st_service st" s a i d "r\<lparr>ms_session := k\<rparr>"] assms(1,2,5,7) by (simp add: t1_def t2_def rep_def FindConnectorByNodeID_def tell_def)
  moreover have "on_call req = Some r"
    using assms(9) by (simp add: req_def)
  ultimately have answered: "RpcService_OnMessageReceive on_call on_cast req (sv, t1) = Inr t2"
    using k(1) assms(4) by (simp add: RpcService_OnMessageReceive_def RpcService_Reply_def req_def)
  have returned: "\<exists>s2 st2. Connector_message c rep s' = Inr s2 \<and> nm_trace s2 = nm_trace s' @ [EvDelivered a rep] \<and>
      RpcStub_OnMessageReceive rep (st', s2) = Inr (st2, s2) \<and> st_ran st2 = st_ran st' @ [(cb, rep)] \<and> st_calls st2 = map_erase k (st_calls st') \<and>
      (\<forall>x. RpcStub_OnMessageReceive rep (st2, x) = Inr (st2, x))"
    if "registered s' a i" "map_of (st_calls st') k = Some \<lparr>ca_fun = cb, ca_linker = None\<rparr>" for s' st'
    using message_delivered [OF that(1), of rep c] answer_runs [of st' rep cb] that(2)
    by (simp add: rep_def tell_def answer_unknown map_erase_def image_iff)
  have kept: "map_of (st_calls st1) k = Some \<lparr>ca_fun = cb, ca_linker = None\<rparr>"
    using k(2) map_of_eq_None_iff [of "st_calls st" k] by (simp add: st1_def map_add_def)
  have erased: "map_erase k (st_calls st1) = st_calls st"
    using k(2) by (auto simp: st1_def map_erase_def filter_id_conv rev_image_eqI)
  have sides: "nm_sent s1 = nm_sent s @ [(c, req)]" "nm_calls s1 = nm_calls s" "registered s1 a i" "st_calls st1 = st_calls st @ [(k, \<lparr>ca_fun = cb, ca_linker = None\<rparr>)]"
      "st_ran st1 = st_ran st" "nm_trace t1 = nm_trace t @ [EvDelivered b req]" "nm_sent t2 = nm_sent t @ [(d, rep)]" "nm_trace t2 = nm_trace t1"
    using assms(1) st0 by (simp_all add: s1_def st1_def t2_def t1_def tell_def)
  have fields: "ms_body req = ms_body m" "ms_code req = ms_code m" "ms_from req = i" "ms_to req = st_service st" "ms_session req = k"
      "ms_body rep = ms_body r" "ms_code rep = ms_code r" "ms_from rep = st_service st" "ms_to rep = i" "ms_session rep = k"
    by (simp_all add: req_def rep_def)
  show ?thesis
    by (rule exI [of _ k], rule exI [of _ st1], rule exI [of _ s1], rule exI [of _ req], rule exI [of _ t1], rule exI [of _ t2], rule exI [of _ rep])
      (intro conjI allI impI k(1) call arrive answered kept erased sides fields; rule returned; assumption)
qed

text \<open>The witness: a stub in mailbox 7 of node 1 calls a service in mailbox 8 of node 2.\<close>

definition rpc_monitor :: "8 word \<Rightarrow> 32 word \<Rightarrow> 8 word \<times> oid \<Rightarrow> monitor" where
  "rpc_monitor i pid conn = \<lparr>nm_state = STATE_OK, nm_cf = \<lparr>cf_local = Some ((node_example ''a'' ''gate'' [])\<lparr>ni_id := i\<rparr>), cf_cookies = [], cf_nodes = []\<rparr>,
     nm_listening = False, nm_anon = [], nm_connectors = [conn], nm_conn = (\<lambda>_. \<lparr>co_info = None, co_required = False, co_connect = True, co_closed = False\<rparr>),
     nm_mailboxes = [(pid, 0)], nm_mbox = [0 \<mapsto> \<lparr>mx_mbid = MailboxID_new i pid, mx_name = []\<rparr>],
     nm_named = [], nm_fetch = [], nm_gen = ProcessIDGen_new, nm_calls = [], nm_cb_stop = False,
     nm_sent = [], nm_heap = objheap_empty, nm_next = 6, nm_trace = []\<rparr>"

theorem rpc_roundtrip_witness:
  "\<exists>st1 s1 req t1 t2 rep s2 st2. RpcStub_CallWithoutLinker (cmsg_new 9 (BUser [1])) 4
     ((RpcStub_new ''x'')\<lparr>st_mailbox := Some 0, st_service := MailboxID_new 2 8\<rparr>, rpc_monitor 1 7 (2, 4)) = Inr (st1, s1) \<and> nm_sent s1 = [(4, req)] \<and>
   Connector_message 5 req (rpc_monitor 2 8 (1, 5)) = Inr t1 \<and>
   RpcService_OnMessageReceive (\<lambda>_. Some (cmsg_new 9 (BUser [2]))) (\<lambda>_ s. s) req (\<lparr>sv_mailbox = Some 0, sv_name = [], sv_sys = False\<rparr>, t1) = Inr t2 \<and> nm_sent t2 = [(5, rep)] \<and>
   Connector_message 4 rep s1 = Inr s2 \<and> RpcStub_OnMessageReceive rep (st1, s2) = Inr (st2, s2) \<and> st_ran st2 = [(4, rep)] \<and> ms_body rep = BUser [2] \<and> st_calls st2 = []"
proof -
  let ?st = "(RpcStub_new ''x'')\<lparr>st_mailbox := Some 0, st_service := MailboxID_new 2 8\<rparr>"
  let ?s = "rpc_monitor 1 7 (2, 4)" and ?t = "rpc_monitor 2 8 (1, 5)"
  have "registered ?s 0 (MailboxID_new 1 7)" "registered ?t 0 (st_service ?st)" "MailboxID_nodeid (MailboxID_new 1 7) \<noteq> MailboxID_nodeid (st_service ?st)"
      "FindConnectorByNodeID (MailboxID_nodeid (st_service ?st)) ?s = Some 4" "FindConnectorByNodeID (MailboxID_nodeid (MailboxID_new 1 7)) ?t = Some 5"
      "nm_sent ?s = []" "nm_sent ?t = []"
    by (simp_all add: registered_def rpc_monitor_def MailboxID_new_def MailboxID_nodeid_def MailboxID_bool_def node_example_def FindConnectorByNodeID_def)
  moreover have "st_mailbox ?st = Some 0" "fst (RpcStub_GenSessionID ?st) \<notin> fst ` set (st_calls ?st)" "st_calls ?st = []" "st_ran ?st = []"
    by (simp_all add: RpcStub_new_def)
  ultimately obtain k st1 s1 req t1 t2 rep where
      "RpcStub_CallWithoutLinker (cmsg_new 9 (BUser [1])) 4 (?st, ?s) = Inr (st1, s1)" "nm_sent s1 = [(4, req)]" "registered s1 0 (MailboxID_new 1 7)" "st_ran st1 = []"
      "Connector_message 5 req ?t = Inr t1"
      "RpcService_OnMessageReceive (\<lambda>_. Some (cmsg_new 9 (BUser [2]))) (\<lambda>_ s. s) req (\<lparr>sv_mailbox = Some 0, sv_name = [], sv_sys = False\<rparr>, t1) = Inr t2" "nm_sent t2 = [(5, rep)]"
      "ms_body rep = BUser [2]" and
      returned: "\<forall>s' st'. registered s' 0 (MailboxID_new 1 7) \<longrightarrow> map_of (st_calls st') k = Some \<lparr>ca_fun = 4, ca_linker = None\<rparr> \<longrightarrow>
        (\<exists>s2 st2. Connector_message 4 rep s' = Inr s2 \<and> nm_trace s2 = nm_trace s' @ [EvDelivered 0 rep] \<and>
          RpcStub_OnMessageReceive rep (st', s2) = Inr (st2, s2) \<and> st_ran st2 = st_ran st' @ [(4, rep)] \<and> st_calls st2 = map_erase k (st_calls st') \<and>
          (\<forall>x. RpcStub_OnMessageReceive rep (st2, x) = Inr (st2, x)))" and
      "map_of (st_calls st1) k = Some \<lparr>ca_fun = 4, ca_linker = None\<rparr>" "map_erase k (st_calls st1) = []"
    using rpc_roundtrip [of ?s 0 "MailboxID_new 1 7" ?t 0 ?st "\<lparr>sv_mailbox = Some 0, sv_name = [], sv_sys = False\<rparr>" 4 5
        "cmsg_new 9 (BUser [1])" "\<lambda>_. Some (cmsg_new 9 (BUser [2]))" "cmsg_new 9 (BUser [2])" 4 "\<lambda>_ s. s"]
    by (force simp: cmsg_new_def)
  moreover from returned this(3,10) obtain s2 st2 where "Connector_message 4 rep s1 = Inr s2" "RpcStub_OnMessageReceive rep (st1, s2) = Inr (st2, s2)"
      "st_ran st2 = st_ran st1 @ [(4, rep)]" "st_calls st2 = map_erase k (st_calls st1)" by blast
  ultimately show ?thesis by (intro exI conjI) (assumption | simp)+
qed

end
