(* ===== verification/ClusterStream.thy ===== *)
theory ClusterStream
  imports UserClient NodeMonitor
begin

text \<open>
  The bytes under the node monitor: \<open>Connector::OnReceive\<close>, \<open>HandleInternalMessage\<close>, \<open>OnConnect\<close> and \<open>SendMessage\<close> of
  \<open>base/cluster/nodemonitor.cpp\<close>, over the network client and the packets. The theory of the node monitor starts where
  a message has been cut out of the stream; here it is cut out, its head is read, and the authentication message is read
  from its bytes. Theorems: every complete message of the stream is handled once and in order, also after an
  exception has closed the connection; a length field below sixteen blocks the connection for ever without closing it;
  the authentication of one node by another, from the sender's configuration over the wire to the receiver's decision.
\<close>

section \<open>Model\<close>

text \<open>
  \<open>cn_cf\<close> is the configuration of the node, \<open>cn_log\<close> the messages handled, with a flag for those given to
  \<open>HandleInternalMessage\<close>, \<open>cn_auths\<close> the number of calls of \<open>OnConnectorAuthSuccess\<close>. What the monitor does with a message
  is the subject of its own theory; \<open>recv\<close> tells whether \<open>OnConnectorReceiveMessage\<close> returns without an exception.
\<close>

record cnstate =
  cn_cf :: configure
  cn_info :: "nodeinfo option"
  cn_log :: "(bool \<times> bytes) list"
  cn_auths :: nat

definition string_of_bytes :: "bytes \<Rightarrow> string" where
  "string_of_bytes bs = map (\<lambda>b. char_of (unat b)) bs"

fun read_cookies :: "configure \<Rightarrow> nat \<Rightarrow> mem \<Rightarrow> pkt \<Rightarrow> (bool \<times> pkt) result" where
  "read_cookies cf 0 m p = Inr (False, p)"
| "read_cookies cf (Suc n) m p = bindE (PacketInBase_ReadString m p) (\<lambda>(ck, p1).
     if IsCookieAllow cf (string_of_bytes ck) then Inr (True, p1) else read_cookies cf n m p1)"

text \<open>The decision on an authentication request: \<open>passed\<close> tells whether one of the cookies is allowed.\<close>

definition Connector_decide :: "bool \<Rightarrow> 8 word \<Rightarrow> client \<times> cnstate \<Rightarrow> (client \<times> cnstate) result" where
  "Connector_decide passed nodeid s = (case s of (c, u) \<Rightarrow>
     if passed then
       (let u1 = u\<lparr>cn_info := FindNodeInfoByID (cn_cf u) nodeid\<rparr> in
        if cn_info u1 \<noteq> None then Inr (c, u1\<lparr>cn_auths := cn_auths u1 + 1\<rparr>)
        else bindE (Client_Close c) (\<lambda>c'. Inr (c', u1)))
     else bindE (Client_Close c) (\<lambda>c'. Inr (c', u)))"

definition Connector_HandleInternalMessage :: "mem \<Rightarrow> messagein \<Rightarrow> client \<times> cnstate \<Rightarrow> (client \<times> cnstate) result" where
  "Connector_HandleInternalMessage m mi s = (case s of (c, u) \<Rightarrow>
     if mi_code mi = INTERNAL_AUTH then
       bindE (PacketInBase_ReadByte m (mi_pkt mi)) (\<lambda>(nodeid, p1).
       bindE (PacketInBase_ReadUShort m p1) (\<lambda>(len, p2).
       bindE (read_cookies (cn_cf u) (unat len) m p2) (\<lambda>(passed, _). Connector_decide passed nodeid (c, u))))
     else Inr (c, u))"

text \<open>The \<open>try\<close> block: an exception closes the connection, and the loop goes on.\<close>

definition Connector_handle :: "(messagein \<Rightarrow> bool) \<Rightarrow> messagein \<Rightarrow> client \<times> mem \<times> cnstate \<Rightarrow> (client \<times> mem \<times> cnstate) result" where
  "Connector_handle recv mi s = (case s of (c, m, u) \<Rightarrow>
     let internal = (\<not> MailboxID_bool (mi_to mi) \<and> cn_info u = None);
         u1 = u\<lparr>cn_log := cn_log u @ [(internal, content m (mi_pkt mi))]\<rparr>
     in case (if internal then Connector_HandleInternalMessage m mi (c, u1)
              else if recv mi then Inr (c, u1) else Inl NoMoreData) of
          Inr (c', u') \<Rightarrow> Inr (c', m, u')
        | Inl NoMoreData \<Rightarrow> lift_close (c, m, u1)
        | Inl e \<Rightarrow> Inl e)"

text \<open>One message: popped, its head read outside the \<open>try\<close> block, handled, destroyed. \<open>ReadHead\<close> sets the two fields the constructor leaves open.\<close>

definition Connector_packet :: "(messagein \<Rightarrow> bool) \<Rightarrow> nat \<Rightarrow> client \<times> mem \<times> cnstate \<Rightarrow> (client \<times> mem \<times> cnstate) result" where
  "Connector_packet recv pktlen s = (case s of (c, m, u) \<Rightarrow>
     bindE (Client_PopReceive [] pktlen (c, m)) (\<lambda>(_, data, c1, m1).
     bindE (MessageIn_new 0 0 data) (\<lambda>mi0.
     bindE (MessageIn_ReadHead m1 mi0) (\<lambda>mi.
     bindE (Connector_handle recv mi (c1, m1, u)) (\<lambda>(c2, m2, u2).
     bindE (destroy_views (pk_data (mi_pkt mi0)) m2) (\<lambda>m3. Inr (c2, m3, u2)))))))"

function ConnReceive_loop :: "(messagein \<Rightarrow> bool) \<Rightarrow> nat \<Rightarrow> client \<times> mem \<times> cnstate \<Rightarrow> (client \<times> mem \<times> cnstate) result" where
  "ConnReceive_loop recv cnt s = (case s of (c, m, u) \<Rightarrow>
     if cnt \<ge> Message_HEAD_SIZE then
       bindE (Client_CopyReceive 4 m c) (\<lambda>(hd4, c1).
         let pktlen = le_val (overwrite (replicate 4 0) 0 hd4) in
         if pktlen \<ge> Message_HEAD_SIZE \<and> cnt \<ge> pktlen
         then bindE (Connector_packet recv pktlen (c1, m, u)) (ConnReceive_loop recv (cnt - pktlen))
         else Inr (c1, m, u))
     else Inr s)"
  by pat_completeness auto
termination
  by (relation "measure (\<lambda>(recv, cnt, s). cnt)") (auto simp: Message_HEAD_SIZE_def)

declare ConnReceive_loop.simps [simp del]

definition Connector_OnReceive :: "(messagein \<Rightarrow> bool) \<Rightarrow> nat \<Rightarrow> client \<times> mem \<times> cnstate \<Rightarrow> (client \<times> mem \<times> cnstate) result" where
  "Connector_OnReceive recv cnt s = ConnReceive_loop recv cnt s"

text \<open>\<open>SendMessage\<close>; the views fetched for sending are destroyed afterwards.\<close>

definition Connector_SendBytes :: "messageout \<Rightarrow> client \<times> mem \<Rightarrow> (messageout \<times> client \<times> mem) result" where
  "Connector_SendBytes mo s = bindE (MessageOut_WriteHead (mo, snd s)) (\<lambda>(mo1, m1).
     bindE (PacketOutBase_FetchData (mo_pkt mo1, m1)) (\<lambda>(data, m2).
     bindE (Client_PushSend data (fst s, m2)) (\<lambda>(_, c, m3).
     bindE (destroy_views data m3) (\<lambda>m4. Inr (mo1, c, m4)))))"

definition Connector_auth_message :: "8 word \<Rightarrow> string list \<Rightarrow> mem \<Rightarrow> (messageout \<times> mem) result" where
  "Connector_auth_message nodeid cookies m = bindE (MessageOut_new INTERNAL_AUTH 20 m) (\<lambda>(mo, m1).
     bindE (PacketOutBase_WriteByte nodeid (mo_pkt mo, m1)) (\<lambda>s1.
     bindE (PacketOutBase_WriteUShort (word_of_nat (length cookies)) s1) (\<lambda>s2.
     bindE (out_each PacketOutBase_WriteString (map bytes_of_string cookies) s2) (\<lambda>(p, m2).
       Inr (mo\<lparr>mo_pkt := p\<rparr>, m2)))))"

text \<open>\<open>OnConnect\<close>: the message is written and sent; the packet is destroyed at the end.\<close>

definition Connector_OnConnectBytes :: "configure \<Rightarrow> client \<times> mem \<Rightarrow> (client \<times> mem) result" where
  "Connector_OnConnectBytes cf s = (case cf_local cf of None \<Rightarrow> Inl NullDeref
     | Some n \<Rightarrow> bindE (Connector_auth_message (ni_id n) (cf_cookies cf) (snd s)) (\<lambda>(mo, m1).
         bindE (Connector_SendBytes mo (fst s, m1)) (\<lambda>(mo1, c, m2).
         bindE (destroy_views (pk_data (mo_pkt mo1)) m2) (\<lambda>m3. Inr (c, m3)))))"

definition Connector_hooks :: "(messagein \<Rightarrow> bool) \<Rightarrow> (client \<times> mem \<times> cnstate \<Rightarrow> (client \<times> mem \<times> cnstate) result)
    \<Rightarrow> (client \<times> mem \<times> cnstate \<Rightarrow> (client \<times> mem \<times> cnstate) result) \<Rightarrow> cnstate hooks" where
  "Connector_hooks recv fail close = \<lparr>
     on_connect = (\<lambda>(c, m, u). bindE (Connector_OnConnectBytes (cn_cf u) (c, m)) (\<lambda>(c', m'). Inr (c', m', u))),
     on_connect_fail = fail, on_close = close, on_receive = Connector_OnReceive recv\<rparr>"

section \<open>The messages of a byte stream\<close>

function mframes :: "bytes \<Rightarrow> bytes list \<times> bytes \<times> bool" where
  "mframes bs = (if length bs < 16 then ([], bs, False)
     else let len = le_val (take 4 bs) in
       if len < 16 then ([], bs, True)
       else if len \<le> length bs then (let (fs, rest, stalled) = mframes (drop len bs) in (take len bs # fs, rest, stalled))
       else ([], bs, False))"
  by pat_completeness auto
termination by (relation "measure length") auto

declare mframes.simps [simp del]

lemma mframes_concat: "mframes bs = (fs, rest, stalled) \<Longrightarrow> concat fs @ rest = bs"
proof (induction bs arbitrary: fs rest stalled rule: mframes.induct)
  case (1 bs)
  let ?len = "le_val (take 4 bs)"
  show ?case
  proof (cases "\<not> length bs < 16 \<and> \<not> ?len < 16 \<and> ?len \<le> length bs")
    case True
    obtain fs' r' b' where f: "mframes (drop ?len bs) = (fs', r', b')" by (metis prod_cases3)
    then have "concat fs' @ r' = drop ?len bs" using "1.IH" True by simp
    moreover have "fs = take ?len bs # fs'" "rest = r'"
      using "1.prems" True f by (auto simp: mframes.simps [of bs] Let_def)
    ultimately show ?thesis by simp
  next
    case False
    then show ?thesis using "1.prems" by (auto simp: mframes.simps [of bs] Let_def split: if_splits)
  qed
qed

lemma mframes_stalled: "mframes bs = (fs, rest, True) \<Longrightarrow> mframes (rest @ cs) = ([], rest @ cs, True)"
proof (induction bs arbitrary: fs rest rule: mframes.induct)
  case (1 bs)
  let ?len = "le_val (take 4 bs)"
  consider (bad) "\<not> length bs < 16" "?len < 16" | (ok) "\<not> length bs < 16" "\<not> ?len < 16" "?len \<le> length bs"
    using "1.prems" by (force simp: mframes.simps [of bs] Let_def split: if_splits)
  then show ?case
  proof cases
    case bad
    then have "rest = bs" using "1.prems" by (simp add: mframes.simps [of bs] Let_def)
    then show ?thesis using bad by (simp add: mframes.simps [of "bs @ cs"] Let_def)
  next
    case ok
    obtain fs' r' b' where f: "mframes (drop ?len bs) = (fs', r', b')" by (metis prod_cases3)
    then have "rest = r'" "b'" using "1.prems" ok by (auto simp: mframes.simps [of bs] Let_def)
    then show ?thesis using "1.IH" ok f by auto
  qed
qed

section \<open>Reading a message\<close>

text \<open>Reads of a packet that is not close to four gigabytes give a value or throw; nothing else happens.\<close>

definition small :: "mem \<Rightarrow> pkt \<Rightarrow> bool" where
  "small m p \<longleftrightarrow> pin_wf m p \<and> length (content m p) + 65536 < 4294967296"

definition reads_ok :: "mem \<Rightarrow> ('a \<times> pkt) result \<Rightarrow> bool" where
  "reads_ok m r \<longleftrightarrow> r = Inl NoMoreData \<or> (\<exists>v p. r = Inr (v, p) \<and> small m p)"

lemma reads_ok_return [intro]: "small m p \<Longrightarrow> reads_ok m (Inr (v, p))"
  by (simp add: reads_ok_def)

lemma reads_ok_bind:
  "reads_ok m r \<Longrightarrow> (\<And>v p. small m p \<Longrightarrow> reads_ok m (f (v, p))) \<Longrightarrow> reads_ok m (bindE r f)"
  unfolding reads_ok_def [of m r] by auto (simp add: reads_ok_def)

lemma GetByte_reads_ok: "small m p \<Longrightarrow> n < 65536 \<Longrightarrow> reads_ok m (PacketInBase_GetByte n m p)"
proof -
  assume a: "small m p" "n < 65536"
  have wf: "pin_wf m p" and pos: "pk_pos p \<le> length (content m p)" using a(1) length_content_pin [of m p] by (auto simp: small_def pin_wf_def)
  then have "pk_pos p + n < 4294967296" using a by (simp add: small_def)
  from GetByte_spec [OF wf this] show ?thesis
    using a(1) by (cases "pk_pos p + n \<le> length (content m p)") (auto simp: reads_ok_def small_def)
qed

lemma read_word_reads_ok: "small m p \<Longrightarrow> n < 65536 \<Longrightarrow> reads_ok m (read_word n m p)"
  unfolding read_word_def by (rule reads_ok_bind [OF GetByte_reads_ok]) auto

lemma ReadString_reads_ok: "small m p \<Longrightarrow> reads_ok m (PacketInBase_ReadString m p)"
  unfolding PacketInBase_ReadString_def PacketInBase_ReadUShort_def
proof (rule reads_ok_bind [OF read_word_reads_ok])
  fix v :: "16 word" and q
  assume "small m q"
  moreover have "unat v < 65536" using unsigned_less [of v, where 'a = nat] by simp
  ultimately show "reads_ok m (case (v, q) of (len, p1) \<Rightarrow> PacketInBase_GetByte (unat len) m p1)"
    by (simp add: GetByte_reads_ok)
qed auto

lemma read_cookies_reads_ok: "small m p \<Longrightarrow> reads_ok m (read_cookies cf n m p)"
proof (induction n arbitrary: p)
  case (Suc n)
  show ?case unfolding read_cookies.simps by (rule reads_ok_bind [OF ReadString_reads_ok [OF Suc.prems]]) (auto intro: Suc.IH)
qed auto

lemma decide_total:
  assumes inv: "net_inv m hs c"
  shows "\<exists>c' u'. Connector_decide passed i (c, u) = Inr (c', u') \<and> left_alone m hs c c' \<and> cn_log u' = cn_log u \<and> cn_cf u' = cn_cf u"
proof -
  obtain cc where "Client_Close c = Inr cc" "left_alone m hs c cc" using left_alone_close [OF inv] by blast
  then show ?thesis using left_alone_refl [OF inv]
    by (cases passed; cases "FindNodeInfoByID (cn_cf u) i") (simp_all add: Connector_decide_def Let_def)
qed

lemma HandleInternalMessage_total:
  assumes inv: "net_inv m hs c" and sm: "small m (mi_pkt mi)"
  shows "Connector_HandleInternalMessage m mi (c, u) = Inl NoMoreData \<or>
    (\<exists>c' u'. Connector_HandleInternalMessage m mi (c, u) = Inr (c', u') \<and> left_alone m hs c c' \<and> cn_log u' = cn_log u \<and> cn_cf u' = cn_cf u)"
proof (cases "mi_code mi = INTERNAL_AUTH")
  case True
  consider "PacketInBase_ReadByte m (mi_pkt mi) = Inl NoMoreData"
    | (a) i p1 where "PacketInBase_ReadByte m (mi_pkt mi) = Inr (i, p1)" "small m p1"
    using read_word_reads_ok [OF sm, of 1, where ?'a = 8] by (auto simp: reads_ok_def PacketInBase_ReadByte_def)
  then show ?thesis
  proof cases
    case a
    consider "PacketInBase_ReadUShort m p1 = Inl NoMoreData"
      | (b) l p2 where "PacketInBase_ReadUShort m p1 = Inr (l, p2)" "small m p2"
      using read_word_reads_ok [OF a(2), of 2, where ?'a = 16] by (auto simp: reads_ok_def PacketInBase_ReadUShort_def)
    then show ?thesis
    proof cases
      case b
      from read_cookies_reads_ok [OF b(2), of "cn_cf u" "unat l"] show ?thesis
        using True a b decide_total [OF inv, of _ i u] by (auto simp: reads_ok_def Connector_HandleInternalMessage_def)
    qed (use True a in \<open>simp add: Connector_HandleInternalMessage_def\<close>)
  qed (use True in \<open>simp add: Connector_HandleInternalMessage_def\<close>)
next
  case False
  then show ?thesis using left_alone_refl [OF inv] by (simp add: Connector_HandleInternalMessage_def)
qed

lemma handle_total:
  assumes inv: "net_inv m hs c" and sm: "small m (mi_pkt mi)"
  shows "\<exists>c' u'. Connector_handle recv mi (c, m, u) = Inr (c', m, u') \<and> left_alone m hs c c' \<and> cn_cf u' = cn_cf u \<and>
    map snd (cn_log u') = map snd (cn_log u) @ [content m (mi_pkt mi)]"
proof -
  let ?int = "\<not> MailboxID_bool (mi_to mi) \<and> cn_info u = None"
  define u1 where "u1 = u\<lparr>cn_log := cn_log u @ [(?int, content m (mi_pkt mi))]\<rparr>"
  have u1: "map snd (cn_log u1) = map snd (cn_log u) @ [content m (mi_pkt mi)]" "cn_cf u1 = cn_cf u" by (simp_all add: u1_def)
  obtain cc where cc: "lift_close (c, m, u1) = Inr (cc, m, u1)" "left_alone m hs c cc"
    using left_alone_close [OF inv] by (auto simp: lift_close_def)
  have e: "Connector_handle recv mi (c, m, u) = (case (if ?int then Connector_HandleInternalMessage m mi (c, u1)
      else if recv mi then Inr (c, u1) else Inl NoMoreData) of Inr (c', u') \<Rightarrow> Inr (c', m, u')
        | Inl NoMoreData \<Rightarrow> lift_close (c, m, u1) | Inl e \<Rightarrow> Inl e)"
    unfolding Connector_handle_def Let_def prod.case u1_def by (rule refl)
  show ?thesis
  proof (cases ?int)
    case True
    from HandleInternalMessage_total [OF inv sm, of u1] show ?thesis using e True cc u1 by auto
  next
    case False
    show ?thesis
    proof (cases "recv mi")
      case True
      then show ?thesis using e False u1 left_alone_refl [OF inv] by auto
    next
      case no: False
      then show ?thesis using e False cc u1 by auto
    qed
  qed
qed

text \<open>The head of any message of at least sixteen bytes can be read.\<close>

lemma MessageIn_ReadHead_total:
  assumes sk: "Packet_SkipTo (mi_pkt mi) 4 = Inr q" and wf: "pin_wf m q" and pos: "pk_pos q = 4"
    and len: "16 \<le> length (content m q)"
  shows "\<exists>mi'. MessageIn_ReadHead m mi = Inr mi' \<and> pin_wf m (mi_pkt mi') \<and> content m (mi_pkt mi') = content m q"
proof -
  obtain c p1 where 1: "read_word 2 m q = Inr (c :: 16 word, p1)" "advanced m q 2 p1"
    using read_word_total [OF wf, of 2] pos len by auto
  obtain f p2 where 2: "read_word 4 m p1 = Inr (f :: 32 word, p2)" "advanced m p1 4 p2"
    using read_word_total [of m p1 4] 1(2) pos len by (auto simp: advanced_def)
  obtain t p3 where 3: "read_word 4 m p2 = Inr (t :: 32 word, p3)" "advanced m p2 4 p3"
    using read_word_total [of m p2 4] 1(2) 2(2) pos len by (auto simp: advanced_def)
  obtain s p4 where 4: "read_word 2 m p3 = Inr (s :: 16 word, p4)" "advanced m p3 2 p4"
    using read_word_total [of m p3 2] 1(2) 2(2) 3(2) pos len by (auto simp: advanced_def)
  show ?thesis
    using sk 1 2 3 4 by (auto simp: MessageIn_ReadHead_def PacketInBase_ReadUShort_def PacketInBase_ReadUInt_def advanced_def)
qed

text \<open>The received views as a message.\<close>

lemma open_message:
  assumes wf: "all_wf m data" and size: "16 \<le> length (data_bytes m data)" "length (data_bytes m data) < 4294967296"
  shows "\<exists>mi0 mi. MessageIn_new 0 0 data = Inr mi0 \<and> same_views data (pk_data (mi_pkt mi0)) \<and> all_wf m (pk_data (mi_pkt mi0)) \<and>
    MessageIn_ReadHead m mi0 = Inr mi \<and> pin_wf m (mi_pkt mi) \<and> content m (mi_pkt mi) = data_bytes m data \<and>
    (\<exists>q. Packet_SkipTo (mi_pkt mi0) 4 = Inr q \<and> pin_wf m q \<and> pk_pos q = 4 \<and> content m q = data_bytes m data)"
proof -
  have bytes: "data_bytes m data = take 4 (data_bytes m data) @ drop 4 (data_bytes m data)" by simp
  have sum: "sum_list (map rm_count data) < 4294967296" using size(2) length_data_bytes [OF wf] by simp
  obtain q q' where q: "PacketInBase_new data = Inr q" "Packet_SkipTo q 4 = Inr q'" "pin_wf m q'" "pk_pos q' = 4"
      "content m q' = data_bytes m data"
    using open_reader [OF wf sum bytes] size(1) by auto
  obtain d where d: "SkipTo_loop data 0 0 = Inr (d, 0)" "same_views data d" "all_wf m d"
    using SkipTo_loop_spec [OF wf, of 0 0] by auto
  have pd: "pk_data q = d"
    using q(1) d(1) by (auto simp: PacketInBase_new_def Packet_UpdateCapacity_def Packet_new_def Packet_SkipTo_def
        Packet_UpdateSize_def assertE_def Let_def split: if_splits)
  let ?mi = "\<lparr>mi_pkt = q, mi_code = 0, mi_session = 0, mi_from = MailboxID_NullID, mi_to = MailboxID_NullID\<rparr>"
  have "MessageIn_new 0 0 data = Inr ?mi" using q(1) by (simp add: MessageIn_new_def)
  then show ?thesis using MessageIn_ReadHead_total [of ?mi q' m] q size(1) pd d by auto
qed

text \<open>A complete message at the front of the stream is popped and its head is read, and after handling its views are given back.\<close>

lemma pop_message:
  assumes inv: "net_inv m [] c" and rm: "length (all_views c []) + 2 < 4294967296"
    and len: "16 \<le> len" "len \<le> length (stream_of m c)" and cap: "length (stream_of m c) + 65536 < 4294967296"
  shows "\<exists>data c1 m1 mi0 mi q. (\<forall>u. Connector_packet recv len (c, m, u) = bindE (Connector_handle recv mi (c1, m1, u)) (\<lambda>(c2, m2, u2).
       bindE (destroy_views data m2) (\<lambda>m3. Inr (c2, m3, u2)))) \<and>
     net_inv m1 data c1 \<and> data_bytes m1 data = take len (stream_of m c) \<and> stream_of m1 c1 = drop len (stream_of m c) \<and> cl_io c1 = cl_io c \<and>
     length (all_views c1 []) \<le> length (all_views c []) \<and>
     MessageIn_ReadHead m1 mi0 = Inr mi \<and> small m1 (mi_pkt mi) \<and> content m1 (mi_pkt mi) = take len (stream_of m c) \<and>
     Packet_SkipTo (mi_pkt mi0) 4 = Inr q \<and> pin_wf m1 q \<and> pk_pos q = 4 \<and> content m1 q = take len (stream_of m c)"
proof -
  obtain n data c1 m1 where p: "Client_PopReceive [] len (c, m) = Inr (n, data, c1, m1)"
      "net_inv m1 (data @ []) c1" "data_bytes m1 data = take len (stream_of m c)"
      "stream_of m1 c1 = drop len (stream_of m c)" "cl_io c1 = cl_io c" "cl_sendq c1 = cl_sendq c" "cl_recvp c1 = cl_recvp c"
      "length (data @ cl_recvq c1) \<le> length (cl_recvq c) + 1"
    using PopReceive_spec [OF inv rm, of len] by blast
  have wf: "all_wf m1 data" using net_inv_wf [OF p(2)] by auto
  have sz: "16 \<le> length (data_bytes m1 data)" "length (data_bytes m1 data) < 4294967296" using p(3) len cap by auto
  obtain mi0 mi q where g: "MessageIn_new 0 0 data = Inr mi0" "same_views data (pk_data (mi_pkt mi0))"
      "MessageIn_ReadHead m1 mi0 = Inr mi" "pin_wf m1 (mi_pkt mi)" "content m1 (mi_pkt mi) = data_bytes m1 data"
      "Packet_SkipTo (mi_pkt mi0) 4 = Inr q" "pin_wf m1 q" "pk_pos q = 4" "content m1 q = data_bytes m1 data"
    using open_message [OF wf sz] by blast
  have sm: "small m1 (mi_pkt mi)" using g(4,5) p(3) cap by (simp add: small_def)
  have "data \<noteq> []" using sz(1) by auto
  then have "1 \<le> length data" by (cases data) auto
  then have l: "length (all_views c1 []) \<le> length (all_views c [])" using p(6-8) by simp
  have "destroy_views (pk_data (mi_pkt mi0)) m2 = destroy_views data m2" for m2
    by (rule destroy_views_chunks [OF same_views_chunks [OF g(2)]])
  then have "Connector_packet recv len (c, m, u) = bindE (Connector_handle recv mi (c1, m1, u)) (\<lambda>(c2, m2, u2).
       bindE (destroy_views data m2) (\<lambda>m3. Inr (c2, m3, u2)))" for u
    using p(1) g(1,3) by (simp add: Connector_packet_def)
  then show ?thesis using p(2-5) g(3,5-9) sm l
    by (intro exI [of _ data] exI [of _ c1] exI [of _ m1] exI [of _ mi0] exI [of _ mi] exI [of _ q]) simp
qed

lemma connector_step:
  assumes inv: "net_inv m [] c" and rm: "length (all_views c []) + 2 < 4294967296"
    and len: "16 \<le> len" "len \<le> length (stream_of m c)" and cap: "length (stream_of m c) + 65536 < 4294967296"
  shows "\<exists>c' m' u'. Connector_packet recv len (c, m, u) = Inr (c', m', u') \<and> net_inv m' [] c' \<and> cn_cf u' = cn_cf u \<and>
     stream_of m' c' = drop len (stream_of m c) \<and> map snd (cn_log u') = map snd (cn_log u) @ [take len (stream_of m c)] \<and>
     length (all_views c' []) \<le> length (all_views c [])"
proof -
  obtain data c1 m1 mi where p: "Connector_packet recv len (c, m, u) = bindE (Connector_handle recv mi (c1, m1, u)) (\<lambda>(c2, m2, u2).
       bindE (destroy_views data m2) (\<lambda>m3. Inr (c2, m3, u2)))" "net_inv m1 data c1" "stream_of m1 c1 = drop len (stream_of m c)"
      "length (all_views c1 []) \<le> length (all_views c [])" "small m1 (mi_pkt mi)" "content m1 (mi_pkt mi) = take len (stream_of m c)"
    using pop_message [OF assms, of recv] by blast
  obtain c2 u2 where h: "Connector_handle recv mi (c1, m1, u) = Inr (c2, m1, u2)" "left_alone m1 data c1 c2" "cn_cf u2 = cn_cf u"
      "map snd (cn_log u2) = map snd (cn_log u) @ [take len (stream_of m c)]"
    using handle_total [OF p(2,5), of recv u] p(6) by auto
  from finish_message [OF p(2) h(2)] show ?thesis using p(1,3,4) h(1,3,4) by auto
qed

lemma ConnReceive_messages:
  assumes "net_inv m [] c" and "length (all_views c []) + 2 < 4294967296" and "cnt = cl_recvq_count c"
    and "length (stream_of m c) + 65536 < 4294967296" and "mframes (stream_of m c) = (fs, rest, stalled)"
  shows "\<exists>c' m' u'. ConnReceive_loop recv cnt (c, m, u) = Inr (c', m', u') \<and> net_inv m' [] c' \<and> cn_cf u' = cn_cf u \<and>
     length (all_views c' []) \<le> length (all_views c []) \<and> stream_of m' c' = rest \<and> map snd (cn_log u') = map snd (cn_log u) @ fs"
  using assms
proof (induction cnt arbitrary: c m u fs rule: less_induct)
  case (less cnt)
  let ?st = "stream_of m c" and ?len = "le_val (take 4 (stream_of m c))"
  have cnt: "cnt = length ?st" using less.prems(3) length_stream_of [OF less.prems(1)] by simp
  note step = ConnReceive_loop.simps [of recv cnt "(c, m, u)"]
  have cp: "Client_CopyReceive 4 m c = Inr (take 4 ?st, c)" by (rule CopyReceive_spec [OF less.prems(1)])
  have hd: "overwrite (replicate 4 0) 0 (take 4 ?st) = take 4 ?st" if "16 \<le> cnt" using that cnt by (simp add: overwrite_def)
  consider (stay) "cnt < 16 \<or> ?len < 16 \<or> cnt < ?len" | (full) "16 \<le> cnt" "16 \<le> ?len" "?len \<le> cnt" by linarith
  then show ?case
  proof cases
    case stay
    have "ConnReceive_loop recv cnt (c, m, u) = Inr (c, m, u)"
      using step cp hd stay by (cases "16 \<le> cnt") (auto simp: Message_HEAD_SIZE_def Let_def)
    moreover have "fs = []" "rest = ?st" using less.prems(5) stay cnt by (auto simp: mframes.simps [of ?st] Let_def split: if_splits)
    ultimately show ?thesis using less.prems by simp
  next
    case full
    obtain fs1 where f: "mframes (drop ?len ?st) = (fs1, rest, stalled)" "fs = take ?len ?st # fs1"
      using less.prems(5) full cnt by (auto simp: mframes.simps [of ?st] Let_def split: prod.splits)
    have "?len \<le> length ?st" using full cnt by simp
    then obtain c2 m2 u2 where p: "Connector_packet recv ?len (c, m, u) = Inr (c2, m2, u2)" "net_inv m2 [] c2" "cn_cf u2 = cn_cf u"
        "stream_of m2 c2 = drop ?len ?st" "map snd (cn_log u2) = map snd (cn_log u) @ [take ?len ?st]"
        "length (all_views c2 []) \<le> length (all_views c [])"
      using connector_step [OF less.prems(1,2) full(2) _ less.prems(4), of recv u] by blast
    have lt: "cnt - ?len < cnt" using full by simp
    have cn: "cnt - ?len = cl_recvq_count c2" using length_stream_of [OF p(2)] p(4) cnt by simp
    have rm: "length (all_views c2 []) + 2 < 4294967296" using p(6) less.prems(2) by simp
    have cap: "length (stream_of m2 c2) + 65536 < 4294967296" using p(4) less.prems(4) by simp
    obtain c3 m3 u3 where r: "ConnReceive_loop recv (cnt - ?len) (c2, m2, u2) = Inr (c3, m3, u3)" "net_inv m3 [] c3" "cn_cf u3 = cn_cf u2"
        "length (all_views c3 []) \<le> length (all_views c2 [])" "stream_of m3 c3 = rest" "map snd (cn_log u3) = map snd (cn_log u2) @ fs1"
      using less.IH [OF lt p(2) rm cn cap] f(1) p(4) by metis
    have "ConnReceive_loop recv cnt (c, m, u) = Inr (c3, m3, u3)"
      using step cp hd full p(1) r(1) by (simp add: Message_HEAD_SIZE_def Let_def)
    then show ?thesis using r p f(2) by auto
  qed
qed

interpretation conn: receiver "Connector_hooks recv fail close" "\<lambda>_. []" "\<lambda>u. concat (map snd (cn_log u))" "\<lambda>_. True" "4294901760"
proof
  fix u :: cnstate and m c
  assume a: "net_inv m [] c" "length (all_views c []) + 2 < 4294967296" "length (stream_of m c) < 4294901760"
  obtain fs rest stalled where f: "mframes (stream_of m c) = (fs, rest, stalled)" by (metis prod_cases3)
  have "length (stream_of m c) + 65536 < 4294967296" using a(3) by simp
  from ConnReceive_messages [OF a(1,2) refl this f, of recv u] obtain c' m' u' where
    r: "ConnReceive_loop recv (cl_recvq_count c) (c, m, u) = Inr (c', m', u')" "net_inv m' [] c'"
      "length (all_views c' []) \<le> length (all_views c [])" "stream_of m' c' = rest" "map snd (cn_log u') = map snd (cn_log u) @ fs" by blast
  have "concat (map snd (cn_log u')) @ stream_of m' c' = concat (map snd (cn_log u)) @ stream_of m c"
    "length (stream_of m' c') \<le> length (stream_of m c)"
    using r(4,5) mframes_concat [OF f] by (simp, metis length_append le_add2)
  then show "\<exists>c' m' u'. on_receive (Connector_hooks recv fail close) (cl_recvq_count c) (c, m, u) = Inr (c', m', u') \<and>
      True \<and> net_inv m' [] c' \<and> concat (map snd (cn_log u')) @ stream_of m' c' = concat (map snd (cn_log u)) @ stream_of m c \<and>
      length (stream_of m' c') \<le> length (stream_of m c) \<and> length (all_views c' []) \<le> length (all_views c [])"
    using r(1-3) by (auto simp: Connector_hooks_def Connector_OnReceive_def)
qed

section \<open>Theorems on receiving\<close>

text \<open>
  C14. Messages of the cluster. When data has arrived, \<open>OnReceive\<close> handles exactly the complete messages of the byte
  stream, each once and in order, also those behind a message whose handling threw and closed the connection; the incomplete rest stays queued. A length
  field below sixteen is only logged: from then on no message is cut out, whatever arrives.
\<close>

theorem Connector_OnReceive_messages:
  assumes "net_inv m [] c" and "length (all_views c []) + 2 < 4294967296" and "length (stream_of m c) + 65536 < 4294967296"
    and "mframes (stream_of m c) = (fs, rest, stalled)"
  shows "\<exists>c' m' u'. Connector_OnReceive recv (cl_recvq_count c) (c, m, u) = Inr (c', m', u') \<and> net_inv m' [] c' \<and>
     map snd (cn_log u') = map snd (cn_log u) @ fs \<and> stream_of m' c' = rest \<and>
     (stalled \<longrightarrow> (\<forall>more. mframes (rest @ more) = ([], rest @ more, True)))"
  using ConnReceive_messages [OF assms(1,2) refl assms(3,4), of recv u] assms(4) mframes_stalled [of "stream_of m c" fs rest]
  unfolding Connector_OnReceive_def by (cases stalled) auto

theorem Connector_OnReceive_messages_witness:
  "\<exists>c' m' u'. Connector_OnReceive (\<lambda>_. False) 36 (loaded_client ([16, 0, 0, 0, 0, 0, 0, 0, 0, 0, 0, 0, 0, 0, 0, 0] @ [16, 0, 0, 0, 0, 0, 0, 0, 0, 0, 0, 0, 0, 0, 0, 0, 9, 0, 0, 0]),
       loaded_mem ([16, 0, 0, 0, 0, 0, 0, 0, 0, 0, 0, 0, 0, 0, 0, 0] @ [16, 0, 0, 0, 0, 0, 0, 0, 0, 0, 0, 0, 0, 0, 0, 0, 9, 0, 0, 0]), \<lparr>cn_cf = Configure_new, cn_info = None, cn_log = [], cn_auths = 0\<rparr>)
     = Inr (c', m', u') \<and> map snd (cn_log u') = [[16, 0, 0, 0, 0, 0, 0, 0, 0, 0, 0, 0, 0, 0, 0, 0], [16, 0, 0, 0, 0, 0, 0, 0, 0, 0, 0, 0, 0, 0, 0, 0]] \<and> stream_of m' c' = [9, 0, 0, 0]"
proof -
  let ?b = "[16, 0, 0, 0, 0, 0, 0, 0, 0, 0, 0, 0, 0, 0, 0, 0] @ [16, 0, 0, 0, 0, 0, 0, 0, 0, 0, 0, 0, 0, 0, 0, 0, 9, 0, 0, 0] :: bytes"
  let ?u = "\<lparr>cn_cf = Configure_new, cn_info = None, cn_log = [], cn_auths = 0\<rparr>"
  have i: "net_inv (loaded_mem ?b) [] (loaded_client ?b)" "stream_of (loaded_mem ?b) (loaded_client ?b) = ?b"
      "length (all_views (loaded_client ?b) []) + 2 < 4294967296" "length (stream_of (loaded_mem ?b) (loaded_client ?b)) + 65536 < 4294967296"
    using loaded_client_inv [of ?b] by simp_all
  have 1: "mframes [9, 0, 0, 0] = ([], [9, 0, 0, 0], False)" by (simp add: mframes.simps)
  have 2: "mframes [16, 0, 0, 0, 0, 0, 0, 0, 0, 0, 0, 0, 0, 0, 0, 0, 9, 0, 0, 0] = ([[16, 0, 0, 0, 0, 0, 0, 0, 0, 0, 0, 0, 0, 0, 0, 0]], [9, 0, 0, 0], False)"
    by (simp add: mframes.simps [of "[16, 0, 0, 0, 0, 0, 0, 0, 0, 0, 0, 0, 0, 0, 0, 0, 9, 0, 0, 0]"] 1)
  have "mframes ?b = ([[16, 0, 0, 0, 0, 0, 0, 0, 0, 0, 0, 0, 0, 0, 0, 0], [16, 0, 0, 0, 0, 0, 0, 0, 0, 0, 0, 0, 0, 0, 0, 0]], [9, 0, 0, 0], False)"
    by (subst mframes.simps) (simp add: 2)
  then have f: "mframes (stream_of (loaded_mem ?b) (loaded_client ?b)) = ([take 16 ?b, take 16 ?b], [9, 0, 0, 0], False)"
    unfolding i(2) by simp
  have n: "cl_recvq_count (loaded_client ?b) = 36" by (simp add: loaded_client_def)
  show ?thesis using Connector_OnReceive_messages [OF i(1,3,4) f, of "\<lambda>_. False" ?u] unfolding n by auto
qed

text \<open>
  The whole receive path of a connection between nodes: no byte is lost, repeated or reordered, however the kernel cuts the
  stream, as long as less than four gigabytes are queued.
\<close>

lemma Connector_OnEventIOReadable_stream:
  assumes "net_inv m [] c" and "length (all_views c []) + 22 * (rx_size rx + 1) + 4 < 4294967296"
    and "length (stream_of m c) + length (rx_bytes rx) < 4294901760"
  shows "\<exists>rx' c' m' u' got. Client_OnEventIOReadable (Connector_hooks recv fail close) rx (c, m, u) = Inr (rx', c', m', u') \<and>
     net_inv m' [] c' \<and> rx_bytes rx = got @ rx_bytes rx' \<and>
     concat (map snd (cn_log u')) @ stream_of m' c' = concat (map snd (cn_log u)) @ stream_of m c @ got"
  using conn.readable [OF assms(1) TrueI assms(2,3), of recv fail close] unfolding Client_OnEventIOReadable_def by blast

section \<open>Authentication\<close>

text \<open>The bytes of the authentication message: the head, the node's id, the number of cookies and the cookies.\<close>

definition auth_values :: "8 word \<Rightarrow> string list \<Rightarrow> outval list" where
  "auth_values i cookies = OutU8 i # OutU16 (word_of_nat (length cookies)) # map (\<lambda>c. OutString (bytes_of_string c)) cookies"

definition auth_bytes :: "8 word \<Rightarrow> string list \<Rightarrow> bytes" where
  "auth_bytes i cookies = body_bytes (message_head INTERNAL_AUTH MailboxID_NullID MailboxID_NullID 0 (16 + length (body_bytes (auth_values i cookies))))
     @ body_bytes (auth_values i cookies)"

definition cookies_ok :: "string list \<Rightarrow> bool" where
  "cookies_ok cookies \<longleftrightarrow> length cookies < 65536 \<and> (\<forall>c \<in> set cookies. length c < 65536)"

lemma string_of_bytes_of_string [simp]: "string_of_bytes (bytes_of_string s) = s"
proof -
  have "char_of (unat (of_char c :: 8 word)) = c" for c
  proof -
    have "(of_char c :: nat) < 256" by (rule nat_of_char_less_256)
    moreover have "unat (of_nat (of_char c) :: 8 word) = of_char c" using \<open>of_char c < 256\<close> by (simp only: unsigned_of_nat) (simp add: take_bit_nat_eq_self)
    ultimately show ?thesis by (metis char_of_char of_nat_of_char)
  qed
  then show ?thesis by (simp add: string_of_bytes_def bytes_of_string_def comp_def)
qed

lemma read_cookies_all:
  assumes "pin_wf m p" and "drop (pk_pos p) (content m p) = concat (map (\<lambda>c. str_bytes (bytes_of_string c)) cks) @ r"
    and "\<forall>c \<in> set cks. length c < 65536"
  shows "\<exists>p'. read_cookies cf (length cks) m p = Inr ((\<exists>c \<in> set cks. IsCookieAllow cf c), p')"
  using assms
proof (induction cks arbitrary: p)
  case (Cons c cks)
  let ?rest = "concat (map (\<lambda>c. str_bytes (bytes_of_string c)) cks) @ r"
  have d: "drop (pk_pos p) (content m p) = str_bytes (bytes_of_string c) @ ?rest" using Cons.prems(2) by simp
  obtain p1 where p1: "PacketInBase_ReadString m p = Inr (bytes_of_string c, p1)" "advanced m p (length (str_bytes (bytes_of_string c))) p1"
    using strings.read_law [OF Cons.prems(1) _ d] Cons.prems(3) by auto
  have "drop (pk_pos p1) (content m p1) = ?rest" using drop_advanced [OF p1(2)] d by simp
  then obtain p2 where "read_cookies cf (length cks) m p1 = Inr ((\<exists>c \<in> set cks. IsCookieAllow cf c), p2)"
    using Cons.IH [of p1] p1(2) Cons.prems(3) by (auto simp: advanced_def)
  then show ?case using p1(1) by auto
qed simp

lemma auth_body:
  "length cookies < 65536 \<Longrightarrow> body_bytes (auth_values i cookies) = le_bytes 1 (unat i) @ le_bytes 2 (unat (word_of_nat (length cookies) :: 16 word)) @
     concat (map (\<lambda>c. str_bytes (bytes_of_string c)) cookies)"
  by (simp add: auth_values_def comp_def del: le_bytes.simps One_nat_def)

lemma HandleInternal_auth:
  assumes "pin_wf m (mi_pkt mi)" and "mi_code mi = INTERNAL_AUTH" and ok: "cookies_ok cookies"
    and d: "drop (pk_pos (mi_pkt mi)) (content m (mi_pkt mi)) = body_bytes (auth_values i cookies)"
  shows "Connector_HandleInternalMessage m mi (c, u) = Connector_decide (\<exists>ck \<in> set cookies. IsCookieAllow (cn_cf u) ck) i (c, u)"
proof -
  let ?n = "word_of_nat (length cookies) :: 16 word"
  let ?cs = "concat (map (\<lambda>c. str_bytes (bytes_of_string c)) cookies) @ []"
  have lc: "length cookies < 65536" using ok by (simp add: cookies_ok_def)
  have n: "unat ?n = length cookies" by (rule u16_word [OF lc])
  have d1: "drop (pk_pos (mi_pkt mi)) (content m (mi_pkt mi)) = le_bytes 1 (unat i) @ (le_bytes 2 (unat ?n) @ ?cs)"
    using d auth_body [OF lc, of i] by simp
  obtain p1 where 1: "read_word 1 m (mi_pkt mi) = Inr (i, p1)" "advanced m (mi_pkt mi) 1 p1" "drop (pk_pos p1) (content m p1) = le_bytes 2 (unat ?n) @ ?cs"
    using read_word_law [OF assms(1) _ d1] by auto
  have w1: "pin_wf m p1" using 1(2) by (simp add: advanced_def)
  obtain p2 where 2: "read_word 2 m p1 = Inr (?n, p2)" "advanced m p1 2 p2" "drop (pk_pos p2) (content m p2) = ?cs"
    using read_word_law [OF w1 _ 1(3)] by auto
  have w2: "pin_wf m p2" using 2(2) by (simp add: advanced_def)
  obtain p3 where "read_cookies (cn_cf u) (length cookies) m p2 = Inr ((\<exists>ck \<in> set cookies. IsCookieAllow (cn_cf u) ck), p3)"
    using read_cookies_all [OF w2 2(3)] ok by (auto simp: cookies_ok_def)
  then show ?thesis
    using assms(2) 1(1) 2(1) n by (simp add: Connector_HandleInternalMessage_def PacketInBase_ReadByte_def PacketInBase_ReadUShort_def)
qed

lemma auth_stream:
  defines "n \<equiv> \<lambda>i cookies. 16 + length (body_bytes (auth_values i cookies))"
  assumes "n i cookies < 4294967296"
  shows "length (auth_bytes i cookies) = n i cookies" "le_val (take 4 (auth_bytes i cookies)) = n i cookies"
    "auth_bytes i cookies = le_bytes 4 (n i cookies) @
       body_bytes (tl (message_head INTERNAL_AUTH MailboxID_NullID MailboxID_NullID 0 (n i cookies))) @ body_bytes (auth_values i cookies)"
proof -
  let ?n = "n i cookies"
  show b: "auth_bytes i cookies = le_bytes 4 ?n @
       body_bytes (tl (message_head INTERNAL_AUTH MailboxID_NullID MailboxID_NullID 0 ?n)) @ body_bytes (auth_values i cookies)"
    using unat_u32 [OF assms(2)] by (simp add: auth_bytes_def message_head_def n_def del: of_nat_add)
  show "length (auth_bytes i cookies) = ?n" by (simp add: auth_bytes_def message_head_laws(1) n_def)
  show "le_val (take 4 (auth_bytes i cookies)) = ?n" unfolding b using assms(2) by (simp add: le_val_le_bytes)
qed

lemma null_mailbox: "\<not> MailboxID_bool (MailboxID_Parse (MailboxID_ValueID MailboxID_NullID))"
  by (simp add: MailboxID_bool_def MailboxID_Parse_def MailboxID_ValueID_def MailboxID_NullID_def)

text \<open>What the receiver of an authentication message decides.\<close>

definition auth_outcome :: "8 word \<Rightarrow> string list \<Rightarrow> client \<times> cnstate \<Rightarrow> client \<times> cnstate \<Rightarrow> bool" where
  "auth_outcome i cookies s s' = (case (s, s') of ((c, u), (c', u')) \<Rightarrow>
     if (\<exists>ck \<in> set cookies. IsCookieAllow (cn_cf u) ck) \<and> FindNodeInfoByID (cn_cf u) i \<noteq> None
     then cn_info u' = FindNodeInfoByID (cn_cf u) i \<and> cn_auths u' = cn_auths u + 1 \<and> cl_io c' = cl_io c
     else cn_info u' = None \<and> cn_auths u' = cn_auths u \<and> io_fd (cl_io c') = -1)"

lemma decide_outcome:
  assumes "net_inv m hs c" and "cn_info u = None"
  shows "\<exists>c' u'. Connector_decide (\<exists>ck \<in> set cookies. IsCookieAllow (cn_cf u) ck) i (c, u) = Inr (c', u') \<and> left_alone m hs c c' \<and>
    auth_outcome i cookies (c, u) (c', u')"
proof -
  obtain cc where "Client_Close c = Inr cc" "left_alone m hs c cc" "io_fd (cl_io cc) = -1"
    using close_leaves [OF assms(1)] by (auto simp: left_alone_def)
  then show ?thesis using left_alone_refl [OF assms(1)] assms(2)
    by (cases "\<exists>ck \<in> set cookies. IsCookieAllow (cn_cf u) ck"; cases "FindNodeInfoByID (cn_cf u) i")
      (auto simp: Connector_decide_def auth_outcome_def Let_def)
qed

lemma receive_auth:
  assumes inv: "net_inv m [] c" and rm: "length (all_views c []) + 2 < 4294967296" and st: "stream_of m c = auth_bytes i cookies"
    and cap: "length (auth_bytes i cookies) + 65536 < 4294967296" and ok: "cookies_ok cookies" and no: "cn_info u = None"
  shows "\<exists>c' m' u'. Connector_OnReceive recv (cl_recvq_count c) (c, m, u) = Inr (c', m', u') \<and> stream_of m' c' = [] \<and>
    auth_outcome i cookies (c, u) (c', u')"
proof -
  define n where "n = 16 + length (body_bytes (auth_values i cookies))"
  have "n < 4294967296" using cap by (simp add: auth_bytes_def message_head_laws(1) n_def)
  note as = auth_stream [of i cookies, folded n_def, OF this]
  have st': "length (stream_of m c) = n" "length (stream_of m c) + 65536 < 4294967296" "16 \<le> n" "n \<le> length (stream_of m c)"
    using st as(1) cap by (simp_all add: n_def)
  obtain data c1 m1 mi0 mi q where p: "\<And>u. Connector_packet recv n (c, m, u) = bindE (Connector_handle recv mi (c1, m1, u)) (\<lambda>(c2, m2, u2).
       bindE (destroy_views data m2) (\<lambda>m3. Inr (c2, m3, u2)))" "net_inv m1 data c1" "stream_of m1 c1 = drop n (stream_of m c)"
      "cl_io c1 = cl_io c" "MessageIn_ReadHead m1 mi0 = Inr mi" "small m1 (mi_pkt mi)"
      "Packet_SkipTo (mi_pkt mi0) 4 = Inr q" "pin_wf m1 q" "pk_pos q = 4" "content m1 q = take n (stream_of m c)"
    using pop_message [OF inv rm st'(3,4,2), of recv] by blast
  have "content m1 q = le_bytes 4 n @ body_bytes (tl (message_head INTERNAL_AUTH MailboxID_NullID MailboxID_NullID 0 n)) @
      body_bytes (auth_values i cookies)"
    using p(10) st st'(1) as(3) by simp
  from ReadHead_message [OF p(8,9,7) this] p(5) have mi: "mi_code mi = INTERNAL_AUTH" "\<not> MailboxID_bool (mi_to mi)"
      "drop (pk_pos (mi_pkt mi)) (content m1 (mi_pkt mi)) = body_bytes (auth_values i cookies)"
    using null_mailbox by auto
  define u1 where "u1 = u\<lparr>cn_log := cn_log u @ [(True, content m1 (mi_pkt mi))]\<rparr>"
  have u1: "cn_info u1 = None" "cn_cf u1 = cn_cf u" "cn_auths u1 = cn_auths u" using no by (simp_all add: u1_def)
  have w: "pin_wf m1 (mi_pkt mi)" using p(6) by (simp add: small_def)
  obtain c2 u2 where d: "Connector_HandleInternalMessage m1 mi (c1, u1) = Inr (c2, u2)" "left_alone m1 data c1 c2" "auth_outcome i cookies (c1, u1) (c2, u2)"
    using HandleInternal_auth [OF w mi(1) ok mi(3), of c1 u1] decide_outcome [OF p(2) u1(1), of cookies i] by auto
  have h: "Connector_handle recv mi (c1, m1, u) = Inr (c2, m1, u2)"
    using mi(2) no d(1) by (simp add: Connector_handle_def Let_def u1_def)
  obtain m3 where f: "destroy_views data m1 = Inr m3" "stream_of m3 c2 = stream_of m1 c1" using finish_message [OF p(2) d(2)] by blast
  have cp: "Client_CopyReceive 4 m c = Inr (take 4 (stream_of m c), c)" by (rule CopyReceive_spec [OF inv])
  have cnt: "cl_recvq_count c = n" using length_stream_of [OF inv] st'(1) by simp
  have hd: "overwrite (replicate 4 0) 0 (take 4 (stream_of m c)) = take 4 (stream_of m c)" using st'(1,3) by (simp add: overwrite_def)
  have z: "ConnReceive_loop recv 0 s = Inr s" for s by (simp add: ConnReceive_loop.simps Message_HEAD_SIZE_def split: prod.splits)
  have "Connector_OnReceive recv (cl_recvq_count c) (c, m, u) = Inr (c2, m3, u2)"
    unfolding Connector_OnReceive_def cnt using cp hd st as(2) st'(3) p(1) h f(1) z
    by (subst ConnReceive_loop.simps) (simp add: Message_HEAD_SIZE_def Let_def)
  moreover have "auth_outcome i cookies (c, u) (c2, u2)" using d(3) u1 p(4) by (simp add: auth_outcome_def)
  ultimately show ?thesis using f(2) p(3) st'(1) by auto
qed

lemma out_each_strings:
  "out_each PacketOutBase_out (map (\<lambda>c. OutString (bytes_of_string c)) cks) s = out_each PacketOutBase_WriteString (map bytes_of_string cks) s"
  by (induction cks arbitrary: s) (auto simp: bindE_def split: sum.splits)

lemma OnConnect_wire:
  assumes inv: "send_inv m [] c" and con: "cl_connect c" and loc: "cf_local cf = Some n" and ok: "cookies_ok (cf_cookies cf)"
    and rm: "room m (cl_sendq c) Packet_new (cost m 20 + body_cost m (auth_values (ni_id n) (cf_cookies cf)) + (166 + 15 * mp_chunksize m) + 1)"
  shows "\<exists>c' m'. Connector_OnConnectBytes cf (c, m) = Inr (c', m') \<and> send_inv m' [] c' \<and>
    cl_wire c' @ unsent m' c' = cl_wire c @ unsent m c @ auth_bytes (ni_id n) (cf_cookies cf)"
proof -
  let ?vs = "auth_values (ni_id n) (cf_cookies cf)" and ?hvs = "message_head INTERNAL_AUTH MailboxID_NullID MailboxID_NullID 0"
  let ?n = "16 + length (body_bytes (auth_values (ni_id n) (cf_cookies cf)))" and ?q = "cl_sendq c"
  have vs: "\<forall>v \<in> set ?vs. ok_val v" using ok by (auto simp: auth_values_def cookies_ok_def)
  have mi: "mem_inv m ?q" and io: "eventio_ok (cl_io c)" "io_linked (cl_io c)" using inv by (simp_all add: send_inv_def)
  obtain p m1 p1 p2 m2 p3 p4 m4 ret m5 where
    f: "PacketOutBase_new 20 m = Inr (p, m1)" "Packet_SkipTo p 16 = Inr p1"
      "out_each PacketOutBase_out ?vs (p1, m1) = Inr (p2, m2)" "Packet_SkipTo p2 0 = Inr p3" "pk_size p3 = ?n"
      "out_each PacketOutBase_out (?hvs ?n) (p3, m2) = Inr (p4, m4)"
      "PacketOutBase_FetchData (p4, m4) = Inr (ret, m5)" "data_bytes m5 ret = body_bytes (?hvs ?n) @ body_bytes ?vs"
      "mem_inv m5 (ret @ pk_data p4 @ ?q)" "data_bytes m5 ?q = data_bytes m ?q" "length ret \<le> length (pk_data p4)"
      "3 * length (pk_data p4) + length ?q + 5 < 4294967296"
    using stream.framed [where hvs = ?hvs and approx = 20 and h = 16, OF mi vs _ message_head_laws rm] by auto
  let ?mo = "\<lparr>mo_pkt = p1, mo_code = INTERNAL_AUTH, mo_from = MailboxID_NullID, mo_to = MailboxID_NullID, mo_session = 0\<rparr>"
  have new: "MessageOut_new INTERNAL_AUTH 20 m = Inr (?mo, m1)" using f(1,2) by (simp add: MessageOut_new_def Message_HEAD_SIZE_def)
  have am: "Connector_auth_message (ni_id n) (cf_cookies cf) m = Inr (?mo\<lparr>mo_pkt := p2\<rparr>, m2)"
    using new f(3) by (auto simp: Connector_auth_message_def auth_values_def out_each_strings bindE_eq_Inr)
  have wh: "MessageOut_WriteHead (?mo\<lparr>mo_pkt := p2\<rparr>, m2) = Inr (?mo\<lparr>mo_pkt := p4\<rparr>, m4)"
    using WriteHead_message [of p2 p3 "?mo\<lparr>mo_pkt := p2\<rparr>" m2 p4 m4] f(4-6) by simp
  have s5: "send_inv m5 (ret @ pk_data p4) c" using io mem_inv_perm [OF f(9), of "?q @ ret @ pk_data p4"] by (simp add: send_inv_def)
  have l: "length (?q @ ret @ pk_data p4) + length ret + 1 < 4294967296" using f(11,12) by simp
  obtain ev c' m6 where ps: "Client_PushSend ret (c, m5) = Inr (ev, c', m6)" "send_inv m6 (ret @ pk_data p4) c'"
      "cl_wire c' @ unsent m6 c' = cl_wire c @ unsent m5 c @ data_bytes m5 ret"
    using PushSend_spec [OF s5 con _ l] by auto
  have i6: "mem_inv m6 (cl_sendq c' @ ret @ pk_data p4)" using ps(2) by (simp add: send_inv_def)
  obtain m7 where m7: "destroy_views ret m6 = Inr m7" "mem_inv m7 (cl_sendq c' @ pk_data p4 @ [])" "data_bytes m7 (cl_sendq c') = data_bytes m6 (cl_sendq c')"
    using destroy_keeps [OF i6] by auto
  obtain m8 where m8: "destroy_views (pk_data p4) m7 = Inr m8" "mem_inv m8 (cl_sendq c' @ [])" "data_bytes m8 (cl_sendq c') = data_bytes m7 (cl_sendq c')"
    using destroy_keeps [OF m7(2)] by blast
  have "Connector_SendBytes (?mo\<lparr>mo_pkt := p2\<rparr>) (c, m2) = Inr (?mo\<lparr>mo_pkt := p4\<rparr>, c', m7)"
    using wh f(7) ps(1) m7(1) by (simp add: Connector_SendBytes_def)
  then have "Connector_OnConnectBytes cf (c, m) = Inr (c', m8)"
    using loc am m8(1) by (simp add: Connector_OnConnectBytes_def)
  moreover have "send_inv m8 [] c'" using ps(2) m8(2) by (simp add: send_inv_def)
  moreover have "unsent m8 c' = unsent m6 c'" "unsent m5 c = unsent m c" using m7(3) m8(3) f(10) by (simp_all add: unsent_def)
  moreover have "data_bytes m5 ret = auth_bytes (ni_id n) (cf_cookies cf)" using f(8) by (simp add: auth_bytes_def)
  ultimately show ?thesis using ps(3) by auto
qed

text \<open>
  C10. The handshake between two nodes. When a connection is established, \<open>OnConnect\<close> puts exactly one message on the wire behind
  everything sent before, however \<open>writev\<close> cuts it. A node that receives these bytes on a connection that is not authenticated yet takes the message off
  the stream and accepts the peer if and only if one of the peer's cookies is among its own and the peer's id is configured; it then knows the peer and
  keeps the connection, and otherwise closes it.
\<close>

theorem Connector_handshake:
  assumes "send_inv m [] c" and "cl_connect c" and "cf_local cf = Some n" and "cookies_ok (cf_cookies cf)"
    and "room m (cl_sendq c) Packet_new (cost m 20 + body_cost m (auth_values (ni_id n) (cf_cookies cf)) + (166 + 15 * mp_chunksize m) + 1)"
    and "net_inv mr [] cr" and "length (all_views cr []) + 2 < 4294967296" and "stream_of mr cr = auth_bytes (ni_id n) (cf_cookies cf)"
    and "length (stream_of mr cr) + 65536 < 4294967296" and "cn_info u = None"
  shows "(\<exists>c' m'. Connector_OnConnectBytes cf (c, m) = Inr (c', m') \<and>
       cl_wire c' @ unsent m' c' = cl_wire c @ unsent m c @ auth_bytes (ni_id n) (cf_cookies cf)) \<and>
    (\<exists>cr' mr' u'. Connector_OnReceive recv (cl_recvq_count cr) (cr, mr, u) = Inr (cr', mr', u') \<and> stream_of mr' cr' = [] \<and>
       (if (\<exists>ck \<in> set (cf_cookies cf). IsCookieAllow (cn_cf u) ck) \<and> FindNodeInfoByID (cn_cf u) (ni_id n) \<noteq> None
        then cn_info u' = FindNodeInfoByID (cn_cf u) (ni_id n) \<and> cn_auths u' = cn_auths u + 1 \<and> cl_io cr' = cl_io cr
        else cn_info u' = None \<and> cn_auths u' = cn_auths u \<and> io_fd (cl_io cr') = -1))"
  using OnConnect_wire [OF assms(1-5)] receive_auth [OF assms(6-8) _ assms(4,10), of recv] assms(8,9)
  unfolding auth_outcome_def prod.case by auto

definition peer :: nodeinfo where
  "peer = \<lparr>ni_id = 7, ni_name = ''b'', ni_type = [], ni_ip = ''h'', ni_port = 1, ni_links = []\<rparr>"

definition peer_config :: configure where
  "peer_config = \<lparr>cf_local = Some peer, cf_cookies = [''x'', ''yz''], cf_nodes = []\<rparr>"

definition own_config :: configure where
  "own_config = \<lparr>cf_local = None, cf_cookies = [''yz''], cf_nodes = [peer]\<rparr>"

theorem Connector_handshake_witness:
  "\<exists>c' m' cr' mr' u'. Connector_OnConnectBytes peer_config (idle_client, MemoryPool_new (\<lambda>_ _. 0) 3 2) = Inr (c', m') \<and>
     cl_wire c' @ unsent m' c' = auth_bytes 7 [''x'', ''yz''] \<and>
     Connector_OnReceive (\<lambda>_. True) 26 (loaded_client (auth_bytes 7 [''x'', ''yz'']), loaded_mem (auth_bytes 7 [''x'', ''yz'']),
       \<lparr>cn_cf = own_config, cn_info = None, cn_log = [], cn_auths = 0\<rparr>) = Inr (cr', mr', u') \<and> cn_info u' = Some peer \<and> cn_auths u' = 1"
proof -
  let ?b = "auth_bytes 7 [''x'', ''yz'']" and ?m = "MemoryPool_new (\<lambda>_ _. 0) 3 2"
  let ?u = "\<lparr>cn_cf = own_config, cn_info = None, cn_log = [], cn_auths = 0\<rparr>"
  have l: "length ?b = 26" by (simp add: auth_bytes_def auth_values_def message_head_laws(1) str_bytes_def)
  then have ne: "?b \<noteq> []" by auto
  have pc: "cf_local peer_config = Some peer" "ni_id peer = 7" "cf_cookies peer_config = [''x'', ''yz'']" by (simp_all add: peer_config_def peer_def)
  have s: "send_inv ?m [] idle_client" "cl_connect idle_client" "cl_sendq idle_client = []" "cl_wire idle_client = []"
    using new_pool_inv by (simp_all add: send_inv_def idle_client_def Client_new_def EventIO_new_def eventio_ok_def)
  have r: "room ?m (cl_sendq idle_client) Packet_new (cost ?m 20 + body_cost ?m (auth_values (ni_id peer) (cf_cookies peer_config)) + (166 + 15 * mp_chunksize ?m) + 1)"
    unfolding s(3) pc by (rule new_pool_room) (simp add: cost_def cost2_def new_pool_chunksize auth_values_def str_bytes_def)
  have i: "net_inv (loaded_mem ?b) [] (loaded_client ?b)" "stream_of (loaded_mem ?b) (loaded_client ?b) = ?b"
      "length (all_views (loaded_client ?b) []) + 2 < 4294967296"
    using loaded_client_inv [OF ne] l by simp_all
  have n: "cl_recvq_count (loaded_client ?b) = 26" using l by (simp add: loaded_client_def)
  have ck: "cookies_ok (cf_cookies peer_config)" by (simp add: pc cookies_ok_def)
  have d: "IsCookieAllow own_config ''yz''" "FindNodeInfoByID own_config 7 = Some peer"
    by (simp_all add: IsCookieAllow_def FindNodeInfoByID_def own_config_def peer_def)
  show ?thesis
    using Connector_handshake [OF s(1,2) pc(1) ck r i(1,3), of ?u "\<lambda>_. True"] i(2) l n d
    unfolding pc s(4) by (auto simp: unsent_def s(3))
qed

end
