(* ===== verification/HttpClient.thy ===== *)
theory HttpClient
  imports UserClient
begin

text \<open>
  \<open>base/http/httpclient.*\<close>: requests over the network client. The request is written piece by piece into a packet, the connection
  is begun, and when it is established the packet is sent; received views are given to the parser of the \<open>http_parser\<close> library, whose
  callbacks collect the body and report it. That parser and the parser of addresses are arguments. Theorems: what is put on
  the wire is the text of the request, with every piece cut to sixteen bits of length, for every answer of \<open>connect\<close>; the parser is given the views of
  a response in order until it stops in one, which for input that it handles incrementally has the effect of one call on all bytes.
\<close>

section \<open>Model\<close>

datatype httpmethod = HTTP_METHOD_GET | HTTP_METHOD_POST

text \<open>The callbacks the parser makes while it executes, and what the client's user is told.\<close>

datatype pevent = PBegin | PBody bytes | PComplete

datatype hevent = OnHttpResponse bytes | OnHttpError string | OnHttpClose

text \<open>\<open>hc_dest\<close> are the arguments of the call of \<open>Connect\<close>.\<close>

record 'p httpclient =
  hc_req :: pkt
  hc_parser :: 'p
  hc_resp_body :: bytes
  hc_events :: "hevent list"
  hc_dest :: "(bytes \<times> nat) option"

type_synonym 'p exec = "'p \<Rightarrow> bytes \<Rightarrow> nat \<times> pevent list \<times> 'p"

record urlparts =
  url_host :: "bytes option"
  url_port :: nat
  url_path :: "bytes option"

definition HttpClient_new :: "'p \<Rightarrow> mem \<Rightarrow> ('p httpclient \<times> mem) result" where
  "HttpClient_new init m = bindE (PacketOutBase_new 120 m) (\<lambda>(p, m1). bindE (Packet_SkipTo p 0) (\<lambda>p1.
     Inr (\<lparr>hc_req = p1, hc_parser = init, hc_resp_body = [], hc_events = [], hc_dest = None\<rparr>, m1)))"

definition http_tell :: "hevent \<Rightarrow> 'p httpclient \<Rightarrow> 'p httpclient" where
  "http_tell e h = h\<lparr>hc_events := hc_events h @ [e]\<rparr>"

text \<open>The three callbacks; the body is handed over as a C string, up to its first zero.\<close>

definition body_cb :: "bytes \<Rightarrow> client \<times> 'p httpclient \<Rightarrow> (client \<times> 'p httpclient) result" where
  "body_cb at s = Inr (fst s, (snd s)\<lparr>hc_resp_body := hc_resp_body (snd s) @ at\<rparr>)"

definition message_complete_cb :: "client \<times> 'p httpclient \<Rightarrow> (client \<times> 'p httpclient) result" where
  "message_complete_cb s =
     (let h1 = http_tell (OnHttpResponse (takeWhile (\<lambda>b. b \<noteq> 0) (hc_resp_body (snd s)))) (snd s)
      in bindE (Client_Close (fst s)) (\<lambda>c. Inr (c, h1)))"

fun run_callbacks :: "pevent list \<Rightarrow> client \<times> 'p httpclient \<Rightarrow> (client \<times> 'p httpclient) result" where
  "run_callbacks [] s = Inr s"
| "run_callbacks (PBegin # es) s = run_callbacks es s"
| "run_callbacks (PBody at # es) s = bindE (body_cb at s) (run_callbacks es)"
| "run_callbacks (PComplete # es) s = bindE (message_complete_cb s) (run_callbacks es)"

text \<open>The loop over the received views.\<close>

fun parse_views :: "'p exec \<Rightarrow> mem \<Rightarrow> refchunk list \<Rightarrow> client \<times> 'p httpclient \<Rightarrow> (client \<times> 'p httpclient) result" where
  "parse_views exec m [] s = Inr s"
| "parse_views exec m (r # rs) s = bindE (chunk_load (rm_chunk r) (rm_data r) (rm_count r) m) (\<lambda>bs.
     case exec (hc_parser (snd s)) bs of (n, es, p) \<Rightarrow>
       bindE (run_callbacks es (fst s, (snd s)\<lparr>hc_parser := p\<rparr>)) (\<lambda>(c1, h1).
         if n \<noteq> rm_count r then Inr (c1, http_tell (OnHttpError ''parser error'') h1)
         else parse_views exec m rs (c1, h1)))"

definition HttpClient_OnReceive :: "'p exec \<Rightarrow> nat \<Rightarrow> client \<times> mem \<times> 'p httpclient \<Rightarrow> (client \<times> mem \<times> 'p httpclient) result" where
  "HttpClient_OnReceive exec cnt s = (case s of (c, m, h) \<Rightarrow>
     bindE (Client_PopReceive [] cnt (c, m)) (\<lambda>(_, data, c1, m1).
     bindE (parse_views exec m1 data (c1, h)) (\<lambda>(c2, h2).
     bindE (destroy_views data m1) (\<lambda>m2. Inr (c2, m2, h2)))))"

text \<open>\<open>sprintf\<close> with \<open>%lu\<close>.\<close>

function decimal :: "nat \<Rightarrow> bytes" where
  "decimal n = (if n < 10 then [word_of_nat (48 + n)] else decimal (n div 10) @ [word_of_nat (48 + n mod 10)])"
  by pat_completeness auto
termination by (relation "measure id") auto

declare decimal.simps [simp del]

definition crlf :: bytes where
  "crlf = [13, 10]"

text \<open>\<open>WriteRaw\<close> of a piece and the size given with it; the size is converted to sixteen bits by the call.\<close>

definition write_piece :: "bytes \<times> nat \<Rightarrow> pkt \<times> mem \<Rightarrow> (pkt \<times> mem) result" where
  "write_piece x = PacketOutBase_WriteRaw (fst x) (word_of_nat (snd x))"

definition request_pieces :: "httpmethod \<Rightarrow> bytes \<Rightarrow> bytes \<Rightarrow> bytes \<Rightarrow> (bytes \<times> nat) list" where
  "request_pieces meth host path query =
     (let query_len = length query in
      case meth of
        HTTP_METHOD_GET \<Rightarrow>
          [(bytes_of_string ''GET '', 4), (path, length path), (bytes_of_string ''?'', 1), (query, query_len),
           (bytes_of_string '' HTTP/1.1'' @ crlf, 11), (bytes_of_string ''HOST: '', 6), (host, length host), (crlf, 2), (crlf, 2)]
      | HTTP_METHOD_POST \<Rightarrow>
          [(bytes_of_string ''POST '', 5), (path, length path), (bytes_of_string '' HTTP/1.1'' @ crlf, 11),
           (bytes_of_string ''HOST: '', 6), (host, length host), (crlf, 2),
           (bytes_of_string ''Content-Type: application/x-www-form-urlencoded'' @ crlf, 49), (bytes_of_string ''Content-Length: '', 16),
           (decimal query_len, length (decimal query_len)), (crlf @ crlf, 4), (query, query_len)])"

definition HttpClient_WriteHttpRequest :: "httpmethod \<Rightarrow> bytes \<Rightarrow> bytes \<Rightarrow> bytes \<Rightarrow> 'p httpclient \<times> mem \<Rightarrow> ('p httpclient \<times> mem) result" where
  "HttpClient_WriteHttpRequest meth host path query s =
     bindE (out_each write_piece (request_pieces meth host path query) (hc_req (fst s), snd s)) (\<lambda>(p, m). Inr ((fst s)\<lparr>hc_req := p\<rparr>, m))"

definition HttpClient_Flush :: "client \<times> mem \<times> 'p httpclient \<Rightarrow> (client \<times> mem \<times> 'p httpclient) result" where
  "HttpClient_Flush s = (case s of (c, m, h) \<Rightarrow>
     bindE (PacketOutBase_FetchData (hc_req h, m)) (\<lambda>(data, m1).
     bindE (Client_PushSend data (c, m1)) (\<lambda>(_, c1, m2).
     bindE (destroy_views data m2) (\<lambda>m3. Inr (c1, m3, h)))))"

definition HttpClient_hooks :: "'p exec \<Rightarrow> string \<Rightarrow> 'p httpclient hooks" where
  "HttpClient_hooks exec reason = \<lparr>on_connect = HttpClient_Flush,
     on_connect_fail = (\<lambda>(c, m, h). Inr (c, m, http_tell (OnHttpError reason) h)),
     on_close = (\<lambda>(c, m, h). Inr (c, m, http_tell OnHttpClose h)), on_receive = HttpClient_OnReceive exec\<rparr>"

text \<open>
  \<open>SendAsync\<close>: \<open>url\<close> is the result of the parser of addresses, \<open>fd\<close> and \<open>rc\<close> those of \<open>socket\<close> and \<open>connect\<close>. The query is a C string.
\<close>

definition HttpClient_SendAsync :: "'p exec \<Rightarrow> string \<Rightarrow> urlparts option \<Rightarrow> int \<Rightarrow> connres \<Rightarrow> httpmethod \<Rightarrow> bytes
    \<Rightarrow> client \<times> mem \<times> 'p httpclient \<Rightarrow> (client \<times> mem \<times> 'p httpclient) result" where
  "HttpClient_SendAsync exec reason url fd rc meth querystring s = (case s of (c, m, h) \<Rightarrow>
     case url of
       None \<Rightarrow> Inr (c, m, http_tell (OnHttpError ''parser uri fail'') h)
     | Some u \<Rightarrow>
        (case url_host u of
           None \<Rightarrow> Inr (c, m, http_tell (OnHttpError ''parser uri fail: no host'') h)
         | Some host \<Rightarrow>
            let port = (if url_port u = 0 then 80 else url_port u);
                path = (case url_path u of Some p \<Rightarrow> p | None \<Rightarrow> bytes_of_string ''/'')
            in bindE (HttpClient_WriteHttpRequest meth host path (takeWhile (\<lambda>b. b \<noteq> 0) querystring) (h, m)) (\<lambda>(h1, m1).
                 Client_Connect (HttpClient_hooks exec reason) fd rc (c, m1, h1\<lparr>hc_dest := Some (host, port)\<rparr>))))"

definition http_send_async :: "'p exec \<Rightarrow> string \<Rightarrow> 'p \<Rightarrow> urlparts option \<Rightarrow> int \<Rightarrow> connres \<Rightarrow> httpmethod \<Rightarrow> bytes \<Rightarrow> wrres list \<Rightarrow> mem
    \<Rightarrow> (client \<times> mem \<times> 'p httpclient) result" where
  "http_send_async exec reason init url fd rc meth querystring tx m = bindE (HttpClient_new init m) (\<lambda>(h, m1).
     HttpClient_SendAsync exec reason url fd rc (if meth = HTTP_METHOD_GET then HTTP_METHOD_GET else HTTP_METHOD_POST) querystring
       (Client_new tx, m1, h))"

section \<open>The request on the wire\<close>

abbreviation piece_bytes :: "bytes \<times> nat \<Rightarrow> bytes" where
  "piece_bytes x \<equiv> take (unat (word_of_nat (snd x) :: 16 word)) (fst x)"

text \<open>Pieces are a third codec of packets.\<close>

interpretation raw: packet_codec write_piece "\<lambda>n. PacketInBase_ReadRaw (word_of_nat n)" snd piece_bytes piece_bytes
    "\<lambda>x. unat (word_of_nat (snd x) :: 16 word) \<le> length (fst x)"
proof unfold_locales
  fix m hs p and v :: "bytes \<times> nat" and n
  assume a: "pout_wf m hs p" "unat (word_of_nat (snd v) :: 16 word) \<le> length (fst v)" "room m hs p (n + cost2 m (length (piece_bytes v)))"
  show "\<exists>s. write_piece v (p, m) = Inr s \<and> put_done m hs p (piece_bytes v) n s"
    using PutByte_spec [OF a(1) cost_le_cost2 [OF a(3)]] a(2) by (simp add: write_piece_def PacketOutBase_WriteRaw_def not_less)
next
  fix m p and v :: "bytes \<times> nat" and r
  assume a: "pin_wf m p" "unat (word_of_nat (snd v) :: 16 word) \<le> length (fst v)" "drop (pk_pos p) (content m p) = piece_bytes v @ r"
  show "\<exists>p'. PacketInBase_ReadRaw (word_of_nat (snd v)) m p = Inr (piece_bytes v, p') \<and> advanced m p (length (piece_bytes v)) p'"
    using GetByte_next [OF a(1,3)] a(2) by (auto simp: PacketInBase_ReadRaw_def min_def)
qed

text \<open>A piece as it is written: its length is taken modulo \<open>2\<^sup>16\<close>.\<close>

definition cut16 :: "bytes \<Rightarrow> bytes" where
  "cut16 s = take (length s mod 65536) s"

definition http_text :: "httpmethod \<Rightarrow> bytes \<Rightarrow> bytes \<Rightarrow> bytes \<Rightarrow> bytes" where
  "http_text meth host path query = (case meth of
     HTTP_METHOD_GET \<Rightarrow> bytes_of_string ''GET '' @ cut16 path @ bytes_of_string ''?'' @ cut16 query @ bytes_of_string '' HTTP/1.1'' @ crlf @
       bytes_of_string ''HOST: '' @ cut16 host @ crlf @ crlf
   | HTTP_METHOD_POST \<Rightarrow> bytes_of_string ''POST '' @ cut16 path @ bytes_of_string '' HTTP/1.1'' @ crlf @
       bytes_of_string ''HOST: '' @ cut16 host @ crlf @ bytes_of_string ''Content-Type: application/x-www-form-urlencoded'' @ crlf @
       bytes_of_string ''Content-Length: '' @ decimal (length query) @ crlf @ crlf @ cut16 query)"

lemma cut16_short: "length s < 65536 \<Longrightarrow> cut16 s = s"
  by (simp add: cut16_def)

lemma length_decimal: "n < 10 ^ k \<Longrightarrow> 0 < k \<Longrightarrow> length (decimal n) \<le> k"
proof (induction k arbitrary: n)
  case (Suc k)
  show ?case
  proof (cases "n < 10")
    case False
    then have "n div 10 < 10 ^ k" "0 < k" using Suc.prems(1) by (auto simp: div_less_iff_less_mult mult.commute intro: ccontr)
    then show ?thesis using Suc.IH [of "n div 10"] False by (simp add: decimal.simps [of n])
  qed (simp add: decimal.simps [of n])
qed simp

lemma request_pieces_text:
  assumes "length query < 18446744073709551616"
  shows "concat (map piece_bytes (request_pieces meth host path query)) = http_text meth host path query"
    and "\<forall>x \<in> set (request_pieces meth host path query). unat (word_of_nat (snd x) :: 16 word) \<le> length (fst x)"
proof -
  have "length query < 10 ^ 20" using assms by simp
  then have "length (decimal (length query)) \<le> 20" by (rule length_decimal) simp
  then have d: "length (decimal (length query)) mod 65536 = length (decimal (length query))" by simp
  have w: "unat (word_of_nat n :: 16 word) = n mod 65536" for n by (rule unat_u16)
  show "concat (map piece_bytes (request_pieces meth host path query)) = http_text meth host path query"
    using d by (cases meth) (simp_all add: request_pieces_def http_text_def w cut16_def Let_def crlf_def)
  show "\<forall>x \<in> set (request_pieces meth host path query). unat (word_of_nat (snd x) :: 16 word) \<le> length (fst x)"
    by (cases meth) (simp_all add: request_pieces_def w Let_def crlf_def)
qed

abbreviation request_cost :: "mem \<Rightarrow> httpmethod \<Rightarrow> bytes \<Rightarrow> bytes \<Rightarrow> bytes \<Rightarrow> nat" where
  "request_cost m meth host path query \<equiv> sum_list (map (\<lambda>x. cost2 m (length (piece_bytes x))) (request_pieces meth host path query))"

lemma new_request:
  assumes inv: "mem_inv m []" and q: "length query < 18446744073709551616"
    and room: "room m [] Packet_new (cost m 120 + request_cost m meth host path query + 1)"
  shows "\<exists>h m1 h2 m2. HttpClient_new init m = Inr (h, m1) \<and> HttpClient_WriteHttpRequest meth host path query (h, m1) = Inr (h2, m2) \<and>
    pout_wf m2 [] (hc_req h2) \<and> room m2 [] (hc_req h2) 1 \<and> content m2 (hc_req h2) = http_text meth host path query \<and>
    h2 = \<lparr>hc_req = hc_req h2, hc_parser = init, hc_resp_body = [], hc_events = [], hc_dest = None\<rparr>"
proof -
  let ?n = "request_cost m meth host path query"
  have "room m [] Packet_new ((1 + ?n) + cost m 120)" using room by (simp add: ac_simps)
  from open_frame [OF inv this, of 0] obtain p m1 p1 where
    o: "PacketOutBase_new 120 m = Inr (p, m1)" "Packet_SkipTo p 0 = Inr p1" "pout_wf m1 [] p1" "pk_pos p1 = 0" "length (content m1 p1) = 0"
      "room m1 [] p1 (1 + ?n)" "mp_chunksize m1 = mp_chunksize m" by auto
  have "room m1 [] p1 (1 + request_cost m1 meth host path query)" using o(6,7) by (simp add: cost2_def)
  from raw.write_each [OF o(3) request_pieces_text(2) [OF q] this] obtain p2 m2 where
    w: "out_each write_piece (request_pieces meth host path query) (p1, m1) = Inr (p2, m2)"
      "put_done m1 [] p1 (http_text meth host path query) 1 (p2, m2)"
    using request_pieces_text(1) [OF q, of meth host path] by auto
  have "pout_wf m2 [] p2 \<and> room m2 [] p2 1 \<and> content m2 p2 = http_text meth host path query"
    using w(2) o(4,5) by (simp add: put_done_def overwrite_def)
  then show ?thesis using o(1,2) w(1) by (simp add: HttpClient_new_def HttpClient_WriteHttpRequest_def)
qed

text \<open>A descriptor on which no \<open>writev\<close> fails stays open.\<close>

definition open_for_writing :: "client \<Rightarrow> bool" where
  "open_for_writing c \<longleftrightarrow> io_fd (cl_io c) \<noteq> -1 \<and> WrError \<notin> set (cl_tx c)"

lemma kernel_writev_open: "fd \<noteq> -1 \<Longrightarrow> WrError \<notin> set tx \<Longrightarrow> kernel_writev fd n tx = (w, tx') \<Longrightarrow> w \<noteq> WrError \<and> set tx' \<subseteq> set tx"
  by (auto simp: kernel_writev.simps split: list.splits wrres.splits)

lemma InvokeSend_loop_open:
  "InvokeSend_loop b (c, m) = Inr (ev, c', m') \<Longrightarrow> cl_connect c' = cl_connect c \<and> (open_for_writing c \<longrightarrow> open_for_writing c')"
proof (induction b "(c, m)" arbitrary: c m rule: InvokeSend_loop.induct)
  case (1 sendevt c m)
  let ?iov = "Client_Sendq2IOVec c"
  obtain rc tx where w: "kernel_writev (io_fd (cl_io c)) (sum_list (map rm_count ?iov)) (cl_tx c) = (rc, tx)" by fastforce
  have o: "open_for_writing c \<Longrightarrow> rc \<noteq> WrError \<and> set tx \<subseteq> set (cl_tx c)" using kernel_writev_open [OF _ _ w] by (simp add: open_for_writing_def)
  note step = "1.prems" [unfolded InvokeSend_loop.simps [of sendevt "(c, m)"] prod.case Let_def w]
  show ?case
  proof (cases "?iov = []")
    case True
    then show ?thesis using step by simp
  next
    case False
    show ?thesis
    proof (cases rc)
      case (WrSent n)
      show ?thesis
      proof (cases "0 < n")
        case True
        obtain q m1 where q: "InvokeSend_pop n (cl_sendq c) m = Inr (q, m1)"
            "InvokeSend_loop True (c\<lparr>cl_tx := tx, cl_sendq := q, cl_wire := cl_wire c @ take n (concat (map (ref_bytes m) ?iov))\<rparr>, m1) = Inr (ev, c', m')"
          using step False WrSent True by (auto simp: bindE_eq_Inr)
        have q1: "InvokeSend_pop n (cl_sendq (c\<lparr>cl_tx := tx\<rparr>)) m = Inr (q, m1)" using q(1) by simp
        have q2: "InvokeSend_loop True (c\<lparr>cl_tx := tx\<rparr>\<lparr>cl_sendq := q, cl_wire := cl_wire (c\<lparr>cl_tx := tx\<rparr>) @ take n (concat (map (ref_bytes m) ?iov))\<rparr>, m1)
            = Inr (ev, c', m')" using q(2) by simp
        have "cl_connect c' = cl_connect c \<and> (open_for_writing (c\<lparr>cl_tx := tx\<rparr>) \<longrightarrow> open_for_writing c')"
          using "1.hyps" [OF refl refl False refl w [symmetric] refl WrSent True q1 refl q2] by (simp add: open_for_writing_def)
        then show ?thesis using o by (auto simp: open_for_writing_def)
      qed (use step False WrSent o in \<open>auto simp: open_for_writing_def\<close>)
    next
      case WrAgain
      then show ?thesis using step False o by (auto simp: bindE_eq_Inr EventIO_ModifyIOEvent_def open_for_writing_def assertE_eq_Inr)
    next
      case WrError
      then show ?thesis using step False o by (auto simp: bindE_eq_Inr Client_Close_def)
    qed
  qed
qed

lemma Flush_wire:
  assumes wf: "pout_wf m [] (hc_req h)" and room: "room m [] (hc_req h) 1"
    and c: "cl_sendq c = []" "cl_connect c" "eventio_ok (cl_io c)" "io_linked (cl_io c)"
  shows "\<exists>c' m'. HttpClient_Flush (c, m, h) = Inr (c', m', h) \<and> cl_wire c' @ unsent m' c' = cl_wire c @ content m (hc_req h) \<and>
    send_inv m' (pk_data (hc_req h)) c' \<and> cl_connect c' \<and> (open_for_writing c \<longrightarrow> open_for_writing c')"
proof -
  let ?p = "hc_req h"
  have b: "3 * length (pk_data ?p) + 5 < 4294967296" using room by (simp add: room_def)
  then have "2 * length (pk_data ?p) + length ([] :: refchunk list) < 4294967295" by simp
  from FetchData_spec [OF wf this] obtain ret m1 where
    f: "PacketOutBase_FetchData (?p, m) = Inr (ret, m1)" "data_bytes m1 ret = content m ?p" "mem_inv m1 (ret @ pk_data ?p @ [])"
      "length ret \<le> length (pk_data ?p)" by blast
  have si: "send_inv m1 (ret @ pk_data ?p) c" using f(3) c by (simp add: send_inv_def)
  have l: "length (cl_sendq c @ ret @ pk_data ?p) + length ret + 1 < 4294967296" using b f(4) c(1) by simp
  obtain ev c' m2 where ps: "Client_PushSend ret (c, m1) = Inr (ev, c', m2)" "send_inv m2 (ret @ pk_data ?p) c'"
      "cl_wire c' @ unsent m2 c' = cl_wire c @ unsent m1 c @ data_bytes m1 ret"
    using PushSend_spec [OF si c(2) _ l] by auto
  have o: "cl_connect c' \<and> (open_for_writing c \<longrightarrow> open_for_writing c')"
    using ps(1) c(2) by (auto simp: Client_PushSend_def Client_InvokeSend_def bindE_eq_Inr open_for_writing_def dest!: InvokeSend_loop_open)
  have "mem_inv m2 (cl_sendq c' @ ret @ pk_data ?p)" using ps(2) by (simp add: send_inv_def)
  from destroy_keeps [OF this] obtain m3 where d: "destroy_views ret m2 = Inr m3" "mem_inv m3 (cl_sendq c' @ pk_data ?p)"
      "data_bytes m3 (cl_sendq c') = data_bytes m2 (cl_sendq c')" by blast
  then have "HttpClient_Flush (c, m, h) = Inr (c', m3, h)" "unsent m3 c' = unsent m2 c'"
    using f(1) ps(1) by (simp_all add: HttpClient_Flush_def unsent_def)
  moreover have "unsent m1 c = []" using c(1) by (simp add: unsent_def)
  moreover have "send_inv m3 (pk_data ?p) c'" using ps(2) d(2) by (simp add: send_inv_def)
  ultimately show ?thesis using ps(3) f(2) o by auto
qed

text \<open>The address split into what \<open>SendAsync\<close> uses of it.\<close>

definition url_target :: "urlparts \<Rightarrow> bytes \<times> nat" where
  "url_target u = (the (url_host u), if url_port u = 0 then 80 else url_port u)"

definition url_path_or_root :: "urlparts \<Rightarrow> bytes" where
  "url_path_or_root u = (case url_path u of Some p \<Rightarrow> p | None \<Rightarrow> bytes_of_string ''/'')"

definition dialing :: "int \<Rightarrow> wrres list \<Rightarrow> client" where
  "dialing fd tx = (Client_new tx)\<lparr>cl_io := EventIO_new\<lparr>io_evt := IO_WRITEABLE, io_fd := fd, io_linked := True\<rparr>\<rparr>"

lemma send_async:
  assumes "mem_inv m []" and "url_host u = Some host" and "path = url_path_or_root u" and "query = takeWhile (\<lambda>b. b \<noteq> 0) querystring"
    and "length query < 18446744073709551616" and "room m [] Packet_new (cost m 120 + request_cost m meth host path query + 1)" and "fd \<noteq> -1"
  shows "\<exists>h m2. pout_wf m2 [] (hc_req h) \<and> room m2 [] (hc_req h) 1 \<and> content m2 (hc_req h) = http_text meth host path query \<and>
    hc_dest h = Some (url_target u) \<and> hc_events h = [] \<and> hc_resp_body h = [] \<and>
    http_send_async exec reason init (Some u) fd rc meth querystring tx m = (case rc of
        ConnFailed \<Rightarrow> bindE (on_connect_fail (HttpClient_hooks exec reason) (dialing fd tx, m2, h)) lift_close
      | ConnInProgress \<Rightarrow> Inr ((dialing fd tx)\<lparr>cl_pending := True\<rparr>, m2, h)
      | ConnDone \<Rightarrow> HttpClient_Flush ((dialing fd tx)\<lparr>cl_connect := True\<rparr>, m2, h))"
proof -
  obtain h1 m1 h2 m2 where n: "HttpClient_new init m = Inr (h1, m1)" "HttpClient_WriteHttpRequest meth host path query (h1, m1) = Inr (h2, m2)"
      "pout_wf m2 [] (hc_req h2)" "room m2 [] (hc_req h2) 1" "content m2 (hc_req h2) = http_text meth host path query"
      "h2 = \<lparr>hc_req = hc_req h2, hc_parser = init, hc_resp_body = [], hc_events = [], hc_dest = None\<rparr>"
    using new_request [OF assms(1,5,6), of init] by blast
  have m: "(if meth = HTTP_METHOD_GET then HTTP_METHOD_GET else HTTP_METHOD_POST) = meth" by (cases meth) simp_all
  have a: "EventIO_AddToDispatcher fd IO_WRITEABLE (cl_io (Client_new tx)) = Inr (EventIO_new\<lparr>io_evt := IO_WRITEABLE, io_fd := fd, io_linked := True\<rparr>)"
    using assms(7) by (simp add: EventIO_AddToDispatcher_def Client_new_def EventIO_new_def assertE_def Let_def)
  let ?h = "h2\<lparr>hc_dest := Some (url_target u)\<rparr>"
  have "http_send_async exec reason init (Some u) fd rc meth querystring tx m
      = Client_Connect (HttpClient_hooks exec reason) fd rc (Client_new tx, m2, ?h)"
    using n(1,2) assms(2-4) by (simp add: http_send_async_def m HttpClient_SendAsync_def Let_def url_target_def url_path_or_root_def)
  also have "\<dots> = (case rc of
        ConnFailed \<Rightarrow> bindE (on_connect_fail (HttpClient_hooks exec reason) (dialing fd tx, m2, ?h)) lift_close
      | ConnInProgress \<Rightarrow> Inr ((dialing fd tx)\<lparr>cl_pending := True\<rparr>, m2, ?h)
      | ConnDone \<Rightarrow> HttpClient_Flush ((dialing fd tx)\<lparr>cl_connect := True\<rparr>, m2, ?h))"
    using assms(7) a by (cases rc) (simp_all add: Client_Connect_def assertE_def Let_def dialing_def Client_OnConnectSuccess_def HttpClient_hooks_def)
  finally show ?thesis using n(3-6) by (intro exI [of _ ?h] exI [of _ m2]) (auto dest: arg_cong [of _ _ hc_events] arg_cong [of _ _ hc_resp_body])
qed

lemma dialing_simps:
  "cl_sendq (dialing fd tx) = []" "cl_wire (dialing fd tx) = []" "io_linked (cl_io (dialing fd tx))" "cl_tx (dialing fd tx) = tx"
  "io_fd (cl_io (dialing fd tx)) = fd" "\<not> io_closed (cl_io (dialing fd tx))"
  "fd \<noteq> -1 \<Longrightarrow> eventio_ok (cl_io (dialing fd tx))"
  by (simp_all add: dialing_def Client_new_def EventIO_new_def eventio_ok_def)

lemma Flush_failing:
  assumes wf: "pout_wf m [] (hc_req h)" and room: "room m [] (hc_req h) 1" and ne: "content m (hc_req h) \<noteq> []"
    and c: "cl_sendq c = []" "cl_connect c" "eventio_ok (cl_io c)" "io_linked (cl_io c)" "io_fd (cl_io c) \<noteq> -1" "cl_tx c = WrError # tx"
  shows "\<exists>c' m'. HttpClient_Flush (c, m, h) = Inr (c', m', h) \<and> cl_connect c' \<and> io_fd (cl_io c') = -1 \<and> cl_pending c' = cl_pending c"
proof -
  let ?p = "hc_req h"
  have b: "3 * length (pk_data ?p) + 5 < 4294967296" using room by (simp add: room_def)
  then have "2 * length (pk_data ?p) + length ([] :: refchunk list) < 4294967295" by simp
  from FetchData_spec [OF wf this] obtain ret m1 where
    f: "PacketOutBase_FetchData (?p, m) = Inr (ret, m1)" "data_bytes m1 ret = content m ?p" "mem_inv m1 (ret @ pk_data ?p @ [])"
      "length ret \<le> length (pk_data ?p)" by blast
  have "mem_inv m1 ([] @ ret @ pk_data ?p)" using f(3) by simp
  moreover have "length ([] @ ret @ pk_data ?p) + length ret + 1 < 4294967296" using b f(4) by simp
  ultimately obtain m2 where pc: "push_copies [] ret m1 = Inr ([] @ ret, m2)" "mem_inv m2 (([] @ ret) @ ret @ pk_data ?p)"
    using push_copies_spec [of m1 "[]" "ret @ pk_data ?p" ret] by auto
  have "ret \<noteq> []" using f(2) ne by auto
  then have iov: "Client_Sendq2IOVec (c\<lparr>cl_sendq := ret\<rparr>) \<noteq> []" by (cases ret) (simp_all add: Client_Sendq2IOVec_def SENDIOV_SIZE_def)
  obtain io where io: "EventIO_Close (cl_io c) = Inr io" "io_fd io = -1" using Close_ok [OF c(3)] by blast
  have k: "kernel_writev (io_fd (cl_io c)) n (cl_tx c) = (WrError, tx)" for n using c(5,6) by (simp add: kernel_writev.simps)
  let ?c = "c\<lparr>cl_sendq := ret, cl_tx := tx, cl_io := io\<rparr>"
  have "InvokeSend_loop False (c\<lparr>cl_sendq := ret\<rparr>, m2) = Inr (False, ?c, m2)"
    using iov k io(1) by (subst InvokeSend_loop.simps) (simp add: Let_def Client_Close_def)
  then have "Client_PushSend ret (c, m1) = Inr (False, ?c, m2)"
    using pc(1) c(1,2) by (simp add: Client_PushSend_def Client_InvokeSend_def)
  moreover obtain m3 where "destroy_views ret m2 = Inr m3"
    using destroy_keeps [of m2 ret ret "pk_data ?p"] pc(2) by auto
  ultimately show ?thesis using f(1) c(2) io(2) by (simp add: HttpClient_Flush_def)
qed

section \<open>Theorems on requests\<close>

text \<open>A connection that completes later: the request is sent by \<open>OnEventIOWriteable\<close>, which goes on to register the descriptor.\<close>

lemma Writeable_wire:
  assumes wf: "pout_wf m [] (hc_req h)" and room: "room m [] (hc_req h) 1"
    and c: "cl_sendq c = []" "cl_pending c" "eventio_ok (cl_io c)" "io_linked (cl_io c)" "open_for_writing c"
  shows "\<exists>c' m'. Client_OnEventIOWriteable (HttpClient_hooks exec reason) (Some 0) (c, m, h) = Inr (c', m', h) \<and>
    cl_wire c' @ unsent m' c' = cl_wire c @ content m (hc_req h)"
proof -
  let ?c = "c\<lparr>cl_pending := False, cl_connect := True\<rparr>"
  have "open_for_writing ?c" using c(5) by (simp add: open_for_writing_def)
  with Flush_wire [OF wf room, of ?c] c obtain c1 m1 where f: "HttpClient_Flush (?c, m, h) = Inr (c1, m1, h)"
      "cl_wire c1 @ unsent m1 c1 = cl_wire c @ content m (hc_req h)" "send_inv m1 (pk_data (hc_req h)) c1" "cl_connect c1" "open_for_writing c1" by auto
  let ?io = "(cl_io c1)\<lparr>io_evt := IO_READABLE\<rparr>"
  have io: "EventIO_ModifyIOEvent IO_READABLE (cl_io c1) = Inr ?io" "eventio_ok ?io" "io_linked ?io"
    using f(3,5) by (simp_all add: EventIO_ModifyIOEvent_def send_inv_def open_for_writing_def assertE_def eventio_ok_def)
  then have "send_inv m1 (pk_data (hc_req h)) (c1\<lparr>cl_io := ?io\<rparr>)" using f(3) by (simp add: send_inv_def)
  from InvokeSend_loop_spec [OF this, of False] obtain ev c2 m2 where "InvokeSend_loop False (c1\<lparr>cl_io := ?io\<rparr>, m1) = Inr (ev, c2, m2)"
      "cl_wire c2 @ unsent m2 c2 = cl_wire c1 @ unsent m1 c1" by (auto simp: unsent_def)
  then show ?thesis using f(1,2,4) io(1) c(2)
    by (simp add: Client_OnEventIOWriteable_def Client_CheckIfConnectCompleted_def Client_OnConnectSuccess_def HttpClient_hooks_def Client_InvokeSend_def Let_def)
qed

lemma Writeable_aborts:
  assumes wf: "pout_wf m [] (hc_req h)" and room: "room m [] (hc_req h) 1" and ne: "content m (hc_req h) \<noteq> []"
    and c: "cl_sendq c = []" "cl_pending c" "eventio_ok (cl_io c)" "io_linked (cl_io c)" "io_fd (cl_io c) \<noteq> -1" "cl_tx c = WrError # tx"
  shows "Client_OnEventIOWriteable (HttpClient_hooks exec reason) (Some 0) (c, m, h) = Inl AssertFailed"
proof -
  obtain c1 m1 where f: "HttpClient_Flush (c\<lparr>cl_pending := False, cl_connect := True\<rparr>, m, h) = Inr (c1, m1, h)" "cl_connect c1" "io_fd (cl_io c1) = -1"
    using Flush_failing [OF wf room ne, of "c\<lparr>cl_pending := False, cl_connect := True\<rparr>" tx] c by auto
  then have "EventIO_ModifyIOEvent IO_READABLE (cl_io c1) = Inl AssertFailed" by (simp add: EventIO_ModifyIOEvent_def assertE_def)
  then show ?thesis using f c(2)
    by (simp add: Client_OnEventIOWriteable_def Client_CheckIfConnectCompleted_def Client_OnConnectSuccess_def HttpClient_hooks_def Let_def)
qed

lemma Writeable_refused:
  assumes "cl_pending c" and "eventio_ok (cl_io c)" and "\<not> cl_connect c" and "err \<noteq> Some 0"
  shows "\<exists>c'. Client_OnEventIOWriteable (HttpClient_hooks exec reason) err (c, m, h) = Inr (c', m, http_tell (OnHttpError reason) h) \<and>
    cl_wire c' = cl_wire c \<and> cl_sendq c' = cl_sendq c"
proof -
  obtain io where "EventIO_Close (cl_io c) = Inr io" using Close_ok [OF assms(2)] by blast
  then show ?thesis using assms(1,3,4)
    by (cases err) (auto simp: Client_OnEventIOWriteable_def Client_CheckIfConnectCompleted_def HttpClient_hooks_def lift_close_def Client_Close_def Let_def)
qed

text \<open>
  C22. The request. When the connection is established at once, \<open>http_send_async\<close> puts exactly the text of the request on the
  wire, or in the queue behind it, however \<open>writev\<close> cuts it. When the connection is still in progress, the ordinary case, nothing is sent and nothing reported;
  when it completes, the first event of the descriptor sends exactly the same text if no \<open>writev\<close> fails, reports an error and sends nothing if the connection was refused, and
  ends the process if the first \<open>writev\<close> fails. When \<open>connect\<close> fails at once, the error is reported. The target is the host of the
  address with its port, or 80. Path, query and host are cut to their length modulo \<open>2\<^sup>16\<close>, the length announced for a POST is not: a longer query is announced in
  full and sent in part.
\<close>

theorem HttpClient_request_wire:
  assumes "mem_inv m []" and "url_host u = Some host" and "path = url_path_or_root u" and "query = takeWhile (\<lambda>b. b \<noteq> 0) querystring"
    and "length query < 18446744073709551616" and "room m [] Packet_new (cost m 120 + request_cost m meth host path query + 1)" and "fd \<noteq> -1"
  shows "\<exists>c' m' h'. http_send_async exec reason init (Some u) fd rc meth querystring tx m = Inr (c', m', h') \<and>
    hc_dest h' = Some (host, if url_port u = 0 then 80 else url_port u) \<and>
    (case rc of
       ConnDone \<Rightarrow> cl_wire c' @ unsent m' c' = http_text meth host path query \<and> hc_events h' = []
     | ConnFailed \<Rightarrow> cl_wire c' @ unsent m' c' = [] \<and> hc_events h' = [OnHttpError reason]
     | ConnInProgress \<Rightarrow> cl_wire c' @ unsent m' c' = [] \<and> hc_events h' = [] \<and>
         (WrError \<notin> set tx \<longrightarrow> (\<exists>c2 m2. Client_OnEventIOWriteable (HttpClient_hooks exec reason) (Some 0) (c', m', h') = Inr (c2, m2, h') \<and>
            cl_wire c2 @ unsent m2 c2 = http_text meth host path query)) \<and>
         (\<forall>tx'. tx = WrError # tx' \<longrightarrow> Client_OnEventIOWriteable (HttpClient_hooks exec reason) (Some 0) (c', m', h') = Inl AssertFailed) \<and>
         (\<forall>err. err \<noteq> Some 0 \<longrightarrow> (\<exists>c2 m2 h2. Client_OnEventIOWriteable (HttpClient_hooks exec reason) err (c', m', h') = Inr (c2, m2, h2) \<and>
            cl_wire c2 @ unsent m2 c2 = [] \<and> hc_events h2 = [OnHttpError reason])))"
proof -
  obtain h m2 where s: "pout_wf m2 [] (hc_req h)" "room m2 [] (hc_req h) 1" "content m2 (hc_req h) = http_text meth host path query"
      "hc_dest h = Some (url_target u)" "hc_events h = []"
      "http_send_async exec reason init (Some u) fd rc meth querystring tx m = (case rc of
          ConnFailed \<Rightarrow> bindE (on_connect_fail (HttpClient_hooks exec reason) (dialing fd tx, m2, h)) lift_close
        | ConnInProgress \<Rightarrow> Inr ((dialing fd tx)\<lparr>cl_pending := True\<rparr>, m2, h)
        | ConnDone \<Rightarrow> HttpClient_Flush ((dialing fd tx)\<lparr>cl_connect := True\<rparr>, m2, h))"
    using send_async [OF assms, of exec reason init rc tx] by blast
  note d = dialing_simps [of fd tx] assms(7)
  have t: "url_target u = (host, if url_port u = 0 then 80 else url_port u)" using assms(2) by (simp add: url_target_def)
  have ne: "content m2 (hc_req h) \<noteq> []" unfolding s(3) by (cases meth) (simp_all add: http_text_def bytes_of_string_def)
  show ?thesis
  proof (cases rc)
    case ConnDone
    from Flush_wire [OF s(1,2), of "(dialing fd tx)\<lparr>cl_connect := True\<rparr>"] show ?thesis using s(3-6) ConnDone d t by auto
  next
    case ConnFailed
    obtain io where "EventIO_Close (cl_io (dialing fd tx)) = Inr io" using Close_ok d(7,8) by blast
    then show ?thesis using s(4-6) ConnFailed d(1,2) t by (simp add: HttpClient_hooks_def lift_close_def Client_Close_def http_tell_def unsent_def)
  next
    case ConnInProgress
    let ?c = "(dialing fd tx)\<lparr>cl_pending := True\<rparr>"
    have c: "cl_sendq ?c = []" "cl_pending ?c" "eventio_ok (cl_io ?c)" "io_linked (cl_io ?c)" "io_fd (cl_io ?c) \<noteq> -1" "cl_tx ?c = tx" "cl_wire ?c = []" "\<not> cl_connect ?c"
      using d by (simp_all add: dialing_def Client_new_def)
    have "WrError \<notin> set tx \<Longrightarrow> open_for_writing ?c" using c(5,6) by (simp add: open_for_writing_def)
    note sent = Writeable_wire [OF s(1,2) c(1-4) this, of exec reason] and aborts = Writeable_aborts [OF s(1,2) ne c(1-5), of _ exec reason]
      and refused = Writeable_refused [OF c(2,3,8), of _ exec reason m2 h]
    have "\<exists>c2 m3 h2. Client_OnEventIOWriteable (HttpClient_hooks exec reason) err (?c, m2, h) = Inr (c2, m3, h2) \<and>
        cl_wire c2 @ unsent m3 c2 = [] \<and> hc_events h2 = [OnHttpError reason]" if "err \<noteq> Some 0" for err
      using refused [OF that] c(1,7) s(5) by (auto simp: unsent_def http_tell_def)
    moreover have "WrError \<notin> set tx \<Longrightarrow> \<exists>c2 m3. Client_OnEventIOWriteable (HttpClient_hooks exec reason) (Some 0) (?c, m2, h) = Inr (c2, m3, h) \<and>
        cl_wire c2 @ unsent m3 c2 = http_text meth host path query" using sent s(3) c(7) by simp
    moreover have "cl_wire ?c @ unsent m2 ?c = []" using c(1,7) by (simp add: unsent_def)
    ultimately show ?thesis using s(4-6) ConnInProgress t aborts c(6)
      by (intro exI [of _ ?c] exI [of _ m2] exI [of _ h]) (simp del: bindE_Inl)
  qed
qed

definition example_url :: urlparts where
  "example_url = \<lparr>url_host = Some (bytes_of_string ''a''), url_port = 0, url_path = None\<rparr>"

lemma example_request:
  "url_host example_url = Some (bytes_of_string ''a'')" "url_path_or_root example_url = bytes_of_string ''/''" "url_port example_url = 0"
  "room (MemoryPool_new (\<lambda>_ _. 0) 3 2) [] Packet_new (cost (MemoryPool_new (\<lambda>_ _. 0) 3 2) 120
     + request_cost (MemoryPool_new (\<lambda>_ _. 0) 3 2) HTTP_METHOD_GET (bytes_of_string ''a'') (bytes_of_string ''/'') (bytes_of_string ''q'') + 1)"
proof -
  show "url_host example_url = Some (bytes_of_string ''a'')" "url_path_or_root example_url = bytes_of_string ''/''" "url_port example_url = 0"
    by (simp_all add: example_url_def url_path_or_root_def)
  show "room (MemoryPool_new (\<lambda>_ _. 0) 3 2) [] Packet_new (cost (MemoryPool_new (\<lambda>_ _. 0) 3 2) 120
     + request_cost (MemoryPool_new (\<lambda>_ _. 0) 3 2) HTTP_METHOD_GET (bytes_of_string ''a'') (bytes_of_string ''/'') (bytes_of_string ''q'') + 1)"
    by (rule new_pool_room) (simp add: cost_def cost2_def new_pool_chunksize request_pieces_def crlf_def Let_def)
qed

lemma example_query: "bytes_of_string ''q'' = takeWhile (\<lambda>b. b \<noteq> 0) (bytes_of_string ''q'')" "length (bytes_of_string ''q'') < 18446744073709551616"
  by (simp_all add: bytes_of_string_def)

theorem HttpClient_request_wire_witness:
  "\<exists>c' m' h' c2 m2. http_send_async (\<lambda>p bs. (length bs, [PBody bs], p)) [] () (Some example_url) 5 ConnInProgress HTTP_METHOD_GET (bytes_of_string ''q'') [WrSent 9]
      (MemoryPool_new (\<lambda>_ _. 0) 3 2) = Inr (c', m', h') \<and>
    Client_OnEventIOWriteable (HttpClient_hooks (\<lambda>p bs. (length bs, [PBody bs], p)) []) (Some 0) (c', m', h') = Inr (c2, m2, h') \<and>
    cl_wire c2 @ unsent m2 c2 = bytes_of_string ''GET /?q HTTP/1.1'' @ crlf @ bytes_of_string ''HOST: a'' @ crlf @ crlf \<and>
    hc_dest h' = Some (bytes_of_string ''a'', 80)"
  using HttpClient_request_wire [OF new_pool_inv example_request(1) example_request(2) [symmetric] example_query example_request(4),
      of 5 "\<lambda>p bs. (length bs, [PBody bs], p)" "[]" "()" ConnInProgress "[WrSent 9]"] example_request(3)
  by (fastforce simp: http_text_def cut16_def bytes_of_string_def)

section \<open>Receiving the response\<close>

text \<open>The body collected and the reports made by a sequence of callbacks.\<close>

fun effect :: "pevent list \<Rightarrow> bytes \<times> hevent list \<Rightarrow> bytes \<times> hevent list" where
  "effect [] s = s"
| "effect (PBegin # es) s = effect es s"
| "effect (PBody at # es) s = effect es (fst s @ at, snd s)"
| "effect (PComplete # es) s = effect es (fst s, snd s @ [OnHttpResponse (takeWhile (\<lambda>b. b \<noteq> 0) (fst s))])"

text \<open>
  What the library documents of \<open>http_parser_execute\<close> for input it accepts: the input may be given in pieces. Every proper prefix is consumed as a whole, the rest
  is parsed from there, and both parts together report what one call reports, the body possibly in other pieces. For input
  that the parser rejects it does not hold: a chunk with a wrong end loses its body if the end is in the same piece, and keeps it otherwise.
\<close>

function incremental_on :: "'p exec \<Rightarrow> 'p \<Rightarrow> bytes \<Rightarrow> bool" where
  "incremental_on exec p bs \<longleftrightarrow> (\<forall>k \<in> {0<..<length bs}.
     fst (exec p (take k bs)) = k \<and>
     (let (_, e1, p1) = exec p (take k bs); (n2, e2, p2) = exec p1 (drop k bs); (n, e, q) = exec p bs in
       (n = length bs \<longleftrightarrow> n2 = length (drop k bs)) \<and> q = p2 \<and> (\<forall>s. effect e s = effect e2 (effect e1 s)) \<and> incremental_on exec p1 (drop k bs)))"
  by pat_completeness auto
termination by (relation "measure (\<lambda>(exec, p, bs). length bs)") auto

declare incremental_on.simps [simp del]

lemma run_callbacks_spec:
  assumes "net_inv m hs c"
  shows "\<exists>c'. run_callbacks es (c, h) = Inr (c', h\<lparr>hc_resp_body := fst (effect es (hc_resp_body h, hc_events h)),
     hc_events := snd (effect es (hc_resp_body h, hc_events h))\<rparr>) \<and> left_alone m hs c c'"
  using assms
proof (induction es arbitrary: c h)
  case Nil
  then show ?case by (auto simp: left_alone_refl)
next
  case (Cons e es)
  show ?case
  proof (cases e)
    case PBegin
    then show ?thesis using Cons by auto
  next
    case (PBody at)
    then show ?thesis using Cons.IH [OF Cons.prems, of "h\<lparr>hc_resp_body := hc_resp_body h @ at\<rparr>"] by (auto simp: body_cb_def)
  next
    case PComplete
    obtain c1 where c1: "Client_Close c = Inr c1" "left_alone m hs c c1" using left_alone_close [OF Cons.prems] by blast
    then have "net_inv m hs c1" by (simp add: left_alone_def)
    from Cons.IH [OF this, of "http_tell (OnHttpResponse (takeWhile (\<lambda>b. b \<noteq> 0) (hc_resp_body h))) h"]
    show ?thesis using PComplete c1 left_alone_trans [OF c1(2)] by (auto simp: message_complete_cb_def http_tell_def Let_def)
  qed
qed

lemma chunk_load_ref: "rm_wf m r \<Longrightarrow> chunk_load (rm_chunk r) (rm_data r) (rm_count r) m = Inr (ref_bytes m r)"
  by (auto simp: rm_wf_def chunk_load_def ref_bytes_def split: option.splits)

text \<open>The client after the parser returned \<open>(n, es, p)\<close> on \<open>len\<close> bytes.\<close>

definition parsed :: "nat \<Rightarrow> nat \<times> pevent list \<times> 'p \<Rightarrow> 'p httpclient \<Rightarrow> 'p httpclient" where
  "parsed len r h = (case r of (n, es, p) \<Rightarrow>
     h\<lparr>hc_parser := p, hc_resp_body := fst (effect es (hc_resp_body h, hc_events h)),
       hc_events := snd (effect es (hc_resp_body h, hc_events h)) @ (if n = len then [] else [OnHttpError ''parser error''])\<rparr>)"

text \<open>The views given to the parser one by one, until it stops in one of them.\<close>

fun feed :: "'p exec \<Rightarrow> bytes list \<Rightarrow> 'p httpclient \<Rightarrow> 'p httpclient" where
  "feed exec [] h = h"
| "feed exec (v # vs) h = (let r = exec (hc_parser h) v; h1 = parsed (length v) r h in if fst r = length v then feed exec vs h1 else h1)"

lemma parse_views_feed:
  "all_wf m rs \<Longrightarrow> net_inv m hs c \<Longrightarrow> \<exists>c'. parse_views exec m rs (c, h) = Inr (c', feed exec (map (ref_bytes m) rs) h) \<and> left_alone m hs c c'"
proof (induction rs arbitrary: c h)
  case Nil
  then show ?case by (simp add: left_alone_refl)
next
  case (Cons r rs)
  let ?a = "ref_bytes m r"
  have ld: "chunk_load (rm_chunk r) (rm_data r) (rm_count r) m = Inr ?a" using chunk_load_ref Cons.prems(1) by simp
  have la: "length ?a = rm_count r" using length_ref_bytes [of m r] Cons.prems(1) by simp
  obtain n1 e1 p1 where x1: "exec (hc_parser h) ?a = (n1, e1, p1)" by (metis prod_cases3)
  define h1 where "h1 = h\<lparr>hc_parser := p1, hc_resp_body := fst (effect e1 (hc_resp_body h, hc_events h)),
      hc_events := snd (effect e1 (hc_resp_body h, hc_events h))\<rparr>"
  obtain c1 where c1: "run_callbacks e1 (c, h\<lparr>hc_parser := p1\<rparr>) = Inr (c1, h1)" "left_alone m hs c c1"
    using run_callbacks_spec [OF Cons.prems(2), of e1 "h\<lparr>hc_parser := p1\<rparr>"] by (auto simp: h1_def)
  have i1: "net_inv m hs c1" using c1(2) by (simp add: left_alone_def)
  have step: "parse_views exec m (r # rs) (c, h) = (if n1 \<noteq> rm_count r then Inr (c1, http_tell (OnHttpError ''parser error'') h1)
      else parse_views exec m rs (c1, h1))"
    using ld x1 c1(1) by simp
  have p: "parsed (length ?a) (exec (hc_parser h) ?a) h = (if n1 = length ?a then h1 else http_tell (OnHttpError ''parser error'') h1)"
    by (simp add: parsed_def x1 h1_def http_tell_def)
  show ?case
  proof (cases "n1 = length ?a")
    case True
    obtain c2 where c2: "parse_views exec m rs (c1, h1) = Inr (c2, feed exec (map (ref_bytes m) rs) h1)" "left_alone m hs c1 c2"
      using Cons.IH [OF _ i1, of h1] Cons.prems(1) by auto
    then show ?thesis using step True la p x1 left_alone_trans [OF c1(2) c2(2)] by (auto simp: Let_def)
  next
    case False
    then show ?thesis using step la p x1 c1(2) by (auto simp: Let_def)
  qed
qed

lemma feed_incremental:
  "vs \<noteq> [] \<Longrightarrow> \<forall>v \<in> set vs. v \<noteq> [] \<Longrightarrow> incremental_on exec (hc_parser h) (concat vs) \<Longrightarrow>
    feed exec vs h = parsed (length (concat vs)) (exec (hc_parser h) (concat vs)) h"
proof (induction vs arbitrary: h)
  case (Cons v vs)
  let ?bs = "concat (v # vs)"
  show ?case
  proof (cases "vs = []")
    case True
    then show ?thesis by (simp add: Let_def)
  next
    case False
    have k: "length v \<in> {0<..<length ?bs}" "take (length v) ?bs = v" "drop (length v) ?bs = concat vs" using False Cons.prems(2) by (cases vs; auto)+
    obtain n1 e1 p1 where x1: "exec (hc_parser h) v = (n1, e1, p1)" by (metis prod_cases3)
    obtain n2 e2 p2 where x2: "exec p1 (concat vs) = (n2, e2, p2)" by (metis prod_cases3)
    obtain n e q where x: "exec (hc_parser h) ?bs = (n, e, q)" by (metis prod_cases3)
    have inc: "n1 = length v" "n = length ?bs \<longleftrightarrow> n2 = length (concat vs)" "q = p2" "effect e s = effect e2 (effect e1 s)" "incremental_on exec p1 (concat vs)" for s
      using Cons.prems(3) [unfolded incremental_on.simps [of exec _ ?bs], rule_format, OF k(1)] unfolding k(2,3) x1 x
      by (cases s; simp add: Let_def x2)+
    define h1 where "h1 = parsed (length v) (exec (hc_parser h) v) h"
    have h1: "hc_parser h1 = p1" by (simp add: h1_def parsed_def x1)
    have "feed exec (v # vs) h = feed exec vs h1" using x1 inc(1) by (simp add: h1_def)
    also have "\<dots> = parsed (length (concat vs)) (exec p1 (concat vs)) h1" using Cons.IH [of h1] False Cons.prems(2) inc(5) h1 by simp
    also have "\<dots> = parsed (length ?bs) (exec (hc_parser h) ?bs) h"
      unfolding x x2 using inc(1-4) by (simp add: parsed_def h1_def x1)
    finally show ?thesis .
  qed
qed simp

lemma PopReceive_loop_all:
  "\<forall>r \<in> set q. 0 < rm_count r \<Longrightarrow> PopReceive_loop q dst (sum_list (map rm_count q)) tot m = Inr (t, q', dst', m') \<Longrightarrow> dst' = dst @ q"
proof (induction q arbitrary: dst tot m)
  case (Cons r q)
  obtain m2 where "PopReceive_loop q (dst @ [r]) (sum_list (map rm_count q)) (tot + rm_count r) m2 = Inr (t, q', dst', m')"
    using Cons.prems by (auto simp: RefMemoryChunk_copy_def bindE_eq_Inr)
  then show ?case using Cons.IH [of "dst @ [r]"] Cons.prems(1) by simp
qed simp

text \<open>
  C27. Receiving the response, for an arbitrary parser. When data has arrived, all of it is taken off the stream, and the parser is given the received views one
  by one and in order until it stops in one of them, which is reported once, as the last report; the body collected, the reports made and the state of the parser are those of
  these calls. If the parser handles the bytes incrementally, as the library documents for input that it accepts, that is the effect of a single call on
  all bytes, so it does not depend on how the network cut the response.
\<close>

theorem HttpClient_OnReceive_chunking:
  assumes "net_inv m [] c" and "length (all_views c []) + 2 < 4294967296" and "\<forall>r \<in> set (cl_recvq c). 0 < rm_count r" and "stream_of m c \<noteq> []"
  shows "\<exists>c' m' h'. HttpClient_OnReceive exec (cl_recvq_count c) (c, m, h) = Inr (c', m', h') \<and> net_inv m' [] c' \<and> stream_of m' c' = [] \<and>
    h' = feed exec (map (ref_bytes m) (cl_recvq c)) h \<and>
    (incremental_on exec (hc_parser h) (stream_of m c) \<longrightarrow> (case exec (hc_parser h) (stream_of m c) of (n, es, p) \<Rightarrow> hc_parser h' = p \<and>
       (hc_resp_body h', hc_events h') = (let (b, evs) = effect es (hc_resp_body h, hc_events h)
         in (b, evs @ (if n = length (stream_of m c) then [] else [OnHttpError ''parser error''])))))"
proof -
  let ?n = "cl_recvq_count c" and ?vs = "map (ref_bytes m) (cl_recvq c)"
  have n: "?n = length (stream_of m c)" "?n = sum_list (map rm_count (cl_recvq c))"
    using length_stream_of [OF assms(1)] assms(1) by (simp_all add: net_inv_def)
  obtain k data c1 m1 where p: "Client_PopReceive [] ?n (c, m) = Inr (k, data, c1, m1)" "net_inv m1 (data @ []) c1"
      "data_bytes m1 data = take ?n (stream_of m c)" "stream_of m1 c1 = drop ?n (stream_of m c)"
    using PopReceive_spec [OF assms(1,2), of ?n] by blast
  have d: "data = cl_recvq c"
    using p(1) PopReceive_loop_all [OF assms(3), of "[]" 0 m] unfolding n(2) by (fastforce simp: Client_PopReceive_def bindE_eq_Inr)
  have wf: "all_wf m1 data" "all_wf m (cl_recvq c)" using net_inv_wf [OF p(2)] net_inv_wf [OF assms(1)] by auto
  have b: "concat (map (ref_bytes m1) data) = concat ?vs" using p(3) n(1) by (simp add: data_bytes_def stream_of_def)
  have "length (ref_bytes m1 r) = length (ref_bytes m r)" if "r \<in> set data" for r using that wf d by (simp add: length_ref_bytes)
  then have vs: "map (ref_bytes m1) data = ?vs"
    using concat_injective [OF b] unfolding d by (auto simp: zip_map_map zip_same_conv_map)
  obtain c2 where v: "parse_views exec m1 data (c1, h) = Inr (c2, feed exec ?vs h)" "left_alone m1 data c1 c2"
    using parse_views_feed [OF wf(1), of data c1 exec h] p(2) vs by auto
  obtain m3 where f: "destroy_views data m1 = Inr m3" "net_inv m3 [] c2" "stream_of m3 c2 = stream_of m1 c1"
    using finish_message [OF _ v(2)] p(2) by auto
  have r: "HttpClient_OnReceive exec ?n (c, m, h) = Inr (c2, m3, feed exec ?vs h)"
    using p(1) v(1) f(1) by (simp add: HttpClient_OnReceive_def)
  have st: "concat ?vs = stream_of m c" by (simp add: data_bytes_def stream_of_def)
  have "ref_bytes m r \<noteq> []" if "r \<in> set (cl_recvq c)" for r using that wf(2) assms(3) length_ref_bytes [of m r] by auto
  then have "feed exec ?vs h = parsed (length (stream_of m c)) (exec (hc_parser h) (stream_of m c)) h" if "incremental_on exec (hc_parser h) (stream_of m c)"
    using feed_incremental [of ?vs exec h] that assms(4) unfolding st by (fastforce simp: stream_of_def data_bytes_def)
  moreover have "stream_of m3 c2 = []" using f(3) p(4) n(1) by simp
  ultimately show ?thesis using r f(2) by (auto simp: parsed_def split: prod.splits)
qed

text \<open>A parser for bodies of a given length, which stops behind the body.\<close>

definition body_parser :: "nat option exec" where
  "body_parser p bs = (case p of None \<Rightarrow> (0, [], None)
     | Some k \<Rightarrow> if length bs < k then (length bs, [PBody bs], Some (k - length bs)) else (k, [PBody (take k bs), PComplete], None))"

lemma body_parser_incremental: "length bs \<le> k \<Longrightarrow> incremental_on body_parser (Some k) bs"
proof (induction "length bs" arbitrary: bs k rule: less_induct)
  case less
  have "incremental_on body_parser (Some (k - j)) (drop j bs)" if "0 < j" "j < length bs" for j using less that by simp
  then show ?case using less.prems by (subst incremental_on.simps) (auto simp: body_parser_def Let_def min_def)
qed

theorem HttpClient_OnReceive_chunking_witness:
  "\<exists>c' m' h'. HttpClient_OnReceive body_parser 4 (loaded_client [72, 105, 0, 33], loaded_mem [72, 105, 0, 33],
       \<lparr>hc_req = Packet_new, hc_parser = Some 4, hc_resp_body = [], hc_events = [], hc_dest = None\<rparr>) = Inr (c', m', h') \<and>
     stream_of m' c' = [] \<and> hc_resp_body h' = [72, 105, 0, 33] \<and> hc_events h' = [OnHttpResponse [72, 105]]"
proof -
  let ?b = "[72, 105, 0, 33] :: bytes"
  let ?h = "\<lparr>hc_req = Packet_new, hc_parser = Some 4, hc_resp_body = [], hc_events = [], hc_dest = None\<rparr>"
  have i: "net_inv (loaded_mem ?b) [] (loaded_client ?b)" "length (all_views (loaded_client ?b) []) + 2 < 4294967296"
      "stream_of (loaded_mem ?b) (loaded_client ?b) = ?b"
    using loaded_client_inv [of ?b] by simp_all
  have n: "cl_recvq_count (loaded_client ?b) = 4" "\<forall>r \<in> set (cl_recvq (loaded_client ?b)). 0 < rm_count r" by (simp_all add: loaded_client_def)
  have "stream_of (loaded_mem ?b) (loaded_client ?b) \<noteq> []" unfolding i(3) by simp
  from HttpClient_OnReceive_chunking [OF i(1,2) n(2) this, of body_parser ?h] show ?thesis
    unfolding n(1) i(3) using body_parser_incremental [of ?b 4] by (auto simp: body_parser_def)
qed

end
