(* ===== verification/ThreadPool.thy ===== *)
theory ThreadPool
  imports Prelude
begin

text \<open>
  \<open>base/thread/threadpool.h\<close> and \<open>threadpool.cpp\<close>: the pool's worker threads, the callers of
  \<open>QueueUserWorkItem\<close> and the owner that starts, stops and deletes the pool, interleaved one statement at a time. Every
  thread has a program counter; \<open>tp_step\<close> performs the next statement of one thread and is \<open>None\<close> while the
  thread is blocked. Reads and writes of \<open>run_\<close>, which the code does not protect, are single steps. A condition
  variable wakes the worker the environment chooses and may wake one spuriously. The traces record which tasks were queued,
  taken, run and deleted. Theorems: mutual exclusion, no undefined access and exactly-once first-in-first-out execution in
  every interleaving, no stall while work is queued, and an interleaving in which \<open>Stop\<close> never returns.
\<close>

section \<open>Model\<close>

text \<open>
  The statements of \<open>WorkerThread\<close>: the test of the loop, \<open>pthread_mutex_lock\<close>, the test of \<open>tasks_.empty()\<close>,
  the inner test of \<open>run_\<close> with \<open>front\<close> and \<open>pop\<close>, waiting on the condition, taking the mutex again,
  \<open>pthread_mutex_unlock\<close>, the call of the job and its deletion.
\<close>

datatype wpc = WTest | WLock | WHold | WPop | WWait | WWake | WUnlock | WRun | WDelete | WDone

record worker =
  wk_pc :: wpc
  wk_job :: "nat option"

text \<open>The statements of \<open>QueueUserWorkItem\<close>; one entry per call.\<close>

datatype qpc = QLock | QPush | QUnlock | QSignal | QDone

record qcall =
  qc_pc :: qpc
  qc_task :: nat

text \<open>
  The owner: outside of a call, creating threads in \<open>Start\<close>, at the broadcast and at the joins of \<open>Stop\<close> (the
  flag says that the destructor called it), destroying the mutex, deleting the tasks left over, done.
\<close>

datatype opc = OIdle | OCreate nat | OBroadcast bool | OJoin nat bool | ODestroy | ODrain | ODead

datatype tid = TWorker nat | TCall nat

record tpool =
  tp_min :: int
  tp_max :: int
  tp_run :: bool
  tp_tasks :: "nat list"
  tp_threads :: "worker list"
  tp_mutex :: "tid option"
  tp_calls :: "qcall list"
  tp_owner :: opc
  tp_queued :: "nat list"
  tp_taken :: "(nat \<times> nat) list"
  tp_executed :: "(nat \<times> nat) list"
  tp_deleted :: "(nat \<times> nat) list"
  tp_dropped :: "nat list"

definition ThreadPool_new :: "int \<Rightarrow> int \<Rightarrow> tpool" where
  "ThreadPool_new mi ma = \<lparr>tp_min = mi, tp_max = ma, tp_run = False, tp_tasks = [], tp_threads = [], tp_mutex = None,
     tp_calls = [], tp_owner = OIdle, tp_queued = [], tp_taken = [], tp_executed = [], tp_deleted = [], tp_dropped = []\<rparr>"

definition SetMinThreads :: "int \<Rightarrow> tpool \<Rightarrow> tpool" where
  "SetMinThreads mi s = s\<lparr>tp_min := mi\<rparr>"

definition SetMaxThreads :: "int \<Rightarrow> tpool \<Rightarrow> tpool" where
  "SetMaxThreads ma s = s\<lparr>tp_max := ma\<rparr>"

definition tp_gone :: "tpool \<Rightarrow> bool" where
  "tp_gone s = (tp_owner s = ODrain \<or> tp_owner s = ODead)"

definition put_worker :: "nat \<Rightarrow> wpc \<Rightarrow> nat option \<Rightarrow> tpool \<Rightarrow> tpool" where
  "put_worker i p j s = s\<lparr>tp_threads := (tp_threads s)[i := \<lparr>wk_pc = p, wk_job = j\<rparr>]\<rparr>"

text \<open>\<open>WorkerThread\<close>, the next statement of worker \<open>i\<close>.\<close>

definition WorkerThread_step :: "nat \<Rightarrow> tpool \<Rightarrow> tpool result option" where
  "WorkerThread_step i s =
     (if i < length (tp_threads s) then
        let w = tp_threads s ! i; j = wk_job w in
        if tp_gone s \<and> wk_pc w \<noteq> WDone then Some (Inl UseAfterFree)
        else (case wk_pc w of
          WTest \<Rightarrow> Some (Inr (put_worker i (if tp_run s then WLock else WDone) j s))
        | WLock \<Rightarrow> (if tp_mutex s = None then Some (Inr (put_worker i WHold j (s\<lparr>tp_mutex := Some (TWorker i)\<rparr>))) else None)
        | WHold \<Rightarrow> (if tp_tasks s = [] then Some (Inr (put_worker i WWait j (s\<lparr>tp_mutex := None\<rparr>)))
                   else Some (Inr (put_worker i WPop j s)))
        | WPop \<Rightarrow> (if tp_run s then
                    (case tp_tasks s of [] \<Rightarrow> Some (Inl OutOfRange)
                     | t # ts \<Rightarrow> Some (Inr (put_worker i WUnlock (Some t) (s\<lparr>tp_tasks := ts, tp_taken := tp_taken s @ [(i, t)]\<rparr>))))
                  else Some (Inr (put_worker i WUnlock j s)))
        | WWait \<Rightarrow> None
        | WWake \<Rightarrow> (if tp_mutex s = None then Some (Inr (put_worker i WUnlock j (s\<lparr>tp_mutex := Some (TWorker i)\<rparr>))) else None)
        | WUnlock \<Rightarrow> Some (Inr (put_worker i WRun j (s\<lparr>tp_mutex := None\<rparr>)))
        | WRun \<Rightarrow> (case j of None \<Rightarrow> Some (Inr (put_worker i WTest None s))
                  | Some t \<Rightarrow> Some (Inr (put_worker i WDelete j (s\<lparr>tp_executed := tp_executed s @ [(i, t)]\<rparr>))))
        | WDelete \<Rightarrow> (case j of None \<Rightarrow> Some (Inl NullDeref)
                  | Some t \<Rightarrow> Some (Inr (put_worker i WTest None (s\<lparr>tp_deleted := tp_deleted s @ [(i, t)]\<rparr>))))
        | WDone \<Rightarrow> None)
      else None)"

definition wakes :: "nat \<Rightarrow> tpool \<Rightarrow> bool" where
  "wakes i s = (i < length (tp_threads s) \<and> wk_pc (tp_threads s ! i) = WWait)"

definition wake_worker :: "nat \<Rightarrow> tpool \<Rightarrow> tpool" where
  "wake_worker i s = put_worker i WWake (wk_job (tp_threads s ! i)) s"

definition put_call :: "nat \<Rightarrow> qpc \<Rightarrow> tpool \<Rightarrow> tpool" where
  "put_call p q s = s\<lparr>tp_calls := (tp_calls s)[p := (tp_calls s ! p)\<lparr>qc_pc := q\<rparr>]\<rparr>"

text \<open>\<open>QueueUserWorkItem\<close>, the next statement of call \<open>p\<close>; the signal wakes worker \<open>w\<close> if any waits.\<close>

definition QueueUserWorkItem_step :: "nat \<Rightarrow> nat \<Rightarrow> tpool \<Rightarrow> tpool result option" where
  "QueueUserWorkItem_step p w s =
     (if p < length (tp_calls s) then
        let c = tp_calls s ! p in
        if tp_gone s \<and> qc_pc c \<noteq> QDone then Some (Inl UseAfterFree)
        else (case qc_pc c of
          QLock \<Rightarrow> (if tp_mutex s = None then Some (Inr (put_call p QPush (s\<lparr>tp_mutex := Some (TCall p)\<rparr>))) else None)
        | QPush \<Rightarrow> Some (Inr (put_call p QUnlock (s\<lparr>tp_tasks := tp_tasks s @ [qc_task c], tp_queued := tp_queued s @ [qc_task c]\<rparr>)))
        | QUnlock \<Rightarrow> Some (Inr (put_call p QSignal (s\<lparr>tp_mutex := None\<rparr>)))
        | QSignal \<Rightarrow> (if wakes w s then Some (Inr (put_call p QDone (wake_worker w s)))
                     else if (\<exists>v \<in> set (tp_threads s). wk_pc v = WWait) then None else Some (Inr (put_call p QDone s)))
        | QDone \<Rightarrow> None)
      else None)"

definition QueueUserWorkItem :: "nat \<Rightarrow> tpool \<Rightarrow> tpool result option" where
  "QueueUserWorkItem t s = (if tp_gone s then Some (Inl UseAfterFree)
     else Some (Inr (s\<lparr>tp_calls := tp_calls s @ [\<lparr>qc_pc = QLock, qc_task = t\<rparr>]\<rparr>)))"

definition ThreadPool_Start :: "tpool \<Rightarrow> tpool result option" where
  "ThreadPool_Start s = (if tp_owner s = OIdle then Some (Inr (s\<lparr>tp_run := True, tp_owner := OCreate 0\<rparr>)) else None)"

definition ThreadPool_Stop :: "tpool \<Rightarrow> tpool result option" where
  "ThreadPool_Stop s = (if tp_owner s = OIdle then Some (Inr (s\<lparr>tp_run := False, tp_owner := OBroadcast False\<rparr>)) else None)"

definition ThreadPool_delete :: "tpool \<Rightarrow> tpool result option" where
  "ThreadPool_delete s = (if tp_owner s = OIdle then
     Some (Inr (if tp_run s then s\<lparr>tp_run := False, tp_owner := OBroadcast True\<rparr> else s\<lparr>tp_owner := ODestroy\<rparr>)) else None)"

definition awake :: "worker \<Rightarrow> worker" where
  "awake v = (if wk_pc v = WWait then v\<lparr>wk_pc := WWake\<rparr> else v)"

text \<open>The owner's next statement inside \<open>Start\<close>, \<open>Stop\<close> or the destructor.\<close>

definition Owner_step :: "tpool \<Rightarrow> tpool result option" where
  "Owner_step s = (case tp_owner s of
     OIdle \<Rightarrow> None
   | OCreate i \<Rightarrow> (if int i < tp_min s
       then Some (Inr (s\<lparr>tp_threads := tp_threads s @ [\<lparr>wk_pc = WTest, wk_job = None\<rparr>], tp_owner := OCreate (i + 1)\<rparr>))
       else Some (Inr (s\<lparr>tp_owner := OIdle\<rparr>)))
   | OBroadcast d \<Rightarrow> Some (Inr (s\<lparr>tp_threads := map awake (tp_threads s), tp_owner := OJoin 0 d\<rparr>))
   | OJoin k d \<Rightarrow> (if k < length (tp_threads s)
       then (if wk_pc (tp_threads s ! k) = WDone then Some (Inr (s\<lparr>tp_owner := OJoin (k + 1) d\<rparr>)) else None)
       else Some (Inr (s\<lparr>tp_owner := (if d then ODestroy else OIdle)\<rparr>)))
   | ODestroy \<Rightarrow> (if tp_mutex s = None then Some (Inr (s\<lparr>tp_owner := ODrain\<rparr>)) else Some (Inl UseAfterFree))
   | ODrain \<Rightarrow> (case tp_tasks s of [] \<Rightarrow> Some (Inr (s\<lparr>tp_owner := ODead\<rparr>))
       | t # ts \<Rightarrow> Some (Inr (s\<lparr>tp_tasks := ts, tp_dropped := tp_dropped s @ [t]\<rparr>)))
   | ODead \<Rightarrow> None)"

datatype tact = AWorker nat | ASpurious nat | ACall nat nat | AOwner | AQueue nat | AStart | AStop | ADelete

fun tp_step :: "tact \<Rightarrow> tpool \<Rightarrow> tpool result option" where
  "tp_step (AWorker i) s = WorkerThread_step i s"
| "tp_step (ASpurious i) s = (if wakes i s then Some (Inr (wake_worker i s)) else None)"
| "tp_step (ACall p w) s = QueueUserWorkItem_step p w s"
| "tp_step AOwner s = Owner_step s"
| "tp_step (AQueue t) s = QueueUserWorkItem t s"
| "tp_step AStart s = ThreadPool_Start s"
| "tp_step AStop s = ThreadPool_Stop s"
| "tp_step ADelete s = ThreadPool_delete s"

text \<open>
  The callers' side of the contract: the pool is started once, stopped only while it runs, and deleted when no
  \<open>QueueUserWorkItem\<close> is under way; nothing is queued once the deletion began.
\<close>

fun tp_allowed :: "tact \<Rightarrow> tpool \<Rightarrow> bool" where
  "tp_allowed AStart s = (tp_threads s = [] \<and> \<not> tp_run s)"
| "tp_allowed AStop s = tp_run s"
| "tp_allowed ADelete s = (\<forall>c \<in> set (tp_calls s). qc_pc c = QDone)"
| "tp_allowed (AQueue t) s = (case tp_owner s of OIdle \<Rightarrow> True | OCreate _ \<Rightarrow> True
     | OBroadcast d \<Rightarrow> \<not> d | OJoin _ d \<Rightarrow> \<not> d | _ \<Rightarrow> False)"
| "tp_allowed _ s = True"

inductive tp_reach :: "int \<Rightarrow> int \<Rightarrow> tpool \<Rightarrow> bool" for mi ma where
  init: "tp_reach mi ma (ThreadPool_new mi ma)"
| step: "tp_reach mi ma s \<Longrightarrow> tp_allowed a s \<Longrightarrow> tp_step a s = Some (Inr s') \<Longrightarrow> tp_reach mi ma s'"

fun tp_run_acts :: "tact list \<Rightarrow> tpool \<Rightarrow> tpool option" where
  "tp_run_acts [] s = Some s"
| "tp_run_acts (a # as) s = (if tp_allowed a s then
     (case tp_step a s of Some (Inr s') \<Rightarrow> tp_run_acts as s' | _ \<Rightarrow> None) else None)"

section \<open>What a step does\<close>

abbreviation wpc_at :: "tpool \<Rightarrow> nat \<Rightarrow> wpc" where
  "wpc_at s i \<equiv> wk_pc (tp_threads s ! i)"

abbreviation job_at :: "tpool \<Rightarrow> nat \<Rightarrow> nat option" where
  "job_at s i \<equiv> wk_job (tp_threads s ! i)"

lemma WorkerThread_step_enabled:
  "WorkerThread_step i s = Some (Inr s') \<Longrightarrow> i < length (tp_threads s) \<and> \<not> tp_gone s"
  by (auto simp: WorkerThread_step_def Let_def split: if_splits)

lemma WorkerThread_step_elim:
  assumes "WorkerThread_step i s = Some (Inr s')"
  obtains (test) "wpc_at s i = WTest" "tp_run s" "s' = put_worker i WLock (job_at s i) s"
  | (leave) "wpc_at s i = WTest" "\<not> tp_run s" "s' = put_worker i WDone (job_at s i) s"
  | (lock) "wpc_at s i = WLock" "tp_mutex s = None" "s' = put_worker i WHold (job_at s i) (s\<lparr>tp_mutex := Some (TWorker i)\<rparr>)"
  | (wait) "wpc_at s i = WHold" "tp_tasks s = []" "s' = put_worker i WWait (job_at s i) (s\<lparr>tp_mutex := None\<rparr>)"
  | (work) "wpc_at s i = WHold" "tp_tasks s \<noteq> []" "s' = put_worker i WPop (job_at s i) s"
  | (pop) t ts where "wpc_at s i = WPop" "tp_tasks s = t # ts"
      "s' = put_worker i WUnlock (Some t) (s\<lparr>tp_tasks := ts, tp_taken := tp_taken s @ [(i, t)]\<rparr>)"
  | (skip) "wpc_at s i = WPop" "\<not> tp_run s" "s' = put_worker i WUnlock (job_at s i) s"
  | (relock) "wpc_at s i = WWake" "tp_mutex s = None" "s' = put_worker i WUnlock (job_at s i) (s\<lparr>tp_mutex := Some (TWorker i)\<rparr>)"
  | (unlock) "wpc_at s i = WUnlock" "s' = put_worker i WRun (job_at s i) (s\<lparr>tp_mutex := None\<rparr>)"
  | (idle) "wpc_at s i = WRun" "job_at s i = None" "s' = put_worker i WTest None s"
  | (execute) t where "wpc_at s i = WRun" "job_at s i = Some t"
      "s' = put_worker i WDelete (Some t) (s\<lparr>tp_executed := tp_executed s @ [(i, t)]\<rparr>)"
  | (del) t where "wpc_at s i = WDelete" "job_at s i = Some t"
      "s' = put_worker i WTest None (s\<lparr>tp_deleted := tp_deleted s @ [(i, t)]\<rparr>)"
  using assms unfolding WorkerThread_step_def Let_def
  by (cases "wpc_at s i"; cases "tp_run s"; auto split: if_splits option.splits list.splits)

abbreviation qpc_at :: "tpool \<Rightarrow> nat \<Rightarrow> qpc" where
  "qpc_at s p \<equiv> qc_pc (tp_calls s ! p)"

lemma QueueUserWorkItem_step_elim:
  assumes "QueueUserWorkItem_step p w s = Some (Inr s')"
  obtains (lock) "qpc_at s p = QLock" "tp_mutex s = None" "s' = put_call p QPush (s\<lparr>tp_mutex := Some (TCall p)\<rparr>)"
  | (push) "qpc_at s p = QPush"
      "s' = put_call p QUnlock (s\<lparr>tp_tasks := tp_tasks s @ [qc_task (tp_calls s ! p)], tp_queued := tp_queued s @ [qc_task (tp_calls s ! p)]\<rparr>)"
  | (unlock) "qpc_at s p = QUnlock" "s' = put_call p QSignal (s\<lparr>tp_mutex := None\<rparr>)"
  | (signal) "qpc_at s p = QSignal" "wakes w s" "s' = put_call p QDone (wake_worker w s)"
  | (nobody) "qpc_at s p = QSignal" "\<forall>v \<in> set (tp_threads s). wk_pc v \<noteq> WWait" "s' = put_call p QDone s"
  using assms unfolding QueueUserWorkItem_step_def Let_def
  by (cases "qpc_at s p") (auto split: if_splits)

lemma QueueUserWorkItem_step_enabled:
  "QueueUserWorkItem_step p w s = Some (Inr s') \<Longrightarrow> p < length (tp_calls s) \<and> \<not> tp_gone s"
  by (auto simp: QueueUserWorkItem_step_def Let_def split: if_splits)

lemma Owner_step_elim:
  assumes "Owner_step s = Some (Inr s')"
  obtains (create) i where "tp_owner s = OCreate i"
      "s' = s\<lparr>tp_threads := tp_threads s @ [\<lparr>wk_pc = WTest, wk_job = None\<rparr>], tp_owner := OCreate (i + 1)\<rparr>"
  | (started) i where "tp_owner s = OCreate i" "s' = s\<lparr>tp_owner := OIdle\<rparr>"
  | (broadcast) d where "tp_owner s = OBroadcast d" "s' = s\<lparr>tp_threads := map awake (tp_threads s), tp_owner := OJoin 0 d\<rparr>"
  | (join) k d where "tp_owner s = OJoin k d" "k < length (tp_threads s)" "wpc_at s k = WDone" "s' = s\<lparr>tp_owner := OJoin (k + 1) d\<rparr>"
  | (joined) k d where "tp_owner s = OJoin k d" "k \<ge> length (tp_threads s)" "s' = s\<lparr>tp_owner := (if d then ODestroy else OIdle)\<rparr>"
  | (destroy) "tp_owner s = ODestroy" "tp_mutex s = None" "s' = s\<lparr>tp_owner := ODrain\<rparr>"
  | (drop) t ts where "tp_owner s = ODrain" "tp_tasks s = t # ts" "s' = s\<lparr>tp_tasks := ts, tp_dropped := tp_dropped s @ [t]\<rparr>"
  | (dead) "tp_owner s = ODrain" "tp_tasks s = []" "s' = s\<lparr>tp_owner := ODead\<rparr>"
  using assms unfolding Owner_step_def
  by (cases "tp_owner s") (auto split: if_splits list.splits)

lemma put_worker_simps [simp]:
  "tp_threads (put_worker i p j s) = (tp_threads s)[i := \<lparr>wk_pc = p, wk_job = j\<rparr>]"
  "tp_run (put_worker i p j s) = tp_run s" "tp_tasks (put_worker i p j s) = tp_tasks s"
  "tp_mutex (put_worker i p j s) = tp_mutex s" "tp_calls (put_worker i p j s) = tp_calls s"
  "tp_owner (put_worker i p j s) = tp_owner s" "tp_queued (put_worker i p j s) = tp_queued s"
  "tp_taken (put_worker i p j s) = tp_taken s" "tp_executed (put_worker i p j s) = tp_executed s"
  "tp_deleted (put_worker i p j s) = tp_deleted s" "tp_dropped (put_worker i p j s) = tp_dropped s"
  by (simp_all add: put_worker_def)

lemma put_call_simps [simp]:
  "tp_calls (put_call q c s) = (tp_calls s)[q := (tp_calls s ! q)\<lparr>qc_pc := c\<rparr>]"
  "tp_run (put_call q c s) = tp_run s" "tp_tasks (put_call q c s) = tp_tasks s"
  "tp_mutex (put_call q c s) = tp_mutex s" "tp_threads (put_call q c s) = tp_threads s"
  "tp_owner (put_call q c s) = tp_owner s" "tp_queued (put_call q c s) = tp_queued s"
  "tp_taken (put_call q c s) = tp_taken s" "tp_executed (put_call q c s) = tp_executed s"
  "tp_deleted (put_call q c s) = tp_deleted s" "tp_dropped (put_call q c s) = tp_dropped s"
  by (simp_all add: put_call_def)

section \<open>Mutual exclusion\<close>

definition holds :: "wpc \<Rightarrow> bool" where
  "holds p = (p = WHold \<or> p = WPop \<or> p = WUnlock)"

lemma holds_simps [simp]: "holds WHold" "holds WPop" "holds WUnlock" "\<not> holds WTest" "\<not> holds WLock" "\<not> holds WWait"
  "\<not> holds WWake" "\<not> holds WRun" "\<not> holds WDelete" "\<not> holds WDone"
  by (simp_all add: holds_def)

definition qholds :: "qpc \<Rightarrow> bool" where
  "qholds p = (p = QPush \<or> p = QUnlock)"

lemma qholds_simps [simp]: "qholds QPush" "qholds QUnlock" "\<not> qholds QLock" "\<not> qholds QSignal" "\<not> qholds QDone"
  by (simp_all add: qholds_def)

definition inv_lock :: "tpool \<Rightarrow> bool" where
  "inv_lock s \<longleftrightarrow>
     (\<forall>i. tp_mutex s = Some (TWorker i) \<longleftrightarrow> i < length (tp_threads s) \<and> holds (wpc_at s i)) \<and>
     (\<forall>p. tp_mutex s = Some (TCall p) \<longleftrightarrow> p < length (tp_calls s) \<and> qholds (qpc_at s p))"

lemma holds_awake [simp]: "holds (wk_pc (awake v)) = holds (wk_pc v)"
  by (simp add: awake_def)

lemma inv_lock_frame:
  "inv_lock s \<Longrightarrow> tp_mutex s' = tp_mutex s \<Longrightarrow> tp_threads s' = tp_threads s \<Longrightarrow> tp_calls s' = tp_calls s \<Longrightarrow> inv_lock s'"
  by (simp add: inv_lock_def)

lemma inv_lock_worker:
  assumes "inv_lock s" "tp_threads s' = (tp_threads s)[i := v]" "tp_calls s' = tp_calls s" "i < length (tp_threads s)"
    and "tp_mutex s' = (if holds (wk_pc v) = holds (wpc_at s i) then tp_mutex s else if holds (wk_pc v) then Some (TWorker i) else None)"
    and "holds (wk_pc v) \<Longrightarrow> \<not> holds (wpc_at s i) \<Longrightarrow> tp_mutex s = None"
  shows "inv_lock s'"
proof (cases "holds (wk_pc v) = holds (wpc_at s i)")
  case True
  with assms show ?thesis unfolding inv_lock_def by (auto simp: nth_list_update)
next
  case False
  show ?thesis
  proof (cases "holds (wk_pc v)")
    case True
    with False assms(6) have "tp_mutex s = None" by simp
    with assms(1-5) True False show ?thesis unfolding inv_lock_def by (auto simp: nth_list_update)
  next
    case nh: False
    with False assms(1,4) have "tp_mutex s = Some (TWorker i)" unfolding inv_lock_def by simp
    with assms(1-5) nh False show ?thesis unfolding inv_lock_def by (auto simp: nth_list_update)
  qed
qed

lemma inv_lock_call:
  assumes "inv_lock s" "tp_calls s' = (tp_calls s)[i := v]" "tp_threads s' = tp_threads s" "i < length (tp_calls s)"
    and "tp_mutex s' = (if qholds (qc_pc v) = qholds (qpc_at s i) then tp_mutex s else if qholds (qc_pc v) then Some (TCall i) else None)"
    and "qholds (qc_pc v) \<Longrightarrow> \<not> qholds (qpc_at s i) \<Longrightarrow> tp_mutex s = None"
  shows "inv_lock s'"
proof (cases "qholds (qc_pc v) = qholds (qpc_at s i)")
  case True
  with assms show ?thesis unfolding inv_lock_def by (auto simp: nth_list_update)
next
  case False
  show ?thesis
  proof (cases "qholds (qc_pc v)")
    case True
    with False assms(6) have "tp_mutex s = None" by simp
    with assms(1-5) True False show ?thesis unfolding inv_lock_def by (auto simp: nth_list_update)
  next
    case nh: False
    with False assms(1,4) have "tp_mutex s = Some (TCall i)" unfolding inv_lock_def by simp
    with assms(1-5) nh False show ?thesis unfolding inv_lock_def by (auto simp: nth_list_update)
  qed
qed

lemma inv_lock_put_worker:
  assumes "inv_lock s" "i < length (tp_threads s)" "tp_threads r = tp_threads s" "tp_calls r = tp_calls s"
    and "tp_mutex r = (if holds p = holds (wpc_at s i) then tp_mutex s else if holds p then Some (TWorker i) else None)"
    and "holds p \<longrightarrow> \<not> holds (wpc_at s i) \<longrightarrow> tp_mutex s = None"
  shows "inv_lock (put_worker i p j r)"
  by (rule inv_lock_worker [OF assms(1), where i = i and v = "\<lparr>wk_pc = p, wk_job = j\<rparr>"]) (use assms in simp_all)

lemma inv_lock_put_call:
  assumes "inv_lock s" "i < length (tp_calls s)" "tp_threads r = tp_threads s" "tp_calls r = tp_calls s"
    and "tp_mutex r = (if qholds p = qholds (qpc_at s i) then tp_mutex s else if qholds p then Some (TCall i) else None)"
    and "qholds p \<longrightarrow> \<not> qholds (qpc_at s i) \<longrightarrow> tp_mutex s = None"
  shows "inv_lock (put_call i p r)"
  by (rule inv_lock_call [OF assms(1), where i = i and v = "(tp_calls s ! i)\<lparr>qc_pc := p\<rparr>"]) (use assms in simp_all)

lemma inv_lock_wake: "inv_lock s \<Longrightarrow> wakes w s \<Longrightarrow> inv_lock (wake_worker w s)"
  by (auto simp: wakes_def wake_worker_def intro: inv_lock_put_worker)

lemma inv_lock_create:
  "inv_lock s \<Longrightarrow> inv_lock (s\<lparr>tp_threads := tp_threads s @ [\<lparr>wk_pc = WTest, wk_job = j\<rparr>], tp_owner := n\<rparr>)"
  unfolding inv_lock_def by (simp add: nth_append less_Suc_eq conj_disj_distribR)

lemma inv_lock_broadcast: "inv_lock s \<Longrightarrow> inv_lock (s\<lparr>tp_threads := map awake (tp_threads s), tp_owner := n\<rparr>)"
  unfolding inv_lock_def by (simp cong: conj_cong)

lemma inv_lock_queue: "inv_lock s \<Longrightarrow> inv_lock (s\<lparr>tp_calls := tp_calls s @ [\<lparr>qc_pc = QLock, qc_task = t\<rparr>]\<rparr>)"
  unfolding inv_lock_def by (simp add: nth_append less_Suc_eq conj_disj_distribR)

lemma inv_lock_step:
  assumes inv: "inv_lock s" and st: "tp_step a s = Some (Inr s')"
  shows "inv_lock s'"
proof (cases a)
  case (AWorker i)
  with st have w: "WorkerThread_step i s = Some (Inr s')" by simp
  note en = WorkerThread_step_enabled [OF w]
  from w show ?thesis
    by (cases rule: WorkerThread_step_elim) (simp_all add: inv_lock_put_worker [OF inv] en)
next
  case (ACall p w)
  with st have w: "QueueUserWorkItem_step p w s = Some (Inr s')" by simp
  note en = QueueUserWorkItem_step_enabled [OF w]
  from w show ?thesis
  proof (cases rule: QueueUserWorkItem_step_elim)
    case signal
    with inv have "inv_lock (wake_worker w s)" by (simp add: inv_lock_wake)
    from inv_lock_put_call [OF this, of p "wake_worker w s" QDone] show ?thesis
      using en signal by (simp add: wake_worker_def)
  qed (simp_all add: inv_lock_put_call [OF inv] en)
next
  case AOwner
  with st have "Owner_step s = Some (Inr s')" by simp
  then show ?thesis
  proof (cases rule: Owner_step_elim)
    case create
    with inv show ?thesis by (simp add: inv_lock_create)
  next
    case broadcast
    with inv show ?thesis by (simp add: inv_lock_broadcast)
  qed (simp_all add: inv_lock_frame [OF inv])
next
  case (ASpurious i)
  with st inv show ?thesis by (auto simp: inv_lock_wake split: if_splits)
next
  case (AQueue t)
  with st inv show ?thesis by (auto simp: QueueUserWorkItem_def inv_lock_queue split: if_splits)
qed (use st in \<open>auto intro!: inv_lock_frame [OF inv] simp: ThreadPool_Start_def ThreadPool_Stop_def ThreadPool_delete_def split: if_splits\<close>)

section \<open>The phases of the owner\<close>

lemma ball_list_update: "\<forall>v \<in> set xs. P v \<Longrightarrow> P x \<Longrightarrow> \<forall>v \<in> set (xs[i := x]). P v"
  by (auto dest: set_update_subset_insert [THEN subsetD])

definition finished :: "tpool \<Rightarrow> bool" where
  "finished s \<longleftrightarrow> (\<forall>v \<in> set (tp_threads s). wk_pc v = WDone)"

definition quiet :: "tpool \<Rightarrow> bool" where
  "quiet s \<longleftrightarrow> (\<forall>c \<in> set (tp_calls s). qc_pc c = QDone)"

definition phase :: "tpool \<Rightarrow> bool" where
  "phase s \<longleftrightarrow> (case tp_owner s of
     OIdle \<Rightarrow> \<not> tp_run s \<longrightarrow> finished s
   | OCreate _ \<Rightarrow> tp_run s
   | OBroadcast d \<Rightarrow> \<not> tp_run s \<and> (d \<longrightarrow> quiet s)
   | OJoin k d \<Rightarrow> \<not> tp_run s \<and> (d \<longrightarrow> quiet s) \<and> (\<forall>v \<in> set (take k (tp_threads s)). wk_pc v = WDone)
   | _ \<Rightarrow> \<not> tp_run s \<and> finished s \<and> quiet s)"

definition inv_owner :: "tpool \<Rightarrow> bool" where
  "inv_owner s \<longleftrightarrow> phase s \<and> (tp_run s \<longrightarrow> (\<forall>v \<in> set (tp_threads s). wk_pc v \<noteq> WDone))"

lemma gone_phase: "phase s \<Longrightarrow> tp_gone s \<or> tp_owner s = ODestroy \<Longrightarrow> finished s \<and> quiet s"
  by (auto simp: phase_def tp_gone_def)

lemma WorkerThread_step_not_done: "WorkerThread_step i s = Some r \<Longrightarrow> wpc_at s i \<noteq> WDone"
  by (auto simp: WorkerThread_step_def Let_def split: if_splits)

lemma WorkerThread_step_not_finished:
  assumes "WorkerThread_step i s = Some (Inr s')"
  shows "\<not> finished s"
  using WorkerThread_step_not_done [OF assms] WorkerThread_step_enabled [OF assms] by (auto simp: finished_def)

lemma QueueUserWorkItem_step_not_quiet:
  assumes "QueueUserWorkItem_step p w s = Some (Inr s')"
  shows "\<not> quiet s"
proof -
  have "qpc_at s p \<noteq> QDone" using assms by (auto simp: QueueUserWorkItem_step_def Let_def split: if_splits)
  then show ?thesis using QueueUserWorkItem_step_enabled [OF assms] by (auto simp: quiet_def)
qed

text \<open>A step of a worker or a call changes a running thread, which the phase of the owner does not speak about.\<close>

lemma phase_worker:
  assumes "phase s" "i < length (tp_threads s)" "wpc_at s i \<noteq> WDone"
    and "tp_threads r = tp_threads s" "tp_calls r = tp_calls s" "tp_owner r = tp_owner s" "tp_run r = tp_run s"
  shows "phase (put_worker i p j r)"
proof -
  have "\<not> finished s" using assms(2,3) by (auto simp: finished_def)
  moreover have "(\<forall>v \<in> set (take k (tp_threads s)). wk_pc v = WDone) \<Longrightarrow>
      take k ((tp_threads s)[i := \<lparr>wk_pc = p, wk_job = j\<rparr>]) = take k (tp_threads s)" for k
  proof -
    assume a: "\<forall>v \<in> set (take k (tp_threads s)). wk_pc v = WDone"
    have "\<not> i < k"
    proof
      assume k: "i < k"
      with assms(2) have "tp_threads s ! i \<in> set (take k (tp_threads s))"
        using nth_mem [of i "take k (tp_threads s)"] by simp
      with a assms(3) show False by blast
    qed
    then show ?thesis by simp
  qed
  ultimately show ?thesis using assms unfolding phase_def
    by (cases "tp_owner s") (auto simp: quiet_def)
qed

lemma phase_call:
  assumes "phase s" "\<not> quiet s" "tp_threads r = tp_threads s" "tp_owner r = tp_owner s" "tp_run r = tp_run s"
  shows "phase r"
  using assms unfolding phase_def by (cases "tp_owner s") (auto simp: finished_def)

lemma phase_wake:
  assumes "phase s" "wakes w s"
  shows "phase (wake_worker w s)"
  unfolding wake_worker_def by (rule phase_worker [OF assms(1)]) (use assms(2) in \<open>auto simp: wakes_def\<close>)

lemma inv_owner_wake:
  assumes "inv_owner s" "wakes w s"
  shows "inv_owner (wake_worker w s)"
  using assms by (auto simp: inv_owner_def phase_wake) (auto simp: wake_worker_def dest: set_update_subset_insert [THEN subsetD])

lemma inv_owner_put_worker:
  assumes "inv_owner s" "i < length (tp_threads s)" "wpc_at s i \<noteq> WDone"
    and "tp_threads r = tp_threads s" "tp_calls r = tp_calls s" "tp_owner r = tp_owner s" "tp_run r = tp_run s"
    and "p = WDone \<longrightarrow> \<not> tp_run s"
  shows "inv_owner (put_worker i p j r)"
  using assms phase_worker [of s i r p j] by (auto simp: inv_owner_def dest: set_update_subset_insert [THEN subsetD])

lemma inv_owner_step:
  assumes inv: "inv_owner s" and al: "tp_allowed a s" and st: "tp_step a s = Some (Inr s')"
  shows "inv_owner s'"
proof (cases a)
  case (AWorker i)
  with st have w: "WorkerThread_step i s = Some (Inr s')" by simp
  note en = WorkerThread_step_enabled [OF w] WorkerThread_step_not_done [OF w]
  from w show ?thesis
    by (cases rule: WorkerThread_step_elim) (simp_all add: inv_owner_put_worker [OF inv] en)
next
  case (ACall p w)
  with st have w: "QueueUserWorkItem_step p w s = Some (Inr s')" by simp
  note nq = QueueUserWorkItem_step_not_quiet [OF w]
  from w show ?thesis
  proof (cases rule: QueueUserWorkItem_step_elim)
    case signal
    then have "inv_owner (wake_worker w s)" "\<not> quiet (wake_worker w s)"
      using inv nq by (auto simp: inv_owner_wake) (auto simp: quiet_def wake_worker_def)
    then show ?thesis using signal phase_call [of "wake_worker w s"] by (simp add: inv_owner_def)
  qed (use inv phase_call [OF _ nq] in \<open>simp_all add: inv_owner_def\<close>)
next
  case AOwner
  with st have "Owner_step s = Some (Inr s')" by simp
  then show ?thesis
  proof (cases rule: Owner_step_elim)
    case (join k d)
    then show ?thesis using inv by (auto simp: inv_owner_def phase_def take_Suc_conv_app_nth quiet_def)
  next
    case (joined k d)
    then show ?thesis using inv by (auto simp: inv_owner_def phase_def finished_def quiet_def)
  next
    case (broadcast d)
    then show ?thesis using inv by (auto simp: inv_owner_def phase_def quiet_def)
  qed (use inv in \<open>auto simp: inv_owner_def phase_def finished_def quiet_def\<close>)
next
  case (ASpurious i)
  with st inv show ?thesis by (auto simp: inv_owner_wake split: if_splits)
next
  case (AQueue t)
  with st inv al show ?thesis
    by (auto simp: QueueUserWorkItem_def inv_owner_def phase_def finished_def split: if_splits opc.splits)
qed (use st inv al in \<open>auto simp: inv_owner_def phase_def finished_def quiet_def ThreadPool_Start_def ThreadPool_Stop_def ThreadPool_delete_def split: if_splits\<close>)

section \<open>Jobs and traces\<close>

definition job_ok :: "worker \<Rightarrow> bool" where
  "job_ok v \<longleftrightarrow> (wk_job v \<noteq> None \<longrightarrow> wk_pc v \<in> {WUnlock, WRun, WDelete}) \<and> (wk_pc v = WDelete \<longrightarrow> wk_job v \<noteq> None)"

definition inv_job :: "tpool \<Rightarrow> bool" where
  "inv_job s \<longleftrightarrow> (\<forall>v \<in> set (tp_threads s). job_ok v)"

lemma inv_job_at: "inv_job s \<Longrightarrow> i < length (tp_threads s) \<Longrightarrow> job_ok (tp_threads s ! i)"
  by (simp add: inv_job_def)

lemma inv_job_put_worker:
  "inv_job s \<Longrightarrow> tp_threads r = tp_threads s \<Longrightarrow> job_ok \<lparr>wk_pc = p, wk_job = j\<rparr> \<Longrightarrow> inv_job (put_worker i p j r)"
  unfolding inv_job_def put_worker_simps by (rule ball_list_update) simp_all

lemma inv_job_frame: "inv_job s \<Longrightarrow> tp_threads r = tp_threads s \<Longrightarrow> inv_job r"
  by (simp add: inv_job_def)

lemma inv_job_wake: "inv_job s \<Longrightarrow> wakes w s \<Longrightarrow> inv_job (wake_worker w s)"
  using inv_job_at [of s w] by (auto simp: wake_worker_def wakes_def job_ok_def intro!: inv_job_put_worker)

lemma inv_job_step:
  assumes inv: "inv_job s" and st: "tp_step a s = Some (Inr s')"
  shows "inv_job s'"
proof (cases a)
  case (AWorker i)
  with st have w: "WorkerThread_step i s = Some (Inr s')" by simp
  have ok: "job_ok (tp_threads s ! i)" using inv_job_at [OF inv] WorkerThread_step_enabled [OF w] by simp
  from w show ?thesis
    by (cases rule: WorkerThread_step_elim) (use ok in \<open>simp_all add: inv_job_put_worker [OF inv] job_ok_def\<close>)
next
  case (ACall p w)
  with st have "QueueUserWorkItem_step p w s = Some (Inr s')" by simp
  then show ?thesis
  proof (cases rule: QueueUserWorkItem_step_elim)
    case signal
    from inv_job_wake [OF inv this(2)] signal(3) show ?thesis by (simp add: inv_job_frame)
  qed (simp_all add: inv_job_frame [OF inv])
next
  case AOwner
  with st have "Owner_step s = Some (Inr s')" by simp
  then show ?thesis using inv
    by (cases rule: Owner_step_elim) (auto simp: inv_job_def job_ok_def awake_def)
qed (use st inv in \<open>auto simp: inv_job_wake inv_job_frame [OF inv] QueueUserWorkItem_def
    ThreadPool_Start_def ThreadPool_Stop_def ThreadPool_delete_def split: if_splits\<close>)

definition inv_pop :: "tpool \<Rightarrow> bool" where
  "inv_pop s \<longleftrightarrow> (tp_tasks s = [] \<longrightarrow> (\<forall>v \<in> set (tp_threads s). wk_pc v \<noteq> WPop))"

lemma only_holder:
  assumes "inv_lock s" "i < length (tp_threads s)" "holds (wpc_at s i)" "v \<in> set ((tp_threads s)[i := u])" "holds (wk_pc v)"
  shows "v = u"
proof -
  from assms(4) obtain k where k: "k < length (tp_threads s)" "v = (tp_threads s)[i := u] ! k"
    by (auto simp: in_set_conv_nth)
  have "k = i"
  proof (rule ccontr)
    assume "k \<noteq> i"
    with k assms(5) have "holds (wpc_at s k)" by simp
    with assms(1-3) k(1) have "tp_mutex s = Some (TWorker k)" "tp_mutex s = Some (TWorker i)"
      unfolding inv_lock_def by blast+
    with \<open>k \<noteq> i\<close> show False by simp
  qed
  with k show ?thesis by simp
qed

lemma inv_pop_put_worker:
  "inv_pop s \<Longrightarrow> tp_threads r = tp_threads s \<Longrightarrow> tp_tasks r = tp_tasks s \<Longrightarrow> p = WPop \<longrightarrow> tp_tasks s \<noteq> [] \<Longrightarrow> inv_pop (put_worker i p j r)"
  unfolding inv_pop_def by (auto dest: set_update_subset_insert [THEN subsetD])

lemma inv_pop_frame: "inv_pop s \<Longrightarrow> tp_threads r = tp_threads s \<Longrightarrow> tp_tasks r = tp_tasks s \<Longrightarrow> inv_pop r"
  by (simp add: inv_pop_def)

lemma inv_pop_wake: "inv_pop s \<Longrightarrow> inv_pop (wake_worker w s)"
  by (auto simp: wake_worker_def intro!: inv_pop_put_worker)

lemma inv_pop_step:
  assumes inv: "inv_pop s" and lock: "inv_lock s" and own: "inv_owner s" and st: "tp_step a s = Some (Inr s')"
  shows "inv_pop s'"
proof (cases a)
  case (AWorker i)
  with st have w: "WorkerThread_step i s = Some (Inr s')" by simp
  from w show ?thesis
  proof (cases rule: WorkerThread_step_elim)
    case (pop t ts)
    have "wk_pc v \<noteq> WPop" if v: "v \<in> set (tp_threads s')" for v
      using only_holder [OF lock, of i v "\<lparr>wk_pc = WUnlock, wk_job = Some t\<rparr>"] pop v WorkerThread_step_enabled [OF w] by force
    then show ?thesis by (simp add: inv_pop_def)
  qed (simp_all add: inv_pop_put_worker [OF inv])
next
  case (ACall p w)
  with st have "QueueUserWorkItem_step p w s = Some (Inr s')" by simp
  then show ?thesis
  proof (cases rule: QueueUserWorkItem_step_elim)
    case push
    then show ?thesis by (simp add: inv_pop_def)
  next
    case signal
    from inv_pop_wake [OF inv, of w] signal(3) show ?thesis by (simp add: inv_pop_frame)
  qed (simp_all add: inv_pop_frame [OF inv])
next
  case AOwner
  with st have "Owner_step s = Some (Inr s')" by simp
  then show ?thesis
  proof (cases rule: Owner_step_elim)
    case (drop t ts)
    then show ?thesis using own by (auto simp: inv_owner_def phase_def finished_def inv_pop_def)
  qed (use inv in \<open>auto simp: inv_pop_def awake_def split: if_splits\<close>)
qed (use st inv in \<open>auto simp: inv_pop_wake inv_pop_frame [OF inv] QueueUserWorkItem_def
    ThreadPool_Start_def ThreadPool_Stop_def ThreadPool_delete_def split: if_splits\<close>)

text \<open>The entries of a trace that belong to one worker, and the job it has pending.\<close>

definition by_worker :: "nat \<Rightarrow> (nat \<times> nat) list \<Rightarrow> nat list" where
  "by_worker i xs = map snd (filter (\<lambda>e. fst e = i) xs)"

lemma by_worker_snoc [simp]: "by_worker i (xs @ [(k, t)]) = by_worker i xs @ (if k = i then [t] else [])"
  by (simp add: by_worker_def)

definition jobs_of :: "worker \<Rightarrow> nat list" where
  "jobs_of v = (case wk_job v of None \<Rightarrow> [] | Some t \<Rightarrow> [t])"

definition pending :: "tpool \<Rightarrow> nat \<Rightarrow> nat list" where
  "pending s i = (if i < length (tp_threads s) then jobs_of (tp_threads s ! i) else [])"

definition running :: "tpool \<Rightarrow> nat \<Rightarrow> nat list" where
  "running s i = (if i < length (tp_threads s) \<and> wpc_at s i = WDelete then jobs_of (tp_threads s ! i) else [])"

definition inv_trace :: "tpool \<Rightarrow> bool" where
  "inv_trace s \<longleftrightarrow> tp_queued s = map snd (tp_taken s) @ tp_dropped s @ tp_tasks s \<and> (tp_dropped s \<noteq> [] \<longrightarrow> tp_gone s) \<and>
     (\<forall>i. by_worker i (tp_taken s) = by_worker i (tp_deleted s) @ pending s i \<and>
          by_worker i (tp_executed s) = by_worker i (tp_deleted s) @ running s i)"

lemma pending_put: "tp_threads r = tp_threads s \<Longrightarrow> i < length (tp_threads s) \<Longrightarrow>
    pending (put_worker i p j r) k = (if k = i then jobs_of \<lparr>wk_pc = p, wk_job = j\<rparr> else pending s k)"
  by (auto simp: pending_def)

lemma running_put: "tp_threads r = tp_threads s \<Longrightarrow> i < length (tp_threads s) \<Longrightarrow>
    running (put_worker i p j r) k = (if k = i then (if p = WDelete then jobs_of \<lparr>wk_pc = p, wk_job = j\<rparr> else []) else running s k)"
  by (auto simp: running_def)

lemma inv_trace_frame:
  assumes "inv_trace s" "\<And>i. pending r i = pending s i" "\<And>i. running r i = running s i" "tp_queued r = tp_queued s"
    "tp_taken r = tp_taken s" "tp_dropped r = tp_dropped s" "tp_tasks r = tp_tasks s" "tp_gone s \<Longrightarrow> tp_gone r"
    "tp_deleted r = tp_deleted s" "tp_executed r = tp_executed s"
  shows "inv_trace r"
  using assms by (simp add: inv_trace_def)

lemma inv_trace_worker:
  assumes inv: "inv_trace s" and job: "inv_job s" and w: "WorkerThread_step i s = Some (Inr s')"
  shows "inv_trace s'"
proof -
  note en = WorkerThread_step_enabled [OF w]
  have ok: "job_ok (tp_threads s ! i)" using inv_job_at [OF job] en by simp
  have pi: "pending s i = jobs_of (tp_threads s ! i)" "running s i = (if wpc_at s i = WDelete then jobs_of (tp_threads s ! i) else [])"
    using en by (simp_all add: pending_def running_def)
  have d: "tp_dropped s = []" using inv en by (auto simp: inv_trace_def)
  from w show ?thesis
    by (cases rule: WorkerThread_step_elim)
      (use inv en ok pi d in \<open>simp_all add: inv_trace_def pending_put [where s = s] running_put [where s = s] jobs_of_def job_ok_def tp_gone_def\<close>)
qed

lemma pending_eq: "tp_threads r = tp_threads s \<Longrightarrow> pending r i = pending s i \<and> running r i = running s i"
  by (simp add: pending_def running_def)

lemma inv_trace_wake:
  assumes "inv_trace s" "inv_job s" "wakes w s"
  shows "inv_trace (wake_worker w s)"
  by (rule inv_trace_frame [OF assms(1)])
    (use assms(3) inv_job_at [OF assms(2)] in
      \<open>auto simp: wakes_def wake_worker_def pending_def running_def nth_list_update jobs_of_def tp_gone_def\<close>)

lemma inv_trace_calls:
  assumes "inv_trace s" "tp_threads r = tp_threads s" "tp_queued r = tp_queued s @ ts"
    "tp_taken r = tp_taken s" "tp_dropped r = tp_dropped s" "tp_tasks r = tp_tasks s @ ts" "tp_gone s \<Longrightarrow> tp_gone r"
    "tp_deleted r = tp_deleted s" "tp_executed r = tp_executed s"
  shows "inv_trace r"
  using assms pending_eq [of r s] by (simp add: inv_trace_def)

lemma inv_trace_owner:
  assumes inv: "inv_trace s" and w: "Owner_step s = Some (Inr s')"
  shows "inv_trace s'"
proof -
  have tr: "\<And>i. by_worker i (tp_taken s) = by_worker i (tp_deleted s) @ pending s i"
    "\<And>i. by_worker i (tp_executed s) = by_worker i (tp_deleted s) @ running s i"
    "tp_queued s = map snd (tp_taken s) @ tp_dropped s @ tp_tasks s" "tp_dropped s \<noteq> [] \<Longrightarrow> tp_gone s"
    using inv by (simp_all add: inv_trace_def)
  from w show ?thesis
  proof (cases rule: Owner_step_elim)
    case (create i)
    show ?thesis by (rule inv_trace_frame [OF inv])
      (use create tr(4) in \<open>auto simp: pending_def running_def nth_append jobs_of_def tp_gone_def\<close>)
  next
    case (broadcast d)
    show ?thesis by (rule inv_trace_frame [OF inv])
      (use broadcast tr(4) in \<open>auto simp: pending_def running_def jobs_of_def awake_def tp_gone_def\<close>)
  next
    case (drop t ts)
    then show ?thesis using tr pending_eq [of s' s] by (simp add: inv_trace_def tp_gone_def)
  qed (rule inv_trace_frame [OF inv]; use tr(4) in \<open>auto simp: pending_def running_def tp_gone_def\<close>)+
qed

lemma inv_trace_step:
  assumes inv: "inv_trace s" and job: "inv_job s" and al: "tp_allowed a s" and st: "tp_step a s = Some (Inr s')"
  shows "inv_trace s'"
proof (cases a)
  case (AWorker i)
  with st inv job show ?thesis by (auto intro: inv_trace_worker)
next
  case (ACall p w)
  with st have "QueueUserWorkItem_step p w s = Some (Inr s')" by simp
  then show ?thesis
  proof (cases rule: QueueUserWorkItem_step_elim)
    case push
    then show ?thesis by (intro inv_trace_calls [OF inv]) (auto simp: tp_gone_def)
  next
    case signal
    then show ?thesis by (intro inv_trace_calls [OF inv_trace_wake [OF inv job], of w _ "[]"]) (auto simp: tp_gone_def)
  qed (rule inv_trace_calls [OF inv, where ts = "[]"]; simp add: tp_gone_def)+
next
  case AOwner
  with st inv show ?thesis by (auto intro: inv_trace_owner)
next
  case (ASpurious i)
  with st inv_trace_wake [OF inv job] show ?thesis by (auto split: if_splits)
qed (use st in \<open>auto intro!: inv_trace_calls [OF inv, where ts = "[]"] simp: QueueUserWorkItem_def tp_gone_def
    ThreadPool_Start_def ThreadPool_Stop_def ThreadPool_delete_def split: if_splits\<close>)

section \<open>Work that is queued is noticed\<close>

definition noticed :: "tpool \<Rightarrow> bool" where
  "noticed s \<longleftrightarrow> (\<exists>c \<in> set (tp_calls s). qc_pc c = QUnlock \<or> qc_pc c = QSignal) \<or> (\<exists>v \<in> set (tp_threads s). wk_pc v \<noteq> WWait)"

definition inv_wakeup :: "tpool \<Rightarrow> bool" where
  "inv_wakeup s \<longleftrightarrow> (tp_run s \<and> tp_tasks s \<noteq> [] \<and> tp_threads s \<noteq> [] \<longrightarrow> noticed s)"

lemma noticed_put_worker: "i < length (tp_threads s) \<Longrightarrow> tp_threads r = tp_threads s \<Longrightarrow> p \<noteq> WWait \<Longrightarrow> noticed (put_worker i p j r)"
  by (auto simp: noticed_def set_update_memI intro!: disjI2 bexI [of _ "\<lparr>wk_pc = p, wk_job = j\<rparr>"])

lemma in_set_update: "c \<in> set xs \<Longrightarrow> p < length xs \<Longrightarrow> c \<noteq> xs ! p \<Longrightarrow> c \<in> set (xs[p := d])"
  by (metis in_set_conv_nth length_list_update nth_list_update_neq)

lemma noticed_call:
  assumes "noticed s" "p < length (tp_calls s)" "qpc_at s p \<noteq> QUnlock" "qpc_at s p \<noteq> QSignal"
    and "tp_threads r = tp_threads s" "tp_calls r = tp_calls s"
  shows "noticed (put_call p q r)"
proof -
  have "qc_pc c = QUnlock \<or> qc_pc c = QSignal \<Longrightarrow> c \<noteq> tp_calls s ! p" for c
    using assms(3,4) by auto
  then show ?thesis
    using assms(1,2,5,6) in_set_update [of _ "tp_calls s" p] unfolding noticed_def put_call_simps by metis
qed

lemma noticed_call_now:
  "p < length (tp_calls s) \<Longrightarrow> tp_calls r = tp_calls s \<Longrightarrow> q = QUnlock \<or> q = QSignal \<Longrightarrow> noticed (put_call p q r)"
  unfolding noticed_def put_call_simps
  by (rule disjI1, rule bexI [of _ "(tp_calls s ! p)\<lparr>qc_pc := q\<rparr>"]) (simp_all add: set_update_memI)

lemma inv_wakeup_step:
  assumes inv: "inv_wakeup s" and own: "inv_owner s" and al: "tp_allowed a s" and st: "tp_step a s = Some (Inr s')"
  shows "inv_wakeup s'"
proof (cases a)
  case (AWorker i)
  with st have w: "WorkerThread_step i s = Some (Inr s')" by simp
  note en = WorkerThread_step_enabled [OF w]
  from w show ?thesis
    by (cases rule: WorkerThread_step_elim) (simp_all add: inv_wakeup_def noticed_put_worker [where s = s] en)
next
  case (ACall p w)
  with st have c: "QueueUserWorkItem_step p w s = Some (Inr s')" by simp
  note en = QueueUserWorkItem_step_enabled [OF c]
  from c show ?thesis
  proof (cases rule: QueueUserWorkItem_step_elim)
    case lock
    then show ?thesis using inv en by (simp add: inv_wakeup_def noticed_call [where s = s])
  next
    case signal
    then have "\<lparr>wk_pc = WWake, wk_job = job_at s w\<rparr> \<in> set (tp_threads s')"
      by (simp add: wake_worker_def wakes_def set_update_memI)
    then show ?thesis by (force simp: inv_wakeup_def noticed_def)
  next
    case nobody
    then show ?thesis by (auto simp: inv_wakeup_def noticed_def neq_Nil_conv)
  qed (simp_all add: inv_wakeup_def noticed_call_now [where s = s] en)
next
  case AOwner
  with st have "Owner_step s = Some (Inr s')" by simp
  then show ?thesis
    by (cases rule: Owner_step_elim) (use inv own in \<open>auto simp: inv_wakeup_def noticed_def inv_owner_def phase_def\<close>)
next
  case (ASpurious i)
  then have "s' = wake_worker i s" "i < length (tp_threads s)" using st by (auto simp: wakes_def split: if_splits)
  then show ?thesis by (simp add: inv_wakeup_def wake_worker_def noticed_put_worker)
qed (use st al inv in \<open>auto simp: inv_wakeup_def noticed_def QueueUserWorkItem_def
    ThreadPool_Start_def ThreadPool_Stop_def ThreadPool_delete_def split: if_splits\<close>)

section \<open>Theorems\<close>

definition tp_inv :: "tpool \<Rightarrow> bool" where
  "tp_inv s \<longleftrightarrow> inv_lock s \<and> inv_owner s \<and> inv_job s \<and> inv_pop s \<and> inv_trace s \<and> inv_wakeup s"

lemmas tp_inv_defs = inv_lock_def inv_owner_def inv_job_def inv_pop_def inv_trace_def inv_wakeup_def

lemma tp_inv_new: "tp_inv (ThreadPool_new mi ma)"
  by (simp add: tp_inv_def tp_inv_defs ThreadPool_new_def phase_def finished_def pending_def running_def)

lemma tp_inv_step: "tp_inv s \<Longrightarrow> tp_allowed a s \<Longrightarrow> tp_step a s = Some (Inr s') \<Longrightarrow> tp_inv s'"
  unfolding tp_inv_def
  by (blast intro: inv_lock_step inv_owner_step inv_job_step inv_pop_step inv_trace_step inv_wakeup_step)

lemma tp_reach_inv: "tp_reach mi ma s \<Longrightarrow> tp_inv s"
  by (induction rule: tp_reach.induct) (auto intro: tp_inv_new tp_inv_step)

lemma finished_unlocked: "tp_inv s \<Longrightarrow> finished s \<Longrightarrow> quiet s \<Longrightarrow> tp_mutex s = None"
proof (rule ccontr)
  assume inv: "tp_inv s" and f: "finished s" and q: "quiet s" and "tp_mutex s \<noteq> None"
  then obtain t where t: "tp_mutex s = Some t" by blast
  show False
  proof (cases t)
    case (TWorker i)
    with t inv have "i < length (tp_threads s)" "holds (wpc_at s i)" by (auto simp: tp_inv_def inv_lock_def)
    with f show False by (auto simp: finished_def)
  next
    case (TCall p)
    with t inv have "p < length (tp_calls s)" "qholds (qpc_at s p)" by (auto simp: tp_inv_def inv_lock_def)
    with q show False by (auto simp: quiet_def)
  qed
qed

lemma WorkerThread_step_defined: "tp_inv s \<Longrightarrow> WorkerThread_step i s \<noteq> Some (Inl e)"
proof
  assume inv: "tp_inv s" and st: "WorkerThread_step i s = Some (Inl e)"
  then have i: "i < length (tp_threads s)" by (auto simp: WorkerThread_step_def split: if_splits)
  have "\<not> tp_gone s"
  proof
    assume "tp_gone s"
    with inv have "finished s" using gone_phase by (auto simp: tp_inv_def inv_owner_def)
    with i WorkerThread_step_not_done [OF st] show False by (auto simp: finished_def)
  qed
  moreover have "wpc_at s i = WPop \<Longrightarrow> tp_tasks s \<noteq> []" "wpc_at s i = WDelete \<Longrightarrow> job_at s i \<noteq> None"
    using inv i by (auto simp: tp_inv_def inv_pop_def inv_job_def job_ok_def)
  ultimately show False using st i
    by (cases "wpc_at s i") (auto simp: WorkerThread_step_def Let_def split: if_splits option.splits list.splits)
qed

lemma QueueUserWorkItem_step_defined: "tp_inv s \<Longrightarrow> QueueUserWorkItem_step p w s \<noteq> Some (Inl e)"
proof
  assume inv: "tp_inv s" and st: "QueueUserWorkItem_step p w s = Some (Inl e)"
  then have "p < length (tp_calls s)" "tp_gone s" "qpc_at s p \<noteq> QDone"
    by (auto simp: QueueUserWorkItem_step_def Let_def split: if_splits qpc.splits)
  moreover have "quiet s" using inv gone_phase \<open>tp_gone s\<close> by (auto simp: tp_inv_def inv_owner_def)
  ultimately show False by (auto simp: quiet_def)
qed

lemma Owner_step_defined: "tp_inv s \<Longrightarrow> Owner_step s \<noteq> Some (Inl e)"
proof
  assume inv: "tp_inv s" and st: "Owner_step s = Some (Inl e)"
  then have "tp_owner s = ODestroy" "tp_mutex s \<noteq> None"
    by (auto simp: Owner_step_def split: if_splits opc.splits list.splits)
  moreover have "finished s \<and> quiet s" using inv gone_phase \<open>tp_owner s = ODestroy\<close> by (auto simp: tp_inv_def inv_owner_def)
  ultimately show False using finished_unlocked [OF inv] by simp
qed

lemma tp_step_defined: "tp_inv s \<Longrightarrow> tp_allowed a s \<Longrightarrow> tp_step a s \<noteq> Some (Inl e)"
  using WorkerThread_step_defined QueueUserWorkItem_step_defined Owner_step_defined
  by (cases a) (auto simp: QueueUserWorkItem_def tp_gone_def ThreadPool_Start_def ThreadPool_Stop_def ThreadPool_delete_def
    split: if_splits)

lemma holder_can_step:
  assumes inv: "tp_inv s" and m: "tp_mutex s \<noteq> None"
  shows "(\<exists>i. tp_step (AWorker i) s \<noteq> None) \<or> (\<exists>p w. tp_step (ACall p w) s \<noteq> None)"
proof -
  from m obtain t where t: "tp_mutex s = Some t" by blast
  show ?thesis
  proof (cases t)
    case (TWorker i)
    with t inv have "i < length (tp_threads s)" "holds (wpc_at s i)" by (auto simp: tp_inv_def inv_lock_def)
    then have "tp_step (AWorker i) s \<noteq> None" by (auto simp: WorkerThread_step_def Let_def holds_def split: list.splits)
    then show ?thesis by blast
  next
    case (TCall p)
    with t inv have "p < length (tp_calls s)" "qholds (qpc_at s p)" by (auto simp: tp_inv_def inv_lock_def)
    then have "tp_step (ACall p w) s \<noteq> None" for w by (auto simp: QueueUserWorkItem_step_def Let_def qholds_def)
    then show ?thesis by blast
  qed
qed

lemma free_worker_can_step:
  assumes "v \<in> set (tp_threads s)" "wk_pc v \<noteq> WWait" "wk_pc v \<noteq> WDone" "tp_mutex s = None"
  shows "\<exists>i. tp_step (AWorker i) s \<noteq> None"
proof -
  from assms(1) obtain i where "i < length (tp_threads s)" "v = tp_threads s ! i" by (auto simp: in_set_conv_nth)
  with assms(2-4) have "tp_step (AWorker i) s \<noteq> None"
    by (cases "wpc_at s i") (auto simp: WorkerThread_step_def Let_def split: list.splits option.splits)
  then show ?thesis by blast
qed

lemma signal_can_step:
  assumes "c \<in> set (tp_calls s)" "qc_pc c = QUnlock \<or> qc_pc c = QSignal"
  shows "\<exists>p w. tp_step (ACall p w) s \<noteq> None"
proof -
  from assms(1) obtain p where p: "p < length (tp_calls s)" "c = tp_calls s ! p" by (auto simp: in_set_conv_nth)
  show ?thesis
  proof (cases "\<exists>v \<in> set (tp_threads s). wk_pc v = WWait")
    case True
    then obtain w where "wakes w s" by (auto simp: wakes_def in_set_conv_nth)
    with p assms(2) have "tp_step (ACall p w) s \<noteq> None" by (auto simp: QueueUserWorkItem_step_def Let_def)
    then show ?thesis by blast
  next
    case False
    with p assms(2) have "tp_step (ACall p 0) s \<noteq> None" by (auto simp: QueueUserWorkItem_step_def Let_def)
    then show ?thesis by blast
  qed
qed


lemma dead_no_tasks: "tp_reach mi ma s \<Longrightarrow> tp_owner s = ODead \<Longrightarrow> tp_tasks s = []"
proof (induction rule: tp_reach.induct)
  case (step s a s')
  have inv: "tp_inv s" using step.hyps(1) by (rule tp_reach_inv)
  show ?case
  proof (cases a)
    case (AWorker i)
    with step have w: "WorkerThread_step i s = Some (Inr s')" by simp
    then show ?thesis using step.prems WorkerThread_step_enabled [OF w]
      by (cases rule: WorkerThread_step_elim) (simp_all add: tp_gone_def)
  next
    case (ACall p w)
    with step have c: "QueueUserWorkItem_step p w s = Some (Inr s')" by simp
    then show ?thesis using step.prems QueueUserWorkItem_step_enabled [OF c]
      by (cases rule: QueueUserWorkItem_step_elim) (simp_all add: tp_gone_def wake_worker_def)
  next
    case AOwner
    with step have "Owner_step s = Some (Inr s')" by simp
    then show ?thesis using step.prems step.IH by (cases rule: Owner_step_elim) (auto split: if_splits)
  qed (use step in \<open>auto simp: wake_worker_def QueueUserWorkItem_def ThreadPool_Start_def ThreadPool_Stop_def ThreadPool_delete_def split: if_splits\<close>)
qed (simp add: ThreadPool_new_def)

lemma tp_run_acts_reach: "tp_run_acts as s = Some s' \<Longrightarrow> tp_reach mi ma s \<Longrightarrow> tp_reach mi ma s'"
  by (induction as arbitrary: s) (auto split: if_splits option.splits sum.splits intro: tp_reach.step)

lemma tp_reach_run: "map_option f (tp_run_acts as (ThreadPool_new mi ma)) = Some y \<Longrightarrow> \<exists>s. tp_reach mi ma s \<and> f s = y"
  by (auto intro: tp_run_acts_reach [OF _ tp_reach.init])

text \<open>
  C21. In every interleaving of the workers, the callers of \<open>QueueUserWorkItem\<close> and the owner (under the
  callers' contract): no step is undefined, in particular no worker takes from an empty queue and nothing touches the pool once it is
  being deleted; at most one thread holds the mutex; the tasks queued are those taken, in queueing order, followed by
  those the destructor deleted and those still waiting; and each worker executed and deleted exactly the tasks it
  took, in order and once each, up to the one it is at. After the destructor no task is waiting or in a worker's hands.
\<close>

theorem ThreadPool_exactly_once:
  assumes "tp_reach mi ma s"
  shows "(\<forall>a e. tp_allowed a s \<longrightarrow> tp_step a s \<noteq> Some (Inl e)) \<and>
     (\<forall>i k. i < length (tp_threads s) \<and> k < length (tp_threads s) \<and> holds (wpc_at s i) \<and> holds (wpc_at s k) \<longrightarrow> i = k) \<and>
     tp_queued s = map snd (tp_taken s) @ tp_dropped s @ tp_tasks s \<and>
     (\<forall>i. by_worker i (tp_taken s) = by_worker i (tp_deleted s) @ pending s i \<and>
          by_worker i (tp_executed s) = by_worker i (tp_deleted s) @ running s i) \<and>
     (tp_owner s = ODead \<longrightarrow> tp_tasks s = [] \<and> (\<forall>i. pending s i = []))"
proof -
  have inv: "tp_inv s" using assms by (rule tp_reach_inv)
  have "pending s i = []" if "tp_owner s = ODead" for i
  proof -
    have "tp_gone s" using that by (simp add: tp_gone_def)
    then have "finished s" "inv_job s" using inv gone_phase by (auto simp: tp_inv_def inv_owner_def)
    then show ?thesis by (auto simp: pending_def finished_def inv_job_def job_ok_def jobs_of_def split: option.splits)
  qed
  moreover have "i = k" if "i < length (tp_threads s)" "k < length (tp_threads s)" "holds (wpc_at s i)" "holds (wpc_at s k)" for i k
  proof -
    have "tp_mutex s = Some (TWorker i)" "tp_mutex s = Some (TWorker k)"
      using inv that unfolding tp_inv_def inv_lock_def by blast+
    then show ?thesis by simp
  qed
  moreover have "tp_owner s = ODead \<Longrightarrow> tp_tasks s = []" using dead_no_tasks [OF assms] .
  ultimately show ?thesis using inv tp_step_defined [OF inv] by (auto simp: tp_inv_def inv_trace_def)
qed

theorem ThreadPool_exactly_once_witness:
  "\<exists>s. tp_reach 1 8 s \<and> tp_deleted s = [(0, 7)] \<and> tp_queued s = map snd (tp_taken s) @ tp_dropped s @ tp_tasks s"
proof -
  have r: "map_option (\<lambda>s. tp_deleted s) (tp_run_acts [AStart, AQueue 7, AOwner, AOwner, ACall 0 0, ACall 0 0, ACall 0 0, AWorker 0, AWorker 0, AWorker 0,
     AWorker 0, AWorker 0, AWorker 0, AWorker 0] (ThreadPool_new 1 8)) = Some [(0, 7)]"
    by code_simp
  from tp_reach_run [OF r] obtain s where "tp_reach 1 8 s" and d: "tp_deleted s = [(0, 7)]" by blast
  with ThreadPool_exactly_once [OF this(1)] show ?thesis by blast
qed

text \<open>
  C32. While the pool runs with at least one worker and tasks are queued, the pool never stalls: some worker or some call of
  \<open>QueueUserWorkItem\<close> can do its next statement, without a spurious wake-up.
\<close>

theorem ThreadPool_no_stall:
  assumes "tp_reach mi ma s" and "tp_run s" and "tp_tasks s \<noteq> []" and "tp_threads s \<noteq> []"
  shows "(\<exists>i. tp_step (AWorker i) s \<noteq> None) \<or> (\<exists>p w. tp_step (ACall p w) s \<noteq> None)"
proof (cases "tp_mutex s = None")
  case True
  have inv: "tp_inv s" using assms(1) by (rule tp_reach_inv)
  then have "noticed s" using assms(2-4) by (simp add: tp_inv_def inv_wakeup_def)
  moreover have "\<forall>v \<in> set (tp_threads s). wk_pc v \<noteq> WDone" using inv assms(2) by (simp add: tp_inv_def inv_owner_def)
  ultimately show ?thesis
    unfolding noticed_def using signal_can_step [of _ s] free_worker_can_step [OF _ _ _ True] by blast
next
  case False
  with tp_reach_inv [OF assms(1)] show ?thesis by (rule holder_can_step)
qed

theorem ThreadPool_no_stall_witness:
  "\<exists>s. tp_reach 1 8 s \<and> tp_tasks s = [7] \<and> ((\<exists>i. tp_step (AWorker i) s \<noteq> None) \<or> (\<exists>p w. tp_step (ACall p w) s \<noteq> None))"
proof -
  have r: "map_option (\<lambda>s. (tp_run s, tp_tasks s, length (tp_threads s))) (tp_run_acts [AStart, AOwner, AOwner, AWorker 0, AWorker 0, AWorker 0,
     AQueue 7, ACall 0 0, ACall 0 0] (ThreadPool_new 1 8)) = Some (True, [7], 1)"
    by code_simp
  from tp_reach_run [OF r] obtain s where i: "tp_reach 1 8 s" and d: "tp_run s" "tp_tasks s = [7]" "length (tp_threads s) = 1"
    by (auto simp only: prod.inject)
  have "tp_tasks s \<noteq> []" "tp_threads s \<noteq> []" using d by auto
  from ThreadPool_no_stall [OF i d(1) this] i d(2) show ?thesis by blast
qed

text \<open>
  C33. \<open>Stop\<close> may never return: it clears \<open>run_\<close> and broadcasts without holding the mutex, so a worker that
  has tested \<open>run_\<close> but not yet tested the queue misses the broadcast and waits. In the state reached no worker, no call and not the
  owner can do another step, and the owner is in \<open>pthread_join\<close>.
\<close>

theorem ThreadPool_Stop_lost_wakeup:
  "\<exists>s. tp_reach 1 8 s \<and> tp_owner s = OJoin 0 False \<and> length (tp_threads s) = 1 \<and> tp_step AOwner s = None \<and>
     (\<forall>i. tp_step (AWorker i) s = None) \<and> (\<forall>p w. tp_step (ACall p w) s = None)"
proof -
  have r: "tp_run_acts [AStart, AOwner, AOwner, AWorker 0, AStop, AOwner, AWorker 0, AWorker 0] (ThreadPool_new 1 8)
    = Some \<lparr>tp_min = 1, tp_max = 8, tp_run = False, tp_tasks = [], tp_threads = [\<lparr>wk_pc = WWait, wk_job = None\<rparr>], tp_mutex = None,
        tp_calls = [], tp_owner = OJoin 0 False, tp_queued = [], tp_taken = [], tp_executed = [], tp_deleted = [], tp_dropped = []\<rparr>"
    by code_simp
  show ?thesis
    by (rule exI, rule conjI [OF tp_run_acts_reach [OF r tp_reach.init]])
      (simp add: Owner_step_def WorkerThread_step_def QueueUserWorkItem_step_def Let_def tp_gone_def)
qed

end
