(* ===== verification/Dispatcher.thy ===== *)
theory Dispatcher
  imports EventIO Timer Command
begin

text \<open>
  \<open>base/event/dispatcher.*\<close> and \<open>eventtimeout.*\<close>: the main loop that drives the engine. One frame reads the
  clock, runs the expired timeout events, the quick timer, the command runners and the application's loop function, empties the
  autorelease pool, decides whether to stop, waits for descriptors, calls the handlers of the ready objects and finally tears down
  the objects that were closed. The reference counts of all objects (descriptors, timeout events, linkers, pooled objects) are in
  one store. User code (\<open>OnTimeout\<close>, \<open>OnEventIOReadable\<close>, \<open>OnEventIOWriteable\<close>, \<open>OnEventIOClose\<close> and the loop
  function) is an argument: a function from the state to the calls it makes. \<open>nowtick\<close> and \<open>epoll_wait\<close>
  are arguments too, through what they return.
\<close>

section \<open>State\<close>

datatype devent = DTimeout oid | DReadable oid | DWriteable oid | DClosed oid

text \<open>An entry of the multimap \<open>timers_\<close>: the key and the node with the event.\<close>

type_synonym timers = "(int \<times> nat \<times> oid) list"

record dispatcher =
  dp_timers :: timers
  dp_node :: nat
  dp_io_list :: "oid list"
  dp_closed :: "oid list"
  dp_exit :: bool
  dp_tick_last :: int
  dp_tick :: int
  dp_frame_no :: "64 word"
  dp_quicktimer :: timer
  dp_heap :: objheap
  dp_pools :: pools
  dp_runners :: cworld
  dp_ios :: "oid \<Rightarrow> eventio"
  dp_log :: "devent list"

definition UpdateTickCache :: "int \<Rightarrow> dispatcher \<Rightarrow> dispatcher" where
  "UpdateTickCache now d = d\<lparr>dp_tick := now\<rparr>"

definition Dispatcher_new :: "int \<Rightarrow> cworld \<Rightarrow> dispatcher" where
  "Dispatcher_new now w = UpdateTickCache now \<lparr>dp_timers = [], dp_node = 0, dp_io_list = [], dp_closed = [], dp_exit = False,
     dp_tick_last = 0, dp_tick = 0, dp_frame_no = 0, dp_quicktimer = Timer_new, dp_heap = objheap_empty, dp_pools = [[]],
     dp_runners = w, dp_ios = (\<lambda>_. EventIO_new), dp_log = []\<rparr>"

definition GetTimestampCache :: "dispatcher \<Rightarrow> int" where
  "GetTimestampCache d = (if dp_tick d < 0 then - (- dp_tick d div 1000) else dp_tick d div 1000)"

definition NormalExit :: "dispatcher \<Rightarrow> dispatcher" where
  "NormalExit d = d\<lparr>dp_exit := True\<rparr>"

definition dlog :: "devent \<Rightarrow> dispatcher \<Rightarrow> dispatcher" where
  "dlog e d = d\<lparr>dp_log := dp_log d @ [e]\<rparr>"

section \<open>Timeout events\<close>

text \<open>\<open>insert\<close> of a multimap: a new node behind all entries with the same key.\<close>

fun timers_insert :: "int \<Rightarrow> nat \<times> oid \<Rightarrow> timers \<Rightarrow> timers" where
  "timers_insert k v [] = [(k, v)]"
| "timers_insert k v ((k', w) # ts) = (if k' \<le> k then (k', w) # timers_insert k v ts else (k, v) # (k', w) # ts)"

definition EventTimeout_AddToDispatcher :: "oid \<Rightarrow> int \<Rightarrow> dispatcher \<Rightarrow> dispatcher result" where
  "EventTimeout_AddToDispatcher a delay d =
     bindE (Object_Retain a (dp_heap d)) (\<lambda>h.
       Inr (d\<lparr>dp_timers := timers_insert (dp_tick d + delay) (dp_node d, a) (dp_timers d), dp_node := dp_node d + 1, dp_heap := h\<rparr>))"

fun timers_remove :: "oid \<Rightarrow> timers \<Rightarrow> timers option" where
  "timers_remove a [] = None"
| "timers_remove a ((k, n, p) # ts) = (if p = a then Some ts else map_option (\<lambda>r. (k, n, p) # r) (timers_remove a ts))"

definition EventTimeout_RemoveFromDispatcher :: "oid \<Rightarrow> dispatcher \<Rightarrow> dispatcher result" where
  "EventTimeout_RemoveFromDispatcher a d = (case timers_remove a (dp_timers d) of None \<Rightarrow> Inr d
     | Some ts \<Rightarrow> bindE (Object_Release a (dp_heap d)) (\<lambda>h. Inr (d\<lparr>dp_timers := ts, dp_heap := h\<rparr>)))"

text \<open>An iterator is the identity of its node: reading through it and erasing it need the node to be in the map.\<close>

definition timers_at :: "nat \<Rightarrow> timers \<Rightarrow> oid result" where
  "timers_at it ts = (case map_of (map snd ts) it of None \<Rightarrow> Inl UseAfterFree | Some a \<Rightarrow> Inr a)"

definition timers_erase :: "nat \<Rightarrow> timers \<Rightarrow> timers result" where
  "timers_erase it ts = bindE (timers_at it ts) (\<lambda>_. Inr (filter (\<lambda>e. fst (snd e) \<noteq> it) ts))"

section \<open>Descriptors\<close>

definition with_io :: "oid \<Rightarrow> dispatcher \<Rightarrow> (eventio \<Rightarrow> 'a result) \<Rightarrow> 'a result" where
  "with_io a d f = (if rc (dp_heap d) a = None then Inl UseAfterFree else f (dp_ios d a))"

text \<open>\<open>AddToDispatcher\<close>, \<open>ModifyIOEvent\<close> and \<open>Close\<close> of \<open>EventIO\<close> with the dispatcher's lists and the reference count.\<close>

definition io_add :: "oid \<Rightarrow> int \<Rightarrow> nat \<Rightarrow> dispatcher \<Rightarrow> dispatcher result" where
  "io_add a fd evt d = with_io a d (\<lambda>io. bindE (EventIO_AddToDispatcher fd evt io) (\<lambda>io'.
     bindE (Object_Retain a (dp_heap d)) (\<lambda>h.
       Inr (d\<lparr>dp_ios := (dp_ios d)(a := io'), dp_io_list := a # dp_io_list d, dp_heap := h\<rparr>))))"

definition io_modify :: "oid \<Rightarrow> nat \<Rightarrow> dispatcher \<Rightarrow> dispatcher result" where
  "io_modify a evt d = with_io a d (\<lambda>io. bindE (EventIO_ModifyIOEvent evt io) (\<lambda>io'.
     Inr (d\<lparr>dp_ios := (dp_ios d)(a := io')\<rparr>)))"

definition io_close :: "oid \<Rightarrow> dispatcher \<Rightarrow> dispatcher result" where
  "io_close a d = with_io a d (\<lambda>io. bindE (EventIO_Close io) (\<lambda>io'.
     Inr (d\<lparr>dp_ios := (dp_ios d)(a := io'),
            dp_closed := (if io_queued io < io_queued io' then dp_closed d @ [a] else dp_closed d)\<rparr>)))"

section \<open>User code\<close>

text \<open>The calls user code can make: on objects, on the autorelease pool, on the dispatcher.\<close>

datatype dop =
    OpNew
  | OpRetain oid
  | OpRelease oid
  | OpAutoRelease oid
  | OpAdd oid int nat
  | OpModify oid nat
  | OpClose oid
  | OpAddTimeout oid int
  | OpRemoveTimeout oid
  | OpExit

fun run_op :: "dop \<Rightarrow> dispatcher \<Rightarrow> dispatcher result" where
  "run_op OpNew d = (case Object_new (dp_heap d) of (a, h) \<Rightarrow> Inr (d\<lparr>dp_heap := h, dp_ios := (dp_ios d)(a := EventIO_new)\<rparr>))"
| "run_op (OpRetain a) d = bindE (Object_Retain a (dp_heap d)) (\<lambda>h. Inr (d\<lparr>dp_heap := h\<rparr>))"
| "run_op (OpRelease a) d = bindE (Object_Release a (dp_heap d)) (\<lambda>h. Inr (d\<lparr>dp_heap := h\<rparr>))"
| "run_op (OpAutoRelease a) d = Inr (d\<lparr>dp_pools := PoolManager_AddObject a (dp_pools d)\<rparr>)"
| "run_op (OpAdd a fd evt) d = io_add a fd evt d"
| "run_op (OpModify a evt) d = io_modify a evt d"
| "run_op (OpClose a) d = io_close a d"
| "run_op (OpAddTimeout a delay) d = EventTimeout_AddToDispatcher a delay d"
| "run_op (OpRemoveTimeout a) d = EventTimeout_RemoveFromDispatcher a d"
| "run_op OpExit d = Inr (NormalExit d)"

fun run_ops :: "dop list \<Rightarrow> dispatcher \<Rightarrow> dispatcher result" where
  "run_ops [] d = Inr d"
| "run_ops (x # xs) d = bindE (run_op x d) (run_ops xs)"

type_synonym usercode = "dispatcher \<Rightarrow> dop list"

definition call_user :: "usercode \<Rightarrow> dispatcher \<Rightarrow> dispatcher result" where
  "call_user f d = run_ops (f d) d"

record handlers =
  OnTimeout :: "oid \<Rightarrow> usercode"
  OnEventIOReadable :: "oid \<Rightarrow> usercode"
  OnEventIOWriteable :: "oid \<Rightarrow> usercode"
  OnEventIOClose :: "oid \<Rightarrow> usercode"

section \<open>One frame\<close>

text \<open>
  The loop over \<open>timers_\<close>; \<open>it\<close> is the iterator to the first node. The second argument bounds the turns. As every turn reads through the iterator it has erased,
  none succeeds, and the bound given by \<open>Dispatch_update\<close> is never used up.
\<close>

fun Dispatch_timers :: "handlers \<Rightarrow> nat \<Rightarrow> dispatcher \<Rightarrow> dispatcher result" where
  "Dispatch_timers hs n d = (case dp_timers d of [] \<Rightarrow> Inr d
     | (k, it, _) # _ \<Rightarrow> if k > dp_tick d then Inr d
         else (case n of 0 \<Rightarrow> Inl Diverges | Suc n' \<Rightarrow>
           bindE (timers_at it (dp_timers d)) (\<lambda>a.
           bindE (if rc (dp_heap d) a = None then Inl UseAfterFree else call_user (OnTimeout hs a) (dlog (DTimeout a) d)) (\<lambda>d1.
           bindE (timers_erase it (dp_timers d1)) (\<lambda>ts.
           bindE (timers_at it ts) (\<lambda>b.
           bindE (Object_Release b (dp_heap d1)) (\<lambda>h.
           Dispatch_timers hs n' (d1\<lparr>dp_timers := ts, dp_heap := h\<rparr>))))))))"

declare Dispatch_timers.simps [simp del]

definition Dispatch_quicktimer :: "(nat \<Rightarrow> int) \<Rightarrow> dispatcher \<Rightarrow> dispatcher result" where
  "Dispatch_quicktimer clock d = bindE (Timer_Update clock (dp_tick d) (dp_quicktimer d, dp_heap d)) (\<lambda>((t, h), _).
     Inr (d\<lparr>dp_quicktimer := t, dp_heap := h\<rparr>))"

definition Dispatch_runners :: "dispatcher \<Rightarrow> dispatcher result" where
  "Dispatch_runners d = bindE (RunnerMgr_Update (dp_runners d)) (\<lambda>w. Inr (d\<lparr>dp_runners := w\<rparr>))"

definition Dispatch_pool :: "dispatcher \<Rightarrow> dispatcher result" where
  "Dispatch_pool d = bindE (PoolManager_Pop (dp_pools d) (dp_heap d)) (\<lambda>(ps, h). Inr (d\<lparr>dp_pools := ps, dp_heap := h\<rparr>))"

text \<open>The part of a frame before the test of \<open>exit_\<close>; \<open>mainloop\<close> may be absent.\<close>

definition Dispatch_update :: "handlers \<Rightarrow> int \<Rightarrow> (nat \<Rightarrow> int) \<Rightarrow> usercode option \<Rightarrow> dispatcher \<Rightarrow> dispatcher result" where
  "Dispatch_update hs now clock mainloop d =
     (let d1 = UpdateTickCache now (d\<lparr>dp_frame_no := dp_frame_no d + 1\<rparr>); d2 = d1\<lparr>dp_tick_last := dp_tick d1\<rparr> in
      bindE (Dispatch_timers hs (length (dp_timers d2) + 1) d2) (\<lambda>d3.
      bindE (Dispatch_quicktimer clock d3) (\<lambda>d4.
      bindE (Dispatch_runners d4) (\<lambda>d5.
      bindE (case mainloop of None \<Rightarrow> Inr d5 | Some f \<Rightarrow> call_user f d5) Dispatch_pool))))"

definition Dispatch_idle :: "dispatcher \<Rightarrow> bool" where
  "Dispatch_idle d \<longleftrightarrow> dp_exit d \<and> dp_io_list d = [] \<and> dp_timers d = [] \<and> dp_closed d = [] \<and> cw_list (dp_runners d) = []"

text \<open>One entry of the event buffer: the object, whether \<open>EPOLLIN\<close> or \<open>EPOLLERR\<close> is set, whether \<open>EPOLLOUT\<close> is set.\<close>

type_synonym epoll_event = "oid \<times> bool \<times> bool"

definition notify :: "bool \<Rightarrow> devent \<Rightarrow> usercode \<Rightarrow> oid \<Rightarrow> dispatcher \<Rightarrow> dispatcher result" where
  "notify ready e f a d = with_io a d (\<lambda>io. if \<not> io_closed io \<and> ready then call_user f (dlog e d) else Inr d)"

fun Dispatch_events :: "handlers \<Rightarrow> epoll_event list \<Rightarrow> dispatcher \<Rightarrow> dispatcher result" where
  "Dispatch_events hs [] d = Inr d"
| "Dispatch_events hs ((a, rd, wr) # es) d =
     bindE (notify rd (DReadable a) (OnEventIOReadable hs a) a d) (\<lambda>d1.
     bindE (notify wr (DWriteable a) (OnEventIOWriteable hs a) a d1) (Dispatch_events hs es))"

text \<open>
  The loop over \<open>closed_io_list_\<close>; \<open>n\<close> bounds its iterations. The entry is popped after its handler ran; what the
  handler closes is queued behind it.
\<close>

definition io_teardown :: "handlers \<Rightarrow> oid \<Rightarrow> dispatcher \<Rightarrow> dispatcher result" where
  "io_teardown hs a d = with_io a d (\<lambda>_. bindE (call_user (OnEventIOClose hs a) (dlog (DClosed a) d)) (\<lambda>d1.
     with_io a d1 (\<lambda>io.
       bindE (Object_Release a (dp_heap d1)) (\<lambda>h.
         Inr (d1\<lparr>dp_io_list := remove1 a (dp_io_list d1), dp_heap := h, dp_closed := tl (dp_closed d1),
                 dp_ios := (dp_ios d1)(a := io\<lparr>io_linked := False, io_queued := io_queued io - 1\<rparr>)\<rparr>)))))"

fun Dispatch_closed :: "handlers \<Rightarrow> nat \<Rightarrow> dispatcher \<Rightarrow> dispatcher result" where
  "Dispatch_closed hs n d = (case dp_closed d of [] \<Rightarrow> Inr d
     | cur # _ \<Rightarrow> (case n of 0 \<Rightarrow> Inl Diverges | Suc m \<Rightarrow> bindE (io_teardown hs cur d) (Dispatch_closed hs m)))"

declare Dispatch_closed.simps [simp del]

definition Dispatch_io :: "handlers \<Rightarrow> epoll_event list \<Rightarrow> nat \<Rightarrow> dispatcher \<Rightarrow> dispatcher result" where
  "Dispatch_io hs es n d = bindE (Dispatch_events hs es d) (Dispatch_closed hs n)"

text \<open>What the environment supplies to one frame; \<open>fi_events\<close> is what \<open>epoll_wait\<close> returns in the state it is called in.\<close>

record frame_input =
  fi_now :: int
  fi_clock :: "nat \<Rightarrow> int"
  fi_events :: "dispatcher \<Rightarrow> epoll_event list"
  fi_bound :: nat

text \<open>
  \<open>Dispatch\<close> over the frames the environment supplies; the flag says whether it returned. At the end the quick timer is stopped.
\<close>

fun Dispatch_loop :: "handlers \<Rightarrow> usercode option \<Rightarrow> frame_input list \<Rightarrow> dispatcher \<Rightarrow> (bool \<times> dispatcher) result" where
  "Dispatch_loop hs mainloop [] d = Inr (False, d)"
| "Dispatch_loop hs mainloop (i # is) d =
     bindE (Dispatch_update hs (fi_now i) (fi_clock i) mainloop d) (\<lambda>d1.
       if Dispatch_idle d1 then
         bindE (Timer_StopAll (dp_quicktimer d1, dp_heap d1)) (\<lambda>(t, h). Inr (True, d1\<lparr>dp_quicktimer := t, dp_heap := h\<rparr>))
       else bindE (Dispatch_io hs (fi_events i d1) (fi_bound i) d1) (Dispatch_loop hs mainloop is))"

definition Dispatch :: "handlers \<Rightarrow> usercode option \<Rightarrow> int \<Rightarrow> frame_input list \<Rightarrow> dispatcher \<Rightarrow> (bool \<times> dispatcher) result" where
  "Dispatch hs mainloop now is d = (let d1 = UpdateTickCache now d in Dispatch_loop hs mainloop is (d1\<lparr>dp_tick_last := dp_tick d1\<rparr>))"

end
