(* ===== verification/DispatcherSpec.thy ===== *)
theory DispatcherSpec
  imports Dispatcher
begin

text \<open>
  Correctness of the dispatcher: an ownership invariant that counts, for every object, the references the dispatcher's lists, its
  timers and the autorelease pools hold, and its preservation by every call user code can make and by every part of a frame.
\<close>

section \<open>Invariant\<close>

text \<open>The references held by the list of descriptors, the timeout events, the quick timer and the pools.\<close>

definition holders :: "dispatcher \<Rightarrow> oid \<Rightarrow> nat" where
  "holders d a = count_list (dp_io_list d) a + count_list (map (snd \<circ> snd) (dp_timers d)) a +
     count_list (linkers (map snd (tm_queue (dp_quicktimer d)))) a + count_list (concat (dp_pools d)) a"

definition owned :: "dispatcher \<Rightarrow> bool" where
  [inv_defs]: "owned d \<longleftrightarrow> obj_inv (dp_heap d) \<and> (\<forall>a. holders d a \<le> refs (dp_heap d) a)"

definition timer_shape :: "timer \<Rightarrow> bool" where
  [inv_defs]: "timer_shape t \<longleftrightarrow> sorted (map fst (tm_queue t)) \<and> tm_intervals t = [] \<and>
     distinct (linkers (map snd (tm_queue t))) \<and> (\<forall>e \<in> set (tm_queue t). da_tick (snd e) = fst e)"

text \<open>The queue of closed objects holds exactly the registered objects that are closed, once each.\<close>

definition io_shape :: "dispatcher \<Rightarrow> bool" where
  [inv_defs]: "io_shape d \<longleftrightarrow> distinct (dp_io_list d) \<and> (\<forall>a. io_linked (dp_ios d a) \<longleftrightarrow> a \<in> set (dp_io_list d)) \<and>
     (\<forall>a. eventio_ok (dp_ios d a)) \<and> distinct (dp_closed d) \<and>
     (\<forall>a. a \<in> set (dp_closed d) \<longleftrightarrow> io_linked (dp_ios d a) \<and> io_closed (dp_ios d a))"

definition dp_inv :: "dispatcher \<Rightarrow> bool" where
  [inv_defs]: "dp_inv d \<longleftrightarrow> owned d \<and> timer_shape (dp_quicktimer d) \<and> io_shape d \<and> dp_pools d \<noteq> [] \<and> (\<exists>R. cw_inv R (dp_runners d))"

text \<open>
  The part of user code in the contract: it touches live objects only, gives up only references that nobody
  else accounts for, registers an object once and with a descriptor, and does not let a count overflow.
\<close>

definition live :: "dispatcher \<Rightarrow> oid \<Rightarrow> bool" where
  "live d a \<longleftrightarrow> rc (dp_heap d) a \<noteq> None"

definition spare :: "dispatcher \<Rightarrow> oid \<Rightarrow> bool" where
  "spare d a \<longleftrightarrow> holders d a < refs (dp_heap d) a"

definition room :: "dispatcher \<Rightarrow> oid \<Rightarrow> bool" where
  "room d a \<longleftrightarrow> live d a \<and> refs (dp_heap d) a < 4294967295"

fun op_ok :: "dop \<Rightarrow> dispatcher \<Rightarrow> bool" where
  "op_ok OpNew d = True"
| "op_ok (OpRetain a) d = room d a"
| "op_ok (OpRelease a) d = spare d a"
| "op_ok (OpAutoRelease a) d = spare d a"
| "op_ok (OpAdd a fd evt) d = (room d a \<and> \<not> io_linked (dp_ios d a) \<and> \<not> io_closed (dp_ios d a) \<and> fd \<noteq> -1)"
| "op_ok (OpModify a evt) d = (live d a \<and> io_linked (dp_ios d a) \<and> \<not> io_closed (dp_ios d a))"
| "op_ok (OpClose a) d = live d a"
| "op_ok (OpAddTimeout a delay) d = room d a"
| "op_ok (OpRemoveTimeout a) d = True"
| "op_ok OpExit d = True"

fun ops_ok :: "dop list \<Rightarrow> dispatcher \<Rightarrow> bool" where
  "ops_ok [] d = True"
| "ops_ok (x # xs) d = (op_ok x d \<and> (\<forall>d'. run_op x d = Inr d' \<longrightarrow> ops_ok xs d'))"

text \<open>
  What a call leaves: registered objects stay registered, the queue of closed objects only grows at its end, an object that
  is closed is not registered anew; the timer, the runners and the log are untouched.
\<close>

definition later :: "dispatcher \<Rightarrow> dispatcher \<Rightarrow> bool" where
  "later d d' \<longleftrightarrow> (\<exists>xs. dp_closed d' = dp_closed d @ xs) \<and> set (dp_io_list d) \<subseteq> set (dp_io_list d') \<and>
     (\<forall>a < obj_next (dp_heap d). io_closed (dp_ios d a) \<longrightarrow> io_closed (dp_ios d' a) \<and> (io_linked (dp_ios d' a) \<longrightarrow> io_linked (dp_ios d a))) \<and>
     (\<forall>a. io_linked (dp_ios d a) \<longrightarrow> io_linked (dp_ios d' a)) \<and>
     (\<forall>a. io_closed (dp_ios d' a) \<longrightarrow> io_closed (dp_ios d a) \<or> io_linked (dp_ios d' a)) \<and>
     obj_next (dp_heap d) \<le> obj_next (dp_heap d') \<and> dp_log d' = dp_log d \<and> dp_tick d' = dp_tick d"

lemma later_refl [simp]: "later d d"
  by (simp add: later_def)

lemma later_trans: "later d d' \<Longrightarrow> later d' d'' \<Longrightarrow> later d d''"
proof -
  assume a: "later d d'" and b: "later d' d''"
  from a obtain xs where "dp_closed d' = dp_closed d @ xs" by (auto simp: later_def)
  moreover from b obtain ys where "dp_closed d'' = dp_closed d' @ ys" by (auto simp: later_def)
  ultimately have "\<exists>zs. dp_closed d'' = dp_closed d @ zs" by auto
  moreover have "set (dp_io_list d) \<subseteq> set (dp_io_list d'')" using a b by (auto simp: later_def)
  moreover have "io_closed (dp_ios d'' x) \<and> (io_linked (dp_ios d'' x) \<longrightarrow> io_linked (dp_ios d x))"
    if "x < obj_next (dp_heap d)" "io_closed (dp_ios d x)" for x
  proof -
    have "io_closed (dp_ios d' x)" "io_linked (dp_ios d' x) \<longrightarrow> io_linked (dp_ios d x)" "x < obj_next (dp_heap d')"
      using a that by (auto simp: later_def)
    then show ?thesis using b by (auto simp: later_def)
  qed
  moreover have "\<forall>x. io_linked (dp_ios d x) \<longrightarrow> io_linked (dp_ios d'' x)"
    "\<forall>x. io_closed (dp_ios d'' x) \<longrightarrow> io_closed (dp_ios d x) \<or> io_linked (dp_ios d'' x)"
  proof -
    show "\<forall>x. io_linked (dp_ios d x) \<longrightarrow> io_linked (dp_ios d'' x)" using a b by (simp add: later_def)
    have "\<forall>x. io_closed (dp_ios d'' x) \<longrightarrow> io_closed (dp_ios d' x) \<or> io_linked (dp_ios d'' x)"
      "\<forall>x. io_closed (dp_ios d' x) \<longrightarrow> io_closed (dp_ios d x) \<or> io_linked (dp_ios d' x)"
      "\<forall>x. io_linked (dp_ios d' x) \<longrightarrow> io_linked (dp_ios d'' x)"
      using a b by (simp_all add: later_def)
    then show "\<forall>x. io_closed (dp_ios d'' x) \<longrightarrow> io_closed (dp_ios d x) \<or> io_linked (dp_ios d'' x)" by blast
  qed
  moreover have "obj_next (dp_heap d) \<le> obj_next (dp_heap d'')" "dp_log d'' = dp_log d" "dp_tick d'' = dp_tick d"
    using a b by (auto simp: later_def)
  ultimately show ?thesis unfolding later_def by blast
qed

lemma Retain_effect:
  assumes "obj_inv h" "rc h a \<noteq> None" "refs h a < 4294967295"
  shows "\<exists>h'. Object_Retain a h = Inr h' \<and> obj_inv h' \<and> refs h' = (refs h)(a := refs h a + 1) \<and> obj_next h' = obj_next h"
proof -
  have "a \<in> dom (rc h)" using assms(2) by auto
  then obtain h' where h': "Object_Retain a h = Inr h'" "obj_inv h'" "refs h' = (refs h)(a := refs h a + 1)"
    using Object_Retain_refs assms by blast
  moreover have "obj_next h' = obj_next h" using h'(1) by (auto simp: Object_Retain_def split: option.splits)
  ultimately show ?thesis by blast
qed

lemma Release_effect:
  assumes "obj_inv h" "0 < refs h a"
  shows "\<exists>h'. Object_Release a h = Inr h' \<and> obj_inv h' \<and> refs h' = (refs h)(a := refs h a - 1) \<and> obj_next h' = obj_next h"
proof -
  have "a \<in> dom (rc h)" using assms by (simp add: refs_pos_iff)
  then show ?thesis using Object_Release_refs assms by blast
qed

lemma owned_change:
  assumes "owned d" "obj_inv (dp_heap d')" "\<And>a. holders d' a + refs (dp_heap d) a \<le> holders d a + refs (dp_heap d') a"
  shows "owned d'"
proof -
  have "holders d' a \<le> refs (dp_heap d') a" for a
  proof -
    have "holders d a \<le> refs (dp_heap d) a" using assms(1) by (simp add: owned_def)
    with assms(3) [of a] show ?thesis by linarith
  qed
  with assms(2) show ?thesis by (simp add: owned_def)
qed

lemma owned_gain:
  assumes "owned d" "obj_inv (dp_heap e)" "refs (dp_heap e) = (refs (dp_heap d))(a := refs (dp_heap d) a + 1)"
    and "\<And>b. holders e b = holders d b + (if b = a then 1 else 0)"
  shows "owned e"
  by (rule owned_change [OF assms(1,2)]) (simp add: assms(3,4))

lemma owned_loss:
  assumes "owned d" "obj_inv (dp_heap e)" "refs (dp_heap e) = (refs (dp_heap d))(a := refs (dp_heap d) a - 1)"
    and "\<And>b. holders d b = holders e b + (if b = a then 1 else 0)"
  shows "owned e"
  by (rule owned_change [OF assms(1,2)]) (simp add: assms(3,4), arith)

lemma held_live: "owned d \<Longrightarrow> 0 < holders d a \<Longrightarrow> live d a"
  unfolding owned_def live_def refs_def by (metis gr_zeroI leD option.simps(4))

lemma io_list_live: "dp_inv d \<Longrightarrow> a \<in> set (dp_io_list d) \<Longrightarrow> live d a"
  by (rule held_live) (auto simp: dp_inv_def holders_def count_list_0_iff)

lemma live_below: "owned d \<Longrightarrow> live d a \<Longrightarrow> a < obj_next (dp_heap d)"
  unfolding owned_def obj_inv_def live_def by (metis not_less)

lemma timers_insert_count: "count_list (map (snd \<circ> snd) (timers_insert k (n, a) ts)) b = count_list (map (snd \<circ> snd) ts) b + (if b = a then 1 else 0)"
  by (induction k "(n, a)" ts rule: timers_insert.induct) auto

lemma timers_remove_count:
  "timers_remove a ts = Some ts' \<Longrightarrow> count_list (map (snd \<circ> snd) ts) b = count_list (map (snd \<circ> snd) ts') b + (if b = a then 1 else 0)"
  by (induction a ts arbitrary: ts' rule: timers_remove.induct) (auto split: if_splits)


lemma concat_AddObject: "count_list (concat (PoolManager_AddObject a ps)) b = count_list (concat ps) b + (if b = a then 1 else 0)"
  by (cases ps) (simp_all add: PoolManager_AddObject_def PoolManager_Push_def AutoReleasePool_AddObject_def)

text \<open>Calls that change counts only.\<close>

lemma dp_inv_heap:
  assumes "dp_inv d" "obj_inv h" "\<And>b. holders d b \<le> refs h b"
  shows "dp_inv (d\<lparr>dp_heap := h\<rparr>)"
  using assms by (simp add: dp_inv_def owned_def io_shape_def holders_def)

lemma dp_inv_owned: "dp_inv d \<Longrightarrow> obj_inv (dp_heap d)" "dp_inv d \<Longrightarrow> holders d b \<le> refs (dp_heap d) b"
  by (simp_all add: dp_inv_def owned_def)

lemma retain_heap:
  assumes "dp_inv d" "room d a"
  shows "\<exists>h. Object_Retain a (dp_heap d) = Inr h \<and> obj_inv h \<and> refs h = (refs (dp_heap d))(a := refs (dp_heap d) a + 1) \<and>
    obj_next h = obj_next (dp_heap d)"
  by (rule Retain_effect) (use assms in \<open>simp_all add: dp_inv_owned room_def live_def\<close>)

lemma release_heap:
  assumes "dp_inv d" "0 < refs (dp_heap d) a"
  shows "\<exists>h. Object_Release a (dp_heap d) = Inr h \<and> obj_inv h \<and> refs h = (refs (dp_heap d))(a := refs (dp_heap d) a - 1) \<and>
    obj_next h = obj_next (dp_heap d)"
  by (rule Release_effect) (use assms in \<open>simp_all add: dp_inv_owned\<close>)

lemma EventIO_new_sel [simp]: "\<not> io_linked EventIO_new" "\<not> io_closed EventIO_new"
  by (simp_all add: EventIO_new_def)

lemma retain_ok:
  assumes "dp_inv d" "room d a"
  shows "\<exists>d'. run_op (OpRetain a) d = Inr d' \<and> dp_inv d' \<and> later d d'"
proof -
  obtain h where h: "Object_Retain a (dp_heap d) = Inr h" "obj_inv h" "refs h = (refs (dp_heap d))(a := refs (dp_heap d) a + 1)"
      "obj_next h = obj_next (dp_heap d)"
    using retain_heap [OF assms] by blast
  have "dp_inv (d\<lparr>dp_heap := h\<rparr>)"
    by (rule dp_inv_heap [OF assms(1) h(2)]) (use dp_inv_owned(2) [OF assms(1)] h(3) in \<open>simp add: le_Suc_eq\<close>)
  with h show ?thesis by (simp add: later_def)
qed

lemma release_ok:
  assumes "dp_inv d" "spare d a"
  shows "\<exists>d'. run_op (OpRelease a) d = Inr d' \<and> dp_inv d' \<and> later d d'"
proof -
  have "0 < refs (dp_heap d) a" using assms(2) by (simp add: spare_def)
  then obtain h where h: "Object_Release a (dp_heap d) = Inr h" "obj_inv h" "refs h = (refs (dp_heap d))(a := refs (dp_heap d) a - 1)"
      "obj_next h = obj_next (dp_heap d)"
    using release_heap [OF assms(1)] by blast
  have "dp_inv (d\<lparr>dp_heap := h\<rparr>)"
    by (rule dp_inv_heap [OF assms(1) h(2)]) (use dp_inv_owned(2) [OF assms(1)] h(3) assms(2) in \<open>auto simp: spare_def\<close>)
  with h show ?thesis by (simp add: later_def)
qed

lemma new_ok:
  assumes "dp_inv d"
  shows "\<exists>d'. run_op OpNew d = Inr d' \<and> dp_inv d' \<and> later d d'"
proof -
  let ?a = "obj_next (dp_heap d)" and ?h = "snd (Object_new (dp_heap d))"
  let ?d = "d\<lparr>dp_heap := ?h, dp_ios := (dp_ios d)(?a := EventIO_new)\<rparr>"
  have ow: "owned d" and sh: "io_shape d" using assms by (simp_all add: dp_inv_def)
  have "\<not> live d ?a" using live_below [OF ow, of ?a] by auto
  then have na: "?a \<notin> set (dp_io_list d)" using io_list_live [OF assms] by blast
  then have nl: "\<not> io_linked (dp_ios d ?a)" using sh by (simp add: io_shape_def)
  have r: "run_op OpNew d = Inr ?d" by (simp add: Object_new_def)
  have "refs (dp_heap d) b \<le> refs ?h b" for b
    using \<open>\<not> live d ?a\<close> by (auto simp: Object_new_def refs_def live_def)
  moreover have "holders ?d b = holders d b" for b by (simp add: holders_def)
  ultimately have "owned ?d"
    using ow Object_new_inv [of "dp_heap d"] by (intro owned_change [OF ow]) (auto simp: owned_def)
  moreover have "io_shape ?d" using sh na nl
    by (auto simp: io_shape_def EventIO_new_ok)
  ultimately have "dp_inv ?d" using assms by (simp add: dp_inv_def)
  moreover have "later d ?d" using nl by (auto simp: later_def Object_new_def)
  ultimately show ?thesis using r by blast
qed


lemma autorelease_ok:
  assumes "dp_inv d" "spare d a"
  shows "\<exists>d'. run_op (OpAutoRelease a) d = Inr d' \<and> dp_inv d' \<and> later d d'"
proof -
  let ?d = "d\<lparr>dp_pools := PoolManager_AddObject a (dp_pools d)\<rparr>"
  have "holders ?d b = holders d b + (if b = a then 1 else 0)" for b by (simp add: holders_def concat_AddObject)
  then have "holders ?d b \<le> refs (dp_heap d) b" for b
    using dp_inv_owned(2) [OF assms(1), of b] assms(2) by (simp add: spare_def)
  then have "owned ?d" using dp_inv_owned(1) [OF assms(1)] by (simp add: owned_def)
  moreover have "PoolManager_AddObject a (dp_pools d) \<noteq> []" by (simp add: PoolManager_AddObject_def Let_def)
  moreover have "io_shape ?d" using assms(1) by (simp add: dp_inv_def io_shape_def)
  ultimately have "dp_inv ?d" using assms(1) by (simp add: dp_inv_def)
  then show ?thesis by (simp add: later_def)
qed

lemma io_shape_eventio: "dp_inv d \<Longrightarrow> eventio_ok (dp_ios d a)"
  by (simp add: dp_inv_def io_shape_def)

lemma add_ok:
  assumes inv: "dp_inv d" and ok: "op_ok (OpAdd a fd evt) d"
  shows "\<exists>d'. run_op (OpAdd a fd evt) d = Inr d' \<and> dp_inv d' \<and> later d d'"
proof -
  obtain io' where io': "EventIO_AddToDispatcher fd evt (dp_ios d a) = Inr io'" "eventio_ok io'" "io_linked io'" "\<not> io_closed io'"
    using AddToDispatcher_ok [of "dp_ios d a" fd evt] ok io_shape_eventio [OF inv, of a] by auto
  obtain h where h: "Object_Retain a (dp_heap d) = Inr h" "obj_inv h" "refs h = (refs (dp_heap d))(a := refs (dp_heap d) a + 1)"
      "obj_next h = obj_next (dp_heap d)"
    using retain_heap [OF inv] ok by auto
  define e where "e = d\<lparr>dp_ios := (dp_ios d)(a := io'), dp_io_list := a # dp_io_list d, dp_heap := h\<rparr>"
  have e: "dp_ios e = (dp_ios d)(a := io')" "dp_io_list e = a # dp_io_list d" "dp_heap e = h" "dp_closed e = dp_closed d"
    "dp_quicktimer e = dp_quicktimer d" "dp_pools e = dp_pools d" "dp_runners e = dp_runners d" "dp_log e = dp_log d" "dp_tick e = dp_tick d"
    "dp_timers e = dp_timers d"
    by (simp_all add: e_def)
  have r: "run_op (OpAdd a fd evt) d = Inr e" using ok io' h by (simp add: io_add_def with_io_def room_def live_def e_def)
  have "holders e b = holders d b + (if b = a then 1 else 0)" for b by (simp add: holders_def e)
  then have "owned e" by (rule owned_gain [rotated -1]) (use inv h in \<open>simp_all add: dp_inv_def e\<close>)
  moreover have "io_shape e" using inv ok io' unfolding dp_inv_def io_shape_def e by auto
  ultimately have "dp_inv e" using inv by (simp add: dp_inv_def e)
  moreover have "later d e" using ok io' by (auto simp: later_def e h)
  ultimately show ?thesis using r by blast
qed

lemma modify_ok:
  assumes inv: "dp_inv d" and ok: "op_ok (OpModify a evt) d"
  shows "\<exists>d'. run_op (OpModify a evt) d = Inr d' \<and> dp_inv d' \<and> later d d'"
proof -
  define io' where "io' = (dp_ios d a)\<lparr>io_evt := evt\<rparr>"
  have m: "EventIO_ModifyIOEvent evt (dp_ios d a) = Inr io'" "eventio_ok io'" "io_linked io' = io_linked (dp_ios d a)"
      "io_closed io' = io_closed (dp_ios d a)"
    using ModifyIOEvent_ok [OF io_shape_eventio [OF inv, of a]] ok by (auto simp: io'_def)
  define e where "e = d\<lparr>dp_ios := (dp_ios d)(a := io')\<rparr>"
  have r: "run_op (OpModify a evt) d = Inr e" using ok m(1) by (simp add: io_modify_def with_io_def live_def e_def)
  have "io_shape e" using inv m unfolding dp_inv_def io_shape_def e_def by auto
  moreover have "owned e" using inv by (simp add: dp_inv_def owned_def holders_def e_def)
  ultimately have "dp_inv e" using inv by (simp add: dp_inv_def e_def)
  moreover have "later d e" using m by (auto simp: later_def e_def)
  ultimately show ?thesis using r by blast
qed

lemma Close_queued:
  "eventio_ok io \<Longrightarrow> EventIO_Close io = Inr io' \<Longrightarrow> (io_queued io < io_queued io') \<longleftrightarrow> io_linked io \<and> \<not> io_closed io"
  by (auto simp: EventIO_Close_def EventIO_CloseFD_def eventio_ok_def assertE_def split: if_splits)

lemma close_ok:
  assumes inv: "dp_inv d" and ok: "live d a"
  shows "\<exists>d'. run_op (OpClose a) d = Inr d' \<and> dp_inv d' \<and> later d d'"
proof -
  obtain io' where c: "EventIO_Close (dp_ios d a) = Inr io'" "eventio_ok io'" "io_linked io' = io_linked (dp_ios d a)"
      "io_closed io' = (io_closed (dp_ios d a) \<or> io_linked (dp_ios d a))"
    using Close_ok [OF io_shape_eventio [OF inv, of a]] by blast
  define xs where "xs = (if io_linked (dp_ios d a) \<and> \<not> io_closed (dp_ios d a) then [a] else [])"
  define e where "e = d\<lparr>dp_ios := (dp_ios d)(a := io'), dp_closed := dp_closed d @ xs\<rparr>"
  have r: "run_op (OpClose a) d = Inr e"
    using ok c(1) Close_queued [OF io_shape_eventio [OF inv, of a] c(1)]
    by (auto simp: io_close_def with_io_def live_def e_def xs_def)
  have "io_shape e" using inv c unfolding dp_inv_def io_shape_def e_def xs_def by auto
  moreover have "owned e" using inv by (simp add: dp_inv_def owned_def holders_def e_def)
  ultimately have "dp_inv e" using inv by (simp add: dp_inv_def e_def)
  moreover have "later d e" using c by (auto simp: later_def e_def)
  ultimately show ?thesis using r by blast
qed

lemma add_timeout_ok:
  assumes inv: "dp_inv d" and ok: "room d a"
  shows "\<exists>d'. run_op (OpAddTimeout a delay) d = Inr d' \<and> dp_inv d' \<and> later d d'"
proof -
  obtain h where h: "Object_Retain a (dp_heap d) = Inr h" "obj_inv h" "refs h = (refs (dp_heap d))(a := refs (dp_heap d) a + 1)"
      "obj_next h = obj_next (dp_heap d)"
    using retain_heap [OF inv ok] by blast
  define e where "e = d\<lparr>dp_timers := timers_insert (dp_tick d + delay) (dp_node d, a) (dp_timers d), dp_node := dp_node d + 1, dp_heap := h\<rparr>"
  have r: "run_op (OpAddTimeout a delay) d = Inr e" using h(1) by (simp add: EventTimeout_AddToDispatcher_def e_def)
  have "holders e b = holders d b + (if b = a then 1 else 0)" for b
    using timers_insert_count [of "dp_tick d + delay" "dp_node d" a "dp_timers d" b] by (simp add: holders_def e_def)
  then have "owned e" by (rule owned_gain [rotated -1]) (use inv h in \<open>simp_all add: dp_inv_def e_def\<close>)
  moreover have "io_shape e" using inv by (simp add: dp_inv_def io_shape_def e_def)
  ultimately have "dp_inv e" using inv by (simp add: dp_inv_def e_def)
  moreover have "later d e" using h(4) by (simp add: later_def e_def)
  ultimately show ?thesis using r by blast
qed

lemma remove_timeout_ok:
  assumes inv: "dp_inv d"
  shows "\<exists>d'. run_op (OpRemoveTimeout a) d = Inr d' \<and> dp_inv d' \<and> later d d'"
proof (cases "timers_remove a (dp_timers d)")
  case None
  with inv show ?thesis by (simp add: EventTimeout_RemoveFromDispatcher_def)
next
  case (Some ts)
  note cnt = timers_remove_count [OF Some]
  have "0 < refs (dp_heap d) a" using dp_inv_owned(2) [OF inv, of a] cnt [of a] by (simp add: holders_def)
  then obtain h where h: "Object_Release a (dp_heap d) = Inr h" "obj_inv h" "refs h = (refs (dp_heap d))(a := refs (dp_heap d) a - 1)"
      "obj_next h = obj_next (dp_heap d)"
    using release_heap [OF inv] by blast
  define e where "e = d\<lparr>dp_timers := ts, dp_heap := h\<rparr>"
  have r: "run_op (OpRemoveTimeout a) d = Inr e" using h(1) Some by (simp add: EventTimeout_RemoveFromDispatcher_def e_def)
  have "holders d b = holders e b + (if b = a then 1 else 0)" for b using cnt [of b] by (simp add: holders_def e_def)
  then have "owned e" by (rule owned_loss [rotated -1]) (use inv h in \<open>simp_all add: dp_inv_def e_def\<close>)
  moreover have "io_shape e" using inv by (simp add: dp_inv_def io_shape_def e_def)
  ultimately have "dp_inv e" using inv by (simp add: dp_inv_def e_def)
  moreover have "later d e" using h(4) by (simp add: later_def e_def)
  ultimately show ?thesis using r by blast
qed

lemma exit_ok: "dp_inv d \<Longrightarrow> \<exists>d'. run_op OpExit d = Inr d' \<and> dp_inv d' \<and> later d d'"
  by (simp add: NormalExit_def dp_inv_def owned_def holders_def io_shape_def later_def)

lemma run_op_ok:
  assumes "dp_inv d" "op_ok x d"
  shows "\<exists>d'. run_op x d = Inr d' \<and> dp_inv d' \<and> later d d'"
proof (cases x)
  case (OpAdd a fd evt)
  with assms add_ok show ?thesis by blast
next
  case (OpModify a evt)
  with assms modify_ok show ?thesis by blast
next
  case (OpRetain a)
  with assms retain_ok show ?thesis by simp
next
  case (OpRelease a)
  with assms release_ok show ?thesis by simp
next
  case (OpAutoRelease a)
  with assms autorelease_ok show ?thesis by simp
next
  case (OpClose a)
  with assms close_ok show ?thesis by simp
next
  case (OpAddTimeout a k)
  with assms add_timeout_ok show ?thesis by simp
qed (use assms new_ok remove_timeout_ok exit_ok in blast)+

lemma run_ops_ok:
  assumes "dp_inv d" "ops_ok xs d"
  shows "\<exists>d'. run_ops xs d = Inr d' \<and> dp_inv d' \<and> later d d'"
  using assms
proof (induction xs arbitrary: d)
  case Nil
  then show ?case by simp
next
  case (Cons x xs)
  obtain d1 where d1: "run_op x d = Inr d1" "dp_inv d1" "later d d1" using run_op_ok Cons.prems by fastforce
  with Cons.prems have "ops_ok xs d1" by simp
  with Cons.IH [OF d1(2)] obtain d2 where "run_ops xs d1 = Inr d2" "dp_inv d2" "later d1 d2" by blast
  with d1 show ?case using later_trans by auto
qed


section \<open>Handlers and their log\<close>

fun event_of :: "devent \<Rightarrow> oid option" where
  "event_of (DTimeout a) = None"
| "event_of (DReadable a) = Some a"
| "event_of (DWriteable a) = Some a"
| "event_of (DClosed a) = Some a"

text \<open>No handler of an object is called after its close handler, which thus is called once at most.\<close>

inductive log_ok :: "devent list \<Rightarrow> bool" where
  empty: "log_ok []"
| snoc: "log_ok es \<Longrightarrow> \<forall>a. event_of e = Some a \<longrightarrow> DClosed a \<notin> set es \<Longrightarrow> log_ok (es @ [e])"

text \<open>An object whose close handler was called is closed and, up to those in \<open>C\<close>, not registered.\<close>

definition ended :: "oid set \<Rightarrow> dispatcher \<Rightarrow> bool" where
  "ended C d \<longleftrightarrow> (\<forall>a. DClosed a \<in> set (dp_log d) \<longrightarrow>
     a < obj_next (dp_heap d) \<and> io_closed (dp_ios d a) \<and> (io_linked (dp_ios d a) \<longrightarrow> a \<in> C))"

lemma ended_later: "ended C d \<Longrightarrow> later d d' \<Longrightarrow> ended C d'"
  unfolding ended_def later_def by (metis order_less_le_trans)

text \<open>An object that is closed is still registered or its close handler was called.\<close>

definition told :: "dispatcher \<Rightarrow> bool" where
  "told d \<longleftrightarrow> (\<forall>a. io_closed (dp_ios d a) \<longrightarrow> io_linked (dp_ios d a) \<or> DClosed a \<in> set (dp_log d))"

lemma told_later: "told d \<Longrightarrow> later d d' \<Longrightarrow> told d'"
  unfolding told_def later_def by metis

definition dp_ok :: "dispatcher \<Rightarrow> bool" where
  [inv_defs]: "dp_ok d \<longleftrightarrow> dp_inv d \<and> log_ok (dp_log d) \<and> ended {} d \<and> told d"

definition no_add :: "dop list \<Rightarrow> bool" where
  "no_add xs \<longleftrightarrow> (\<forall>a fd evt. OpAdd a fd evt \<notin> set xs)"

text \<open>The contract of handlers: legal calls in every consistent state in which their object lives; close handlers register nothing.\<close>

definition handlers_ok :: "handlers \<Rightarrow> bool" where
  "handlers_ok hs \<longleftrightarrow> (\<forall>a d. dp_inv d \<and> live d a \<longrightarrow>
     ops_ok (OnEventIOReadable hs a d) d \<and> ops_ok (OnEventIOWriteable hs a d) d \<and>
     ops_ok (OnEventIOClose hs a d) d \<and> no_add (OnEventIOClose hs a d))"

lemma dlog_simps [simp]:
  "dp_inv (dlog e d) = dp_inv d" "live (dlog e d) a = live d a" "dp_log (dlog e d) = dp_log d @ [e]"
  "dp_io_list (dlog e d) = dp_io_list d" "dp_closed (dlog e d) = dp_closed d" "dp_ios (dlog e d) = dp_ios d" "dp_heap (dlog e d) = dp_heap d"
  "dp_tick (dlog e d) = dp_tick d"
  by (simp_all add: dlog_def dp_inv_def owned_def io_shape_def holders_def live_def)

lemma call_user_ok:
  "dp_inv d \<Longrightarrow> ops_ok (f d) d \<Longrightarrow> \<exists>d'. call_user f d = Inr d' \<and> dp_inv d' \<and> later d d'"
  unfolding call_user_def by (rule run_ops_ok)

lemma ended_dlog: "ended C d \<Longrightarrow> \<forall>a. e \<noteq> DClosed a \<Longrightarrow> ended C (dlog e d)"
  by (auto simp: ended_def)

lemma told_dlog: "told d \<Longrightarrow> told (dlog e d)"
  by (auto simp: told_def)

lemma notify_ok:
  assumes ok: "dp_ok d" and a: "a \<in> set (dp_io_list d)" and e: "event_of e = Some a" "\<forall>b. e \<noteq> DClosed b"
    and f: "\<And>d. dp_inv d \<Longrightarrow> live d a \<Longrightarrow> ops_ok (f d) d"
  shows "\<exists>d'. notify ready e f a d = Inr d' \<and> dp_ok d' \<and> set (dp_io_list d) \<subseteq> set (dp_io_list d')"
proof -
  have inv: "dp_inv d" and lo: "log_ok (dp_log d)" and en: "ended {} d" and tl: "told d" using ok by (simp_all add: dp_ok_def)
  have lv: "live d a" using io_list_live [OF inv a] .
  show ?thesis
  proof (cases "\<not> io_closed (dp_ios d a) \<and> ready")
    case True
    obtain d' where d': "call_user f (dlog e d) = Inr d'" "dp_inv d'" "later (dlog e d) d'"
      using call_user_ok [of "dlog e d" f] f [of "dlog e d"] inv lv by auto
    have "DClosed a \<notin> set (dp_log d)" using en True by (auto simp: ended_def)
    then have "log_ok (dp_log (dlog e d))" using lo e(1) by (auto intro: log_ok.snoc)
    moreover have "ended {} d'" "told d'" using ended_later [OF ended_dlog [OF en e(2)] d'(3)] told_later [OF told_dlog [OF tl] d'(3)] .
    ultimately show ?thesis using d' lv True by (auto simp: notify_def with_io_def live_def dp_ok_def later_def)
  next
    case False
    then show ?thesis using lv ok by (auto simp: notify_def with_io_def live_def)
  qed
qed

lemma Dispatch_events_ok:
  assumes hs: "handlers_ok hs"
  shows "dp_ok d \<Longrightarrow> \<forall>e \<in> set es. fst e \<in> set (dp_io_list d) \<Longrightarrow> \<exists>d'. Dispatch_events hs es d = Inr d' \<and> dp_ok d'"
proof (induction es arbitrary: d)
  case Nil
  then show ?case by simp
next
  case (Cons x es)
  obtain a rd wr where x: "x = (a, rd, wr)" by (cases x)
  have a: "a \<in> set (dp_io_list d)" using Cons.prems x by simp
  have r: "\<And>d. dp_inv d \<Longrightarrow> live d a \<Longrightarrow> ops_ok (OnEventIOReadable hs a d) d"
    and w: "\<And>d. dp_inv d \<Longrightarrow> live d a \<Longrightarrow> ops_ok (OnEventIOWriteable hs a d) d" using hs by (auto simp: handlers_ok_def)
  obtain d1 where d1: "notify rd (DReadable a) (OnEventIOReadable hs a) a d = Inr d1" "dp_ok d1" "set (dp_io_list d) \<subseteq> set (dp_io_list d1)"
    using notify_ok [OF Cons.prems(1) a, of "DReadable a" "OnEventIOReadable hs a" rd] r by auto
  obtain d2 where d2: "notify wr (DWriteable a) (OnEventIOWriteable hs a) a d1 = Inr d2" "dp_ok d2" "set (dp_io_list d1) \<subseteq> set (dp_io_list d2)"
    using notify_ok [OF d1(2), of a "DWriteable a" "OnEventIOWriteable hs a" wr] w a d1(3) by auto
  have "\<forall>e \<in> set es. fst e \<in> set (dp_io_list d2)" using Cons.prems(2) d1(3) d2(3) by auto
  with Cons.IH [OF d2(2)] show ?case using x d1(1) d2(1) by simp
qed

section \<open>Teardown\<close>

lemma run_op_no_add:
  assumes "run_op x d = Inr d'" "\<forall>a fd evt. x \<noteq> OpAdd a fd evt"
  shows "dp_io_list d' = dp_io_list d"
  using assms by (cases x) (auto simp: bindE_eq_Inr Object_new_def NormalExit_def io_modify_def io_close_def with_io_def
      EventTimeout_AddToDispatcher_def EventTimeout_RemoveFromDispatcher_def split: option.splits if_splits)

lemma run_ops_no_add: "run_ops xs d = Inr d' \<Longrightarrow> no_add xs \<Longrightarrow> dp_io_list d' = dp_io_list d"
proof (induction xs arbitrary: d)
  case (Cons x xs)
  then obtain d1 where "run_op x d = Inr d1" "run_ops xs d1 = Inr d'" by (auto simp: bindE_eq_Inr)
  with Cons.IH [of d1] Cons.prems(2) run_op_no_add [of x d d1] show ?case by (auto simp: no_add_def)
qed simp

lemma io_teardown_ok:
  assumes hs: "handlers_ok hs" and ok: "dp_ok d" and c: "dp_closed d = a # cs"
  shows "\<exists>d'. io_teardown hs a d = Inr d' \<and> dp_ok d' \<and> length (dp_io_list d') < length (dp_io_list d)"
proof -
  have inv: "dp_inv d" and lo: "log_ok (dp_log d)" and en: "ended {} d" and tl: "told d" using ok by (simp_all add: dp_ok_def)
  have ac: "io_linked (dp_ios d a)" "io_closed (dp_ios d a)" and al: "a \<in> set (dp_io_list d)"
    using inv c by (auto simp: dp_inv_def io_shape_def)
  have lv: "live d a" using io_list_live [OF inv al] .
  have h: "ops_ok (OnEventIOClose hs a (dlog (DClosed a) d)) (dlog (DClosed a) d)" "no_add (OnEventIOClose hs a (dlog (DClosed a) d))"
    using hs inv lv by (auto simp: handlers_ok_def)
  obtain d1 where d1: "call_user (OnEventIOClose hs a) (dlog (DClosed a) d) = Inr d1" "dp_inv d1" "later (dlog (DClosed a) d) d1"
    using call_user_ok [of "dlog (DClosed a) d" "OnEventIOClose hs a"] h inv by auto
  have l1: "dp_io_list d1 = dp_io_list d" using run_ops_no_add [OF _ h(2)] d1(1) by (auto simp: call_user_def)
  obtain xs where xs: "dp_closed d1 = a # cs @ xs" using d1(3) c by (auto simp: later_def)
  have "DClosed a \<notin> set (dp_log d)" using en ac by (auto simp: ended_def)
  then have lo1: "log_ok (dp_log d1)" using lo d1(3) by (auto simp: later_def intro: log_ok.snoc)
  have "a < obj_next (dp_heap d)" using live_below lv inv by (auto simp: dp_inv_def)
  then have "ended {a} (dlog (DClosed a) d)" using en ac by (auto simp: ended_def)
  then have en1: "ended {a} d1" using d1(3) by (rule ended_later)
  have lv1: "live d1 a" using io_list_live [OF d1(2)] al l1 by simp
  have "0 < refs (dp_heap d1) a" using dp_inv_owned(1) [OF d1(2)] lv1 refs_pos_iff by (auto simp: live_def)
  then obtain h where h: "Object_Release a (dp_heap d1) = Inr h" "obj_inv h" "refs h = (refs (dp_heap d1))(a := refs (dp_heap d1) a - 1)"
      "obj_next h = obj_next (dp_heap d1)"
    using release_heap [OF d1(2)] by blast
  define io where "io = (dp_ios d1 a)\<lparr>io_linked := False, io_queued := io_queued (dp_ios d1 a) - 1\<rparr>"
  define e where "e = d1\<lparr>dp_io_list := remove1 a (dp_io_list d1), dp_heap := h, dp_closed := tl (dp_closed d1), dp_ios := (dp_ios d1)(a := io)\<rparr>"
  have e: "dp_io_list e = remove1 a (dp_io_list d1)" "dp_heap e = h" "dp_closed e = cs @ xs" "dp_ios e = (dp_ios d1)(a := io)"
    "dp_timers e = dp_timers d1" "dp_quicktimer e = dp_quicktimer d1" "dp_pools e = dp_pools d1" "dp_runners e = dp_runners d1" "dp_log e = dp_log d1"
    by (simp_all add: e_def xs)
  have r: "io_teardown hs a d = Inr e" using lv lv1 d1(1) h(1) by (simp add: io_teardown_def with_io_def live_def e_def io_def)
  have dl: "distinct (dp_io_list d1)" using d1(2) by (simp add: dp_inv_def io_shape_def)
  have "0 < count_list (dp_io_list d1) a" using al l1 by (metis count_list_0_iff neq0_conv)
  then have "holders d1 b = holders e b + (if b = a then 1 else 0)" for b
    by (simp add: holders_def e count_list_remove1)
  then have ow: "owned e" by (rule owned_loss [rotated -1]) (use d1(2) h in \<open>simp_all add: dp_inv_def e\<close>)
  have io: "eventio_ok io" "\<not> io_linked io" "io_closed io = io_closed (dp_ios d1 a)"
    using io_shape_eventio [OF d1(2), of a] by (auto simp: io_def eventio_ok_def)
  have "io_shape e" using d1(2) io xs dl unfolding dp_inv_def io_shape_def e by auto
  then have "dp_inv e" using ow d1(2) by (simp add: dp_inv_def e)
  moreover have "ended {} e" using en1 io h(4) by (auto simp: ended_def e)
  moreover have "told e"
  proof -
    have "DClosed a \<in> set (dp_log d1)" using d1(3) by (simp add: later_def)
    then show ?thesis using told_later [OF told_dlog [OF tl] d1(3)] by (auto simp: told_def e)
  qed
  moreover have "length (dp_io_list e) < length (dp_io_list d)"
    using al l1 length_pos_if_in_set [OF al] by (simp add: e length_remove1)
  ultimately show ?thesis using r lo1 by (auto simp: dp_ok_def e)
qed

lemma Dispatch_closed_ok:
  assumes hs: "handlers_ok hs"
  shows "dp_ok d \<Longrightarrow> length (dp_io_list d) \<le> k \<Longrightarrow> \<exists>d'. (\<forall>n \<ge> k. Dispatch_closed hs n d = Inr d') \<and> dp_ok d' \<and> dp_closed d' = []"
proof (induction k arbitrary: d)
  case 0
  then have "dp_closed d = []" by (auto simp: dp_ok_def dp_inv_def io_shape_def)
  with 0 show ?case by (auto simp: Dispatch_closed.simps)
next
  case (Suc k)
  show ?case
  proof (cases "dp_closed d")
    case Nil
    with Suc.prems show ?thesis by (auto simp: Dispatch_closed.simps)
  next
    case (Cons a cs)
    obtain d1 where d1: "io_teardown hs a d = Inr d1" "dp_ok d1" "length (dp_io_list d1) < length (dp_io_list d)"
      using io_teardown_ok [OF hs Suc.prems(1) Cons] by blast
    obtain d' where d': "\<forall>n \<ge> k. Dispatch_closed hs n d1 = Inr d'" "dp_ok d'" "dp_closed d' = []"
      using Suc.IH [OF d1(2)] d1(3) Suc.prems(2) by (metis less_le_trans less_Suc_eq_le)
    have "Dispatch_closed hs n d = Inr d'" if "n \<ge> Suc k" for n
      using that d1(1) d'(1) Cons by (cases n) (simp_all add: Dispatch_closed.simps)
    with d' show ?thesis by blast
  qed
qed


section \<open>The timer, the runners and the pool\<close>

lemma count_list_pos: "a \<in> set xs \<Longrightarrow> 0 < count_list xs a"
  by (metis count_list_0_iff neq0_conv)

lemma distinct_count_list: "distinct xs \<Longrightarrow> count_list xs a = (if a \<in> set xs then 1 else 0)"
  by (induction xs) auto

lemma delete_actions_obj_inv: "delete_actions as h = Inr h' \<Longrightarrow> obj_inv h \<Longrightarrow> obj_inv h'"
proof (induction as arbitrary: h)
  case (Cons a as)
  then obtain h1 where h1: "DelayAction_delete a h = Inr h1" "delete_actions as h1 = Inr h'" by (auto simp: bindE_eq_Inr)
  have "obj_inv h1"
  proof (cases "da_linker a")
    case None
    then show ?thesis using h1(1) Cons.prems(2) by (simp add: DelayAction_delete_def SAFE_RELEASE_def)
  next
    case (Some l)
    then have r: "Object_Release l h = Inr h1" using h1(1) by (auto simp: DelayAction_delete_def SAFE_RELEASE_def bindE_eq_Inr)
    then have "l \<in> dom (rc h)" by (auto simp: Object_Release_def split: option.splits)
    then show ?thesis using Object_Release_refs [OF Cons.prems(2), of l] r by auto
  qed
  with Cons.IH [OF h1(2)] show ?case by blast
qed simp

lemma dropped_refs: "rc h' = dropped ls (rc h) \<Longrightarrow> refs h' a = refs h a - (if a \<in> set ls then 1 else 0)"
  by (auto simp: refs_def dropped_def split: option.splits)

lemma timer_inv_shape: "timer_inv t h \<Longrightarrow> timer_shape t"
  by (simp add: timer_inv_def timer_shape_def linked_def)

lemma dp_inv_timer:
  assumes "dp_inv d"
  shows "timer_inv (dp_quicktimer d) (dp_heap d)"
proof -
  let ?ls = "linkers (map snd (tm_queue (dp_quicktimer d)))"
  have lv: "live d l" if "l \<in> set ?ls" for l
    by (rule held_live) (use assms count_list_pos [OF that] in \<open>auto simp: dp_inv_def holders_def\<close>)
  have ow: "owned d" using assms by (simp add: dp_inv_def)
  have "\<exists>n. rc (dp_heap d) l = Some n \<and> 0 < n \<and> n < 4294967296" if "l \<in> set ?ls" for l
    using lv [OF that] ow by (auto simp: live_def owned_def obj_inv_def)
  moreover have "l < obj_next (dp_heap d)" if "l \<in> set ?ls" for l using live_below [OF ow lv [OF that]] .
  ultimately show ?thesis using assms by (simp add: timer_inv_def dp_inv_def timer_shape_def linked_def)
qed

lemma linkers_updated:
  "mset (linkers (filter (\<lambda>a. da_interval a \<le> 0) (due tick t))) + mset (linkers (map snd (tm_queue (updated clock tick t h))))
     = mset (linkers (map snd (tm_queue t)))"
  using linkers_split [of tick t]
  by (simp add: updated_sel mset_linkers_emplace_all rearmed_def linkers_map del: map_map)

lemma Dispatch_quicktimer_ok:
  assumes inv: "dp_inv d" and clock: "\<forall>n. dp_tick d \<le> clock n" and dl: "\<forall>a \<in> set (due (dp_tick d) (dp_quicktimer d)). delayed a"
  shows "\<exists>d'. Dispatch_quicktimer clock d = Inr d' \<and> dp_inv d' \<and> later d d' \<and> dp_io_list d' = dp_io_list d"
proof -
  let ?t = "dp_quicktimer d" and ?h = "dp_heap d"
  let ?non = "linkers (filter (\<lambda>a. da_interval a \<le> 0) (due (dp_tick d) ?t))"
  have ti: "timer_inv ?t ?h" using dp_inv_timer [OF inv] .
  define t where "t = updated clock (dp_tick d) ?t ?h"
  obtain h where h: "Timer_Update clock (dp_tick d) (?t, ?h) = Inr ((t, h), map (\<lambda>a. cb_id (da_fun a)) (ran (dp_tick d) ?t ?h))"
      "rc h = dropped ?non (rc ?h)" "obj_next h = obj_next ?h" "delete_actions (filter (\<lambda>a. da_interval a \<le> 0) (due (dp_tick d) ?t)) ?h = Inr h"
    using Update_result [OF ti clock dl] unfolding t_def by blast
  have ti': "timer_inv t h" by (rule Update_inv [OF ti clock dl h(1)])
  have oi: "obj_inv h" using delete_actions_obj_inv [OF h(4)] dp_inv_owned(1) [OF inv] .
  have lk: "mset ?non + mset (linkers (map snd (tm_queue t))) = mset (linkers (map snd (tm_queue ?t)))"
    unfolding t_def by (rule linkers_updated)
  have dn: "distinct ?non"
  proof -
    have "distinct (linkers (map snd (tm_queue ?t)))" using inv by (simp add: dp_inv_def timer_shape_def)
    then have "distinct (?non @ linkers (map snd (tm_queue t)))" using lk by (metis mset_append mset_eq_imp_distinct_iff)
    then show ?thesis by simp
  qed
  have cl: "count_list (linkers (map snd (tm_queue ?t))) a = count_list ?non a + count_list (linkers (map snd (tm_queue t))) a" for a
    using arg_cong [OF lk, of "\<lambda>M. count M a"] by (simp add: count_mset)
  have cn: "count_list ?non a = (if a \<in> set ?non then 1 else 0)" for a using dn by (rule distinct_count_list)
  define e where "e = d\<lparr>dp_quicktimer := t, dp_heap := h\<rparr>"
  have r: "Dispatch_quicktimer clock d = Inr e" using h(1) by (simp add: Dispatch_quicktimer_def e_def)
  have "holders e a + count_list ?non a = holders d a" for a using cl [of a] by (simp add: holders_def e_def)
  then have "holders e a + refs (dp_heap d) a \<le> holders d a + refs (dp_heap e) a" for a
  proof -
    have "dp_heap e = h" by (simp add: e_def)
    then show ?thesis using dropped_refs [OF h(2), of a] cn [of a] \<open>\<And>a. holders e a + count_list ?non a = holders d a\<close> [of a] by simp
  qed
  then have "owned e" by (intro owned_change [of d e]) (use inv oi in \<open>simp_all add: dp_inv_def e_def\<close>)
  moreover have "timer_shape t" using ti' by (rule timer_inv_shape)
  moreover have "io_shape e" using inv by (simp add: dp_inv_def io_shape_def e_def)
  ultimately have "dp_inv e" using inv by (simp add: dp_inv_def e_def)
  then show ?thesis using r h(3) by (simp add: later_def e_def)
qed

lemma Dispatch_runners_ok:
  assumes "dp_inv d"
  shows "\<exists>d'. Dispatch_runners d = Inr d' \<and> dp_inv d' \<and> later d d' \<and> dp_io_list d' = dp_io_list d"
proof -
  obtain R where "cw_inv R (dp_runners d)" using assms by (auto simp: dp_inv_def)
  then obtain w where w: "RunnerMgr_Update (dp_runners d) = Inr w" "cw_inv R w" using RunnerMgr_Update_ok by blast
  then have "dp_inv (d\<lparr>dp_runners := w\<rparr>)" using assms by (auto simp: dp_inv_def owned_def holders_def io_shape_def)
  with w show ?thesis by (simp add: Dispatch_runners_def later_def)
qed

lemma Dispatch_pool_ok:
  assumes inv: "dp_inv d"
  shows "\<exists>d'. Dispatch_pool d = Inr d' \<and> dp_inv d' \<and> later d d' \<and> dp_io_list d' = dp_io_list d"
proof -
  obtain p ps where ps: "dp_pools d = p # ps" using inv by (auto simp: dp_inv_def neq_Nil_conv)
  have "count_list p a \<le> refs (dp_heap d) a" for a using dp_inv_owned(2) [OF inv, of a] by (simp add: holders_def ps)
  then obtain h where h: "release_all p (dp_heap d) = Inr h" "obj_inv h" "refs h = (\<lambda>a. refs (dp_heap d) a - count_list p a)"
      "obj_next h = obj_next (dp_heap d)"
    using release_all_refs dp_inv_owned(1) [OF inv] by blast
  define qs where "qs = (if ps = [] then [[]] else ps)"
  define e where "e = d\<lparr>dp_pools := qs, dp_heap := h\<rparr>"
  have r: "Dispatch_pool d = Inr e" using h(1) by (simp add: Dispatch_pool_def ps Pop_eq e_def qs_def)
  have "concat qs = concat ps" by (simp add: qs_def)
  then have "holders d a = holders e a + count_list p a" for a by (simp add: holders_def e_def ps)
  then have "holders e a \<le> refs h a" for a using dp_inv_owned(2) [OF inv, of a] by (simp add: h(3))
  then have "owned e" using h(2) by (simp add: owned_def e_def)
  moreover have "io_shape e" using inv by (simp add: dp_inv_def io_shape_def e_def)
  ultimately have "dp_inv e" using inv by (auto simp: dp_inv_def e_def qs_def)
  then show ?thesis using r h(4) by (simp add: later_def e_def)
qed


lemma dp_ok_later: "dp_ok d \<Longrightarrow> dp_inv d' \<Longrightarrow> later d d' \<Longrightarrow> dp_ok d'"
proof -
  assume a: "dp_ok d" "dp_inv d'" and b: "later d d'"
  have "dp_log d' = dp_log d" using b by (simp add: later_def)
  with a show ?thesis using ended_later [OF _ b, of "{}"] told_later [OF _ b] by (simp add: dp_ok_def)
qed

lemma dp_ok_clock: "dp_ok (d\<lparr>dp_frame_no := n, dp_tick := now, dp_tick_last := l\<rparr>) = dp_ok d"
  unfolding dp_ok_def dp_inv_def owned_def io_shape_def holders_def ended_def told_def by simp

definition due_timeout :: "int \<Rightarrow> dispatcher \<Rightarrow> bool" where
  "due_timeout now d \<longleftrightarrow> dp_timers d \<noteq> [] \<and> fst (hd (dp_timers d)) \<le> now"

definition user_ok :: "usercode \<Rightarrow> bool" where
  "user_ok f \<longleftrightarrow> (\<forall>d. dp_inv d \<longrightarrow> ops_ok (f d) d)"

lemma Dispatch_update_ok:
  assumes ok: "dp_ok d" and t: "\<not> due_timeout now d" and clock: "\<forall>n. now \<le> clock n"
    and dl: "\<forall>a \<in> set (due now (dp_quicktimer d)). delayed a" and ml: "\<forall>f. mainloop = Some f \<longrightarrow> user_ok f"
  shows "\<exists>d'. Dispatch_update hs now clock mainloop d = Inr d' \<and> dp_ok d'"
proof -
  define d2 where "d2 = d\<lparr>dp_frame_no := dp_frame_no d + 1, dp_tick := now, dp_tick_last := now\<rparr>"
  have ok2: "dp_ok d2" using ok by (simp add: dp_ok_clock d2_def)
  have d2: "dp_tick d2 = now" "dp_quicktimer d2 = dp_quicktimer d" "dp_timers d2 = dp_timers d" by (simp_all add: d2_def)
  have t2: "Dispatch_timers hs (length (dp_timers d2) + 1) d2 = Inr d2" using t d2 by (cases "dp_timers d") (auto simp: Dispatch_timers.simps due_timeout_def split: prod.splits)
  have inv2: "dp_inv d2" using ok2 by (simp add: dp_ok_def)
  obtain d4 where d4: "Dispatch_quicktimer clock d2 = Inr d4" "dp_inv d4" "later d2 d4"
  proof -
    have "\<forall>n. dp_tick d2 \<le> clock n" "\<forall>a \<in> set (due (dp_tick d2) (dp_quicktimer d2)). delayed a" using clock dl d2 by simp_all
    from Dispatch_quicktimer_ok [OF inv2 this] that show ?thesis by blast
  qed
  obtain d5 where d5: "Dispatch_runners d4 = Inr d5" "dp_inv d5" "later d4 d5" using Dispatch_runners_ok [OF d4(2)] by blast
  obtain d6 where d6: "(case mainloop of None \<Rightarrow> Inr d5 | Some f \<Rightarrow> call_user f d5) = Inr d6" "dp_inv d6" "later d5 d6"
  proof (cases mainloop)
    case None
    then show ?thesis using that d5(2) by simp
  next
    case (Some f)
    then show ?thesis using that call_user_ok [OF d5(2), of f] ml d5(2) by (auto simp: user_ok_def)
  qed
  obtain d7 where d7: "Dispatch_pool d6 = Inr d7" "dp_inv d7" "later d6 d7" using Dispatch_pool_ok [OF d6(2)] by blast
  have "later d2 d7" using d4(3) d5(3) d6(3) d7(3) later_trans by blast
  then have "dp_ok d7" by (rule dp_ok_later [OF ok2 d7(2)])
  moreover have "Dispatch_update hs now clock mainloop d = Inr d7"
    using t2 d4(1) d5(1) d6(1) d7(1) unfolding Dispatch_update_def UpdateTickCache_def Let_def
    by (simp add: d2_def)
  ultimately show ?thesis by blast
qed

lemma Dispatch_io_ok:
  assumes ok: "dp_ok d" and hs: "handlers_ok hs" and es: "\<forall>e \<in> set es. fst e \<in> set (dp_io_list d)"
  shows "\<exists>d' k. (\<forall>n \<ge> k. Dispatch_io hs es n d = Inr d') \<and> dp_ok d' \<and> dp_closed d' = []"
proof -
  obtain d1 where d1: "Dispatch_events hs es d = Inr d1" "dp_ok d1" using Dispatch_events_ok [OF hs ok es] by blast
  obtain d' where "\<forall>n \<ge> length (dp_io_list d1). Dispatch_closed hs n d1 = Inr d'" "dp_ok d'" "dp_closed d' = []"
    using Dispatch_closed_ok [OF hs d1(2) order_refl] by blast
  with d1 show ?thesis by (auto simp: Dispatch_io_def)
qed

section \<open>Theorems\<close>

text \<open>
  C7. A frame of the event loop in which no timeout event is due is safe. (One that is due makes the frame undefined, which is a theorem below.) From a consistent state, for user code that keeps its
  contract and whatever registered objects \<open>epoll_wait\<close> reports: the update part succeeds; then either the loop stops or
  the handlers and the teardown of closed objects succeed in finitely many iterations, although handlers may close, release and register any objects.
  Afterwards the state is consistent, no registered object is closed, and for every closed object the close handler was
  called exactly once, with no handler of the object called after it.
\<close>

theorem Dispatch_frame:
  assumes "dp_ok d" and "handlers_ok hs" and "\<not> due_timeout now d" and "\<forall>n. now \<le> clock n"
    and "\<forall>a \<in> set (due now (dp_quicktimer d)). delayed a" and "\<forall>f. mainloop = Some f \<longrightarrow> user_ok f"
    and "\<forall>d. \<forall>e \<in> set (events d). fst e \<in> set (dp_io_list d)"
  shows "\<exists>d1. Dispatch_update hs now clock mainloop d = Inr d1 \<and> dp_ok d1 \<and>
    (\<exists>d2 k. (\<forall>n \<ge> k. Dispatch_io hs (events d1) n d1 = Inr d2) \<and> dp_ok d2 \<and>
       (\<forall>a \<in> set (dp_io_list d2). live d2 a \<and> \<not> io_closed (dp_ios d2 a)) \<and>
       (\<forall>a. io_closed (dp_ios d2 a) \<longleftrightarrow> DClosed a \<in> set (dp_log d2)) \<and> log_ok (dp_log d2))"
proof -
  obtain d1 where d1: "Dispatch_update hs now clock mainloop d = Inr d1" "dp_ok d1"
    using Dispatch_update_ok [OF assms(1,3-6)] by blast
  have "\<forall>e \<in> set (events d1). fst e \<in> set (dp_io_list d1)" using assms(7) by blast
  then obtain d2 k where d2: "\<forall>n \<ge> k. Dispatch_io hs (events d1) n d1 = Inr d2" "dp_ok d2" "dp_closed d2 = []"
    using Dispatch_io_ok [OF d1(2) assms(2)] by blast
  have a: "live d2 a \<and> \<not> io_closed (dp_ios d2 a)" if "a \<in> set (dp_io_list d2)" for a
    using that d2(2,3) io_list_live [of d2 a] by (auto simp: dp_ok_def dp_inv_def io_shape_def)
  have b: "io_closed (dp_ios d2 a) \<longleftrightarrow> DClosed a \<in> set (dp_log d2)" for a
    using d2(2) a [of a] by (auto simp: dp_ok_def ended_def told_def dp_inv_def io_shape_def)
  have "log_ok (dp_log d2)" using d2(2) by (simp add: dp_ok_def)
  with d1 d2(1,2) a b show ?thesis by blast
qed

lemma timers_at_erased: "timers_erase it ts = Inr ts' \<Longrightarrow> timers_at it ts' = Inl UseAfterFree"
  by (auto simp: timers_erase_def timers_at_def bindE_eq_Inr map_of_eq_None_iff split: option.splits)

lemma timers_erase_fails: "timers_erase it ts = Inl e \<Longrightarrow> e = UseAfterFree"
  by (auto simp: timers_erase_def timers_at_def split: option.splits)

lemma Dispatch_timers_due:
  assumes inv: "dp_inv d" and t: "dp_timers d = (k, it, a) # ts" "k \<le> dp_tick d" and us: "user_ok (OnTimeout hs a)"
  shows "Dispatch_timers hs (Suc n) d = Inl UseAfterFree"
proof -
  have "live d a" by (rule held_live) (use inv t(1) in \<open>simp_all add: dp_inv_def holders_def\<close>)
  then have a: "timers_at it (dp_timers d) = Inr a" "rc (dp_heap d) a \<noteq> None" using t(1) by (simp_all add: timers_at_def live_def)
  have i: "dp_inv (dlog (DTimeout a) d)" using inv by simp
  obtain d1 where d1: "call_user (OnTimeout hs a) (dlog (DTimeout a) d) = Inr d1"
    using call_user_ok [OF i, of "OnTimeout hs a"] us i by (auto simp: user_ok_def)
  show ?thesis
  proof (cases "timers_erase it (dp_timers d1)")
    case (Inl e)
    then show ?thesis using a d1 t timers_erase_fails [OF Inl] by (simp add: Dispatch_timers.simps [of _ "Suc n"])
  next
    case (Inr ts')
    then show ?thesis using a d1 t timers_at_erased [OF Inr] by (simp add: Dispatch_timers.simps [of _ "Suc n"])
  qed
qed

text \<open>
  C35. An expired timeout event makes the frame undefined. In every consistent state with a timeout event that is due, and for every handler that keeps its
  contract, also one that removes its own event, the frame ends with an access to freed memory: the node of the event is erased from \<open>timers_\<close> and then
  read again to release the event.
\<close>

theorem Dispatch_timeout_undefined:
  assumes "dp_inv d" and "due_timeout now d" and "\<forall>a. user_ok (OnTimeout hs a)"
  shows "Dispatch_update hs now clock mainloop d = Inl UseAfterFree"
proof -
  define d2 where "d2 = d\<lparr>dp_frame_no := dp_frame_no d + 1, dp_tick := now, dp_tick_last := now\<rparr>"
  obtain k it a ts where t: "dp_timers d = (k, it, a) # ts" "k \<le> now"
    using assms(2) by (cases "dp_timers d") (auto simp: due_timeout_def)
  have "dp_inv d2" using assms(1) by (simp add: dp_inv_def owned_def io_shape_def holders_def d2_def)
  then have "Dispatch_timers hs (Suc (length (dp_timers d2))) d2 = Inl UseAfterFree"
    by (rule Dispatch_timers_due) (use t assms(3) in \<open>simp_all add: d2_def\<close>)
  then show ?thesis by (simp add: Dispatch_update_def UpdateTickCache_def d2_def)
qed

text \<open>\<open>Dispatch\<close> returns only when it was asked to stop and nothing is pending, with the quick timer stopped.\<close>

lemma Dispatch_returns:
  "Dispatch_loop hs mainloop is d = Inr (True, d') \<Longrightarrow> Dispatch_idle d' \<and> dp_quicktimer d' = Timer_new"
proof (induction "is" arbitrary: d)
  case (Cons i "is")
  then obtain d1 where d1: "Dispatch_update hs (fi_now i) (fi_clock i) mainloop d = Inr d1" by (auto simp: bindE_eq_Inr)
  show ?case
  proof (cases "Dispatch_idle d1")
    case True
    with Cons.prems d1 obtain t h where "Timer_StopAll (dp_quicktimer d1, dp_heap d1) = Inr (t, h)"
        "d' = d1\<lparr>dp_quicktimer := t, dp_heap := h\<rparr>"
      by (auto simp: bindE_eq_Inr)
    then show ?thesis using True by (auto simp: Dispatch_idle_def Timer_StopAll_def bindE_eq_Inr Timer_new_def)
  next
    case False
    with Cons.prems d1 obtain d2 where "Dispatch_loop hs mainloop is d2 = Inr (True, d')" by (auto simp: bindE_eq_Inr)
    then show ?thesis by (rule Cons.IH)
  qed
qed simp


lemma dp_ok_new: "dp_ok (Dispatcher_new now cworld_empty)"
proof -
  have "cw_inv {} cworld_empty" by (rule reachable_cw_inv) (rule cmd_reachable.start)
  then have "dp_inv (Dispatcher_new now cworld_empty)"
    using obj_inv_empty EventIO_new_ok
    by (auto simp: dp_inv_def owned_def io_shape_def holders_def timer_shape_def Dispatcher_new_def UpdateTickCache_def Timer_new_def)
  then show ?thesis
    by (simp add: dp_ok_def ended_def told_def log_ok.empty Dispatcher_new_def UpdateTickCache_def)
qed

text \<open>Handlers that close the object as soon as it is readable.\<close>

definition closing_handlers :: handlers where
  "closing_handlers = \<lparr>OnTimeout = (\<lambda>_ _. []), OnEventIOReadable = (\<lambda>a _. [OpClose a]), OnEventIOWriteable = (\<lambda>_ _. []),
     OnEventIOClose = (\<lambda>_ _. [])\<rparr>"

lemma closing_handlers_ok: "handlers_ok closing_handlers"
  by (simp add: handlers_ok_def closing_handlers_def no_add_def)

theorem Dispatch_frame_witness:
  "\<exists>d d1 d2 k. run_ops [OpNew, OpAdd 0 5 1] (Dispatcher_new 0 cworld_empty) = Inr d \<and>
     Dispatch_update closing_handlers 7 (\<lambda>_. 7) None d = Inr d1 \<and>
     (\<forall>n \<ge> k. Dispatch_io closing_handlers (map (\<lambda>a. (a, True, False)) (dp_io_list d1)) n d1 = Inr d2) \<and> log_ok (dp_log d2)"
proof -
  have ops: "ops_ok [OpNew, OpAdd 0 5 1] (Dispatcher_new 0 cworld_empty)"
    by (auto simp: Object_new_def Dispatcher_new_def UpdateTickCache_def objheap_empty_def room_def live_def refs_def)
  obtain d where d: "run_ops [OpNew, OpAdd 0 5 1] (Dispatcher_new 0 cworld_empty) = Inr d" "dp_inv d" "later (Dispatcher_new 0 cworld_empty) d"
    using run_ops_ok [OF _ ops] dp_ok_new by (auto simp: dp_ok_def)
  have ok: "dp_ok d" by (rule dp_ok_later [OF dp_ok_new d(2,3)])
  have t: "dp_timers d = []" "dp_quicktimer d = Timer_new"
    using d(1) by (auto simp: Object_new_def Dispatcher_new_def UpdateTickCache_def io_add_def with_io_def bindE_eq_Inr split: if_splits)
  have 1: "\<not> due_timeout 7 d" "\<forall>n. 7 \<le> (\<lambda>_. 7 :: int) n" "\<forall>a \<in> set (due 7 (dp_quicktimer d)). delayed a"
    by (simp_all add: due_timeout_def t due_def Timer_new_def)
  have "\<forall>f. None = Some f \<longrightarrow> user_ok f"
    "\<forall>d. \<forall>e \<in> set (map (\<lambda>a. (a, True, False)) (dp_io_list d)). fst e \<in> set (dp_io_list d)" by auto
  from Dispatch_frame [OF ok closing_handlers_ok 1 this] d(1) show ?thesis by blast
qed

theorem Dispatch_timeout_undefined_witness:
  "\<exists>d. run_ops [OpNew, OpAddTimeout 0 3] (Dispatcher_new 0 cworld_empty) = Inr d \<and> Dispatch_update closing_handlers 5 (\<lambda>_. 5) None d = Inl UseAfterFree"
proof -
  have ops: "ops_ok [OpNew, OpAddTimeout 0 3] (Dispatcher_new 0 cworld_empty)"
    by (auto simp: Object_new_def Dispatcher_new_def UpdateTickCache_def objheap_empty_def room_def live_def refs_def)
  obtain d where d: "run_ops [OpNew, OpAddTimeout 0 3] (Dispatcher_new 0 cworld_empty) = Inr d" "dp_inv d"
    using run_ops_ok [OF _ ops] dp_ok_new by (auto simp: dp_ok_def)
  have "dp_timers d = [(3, 0, 0)]"
    using d(1) by (auto simp: Object_new_def Dispatcher_new_def UpdateTickCache_def EventTimeout_AddToDispatcher_def bindE_eq_Inr)
  then have "due_timeout 5 d" "\<forall>a. user_ok (OnTimeout closing_handlers a)" by (simp_all add: due_timeout_def user_ok_def closing_handlers_def)
  from Dispatch_timeout_undefined [OF d(2) this] d(1) show ?thesis by blast
qed

end
