(* ===== verification/CircularBuffer.thy ===== *)
theory CircularBuffer
  imports Prelude
begin

text \<open>
  \<open>robot/utility/circular_buffer.h\<close>: the ring buffer between the robot's sockets and its packets. The array is
  twice the capacity; a block that crosses the border is written in full behind the border as well, which is harmless. The
  interface its clients rely on, a bounded queue of bytes, is the locale \<open>byte_queue\<close>; the ring
  buffer is an instance of it. Theorem: every sequence of writes, reads and soft reads behaves like the queue.
\<close>

section \<open>Model\<close>

record cbuf =
  cb_buf :: bytes
  cb_max :: nat
  cb_q :: nat
  cb_b :: nat
  cb_t :: nat
  cb_count :: nat

definition u64_sub :: "nat \<Rightarrow> nat \<Rightarrow> nat" where
  "u64_sub a b = (if b \<le> a then a - b else u64 (a + 18446744073709551616 - b))"

text \<open>\<open>memcpy\<close> into and out of the array; outside of it the behaviour is undefined.\<close>

definition copy_in :: "nat \<Rightarrow> bytes \<Rightarrow> bytes \<Rightarrow> bytes result" where
  "copy_in off src buf = (if off + length src \<le> length buf then Inr (overwrite buf off src) else Inl OutOfRange)"

definition copy_out :: "nat \<Rightarrow> nat \<Rightarrow> bytes \<Rightarrow> bytes result" where
  "copy_out off n buf = (if off + n \<le> length buf then Inr (take n (drop off buf)) else Inl OutOfRange)"

text \<open>The array is not initialised: \<open>junk\<close> is what it holds.\<close>

definition CircularBuffer_new :: "(nat \<Rightarrow> byte) \<Rightarrow> nat \<Rightarrow> cbuf" where
  "CircularBuffer_new junk size' = \<lparr>cb_buf = map junk [0..<u64 (2 * size')], cb_max = size', cb_q = 0, cb_b = 0, cb_t = 0, cb_count = 0\<rparr>"

definition CircularBuffer_Write :: "bytes \<Rightarrow> cbuf \<Rightarrow> (bool \<times> cbuf) result" where
  "CircularBuffer_Write s c =
     (let l = length s in
      if u64 (cb_q c + l) > cb_max c then Inr (False, c)
      else let c1 = c\<lparr>cb_count := u64 (cb_count c + l)\<rparr> in
        if u64 (cb_t c + l) > cb_max c then
          let l1 = u64_sub (cb_max c) (cb_t c) in
          bindE (copy_in (cb_t c) s (cb_buf c)) (\<lambda>buf1.
          bindE (if l1 \<le> l then copy_in 0 (drop l1 s) buf1 else Inl OutOfRange) (\<lambda>buf2.
            Inr (True, c1\<lparr>cb_buf := buf2, cb_t := l - l1, cb_q := u64 (cb_q c + l)\<rparr>)))
        else
          bindE (copy_in (cb_t c) s (cb_buf c)) (\<lambda>buf1.
          bindE (copy_in (cb_max c + cb_t c) s buf1) (\<lambda>buf2.
            let t1 = cb_t c + l in
            Inr (True, c1\<lparr>cb_buf := buf2, cb_t := (if t1 \<ge> cb_max c then t1 - cb_max c else t1), cb_q := u64 (cb_q c + l)\<rparr>))))"

text \<open>The bytes copied to \<open>dest\<close>, by \<open>Read\<close> and \<open>SoftRead\<close>; nothing is copied when it is null.\<close>

definition read_block :: "bool \<Rightarrow> nat \<Rightarrow> cbuf \<Rightarrow> bytes result" where
  "read_block dest l c =
     (if \<not> dest then Inr []
      else if u64 (cb_b c + l) > cb_max c then
        let l1 = u64_sub (cb_max c) (cb_b c) in
        bindE (copy_out (cb_b c) l1 (cb_buf c)) (\<lambda>x. bindE (copy_out 0 (l - l1) (cb_buf c)) (\<lambda>y. Inr (x @ y)))
      else copy_out (cb_b c) l (cb_buf c))"

definition CircularBuffer_Read :: "bool \<Rightarrow> nat \<Rightarrow> cbuf \<Rightarrow> (bool \<times> bytes \<times> cbuf) result" where
  "CircularBuffer_Read dest l c =
     (if l > cb_q c then Inr (False, [], c)
      else bindE (read_block dest l c) (\<lambda>bs.
        let b1 = (if u64 (cb_b c + l) > cb_max c then l - u64_sub (cb_max c) (cb_b c)
                  else if cb_b c + l \<ge> cb_max c then cb_b c + l - cb_max c else cb_b c + l);
            c1 = c\<lparr>cb_b := b1, cb_q := cb_q c - l\<rparr>
        in Inr (True, bs, if cb_q c1 = 0 then c1\<lparr>cb_b := 0, cb_t := 0\<rparr> else c1)))"

definition CircularBuffer_SoftRead :: "bool \<Rightarrow> nat \<Rightarrow> cbuf \<Rightarrow> (bool \<times> bytes) result" where
  "CircularBuffer_SoftRead dest l c =
     (if l > cb_q c then Inr (False, []) else bindE (read_block dest l c) (\<lambda>bs. Inr (True, bs)))"

definition CircularBuffer_GetLength :: "cbuf \<Rightarrow> nat" where
  "CircularBuffer_GetLength c = cb_q c"

section \<open>Invariant and content\<close>

definition cb_inv :: "cbuf \<Rightarrow> bool" where
  [inv_defs]: "cb_inv c \<longleftrightarrow> 0 < cb_max c \<and> cb_max c < 4611686018427387904 \<and> length (cb_buf c) = 2 * cb_max c \<and> cb_q c \<le> cb_max c \<and>
     cb_b c < cb_max c \<and> cb_t c = (cb_b c + cb_q c) mod cb_max c"

definition cb_content :: "cbuf \<Rightarrow> bytes" where
  "cb_content c = map (\<lambda>i. cb_buf c ! ((cb_b c + i) mod cb_max c)) [0..<cb_q c]"

lemma length_cb_content [simp]: "length (cb_content c) = cb_q c"
  by (simp add: cb_content_def)

lemma cb_content_nth: "i < cb_q c \<Longrightarrow> cb_content c ! i = cb_buf c ! ((cb_b c + i) mod cb_max c)"
  by (simp add: cb_content_def)

lemma CircularBuffer_new_inv:
  "0 < n \<Longrightarrow> n < 4611686018427387904 \<Longrightarrow> cb_inv (CircularBuffer_new junk n) \<and> cb_content (CircularBuffer_new junk n) = [] \<and>
     cb_max (CircularBuffer_new junk n) = n"
  by (simp add: CircularBuffer_new_def cb_inv_def cb_content_def)

lemma mod_once: "a < m \<Longrightarrow> b \<le> m \<Longrightarrow> (a + b) mod m = (if a + b < m then a + b else a + b - m)"
  for a b m :: nat
  by (simp add: mod_if)

text \<open>Reading: both branches yield the next \<open>l\<close> bytes of the content.\<close>

lemma read_block_content:
  assumes inv: "cb_inv c" and l: "l \<le> cb_q c"
  shows "read_block True l c = Inr (take l (cb_content c))"
proof -
  have b: "cb_b c < cb_max c" "l \<le> cb_max c" "length (cb_buf c) = 2 * cb_max c" "cb_b c + l < 18446744073709551616"
    using inv l by (auto simp: cb_inv_def)
  show ?thesis
  proof (cases "cb_b c + l > cb_max c")
    case True
    let ?l1 = "cb_max c - cb_b c"
    have "take ?l1 (drop (cb_b c) (cb_buf c)) @ take (l - ?l1) (cb_buf c) = take l (cb_content c)"
    proof (rule nth_equalityI)
      show "length (take ?l1 (drop (cb_b c) (cb_buf c)) @ take (l - ?l1) (cb_buf c)) = length (take l (cb_content c))"
        using b True l by simp
      fix i assume i: "i < length (take ?l1 (drop (cb_b c) (cb_buf c)) @ take (l - ?l1) (cb_buf c))"
      then have "i < l" using b True by simp
      then have "(take l (cb_content c)) ! i = cb_buf c ! ((cb_b c + i) mod cb_max c)" using l by (simp add: cb_content_nth)
      also have "(cb_b c + i) mod cb_max c = (if i < ?l1 then cb_b c + i else i - ?l1)"
        using b \<open>i < l\<close> by (subst mod_once) auto
      finally show "(take ?l1 (drop (cb_b c) (cb_buf c)) @ take (l - ?l1) (cb_buf c)) ! i = (take l (cb_content c)) ! i"
        using b \<open>i < l\<close> True by (simp add: nth_append)
    qed
    then show ?thesis using b True by (simp add: read_block_def u64_sub_def copy_out_def Let_def)
  next
    case False
    have "take l (drop (cb_b c) (cb_buf c)) = take l (cb_content c)"
      using b False l by (intro nth_equalityI) (auto simp: cb_content_nth)
    then show ?thesis using b False by (simp add: read_block_def copy_out_def)
  qed
qed

lemma CircularBuffer_Read_spec:
  assumes inv: "cb_inv c" and l: "l \<le> cb_q c"
  shows "\<exists>c'. CircularBuffer_Read True l c = Inr (True, take l (cb_content c), c') \<and> cb_inv c' \<and>
    cb_content c' = drop l (cb_content c) \<and> cb_max c' = cb_max c"
proof -
  have b: "cb_b c < cb_max c" "l \<le> cb_max c" "cb_q c \<le> cb_max c" "cb_b c + l < 18446744073709551616"
    using inv l by (auto simp: cb_inv_def)
  define b1 where "b1 = (cb_b c + l) mod cb_max c"
  have b1: "(if u64 (cb_b c + l) > cb_max c then l - u64_sub (cb_max c) (cb_b c)
                  else if cb_b c + l \<ge> cb_max c then cb_b c + l - cb_max c else cb_b c + l) = b1"
    unfolding b1_def using b by (subst mod_once) (auto simp: u64_sub_def)
  define c' where "c' = (if cb_q c = l then c\<lparr>cb_b := 0, cb_q := 0, cb_t := 0\<rparr> else c\<lparr>cb_b := b1, cb_q := cb_q c - l\<rparr>)"
  have "CircularBuffer_Read True l c = Inr (True, take l (cb_content c), c')"
    unfolding CircularBuffer_Read_def b1 using read_block_content [OF inv l] l by (auto simp: c'_def)
  moreover have "cb_inv c'"
  proof (cases "cb_q c = l")
    case False
    have "(b1 + (cb_q c - l)) mod cb_max c = (cb_b c + cb_q c) mod cb_max c"
    proof -
      have "(b1 + (cb_q c - l)) mod cb_max c = (cb_b c + l + (cb_q c - l)) mod cb_max c" unfolding b1_def by (rule mod_add_left_eq)
      also have "cb_b c + l + (cb_q c - l) = cb_b c + cb_q c" using l by simp
      finally show ?thesis .
    qed
    moreover have "cb_q c - l \<le> cb_max c" using b by simp
    ultimately show ?thesis using inv False by (simp add: c'_def cb_inv_def b1_def)
  qed (use inv in \<open>simp add: c'_def cb_inv_def\<close>)
  moreover have "cb_content c' = drop l (cb_content c)"
  proof (cases "cb_q c = l")
    case False
    have "((cb_b c + l) mod cb_max c + i) mod cb_max c = (cb_b c + (l + i)) mod cb_max c" for i
      by (simp add: mod_add_left_eq add.assoc)
    then show ?thesis using l False
      by (intro nth_equalityI) (simp_all add: c'_def cb_content_nth b1_def)
  qed (simp add: c'_def cb_content_def)
  moreover have "cb_max c' = cb_max c" by (simp add: c'_def)
  ultimately show ?thesis by blast
qed

lemma CircularBuffer_Write_spec:
  assumes inv: "cb_inv c" and l: "cb_q c + length s \<le> cb_max c"
  shows "\<exists>c'. CircularBuffer_Write s c = Inr (True, c') \<and> cb_inv c' \<and> cb_content c' = cb_content c @ s \<and> cb_max c' = cb_max c"
proof -
  let ?l = "length s" and ?m = "cb_max c" and ?t = "cb_t c" and ?B = "cb_buf c"
  have t: "?t = (cb_b c + cb_q c) mod ?m" "?t < ?m" using inv by (auto simp: cb_inv_def)
  have b: "cb_b c < ?m" "cb_q c \<le> ?m" "?l \<le> ?m" "length ?B = 2 * ?m" and m: "?m < 4611686018427387904"
    using inv l by (auto simp: cb_inv_def)
  have s: "?t + ?l < 18446744073709551616" "cb_q c + ?l < 18446744073709551616" using t(2) b m by linarith+
  have t': "?t = (if cb_b c + cb_q c < ?m then cb_b c + cb_q c else cb_b c + cb_q c - ?m)"
    unfolding t(1) using b by (subst mod_once) auto
  have pos: "(cb_b c + i) mod ?m = (if cb_b c + i < ?m then cb_b c + i else cb_b c + i - ?m)" if "i \<le> ?m" for i
    using b that by (subst mod_once) auto
  define t1 where "t1 = (?t + ?l) mod ?m"
  have t1: "t1 = (if ?t + ?l < ?m then ?t + ?l else ?t + ?l - ?m)" unfolding t1_def using b t(2) by (subst mod_once) auto
  have "\<exists>B. CircularBuffer_Write s c = Inr (True, c\<lparr>cb_count := u64 (cb_count c + ?l), cb_buf := B, cb_t := t1, cb_q := cb_q c + ?l\<rparr>) \<and>
      length B = 2 * ?m \<and> (\<forall>p < ?m. B ! p = (if ?t \<le> p \<and> p < ?t + ?l then s ! (p - ?t) else if p + ?m < ?t + ?l then s ! (p + ?m - ?t) else ?B ! p))"
  proof (cases "?t + ?l > ?m")
    case True
    let ?B1 = "overwrite ?B ?t s"
    let ?B2 = "overwrite ?B1 0 (drop (?m - ?t) s)"
    have w: "CircularBuffer_Write s c = Inr (True, c\<lparr>cb_count := u64 (cb_count c + ?l), cb_buf := ?B2, cb_t := t1, cb_q := cb_q c + ?l\<rparr>)"
    proof -
      have "?m - ?t \<le> ?l" "?t + ?l \<le> 2 * ?m" "?l - (?m - ?t) \<le> 2 * ?m" "?l - (?m - ?t) = t1" using b t(2) True t1 by auto
      then show ?thesis using b s t(2) l True by (simp add: CircularBuffer_Write_def Let_def copy_in_def u64_sub_def)
    qed
    have "?B2 ! p = (if ?t \<le> p \<and> p < ?t + ?l then s ! (p - ?t) else if p + ?m < ?t + ?l then s ! (p + ?m - ?t) else ?B ! p)" if "p < ?m" for p
      using that b t(2) True l by (auto simp: nth_overwrite add.commute)
    then show ?thesis using w b t(2) by (intro exI [of _ ?B2]) simp
  next
    case False
    let ?B1 = "overwrite ?B ?t s"
    let ?B2 = "overwrite ?B1 (?m + ?t) s"
    have w: "CircularBuffer_Write s c = Inr (True, c\<lparr>cb_count := u64 (cb_count c + ?l), cb_buf := ?B2, cb_t := t1, cb_q := cb_q c + ?l\<rparr>)"
      using b s t(2) l False t1 by (simp add: CircularBuffer_Write_def Let_def copy_in_def)
    have "?B2 ! p = (if ?t \<le> p \<and> p < ?t + ?l then s ! (p - ?t) else if p + ?m < ?t + ?l then s ! (p + ?m - ?t) else ?B ! p)" if "p < ?m" for p
      using that b t(2) False l by (auto simp: nth_overwrite)
    then show ?thesis using w b t(2) False by (intro exI [of _ ?B2]) simp
  qed
  then obtain B where w: "CircularBuffer_Write s c = Inr (True, c\<lparr>cb_count := u64 (cb_count c + ?l), cb_buf := B, cb_t := t1, cb_q := cb_q c + ?l\<rparr>)"
      and lB: "length B = 2 * ?m"
      and B: "\<And>p. p < ?m \<Longrightarrow> B ! p = (if ?t \<le> p \<and> p < ?t + ?l then s ! (p - ?t) else if p + ?m < ?t + ?l then s ! (p + ?m - ?t) else ?B ! p)"
    by blast
  define c' where "c' = c\<lparr>cb_count := u64 (cb_count c + ?l), cb_buf := B, cb_t := t1, cb_q := cb_q c + ?l\<rparr>"
  have "t1 = (cb_b c + (cb_q c + ?l)) mod ?m" unfolding t1_def t(1) by (simp add: mod_add_left_eq add.assoc)
  then have "cb_inv c'" using inv l lB by (simp add: cb_inv_def c'_def)
  moreover have "cb_content c' = cb_content c @ s"
  proof (rule nth_equalityI)
    show "length (cb_content c') = length (cb_content c @ s)" by (simp add: c'_def)
    fix i assume "i < length (cb_content c')"
    then have i: "i < cb_q c + ?l" by (simp add: c'_def)
    then have p: "(cb_b c + i) mod ?m = (if cb_b c + i < ?m then cb_b c + i else cb_b c + i - ?m)" using pos l by simp
    have pm: "(cb_b c + i) mod ?m < ?m" using b(1) by (intro mod_less_divisor) simp
    have "cb_content c' ! i = B ! ((cb_b c + i) mod ?m)" using i by (simp add: c'_def cb_content_def)
    also have "\<dots> = (cb_content c @ s) ! i"
    proof (cases "i < cb_q c")
      case True
      then have "B ! ((cb_b c + i) mod ?m) = ?B ! ((cb_b c + i) mod ?m)"
        unfolding B [OF pm] unfolding p t' using b l by (auto split: if_splits)
      then show ?thesis using True by (simp add: nth_append cb_content_nth)
    next
      case False
      then have "B ! ((cb_b c + i) mod ?m) = s ! (i - cb_q c)"
        unfolding B [OF pm] unfolding p t' using b l i by (auto split: if_splits intro!: arg_cong [where f = "nth s"])
      then show ?thesis using False by (simp add: nth_append)
    qed
    finally show "cb_content c' ! i = (cb_content c @ s) ! i" .
  qed
  ultimately show ?thesis using w by (auto simp: c'_def)
qed

section \<open>The interface: a bounded queue of bytes\<close>

datatype qop = QWrite bytes | QRead nat | QPeek nat

datatype qout = QDone bool | QBytes "bytes option"

text \<open>The reference: a list of at most \<open>cap\<close> bytes.\<close>

fun queue_step :: "nat \<Rightarrow> qop \<Rightarrow> bytes \<Rightarrow> qout \<times> bytes" where
  "queue_step cap (QWrite s) q = (if length q + length s \<le> cap then (QDone True, q @ s) else (QDone False, q))"
| "queue_step cap (QRead n) q = (if n \<le> length q then (QBytes (Some (take n q)), drop n q) else (QBytes None, q))"
| "queue_step cap (QPeek n) q = (QBytes (if n \<le> length q then Some (take n q) else None), q)"

fun queue_run :: "nat \<Rightarrow> qop list \<Rightarrow> bytes \<Rightarrow> qout list \<times> bytes" where
  "queue_run cap [] q = ([], q)"
| "queue_run cap (x # xs) q = (let (o1, q1) = queue_step cap x q; (os, q2) = queue_run cap xs q1 in (o1 # os, q2))"

text \<open>The same calls on an implementation.\<close>

fun impl_step :: "(bytes \<Rightarrow> 'c \<Rightarrow> (bool \<times> 'c) result) \<Rightarrow> (nat \<Rightarrow> 'c \<Rightarrow> (bool \<times> bytes \<times> 'c) result)
    \<Rightarrow> (nat \<Rightarrow> 'c \<Rightarrow> (bool \<times> bytes) result) \<Rightarrow> qop \<Rightarrow> 'c \<Rightarrow> (qout \<times> 'c) result" where
  "impl_step wr rd pk (QWrite s) c = bindE (wr s c) (\<lambda>(b, c'). Inr (QDone b, c'))"
| "impl_step wr rd pk (QRead n) c = bindE (rd n c) (\<lambda>(b, bs, c'). Inr (QBytes (if b then Some bs else None), c'))"
| "impl_step wr rd pk (QPeek n) c = bindE (pk n c) (\<lambda>(b, bs). Inr (QBytes (if b then Some bs else None), c))"

fun impl_run :: "(bytes \<Rightarrow> 'c \<Rightarrow> (bool \<times> 'c) result) \<Rightarrow> (nat \<Rightarrow> 'c \<Rightarrow> (bool \<times> bytes \<times> 'c) result)
    \<Rightarrow> (nat \<Rightarrow> 'c \<Rightarrow> (bool \<times> bytes) result) \<Rightarrow> qop list \<Rightarrow> 'c \<Rightarrow> (qout list \<times> 'c) result" where
  "impl_run wr rd pk [] c = Inr ([], c)"
| "impl_run wr rd pk (x # xs) c = bindE (impl_step wr rd pk x c) (\<lambda>(o1, c1).
     bindE (impl_run wr rd pk xs c1) (\<lambda>(os, c2). Inr (o1 # os, c2)))"

text \<open>Blocks have a length that a pointer difference can express.\<close>

fun op_fits :: "qop \<Rightarrow> bool" where
  "op_fits (QWrite s) = (length s < 9223372036854775808)"
| "op_fits _ = True"

locale byte_queue =
  fixes ok :: "'c \<Rightarrow> bool" and content :: "'c \<Rightarrow> bytes" and capacity :: "'c \<Rightarrow> nat"
    and wr :: "bytes \<Rightarrow> 'c \<Rightarrow> (bool \<times> 'c) result"
    and rd :: "nat \<Rightarrow> 'c \<Rightarrow> (bool \<times> bytes \<times> 'c) result"
    and pk :: "nat \<Rightarrow> 'c \<Rightarrow> (bool \<times> bytes) result"
  assumes wr_ok: "ok c \<Longrightarrow> length (content c) + length s \<le> capacity c \<Longrightarrow>
      \<exists>c'. wr s c = Inr (True, c') \<and> ok c' \<and> content c' = content c @ s \<and> capacity c' = capacity c"
    and wr_full: "ok c \<Longrightarrow> length s < 9223372036854775808 \<Longrightarrow> capacity c < length (content c) + length s \<Longrightarrow> wr s c = Inr (False, c)"
    and rd_ok: "ok c \<Longrightarrow> n \<le> length (content c) \<Longrightarrow>
      \<exists>c'. rd n c = Inr (True, take n (content c), c') \<and> ok c' \<and> content c' = drop n (content c) \<and> capacity c' = capacity c"
    and rd_short: "ok c \<Longrightarrow> length (content c) < n \<Longrightarrow> rd n c = Inr (False, [], c)"
    and pk_ok: "ok c \<Longrightarrow> n \<le> length (content c) \<Longrightarrow> pk n c = Inr (True, take n (content c))"
    and pk_short: "ok c \<Longrightarrow> length (content c) < n \<Longrightarrow> pk n c = Inr (False, [])"
begin

lemma step_refines:
  assumes "ok c" "op_fits x" "queue_step (capacity c) x (content c) = (y, q)"
  shows "\<exists>c'. impl_step wr rd pk x c = Inr (y, c') \<and> ok c' \<and> content c' = q \<and> capacity c' = capacity c"
proof (cases x)
  case (QWrite s)
  show ?thesis
  proof (cases "length (content c) + length s \<le> capacity c")
    case True
    with wr_ok [OF assms(1) True] QWrite assms(3) show ?thesis by auto
  next
    case False
    with wr_full [OF assms(1), of s] QWrite assms show ?thesis by auto
  qed
next
  case (QRead n)
  show ?thesis
  proof (cases "n \<le> length (content c)")
    case True
    with rd_ok [OF assms(1) True] QRead assms(3) show ?thesis by auto
  next
    case False
    with rd_short [OF assms(1), of n] QRead assms show ?thesis by auto
  qed
next
  case (QPeek n)
  show ?thesis
  proof (cases "n \<le> length (content c)")
    case True
    with pk_ok [OF assms(1) True] QPeek assms show ?thesis by auto
  next
    case False
    with pk_short [OF assms(1), of n] QPeek assms show ?thesis by auto
  qed
qed

lemma run_refines:
  "ok c \<Longrightarrow> \<forall>x \<in> set xs. op_fits x \<Longrightarrow> queue_run (capacity c) xs (content c) = (ys, q) \<Longrightarrow>
     \<exists>c'. impl_run wr rd pk xs c = Inr (ys, c') \<and> ok c' \<and> content c' = q"
proof (induction xs arbitrary: c ys)
  case Nil
  then show ?case by simp
next
  case (Cons x xs)
  obtain y q1 where s: "queue_step (capacity c) x (content c) = (y, q1)" by fastforce
  obtain c1 where c1: "impl_step wr rd pk x c = Inr (y, c1)" "ok c1" "content c1 = q1" "capacity c1 = capacity c"
    using step_refines [OF Cons.prems(1) _ s] Cons.prems(2) by auto
  obtain ys1 where "queue_run (capacity c1) xs (content c1) = (ys1, q)" "ys = y # ys1"
    using Cons.prems(3) s c1 by (auto split: prod.splits)
  with Cons.IH [OF c1(2)] Cons.prems(2) c1 show ?case by fastforce
qed

end

interpretation ring: byte_queue cb_inv cb_content cb_max CircularBuffer_Write "CircularBuffer_Read True" "CircularBuffer_SoftRead True"
proof unfold_locales
  fix c s
  show "cb_inv c \<Longrightarrow> length (cb_content c) + length s \<le> cb_max c \<Longrightarrow>
      \<exists>c'. CircularBuffer_Write s c = Inr (True, c') \<and> cb_inv c' \<and> cb_content c' = cb_content c @ s \<and> cb_max c' = cb_max c"
    using CircularBuffer_Write_spec by simp
  assume a: "cb_inv c" "length s < 9223372036854775808" "cb_max c < length (cb_content c) + length s"
  then have "cb_q c + length s < 18446744073709551616" by (auto simp: cb_inv_def)
  with a show "CircularBuffer_Write s c = Inr (False, c)" by (simp add: CircularBuffer_Write_def Let_def)
next
  fix c n
  show "cb_inv c \<Longrightarrow> n \<le> length (cb_content c) \<Longrightarrow> \<exists>c'. CircularBuffer_Read True n c = Inr (True, take n (cb_content c), c') \<and>
      cb_inv c' \<and> cb_content c' = drop n (cb_content c) \<and> cb_max c' = cb_max c"
    using CircularBuffer_Read_spec by simp
  show "length (cb_content c) < n \<Longrightarrow> CircularBuffer_Read True n c = Inr (False, [], c)" by (simp add: CircularBuffer_Read_def)
  show "cb_inv c \<Longrightarrow> n \<le> length (cb_content c) \<Longrightarrow> CircularBuffer_SoftRead True n c = Inr (True, take n (cb_content c))"
    using read_block_content by (simp add: CircularBuffer_SoftRead_def)
  show "length (cb_content c) < n \<Longrightarrow> CircularBuffer_SoftRead True n c = Inr (False, [])" by (simp add: CircularBuffer_SoftRead_def)
qed

section \<open>Theorem\<close>

text \<open>
  C38. A ring buffer of any capacity that fits the address space refines the bounded queue: for every sequence of
  \<open>Write\<close>, \<open>Read\<close> and \<open>SoftRead\<close> calls, across any number of wrap-arounds, no access leaves the array, a write is refused exactly when it does
  not fit, a read exactly when too little is there, and the bytes come out in the order they went in.
\<close>

theorem CircularBuffer_refines_queue:
  assumes "0 < n" and "n < 4611686018427387904" and "\<forall>x \<in> set xs. op_fits x"
  shows "\<exists>c. impl_run CircularBuffer_Write (CircularBuffer_Read True) (CircularBuffer_SoftRead True) xs (CircularBuffer_new junk n)
      = Inr (fst (queue_run n xs []), c) \<and> cb_inv c \<and> cb_content c = snd (queue_run n xs [])"
proof -
  note new = CircularBuffer_new_inv [OF assms(1,2), of junk]
  then show ?thesis
    using ring.run_refines [of "CircularBuffer_new junk n" xs "fst (queue_run n xs [])" "snd (queue_run n xs [])"] assms(3) by auto
qed

theorem CircularBuffer_refines_queue_witness:
  "\<exists>c. impl_run CircularBuffer_Write (CircularBuffer_Read True) (CircularBuffer_SoftRead True)
      [QWrite [1, 2, 3], QRead 2, QWrite [4, 5, 6], QWrite [7], QPeek 1, QRead 4] (CircularBuffer_new (\<lambda>_. 0) 4)
    = Inr ([QDone True, QBytes (Some [1, 2]), QDone True, QDone False, QBytes (Some [3]), QBytes (Some [3, 4, 5, 6])], c) \<and> cb_content c = []"
proof -
  let ?xs = "[QWrite [1, 2, 3], QRead 2, QWrite [4, 5, 6], QWrite [7], QPeek 1, QRead 4]"
  have q: "queue_run 4 ?xs [] = ([QDone True, QBytes (Some [1, 2]), QDone True, QDone False, QBytes (Some [3]), QBytes (Some [3, 4, 5, 6])], [])"
    by simp
  have "\<forall>x \<in> set ?xs. op_fits x" by simp
  from CircularBuffer_refines_queue [of 4, OF _ _ this, of "\<lambda>_. 0"] show ?thesis
    unfolding q by (simp del: impl_run.simps) blast
qed

end
