(* ===== verification/RobotClient.thy ===== *)
theory RobotClient
  imports CircularBuffer UserClient
begin

text \<open>
  The load-test robot: \<open>robot/utility/world_packet.h\<close>, \<open>robot/client.h\<close> and \<open>robot/event/timer.h\<close>. Packets are built in a
  growing array; a client queues them in a ring buffer, sends the buffer when the socket is writeable, and
  cuts what it receives into packets that it hands to the script. The kernel's answers to \<open>send\<close> and \<open>recv\<close> are arguments; the
  script is represented by the packets handed to it. Theorems: packets are cut exactly as the header says and the loop ends
  exactly when no header announces an empty packet; the robot's packets and those of the gateway disagree on the meaning of the length
  field; reading a field of more than one byte is undefined.
\<close>

section \<open>World packets\<close>

record wpacket =
  wp_storage :: bytes
  wp_pos :: nat
  wp_opCode :: "16 word"

definition WorldPacket_HEAD_SIZE :: nat where
  "WorldPacket_HEAD_SIZE = 10"

definition WorldPacket_skipTo :: "nat \<Rightarrow> wpacket \<Rightarrow> wpacket" where
  "WorldPacket_skipTo pos p = p\<lparr>wp_pos := pos\<rparr>"

definition WorldPacket_new :: "16 word \<Rightarrow> wpacket" where
  "WorldPacket_new op = WorldPacket_skipTo WorldPacket_HEAD_SIZE \<lparr>wp_storage = [], wp_pos = 0, wp_opCode = op\<rparr>"

text \<open>\<open>vector::resize\<close>: cut off or padded with zeros.\<close>

definition vec_resize :: "nat \<Rightarrow> bytes \<Rightarrow> bytes" where
  "vec_resize n v = take n v @ replicate (n - length v) 0"

definition WorldPacket_Resize :: "nat \<Rightarrow> wpacket \<Rightarrow> wpacket" where
  "WorldPacket_Resize n p = p\<lparr>wp_storage := vec_resize n (wp_storage p), wp_pos := 0\<rparr>"

definition WorldPacket_GetSize :: "wpacket \<Rightarrow> nat" where
  "WorldPacket_GetSize p = u16 (length (wp_storage p))"

definition WorldPacket_PutByte :: "bytes \<Rightarrow> wpacket \<Rightarrow> wpacket" where
  "WorldPacket_PutByte src p =
     (let st = (if wp_pos p + length src \<ge> length (wp_storage p) then vec_resize (wp_pos p + length src) (wp_storage p) else wp_storage p)
      in p\<lparr>wp_storage := overwrite st (wp_pos p) src, wp_pos := wp_pos p + length src\<rparr>)"

definition WorldPacket_WriteUShort :: "nat \<Rightarrow> wpacket \<Rightarrow> wpacket" where
  "WorldPacket_WriteUShort v = WorldPacket_PutByte (le_bytes 2 (u16 v))"

definition WorldPacket_WriteUInt :: "nat \<Rightarrow> wpacket \<Rightarrow> wpacket" where
  "WorldPacket_WriteUInt v = WorldPacket_PutByte (le_bytes 4 (u32 v))"

definition WorldPacket_WriteByte :: "byte \<Rightarrow> wpacket \<Rightarrow> wpacket" where
  "WorldPacket_WriteByte v = WorldPacket_PutByte [v]"

text \<open>The string up to its terminating zero; its length is kept in sixteen bits.\<close>

definition WorldPacket_WriteString :: "bytes \<Rightarrow> wpacket \<Rightarrow> wpacket" where
  "WorldPacket_WriteString src p =
     (let s = takeWhile (\<lambda>b. b \<noteq> 0) src; len = u16 (length s)
      in WorldPacket_PutByte (take len s) (WorldPacket_PutByte (le_bytes 2 len) p))"

definition WorldPacket_WriteHead :: "wpacket \<Rightarrow> wpacket" where
  "WorldPacket_WriteHead p =
     (let p0 = WorldPacket_skipTo 0 p;
          p1 = (if length (wp_storage p0) < WorldPacket_HEAD_SIZE then p0\<lparr>wp_storage := vec_resize WorldPacket_HEAD_SIZE (wp_storage p0)\<rparr> else p0);
          p2 = WorldPacket_WriteUShort 28380 p1;
          p3 = WorldPacket_WriteUShort (length (wp_storage p2) - WorldPacket_HEAD_SIZE) p2;
          p4 = WorldPacket_WriteUShort (unat (wp_opCode p3)) p3;
          p5 = WorldPacket_WriteUShort 0 p4
      in WorldPacket_WriteUShort 1 p5)"

text \<open>
  \<open>GetByte\<close>: when the bytes are there, it first copies as many bytes from a one-byte local variable, an access beyond the
  variable; when they are not there, it copies from behind the array.
\<close>

definition WorldPacket_GetByte :: "nat \<Rightarrow> wpacket \<Rightarrow> (bytes \<times> wpacket) result" where
  "WorldPacket_GetByte n p =
     (let p1 = (if wp_pos p < WorldPacket_HEAD_SIZE then WorldPacket_skipTo WorldPacket_HEAD_SIZE p else p) in
      if wp_pos p1 + n \<le> length (wp_storage p1) \<and> 1 < n then Inl OutOfRange
      else bindE (copy_out (wp_pos p1) n (wp_storage p1)) (\<lambda>bs. Inr (bs, p1\<lparr>wp_pos := wp_pos p1 + n\<rparr>)))"

definition WorldPacket_ReadUShort :: "wpacket \<Rightarrow> (nat \<times> wpacket) result" where
  "WorldPacket_ReadUShort p = bindE (WorldPacket_GetByte 2 p) (\<lambda>(bs, p'). Inr (le_val bs, p'))"

definition WorldPacket_ReadUInt :: "wpacket \<Rightarrow> (nat \<times> wpacket) result" where
  "WorldPacket_ReadUInt p = bindE (WorldPacket_GetByte 4 p) (\<lambda>(bs, p'). Inr (le_val bs, p'))"

definition WorldPacket_ReadByte :: "wpacket \<Rightarrow> (byte \<times> wpacket) result" where
  "WorldPacket_ReadByte p = bindE (WorldPacket_GetByte 1 p) (\<lambda>(bs, p'). Inr (bs ! 0, p'))"

definition WorldPacket_ReadString :: "wpacket \<Rightarrow> (bytes \<times> wpacket) result" where
  "WorldPacket_ReadString p = bindE (WorldPacket_GetByte 2 p) (\<lambda>(bs, p1). WorldPacket_GetByte (le_val bs) p1)"

section \<open>The client\<close>

text \<open>\<open>rb_socket\<close> is what was given to the kernel and accepted, \<open>rb_seen\<close> the operation codes and packets given to the script.\<close>

record robot =
  rb_ibuf :: cbuf
  rb_obuf :: cbuf
  rb_pkHead :: bytes
  rb_seen :: "(nat \<times> bytes) list"
  rb_socket :: bytes
  rb_writeable :: bool

definition Robot_new :: "(nat \<Rightarrow> byte) \<Rightarrow> robot" where
  "Robot_new junk = \<lparr>rb_ibuf = CircularBuffer_new junk 65536, rb_obuf = CircularBuffer_new junk 65536, rb_pkHead = replicate 4 0,
     rb_seen = [], rb_socket = [], rb_writeable = False\<rparr>"

definition Robot_SendPacket :: "wpacket \<Rightarrow> robot \<Rightarrow> robot result" where
  "Robot_SendPacket pack r =
     (let p = WorldPacket_WriteHead pack in
      bindE (CircularBuffer_Write (take (WorldPacket_GetSize p) (wp_storage p)) (rb_obuf r)) (\<lambda>(_, ob).
        Inr (r\<lparr>rb_obuf := ob, rb_writeable := True\<rparr>)))"

definition Robot_SendLoginPacket :: "bytes \<Rightarrow> bytes \<Rightarrow> bytes \<Rightarrow> robot \<Rightarrow> robot result" where
  "Robot_SendLoginPacket serverName accountName passwd =
     Robot_SendPacket (WorldPacket_WriteString passwd (WorldPacket_WriteString accountName (WorldPacket_WriteString serverName (WorldPacket_new 15))))"

text \<open>The packet of \<open>SendPingPacket\<close>; the call into the script that follows is not part of the state.\<close>

definition Robot_SendPingPacket :: "robot \<Rightarrow> robot result" where
  "Robot_SendPingPacket = Robot_SendPacket (WorldPacket_WriteUInt 0 (WorldPacket_WriteUInt 1 (WorldPacket_new 1)))"

text \<open>\<open>OnEventWriteable\<close>: \<open>accepted\<close> lists how many bytes each \<open>send\<close> takes; the result of \<open>send\<close> is not looked at.\<close>

fun Robot_write_loop :: "nat list \<Rightarrow> nat \<Rightarrow> robot \<Rightarrow> robot result" where
  "Robot_write_loop [] n r = (if 0 < n then Inl Diverges else Inr r)"
| "Robot_write_loop (k # ks) n r =
     (if 0 < n then
        bindE (CircularBuffer_Read True n (rb_obuf r)) (\<lambda>(_, tmp, ob).
          Robot_write_loop ks (CircularBuffer_GetLength ob) (r\<lparr>rb_obuf := ob, rb_socket := rb_socket r @ take k tmp\<rparr>))
      else Inr r)"

definition Robot_OnEventWriteable :: "nat list \<Rightarrow> robot \<Rightarrow> robot result" where
  "Robot_OnEventWriteable accepted r =
     bindE (Robot_write_loop accepted (CircularBuffer_GetLength (rb_obuf r)) r) (\<lambda>r'. Inr (r'\<lparr>rb_writeable := False\<rparr>))"

text \<open>\<open>ntohs\<close> of the size field, in network byte order.\<close>

definition head_size :: "bytes \<Rightarrow> nat" where
  "head_size hd4 = u16 (256 * unat (hd4 ! 0) + unat (hd4 ! 1) + 2)"

definition head_opCode :: "bytes \<Rightarrow> nat" where
  "head_opCode hd4 = le_val (take 2 (drop 2 hd4))"

definition Robot_ProcPacket :: "wpacket \<Rightarrow> robot \<Rightarrow> robot" where
  "Robot_ProcPacket pack r = r\<lparr>rb_seen := rb_seen r @ [(unat (wp_opCode pack), wp_storage pack)]\<rparr>"

text \<open>The loop of \<open>OnRecvPacket\<close>; \<open>n\<close> bounds the iterations.\<close>

fun Robot_recv_loop :: "nat \<Rightarrow> nat \<Rightarrow> robot \<Rightarrow> robot result" where
  "Robot_recv_loop n len r =
     (if 4 \<le> len then
        (case n of 0 \<Rightarrow> Inl Diverges
         | Suc m \<Rightarrow>
            bindE (CircularBuffer_SoftRead True 4 (rb_ibuf r)) (\<lambda>(_, hd4).
              let r1 = r\<lparr>rb_pkHead := hd4\<rparr>; sz = head_size hd4 in
              if len < sz then Inr r1
              else
                let pkin = WorldPacket_Resize sz (WorldPacket_new (word_of_nat (head_opCode hd4))) in
                bindE (CircularBuffer_Read True sz (rb_ibuf r1)) (\<lambda>(ok, bs, ib).
                  let r2 = r1\<lparr>rb_ibuf := ib\<rparr>;
                      r3 = (if ok then Robot_ProcPacket (pkin\<lparr>wp_storage := overwrite (wp_storage pkin) 0 bs\<rparr>) r2 else r2)
                  in Robot_recv_loop m (CircularBuffer_GetLength (rb_ibuf r3)) r3)))
      else Inr r)"

declare Robot_recv_loop.simps [simp del]

definition Robot_OnRecvPacket :: "nat \<Rightarrow> robot \<Rightarrow> robot result" where
  "Robot_OnRecvPacket n r = Robot_recv_loop n (CircularBuffer_GetLength (rb_ibuf r)) r"

text \<open>\<open>OnEventReadable\<close>: what \<open>recv\<close> returns, up to 1024 bytes at a time, until it fails or reports the end.\<close>

datatype rrecv = RecvData bytes | RecvEnd | RecvError

fun Robot_OnEventReadable :: "nat \<Rightarrow> rrecv list \<Rightarrow> robot \<Rightarrow> robot result" where
  "Robot_OnEventReadable n [] r = Inr r"
| "Robot_OnEventReadable n (RecvData bs # rs) r =
     bindE (CircularBuffer_Write bs (rb_ibuf r)) (\<lambda>(_, ib).
       bindE (Robot_OnRecvPacket n (r\<lparr>rb_ibuf := ib\<rparr>)) (Robot_OnEventReadable n rs))"
| "Robot_OnEventReadable n (RecvEnd # rs) r = Inr r"
| "Robot_OnEventReadable n (RecvError # rs) r = Inr r"

section \<open>The timers of the robot\<close>

record rtimer =
  rt_step :: nat
  rt_expire :: nat
  rt_client :: nat

definition RTimer_new :: "nat \<Rightarrow> nat \<Rightarrow> nat \<Rightarrow> rtimer" where
  "RTimer_new now expire cln = \<lparr>rt_step = expire, rt_expire = u32 (now + expire), rt_client = cln\<rparr>"

definition RTimer_Update :: "rtimer \<Rightarrow> rtimer" where
  "RTimer_Update t = t\<lparr>rt_expire := u32 (rt_expire t + rt_step t)\<rparr>"

fun InsertTimer :: "rtimer \<Rightarrow> (nat \<times> rtimer) list \<Rightarrow> (nat \<times> rtimer) list" where
  "InsertTimer t [] = [(rt_expire t, t)]"
| "InsertTimer t ((k, u) # ts) = (if k \<le> rt_expire t then (k, u) # InsertTimer t ts else (rt_expire t, t) # (k, u) # ts)"

text \<open>
  \<open>Tick\<close>: an expired timer is run, erased through the iterator and inserted again; the loop then advances the erased
  iterator, which is undefined.
\<close>

definition TimerManager_Tick :: "nat \<Rightarrow> (nat \<times> rtimer) list \<Rightarrow> (nat \<times> rtimer) list result" where
  "TimerManager_Tick now ts = (case ts of [] \<Rightarrow> Inr ts | (k, t) # _ \<Rightarrow> if k > now then Inr ts else Inl UseAfterFree)"

section \<open>Cutting the stream\<close>

text \<open>
  The packets a received stream consists of, and what is left; no result when a header announces a packet of length
  zero, which the sum with two yields by wrapping around.
\<close>

function rframes :: "bytes \<Rightarrow> ((nat \<times> bytes) list \<times> bytes) option" where
  "rframes bs = (if length bs < 4 then Some ([], bs)
     else let sz = head_size (take 4 bs) in
       if length bs < sz then Some ([], bs)
       else if sz = 0 then None
       else map_option (\<lambda>(fs, rest). ((head_opCode (take 4 bs), take sz bs) # fs, rest)) (rframes (drop sz bs)))"
  by pat_completeness auto
termination by (relation "measure length") auto

declare rframes.simps [simp del]

lemma head_opCode_bound: "head_opCode h < 65536"
proof -
  have "(256 :: nat) ^ length (take 2 (drop 2 h)) \<le> 256 ^ 2" by (intro power_increasing) simp_all
  then show ?thesis using le_val_bound [of "take 2 (drop 2 h)"] by (simp add: head_opCode_def)
qed

lemma overwrite_all: "length bs = n \<Longrightarrow> overwrite (vec_resize n v) 0 bs = bs"
  by (simp add: overwrite_def vec_resize_def)

text \<open>One iteration on a buffer with at least a header.\<close>

lemma recv_loop_step:
  assumes inv: "cb_inv (rb_ibuf r)" and len: "4 \<le> length (cb_content (rb_ibuf r))"
  shows "\<exists>ib. cb_inv ib \<and> cb_max ib = cb_max (rb_ibuf r) \<and> cb_content ib = drop (head_size (take 4 (cb_content (rb_ibuf r)))) (cb_content (rb_ibuf r)) \<and>
    Robot_recv_loop (Suc m) (cb_q (rb_ibuf r)) r =
     (if cb_q (rb_ibuf r) < head_size (take 4 (cb_content (rb_ibuf r))) then Inr (r\<lparr>rb_pkHead := take 4 (cb_content (rb_ibuf r))\<rparr>)
      else Robot_recv_loop m (cb_q ib) (r\<lparr>rb_pkHead := take 4 (cb_content (rb_ibuf r)), rb_ibuf := ib,
        rb_seen := rb_seen r @ [(head_opCode (take 4 (cb_content (rb_ibuf r))), take (head_size (take 4 (cb_content (rb_ibuf r)))) (cb_content (rb_ibuf r)))]\<rparr>))"
proof (cases "cb_q (rb_ibuf r) < head_size (take 4 (cb_content (rb_ibuf r)))")
  case True
  let ?c = "rb_ibuf r"
  obtain ib where "cb_inv ib" "cb_max ib = cb_max ?c" "cb_content ib = drop (cb_q ?c) (cb_content ?c)"
    using ring.rd_ok [OF inv, of "cb_q ?c"] by auto
  moreover have "drop (cb_q ?c) (cb_content ?c) = drop (head_size (take 4 (cb_content ?c))) (cb_content ?c)" using True by simp
  moreover have "Robot_recv_loop (Suc m) (cb_q ?c) r = Inr (r\<lparr>rb_pkHead := take 4 (cb_content ?c)\<rparr>)"
    using len True ring.pk_ok [OF inv len] by (simp add: Robot_recv_loop.simps [of "Suc m"] Let_def)
  ultimately show ?thesis using True by auto
next
  case False
  let ?c = "rb_ibuf r" and ?h = "take 4 (cb_content (rb_ibuf r))"
  obtain ib where ib: "CircularBuffer_Read True (head_size ?h) ?c = Inr (True, take (head_size ?h) (cb_content ?c), ib)"
      "cb_inv ib" "cb_content ib = drop (head_size ?h) (cb_content ?c)" "cb_max ib = cb_max ?c"
    using ring.rd_ok [OF inv, of "head_size ?h"] False by auto
  have "Robot_recv_loop (Suc m) (cb_q ?c) r = Robot_recv_loop m (cb_q ib) (r\<lparr>rb_pkHead := ?h, rb_ibuf := ib,
        rb_seen := rb_seen r @ [(head_opCode ?h, take (head_size ?h) (cb_content ?c))]\<rparr>)"
    using len False ring.pk_ok [OF inv len] ib(1) head_opCode_bound [of ?h]
    by (simp add: Robot_recv_loop.simps [of "Suc m"] Let_def Robot_ProcPacket_def WorldPacket_Resize_def WorldPacket_new_def WorldPacket_skipTo_def
        overwrite_all CircularBuffer_GetLength_def unat_of_nat)
  with ib False show ?thesis by auto
qed

lemma recv_loop_frames:
  assumes "rframes (cb_content (rb_ibuf r)) = Some (fs, rest)" "cb_inv (rb_ibuf r)" "length (cb_content (rb_ibuf r)) \<le> n"
  shows "\<exists>r'. Robot_recv_loop n (cb_q (rb_ibuf r)) r = Inr r' \<and> cb_inv (rb_ibuf r') \<and> cb_max (rb_ibuf r') = cb_max (rb_ibuf r) \<and>
    cb_content (rb_ibuf r') = rest \<and> rb_seen r' = rb_seen r @ fs"
  using assms
proof (induction n arbitrary: r fs rest)
  case 0
  then show ?case by (auto simp: Robot_recv_loop.simps [of 0] rframes.simps [of "cb_content (rb_ibuf r)"])
next
  case (Suc n)
  let ?bs = "cb_content (rb_ibuf r)" and ?h = "take 4 (cb_content (rb_ibuf r))"
  show ?case
  proof (cases "4 \<le> length ?bs")
    case False
    then show ?thesis using Suc.prems by (auto simp: Robot_recv_loop.simps [of "Suc n"] rframes.simps [of ?bs])
  next
    case True
    obtain ib where ib: "cb_inv ib" "cb_max ib = cb_max (rb_ibuf r)" "cb_content ib = drop (head_size ?h) ?bs"
      "Robot_recv_loop (Suc n) (cb_q (rb_ibuf r)) r =
       (if cb_q (rb_ibuf r) < head_size ?h then Inr (r\<lparr>rb_pkHead := ?h\<rparr>)
        else Robot_recv_loop n (cb_q ib) (r\<lparr>rb_pkHead := ?h, rb_ibuf := ib, rb_seen := rb_seen r @ [(head_opCode ?h, take (head_size ?h) ?bs)]\<rparr>))"
      using recv_loop_step [OF Suc.prems(2) True, of n] by blast
    show ?thesis
    proof (cases "length ?bs < head_size ?h")
      case short: True
      then have "fs = []" "rest = ?bs" using Suc.prems(1) True by (simp_all add: rframes.simps [of ?bs] Let_def)
      then show ?thesis using ib(4) short Suc.prems(2) by simp
    next
      case False
      then obtain fs1 where nz: "head_size ?h \<noteq> 0" and f: "rframes (drop (head_size ?h) ?bs) = Some (fs1, rest)"
          "fs = (head_opCode ?h, take (head_size ?h) ?bs) # fs1"
        using Suc.prems(1) True by (auto simp: rframes.simps [of ?bs] Let_def split: if_splits)
      define r1 where "r1 = r\<lparr>rb_pkHead := ?h, rb_ibuf := ib, rb_seen := rb_seen r @ [(head_opCode ?h, take (head_size ?h) ?bs)]\<rparr>"
      have r1: "rb_ibuf r1 = ib" "rb_seen r1 = rb_seen r @ [(head_opCode ?h, take (head_size ?h) ?bs)]" by (simp_all add: r1_def)
      have "length (drop (head_size ?h) ?bs) \<le> n" using nz Suc.prems(3) by simp
      then obtain r' where "Robot_recv_loop n (cb_q ib) r1 = Inr r'" "cb_inv (rb_ibuf r')" "cb_max (rb_ibuf r') = cb_max ib"
          "cb_content (rb_ibuf r') = rest" "rb_seen r' = rb_seen r1 @ fs1"
        using Suc.IH [of r1 fs1 rest] f(1) ib(1,3) r1 by auto
      then show ?thesis using ib(2,4) False f(2) r1 by (simp add: r1_def)
    qed
  qed
qed

lemma recv_loop_stuck:
  assumes "rframes (cb_content (rb_ibuf r)) = None" "cb_inv (rb_ibuf r)"
  shows "Robot_recv_loop n (cb_q (rb_ibuf r)) r = Inl Diverges"
  using assms
proof (induction n arbitrary: r)
  case 0
  then show ?case by (auto simp: Robot_recv_loop.simps [of 0] rframes.simps [of "cb_content (rb_ibuf r)"] split: if_splits)
next
  case (Suc n)
  let ?bs = "cb_content (rb_ibuf r)" and ?h = "take 4 (cb_content (rb_ibuf r))"
  have l: "4 \<le> length ?bs" "\<not> length ?bs < head_size ?h"
    using Suc.prems(1) by (auto simp: rframes.simps [of ?bs] Let_def split: if_splits)
  obtain ib where ib: "cb_inv ib" "cb_max ib = cb_max (rb_ibuf r)" "cb_content ib = drop (head_size ?h) ?bs"
    "Robot_recv_loop (Suc n) (cb_q (rb_ibuf r)) r =
     (if cb_q (rb_ibuf r) < head_size ?h then Inr (r\<lparr>rb_pkHead := ?h\<rparr>)
      else Robot_recv_loop n (cb_q ib) (r\<lparr>rb_pkHead := ?h, rb_ibuf := ib, rb_seen := rb_seen r @ [(head_opCode ?h, take (head_size ?h) ?bs)]\<rparr>))"
    using recv_loop_step [OF Suc.prems(2) l(1), of n] by blast
  have "rframes (drop (head_size ?h) ?bs) = None"
    using Suc.prems(1) l by (cases "head_size ?h = 0") (auto simp: rframes.simps [of ?bs] Let_def)
  then show ?case using Suc.IH [of "r\<lparr>rb_pkHead := ?h, rb_ibuf := ib, rb_seen := rb_seen r @ [(head_opCode ?h, take (head_size ?h) ?bs)]\<rparr>"] ib l by simp
qed

section \<open>The stream arrives in pieces\<close>

lemma rframes_None_append: "rframes bs = None \<Longrightarrow> rframes (bs @ cs) = None"
proof (induction bs rule: rframes.induct)
  case (1 bs)
  then have l: "\<not> length bs < 4" "\<not> length bs < head_size (take 4 bs)"
    by (auto simp: rframes.simps [of bs] Let_def split: if_splits)
  have t: "take 4 (bs @ cs) = take 4 bs" "drop (head_size (take 4 bs)) (bs @ cs) = drop (head_size (take 4 bs)) bs @ cs"
    using l by simp_all
  show ?case
  proof (cases "head_size (take 4 bs) = 0")
    case True
    then show ?thesis using l t by (simp add: rframes.simps [of "bs @ cs"] Let_def)
  next
    case False
    then have "rframes (drop (head_size (take 4 bs)) bs) = None" using "1.prems" l by (simp add: rframes.simps [of bs] Let_def)
    then have "rframes (drop (head_size (take 4 bs)) bs @ cs) = None" using "1.IH" l False by simp
    then show ?thesis using l t False by (simp add: rframes.simps [of "bs @ cs"] Let_def)
  qed
qed

lemma rframes_short: "length bs < 4 \<or> length bs < head_size (take 4 bs) \<Longrightarrow> rframes bs = Some ([], bs)"
  by (cases "length bs < 4") (simp_all add: rframes.simps [of bs] Let_def)

lemma rframes_append:
  "rframes bs = Some (fs, rest) \<Longrightarrow> rframes (bs @ cs) = map_option (\<lambda>(gs, r). (fs @ gs, r)) (rframes (rest @ cs))"
proof (induction bs arbitrary: fs rule: rframes.induct)
  case (1 bs)
  show ?case
  proof (cases "length bs < 4 \<or> length bs < head_size (take 4 bs)")
    case True
    then have "fs = [] \<and> rest = bs" using "1.prems" rframes_short [OF True] by simp
    then show ?thesis by (cases "rframes (bs @ cs)") auto
  next
    case False
    then have l: "\<not> length bs < 4" "\<not> length bs < head_size (take 4 bs)" by simp_all
    have t: "take 4 (bs @ cs) = take 4 bs" "drop (head_size (take 4 bs)) (bs @ cs) = drop (head_size (take 4 bs)) bs @ cs"
      "take (head_size (take 4 bs)) (bs @ cs) = take (head_size (take 4 bs)) bs"
      using l by simp_all
    obtain fs1 where f: "head_size (take 4 bs) \<noteq> 0" "rframes (drop (head_size (take 4 bs)) bs) = Some (fs1, rest)"
        "fs = (head_opCode (take 4 bs), take (head_size (take 4 bs)) bs) # fs1"
      using "1.prems" l by (auto simp: rframes.simps [of bs] Let_def split: if_splits)
    have "rframes (drop (head_size (take 4 bs)) bs @ cs) = map_option (\<lambda>(gs, r). (fs1 @ gs, r)) (rframes (rest @ cs))"
      using "1.IH" l f(1,2) by simp
    then show ?thesis using l t f by (cases "rframes (rest @ cs)") (auto simp: rframes.simps [of "bs @ cs"] Let_def)
  qed
qed

lemma rframes_idem: "rframes bs = Some (fs, rest) \<Longrightarrow> rframes rest = Some ([], rest)"
proof (induction bs arbitrary: fs rule: rframes.induct)
  case (1 bs)
  show ?case
  proof (cases "length bs < 4 \<or> length bs < head_size (take 4 bs)")
    case True
    then have "fs = [] \<and> rest = bs" using "1.prems" rframes_short [OF True] by simp
    then show ?thesis using "1.prems" by simp
  next
    case False
    then show ?thesis using "1.prems" "1.IH" by (auto simp: rframes.simps [of bs] Let_def split: if_splits)
  qed
qed

text \<open>No header announces more than what, with one more piece, still fits the buffer.\<close>

function rsmall :: "bytes \<Rightarrow> bool" where
  "rsmall bs = (if length bs < 4 then True else head_size (take 4 bs) \<le> 64512 \<and>
     (if length bs < head_size (take 4 bs) \<or> head_size (take 4 bs) = 0 then True else rsmall (drop (head_size (take 4 bs)) bs)))"
  by pat_completeness auto
termination by (relation "measure length") auto

declare rsmall.simps [simp del]

lemma rsmall_rest:
  "rframes bs = Some (fs, rest) \<Longrightarrow> rsmall (bs @ cs) \<Longrightarrow> rsmall (rest @ cs) \<and> length rest \<le> 64512"
proof (induction bs arbitrary: fs rule: rframes.induct)
  case (1 bs)
  show ?case
  proof (cases "length bs < 4 \<or> length bs < head_size (take 4 bs)")
    case True
    then have r: "rest = bs" using "1.prems"(1) rframes_short [OF True] by simp
    have "length bs \<le> 64512"
    proof (cases "length bs < 4")
      case False
      then have "4 \<le> length bs" by simp
      then have "head_size (take 4 bs) \<le> 64512" using "1.prems"(2) rsmall.simps [of "bs @ cs"] by simp
      then show ?thesis using True False by simp
    qed simp
    then show ?thesis using r "1.prems" by simp
  next
    case False
    then have l: "\<not> length bs < 4" "\<not> length bs < head_size (take 4 bs)" by simp_all
    have t: "take 4 (bs @ cs) = take 4 bs" "drop (head_size (take 4 bs)) (bs @ cs) = drop (head_size (take 4 bs)) bs @ cs" using l by simp_all
    obtain fs1 where f: "head_size (take 4 bs) \<noteq> 0" "rframes (drop (head_size (take 4 bs)) bs) = Some (fs1, rest)"
      using "1.prems" l by (auto simp: rframes.simps [of bs] Let_def split: if_splits)
    have "rsmall (drop (head_size (take 4 bs)) bs @ cs)"
      using "1.prems"(2) l t f(1) rsmall.simps [of "bs @ cs"] by simp
    then show ?thesis using "1.IH" l f by simp
  qed
qed

text \<open>What \<open>recv\<close> delivers before it stops.\<close>

fun received :: "rrecv list \<Rightarrow> bytes" where
  "received (RecvData bs # rs) = bs @ received rs"
| "received _ = []"

lemma robot_stream_lemma:
  assumes "cb_inv (rb_ibuf r)" "cb_max (rb_ibuf r) = 65536" "length (cb_content (rb_ibuf r)) \<le> 64512"
    and "\<forall>bs. RecvData bs \<in> set rs \<longrightarrow> length bs \<le> 1024" and "65536 \<le> n"
    and "rframes (cb_content (rb_ibuf r) @ received rs) = Some (fs, rest)" and "rsmall (cb_content (rb_ibuf r) @ received rs)"
    and "rframes (cb_content (rb_ibuf r)) = Some ([], cb_content (rb_ibuf r))"
  shows "\<exists>r'. Robot_OnEventReadable n rs r = Inr r' \<and> cb_inv (rb_ibuf r') \<and> cb_content (rb_ibuf r') = rest \<and> rb_seen r' = rb_seen r @ fs"
  using assms
proof (induction rs arbitrary: r fs)
  case Nil
  then show ?case by simp
next
  case (Cons x rs)
  let ?c = "rb_ibuf r"
  show ?case
  proof (cases x)
    case (RecvData bs)
    have lb: "length bs \<le> 1024" using Cons.prems(4) RecvData by simp
    then have "length (cb_content ?c) + length bs \<le> cb_max ?c" using Cons.prems(2,3) by simp
    from ring.wr_ok [OF Cons.prems(1) this] obtain c1 where c1: "CircularBuffer_Write bs ?c = Inr (True, c1)" "cb_inv c1"
        "cb_content c1 = cb_content ?c @ bs" "cb_max c1 = 65536" using Cons.prems(2) by auto
    have all: "cb_content ?c @ received (x # rs) = cb_content c1 @ received rs" using c1(3) RecvData by simp
    have "rframes (cb_content c1) \<noteq> None" using Cons.prems(6) rframes_None_append unfolding all by fastforce
    then obtain gs mid where g: "rframes (cb_content c1) = Some (gs, mid)" by auto
    obtain hs where h: "rframes (mid @ received rs) = Some (hs, rest)" "fs = gs @ hs"
      using Cons.prems(6) unfolding all rframes_append [OF g] by (auto split: prod.splits)
    have sm: "rsmall (mid @ received rs)" "length mid \<le> 64512" using rsmall_rest [OF g, of "received rs"] Cons.prems(7) unfolding all by simp_all
    have "cb_q c1 \<le> 65536" using c1(2,4) by (simp add: cb_inv_def)
    then have lc: "length (cb_content c1) \<le> n" using Cons.prems(5) by simp
    define r1 where "r1 = r\<lparr>rb_ibuf := c1\<rparr>"
    have r1: "rb_ibuf r1 = c1" "rb_seen r1 = rb_seen r" by (simp_all add: r1_def)
    obtain r2 where r2: "Robot_recv_loop n (cb_q c1) r1 = Inr r2" "cb_inv (rb_ibuf r2)" "cb_max (rb_ibuf r2) = 65536"
        "cb_content (rb_ibuf r2) = mid" "rb_seen r2 = rb_seen r @ gs"
      using recv_loop_frames [of r1 gs mid n] g c1(2,4) lc r1 by auto
    have mid: "rframes mid = Some ([], mid)" using rframes_idem [OF g] .
    obtain r' where "Robot_OnEventReadable n rs r2 = Inr r'" "cb_inv (rb_ibuf r')" "cb_content (rb_ibuf r') = rest" "rb_seen r' = rb_seen r2 @ hs"
      using Cons.IH [of r2 hs] r2 sm h(1) mid Cons.prems(4,5) by auto
    then show ?thesis using c1(1) r2(1,5) h(2) RecvData
      by (simp add: Robot_OnRecvPacket_def CircularBuffer_GetLength_def r1_def)
  next
    case RecvEnd
    then show ?thesis using Cons.prems by simp
  next
    case RecvError
    then show ?thesis using Cons.prems by simp
  qed
qed

section \<open>Packets of the robot\<close>

text \<open>A packet under construction: a blank head, then the body written so far; the head is there once something was written.\<close>

definition built :: "wpacket \<Rightarrow> bytes \<Rightarrow> bool" where
  "built p b \<longleftrightarrow> wp_pos p = 10 + length b \<and> (wp_storage p = replicate 10 0 @ b \<or> wp_storage p = [] \<and> b = [])"

lemma built_new: "built (WorldPacket_new op) []"
  by (simp add: built_def WorldPacket_new_def WorldPacket_skipTo_def WorldPacket_HEAD_SIZE_def)

lemma built_PutByte:
  assumes "built p b"
  shows "built (WorldPacket_PutByte src p) (b @ src)"
proof -
  have "vec_resize (10 + length b + length src) (wp_storage p) = replicate 10 0 @ b @ replicate (length src) 0"
    using assms by (auto simp: built_def vec_resize_def replicate_add [symmetric])
  then show ?thesis using assms
    by (auto simp: built_def WorldPacket_PutByte_def Let_def overwrite_def)
qed

lemma PutByte_opCode [simp]: "wp_opCode (WorldPacket_PutByte src p) = wp_opCode p"
  by (simp add: WorldPacket_PutByte_def Let_def)

lemma PutByte_inside:
  "wp_pos p + length src < length (wp_storage p) \<Longrightarrow>
     WorldPacket_PutByte src p = p\<lparr>wp_storage := overwrite (wp_storage p) (wp_pos p) src, wp_pos := wp_pos p + length src\<rparr>"
  by (simp add: WorldPacket_PutByte_def)

definition robot_head :: "16 word \<Rightarrow> nat \<Rightarrow> bytes" where
  "robot_head op n = le_bytes 2 28380 @ le_bytes 2 (u16 n) @ le_bytes 2 (unat op) @ le_bytes 2 0 @ le_bytes 2 1"

lemma put_at:
  assumes "wp_storage p = xs @ ys @ zs" "wp_pos p = length xs" "length ys = length src"
  shows "wp_storage (WorldPacket_PutByte src p) = xs @ src @ zs \<and> wp_pos (WorldPacket_PutByte src p) = length (xs @ src)"
proof -
  have "vec_resize (length xs + length src) (wp_storage p) = xs @ ys" if "zs = []" using assms that by (simp add: vec_resize_def)
  then show ?thesis using assms by (auto simp: WorldPacket_PutByte_def Let_def overwrite_def)
qed

lemma le2: "\<exists>a b. le_bytes 2 v = [a, b]"
  by (simp add: numeral_2_eq_2)

lemma WriteHead_storage:
  assumes "built p b"
  shows "wp_storage (WorldPacket_WriteHead p) = robot_head (wp_opCode p) (length b) @ b"
proof -
  define p1 where "p1 = (let p0 = WorldPacket_skipTo 0 p in
    if length (wp_storage p0) < WorldPacket_HEAD_SIZE then p0\<lparr>wp_storage := vec_resize WorldPacket_HEAD_SIZE (wp_storage p0)\<rparr> else p0)"
  have p1: "wp_storage p1 = [] @ replicate 2 0 @ replicate 8 0 @ b" "wp_pos p1 = length []" "wp_opCode p1 = wp_opCode p"
    using assms by (auto simp: p1_def built_def WorldPacket_skipTo_def WorldPacket_HEAD_SIZE_def Let_def vec_resize_def replicate_add [symmetric])
  define p2 where "p2 = WorldPacket_WriteUShort 28380 p1"
  have p2: "wp_storage p2 = le_bytes 2 28380 @ replicate 8 0 @ b" "wp_pos p2 = length (le_bytes 2 28380)" "wp_opCode p2 = wp_opCode p"
    using put_at [OF p1(1,2), of "le_bytes 2 28380"] p1(3) by (simp_all add: p2_def WorldPacket_WriteUShort_def)
  have n: "length (wp_storage p2) - WorldPacket_HEAD_SIZE = length b" by (simp add: p2 WorldPacket_HEAD_SIZE_def)
  define p3 where "p3 = WorldPacket_WriteUShort (length b) p2"
  have p3: "wp_storage p3 = (le_bytes 2 28380 @ le_bytes 2 (u16 (length b))) @ replicate 6 0 @ b"
      "wp_pos p3 = length (le_bytes 2 28380 @ le_bytes 2 (u16 (length b)))" "wp_opCode p3 = wp_opCode p"
    using put_at [of p2 "le_bytes 2 28380" "replicate 2 0" "replicate 6 0 @ b" "le_bytes 2 (u16 (length b))"] p2
    by (simp_all add: p3_def WorldPacket_WriteUShort_def replicate_add [symmetric] flip: append_assoc)
  define p4 where "p4 = WorldPacket_WriteUShort (unat (wp_opCode p)) p3"
  have u: "u16 (unat (wp_opCode p)) = unat (wp_opCode p)" by (rule u16_id) (use unsigned_less [of "wp_opCode p", where 'a = nat] in simp)
  have p4: "wp_storage p4 = (le_bytes 2 28380 @ le_bytes 2 (u16 (length b)) @ le_bytes 2 (unat (wp_opCode p))) @ replicate 4 0 @ b"
      "wp_pos p4 = length (le_bytes 2 28380 @ le_bytes 2 (u16 (length b)) @ le_bytes 2 (unat (wp_opCode p)))"
    using put_at [of p3 "le_bytes 2 28380 @ le_bytes 2 (u16 (length b))" "replicate 2 0" "replicate 4 0 @ b" "le_bytes 2 (unat (wp_opCode p))"] p3 u
    by (simp_all add: p4_def WorldPacket_WriteUShort_def replicate_add [symmetric] flip: append_assoc)
  define p5 where "p5 = WorldPacket_WriteUShort 0 p4"
  have p5: "wp_storage p5 = (le_bytes 2 28380 @ le_bytes 2 (u16 (length b)) @ le_bytes 2 (unat (wp_opCode p)) @ le_bytes 2 0) @ replicate 2 0 @ b"
      "wp_pos p5 = length (le_bytes 2 28380 @ le_bytes 2 (u16 (length b)) @ le_bytes 2 (unat (wp_opCode p)) @ le_bytes 2 0)"
    using put_at [of p4 "le_bytes 2 28380 @ le_bytes 2 (u16 (length b)) @ le_bytes 2 (unat (wp_opCode p))" "replicate 2 0" "replicate 2 0 @ b" "le_bytes 2 0"] p4
    by (simp_all add: p5_def WorldPacket_WriteUShort_def replicate_add [symmetric] flip: append_assoc)
  have "wp_storage (WorldPacket_WriteUShort 1 p5) = robot_head (wp_opCode p) (length b) @ b"
    using put_at [OF p5, of "le_bytes 2 1"] by (simp add: WorldPacket_WriteUShort_def robot_head_def)
  moreover have "WorldPacket_WriteHead p = WorldPacket_WriteUShort 1 p5"
  proof -
    have "WorldPacket_WriteHead p = WorldPacket_WriteUShort 1 (WorldPacket_WriteUShort 0
        (WorldPacket_WriteUShort (unat (wp_opCode (WorldPacket_WriteUShort (length (wp_storage p2) - WorldPacket_HEAD_SIZE) p2)))
          (WorldPacket_WriteUShort (length (wp_storage p2) - WorldPacket_HEAD_SIZE) p2)))"
      unfolding WorldPacket_WriteHead_def p2_def p1_def Let_def by (rule refl)
    then show ?thesis unfolding n p3_def [symmetric] p3(3) p4_def [symmetric] p5_def [symmetric] .
  qed
  ultimately show ?thesis by simp
qed

lemma length_robot_head [simp]: "length (robot_head op n) = 10"
  by (simp add: robot_head_def)

lemma head_bytes:
  "le_val (take 2 (robot_head op n @ b)) = 28380" "le_val (take 2 (drop 2 (robot_head op n @ b))) = u16 n"
  by (simp_all add: robot_head_def le_val_le_bytes u16_def)

lemma gateway_head_size: "head_size (take 4 (body_bytes (packet_head code sid n) @ b)) = 56432"
proof -
  have i: "le_bytes 2 (28380 :: nat) = [220, 110]" by (simp add: numeral_2_eq_2)
  have "take 2 (body_bytes (packet_head code sid n) @ b) = [220, 110]"
    by (simp add: packet_head_def PacketIn_IDENTIFIER_def i)
  then have "take 2 (take 4 (body_bytes (packet_head code sid n) @ b)) = [220, 110]" by (simp only: take_take min_def) simp
  moreover have "xs ! 0 = 220 \<and> xs ! 1 = 110" if "take 2 xs = [220, 110]" for xs :: bytes
    using that nth_take [of 0 2 xs] nth_take [of 1 2 xs] by simp
  ultimately have "take 4 (body_bytes (packet_head code sid n) @ b) ! 0 = 220 \<and> take 4 (body_bytes (packet_head code sid n) @ b) ! 1 = 110"
    by blast
  then show ?thesis by (simp only: head_size_def) (simp add: u16_def)
qed

text \<open>
  One call of \<open>send\<close>: the whole buffer is read before it, and what the kernel does not take is gone.
\<close>

lemma Robot_OnEventWriteable_loses:
  assumes "cb_inv (rb_obuf r)" "cb_content (rb_obuf r) \<noteq> []"
  shows "\<exists>r'. Robot_OnEventWriteable [k] r = Inr r' \<and> cb_content (rb_obuf r') = [] \<and>
    rb_socket r' = rb_socket r @ take k (cb_content (rb_obuf r))"
proof -
  let ?c = "rb_obuf r"
  obtain ob where ob: "CircularBuffer_Read True (cb_q ?c) ?c = Inr (True, take (cb_q ?c) (cb_content ?c), ob)" "cb_content ob = []"
    using ring.rd_ok [OF assms(1), of "cb_q ?c"] by auto
  have "cb_q ob = 0" using ob(2) length_cb_content [of ob] by simp
  moreover have "0 < cb_q ?c" using assms(2) length_cb_content [of ?c] by (cases "cb_q ?c") (auto simp: cb_content_def)
  moreover have "take (cb_q ?c) (cb_content ?c) = cb_content ?c" by simp
  ultimately show ?thesis using ob by (simp add: Robot_OnEventWriteable_def CircularBuffer_GetLength_def)
qed

section \<open>Theorems\<close>

text \<open>
  C15. However the stream from the server is cut into pieces by \<open>recv\<close>, the script sees exactly the packets of the stream, in
  order, and the incomplete rest stays in the buffer, as long as no packet announces more than 64512 bytes (for a larger one the
  ring buffer can be full, and received bytes are dropped) and no head announces 65534, whose length with the head wraps around to zero.
\<close>

theorem robot_stream:
  assumes "\<forall>bs. RecvData bs \<in> set rs \<longrightarrow> length bs \<le> 1024" and "65536 \<le> n"
    and "rframes (received rs) = Some (fs, rest)" and "rsmall (received rs)"
  shows "\<exists>r. Robot_OnEventReadable n rs (Robot_new junk) = Inr r \<and> rb_seen r = fs \<and> cb_content (rb_ibuf r) = rest"
proof -
  have i: "rb_ibuf (Robot_new junk) = CircularBuffer_new junk 65536" "rb_seen (Robot_new junk) = []" by (simp_all add: Robot_new_def)
  have c: "cb_inv (CircularBuffer_new junk 65536)" "cb_content (CircularBuffer_new junk 65536) = []" "cb_max (CircularBuffer_new junk 65536) = 65536"
    using CircularBuffer_new_inv [of 65536 junk] by simp_all
  have "rframes [] = Some ([], [])" by (simp add: rframes.simps)
  then show ?thesis
    using robot_stream_lemma [of "Robot_new junk" rs n fs rest] assms c(1) unfolding i c(2,3) by auto
qed

theorem robot_stream_witness:
  "\<exists>r. Robot_OnEventReadable 65536 [RecvData [0, 3, 7], RecvData [0, 9, 0, 2, 1], RecvData [0, 0, 1], RecvError] (Robot_new (\<lambda>_. 0)) = Inr r \<and>
     rb_seen r = [(7, [0, 3, 7, 0, 9]), (1, [0, 2, 1, 0])] \<and> cb_content (rb_ibuf r) = [0, 1]"
proof -
  have 1: "rframes [0, 1] = Some ([], [0, 1])" by (simp add: rframes.simps)
  have 2: "rframes [0, 2, 1, 0, 0, 1] = Some ([(1, [0, 2, 1, 0])], [0, 1])"
    by (simp add: rframes.simps [of "[0, 2, 1, 0, 0, 1]"] head_size_def head_opCode_def 1)
  have "rframes [0, 3, 7, 0, 9, 0, 2, 1, 0, 0, 1] = Some ([(7, [0, 3, 7, 0, 9]), (1, [0, 2, 1, 0])], [0, 1])"
    by (simp add: rframes.simps [of "[0, 3, 7, 0, 9, 0, 2, 1, 0, 0, 1]"] head_size_def head_opCode_def 2)
  moreover have "rsmall [0, 3, 7, 0, 9, 0, 2, 1, 0, 0, 1]"
    by (simp add: rsmall.simps head_size_def)
  ultimately show ?thesis
    using robot_stream [of "[RecvData [0, 3, 7], RecvData [0, 9, 0, 2, 1], RecvData [0, 0, 1], RecvError]" 65536
      "[(7, [0, 3, 7, 0, 9]), (1, [0, 2, 1, 0])]" "[0, 1]" "\<lambda>_. 0"] by auto
qed

text \<open>
  C18. \<open>OnRecvPacket\<close> ends if and only if no header it reaches announces a packet of length zero: the size field
  65534 wraps around to zero, nothing is consumed, and the loop delivers empty packets for ever.
\<close>

theorem robot_OnRecvPacket_terminates:
  assumes "cb_inv (rb_ibuf r)"
  shows "(\<exists>n r'. Robot_OnRecvPacket n r = Inr r') \<longleftrightarrow> rframes (cb_content (rb_ibuf r)) \<noteq> None"
proof
  assume "\<exists>n r'. Robot_OnRecvPacket n r = Inr r'"
  moreover have "Robot_OnRecvPacket n r = Inl Diverges" if "rframes (cb_content (rb_ibuf r)) = None" for n
    using recv_loop_stuck [OF that assms] by (simp add: Robot_OnRecvPacket_def CircularBuffer_GetLength_def)
  ultimately show "rframes (cb_content (rb_ibuf r)) \<noteq> None" by (metis sum.distinct(1))
next
  assume "rframes (cb_content (rb_ibuf r)) \<noteq> None"
  then obtain fs rest where "rframes (cb_content (rb_ibuf r)) = Some (fs, rest)" by auto
  from recv_loop_frames [OF this assms order_refl] show "\<exists>n r'. Robot_OnRecvPacket n r = Inr r'"
    by (auto simp: Robot_OnRecvPacket_def CircularBuffer_GetLength_def)
qed

theorem robot_OnRecvPacket_terminates_witness:
  "\<exists>c. CircularBuffer_Write [255, 254, 0, 0] (CircularBuffer_new (\<lambda>_. 0) 8) = Inr (True, c) \<and>
     \<not> (\<exists>n r'. Robot_OnRecvPacket n ((Robot_new (\<lambda>_. 0))\<lparr>rb_ibuf := c\<rparr>) = Inr r')"
proof -
  have new: "cb_inv (CircularBuffer_new (\<lambda>_. 0) 8)" "cb_content (CircularBuffer_new (\<lambda>_. 0) 8) = []" "cb_max (CircularBuffer_new (\<lambda>_. 0) 8) = 8"
    using CircularBuffer_new_inv [of 8 "\<lambda>_. 0"] by simp_all
  from ring.wr_ok [OF new(1), of "[255, 254, 0, 0]"] new(2,3) obtain c where c: "CircularBuffer_Write [255, 254, 0, 0] (CircularBuffer_new (\<lambda>_. 0) 8) = Inr (True, c)"
    "cb_inv c" "cb_content c = [255, 254, 0, 0]" by auto
  have "rframes [255, 254, 0, 0] = None" by (simp add: rframes.simps head_size_def u16_def)
  then have "\<not> (\<exists>n r'. Robot_OnRecvPacket n ((Robot_new (\<lambda>_. 0))\<lparr>rb_ibuf := c\<rparr>) = Inr r')"
    using robot_OnRecvPacket_terminates [of "(Robot_new (\<lambda>_. 0))\<lparr>rb_ibuf := c\<rparr>"] c by simp
  with c(1) show ?thesis by blast
qed

text \<open>
  The robot and the gateway do not understand each other. The robot writes the length of the body into the length field, the gateway reads
  it as the length of the packet: a packet with a body below ten bytes, such as the ping, makes the gateway close the
  connection, and of a longer one the gateway takes only as many bytes as the body has. The robot reads the first two bytes of a gateway
  packet, its identifier, as a length of 56430: it hands no gateway packet below that length to the script.
\<close>

lemma robot_gateway_mismatch:
  assumes "built p b" and "length b < 65536" and "length c < 56422"
  shows "(length b < 10 \<longrightarrow> frames (wp_storage (WorldPacket_WriteHead p)) = ([], wp_storage (WorldPacket_WriteHead p), True)) \<and>
    (10 \<le> length b \<longrightarrow> (\<exists>fs. fst (frames (wp_storage (WorldPacket_WriteHead p))) = take (length b) (wp_storage (WorldPacket_WriteHead p)) # fs)) \<and>
    rframes (body_bytes (packet_head code sid k) @ c) = Some ([], body_bytes (packet_head code sid k) @ c)"
proof -
  let ?s = "robot_head (wp_opCode p) (length b) @ b"
  have u: "u16 (length b) = length b" using assms(2) by simp
  have "rframes (body_bytes (packet_head code sid k) @ c) = Some ([], body_bytes (packet_head code sid k) @ c)"
    by (rule rframes_short, unfold gateway_head_size) (use assms(3) packet_head_laws(1) [of code sid k] in simp)
  moreover have "length b < 10 \<longrightarrow> frames ?s = ([], ?s, True)"
    using head_bytes [of "wp_opCode p" "length b" b] by (simp add: frames.simps [of ?s] Let_def u)
  moreover have "\<exists>fs. fst (frames ?s) = take (length b) ?s # fs" if "10 \<le> length b"
    using head_bytes [of "wp_opCode p" "length b" b] that u
    by (simp add: frames.simps [of ?s] Let_def split: prod.splits)
  ultimately show ?thesis unfolding WriteHead_storage [OF assms(1)] by blast
qed

lemma robot_gateway_mismatch_witness:
  "frames (wp_storage (WorldPacket_WriteHead (WorldPacket_PutByte [1, 0, 0, 0, 0, 0, 0, 0] (WorldPacket_new 1))))
     = ([], wp_storage (WorldPacket_WriteHead (WorldPacket_PutByte [1, 0, 0, 0, 0, 0, 0, 0] (WorldPacket_new 1))), True)"
  using robot_gateway_mismatch [OF built_PutByte [OF built_new], of "[1, 0, 0, 0, 0, 0, 0, 0]" "[]" 1 0 0 0] by simp

text \<open>
  Reading a field of more than one byte is undefined on every packet: if the bytes are there, \<open>GetByte\<close> copies from
  beyond a one-byte variable, and if they are not, from beyond the packet. A single byte is read correctly exactly when it is there.
\<close>

lemma robot_reads_undefined:
  "(\<exists>e. WorldPacket_ReadUShort p = Inl e) \<and> (\<exists>e. WorldPacket_ReadUInt p = Inl e) \<and> (\<exists>e. WorldPacket_ReadString p = Inl e) \<and>
   WorldPacket_ReadByte p = (if max 10 (wp_pos p) < length (wp_storage p)
     then Inr (wp_storage p ! max 10 (wp_pos p), p\<lparr>wp_pos := max 10 (wp_pos p) + 1\<rparr>) else Inl OutOfRange)"
proof -
  have g: "WorldPacket_GetByte n p = Inl OutOfRange" if "1 < n" for n
    using that by (auto simp: WorldPacket_GetByte_def copy_out_def Let_def)
  have "WorldPacket_ReadByte p = (if max 10 (wp_pos p) < length (wp_storage p)
     then Inr (wp_storage p ! max 10 (wp_pos p), p\<lparr>wp_pos := max 10 (wp_pos p) + 1\<rparr>) else Inl OutOfRange)"
    by (auto simp: WorldPacket_ReadByte_def WorldPacket_GetByte_def copy_out_def Let_def WorldPacket_HEAD_SIZE_def WorldPacket_skipTo_def max_def)
  then show ?thesis using g [of 2] g [of 4]
    by (simp add: WorldPacket_ReadUShort_def WorldPacket_ReadUInt_def WorldPacket_ReadString_def)
qed

end
