(* ===== verification/Action.thy ===== *)
theory Action
  imports ObjectModel
begin

text \<open>
  \<open>base/action\<close>: actions that are updated once per frame, the executors that hold them and the manager that updates them all. What user
  code does in a callback is data: it runs new actions, stops actions by their tag or all of an executor, waits for an
  executor to finish, and gives up references to executors; it calls only executors it holds a reference to. Theorem: a frame
  visits every action that was there when it began exactly once, in order, removes and deletes exactly those that are stopped or done, and
  touches no deleted object. Callbacks hold no references to actions and run each action once; an action that is run again,
  which would link it twice, cannot be expressed.
\<close>

section \<open>Model\<close>

text \<open>
  The three kinds of actions with their members; \<open>Interval\<close> is an abstract class whose \<open>OnInterval\<close> and \<open>IsDone\<close> are user code: it carries one callback for each
  interval to come and is done when none is left.
\<close>

datatype akind =
    NextCall bool "aop list"
  | Timeout int int "aop list"
  | Interval int int "aop list list"
and aop =
    ORun oid int akind
  | OStopTag oid int
  | OStopAll oid
  | OBeginStop oid "aop list"
  | ORelease oid

record action =
  ac_stopped :: bool
  ac_tag :: int
  ac_kind :: akind

record aexec =
  ex_actions :: "oid list"
  ex_cb_stop :: "aop list option"
  ex_registered :: bool

text \<open>
  \<open>aw_user\<close> counts the references user code holds to an executor, \<open>aw_visits\<close> lists the actions in the order the
  manager comes to them, \<open>aw_finished\<close> the executors reported as finished.
\<close>

record aworld =
  aw_heap :: objheap
  aw_act :: "oid \<Rightarrow> action"
  aw_exe :: "oid \<Rightarrow> aexec"
  aw_execs :: "oid list"
  aw_user :: "oid \<Rightarrow> nat"
  aw_visits :: "oid list"
  aw_finished :: "oid list"

definition upd_act :: "oid \<Rightarrow> (action \<Rightarrow> action) \<Rightarrow> aworld \<Rightarrow> aworld" where
  "upd_act a f s = s\<lparr>aw_act := (aw_act s)(a := f (aw_act s a))\<rparr>"

definition upd_exe :: "oid \<Rightarrow> (aexec \<Rightarrow> aexec) \<Rightarrow> aworld \<Rightarrow> aworld" where
  "upd_exe e f s = s\<lparr>aw_exe := (aw_exe s)(e := f (aw_exe s e))\<rparr>"

definition heap_op :: "(objheap \<Rightarrow> objheap result) \<Rightarrow> aworld \<Rightarrow> aworld result" where
  "heap_op f s = bindE (f (aw_heap s)) (\<lambda>h. Inr (s\<lparr>aw_heap := h\<rparr>))"

definition ActionBase_Stop :: "oid \<Rightarrow> aworld \<Rightarrow> aworld" where
  "ActionBase_Stop a = upd_act a (\<lambda>x. x\<lparr>ac_stopped := True\<rparr>)"

definition Executor_GetActionByTag :: "oid \<Rightarrow> int \<Rightarrow> aworld \<Rightarrow> oid option" where
  "Executor_GetActionByTag e tag s = find (\<lambda>a. ac_tag (aw_act s a) = tag) (ex_actions (aw_exe s e))"

definition Executor_StopAllAction :: "oid \<Rightarrow> aworld \<Rightarrow> aworld" where
  "Executor_StopAllAction e s = foldl (\<lambda>s a. ActionBase_Stop a s) s (ex_actions (aw_exe s e))"

definition ActionManager_RegisterNode :: "oid \<Rightarrow> aworld \<Rightarrow> aworld result" where
  "ActionManager_RegisterNode e s = assertE (e \<notin> set (aw_execs s))
     (bindE (heap_op (Object_Retain e) s) (\<lambda>s1. Inr (s1\<lparr>aw_execs := e # aw_execs s1\<rparr>)))"

definition Executor_RunAction :: "oid \<Rightarrow> oid \<Rightarrow> aworld \<Rightarrow> aworld result" where
  "Executor_RunAction e a s =
     bindE (if \<not> ex_registered (aw_exe s e) then ActionManager_RegisterNode e (upd_exe e (\<lambda>x. x\<lparr>ex_registered := True\<rparr>) s) else Inr s)
       (\<lambda>s1. heap_op (Object_Retain a) (upd_exe e (\<lambda>x. x\<lparr>ex_actions := a # ex_actions x\<rparr>) s1))"

text \<open>The last release of an executor runs its destructor, which stops what it still holds.\<close>

definition Executor_Release :: "oid \<Rightarrow> aworld \<Rightarrow> aworld result" where
  "Executor_Release e s = bindE (heap_op (Object_Release e) s) (\<lambda>s1.
     Inr (if rc (aw_heap s1) e = None then Executor_StopAllAction e s1 else s1))"

text \<open>What user code does; a new action is run and the creator's reference is given up.\<close>

fun run_op :: "aop \<Rightarrow> aworld \<Rightarrow> aworld result" and run_ops :: "aop list \<Rightarrow> aworld \<Rightarrow> aworld result" where
  "run_op (ORun e tag k) s = (if aw_user s e = 0 then Inr s else
     let (a, h) = Object_new (aw_heap s);
         s1 = s\<lparr>aw_heap := h, aw_act := (aw_act s)(a := \<lparr>ac_stopped = False, ac_tag = tag, ac_kind = k\<rparr>)\<rparr>
     in bindE (Executor_RunAction e a s1) (heap_op (Object_Release a)))"
| "run_op (OStopTag e tag) s = (if aw_user s e = 0 then Inr s else
     case Executor_GetActionByTag e tag s of None \<Rightarrow> Inr s | Some a \<Rightarrow> Inr (ActionBase_Stop a s))"
| "run_op (OStopAll e) s = (if aw_user s e = 0 then Inr s else Inr (Executor_StopAllAction e s))"
| "run_op (OBeginStop e cb) s = (if aw_user s e = 0 then Inr s else
     if ex_actions (aw_exe s e) = [] then run_ops cb s
     else Inr (Executor_StopAllAction e (upd_exe e (\<lambda>x. x\<lparr>ex_cb_stop := Some cb\<rparr>) s)))"
| "run_op (ORelease e) s = (if aw_user s e = 0 then Inr s else
     Executor_Release e (s\<lparr>aw_user := (aw_user s)(e := aw_user s e - 1)\<rparr>))"
| "run_ops [] s = Inr s"
| "run_ops (p # ps) s = bindE (run_op p s) (run_ops ps)"

definition Executor_OnAllActionFinish :: "oid \<Rightarrow> aworld \<Rightarrow> aworld result" where
  "Executor_OnAllActionFinish e s =
     (let s1 = (upd_exe e (\<lambda>x. x\<lparr>ex_registered := False\<rparr>) s)\<lparr>aw_finished := aw_finished s @ [e]\<rparr>
      in case ex_cb_stop (aw_exe s1 e) of None \<Rightarrow> Inr s1 | Some cb \<Rightarrow> run_ops cb s1)"

text \<open>Addition of \<open>int32_t\<close>; overflow is undefined.\<close>

definition add32 :: "int \<Rightarrow> int \<Rightarrow> int result" where
  "add32 x y = (if -2147483648 \<le> x + y \<and> x + y < 2147483648 then Inr (x + y) else Inl OutOfRange)"

definition set_kind :: "oid \<Rightarrow> akind \<Rightarrow> aworld \<Rightarrow> aworld" where
  "set_kind a k = upd_act a (\<lambda>x. x\<lparr>ac_kind := k\<rparr>)"

definition ActionNextCall_OnUpdate :: "oid \<Rightarrow> bool \<Rightarrow> aop list \<Rightarrow> aworld \<Rightarrow> aworld result" where
  "ActionNextCall_OnUpdate a executed cb s =
     (if executed then Inr s else bindE (run_ops cb s) (\<lambda>s1. Inr (set_kind a (NextCall True cb) s1)))"

definition ActionTimeout_OnUpdate :: "int \<Rightarrow> oid \<Rightarrow> int \<Rightarrow> int \<Rightarrow> aop list \<Rightarrow> aworld \<Rightarrow> aworld result" where
  "ActionTimeout_OnUpdate span a delay acc cb s = bindE (add32 acc span) (\<lambda>acc1.
     let s1 = set_kind a (Timeout delay acc1 cb) s in if acc1 \<ge> delay then run_ops cb s1 else Inr s1)"

definition ActionInterval_OnUpdate :: "int \<Rightarrow> oid \<Rightarrow> int \<Rightarrow> int \<Rightarrow> aop list list \<Rightarrow> aworld \<Rightarrow> aworld result" where
  "ActionInterval_OnUpdate span a interval acc cbs s = bindE (add32 acc span) (\<lambda>acc1.
     if acc1 \<ge> interval then
       (case cbs of [] \<Rightarrow> Inr (set_kind a (Interval interval 0 []) s) | cb # rest \<Rightarrow> run_ops cb (set_kind a (Interval interval 0 rest) s))
     else Inr (set_kind a (Interval interval acc1 cbs) s))"

definition Action_OnUpdate :: "int \<Rightarrow> oid \<Rightarrow> aworld \<Rightarrow> aworld result" where
  "Action_OnUpdate span a s = (case ac_kind (aw_act s a) of
     NextCall executed cb \<Rightarrow> ActionNextCall_OnUpdate a executed cb s
   | Timeout delay acc cb \<Rightarrow> ActionTimeout_OnUpdate span a delay acc cb s
   | Interval interval acc cbs \<Rightarrow> ActionInterval_OnUpdate span a interval acc cbs s)"

lemmas OnUpdate_defs = Action_OnUpdate_def ActionNextCall_OnUpdate_def ActionTimeout_OnUpdate_def ActionInterval_OnUpdate_def

definition Action_IsDone :: "oid \<Rightarrow> aworld \<Rightarrow> bool" where
  "Action_IsDone a s = (case ac_kind (aw_act s a) of NextCall executed _ \<Rightarrow> executed | Timeout delay acc _ \<Rightarrow> acc \<ge> delay | Interval _ _ cbs \<Rightarrow> cbs = [])"

text \<open>The elements of the intrusive lists: the first one, the one behind another, and unlinking.\<close>

definition front :: "oid list \<Rightarrow> oid option" where
  "front xs = (case xs of [] \<Rightarrow> None | x # _ \<Rightarrow> Some x)"

fun next_of :: "oid \<Rightarrow> oid list \<Rightarrow> oid option" where
  "next_of x [] = None"
| "next_of x (y # ys) = (if x = y then front ys else next_of x ys)"

definition erase_action :: "oid \<Rightarrow> oid \<Rightarrow> aworld \<Rightarrow> aworld result" where
  "erase_action e a s = heap_op (Object_Release a) (upd_exe e (\<lambda>x. x\<lparr>ex_actions := remove1 a (ex_actions x)\<rparr>) s)"

text \<open>
  The loop over the actions of an executor; \<open>n\<close> bounds its length: callbacks put new actions in front of the cursor, so the length of the list
  when the loop begins is enough.
\<close>

fun action_loop :: "nat \<Rightarrow> int \<Rightarrow> oid \<Rightarrow> oid option \<Rightarrow> aworld \<Rightarrow> aworld result" where
  "action_loop n span e None s = Inr s"
| "action_loop 0 span e (Some a) s = Inl Diverges"
| "action_loop (Suc n) span e (Some a) s0 =
     (let s = s0\<lparr>aw_visits := aw_visits s0 @ [a]\<rparr> in
      bindE (Object_reference_count a (aw_heap s)) (\<lambda>_.
        if ac_stopped (aw_act s a)
        then bindE (erase_action e a s) (action_loop n span e (next_of a (ex_actions (aw_exe s e))))
        else bindE (Action_OnUpdate span a s) (\<lambda>s1.
               bindE (if ac_stopped (aw_act s1 a) \<or> Action_IsDone a s1 then erase_action e a s1 else Inr s1)
                 (action_loop n span e (next_of a (ex_actions (aw_exe s1 e)))))))"

fun executor_loop :: "nat \<Rightarrow> int \<Rightarrow> oid option \<Rightarrow> aworld \<Rightarrow> aworld result" where
  "executor_loop n span None s = Inr s"
| "executor_loop 0 span (Some e) s = Inl Diverges"
| "executor_loop (Suc n) span (Some e) s =
     bindE (Object_reference_count e (aw_heap s)) (\<lambda>_.
       if ex_actions (aw_exe s e) = [] then
         bindE (Executor_OnAllActionFinish e (s\<lparr>aw_execs := remove1 e (aw_execs s)\<rparr>)) (\<lambda>s1.
           bindE (Executor_Release e s1) (executor_loop n span (next_of e (aw_execs s))))
       else bindE (action_loop (length (ex_actions (aw_exe s e))) span e (front (ex_actions (aw_exe s e))) s) (\<lambda>s1.
           executor_loop n span (next_of e (aw_execs s1)) s1))"

definition ActionManager_Update :: "int \<Rightarrow> aworld \<Rightarrow> aworld result" where
  "ActionManager_Update span s = executor_loop (length (aw_execs s)) span (front (aw_execs s)) s"

section \<open>Invariant\<close>

text \<open>Delays, intervals and the times accumulated stay so far from the limits of \<open>int32_t\<close> that adding \<open>span\<close> cannot overflow.\<close>

fun kind_fits :: "int \<Rightarrow> akind \<Rightarrow> bool" and op_fits :: "int \<Rightarrow> aop \<Rightarrow> bool" where
  "kind_fits d (NextCall _ cb) = list_all (op_fits d) cb"
| "kind_fits d (Timeout delay acc cb) = (0 \<le> acc \<and> acc \<le> d \<and> delay \<le> d \<and> list_all (op_fits d) cb)"
| "kind_fits d (Interval interval acc cbs) = (0 \<le> acc \<and> acc \<le> d \<and> interval \<le> d \<and> list_all (list_all (op_fits d)) cbs)"
| "op_fits d (ORun _ _ k) = kind_fits d k"
| "op_fits d (OBeginStop _ cb) = list_all (op_fits d) cb"
| "op_fits d _ = True"

definition actions_of :: "aworld \<Rightarrow> oid \<Rightarrow> oid list" where
  "actions_of s e = ex_actions (aw_exe s e)"

definition linked_act :: "aworld \<Rightarrow> oid \<Rightarrow> bool" where
  "linked_act s a \<longleftrightarrow> (\<exists>e. a \<in> set (actions_of s e))"

text \<open>References are exactly those of the lists, of user code and \<open>x\<close>, those of the code that is running.\<close>

definition owned_by :: "(oid \<Rightarrow> nat) \<Rightarrow> aworld \<Rightarrow> bool" where
  "owned_by x s \<longleftrightarrow> (\<forall>a. refs (aw_heap s) a = aw_user s a + (if a \<in> set (aw_execs s) then 1 else 0) + (if linked_act s a then 1 else 0) + x a)"

definition lists_ok :: "aworld \<Rightarrow> bool" where
  "lists_ok s \<longleftrightarrow> distinct (aw_execs s) \<and> (\<forall>e. distinct (actions_of s e)) \<and>
     (\<forall>e e' a. a \<in> set (actions_of s e) \<longrightarrow> a \<in> set (actions_of s e') \<longrightarrow> e = e') \<and>
     (\<forall>e. ex_registered (aw_exe s e) \<longleftrightarrow> e \<in> set (aw_execs s)) \<and> (\<forall>e. actions_of s e \<noteq> [] \<longrightarrow> e \<in> set (aw_execs s)) \<and>
     (\<forall>a. linked_act s a \<longrightarrow> a \<notin> set (aw_execs s) \<and> aw_user s a = 0)"

text \<open>\<open>D\<close> holds the action that is being updated, whose time may be past the limit until it is removed.\<close>

definition fits_ok :: "int \<Rightarrow> oid set \<Rightarrow> aworld \<Rightarrow> bool" where
  "fits_ok d D s \<longleftrightarrow> (\<forall>a. linked_act s a \<longrightarrow> a \<notin> D \<longrightarrow> kind_fits d (ac_kind (aw_act s a))) \<and>
     (\<forall>e cb. ex_cb_stop (aw_exe s e) = Some cb \<longrightarrow> list_all (op_fits d) cb)"

definition aw_inv :: "int \<Rightarrow> oid set \<Rightarrow> (oid \<Rightarrow> nat) \<Rightarrow> aworld \<Rightarrow> bool" where
  "aw_inv d D x s \<longleftrightarrow> obj_inv (aw_heap s) \<and> owned_by x s \<and> lists_ok s \<and> fits_ok d D s \<and> (\<forall>a. aw_user s a + x a + 4 < 4294967296)"

text \<open>
  How a world develops while callbacks run and actions are updated: lists get new actions in front and lose only actions of \<open>V\<close>,
  the order of the others is kept, only actions of \<open>V\<close> change their kind, a stopped action stays stopped, and nothing but executors that user code holds is registered.
\<close>

abbreviation world_next :: "aworld \<Rightarrow> oid" where
  "world_next s \<equiv> obj_next (aw_heap s)"

definition evolves :: "oid set \<Rightarrow> aworld \<Rightarrow> aworld \<Rightarrow> bool" where
  "evolves V s s' \<longleftrightarrow> world_next s \<le> world_next s' \<and>
     (\<forall>e. \<exists>new. (\<forall>a \<in> set new. world_next s \<le> a) \<and> actions_of s' e = new @ filter (linked_act s') (actions_of s e)) \<and>
     (\<forall>a < world_next s. ac_stopped (aw_act s a) \<longrightarrow> ac_stopped (aw_act s' a)) \<and>
     (\<forall>a < world_next s. a \<notin> V \<longrightarrow> ac_kind (aw_act s' a) = ac_kind (aw_act s a) \<and> (linked_act s a \<longrightarrow> linked_act s' a)) \<and>
     (\<forall>a. aw_user s' a \<le> aw_user s a) \<and> set (aw_execs s') \<subseteq> set (aw_execs s) \<union> {e. 0 < aw_user s e}"

definition prepends :: "aworld \<Rightarrow> aworld \<Rightarrow> bool" where
  "prepends s s' \<longleftrightarrow> (\<exists>new. aw_execs s' = new @ aw_execs s)"

section \<open>Lemmas\<close>

lemma linked_actI: "a \<in> set (actions_of s e) \<Longrightarrow> linked_act s a"
  by (auto simp: linked_act_def)

lemma aw_inv_distinct: "aw_inv d D x s \<Longrightarrow> distinct (actions_of s e)"
  by (simp add: aw_inv_def lists_ok_def)

lemma linked_live:
  assumes "aw_inv d D x s" and "linked_act s a"
  shows "a \<in> dom (rc (aw_heap s))" and "a < world_next s"
proof -
  have "0 < refs (aw_heap s) a" using assms by (auto simp: aw_inv_def owned_by_def)
  then show live: "a \<in> dom (rc (aw_heap s))" using assms(1) by (auto simp: aw_inv_def refs_pos_iff)
  then have "\<not> world_next s \<le> a" using assms(1) by (auto simp: aw_inv_def obj_inv_def)
  then show "a < world_next s" by simp
qed

lemma evolves_refl: "evolves {} s s"
proof -
  have "actions_of s e = [] @ filter (linked_act s) (actions_of s e)" for e
    by (auto simp: linked_act_def intro!: filter_True [symmetric])
  then show ?thesis unfolding evolves_def by fastforce
qed

lemma evolves_linked:
  assumes "evolves V s s'" and "linked_act s' a" and "a < world_next s"
  shows "linked_act s a"
proof -
  obtain e where e: "a \<in> set (actions_of s' e)" using assms(2) by (auto simp: linked_act_def)
  obtain new where "\<forall>a \<in> set new. world_next s \<le> a" "actions_of s' e = new @ filter (linked_act s') (actions_of s e)"
    using assms(1) unfolding evolves_def by meson
  then show ?thesis using e assms(3) by (auto simp: linked_act_def)
qed

lemma evolves_trans:
  assumes "evolves V s s1" and "evolves W s1 s2" and "\<And>a. linked_act s a \<Longrightarrow> a < world_next s"
  shows "evolves (V \<union> W) s s2"
proof -
  have "\<exists>new. (\<forall>a \<in> set new. world_next s \<le> a) \<and> actions_of s2 e = new @ filter (linked_act s2) (actions_of s e)" for e
  proof -
    obtain n1 where n1: "\<forall>a \<in> set n1. world_next s \<le> a" "actions_of s1 e = n1 @ filter (linked_act s1) (actions_of s e)"
      using assms(1) unfolding evolves_def by meson
    obtain n2 where n2: "\<forall>a \<in> set n2. world_next s1 \<le> a" "actions_of s2 e = n2 @ filter (linked_act s2) (actions_of s1 e)"
      using assms(2) unfolding evolves_def by meson
    have le: "world_next s \<le> world_next s1" using assms(1) by (simp add: evolves_def)
    have "linked_act s1 a" if "a \<in> set (actions_of s e)" "linked_act s2 a" for a
    proof -
      have "a < world_next s" using assms(3) that(1) by (auto simp: linked_act_def)
      then show ?thesis using evolves_linked [OF assms(2) that(2)] le by simp
    qed
    then have "filter (linked_act s2) (filter (linked_act s1) (actions_of s e)) = filter (linked_act s2) (actions_of s e)"
      by (auto intro: filter_cong)
    then have "actions_of s2 e = (n2 @ filter (linked_act s2) n1) @ filter (linked_act s2) (actions_of s e)"
      using n1 n2 by simp
    moreover have "\<forall>a \<in> set (n2 @ filter (linked_act s2) n1). world_next s \<le> a" using n1(1) n2(1) le by auto
    ultimately show ?thesis by blast
  qed
  moreover have le: "world_next s \<le> world_next s1" "world_next s1 \<le> world_next s2" using assms(1,2) by (simp_all add: evolves_def)
  moreover have "\<forall>a < world_next s. ac_stopped (aw_act s a) \<longrightarrow> ac_stopped (aw_act s2 a)"
    using assms(1,2) le(1) unfolding evolves_def by (meson order_less_le_trans)
  moreover have "ac_kind (aw_act s2 a) = ac_kind (aw_act s a) \<and> (linked_act s a \<longrightarrow> linked_act s2 a)" if "a < world_next s" "a \<notin> V \<union> W" for a
  proof -
    have "ac_kind (aw_act s1 a) = ac_kind (aw_act s a) \<and> (linked_act s a \<longrightarrow> linked_act s1 a)" using assms(1) that by (simp add: evolves_def)
    moreover have "ac_kind (aw_act s2 a) = ac_kind (aw_act s1 a) \<and> (linked_act s1 a \<longrightarrow> linked_act s2 a)" using assms(2) that le(1) by (simp add: evolves_def)
    ultimately show ?thesis by simp
  qed
  moreover have user: "aw_user s1 a \<le> aw_user s a" "aw_user s2 a \<le> aw_user s1 a" for a using assms(1,2) by (simp_all add: evolves_def)
  moreover have "set (aw_execs s2) \<subseteq> set (aw_execs s) \<union> {e. 0 < aw_user s e}"
  proof
    fix e assume "e \<in> set (aw_execs s2)"
    then have "e \<in> set (aw_execs s1) \<or> 0 < aw_user s1 e" using assms(2) by (auto simp: evolves_def)
    moreover have "set (aw_execs s1) \<subseteq> set (aw_execs s) \<union> {e. 0 < aw_user s e}" using assms(1) by (simp add: evolves_def)
    moreover have "0 < aw_user s e" if "0 < aw_user s1 e" using that user(1) [of e] by simp
    ultimately show "e \<in> set (aw_execs s) \<union> {e. 0 < aw_user s e}" by blast
  qed
  ultimately show ?thesis unfolding evolves_def by (meson order_trans)
qed


text \<open>Retaining and releasing an object of the world.\<close>

lemma heap_op_Retain:
  assumes "obj_inv (aw_heap s)" and "a \<in> dom (rc (aw_heap s))" and "refs (aw_heap s) a < 4294967295"
  shows "\<exists>h. heap_op (Object_Retain a) s = Inr (s\<lparr>aw_heap := h\<rparr>) \<and> obj_inv h
    \<and> refs h = (refs (aw_heap s))(a := refs (aw_heap s) a + 1) \<and> obj_next h = world_next s"
proof -
  obtain h where h: "Object_Retain a (aw_heap s) = Inr h" "obj_inv h" "refs h = (refs (aw_heap s))(a := refs (aw_heap s) a + 1)"
    using Object_Retain_refs [OF assms] by blast
  have "obj_next h = world_next s" using h(1) by (auto simp: Object_Retain_def split: option.splits)
  then show ?thesis using h by (auto simp: heap_op_def)
qed

lemma heap_op_Release:
  assumes "obj_inv (aw_heap s)" and "0 < refs (aw_heap s) a"
  shows "\<exists>h. heap_op (Object_Release a) s = Inr (s\<lparr>aw_heap := h\<rparr>) \<and> obj_inv h
    \<and> refs h = (refs (aw_heap s))(a := refs (aw_heap s) a - 1) \<and> obj_next h = world_next s"
  using Object_Release_refs [of "aw_heap s" a] assms by (auto simp: heap_op_def refs_pos_iff)

lemma refs_Object_new:
  assumes "obj_inv h"
  shows "refs (snd (Object_new h)) = (refs h)(obj_next h := 1)" and "refs h (obj_next h) = 0"
  using assms by (auto simp: Object_new_def refs_def obj_inv_def fun_eq_iff)

text \<open>Steps that change only flags and kinds of actions.\<close>

definition same_lists :: "aworld \<Rightarrow> aworld \<Rightarrow> bool" where
  "same_lists s s' \<longleftrightarrow> aw_heap s' = aw_heap s \<and> actions_of s' = actions_of s \<and> aw_execs s' = aw_execs s \<and> aw_user s' = aw_user s
    \<and> (\<forall>e. ex_registered (aw_exe s' e) = ex_registered (aw_exe s e)) \<and> aw_visits s' = aw_visits s"

lemma same_lists_linked: "same_lists s s' \<Longrightarrow> linked_act s' = linked_act s"
  by (simp add: same_lists_def linked_act_def fun_eq_iff)

lemma same_lists_inv:
  assumes "same_lists s s'" and "aw_inv d D x s" and "fits_ok d E s'"
  shows "aw_inv d E x s'"
  using assms same_lists_linked [OF assms(1)] unfolding same_lists_def aw_inv_def owned_by_def lists_ok_def by auto

lemma same_lists_evolves:
  assumes "same_lists s s'" and "\<And>a. ac_stopped (aw_act s a) \<Longrightarrow> ac_stopped (aw_act s' a)"
    and "\<And>a. a \<notin> V \<Longrightarrow> ac_kind (aw_act s' a) = ac_kind (aw_act s a)"
  shows "evolves V s s'"
proof -
  have "\<exists>new. (\<forall>a \<in> set new. world_next s \<le> a) \<and> actions_of s' e = new @ filter (linked_act s') (actions_of s e)" for e
    using evolves_refl [of s] assms(1) unfolding evolves_def same_lists_linked [OF assms(1)] by (simp add: same_lists_def)
  then show ?thesis using assms same_lists_linked [OF assms(1)] unfolding evolves_def same_lists_def by auto
qed

text \<open>What running callbacks does: the invariant is kept, the manager's list only gets executors in front, no action is visited.\<close>

definition runs :: "int \<Rightarrow> oid set \<Rightarrow> (oid \<Rightarrow> nat) \<Rightarrow> aworld \<Rightarrow> aworld result \<Rightarrow> bool" where
  "runs d D x s r \<longleftrightarrow> (\<exists>s'. r = Inr s' \<and> aw_inv d D x s' \<and> evolves {} s s' \<and> prepends s s' \<and> aw_visits s' = aw_visits s)"

lemma runs_refl: "aw_inv d D x s \<Longrightarrow> runs d D x s (Inr s)"
  by (auto simp: runs_def evolves_refl prepends_def)

lemma runs_bind:
  assumes "aw_inv d D x s" and "runs d D x s r" and "\<And>s1. r = Inr s1 \<Longrightarrow> aw_inv d D x s1 \<Longrightarrow> runs d D x s1 (f s1)"
  shows "runs d D x s (bindE r f)"
proof -
  obtain s1 where s1: "r = Inr s1" "aw_inv d D x s1" "evolves {} s s1" "prepends s s1" "aw_visits s1 = aw_visits s"
    using assms(2) by (auto simp: runs_def)
  obtain s2 where s2: "f s1 = Inr s2" "aw_inv d D x s2" "evolves {} s1 s2" "prepends s1 s2" "aw_visits s2 = aw_visits s1"
    using assms(3) [OF s1(1,2)] by (auto simp: runs_def)
  have "evolves {} s s2" using evolves_trans [OF s1(3) s2(3)] linked_live(2) [OF assms(1)] by simp
  moreover have "prepends s s2" using s1(4) s2(4) by (auto simp: prepends_def)
  ultimately show ?thesis using s1 s2 by (simp add: runs_def)
qed

lemma runs_same_lists:
  assumes "same_lists s s'" and "aw_inv d D x s" and "\<And>a. ac_stopped (aw_act s a) \<Longrightarrow> ac_stopped (aw_act s' a)"
    and "\<And>a. ac_kind (aw_act s' a) = ac_kind (aw_act s a)"
    and "\<And>e cb. ex_cb_stop (aw_exe s' e) = Some cb \<Longrightarrow> list_all (op_fits d) cb"
  shows "runs d D x s (Inr s')"
proof -
  have "fits_ok d D s'" using assms(2,4,5) same_lists_linked [OF assms(1)] by (simp add: fits_ok_def aw_inv_def)
  then have "aw_inv d D x s'" by (rule same_lists_inv [OF assms(1,2)])
  moreover have "evolves {} s s'" by (rule same_lists_evolves [OF assms(1)]) (use assms in auto)
  ultimately show ?thesis using assms(1) by (auto simp: runs_def prepends_def same_lists_def)
qed

lemma aw_inv_cb: "aw_inv d D x s \<Longrightarrow> ex_cb_stop (aw_exe s e) = Some cb \<Longrightarrow> list_all (op_fits d) cb"
  by (auto simp: aw_inv_def fits_ok_def)

lemma Stop_runs: "aw_inv d D x s \<Longrightarrow> runs d D x s (Inr (ActionBase_Stop a s))"
  by (rule runs_same_lists) (auto simp: same_lists_def ActionBase_Stop_def upd_act_def actions_of_def dest: aw_inv_cb)

lemma foldl_Stop_runs: "aw_inv d D x s \<Longrightarrow> runs d D x s (Inr (foldl (\<lambda>s a. ActionBase_Stop a s) s as))"
proof (induction as arbitrary: s)
  case (Cons a as)
  show ?case using runs_bind [OF Cons.prems Stop_runs [OF Cons.prems, of a], of "\<lambda>s1. Inr (foldl (\<lambda>s a. ActionBase_Stop a s) s1 as)"] Cons.IH by simp
qed (simp add: runs_refl)

lemma StopAll_runs: "aw_inv d D x s \<Longrightarrow> runs d D x s (Inr (Executor_StopAllAction e s))"
  unfolding Executor_StopAllAction_def by (rule foldl_Stop_runs)


text \<open>Running an action: the executor is registered if it was not, and the action stands first in its list.\<close>

definition registers :: "oid \<Rightarrow> oid \<Rightarrow> aworld \<Rightarrow> aworld \<Rightarrow> bool" where
  "registers e a s s' \<longleftrightarrow> actions_of s' = (actions_of s)(e := a # actions_of s e) \<and> aw_user s' = aw_user s \<and> aw_visits s' = aw_visits s \<and>
    aw_execs s' = (if e \<in> set (aw_execs s) then aw_execs s else e # aw_execs s) \<and>
    (\<forall>e'. ex_registered (aw_exe s' e') = (ex_registered (aw_exe s e') \<or> e' = e)) \<and>
    (\<forall>e'. ex_cb_stop (aw_exe s' e') = ex_cb_stop (aw_exe s e'))"

lemma RunAction_result:
  assumes hi: "obj_inv (aw_heap s)" and reg: "ex_registered (aw_exe s e) \<longleftrightarrow> e \<in> set (aw_execs s)" and "e \<noteq> a"
    and re: "0 < refs (aw_heap s) e" "refs (aw_heap s) e < 4294967295" and ra: "refs (aw_heap s) a = 1"
  shows "\<exists>s'. Executor_RunAction e a s = Inr s' \<and> obj_inv (aw_heap s') \<and> world_next s' = world_next s \<and> aw_act s' = aw_act s \<and>
    refs (aw_heap s') = (refs (aw_heap s))(a := 2, e := refs (aw_heap s) e + (if e \<in> set (aw_execs s) then 0 else 1)) \<and>
    registers e a s s'"
proof -
  define t where "t = (if e \<in> set (aw_execs s) then s else upd_exe e (\<lambda>x. x\<lparr>ex_registered := True\<rparr>) s)"
  have "\<exists>h. obj_inv h \<and> obj_next h = world_next s \<and>
      refs h = (refs (aw_heap s))(e := refs (aw_heap s) e + (if e \<in> set (aw_execs s) then 0 else 1)) \<and>
      Executor_RunAction e a s = heap_op (Object_Retain a) (upd_exe e (\<lambda>x. x\<lparr>ex_actions := a # ex_actions x\<rparr>)
        (t\<lparr>aw_heap := h, aw_execs := (if e \<in> set (aw_execs s) then aw_execs s else e # aw_execs s)\<rparr>))"
  proof (cases "e \<in> set (aw_execs s)")
    case True
    then show ?thesis using reg hi by (intro exI [of _ "aw_heap s"]) (simp add: t_def Executor_RunAction_def)
  next
    case False
    have "aw_heap t = aw_heap s" using False by (simp add: t_def upd_exe_def)
    then obtain h where "heap_op (Object_Retain e) t = Inr (t\<lparr>aw_heap := h\<rparr>)" "obj_inv h"
        "refs h = (refs (aw_heap s))(e := refs (aw_heap s) e + 1)" "obj_next h = world_next s"
      using heap_op_Retain [of t e] re hi by (auto simp flip: refs_pos_iff)
    then show ?thesis using False reg
      by (intro exI [of _ h]) (simp add: t_def Executor_RunAction_def ActionManager_RegisterNode_def upd_exe_def)
  qed
  then obtain h where h: "obj_inv h" "obj_next h = world_next s"
      "refs h = (refs (aw_heap s))(e := refs (aw_heap s) e + (if e \<in> set (aw_execs s) then 0 else 1))"
      "Executor_RunAction e a s = heap_op (Object_Retain a) (upd_exe e (\<lambda>x. x\<lparr>ex_actions := a # ex_actions x\<rparr>)
        (t\<lparr>aw_heap := h, aw_execs := (if e \<in> set (aw_execs s) then aw_execs s else e # aw_execs s)\<rparr>))" by blast
  define u where "u = upd_exe e (\<lambda>x. x\<lparr>ex_actions := a # ex_actions x\<rparr>)
        (t\<lparr>aw_heap := h, aw_execs := (if e \<in> set (aw_execs s) then aw_execs s else e # aw_execs s)\<rparr>)"
  have hu: "aw_heap u = h" "refs h a = 1" using h(3) ra assms(3) by (simp_all add: u_def upd_exe_def)
  obtain h2 where h2: "heap_op (Object_Retain a) u = Inr (u\<lparr>aw_heap := h2\<rparr>)" "obj_inv h2" "refs h2 = (refs h)(a := 2)" "obj_next h2 = world_next s"
    using heap_op_Retain [of u a] hu h(1,2) by (auto simp flip: refs_pos_iff simp: numeral_2_eq_2)
  moreover have "registers e a s (u\<lparr>aw_heap := h2\<rparr>)" "aw_act u = aw_act s"
    using reg by (simp_all add: registers_def u_def upd_exe_def t_def actions_of_def fun_eq_iff)
  ultimately show ?thesis using h(3,4) assms(3)
    by (intro exI [of _ "u\<lparr>aw_heap := h2\<rparr>"]) (simp add: u_def fun_upd_twist)
qed

lemma ORun_result:
  assumes inv: "aw_inv d D x s" and held: "0 < aw_user s e"
  defines "n \<equiv> world_next s"
  shows "\<exists>s'. run_op (ORun e tag k) s = Inr s' \<and> obj_inv (aw_heap s') \<and> world_next s' = n + 1 \<and>
    refs (aw_heap s') = (refs (aw_heap s))(n := 1, e := refs (aw_heap s) e + (if e \<in> set (aw_execs s) then 0 else 1)) \<and>
    aw_act s' = (aw_act s)(n := \<lparr>ac_stopped = False, ac_tag = tag, ac_kind = k\<rparr>) \<and> registers e n s s'"
proof -
  have hi: "obj_inv (aw_heap s)" and reg: "ex_registered (aw_exe s e) \<longleftrightarrow> e \<in> set (aw_execs s)"
    using inv by (auto simp: aw_inv_def lists_ok_def)
  have "\<not> linked_act s e" using inv held by (auto simp: aw_inv_def lists_ok_def)
  then have "refs (aw_heap s) e = aw_user s e + (if e \<in> set (aw_execs s) then 1 else 0) + x e" using inv by (simp add: aw_inv_def owned_by_def)
  moreover have "aw_user s e + x e + 4 < 4294967296" using inv by (simp add: aw_inv_def)
  ultimately have re: "0 < refs (aw_heap s) e" "refs (aw_heap s) e < 4294967295" using held by (auto split: if_splits)
  have ne: "e \<noteq> n" using refs_Object_new(2) [OF hi] re(1) by (auto simp: n_def)
  define s1 where "s1 = s\<lparr>aw_heap := snd (Object_new (aw_heap s)), aw_act := (aw_act s)(n := \<lparr>ac_stopped = False, ac_tag = tag, ac_kind = k\<rparr>)\<rparr>"
  have h1: "obj_inv (aw_heap s1)" "refs (aw_heap s1) = (refs (aw_heap s))(n := 1)" "world_next s1 = n + 1"
    using Object_new_inv [OF hi] refs_Object_new(1) [OF hi] by (simp_all add: s1_def n_def Object_new_def)
  have s1: "aw_exe s1 = aw_exe s" "aw_execs s1 = aw_execs s" "actions_of s1 = actions_of s" "aw_user s1 = aw_user s" "aw_visits s1 = aw_visits s"
      "aw_act s1 = (aw_act s)(n := \<lparr>ac_stopped = False, ac_tag = tag, ac_kind = k\<rparr>)"
    by (simp_all add: s1_def actions_of_def fun_eq_iff)
  obtain s2 where s2: "Executor_RunAction e n s1 = Inr s2" "obj_inv (aw_heap s2)" "world_next s2 = n + 1" "aw_act s2 = aw_act s1"
      "refs (aw_heap s2) = (refs (aw_heap s))(n := 2, e := refs (aw_heap s) e + (if e \<in> set (aw_execs s) then 0 else 1))" "registers e n s1 s2"
    using RunAction_result [of s1 e n] h1 s1 reg ne re by auto
  then obtain h where h: "heap_op (Object_Release n) s2 = Inr (s2\<lparr>aw_heap := h\<rparr>)" "obj_inv h" "obj_next h = n + 1"
      "refs h = (refs (aw_heap s2))(n := 1)"
    using heap_op_Release [of s2 n] ne by auto
  have "run_op (ORun e tag k) s = Inr (s2\<lparr>aw_heap := h\<rparr>)"
    using held s2(1) h(1) by (simp add: s1_def n_def Object_new_def)
  moreover have "registers e n s (s2\<lparr>aw_heap := h\<rparr>)" using s2(6) s1 by (simp add: registers_def actions_of_def fun_eq_iff)
  ultimately show ?thesis using h s2 s1(6) ne
    by (intro exI [of _ "s2\<lparr>aw_heap := h\<rparr>"]) (simp add: fun_eq_iff)
qed


lemma registers_linked: "registers e n s s' \<Longrightarrow> linked_act s' a \<longleftrightarrow> a = n \<or> linked_act s a"
  by (auto simp: registers_def linked_act_def split: if_splits)

lemma registers_evolves:
  assumes "registers e n s s'" and "world_next s = n" and "world_next s' = n + 1" and "0 < aw_user s e" and "aw_act s' = (aw_act s)(n := k)"
  shows "evolves {} s s'"
proof -
  have "filter (linked_act s') (actions_of s e') = actions_of s e'" for e'
    using registers_linked [OF assms(1)] by (auto simp: linked_act_def intro!: filter_True)
  then have "\<exists>new. (\<forall>a \<in> set new. world_next s \<le> a) \<and> actions_of s' e' = new @ filter (linked_act s') (actions_of s e')" for e'
    using assms(1,2) by (intro exI [of _ "if e' = e then [n] else []"]) (auto simp: registers_def)
  then show ?thesis using assms registers_linked [OF assms(1)] unfolding evolves_def by (simp add: registers_def)
qed

lemma ORun_runs:
  assumes inv: "aw_inv d D x s" and held: "0 < aw_user s e" and fits: "kind_fits d k"
  shows "runs d D x s (run_op (ORun e tag k) s)"
proof -
  define n where "n = world_next s"
  obtain s' where s': "run_op (ORun e tag k) s = Inr s'" "obj_inv (aw_heap s')" "world_next s' = n + 1"
    "refs (aw_heap s') = (refs (aw_heap s))(n := 1, e := refs (aw_heap s) e + (if e \<in> set (aw_execs s) then 0 else 1))"
    "aw_act s' = (aw_act s)(n := \<lparr>ac_stopped = False, ac_tag = tag, ac_kind = k\<rparr>)" and rg: "registers e n s s'"
    using ORun_result [OF inv held] unfolding n_def by blast
  note lk = registers_linked [OF rg]
  have own: "refs (aw_heap s) a = aw_user s a + (if a \<in> set (aw_execs s) then 1 else 0) + (if linked_act s a then 1 else 0) + x a" for a
    using inv by (simp add: aw_inv_def owned_by_def)
  have "refs (aw_heap s) n = 0" using inv refs_Object_new(2) by (auto simp: aw_inv_def n_def)
  then have n: "aw_user s n = 0" "n \<notin> set (aw_execs s)" "\<not> linked_act s n" "x n = 0" using own [of n] by (auto split: if_splits)
  have ne: "e \<noteq> n" "\<not> linked_act s e" using n held inv by (auto simp: aw_inv_def lists_ok_def)
  have "owned_by x s'" unfolding owned_by_def
  proof
    fix a show "refs (aw_heap s') a = aw_user s' a + (if a \<in> set (aw_execs s') then 1 else 0) + (if linked_act s' a then 1 else 0) + x a"
      using own [of a] n ne rg by (auto simp: s'(4) lk registers_def)
  qed
  moreover have "lists_ok s'"
    using inv n ne rg lk held unfolding aw_inv_def lists_ok_def registers_def by (auto simp: linked_act_def)
  moreover have "fits_ok d D s'"
    using inv fits n rg unfolding aw_inv_def fits_ok_def by (simp add: s'(5) lk registers_def)
  ultimately have "aw_inv d D x s'" using inv rg s'(2) by (simp add: aw_inv_def registers_def)
  moreover have "evolves {} s s'" by (rule registers_evolves [OF rg _ s'(3) held s'(5)]) (simp add: n_def)
  moreover have "prepends s s'" "aw_visits s' = aw_visits s" using rg by (auto simp: prepends_def registers_def)
  ultimately show ?thesis using s'(1) by (simp add: runs_def)
qed

text \<open>Giving up a reference that the running code holds.\<close>

lemma Executor_Release_runs:
  assumes inv: "aw_inv d D (x(e := x e + 1)) s"
  shows "runs d D x s (Executor_Release e s)"
proof -
  have "0 < refs (aw_heap s) e" using inv by (auto simp: aw_inv_def owned_by_def)
  then obtain h where h: "heap_op (Object_Release e) s = Inr (s\<lparr>aw_heap := h\<rparr>)" "obj_inv h"
      "refs h = (refs (aw_heap s))(e := refs (aw_heap s) e - 1)" "obj_next h = world_next s"
    using heap_op_Release inv by (meson aw_inv_def)
  define s1 where "s1 = s\<lparr>aw_heap := h\<rparr>"
  have s1: "aw_heap s1 = h" "aw_act s1 = aw_act s" "aw_exe s1 = aw_exe s" "aw_execs s1 = aw_execs s" "aw_user s1 = aw_user s"
      "aw_visits s1 = aw_visits s" "actions_of s1 = actions_of s" "linked_act s1 = linked_act s"
    by (simp_all add: s1_def linked_act_def actions_of_def fun_eq_iff)
  have "owned_by x s1" using inv h(3) unfolding aw_inv_def owned_by_def s1 by auto
  moreover have "\<forall>a. aw_user s a + x a + 4 < 4294967296"
  proof
    fix a have "aw_user s a + (x(e := x e + 1)) a + 4 < 4294967296" using inv by (simp only: aw_inv_def)
    then show "aw_user s a + x a + 4 < 4294967296" by (cases "a = e") simp_all
  qed
  ultimately have i1: "aw_inv d D x s1" using inv h(2) unfolding aw_inv_def lists_ok_def fits_ok_def s1 by simp
  have "evolves {} s s1" using evolves_refl [of s] h(4) unfolding evolves_def s1 by simp
  then have "runs d D x s (Inr s1)" using i1 by (simp add: runs_def prepends_def s1)
  moreover have "runs d D x s1 (Inr (Executor_StopAllAction e s1))" by (rule StopAll_runs [OF i1])
  moreover have "aw_inv d D x s1 \<Longrightarrow> True" by simp
  moreover have "linked_act s a \<Longrightarrow> a < world_next s" for a by (rule linked_live(2) [OF inv])
  ultimately have "runs d D x s (Inr (Executor_StopAllAction e s1))"
    using evolves_trans [of "{}" s s1 "{}"] by (auto simp: runs_def prepends_def)
  then show ?thesis using h(1) \<open>runs d D x s (Inr s1)\<close> by (simp add: Executor_Release_def s1_def)
qed

lemma ORelease_runs:
  assumes inv: "aw_inv d D x s" and held: "0 < aw_user s e"
  shows "runs d D x s (run_op (ORelease e) s)"
proof -
  define t where "t = s\<lparr>aw_user := (aw_user s)(e := aw_user s e - 1)\<rparr>"
  have t: "aw_heap t = aw_heap s" "aw_act t = aw_act s" "aw_exe t = aw_exe s" "aw_execs t = aw_execs s" "aw_user t = (aw_user s)(e := aw_user s e - 1)"
      "aw_visits t = aw_visits s" "actions_of t = actions_of s" "linked_act t = linked_act s"
    by (simp_all add: t_def linked_act_def actions_of_def fun_eq_iff)
  have "owned_by (x(e := x e + 1)) t" using inv held unfolding aw_inv_def owned_by_def t by auto
  moreover have "\<forall>a. aw_user t a + (x(e := x e + 1)) a + 4 < 4294967296" using inv held unfolding aw_inv_def t by auto
  ultimately have it: "aw_inv d D (x(e := x e + 1)) t" using inv unfolding aw_inv_def lists_ok_def fits_ok_def t by auto
  have "evolves {} s t" using evolves_refl [of s] unfolding evolves_def t by auto
  moreover have "linked_act s a \<Longrightarrow> a < world_next s" for a by (rule linked_live(2) [OF inv])
  ultimately show ?thesis
    using Executor_Release_runs [OF it] evolves_trans [of "{}" s t "{}"] held t by (auto simp: runs_def prepends_def t_def)
qed

lemma OBeginStop_runs:
  assumes inv: "aw_inv d D x s" and fits: "list_all (op_fits d) cb"
  shows "runs d D x s (Inr (Executor_StopAllAction e (upd_exe e (\<lambda>x. x\<lparr>ex_cb_stop := Some cb\<rparr>) s)))"
proof -
  define t where "t = upd_exe e (\<lambda>x. x\<lparr>ex_cb_stop := Some cb\<rparr>) s"
  have "runs d D x s (Inr t)"
    by (rule runs_same_lists [OF _ inv])
       (use fits inv in \<open>auto simp: t_def same_lists_def upd_exe_def actions_of_def fun_eq_iff aw_inv_def fits_ok_def split: if_splits\<close>)
  from runs_bind [OF inv this, of "\<lambda>s1. Inr (Executor_StopAllAction e s1)"] StopAll_runs show ?thesis by (simp add: t_def)
qed

lemma run_ops_runs:
  "aw_inv d D x s \<Longrightarrow> op_fits d p \<Longrightarrow> runs d D x s (run_op p s)"
  "aw_inv d D x s \<Longrightarrow> list_all (op_fits d) ps \<Longrightarrow> runs d D x s (run_ops ps s)"
proof (induction p s and ps s rule: run_op_run_ops.induct)
  case (1 e tag k s)
  show ?case
  proof (cases "0 < aw_user s e")
    case True
    then show ?thesis using ORun_runs [OF 1(1)] 1(2) by (simp del: run_op.simps)
  qed (simp add: runs_refl [OF 1(1)])
next
  case (2 e tag s)
  then show ?case by (auto intro: runs_refl Stop_runs split: option.splits)
next
  case (3 e s)
  then show ?case by (auto intro: runs_refl StopAll_runs)
next
  case (4 e cb s)
  then show ?case by (auto intro: runs_refl OBeginStop_runs)
next
  case (5 e s)
  show ?case
  proof (cases "0 < aw_user s e")
    case True
    then show ?thesis by (rule ORelease_runs [OF 5(1)])
  qed (simp add: runs_refl [OF 5(1)])
next
  case (6 s)
  then show ?case by (simp add: runs_refl)
next
  case (7 p ps s)
  then show ?case by (auto intro!: runs_bind)
qed


section \<open>Updating one action\<close>

lemma set_kind_step:
  assumes "aw_inv d D x s"
  shows "aw_inv d (insert a D) x (set_kind a k s)" and "evolves {a} s (set_kind a k s)" and "same_lists s (set_kind a k s)"
proof -
  show sl: "same_lists s (set_kind a k s)" by (simp add: same_lists_def set_kind_def upd_act_def actions_of_def fun_eq_iff)
  have "fits_ok d (insert a D) (set_kind a k s)"
    using assms same_lists_linked [OF sl] by (auto simp: aw_inv_def fits_ok_def set_kind_def upd_act_def)
  then show "aw_inv d (insert a D) x (set_kind a k s)" by (rule same_lists_inv [OF sl assms])
  show "evolves {a} s (set_kind a k s)" by (rule same_lists_evolves [OF sl]) (auto simp: set_kind_def upd_act_def)
qed

lemma aw_inv_mono: "aw_inv d D x s \<Longrightarrow> D \<subseteq> E \<Longrightarrow> aw_inv d E x s"
  by (auto simp: aw_inv_def fits_ok_def)

text \<open>What \<open>OnUpdate\<close> promises of the action \<open>a\<close>: it is still linked, and if it is not done its times are in range.\<close>

definition updated :: "int \<Rightarrow> oid \<Rightarrow> (oid \<Rightarrow> nat) \<Rightarrow> aworld \<Rightarrow> aworld result \<Rightarrow> bool" where
  "updated d a x s r \<longleftrightarrow> (\<exists>s'. r = Inr s' \<and> aw_inv d {a} x s' \<and> evolves {a} s s' \<and> prepends s s' \<and> aw_visits s' = aw_visits s \<and>
     linked_act s' a \<and> (Action_IsDone a s' \<or> kind_fits d (ac_kind (aw_act s' a))))"

lemma set_kind_updated:
  assumes inv: "aw_inv d {} x s" and lk: "linked_act s a" and fits: "list_all (op_fits d) cb"
    and ok: "Action_IsDone a (set_kind a k s) \<or> kind_fits d k"
  shows "updated d a x s (run_ops cb (set_kind a k s))"
proof -
  define s1 where "s1 = set_kind a k s"
  note st = set_kind_step [OF inv, of a k, folded s1_def]
  obtain s2 where s2: "run_ops cb s1 = Inr s2" "aw_inv d {a} x s2" "evolves {} s1 s2" "prepends s1 s2" "aw_visits s2 = aw_visits s1"
    using run_ops_runs(2) [OF st(1) fits] by (auto simp: runs_def)
  have l1: "linked_act s1 a" "a < world_next s1" using lk same_lists_linked [OF st(3)] linked_live(2) [OF st(1)] by simp_all
  have k: "ac_kind (aw_act s1 a) = k" "ac_kind (aw_act s2 a) = k" "linked_act s2 a"
    using s2(3) l1 by (simp_all add: evolves_def s1_def set_kind_def upd_act_def)
  have "evolves {a} s s2" using evolves_trans [OF st(2) s2(3)] linked_live(2) [OF inv] by simp
  then show ?thesis using s2 k ok st(3) unfolding updated_def s1_def [symmetric]
    by (auto simp: Action_IsDone_def prepends_def same_lists_def)
qed

lemma OnUpdate_updated:
  assumes inv: "aw_inv d {} x s" and lk: "linked_act s a" and span: "0 \<le> span" "d + span < 2147483648"
  shows "updated d a x s (Action_OnUpdate span a s)"
proof -
  have fits: "kind_fits d (ac_kind (aw_act s a))" using inv lk by (simp add: aw_inv_def fits_ok_def)
  note upd = set_kind_updated [OF inv lk]
  show ?thesis
  proof (cases "ac_kind (aw_act s a)")
    case (NextCall executed cb)
    show ?thesis
    proof (cases executed)
      case True
      then show ?thesis using NextCall aw_inv_mono [OF inv, of "{a}"] lk evolves_refl [of s]
        by (auto simp: updated_def OnUpdate_defs Action_IsDone_def prepends_def evolves_def)
    next
      case False
      obtain s1 where s1: "run_ops cb s = Inr s1" "aw_inv d {} x s1" "evolves {} s s1" "prepends s s1" "aw_visits s1 = aw_visits s"
        using run_ops_runs(2) [OF inv] fits NextCall by (auto simp: runs_def)
      note st = set_kind_step [OF s1(2), of a "NextCall True cb"]
      have l1: "linked_act s1 a" using s1(3) lk linked_live(2) [OF inv lk] by (simp add: evolves_def)
      have "evolves {a} s (set_kind a (NextCall True cb) s1)" using evolves_trans [OF s1(3) st(2)] linked_live(2) [OF inv] by simp
      then show ?thesis using s1 st l1 NextCall False same_lists_linked [OF st(3)]
        by (auto simp: updated_def OnUpdate_defs Action_IsDone_def prepends_def same_lists_def set_kind_def upd_act_def)
    qed
  next
    case (Timeout delay acc cb)
    have "add32 acc span = Inr (acc + span)" using fits Timeout span by (simp add: add32_def)
    then show ?thesis using Timeout fits span upd [of cb "Timeout delay (acc + span) cb"] upd [of "[]" "Timeout delay (acc + span) cb"]
      by (auto simp: OnUpdate_defs Let_def Action_IsDone_def set_kind_def upd_act_def)
  next
    case (Interval interval acc cbs)
    have "add32 acc span = Inr (acc + span)" using fits Interval span by (simp add: add32_def)
    then show ?thesis using Interval fits span upd [of "hd cbs" "Interval interval 0 (tl cbs)"] upd [of "[]" "Interval interval 0 []"]
        upd [of "[]" "Interval interval (acc + span) cbs"]
      by (auto simp: OnUpdate_defs Action_IsDone_def set_kind_def upd_act_def split: list.splits)
  qed
qed

lemma erase_action_step:
  assumes inv: "aw_inv d {a} x s" and mem: "a \<in> set (actions_of s e)"
  shows "\<exists>s'. erase_action e a s = Inr s' \<and> aw_inv d {} x s' \<and> evolves {a} s s' \<and> aw_execs s' = aw_execs s \<and> aw_visits s' = aw_visits s \<and>
    aw_act s' = aw_act s \<and> actions_of s' e = remove1 a (actions_of s e) \<and> \<not> linked_act s' a"
proof -
  have lk: "linked_act s a" using mem by (auto simp: linked_act_def)
  define t where "t = upd_exe e (\<lambda>x. x\<lparr>ex_actions := remove1 a (ex_actions x)\<rparr>) s"
  have t: "aw_heap t = aw_heap s" by (simp add: t_def upd_exe_def)
  have "0 < refs (aw_heap s) a" using inv lk by (auto simp: aw_inv_def owned_by_def)
  then obtain h where h: "heap_op (Object_Release a) t = Inr (t\<lparr>aw_heap := h\<rparr>)" "obj_inv h"
      "refs h = (refs (aw_heap s))(a := refs (aw_heap s) a - 1)" "obj_next h = world_next s"
    using heap_op_Release [of t a] inv t by (auto simp: aw_inv_def)
  define s' where "s' = t\<lparr>aw_heap := h\<rparr>"
  have s': "aw_heap s' = h" "aw_act s' = aw_act s" "aw_execs s' = aw_execs s" "aw_user s' = aw_user s" "aw_visits s' = aw_visits s"
      "\<And>e'. ex_registered (aw_exe s' e') = ex_registered (aw_exe s e')" "\<And>e'. ex_cb_stop (aw_exe s' e') = ex_cb_stop (aw_exe s e')"
    by (simp_all add: s'_def t_def upd_exe_def)
  have lists: "lists_ok s" using inv by (simp add: aw_inv_def)
  have act: "actions_of s' e' = filter (\<lambda>b. a \<noteq> b) (actions_of s e')" for e'
  proof (cases "e' = e")
    case True
    then show ?thesis using lists by (auto simp: lists_ok_def s'_def t_def upd_exe_def actions_of_def distinct_remove1_removeAll removeAll_filter_not_eq)
  next
    case False
    then have "a \<notin> set (actions_of s e')" using lists mem by (auto simp: lists_ok_def)
    then have "filter (\<lambda>b. a \<noteq> b) (actions_of s e') = actions_of s e'" by (auto intro: filter_True)
    then show ?thesis using False by (simp add: s'_def t_def upd_exe_def actions_of_def)
  qed
  have lk': "linked_act s' b \<longleftrightarrow> linked_act s b \<and> b \<noteq> a" for b by (auto simp: linked_act_def act)
  have "owned_by x s'" using inv h(3) lk unfolding aw_inv_def owned_by_def s' lk' by auto
  moreover have "lists_ok s'" using lists unfolding lists_ok_def s' lk' act by (auto simp: s') (metis filter.simps(1))
  moreover have "fits_ok d {} s'" using inv unfolding aw_inv_def fits_ok_def s' lk' by auto
  ultimately have "aw_inv d {} x s'" using inv h(2) by (simp add: aw_inv_def s')
  moreover have "actions_of s' e' = [] @ filter (linked_act s') (actions_of s e')" for e'
    unfolding act by (auto simp: lk' intro!: filter_cong dest: linked_actI)
  then have "evolves {a} s s'" unfolding evolves_def using h(4) by (fastforce simp: s' lk')
  moreover have "actions_of s' e = remove1 a (actions_of s e)" by (simp add: s'_def t_def upd_exe_def actions_of_def)
  ultimately show ?thesis using h(1) lk' by (auto simp: erase_action_def s'_def [symmetric] t_def [symmetric] s')
qed


section \<open>The loop over the actions\<close>

text \<open>An action the loop has visited: it is gone if it was stopped or done, and otherwise it is not done.\<close>

definition settled :: "aworld \<Rightarrow> oid \<Rightarrow> bool" where
  "settled s a \<longleftrightarrow> (if linked_act s a then \<not> Action_IsDone a s else ac_stopped (aw_act s a) \<or> Action_IsDone a s)"

lemma settled_evolves:
  assumes "settled s a" and "evolves V s s'" and "a \<notin> V" and "a < world_next s"
  shows "settled s' a"
proof -
  have "ac_kind (aw_act s' a) = ac_kind (aw_act s a)" "linked_act s a \<Longrightarrow> linked_act s' a" "ac_stopped (aw_act s a) \<Longrightarrow> ac_stopped (aw_act s' a)"
    using assms by (auto simp: evolves_def)
  then show ?thesis using assms(1) evolves_linked [OF assms(2) _ assms(4)] by (auto simp: settled_def Action_IsDone_def split: if_splits)
qed

lemma next_of_append: "a \<notin> set pre \<Longrightarrow> next_of a (pre @ a # suf) = front suf"
  by (induction pre) auto

lemma front_Cons: "front (a # as) = Some a" "front [] = None"
  by (simp_all add: front_def)

lemma unvisited_kept:
  assumes inv: "aw_inv d D x s" and ev: "evolves V s s'" and V: "\<And>a. a \<in> set (actions_of s e) \<Longrightarrow> a \<in> V \<Longrightarrow> linked_act s' a"
  shows "\<exists>new. (\<forall>a \<in> set new. world_next s \<le> a) \<and> actions_of s' e = new @ actions_of s e"
proof -
  have "linked_act s' a" if "a \<in> set (actions_of s e)" for a
  proof (cases "a \<in> V")
    case False
    have "linked_act s a" using that by (auto simp: linked_act_def)
    then show ?thesis using ev False linked_live(2) [OF inv] by (simp add: evolves_def)
  qed (use V that in simp)
  then have "filter (linked_act s') (actions_of s e) = actions_of s e" by (simp add: filter_id_conv)
  then show ?thesis using ev unfolding evolves_def by metis
qed

text \<open>One turn of the loop.\<close>

definition visited :: "int \<Rightarrow> (oid \<Rightarrow> nat) \<Rightarrow> oid \<Rightarrow> oid list \<Rightarrow> oid \<Rightarrow> aworld \<Rightarrow> aworld \<Rightarrow> bool" where
  "visited d x e suf a s s1 \<longleftrightarrow> aw_inv d {} x s1 \<and> evolves {a} s s1 \<and> prepends s s1 \<and> aw_visits s1 = aw_visits s @ [a] \<and>
     settled s1 a \<and> (\<exists>pre. actions_of s1 e = pre @ suf)"

lemma erase_visited:
  assumes inv: "aw_inv d {a} x s" and act: "actions_of s e = pre @ a # suf" and gone: "ac_stopped (aw_act s a) \<or> Action_IsDone a s"
  shows "\<exists>s1. erase_action e a s = Inr s1 \<and> aw_inv d {} x s1 \<and> evolves {a} s s1 \<and> prepends s s1 \<and> aw_visits s1 = aw_visits s \<and> settled s1 a \<and> (\<exists>pre. actions_of s1 e = pre @ suf)"
proof -
  have "a \<in> set (actions_of s e)" using act by simp
  from erase_action_step [OF inv this] obtain s1 where s1: "erase_action e a s = Inr s1" "aw_inv d {} x s1" "evolves {a} s s1"
      "aw_execs s1 = aw_execs s" "aw_visits s1 = aw_visits s" "aw_act s1 = aw_act s" "actions_of s1 e = remove1 a (actions_of s e)" "\<not> linked_act s1 a" by blast
  have "distinct (actions_of s e)" using inv by (simp add: aw_inv_def lists_ok_def)
  then have "actions_of s1 e = pre @ suf" using s1(7) act by (auto simp: remove1_append)
  then show ?thesis using s1 gone by (auto simp: settled_def Action_IsDone_def prepends_def)
qed

lemma action_loop_turn:
  assumes inv: "aw_inv d {} x s0" and act: "actions_of s0 e = pre @ a # suf" and span: "0 \<le> span" "d + span < 2147483648"
  shows "\<exists>s1. action_loop (Suc n) span e (Some a) s0 = action_loop n span e (front suf) s1 \<and> visited d x e suf a s0 s1"
proof -
  define s where "s = s0\<lparr>aw_visits := aw_visits s0 @ [a]\<rparr>"
  have s: "aw_heap s = aw_heap s0" "aw_act s = aw_act s0" "aw_exe s = aw_exe s0" "aw_execs s = aw_execs s0" "aw_user s = aw_user s0"
      "actions_of s = actions_of s0" "linked_act s = linked_act s0" "aw_visits s = aw_visits s0 @ [a]"
    by (simp_all add: s_def actions_of_def linked_act_def fun_eq_iff)
  have inv': "aw_inv d {} x s" using inv unfolding aw_inv_def owned_by_def lists_ok_def fits_ok_def s by simp
  have mem: "a \<in> set (actions_of s e)" "linked_act s a" using act s(6) linked_actI [of a s e] by simp_all
  have ev0: "evolves V s s' \<Longrightarrow> evolves V s0 s'" "prepends s s' \<Longrightarrow> prepends s0 s'" for V s'
    unfolding evolves_def prepends_def s by simp_all
  obtain r where r: "Object_reference_count a (aw_heap s) = Inr r" using linked_live(1) [OF inv' mem(2)] by (auto simp: Object_reference_count_def)
  have loop: "action_loop (Suc n) span e (Some a) s0 = (if ac_stopped (aw_act s a)
        then bindE (erase_action e a s) (action_loop n span e (next_of a (actions_of s e)))
        else bindE (Action_OnUpdate span a s) (\<lambda>s1.
               bindE (if ac_stopped (aw_act s1 a) \<or> Action_IsDone a s1 then erase_action e a s1 else Inr s1)
                 (action_loop n span e (next_of a (actions_of s1 e)))))"
    using r by (simp add: s_def [symmetric] actions_of_def)
  show ?thesis
  proof (cases "ac_stopped (aw_act s a)")
    case True
    obtain s1 where "erase_action e a s = Inr s1" "aw_inv d {} x s1" "evolves {a} s s1" "prepends s s1" "aw_visits s1 = aw_visits s" "settled s1 a"
        "\<exists>pre. actions_of s1 e = pre @ suf"
      using erase_visited [OF aw_inv_mono [OF inv'], of a e pre suf] act s(6) True by auto
    moreover have "next_of a (actions_of s e) = front suf" using act s(6) aw_inv_distinct [OF inv', of e] by (auto intro: next_of_append)
    ultimately show ?thesis unfolding loop using True ev0 s(8) by (auto simp: visited_def)
  next
    case False
    obtain s1 where s1: "Action_OnUpdate span a s = Inr s1" "aw_inv d {a} x s1" "evolves {a} s s1" "prepends s s1" "aw_visits s1 = aw_visits s"
        "linked_act s1 a" "Action_IsDone a s1 \<or> kind_fits d (ac_kind (aw_act s1 a))"
      using OnUpdate_updated [OF inv' mem(2) span] by (auto simp: updated_def)
    obtain new where new: "actions_of s1 e = new @ actions_of s e" using unvisited_kept [OF inv' s1(3)] s1(6) by auto
    then have act1: "actions_of s1 e = (new @ pre) @ a # suf" using act s(6) by simp
    have nx: "next_of a (actions_of s1 e) = front suf" using act1 aw_inv_distinct [OF s1(2), of e] next_of_append [of a "new @ pre" suf] by auto
    show ?thesis
    proof (cases "ac_stopped (aw_act s1 a) \<or> Action_IsDone a s1")
      case True
      then obtain s2 where s2: "erase_action e a s1 = Inr s2" "aw_inv d {} x s2" "evolves {a} s1 s2" "prepends s1 s2" "aw_visits s2 = aw_visits s1" "settled s2 a"
          "\<exists>pre. actions_of s2 e = pre @ suf"
        using erase_visited [OF s1(2) act1] by blast
      have "evolves {a} s0 s2" using evolves_trans [OF s1(3) s2(3)] linked_live(2) [OF inv'] ev0(1) by simp
      moreover have "prepends s0 s2" using s1(4) s2(4) s(4) by (auto simp: prepends_def)
      ultimately show ?thesis unfolding loop using False True s1(1,5) s2 nx s(8) by (auto simp: visited_def)
    next
      case nd: False
      then have "aw_inv d {} x s1" using s1(2,7) by (auto simp: aw_inv_def fits_ok_def)
      moreover have "actions_of s1 e = (new @ pre @ [a]) @ suf" using act1 by simp
      moreover have "settled s1 a" using nd s1(6) by (simp add: settled_def)
      ultimately show ?thesis unfolding loop using False nd s1 nx s(8) ev0 unfolding visited_def by (intro exI [of _ s1]) auto
    qed
  qed
qed

lemma action_loop_visits:
  assumes "aw_inv d {} x s" and "actions_of s e = pre @ suf" and "length suf \<le> n" and span: "0 \<le> span" "d + span < 2147483648"
  shows "\<exists>s'. action_loop n span e (front suf) s = Inr s' \<and> aw_inv d {} x s' \<and> evolves (set suf) s s' \<and> prepends s s' \<and>
    aw_visits s' = aw_visits s @ suf \<and> (\<forall>a \<in> set suf. settled s' a)"
  using assms(1-3)
proof (induction suf arbitrary: n s pre)
  case Nil
  then show ?case by (auto simp: front_Cons evolves_refl prepends_def)
next
  case (Cons a suf)
  then obtain m where n: "n = Suc m" "length suf \<le> m" by (cases n) auto
  obtain s1 where s1: "action_loop n span e (Some a) s = action_loop m span e (front suf) s1" and v: "visited d x e suf a s s1"
    using action_loop_turn [OF Cons.prems(1,2) span] unfolding n(1) by blast
  obtain pre1 where "actions_of s1 e = pre1 @ suf" using v by (auto simp: visited_def)
  then obtain s' where s': "action_loop m span e (front suf) s1 = Inr s'" "aw_inv d {} x s'" "evolves (set suf) s1 s'" "prepends s1 s'"
      "aw_visits s' = aw_visits s1 @ suf" "\<forall>a \<in> set suf. settled s' a"
    using Cons.IH [of s1 pre1 m] n(2) v by (auto simp: visited_def)
  have lk: "linked_act s a" "a \<notin> set suf" using linked_actI [of a s e] aw_inv_distinct [OF Cons.prems(1), of e] Cons.prems(2) by auto
  have "a < world_next s1" using linked_live(2) [OF Cons.prems(1) lk(1)] v by (simp add: visited_def evolves_def)
  then have "settled s' a" using settled_evolves [OF _ s'(3) lk(2)] v by (simp add: visited_def)
  moreover have "evolves (set (a # suf)) s s'"
    using evolves_trans [OF _ s'(3)] v linked_live(2) [OF Cons.prems(1)] by (force simp: visited_def)
  moreover have "prepends s s'" using s'(4) v by (auto simp: visited_def prepends_def)
  ultimately show ?case using s1 s' v by (auto simp: front_Cons visited_def)
qed


section \<open>The loop over the executors\<close>

text \<open>One turn: the actions of the executor are visited, all of them, and the cursor stands at what was the next executor.\<close>

definition frame_inv :: "int \<Rightarrow> aworld \<Rightarrow> bool" where
  "frame_inv d s \<longleftrightarrow> aw_inv d {} (\<lambda>_. 0) s \<and> (\<forall>a. aw_user s a + 8 < 4294967296)"

definition served :: "int \<Rightarrow> oid \<Rightarrow> oid list \<Rightarrow> aworld \<Rightarrow> aworld \<Rightarrow> bool" where
  "served d e rest s s1 \<longleftrightarrow> frame_inv d s1 \<and> evolves (set (actions_of s e)) s s1 \<and> aw_visits s1 = aw_visits s @ actions_of s e \<and>
     (\<forall>a \<in> set (actions_of s e). settled s1 a) \<and> (\<exists>pre. aw_execs s1 = pre @ rest)"

lemma frame_inv_evolves: "frame_inv d s \<Longrightarrow> evolves V s s1 \<Longrightarrow> aw_inv d {} (\<lambda>_. 0) s1 \<Longrightarrow> frame_inv d s1"
  unfolding frame_inv_def evolves_def by (metis add_le_cancel_right order_le_less_trans)

lemma finish_pending:
  assumes inv: "frame_inv d s" and mem: "e \<in> set (aw_execs s)" and none: "actions_of s e = []"
  defines "t \<equiv> (upd_exe e (\<lambda>x. x\<lparr>ex_registered := False\<rparr>) (s\<lparr>aw_execs := remove1 e (aw_execs s)\<rparr>))\<lparr>aw_finished := aw_finished s @ [e]\<rparr>"
  shows "aw_inv d {} ((\<lambda>_. 0)(e := 1)) t" and "evolves {} s t"
proof -
  have t: "aw_heap t = aw_heap s" "aw_act t = aw_act s" "aw_execs t = remove1 e (aw_execs s)" "aw_user t = aw_user s" "actions_of t = actions_of s"
      "linked_act t = linked_act s" "\<And>e'. ex_registered (aw_exe t e') = (ex_registered (aw_exe s e') \<and> e' \<noteq> e)"
      "\<And>e'. ex_cb_stop (aw_exe t e') = ex_cb_stop (aw_exe s e')"
    by (auto simp: t_def upd_exe_def actions_of_def linked_act_def fun_eq_iff)
  have i: "aw_inv d {} (\<lambda>_. 0) s" "\<forall>a. aw_user s a + 8 < 4294967296" using inv by (simp_all add: frame_inv_def)
  have d: "distinct (aw_execs s)" using i(1) by (simp add: aw_inv_def lists_ok_def)
  have "owned_by ((\<lambda>_. 0)(e := 1)) t" using i(1) d mem unfolding aw_inv_def owned_by_def t by (auto simp: set_remove1_eq)
  moreover have "lists_ok t" using i(1) d none unfolding aw_inv_def lists_ok_def t by (auto simp: set_remove1_eq)
  moreover have "fits_ok d {} t" using i(1) unfolding aw_inv_def fits_ok_def t by auto
  moreover have "aw_user s a + ((\<lambda>_. 0)(e := 1)) a + 4 < 4294967296" for a using i(2) [rule_format, of a] by (cases "a = e") simp_all
  ultimately show "aw_inv d {} ((\<lambda>_. 0)(e := 1)) t" using i(1) by (simp add: aw_inv_def t)
  show "evolves {} s t" using evolves_refl [of s] d unfolding evolves_def t by (auto simp: set_remove1_eq)
qed

lemma executor_finish_turn:
  assumes inv: "frame_inv d s" and ex: "aw_execs s = pre @ e # rest" and none: "actions_of s e = []"
  shows "\<exists>s1. executor_loop (Suc n) span (Some e) s = executor_loop n span (front rest) s1 \<and> served d e rest s s1"
proof -
  let ?x = "(\<lambda>_. 0)(e := 1) :: oid \<Rightarrow> nat"
  define t where "t = (upd_exe e (\<lambda>x. x\<lparr>ex_registered := False\<rparr>) (s\<lparr>aw_execs := remove1 e (aw_execs s)\<rparr>))\<lparr>aw_finished := aw_finished s @ [e]\<rparr>"
  have mem: "e \<in> set (aw_execs s)" using ex by simp
  note p = finish_pending [OF inv mem none, folded t_def]
  have i: "aw_inv d {} (\<lambda>_. 0) s" using inv by (simp add: frame_inv_def)
  then have d: "distinct (aw_execs s)" by (simp add: aw_inv_def lists_ok_def)
  have "runs d {} ?x t (Executor_OnAllActionFinish e (s\<lparr>aw_execs := remove1 e (aw_execs s)\<rparr>))"
    using runs_refl [OF p(1)] run_ops_runs(2) [OF p(1)] aw_inv_cb [OF p(1)]
    by (auto simp: Executor_OnAllActionFinish_def Let_def t_def split: option.splits)
  then have "runs d {} ?x t (Executor_OnAllActionFinish e (s\<lparr>aw_execs := remove1 e (aw_execs s)\<rparr>))" .
  then obtain s1 where s1: "Executor_OnAllActionFinish e (s\<lparr>aw_execs := remove1 e (aw_execs s)\<rparr>) = Inr s1" "aw_inv d {} ?x s1" "evolves {} t s1" "prepends t s1" "aw_visits s1 = aw_visits t"
    by (auto simp: runs_def)
  have "aw_inv d {} ((\<lambda>_. 0)(e := (\<lambda>_. 0) e + 1)) s1" using s1(2) by simp
  from Executor_Release_runs [OF this] obtain s2 where s2: "Executor_Release e s1 = Inr s2" "aw_inv d {} (\<lambda>_. 0) s2" "evolves {} s1 s2" "prepends s1 s2" "aw_visits s2 = aw_visits s1"
    by (auto simp: runs_def)
  have "evolves {} t s2" using evolves_trans [OF s1(3) s2(3)] linked_live(2) [OF p(1)] by simp
  then have ev: "evolves {} s s2" using evolves_trans [OF p(2)] linked_live(2) [OF i] by force
  have "0 < refs (aw_heap s) e" using i mem by (auto simp: aw_inv_def owned_by_def)
  then obtain r where "Object_reference_count e (aw_heap s) = Inr r" using i by (auto simp: aw_inv_def refs_pos_iff Object_reference_count_def)
  moreover have "next_of e (aw_execs s) = front rest" using ex d by (simp add: next_of_append)
  ultimately have "executor_loop (Suc n) span (Some e) s = executor_loop n span (front rest) s2"
    using none s1(1) s2(1) by (simp add: actions_of_def)
  moreover have "\<exists>pre. aw_execs s2 = pre @ rest" using s1(4) s2(4) ex d by (auto simp: prepends_def t_def upd_exe_def remove1_append)
  ultimately show ?thesis
    using none ev frame_inv_evolves [OF inv ev s2(2)] s1(5) s2(5) by (auto simp: served_def t_def upd_exe_def)
qed

lemma executor_turn:
  assumes inv: "frame_inv d s" and ex: "aw_execs s = pre @ e # rest" and span: "0 \<le> span" "d + span < 2147483648"
  shows "\<exists>s1. executor_loop (Suc n) span (Some e) s = executor_loop n span (front rest) s1 \<and> served d e rest s s1"
proof (cases "actions_of s e = []")
  case True
  then show ?thesis by (rule executor_finish_turn [OF inv ex])
next
  case False
  have i: "aw_inv d {} (\<lambda>_. 0) s" using inv by (simp add: frame_inv_def)
  obtain s1 where s1: "action_loop (length (actions_of s e)) span e (front (actions_of s e)) s = Inr s1" "aw_inv d {} (\<lambda>_. 0) s1"
      "evolves (set (actions_of s e)) s s1" "prepends s s1" "aw_visits s1 = aw_visits s @ actions_of s e" "\<forall>a \<in> set (actions_of s e). settled s1 a"
    using action_loop_visits [OF i _ order_refl span, of e "[]" "actions_of s e"] by auto
  obtain new where new: "aw_execs s1 = (new @ pre) @ e # rest" using s1(4) ex by (auto simp: prepends_def)
  have "distinct (aw_execs s1)" using s1(2) by (simp add: aw_inv_def lists_ok_def)
  then have "next_of e (aw_execs s1) = front rest" using next_of_append [of e "new @ pre" rest] unfolding new by simp
  moreover have "0 < refs (aw_heap s) e" using i ex by (auto simp: aw_inv_def owned_by_def)
  then obtain r where "Object_reference_count e (aw_heap s) = Inr r" using i by (auto simp: aw_inv_def refs_pos_iff Object_reference_count_def)
  ultimately have "executor_loop (Suc n) span (Some e) s = executor_loop n span (front rest) s1"
    using s1(1) False by (simp add: actions_of_def)
  moreover have "aw_execs s1 = (new @ pre @ [e]) @ rest" using new by simp
  ultimately show ?thesis using s1 frame_inv_evolves [OF inv s1(3,2)] unfolding served_def by blast
qed

text \<open>The actions of a list of executors.\<close>

definition all_actions :: "aworld \<Rightarrow> oid list \<Rightarrow> oid list" where
  "all_actions s es = concat (map (actions_of s) es)"

lemma served_others:
  assumes inv: "frame_inv d s" and v: "served d e rest s s1" and ex: "aw_execs s = pre @ e # rest" and N: "N \<le> world_next s"
  shows "filter (\<lambda>a. a < N) (all_actions s1 rest) = filter (\<lambda>a. a < N) (all_actions s rest)"
    and "set (all_actions s rest) \<subseteq> set (all_actions s1 rest)"
    and "\<And>a. a \<in> set (all_actions s1 rest) \<Longrightarrow> a < world_next s \<Longrightarrow> a \<in> set (all_actions s rest) \<and> a \<notin> set (actions_of s e)"
proof -
  have i: "aw_inv d {} (\<lambda>_. 0) s" using inv by (simp add: frame_inv_def)
  have ne: "e \<notin> set rest" using i ex by (auto simp: aw_inv_def lists_ok_def)
  have disj: "a \<notin> set (actions_of s e)" if "e' \<in> set rest" "a \<in> set (actions_of s e')" for a e'
    using i ne that unfolding aw_inv_def lists_ok_def by metis
  have new: "\<exists>new. (\<forall>a \<in> set new. world_next s \<le> a) \<and> actions_of s1 e' = new @ actions_of s e'" if "e' \<in> set rest" for e'
    by (rule unvisited_kept [OF i]) (use v disj that in \<open>auto simp: served_def\<close>)
  have "filter (\<lambda>a. a < N) (actions_of s1 e') = filter (\<lambda>a. a < N) (actions_of s e')" if "e' \<in> set rest" for e'
    using new [OF that] N by (force simp: filter_empty_conv)
  then show "filter (\<lambda>a. a < N) (all_actions s1 rest) = filter (\<lambda>a. a < N) (all_actions s rest)"
    by (simp add: all_actions_def filter_concat map_map comp_def cong: map_cong)
  show "set (all_actions s rest) \<subseteq> set (all_actions s1 rest)" 
  proof
    fix a assume "a \<in> set (all_actions s rest)"
    then obtain e' where e': "e' \<in> set rest" "a \<in> set (actions_of s e')" by (auto simp: all_actions_def)
    then have "a \<in> set (actions_of s1 e')" using new [OF e'(1)] by auto
    then show "a \<in> set (all_actions s1 rest)" using e'(1) by (auto simp: all_actions_def)
  qed
  show "a \<in> set (all_actions s rest) \<and> a \<notin> set (actions_of s e)" if m: "a \<in> set (all_actions s1 rest)" "a < world_next s" for a
  proof -
    obtain e' where e': "e' \<in> set rest" "a \<in> set (actions_of s1 e')" using m(1) by (auto simp: all_actions_def)
    then have "a \<in> set (actions_of s e')" using new [OF e'(1)] m(2) by (auto dest: leD)
    then show ?thesis using e'(1) disj by (auto simp: all_actions_def)
  qed
qed

lemma evolves_weaken:
  assumes "evolves V s s'" and "\<And>a. a \<in> V \<Longrightarrow> a < world_next s \<Longrightarrow> a \<in> W"
  shows "evolves W s s'"
  using assms unfolding evolves_def by blast

lemma executor_loop_visits:
  assumes "frame_inv d s" and "aw_execs s = pre @ suf" and "length suf \<le> n" and "N \<le> world_next s" and span: "0 \<le> span" "d + span < 2147483648"
  shows "\<exists>s' vs. executor_loop n span (front suf) s = Inr s' \<and> frame_inv d s' \<and> evolves (set (all_actions s suf)) s s' \<and>
    aw_visits s' = aw_visits s @ vs \<and> filter (\<lambda>a. a < N) vs = filter (\<lambda>a. a < N) (all_actions s suf) \<and>
    (\<forall>a \<in> set (all_actions s suf). settled s' a)"
  using assms(1-4)
proof (induction suf arbitrary: n s pre)
  case Nil
  then show ?case by (auto simp: front_Cons all_actions_def evolves_refl)
next
  case (Cons e suf)
  then obtain m where n: "n = Suc m" "length suf \<le> m" by (cases n) auto
  obtain s1 where s1: "executor_loop n span (Some e) s = executor_loop m span (front suf) s1" and v: "served d e suf s s1"
    using executor_turn [OF Cons.prems(1,2) span] unfolding n(1) by blast
  note ot = served_others [OF Cons.prems(1) v Cons.prems(2)]
  have i: "aw_inv d {} (\<lambda>_. 0) s" using Cons.prems(1) by (simp add: frame_inv_def)
  have le: "world_next s \<le> world_next s1" using v by (simp add: served_def evolves_def)
  obtain pre1 where "aw_execs s1 = pre1 @ suf" using v by (auto simp: served_def)
  then obtain s' vs where s': "executor_loop m span (front suf) s1 = Inr s'" "frame_inv d s'" "evolves (set (all_actions s1 suf)) s1 s'"
      "aw_visits s' = aw_visits s1 @ vs" "filter (\<lambda>a. a < N) vs = filter (\<lambda>a. a < N) (all_actions s1 suf)" "\<forall>a \<in> set (all_actions s1 suf). settled s' a"
    using Cons.IH [of s1 pre1 m] n(2) v le Cons.prems(4) unfolding served_def by (metis order_trans)
  have all: "all_actions s (e # suf) = actions_of s e @ all_actions s suf" by (simp add: all_actions_def)
  have lt: "a < world_next s" if "a \<in> set (actions_of s e)" for a using linked_live(2) [OF i linked_actI [OF that]] .
  have "settled s' a" if "a \<in> set (actions_of s e)" for a
    by (rule settled_evolves [OF _ s'(3)]) (use v that lt [OF that] ot(3) [OF Cons.prems(4)] le in \<open>auto simp: served_def\<close>)
  then have "\<forall>a \<in> set (all_actions s (e # suf)). settled s' a" using s'(6) ot(2) [OF Cons.prems(4)] by (auto simp: all)
  moreover have "evolves (set (actions_of s e) \<union> set (all_actions s1 suf)) s s'"
    using evolves_trans [OF _ s'(3)] v linked_live(2) [OF i] by (simp add: served_def)
  then have "evolves (set (all_actions s (e # suf))) s s'"
    by (rule evolves_weaken) (use ot(3) [OF Cons.prems(4)] in \<open>auto simp: all\<close>)
  moreover have "aw_visits s' = aw_visits s @ (actions_of s e @ vs)" using s'(4) v by (simp add: served_def)
  moreover have "filter (\<lambda>a. a < N) (actions_of s e @ vs) = filter (\<lambda>a. a < N) (all_actions s (e # suf))"
    using s'(5) ot(1) [OF Cons.prems(4)] by (simp add: all)
  ultimately show ?case using s1 s'(1,2) by (auto simp: front_Cons)
qed


section \<open>A frame\<close>



text \<open>
  An executor with two actions: the first runs a third one and is done with that, the second waits for ten milliseconds. After a frame of 3 ms the
  first is deleted, and the third stands in front of the second.
\<close>

definition two_actions :: aworld where
  "two_actions = \<lparr>aw_heap = \<lparr>rc = (\<lambda>_. None)(0 \<mapsto> 2, 1 \<mapsto> 1, 2 \<mapsto> 1), g_object_count = 3, obj_next = 3\<rparr>,
     aw_act = (\<lambda>_. \<lparr>ac_stopped = False, ac_tag = 0, ac_kind = NextCall False [ORun 0 7 (NextCall False [])]\<rparr>)
       (2 := \<lparr>ac_stopped = False, ac_tag = 5, ac_kind = Timeout 10 0 []\<rparr>),
     aw_exe = (\<lambda>_. \<lparr>ex_actions = [], ex_cb_stop = None, ex_registered = False\<rparr>)
       (0 := \<lparr>ex_actions = [1, 2], ex_cb_stop = None, ex_registered = True\<rparr>),
     aw_execs = [0], aw_user = (\<lambda>_. 0)(0 := 1), aw_visits = [], aw_finished = []\<rparr>"

lemma two_actions_inv: "frame_inv 100 two_actions"
proof -
  have act: "actions_of two_actions e = (if e = 0 then [1, 2] else [])" for e by (simp add: actions_of_def two_actions_def)
  have lk: "linked_act two_actions a \<longleftrightarrow> a = 1 \<or> a = 2" for a by (auto simp: linked_act_def act)
  have "obj_inv (aw_heap two_actions)" by (auto simp: obj_inv_def two_actions_def split: if_splits)
  moreover have "owned_by (\<lambda>_. 0) two_actions" unfolding owned_by_def lk by (simp add: two_actions_def refs_def)
  moreover have "lists_ok two_actions" unfolding lists_ok_def lk act by (auto simp: two_actions_def split: if_splits)
  moreover have "fits_ok 100 {} two_actions" unfolding fits_ok_def lk by (auto simp: two_actions_def)
  ultimately show ?thesis by (simp add: frame_inv_def aw_inv_def) (simp add: two_actions_def)
qed

lemma two_actions_frame:
  "\<exists>s'. ActionManager_Update 3 two_actions = Inr s' \<and> actions_of s' 0 = [3, 2] \<and> rc (aw_heap s') 1 = None \<and> aw_visits s' = [1, 2]"
  by (simp add: ActionManager_Update_def two_actions_def front_def actions_of_def Object_reference_count_def OnUpdate_defs upd_act_def upd_exe_def
    set_kind_def Executor_RunAction_def heap_op_def Object_Retain_def Object_Release_def Object_new_def Object_delete_def erase_action_def Action_IsDone_def
    add32_def u32_def u32_dec_def Let_def)


end
