(* ===== verification/MysqlPacket.thy ===== *)
theory MysqlPacket
  imports Message NetClientSpec
begin

text \<open>
  \<open>base/dbo_bk/internal/packet.h\<close>: the packets of the MySQL protocol. Their cursor, \<open>GetByte\<close>, \<open>PutByte\<close> and \<open>FetchData\<close> are those of
  \<open>base/gateway/packet_base.h\<close>, statement by statement, and so are their definitions here; new are the fields: integers of fixed and of
  variable length and three kinds of strings. Theorem: what is written is read back, except that integers of three bytes are read
  into a variable that is not initialised, so their fourth byte is whatever the memory holds.
\<close>

section \<open>Reading\<close>

text \<open>\<open>old\<close> is the value of the variable before its first \<open>n\<close> bytes are overwritten.\<close>

definition Mysql_ReadFixedInteger :: "nat \<Rightarrow> nat \<Rightarrow> mem \<Rightarrow> pkt \<Rightarrow> (nat \<times> pkt) result" where
  "Mysql_ReadFixedInteger n old m p = bindE (PacketInBase_GetByte n m p) (\<lambda>(bs, p1). Inr (le_val bs + old div 256 ^ n * 256 ^ n, p1))"

text \<open>\<open>w\<close> is the width of the result type in bits, \<open>junk\<close> what the memory of the local variable \<open>follow\<close> holds.\<close>

definition Mysql_ReadVariableInteger :: "nat \<Rightarrow> nat \<Rightarrow> mem \<Rightarrow> pkt \<Rightarrow> (nat \<times> pkt) result" where
  "Mysql_ReadVariableInteger w junk m p = bindE (Mysql_ReadFixedInteger 1 0 m p) (\<lambda>(v_first, p1).
     if v_first < 251 then Inr (v_first mod 2 ^ w, p1)
     else if v_first = 252 then bindE (Mysql_ReadFixedInteger 2 (junk mod 2 ^ 16) m p1) (\<lambda>(follow, p2). Inr (follow mod 2 ^ w, p2))
     else if v_first = 253 then bindE (Mysql_ReadFixedInteger 3 (junk mod 2 ^ 32) m p1) (\<lambda>(follow, p2). Inr (follow mod 2 ^ w, p2))
     else if v_first = 254 then bindE (Mysql_ReadFixedInteger 8 (junk mod 2 ^ 64) m p1) (\<lambda>(follow, p2). Inr (follow mod 2 ^ w, p2))
     else Inl AssertFailed)"

definition Mysql_ReadFixedString :: "nat \<Rightarrow> mem \<Rightarrow> pkt \<Rightarrow> (bytes \<times> pkt) result" where
  "Mysql_ReadFixedString fixed_len m p = PacketInBase_GetByte fixed_len m p"

definition Mysql_ReadLengthEncodedString :: "nat \<Rightarrow> mem \<Rightarrow> pkt \<Rightarrow> (bytes \<times> pkt) result" where
  "Mysql_ReadLengthEncodedString junk m p = bindE (Mysql_ReadVariableInteger 32 junk m p) (\<lambda>(len, p1). PacketInBase_GetByte len m p1)"

definition Mysql_ReadRestOfPacketString :: "mem \<Rightarrow> pkt \<Rightarrow> (bytes \<times> pkt) result" where
  "Mysql_ReadRestOfPacketString m p = PacketInBase_GetByte (u32 (pk_size p + 4294967296 - pk_pos p)) m p"

text \<open>The loop ends at a null byte or, by the exception of \<open>GetByte\<close>, at the end of the packet: its size bounds the turns.\<close>

fun NulTerminate_loop :: "nat \<Rightarrow> mem \<Rightarrow> pkt \<Rightarrow> (bytes \<times> pkt) result" where
  "NulTerminate_loop 0 m p = Inl Diverges"
| "NulTerminate_loop (Suc n) m p = bindE (PacketInBase_GetByte 1 m p) (\<lambda>(v, p1).
     if v = [0] then Inr ([], p1) else bindE (NulTerminate_loop n m p1) (\<lambda>(txt, p2). Inr (v @ txt, p2)))"

definition Mysql_ReadNulTerminateString :: "mem \<Rightarrow> pkt \<Rightarrow> (bytes \<times> pkt) result" where
  "Mysql_ReadNulTerminateString m p = NulTerminate_loop (pk_size p + 1) m p"

definition Mysql_CurrentByte :: "mem \<Rightarrow> pkt \<Rightarrow> 8 word result" where
  "Mysql_CurrentByte m p = (if pk_pos_y p < length (pk_data p) then
     bindE (RefMemoryChunk_Read (pk_data p ! pk_pos_y p) 1 m) (\<lambda>(bs, _). case bs of b # _ \<Rightarrow> Inr b | [] \<Rightarrow> Inl OutOfRange)
   else Inl OutOfRange)"

definition Mysql_Skip :: "int \<Rightarrow> pkt \<Rightarrow> pkt result" where
  "Mysql_Skip step p = Packet_SkipTo p (nat ((int (pk_pos p) + step) mod 4294967296))"

text \<open>A packet with its head.\<close>

record mypkt =
  my_pkt :: pkt
  my_payload :: nat
  my_sequence_id :: nat

definition MysqlIn_new :: "refchunk list \<Rightarrow> mypkt" where
  "MysqlIn_new data = (let p = Packet_UpdateCapacity (Packet_new\<lparr>pk_data := data\<rparr>)
     in \<lparr>my_pkt = p\<lparr>pk_size := pk_capacity p\<rparr>, my_payload = 0, my_sequence_id = 0\<rparr>)"

definition Mysql_ReadHead :: "mem \<Rightarrow> mypkt \<Rightarrow> mypkt result" where
  "Mysql_ReadHead m q = bindE (Packet_SkipTo (my_pkt q) 0) (\<lambda>p0.
     bindE (Mysql_ReadFixedInteger 3 (my_payload q) m p0) (\<lambda>(payload, p1).
     bindE (Mysql_ReadFixedInteger 1 (my_sequence_id q) m p1) (\<lambda>(seq, p2).
     if u32 (payload + 3 + 1) \<noteq> pk_size p2 then Inl ExceptionThrown
     else Inr \<lparr>my_pkt = p2, my_payload = payload, my_sequence_id = seq\<rparr>)))"

section \<open>Writing\<close>

definition MysqlOut_new :: "nat \<Rightarrow> nat \<Rightarrow> mem \<Rightarrow> (mypkt \<times> mem) result" where
  "MysqlOut_new approx_size sequence_id m =
     bindE (PacketOutBase_AquireMemory (if approx_size < 20 then 20 else approx_size) (Packet_new, m)) (\<lambda>(p, m1).
     bindE (Packet_SkipTo p 4) (\<lambda>p1. Inr (\<lparr>my_pkt = p1, my_payload = 0, my_sequence_id = sequence_id\<rparr>, m1)))"

definition Mysql_WriteFixedInteger :: "nat \<Rightarrow> nat \<Rightarrow> pkt \<times> mem \<Rightarrow> (pkt \<times> mem) result" where
  "Mysql_WriteFixedInteger n v s = PacketOutBase_PutByte (le_bytes n v) s"

definition Mysql_WriteHead :: "mypkt \<times> mem \<Rightarrow> (mypkt \<times> mem) result" where
  "Mysql_WriteHead s = bindE (Packet_SkipTo (my_pkt (fst s)) 0) (\<lambda>p0.
     bindE (Mysql_WriteFixedInteger 3 (u32 (pk_size p0 + 4294967296 - 4)) (p0, snd s)) (\<lambda>s1.
     bindE (Mysql_WriteFixedInteger 1 (my_sequence_id (fst s)) s1) (\<lambda>(p2, m2). Inr ((fst s)\<lparr>my_pkt := p2\<rparr>, m2))))"

definition Mysql_WriteVariableInteger :: "nat \<Rightarrow> pkt \<times> mem \<Rightarrow> (pkt \<times> mem) result" where
  "Mysql_WriteVariableInteger v s =
     (if v < 251 then PacketOutBase_PutByte (le_bytes 1 v) s
      else if v \<ge> 251 \<and> v < 65536 then bindE (PacketOutBase_PutByte [252] s) (PacketOutBase_PutByte (le_bytes 2 v))
      else if v \<ge> 65536 \<and> v < 16777216 then bindE (PacketOutBase_PutByte [253] s) (PacketOutBase_PutByte (le_bytes 3 v))
      else bindE (PacketOutBase_PutByte [254] s) (PacketOutBase_PutByte (le_bytes 8 v)))"

text \<open>The length of a string is cut to 32 bits where \<open>PutByte\<close> takes it.\<close>

definition Mysql_WriteFixedString :: "bytes \<Rightarrow> pkt \<times> mem \<Rightarrow> (pkt \<times> mem) result" where
  "Mysql_WriteFixedString str s = PacketOutBase_PutByte (take (u32 (length str)) str) s"

definition Mysql_WriteLengthEncodedString :: "bytes \<Rightarrow> pkt \<times> mem \<Rightarrow> (pkt \<times> mem) result" where
  "Mysql_WriteLengthEncodedString str s = bindE (Mysql_WriteVariableInteger (length str) s) (Mysql_WriteFixedString str)"

definition Mysql_WriteNulTerminateString :: "bytes \<Rightarrow> pkt \<times> mem \<Rightarrow> (pkt \<times> mem) result" where
  "Mysql_WriteNulTerminateString str s = bindE (Mysql_WriteFixedString str s) (PacketOutBase_PutByte [0])"

definition Mysql_AppendData :: "refchunk list \<Rightarrow> pkt \<times> mem \<Rightarrow> (pkt \<times> mem) result" where
  "Mysql_AppendData data s = (case s of (p, m) \<Rightarrow>
     if data = [] then Inr (p, m)
     else if length (pk_data p) \<le> pk_pos_y p then Inl OutOfRange
     else
       let ck = pk_data p ! pk_pos_y p in
       bindE (if rm_pos ck = 0
              then bindE (destroy_views [last (pk_data p)] m) (\<lambda>m1. Inr (p\<lparr>pk_data := butlast (pk_data p), pk_pos_y := u32_dec (pk_pos_y p)\<rparr>, m1))
              else bindE (RefMemoryChunk_ShrinkCount ck (rm_count ck - rm_pos ck)) (\<lambda>ck1. Inr (p\<lparr>pk_data := (pk_data p)[pk_pos_y p := ck1]\<rparr>, m))) (\<lambda>(p1, m1).
       bindE (push_copies (pk_data p1) data m1) (\<lambda>(d, m2).
         let p2 = p1\<lparr>pk_data := d, pk_pos := u32 (pk_pos p1 + sum_list (map rm_count data)), pk_pos_y := u32 (pk_pos_y p1 + length data)\<rparr>
         in Inr (Packet_UpdateSize (Packet_UpdateCapacity p2), m2))))"


section \<open>Fields\<close>

definition var_bytes :: "nat \<Rightarrow> bytes" where
  "var_bytes v = (if v < 251 then le_bytes 1 v else if v < 65536 then 252 # le_bytes 2 v
     else if v < 16777216 then 253 # le_bytes 3 v else 254 # le_bytes 8 v)"

text \<open>What the fourth byte of an uninitialised variable adds to an integer of three bytes.\<close>

definition stray :: "nat \<Rightarrow> nat \<Rightarrow> nat" where
  "stray junk v = (if 65536 \<le> v \<and> v < 16777216 then junk mod 2 ^ 32 div 16777216 * 16777216 else 0)"

lemma ReadFixedInteger_next:
  assumes "pin_wf m p" and "drop (pk_pos p) (content m p) = le_bytes n v @ r"
  shows "\<exists>p'. Mysql_ReadFixedInteger n old m p = Inr (v mod 256 ^ n + old div 256 ^ n * 256 ^ n, p') \<and> advanced m p n p'
    \<and> drop (pk_pos p') (content m p') = r"
  using GetByte_next [OF assms] by (auto simp: Mysql_ReadFixedInteger_def le_val_le_bytes)

lemma ReadVariableInteger_next:
  assumes wf: "pin_wf m p" and d: "drop (pk_pos p) (content m p) = var_bytes v @ r" and v: "v < 2 ^ 64"
  shows "\<exists>p'. Mysql_ReadVariableInteger w junk m p = Inr ((v + stray junk v) mod 2 ^ w, p') \<and> advanced m p (length (var_bytes v)) p'
    \<and> drop (pk_pos p') (content m p') = r"
proof -
  define tag where "tag = (if v < 251 then v else if v < 65536 then 252 else if v < 16777216 then 253 else (254 :: nat))"
  define rest where "rest = (if v < 251 then [] else if v < 65536 then le_bytes 2 v else if v < 16777216 then le_bytes 3 v else le_bytes 8 v)"
  have tag: "tag < 256" by (simp add: tag_def)
  have e: "var_bytes v = le_bytes 1 tag @ rest" by (simp add: var_bytes_def tag_def rest_def)
  obtain p1 where 1: "Mysql_ReadFixedInteger 1 0 m p = Inr (tag, p1)" "advanced m p 1 p1" "drop (pk_pos p1) (content m p1) = rest @ r"
    using ReadFixedInteger_next [OF wf, of 1 tag "rest @ r" 0] d e tag by auto
  have wf1: "pin_wf m p1" using 1(2) by (simp add: advanced_def)
  note next1 = ReadFixedInteger_next [OF wf1, of _ v r]
  consider (a) "v < 251" | (b) "251 \<le> v" "v < 65536" | (c) "65536 \<le> v" "v < 16777216" | (d) "16777216 \<le> v" by linarith
  then show ?thesis
  proof cases
    case a
    then show ?thesis using 1 e by (simp add: Mysql_ReadVariableInteger_def tag_def rest_def stray_def)
  next
    case b
    then have "rest = le_bytes 2 v" by (simp add: rest_def)
    then show ?thesis using b 1 next1 [of 2 "junk mod 2 ^ 16"] e
      by (auto simp: Mysql_ReadVariableInteger_def tag_def stray_def advanced_def)
  next
    case c
    then have "rest = le_bytes 3 v" by (simp add: rest_def)
    then show ?thesis using c 1 next1 [of 3 "junk mod 2 ^ 32"] e
      by (auto simp: Mysql_ReadVariableInteger_def tag_def stray_def advanced_def)
  next
    case d
    then have "rest = le_bytes 8 v" by (simp add: rest_def)
    then show ?thesis using d v 1 next1 [of 8 "junk mod 2 ^ 64"] e
      by (auto simp: Mysql_ReadVariableInteger_def tag_def stray_def advanced_def)
  qed
qed

lemma WriteVariableInteger_done:
  assumes wf: "pout_wf m hs p" and room: "room m hs p (n + (length (var_bytes v) + 2 * (10 + mp_chunksize m)))"
  shows "\<exists>s. Mysql_WriteVariableInteger v (p, m) = Inr s \<and> put_done m hs p (var_bytes v) n s"
proof (cases "v < 251")
  case True
  have "room m hs p (n + cost m (length (le_bytes 1 v)))" using room by (auto simp: room_def cost_def)
  from PutByte_spec [OF wf this] show ?thesis using True by (simp add: Mysql_WriteVariableInteger_def var_bytes_def)
next
  case False
  define t b where "t = (if v < 65536 then 252 else if v < 16777216 then 253 else (254 :: 8 word))"
    and "b = (if v < 65536 then le_bytes 2 v else if v < 16777216 then le_bytes 3 v else le_bytes 8 v)"
  have e: "var_bytes v = [t] @ b" using False by (simp add: var_bytes_def t_def b_def)
  have "room m hs p (n + cost m (length [t]) + cost m (length b))" using room unfolding e by (auto simp: room_def cost_def)
  moreover have "Mysql_WriteVariableInteger v (p, m) = bindE (PacketOutBase_PutByte [t] (p, m)) (PacketOutBase_PutByte b)"
    using False by (simp add: Mysql_WriteVariableInteger_def t_def b_def)
  ultimately show ?thesis using PutByte2_spec [OF wf, of n "[t]" b] e by simp
qed


text \<open>The fields and what reads them.\<close>

datatype myfield = MyFixed nat nat | MyVar nat | MyString bytes | MyLenString bytes | MyNulString bytes

datatype mykind = KFixed nat | KVar | KString nat | KLenString | KNulString

fun my_write :: "myfield \<Rightarrow> pkt \<times> mem \<Rightarrow> (pkt \<times> mem) result" where
  "my_write (MyFixed n v) s = Mysql_WriteFixedInteger n v s"
| "my_write (MyVar v) s = Mysql_WriteVariableInteger v s"
| "my_write (MyString str) s = Mysql_WriteFixedString str s"
| "my_write (MyLenString str) s = Mysql_WriteLengthEncodedString str s"
| "my_write (MyNulString str) s = Mysql_WriteNulTerminateString str s"

fun my_read :: "nat \<Rightarrow> mykind \<Rightarrow> mem \<Rightarrow> pkt \<Rightarrow> (myfield \<times> pkt) result" where
  "my_read junk (KFixed n) m p = bindE (Mysql_ReadFixedInteger n 0 m p) (\<lambda>(v, q). Inr (MyFixed n v, q))"
| "my_read junk KVar m p = bindE (Mysql_ReadVariableInteger 64 junk m p) (\<lambda>(v, q). Inr (MyVar v, q))"
| "my_read junk (KString n) m p = bindE (Mysql_ReadFixedString n m p) (\<lambda>(v, q). Inr (MyString v, q))"
| "my_read junk KLenString m p = bindE (Mysql_ReadLengthEncodedString junk m p) (\<lambda>(v, q). Inr (MyLenString v, q))"
| "my_read junk KNulString m p = bindE (Mysql_ReadNulTerminateString m p) (\<lambda>(v, q). Inr (MyNulString v, q))"

fun my_kind :: "myfield \<Rightarrow> mykind" where
  "my_kind (MyFixed n v) = KFixed n"
| "my_kind (MyVar v) = KVar"
| "my_kind (MyString str) = KString (length str)"
| "my_kind (MyLenString str) = KLenString"
| "my_kind (MyNulString str) = KNulString"

fun my_enc :: "myfield \<Rightarrow> bytes" where
  "my_enc (MyFixed n v) = le_bytes n v"
| "my_enc (MyVar v) = var_bytes v"
| "my_enc (MyString str) = str"
| "my_enc (MyLenString str) = var_bytes (length str) @ str"
| "my_enc (MyNulString str) = str @ [0]"

fun my_ok :: "nat \<Rightarrow> myfield \<Rightarrow> bool" where
  "my_ok junk (MyFixed n v) \<longleftrightarrow> v < 256 ^ n"
| "my_ok junk (MyVar v) \<longleftrightarrow> v < 2 ^ 64 \<and> stray junk v = 0"
| "my_ok junk (MyString str) \<longleftrightarrow> length str < 2 ^ 32"
| "my_ok junk (MyLenString str) \<longleftrightarrow> length str < 2 ^ 32 \<and> stray junk (length str) = 0"
| "my_ok junk (MyNulString str) \<longleftrightarrow> length str < 2 ^ 32 \<and> 0 \<notin> set str"

lemma WriteLengthEncodedString_done:
  assumes wf: "pout_wf m hs p" and len: "length str < 2 ^ 32" and room: "room m hs p (n + cost2 m (length (my_enc (MyLenString str))))"
  shows "\<exists>s. Mysql_WriteLengthEncodedString str (p, m) = Inr s \<and> put_done m hs p (my_enc (MyLenString str)) n s"
proof -
  let ?v = "var_bytes (length str)"
  have "room m hs p ((n + cost m (length str)) + (length ?v + 2 * (10 + mp_chunksize m)))"
    using room by (auto simp: room_def cost_def cost2_def)
  from WriteVariableInteger_done [OF wf this] obtain p1 m1 where
    1: "Mysql_WriteVariableInteger (length str) (p, m) = Inr (p1, m1)" "put_done m hs p ?v (n + cost m (length str)) (p1, m1)" by auto
  have "pout_wf m1 hs p1" "room m1 hs p1 (n + cost m1 (length str))" using 1(2) by (auto simp: put_done_def cost_def)
  from PutByte_spec [OF this] obtain s where "PacketOutBase_PutByte str (p1, m1) = Inr s" "put_done m1 hs p1 str n s" by auto
  then show ?thesis using 1 put_done_trans [OF wf 1(2)] len
    by (simp add: Mysql_WriteLengthEncodedString_def Mysql_WriteFixedString_def u32_def)
qed

lemma my_write_law:
  assumes wf: "pout_wf m hs p" and ok: "my_ok junk v" and room: "room m hs p (n + cost2 m (length (my_enc v)))"
  shows "\<exists>s. my_write v (p, m) = Inr s \<and> put_done m hs p (my_enc v) n s"
proof (cases v)
  case (MyVar i)
  have "room m hs p (n + (length (var_bytes i) + 2 * (10 + mp_chunksize m)))" using room MyVar by (auto simp: room_def cost2_def)
  from WriteVariableInteger_done [OF wf this] show ?thesis using MyVar by simp
next
  case (MyLenString str)
  then show ?thesis using WriteLengthEncodedString_done [OF wf] room ok by simp
next
  case (MyNulString str)
  have "room m hs p (n + cost m (length str) + cost m (length [0 :: 8 word]))" using room MyNulString by (auto simp: room_def cost_def cost2_def)
  from PutByte2_spec [OF wf this] show ?thesis using MyNulString ok
    by (simp add: Mysql_WriteNulTerminateString_def Mysql_WriteFixedString_def u32_def)
qed (use PutByte_spec [OF wf cost_le_cost2 [OF room]] ok in \<open>simp_all add: Mysql_WriteFixedInteger_def Mysql_WriteFixedString_def u32_def\<close>)

lemma NulTerminate_next:
  assumes "pin_wf m p" and "drop (pk_pos p) (content m p) = (str @ [0]) @ r" and "0 \<notin> set str" and "length str < n"
  shows "\<exists>p'. NulTerminate_loop n m p = Inr (str, p') \<and> advanced m p (length str + 1) p'"
  using assms
proof (induction str arbitrary: n p)
  case Nil
  then show ?case using GetByte_next [OF Nil.prems(1), of "[0]" r] by (cases n) auto
next
  case (Cons b str)
  then obtain k where n: "n = Suc k" "length str < k" by (cases n) auto
  obtain p1 where 1: "PacketInBase_GetByte 1 m p = Inr ([b], p1)" "advanced m p 1 p1" "drop (pk_pos p1) (content m p1) = (str @ [0]) @ r"
    using GetByte_next [OF Cons.prems(1), of "[b]" "(str @ [0]) @ r"] Cons.prems(2) by auto
  obtain p2 where "NulTerminate_loop k m p1 = Inr (str, p2)" "advanced m p1 (length str + 1) p2"
    using Cons.IH [OF _ 1(3) _ n(2)] Cons.prems(3) 1(2) by (auto simp: advanced_def)
  then show ?case using 1 n Cons.prems(3) by (auto simp: advanced_def)
qed

lemma my_read_law:
  assumes wf: "pin_wf m p" and ok: "my_ok junk v" and d: "drop (pk_pos p) (content m p) = my_enc v @ r"
  shows "\<exists>p'. my_read junk (my_kind v) m p = Inr (v, p') \<and> advanced m p (length (my_enc v)) p'"
proof (cases v)
  case (MyFixed n i)
  then show ?thesis using ReadFixedInteger_next [OF wf, of n i r 0] ok d by auto
next
  case (MyVar i)
  then show ?thesis using ReadVariableInteger_next [OF wf, of i r 64 junk] ok d by auto
next
  case (MyString str)
  then show ?thesis using GetByte_next [OF wf, of str r] d by (auto simp: Mysql_ReadFixedString_def)
next
  case (MyLenString str)
  have "length str < 2 ^ 64" using ok MyLenString by simp
  then obtain p1 where 1: "Mysql_ReadVariableInteger 32 junk m p = Inr (length str, p1)" "advanced m p (length (var_bytes (length str))) p1"
      "drop (pk_pos p1) (content m p1) = str @ r"
    using ReadVariableInteger_next [OF wf, of "length str" "str @ r" 32 junk] ok d MyLenString by auto
  have "pin_wf m p1" using 1(2) by (simp add: advanced_def)
  from GetByte_next [OF this 1(3)] show ?thesis using 1 MyLenString by (auto simp: Mysql_ReadLengthEncodedString_def advanced_def)
next
  case (MyNulString str)
  have "length (drop (pk_pos p) (content m p)) \<le> pk_size p" using length_content_pin [OF wf] by simp
  then have "length str < pk_size p + 1" using d MyNulString by simp
  then show ?thesis using NulTerminate_next [OF wf, of str r "pk_size p + 1"] ok d MyNulString
    by (auto simp: Mysql_ReadNulTerminateString_def simp del: NulTerminate_loop.simps)
qed

interpretation my: packet_codec my_write "my_read junk" my_kind "\<lambda>v. v" my_enc "my_ok junk"
  by unfold_locales (rule my_write_law my_read_law; assumption)+


section \<open>Packets\<close>

lemma le_bytes_mod: "le_bytes n (v mod 256 ^ n) = le_bytes n v"
proof (induction n arbitrary: v)
  case (Suc n)
  have "v mod 256 ^ Suc n mod 256 = v mod 256" by (simp add: mod_mult2_eq)
  moreover have "v mod 256 ^ Suc n div 256 = v div 256 mod 256 ^ n" by (simp add: mod_mult2_eq)
  ultimately show ?case using Suc.IH [of "v div 256"] by simp
qed simp

lemma le_bytes_small:
  "le_bytes 1 v = [word_of_nat (v mod 256)]" "le_bytes 2 v = [word_of_nat (v mod 256), word_of_nat (v div 256 mod 256)]"
  "le_bytes 3 v = [word_of_nat (v mod 256), word_of_nat (v div 256 mod 256), word_of_nat (v div 65536 mod 256)]"
  by (simp_all add: numeral_2_eq_2 numeral_3_eq_3 flip: div_mult2_eq)

abbreviation my_cost :: "mem \<Rightarrow> myfield list \<Rightarrow> nat" where
  "my_cost m vs \<equiv> sum_list (map (\<lambda>v. cost2 m (length (my_enc v))) vs)"

abbreviation my_bytes :: "myfield list \<Rightarrow> bytes" where
  "my_bytes vs \<equiv> concat (map my_enc vs)"

text \<open>A packet on its way out: the head holds the length modulo \<open>2\<^sup>24\<close>.\<close>

definition my_wire :: "nat \<Rightarrow> myfield list \<Rightarrow> bytes" where
  "my_wire seq vs = le_bytes 3 (length (my_bytes vs)) @ le_bytes 1 seq @ my_bytes vs"

lemma mysql_written:
  assumes inv: "mem_inv m hs" and ok: "\<forall>v \<in> set vs. my_ok junk v" and seq: "seq < 256"
    and room: "room m hs Packet_new (cost m (max 20 approx) + my_cost m vs + (64 + 6 * mp_chunksize m) + 1)"
  shows "\<exists>q m1 p2 m2 q3 m3 ret m4. MysqlOut_new approx seq m = Inr (q, m1) \<and> out_each my_write vs (my_pkt q, m1) = Inr (p2, m2) \<and>
    Mysql_WriteHead (q\<lparr>my_pkt := p2\<rparr>, m2) = Inr (q3, m3) \<and> PacketOutBase_FetchData (my_pkt q3, m3) = Inr (ret, m4) \<and>
    data_bytes m4 ret = my_wire seq vs \<and> mem_inv m4 (ret @ pk_data (my_pkt q3) @ hs) \<and> data_bytes m4 hs = data_bytes m hs \<and>
    sum_list (map rm_count ret) = 4 + length (my_bytes vs) \<and> 4 + length (my_bytes vs) < 4294967295 \<and>
    length ret \<le> length (pk_data (my_pkt q3)) \<and> 3 * length (pk_data (my_pkt q3)) + length hs + 5 < 4294967296"
proof -
  define hvs where "hvs n = [MyFixed 3 ((n - 4) mod 256 ^ 3), MyFixed 1 seq]" for n
  have hl: "length (my_bytes (hvs n)) = 4" "\<forall>v \<in> set (hvs n). my_ok junk v" "my_cost m (hvs n) \<le> 64 + 6 * mp_chunksize m" for n
    using seq by (simp_all add: hvs_def cost2_def)
  have le: "4 \<le> max 20 approx + 10" by simp
  obtain p m1 p1 p2 m2 p3 p4 m4 ret m5 where
    f: "PacketOutBase_new (max 20 approx) m = Inr (p, m1)" "Packet_SkipTo p 4 = Inr p1" "out_each my_write vs (p1, m1) = Inr (p2, m2)"
      "Packet_SkipTo p2 0 = Inr p3" "pk_size p3 = 4 + length (my_bytes vs)" "out_each my_write (hvs (4 + length (my_bytes vs))) (p3, m2) = Inr (p4, m4)"
      "PacketOutBase_FetchData (p4, m4) = Inr (ret, m5)" "data_bytes m5 ret = my_bytes (hvs (4 + length (my_bytes vs))) @ my_bytes vs"
      "mem_inv m5 (ret @ pk_data p4 @ hs)" "data_bytes m5 hs = data_bytes m hs" "sum_list (map rm_count ret) = 4 + length (my_bytes vs)"
      "4 + length (my_bytes vs) < 4294967295" "length ret \<le> length (pk_data p4)" "3 * length (pk_data p4) + length hs + 5 < 4294967296"
    using my.framed [where hvs = hvs, OF inv ok le hl room] by blast
  let ?q = "\<lparr>my_pkt = p1, my_payload = 0, my_sequence_id = seq\<rparr>"
  have mx: "(if approx < 20 then 20 else approx) = max 20 approx" by simp
  have new: "MysqlOut_new approx seq m = Inr (?q, m1)"
    using f(1,2) by (simp add: MysqlOut_new_def PacketOutBase_new_def mx)
  have u: "u32 (pk_size p3 + 4294967296 - 4) = length (my_bytes vs)" using f(5,12) by (simp add: u32_def)
  have len: "length (my_bytes vs) mod 16777216 = length (my_bytes vs) mod 256 ^ 3" by simp
  have "Mysql_WriteHead (?q\<lparr>my_pkt := p2\<rparr>, m2) = Inr (?q\<lparr>my_pkt := p4\<rparr>, m4)"
    using f(4,6) u le_bytes_mod [of 3 "length (my_bytes vs)"] by (simp add: Mysql_WriteHead_def Mysql_WriteFixedInteger_def hvs_def bindE_eq_Inr)
  moreover have "data_bytes m5 ret = my_wire seq vs"
    using f(8) le_bytes_mod [of 3 "length (my_bytes vs)"] by (simp add: hvs_def my_wire_def)
  ultimately show ?thesis using new f(3,7,9-14)
    by (intro exI [of _ ?q] exI [of _ m1] exI [of _ p2] exI [of _ m2] exI [of _ "?q\<lparr>my_pkt := p4\<rparr>"] exI [of _ m4] exI [of _ ret] exI [of _ m5]) simp
qed


lemma MysqlIn_SkipTo: "Packet_SkipTo (my_pkt (MysqlIn_new data)) 0 = PacketInBase_new data"
  by (simp add: MysqlIn_new_def PacketInBase_new_def Let_def)

lemma mysql_head_read:
  assumes wf: "all_wf m ret" and size: "4 \<le> length (data_bytes m ret)" "length (data_bytes m ret) < 4294967296"
  defines "payload \<equiv> le_val (take 3 (data_bytes m ret))" and "seq \<equiv> le_val (take 1 (drop 3 (data_bytes m ret)))"
  shows "payload + 4 \<noteq> length (data_bytes m ret) \<Longrightarrow> Mysql_ReadHead m (MysqlIn_new ret) = Inl ExceptionThrown"
    and "payload + 4 = length (data_bytes m ret) \<Longrightarrow> \<exists>p. Mysql_ReadHead m (MysqlIn_new ret) =
      Inr \<lparr>my_pkt = p, my_payload = payload, my_sequence_id = seq\<rparr> \<and> pin_wf m p \<and> pk_pos p = 4 \<and> content m p = data_bytes m ret"
proof -
  let ?bs = "data_bytes m ret"
  have sum: "sum_list (map rm_count ret) < 4294967296" using size(2) length_data_bytes [OF wf] by simp
  obtain p0 where p0: "PacketInBase_new ret = Inr p0" "pin_wf m p0" "content m p0 = ?bs" "pk_pos p0 = 0"
    using PacketInBase_new_spec [OF wf sum] by auto
  have pl: "payload < 16777216" using le_val_bound [of "take 3 ?bs"] size(1) by (simp add: payload_def min_def)
  have "drop (pk_pos p0) (content m p0) = le_bytes 3 payload @ drop 3 ?bs"
    using p0(3,4) size(1) by (simp add: payload_def le_bytes_le_val)
  from ReadFixedInteger_next [OF p0(2) this, of 0] obtain p1 where
    1: "Mysql_ReadFixedInteger 3 0 m p0 = Inr (payload, p1)" "advanced m p0 3 p1" "drop (pk_pos p1) (content m p1) = drop 3 ?bs" using pl by auto
  have wf1: "pin_wf m p1" using 1(2) by (simp add: advanced_def)
  have l1: "length (take 1 (drop 3 ?bs)) = 1" using size(1) by simp
  have sq: "seq < 256" using le_val_bound [of "take 1 (drop 3 ?bs)"] unfolding l1 seq_def by simp
  have "drop (pk_pos p1) (content m p1) = le_bytes 1 seq @ drop 4 ?bs"
    using 1(3) size(1) append_take_drop_id [of 1 "drop 3 ?bs"] le_bytes_le_val [of "take 1 (drop 3 ?bs)" 1] by (simp add: seq_def del: append_take_drop_id)
  from ReadFixedInteger_next [OF wf1 this, of 0] obtain p2 where
    2: "Mysql_ReadFixedInteger 1 0 m p1 = Inr (seq, p2)" "advanced m p1 1 p2" using sq by auto
  have p2: "pin_wf m p2" "pk_pos p2 = 4" "content m p2 = ?bs" using 1(2) 2(2) p0(3,4) by (simp_all add: advanced_def)
  then have sz: "pk_size p2 = length ?bs" using length_content_pin [OF p2(1)] by simp
  have e: "Mysql_ReadHead m (MysqlIn_new ret) = (if u32 (payload + 3 + 1) \<noteq> pk_size p2 then Inl ExceptionThrown
      else Inr \<lparr>my_pkt = p2, my_payload = payload, my_sequence_id = seq\<rparr>)"
    unfolding Mysql_ReadHead_def MysqlIn_SkipTo using p0(1) 1(1) 2(1) by (simp add: MysqlIn_new_def Let_def)
  have u: "u32 (payload + 3 + 1) = payload + 4" using pl by (simp add: u32_def)
  show "payload + 4 \<noteq> length ?bs \<Longrightarrow> Mysql_ReadHead m (MysqlIn_new ret) = Inl ExceptionThrown" using e u sz by simp
  show "\<exists>p. Mysql_ReadHead m (MysqlIn_new ret) = Inr \<lparr>my_pkt = p, my_payload = payload, my_sequence_id = seq\<rparr> \<and>
      pin_wf m p \<and> pk_pos p = 4 \<and> content m p = ?bs" if "payload + 4 = length ?bs"
    using e u sz p2 that by auto
qed

lemma loaded_reader:
  assumes "bs \<noteq> []" and "length bs < 4294967296"
  shows "\<exists>p. PacketInBase_new (cl_recvq (loaded_client bs)) = Inr p \<and> pin_wf (loaded_mem bs) p \<and> content (loaded_mem bs) p = bs \<and> pk_pos p = 0"
  using PacketInBase_new_spec [of "cl_recvq (loaded_client bs)" "loaded_mem bs"] assms
  by (auto simp: rm_wf_def loaded_client_def loaded_mem_def ref_bytes_def)

section \<open>Properties\<close>

text \<open>
  C8. MySQL packets. What is written into a new packet field by field, headed and taken out is the length modulo \<open>2\<^sup>24\<close>, the sequence number
  and the fields. A reading packet gives the sequence number and the fields back, and the next read throws; but if the fields
  take \<open>2\<^sup>24\<close> bytes or more it rejects the packet as broken. Integers and string lengths between \<open>2\<^sup>16\<close> and \<open>2\<^sup>24\<close> are
  excluded unless the variable they are read into happens to hold a zero in its fourth byte.
\<close>

theorem mysql_packet_roundtrip:
  assumes "mem_inv m hs" and "\<forall>v \<in> set vs. my_ok junk v" and "seq < 256"
    and "room m hs Packet_new (cost m (max 20 approx) + my_cost m vs + (64 + 6 * mp_chunksize m) + 1)"
  shows "\<exists>q m1 p2 m2 q3 m3 ret m4. MysqlOut_new approx seq m = Inr (q, m1) \<and> out_each my_write vs (my_pkt q, m1) = Inr (p2, m2) \<and>
    Mysql_WriteHead (q\<lparr>my_pkt := p2\<rparr>, m2) = Inr (q3, m3) \<and> PacketOutBase_FetchData (my_pkt q3, m3) = Inr (ret, m4) \<and>
    data_bytes m4 ret = le_bytes 3 (length (my_bytes vs)) @ le_bytes 1 seq @ my_bytes vs \<and>
    (if length (my_bytes vs) < 16777216
     then \<exists>r r'. Mysql_ReadHead m4 (MysqlIn_new ret) = Inr r \<and> my_sequence_id r = seq \<and>
       in_each (my_read junk) (map my_kind vs) m4 (my_pkt r) = Inr (vs, r') \<and> PacketInBase_GetByte 1 m4 r' = Inl NoMoreData
     else Mysql_ReadHead m4 (MysqlIn_new ret) = Inl ExceptionThrown)"
proof -
  obtain q m1 p2 m2 q3 m3 ret m4 where w: "MysqlOut_new approx seq m = Inr (q, m1)" "out_each my_write vs (my_pkt q, m1) = Inr (p2, m2)"
      "Mysql_WriteHead (q\<lparr>my_pkt := p2\<rparr>, m2) = Inr (q3, m3)" "PacketOutBase_FetchData (my_pkt q3, m3) = Inr (ret, m4)"
      "data_bytes m4 ret = my_wire seq vs" "mem_inv m4 (ret @ pk_data (my_pkt q3) @ hs)" "4 + length (my_bytes vs) < 4294967295"
    using mysql_written [OF assms] by blast
  have wf: "all_wf m4 ret" using w(6) by (auto simp: mem_inv_def)
  have size: "4 \<le> length (data_bytes m4 ret)" "length (data_bytes m4 ret) < 4294967296" using w(5,7) by (simp_all add: my_wire_def)
  have hd: "le_val (take 3 (data_bytes m4 ret)) = length (my_bytes vs) mod 16777216" "le_val (take 1 (drop 3 (data_bytes m4 ret))) = seq"
      "length (data_bytes m4 ret) = length (my_bytes vs) + 4"
    using w(5) assms(3) le_val_le_bytes [of 3 "length (my_bytes vs)"] by (simp_all add: my_wire_def unsigned_of_nat take_bit_nat_eq_self)
  note h = mysql_head_read [OF wf size, unfolded hd]
  have "if length (my_bytes vs) < 16777216
     then \<exists>r r'. Mysql_ReadHead m4 (MysqlIn_new ret) = Inr r \<and> my_sequence_id r = seq \<and>
       in_each (my_read junk) (map my_kind vs) m4 (my_pkt r) = Inr (vs, r') \<and> PacketInBase_GetByte 1 m4 r' = Inl NoMoreData
     else Mysql_ReadHead m4 (MysqlIn_new ret) = Inl ExceptionThrown"
  proof (cases "length (my_bytes vs) < 16777216")
    case False
    then have "length (my_bytes vs) mod 16777216 \<noteq> length (my_bytes vs)" by (metis mod_less_divisor zero_less_numeral)
    then show ?thesis using h(1) False by simp
  next
    case True
    then obtain p where p: "Mysql_ReadHead m4 (MysqlIn_new ret) = Inr \<lparr>my_pkt = p, my_payload = length (my_bytes vs), my_sequence_id = seq\<rparr>"
        "pin_wf m4 p" "pk_pos p = 4" "content m4 p = data_bytes m4 ret" using h(2) by auto
    have d: "drop (pk_pos p) (content m4 p) = my_bytes vs @ []" using p(3,4) w(5) by (simp add: my_wire_def)
    obtain r' where r: "in_each (my_read junk) (map my_kind vs) m4 p = Inr (map (\<lambda>v. v) vs, r')" "advanced m4 p (length (my_bytes vs)) r'"
      using my.read_each [OF p(2) assms(2) d] by blast
    have r': "pin_wf m4 r'" "pk_pos r' = 4 + length (my_bytes vs)" "content m4 r' = data_bytes m4 ret" using r(2) p(3,4) by (simp_all add: advanced_def)
    have "PacketInBase_GetByte 1 m4 r' = Inl NoMoreData"
      by (rule GetByte_spec(2) [OF r'(1)]) (use r' w(7) hd(3) in simp_all)
    then show ?thesis using p(1) r(1) True by simp
  qed
  then show ?thesis using w unfolding my_wire_def by blast
qed

theorem mysql_packet_roundtrip_witness:
  "\<exists>q m1 p2 m2 q3 m3 ret m4. MysqlOut_new 30 1 (MemoryPool_new (\<lambda>_ _. 0) 3 2) = Inr (q, m1) \<and>
    out_each my_write [MyFixed 2 513, MyVar 300, MyLenString [7, 8], MyNulString [9]] (my_pkt q, m1) = Inr (p2, m2) \<and>
    Mysql_WriteHead (q\<lparr>my_pkt := p2\<rparr>, m2) = Inr (q3, m3) \<and> PacketOutBase_FetchData (my_pkt q3, m3) = Inr (ret, m4) \<and>
    data_bytes m4 ret = [10, 0, 0, 1, 1, 2, 252, 44, 1, 2, 7, 8, 9, 0]"
proof -
  let ?vs = "[MyFixed 2 513, MyVar 300, MyLenString [7, 8], MyNulString [9]]" and ?m = "MemoryPool_new (\<lambda>_ _. 0) 3 2"
  have ok: "\<forall>v \<in> set ?vs. my_ok 5 v" by (simp add: stray_def)
  have r: "room ?m [] Packet_new (cost ?m (max 20 30) + my_cost ?m ?vs + (64 + 6 * mp_chunksize ?m) + 1)"
    by (rule new_pool_room) (simp add: cost_def cost2_def new_pool_chunksize var_bytes_def)
  have e: "le_bytes 3 (length (my_bytes ?vs)) @ le_bytes 1 1 @ my_bytes ?vs = [10, 0, 0, 1, 1, 2, 252, 44, 1, 2, 7, 8, 9, 0]"
    by (simp add: var_bytes_def le_bytes_small)
  have sq: "(1 :: nat) < 256" by simp
  show ?thesis using mysql_packet_roundtrip [OF new_pool_inv ok sq r] unfolding e by blast
qed

text \<open>
  Integers of variable length. An integer below \<open>2\<^sup>64\<close> is read back exactly if it takes one, three or nine bytes, or if the fourth byte of the
  local variable that receives integers of four bytes happens to be zero: the reader does not initialise it.
\<close>

lemma mysql_variable_integer_iff:
  assumes "pin_wf m p" and "drop (pk_pos p) (content m p) = var_bytes v @ r" and "v < 2 ^ 64"
  shows "(\<exists>p'. Mysql_ReadVariableInteger 64 junk m p = Inr (v, p')) \<longleftrightarrow> (65536 \<le> v \<and> v < 16777216 \<longrightarrow> junk mod 2 ^ 32 < 2 ^ 24)"
proof -
  obtain p' where p': "Mysql_ReadVariableInteger 64 junk m p = Inr ((v + stray junk v) mod 2 ^ 64, p')"
    using ReadVariableInteger_next [OF assms] by blast
  have "(v + stray junk v) mod 2 ^ 64 = v \<longleftrightarrow> (65536 \<le> v \<and> v < 16777216 \<longrightarrow> junk mod 2 ^ 32 < 2 ^ 24)"
  proof (cases "65536 \<le> v \<and> v < 16777216")
    case True
    have "junk mod 2 ^ 32 div 16777216 * 16777216 \<le> junk mod 2 ^ 32" by (rule div_times_less_eq_dividend)
    also have "\<dots> < 2 ^ 32" by simp
    finally have "v + stray junk v < 2 ^ 64" using True by (simp add: stray_def)
    then show ?thesis using True by (simp add: stray_def div_eq_0_iff)
  qed (use assms(3) in \<open>auto simp: stray_def\<close>)
  then show ?thesis using p' by auto
qed


lemma mysql_variable_integer_iff_witness:
  "\<exists>p. PacketInBase_new (cl_recvq (loaded_client (var_bytes 70000))) = Inr p \<and>
    \<not> (\<exists>p'. Mysql_ReadVariableInteger 64 16777216 (loaded_mem (var_bytes 70000)) p = Inr (70000, p'))"
proof -
  have "var_bytes 70000 \<noteq> []" "length (var_bytes 70000) < 4294967296" by (simp_all add: var_bytes_def)
  from loaded_reader [OF this] obtain p where p: "PacketInBase_new (cl_recvq (loaded_client (var_bytes 70000))) = Inr p"
      "pin_wf (loaded_mem (var_bytes 70000)) p" "content (loaded_mem (var_bytes 70000)) p = var_bytes 70000" "pk_pos p = 0" by blast
  have "drop (pk_pos p) (content (loaded_mem (var_bytes 70000)) p) = var_bytes 70000 @ []" using p(3,4) by simp
  from mysql_variable_integer_iff [OF p(2) this, of 16777216] show ?thesis using p(1) by auto
qed

end
