(* ===== verification/MysqlRow.thy ===== *)
theory MysqlRow
  imports MysqlPacket
begin

text \<open>
  Rows of MySQL result sets in the binary protocol: \<open>base/dbo_bk/metadata.*\<close> and \<open>internal/rowreaderbinary.*\<close>. Theorems: a row is read back
  column by column; the typed reads return the column's own bytes or throw, whatever packet was received and whatever the memory of
  the row held before.
\<close>

section \<open>Metadata\<close>

abbreviation MYSQL_TYPE_DECIMAL :: nat where "MYSQL_TYPE_DECIMAL \<equiv> 0"
abbreviation MYSQL_TYPE_TINY :: nat where "MYSQL_TYPE_TINY \<equiv> 1"
abbreviation MYSQL_TYPE_SHORT :: nat where "MYSQL_TYPE_SHORT \<equiv> 2"
abbreviation MYSQL_TYPE_LONG :: nat where "MYSQL_TYPE_LONG \<equiv> 3"
abbreviation MYSQL_TYPE_FLOAT :: nat where "MYSQL_TYPE_FLOAT \<equiv> 4"
abbreviation MYSQL_TYPE_DOUBLE :: nat where "MYSQL_TYPE_DOUBLE \<equiv> 5"
abbreviation MYSQL_TYPE_NULL :: nat where "MYSQL_TYPE_NULL \<equiv> 6"
abbreviation MYSQL_TYPE_LONGLONG :: nat where "MYSQL_TYPE_LONGLONG \<equiv> 8"
abbreviation MYSQL_TYPE_INT24 :: nat where "MYSQL_TYPE_INT24 \<equiv> 9"
abbreviation MYSQL_TYPE_DATETIME :: nat where "MYSQL_TYPE_DATETIME \<equiv> 12"
abbreviation MYSQL_TYPE_YEAR :: nat where "MYSQL_TYPE_YEAR \<equiv> 13"
abbreviation MYSQL_TYPE_VARCHAR :: nat where "MYSQL_TYPE_VARCHAR \<equiv> 15"
abbreviation MYSQL_TYPE_BIT :: nat where "MYSQL_TYPE_BIT \<equiv> 16"
abbreviation MYSQL_TYPE_NEWDECIMAL :: nat where "MYSQL_TYPE_NEWDECIMAL \<equiv> 246"
abbreviation MYSQL_TYPE_TINY_BLOB :: nat where "MYSQL_TYPE_TINY_BLOB \<equiv> 249"
abbreviation MYSQL_TYPE_MEDIUM_BLOB :: nat where "MYSQL_TYPE_MEDIUM_BLOB \<equiv> 250"
abbreviation MYSQL_TYPE_LONG_BLOB :: nat where "MYSQL_TYPE_LONG_BLOB \<equiv> 251"
abbreviation MYSQL_TYPE_BLOB :: nat where "MYSQL_TYPE_BLOB \<equiv> 252"
abbreviation MYSQL_TYPE_VAR_STRING :: nat where "MYSQL_TYPE_VAR_STRING \<equiv> 253"
abbreviation MYSQL_TYPE_STRING :: nat where "MYSQL_TYPE_STRING \<equiv> 254"

record columndef =
  cd_catalog :: bytes
  cd_schema :: bytes
  cd_table :: bytes
  cd_org_table :: bytes
  cd_name :: bytes
  cd_org_name :: bytes
  cd_fixed_length :: nat
  cd_charset :: nat
  cd_column_length :: nat
  cd_type :: nat
  cd_flag :: nat
  cd_decimals :: nat
  cd_filter :: nat

definition ColumnDefinition_Parse :: "nat \<Rightarrow> mem \<Rightarrow> pkt \<Rightarrow> (columndef \<times> pkt) result" where
  "ColumnDefinition_Parse junk m p =
     bindE (Mysql_ReadLengthEncodedString junk m p) (\<lambda>(catalog, p1).
     bindE (Mysql_ReadLengthEncodedString junk m p1) (\<lambda>(schema, p2).
     bindE (Mysql_ReadLengthEncodedString junk m p2) (\<lambda>(table, p3).
     bindE (Mysql_ReadLengthEncodedString junk m p3) (\<lambda>(org_table, p4).
     bindE (Mysql_ReadLengthEncodedString junk m p4) (\<lambda>(name, p5).
     bindE (Mysql_ReadLengthEncodedString junk m p5) (\<lambda>(org_name, p6).
     bindE (Mysql_ReadVariableInteger 16 junk m p6) (\<lambda>(fixed_length, p7).
     bindE (Mysql_ReadFixedInteger 2 0 m p7) (\<lambda>(charset, p8).
     bindE (Mysql_ReadFixedInteger 4 0 m p8) (\<lambda>(column_length, p9).
     bindE (Mysql_ReadFixedInteger 1 0 m p9) (\<lambda>(ty, p10).
     bindE (Mysql_ReadFixedInteger 2 0 m p10) (\<lambda>(flag, p11).
     bindE (Mysql_ReadFixedInteger 1 0 m p11) (\<lambda>(decimals, p12).
     bindE (Mysql_ReadFixedInteger 2 0 m p12) (\<lambda>(filt, p13).
       Inr (\<lparr>cd_catalog = catalog, cd_schema = schema, cd_table = table, cd_org_table = org_table, cd_name = name, cd_org_name = org_name,
         cd_fixed_length = fixed_length, cd_charset = charset, cd_column_length = column_length, cd_type = ty, cd_flag = flag,
         cd_decimals = decimals, cd_filter = filt\<rparr>, p13))))))))))))))"

record rsmeta =
  md_columns :: "columndef list"
  md_num_columns :: nat

definition GetColumnDefinition :: "rsmeta \<Rightarrow> nat \<Rightarrow> columndef result" where
  "GetColumnDefinition md idx = (if idx < length (md_columns md) then Inr (md_columns md ! idx) else Inl OutOfRange)"

section \<open>The binary reader\<close>

text \<open>A field is a union of eight bytes, here their value; what is written into it replaces its first bytes.\<close>

record rowbinary =
  rb_pkt :: pkt
  rb_bitmap :: bytes
  rb_fields :: "nat list"

text \<open>\<open>Swap\<close> into a new packet: its position stays at zero.\<close>

definition Mysql_Swap :: "pkt \<Rightarrow> pkt" where
  "Mysql_Swap data = Packet_new\<lparr>pk_data := pk_data data, pk_capacity := pk_capacity data, pk_size := pk_size data\<rparr>"

definition bitmap_IsNull :: "bytes \<Rightarrow> nat \<Rightarrow> bool result" where
  "bitmap_IsNull bitmap column = (let byte_pos = u32 (column + 2) div 8; bit_pos = u32 (column + 2) mod 8 in
     if byte_pos < length bitmap then Inr (bit (bitmap ! byte_pos) bit_pos) else Inl OutOfRange)"

definition put_bytes :: "nat \<Rightarrow> nat \<Rightarrow> nat \<Rightarrow> nat" where
  "put_bytes n v old = v mod 256 ^ n + old div 256 ^ n * 256 ^ n"

definition binary_column :: "nat \<Rightarrow> mem \<Rightarrow> nat \<Rightarrow> pkt \<times> nat \<Rightarrow> (pkt \<times> nat) result" where
  "binary_column junk m ty s = (case s of (p, f) \<Rightarrow>
     if ty = MYSQL_TYPE_TINY then bindE (Mysql_ReadFixedInteger 1 f m p) (\<lambda>(v, p1). Inr (p1, v))
     else if ty = MYSQL_TYPE_SHORT \<or> ty = MYSQL_TYPE_YEAR then bindE (Mysql_ReadFixedInteger 2 f m p) (\<lambda>(v, p1). Inr (p1, v))
     else if ty = MYSQL_TYPE_LONG \<or> ty = MYSQL_TYPE_FLOAT \<or> ty = MYSQL_TYPE_INT24 then bindE (Mysql_ReadFixedInteger 4 f m p) (\<lambda>(v, p1). Inr (p1, v))
     else if ty = MYSQL_TYPE_LONGLONG \<or> ty = MYSQL_TYPE_DOUBLE then bindE (Mysql_ReadFixedInteger 8 f m p) (\<lambda>(v, p1). Inr (p1, v))
     else if ty \<in> {MYSQL_TYPE_DECIMAL, MYSQL_TYPE_VARCHAR, MYSQL_TYPE_BIT, MYSQL_TYPE_NEWDECIMAL, MYSQL_TYPE_TINY_BLOB, MYSQL_TYPE_MEDIUM_BLOB,
         MYSQL_TYPE_LONG_BLOB, MYSQL_TYPE_BLOB, MYSQL_TYPE_VAR_STRING, MYSQL_TYPE_STRING} then
       bindE (Mysql_ReadVariableInteger 32 junk m p) (\<lambda>(len, p1). bindE (Mysql_Skip (int len) p1) (\<lambda>p2. Inr (p2, put_bytes 4 (pk_pos p) f)))
     else Inl ExceptionThrown)"

text \<open>The loop over the columns; \<open>old\<close> are the fields as \<open>new\<close> leaves them, not initialised.\<close>

fun binary_loop :: "nat \<Rightarrow> mem \<Rightarrow> rsmeta \<Rightarrow> bytes \<Rightarrow> nat \<Rightarrow> nat list \<Rightarrow> pkt \<Rightarrow> (nat list \<times> pkt) result" where
  "binary_loop junk m md bitmap column [] p = Inr ([], p)"
| "binary_loop junk m md bitmap column (old # olds) p =
     bindE (GetColumnDefinition md column) (\<lambda>cm.
     bindE (bitmap_IsNull bitmap column) (\<lambda>null.
     bindE (if null then Inr (p, old) else binary_column junk m (cd_type cm) (p, old)) (\<lambda>(p1, f).
     bindE (binary_loop junk m md bitmap (column + 1) olds p1) (\<lambda>(fs, p2). Inr (f # fs, p2)))))"

definition RowReaderBinary_ParseRowPacket :: "nat \<Rightarrow> (nat \<Rightarrow> nat) \<Rightarrow> mem \<Rightarrow> rsmeta \<Rightarrow> pkt \<Rightarrow> rowbinary result" where
  "RowReaderBinary_ParseRowPacket junk uninit m md data =
     bindE (Packet_SkipTo (Mysql_Swap data) 5) (\<lambda>p.
     bindE (Mysql_ReadFixedString (u32 (md_num_columns md + 7 + 2) div 8) m p) (\<lambda>(bitmap, p1).
     bindE (binary_loop junk m md bitmap 0 (map uninit [0..<md_num_columns md]) p1) (\<lambda>(fs, p2).
       Inr \<lparr>rb_pkt = p2, rb_bitmap = bitmap, rb_fields = fs\<rparr>)))"

text \<open>
  The typed reads: \<open>types\<close> are the column types accepted, \<open>n\<close> the bytes of the member of the union that is returned; signed and floating-point
  values are given by their bits.
\<close>

definition RowReaderBinary_field :: "rowbinary \<Rightarrow> nat \<Rightarrow> nat result" where
  "RowReaderBinary_field r column = (if column < length (rb_fields r) then Inr (rb_fields r ! column) else Inl OutOfRange)"

definition RowReaderBinary_typed :: "nat set \<Rightarrow> nat \<Rightarrow> rsmeta \<Rightarrow> rowbinary \<Rightarrow> nat \<Rightarrow> nat result" where
  "RowReaderBinary_typed types n md r column = bindE (GetColumnDefinition md column) (\<lambda>cm.
     if cd_type cm \<notin> types then Inl ExceptionThrown
     else bindE (bitmap_IsNull (rb_bitmap r) column) (\<lambda>null. if null then Inl ExceptionThrown
     else bindE (RowReaderBinary_field r column) (\<lambda>f. Inr (f mod 256 ^ n))))"

definition RowReaderBinary_GetBoolean :: "rowbinary \<Rightarrow> nat \<Rightarrow> bool result" where
  "RowReaderBinary_GetBoolean r column = bindE (RowReaderBinary_field r column) (\<lambda>f. Inr (f mod 256 \<noteq> 0))"

definition RowReaderBinary_GetInt8 :: "rsmeta \<Rightarrow> rowbinary \<Rightarrow> nat \<Rightarrow> nat result" where
  "RowReaderBinary_GetInt8 = RowReaderBinary_typed {MYSQL_TYPE_TINY} 1"

definition RowReaderBinary_GetUInt8 :: "rsmeta \<Rightarrow> rowbinary \<Rightarrow> nat \<Rightarrow> nat result" where
  "RowReaderBinary_GetUInt8 = RowReaderBinary_typed {MYSQL_TYPE_TINY} 1"

definition RowReaderBinary_GetInt16 :: "rsmeta \<Rightarrow> rowbinary \<Rightarrow> nat \<Rightarrow> nat result" where
  "RowReaderBinary_GetInt16 = RowReaderBinary_typed {MYSQL_TYPE_SHORT, MYSQL_TYPE_YEAR} 2"

definition RowReaderBinary_GetUInt16 :: "rsmeta \<Rightarrow> rowbinary \<Rightarrow> nat \<Rightarrow> nat result" where
  "RowReaderBinary_GetUInt16 = RowReaderBinary_typed {MYSQL_TYPE_SHORT} 2"

definition RowReaderBinary_GetInt32 :: "rsmeta \<Rightarrow> rowbinary \<Rightarrow> nat \<Rightarrow> nat result" where
  "RowReaderBinary_GetInt32 = RowReaderBinary_typed {MYSQL_TYPE_LONG, MYSQL_TYPE_INT24} 4"

definition RowReaderBinary_GetUInt32 :: "rsmeta \<Rightarrow> rowbinary \<Rightarrow> nat \<Rightarrow> nat result" where
  "RowReaderBinary_GetUInt32 = RowReaderBinary_typed {MYSQL_TYPE_LONG, MYSQL_TYPE_INT24} 4"

definition RowReaderBinary_GetInt64 :: "rsmeta \<Rightarrow> rowbinary \<Rightarrow> nat \<Rightarrow> nat result" where
  "RowReaderBinary_GetInt64 = RowReaderBinary_typed {MYSQL_TYPE_LONGLONG} 8"

definition RowReaderBinary_GetUInt64 :: "rsmeta \<Rightarrow> rowbinary \<Rightarrow> nat \<Rightarrow> nat result" where
  "RowReaderBinary_GetUInt64 = RowReaderBinary_typed {MYSQL_TYPE_LONGLONG} 8"

definition RowReaderBinary_GetFloat :: "rsmeta \<Rightarrow> rowbinary \<Rightarrow> nat \<Rightarrow> nat result" where
  "RowReaderBinary_GetFloat = RowReaderBinary_typed {MYSQL_TYPE_FLOAT} 4"

definition RowReaderBinary_GetDouble :: "rsmeta \<Rightarrow> rowbinary \<Rightarrow> nat \<Rightarrow> nat result" where
  "RowReaderBinary_GetDouble = RowReaderBinary_typed {MYSQL_TYPE_DOUBLE} 8"

definition RowReaderBinary_GetString :: "nat \<Rightarrow> mem \<Rightarrow> rsmeta \<Rightarrow> rowbinary \<Rightarrow> nat \<Rightarrow> (bytes \<times> rowbinary) result" where
  "RowReaderBinary_GetString junk m md r column =
     bindE (RowReaderBinary_typed {MYSQL_TYPE_VAR_STRING, MYSQL_TYPE_BLOB, MYSQL_TYPE_TINY_BLOB, MYSQL_TYPE_MEDIUM_BLOB, MYSQL_TYPE_LONG_BLOB,
       MYSQL_TYPE_BIT, MYSQL_TYPE_STRING, MYSQL_TYPE_VARCHAR} 4 md r column) (\<lambda>buffer_pos.
     bindE (Packet_SkipTo (rb_pkt r) buffer_pos) (\<lambda>p.
     bindE (Mysql_ReadLengthEncodedString junk m p) (\<lambda>(ret, p1). Inr (ret, r\<lparr>rb_pkt := p1\<rparr>))))"


section \<open>Rows of the binary protocol\<close>

datatype mycell = CNull | CBits nat | CText bytes

definition bits_width :: "nat \<Rightarrow> nat option" where
  "bits_width ty = (if ty = MYSQL_TYPE_TINY then Some 1
     else if ty = MYSQL_TYPE_SHORT \<or> ty = MYSQL_TYPE_YEAR then Some 2
     else if ty = MYSQL_TYPE_LONG \<or> ty = MYSQL_TYPE_FLOAT \<or> ty = MYSQL_TYPE_INT24 then Some 4
     else if ty = MYSQL_TYPE_LONGLONG \<or> ty = MYSQL_TYPE_DOUBLE then Some 8 else None)"

definition text_types :: "nat set" where
  "text_types = {MYSQL_TYPE_DECIMAL, MYSQL_TYPE_VARCHAR, MYSQL_TYPE_BIT, MYSQL_TYPE_NEWDECIMAL, MYSQL_TYPE_TINY_BLOB, MYSQL_TYPE_MEDIUM_BLOB,
     MYSQL_TYPE_LONG_BLOB, MYSQL_TYPE_BLOB, MYSQL_TYPE_VAR_STRING, MYSQL_TYPE_STRING}"

fun cell_bytes :: "nat \<Rightarrow> mycell \<Rightarrow> bytes" where
  "cell_bytes ty CNull = []"
| "cell_bytes ty (CBits v) = (case bits_width ty of Some n \<Rightarrow> le_bytes n v | None \<Rightarrow> [])"
| "cell_bytes ty (CText str) = var_bytes (length str) @ str"

fun cell_ok :: "nat \<Rightarrow> nat \<Rightarrow> mycell \<Rightarrow> bool" where
  "cell_ok junk ty CNull \<longleftrightarrow> True"
| "cell_ok junk ty (CBits v) \<longleftrightarrow> (case bits_width ty of Some n \<Rightarrow> v < 256 ^ n | None \<Rightarrow> False)"
| "cell_ok junk ty (CText str) \<longleftrightarrow> ty \<in> text_types \<and> length str < 2 ^ 32 \<and> stray junk (length str) = 0"

text \<open>Bit \<open>i + 2\<close> of the bitmap tells that column \<open>i\<close> is null.\<close>

definition bitmap_byte :: "mycell list \<Rightarrow> nat \<Rightarrow> 8 word" where
  "bitmap_byte cells k = foldr (\<lambda>j w. if 2 \<le> 8 * k + j \<and> 8 * k + j - 2 < length cells \<and> cells ! (8 * k + j - 2) = CNull then w OR push_bit j 1 else w) [0..<8] 0"

definition null_bitmap :: "mycell list \<Rightarrow> bytes" where
  "null_bitmap cells = map (bitmap_byte cells) [0..<(length cells + 9) div 8]"

definition row_bytes :: "nat list \<Rightarrow> mycell list \<Rightarrow> bytes" where
  "row_bytes typs cells = null_bitmap cells @ concat (map2 cell_bytes typs cells)"

lemma bit_foldr_OR:
  fixes w0 :: "8 word"
  assumes "j < 8"
  shows "bit (foldr (\<lambda>j w. if P j then w OR push_bit j 1 else w) js w0) j \<longleftrightarrow> bit w0 j \<or> (j \<in> set js \<and> P j)"
  using assms by (induction js) (auto simp: bit_simps)

lemma bitmap_null:
  assumes "i < length cells" and "length cells < 4294967280"
  shows "bitmap_IsNull (null_bitmap cells) i = Inr (cells ! i = CNull)"
proof -
  let ?k = "(i + 2) div 8" and ?j = "(i + 2) mod 8"
  have e: "8 * ?k + ?j = i + 2" by simp
  have "(i + 10) div 8 \<le> (length cells + 9) div 8" using assms(1) by (intro div_le_mono) simp
  moreover have "(i + 10) div 8 = ?k + 1" using div_add_self2 [of 8 "i + 2"] by simp
  ultimately have "?k < (length cells + 9) div 8" by simp
  then have "null_bitmap cells ! ?k = bitmap_byte cells ?k" "?k < length (null_bitmap cells)" by (simp_all add: null_bitmap_def)
  moreover have "bit (bitmap_byte cells ?k) ?j \<longleftrightarrow> cells ! i = CNull"
    using bit_foldr_OR [of ?j _ "[0..<8]" 0] assms(1) e by (simp add: bitmap_byte_def)
  moreover have "u32 (i + 2) = i + 2" using assms by (simp add: u32_def)
  ultimately show ?thesis by (simp add: bitmap_IsNull_def Let_def)
qed

text \<open>Reading keeps the capacity of the packet.\<close>

lemma GetByte_capacity: "PacketInBase_GetByte n m p = Inr (bs, p') \<Longrightarrow> pk_capacity p' = pk_capacity p"
  by (auto simp: PacketInBase_GetByte_def bindE_eq_Inr split: if_splits)

lemma ReadFixedInteger_capacity: "Mysql_ReadFixedInteger n old m p = Inr (v, p') \<Longrightarrow> pk_capacity p' = pk_capacity p"
  by (auto simp: Mysql_ReadFixedInteger_def bindE_eq_Inr dest: GetByte_capacity)

lemma ReadVariableInteger_capacity: "Mysql_ReadVariableInteger w junk m p = Inr (v, p') \<Longrightarrow> pk_capacity p' = pk_capacity p"
  by (auto simp: Mysql_ReadVariableInteger_def bindE_eq_Inr dest!: ReadFixedInteger_capacity split: if_splits)

lemma SkipTo_capacity: "Packet_SkipTo p pos = Inr p' \<Longrightarrow> pk_capacity p' = pk_capacity p"
  by (auto simp: Packet_SkipTo_def Packet_UpdateSize_def assertE_def bindE_eq_Inr Let_def split: if_splits)

definition pin_full :: "mem \<Rightarrow> pkt \<Rightarrow> bool" where
  "pin_full m p \<longleftrightarrow> pin_wf m p \<and> pk_capacity p = pk_size p"

lemma advanced_full:
  assumes "pin_full m p" and "advanced m p k p'" and "pk_capacity p' = pk_capacity p"
  shows "pin_full m p'"
  using assms length_content_pin [of m p] length_content_pin [of m p'] by (auto simp: pin_full_def advanced_def)

text \<open>What a parsed field shows of its cell.\<close>

fun shows_cell :: "bytes \<Rightarrow> nat \<Rightarrow> mycell \<Rightarrow> nat \<Rightarrow> bool" where
  "shows_cell bs ty CNull f \<longleftrightarrow> True"
| "shows_cell bs ty (CBits v) f \<longleftrightarrow> (\<exists>n. bits_width ty = Some n \<and> f mod 256 ^ n = v)"
| "shows_cell bs ty (CText str) f \<longleftrightarrow> f mod 256 ^ 4 \<le> length bs \<and> (\<exists>r. drop (f mod 256 ^ 4) bs = (var_bytes (length str) @ str) @ r)"

lemma put_bytes_mod: "put_bytes n v old mod 256 ^ n = v mod 256 ^ n"
  by (simp add: put_bytes_def)

lemma binary_column_reads:
  assumes full: "pin_full m p" and ok: "cell_ok junk ty c" and nn: "c \<noteq> CNull" and d: "drop (pk_pos p) (content m p) = cell_bytes ty c @ r"
  shows "\<exists>p' f. binary_column junk m ty (p, old) = Inr (p', f) \<and> pin_full m p' \<and> content m p' = content m p \<and>
    drop (pk_pos p') (content m p') = r \<and> shows_cell (content m p) ty c f"
proof (cases c)
  case (CBits v)
  have wf: "pin_wf m p" using full by (simp add: pin_full_def)
  obtain n where n: "bits_width ty = Some n" "v < 256 ^ n" using ok CBits by (auto split: option.splits)
  obtain p' where p': "Mysql_ReadFixedInteger n old m p = Inr (put_bytes n v old, p')" "advanced m p n p'" "drop (pk_pos p') (content m p') = r"
    using ReadFixedInteger_next [OF wf, of n v r old] d CBits n by (auto simp: put_bytes_def)
  have "binary_column junk m ty (p, old) = bindE (Mysql_ReadFixedInteger n old m p) (\<lambda>(v, p1). Inr (p1, v))"
    using n(1) by (auto simp: binary_column_def bits_width_def split: if_splits)
  moreover have "pin_full m p'" using advanced_full [OF full p'(2) ReadFixedInteger_capacity [OF p'(1)]] .
  ultimately show ?thesis using p' n CBits put_bytes_mod [of n v old] by (auto simp: advanced_def)
next
  case (CText str)
  have wf: "pin_wf m p" using full by (simp add: pin_full_def)
  have t: "ty \<in> text_types" "length str < 2 ^ 32" "stray junk (length str) = 0" using ok CText by simp_all
  obtain p1 where p1: "Mysql_ReadVariableInteger 32 junk m p = Inr (length str, p1)" "advanced m p (length (var_bytes (length str))) p1"
      "drop (pk_pos p1) (content m p1) = str @ r"
    using ReadVariableInteger_next [OF wf, of "length str" "str @ r" 32 junk] d CText t by auto
  have f1: "pin_full m p1" using advanced_full [OF full p1(2) ReadVariableInteger_capacity [OF p1(1)]] .
  have w1: "pin_wf m p1" "pk_capacity p1 = pk_size p1" using f1 by (simp_all add: pin_full_def)
  have len: "pk_pos p1 + length str \<le> pk_size p1" "pk_size p1 < 4294967296" "pk_pos p1 \<le> pk_size p1"
    using arg_cong [OF p1(3), of length] length_content_pin [OF w1(1)] w1(1) by (auto simp: pin_wf_def)
  obtain p2 where p2: "Packet_SkipTo p1 (pk_pos p1 + length str) = Inr p2" "pin_wf m p2" "pk_pos p2 = pk_pos p1 + length str" "content m p2 = content m p1"
    using SkipTo_pin [OF w1(1) len(1) w1(2)] by blast
  have "nat ((int (pk_pos p1) + int (length str)) mod 4294967296) = pk_pos p1 + length str"
    using len by (simp add: nat_mod_distrib nat_add_distrib)
  then have sk: "Mysql_Skip (int (length str)) p1 = Inr p2" using p2(1) unfolding Mysql_Skip_def by (simp only:)
  have "binary_column junk m ty (p, old) = bindE (Mysql_ReadVariableInteger 32 junk m p) (\<lambda>(len, p1).
      bindE (Mysql_Skip (int len) p1) (\<lambda>p2. Inr (p2, put_bytes 4 (pk_pos p) old)))"
    using t(1) by (auto simp: binary_column_def text_types_def)
  then have "binary_column junk m ty (p, old) = Inr (p2, put_bytes 4 (pk_pos p) old)" using p1(1) sk by simp
  moreover have "pin_full m p2"
    using p2 SkipTo_capacity [OF p2(1)] w1 length_content_pin [OF p2(2)] length_content_pin [OF w1(1)] by (simp add: pin_full_def)
  moreover have "put_bytes 4 (pk_pos p) old mod 256 ^ 4 = pk_pos p"
    using put_bytes_mod [of 4 "pk_pos p" old] wf by (simp add: pin_wf_def)
  moreover have "drop (pk_pos p2) (content m p2) = r" using p1(3) p2(3,4) by (simp add: add.commute [of _ "length str"] flip: drop_drop)
  moreover have "content m p2 = content m p" using p2(4) p1(2) by (simp add: advanced_def)
  moreover have "pk_pos p \<le> length (content m p)" using wf length_content_pin [OF wf] by (simp add: pin_wf_def)
  ultimately show ?thesis using d CText by auto
qed (use nn in simp)


lemma binary_loop_reads:
  assumes "pin_full m p" and "length typs = length cells" and "length olds = length cells"
    and "\<And>i. i < length cells \<Longrightarrow> cell_ok junk (typs ! i) (cells ! i) \<and> bitmap_IsNull bitmap (k + i) = Inr (cells ! i = CNull) \<and>
      (\<exists>cm. GetColumnDefinition md (k + i) = Inr cm \<and> cd_type cm = typs ! i)"
    and "drop (pk_pos p) (content m p) = concat (map2 cell_bytes typs cells) @ r"
  shows "\<exists>fs p'. binary_loop junk m md bitmap k olds p = Inr (fs, p') \<and> pin_full m p' \<and> content m p' = content m p \<and>
    length fs = length cells \<and> (\<forall>i < length cells. shows_cell (content m p) (typs ! i) (cells ! i) (fs ! i))"
  using assms
proof (induction cells arbitrary: k p typs olds)
  case Nil
  then show ?case by simp
next
  case (Cons c cells)
  obtain ty typs' where t: "typs = ty # typs'" "length typs' = length cells" using Cons.prems(2) by (cases typs) auto
  obtain old olds' where o: "olds = old # olds'" "length olds' = length cells" using Cons.prems(3) by (cases olds) auto
  have c0: "cell_ok junk ty c" "bitmap_IsNull bitmap k = Inr (c = CNull)" using Cons.prems(4) [of 0] t by auto
  obtain cm where cm: "GetColumnDefinition md k = Inr cm" "cd_type cm = ty" using Cons.prems(4) [of 0] t by auto
  have d: "drop (pk_pos p) (content m p) = cell_bytes ty c @ (concat (map2 cell_bytes typs' cells) @ r)" using Cons.prems(5) t by simp
  have "\<exists>p1 f. (if c = CNull then Inr (p, old) else binary_column junk m ty (p, old)) = Inr (p1, f) \<and> pin_full m p1 \<and> content m p1 = content m p \<and>
    drop (pk_pos p1) (content m p1) = concat (map2 cell_bytes typs' cells) @ r \<and> shows_cell (content m p) ty c f"
  proof (cases "c = CNull")
    case True
    then show ?thesis using Cons.prems(1) d by simp
  next
    case False
    then show ?thesis using binary_column_reads [OF Cons.prems(1) c0(1) False d, of old] by simp
  qed
  then obtain p1 f where 1: "(if c = CNull then Inr (p, old) else binary_column junk m ty (p, old)) = Inr (p1, f)" "pin_full m p1"
      "content m p1 = content m p" "drop (pk_pos p1) (content m p1) = concat (map2 cell_bytes typs' cells) @ r" "shows_cell (content m p) ty c f" by blast
  have ih: "cell_ok junk (typs' ! i) (cells ! i) \<and> bitmap_IsNull bitmap (k + 1 + i) = Inr (cells ! i = CNull) \<and>
      (\<exists>cm. GetColumnDefinition md (k + 1 + i) = Inr cm \<and> cd_type cm = typs' ! i)" if "i < length cells" for i
    using Cons.prems(4) [of "Suc i"] t that by auto
  obtain fs p2 where 2: "binary_loop junk m md bitmap (k + 1) olds' p1 = Inr (fs, p2)" "pin_full m p2" "content m p2 = content m p1"
      "length fs = length cells" "\<forall>i < length cells. shows_cell (content m p1) (typs' ! i) (cells ! i) (fs ! i)"
    using Cons.IH [OF 1(2) t(2) o(2) ih 1(4)] by blast
  have "binary_loop junk m md bitmap k olds p = Inr (f # fs, p2)" using o cm c0(2) 1(1) 2(1) by (cases "c = CNull") auto
  moreover have "\<forall>i < length (c # cells). shows_cell (content m p) (typs ! i) ((c # cells) ! i) ((f # fs) ! i)"
    using 1(3,5) 2(5) t by (auto simp: nth_Cons split: nat.splits)
  ultimately show ?case using 1(3) 2 by (intro exI [of _ "f # fs"] exI [of _ p2]) simp
qed

text \<open>The whole packet: four bytes of head and a byte before the row.\<close>

definition row_read :: "nat \<Rightarrow> mem \<Rightarrow> nat list \<Rightarrow> mycell list \<Rightarrow> rowbinary \<Rightarrow> bool" where
  "row_read junk m typs cells r \<longleftrightarrow> length cells < 4294967280 \<and> rb_bitmap r = null_bitmap cells \<and> length (rb_fields r) = length cells \<and> pin_full m (rb_pkt r) \<and>
     (\<forall>i < length cells. shows_cell (content m (rb_pkt r)) (typs ! i) (cells ! i) (rb_fields r ! i))"

lemma ParseRowPacket_reads:
  assumes full: "pin_full m data" and c: "content m data = hd5 @ row_bytes typs cells" "length hd5 = 5"
    and md: "map cd_type (md_columns md) = typs" "md_num_columns md = length cells" "length typs = length cells" "length cells < 4294967280"
    and ok: "\<And>i. i < length cells \<Longrightarrow> cell_ok junk (typs ! i) (cells ! i)"
  shows "\<exists>r. RowReaderBinary_ParseRowPacket junk uninit m md data = Inr r \<and> row_read junk m typs cells r"
proof -
  have wf: "pin_wf m data" "pk_capacity data = pk_size data" using full by (simp_all add: pin_full_def)
  have sz: "5 \<le> pk_size data" using length_content_pin [OF wf(1)] c by simp
  have aw: "all_wf m (pk_data data)" "pk_size data = sum_list (map rm_count (pk_data data))" using wf(1) by (auto simp: pin_wf_def)
  obtain dd y where l: "SkipTo_loop (pk_data data) 5 0 = Inr (dd, 0 + y)" "cursor_at dd y 5" "same_views (pk_data data) dd" "all_wf m dd"
    using SkipTo_loop_spec [OF aw(1), of 5 0] sz aw(2) by auto
  let ?p = "\<lparr>pk_data = dd, pk_size = pk_size data, pk_pos = 5, pk_pos_y = y, pk_capacity = pk_size data\<rparr>"
  have sk: "Packet_SkipTo (Mysql_Swap data) 5 = Inr ?p"
    using sz wf(2) l(1) by (simp add: Packet_SkipTo_def Mysql_Swap_def Packet_new_def Packet_UpdateSize_def assertE_def Let_def)
  have wp: "pin_wf m ?p" using l sz aw(2) same_views_count [OF l(3)] wf(1) by (simp add: pin_wf_def)
  have cp: "content m ?p = content m data"
    using content_pin [OF wp] content_pin [OF wf(1)] same_views_bytes [OF l(3)] by simp
  let ?n = "(length cells + 9) div 8"
  have nb: "length (null_bitmap cells) = ?n" by (simp add: null_bitmap_def)
  have u: "u32 (md_num_columns md + 7 + 2) div 8 = length (null_bitmap cells)" using md(2,4) nb by (simp add: u32_def)
  have d: "drop (pk_pos ?p) (content m ?p) = null_bitmap cells @ concat (map2 cell_bytes typs cells)" using cp c by (simp add: row_bytes_def)
  obtain p1 where p1: "PacketInBase_GetByte (length (null_bitmap cells)) m ?p = Inr (null_bitmap cells, p1)"
      "advanced m ?p (length (null_bitmap cells)) p1" "drop (pk_pos p1) (content m p1) = concat (map2 cell_bytes typs cells) @ []"
    using GetByte_next [OF wp d] by auto
  have f1: "pin_full m p1"
    using advanced_full [OF _ p1(2) GetByte_capacity [OF p1(1)]] wp by (simp add: pin_full_def)
  have cols: "\<exists>cm. GetColumnDefinition md (0 + i) = Inr cm \<and> cd_type cm = typs ! i" if "i < length cells" for i
  proof -
    have "length (md_columns md) = length cells" using md(1,3) by (metis length_map)
    then show ?thesis using that md(1) nth_map [of i "md_columns md" cd_type] by (auto simp: GetColumnDefinition_def)
  qed
  have "length (map uninit [0..<md_num_columns md]) = length cells" using md(2) by simp
  from binary_loop_reads [OF f1 md(3) this _ p1(3), of junk "null_bitmap cells" 0 md] obtain fs p2 where
    2: "binary_loop junk m md (null_bitmap cells) 0 (map uninit [0..<md_num_columns md]) p1 = Inr (fs, p2)" "pin_full m p2" "content m p2 = content m p1"
      "length fs = length cells" "\<forall>i < length cells. shows_cell (content m p1) (typs ! i) (cells ! i) (fs ! i)"
    using ok cols bitmap_null [OF _ md(4)] by auto
  have "RowReaderBinary_ParseRowPacket junk uninit m md data = Inr \<lparr>rb_pkt = p2, rb_bitmap = null_bitmap cells, rb_fields = fs\<rparr>"
    unfolding RowReaderBinary_ParseRowPacket_def u Mysql_ReadFixedString_def using sk p1(1) 2(1) by simp
  then show ?thesis using 2 md(4) by (simp add: row_read_def)
qed


text \<open>The reads of numbers, with the types they accept and their widths.\<close>

definition numeric_getters :: "(nat set \<times> nat \<times> (rsmeta \<Rightarrow> rowbinary \<Rightarrow> nat \<Rightarrow> nat result)) list" where
  "numeric_getters = [({MYSQL_TYPE_TINY}, 1, RowReaderBinary_GetInt8), ({MYSQL_TYPE_TINY}, 1, RowReaderBinary_GetUInt8),
     ({MYSQL_TYPE_SHORT, MYSQL_TYPE_YEAR}, 2, RowReaderBinary_GetInt16), ({MYSQL_TYPE_SHORT}, 2, RowReaderBinary_GetUInt16),
     ({MYSQL_TYPE_LONG, MYSQL_TYPE_INT24}, 4, RowReaderBinary_GetInt32), ({MYSQL_TYPE_LONG, MYSQL_TYPE_INT24}, 4, RowReaderBinary_GetUInt32),
     ({MYSQL_TYPE_LONGLONG}, 8, RowReaderBinary_GetInt64), ({MYSQL_TYPE_LONGLONG}, 8, RowReaderBinary_GetUInt64),
     ({MYSQL_TYPE_FLOAT}, 4, RowReaderBinary_GetFloat), ({MYSQL_TYPE_DOUBLE}, 8, RowReaderBinary_GetDouble)]"

lemmas getter_defs = RowReaderBinary_GetInt8_def RowReaderBinary_GetUInt8_def RowReaderBinary_GetInt16_def RowReaderBinary_GetUInt16_def
  RowReaderBinary_GetInt32_def RowReaderBinary_GetUInt32_def RowReaderBinary_GetInt64_def RowReaderBinary_GetUInt64_def
  RowReaderBinary_GetFloat_def RowReaderBinary_GetDouble_def

lemma numeric_getter:
  assumes "(types, n, g) \<in> set numeric_getters"
  shows "g = RowReaderBinary_typed types n" and "ty \<in> types \<Longrightarrow> bits_width ty = Some n"
  using assms by (auto simp: numeric_getters_def getter_defs bits_width_def)

lemma columns_of:
  assumes "map cd_type (md_columns md) = typs" and "i < length typs"
  shows "\<exists>cm. GetColumnDefinition md i = Inr cm \<and> cd_type cm = typs ! i"
proof -
  have "i < length (md_columns md)" using assms by (metis length_map)
  then show ?thesis using assms nth_map [of i "md_columns md" cd_type] by (auto simp: GetColumnDefinition_def)
qed

lemma typed_of_row:
  assumes r: "row_read junk m typs cells r" and md: "map cd_type (md_columns md) = typs" "length typs = length cells" and i: "i < length cells"
  shows "typs ! i \<in> types \<Longrightarrow> cells ! i \<noteq> CNull \<Longrightarrow> RowReaderBinary_typed types n md r i = Inr (rb_fields r ! i mod 256 ^ n)"
    and "typs ! i \<notin> types \<or> cells ! i = CNull \<Longrightarrow> RowReaderBinary_typed types n md r i = Inl ExceptionThrown"
proof -
  obtain cm where "GetColumnDefinition md i = Inr cm" "cd_type cm = typs ! i" using columns_of [OF md(1)] md(2) i by auto
  moreover have "bitmap_IsNull (rb_bitmap r) i = Inr (cells ! i = CNull)" "i < length (rb_fields r)"
    using r bitmap_null [OF i] i by (simp_all add: row_read_def)
  ultimately show "typs ! i \<in> types \<Longrightarrow> cells ! i \<noteq> CNull \<Longrightarrow> RowReaderBinary_typed types n md r i = Inr (rb_fields r ! i mod 256 ^ n)"
    "typs ! i \<notin> types \<or> cells ! i = CNull \<Longrightarrow> RowReaderBinary_typed types n md r i = Inl ExceptionThrown"
    by (auto simp: RowReaderBinary_typed_def RowReaderBinary_field_def)
qed

text \<open>What a read that accepts the given types answers for a cell.\<close>

definition sent_value :: "nat set \<Rightarrow> nat \<Rightarrow> mycell \<Rightarrow> nat result" where
  "sent_value types ty c = (case c of CBits v \<Rightarrow> if ty \<in> types then Inr v else Inl ExceptionThrown | _ \<Rightarrow> Inl ExceptionThrown)"

lemma numeric_of_row:
  assumes r: "row_read junk m typs cells r" and md: "map cd_type (md_columns md) = typs" "length typs = length cells" and i: "i < length cells"
    and ok: "cell_ok junk (typs ! i) (cells ! i)" and g: "(types, n, g) \<in> set numeric_getters"
  shows "g md r i = sent_value types (typs ! i) (cells ! i)"
proof -
  note t = typed_of_row [OF r md i, of types n]
  note gt = numeric_getter [OF g]
  have sh: "shows_cell (content m (rb_pkt r)) (typs ! i) (cells ! i) (rb_fields r ! i)" using r i by (simp add: row_read_def)
  show ?thesis
  proof (cases "cells ! i")
    case CNull
    then show ?thesis using t(2) gt(1) by (simp add: sent_value_def)
  next
    case (CBits v)
    then show ?thesis using t gt sh by (cases "typs ! i \<in> types") (auto simp: sent_value_def)
  next
    case (CText str)
    then have "typs ! i \<in> text_types" using ok by simp
    then have "bits_width (typs ! i) = None" by (auto simp: text_types_def bits_width_def)
    then have "typs ! i \<notin> types" using gt(2) by auto
    then show ?thesis using t(2) gt(1) CText by (simp add: sent_value_def)
  qed
qed

lemma IsNull_of_row: "row_read junk m typs cells r \<Longrightarrow> i < length cells \<Longrightarrow> bitmap_IsNull (rb_bitmap r) i = Inr (cells ! i = CNull)"
  using bitmap_null by (simp add: row_read_def)

lemma GetString_of_row:
  assumes r: "row_read junk m typs cells r" and md: "map cd_type (md_columns md) = typs" "length typs = length cells" and i: "i < length cells"
    and c: "cells ! i = CText str" "cell_ok junk (typs ! i) (CText str)" and ty: "typs ! i \<notin> {MYSQL_TYPE_DECIMAL, MYSQL_TYPE_NEWDECIMAL}"
  shows "\<exists>r'. RowReaderBinary_GetString junk m md r i = Inr (str, r') \<and> row_read junk m typs cells r'"
proof -
  let ?f = "rb_fields r ! i mod 256 ^ 4" and ?p = "rb_pkt r"
  have "shows_cell (content m ?p) (typs ! i) (CText str) (rb_fields r ! i)" using r i c(1) by (auto simp: row_read_def)
  then obtain rest where f: "?f \<le> length (content m ?p)" "drop ?f (content m ?p) = (var_bytes (length str) @ str) @ rest" by auto
  have wf: "pin_wf m ?p" "pk_capacity ?p = pk_size ?p" using r by (simp_all add: row_read_def pin_full_def)
  have "?f \<le> pk_size ?p" using f(1) length_content_pin [OF wf(1)] by simp
  then obtain p1 where p1: "Packet_SkipTo ?p ?f = Inr p1" "pin_wf m p1" "pk_pos p1 = ?f" "content m p1 = content m ?p"
    using SkipTo_pin [OF wf(1) _ wf(2)] by blast
  have d: "drop (pk_pos p1) (content m p1) = my_enc (MyLenString str) @ rest" using f(2) p1(3,4) by simp
  have ok: "my_ok junk (MyLenString str)" using c(2) by simp
  obtain p2 where p2: "Mysql_ReadLengthEncodedString junk m p1 = Inr (str, p2)" "advanced m p1 (length (my_enc (MyLenString str))) p2"
    using my_read_law [OF p1(2) ok d] by (auto simp: bindE_eq_Inr)
  have cap: "pk_capacity p2 = pk_capacity p1"
    using p2(1) by (auto simp: Mysql_ReadLengthEncodedString_def bindE_eq_Inr dest!: ReadVariableInteger_capacity GetByte_capacity)
  have "pin_full m p1" using p1 wf SkipTo_capacity [OF p1(1)] length_content_pin [OF p1(2)] length_content_pin [OF wf(1)] by (simp add: pin_full_def)
  then have "pin_full m p2" by (rule advanced_full [OF _ p2(2) cap])
  then have "row_read junk m typs cells (r\<lparr>rb_pkt := p2\<rparr>)" using r p1(4) p2(2) by (simp add: row_read_def advanced_def)
  moreover have "RowReaderBinary_GetString junk m md r i = Inr (str, r\<lparr>rb_pkt := p2\<rparr>)"
    using typed_of_row(1) [OF r md i] c ty p1(1) p2(1) unfolding RowReaderBinary_GetString_def by (auto simp: text_types_def)
  ultimately show ?thesis by blast
qed

lemma GetString_refused:
  assumes r: "row_read junk m typs cells r" and md: "map cd_type (md_columns md) = typs" "length typs = length cells" and i: "i < length cells"
    and ok: "cell_ok junk (typs ! i) (cells ! i)" and no: "\<not> ((\<exists>str. cells ! i = CText str) \<and> typs ! i \<notin> {MYSQL_TYPE_DECIMAL, MYSQL_TYPE_NEWDECIMAL})"
  shows "RowReaderBinary_GetString junk m md r i = Inl ExceptionThrown"
proof -
  let ?types = "{MYSQL_TYPE_VAR_STRING, MYSQL_TYPE_BLOB, MYSQL_TYPE_TINY_BLOB, MYSQL_TYPE_MEDIUM_BLOB, MYSQL_TYPE_LONG_BLOB, MYSQL_TYPE_BIT, MYSQL_TYPE_STRING, MYSQL_TYPE_VARCHAR}"
  have "typs ! i \<notin> ?types \<or> cells ! i = CNull"
    using ok no by (cases "cells ! i") (auto simp: bits_width_def split: option.splits)
  from typed_of_row(2) [OF r md i this] show ?thesis by (simp add: RowReaderBinary_GetString_def)
qed

lemma GetBoolean_of_row:
  assumes r: "row_read junk m typs cells r" and i: "i < length cells" and c: "cells ! i = CBits v" and ok: "cell_ok junk (typs ! i) (cells ! i)"
  shows "RowReaderBinary_GetBoolean r i = Inr (v mod 256 \<noteq> 0)"
proof -
  obtain n where n: "bits_width (typs ! i) = Some n" "0 < n" using ok c by (auto simp: bits_width_def split: option.splits if_splits)
  have "rb_fields r ! i mod 256 ^ n = v" using r i c n(1) by (auto simp: row_read_def)
  moreover have "rb_fields r ! i mod 256 ^ n mod 256 = rb_fields r ! i mod 256" using n(2) by (intro mod_mod_cancel dvd_power) simp
  ultimately have "rb_fields r ! i mod 256 = v mod 256" by simp
  then show ?thesis using r i by (simp add: RowReaderBinary_GetBoolean_def RowReaderBinary_field_def row_read_def)
qed

text \<open>
  Rows of the binary protocol. A row packet with its bitmap of nulls and its values is parsed completely; then \<open>IsNull\<close> tells exactly the null columns, every
  read of a number whose type is that of the column returns the bits sent, \<open>GetString\<close> returns the text sent as often as it is called, and every
  read of a null column or of a column of another type throws. Texts of decimal columns are parsed but no read accepts them.
\<close>

lemma RowReaderBinary_roundtrip:
  assumes "pin_full m data" and "content m data = hd5 @ row_bytes typs cells" and "length hd5 = 5"
    and md: "map cd_type (md_columns md) = typs" "md_num_columns md = length cells" "length typs = length cells" "length cells < 4294967280"
    and ok: "\<And>i. i < length cells \<Longrightarrow> cell_ok junk (typs ! i) (cells ! i)"
  shows "\<exists>r. RowReaderBinary_ParseRowPacket junk uninit m md data = Inr r \<and> (\<forall>i < length cells.
    bitmap_IsNull (rb_bitmap r) i = Inr (cells ! i = CNull) \<and>
    (\<forall>(types, n, g) \<in> set numeric_getters. g md r i = sent_value types (typs ! i) (cells ! i)) \<and>
    (\<forall>str. cells ! i = CText str \<longrightarrow> typs ! i \<notin> {MYSQL_TYPE_DECIMAL, MYSQL_TYPE_NEWDECIMAL} \<longrightarrow>
       (\<exists>r'. RowReaderBinary_GetString junk m md r i = Inr (str, r') \<and> row_read junk m typs cells r')))"
proof -
  obtain r where r: "RowReaderBinary_ParseRowPacket junk uninit m md data = Inr r" "row_read junk m typs cells r"
    using ParseRowPacket_reads [OF assms] by blast
  have "\<forall>(types, n, g) \<in> set numeric_getters. g md r i = sent_value types (typs ! i) (cells ! i)" if i: "i < length cells" for i
    using numeric_of_row [OF r(2) md(1,3) i ok [OF i]] by blast
  moreover have "\<exists>r'. RowReaderBinary_GetString junk m md r i = Inr (str, r') \<and> row_read junk m typs cells r'"
    if "i < length cells" "cells ! i = CText str" "typs ! i \<notin> {MYSQL_TYPE_DECIMAL, MYSQL_TYPE_NEWDECIMAL}" for i str
    using GetString_of_row [OF r(2) md(1,3) that(1,2) _ that(3)] ok [OF that(1)] that(2) by simp
  ultimately show ?thesis using r(1) IsNull_of_row [OF r(2)] by blast
qed


text \<open>The witness: a null, a number and a text.\<close>

definition column_of :: "nat \<Rightarrow> columndef" where
  "column_of ty = \<lparr>cd_catalog = [], cd_schema = [], cd_table = [], cd_org_table = [], cd_name = [], cd_org_name = [],
     cd_fixed_length = 12, cd_charset = 33, cd_column_length = 0, cd_type = ty, cd_flag = 0, cd_decimals = 0, cd_filter = 0\<rparr>"

definition three_columns :: rsmeta where
  "three_columns = \<lparr>md_columns = map column_of [MYSQL_TYPE_LONG, MYSQL_TYPE_SHORT, MYSQL_TYPE_VARCHAR], md_num_columns = 3\<rparr>"

abbreviation three_row :: bytes where
  "three_row \<equiv> [5, 0, 0, 1, 0] @ row_bytes [MYSQL_TYPE_LONG, MYSQL_TYPE_SHORT, MYSQL_TYPE_VARCHAR] [CNull, CBits 513, CText [104, 105]]"

lemma three_row_data:
  "\<exists>data. PacketInBase_new (cl_recvq (loaded_client three_row)) = Inr data \<and> pin_full (loaded_mem three_row) data \<and> content (loaded_mem three_row) data = three_row"
proof -
  have "length three_row < 4294967296" by (simp add: row_bytes_def null_bitmap_def bits_width_def var_bytes_def)
  then show ?thesis using PacketInBase_new_spec [of "cl_recvq (loaded_client three_row)" "loaded_mem three_row"]
    by (auto simp: rm_wf_def loaded_client_def loaded_mem_def ref_bytes_def pin_full_def)
qed

lemma three_row_ok:
  assumes "i < length [CNull, CBits 513, CText [104, 105]]"
  shows "cell_ok 99 ([MYSQL_TYPE_LONG, MYSQL_TYPE_SHORT, MYSQL_TYPE_VARCHAR] ! i) ([CNull, CBits 513, CText [104, 105]] ! i)"
  using assms by (auto simp: less_Suc_eq numeral_3_eq_3 bits_width_def text_types_def stray_def)

lemma RowReaderBinary_roundtrip_witness:
  "\<exists>data r r'. PacketInBase_new (cl_recvq (loaded_client three_row)) = Inr data \<and>
    RowReaderBinary_ParseRowPacket 99 (\<lambda>_. 77) (loaded_mem three_row) three_columns data = Inr r \<and>
    RowReaderBinary_GetInt32 three_columns r 0 = Inl ExceptionThrown \<and> RowReaderBinary_GetUInt16 three_columns r 1 = Inr 513 \<and>
    RowReaderBinary_GetString 99 (loaded_mem three_row) three_columns r 2 = Inr ([104, 105], r')"
proof -
  let ?ty = "[MYSQL_TYPE_LONG, MYSQL_TYPE_SHORT, MYSQL_TYPE_VARCHAR]" and ?c = "[CNull, CBits 513, CText [104, 105]]" and ?m = "loaded_mem three_row"
  obtain data where d: "PacketInBase_new (cl_recvq (loaded_client three_row)) = Inr data" "pin_full ?m data" "content ?m data = three_row"
    using three_row_data by blast
  obtain r where r: "RowReaderBinary_ParseRowPacket 99 (\<lambda>_. 77) ?m three_columns data = Inr r" and g: "\<forall>i < length ?c.
    bitmap_IsNull (rb_bitmap r) i = Inr (?c ! i = CNull) \<and>
    (\<forall>(types, n, g) \<in> set numeric_getters. g three_columns r i = sent_value types (?ty ! i) (?c ! i)) \<and>
    (\<forall>str. ?c ! i = CText str \<longrightarrow> ?ty ! i \<notin> {MYSQL_TYPE_DECIMAL, MYSQL_TYPE_NEWDECIMAL} \<longrightarrow>
       (\<exists>r'. RowReaderBinary_GetString 99 ?m three_columns r i = Inr (str, r') \<and> row_read 99 ?m ?ty ?c r'))"
    using RowReaderBinary_roundtrip [where uninit = "\<lambda>_. 77" and md = three_columns, OF d(2,3) _ _ _ _ _ three_row_ok] by (auto simp: three_columns_def column_of_def)
  have "RowReaderBinary_GetInt32 three_columns r 0 = Inl ExceptionThrown" "RowReaderBinary_GetUInt16 three_columns r 1 = Inr 513"
    using g [rule_format, of 0] g [rule_format, of 1] by (simp_all add: numeric_getters_def sent_value_def)
  moreover obtain r' where "RowReaderBinary_GetString 99 ?m three_columns r 2 = Inr ([104, 105], r')" using g [rule_format, of 2] by auto
  ultimately show ?thesis using d(1) r by blast
qed

section \<open>Type safety\<close>

lemma binary_column_old:
  assumes "binary_column junk m ty (p, old) = Inr (p1, f)"
  shows "\<exists>f'. binary_column junk m ty (p, old') = Inr (p1, f') \<and> (\<forall>n. bits_width ty = Some n \<longrightarrow> f' mod 256 ^ n = f mod 256 ^ n)"
proof (cases "bits_width ty")
  case (Some n)
  then have "binary_column junk m ty (p, x) = bindE (PacketInBase_GetByte n m p) (\<lambda>(bs, p1). Inr (p1, le_val bs + x div 256 ^ n * 256 ^ n))" for x
    by (cases "PacketInBase_GetByte n m p") (auto simp: binary_column_def bits_width_def Mysql_ReadFixedInteger_def split: if_splits)
  then show ?thesis using assms Some by (auto simp: bindE_eq_Inr)
next
  case None
  then show ?thesis using assms by (auto simp: binary_column_def bits_width_def bindE_eq_Inr split: if_splits)
qed

text \<open>Two runs that differ only in what the memory of the fields held: they agree on every number.\<close>

lemma binary_loop_old:
  assumes "binary_loop junk m md bitmap k olds p = Inr (fs, p')" and "length olds' = length olds"
  shows "\<exists>fs'. binary_loop junk m md bitmap k olds' p = Inr (fs', p') \<and> length fs = length olds \<and> length fs' = length olds \<and>
    (\<forall>i < length olds. \<exists>cm null. GetColumnDefinition md (k + i) = Inr cm \<and> bitmap_IsNull bitmap (k + i) = Inr null \<and>
      (\<not> null \<longrightarrow> (\<forall>n. bits_width (cd_type cm) = Some n \<longrightarrow> fs' ! i mod 256 ^ n = fs ! i mod 256 ^ n)))"
  using assms
proof (induction olds arbitrary: k olds' p fs p')
  case Nil
  then show ?case by simp
next
  case (Cons old olds)
  obtain o' os' where o: "olds' = o' # os'" "length os' = length olds" using Cons.prems(2) by (cases olds') auto
  obtain cm null p1 f fs1 where 1: "GetColumnDefinition md k = Inr cm" "bitmap_IsNull bitmap k = Inr null"
      "(if null then Inr (p, old) else binary_column junk m (cd_type cm) (p, old)) = Inr (p1, f)"
      "binary_loop junk m md bitmap (k + 1) olds p1 = Inr (fs1, p')" "fs = f # fs1"
    using Cons.prems(1) by (auto simp: bindE_eq_Inr)
  obtain f' where f': "(if null then Inr (p, o') else binary_column junk m (cd_type cm) (p, o')) = Inr (p1, f')"
      "\<not> null \<longrightarrow> (\<forall>n. bits_width (cd_type cm) = Some n \<longrightarrow> f' mod 256 ^ n = f mod 256 ^ n)"
    using 1(3) binary_column_old [of junk m "cd_type cm" p old p1 f o'] by (cases null) auto
  obtain fs2 where 2: "binary_loop junk m md bitmap (k + 1) os' p1 = Inr (fs2, p')" "length fs1 = length olds" "length fs2 = length olds"
      "\<forall>i < length olds. \<exists>cm null. GetColumnDefinition md (k + 1 + i) = Inr cm \<and> bitmap_IsNull bitmap (k + 1 + i) = Inr null \<and>
        (\<not> null \<longrightarrow> (\<forall>n. bits_width (cd_type cm) = Some n \<longrightarrow> fs2 ! i mod 256 ^ n = fs1 ! i mod 256 ^ n))"
    using Cons.IH [OF 1(4) o(2)] by blast
  have "binary_loop junk m md bitmap k olds' p = Inr (f' # fs2, p')" using o(1) 1(1,2) f'(1) 2(1) by (cases null) auto
  moreover have "\<exists>cm null. GetColumnDefinition md (k + i) = Inr cm \<and> bitmap_IsNull bitmap (k + i) = Inr null \<and>
      (\<not> null \<longrightarrow> (\<forall>n. bits_width (cd_type cm) = Some n \<longrightarrow> (f' # fs2) ! i mod 256 ^ n = fs ! i mod 256 ^ n))" if "i < length (old # olds)" for i
  proof (cases i)
    case 0
    then show ?thesis using 1(1,2,5) f'(2) by simp
  next
    case (Suc j)
    then show ?thesis using that 2(4) 1(5) by (auto simp: less_Suc_eq_0_disj)
  qed
  ultimately show ?case using 1(5) 2(2,3) by (intro exI [of _ "f' # fs2"]) simp
qed

text \<open>The uninitialised length variable of the texts is not used for columns of other types.\<close>

lemma binary_loop_junk:
  assumes "\<forall>cd \<in> set (md_columns md). cd_type cd \<notin> text_types"
  shows "binary_loop junk' m md bitmap k olds p = binary_loop junk m md bitmap k olds p"
proof (induction olds arbitrary: k p)
  case (Cons old olds)
  have "binary_column junk' m (cd_type cm) s = binary_column junk m (cd_type cm) s" if "GetColumnDefinition md k = Inr cm" for cm s
  proof -
    have "cd_type cm \<notin> text_types" using that assms by (auto simp: GetColumnDefinition_def split: if_splits)
    then show ?thesis by (cases s) (simp add: binary_column_def text_types_def)
  qed
  then show ?case using Cons by (cases "GetColumnDefinition md k") (simp_all cong: if_cong)
qed simp

text \<open>
  C24. Types. Let any row packet have been parsed. Then every read of a number (the reads of integers of each width and of the two floating-point types, not
  \<open>GetBoolean\<close>) from one of its columns throws if the type of the column is not among those
  the read accepts or the column is null, and otherwise returns a value of its width: it does not depend on what the
  memory of the fields held before, and, when no column is a text, not on the other uninitialised variable either, the one a length is read into (of which
  a length from 65536 to 16777215 keeps a byte). \<open>GetString\<close> throws as well if the type of the column is not a text it accepts or the column is null.
\<close>

theorem RowReaderBinary_type_safe:
  assumes p: "RowReaderBinary_ParseRowPacket junk uninit m md data = Inr r" and i: "i < md_num_columns md"
    and g: "(types, n, g) \<in> set numeric_getters"
  shows "\<exists>cm null. GetColumnDefinition md i = Inr cm \<and> bitmap_IsNull (rb_bitmap r) i = Inr null \<and>
    (if cd_type cm \<in> types \<and> \<not> null then \<exists>v < 256 ^ n. \<forall>uninit' junk'. junk' = junk \<or> (\<forall>cd \<in> set (md_columns md). cd_type cd \<notin> text_types) \<longrightarrow>
         (\<exists>r'. RowReaderBinary_ParseRowPacket junk' uninit' m md data = Inr r' \<and> g md r' i = Inr v)
     else g md r i = Inl ExceptionThrown) \<and>
    (cd_type cm \<notin> text_types - {MYSQL_TYPE_DECIMAL, MYSQL_TYPE_NEWDECIMAL} \<or> null \<longrightarrow> RowReaderBinary_GetString junk m md r i = Inl ExceptionThrown)"
proof -
  obtain p0 bitmap p1 fs p2 where b: "Packet_SkipTo (Mysql_Swap data) 5 = Inr p0"
      "Mysql_ReadFixedString (u32 (md_num_columns md + 7 + 2) div 8) m p0 = Inr (bitmap, p1)"
      "binary_loop junk m md bitmap 0 (map uninit [0..<md_num_columns md]) p1 = Inr (fs, p2)" "r = \<lparr>rb_pkt = p2, rb_bitmap = bitmap, rb_fields = fs\<rparr>"
    using p by (auto simp: RowReaderBinary_ParseRowPacket_def bindE_eq_Inr)
  have two: "\<exists>fs'. binary_loop junk m md bitmap 0 (map u [0..<md_num_columns md]) p1 = Inr (fs', p2) \<and> length fs = md_num_columns md \<and> length fs' = md_num_columns md \<and>
    (\<forall>i < md_num_columns md. \<exists>cm null. GetColumnDefinition md i = Inr cm \<and> bitmap_IsNull bitmap i = Inr null \<and>
      (\<not> null \<longrightarrow> (\<forall>n. bits_width (cd_type cm) = Some n \<longrightarrow> fs' ! i mod 256 ^ n = fs ! i mod 256 ^ n)))" for u
    using binary_loop_old [OF b(3), of "map u [0..<md_num_columns md]"] by simp
  obtain cm null where c: "GetColumnDefinition md i = Inr cm" "bitmap_IsNull bitmap i = Inr null" "length fs = md_num_columns md" using two [of uninit] i by blast
  note gt = numeric_getter [OF g]
  have s: "RowReaderBinary_GetString junk m md r i = Inl ExceptionThrown" if "cd_type cm \<notin> text_types - {MYSQL_TYPE_DECIMAL, MYSQL_TYPE_NEWDECIMAL} \<or> null"
    using that c(1,2) b(4) by (auto simp: RowReaderBinary_GetString_def RowReaderBinary_typed_def text_types_def)
  have "if cd_type cm \<in> types \<and> \<not> null then \<exists>v < 256 ^ n. \<forall>u j. j = junk \<or> (\<forall>cd \<in> set (md_columns md). cd_type cd \<notin> text_types) \<longrightarrow>
      (\<exists>r'. RowReaderBinary_ParseRowPacket j u m md data = Inr r' \<and> g md r' i = Inr v) else g md r i = Inl ExceptionThrown"
  proof (cases "cd_type cm \<in> types \<and> \<not> null")
    case False
    then show ?thesis using gt(1) c(1,2) b(4) by (auto simp: RowReaderBinary_typed_def)
  next
    case True
    have "\<exists>r'. RowReaderBinary_ParseRowPacket j u m md data = Inr r' \<and> g md r' i = Inr (fs ! i mod 256 ^ n)"
      if j: "j = junk \<or> (\<forall>cd \<in> set (md_columns md). cd_type cd \<notin> text_types)" for u j
    proof -
      obtain fs' where f: "binary_loop junk m md bitmap 0 (map u [0..<md_num_columns md]) p1 = Inr (fs', p2)" "length fs' = md_num_columns md"
          "fs' ! i mod 256 ^ n = fs ! i mod 256 ^ n"
        using two [of u] i c(1,2) True gt(2) by fastforce
      let ?r = "\<lparr>rb_pkt = p2, rb_bitmap = bitmap, rb_fields = fs'\<rparr>"
      have "binary_loop j m md bitmap 0 (map u [0..<md_num_columns md]) p1 = Inr (fs', p2)" using f(1) j binary_loop_junk by metis
      then have "RowReaderBinary_ParseRowPacket j u m md data = Inr ?r" using b(1,2) by (simp add: RowReaderBinary_ParseRowPacket_def)
      moreover have "g md ?r i = Inr (fs ! i mod 256 ^ n)"
        using gt(1) c(1,2) True f(2,3) i by (simp add: RowReaderBinary_typed_def RowReaderBinary_field_def)
      ultimately show ?thesis by blast
    qed
    then show ?thesis using True by (auto intro!: exI [of _ "fs ! i mod 256 ^ n"])
  qed
  then show ?thesis using c b(4) s by (intro exI [of _ cm] exI [of _ null]) simp
qed

theorem RowReaderBinary_type_safe_witness:
  "\<exists>data r. PacketInBase_new (cl_recvq (loaded_client three_row)) = Inr data \<and>
    RowReaderBinary_ParseRowPacket 99 (\<lambda>_. 77) (loaded_mem three_row) three_columns data = Inr r \<and> RowReaderBinary_GetInt64 three_columns r 1 = Inl ExceptionThrown"
proof -
  obtain data where d: "PacketInBase_new (cl_recvq (loaded_client three_row)) = Inr data" "pin_full (loaded_mem three_row) data"
      "content (loaded_mem three_row) data = three_row" using three_row_data by blast
  obtain r where r: "RowReaderBinary_ParseRowPacket 99 (\<lambda>_. 77) (loaded_mem three_row) three_columns data = Inr r"
    using ParseRowPacket_reads [where uninit = "\<lambda>_. 77" and md = three_columns, OF d(2,3) _ _ _ _ _ three_row_ok] by (auto simp: three_columns_def column_of_def)
  have "({MYSQL_TYPE_LONGLONG}, 8, RowReaderBinary_GetInt64) \<in> set numeric_getters" by (simp add: numeric_getters_def)
  from RowReaderBinary_type_safe [OF r _ this, of 1] show ?thesis using d(1) r
    by (auto simp: three_columns_def column_of_def GetColumnDefinition_def)
qed

end
