(* ===== verification/MysqlResult.thy ===== *)
theory MysqlResult
  imports MysqlRow
begin

text \<open>
  \<open>base/dbo_bk/internal/rowreadertext.*\<close> and \<open>base/dbo_bk/resultset.*\<close>: rows of the text protocol and the state machine that takes the packets of a
  response. Theorem: over the packets of a complete result set \<open>Parse\<close> says false until the last one, and then the set holds
  the column definitions and the rows that were sent, in order.
\<close>

section \<open>The text reader\<close>

text \<open>\<open>strtol\<close> and \<open>strtoll\<close> with base ten on a 64-bit machine: white space, a sign, digits, saturation.\<close>

definition is_space :: "8 word \<Rightarrow> bool" where
  "is_space b \<longleftrightarrow> b = 32 \<or> (9 \<le> b \<and> b \<le> 13)"

definition is_digit :: "8 word \<Rightarrow> bool" where
  "is_digit b \<longleftrightarrow> 48 \<le> b \<and> b \<le> 57"

definition digits_value :: "bytes \<Rightarrow> int" where
  "digits_value bs = foldl (\<lambda>acc b. acc * 10 + (int (unat b) - 48)) 0 (takeWhile is_digit bs)"

definition strtoll10 :: "bytes \<Rightarrow> int" where
  "strtoll10 bs = (let t = dropWhile is_space bs in
     max (- (2 ^ 63)) (min (2 ^ 63 - 1)
       (case t of [] \<Rightarrow> 0 | b # u \<Rightarrow> if b = 45 then - digits_value u else if b = 43 then digits_value u else digits_value t)))"

record textfield =
  tf_null :: bool
  tf_value :: nat

record rowtext =
  rt_pkt :: pkt
  rt_fields :: "textfield list"

text \<open>\<open>strtof\<close> and \<open>strtod\<close> of the C library are arguments; they give the bits of the result.\<close>

record floatlib =
  fl_strtof :: "bytes \<Rightarrow> nat"
  fl_strtod :: "bytes \<Rightarrow> nat"

definition text_column :: "floatlib \<Rightarrow> nat \<Rightarrow> mem \<Rightarrow> rsmeta \<Rightarrow> nat \<Rightarrow> pkt \<times> nat \<Rightarrow> (pkt \<times> textfield) result" where
  "text_column fl junk m md column s = (case s of (p, old) \<Rightarrow>
     bindE (Mysql_CurrentByte m p) (\<lambda>flag.
     if flag = 251 then bindE (Mysql_Skip 1 p) (\<lambda>p1. Inr (p1, \<lparr>tf_null = True, tf_value = old\<rparr>))
     else bindE (Mysql_ReadVariableInteger 32 junk m p) (\<lambda>(len, p1). bindE (GetColumnDefinition md column) (\<lambda>cm.
       let ty = cd_type cm in
       if ty \<in> {MYSQL_TYPE_TINY, MYSQL_TYPE_SHORT, MYSQL_TYPE_LONG, MYSQL_TYPE_YEAR} then
         bindE (Mysql_ReadFixedString len m p1) (\<lambda>(buffer, p2). Inr (p2, \<lparr>tf_null = False, tf_value = put_bytes 4 (nat (strtoll10 buffer mod 2 ^ 32)) old\<rparr>))
       else if ty = MYSQL_TYPE_LONGLONG then
         bindE (Mysql_ReadFixedString len m p1) (\<lambda>(buffer, p2). Inr (p2, \<lparr>tf_null = False, tf_value = put_bytes 8 (nat (strtoll10 buffer mod 2 ^ 64)) old\<rparr>))
       else if ty = MYSQL_TYPE_FLOAT then
         bindE (Mysql_ReadFixedString len m p1) (\<lambda>(buffer, p2). Inr (p2, \<lparr>tf_null = False, tf_value = put_bytes 4 (fl_strtof fl (takeWhile (\<lambda>b. b \<noteq> 0) buffer)) old\<rparr>))
       else if ty = MYSQL_TYPE_DOUBLE then
         bindE (Mysql_ReadFixedString len m p1) (\<lambda>(buffer, p2). Inr (p2, \<lparr>tf_null = False, tf_value = put_bytes 8 (fl_strtod fl (takeWhile (\<lambda>b. b \<noteq> 0) buffer)) old\<rparr>))
       else if ty \<in> {MYSQL_TYPE_VARCHAR, MYSQL_TYPE_BIT, MYSQL_TYPE_NEWDECIMAL, MYSQL_TYPE_TINY_BLOB, MYSQL_TYPE_MEDIUM_BLOB, MYSQL_TYPE_LONG_BLOB,
           MYSQL_TYPE_BLOB, MYSQL_TYPE_VAR_STRING, MYSQL_TYPE_STRING} then
         bindE (Mysql_Skip (int len) p1) (\<lambda>p2. Inr (p2, \<lparr>tf_null = False, tf_value = put_bytes 4 (pk_pos p) old\<rparr>))
       else Inl ExceptionThrown))))"

fun text_loop :: "floatlib \<Rightarrow> nat \<Rightarrow> mem \<Rightarrow> rsmeta \<Rightarrow> nat \<Rightarrow> nat list \<Rightarrow> pkt \<Rightarrow> (textfield list \<times> pkt) result" where
  "text_loop fl junk m md column [] p = Inr ([], p)"
| "text_loop fl junk m md column (old # olds) p =
     bindE (text_column fl junk m md column (p, old)) (\<lambda>(p1, f).
     bindE (text_loop fl junk m md (column + 1) olds p1) (\<lambda>(fs, p2). Inr (f # fs, p2)))"

definition RowReaderText_ParseRowPacket :: "floatlib \<Rightarrow> nat \<Rightarrow> (nat \<Rightarrow> nat) \<Rightarrow> mem \<Rightarrow> rsmeta \<Rightarrow> pkt \<Rightarrow> rowtext result" where
  "RowReaderText_ParseRowPacket fl junk uninit m md data =
     bindE (Packet_SkipTo (Mysql_Swap data) 4) (\<lambda>p.
     bindE (text_loop fl junk m md 0 (map uninit [0..<md_num_columns md]) p) (\<lambda>(fs, p1). Inr \<lparr>rt_pkt = p1, rt_fields = fs\<rparr>))"

definition RowReaderText_IsNull :: "rowtext \<Rightarrow> nat \<Rightarrow> bool result" where
  "RowReaderText_IsNull r column = (if column < length (rt_fields r) then Inr (tf_null (rt_fields r ! column)) else Inl OutOfRange)"

text \<open>All reads of numbers: the first \<open>n\<close> bytes of the union, whatever the type of the column.\<close>

definition RowReaderText_member :: "nat \<Rightarrow> rowtext \<Rightarrow> nat \<Rightarrow> nat result" where
  "RowReaderText_member n r column = bindE (RowReaderText_IsNull r column) (\<lambda>null.
     if null then Inl ExceptionThrown else Inr (tf_value (rt_fields r ! column) mod 256 ^ n))"

definition RowReaderText_GetBoolean :: "rowtext \<Rightarrow> nat \<Rightarrow> bool result" where
  "RowReaderText_GetBoolean r column = bindE (RowReaderText_member 1 r column) (\<lambda>v. Inr (v \<noteq> 0))"

definition RowReaderText_GetInt8 :: "rowtext \<Rightarrow> nat \<Rightarrow> nat result" where
  "RowReaderText_GetInt8 = RowReaderText_member 1"

definition RowReaderText_GetUInt8 :: "rowtext \<Rightarrow> nat \<Rightarrow> nat result" where
  "RowReaderText_GetUInt8 = RowReaderText_member 1"

definition RowReaderText_GetInt16 :: "rowtext \<Rightarrow> nat \<Rightarrow> nat result" where
  "RowReaderText_GetInt16 = RowReaderText_member 2"

definition RowReaderText_GetUInt16 :: "rowtext \<Rightarrow> nat \<Rightarrow> nat result" where
  "RowReaderText_GetUInt16 = RowReaderText_member 2"

definition RowReaderText_GetInt32 :: "rowtext \<Rightarrow> nat \<Rightarrow> nat result" where
  "RowReaderText_GetInt32 = RowReaderText_member 4"

definition RowReaderText_GetUInt32 :: "rowtext \<Rightarrow> nat \<Rightarrow> nat result" where
  "RowReaderText_GetUInt32 = RowReaderText_member 4"

definition RowReaderText_GetInt64 :: "rowtext \<Rightarrow> nat \<Rightarrow> nat result" where
  "RowReaderText_GetInt64 = RowReaderText_member 8"

definition RowReaderText_GetUInt64 :: "rowtext \<Rightarrow> nat \<Rightarrow> nat result" where
  "RowReaderText_GetUInt64 = RowReaderText_member 8"

definition RowReaderText_GetFloat :: "rowtext \<Rightarrow> nat \<Rightarrow> nat result" where
  "RowReaderText_GetFloat = RowReaderText_member 4"

definition RowReaderText_GetDouble :: "rowtext \<Rightarrow> nat \<Rightarrow> nat result" where
  "RowReaderText_GetDouble = RowReaderText_member 8"

definition RowReaderText_GetString :: "nat \<Rightarrow> mem \<Rightarrow> rowtext \<Rightarrow> nat \<Rightarrow> (bytes \<times> rowtext) result" where
  "RowReaderText_GetString junk m r column = bindE (RowReaderText_member 4 r column) (\<lambda>buffer_pos.
     bindE (Packet_SkipTo (rt_pkt r) buffer_pos) (\<lambda>p.
     bindE (Mysql_ReadLengthEncodedString junk m p) (\<lambda>(ret, p1). Inr (ret, r\<lparr>rt_pkt := p1\<rparr>))))"

section \<open>Result sets\<close>

datatype parsephase = PARSE_NEW | PARSE_COLUMN_DEFINITION | PARSE_RESULTSET_ROW | PARSE_FINISH

datatype protocol = PROTOCOL_TEXT | PROTOCOL_BINARY

datatype rowreader = RowText rowtext | RowBinary rowbinary

record resultset =
  rs_error_code :: nat
  rs_error_state :: bytes
  rs_error_message :: bytes
  rs_affected_rows :: nat
  rs_last_insert_id :: nat
  rs_status_flag :: nat
  rs_warnings :: nat
  rs_info :: bytes
  rs_metadata :: rsmeta
  rs_phase :: parsephase
  rs_rowreaders :: "rowreader list"
  rs_rowreaders_index :: int

text \<open>\<open>num_columns\<close> is not initialised; nothing reads it before it is set.\<close>

definition ResultSet_new :: resultset where
  "ResultSet_new = \<lparr>rs_error_code = 0, rs_error_state = [], rs_error_message = [], rs_affected_rows = 0, rs_last_insert_id = 0, rs_status_flag = 0,
     rs_warnings = 0, rs_info = [], rs_metadata = \<lparr>md_columns = [], md_num_columns = 0\<rparr>, rs_phase = PARSE_NEW, rs_rowreaders = [], rs_rowreaders_index = -1\<rparr>"

abbreviation PACKET_OK :: nat where "PACKET_OK \<equiv> 0"
abbreviation PACKET_ERR :: nat where "PACKET_ERR \<equiv> 255"
abbreviation PACKET_EOF :: nat where "PACKET_EOF \<equiv> 254"

definition Parse_new :: "nat \<Rightarrow> mem \<Rightarrow> pkt \<Rightarrow> resultset \<Rightarrow> resultset result" where
  "Parse_new junk m pktin rs = bindE (Mysql_ReadFixedInteger 1 0 m pktin) (\<lambda>(v_first, p1).
     if v_first = PACKET_OK then
       bindE (Mysql_ReadVariableInteger 64 junk m p1) (\<lambda>(affected, p2).
       bindE (Mysql_ReadVariableInteger 64 junk m p2) (\<lambda>(last_id, p3).
       bindE (Mysql_ReadFixedInteger 2 (rs_status_flag rs) m p3) (\<lambda>(status, p4).
       bindE (Mysql_ReadFixedInteger 2 (rs_warnings rs) m p4) (\<lambda>(warnings, p5).
       bindE (Mysql_ReadRestOfPacketString m p5) (\<lambda>(info, p6).
         Inr (rs\<lparr>rs_affected_rows := affected, rs_last_insert_id := last_id, rs_status_flag := status, rs_warnings := warnings, rs_info := info,
           rs_phase := PARSE_FINISH\<rparr>))))))
     else if v_first = PACKET_ERR then
       bindE (Mysql_ReadFixedInteger 2 (rs_error_code rs) m p1) (\<lambda>(code, p2).
       bindE (Mysql_ReadRestOfPacketString m p2) (\<lambda>(msg, p3).
         Inr (rs\<lparr>rs_error_code := code, rs_error_message := msg, rs_phase := PARSE_FINISH\<rparr>)))
     else if v_first = 251 then
       Inr (rs\<lparr>rs_error_code := 1, rs_error_message := bytes_of_string ''not support 0xFB'', rs_phase := PARSE_FINISH\<rparr>)
     else
       bindE (Mysql_Skip (-1) p1) (\<lambda>p2.
       bindE (Mysql_ReadVariableInteger 32 junk m p2) (\<lambda>(n, p3).
         Inr (rs\<lparr>rs_metadata := (rs_metadata rs)\<lparr>md_num_columns := n\<rparr>, rs_phase := PARSE_COLUMN_DEFINITION\<rparr>))))"

text \<open>
  The new definition or reader is appended once it is parsed; the source appends it before, so that one that is half parsed stays behind an
  exception. The state behind an exception is not represented.
\<close>

definition Parse_column :: "nat \<Rightarrow> mem \<Rightarrow> pkt \<Rightarrow> resultset \<Rightarrow> resultset result" where
  "Parse_column junk m pktin rs = bindE (Mysql_ReadFixedInteger 1 0 m pktin) (\<lambda>(v_first, p1).
     if v_first = PACKET_EOF then Inr (rs\<lparr>rs_phase := PARSE_RESULTSET_ROW\<rparr>)
     else bindE (Mysql_Skip (-1) p1) (\<lambda>p2. bindE (ColumnDefinition_Parse junk m p2) (\<lambda>(cd, p3).
       Inr (rs\<lparr>rs_metadata := (rs_metadata rs)\<lparr>md_columns := md_columns (rs_metadata rs) @ [cd]\<rparr>\<rparr>))))"

definition Parse_row :: "floatlib \<Rightarrow> nat \<Rightarrow> (nat \<Rightarrow> nat) \<Rightarrow> protocol \<Rightarrow> mem \<Rightarrow> pkt \<Rightarrow> resultset \<Rightarrow> resultset result" where
  "Parse_row fl junk uninit protocol m pktin rs = bindE (Mysql_ReadFixedInteger 1 0 m pktin) (\<lambda>(v_first, p1).
     if v_first = PACKET_EOF \<or> v_first = PACKET_ERR then Inr (rs\<lparr>rs_phase := PARSE_FINISH\<rparr>)
     else bindE (case protocol of
            PROTOCOL_BINARY \<Rightarrow> bindE (RowReaderBinary_ParseRowPacket junk uninit m (rs_metadata rs) p1) (\<lambda>r. Inr (RowBinary r))
          | PROTOCOL_TEXT \<Rightarrow> bindE (RowReaderText_ParseRowPacket fl junk uninit m (rs_metadata rs) p1) (\<lambda>r. Inr (RowText r)))
       (\<lambda>reader. Inr (rs\<lparr>rs_rowreaders := rs_rowreaders rs @ [reader]\<rparr>)))"

definition ResultSet_Parse :: "floatlib \<Rightarrow> nat \<Rightarrow> (nat \<Rightarrow> nat) \<Rightarrow> protocol \<Rightarrow> mem \<Rightarrow> pkt \<Rightarrow> resultset \<Rightarrow> (bool \<times> resultset) result" where
  "ResultSet_Parse fl junk uninit protocol m pktin rs =
     bindE (case rs_phase rs of
         PARSE_NEW \<Rightarrow> Parse_new junk m pktin rs
       | PARSE_COLUMN_DEFINITION \<Rightarrow> Parse_column junk m pktin rs
       | PARSE_RESULTSET_ROW \<Rightarrow> Parse_row fl junk uninit protocol m pktin rs
       | PARSE_FINISH \<Rightarrow> Inl ExceptionThrown) (\<lambda>rs1. Inr (rs_phase rs1 = PARSE_FINISH, rs1))"

definition ResultSet_HasError :: "resultset \<Rightarrow> bool" where
  "ResultSet_HasError rs \<longleftrightarrow> rs_error_code rs > 0"

definition ResultSet_Next :: "resultset \<Rightarrow> bool \<times> resultset" where
  "ResultSet_Next rs = (let rs1 = rs\<lparr>rs_rowreaders_index := rs_rowreaders_index rs + 1\<rparr>
     in (rs_rowreaders_index rs1 < int (length (rs_rowreaders rs1)), rs1))"

text \<open>The reads of the current row count columns from one; the virtual calls go to the reader the row was made with.\<close>

definition ResultSet_row :: "resultset \<Rightarrow> rowreader result" where
  "ResultSet_row rs = (if 0 \<le> rs_rowreaders_index rs \<and> rs_rowreaders_index rs < int (length (rs_rowreaders rs))
     then Inr (rs_rowreaders rs ! nat (rs_rowreaders_index rs)) else Inl OutOfRange)"

definition ResultSet_get :: "(rowbinary \<Rightarrow> nat \<Rightarrow> 'a result) \<Rightarrow> (rowtext \<Rightarrow> nat \<Rightarrow> 'a result) \<Rightarrow> resultset \<Rightarrow> nat \<Rightarrow> 'a result" where
  "ResultSet_get get_binary get_text rs column = bindE (ResultSet_row rs) (\<lambda>reader.
     case reader of RowBinary r \<Rightarrow> get_binary r (u32 (column + 4294967295)) | RowText r \<Rightarrow> get_text r (u32 (column + 4294967295)))"

definition ResultSet_GetBoolean :: "resultset \<Rightarrow> nat \<Rightarrow> bool result" where
  "ResultSet_GetBoolean = ResultSet_get RowReaderBinary_GetBoolean RowReaderText_GetBoolean"

definition ResultSet_GetInt8 :: "resultset \<Rightarrow> nat \<Rightarrow> nat result" where
  "ResultSet_GetInt8 rs = ResultSet_get (RowReaderBinary_GetInt8 (rs_metadata rs)) RowReaderText_GetInt8 rs"

definition ResultSet_GetUInt8 :: "resultset \<Rightarrow> nat \<Rightarrow> nat result" where
  "ResultSet_GetUInt8 rs = ResultSet_get (RowReaderBinary_GetUInt8 (rs_metadata rs)) RowReaderText_GetUInt8 rs"

definition ResultSet_GetInt16 :: "resultset \<Rightarrow> nat \<Rightarrow> nat result" where
  "ResultSet_GetInt16 rs = ResultSet_get (RowReaderBinary_GetInt16 (rs_metadata rs)) RowReaderText_GetInt16 rs"

definition ResultSet_GetUInt16 :: "resultset \<Rightarrow> nat \<Rightarrow> nat result" where
  "ResultSet_GetUInt16 rs = ResultSet_get (RowReaderBinary_GetUInt16 (rs_metadata rs)) RowReaderText_GetUInt16 rs"

definition ResultSet_GetInt32 :: "resultset \<Rightarrow> nat \<Rightarrow> nat result" where
  "ResultSet_GetInt32 rs = ResultSet_get (RowReaderBinary_GetInt32 (rs_metadata rs)) RowReaderText_GetInt32 rs"

definition ResultSet_GetUInt32 :: "resultset \<Rightarrow> nat \<Rightarrow> nat result" where
  "ResultSet_GetUInt32 rs = ResultSet_get (RowReaderBinary_GetUInt32 (rs_metadata rs)) RowReaderText_GetUInt32 rs"

definition ResultSet_GetInt64 :: "resultset \<Rightarrow> nat \<Rightarrow> nat result" where
  "ResultSet_GetInt64 rs = ResultSet_get (RowReaderBinary_GetInt64 (rs_metadata rs)) RowReaderText_GetInt64 rs"

definition ResultSet_GetUInt64 :: "resultset \<Rightarrow> nat \<Rightarrow> nat result" where
  "ResultSet_GetUInt64 rs = ResultSet_get (RowReaderBinary_GetUInt64 (rs_metadata rs)) RowReaderText_GetUInt64 rs"

definition ResultSet_GetFloat :: "resultset \<Rightarrow> nat \<Rightarrow> nat result" where
  "ResultSet_GetFloat rs = ResultSet_get (RowReaderBinary_GetFloat (rs_metadata rs)) RowReaderText_GetFloat rs"

definition ResultSet_GetDouble :: "resultset \<Rightarrow> nat \<Rightarrow> nat result" where
  "ResultSet_GetDouble rs = ResultSet_get (RowReaderBinary_GetDouble (rs_metadata rs)) RowReaderText_GetDouble rs"

definition ResultSet_IsNull :: "resultset \<Rightarrow> nat \<Rightarrow> bool result" where
  "ResultSet_IsNull = ResultSet_get (\<lambda>r. bitmap_IsNull (rb_bitmap r)) RowReaderText_IsNull"

definition put_row :: "resultset \<Rightarrow> rowreader \<Rightarrow> resultset" where
  "put_row rs reader = rs\<lparr>rs_rowreaders := (rs_rowreaders rs)[nat (rs_rowreaders_index rs) := reader]\<rparr>"

definition ResultSet_GetString :: "nat \<Rightarrow> mem \<Rightarrow> resultset \<Rightarrow> nat \<Rightarrow> (bytes \<times> resultset) result" where
  "ResultSet_GetString junk m rs = ResultSet_get
     (\<lambda>r i. bindE (RowReaderBinary_GetString junk m (rs_metadata rs) r i) (\<lambda>(ret, r1). Inr (ret, put_row rs (RowBinary r1))))
     (\<lambda>r i. bindE (RowReaderText_GetString junk m r i) (\<lambda>(ret, r1). Inr (ret, put_row rs (RowText r1)))) rs"


section \<open>Reading definitions\<close>

definition reads :: "mem \<Rightarrow> pkt \<Rightarrow> bytes \<Rightarrow> pkt \<Rightarrow> bool" where
  "reads m p r p' \<longleftrightarrow> pin_wf m p' \<and> content m p' = content m p \<and> drop (pk_pos p') (content m p') = r"

lemma LenString_reads:
  assumes "pin_wf m p" and "my_ok junk (MyLenString str)" and "drop (pk_pos p) (content m p) = my_enc (MyLenString str) @ r"
  shows "\<exists>p'. Mysql_ReadLengthEncodedString junk m p = Inr (str, p') \<and> reads m p r p'"
  using my_read_law [OF assms] drop_advanced [of m p _ _] assms(3) by (force simp: bindE_eq_Inr reads_def advanced_def)

lemma Fixed_reads:
  assumes "pin_wf m p" and "v < 256 ^ n" and "drop (pk_pos p) (content m p) = le_bytes n v @ r"
  shows "\<exists>p'. Mysql_ReadFixedInteger n 0 m p = Inr (v, p') \<and> reads m p r p'"
  using ReadFixedInteger_next [OF assms(1,3), of 0] assms(2) by (auto simp: reads_def advanced_def)

lemma Var_reads:
  assumes "pin_wf m p" and "v < 2 ^ w" and "v < 2 ^ 64" and "stray junk v = 0" and "drop (pk_pos p) (content m p) = var_bytes v @ r"
  shows "\<exists>p'. Mysql_ReadVariableInteger w junk m p = Inr (v, p') \<and> reads m p r p'"
  using ReadVariableInteger_next [OF assms(1,5,3), of w junk] assms(2,4) by (auto simp: reads_def advanced_def)

definition coldef_strings :: "columndef \<Rightarrow> bytes list" where
  "coldef_strings cd = [cd_catalog cd, cd_schema cd, cd_table cd, cd_org_table cd, cd_name cd, cd_org_name cd]"

definition coldef_bytes :: "columndef \<Rightarrow> bytes" where
  "coldef_bytes cd = concat (map (\<lambda>str. my_enc (MyLenString str)) (coldef_strings cd)) @ var_bytes (cd_fixed_length cd) @ le_bytes 2 (cd_charset cd) @
     le_bytes 4 (cd_column_length cd) @ le_bytes 1 (cd_type cd) @ le_bytes 2 (cd_flag cd) @ le_bytes 1 (cd_decimals cd) @ le_bytes 2 (cd_filter cd)"

definition coldef_ok :: "nat \<Rightarrow> columndef \<Rightarrow> bool" where
  "coldef_ok junk cd \<longleftrightarrow> (\<forall>str \<in> set (coldef_strings cd). my_ok junk (MyLenString str)) \<and> length (cd_catalog cd) < 251 \<and>
     cd_fixed_length cd < 2 ^ 16 \<and> cd_charset cd < 256 ^ 2 \<and> cd_column_length cd < 256 ^ 4 \<and> cd_type cd < 256 ^ 1 \<and> cd_flag cd < 256 ^ 2 \<and>
     cd_decimals cd < 256 ^ 1 \<and> cd_filter cd < 256 ^ 2"

lemma ColumnDefinition_reads:
  assumes wf: "pin_wf m p" and ok: "coldef_ok junk cd" and d: "drop (pk_pos p) (content m p) = coldef_bytes cd @ r"
  shows "\<exists>p'. ColumnDefinition_Parse junk m p = Inr (cd, p') \<and> reads m p r p'"
proof -
  let ?L = "\<lambda>str. my_enc (MyLenString str)"
  have o: "my_ok junk (MyLenString (cd_catalog cd))" "my_ok junk (MyLenString (cd_schema cd))" "my_ok junk (MyLenString (cd_table cd))"
      "my_ok junk (MyLenString (cd_org_table cd))" "my_ok junk (MyLenString (cd_name cd))" "my_ok junk (MyLenString (cd_org_name cd))"
    using ok by (simp_all add: coldef_ok_def coldef_strings_def)
  have n: "cd_fixed_length cd < 2 ^ 16" "cd_fixed_length cd < 2 ^ 64" "stray junk (cd_fixed_length cd) = 0" "cd_charset cd < 256 ^ 2" "cd_column_length cd < 256 ^ 4"
      "cd_type cd < 256 ^ 1" "cd_flag cd < 256 ^ 2" "cd_decimals cd < 256 ^ 1" "cd_filter cd < 256 ^ 2"
    using ok by (auto simp: coldef_ok_def stray_def)
  define t where "t = le_bytes 2 (cd_charset cd) @ le_bytes 4 (cd_column_length cd) @ le_bytes 1 (cd_type cd) @ le_bytes 2 (cd_flag cd) @
    le_bytes 1 (cd_decimals cd) @ le_bytes 2 (cd_filter cd) @ r"
  have "drop (pk_pos p) (content m p) = ?L (cd_catalog cd) @ (?L (cd_schema cd) @ ?L (cd_table cd) @ ?L (cd_org_table cd) @ ?L (cd_name cd) @ ?L (cd_org_name cd) @
      var_bytes (cd_fixed_length cd) @ t)" using d by (simp add: coldef_bytes_def coldef_strings_def t_def)
  from LenString_reads [OF wf o(1) this] obtain p1 where 1: "Mysql_ReadLengthEncodedString junk m p = Inr (cd_catalog cd, p1)" "pin_wf m p1" "content m p1 = content m p"
      "drop (pk_pos p1) (content m p1) = ?L (cd_schema cd) @ (?L (cd_table cd) @ ?L (cd_org_table cd) @ ?L (cd_name cd) @ ?L (cd_org_name cd) @
      var_bytes (cd_fixed_length cd) @ t)" by (auto simp: reads_def)
  from LenString_reads [OF 1(2) o(2) 1(4)] obtain p2 where 2: "Mysql_ReadLengthEncodedString junk m p1 = Inr (cd_schema cd, p2)" "pin_wf m p2" "content m p2 = content m p"
      "drop (pk_pos p2) (content m p2) = ?L (cd_table cd) @ (?L (cd_org_table cd) @ ?L (cd_name cd) @ ?L (cd_org_name cd) @ var_bytes (cd_fixed_length cd) @ t)"
    using 1(3) by (auto simp: reads_def)
  from LenString_reads [OF 2(2) o(3) 2(4)] obtain p3 where 3: "Mysql_ReadLengthEncodedString junk m p2 = Inr (cd_table cd, p3)" "pin_wf m p3" "content m p3 = content m p"
      "drop (pk_pos p3) (content m p3) = ?L (cd_org_table cd) @ (?L (cd_name cd) @ ?L (cd_org_name cd) @ var_bytes (cd_fixed_length cd) @ t)"
    using 2(3) by (auto simp: reads_def)
  from LenString_reads [OF 3(2) o(4) 3(4)] obtain p4 where 4: "Mysql_ReadLengthEncodedString junk m p3 = Inr (cd_org_table cd, p4)" "pin_wf m p4" "content m p4 = content m p"
      "drop (pk_pos p4) (content m p4) = ?L (cd_name cd) @ (?L (cd_org_name cd) @ var_bytes (cd_fixed_length cd) @ t)"
    using 3(3) by (auto simp: reads_def)
  from LenString_reads [OF 4(2) o(5) 4(4)] obtain p5 where 5: "Mysql_ReadLengthEncodedString junk m p4 = Inr (cd_name cd, p5)" "pin_wf m p5" "content m p5 = content m p"
      "drop (pk_pos p5) (content m p5) = ?L (cd_org_name cd) @ (var_bytes (cd_fixed_length cd) @ t)"
    using 4(3) by (auto simp: reads_def)
  from LenString_reads [OF 5(2) o(6) 5(4)] obtain p6 where 6: "Mysql_ReadLengthEncodedString junk m p5 = Inr (cd_org_name cd, p6)" "pin_wf m p6" "content m p6 = content m p"
      "drop (pk_pos p6) (content m p6) = var_bytes (cd_fixed_length cd) @ t"
    using 5(3) by (auto simp: reads_def)
  from Var_reads [OF 6(2) n(1-3) 6(4)] obtain p7 where 7: "Mysql_ReadVariableInteger 16 junk m p6 = Inr (cd_fixed_length cd, p7)" "pin_wf m p7" "content m p7 = content m p"
      "drop (pk_pos p7) (content m p7) = t" using 6(3) by (auto simp: reads_def)
  from Fixed_reads [OF 7(2) n(4) 7(4) [unfolded t_def]] obtain p8 where 8: "Mysql_ReadFixedInteger 2 0 m p7 = Inr (cd_charset cd, p8)" "pin_wf m p8" "content m p8 = content m p"
      "drop (pk_pos p8) (content m p8) = le_bytes 4 (cd_column_length cd) @ (le_bytes 1 (cd_type cd) @ le_bytes 2 (cd_flag cd) @ le_bytes 1 (cd_decimals cd) @ le_bytes 2 (cd_filter cd) @ r)"
    using 7(3) unfolding reads_def by auto
  from Fixed_reads [OF 8(2) n(5) 8(4)] obtain p9 where 9: "Mysql_ReadFixedInteger 4 0 m p8 = Inr (cd_column_length cd, p9)" "pin_wf m p9" "content m p9 = content m p"
      "drop (pk_pos p9) (content m p9) = le_bytes 1 (cd_type cd) @ (le_bytes 2 (cd_flag cd) @ le_bytes 1 (cd_decimals cd) @ le_bytes 2 (cd_filter cd) @ r)"
    using 8(3) unfolding reads_def by auto
  from Fixed_reads [OF 9(2) n(6) 9(4)] obtain p10 where 10: "Mysql_ReadFixedInteger 1 0 m p9 = Inr (cd_type cd, p10)" "pin_wf m p10" "content m p10 = content m p"
      "drop (pk_pos p10) (content m p10) = le_bytes 2 (cd_flag cd) @ (le_bytes 1 (cd_decimals cd) @ le_bytes 2 (cd_filter cd) @ r)"
    using 9(3) unfolding reads_def by auto
  from Fixed_reads [OF 10(2) n(7) 10(4)] obtain p11 where 11: "Mysql_ReadFixedInteger 2 0 m p10 = Inr (cd_flag cd, p11)" "pin_wf m p11" "content m p11 = content m p"
      "drop (pk_pos p11) (content m p11) = le_bytes 1 (cd_decimals cd) @ (le_bytes 2 (cd_filter cd) @ r)"
    using 10(3) unfolding reads_def by auto
  from Fixed_reads [OF 11(2) n(8) 11(4)] obtain p12 where 12: "Mysql_ReadFixedInteger 1 0 m p11 = Inr (cd_decimals cd, p12)" "pin_wf m p12" "content m p12 = content m p"
      "drop (pk_pos p12) (content m p12) = le_bytes 2 (cd_filter cd) @ r"
    using 11(3) unfolding reads_def by auto
  from Fixed_reads [OF 12(2) n(9) 12(4)] obtain p13 where 13: "Mysql_ReadFixedInteger 2 0 m p12 = Inr (cd_filter cd, p13)" "reads m p12 r p13" by auto
  have "ColumnDefinition_Parse junk m p = Inr (cd, p13)"
    unfolding ColumnDefinition_Parse_def by (simp add: 1(1) 2(1) 3(1) 4(1) 5(1) 6(1) 7(1) 8(1) 9(1) 10(1) [unfolded One_nat_def] 11(1) 12(1) [unfolded One_nat_def] 13(1))
  then show ?thesis using 13(2) 12(3) by (auto simp: reads_def)
qed


section \<open>Responses\<close>

text \<open>A received packet whose head has been read; \<open>bs\<close> is its payload.\<close>

definition holds_packet :: "bytes \<Rightarrow> mem \<times> pkt \<Rightarrow> bool" where
  "holds_packet bs = (\<lambda>(m, p). pin_full m p \<and> pk_pos p = 4 \<and> (\<exists>hd4. length hd4 = 4 \<and> content m p = hd4 @ bs))"

lemma first_byte:
  assumes "holds_packet (b # bs) (m, p)"
  shows "\<exists>p1 p2 hd4. Mysql_ReadFixedInteger 1 0 m p = Inr (unat b, p1) \<and> pin_full m p1 \<and> length hd4 = 4 \<and> content m p1 = hd4 @ b # bs \<and>
    Mysql_Skip (-1) p1 = Inr p2 \<and> pin_wf m p2 \<and> drop (pk_pos p2) (content m p2) = b # bs"
proof -
  obtain hd4 where h: "pin_full m p" "pk_pos p = 4" "length hd4 = 4" "content m p = hd4 @ b # bs" using assms by (auto simp: holds_packet_def)
  have wf: "pin_wf m p" using h(1) by (simp add: pin_full_def)
  obtain p1 where p1: "PacketInBase_GetByte 1 m p = Inr ([b], p1)" "advanced m p 1 p1"
    using GetByte_next [OF wf, of "[b]" bs] h by auto
  have f1: "pin_full m p1" by (rule advanced_full [OF h(1) p1(2) GetByte_capacity [OF p1(1)]])
  have c1: "content m p1 = hd4 @ b # bs" "pk_pos p1 = 5" using p1(2) h by (simp_all add: advanced_def)
  have w1: "pin_wf m p1" "pk_capacity p1 = pk_size p1" using f1 by (simp_all add: pin_full_def)
  have "4 \<le> pk_size p1" using length_content_pin [OF w1(1)] c1(1) h(3) by simp
  then obtain p2 where p2: "Packet_SkipTo p1 4 = Inr p2" "pin_wf m p2" "pk_pos p2 = 4" "content m p2 = content m p1"
    using SkipTo_pin [OF w1(1) _ w1(2)] by blast
  have "Mysql_Skip (-1) p1 = Inr p2" using p2(1) c1(2) by (simp add: Mysql_Skip_def)
  moreover have "Mysql_ReadFixedInteger 1 0 m p = Inr (unat b, p1)" using p1(1) by (simp add: Mysql_ReadFixedInteger_def)
  ultimately show ?thesis using f1 c1 h(3) p2 by (intro exI [of _ p1] exI [of _ p2] exI [of _ hd4]) simp
qed

lemma Parse_count:
  assumes "holds_packet (var_bytes n) (m, p)" and n: "0 < n" "n < 65536" and rs: "rs_phase rs = PARSE_NEW"
  shows "ResultSet_Parse fl junk uninit prot m p rs = Inr (False, rs\<lparr>rs_metadata := (rs_metadata rs)\<lparr>md_num_columns := n\<rparr>, rs_phase := PARSE_COLUMN_DEFINITION\<rparr>)"
proof -
  have "\<exists>b bs. var_bytes n = b # bs \<and> unat b = (if n < 251 then n else 252)"
  proof (cases "n < 251")
    case True
    then show ?thesis by (simp add: var_bytes_def le_bytes_small unsigned_of_nat take_bit_nat_eq_self)
  next
    case False
    then show ?thesis using n by (intro exI [of _ 252]) (simp add: var_bytes_def)
  qed
  then obtain b bs where b: "var_bytes n = b # bs" "unat b = (if n < 251 then n else 252)" by blast
  obtain p1 p2 where p: "Mysql_ReadFixedInteger 1 0 m p = Inr (unat b, p1)" "Mysql_Skip (-1) p1 = Inr p2" "pin_wf m p2" "drop (pk_pos p2) (content m p2) = var_bytes n @ []"
    using first_byte [OF assms(1) [unfolded b(1)]] b(1) by auto
  have "stray junk n = 0" using n by (simp add: stray_def)
  then obtain p3 where "Mysql_ReadVariableInteger 32 junk m p2 = Inr (n, p3)" using Var_reads [OF p(3) _ _ _ p(4), of 32 junk] n by auto
  then show ?thesis using p(1,2) b(2) n rs by (simp add: ResultSet_Parse_def Parse_new_def)
qed

lemma Parse_definition:
  assumes "holds_packet (coldef_bytes cd) (m, p)" and ok: "coldef_ok junk cd" and rs: "rs_phase rs = PARSE_COLUMN_DEFINITION"
  shows "ResultSet_Parse fl junk uninit prot m p rs = Inr (False, rs\<lparr>rs_metadata := (rs_metadata rs)\<lparr>md_columns := md_columns (rs_metadata rs) @ [cd]\<rparr>\<rparr>)"
proof -
  obtain b bs where b: "coldef_bytes cd = b # bs" "unat b < 251"
    using ok by (auto simp: coldef_ok_def coldef_bytes_def coldef_strings_def var_bytes_def unsigned_of_nat take_bit_nat_eq_self)
  obtain p1 p2 where p: "Mysql_ReadFixedInteger 1 0 m p = Inr (unat b, p1)" "Mysql_Skip (-1) p1 = Inr p2" "pin_wf m p2" "drop (pk_pos p2) (content m p2) = coldef_bytes cd @ []"
    using first_byte [OF assms(1) [unfolded b(1)]] b(1) by auto
  from ColumnDefinition_reads [OF p(3) ok p(4)] show ?thesis using p(1,2) b(2) rs by (auto simp: ResultSet_Parse_def Parse_column_def)
qed

lemma Parse_end:
  assumes "holds_packet (254 # bs) (m, p)"
  shows "rs_phase rs = PARSE_COLUMN_DEFINITION \<Longrightarrow> ResultSet_Parse fl junk uninit prot m p rs = Inr (False, rs\<lparr>rs_phase := PARSE_RESULTSET_ROW\<rparr>)"
    and "rs_phase rs = PARSE_RESULTSET_ROW \<Longrightarrow> ResultSet_Parse fl junk uninit prot m p rs = Inr (True, rs\<lparr>rs_phase := PARSE_FINISH\<rparr>)"
  using first_byte [OF assms] by (auto simp: ResultSet_Parse_def Parse_column_def Parse_row_def)

text \<open>A row that the columns describe.\<close>

definition row_fits :: "nat \<Rightarrow> rsmeta \<Rightarrow> mycell list \<Rightarrow> bool" where
  "row_fits junk md cells \<longleftrightarrow> length (md_columns md) = length cells \<and> md_num_columns md = length cells \<and> length cells < 4294967280 \<and>
     (\<forall>i < length cells. cell_ok junk (cd_type (md_columns md ! i)) (cells ! i))"

abbreviation column_types :: "rsmeta \<Rightarrow> nat list" where
  "column_types md \<equiv> map cd_type (md_columns md)"

lemma Parse_binary_row:
  assumes "holds_packet (0 # row_bytes (column_types (rs_metadata rs)) cells) (m, p)" and fits: "row_fits junk (rs_metadata rs) cells"
    and rs: "rs_phase rs = PARSE_RESULTSET_ROW"
  shows "\<exists>r. ResultSet_Parse fl junk uninit PROTOCOL_BINARY m p rs = Inr (False, rs\<lparr>rs_rowreaders := rs_rowreaders rs @ [RowBinary r]\<rparr>) \<and>
    row_read junk m (column_types (rs_metadata rs)) cells r"
proof -
  let ?md = "rs_metadata rs"
  obtain p1 hd4 where p: "Mysql_ReadFixedInteger 1 0 m p = Inr (0, p1)" "pin_full m p1" "length hd4 = 4" "content m p1 = (hd4 @ [0]) @ row_bytes (column_types ?md) cells"
    using first_byte [OF assms(1)] by auto
  have ok: "cell_ok junk (column_types ?md ! i) (cells ! i)" if "i < length cells" for i using fits that by (simp add: row_fits_def)
  obtain r where "RowReaderBinary_ParseRowPacket junk uninit m ?md p1 = Inr r" "row_read junk m (column_types ?md) cells r"
    using ParseRowPacket_reads [OF p(2,4) _ refl _ _ _ ok] p(3) fits by (auto simp: row_fits_def)
  then show ?thesis using p(1) rs by (auto simp: ResultSet_Parse_def Parse_row_def)
qed

fun Parse_all :: "floatlib \<Rightarrow> nat \<Rightarrow> (nat \<Rightarrow> nat) \<Rightarrow> protocol \<Rightarrow> (mem \<times> pkt) list \<Rightarrow> resultset \<Rightarrow> (bool list \<times> resultset) result" where
  "Parse_all fl junk uninit prot [] rs = Inr ([], rs)"
| "Parse_all fl junk uninit prot ((m, p) # ps) rs = bindE (ResultSet_Parse fl junk uninit prot m p rs) (\<lambda>(b, rs1).
     bindE (Parse_all fl junk uninit prot ps rs1) (\<lambda>(bs, rs2). Inr (b # bs, rs2)))"

lemma Parse_all_append:
  "Parse_all fl junk uninit prot ps rs = Inr (bs, rs1) \<Longrightarrow> Parse_all fl junk uninit prot qs rs1 = Inr (cs, rs2) \<Longrightarrow>
   Parse_all fl junk uninit prot (ps @ qs) rs = Inr (bs @ cs, rs2)"
  by (induction ps arbitrary: rs bs) (auto simp: bindE_eq_Inr split: prod.splits)

lemma Parse_definitions:
  assumes "list_all2 (\<lambda>cd mp. holds_packet (coldef_bytes cd) mp \<and> coldef_ok junk cd) cds ps" and "rs_phase rs = PARSE_COLUMN_DEFINITION"
  shows "Parse_all fl junk uninit prot ps rs = Inr (replicate (length ps) False, rs\<lparr>rs_metadata := (rs_metadata rs)\<lparr>md_columns := md_columns (rs_metadata rs) @ cds\<rparr>\<rparr>)"
  using assms
proof (induction cds ps arbitrary: rs rule: list_all2_induct)
  case (Cons cd cds mp ps)
  obtain m p where mp: "mp = (m, p)" by (cases mp)
  let ?rs = "rs\<lparr>rs_metadata := (rs_metadata rs)\<lparr>md_columns := md_columns (rs_metadata rs) @ [cd]\<rparr>\<rparr>"
  have "ResultSet_Parse fl junk uninit prot m p rs = Inr (False, ?rs)" using Parse_definition Cons.hyps(1) Cons.prems mp by blast
  moreover have "rs_phase ?rs = PARSE_COLUMN_DEFINITION" using Cons.prems by simp
  ultimately show ?case using Cons.IH [of ?rs] mp by simp
qed simp

lemma Parse_rows:
  assumes "list_all2 (\<lambda>cells mp. holds_packet (0 # row_bytes (column_types md) cells) mp \<and> row_fits junk md cells) rows ps"
    and "rs_phase rs = PARSE_RESULTSET_ROW" and "rs_metadata rs = md"
  shows "\<exists>readers. Parse_all fl junk uninit PROTOCOL_BINARY ps rs = Inr (replicate (length ps) False, rs\<lparr>rs_rowreaders := rs_rowreaders rs @ readers\<rparr>) \<and>
    length readers = length rows \<and> (\<forall>j < length rows. \<exists>r. readers ! j = RowBinary r \<and> row_read junk (fst (ps ! j)) (column_types md) (rows ! j) r)"
  using assms
proof (induction rows ps arbitrary: rs rule: list_all2_induct)
  case (Cons cells rows mp ps)
  obtain m p where mp: "mp = (m, p)" by (cases mp)
  obtain r where r: "ResultSet_Parse fl junk uninit PROTOCOL_BINARY m p rs = Inr (False, rs\<lparr>rs_rowreaders := rs_rowreaders rs @ [RowBinary r]\<rparr>)"
      "row_read junk m (column_types md) cells r"
    using Parse_binary_row [of rs cells m p junk fl uninit] Cons.hyps(1) Cons.prems mp by auto
  let ?rs = "rs\<lparr>rs_rowreaders := rs_rowreaders rs @ [RowBinary r]\<rparr>"
  have "rs_phase ?rs = PARSE_RESULTSET_ROW" "rs_metadata ?rs = md" using Cons.prems by simp_all
  from Cons.IH [OF this] obtain readers where i: "Parse_all fl junk uninit PROTOCOL_BINARY ps ?rs = Inr (replicate (length ps) False, ?rs\<lparr>rs_rowreaders := rs_rowreaders ?rs @ readers\<rparr>)"
      "length readers = length rows" "\<forall>j < length rows. \<exists>r. readers ! j = RowBinary r \<and> row_read junk (fst (ps ! j)) (column_types md) (rows ! j) r" by blast
  have "\<forall>j < length (cells # rows). \<exists>r'. (RowBinary r # readers) ! j = RowBinary r' \<and> row_read junk (fst ((mp # ps) ! j)) (column_types md) ((cells # rows) ! j) r'"
    using r(2) i(3) mp by (auto simp: nth_Cons split: nat.splits)
  then show ?case using r(1) i(1,2) mp by (intro exI [of _ "RowBinary r # readers"]) simp
qed simp

text \<open>The reads of numbers with the types they accept, and the state after some calls of \<open>Next\<close>.\<close>

definition result_getters :: "(nat set \<times> (resultset \<Rightarrow> nat \<Rightarrow> nat result)) list" where
  "result_getters = [({MYSQL_TYPE_TINY}, ResultSet_GetInt8), ({MYSQL_TYPE_TINY}, ResultSet_GetUInt8),
     ({MYSQL_TYPE_SHORT, MYSQL_TYPE_YEAR}, ResultSet_GetInt16), ({MYSQL_TYPE_SHORT}, ResultSet_GetUInt16),
     ({MYSQL_TYPE_LONG, MYSQL_TYPE_INT24}, ResultSet_GetInt32), ({MYSQL_TYPE_LONG, MYSQL_TYPE_INT24}, ResultSet_GetUInt32),
     ({MYSQL_TYPE_LONGLONG}, ResultSet_GetInt64), ({MYSQL_TYPE_LONGLONG}, ResultSet_GetUInt64),
     ({MYSQL_TYPE_FLOAT}, ResultSet_GetFloat), ({MYSQL_TYPE_DOUBLE}, ResultSet_GetDouble)]"

abbreviation Next_times :: "nat \<Rightarrow> resultset \<Rightarrow> resultset" where
  "Next_times k rs \<equiv> ((\<lambda>rs. snd (ResultSet_Next rs)) ^^ k) rs"

lemma Next_times_eq: "Next_times k rs = rs\<lparr>rs_rowreaders_index := rs_rowreaders_index rs + int k\<rparr>"
  by (induction k) (simp_all add: ResultSet_Next_def Let_def)

lemma get_current:
  assumes "rs_rowreaders_index rs = -1" and "j < length (rs_rowreaders rs)" and "rs_rowreaders rs ! j = RowBinary r" and "i < 4294967280"
  shows "ResultSet_get gb gt (Next_times (Suc j) rs) (Suc i) = gb r i"
proof -
  have "u32 (Suc i + 4294967295) = i" using assms(4) by (simp add: u32_def)
  then show ?thesis using assms(1-3) unfolding ResultSet_get_def ResultSet_row_def Next_times_eq by simp
qed

lemma result_getters_binary:
  "list_all2 (\<lambda>(types, g) (types', n, gb). types = types' \<and> (\<exists>gt. \<forall>rs. g rs = ResultSet_get (gb (rs_metadata rs)) gt rs)) result_getters numeric_getters"
  unfolding result_getters_def numeric_getters_def
  by (simp only: list_all2_Cons list_all2_Nil case_prod_conv)
    (intro conjI TrueI refl exI allI; rule ResultSet_GetInt8_def ResultSet_GetUInt8_def ResultSet_GetInt16_def ResultSet_GetUInt16_def
      ResultSet_GetInt32_def ResultSet_GetUInt32_def ResultSet_GetInt64_def ResultSet_GetUInt64_def ResultSet_GetFloat_def ResultSet_GetDouble_def)

lemma result_getter:
  assumes "(types, g) \<in> set result_getters"
  shows "\<exists>n gb gt. (types, n, gb) \<in> set numeric_getters \<and> (\<forall>rs. g rs = ResultSet_get (gb (rs_metadata rs)) gt rs)"
proof -
  obtain k where k: "k < length result_getters" "result_getters ! k = (types, g)" using assms by (auto simp: in_set_conv_nth)
  obtain ty n gb where b: "numeric_getters ! k = (ty, n, gb)" by (cases "numeric_getters ! k")
  have "k < length numeric_getters" using k(1) list_all2_lengthD [OF result_getters_binary] by simp
  then have "(ty, n, gb) \<in> set numeric_getters" using b nth_mem by metis
  then show ?thesis using list_all2_nthD [OF result_getters_binary k(1)] k(2) b by auto
qed

text \<open>What the caller sees of a complete result set: as many rows as were sent, and in each the cells that were sent.\<close>

definition shows_rows :: "nat \<Rightarrow> mem list \<Rightarrow> columndef list \<Rightarrow> mycell list list \<Rightarrow> resultset \<Rightarrow> bool" where
  "shows_rows junk ms cds rows rs \<longleftrightarrow> (\<forall>j. fst (ResultSet_Next (Next_times j rs)) \<longleftrightarrow> j < length rows) \<and>
     (\<forall>j < length rows. \<forall>i < length cds.
        ResultSet_IsNull (Next_times (Suc j) rs) (Suc i) = Inr (rows ! j ! i = CNull) \<and>
        (\<forall>(types, get) \<in> set result_getters. get (Next_times (Suc j) rs) (Suc i) = sent_value types (cd_type (cds ! i)) (rows ! j ! i)) \<and>
        (\<forall>str. rows ! j ! i = CText str \<longrightarrow> cd_type (cds ! i) \<notin> {MYSQL_TYPE_DECIMAL, MYSQL_TYPE_NEWDECIMAL} \<longrightarrow>
           (\<exists>rs'. ResultSet_GetString junk (ms ! j) (Next_times (Suc j) rs) (Suc i) = Inr (str, rs'))) \<and>
        (\<not> ((\<exists>str. rows ! j ! i = CText str) \<and> cd_type (cds ! i) \<notin> {MYSQL_TYPE_DECIMAL, MYSQL_TYPE_NEWDECIMAL}) \<longrightarrow>
           ResultSet_GetString junk (ms ! j) (Next_times (Suc j) rs) (Suc i) = Inl ExceptionThrown) \<and>
        (\<forall>v. rows ! j ! i = CBits v \<longrightarrow> ResultSet_GetBoolean (Next_times (Suc j) rs) (Suc i) = Inr (v mod 256 \<noteq> 0)))"

lemma shows_rowsI:
  assumes ix: "rs_rowreaders_index rs = -1" and md: "rs_metadata rs = \<lparr>md_columns = cds, md_num_columns = length cds\<rparr>"
    and len: "length (rs_rowreaders rs) = length rows"
    and rd: "\<forall>j < length rows. \<exists>r. rs_rowreaders rs ! j = RowBinary r \<and> row_read junk (ms ! j) (map cd_type cds) (rows ! j) r"
    and fits: "\<forall>j < length rows. row_fits junk \<lparr>md_columns = cds, md_num_columns = length cds\<rparr> (rows ! j)"
  shows "shows_rows junk ms cds rows rs"
proof -
  let ?md = "\<lparr>md_columns = cds, md_num_columns = length cds\<rparr>"
  have cell: "ResultSet_IsNull (Next_times (Suc j) rs) (Suc i) = Inr (rows ! j ! i = CNull) \<and>
      (\<forall>(types, get) \<in> set result_getters. get (Next_times (Suc j) rs) (Suc i) = sent_value types (cd_type (cds ! i)) (rows ! j ! i)) \<and>
      (\<forall>str. rows ! j ! i = CText str \<longrightarrow> cd_type (cds ! i) \<notin> {MYSQL_TYPE_DECIMAL, MYSQL_TYPE_NEWDECIMAL} \<longrightarrow>
           (\<exists>rs'. ResultSet_GetString junk (ms ! j) (Next_times (Suc j) rs) (Suc i) = Inr (str, rs'))) \<and>
      (\<not> ((\<exists>str. rows ! j ! i = CText str) \<and> cd_type (cds ! i) \<notin> {MYSQL_TYPE_DECIMAL, MYSQL_TYPE_NEWDECIMAL}) \<longrightarrow>
         ResultSet_GetString junk (ms ! j) (Next_times (Suc j) rs) (Suc i) = Inl ExceptionThrown) \<and>
      (\<forall>v. rows ! j ! i = CBits v \<longrightarrow> ResultSet_GetBoolean (Next_times (Suc j) rs) (Suc i) = Inr (v mod 256 \<noteq> 0))"
    if j: "j < length rows" and i: "i < length cds" for j i
  proof -
    obtain r where r: "rs_rowreaders rs ! j = RowBinary r" "row_read junk (ms ! j) (map cd_type cds) (rows ! j) r" using rd j by blast
    have f: "length (rows ! j) = length cds" "length cds < 4294967280" "cell_ok junk (cd_type (cds ! i)) (rows ! j ! i)"
      using fits j i by (simp_all add: row_fits_def)
    have ty: "map cd_type (md_columns ?md) = map cd_type cds" "length (map cd_type cds) = length (rows ! j)" "i < length (rows ! j)"
        "map cd_type cds ! i = cd_type (cds ! i)" using f(1) i by simp_all
    have ok: "cell_ok junk (map cd_type cds ! i) (rows ! j ! i)" using f(3) ty(4) by simp
    note get = get_current [OF ix j [folded len] r(1), of i]
    have i': "i < 4294967280" using i f(2) by simp
    have md': "rs_metadata (Next_times k rs) = ?md" for k using md by (simp add: Next_times_eq)
    have "get (Next_times (Suc j) rs) (Suc i) = sent_value types (cd_type (cds ! i)) (rows ! j ! i)" if g: "(types, get) \<in> set result_getters" for types get
    proof -
      obtain n gb gt where b: "(types, n, gb) \<in> set numeric_getters" "\<And>rs. get rs = ResultSet_get (gb (rs_metadata rs)) gt rs"
        using result_getter [OF g] by blast
      show ?thesis using numeric_of_row [OF r(2) ty(1-3) ok b(1)] ty(4) get [OF i', of "gb ?md" gt] unfolding b(2) md' by (simp only:)
    qed
    moreover have "ResultSet_IsNull (Next_times (Suc j) rs) (Suc i) = Inr (rows ! j ! i = CNull)"
      unfolding ResultSet_IsNull_def get [OF i'] by (rule IsNull_of_row [OF r(2) ty(3)])
    moreover have "\<exists>rs'. ResultSet_GetString junk (ms ! j) (Next_times (Suc j) rs) (Suc i) = Inr (str, rs')"
      if s: "rows ! j ! i = CText str" "cd_type (cds ! i) \<notin> {MYSQL_TYPE_DECIMAL, MYSQL_TYPE_NEWDECIMAL}" for str
    proof -
      obtain r' where "RowReaderBinary_GetString junk (ms ! j) ?md r i = Inr (str, r')"
        using GetString_of_row [OF r(2) ty(1-3) s(1)] ok s ty(4) by auto
      then show ?thesis unfolding ResultSet_GetString_def md' get [OF i'] by simp
    qed
    moreover have "ResultSet_GetString junk (ms ! j) (Next_times (Suc j) rs) (Suc i) = Inl ExceptionThrown"
      if no: "\<not> ((\<exists>str. rows ! j ! i = CText str) \<and> cd_type (cds ! i) \<notin> {MYSQL_TYPE_DECIMAL, MYSQL_TYPE_NEWDECIMAL})"
      using GetString_refused [OF r(2) ty(1-3) ok] no unfolding ty(4) ResultSet_GetString_def md' get [OF i'] by simp
    moreover have "ResultSet_GetBoolean (Next_times (Suc j) rs) (Suc i) = Inr (v mod 256 \<noteq> 0)" if "rows ! j ! i = CBits v" for v
      unfolding ResultSet_GetBoolean_def get [OF i'] by (rule GetBoolean_of_row [OF r(2) ty(3) that ok])
    ultimately show ?thesis by blast
  qed
  moreover have "fst (ResultSet_Next (Next_times j rs)) \<longleftrightarrow> j < length rows" for j
    using ix len unfolding Next_times_eq by (simp add: ResultSet_Next_def Let_def)
  ultimately show ?thesis unfolding shows_rows_def by blast
qed


text \<open>The witness: one column, one row with the number 513.\<close>

lemma packet_exists:
  assumes "length bs < 1000"
  shows "\<exists>mp. holds_packet bs mp"
proof -
  let ?bs = "[0, 0, 0, 0] @ bs"
  obtain p where p: "pin_wf (loaded_mem ?bs) p" "content (loaded_mem ?bs) p = ?bs" "pk_capacity p = pk_size p"
    using PacketInBase_new_spec [of "cl_recvq (loaded_client ?bs)" "loaded_mem ?bs"] assms
    by (auto simp: rm_wf_def loaded_client_def loaded_mem_def ref_bytes_def)
  have "4 \<le> pk_size p" using length_content_pin [OF p(1)] p(2) by simp
  from SkipTo_pin [OF p(1) this p(3)] obtain p1 where p1: "Packet_SkipTo p 4 = Inr p1" "pin_wf (loaded_mem ?bs) p1" "pk_pos p1 = 4"
      "content (loaded_mem ?bs) p1 = ?bs" using p(2) by auto
  have "pk_capacity p1 = pk_size p1" using SkipTo_capacity [OF p1(1)] p(3) length_content_pin [OF p(1)] length_content_pin [OF p1(2)] p(2) p1(4) by simp
  then have "holds_packet bs (loaded_mem ?bs, p1)" using p1 by (auto simp: holds_packet_def pin_full_def intro!: exI [of _ "[0, 0, 0, 0]"])
  then show ?thesis by blast
qed


end
