(* ===== verification/MysqlAuth.thy ===== *)
theory MysqlAuth
  imports MysqlResult Crypto
begin

text \<open>
  The authentication of \<open>base/dbo_bk/internal/realconnection.cpp\<close>: the greeting of the server is taken apart, the token for the password is calculated from the
  challenge in it, and the answer is written. SHA-1 is a parameter (OpenSSL); what is used of it is the length of its results.
  Theorem: the exact bytes of the answer to a greeting, with and without \<open>CLIENT_SECURE_CONNECTION\<close>; its token passes the check the protocol asks of the server.
\<close>

section \<open>Model\<close>

record serverinfo =
  si_dbname :: bytes
  si_username :: bytes
  si_password :: bytes
  si_host :: bytes
  si_port :: int

abbreviation CLIENT_CONNECT_WITH_DB :: "32 word" where "CLIENT_CONNECT_WITH_DB \<equiv> 0x00000008"
abbreviation CLIENT_PROTOCOL_41 :: "32 word" where "CLIENT_PROTOCOL_41 \<equiv> 0x00000200"
abbreviation CLIENT_TRANSACTIONS :: "32 word" where "CLIENT_TRANSACTIONS \<equiv> 0x00002000"
abbreviation CLIENT_SECURE_CONNECTION :: "32 word" where "CLIENT_SECURE_CONNECTION \<equiv> 0x00008000"
abbreviation CLIENT_PLUGIN_AUTH :: "32 word" where "CLIENT_PLUGIN_AUTH \<equiv> 0x00080000"
abbreviation CLIENT_PLUGIN_AUTH_LENENC_CLIENT_DATA :: "32 word" where "CLIENT_PLUGIN_AUTH_LENENC_CLIENT_DATA \<equiv> 0x00200000"

unbundle bit_operations_syntax

definition has :: "32 word \<Rightarrow> 32 word \<Rightarrow> bool" where
  "has capability flag \<longleftrightarrow> capability AND flag \<noteq> 0"

text \<open>\<open>SHA1\<close> fills the twenty bytes of the output.\<close>

definition sha1 :: "(bytes \<Rightarrow> bytes) \<Rightarrow> bytes \<Rightarrow> bytes" where
  "sha1 SHA1 input = SHA1 input"

fun token_loop :: "nat \<Rightarrow> nat \<Rightarrow> bytes \<Rightarrow> bytes \<Rightarrow> bytes \<Rightarrow> bytes" where
  "token_loop 0 i stage1 stage3 token = token"
| "token_loop (Suc n) i stage1 stage3 token = token_loop n (i + 1) stage1 stage3 (token @ [(stage1 ! i) XOR (stage3 ! i)])"

definition calculate_mysql_native_password :: "(bytes \<Rightarrow> bytes) \<Rightarrow> bytes \<Rightarrow> bytes \<Rightarrow> bytes \<Rightarrow> bytes" where
  "calculate_mysql_native_password SHA1 password auth_plugin_data_1 auth_plugin_data_2 =
     (let challenge = auth_plugin_data_1 @ auth_plugin_data_2;
          stage1 = sha1 SHA1 password;
          stage2 = sha1 SHA1 stage1;
          stage3 = sha1 SHA1 (challenge @ stage2)
      in token_loop 20 0 stage1 stage3 [])"

definition Mysql_FreeCount :: "pkt \<Rightarrow> nat" where
  "Mysql_FreeCount p = u32 (pk_capacity p + 4294967296 - pk_pos p)"

record greeting =
  gr_data_1 :: bytes
  gr_data_2 :: bytes
  gr_name :: bytes
  gr_capability :: "32 word"

text \<open>
  The greeting after the version of the protocol. The variables that are not initialised are overwritten as a whole. The last byte of the second part
  of the challenge is removed.
\<close>

definition read_flags :: "mem \<Rightarrow> pkt \<Rightarrow> (32 word \<times> pkt) result" where
  "read_flags m p =
     bindE (if Mysql_FreeCount p \<ge> 2 then Mysql_ReadFixedInteger 2 0 m p else Inr (0, p)) (\<lambda>(capability_flag_1, p1).
     bindE (if Mysql_FreeCount p1 \<ge> 18 then
              bindE (Mysql_ReadFixedInteger 1 0 m p1) (\<lambda>(charset, p2).
              bindE (Mysql_ReadFixedInteger 2 0 m p2) (\<lambda>(status_flag, p3). Mysql_ReadFixedInteger 2 0 m p3))
            else Inr (0, p1)) (\<lambda>(capability_flag_2, p4).
     Inr (push_bit 16 (word_of_nat capability_flag_2) OR word_of_nat capability_flag_1, p4)))"

definition read_plugin :: "32 word \<Rightarrow> nat \<Rightarrow> mem \<Rightarrow> pkt \<Rightarrow> (bytes \<times> bytes) result" where
  "read_plugin capability auth_plugin_data_length m p = (if has capability CLIENT_SECURE_CONNECTION then
       bindE (Mysql_ReadFixedString (nat (max 13 (int auth_plugin_data_length - 8))) m p) (\<lambda>(auth_plugin_data_part_2, p1).
       bindE (if has capability CLIENT_PLUGIN_AUTH then Mysql_ReadRestOfPacketString m p1 else Inr ([], p1)) (\<lambda>(auth_plugin_name, p2).
       Inr (butlast auth_plugin_data_part_2, auth_plugin_name)))
     else Inr ([], []))"

definition read_greeting :: "mem \<Rightarrow> pkt \<Rightarrow> greeting result" where
  "read_greeting m p =
     bindE (Mysql_ReadNulTerminateString m p) (\<lambda>(server_version, p1).
     bindE (Mysql_ReadFixedInteger 4 0 m p1) (\<lambda>(connection_id, p2).
     bindE (Mysql_ReadFixedString 8 m p2) (\<lambda>(auth_plugin_data_part_1, p3).
     bindE (Mysql_ReadFixedInteger 1 0 m p3) (\<lambda>(filter, p4).
     bindE (read_flags m p4) (\<lambda>(capability, p5).
     bindE (Mysql_ReadFixedInteger 1 0 m p5) (\<lambda>(auth_plugin_data_length, p6).
     bindE (Mysql_Skip 10 p6) (\<lambda>p7.
     bindE (read_plugin capability auth_plugin_data_length m p7) (\<lambda>(auth_plugin_data_part_2, auth_plugin_name).
     if \<not> has capability CLIENT_PROTOCOL_41 then Inl ExceptionThrown
     else Inr \<lparr>gr_data_1 = auth_plugin_data_part_1, gr_data_2 = auth_plugin_data_part_2, gr_name = auth_plugin_name, gr_capability = capability\<rparr>))))))))"

definition client_capability :: "32 word" where
  "client_capability = CLIENT_PROTOCOL_41 OR CLIENT_CONNECT_WITH_DB OR CLIENT_TRANSACTIONS OR CLIENT_SECURE_CONNECTION OR CLIENT_PLUGIN_AUTH
     OR CLIENT_PLUGIN_AUTH_LENENC_CLIENT_DATA"

text \<open>The second test of \<open>CLIENT_SECURE_CONNECTION\<close> is the one in the source.\<close>

definition write_login :: "serverinfo \<Rightarrow> bytes \<Rightarrow> greeting \<Rightarrow> pkt \<times> mem \<Rightarrow> (pkt \<times> mem) result" where
  "write_login info token gr s =
     bindE (Mysql_WriteFixedInteger 4 (unat client_capability) s) (\<lambda>s.
     bindE (Mysql_WriteFixedInteger 4 (1024 * 1024 * 5) s) (\<lambda>s.
     bindE (Mysql_WriteFixedInteger 1 33 s) (\<lambda>s.
     bindE (Mysql_WriteFixedString (replicate 23 0) s) (\<lambda>s.
     bindE (Mysql_WriteNulTerminateString (si_username info) s) (\<lambda>s.
     bindE (if has (gr_capability gr) CLIENT_SECURE_CONNECTION then bindE (Mysql_WriteVariableInteger (length token) s) (Mysql_WriteFixedString token)
            else if has (gr_capability gr) CLIENT_SECURE_CONNECTION then bindE (Mysql_WriteFixedInteger 1 (length token) s) (Mysql_WriteFixedString token)
            else Mysql_WriteNulTerminateString token s) (\<lambda>s.
     bindE (if has (gr_capability gr) CLIENT_CONNECT_WITH_DB then Mysql_WriteNulTerminateString (si_dbname info) s else Inr s) (\<lambda>s.
     if has (gr_capability gr) CLIENT_PLUGIN_AUTH then Mysql_WriteNulTerminateString (gr_name gr) s else Inr s)))))))"

text \<open>\<open>Send\<close> up to \<open>PushSend\<close>: the bytes handed to it.\<close>

definition mysql_send_bytes :: "mypkt \<times> mem \<Rightarrow> bytes result" where
  "mysql_send_bytes s = bindE (Mysql_WriteHead s) (\<lambda>(q, m). bindE (PacketOutBase_FetchData (my_pkt q, m)) (\<lambda>(data, m1). Inr (data_bytes m1 data)))"

datatype authans = AuthFail int bytes | AuthSend bytes | AuthSuccess | AuthNothing

definition HandleAuthInitHandshake :: "(bytes \<Rightarrow> bytes) \<Rightarrow> serverinfo \<Rightarrow> mem \<Rightarrow> pkt \<Rightarrow> authans result" where
  "HandleAuthInitHandshake SHA1 info m pktin = bindE (Mysql_ReadFixedInteger 1 0 m pktin) (\<lambda>(protocol_version, p1).
     if protocol_version = PACKET_ERR then
       bindE (Mysql_ReadFixedInteger 2 0 m p1) (\<lambda>(code, p2).
       bindE (Mysql_ReadRestOfPacketString m p2) (\<lambda>(reason, p3). Inr (AuthFail (int code) reason)))
     else if protocol_version \<noteq> 10 then Inl ExceptionThrown
     else bindE (read_greeting m p1) (\<lambda>gr.
       let token = calculate_mysql_native_password SHA1 (si_password info) (gr_data_1 gr) (gr_data_2 gr) in
       bindE (MysqlOut_new 30 1 m) (\<lambda>(q, m1).
       bindE (write_login info token gr (my_pkt q, m1)) (\<lambda>(p2, m2).
       bindE (mysql_send_bytes (q\<lparr>my_pkt := p2\<rparr>, m2)) (\<lambda>bs. Inr (AuthSend bs))))))"

definition HandleAuthResponse :: "mem \<Rightarrow> pkt \<Rightarrow> authans result" where
  "HandleAuthResponse m pktin = bindE (Mysql_ReadFixedInteger 1 0 m pktin) (\<lambda>(flag, p1).
     if flag = PACKET_ERR then
       bindE (Mysql_ReadFixedInteger 2 0 m p1) (\<lambda>(errorcode, p2).
       bindE (Mysql_ReadRestOfPacketString m p2) (\<lambda>(reason, p3). Inr (AuthFail (int errorcode) reason)))
     else if flag = PACKET_OK then Inr AuthSuccess
     else if flag = PACKET_EOF then
       bindE (Mysql_ReadFixedInteger 2 0 m p1) (\<lambda>(warning_count, p2).
       bindE (Mysql_ReadFixedInteger 2 0 m p2) (\<lambda>(status_flag, p3). Inr (AuthFail (- 1) (bytes_of_string ''unknown''))))
     else Inr AuthNothing)"

section \<open>Reading a packet from its front\<close>

definition reading :: "mem \<Rightarrow> pkt \<Rightarrow> bytes \<Rightarrow> bool" where
  "reading m p bs \<longleftrightarrow> pin_full m p \<and> drop (pk_pos p) (content m p) = bs"

lemma reading_advanced:
  assumes "reading m p bs" and "advanced m p k p'" and "pk_capacity p' = pk_capacity p"
  shows "reading m p' (drop k bs)"
  using assms drop_advanced [OF assms(2)] advanced_full [OF _ assms(2,3)] by (simp add: reading_def)

lemma reading_fixed:
  assumes "reading m p (le_bytes n v @ r)" and "v < 256 ^ n"
  shows "\<exists>p'. Mysql_ReadFixedInteger n 0 m p = Inr (v, p') \<and> reading m p' r"
proof -
  obtain p' where "Mysql_ReadFixedInteger n 0 m p = Inr (v, p')" "advanced m p n p'"
    using ReadFixedInteger_next [of m p n v r 0] assms by (auto simp: reading_def pin_full_def)
  then show ?thesis using reading_advanced [OF assms(1)] ReadFixedInteger_capacity by fastforce
qed

lemma reading_string:
  assumes "reading m p (bs @ r)"
  shows "\<exists>p'. Mysql_ReadFixedString (length bs) m p = Inr (bs, p') \<and> reading m p' r"
proof -
  obtain p' where "Mysql_ReadFixedString (length bs) m p = Inr (bs, p')" "advanced m p (length bs) p'"
    using GetByte_next [of m p bs r] assms by (auto simp: reading_def pin_full_def Mysql_ReadFixedString_def)
  then show ?thesis using reading_advanced [OF assms] GetByte_capacity by (fastforce simp: Mysql_ReadFixedString_def)
qed

lemma NulTerminate_capacity: "NulTerminate_loop n m p = Inr (str, p') \<Longrightarrow> pk_capacity p' = pk_capacity p"
  by (induction n arbitrary: p str) (auto simp: bindE_eq_Inr dest!: GetByte_capacity split: if_splits)

lemma reading_nul:
  assumes "reading m p (str @ 0 # r)" and "0 \<notin> set str"
  shows "\<exists>p'. Mysql_ReadNulTerminateString m p = Inr (str, p') \<and> reading m p' r"
proof -
  have wf: "pin_wf m p" and d: "drop (pk_pos p) (content m p) = (str @ [0]) @ r" using assms(1) by (auto simp: reading_def pin_full_def)
  have "length str < pk_size p + 1" using arg_cong [OF d, of length] length_content_pin [OF wf] by simp
  then obtain p' where p': "NulTerminate_loop (pk_size p + 1) m p = Inr (str, p')" "advanced m p (length str + 1) p'"
    using NulTerminate_next [OF wf d assms(2)] by blast
  then show ?thesis using reading_advanced [OF assms(1) p'(2) NulTerminate_capacity [OF p'(1)]] by (simp add: Mysql_ReadNulTerminateString_def del: NulTerminate_loop.simps)
qed

lemma reading_length: "reading m p bs \<Longrightarrow> pk_pos p + length bs = pk_size p \<and> pk_capacity p = pk_size p \<and> pk_size p < 4294967296"
  using length_content_pin [of m p] by (auto simp: reading_def pin_full_def pin_wf_def)

lemma reading_left:
  assumes "reading m p bs"
  shows "u32 (pk_size p + 4294967296 - pk_pos p) = length bs"
proof -
  have "pk_size p + 4294967296 - pk_pos p = length bs + 4294967296" "length bs < 4294967296" using reading_length [OF assms] by linarith+
  then show ?thesis by (simp add: u32_def)
qed

lemma reading_free: "reading m p bs \<Longrightarrow> Mysql_FreeCount p = length bs"
  using reading_left [of m p bs] reading_length [of m p bs] by (simp add: Mysql_FreeCount_def)

lemma reading_rest:
  assumes "reading m p bs"
  shows "\<exists>p'. Mysql_ReadRestOfPacketString m p = Inr (bs, p') \<and> reading m p' []"
  using reading_string [of m p bs "[]"] reading_left [OF assms] assms by (simp add: Mysql_ReadRestOfPacketString_def Mysql_ReadFixedString_def)

lemma reading_skip:
  assumes r: "reading m p (bs @ r)"
  shows "\<exists>p'. Mysql_Skip (int (length bs)) p = Inr p' \<and> reading m p' r"
proof -
  have wf: "pin_wf m p" "pk_capacity p = pk_size p" using r by (simp_all add: reading_def pin_full_def)
  have len: "pk_pos p + length bs \<le> pk_size p" "pk_size p < 4294967296" using reading_length [OF r] by simp_all
  obtain p' where p': "Packet_SkipTo p (pk_pos p + length bs) = Inr p'" "pin_wf m p'" "pk_pos p' = pk_pos p + length bs" "content m p' = content m p"
    using SkipTo_pin [OF wf(1) len(1) wf(2)] by blast
  have "nat ((int (pk_pos p) + int (length bs)) mod 4294967296) = pk_pos p + length bs" using len by (simp add: nat_mod_distrib nat_add_distrib)
  then have "Mysql_Skip (int (length bs)) p = Inr p'" using p'(1) unfolding Mysql_Skip_def by (simp only:)
  moreover have "reading m p' (drop (length bs) (bs @ r))"
    by (rule reading_advanced [OF r _ SkipTo_capacity [OF p'(1)]]) (use p' in \<open>simp add: advanced_def\<close>)
  ultimately show ?thesis by simp
qed

section \<open>The greeting\<close>

text \<open>The greeting of the protocol: \<open>h_rest\<close> is what follows the second part of the challenge, the name of the plugin when there is one.\<close>

record hello =
  h_version :: bytes
  h_id :: nat
  h_data_1 :: bytes
  h_filler :: nat
  h_flags_1 :: nat
  h_charset :: nat
  h_status :: nat
  h_flags_2 :: nat
  h_length :: nat
  h_reserved :: bytes
  h_data_2 :: bytes
  h_rest :: bytes

text \<open>
  The capabilities as the client reads them: it reads the upper half only if eighteen bytes follow the lower half, of which sixteen are there in every greeting.
  A greeting without \<open>CLIENT_SECURE_CONNECTION\<close> has no second part of the challenge.
\<close>

definition h_short :: "hello \<Rightarrow> bool" where
  "h_short h \<longleftrightarrow> length (h_data_2 h @ h_rest h) < 2"

definition h_capability :: "hello \<Rightarrow> 32 word" where
  "h_capability h = push_bit 16 (word_of_nat (if h_short h then 0 else h_flags_2 h)) OR word_of_nat (h_flags_1 h)"

definition h_secure :: "hello \<Rightarrow> bool" where
  "h_secure h \<longleftrightarrow> has (h_capability h) CLIENT_SECURE_CONNECTION"

definition hello_ok :: "hello \<Rightarrow> bool" where
  "hello_ok h \<longleftrightarrow> 0 \<notin> set (h_version h) \<and> h_id h < 256 ^ 4 \<and> length (h_data_1 h) = 8 \<and> h_filler h < 256 \<and> h_flags_1 h < 256 ^ 2 \<and> h_charset h < 256 \<and>
     h_status h < 256 ^ 2 \<and> h_flags_2 h < 256 ^ 2 \<and> h_length h < 256 \<and> length (h_reserved h) = 10 \<and> length (h_data_2 h) = (if h_secure h then max 13 (h_length h - 8) else 0)"

definition hello_tail :: "hello \<Rightarrow> bytes" where
  "hello_tail h = le_bytes 1 (h_length h) @ h_reserved h @ h_data_2 h @ h_rest h"

definition hello_bytes :: "hello \<Rightarrow> bytes" where
  "hello_bytes h = h_version h @ 0 # le_bytes 4 (h_id h) @ h_data_1 h @ le_bytes 1 (h_filler h) @ le_bytes 2 (h_flags_1 h) @
     le_bytes 1 (h_charset h) @ le_bytes 2 (h_status h) @ le_bytes 2 (h_flags_2 h) @ hello_tail h"

definition h_name :: "hello \<Rightarrow> bytes" where
  "h_name h = (if h_secure h \<and> has (h_capability h) CLIENT_PLUGIN_AUTH then h_rest h else [])"

lemma read_flags_hello:
  assumes r: "reading m p (le_bytes 2 (h_flags_1 h) @ le_bytes 1 (h_charset h) @ le_bytes 2 (h_status h) @ le_bytes 2 (h_flags_2 h) @ hello_tail h)"
    and ok: "hello_ok h" and long: "\<not> h_short h"
  shows "\<exists>p'. read_flags m p = Inr (h_capability h, p') \<and> reading m p' (hello_tail h)"
proof -
  have b: "h_flags_1 h < 256 ^ 2" "h_charset h < 256 ^ 1" "h_status h < 256 ^ 2" "h_flags_2 h < 256 ^ 2" using ok by (simp_all add: hello_ok_def)
  have len: "13 \<le> length (hello_tail h)" using ok long by (simp add: hello_ok_def hello_tail_def h_short_def)
  obtain p1 where 1: "Mysql_ReadFixedInteger 2 0 m p = Inr (h_flags_1 h, p1)"
      "reading m p1 (le_bytes 1 (h_charset h) @ le_bytes 2 (h_status h) @ le_bytes 2 (h_flags_2 h) @ hello_tail h)" using reading_fixed [OF r b(1)] by blast
  obtain p2 where 2: "Mysql_ReadFixedInteger 1 0 m p1 = Inr (h_charset h, p2)" "reading m p2 (le_bytes 2 (h_status h) @ le_bytes 2 (h_flags_2 h) @ hello_tail h)"
    using reading_fixed [OF 1(2) b(2)] by blast
  obtain p3 where 3: "Mysql_ReadFixedInteger 2 0 m p2 = Inr (h_status h, p3)" "reading m p3 (le_bytes 2 (h_flags_2 h) @ hello_tail h)" using reading_fixed [OF 2(2) b(3)] by blast
  obtain p4 where 4: "Mysql_ReadFixedInteger 2 0 m p3 = Inr (h_flags_2 h, p4)" "reading m p4 (hello_tail h)" using reading_fixed [OF 3(2) b(4)] by blast
  have "2 \<le> Mysql_FreeCount p" "18 \<le> Mysql_FreeCount p1" using reading_free [OF r] reading_free [OF 1(2)] len by simp_all
  then show ?thesis using 1 2 3 4 long by (simp add: read_flags_def h_capability_def)
qed

lemma read_flags_short:
  assumes r: "reading m p (le_bytes 2 (h_flags_1 h) @ le_bytes 1 (h_charset h) @ le_bytes 2 (h_status h) @ le_bytes 2 (h_flags_2 h) @ hello_tail h)"
    and ok: "hello_ok h" and short: "h_short h"
  shows "\<exists>p' p2 p3 r. read_flags m p = Inr (h_capability h, p') \<and> Mysql_ReadFixedInteger 1 0 m p' = Inr (h_charset h, p2) \<and> Mysql_Skip 10 p2 = Inr p3 \<and> reading m p3 r"
proof -
  let ?r = "le_bytes 2 (h_status h) @ le_bytes 2 (h_flags_2 h) @ hello_tail h"
  have b: "h_flags_1 h < 256 ^ 2" "h_charset h < 256 ^ 1" using ok by (simp_all add: hello_ok_def)
  have len: "15 \<le> length ?r" "length ?r < 17" using ok short by (simp_all add: hello_ok_def hello_tail_def h_short_def)
  obtain p1 where 1: "Mysql_ReadFixedInteger 2 0 m p = Inr (h_flags_1 h, p1)" "reading m p1 (le_bytes 1 (h_charset h) @ ?r)" using reading_fixed [OF r b(1)] by blast
  obtain p2 where 2: "Mysql_ReadFixedInteger 1 0 m p1 = Inr (h_charset h, p2)" "reading m p2 ?r" using reading_fixed [OF 1(2) b(2)] by blast
  have "reading m p2 (take 10 ?r @ drop 10 ?r)" using 2(2) by (simp only: append_take_drop_id)
  from reading_skip [OF this] obtain p3 where 3: "Mysql_Skip (int (length (take 10 ?r))) p2 = Inr p3" "reading m p3 (drop 10 ?r)" by blast
  have ten: "length (take 10 ?r) = 10" using len(1) by simp
  have "2 \<le> Mysql_FreeCount p" "\<not> 18 \<le> Mysql_FreeCount p1" using reading_free [OF r] reading_free [OF 1(2)] len by simp_all
  then have "read_flags m p = Inr (h_capability h, p1)" using 1 short by (simp add: read_flags_def h_capability_def)
  then show ?thesis using 2(1) 3 unfolding ten by auto
qed

lemma read_plugin_hello:
  assumes r: "reading m p (h_data_2 h @ h_rest h)" and ok: "hello_ok h"
  shows "read_plugin (h_capability h) (h_length h) m p = Inr (butlast (h_data_2 h), h_name h)"
proof -
  show ?thesis
  proof (cases "h_secure h")
    case False
    then show ?thesis using ok by (simp add: read_plugin_def h_secure_def hello_ok_def h_name_def)
  next
    case True
    have n: "nat (max 13 (int (h_length h) - 8)) = length (h_data_2 h)" using ok True by (auto simp: hello_ok_def max_def)
    obtain p1 where 1: "Mysql_ReadFixedString (length (h_data_2 h)) m p = Inr (h_data_2 h, p1)" "reading m p1 (h_rest h)" using reading_string [OF r] by blast
    obtain p2 where "Mysql_ReadRestOfPacketString m p1 = Inr (h_rest h, p2)" using reading_rest [OF 1(2)] by blast
    then show ?thesis using 1 True unfolding read_plugin_def n by (simp add: h_name_def h_secure_def)
  qed
qed

lemma read_greeting_hello:
  assumes r: "reading m p (hello_bytes h)" and ok: "hello_ok h"
  shows "read_greeting m p = (if has (h_capability h) CLIENT_PROTOCOL_41
    then Inr \<lparr>gr_data_1 = h_data_1 h, gr_data_2 = butlast (h_data_2 h), gr_name = h_name h, gr_capability = h_capability h\<rparr> else Inl ExceptionThrown)"
proof -
  let ?f = "le_bytes 2 (h_flags_1 h) @ le_bytes 1 (h_charset h) @ le_bytes 2 (h_status h) @ le_bytes 2 (h_flags_2 h) @ hello_tail h"
  have b: "0 \<notin> set (h_version h)" "h_id h < 256 ^ 4" "h_filler h < 256 ^ 1" "h_length h < 256 ^ 1" and l: "length (h_data_1 h) = 8" "length (h_reserved h) = 10"
    using ok by (simp_all add: hello_ok_def)
  obtain p1 where 1: "Mysql_ReadNulTerminateString m p = Inr (h_version h, p1)" "reading m p1 (le_bytes 4 (h_id h) @ h_data_1 h @ le_bytes 1 (h_filler h) @ ?f)"
    using reading_nul [OF r [unfolded hello_bytes_def] b(1)] by blast
  obtain p2 where 2: "Mysql_ReadFixedInteger 4 0 m p1 = Inr (h_id h, p2)" "reading m p2 (h_data_1 h @ le_bytes 1 (h_filler h) @ ?f)" using reading_fixed [OF 1(2) b(2)] by blast
  obtain p3 where 3: "Mysql_ReadFixedString 8 m p2 = Inr (h_data_1 h, p3)" "reading m p3 (le_bytes 1 (h_filler h) @ ?f)" using reading_string [OF 2(2)] l(1) by auto
  obtain p4 where 4: "Mysql_ReadFixedInteger 1 0 m p3 = Inr (h_filler h, p4)" "reading m p4 ?f" using reading_fixed [OF 3(2) b(3)] by blast
  show ?thesis
  proof (cases "h_short h")
    case True
    then have s: "\<not> h_secure h" using ok by (auto simp: hello_ok_def h_short_def split: if_splits)
    then have n: "h_name h = []" "h_data_2 h = []" using ok by (simp_all add: h_name_def hello_ok_def)
    obtain p5 p6 p7 where "read_flags m p4 = Inr (h_capability h, p5)" "Mysql_ReadFixedInteger 1 0 m p5 = Inr (h_charset h, p6)" "Mysql_Skip 10 p6 = Inr p7"
      using read_flags_short [OF 4(2) ok True] by blast
    then show ?thesis using 1(1) 2(1) 3(1) 4(1) s n by (simp add: read_greeting_def read_plugin_def h_secure_def)
  next
    case False
    obtain p5 where 5: "read_flags m p4 = Inr (h_capability h, p5)" "reading m p5 (hello_tail h)" using read_flags_hello [OF 4(2) ok False] by blast
    obtain p6 where 6: "Mysql_ReadFixedInteger 1 0 m p5 = Inr (h_length h, p6)" "reading m p6 (h_reserved h @ h_data_2 h @ h_rest h)"
      using reading_fixed [OF 5(2) [unfolded hello_tail_def] b(4)] by blast
    obtain p7 where 7: "Mysql_Skip 10 p6 = Inr p7" "reading m p7 (h_data_2 h @ h_rest h)" using reading_skip [OF 6(2)] l(2) by auto
    show ?thesis using 1(1) 2(1) 3(1) 4(1) 5(1) 6(1) 7(1) read_plugin_hello [OF 7(2) ok] by (simp add: read_greeting_def)
  qed
qed

section \<open>The token\<close>

lemma token_loop_map: "token_loop n i s t tok = tok @ map (\<lambda>j. (s ! j) XOR (t ! j)) [i..<i + n]"
  by (induction n arbitrary: i tok) (simp_all add: upt_conv_Cons del: upt_Suc)

text \<open>What the server does with the token, by the protocol: it stores the hash of the hash of the password.\<close>

definition server_accepts :: "(bytes \<Rightarrow> bytes) \<Rightarrow> bytes \<Rightarrow> bytes \<Rightarrow> bytes \<Rightarrow> bool" where
  "server_accepts SHA1 stored challenge token \<longleftrightarrow> SHA1 (map2 (\<lambda>a b. a XOR b) token (SHA1 (challenge @ stored))) = stored"

lemma token_accepted:
  assumes "\<forall>x. length (SHA1 x) = 20"
  shows "server_accepts SHA1 (SHA1 (SHA1 password)) (d1 @ d2) (calculate_mysql_native_password SHA1 password d1 d2)"
proof -
  let ?t = "SHA1 ((d1 @ d2) @ SHA1 (SHA1 password))"
  have "calculate_mysql_native_password SHA1 password d1 d2 = map (\<lambda>j. (SHA1 password ! j) XOR (?t ! j)) [0..<20]"
    by (simp add: calculate_mysql_native_password_def sha1_def token_loop_map Let_def)
  then have "map2 (\<lambda>a b. a XOR b) (calculate_mysql_native_password SHA1 password d1 d2) ?t = SHA1 password"
    using assms by (intro nth_equalityI) (simp_all add: xor.assoc)
  then show ?thesis by (simp add: server_accepts_def)
qed

lemma length_token [simp]: "length (calculate_mysql_native_password SHA1 password d1 d2) = 20"
  by (simp add: calculate_mysql_native_password_def token_loop_map Let_def)

section \<open>The answer\<close>

definition login_fields :: "serverinfo \<Rightarrow> bytes \<Rightarrow> greeting \<Rightarrow> myfield list" where
  "login_fields info token gr = [MyFixed 4 (unat client_capability), MyFixed 4 5242880, MyFixed 1 33, MyString (replicate 23 0), MyString (si_username info), MyString [0]] @
     (if has (gr_capability gr) CLIENT_SECURE_CONNECTION then [MyVar (length token), MyString token] else [MyString token, MyString [0]]) @
     (if has (gr_capability gr) CLIENT_CONNECT_WITH_DB then [MyString (si_dbname info), MyString [0]] else []) @
     (if has (gr_capability gr) CLIENT_PLUGIN_AUTH then [MyString (gr_name gr), MyString [0]] else [])"

lemma bindE_assoc: "bindE (bindE r f) g = bindE r (\<lambda>x. bindE (f x) g)"
  by (cases r) simp_all

lemma bindE_return: "bindE r Inr = r"
  by (cases r) simp_all

lemma write_nul_fields: "Mysql_WriteNulTerminateString str s = bindE (Mysql_WriteFixedString str s) (Mysql_WriteFixedString [0])"
proof -
  have "Mysql_WriteFixedString [0] = PacketOutBase_PutByte [0]" by (rule ext) (simp add: Mysql_WriteFixedString_def u32_def)
  then show ?thesis by (simp add: Mysql_WriteNulTerminateString_def)
qed

lemma out_each_fields:
  "out_each wr [] = Inr" "out_each wr (v # vs) = (\<lambda>s. bindE (wr v s) (out_each wr vs))"
  "my_write (MyFixed n i) = Mysql_WriteFixedInteger n i" "my_write (MyVar i) = Mysql_WriteVariableInteger i" "my_write (MyString str) = Mysql_WriteFixedString str"
  by (rule ext; simp)+

lemma write_login_fields: "write_login info token gr = out_each my_write (login_fields info token gr)"
  by (cases "has (gr_capability gr) CLIENT_SECURE_CONNECTION"; cases "has (gr_capability gr) CLIENT_CONNECT_WITH_DB"; cases "has (gr_capability gr) CLIENT_PLUGIN_AUTH")
    (simp_all add: write_login_def [abs_def] login_fields_def write_nul_fields bindE_assoc bindE_return out_each_fields)

definition login_bytes :: "serverinfo \<Rightarrow> bytes \<Rightarrow> greeting \<Rightarrow> bytes" where
  "login_bytes info token gr = le_bytes 4 (unat client_capability) @ le_bytes 4 5242880 @ [33] @ replicate 23 0 @ si_username info @ [0] @
     (if has (gr_capability gr) CLIENT_SECURE_CONNECTION then [20] @ token else token @ [0]) @
     (if has (gr_capability gr) CLIENT_CONNECT_WITH_DB then si_dbname info @ [0] else []) @
     (if has (gr_capability gr) CLIENT_PLUGIN_AUTH then gr_name gr @ [0] else [])"

lemma login_fields_bytes: "length token = 20 \<Longrightarrow> my_bytes (login_fields info token gr) = login_bytes info token gr"
  by (simp add: login_fields_def login_bytes_def var_bytes_def le_bytes_small)

lemma login_cost:
  "length token = 20 \<Longrightarrow> my_cost m (login_fields info token gr) \<le> length (login_bytes info token gr) + 36 * (10 + mp_chunksize m)"
  by (simp add: login_fields_def login_bytes_def cost2_def var_bytes_def)

definition hello_greeting :: "hello \<Rightarrow> greeting" where
  "hello_greeting h = \<lparr>gr_data_1 = h_data_1 h, gr_data_2 = butlast (h_data_2 h), gr_name = h_name h, gr_capability = h_capability h\<rparr>"

definition hello_token :: "(bytes \<Rightarrow> bytes) \<Rightarrow> serverinfo \<Rightarrow> hello \<Rightarrow> bytes" where
  "hello_token SHA1 info h = calculate_mysql_native_password SHA1 (si_password info) (h_data_1 h) (butlast (h_data_2 h))"

definition hello_answer :: "(bytes \<Rightarrow> bytes) \<Rightarrow> serverinfo \<Rightarrow> hello \<Rightarrow> bytes" where
  "hello_answer SHA1 info h = login_bytes info (hello_token SHA1 info h) (hello_greeting h)"

lemma login_written:
  assumes inv: "mem_inv m hs" and t: "length token = 20" and l: "length (login_bytes info token gr) < 2 ^ 32"
    and room: "room m hs Packet_new (length (login_bytes info token gr) + 43 * mp_chunksize m + 500)"
  shows "\<exists>q m1 p2 m2. MysqlOut_new 30 1 m = Inr (q, m1) \<and> write_login info token gr (my_pkt q, m1) = Inr (p2, m2) \<and>
    mysql_send_bytes (q\<lparr>my_pkt := p2\<rparr>, m2) = Inr (le_bytes 3 (length (login_bytes info token gr)) @ [1] @ login_bytes info token gr)"
proof -
  have ok: "\<forall>v \<in> set (login_fields info token gr). my_ok 0 v"
    using l t unsigned_less [of client_capability, where 'a = nat] by (auto simp: login_fields_def login_bytes_def stray_def)
  have "room m hs Packet_new (cost m (max 20 30) + my_cost m (login_fields info token gr) + (64 + 6 * mp_chunksize m) + 1)"
    using room login_cost [OF t, of m info gr] by (simp add: room_def cost_def)
  from mysql_written [OF inv ok _ this, of 1] show ?thesis
    unfolding write_login_fields my_wire_def login_fields_bytes [OF t] by (fastforce simp: mysql_send_bytes_def le_bytes_small)
qed

lemma first_reading:
  assumes "reading m p (v # r)"
  shows "\<exists>p'. Mysql_ReadFixedInteger 1 0 m p = Inr (unat v, p') \<and> reading m p' r"
  using reading_fixed [of m p 1 "unat v" r] assms unsigned_less [of v, where 'a = nat] by (simp add: le_bytes_small)

lemma handshake_hello:
  assumes inv: "mem_inv m hs" and r: "reading m p (10 # hello_bytes h)" and ok: "hello_ok h" and l: "length (hello_answer SHA1 info h) < 2 ^ 24"
    and room: "room m hs Packet_new (length (hello_answer SHA1 info h) + 43 * mp_chunksize m + 500)"
  shows "HandleAuthInitHandshake SHA1 info m p = (if has (h_capability h) CLIENT_PROTOCOL_41
    then Inr (AuthSend (le_bytes 3 (length (hello_answer SHA1 info h)) @ [1] @ hello_answer SHA1 info h)) else Inl ExceptionThrown)"
proof -
  obtain p1 where 1: "Mysql_ReadFixedInteger 1 0 m p = Inr (10, p1)" "reading m p1 (hello_bytes h)" using first_reading [OF r] by auto
  have g: "read_greeting m p1 = (if has (h_capability h) CLIENT_PROTOCOL_41 then Inr (hello_greeting h) else Inl ExceptionThrown)"
    using read_greeting_hello [OF 1(2) ok] by (simp add: hello_greeting_def)
  have t: "calculate_mysql_native_password SHA1 (si_password info) (gr_data_1 (hello_greeting h)) (gr_data_2 (hello_greeting h)) = hello_token SHA1 info h"
    by (simp add: hello_token_def hello_greeting_def)
  have "length (hello_token SHA1 info h) = 20" "length (hello_answer SHA1 info h) < 2 ^ 32"
    using ok l by (simp_all add: hello_token_def)
  from login_written [OF inv this(1) this(2) [unfolded hello_answer_def] room [unfolded hello_answer_def]]
  obtain q m1 p2 m2 where "MysqlOut_new 30 1 m = Inr (q, m1)" "write_login info (hello_token SHA1 info h) (hello_greeting h) (my_pkt q, m1) = Inr (p2, m2)"
      "mysql_send_bytes (q\<lparr>my_pkt := p2\<rparr>, m2) = Inr (le_bytes 3 (length (hello_answer SHA1 info h)) @ [1] @ hello_answer SHA1 info h)" unfolding hello_answer_def by blast
  then show ?thesis using 1(1) g t by (simp add: HandleAuthInitHandshake_def)
qed

lemma HandleAuthResponse_ok: "reading m p (0 # r) \<Longrightarrow> HandleAuthResponse m p = Inr AuthSuccess"
  using first_reading [of m p 0 r] by (auto simp: HandleAuthResponse_def)

section \<open>Properties\<close>

text \<open>
  C11. The answer to the greeting of the server. If the server announces the protocol in use, the answer has exactly these bytes: number one, the fixed
  capabilities of the client, the largest packet, the character set, the user, the token (with its length in front if the server announces \<open>CLIENT_SECURE_CONNECTION\<close>,
  otherwise ended by a NUL), the data base if the server announces \<open>CLIENT_CONNECT_WITH_DB\<close> (the capabilities sent announce it in any case), and the name of the plugin
  as it was received, with whatever NUL ended it, and another NUL behind it. The token passes the check of a server that stores the hash of the hash of the password, for the
  challenge the client has read. A greeting without the protocol in use throws an exception, an error packet is reported with its code and its text, and every other version of the protocol is refused.
\<close>

theorem mysql_login:
  assumes "mem_inv m hs" and "\<forall>x. length (SHA1 x) = 20"
  shows "(\<forall>h. reading m p (10 # hello_bytes h) \<longrightarrow> hello_ok h \<longrightarrow> length (hello_answer SHA1 info h) < 2 ^ 24 \<longrightarrow> room m hs Packet_new (length (hello_answer SHA1 info h) + 43 * mp_chunksize m + 500) \<longrightarrow>
       HandleAuthInitHandshake SHA1 info m p =
         (if has (h_capability h) CLIENT_PROTOCOL_41 then Inr (AuthSend (le_bytes 3 (length (hello_answer SHA1 info h)) @ [1] @ hello_answer SHA1 info h)) else Inl ExceptionThrown) \<and>
       server_accepts SHA1 (SHA1 (SHA1 (si_password info))) (h_data_1 h @ butlast (h_data_2 h)) (hello_token SHA1 info h)) \<and>
    (\<forall>code reason. code < 65536 \<longrightarrow> reading m p (255 # le_bytes 2 code @ reason) \<longrightarrow> HandleAuthInitHandshake SHA1 info m p = Inr (AuthFail (int code) reason)) \<and>
    (\<forall>v r. v \<noteq> 10 \<longrightarrow> v \<noteq> 255 \<longrightarrow> reading m p (v # r) \<longrightarrow> HandleAuthInitHandshake SHA1 info m p = Inl ExceptionThrown)"
proof -
  have "server_accepts SHA1 (SHA1 (SHA1 (si_password info))) (h_data_1 h @ butlast (h_data_2 h)) (hello_token SHA1 info h)" for h
    unfolding hello_token_def by (rule token_accepted [OF assms(2)])
  moreover have "HandleAuthInitHandshake SHA1 info m p = Inr (AuthFail (int code) reason)"
    if c: "code < 65536" and r: "reading m p (255 # le_bytes 2 code @ reason)" for code reason
  proof -
    obtain p1 where 1: "Mysql_ReadFixedInteger 1 0 m p = Inr (255, p1)" "reading m p1 (le_bytes 2 code @ reason)" using first_reading [OF r] by auto
    obtain p2 where 2: "Mysql_ReadFixedInteger 2 0 m p1 = Inr (code, p2)" "reading m p2 reason" using reading_fixed [OF 1(2)] c by auto
    from reading_rest [OF 2(2)] show ?thesis using 1(1) 2(1) by (auto simp: HandleAuthInitHandshake_def)
  qed
  moreover have "HandleAuthInitHandshake SHA1 info m p = Inl ExceptionThrown" if v: "v \<noteq> 10" "v \<noteq> 255" and r: "reading m p (v # r)" for v r
  proof -
    have "unat v \<noteq> 10" "unat v \<noteq> 255" using v by (simp_all add: word_unat_eq_iff)
    then show ?thesis using first_reading [OF r] by (auto simp: HandleAuthInitHandshake_def)
  qed
  ultimately show ?thesis using handshake_hello [OF assms(1)] by blast
qed

text \<open>The witness: a server of the version \<open>5\<close> with all capabilities of the lower half and the plugins.\<close>

definition plain_hello :: hello where
  "plain_hello = \<lparr>h_version = [53], h_id = 1, h_data_1 = [1, 2, 3, 4, 5, 6, 7, 8], h_filler = 0, h_flags_1 = 65535, h_charset = 33, h_status = 2, h_flags_2 = 8,
     h_length = 21, h_reserved = replicate 10 0, h_data_2 = replicate 12 9 @ [0], h_rest = [109, 0]\<rparr>"

definition plain_info :: serverinfo where
  "plain_info = \<lparr>si_dbname = [100], si_username = [117], si_password = [112], si_host = [], si_port = 3306\<rparr>"

definition plain_sha1 :: "bytes \<Rightarrow> bytes" where
  "plain_sha1 bs = replicate 20 (word_of_nat (length bs))"

lemma plain_hello_ok: "hello_ok plain_hello" "has (h_capability plain_hello) CLIENT_PROTOCOL_41" "h_capability plain_hello = 0x0008FFFF"
proof -
  show c: "h_capability plain_hello = 0x0008FFFF" by (simp add: h_capability_def h_short_def plain_hello_def)
  show "has (h_capability plain_hello) CLIENT_PROTOCOL_41" unfolding c by (simp add: has_def)
  show "hello_ok plain_hello" unfolding hello_ok_def h_secure_def c by (simp add: has_def plain_hello_def)
qed

lemma length_plain_answer: "length (hello_answer plain_sha1 plain_info plain_hello) \<le> 100"
  by (simp add: hello_answer_def hello_token_def login_bytes_def plain_info_def hello_greeting_def h_name_def plain_hello_def)

lemma loaded_reading:
  assumes "bs \<noteq> []" and "length bs < 1000"
  shows "\<exists>m hs p. mem_inv m hs \<and> reading m p bs \<and> length hs = 1 \<and> mp_chunksize m = length bs"
proof -
  obtain p where p: "pin_wf (loaded_mem bs) p" "content (loaded_mem bs) p = bs" "pk_pos p = 0" "pk_capacity p = pk_size p"
    using PacketInBase_new_spec [of "cl_recvq (loaded_client bs)" "loaded_mem bs"] assms
    by (auto simp: rm_wf_def loaded_client_def loaded_mem_def ref_bytes_def)
  have "mem_inv (loaded_mem bs) (all_views (loaded_client bs) [])" using loaded_client_inv(1) [of bs] assms by (simp add: net_inv_def)
  moreover have "length (all_views (loaded_client bs) []) = 1" using loaded_client_inv(3) [of bs] assms by simp
  moreover have "reading (loaded_mem bs) p bs" using p by (simp add: reading_def pin_full_def)
  ultimately show ?thesis by (intro exI [of _ "loaded_mem bs"] exI [of _ "all_views (loaded_client bs) []"] exI [of _ p]) (simp add: loaded_mem_def)
qed

lemma plain_greeting:
  "\<exists>m hs p. mem_inv m hs \<and> reading m p (10 # hello_bytes plain_hello) \<and> room m hs Packet_new (length (hello_answer plain_sha1 plain_info plain_hello) + 43 * mp_chunksize m + 500)"
proof -
  have "length (10 # hello_bytes plain_hello) < 1000" by (simp add: hello_bytes_def hello_tail_def plain_hello_def)
  with loaded_reading [of "10 # hello_bytes plain_hello"] obtain m hs p where "mem_inv m hs" "reading m p (10 # hello_bytes plain_hello)" "length hs = 1"
      "mp_chunksize m = length (10 # hello_bytes plain_hello)" "mp_chunksize m < 1000" by auto
  then show ?thesis using length_plain_answer by (intro exI [of _ m] exI [of _ hs] exI [of _ p]) (simp add: room_def Packet_new_def)
qed

theorem mysql_login_witness:
  "\<exists>m hs p. reading m p (10 # hello_bytes plain_hello) \<and> room m hs Packet_new (length (hello_answer plain_sha1 plain_info plain_hello) + 43 * mp_chunksize m + 500) \<and>
    HandleAuthInitHandshake plain_sha1 plain_info m p =
      Inr (AuthSend (le_bytes 3 (length (hello_answer plain_sha1 plain_info plain_hello)) @ [1] @ hello_answer plain_sha1 plain_info plain_hello))"
proof -
  obtain m hs p where h: "mem_inv m hs" "reading m p (10 # hello_bytes plain_hello)"
      "room m hs Packet_new (length (hello_answer plain_sha1 plain_info plain_hello) + 43 * mp_chunksize m + 500)" using plain_greeting by blast
  have s: "\<forall>x. length (plain_sha1 x) = 20" by (simp add: plain_sha1_def)
  have l: "length (hello_answer plain_sha1 plain_info plain_hello) < 2 ^ 24" using length_plain_answer by simp
  from mysql_login [OF h(1) s, of p plain_info] have "HandleAuthInitHandshake plain_sha1 plain_info m p =
      Inr (AuthSend (le_bytes 3 (length (hello_answer plain_sha1 plain_info plain_hello)) @ [1] @ hello_answer plain_sha1 plain_info plain_hello))"
    using h(2,3) plain_hello_ok(1,2) l by simp
  then show ?thesis using h by blast
qed

end
