(* ===== verification/MysqlPool.thy ===== *)
theory MysqlPool
  imports MysqlAuth
begin

text \<open>
  \<open>base/dbo_bk/internal/realconnectionpool.*\<close>, \<open>realconnection.*\<close> (life cycle), \<open>connection.*\<close> and \<open>statement.*\<close>: a pool of connections to the MySQL server, the
  connections user code asks for and their statements. A real connection is held by the pool while one of its lists has it, by the dispatcher while it is
  registered and by the connection it was given to; a connection is held by user code and, while it waits, by the list of the pool. Every access
  to a deleted object is an error. The step function interleaves the calls of user code, the answers of the server and the callbacks of the dispatcher.
\<close>

section \<open>Model\<close>

datatype connphase = CONN_PHASE_INIT_HANDSHAKE | CONN_PHASE_HANDSHAKE_RESPONSE | CONN_PHASE_OK

text \<open>\<open>rl_sent\<close>: the packets handed to \<open>PushSend\<close>, as sequence number and payload. \<open>rl_linked\<close>: registered with the dispatcher.\<close>

record realconn =
  rl_connect :: bool
  rl_connect_pending :: bool
  rl_linked :: bool
  rl_closed :: bool
  rl_ref :: nat
  rl_phase :: connphase
  rl_handler :: "nat option"
  rl_sent :: "(nat \<times> bytes) list"

datatype stphase = STATEMENT_NEW | STATEMENT_WAIT | STATEMENT_WAIT_RESPONSE | STATEMENT_FINISH

text \<open>\<open>st_cb\<close>: the callback is not empty. \<open>st_called\<close>: the results it was called with.\<close>

record dbstmt =
  st_seq :: nat
  st_real :: "nat option"
  st_sql :: bytes
  st_phase :: stphase
  st_rs :: resultset
  st_cb :: bool
  st_called :: "resultset list"

text \<open>\<open>dc_user\<close> counts the references of user code, those of its autorelease pool included.\<close>

record dbconn =
  dc_ref :: nat
  dc_user :: nat
  dc_real :: "nat option"
  dc_stmt :: "dbstmt option"

text \<open>What \<open>::connect\<close> answers: an error, in progress or done.\<close>

datatype connans = ConnFail | ConnPending | ConnDone

record dbpool =
  dp_reals :: "nat \<rightharpoonup> realconn"
  dp_conns :: "nat \<rightharpoonup> dbconn"
  dp_free :: "nat list"
  dp_busy :: "nat list"
  dp_pending :: "nat list"
  dp_aquire :: "nat list"
  dp_closing :: "nat list"
  dp_poolsize :: nat
  dp_next :: nat
  dp_ans :: "nat \<Rightarrow> connans"

definition dbreal_at :: "nat \<Rightarrow> dbpool \<Rightarrow> realconn result" where
  "dbreal_at i g = (case dp_reals g i of None \<Rightarrow> Inl UseAfterFree | Some x \<Rightarrow> Inr x)"

definition dbconn_at :: "nat \<Rightarrow> dbpool \<Rightarrow> dbconn result" where
  "dbconn_at c g = (case dp_conns g c of None \<Rightarrow> Inl UseAfterFree | Some x \<Rightarrow> Inr x)"

definition put_real :: "nat \<Rightarrow> realconn \<Rightarrow> dbpool \<Rightarrow> dbpool" where
  "put_real i x g = g\<lparr>dp_reals := (dp_reals g)(i \<mapsto> x)\<rparr>"

definition put_dbconn :: "nat \<Rightarrow> dbconn \<Rightarrow> dbpool \<Rightarrow> dbpool" where
  "put_dbconn c x g = g\<lparr>dp_conns := (dp_conns g)(c \<mapsto> x)\<rparr>"

definition real_Retain :: "nat \<Rightarrow> dbpool \<Rightarrow> dbpool result" where
  "real_Retain i g = bindE (dbreal_at i g) (\<lambda>x. Inr (put_real i (x\<lparr>rl_ref := rl_ref x + 1\<rparr>) g))"

definition real_Release :: "nat \<Rightarrow> dbpool \<Rightarrow> dbpool result" where
  "real_Release i g = bindE (dbreal_at i g) (\<lambda>x. if rl_ref x \<le> 1
     then Inr (g\<lparr>dp_reals := (dp_reals g)(i := None)\<rparr>) else Inr (put_real i (x\<lparr>rl_ref := rl_ref x - 1\<rparr>) g))"

text \<open>\<open>Client::Close\<close>: a registered descriptor is queued once; its \<open>OnClose\<close> comes later, from the dispatcher.\<close>

definition real_Close :: "nat \<Rightarrow> dbpool \<Rightarrow> dbpool result" where
  "real_Close i g = bindE (dbreal_at i g) (\<lambda>x. if \<not> rl_closed x \<and> rl_linked x
     then Inr ((put_real i (x\<lparr>rl_closed := True\<rparr>) g)\<lparr>dp_closing := dp_closing g @ [i]\<rparr>) else Inr g)"

text \<open>\<open>PushSend\<close> drops the data when the client is not connected.\<close>

definition RealConnection_Send :: "nat \<Rightarrow> nat \<times> bytes \<Rightarrow> dbpool \<Rightarrow> dbpool result" where
  "RealConnection_Send i pkt g = bindE (dbreal_at i g) (\<lambda>x.
     if rl_connect x then Inr (put_real i (x\<lparr>rl_sent := rl_sent x @ [pkt]\<rparr>) g) else Inr g)"

subsection \<open>Statements\<close>

abbreviation COM_QUERY :: "8 word" where "COM_QUERY \<equiv> 3"

definition Statement_new :: "bytes \<Rightarrow> dbstmt" where
  "Statement_new sql = \<lparr>st_seq = 0, st_real = None, st_sql = sql, st_phase = STATEMENT_NEW, st_rs = ResultSet_new, st_cb = False, st_called = []\<rparr>"

definition Statement_OnCallRealExecute :: "nat \<Rightarrow> dbstmt \<Rightarrow> dbpool \<Rightarrow> (dbstmt \<times> dbpool) result" where
  "Statement_OnCallRealExecute r s g = bindE (RealConnection_Send r (st_seq s, COM_QUERY # st_sql s) g) (\<lambda>g1.
     Inr (s\<lparr>st_phase := STATEMENT_WAIT_RESPONSE, st_seq := (st_seq s + 1) mod 256\<rparr>, g1))"

definition StatementBase_CallRealExecute :: "nat option \<Rightarrow> dbstmt \<Rightarrow> dbpool \<Rightarrow> (dbstmt \<times> dbpool) result" where
  "StatementBase_CallRealExecute real s g = (case real of
       Some r \<Rightarrow> if st_phase s = STATEMENT_WAIT then Statement_OnCallRealExecute r (s\<lparr>st_real := Some r\<rparr>) g else Inr (s, g)
     | None \<Rightarrow> Inr (s, g))"

text \<open>\<open>cb_(rs_)\<close>: calling an empty function throws.\<close>

definition call_back :: "dbstmt \<Rightarrow> dbstmt result" where
  "call_back s = (if st_cb s then Inr (s\<lparr>st_called := st_called s @ [st_rs s]\<rparr>) else Inl ExceptionThrown)"

definition Statement_HandleResponse :: "floatlib \<Rightarrow> nat \<Rightarrow> (nat \<Rightarrow> nat) \<Rightarrow> mem \<Rightarrow> pkt \<Rightarrow> dbstmt \<Rightarrow> dbstmt result" where
  "Statement_HandleResponse fl junk uninit m p s = (if st_phase s \<noteq> STATEMENT_WAIT_RESPONSE then Inr s
     else bindE (ResultSet_Parse fl junk uninit PROTOCOL_TEXT m p (st_rs s)) (\<lambda>(fin, rs).
       if fin then call_back (s\<lparr>st_rs := rs, st_phase := STATEMENT_FINISH\<rparr>) else Inr (s\<lparr>st_rs := rs\<rparr>)))"

definition StatementBase_HandleRawResponse :: "floatlib \<Rightarrow> nat \<Rightarrow> (nat \<Rightarrow> nat) \<Rightarrow> mem \<Rightarrow> mypkt \<Rightarrow> dbstmt \<Rightarrow> dbstmt result" where
  "StatementBase_HandleRawResponse fl junk uninit m q s = (if st_seq s = my_sequence_id q
     then Statement_HandleResponse fl junk uninit m (my_pkt q) (s\<lparr>st_seq := (st_seq s + 1) mod 256\<rparr>) else Inr s)"

definition Statement_HandleClose :: "dbstmt \<Rightarrow> dbstmt result" where
  "Statement_HandleClose s = (let s1 = s\<lparr>st_rs := (st_rs s)\<lparr>rs_error_code := 1, rs_error_message := bytes_of_string ''mysql server disconnected''\<rparr>\<rparr>
     in if st_cb s1 then call_back s1 else Inr s1)"

definition Statement_IsFinish :: "dbstmt \<Rightarrow> bool" where
  "Statement_IsFinish s \<longleftrightarrow> st_phase s = STATEMENT_FINISH"

subsection \<open>Connections\<close>

definition Connection_TryExecuteStatement :: "nat \<Rightarrow> dbpool \<Rightarrow> dbpool result" where
  "Connection_TryExecuteStatement c g = bindE (dbconn_at c g) (\<lambda>x. case dc_stmt x of None \<Rightarrow> Inr g
     | Some s \<Rightarrow> bindE (StatementBase_CallRealExecute (dc_real x) s g) (\<lambda>(s1, g1). Inr (put_dbconn c (x\<lparr>dc_stmt := Some s1\<rparr>) g1)))"

definition Connection_OnAquireRealConnectionSuccess :: "nat \<Rightarrow> nat \<Rightarrow> dbpool \<Rightarrow> dbpool result" where
  "Connection_OnAquireRealConnectionSuccess c r g = bindE (dbconn_at c g) (\<lambda>x.
     bindE (real_Retain r (put_dbconn c (x\<lparr>dc_real := Some r\<rparr>) g)) (\<lambda>g1.
     bindE (dbreal_at r g1) (\<lambda>y. Connection_TryExecuteStatement c (put_real r (y\<lparr>rl_handler := Some c\<rparr>) g1))))"

definition dbconn_Retain :: "nat \<Rightarrow> dbpool \<Rightarrow> dbpool result" where
  "dbconn_Retain c g = bindE (dbconn_at c g) (\<lambda>x. Inr (put_dbconn c (x\<lparr>dc_ref := dc_ref x + 1\<rparr>) g))"

text \<open>
  The destructor of the last reference gives the real connection back, which lets the pool look for the next waiter; \<open>check\<close> stands for that
  call of \<open>CheckAquireList\<close>.
\<close>

definition ReleaseRealConnection_with :: "(dbpool \<Rightarrow> dbpool result) \<Rightarrow> nat \<Rightarrow> dbpool \<Rightarrow> dbpool result" where
  "ReleaseRealConnection_with check r g = bindE (dbreal_at r g) (\<lambda>y.
     let g1 = (put_real r (y\<lparr>rl_handler := None\<rparr>) g)\<lparr>dp_busy := removeAll r (dp_busy g)\<rparr>
     in if rl_connect y then check (g1\<lparr>dp_free := dp_free g1 @ [r]\<rparr>) else Inr g1)"

definition dbconn_Release_with :: "(dbpool \<Rightarrow> dbpool result) \<Rightarrow> nat \<Rightarrow> dbpool \<Rightarrow> dbpool result" where
  "dbconn_Release_with check c g = bindE (dbconn_at c g) (\<lambda>x. if dc_ref x \<le> 1 then
       let g1 = g\<lparr>dp_conns := (dp_conns g)(c := None)\<rparr> in
       case dc_real x of None \<Rightarrow> Inr g1
       | Some r \<Rightarrow> bindE (ReleaseRealConnection_with check r g1) (real_Release r)
     else Inr (put_dbconn c (x\<lparr>dc_ref := dc_ref x - 1\<rparr>) g))"

subsection \<open>The pool\<close>

text \<open>Every turn takes one waiter, those of nested calls included: the number of waiters bounds them.\<close>

fun CheckAquire_loop :: "nat \<Rightarrow> dbpool \<Rightarrow> dbpool result" where
  "CheckAquire_loop n g = (case (dp_free g, dp_aquire g) of
       (r # fs, c # cs) \<Rightarrow> (case n of 0 \<Rightarrow> Inl Diverges | Suc k \<Rightarrow>
         bindE (Connection_OnAquireRealConnectionSuccess c r (g\<lparr>dp_free := fs, dp_aquire := cs, dp_busy := dp_busy g @ [r]\<rparr>)) (\<lambda>g1.
         bindE (dbconn_Release_with (CheckAquire_loop k) c g1) (CheckAquire_loop k)))
     | _ \<Rightarrow> Inr g)"

declare CheckAquire_loop.simps [simp del]

definition CheckAquireList :: "dbpool \<Rightarrow> dbpool result" where
  "CheckAquireList g = CheckAquire_loop (length (dp_aquire g)) g"

definition RealConnectionPool_ReleaseRealConnection :: "nat \<Rightarrow> dbpool \<Rightarrow> dbpool result" where
  "RealConnectionPool_ReleaseRealConnection = ReleaseRealConnection_with CheckAquireList"

definition dbconn_Release :: "nat \<Rightarrow> dbpool \<Rightarrow> dbpool result" where
  "dbconn_Release = dbconn_Release_with CheckAquireList"

definition RealConnectionPool_OnConnectFail :: "nat \<Rightarrow> dbpool \<Rightarrow> dbpool result" where
  "RealConnectionPool_OnConnectFail i g = real_Release i (g\<lparr>dp_pending := removeAll i (dp_pending g)\<rparr>)"

definition RealConnectionPool_OnClose :: "nat \<Rightarrow> dbpool \<Rightarrow> dbpool result" where
  "RealConnectionPool_OnClose i g = real_Release i
     (g\<lparr>dp_pending := removeAll i (dp_pending g), dp_free := removeAll i (dp_free g), dp_busy := removeAll i (dp_busy g)\<rparr>)"

definition RealConnectionPool_OnAuthSuccess :: "nat \<Rightarrow> dbpool \<Rightarrow> dbpool result" where
  "RealConnectionPool_OnAuthSuccess i g = CheckAquireList (g\<lparr>dp_pending := removeAll i (dp_pending g), dp_free := dp_free g @ [i]\<rparr>)"

text \<open>A new connection is registered before \<open>::connect\<close> is called; the error of an attempt that fails at once is reported before \<open>Close\<close>.\<close>

definition RealConnectionPool_CreateNewConnection :: "dbpool \<Rightarrow> dbpool result" where
  "RealConnectionPool_CreateNewConnection g =
     (let i = dp_next g;
          x = \<lparr>rl_connect = False, rl_connect_pending = False, rl_linked = True, rl_closed = False, rl_ref = 2, rl_phase = CONN_PHASE_INIT_HANDSHAKE,
            rl_handler = None, rl_sent = []\<rparr>;
          g1 = (put_real i x g)\<lparr>dp_pending := dp_pending g @ [i], dp_next := i + 1\<rparr>
      in case dp_ans g i of
           ConnFail \<Rightarrow> bindE (RealConnectionPool_OnConnectFail i g1) (real_Close i)
         | ConnPending \<Rightarrow> Inr (put_real i (x\<lparr>rl_connect_pending := True\<rparr>) g1)
         | ConnDone \<Rightarrow> Inr (put_real i (x\<lparr>rl_connect := True\<rparr>) g1))"

primrec create_times :: "nat \<Rightarrow> dbpool \<Rightarrow> dbpool result" where
  "create_times 0 g = Inr g"
| "create_times (Suc n) g = bindE (RealConnectionPool_CreateNewConnection g) (create_times n)"

definition RealConnectionPool_Setup :: "dbpool \<Rightarrow> dbpool result" where
  "RealConnectionPool_Setup g = create_times (dp_poolsize g) g"

definition CheckCreateMore :: "dbpool \<Rightarrow> dbpool result" where
  "CheckCreateMore g = create_times (dp_poolsize g - (length (dp_busy g) + length (dp_free g) + length (dp_pending g))) g"

definition RealConnectionPool_AquireRealConnection :: "nat \<Rightarrow> dbpool \<Rightarrow> dbpool result" where
  "RealConnectionPool_AquireRealConnection c g =
     bindE (dbconn_Retain c (g\<lparr>dp_aquire := dp_aquire g @ [c]\<rparr>)) (\<lambda>g1. bindE (CheckAquireList g1) CheckCreateMore)"

text \<open>The loops of \<open>Cleanup\<close>: waiting connections are released, then the pending and the free real connections are closed.\<close>

fun cleanup_waiters :: "nat list \<Rightarrow> dbpool \<Rightarrow> dbpool result" where
  "cleanup_waiters [] g = Inr g"
| "cleanup_waiters (c # cs) g = bindE (dbconn_Release c g) (\<lambda>g1. cleanup_waiters cs (g1\<lparr>dp_aquire := cs\<rparr>))"

fun cleanup_pending :: "nat list \<Rightarrow> dbpool \<Rightarrow> dbpool result" where
  "cleanup_pending [] g = Inr g"
| "cleanup_pending (i # is) g = bindE (real_Close i g) (\<lambda>g1. bindE (dbreal_at i g1) (\<lambda>x.
     if \<not> rl_connect x then bindE (real_Release i (g1\<lparr>dp_pending := removeAll i (dp_pending g1)\<rparr>)) (cleanup_pending is)
     else cleanup_pending is g1))"

fun cleanup_free :: "nat list \<Rightarrow> dbpool \<Rightarrow> dbpool result" where
  "cleanup_free [] g = Inr g"
| "cleanup_free (i # is) g = bindE (real_Close i g) (\<lambda>g1. bindE (dbreal_at i g1) (\<lambda>x.
     if \<not> rl_connect x then bindE (real_Release i (g1\<lparr>dp_free := removeAll i (dp_free g1)\<rparr>)) (cleanup_free is)
     else cleanup_free is g1))"

definition RealConnectionPool_Cleanup :: "dbpool \<Rightarrow> dbpool result" where
  "RealConnectionPool_Cleanup g = bindE (cleanup_waiters (dp_aquire g) g) (\<lambda>g1.
     bindE (cleanup_pending (dp_pending g1) g1) (\<lambda>g2. cleanup_free (dp_free g2) g2))"

definition RealConnectionPool_empty :: "dbpool \<Rightarrow> bool" where
  "RealConnectionPool_empty g \<longleftrightarrow> dp_free g = [] \<and> dp_busy g = [] \<and> dp_pending g = []"

subsection \<open>Events of a real connection\<close>

definition Connection_OnReceivePacket :: "floatlib \<Rightarrow> nat \<Rightarrow> (nat \<Rightarrow> nat) \<Rightarrow> mem \<Rightarrow> mypkt \<Rightarrow> nat \<Rightarrow> dbpool \<Rightarrow> dbpool result" where
  "Connection_OnReceivePacket fl junk uninit m q c g = bindE (dbconn_at c g) (\<lambda>x. case dc_stmt x of None \<Rightarrow> Inr g
     | Some s \<Rightarrow> bindE (StatementBase_HandleRawResponse fl junk uninit m q s) (\<lambda>s1. Inr (put_dbconn c (x\<lparr>dc_stmt := Some s1\<rparr>) g)))"

definition Connection_OnClose :: "nat \<Rightarrow> dbpool \<Rightarrow> dbpool result" where
  "Connection_OnClose c g = bindE (dbconn_at c g) (\<lambda>x. case dc_stmt x of None \<Rightarrow> Inr g
     | Some s \<Rightarrow> bindE (Statement_HandleClose s) (\<lambda>s1. Inr (put_dbconn c (x\<lparr>dc_stmt := Some s1\<rparr>) g)))"

definition RealConnection_OnClose :: "nat \<Rightarrow> dbpool \<Rightarrow> dbpool result" where
  "RealConnection_OnClose i g = bindE (dbreal_at i g) (\<lambda>x.
     bindE (case rl_handler x of Some c \<Rightarrow> if rl_phase x = CONN_PHASE_OK then Connection_OnClose c g else Inr g | None \<Rightarrow> Inr g)
       (RealConnectionPool_OnClose i))"

text \<open>The dispatcher's treatment of the first closed object: callback, unlink, release, pop.\<close>

definition real_close_callback :: "dbpool \<Rightarrow> dbpool result" where
  "real_close_callback g = (case dp_closing g of [] \<Rightarrow> Inr g
   | i # rest \<Rightarrow> bindE (dbreal_at i g) (\<lambda>x.
       bindE (if rl_connect x then RealConnection_OnClose i (put_real i (x\<lparr>rl_connect := False\<rparr>) g) else Inr g) (\<lambda>g1.
       bindE (dbreal_at i g1) (\<lambda>x1.
       bindE (real_Release i (put_real i (x1\<lparr>rl_linked := False\<rparr>) g1)) (\<lambda>g2. Inr (g2\<lparr>dp_closing := tl (dp_closing g2)\<rparr>))))))"

definition RealConnection_connect_completed :: "nat \<Rightarrow> bool \<Rightarrow> dbpool \<Rightarrow> dbpool result" where
  "RealConnection_connect_completed i ok g = bindE (dbreal_at i g) (\<lambda>x.
     let g1 = put_real i (x\<lparr>rl_connect_pending := False\<rparr>) g in
     if ok then Inr (put_real i (x\<lparr>rl_connect_pending := False, rl_connect := True\<rparr>) g)
     else bindE (RealConnectionPool_OnConnectFail i g1) (real_Close i))"

text \<open>The answer to the greeting is sent; \<open>OnAuthFail\<close> only logs.\<close>

definition RealConnection_greeted :: "nat \<Rightarrow> bytes \<Rightarrow> dbpool \<Rightarrow> dbpool result" where
  "RealConnection_greeted i response g = bindE (dbreal_at i g) (\<lambda>x.
     RealConnection_Send i (1, response) (put_real i (x\<lparr>rl_phase := CONN_PHASE_HANDSHAKE_RESPONSE\<rparr>) g))"

definition RealConnection_HandleAuthInitHandshake :: "(bytes \<Rightarrow> bytes) \<Rightarrow> serverinfo \<Rightarrow> mem \<Rightarrow> pkt \<Rightarrow> nat \<Rightarrow> dbpool \<Rightarrow> dbpool result" where
  "RealConnection_HandleAuthInitHandshake SHA1 info m p i g = bindE (HandleAuthInitHandshake SHA1 info m p) (\<lambda>ans.
     case ans of AuthSend bs \<Rightarrow> RealConnection_greeted i (drop 4 bs) g | _ \<Rightarrow> Inr g)"

definition RealConnection_authorised :: "nat \<Rightarrow> dbpool \<Rightarrow> dbpool result" where
  "RealConnection_authorised i g = bindE (RealConnectionPool_OnAuthSuccess i g) (\<lambda>g1.
     bindE (dbreal_at i g1) (\<lambda>x. Inr (put_real i (x\<lparr>rl_phase := CONN_PHASE_OK\<rparr>) g1)))"

definition RealConnection_HandleAuthResponse :: "mem \<Rightarrow> pkt \<Rightarrow> nat \<Rightarrow> dbpool \<Rightarrow> dbpool result" where
  "RealConnection_HandleAuthResponse m p i g = bindE (HandleAuthResponse m p) (\<lambda>ans. if ans = AuthSuccess then RealConnection_authorised i g else Inr g)"

text \<open>What the environment provides: the conversions of the C library, what uninitialised memory holds, SHA-1, and the data of the server.\<close>

record dbenv =
  en_float :: floatlib
  en_junk :: nat
  en_uninit :: "nat \<Rightarrow> nat"
  en_sha1 :: "bytes \<Rightarrow> bytes"
  en_info :: serverinfo

definition RealConnection_OnReceivePacket :: "dbenv \<Rightarrow> mem \<Rightarrow> mypkt \<Rightarrow> nat \<Rightarrow> dbpool \<Rightarrow> dbpool result" where
  "RealConnection_OnReceivePacket env m q i g = bindE (dbreal_at i g) (\<lambda>x. case rl_phase x of
       CONN_PHASE_INIT_HANDSHAKE \<Rightarrow> RealConnection_HandleAuthInitHandshake (en_sha1 env) (en_info env) m (my_pkt q) i g
     | CONN_PHASE_HANDSHAKE_RESPONSE \<Rightarrow> RealConnection_HandleAuthResponse m (my_pkt q) i g
     | CONN_PHASE_OK \<Rightarrow> (case rl_handler x of
           Some c \<Rightarrow> Connection_OnReceivePacket (en_float env) (en_junk env) (en_uninit env) m q c g
         | None \<Rightarrow> Inr g))"

subsection \<open>Calls of user code\<close>

definition Connection_Create :: "dbpool \<Rightarrow> dbpool result" where
  "Connection_Create g = (let c = dp_next g in
     RealConnectionPool_AquireRealConnection c
       ((put_dbconn c \<lparr>dc_ref = 1, dc_user = 1, dc_real = None, dc_stmt = None\<rparr> g)\<lparr>dp_next := c + 1\<rparr>))"

definition user_Retain :: "nat \<Rightarrow> dbpool \<Rightarrow> dbpool result" where
  "user_Retain c g = bindE (dbconn_at c g) (\<lambda>x. dbconn_Retain c (put_dbconn c (x\<lparr>dc_user := dc_user x + 1\<rparr>) g))"

definition user_Release :: "nat \<Rightarrow> dbpool \<Rightarrow> dbpool result" where
  "user_Release c g = bindE (dbconn_at c g) (\<lambda>x. dbconn_Release c (put_dbconn c (x\<lparr>dc_user := dc_user x - 1\<rparr>) g))"

definition Connection_CreateStatement :: "bytes \<Rightarrow> nat \<Rightarrow> dbpool \<Rightarrow> dbpool result" where
  "Connection_CreateStatement sql c g = bindE (dbconn_at c g) (\<lambda>x.
     if \<exists>s. dc_stmt x = Some s \<and> \<not> Statement_IsFinish s then Inl ExceptionThrown
     else Inr (put_dbconn c (x\<lparr>dc_stmt := Some (Statement_new sql)\<rparr>) g))"

definition Connection_pending :: "dbconn \<Rightarrow> bool" where
  "Connection_pending x \<longleftrightarrow> (\<exists>s. dc_stmt x = Some s \<and> \<not> Statement_IsFinish s)"

text \<open>\<open>cb\<close>: whether the callback that is passed is not empty.\<close>

definition Statement_Execute :: "bool \<Rightarrow> nat \<Rightarrow> dbpool \<Rightarrow> dbpool result" where
  "Statement_Execute cb c g = bindE (dbconn_at c g) (\<lambda>x. case dc_stmt x of None \<Rightarrow> Inl NullDeref
     | Some s \<Rightarrow> assertE (st_phase s = STATEMENT_NEW)
         (bindE (StatementBase_CallRealExecute (dc_real x) (s\<lparr>st_phase := STATEMENT_WAIT, st_cb := cb\<rparr>) g) (\<lambda>(s1, g1).
           Inr (put_dbconn c (x\<lparr>dc_stmt := Some s1\<rparr>) g1))))"

subsection \<open>Steps\<close>

datatype dbevent =
    ConnectCompleted nat bool
  | Received dbenv mem mypkt nat
  | PeerClosed nat
  | CloseCallback
  | Create
  | Retain nat
  | Release nat
  | CreateStatement bytes nat
  | Execute bool nat
  | Cleanup

definition open_real :: "dbpool \<Rightarrow> nat \<Rightarrow> (realconn \<Rightarrow> bool) \<Rightarrow> bool" where
  "open_real g i P = (case dp_reals g i of None \<Rightarrow> False | Some x \<Rightarrow> rl_linked x \<and> \<not> rl_closed x \<and> P x)"

definition user_conn :: "dbpool \<Rightarrow> nat \<Rightarrow> (dbconn \<Rightarrow> bool) \<Rightarrow> bool" where
  "user_conn g c P = (case dp_conns g c of None \<Rightarrow> False | Some x \<Rightarrow> 0 < dc_user x \<and> P x)"

text \<open>
  When an event can happen: the dispatcher reports events of registered, open descriptors; user code uses connections it
  holds references of, creates a statement when none is in progress and executes a statement once, as the interface demands.
\<close>

fun db_enabled :: "dbevent \<Rightarrow> dbpool \<Rightarrow> bool" where
  "db_enabled (ConnectCompleted i ok) g = open_real g i rl_connect_pending"
| "db_enabled (Received env m q i) g = open_real g i rl_connect"
| "db_enabled (PeerClosed i) g = open_real g i rl_connect"
| "db_enabled CloseCallback g = (dp_closing g \<noteq> [])"
| "db_enabled Create g = True"
| "db_enabled (Retain c) g = user_conn g c (\<lambda>_. True)"
| "db_enabled (Release c) g = user_conn g c (\<lambda>_. True)"
| "db_enabled (CreateStatement sql c) g = user_conn g c (\<lambda>x. \<not> Connection_pending x)"
| "db_enabled (Execute cb c) g = user_conn g c (\<lambda>x. \<exists>s. dc_stmt x = Some s \<and> st_phase s = STATEMENT_NEW)"
| "db_enabled Cleanup g = True"

fun db_step :: "dbevent \<Rightarrow> dbpool \<Rightarrow> dbpool result" where
  "db_step (ConnectCompleted i ok) g = RealConnection_connect_completed i ok g"
| "db_step (Received env m q i) g = RealConnection_OnReceivePacket env m q i g"
| "db_step (PeerClosed i) g = real_Close i g"
| "db_step CloseCallback g = real_close_callback g"
| "db_step Create g = Connection_Create g"
| "db_step (Retain c) g = user_Retain c g"
| "db_step (Release c) g = user_Release c g"
| "db_step (CreateStatement sql c) g = Connection_CreateStatement sql c g"
| "db_step (Execute cb c) g = Statement_Execute cb c g"
| "db_step Cleanup g = RealConnectionPool_Cleanup g"

definition RealConnectionPool_new :: "nat \<Rightarrow> (nat \<Rightarrow> connans) \<Rightarrow> dbpool" where
  "RealConnectionPool_new poolsize ans = \<lparr>dp_reals = Map.empty, dp_conns = Map.empty, dp_free = [], dp_busy = [], dp_pending = [], dp_aquire = [],
     dp_closing = [], dp_poolsize = poolsize, dp_next = 0, dp_ans = ans\<rparr>"

inductive db_reach :: "dbpool \<Rightarrow> bool" where
  db_start: "RealConnectionPool_Setup (RealConnectionPool_new poolsize ans) = Inr g \<Longrightarrow> db_reach g"
| db_next: "db_reach g \<Longrightarrow> db_enabled e g \<Longrightarrow> db_step e g = Inr g' \<Longrightarrow> db_reach g'"

end
