(* ===== verification/MysqlPoolInv.thy ===== *)
theory MysqlPoolInv
  imports MysqlPool
begin

text \<open>
  The invariant of the MySQL connection pool and its preservation by the operations the steps are made of: references are exactly those the state
  accounts for, the lists of the pool are disjoint and within its size, and the distribution of free connections to waiters ends with nobody waiting
  while a connection is free.
\<close>

section \<open>Invariant\<close>

abbreviation pool_list :: "dbpool \<Rightarrow> nat list" where
  "pool_list g \<equiv> dp_free g @ dp_busy g @ dp_pending g"

text \<open>
  The references of an object are those the state accounts for; \<open>ex\<close> and \<open>cx\<close> are those that code in progress holds in addition.
\<close>

definition one_if :: "bool \<Rightarrow> nat" where
  "one_if b = (if b then 1 else 0)"

lemma one_if_simps [simp]: "one_if True = 1" "one_if False = 0" "one_if b = 0 \<longleftrightarrow> \<not> b" "0 < one_if b \<longleftrightarrow> b"
  by (simp_all add: one_if_def)

definition real_ok :: "(nat \<Rightarrow> nat) \<Rightarrow> dbpool \<Rightarrow> nat \<Rightarrow> realconn \<Rightarrow> bool" where
  "real_ok ex g i x \<longleftrightarrow>
     rl_ref x = one_if (i \<in> set (pool_list g)) + one_if (rl_linked x) + one_if (rl_handler x \<noteq> None) + ex i \<and>
     (i \<in> set (pool_list g) \<or> rl_linked x \<or> rl_handler x \<noteq> None \<or> 0 < ex i) \<and>
     (\<forall>c. rl_handler x = Some c \<longrightarrow> (\<exists>z. dp_conns g c = Some z \<and> dc_real z = Some i)) \<and>
     (rl_linked x \<and> rl_closed x \<longleftrightarrow> i \<in> set (dp_closing g)) \<and>
     (rl_connect x \<longrightarrow> rl_linked x \<and> i \<in> set (pool_list g) \<and> \<not> rl_connect_pending x) \<and>
     (i \<in> set (dp_free g) \<union> set (dp_busy g) \<longrightarrow> rl_connect x) \<and>
     (rl_connect_pending x \<and> \<not> rl_closed x \<longrightarrow> i \<in> set (dp_pending g) \<and> rl_linked x) \<and>
     (rl_handler x \<noteq> None \<longrightarrow> i \<notin> set (dp_free g) \<union> set (dp_pending g)) \<and> (i \<in> set (dp_busy g) \<longrightarrow> rl_handler x \<noteq> None)"

definition dbconn_ok :: "(nat \<Rightarrow> nat) \<Rightarrow> dbpool \<Rightarrow> nat \<Rightarrow> dbconn \<Rightarrow> bool" where
  "dbconn_ok cx g c x \<longleftrightarrow> dc_ref x = dc_user x + one_if (c \<in> set (dp_aquire g)) + cx c \<and>
     (0 < dc_user x \<or> c \<in> set (dp_aquire g) \<or> 0 < cx c) \<and>
     (c \<in> set (dp_aquire g) \<longrightarrow> dc_real x = None) \<and> (\<forall>i. dc_real x = Some i \<longrightarrow> (\<exists>y. dp_reals g i = Some y \<and> rl_handler y = Some c))"

definition pool_lists_ok :: "dbpool \<Rightarrow> bool" where
  "pool_lists_ok g \<longleftrightarrow> distinct (pool_list g) \<and> set (pool_list g) \<subseteq> dom (dp_reals g) \<and> distinct (dp_aquire g) \<and> set (dp_aquire g) \<subseteq> dom (dp_conns g) \<and>
     distinct (dp_closing g) \<and> set (dp_closing g) \<subseteq> dom (dp_reals g) \<and> dom (dp_reals g) \<union> dom (dp_conns g) \<subseteq> {..<dp_next g} \<and>
     length (pool_list g) \<le> dp_poolsize g"

definition pool_core :: "(nat \<Rightarrow> nat) \<Rightarrow> (nat \<Rightarrow> nat) \<Rightarrow> dbpool \<Rightarrow> bool" where
  [inv_defs]: "pool_core ex cx g \<longleftrightarrow> pool_lists_ok g \<and> (\<forall>i x. dp_reals g i = Some x \<longrightarrow> real_ok ex g i x) \<and>
     (\<forall>c x. dp_conns g c = Some x \<longrightarrow> dbconn_ok cx g c x)"

lemma pool_coreI:
  assumes "pool_lists_ok g" and "\<And>i x. dp_reals g i = Some x \<Longrightarrow> real_ok ex g i x" and "\<And>c x. dp_conns g c = Some x \<Longrightarrow> dbconn_ok cx g c x"
  shows "pool_core ex cx g"
  using assms by (simp add: pool_core_def)

lemma core_listsD: "pool_core ex cx g \<Longrightarrow> pool_lists_ok g"
  by (simp add: pool_core_def)

lemma core_realD: "pool_core ex cx g \<Longrightarrow> dp_reals g i = Some x \<Longrightarrow> real_ok ex g i x"
  by (simp add: pool_core_def)

lemma core_connD: "pool_core ex cx g \<Longrightarrow> dp_conns g c = Some x \<Longrightarrow> dbconn_ok cx g c x"
  by (simp add: pool_core_def)

text \<open>Nobody waits while a connection is free; a connection whose authentication is not complete is pending.\<close>

definition no_wait :: "dbpool \<Rightarrow> bool" where
  "no_wait g \<longleftrightarrow> dp_free g = [] \<or> dp_aquire g = []"

definition auth_pending :: "dbpool \<Rightarrow> bool" where
  "auth_pending g \<longleftrightarrow> (\<forall>i x. dp_reals g i = Some x \<longrightarrow> rl_connect x \<longrightarrow> rl_phase x \<noteq> CONN_PHASE_OK \<longrightarrow> i \<in> set (dp_pending g))"

definition pool_inv :: "dbpool \<Rightarrow> bool" where
  [inv_defs]: "pool_inv g \<longleftrightarrow> pool_core (\<lambda>_. 0) (\<lambda>_. 0) g \<and> no_wait g \<and> auth_pending g"

text \<open>What the distribution of free connections leaves alone.\<close>

definition pool_frame :: "dbpool \<Rightarrow> dbpool \<Rightarrow> bool" where
  "pool_frame g g' \<longleftrightarrow> dp_pending g' = dp_pending g \<and> dp_poolsize g' = dp_poolsize g \<and> dp_closing g' = dp_closing g \<and>
     (\<exists>k. dp_aquire g' = drop k (dp_aquire g)) \<and>
     (\<forall>i x'. dp_reals g' i = Some x' \<longrightarrow> (\<exists>x. dp_reals g i = Some x \<and> rl_phase x' = rl_phase x \<and> rl_connect x' = rl_connect x \<and> rl_closed x' = rl_closed x \<and> rl_linked x' = rl_linked x)) \<and>
     (\<forall>i x. dp_reals g i = Some x \<longrightarrow> rl_linked x \<longrightarrow> i \<in> dom (dp_reals g'))"

lemma pool_frame_refl: "pool_frame g g"
  by (auto simp: pool_frame_def intro: exI [of _ 0])

lemma pool_frame_trans:
  assumes "pool_frame g g1" and "pool_frame g1 g2"
  shows "pool_frame g g2"
proof -
  have "\<exists>k. dp_aquire g2 = drop k (dp_aquire g)" using assms by (auto simp: pool_frame_def)
  moreover have "i \<in> dom (dp_reals g2)" if i: "dp_reals g i = Some x" "rl_linked x" for i x
  proof -
    have "i \<in> dom (dp_reals g1)" using assms(1) i unfolding pool_frame_def by blast
    then obtain x1 where x1: "dp_reals g1 i = Some x1" by blast
    then have "rl_linked x1" using assms(1) i by (fastforce simp: pool_frame_def)
    then show ?thesis using assms(2) x1 by (auto simp: pool_frame_def)
  qed
  moreover have "\<exists>x. dp_reals g i = Some x \<and> rl_phase x' = rl_phase x \<and> rl_connect x' = rl_connect x \<and> rl_closed x' = rl_closed x \<and> rl_linked x' = rl_linked x"
    if "dp_reals g2 i = Some x'" for i x' using assms that unfolding pool_frame_def by metis
  ultimately show ?thesis using assms by (simp add: pool_frame_def)
qed

text \<open>Changing one object.\<close>

lemma put_real_simps [simp]:
  "dp_free (put_real i x g) = dp_free g" "dp_busy (put_real i x g) = dp_busy g" "dp_pending (put_real i x g) = dp_pending g"
  "dp_aquire (put_real i x g) = dp_aquire g" "dp_closing (put_real i x g) = dp_closing g" "dp_conns (put_real i x g) = dp_conns g"
  "dp_poolsize (put_real i x g) = dp_poolsize g" "dp_next (put_real i x g) = dp_next g" "dp_reals (put_real i x g) = (dp_reals g)(i \<mapsto> x)"
  by (simp_all add: put_real_def)

lemma put_dbconn_simps [simp]:
  "dp_free (put_dbconn c x g) = dp_free g" "dp_busy (put_dbconn c x g) = dp_busy g" "dp_pending (put_dbconn c x g) = dp_pending g"
  "dp_aquire (put_dbconn c x g) = dp_aquire g" "dp_closing (put_dbconn c x g) = dp_closing g" "dp_reals (put_dbconn c x g) = dp_reals g"
  "dp_poolsize (put_dbconn c x g) = dp_poolsize g" "dp_next (put_dbconn c x g) = dp_next g" "dp_conns (put_dbconn c x g) = (dp_conns g)(c \<mapsto> x)"
  by (simp_all add: put_dbconn_def)

lemma real_ok_cong:
  assumes "real_ok ex g i x" and "dp_free g' = dp_free g" "dp_busy g' = dp_busy g" "dp_pending g' = dp_pending g" "dp_closing g' = dp_closing g" "ex' i = ex i"
    and "\<And>c z. rl_handler x = Some c \<Longrightarrow> dp_conns g c = Some z \<Longrightarrow> \<exists>z'. dp_conns g' c = Some z' \<and> dc_real z' = dc_real z"
  shows "real_ok ex' g' i x"
proof -
  have "\<exists>z. dp_conns g' c = Some z \<and> dc_real z = Some i" if "rl_handler x = Some c" for c
    using assms(1,7) that unfolding real_ok_def by metis
  then show ?thesis using assms(1-6) by (simp add: real_ok_def)
qed

lemma dbconn_ok_cong:
  assumes "dbconn_ok cx g c x" and "dp_aquire g' = dp_aquire g" "cx' c = cx c"
    and "\<And>i y. dc_real x = Some i \<Longrightarrow> dp_reals g i = Some y \<Longrightarrow> \<exists>y'. dp_reals g' i = Some y' \<and> rl_handler y' = rl_handler y"
  shows "dbconn_ok cx' g' c x"
proof -
  have "\<exists>y. dp_reals g' i = Some y \<and> rl_handler y = Some c" if "dc_real x = Some i" for i
    using assms(1,4) that unfolding dbconn_ok_def by metis
  then show ?thesis using assms(1-3) by (simp add: dbconn_ok_def)
qed

lemma put_real_core:
  assumes core: "pool_core ex cx g" and x: "dp_reals g i = Some x" "rl_handler x' = rl_handler x" and ok: "real_ok ex g i x'"
  shows "pool_core ex cx (put_real i x' g)"
proof (rule pool_coreI)
  show "pool_lists_ok (put_real i x' g)" using core_listsD [OF core] x(1) by (auto simp: pool_lists_ok_def)
  fix j y
  assume y: "dp_reals (put_real i x' g) j = Some y"
  have "real_ok ex g j y" using y ok core_realD [OF core, of j y] by (cases "j = i") auto
  then show "real_ok ex (put_real i x' g) j y" by (rule real_ok_cong) auto
next
  fix c y
  assume "dp_conns (put_real i x' g) c = Some y"
  then have "dbconn_ok cx g c y" using core_connD [OF core] by simp
  then show "dbconn_ok cx (put_real i x' g) c y" by (rule dbconn_ok_cong) (use x in auto)
qed

lemma put_dbconn_core:
  assumes core: "pool_core ex cx g" and x: "dp_conns g c = Some x" "dc_real x' = dc_real x" and ok: "dbconn_ok cx' g c x'" and cx: "\<And>d. d \<noteq> c \<Longrightarrow> cx' d = cx d"
  shows "pool_core ex cx' (put_dbconn c x' g)"
proof (rule pool_coreI)
  show "pool_lists_ok (put_dbconn c x' g)" using core_listsD [OF core] x(1) by (auto simp: pool_lists_ok_def)
  fix j y
  assume "dp_reals (put_dbconn c x' g) j = Some y"
  then have "real_ok ex g j y" using core_realD [OF core] by simp
  then show "real_ok ex (put_dbconn c x' g) j y" by (rule real_ok_cong) (use x in auto)
next
  fix d y
  assume y: "dp_conns (put_dbconn c x' g) d = Some y"
  then have "dbconn_ok cx' g d y"
  proof (cases "d = c")
    case False
    then have "dbconn_ok cx g d y" using core_connD [OF core] y by simp
    then show ?thesis by (rule dbconn_ok_cong) (use cx [OF False] in auto)
  qed (use y ok in simp)
  then show "dbconn_ok cx' (put_dbconn c x' g) d y" by (rule dbconn_ok_cong) auto
qed

lemma core_real:
  assumes "pool_core ex cx g" and "i \<in> set (pool_list g)"
  shows "\<exists>x. dp_reals g i = Some x \<and> real_ok ex g i x"
  using core_listsD [OF assms(1)] assms core_realD [OF assms(1), of i] unfolding pool_lists_ok_def by blast

lemma real_Release_core:
  assumes core: "pool_core (ex(i := Suc (ex i))) cx g" and x: "dp_reals g i = Some x"
  shows "\<exists>g'. real_Release i g = Inr g' \<and> pool_core ex cx g' \<and> pool_frame g g' \<and> dp_aquire g' = dp_aquire g \<and> dp_free g' = dp_free g \<and> dp_busy g' = dp_busy g \<and>
    dp_conns g' = dp_conns g"
proof -
  note ok = core_realD [OF core x]
  have others: "real_ok ex g j y" if "dp_reals g j = Some y" "j \<noteq> i" for j y using core_realD [OF core that(1)] by (rule real_ok_cong) (use that(2) in auto)
  show ?thesis
  proof (cases "rl_ref x \<le> 1")
    case True
    then have z: "i \<notin> set (pool_list g)" "\<not> rl_linked x" "rl_handler x = None" using ok unfolding real_ok_def by (simp_all add: one_if_def split: if_splits)
    let ?g = "g\<lparr>dp_reals := (dp_reals g)(i := None)\<rparr>"
    have cl: "i \<notin> set (dp_closing g)" using ok z(2) unfolding real_ok_def by blast
    have nh: "dc_real y \<noteq> Some i" if "dp_conns g c = Some y" for c y using core_connD [OF core that] x z(3) by (auto simp: dbconn_ok_def)
    have "pool_core ex cx ?g"
    proof (rule pool_coreI)
      show "pool_lists_ok ?g" using core_listsD [OF core] z(1) cl unfolding pool_lists_ok_def by auto
      show "real_ok ex ?g j y" if "dp_reals ?g j = Some y" for j y
        by (rule real_ok_cong [OF others]) (use that in \<open>auto split: if_splits\<close>)
      show "dbconn_ok cx ?g c y" if "dp_conns ?g c = Some y" for c y
        by (rule dbconn_ok_cong [OF core_connD [OF core]]) (use that nh in auto)
    qed
    moreover have "pool_frame g ?g" using z x by (auto simp: pool_frame_def intro: exI [of _ 0])
    ultimately show ?thesis using True x by (simp add: real_Release_def dbreal_at_def)
  next
    case False
    let ?x = "x\<lparr>rl_ref := rl_ref x - 1\<rparr>"
    have "real_ok ex g i ?x" using ok False unfolding real_ok_def by simp
    then have all: "real_ok ex g j y" if "dp_reals (put_real i ?x g) j = Some y" for j y using that others by (cases "j = i") auto
    have "pool_core ex cx (put_real i ?x g)"
    proof (rule pool_coreI)
      show "pool_lists_ok (put_real i ?x g)" using core_listsD [OF core] x by (auto simp: pool_lists_ok_def)
      show "real_ok ex (put_real i ?x g) j y" if "dp_reals (put_real i ?x g) j = Some y" for j y
        by (rule real_ok_cong [OF all [OF that]]) auto
      show "dbconn_ok cx (put_real i ?x g) c y" if "dp_conns (put_real i ?x g) c = Some y" for c y
        by (rule dbconn_ok_cong [OF core_connD [OF core]]) (use that x in auto)
    qed
    moreover have "pool_frame g (put_real i ?x g)" using x by (auto simp: pool_frame_def intro: exI [of _ 0])
    ultimately show ?thesis using False x by (simp add: real_Release_def dbreal_at_def)
  qed
qed

text \<open>Sending and the statements change the wire and the statement only.\<close>

definition stmt_change :: "dbpool \<Rightarrow> dbpool \<Rightarrow> bool" where
  "stmt_change g g' \<longleftrightarrow> dp_free g' = dp_free g \<and> dp_busy g' = dp_busy g \<and> dp_pending g' = dp_pending g \<and> dp_aquire g' = dp_aquire g \<and>
     dp_closing g' = dp_closing g \<and> dp_poolsize g' = dp_poolsize g \<and> dp_next g' = dp_next g \<and>
     (\<forall>i. rel_option (\<lambda>x x'. \<exists>w. x' = x\<lparr>rl_sent := w\<rparr>) (dp_reals g i) (dp_reals g' i)) \<and>
     (\<forall>c. rel_option (\<lambda>x x'. \<exists>s. x' = x\<lparr>dc_stmt := s\<rparr>) (dp_conns g c) (dp_conns g' c))"

lemma stmt_change_refl: "stmt_change g g"
proof -
  have 1: "\<exists>w. a = a\<lparr>rl_sent := w\<rparr>" for a :: realconn by (rule exI [of _ "rl_sent a"]) simp
  have 2: "\<exists>s. a = a\<lparr>dc_stmt := s\<rparr>" for a :: dbconn by (rule exI [of _ "dc_stmt a"]) simp
  have "rel_option (\<lambda>x x'. \<exists>w. x' = x\<lparr>rl_sent := w\<rparr>) y y" for y :: "realconn option" using 1 by (cases y) simp_all
  moreover have "rel_option (\<lambda>x x'. \<exists>s. x' = x\<lparr>dc_stmt := s\<rparr>) y y" for y :: "dbconn option" using 2 by (cases y) simp_all
  ultimately show ?thesis by (simp add: stmt_change_def)
qed

lemma stmt_change_real:
  assumes "stmt_change g g'"
  shows "dp_reals g' i = Some x' \<Longrightarrow> \<exists>x w. dp_reals g i = Some x \<and> x' = x\<lparr>rl_sent := w\<rparr>"
    and "dp_reals g i = Some x \<Longrightarrow> \<exists>w. dp_reals g' i = Some (x\<lparr>rl_sent := w\<rparr>)"
proof -
  have "rel_option (\<lambda>x x'. \<exists>w. x' = x\<lparr>rl_sent := w\<rparr>) (dp_reals g i) (dp_reals g' i)" using assms by (simp add: stmt_change_def)
  then show "dp_reals g' i = Some x' \<Longrightarrow> \<exists>x w. dp_reals g i = Some x \<and> x' = x\<lparr>rl_sent := w\<rparr>"
    "dp_reals g i = Some x \<Longrightarrow> \<exists>w. dp_reals g' i = Some (x\<lparr>rl_sent := w\<rparr>)" by (auto simp: option_rel_Some1 option_rel_Some2)
qed

lemma stmt_change_conn:
  assumes "stmt_change g g'"
  shows "dp_conns g' c = Some x' \<Longrightarrow> \<exists>x s. dp_conns g c = Some x \<and> x' = x\<lparr>dc_stmt := s\<rparr>"
    and "dp_conns g c = Some x \<Longrightarrow> \<exists>s. dp_conns g' c = Some (x\<lparr>dc_stmt := s\<rparr>)"
proof -
  have "rel_option (\<lambda>x x'. \<exists>s. x' = x\<lparr>dc_stmt := s\<rparr>) (dp_conns g c) (dp_conns g' c)" using assms by (simp add: stmt_change_def)
  then show "dp_conns g' c = Some x' \<Longrightarrow> \<exists>x s. dp_conns g c = Some x \<and> x' = x\<lparr>dc_stmt := s\<rparr>"
    "dp_conns g c = Some x \<Longrightarrow> \<exists>s. dp_conns g' c = Some (x\<lparr>dc_stmt := s\<rparr>)" by (auto simp: option_rel_Some1 option_rel_Some2)
qed

lemma real_ok_sent: "real_ok ex g i (x\<lparr>rl_sent := w\<rparr>) = real_ok ex g i x"
  by (simp add: real_ok_def)

lemma dbconn_ok_stmt: "dbconn_ok cx g c (x\<lparr>dc_stmt := s\<rparr>) = dbconn_ok cx g c x"
  by (simp add: dbconn_ok_def)

lemma stmt_change_core:
  assumes core: "pool_core ex cx g" and ch: "stmt_change g g'"
  shows "pool_core ex cx g'"
proof (rule pool_coreI)
  have eq: "dp_free g' = dp_free g" "dp_busy g' = dp_busy g" "dp_pending g' = dp_pending g" "dp_aquire g' = dp_aquire g" "dp_closing g' = dp_closing g"
    "dp_poolsize g' = dp_poolsize g" "dp_next g' = dp_next g" using ch by (simp_all add: stmt_change_def)
  have "dom (dp_reals g') = dom (dp_reals g)" "dom (dp_conns g') = dom (dp_conns g)"
    using stmt_change_real [OF ch] stmt_change_conn [OF ch] unfolding dom_def by blast+
  then show "pool_lists_ok g'" using core_listsD [OF core] by (simp add: pool_lists_ok_def eq)
  fix i x'
  assume "dp_reals g' i = Some x'"
  then obtain x w where x: "dp_reals g i = Some x" "x' = x\<lparr>rl_sent := w\<rparr>" using stmt_change_real(1) [OF ch] by blast
  have "real_ok ex g i x'" using core_realD [OF core x(1)] x(2) by (simp add: real_ok_sent)
  then show "real_ok ex g' i x'"
  proof (rule real_ok_cong [OF _ eq(1-3,5)])
    show "\<exists>z'. dp_conns g' c = Some z' \<and> dc_real z' = dc_real z" if "dp_conns g c = Some z" for c z
      using stmt_change_conn(2) [OF ch that] by auto
  qed simp
next
  fix c x'
  assume "dp_conns g' c = Some x'"
  then obtain x s where x: "dp_conns g c = Some x" "x' = x\<lparr>dc_stmt := s\<rparr>" using stmt_change_conn(1) [OF ch] by blast
  have "dbconn_ok cx g c x'" using core_connD [OF core x(1)] x(2) by (simp add: dbconn_ok_stmt)
  moreover have "dp_aquire g' = dp_aquire g" using ch by (simp add: stmt_change_def)
  ultimately show "dbconn_ok cx g' c x'"
  proof (rule dbconn_ok_cong)
    show "\<exists>y'. dp_reals g' i = Some y' \<and> rl_handler y' = rl_handler y" if "dp_reals g i = Some y" for i y
      using stmt_change_real(2) [OF ch that] by auto
  qed simp
qed

lemma stmt_change_frame:
  assumes ch: "stmt_change g g'"
  shows "pool_frame g g'"
proof -
  have "\<exists>x. dp_reals g i = Some x \<and> rl_phase x' = rl_phase x \<and> rl_connect x' = rl_connect x \<and> rl_closed x' = rl_closed x \<and> rl_linked x' = rl_linked x"
    if "dp_reals g' i = Some x'" for i x' using stmt_change_real(1) [OF ch that] by auto
  moreover have "i \<in> dom (dp_reals g')" if "dp_reals g i = Some x" for i x using stmt_change_real(2) [OF ch that] by blast
  moreover have "\<exists>k. dp_aquire g' = drop k (dp_aquire g)" using ch by (intro exI [of _ 0]) (simp add: stmt_change_def)
  ultimately show ?thesis using ch by (simp add: pool_frame_def stmt_change_def)
qed

lemma stmt_change_put:
  assumes "dp_conns g c = Some x" and "stmt_change g g1" and "dp_conns g1 = dp_conns g"
  shows "stmt_change g (put_dbconn c (x\<lparr>dc_stmt := s\<rparr>) g1)"
  using assms by (auto simp: stmt_change_def)

lemma CallRealExecute_change:
  assumes "\<And>r. real = Some r \<Longrightarrow> r \<in> dom (dp_reals g)"
  shows "\<exists>s' g'. StatementBase_CallRealExecute real s g = Inr (s', g') \<and> stmt_change g g' \<and> dp_conns g' = dp_conns g"
proof (cases real)
  case None
  then show ?thesis by (simp add: StatementBase_CallRealExecute_def stmt_change_refl)
next
  case (Some r)
  then obtain x where "dp_reals g r = Some x" using assms by blast
  then have "stmt_change g (put_real r (x\<lparr>rl_sent := w\<rparr>) g)" for w using stmt_change_refl [of g] by (auto simp: stmt_change_def)
  then show ?thesis using \<open>dp_reals g r = Some x\<close> Some
    by (auto simp: StatementBase_CallRealExecute_def Statement_OnCallRealExecute_def RealConnection_Send_def dbreal_at_def stmt_change_refl)
qed

lemma conn_real_alive:
  assumes "pool_core ex cx g" and "dp_conns g c = Some x" and "dc_real x = Some r"
  shows "r \<in> dom (dp_reals g)"
  using core_connD [OF assms(1,2)] assms(3) by (auto simp: dbconn_ok_def)

lemma TryExecuteStatement_change:
  assumes core: "pool_core ex cx g" and x: "dp_conns g c = Some x"
  shows "\<exists>g'. Connection_TryExecuteStatement c g = Inr g' \<and> stmt_change g g'"
proof (cases "dc_stmt x")
  case None
  then show ?thesis using x by (simp add: Connection_TryExecuteStatement_def dbconn_at_def stmt_change_refl)
next
  case (Some s)
  obtain s' g1 where 1: "StatementBase_CallRealExecute (dc_real x) s g = Inr (s', g1)" "stmt_change g g1" "dp_conns g1 = dp_conns g"
    using CallRealExecute_change [of "dc_real x" g s] conn_real_alive [OF core x] by blast
  then show ?thesis using Some x stmt_change_put [OF x 1(2,3)] by (simp add: Connection_TryExecuteStatement_def dbconn_at_def)
qed

subsection \<open>Distributing free connections\<close>

lemma assign_core:
  assumes core: "pool_core ex cx g" and free: "dp_free g = r # fs" and aq: "dp_aquire g = c # cs" and y: "dp_reals g r = Some y" and x: "dp_conns g c = Some x"
  defines "h \<equiv> put_real r (y\<lparr>rl_ref := rl_ref y + 1, rl_handler := Some c\<rparr>)
     (put_dbconn c (x\<lparr>dc_real := Some r\<rparr>) (g\<lparr>dp_free := fs, dp_aquire := cs, dp_busy := dp_busy g @ [r]\<rparr>))"
  shows "pool_core ex (cx(c := Suc (cx c))) h" and "pool_frame g h"
proof -
  have d: "distinct (r # fs @ dp_busy g @ dp_pending g)" "distinct (c # cs)" using core_listsD [OF core] free aq by (simp_all add: pool_lists_ok_def)
  have yo: "real_ok ex g r y" and xo: "dbconn_ok cx g c x" using core_realD [OF core y] core_connD [OF core x] by simp_all
  have hn: "rl_handler y = None" "rl_connect y" using yo free by (auto simp: real_ok_def)
  have xn: "dc_real x = None" using xo aq by (simp add: dbconn_ok_def)
  have ro: "real_ok ex h j z" if z: "dp_reals h j = Some z" for j z
  proof (cases "j = r")
    case True
    then show ?thesis using z yo hn free d(1) x by (auto simp: h_def real_ok_def)
  next
    case False
    then have "real_ok ex g j z" using z core_realD [OF core] by (simp add: h_def)
    moreover have "k \<noteq> c" if "rl_handler z = Some k" for k using \<open>real_ok ex g j z\<close> that x xn by (auto simp: real_ok_def)
    ultimately show ?thesis using False free by (auto simp: h_def real_ok_def)
  qed
  have co: "dbconn_ok (cx(c := Suc (cx c))) h k z" if z: "dp_conns h k = Some z" for k z
  proof (cases "k = c")
    case True
    then show ?thesis using z xo aq d(2) by (auto simp: h_def dbconn_ok_def)
  next
    case False
    then have "dbconn_ok cx g k z" using z core_connD [OF core] by (simp add: h_def)
    moreover have "j \<noteq> r" if "dc_real z = Some j" for j using \<open>dbconn_ok cx g k z\<close> that y hn(1) by (auto simp: dbconn_ok_def)
    ultimately show ?thesis using False aq by (auto simp: h_def dbconn_ok_def)
  qed
  have "pool_lists_ok h" using core_listsD [OF core] free aq x y by (auto simp: h_def pool_lists_ok_def)
  then show "pool_core ex (cx(c := Suc (cx c))) h" using ro co by (rule pool_coreI)
  show "pool_frame g h" using y aq by (auto simp: h_def pool_frame_def intro: exI [of _ 1])
qed

lemma OnAquire_core:
  assumes core: "pool_core ex cx g" and free: "dp_free g = r # fs" and aq: "dp_aquire g = c # cs"
  shows "\<exists>g' x. Connection_OnAquireRealConnectionSuccess c r (g\<lparr>dp_free := fs, dp_aquire := cs, dp_busy := dp_busy g @ [r]\<rparr>) = Inr g' \<and>
    pool_core ex (cx(c := Suc (cx c))) g' \<and> dp_aquire g' = cs \<and> pool_frame g g' \<and> dp_conns g' c = Some x"
proof -
  obtain y where y: "dp_reals g r = Some y" using core_real [OF core, of r] free by auto
  obtain x where x: "dp_conns g c = Some x" using core_listsD [OF core] aq by (auto simp: pool_lists_ok_def)
  let ?h = "put_real r (y\<lparr>rl_ref := rl_ref y + 1, rl_handler := Some c\<rparr>)
     (put_dbconn c (x\<lparr>dc_real := Some r\<rparr>) (g\<lparr>dp_free := fs, dp_aquire := cs, dp_busy := dp_busy g @ [r]\<rparr>))"
  note h = assign_core [OF core free aq y x]
  have "dp_conns ?h c = Some (x\<lparr>dc_real := Some r\<rparr>)" by simp
  then obtain g' where g': "Connection_TryExecuteStatement c ?h = Inr g'" "stmt_change ?h g'" using TryExecuteStatement_change [OF h(1)] by blast
  have "Connection_OnAquireRealConnectionSuccess c r (g\<lparr>dp_free := fs, dp_aquire := cs, dp_busy := dp_busy g @ [r]\<rparr>) = Connection_TryExecuteStatement c ?h"
    using x y by (simp add: Connection_OnAquireRealConnectionSuccess_def dbconn_at_def real_Retain_def dbreal_at_def) (simp add: put_real_def put_dbconn_def)
  moreover have "dp_aquire g' = cs" using g'(2) by (simp add: stmt_change_def)
  moreover have "\<exists>z. dp_conns g' c = Some z" using stmt_change_conn(2) [OF g'(2), of c "x\<lparr>dc_real := Some r\<rparr>"] by auto
  ultimately show ?thesis using g'(1) stmt_change_core [OF h(1) g'(2)] pool_frame_trans [OF h(2) stmt_change_frame [OF g'(2)]] by auto
qed

lemma drop_conn_core:
  assumes core: "pool_core ex (cx(c := Suc (cx c))) g" and x: "dp_conns g c = Some x" "dc_ref x \<le> 1"
  shows "dc_real x = None \<Longrightarrow> pool_core ex cx (g\<lparr>dp_conns := (dp_conns g)(c := None)\<rparr>)"
    and "dc_real x = Some r \<Longrightarrow> dp_reals g r = Some y \<Longrightarrow> pool_core (ex(r := Suc (ex r))) cx
      ((put_real r (y\<lparr>rl_handler := None\<rparr>) (g\<lparr>dp_conns := (dp_conns g)(c := None)\<rparr>))
         \<lparr>dp_busy := removeAll r (dp_busy g), dp_free := (if rl_connect y then dp_free g @ [r] else dp_free g)\<rparr>)"
proof -
  have xo: "dbconn_ok (cx(c := Suc (cx c))) g c x" by (rule core_connD [OF core x(1)])
  then have nc: "c \<notin> set (dp_aquire g)" using x(2) by (auto simp: dbconn_ok_def one_if_def)
  have co: "dbconn_ok cx g k z" if "dp_conns g k = Some z" "k \<noteq> c" for k z
    by (rule dbconn_ok_cong [OF core_connD [OF core that(1)]]) (use that(2) in auto)
  show "pool_core ex cx (g\<lparr>dp_conns := (dp_conns g)(c := None)\<rparr>)" (is "pool_core ex cx ?h") if n: "dc_real x = None"
  proof (rule pool_coreI)
    show "pool_lists_ok ?h" using core_listsD [OF core] nc by (auto simp: pool_lists_ok_def)
    show "real_ok ex ?h i z" if "dp_reals ?h i = Some z" for i z
    proof -
      have o: "real_ok ex g i z" using core_realD [OF core] that by simp
      have "k \<noteq> c" if "rl_handler z = Some k" for k using o that n x(1) by (auto simp: real_ok_def)
      then show ?thesis using o by (intro real_ok_cong [OF o]) auto
    qed
    show "dbconn_ok cx ?h k z" if "dp_conns ?h k = Some z" for k z
      by (rule dbconn_ok_cong [OF co]) (use that in \<open>auto split: if_splits\<close>)
  qed
  show "pool_core (ex(r := Suc (ex r))) cx ((put_real r (y\<lparr>rl_handler := None\<rparr>) (g\<lparr>dp_conns := (dp_conns g)(c := None)\<rparr>))
         \<lparr>dp_busy := removeAll r (dp_busy g), dp_free := (if rl_connect y then dp_free g @ [r] else dp_free g)\<rparr>)" (is "pool_core ?e cx ?h")
    if n: "dc_real x = Some r" and y: "dp_reals g r = Some y"
  proof (rule pool_coreI)
    have hy: "rl_handler y = Some c" using xo n y by (auto simp: dbconn_ok_def)
    have yo: "real_ok ex g r y" by (rule core_realD [OF core y])
    then have r: "r \<notin> set (dp_free g)" "r \<notin> set (dp_pending g)" "r \<in> set (dp_busy g) \<longleftrightarrow> rl_connect y" using hy by (auto simp: real_ok_def)
    have lo: "pool_lists_ok g" by (rule core_listsD [OF core])
    have "length (removeAll r (dp_busy g)) \<le> length (dp_busy g)" "r \<in> set (dp_busy g) \<Longrightarrow> length (removeAll r (dp_busy g)) < length (dp_busy g)"
      by (simp_all add: length_removeAll_less_eq length_removeAll_less)
    then show "pool_lists_ok ?h" using lo r nc y by (auto simp: pool_lists_ok_def distinct_removeAll)
    show "real_ok ?e ?h i z" if z: "dp_reals ?h i = Some z" for i z
    proof (cases "i = r")
      case True
      then show ?thesis using z yo r hy by (auto simp: real_ok_def)
    next
      case False
      then have o: "real_ok ex g i z" using z core_realD [OF core] by simp
      have "k \<noteq> c" if "rl_handler z = Some k" for k using o that n x(1) False by (auto simp: real_ok_def)
      then show ?thesis using o False by (auto simp: real_ok_def)
    qed
    show "dbconn_ok cx ?h k z" if z: "dp_conns ?h k = Some z" for k z
    proof -
      have k: "k \<noteq> c" "dp_conns g k = Some z" using z by (auto split: if_splits)
      have "j \<noteq> r" if "dc_real z = Some j" for j using co [OF k(2,1)] that y hy k(1) by (auto simp: dbconn_ok_def)
      then show ?thesis by (intro dbconn_ok_cong [OF co [OF k(2,1)]]) auto
    qed
  qed
qed

lemma dbconn_Release_with_core:
  assumes core: "pool_core ex (cx(c := Suc (cx c))) g" and x: "dp_conns g c = Some x" and len: "length (dp_aquire g) \<le> n"
    and check: "\<And>ex' h. pool_core ex' cx h \<Longrightarrow> length (dp_aquire h) \<le> n \<Longrightarrow> \<exists>h'. check h = Inr h' \<and> pool_core ex' cx h' \<and> pool_frame h h' \<and> no_wait h'"
  shows "\<exists>g'. dbconn_Release_with check c g = Inr g' \<and> pool_core ex cx g' \<and> pool_frame g g' \<and> (no_wait g \<longrightarrow> no_wait g')"
proof (cases "dc_ref x \<le> 1")
  case False
  let ?x = "x\<lparr>dc_ref := dc_ref x - 1\<rparr>"
  have "dbconn_ok cx g c ?x" using core_connD [OF core x] False by (auto simp: dbconn_ok_def one_if_def split: if_splits)
  then have "pool_core ex cx (put_dbconn c ?x g)" using put_dbconn_core [OF core x, of ?x cx] by simp
  moreover have "pool_frame g (put_dbconn c ?x g)" by (auto simp: pool_frame_def intro: exI [of _ 0])
  ultimately show ?thesis using False x by (simp add: dbconn_Release_with_def dbconn_at_def no_wait_def)
next
  case True
  note drop = drop_conn_core [OF core x True]
  show ?thesis
  proof (cases "dc_real x")
    case None
    then show ?thesis using drop(1) True x by (auto simp: dbconn_Release_with_def dbconn_at_def no_wait_def pool_frame_def intro: exI [of _ 0])
  next
    case (Some r)
    then obtain y where y: "dp_reals g r = Some y" using conn_real_alive [OF core x] by blast
    let ?g1 = "put_real r (y\<lparr>rl_handler := None\<rparr>) (g\<lparr>dp_conns := (dp_conns g)(c := None)\<rparr>)"
    let ?h = "?g1\<lparr>dp_busy := removeAll r (dp_busy g), dp_free := (if rl_connect y then dp_free g @ [r] else dp_free g)\<rparr>"
    have h: "pool_core (ex(r := Suc (ex r))) cx ?h" by (rule drop(2) [OF Some y])
    have fr: "pool_frame g ?h" using y by (auto simp: pool_frame_def intro: exI [of _ 0])
    have rel: "dbconn_Release_with check c g = bindE (if rl_connect y then check ?h else Inr ?h) (real_Release r)"
      using True x Some y by (simp add: dbconn_Release_with_def dbconn_at_def ReleaseRealConnection_with_def dbreal_at_def) (simp add: put_real_def)
    show ?thesis
    proof (cases "rl_connect y")
      case False
      obtain g' where "real_Release r ?h = Inr g'" "pool_core ex cx g'" "pool_frame ?h g'" "dp_aquire g' = dp_aquire ?h" "dp_free g' = dp_free ?h"
        using real_Release_core [OF h, of "y\<lparr>rl_handler := None\<rparr>"] by auto
      then show ?thesis using rel False pool_frame_trans [OF fr] by (simp add: no_wait_def)
    next
      case True
      have "length (dp_aquire ?h) \<le> n" using len by simp
      from check [OF h this] obtain h1 where h1: "check ?h = Inr h1" "pool_core (ex(r := Suc (ex r))) cx h1" "pool_frame ?h h1" "no_wait h1" by blast
      have "rl_linked y" using core_realD [OF core y] True by (simp add: real_ok_def)
      then have "r \<in> dom (dp_reals h1)" using h1(3) unfolding pool_frame_def by auto
      then obtain z where "dp_reals h1 r = Some z" by blast
      from real_Release_core [OF h1(2) this] obtain g' where "real_Release r h1 = Inr g'" "pool_core ex cx g'" "pool_frame h1 g'"
          "dp_aquire g' = dp_aquire h1" "dp_free g' = dp_free h1" by blast
      then show ?thesis using rel True h1 pool_frame_trans [OF fr pool_frame_trans [OF h1(3)]] by (simp add: no_wait_def)
    qed
  qed
qed

lemma pool_frame_aquire: "pool_frame g g' \<Longrightarrow> length (dp_aquire g') \<le> length (dp_aquire g)"
  by (auto simp: pool_frame_def)

lemma CheckAquire_loop_core:
  assumes "pool_core ex cx g" and "length (dp_aquire g) \<le> n"
  shows "\<exists>g'. CheckAquire_loop n g = Inr g' \<and> pool_core ex cx g' \<and> pool_frame g g' \<and> no_wait g'"
  using assms
proof (induction n arbitrary: ex cx g)
  case 0
  then show ?case by (subst CheckAquire_loop.simps) (auto simp: no_wait_def pool_frame_refl split: list.splits)
next
  case (Suc n)
  show ?case
  proof (cases "dp_free g = [] \<or> dp_aquire g = []")
    case True
    then show ?thesis using Suc.prems(1) by (subst CheckAquire_loop.simps) (auto simp: no_wait_def pool_frame_refl split: list.splits)
  next
    case False
    then obtain r fs c cs where e: "dp_free g = r # fs" "dp_aquire g = c # cs" by (meson list.exhaust)
    obtain g1 x where 1: "Connection_OnAquireRealConnectionSuccess c r (g\<lparr>dp_free := fs, dp_aquire := cs, dp_busy := dp_busy g @ [r]\<rparr>) = Inr g1"
        "pool_core ex (cx(c := Suc (cx c))) g1" "dp_aquire g1 = cs" "pool_frame g g1" "dp_conns g1 c = Some x"
      using OnAquire_core [OF Suc.prems(1) e] by blast
    have l1: "length (dp_aquire g1) \<le> n" using Suc.prems(2) e(2) 1(3) by simp
    obtain g2 where 2: "dbconn_Release_with (CheckAquire_loop n) c g1 = Inr g2" "pool_core ex cx g2" "pool_frame g1 g2"
      using dbconn_Release_with_core [OF 1(2,5) l1 Suc.IH] by blast
    have "length (dp_aquire g2) \<le> n" using pool_frame_aquire [OF 2(3)] l1 by simp
    from Suc.IH [OF 2(2) this] obtain g3 where 3: "CheckAquire_loop n g2 = Inr g3" "pool_core ex cx g3" "pool_frame g2 g3" "no_wait g3" by blast
    have "CheckAquire_loop (Suc n) g = Inr g3" using e 1(1) 2(1) 3(1) by (subst CheckAquire_loop.simps) simp
    then show ?thesis using 3 pool_frame_trans [OF 1(4) pool_frame_trans [OF 2(3) 3(3)]] by blast
  qed
qed

lemma CheckAquireList_core:
  assumes "pool_core ex cx g"
  shows "\<exists>g'. CheckAquireList g = Inr g' \<and> pool_core ex cx g' \<and> pool_frame g g' \<and> no_wait g'"
  using CheckAquire_loop_core [OF assms, of "length (dp_aquire g)"] by (simp add: CheckAquireList_def)

lemma dbconn_Release_core:
  assumes "pool_core ex (cx(c := Suc (cx c))) g" and "dp_conns g c = Some x"
  shows "\<exists>g'. dbconn_Release c g = Inr g' \<and> pool_core ex cx g' \<and> pool_frame g g' \<and> (no_wait g \<longrightarrow> no_wait g')"
  unfolding dbconn_Release_def by (rule dbconn_Release_with_core [OF assms order_refl]) (use CheckAquireList_core in blast)

subsection \<open>The other operations\<close>

lemma auth_frame:
  assumes "auth_pending g" and "pool_frame g g'"
  shows "auth_pending g'"
  using assms unfolding auth_pending_def pool_frame_def by metis

text \<open>Connected real connections, and those that are not closed either.\<close>

definition con_real :: "dbpool \<Rightarrow> nat \<Rightarrow> bool" where
  "con_real g i \<longleftrightarrow> (\<exists>x. dp_reals g i = Some x \<and> rl_linked x \<and> rl_connect x)"

definition live_real :: "dbpool \<Rightarrow> nat \<Rightarrow> bool" where
  "live_real g i \<longleftrightarrow> (\<exists>x. dp_reals g i = Some x \<and> rl_linked x \<and> rl_connect x \<and> \<not> rl_closed x)"

lemma frame_live:
  assumes "pool_frame g g'"
  shows "con_real g i \<Longrightarrow> con_real g' i" and "live_real g i \<Longrightarrow> live_real g' i"
proof -
  have "\<exists>x'. dp_reals g' i = Some x' \<and> rl_linked x' \<and> rl_connect x' = rl_connect x \<and> rl_closed x' = rl_closed x" if x: "dp_reals g i = Some x" "rl_linked x" for x
  proof -
    have "i \<in> dom (dp_reals g')" using assms x unfolding pool_frame_def by blast
    then obtain x' where x': "dp_reals g' i = Some x'" by blast
    then have "rl_connect x' = rl_connect x" "rl_closed x' = rl_closed x" "rl_linked x' = rl_linked x" using assms x(1) unfolding pool_frame_def by fastforce+
    then show ?thesis using x' x(2) by blast
  qed
  then show "con_real g i \<Longrightarrow> con_real g' i" "live_real g i \<Longrightarrow> live_real g' i" by (fastforce simp: con_real_def live_real_def)+
qed

lemma real_Close_core:
  assumes core: "pool_core ex cx g" and x: "dp_reals g i = Some x"
  shows "\<exists>g' x'. real_Close i g = Inr g' \<and> pool_core ex cx g' \<and> dp_reals g' = (dp_reals g)(i \<mapsto> x') \<and> x' = x\<lparr>rl_closed := rl_closed x'\<rparr> \<and>
    (rl_linked x \<longrightarrow> rl_closed x') \<and> dp_conns g' = dp_conns g \<and> dp_free g' = dp_free g \<and> dp_busy g' = dp_busy g \<and> dp_pending g' = dp_pending g \<and>
    dp_aquire g' = dp_aquire g \<and> dp_poolsize g' = dp_poolsize g \<and> dp_next g' = dp_next g"
proof (cases "\<not> rl_closed x \<and> rl_linked x")
  case False
  then show ?thesis using core x by (intro exI [of _ g] exI [of _ x]) (auto simp: real_Close_def dbreal_at_def fun_upd_idem)
next
  case True
  let ?x = "x\<lparr>rl_closed := True\<rparr>"
  let ?g = "(put_real i ?x g)\<lparr>dp_closing := dp_closing g @ [i]\<rparr>"
  have xo: "real_ok ex g i x" by (rule core_realD [OF core x])
  then have ni: "i \<notin> set (dp_closing g)" using True by (simp add: real_ok_def)
  have "pool_core ex cx ?g"
  proof (rule pool_coreI)
    show "pool_lists_ok ?g" using core_listsD [OF core] x ni by (auto simp: pool_lists_ok_def)
    show "real_ok ex ?g j y" if y: "dp_reals ?g j = Some y" for j y
    proof (cases "j = i")
      case True
      then show ?thesis using y xo \<open>\<not> rl_closed x \<and> rl_linked x\<close> by (auto simp: real_ok_def)
    next
      case False
      then have "real_ok ex g j y" using y core_realD [OF core] by simp
      then show ?thesis using False by (simp add: real_ok_def)
    qed
    show "dbconn_ok cx ?g c y" if "dp_conns ?g c = Some y" for c y
      by (rule dbconn_ok_cong [OF core_connD [OF core]]) (use that x in auto)
  qed
  then show ?thesis using True x by (intro exI [of _ ?g] exI [of _ ?x]) (simp add: real_Close_def dbreal_at_def)
qed

text \<open>A connection leaves the lists of the pool: the reference of the pool is then an extra one.\<close>

lemma unlist_core:
  assumes core: "pool_core ex cx g" and x: "dp_reals g i = Some x" and i: "i \<in> set (pool_list g)" and c: "x' = x\<lparr>rl_connect := False, rl_connect_pending := p\<rparr>" "p \<longrightarrow> rl_closed x"
  shows "pool_core (ex(i := Suc (ex i))) cx ((put_real i x' g)\<lparr>dp_pending := removeAll i (dp_pending g), dp_free := removeAll i (dp_free g), dp_busy := removeAll i (dp_busy g)\<rparr>)"
    (is "pool_core ?ex cx ?g")
proof (rule pool_coreI)
  have xo: "real_ok ex g i x" by (rule core_realD [OF core x])
  have "length (removeAll i (dp_free g)) + (length (removeAll i (dp_busy g)) + length (removeAll i (dp_pending g))) \<le>
      length (dp_free g) + (length (dp_busy g) + length (dp_pending g))" by (intro add_mono length_removeAll_less_eq)
  then show "pool_lists_ok ?g" using core_listsD [OF core] x by (auto simp: pool_lists_ok_def distinct_removeAll)
  show "real_ok ?ex ?g j y" if y: "dp_reals ?g j = Some y" for j y
  proof (cases "j = i")
    case True
    then have "y = x'" using y by simp
    then show ?thesis using True xo i c by (auto simp: real_ok_def)
  next
    case False
    then have "real_ok ex g j y" using y core_realD [OF core] by simp
    then show ?thesis using False by (simp add: real_ok_def)
  qed
  show "dbconn_ok cx ?g k y" if "dp_conns ?g k = Some y" for k y
    by (rule dbconn_ok_cong [OF core_connD [OF core]]) (use that x c in auto)
qed

lemma unlist_pending_core:
  assumes core: "pool_core ex cx g" and x: "dp_reals g i = Some x" "\<not> rl_connect x" "rl_closed x \<or> \<not> rl_connect_pending x" and i: "i \<in> set (dp_pending g)"
  shows "pool_core (ex(i := Suc (ex i))) cx (g\<lparr>dp_pending := removeAll i (dp_pending g)\<rparr>)"
proof -
  have "i \<notin> set (dp_free g)" "i \<notin> set (dp_busy g)" using core_listsD [OF core] i by (auto simp: pool_lists_ok_def)
  then have h: "(put_real i x g)\<lparr>dp_pending := removeAll i (dp_pending g), dp_free := removeAll i (dp_free g), dp_busy := removeAll i (dp_busy g)\<rparr> =
      g\<lparr>dp_pending := removeAll i (dp_pending g)\<rparr>" using x(1) by (simp add: put_real_def fun_upd_idem)
  have eq: "x = x\<lparr>rl_connect := False, rl_connect_pending := rl_connect_pending x\<rparr>" and cp: "rl_connect_pending x \<longrightarrow> rl_closed x" using x(2,3) by auto
  have "i \<in> set (pool_list g)" using i by simp
  from unlist_core [OF core x(1) this eq cp] show ?thesis unfolding h .
qed

lemma OnConnectFail_core:
  assumes core: "pool_core ex cx g" and x: "dp_reals g i = Some x" "\<not> rl_connect x" "rl_linked x" "rl_closed x \<or> \<not> rl_connect_pending x" and i: "i \<in> set (dp_pending g)"
  shows "\<exists>g'. RealConnectionPool_OnConnectFail i g = Inr g' \<and> pool_core ex cx g' \<and> dp_pending g' = removeAll i (dp_pending g) \<and> dp_free g' = dp_free g \<and>
    dp_busy g' = dp_busy g \<and> dp_aquire g' = dp_aquire g \<and> dp_poolsize g' = dp_poolsize g \<and> dp_conns g' = dp_conns g \<and> i \<in> dom (dp_reals g') \<and>
    pool_frame (g\<lparr>dp_pending := removeAll i (dp_pending g)\<rparr>) g'"
proof -
  let ?h = "g\<lparr>dp_pending := removeAll i (dp_pending g)\<rparr>"
  have "pool_core (ex(i := Suc (ex i))) cx ?h" by (rule unlist_pending_core [OF core x(1,2,4) i])
  from real_Release_core [OF this, of x] obtain g' where g': "real_Release i ?h = Inr g'" "pool_core ex cx g'" "pool_frame ?h g'"
      "dp_aquire g' = dp_aquire ?h" "dp_free g' = dp_free ?h" "dp_busy g' = dp_busy ?h" "dp_conns g' = dp_conns ?h" using x(1) by auto
  moreover have "i \<in> dom (dp_reals g')" using g'(3) x(1,3) by (auto simp: pool_frame_def)
  ultimately show ?thesis by (auto simp: RealConnectionPool_OnConnectFail_def pool_frame_def)
qed

text \<open>What creating connections leaves alone.\<close>

definition same_waiting :: "dbpool \<Rightarrow> dbpool \<Rightarrow> bool" where
  "same_waiting g g' \<longleftrightarrow> dp_free g' = dp_free g \<and> dp_busy g' = dp_busy g \<and> dp_aquire g' = dp_aquire g \<and> dp_poolsize g' = dp_poolsize g \<and> dp_conns g' = dp_conns g"

lemma auth_put:
  assumes "auth_pending g" and "rl_connect x \<Longrightarrow> rl_phase x \<noteq> CONN_PHASE_OK \<Longrightarrow> i \<in> set (dp_pending g)"
  shows "auth_pending (put_real i x g)"
  using assms by (auto simp: auth_pending_def)

lemma connect_failed:
  assumes core: "pool_core ex cx g" and auth: "auth_pending g" and x: "dp_reals g i = Some x" "\<not> rl_connect x" "rl_linked x" "\<not> rl_connect_pending x" and i: "i \<in> set (dp_pending g)"
  shows "\<exists>g'. bindE (RealConnectionPool_OnConnectFail i g) (real_Close i) = Inr g' \<and> pool_core ex cx g' \<and> auth_pending g' \<and> same_waiting g g' \<and>
    dp_pending g' = removeAll i (dp_pending g) \<and> (\<forall>k. live_real g k \<longrightarrow> live_real g' k)"
proof -
  obtain g1 where 1: "RealConnectionPool_OnConnectFail i g = Inr g1" "pool_core ex cx g1" "dp_pending g1 = removeAll i (dp_pending g)" "dp_free g1 = dp_free g"
      "dp_busy g1 = dp_busy g" "dp_aquire g1 = dp_aquire g" "dp_poolsize g1 = dp_poolsize g" "dp_conns g1 = dp_conns g" "i \<in> dom (dp_reals g1)"
      "pool_frame (g\<lparr>dp_pending := removeAll i (dp_pending g)\<rparr>) g1"
    using OnConnectFail_core [OF core x(1-3) _ i] x(4) by blast
  have "auth_pending (g\<lparr>dp_pending := removeAll i (dp_pending g)\<rparr>)" using auth x(1,2) unfolding auth_pending_def by (auto dest!: spec)
  then have a1: "auth_pending g1" by (rule auth_frame [OF _ 1(10)])
  have l1: "live_real g1 k" if "live_real g k" for k using frame_live(2) [OF 1(10)] that by (simp add: live_real_def)
  obtain y where y: "dp_reals g1 i = Some y" using 1(9) by blast
  obtain g' y' where g': "real_Close i g1 = Inr g'" "pool_core ex cx g'" "dp_reals g' = (dp_reals g1)(i \<mapsto> y')" "y' = y\<lparr>rl_closed := rl_closed y'\<rparr>"
      "dp_conns g' = dp_conns g1" "dp_free g' = dp_free g1" "dp_busy g' = dp_busy g1" "dp_pending g' = dp_pending g1" "dp_aquire g' = dp_aquire g1" "dp_poolsize g' = dp_poolsize g1"
    using real_Close_core [OF 1(2) y] by blast
  have "rl_connect y' = rl_connect y" "rl_phase y' = rl_phase y" by (subst g'(4), simp)+
  then have "auth_pending g'" using a1 y unfolding auth_pending_def g'(3,8) by (auto split: if_splits)
  moreover have "live_real g' k" if k: "live_real g k" for k
  proof -
    have "k \<noteq> i" using k x(1,2) by (auto simp: live_real_def)
    then show ?thesis using l1 [OF k] g'(3) by (simp add: live_real_def)
  qed
  ultimately show ?thesis using 1 g' by (simp add: same_waiting_def)
qed

lemma CreateNewConnection_core:
  assumes core: "pool_core (\<lambda>_. 0) cx g" and auth: "auth_pending g" and room: "length (pool_list g) < dp_poolsize g"
  shows "\<exists>g'. RealConnectionPool_CreateNewConnection g = Inr g' \<and> pool_core (\<lambda>_. 0) cx g' \<and> auth_pending g' \<and> same_waiting g g' \<and>
    length (pool_list g') \<le> Suc (length (pool_list g)) \<and> (\<forall>k. live_real g k \<longrightarrow> live_real g' k)"
proof -
  let ?i = "dp_next g"
  let ?x = "\<lparr>rl_connect = False, rl_connect_pending = False, rl_linked = True, rl_closed = False, rl_ref = 2, rl_phase = CONN_PHASE_INIT_HANDSHAKE,
    rl_handler = None, rl_sent = []\<rparr>"
  let ?g = "(put_real ?i ?x g)\<lparr>dp_pending := dp_pending g @ [?i], dp_next := ?i + 1\<rparr>"
  have lo: "pool_lists_ok g" by (rule core_listsD [OF core])
  have "dom (dp_reals g) \<subseteq> {..<?i}" "set (pool_list g) \<subseteq> dom (dp_reals g)" "set (dp_closing g) \<subseteq> dom (dp_reals g)"
    using lo unfolding pool_lists_ok_def by blast+
  then have fresh: "?i \<notin> dom (dp_reals g)" "?i \<notin> set (pool_list g)" "?i \<notin> set (dp_closing g)" by blast+
  have g1: "pool_core (\<lambda>_. 0) cx ?g"
  proof (rule pool_coreI)
    show "pool_lists_ok ?g" using lo room fresh unfolding pool_lists_ok_def by (auto simp: less_Suc_eq)
    show "real_ok (\<lambda>_. 0) ?g j y" if y: "dp_reals ?g j = Some y" for j y
    proof (cases "j = ?i")
      case True
      then show ?thesis using y fresh by (auto simp: real_ok_def)
    next
      case False
      then have "real_ok (\<lambda>_. 0) g j y" using y core_realD [OF core] by simp
      then show ?thesis using False by (simp add: real_ok_def)
    qed
    show "dbconn_ok cx ?g c y" if "dp_conns ?g c = Some y" for c y
      by (rule dbconn_ok_cong [OF core_connD [OF core]]) (use that fresh in auto)
  qed
  have a1: "auth_pending ?g" using auth by (auto simp: auth_pending_def)
  have x1: "dp_reals ?g ?i = Some ?x" by simp
  have put: "pool_core (\<lambda>_. 0) cx (put_real ?i (?x\<lparr>rl_connect_pending := True\<rparr>) ?g)" "pool_core (\<lambda>_. 0) cx (put_real ?i (?x\<lparr>rl_connect := True\<rparr>) ?g)"
    by (rule put_real_core [OF g1 x1], simp, use core_realD [OF g1 x1] in \<open>simp add: real_ok_def\<close>)+
  have lv: "live_real (put_real ?i y ?g) k" "live_real ?g k" if "live_real g k" for y k using that fresh(1) by (auto simp: live_real_def)
  have sw: "same_waiting g ?g" "same_waiting g (put_real ?i y ?g)" for y by (simp_all add: same_waiting_def)
  show ?thesis
  proof (cases "dp_ans g ?i")
    case ConnFail
    have "?i \<in> set (dp_pending ?g)" by simp
    from connect_failed [OF g1 a1 x1 _ _ _ this] obtain g' where "bindE (RealConnectionPool_OnConnectFail ?i ?g) (real_Close ?i) = Inr g'"
        "pool_core (\<lambda>_. 0) cx g'" "auth_pending g'" "same_waiting ?g g'" "dp_pending g' = removeAll ?i (dp_pending ?g)"
        "\<forall>k. live_real ?g k \<longrightarrow> live_real g' k" by auto
    moreover have "length (removeAll ?i (dp_pending g)) \<le> Suc (length (dp_pending g))" using length_removeAll_less_eq [of ?i "dp_pending g"] by linarith
    ultimately show ?thesis using ConnFail lv(2) by (simp add: RealConnectionPool_CreateNewConnection_def Let_def same_waiting_def)
  next
    case ConnPending
    then show ?thesis using put(1) sw(2) lv(1) auth_put [OF a1] by (simp add: RealConnectionPool_CreateNewConnection_def Let_def)
  next
    case ConnDone
    then show ?thesis using put(2) sw(2) lv(1) auth_put [OF a1] by (simp add: RealConnectionPool_CreateNewConnection_def Let_def)
  qed
qed

lemma create_times_core:
  assumes "pool_core (\<lambda>_. 0) cx g" and "auth_pending g" and "length (pool_list g) + n \<le> dp_poolsize g"
  shows "\<exists>g'. create_times n g = Inr g' \<and> pool_core (\<lambda>_. 0) cx g' \<and> auth_pending g' \<and> same_waiting g g' \<and> (\<forall>k. live_real g k \<longrightarrow> live_real g' k)"
  using assms
proof (induction n arbitrary: g)
  case (Suc n)
  then have "length (pool_list g) < dp_poolsize g" by linarith
  from CreateNewConnection_core [OF Suc.prems(1,2) this] obtain g1 where 1: "RealConnectionPool_CreateNewConnection g = Inr g1" "pool_core (\<lambda>_. 0) cx g1"
      "auth_pending g1" "same_waiting g g1" "length (pool_list g1) \<le> Suc (length (pool_list g))" "\<forall>k. live_real g k \<longrightarrow> live_real g1 k" by blast
  have "dp_poolsize g1 = dp_poolsize g" using 1(4) by (simp add: same_waiting_def)
  then have "length (pool_list g1) + n \<le> dp_poolsize g1" using 1(5) Suc.prems(3) by linarith
  from Suc.IH [OF 1(2,3) this] 1 show ?case by (auto simp: same_waiting_def)
qed (simp add: same_waiting_def)

lemma CheckCreateMore_core:
  assumes "pool_core (\<lambda>_. 0) cx g" and "auth_pending g"
  shows "\<exists>g'. CheckCreateMore g = Inr g' \<and> pool_core (\<lambda>_. 0) cx g' \<and> auth_pending g' \<and> same_waiting g g' \<and> (\<forall>k. live_real g k \<longrightarrow> live_real g' k)"
proof -
  have "length (pool_list g) \<le> dp_poolsize g" using core_listsD [OF assms(1)] by (simp add: pool_lists_ok_def)
  then show ?thesis unfolding CheckCreateMore_def by (intro create_times_core [OF assms]) simp
qed

lemma Setup_pool_inv: "\<exists>g. RealConnectionPool_Setup (RealConnectionPool_new poolsize ans) = Inr g \<and> pool_inv g"
proof -
  let ?g = "RealConnectionPool_new poolsize ans"
  have "pool_core (\<lambda>_. 0) (\<lambda>_. 0) ?g" "auth_pending ?g" "length (pool_list ?g) + poolsize \<le> dp_poolsize ?g" "dp_aquire ?g = []" "dp_poolsize ?g = poolsize"
    by (simp_all add: RealConnectionPool_new_def pool_core_def pool_lists_ok_def auth_pending_def)
  then show ?thesis using create_times_core [of "\<lambda>_. 0" ?g poolsize] by (auto simp: RealConnectionPool_Setup_def pool_inv_def no_wait_def same_waiting_def)
qed

end
