(* ===== verification/MysqlPoolSpec.thy ===== *)
theory MysqlPoolSpec
  imports MysqlPoolInv
begin

text \<open>
  Properties of the MySQL connection pool. Whatever user code, server and dispatcher do, no deleted object is touched, none leaks, the pool keeps to its
  size and nobody waits while a connection is free. \<open>Cleanup\<close> empties the pool if no connection is in use, and never does otherwise. A connection
  given back while its statement is in progress hands the outstanding answer to the next statement.
\<close>

section \<open>Every step keeps the invariant\<close>

lemma pool_invD:
  assumes "pool_inv g"
  shows "pool_core (\<lambda>_. 0) (\<lambda>_. 0) g" "no_wait g" "auth_pending g"
  using assms by (simp_all add: pool_inv_def)

lemma open_realD:
  assumes "open_real g i P"
  obtains x where "dp_reals g i = Some x" "rl_linked x" "\<not> rl_closed x" "P x"
  using assms by (auto simp: open_real_def split: option.splits)

lemma user_connD:
  assumes "user_conn g c P"
  obtains x where "dp_conns g c = Some x" "0 < dc_user x" "P x"
  using assms by (auto simp: user_conn_def split: option.splits)

text \<open>Connected, open real connections stay so, those in \<open>D\<close> excepted.\<close>

definition keeps_live :: "nat set \<Rightarrow> dbpool \<Rightarrow> dbpool \<Rightarrow> bool" where
  "keeps_live D g g' \<longleftrightarrow> (\<forall>k. k \<notin> D \<longrightarrow> live_real g k \<longrightarrow> live_real g' k)"

lemma keeps_live_trans: "keeps_live D g g1 \<Longrightarrow> keeps_live D g1 g2 \<Longrightarrow> keeps_live D g g2"
  by (simp add: keeps_live_def)

lemma keeps_live_refl: "keeps_live D g g"
  by (simp add: keeps_live_def)

lemma keeps_live_frame: "pool_frame g g' \<Longrightarrow> keeps_live D g g'"
  using frame_live(2) by (auto simp: keeps_live_def)

lemma keeps_live_reals:
  assumes "\<And>k x. k \<notin> D \<Longrightarrow> dp_reals g k = Some x \<Longrightarrow> rl_connect x \<Longrightarrow> \<exists>x'. dp_reals g' k = Some x' \<and> rl_linked x' = rl_linked x \<and> rl_connect x' = rl_connect x \<and> rl_closed x' = rl_closed x"
  shows "keeps_live D g g'"
  using assms by (fastforce simp: keeps_live_def live_real_def)

lemma stmt_change_inv: "pool_inv g \<Longrightarrow> stmt_change g g' \<Longrightarrow> pool_inv g'"
  using stmt_change_core auth_frame [OF _ stmt_change_frame] by (auto simp: pool_inv_def no_wait_def stmt_change_def)

lemma put_real_inv:
  assumes inv: "pool_inv g" and x: "dp_reals g i = Some x" "rl_handler x' = rl_handler x" and ok: "real_ok (\<lambda>_. 0) g i x'"
    and auth: "rl_connect x' \<Longrightarrow> rl_phase x' \<noteq> CONN_PHASE_OK \<Longrightarrow> i \<in> set (dp_pending g)"
  shows "pool_inv (put_real i x' g)"
  using put_real_core [OF pool_invD(1) [OF inv] x ok] auth_put [OF pool_invD(3) [OF inv] auth] pool_invD(2) [OF inv] by (simp add: pool_inv_def no_wait_def)

lemma connect_completed_inv:
  assumes inv: "pool_inv g" and en: "db_enabled (ConnectCompleted i ok) g"
  shows "\<exists>g'. RealConnection_connect_completed i ok g = Inr g' \<and> pool_inv g' \<and> keeps_live {} g g'"
proof -
  obtain x where x: "dp_reals g i = Some x" "rl_linked x" "\<not> rl_closed x" "rl_connect_pending x" using en by (auto elim: open_realD)
  note core = pool_invD(1) [OF inv]
  have xo: "real_ok (\<lambda>_. 0) g i x" by (rule core_realD [OF core x(1)])
  then have p: "i \<in> set (dp_pending g)" "\<not> rl_connect x" "rl_handler x = None" using x by (auto simp: real_ok_def)
  show ?thesis
  proof (cases ok)
    case True
    have "pool_inv (put_real i (x\<lparr>rl_connect_pending := False, rl_connect := True\<rparr>) g)"
      by (rule put_real_inv [OF inv x(1)]) (use xo x p in \<open>auto simp: real_ok_def\<close>)
    moreover have "keeps_live {} g (put_real i (x\<lparr>rl_connect_pending := False, rl_connect := True\<rparr>) g)" by (rule keeps_live_reals) (use x(1) p(2) in auto)
    ultimately show ?thesis using True x by (simp add: RealConnection_connect_completed_def dbreal_at_def Let_def)
  next
    case False
    let ?x = "x\<lparr>rl_connect_pending := False\<rparr>"
    have g1: "pool_inv (put_real i ?x g)" by (rule put_real_inv [OF inv x(1)]) (use xo x p in \<open>auto simp: real_ok_def\<close>)
    obtain g' where "bindE (RealConnectionPool_OnConnectFail i (put_real i ?x g)) (real_Close i) = Inr g'" "pool_core (\<lambda>_. 0) (\<lambda>_. 0) g'" "auth_pending g'"
        "same_waiting (put_real i ?x g) g'" "\<forall>k. live_real (put_real i ?x g) k \<longrightarrow> live_real g' k"
      using connect_failed [OF pool_invD(1) [OF g1] pool_invD(3) [OF g1], of i ?x] x p by auto
    moreover have "keeps_live {} g (put_real i ?x g)" by (rule keeps_live_reals) (use x(1) p(2) in auto)
    ultimately show ?thesis using False x pool_invD(2) [OF inv]
      by (auto simp: RealConnection_connect_completed_def dbreal_at_def Let_def pool_inv_def no_wait_def same_waiting_def keeps_live_def)
  qed
qed

lemma greeted_inv:
  assumes inv: "pool_inv g" and en: "open_real g i (\<lambda>x. rl_connect x \<and> rl_phase x = CONN_PHASE_INIT_HANDSHAKE)"
  shows "\<exists>g'. RealConnection_greeted i response g = Inr g' \<and> pool_inv g' \<and> keeps_live {} g g'"
proof -
  obtain x where x: "dp_reals g i = Some x" "rl_connect x" "rl_phase x = CONN_PHASE_INIT_HANDSHAKE" using en by (auto elim: open_realD)
  let ?x = "x\<lparr>rl_phase := CONN_PHASE_HANDSHAKE_RESPONSE, rl_sent := rl_sent x @ [(1, response)]\<rparr>"
  have "pool_inv (put_real i ?x g)"
  proof (rule put_real_inv [OF inv x(1)])
    show "real_ok (\<lambda>_. 0) g i ?x" using core_realD [OF pool_invD(1) [OF inv] x(1)] by (simp add: real_ok_def)
    show "i \<in> set (dp_pending g)" using pool_invD(3) [OF inv] x by (auto simp: auth_pending_def)
  qed simp
  moreover have "keeps_live {} g (put_real i ?x g)" by (rule keeps_live_reals) (use x(1) in auto)
  ultimately show ?thesis using x by (simp add: RealConnection_greeted_def RealConnection_Send_def dbreal_at_def) (simp add: put_real_def)
qed

lemma authorised_inv:
  assumes inv: "pool_inv g" and en: "open_real g i (\<lambda>x. rl_connect x \<and> rl_phase x = CONN_PHASE_HANDSHAKE_RESPONSE)"
  shows "\<exists>g'. RealConnection_authorised i g = Inr g' \<and> pool_inv g' \<and> keeps_live {} g g'"
proof -
  obtain x where x: "dp_reals g i = Some x" "rl_linked x" "rl_connect x" "rl_phase x = CONN_PHASE_HANDSHAKE_RESPONSE" using en by (auto elim: open_realD)
  note core = pool_invD(1) [OF inv]
  have p: "i \<in> set (dp_pending g)" using pool_invD(3) [OF inv] x by (auto simp: auth_pending_def)
  let ?h = "g\<lparr>dp_pending := removeAll i (dp_pending g), dp_free := dp_free g @ [i]\<rparr>"
  have lo: "pool_lists_ok g" by (rule core_listsD [OF core])
  have d: "i \<notin> set (dp_free g)" "i \<notin> set (dp_busy g)" using lo p by (auto simp: pool_lists_ok_def)
  have h: "pool_core (\<lambda>_. 0) (\<lambda>_. 0) ?h"
  proof (rule pool_coreI)
    show "pool_lists_ok ?h" using lo d p length_removeAll_less [OF p] unfolding pool_lists_ok_def by (auto simp: distinct_removeAll)
    show "real_ok (\<lambda>_. 0) ?h j y" if y: "dp_reals ?h j = Some y" for j y
      using core_realD [OF core, of j y] y p d x by (cases "j = i") (auto simp: real_ok_def)
    show "dbconn_ok (\<lambda>_. 0) ?h c y" if "dp_conns ?h c = Some y" for c y
      by (rule dbconn_ok_cong [OF core_connD [OF core]]) (use that in auto)
  qed
  from CheckAquireList_core [OF h] obtain g1 where 1: "CheckAquireList ?h = Inr g1" "pool_core (\<lambda>_. 0) (\<lambda>_. 0) g1" "pool_frame ?h g1" "no_wait g1" by blast
  have "i \<in> dom (dp_reals g1)" using 1(3) x(1,2) by (auto simp: pool_frame_def)
  then obtain y where y: "dp_reals g1 i = Some y" by blast
  have core': "pool_core (\<lambda>_. 0) (\<lambda>_. 0) (put_real i (y\<lparr>rl_phase := CONN_PHASE_OK\<rparr>) g1)"
    by (rule put_real_core [OF 1(2) y]) (use core_realD [OF 1(2) y] in \<open>simp_all add: real_ok_def\<close>)
  have "k \<in> set (dp_pending g1)" if k: "dp_reals g1 k = Some z" "k \<noteq> i" "rl_connect z" "rl_phase z \<noteq> CONN_PHASE_OK" for k z
  proof -
    obtain z0 where "dp_reals g k = Some z0" "rl_connect z0" "rl_phase z0 \<noteq> CONN_PHASE_OK" using 1(3) k unfolding pool_frame_def by fastforce
    then have "k \<in> set (dp_pending g)" using pool_invD(3) [OF inv] by (auto simp: auth_pending_def)
    then show ?thesis using 1(3) k(2) by (simp add: pool_frame_def)
  qed
  then have "auth_pending (put_real i (y\<lparr>rl_phase := CONN_PHASE_OK\<rparr>) g1)" by (auto simp: auth_pending_def)
  then have "pool_inv (put_real i (y\<lparr>rl_phase := CONN_PHASE_OK\<rparr>) g1)" using core' 1(4) by (simp add: pool_inv_def no_wait_def)
  moreover have "keeps_live {} g ?h" by (simp add: keeps_live_def live_real_def)
  then have "keeps_live {} g g1" using keeps_live_trans keeps_live_frame [OF 1(3)] by blast
  then have "keeps_live {} g (put_real i (y\<lparr>rl_phase := CONN_PHASE_OK\<rparr>) g1)"
    by (rule keeps_live_trans) (rule keeps_live_reals, use y in auto)
  ultimately show ?thesis using 1(1) y by (simp add: RealConnection_authorised_def RealConnectionPool_OnAuthSuccess_def dbreal_at_def)
qed

lemma handler_alive:
  assumes "pool_core ex cx g" and "dp_reals g i = Some x" and "rl_handler x = Some c"
  shows "\<exists>z. dp_conns g c = Some z \<and> dc_real z = Some i"
  using core_realD [OF assms(1,2)] assms(3) by (simp add: real_ok_def)

text \<open>A received packet can only fail in one of the parsers.\<close>

definition parse_error :: "dbenv \<Rightarrow> mem \<Rightarrow> mypkt \<Rightarrow> error \<Rightarrow> bool" where
  "parse_error env m q err \<longleftrightarrow> HandleAuthInitHandshake (en_sha1 env) (en_info env) m (my_pkt q) = Inl err \<or> HandleAuthResponse m (my_pkt q) = Inl err \<or>
     (\<exists>s. StatementBase_HandleRawResponse (en_float env) (en_junk env) (en_uninit env) m q s = Inl err)"

lemma response_inv:
  assumes inv: "pool_inv g" and x: "dp_reals g i = Some x" "rl_handler x = Some c"
  shows "(\<exists>g'. Connection_OnReceivePacket fl junk uninit m q c g = Inr g' \<and> pool_inv g' \<and> keeps_live {} g g') \<or>
    (\<exists>s e. StatementBase_HandleRawResponse fl junk uninit m q s = Inl e \<and> Connection_OnReceivePacket fl junk uninit m q c g = Inl e)"
proof -
  obtain z where z: "dp_conns g c = Some z" using handler_alive [OF pool_invD(1) [OF inv] x] by blast
  show ?thesis
  proof (cases "dc_stmt z")
    case None
    then show ?thesis using z inv keeps_live_refl [of "{}" g] by (simp add: Connection_OnReceivePacket_def dbconn_at_def)
  next
    case (Some s)
    have "stmt_change g (put_dbconn c (z\<lparr>dc_stmt := Some s1\<rparr>) g)" for s1 by (rule stmt_change_put [OF z stmt_change_refl refl])
    then have "pool_inv (put_dbconn c (z\<lparr>dc_stmt := Some s1\<rparr>) g)" "keeps_live {} g (put_dbconn c (z\<lparr>dc_stmt := Some s1\<rparr>) g)" for s1
      using stmt_change_inv [OF inv] keeps_live_frame [OF stmt_change_frame] by blast+
    then show ?thesis using z Some
      by (cases "StatementBase_HandleRawResponse fl junk uninit m q s") (auto simp: Connection_OnReceivePacket_def dbconn_at_def)
  qed
qed

lemma Received_inv:
  assumes inv: "pool_inv g" and en: "db_enabled (Received env m q i) g"
  shows "(\<exists>g'. RealConnection_OnReceivePacket env m q i g = Inr g' \<and> pool_inv g' \<and> keeps_live {} g g') \<or>
    (\<exists>err. RealConnection_OnReceivePacket env m q i g = Inl err \<and> parse_error env m q err)"
proof -
  obtain x where x: "dp_reals g i = Some x" using en by (auto elim: open_realD)
  have open_phase: "open_real g i (\<lambda>y. rl_connect y \<and> rl_phase y = ph)" if "rl_phase x = ph" for ph using en x that by (simp add: open_real_def)
  have stay: "\<exists>g'. Inr g = (Inr g' :: dbpool result) \<and> pool_inv g' \<and> keeps_live {} g g'" using inv keeps_live_refl by blast
  note receive = RealConnection_OnReceivePacket_def dbreal_at_def x option.case bindE_Inr
  show ?thesis
  proof (cases "rl_phase x")
    case CONN_PHASE_INIT_HANDSHAKE
    note send = greeted_inv [OF inv open_phase [OF this]]
    show ?thesis
    proof (cases "HandleAuthInitHandshake (en_sha1 env) (en_info env) m (my_pkt q)")
      case (Inr ans)
      then show ?thesis using CONN_PHASE_INIT_HANDSHAKE send stay by (cases ans) (simp_all add: receive RealConnection_HandleAuthInitHandshake_def)
    qed (use CONN_PHASE_INIT_HANDSHAKE in \<open>simp add: receive RealConnection_HandleAuthInitHandshake_def parse_error_def\<close>)
  next
    case CONN_PHASE_HANDSHAKE_RESPONSE
    note ok = authorised_inv [OF inv open_phase [OF this]]
    show ?thesis
    proof (cases "HandleAuthResponse m (my_pkt q)")
      case (Inr ans)
      then show ?thesis using CONN_PHASE_HANDSHAKE_RESPONSE ok stay by (simp add: receive RealConnection_HandleAuthResponse_def)
    qed (use CONN_PHASE_HANDSHAKE_RESPONSE in \<open>simp add: receive RealConnection_HandleAuthResponse_def parse_error_def\<close>)
  next
    case CONN_PHASE_OK
    show ?thesis
    proof (cases "rl_handler x")
      case None
      then show ?thesis using CONN_PHASE_OK stay by (simp add: receive)
    next
      case (Some c)
      from response_inv [OF inv x Some, of "en_float env" "en_junk env" "en_uninit env" m q] show ?thesis using CONN_PHASE_OK Some by (auto simp: receive parse_error_def)
    qed
  qed
qed

lemma PeerClosed_inv:
  assumes inv: "pool_inv g" and x: "dp_reals g i = Some x"
  shows "\<exists>g'. real_Close i g = Inr g' \<and> pool_inv g' \<and> keeps_live {i} g g'"
proof -
  obtain g' x' where g': "real_Close i g = Inr g'" "pool_core (\<lambda>_. 0) (\<lambda>_. 0) g'" "dp_reals g' = (dp_reals g)(i \<mapsto> x')" "x' = x\<lparr>rl_closed := rl_closed x'\<rparr>"
      "dp_free g' = dp_free g" "dp_pending g' = dp_pending g" "dp_aquire g' = dp_aquire g"
    using real_Close_core [OF pool_invD(1) [OF inv] x] by blast
  have "rl_connect x' = rl_connect x" "rl_phase x' = rl_phase x" by (subst g'(4), simp)+
  then have "auth_pending g'" using pool_invD(3) [OF inv] x unfolding auth_pending_def g'(3,6) by (auto split: if_splits)
  moreover have "keeps_live {i} g g'" by (rule keeps_live_reals) (simp add: g'(3))
  ultimately show ?thesis using g' pool_invD(2) [OF inv] by (simp add: pool_inv_def no_wait_def)
qed

lemma real_Release_closing: "real_Release i (g\<lparr>dp_closing := l\<rparr>) = bindE (real_Release i g) (\<lambda>g1. Inr (g1\<lparr>dp_closing := l\<rparr>))"
  by (auto simp: real_Release_def dbreal_at_def put_real_def split: option.splits)

lemma real_Release_keeps: "real_Release i g = Inr g1 \<Longrightarrow> dp_closing g1 = dp_closing g"
  by (auto simp: real_Release_def dbreal_at_def put_real_def split: option.splits if_splits)

lemma Statement_HandleClose_total: "\<exists>s1. Statement_HandleClose s = Inr s1"
  by (simp add: Statement_HandleClose_def call_back_def Let_def)

text \<open>The client's \<open>OnClose\<close>: the statement is told, the connection leaves the pool.\<close>

lemma RealConnection_OnClose_core:
  assumes core: "pool_core (\<lambda>_. 0) (\<lambda>_. 0) g" and x: "dp_reals g i = Some x" "rl_linked x" "rl_closed x" "rl_connect x"
  shows "\<exists>g'. RealConnection_OnClose i (put_real i (x\<lparr>rl_connect := False\<rparr>) g) = Inr g' \<and> pool_core (\<lambda>_. 0) (\<lambda>_. 0) g' \<and>
    pool_frame ((put_real i (x\<lparr>rl_connect := False\<rparr>) g)\<lparr>dp_pending := removeAll i (dp_pending g)\<rparr>) g' \<and> dp_aquire g' = dp_aquire g \<and>
    dp_free g' = removeAll i (dp_free g) \<and> dp_busy g' = removeAll i (dp_busy g)"
proof -
  let ?x = "x\<lparr>rl_connect := False\<rparr>"
  let ?h = "(put_real i ?x g)\<lparr>dp_pending := removeAll i (dp_pending g), dp_free := removeAll i (dp_free g), dp_busy := removeAll i (dp_busy g)\<rparr>"
  have xo: "real_ok (\<lambda>_. 0) g i x" by (rule core_realD [OF core x(1)])
  then have i: "i \<in> set (pool_list g)" and cp: "\<not> rl_connect_pending x" using x(4) by (simp_all add: real_ok_def)
  have "?x = x\<lparr>rl_connect := False, rl_connect_pending := False\<rparr>" using cp by simp
  from unlist_core [OF core x(1) i this] have h: "pool_core ((\<lambda>_. 0)(i := Suc 0)) (\<lambda>_. 0) ?h" by simp
  obtain h1 where h1: "bindE (case rl_handler x of Some c \<Rightarrow> if rl_phase x = CONN_PHASE_OK then Connection_OnClose c (put_real i ?x g) else Inr (put_real i ?x g) | None \<Rightarrow> Inr (put_real i ?x g))
        (RealConnectionPool_OnClose i) = real_Release i h1" "stmt_change ?h h1"
  proof -
    have plain: "RealConnectionPool_OnClose i (put_real i ?x g) = real_Release i ?h" by (simp add: RealConnectionPool_OnClose_def)
    show ?thesis
    proof (cases "\<exists>c z s. rl_handler x = Some c \<and> rl_phase x = CONN_PHASE_OK \<and> dp_conns g c = Some z \<and> dc_stmt z = Some s")
      case True
      then obtain c z s where c: "rl_handler x = Some c" "rl_phase x = CONN_PHASE_OK" "dp_conns g c = Some z" "dc_stmt z = Some s" by blast
      obtain s1 where s1: "Statement_HandleClose s = Inr s1" using Statement_HandleClose_total by blast
      have "stmt_change ?h (put_dbconn c (z\<lparr>dc_stmt := Some s1\<rparr>) ?h)" by (rule stmt_change_put) (simp_all add: c(3) stmt_change_refl)
      moreover have "RealConnectionPool_OnClose i (put_dbconn c (z\<lparr>dc_stmt := Some s1\<rparr>) (put_real i ?x g)) = real_Release i (put_dbconn c (z\<lparr>dc_stmt := Some s1\<rparr>) ?h)"
        by (cases g) (simp add: RealConnectionPool_OnClose_def put_dbconn_def put_real_def)
      ultimately show ?thesis using c s1 that [of "put_dbconn c (z\<lparr>dc_stmt := Some s1\<rparr>) ?h"] by (simp add: Connection_OnClose_def dbconn_at_def)
    next
      case False
      have "Connection_OnClose c (put_real i ?x g) = Inr (put_real i ?x g)" if m: "rl_handler x = Some c" "rl_phase x = CONN_PHASE_OK" for c
      proof -
        obtain z where "dp_conns g c = Some z" using handler_alive [OF core x(1) m(1)] by blast
        then show ?thesis using False m by (auto simp: Connection_OnClose_def dbconn_at_def split: option.splits)
      qed
      then show ?thesis using plain that [of ?h] stmt_change_refl by (auto split: option.splits)
    qed
  qed
  have core1: "pool_core ((\<lambda>_. 0)(i := Suc 0)) (\<lambda>_. 0) h1" by (rule stmt_change_core [OF h h1(2)])
  have "dp_reals ?h i = Some ?x" by simp
  then obtain w where "dp_reals h1 i = Some (?x\<lparr>rl_sent := w\<rparr>)" using stmt_change_real(2) [OF h1(2)] by blast
  from real_Release_core [of "\<lambda>_. 0" i, OF core1 this] obtain g' where g': "real_Release i h1 = Inr g'" "pool_core (\<lambda>_. 0) (\<lambda>_. 0) g'" "pool_frame h1 g'"
      "dp_aquire g' = dp_aquire h1" "dp_free g' = dp_free h1" "dp_busy g' = dp_busy h1" by blast
  have "pool_frame ?h g'" by (rule pool_frame_trans [OF stmt_change_frame [OF h1(2)] g'(3)])
  moreover have "dp_aquire h1 = dp_aquire g" "dp_free h1 = removeAll i (dp_free g)" "dp_busy h1 = removeAll i (dp_busy g)" using h1(2) by (simp_all add: stmt_change_def)
  moreover have "RealConnection_OnClose i (put_real i ?x g) = Inr g'" using h1(1) g'(1) by (simp add: RealConnection_OnClose_def dbreal_at_def cong: option.case_cong)
  ultimately show ?thesis using g' by (auto simp: pool_frame_def)
qed

text \<open>The dispatcher drops its reference.\<close>

lemma unlink_core:
  assumes core: "pool_core ex cx g" and x: "dp_reals g i = Some x" "\<not> rl_connect x" "rl_linked x" "rl_closed x" and cl: "dp_closing g = i # rest"
  shows "\<exists>g'. real_Release i ((put_real i (x\<lparr>rl_linked := False\<rparr>) g)\<lparr>dp_closing := rest\<rparr>) = Inr g' \<and> pool_core ex cx g' \<and>
    pool_frame ((put_real i (x\<lparr>rl_linked := False\<rparr>) g)\<lparr>dp_closing := rest\<rparr>) g' \<and> dp_aquire g' = dp_aquire g \<and> dp_free g' = dp_free g \<and>
    dp_busy g' = dp_busy g"
proof -
  let ?h = "(put_real i (x\<lparr>rl_linked := False\<rparr>) g)\<lparr>dp_closing := rest\<rparr>"
  have xo: "real_ok ex g i x" by (rule core_realD [OF core x(1)])
  have nr: "i \<notin> set rest" using core_listsD [OF core] cl by (simp add: pool_lists_ok_def)
  have "pool_core (ex(i := Suc (ex i))) cx ?h"
  proof (rule pool_coreI)
    show "pool_lists_ok ?h" using core_listsD [OF core] x(1) cl by (auto simp: pool_lists_ok_def)
    show "real_ok (ex(i := Suc (ex i))) ?h j y" if y: "dp_reals ?h j = Some y" for j y
    proof (cases "j = i")
      case True
      then show ?thesis using y xo x nr by (auto simp: real_ok_def)
    next
      case False
      then have "real_ok ex g j y" using y core_realD [OF core] by simp
      then show ?thesis using False cl by (simp add: real_ok_def)
    qed
    show "dbconn_ok cx ?h c y" if "dp_conns ?h c = Some y" for c y
      by (rule dbconn_ok_cong [OF core_connD [OF core]]) (use that x in auto)
  qed
  from real_Release_core [OF this, of "x\<lparr>rl_linked := False\<rparr>"] show ?thesis by auto
qed

lemma CloseCallback_inv:
  assumes inv: "pool_inv g" and cl: "dp_closing g = i # rest"
  shows "\<exists>g'. real_close_callback g = Inr g' \<and> pool_inv g' \<and> dp_closing g' = rest \<and> set (pool_list g') \<subseteq> set (pool_list g) - (if con_real g i then {i} else {}) \<and>
    (\<forall>k. k \<noteq> i \<longrightarrow> con_real g k \<longrightarrow> con_real g' k) \<and> keeps_live {} g g'"
proof -
  note core = pool_invD(1) [OF inv]
  obtain x where x: "dp_reals g i = Some x" using core_listsD [OF core] cl by (auto simp: pool_lists_ok_def)
  have lc: "rl_linked x" "rl_closed x" using core_realD [OF core x] cl by (auto simp: real_ok_def)
  obtain g1 x1 where 1: "(if rl_connect x then RealConnection_OnClose i (put_real i (x\<lparr>rl_connect := False\<rparr>) g) else Inr g) = Inr g1"
      "pool_core (\<lambda>_. 0) (\<lambda>_. 0) g1" "dp_closing g1 = i # rest" "dp_reals g1 i = Some x1" "\<not> rl_connect x1" "rl_linked x1" "rl_closed x1" "no_wait g1" "auth_pending g1"
      "set (pool_list g1) \<subseteq> set (pool_list g) - (if con_real g i then {i} else {})" "\<And>k. k \<noteq> i \<Longrightarrow> con_real g k \<Longrightarrow> con_real g1 k" "\<And>k. live_real g k \<Longrightarrow> live_real g1 k"
  proof (cases "rl_connect x")
    case False
    then show ?thesis using that [of g x] core cl x lc pool_invD [OF inv] by (simp add: con_real_def)
  next
    case True
    let ?h = "(put_real i (x\<lparr>rl_connect := False\<rparr>) g)\<lparr>dp_pending := removeAll i (dp_pending g)\<rparr>"
    obtain g1 where g1: "RealConnection_OnClose i (put_real i (x\<lparr>rl_connect := False\<rparr>) g) = Inr g1" "pool_core (\<lambda>_. 0) (\<lambda>_. 0) g1" "pool_frame ?h g1"
        "dp_aquire g1 = dp_aquire g" "dp_free g1 = removeAll i (dp_free g)" "dp_busy g1 = removeAll i (dp_busy g)" using RealConnection_OnClose_core [OF core x lc True] by blast
    have "i \<in> dom (dp_reals g1)" using g1(3) lc(1) by (auto simp: pool_frame_def)
    then obtain x1 where x1: "dp_reals g1 i = Some x1" by blast
    then have "\<not> rl_connect x1" "rl_linked x1" "rl_closed x1" using g1(3) lc by (fastforce simp: pool_frame_def)+
    moreover have "auth_pending ?h" using pool_invD(3) [OF inv] by (auto simp: auth_pending_def)
    then have "auth_pending g1" by (rule auth_frame [OF _ g1(3)])
    moreover have "no_wait g1" using pool_invD(2) [OF inv] g1(4,5) by (auto simp: no_wait_def)
    moreover have "dp_closing g1 = i # rest" "dp_pending g1 = removeAll i (dp_pending g)" using g1(3) cl by (simp_all add: pool_frame_def)
    moreover from this have "set (pool_list g1) \<subseteq> set (pool_list g) - (if con_real g i then {i} else {})" using g1(5,6) by auto
    moreover have "con_real g1 k" if "k \<noteq> i" "con_real g k" for k using frame_live(1) [OF g1(3), of k] that by (simp add: con_real_def)
    moreover have "live_real g1 k" if k: "live_real g k" for k
    proof -
      have "k \<noteq> i" using k x lc(2) by (auto simp: live_real_def)
      then show ?thesis using frame_live(2) [OF g1(3), of k] k by (simp add: live_real_def)
    qed
    ultimately show ?thesis using that [of g1 x1] True g1(1,2) x1 by simp
  qed
  let ?k = "(put_real i (x1\<lparr>rl_linked := False\<rparr>) g1)\<lparr>dp_closing := rest\<rparr>"
  obtain g2 where 2: "real_Release i ?k = Inr g2" "pool_core (\<lambda>_. 0) (\<lambda>_. 0) g2" "pool_frame ?k g2" "dp_aquire g2 = dp_aquire g1" "dp_free g2 = dp_free g1" "dp_busy g2 = dp_busy g1"
    using unlink_core [OF 1(2,4-7,3)] by blast
  have "auth_pending ?k" using 1(5,9) by (auto simp: auth_pending_def)
  then have "auth_pending g2" by (rule auth_frame [OF _ 2(3)])
  then have inv2: "pool_inv g2" using 2 1(8) by (simp add: pool_inv_def no_wait_def)
  have cl2: "dp_closing g2 = rest" "set (pool_list g2) = set (pool_list g1)" using 2(3,5,6) by (simp_all add: pool_frame_def)
  have con2: "con_real g2 k" if "k \<noteq> i" "con_real g1 k" for k using frame_live(1) [OF 2(3), of k] that by (simp add: con_real_def)
  have live2: "live_real g2 k" if k: "live_real g1 k" for k
  proof -
    have "k \<noteq> i" using k 1(4,5) by (auto simp: live_real_def)
    then show ?thesis using frame_live(2) [OF 2(3), of k] k by (simp add: live_real_def)
  qed
  obtain g3 where 3: "real_Release i (put_real i (x1\<lparr>rl_linked := False\<rparr>) g1) = Inr g3" "g2 = g3\<lparr>dp_closing := rest\<rparr>"
    using 2(1) unfolding real_Release_closing by (auto simp: bindE_eq_Inr)
  have "tl (dp_closing g3) = rest" using real_Release_keeps [OF 3(1)] 1(3) by simp
  then have "real_close_callback g = Inr g2" using cl x 1(1,4) 3 by (simp add: real_close_callback_def dbreal_at_def)
  moreover have "set (pool_list g2) \<subseteq> set (pool_list g) - (if con_real g i then {i} else {})" unfolding cl2(2) by (rule 1(10))
  moreover have "\<forall>k. k \<noteq> i \<longrightarrow> con_real g k \<longrightarrow> con_real g2 k" "keeps_live {} g g2" using con2 live2 1(11,12) by (simp_all add: keeps_live_def)
  ultimately show ?thesis using inv2 cl2(1) by blast
qed

lemma AquireReal_inv:
  assumes core: "pool_core (\<lambda>_. 0) (\<lambda>_. 0) g" and auth: "auth_pending g" and c: "dp_conns g c = Some x" "dc_real x = None" "c \<notin> set (dp_aquire g)"
  shows "\<exists>g'. RealConnectionPool_AquireRealConnection c g = Inr g' \<and> pool_inv g' \<and> keeps_live {} g g'"
proof -
  let ?h = "put_dbconn c (x\<lparr>dc_ref := dc_ref x + 1\<rparr>) (g\<lparr>dp_aquire := dp_aquire g @ [c]\<rparr>)"
  have "pool_core (\<lambda>_. 0) (\<lambda>_. 0) ?h"
  proof (rule pool_coreI)
    show "pool_lists_ok ?h" using core_listsD [OF core] c by (auto simp: pool_lists_ok_def)
    show "real_ok (\<lambda>_. 0) ?h i y" if "dp_reals ?h i = Some y" for i y
      by (rule real_ok_cong [OF core_realD [OF core]]) (use that c in auto)
    show "dbconn_ok (\<lambda>_. 0) ?h k y" if "dp_conns ?h k = Some y" for k y
      using core_connD [OF core, of k] that c by (cases "k = c") (auto simp: dbconn_ok_def)
  qed
  from CheckAquireList_core [OF this] obtain g1 where 1: "CheckAquireList ?h = Inr g1" "pool_core (\<lambda>_. 0) (\<lambda>_. 0) g1" "pool_frame ?h g1" "no_wait g1" by blast
  have "auth_pending ?h" using auth by (simp add: auth_pending_def)
  then have "auth_pending g1" by (rule auth_frame [OF _ 1(3)])
  from CheckCreateMore_core [OF 1(2) this] obtain g2 where "CheckCreateMore g1 = Inr g2" "pool_core (\<lambda>_. 0) (\<lambda>_. 0) g2" "auth_pending g2" "same_waiting g1 g2"
      "\<forall>k. live_real g1 k \<longrightarrow> live_real g2 k" by blast
  moreover have "keeps_live {} ?h g1" by (rule keeps_live_frame [OF 1(3)])
  then have "keeps_live {} g g1" by (simp add: keeps_live_def live_real_def)
  ultimately show ?thesis using 1 c by (auto simp: keeps_live_def RealConnectionPool_AquireRealConnection_def dbconn_Retain_def dbconn_at_def pool_inv_def no_wait_def same_waiting_def)
qed

lemma Create_inv:
  assumes inv: "pool_inv g"
  shows "\<exists>g'. Connection_Create g = Inr g' \<and> pool_inv g' \<and> keeps_live {} g g'"
proof -
  let ?c = "dp_next g" and ?x = "\<lparr>dc_ref = 1, dc_user = 1, dc_real = None, dc_stmt = None\<rparr>"
  let ?h = "(put_dbconn ?c ?x g)\<lparr>dp_next := ?c + 1\<rparr>"
  note core = pool_invD(1) [OF inv]
  have lo: "pool_lists_ok g" by (rule core_listsD [OF core])
  have "dom (dp_conns g) \<subseteq> {..<?c}" "set (dp_aquire g) \<subseteq> dom (dp_conns g)" using lo unfolding pool_lists_ok_def by blast+
  then have fresh: "?c \<notin> dom (dp_conns g)" "?c \<notin> set (dp_aquire g)" by blast+
  have "pool_core (\<lambda>_. 0) (\<lambda>_. 0) ?h"
  proof (rule pool_coreI)
    show "pool_lists_ok ?h" using lo unfolding pool_lists_ok_def by (auto simp: less_Suc_eq)
    show "real_ok (\<lambda>_. 0) ?h i y" if "dp_reals ?h i = Some y" for i y
      by (rule real_ok_cong [OF core_realD [OF core]]) (use that fresh in auto)
    show "dbconn_ok (\<lambda>_. 0) ?h k y" if "dp_conns ?h k = Some y" for k y
      using core_connD [OF core, of k] that fresh by (cases "k = ?c") (auto simp: dbconn_ok_def)
  qed
  moreover have "auth_pending ?h" using pool_invD(3) [OF inv] by (simp add: auth_pending_def)
  ultimately obtain g' where "RealConnectionPool_AquireRealConnection ?c ?h = Inr g'" "pool_inv g'" "keeps_live {} ?h g'" using AquireReal_inv [of ?h ?c ?x] fresh by auto
  then show ?thesis by (simp add: Connection_Create_def Let_def keeps_live_def live_real_def)
qed

lemma Retain_inv:
  assumes inv: "pool_inv g" and x: "dp_conns g c = Some x"
  shows "\<exists>g'. user_Retain c g = Inr g' \<and> pool_inv g' \<and> keeps_live {} g g'"
proof -
  let ?x = "x\<lparr>dc_user := dc_user x + 1, dc_ref := dc_ref x + 1\<rparr>"
  have "dbconn_ok (\<lambda>_. 0) g c ?x" using core_connD [OF pool_invD(1) [OF inv] x] by (simp add: dbconn_ok_def)
  then have "pool_core (\<lambda>_. 0) (\<lambda>_. 0) (put_dbconn c ?x g)" by (intro put_dbconn_core [OF pool_invD(1) [OF inv] x]) simp_all
  moreover have "user_Retain c g = Inr (put_dbconn c ?x g)" using x by (simp add: user_Retain_def dbconn_Retain_def dbconn_at_def) (simp add: put_dbconn_def)
  ultimately show ?thesis using pool_invD [OF inv] by (simp add: pool_inv_def no_wait_def auth_pending_def keeps_live_def live_real_def)
qed

lemma Release_inv:
  assumes inv: "pool_inv g" and x: "dp_conns g c = Some x" "0 < dc_user x"
  shows "\<exists>g'. user_Release c g = Inr g' \<and> pool_inv g' \<and> keeps_live {} g g'"
proof -
  let ?x = "x\<lparr>dc_user := dc_user x - 1\<rparr>"
  let ?h = "put_dbconn c ?x g"
  have "dbconn_ok ((\<lambda>_. 0)(c := Suc 0)) g c ?x" using core_connD [OF pool_invD(1) [OF inv] x(1)] x(2) by (simp add: dbconn_ok_def)
  then have "pool_core (\<lambda>_. 0) ((\<lambda>_. 0)(c := Suc 0)) ?h" by (intro put_dbconn_core [OF pool_invD(1) [OF inv] x(1)]) simp_all
  from dbconn_Release_core [of _ "\<lambda>_. 0" c, OF this] obtain g' where g': "dbconn_Release c ?h = Inr g'" "pool_core (\<lambda>_. 0) (\<lambda>_. 0) g'" "pool_frame ?h g'" "no_wait ?h \<longrightarrow> no_wait g'"
    by auto
  have "auth_pending ?h" using pool_invD(3) [OF inv] by (simp add: auth_pending_def)
  then have "auth_pending g'" by (rule auth_frame [OF _ g'(3)])
  moreover have "keeps_live {} ?h g'" by (rule keeps_live_frame [OF g'(3)])
  ultimately show ?thesis using g' x pool_invD(2) [OF inv] by (auto simp: pool_inv_def no_wait_def user_Release_def dbconn_at_def keeps_live_def live_real_def)
qed

lemma CreateStatement_inv:
  assumes inv: "pool_inv g" and x: "dp_conns g c = Some x" "\<not> Connection_pending x"
  shows "\<exists>g'. Connection_CreateStatement sql c g = Inr g' \<and> pool_inv g' \<and> keeps_live {} g g'"
  using stmt_change_inv [OF inv stmt_change_put [OF x(1) stmt_change_refl refl]] keeps_live_frame [OF stmt_change_frame [OF stmt_change_put [OF x(1) stmt_change_refl refl]]] x by (simp add: Connection_CreateStatement_def Connection_pending_def dbconn_at_def)

lemma Execute_inv:
  assumes inv: "pool_inv g" and x: "dp_conns g c = Some x" "dc_stmt x = Some s" "st_phase s = STATEMENT_NEW"
  shows "\<exists>g'. Statement_Execute cb c g = Inr g' \<and> pool_inv g' \<and> keeps_live {} g g'"
proof -
  obtain s' g1 where 1: "StatementBase_CallRealExecute (dc_real x) (s\<lparr>st_phase := STATEMENT_WAIT, st_cb := cb\<rparr>) g = Inr (s', g1)" "stmt_change g g1" "dp_conns g1 = dp_conns g"
    using CallRealExecute_change [of "dc_real x" g] conn_real_alive [OF pool_invD(1) [OF inv] x(1)] by blast
  then show ?thesis using stmt_change_inv [OF inv stmt_change_put [OF x(1) 1(2,3)]] keeps_live_frame [OF stmt_change_frame [OF stmt_change_put [OF x(1) 1(2,3)]]] x by (simp add: Statement_Execute_def dbconn_at_def)
qed

subsection \<open>Cleanup\<close>

lemma cleanup_waiters_core:
  assumes "pool_core (\<lambda>_. 0) (\<lambda>_. 0) g" and "auth_pending g" and "dp_aquire g = cs"
  shows "\<exists>g'. cleanup_waiters cs g = Inr g' \<and> pool_core (\<lambda>_. 0) (\<lambda>_. 0) g' \<and> auth_pending g' \<and> dp_aquire g' = [] \<and> dp_free g' = dp_free g \<and>
    dp_busy g' = dp_busy g \<and> dp_pending g' = dp_pending g \<and> dp_reals g' = dp_reals g"
  using assms
proof (induction cs arbitrary: g)
  case (Cons c cs)
  note core = Cons.prems(1)
  obtain x where x: "dp_conns g c = Some x" using core_listsD [OF core] Cons.prems(3) by (auto simp: pool_lists_ok_def)
  have xo: "dbconn_ok (\<lambda>_. 0) g c x" by (rule core_connD [OF core x])
  have nr: "dc_real x = None" and nc: "c \<notin> set cs" using xo Cons.prems(3) core_listsD [OF core] by (auto simp: dbconn_ok_def pool_lists_ok_def)
  let ?n = "if dc_ref x \<le> 1 then None else Some (x\<lparr>dc_ref := dc_ref x - 1\<rparr>)"
  let ?h = "g\<lparr>dp_conns := (dp_conns g)(c := ?n), dp_aquire := cs\<rparr>"
  have rel: "bindE (dbconn_Release c g) (\<lambda>g1. cleanup_waiters cs (g1\<lparr>dp_aquire := cs\<rparr>)) = cleanup_waiters cs ?h"
    using x nr by (cases "dc_ref x \<le> 1") (simp_all add: dbconn_Release_def dbconn_Release_with_def dbconn_at_def put_dbconn_def)
  have "pool_core (\<lambda>_. 0) (\<lambda>_. 0) ?h"
  proof (rule pool_coreI)
    show "pool_lists_ok ?h" using core_listsD [OF core] Cons.prems(3) nc x unfolding pool_lists_ok_def by (auto split: if_splits)
    show "real_ok (\<lambda>_. 0) ?h i y" if "dp_reals ?h i = Some y" for i y
    proof -
      have o: "real_ok (\<lambda>_. 0) g i y" using core_realD [OF core] that by simp
      have "k \<noteq> c" if "rl_handler y = Some k" for k using o that nr x by (auto simp: real_ok_def)
      then show ?thesis by (intro real_ok_cong [OF o]) auto
    qed
    show "dbconn_ok (\<lambda>_. 0) ?h k y" if y: "dp_conns ?h k = Some y" for k y
    proof (cases "k = c")
      case True
      then show ?thesis using y xo nc Cons.prems(3) by (auto simp: dbconn_ok_def split: if_splits)
    next
      case False
      then show ?thesis using core_connD [OF core, of k y] y Cons.prems(3) by (simp add: dbconn_ok_def)
    qed
  qed
  moreover have "auth_pending ?h" using Cons.prems(2) by (simp add: auth_pending_def)
  ultimately show ?case using Cons.IH [of ?h] rel by simp
qed simp

lemma real_Close_closing:
  assumes "pool_core ex cx g" and "dp_reals g i = Some x" and "rl_linked x" and "real_Close i g = Inr g'"
  shows "set (dp_closing g') = insert i (set (dp_closing g))"
  using assms core_realD [OF assms(1,2)] by (auto simp: real_Close_def dbreal_at_def real_ok_def split: if_splits)

lemma cleanup_free_core:
  assumes "pool_core (\<lambda>_. 0) (\<lambda>_. 0) g" and "auth_pending g" and "set is \<subseteq> set (dp_free g)"
  shows "\<exists>g'. cleanup_free is g = Inr g' \<and> pool_core (\<lambda>_. 0) (\<lambda>_. 0) g' \<and> auth_pending g' \<and> dp_aquire g' = dp_aquire g \<and> dp_free g' = dp_free g \<and>
    dp_busy g' = dp_busy g \<and> dp_pending g' = dp_pending g \<and> set (dp_closing g') = set (dp_closing g) \<union> set is \<and> (\<forall>k. con_real g k \<longrightarrow> con_real g' k)"
  using assms
proof (induction "is" arbitrary: g)
  case (Cons i "is")
  note core = Cons.prems(1)
  obtain x where x: "dp_reals g i = Some x" "real_ok (\<lambda>_. 0) g i x" using core_real [OF core, of i] Cons.prems(3) by auto
  have cn: "rl_connect x" "rl_linked x" using x(2) Cons.prems(3) by (auto simp: real_ok_def)
  obtain g1 x' where 1: "real_Close i g = Inr g1" "pool_core (\<lambda>_. 0) (\<lambda>_. 0) g1" "dp_reals g1 = (dp_reals g)(i \<mapsto> x')" "x' = x\<lparr>rl_closed := rl_closed x'\<rparr>"
      "dp_free g1 = dp_free g" "dp_busy g1 = dp_busy g" "dp_pending g1 = dp_pending g" "dp_aquire g1 = dp_aquire g" using real_Close_core [OF core x(1)] by blast
  have xs: "rl_connect x' = rl_connect x" "rl_phase x' = rl_phase x" "rl_linked x' = rl_linked x" by (subst 1(4), simp)+
  have con: "con_real g1 k" if "con_real g k" for k using that x(1) xs 1(3) by (auto simp: con_real_def)
  have cl: "set (dp_closing g1) = insert i (set (dp_closing g))" by (rule real_Close_closing [OF core x(1) cn(2) 1(1)])
  have a1: "auth_pending g1" using Cons.prems(2) x(1) xs unfolding auth_pending_def 1(3,7) by (auto split: if_splits)
  have "set is \<subseteq> set (dp_free g1)" using Cons.prems(3) 1(5) by simp
  from Cons.IH [OF 1(2) a1 this] show ?case using 1 xs cn cl con by (auto simp: dbreal_at_def)
qed simp

text \<open>Of the pending connections those still connecting are dropped, the others closed.\<close>

lemma cleanup_pending_core:
  assumes "pool_core (\<lambda>_. 0) (\<lambda>_. 0) g" and "auth_pending g" and "set is \<subseteq> set (dp_pending g)" and "distinct is"
  shows "\<exists>g'. cleanup_pending is g = Inr g' \<and> pool_core (\<lambda>_. 0) (\<lambda>_. 0) g' \<and> auth_pending g' \<and> dp_aquire g' = dp_aquire g \<and> dp_free g' = dp_free g \<and>
    dp_busy g' = dp_busy g \<and> set (dp_pending g') \<subseteq> set (dp_pending g) \<and> set (dp_closing g) \<subseteq> set (dp_closing g') \<and>
    set is \<inter> set (dp_pending g') \<subseteq> set (dp_closing g') \<and> set (dp_closing g') \<inter> set (dp_busy g) \<subseteq> set (dp_closing g) \<and>
    (\<forall>k. con_real g k \<longrightarrow> con_real g' k) \<and> (\<forall>k \<in> set is. k \<in> set (dp_pending g') \<longrightarrow> con_real g' k)"
  using assms
proof (induction "is" arbitrary: g)
  case (Cons i "is")
  note core = Cons.prems(1)
  have i: "i \<in> set (dp_pending g)" using Cons.prems(3) by simp
  obtain x where x: "dp_reals g i = Some x" "real_ok (\<lambda>_. 0) g i x" using core_real [OF core, of i] i by auto
  have nb: "i \<notin> set (dp_busy g)" using core_listsD [OF core] i by (auto simp: pool_lists_ok_def)
  obtain g1 x' where 1: "real_Close i g = Inr g1" "pool_core (\<lambda>_. 0) (\<lambda>_. 0) g1" "dp_reals g1 = (dp_reals g)(i \<mapsto> x')" "x' = x\<lparr>rl_closed := rl_closed x'\<rparr>"
      "rl_linked x \<longrightarrow> rl_closed x'" "dp_free g1 = dp_free g" "dp_busy g1 = dp_busy g" "dp_pending g1 = dp_pending g" "dp_aquire g1 = dp_aquire g" using real_Close_core [OF core x(1)] by blast
  have xs: "rl_connect x' = rl_connect x" "rl_phase x' = rl_phase x" "rl_linked x' = rl_linked x" "rl_connect_pending x' = rl_connect_pending x" by (subst 1(4), simp)+
  have con: "con_real g1 k" if "con_real g k" for k using that x(1) xs 1(3) by (auto simp: con_real_def)
  have a1: "auth_pending g1" using Cons.prems(2) x(1) xs unfolding auth_pending_def 1(3,8) by (auto split: if_splits)
  have x1: "dp_reals g1 i = Some x'" using 1(3) by simp
  have sub: "set (dp_closing g) \<subseteq> set (dp_closing g1)" "set (dp_closing g1) \<subseteq> insert i (set (dp_closing g))"
    using 1(1) x(1) by (auto simp: real_Close_def dbreal_at_def split: if_splits)
  show ?case
  proof (cases "rl_connect x")
    case True
    then have ci: "i \<in> set (dp_closing g1)" using real_Close_closing [OF core x(1) _ 1(1)] x(2) by (auto simp: real_ok_def)
    have "set is \<subseteq> set (dp_pending g1)" "distinct is" using Cons.prems(3,4) 1(8) by simp_all
    from Cons.IH [OF 1(2) a1 this] obtain g' where g': "cleanup_pending is g1 = Inr g'" "pool_core (\<lambda>_. 0) (\<lambda>_. 0) g'" "auth_pending g'" "dp_aquire g' = dp_aquire g1"
        "dp_free g' = dp_free g1" "dp_busy g' = dp_busy g1" "set (dp_pending g') \<subseteq> set (dp_pending g1)" "set (dp_closing g1) \<subseteq> set (dp_closing g')"
        "set is \<inter> set (dp_pending g') \<subseteq> set (dp_closing g')" "set (dp_closing g') \<inter> set (dp_busy g1) \<subseteq> set (dp_closing g1)"
        "\<forall>k. con_real g1 k \<longrightarrow> con_real g' k" "\<forall>k \<in> set is. k \<in> set (dp_pending g') \<longrightarrow> con_real g' k" by blast
    have "set (i # is) \<inter> set (dp_pending g') \<subseteq> set (dp_closing g')" using g'(8,9) ci by auto
    moreover have "set (dp_closing g') \<inter> set (dp_busy g) \<subseteq> set (dp_closing g)" using g'(10) sub(2) nb 1(7) by auto
    moreover have "con_real g1 i" using True xs x1 x(2) by (auto simp: con_real_def real_ok_def)
    then have "\<forall>k \<in> set (i # is). k \<in> set (dp_pending g') \<longrightarrow> con_real g' k" "\<forall>k. con_real g k \<longrightarrow> con_real g' k" using g'(11,12) con by auto
    moreover have "set (dp_pending g') \<subseteq> set (dp_pending g)" "set (dp_closing g) \<subseteq> set (dp_closing g')" using g'(7,8) 1(8) sub(1) by auto
    moreover have "cleanup_pending (i # is) g = Inr g'" using g'(1) 1(1) True xs(1) x1 by (simp add: dbreal_at_def)
    ultimately show ?thesis using g'(2-6) 1(6,7,9) by simp
  next
    case False
    have lk: "rl_closed x' \<or> \<not> rl_connect_pending x'" using core_realD [OF 1(2) x1] 1(5) xs(3) unfolding real_ok_def by blast
    let ?h = "g1\<lparr>dp_pending := removeAll i (dp_pending g1)\<rparr>"
    have h: "pool_core ((\<lambda>_. 0)(i := Suc 0)) (\<lambda>_. 0) ?h"
      using unlist_pending_core [OF 1(2) x1 _ lk] False xs(1) i 1(8) by simp
    obtain g2 where 2: "real_Release i ?h = Inr g2" "pool_core (\<lambda>_. 0) (\<lambda>_. 0) g2" "pool_frame ?h g2" "dp_aquire g2 = dp_aquire g1" "dp_free g2 = dp_free g1" "dp_busy g2 = dp_busy g1"
      using real_Release_core [of "\<lambda>_. 0" i _ ?h x', OF h] x1 by auto
    have "auth_pending ?h" using a1 x1 False xs(1) unfolding auth_pending_def by (auto dest!: spec)
    then have a2: "auth_pending g2" by (rule auth_frame [OF _ 2(3)])
    have p2: "dp_pending g2 = removeAll i (dp_pending g)" "dp_closing g2 = dp_closing g1" using 2(3) 1(8) by (simp_all add: pool_frame_def)
    have "set is \<subseteq> set (dp_pending g2)" "distinct is" using Cons.prems(3,4) p2(1) by auto
    from Cons.IH [OF 2(2) a2 this] obtain g' where g': "cleanup_pending is g2 = Inr g'" "pool_core (\<lambda>_. 0) (\<lambda>_. 0) g'" "auth_pending g'" "dp_aquire g' = dp_aquire g2"
        "dp_free g' = dp_free g2" "dp_busy g' = dp_busy g2" "set (dp_pending g') \<subseteq> set (dp_pending g2)" "set (dp_closing g2) \<subseteq> set (dp_closing g')"
        "set is \<inter> set (dp_pending g') \<subseteq> set (dp_closing g')" "set (dp_closing g') \<inter> set (dp_busy g2) \<subseteq> set (dp_closing g2)"
        "\<forall>k. con_real g2 k \<longrightarrow> con_real g' k" "\<forall>k \<in> set is. k \<in> set (dp_pending g') \<longrightarrow> con_real g' k" by blast
    have "set (i # is) \<inter> set (dp_pending g') \<subseteq> set (dp_closing g')" using g'(7,9) p2(1) by auto
    moreover have "set (dp_closing g') \<inter> set (dp_busy g) \<subseteq> set (dp_closing g)" using g'(10) sub(2) nb 1(7) 2(6) p2(2) by auto
    moreover have "set (dp_pending g') \<subseteq> set (dp_pending g)" using g'(7) p2(1) by auto
    moreover have "set (dp_closing g) \<subseteq> set (dp_closing g')" using g'(8) p2(2) sub(1) by auto
    moreover have "con_real g' k" if k: "con_real g k" for k
    proof -
      have "con_real ?h k" using con [OF k] by (simp add: con_real_def)
      then show ?thesis using frame_live(1) [OF 2(3)] g'(11) by blast
    qed
    moreover have "\<forall>k \<in> set (i # is). k \<in> set (dp_pending g') \<longrightarrow> con_real g' k" using g'(7,12) p2(1) by auto
    moreover have "cleanup_pending (i # is) g = Inr g'" using g'(1) 1(1) 2(1) False xs(1) x1 by (simp add: dbreal_at_def)
    ultimately show ?thesis using g'(2-6) 1(6,7,9) 2(4-6) by simp
  qed
qed simp

text \<open>After \<open>Cleanup\<close> everything but the connections in use is queued for the dispatcher.\<close>

lemma Cleanup_core:
  assumes inv: "pool_inv g"
  shows "\<exists>g'. RealConnectionPool_Cleanup g = Inr g' \<and> pool_inv g' \<and> dp_aquire g' = [] \<and> dp_busy g' = dp_busy g \<and>
    set (dp_free g') \<union> set (dp_pending g') \<subseteq> set (dp_closing g') \<and> set (dp_closing g') \<inter> set (dp_busy g) \<subseteq> set (dp_closing g) \<and>
    (\<forall>k \<in> set (pool_list g'). con_real g' k)"
proof -
  obtain g1 where 1: "cleanup_waiters (dp_aquire g) g = Inr g1" "pool_core (\<lambda>_. 0) (\<lambda>_. 0) g1" "auth_pending g1" "dp_aquire g1 = []" "dp_free g1 = dp_free g"
      "dp_busy g1 = dp_busy g" "dp_pending g1 = dp_pending g" "dp_reals g1 = dp_reals g" using cleanup_waiters_core [OF pool_invD(1,3) [OF inv] refl] by blast
  have d1: "distinct (dp_pending g1)" using core_listsD [OF 1(2)] by (simp add: pool_lists_ok_def)
  obtain g2 where 2: "cleanup_pending (dp_pending g1) g1 = Inr g2" "pool_core (\<lambda>_. 0) (\<lambda>_. 0) g2" "auth_pending g2" "dp_aquire g2 = dp_aquire g1" "dp_free g2 = dp_free g1"
      "dp_busy g2 = dp_busy g1" "set (dp_pending g2) \<subseteq> set (dp_pending g1)" "set (dp_pending g1) \<inter> set (dp_pending g2) \<subseteq> set (dp_closing g2)"
      "set (dp_closing g2) \<inter> set (dp_busy g1) \<subseteq> set (dp_closing g1)" "\<forall>k \<in> set (dp_pending g1). k \<in> set (dp_pending g2) \<longrightarrow> con_real g2 k"
    using cleanup_pending_core [OF 1(2,3) order_refl d1] by blast
  obtain g3 where 3: "cleanup_free (dp_free g2) g2 = Inr g3" "pool_core (\<lambda>_. 0) (\<lambda>_. 0) g3" "auth_pending g3" "dp_aquire g3 = dp_aquire g2" "dp_free g3 = dp_free g2"
      "dp_busy g3 = dp_busy g2" "dp_pending g3 = dp_pending g2" "set (dp_closing g3) = set (dp_closing g2) \<union> set (dp_free g2)" "\<forall>k. con_real g2 k \<longrightarrow> con_real g3 k"
    using cleanup_free_core [OF 2(2,3) order_refl] by blast
  have cl: "set (dp_busy g) \<inter> set (dp_closing g1) \<subseteq> set (dp_closing g)"
  proof
    fix k
    assume k: "k \<in> set (dp_busy g) \<inter> set (dp_closing g1)"
    then obtain x where x: "dp_reals g1 k = Some x" using core_real [OF 1(2), of k] 1(6) by auto
    then have "rl_linked x" "rl_closed x" using core_realD [OF 1(2) x] k by (auto simp: real_ok_def)
    then show "k \<in> set (dp_closing g)" using core_realD [OF pool_invD(1) [OF inv], of k x] x 1(8) by (auto simp: real_ok_def)
  qed
  have "set (dp_free g2) \<inter> set (dp_busy g2) = {}" using core_listsD [OF 2(2)] by (auto simp: pool_lists_ok_def)
  then have "set (dp_closing g3) \<inter> set (dp_busy g) \<subseteq> set (dp_closing g)" using 3(8) 2(6,9) 1(6) cl by auto
  moreover have "set (dp_free g3) \<union> set (dp_pending g3) \<subseteq> set (dp_closing g3)" using 3(5,7,8) 2(7,8) by auto
  moreover have "RealConnectionPool_Cleanup g = Inr g3" using 1(1) 2(1) 3(1) by (simp add: RealConnectionPool_Cleanup_def)
  moreover have "con_real g3 k" if k: "k \<in> set (pool_list g3)" for k
  proof (cases "k \<in> set (dp_pending g3)")
    case True
    then show ?thesis using 3(7,9) 2(7,10) by auto
  next
    case False
    then show ?thesis using core_real [OF 3(2) k] k by (auto simp: real_ok_def con_real_def)
  qed
  ultimately show ?thesis using 1 2 3 by (auto simp: pool_inv_def no_wait_def)
qed

section \<open>Properties\<close>

text \<open>The connections an event can close, and the one way an event can fail.\<close>

fun closed_by :: "dbevent \<Rightarrow> nat set" where
  "closed_by (PeerClosed i) = {i}"
| "closed_by Cleanup = UNIV"
| "closed_by _ = {}"

definition parse_fails :: "dbevent \<Rightarrow> error \<Rightarrow> bool" where
  "parse_fails e err \<longleftrightarrow> (\<exists>env m q i. e = Received env m q i \<and> parse_error env m q err)"

lemma db_step_inv:
  assumes inv: "pool_inv g" and en: "db_enabled e g"
  shows "(\<exists>g'. db_step e g = Inr g' \<and> pool_inv g' \<and> keeps_live (closed_by e) g g') \<or> (\<exists>err. db_step e g = Inl err \<and> parse_fails e err)"
proof (cases e)
  case (ConnectCompleted i ok)
  then show ?thesis using connect_completed_inv [OF inv] en by simp
next
  case (Received env m q i)
  then show ?thesis using Received_inv [OF inv, of env m q i] en by (fastforce simp: parse_fails_def)
next
  case (PeerClosed i)
  then show ?thesis using PeerClosed_inv [OF inv] en by (auto elim!: open_realD)
next
  case CloseCallback
  then obtain i rest where "dp_closing g = i # rest" using en by (cases "dp_closing g") auto
  from CloseCallback_inv [OF inv this] show ?thesis using CloseCallback by auto
next
  case Create
  then show ?thesis using Create_inv [OF inv] by simp
next
  case (Retain c)
  then show ?thesis using Retain_inv [OF inv] en by (auto elim!: user_connD)
next
  case (Release c)
  then show ?thesis using Release_inv [OF inv] en by (auto elim!: user_connD)
next
  case (CreateStatement sql c)
  then show ?thesis using CreateStatement_inv [OF inv] en by (auto elim!: user_connD)
next
  case (Execute cb c)
  then show ?thesis using Execute_inv [OF inv] en by (auto elim!: user_connD)
next
  case Cleanup
  then show ?thesis using Cleanup_core [OF inv] by (auto simp: keeps_live_def)
qed

lemma db_reach_inv: "db_reach g \<Longrightarrow> pool_inv g"
proof (induction rule: db_reach.induct)
  case (db_start poolsize ans g)
  then show ?case using Setup_pool_inv [of poolsize ans] by auto
next
  case (db_next g e g')
  then show ?case using db_step_inv [of g e] by auto
qed

definition holders :: "dbpool \<Rightarrow> nat \<Rightarrow> nat set" where
  "holders g i = {c. \<exists>z. dp_conns g c = Some z \<and> dc_real z = Some i}"

lemma card_holders:
  assumes core: "pool_core ex cx g" and x: "dp_reals g i = Some x"
  shows "card (holders g i) = one_if (rl_handler x \<noteq> None)"
proof (cases "rl_handler x")
  case None
  then have "holders g i = {}" using core_connD [OF core] x by (fastforce simp: holders_def dbconn_ok_def)
  then show ?thesis using None by simp
next
  case (Some c)
  then have "holders g i = {c}" using core_connD [OF core] handler_alive [OF core x Some] x by (fastforce simp: holders_def dbconn_ok_def)
  then show ?thesis using Some by simp
qed

text \<open>
  C5. The connection pool. Whatever user code, the server and the dispatcher do: an event that can happen is handled without touching a deleted object (only
  the parsers of a received packet can throw); a real connection has exactly one reference for being in a list of the pool, one for being registered with the
  dispatcher and one for the connection that uses it, of which there is at most one, and it is deleted when these are gone; a connection has the references
  of user code and one while it waits; the lists are disjoint and within the size of the pool; and nobody waits while a connection is free.
\<close>

theorem Pool_safe:
  assumes "db_reach g"
  shows "(\<forall>e. db_enabled e g \<longrightarrow> (\<exists>g'. db_step e g = Inr g') \<or> (\<exists>err. db_step e g = Inl err \<and> parse_fails e err)) \<and>
    (\<forall>i x. dp_reals g i = Some x \<longrightarrow> rl_ref x = one_if (i \<in> set (dp_free g @ dp_busy g @ dp_pending g)) + one_if (rl_linked x) + card (holders g i) \<and> 0 < rl_ref x \<and>
       card (holders g i) \<le> 1) \<and>
    (\<forall>c x. dp_conns g c = Some x \<longrightarrow> dc_ref x = dc_user x + one_if (c \<in> set (dp_aquire g)) \<and> 0 < dc_ref x) \<and>
    distinct (dp_free g @ dp_busy g @ dp_pending g) \<and> length (dp_free g @ dp_busy g @ dp_pending g) \<le> dp_poolsize g \<and> (dp_free g = [] \<or> dp_aquire g = [])"
proof -
  have inv: "pool_inv g" by (rule db_reach_inv [OF assms])
  note core = pool_invD(1) [OF inv]
  have "rl_ref x = one_if (i \<in> set (pool_list g)) + one_if (rl_linked x) + card (holders g i) \<and> 0 < rl_ref x \<and> card (holders g i) \<le> 1" if x: "dp_reals g i = Some x" for i x
    using core_realD [OF core x] card_holders [OF core x] unfolding real_ok_def by (auto simp: one_if_def)
  moreover have "dc_ref x = dc_user x + one_if (c \<in> set (dp_aquire g)) \<and> 0 < dc_ref x" if "dp_conns g c = Some x" for c x
    using core_connD [OF core that] unfolding dbconn_ok_def by auto
  moreover have "distinct (pool_list g)" "length (pool_list g) \<le> dp_poolsize g" using core_listsD [OF core] unfolding pool_lists_ok_def by blast+
  moreover have "dp_free g = [] \<or> dp_aquire g = []" using pool_invD(2) [OF inv] by (simp add: no_wait_def)
  moreover have "(\<exists>g'. db_step e g = Inr g') \<or> (\<exists>err. db_step e g = Inl err \<and> parse_fails e err)" if "db_enabled e g" for e using db_step_inv [OF inv that] by blast
  ultimately show ?thesis by blast
qed

text \<open>A run of events that satisfy a condition.\<close>

inductive db_run :: "(dbevent \<Rightarrow> bool) \<Rightarrow> dbpool \<Rightarrow> dbpool \<Rightarrow> bool" for P where
  db_run_refl: "db_run P g g"
| db_run_step: "db_run P g g1 \<Longrightarrow> P e \<Longrightarrow> db_enabled e g1 \<Longrightarrow> db_step e g1 = Inr g2 \<Longrightarrow> db_run P g g2"

lemma db_run_trans: "db_run P g1 g2 \<Longrightarrow> db_run P g g1 \<Longrightarrow> db_run P g g2"
  by (induction rule: db_run.induct) (auto intro: db_run_step)

lemma run_live:
  assumes "db_run (\<lambda>e. i \<notin> closed_by e) g g'" and "pool_inv g" and "live_real g i"
  shows "pool_inv g' \<and> live_real g' i"
  using assms
proof (induction rule: db_run.induct)
  case (db_run_step g g1 e g2)
  then have "pool_inv g1" "live_real g1 i" by blast+
  then show ?case using db_step_inv [of g1 e] db_run_step.hyps by (auto simp: keeps_live_def)
qed blast

lemma live_not_empty:
  assumes "pool_inv g" and "live_real g i"
  shows "\<not> RealConnectionPool_empty g"
proof -
  obtain x where x: "dp_reals g i = Some x" "rl_connect x" using assms(2) by (auto simp: live_real_def)
  have "i \<in> set (pool_list g)" using core_realD [OF pool_invD(1) [OF assms(1)] x(1)] x(2) by (simp add: real_ok_def)
  then show ?thesis by (auto simp: RealConnectionPool_empty_def)
qed

lemma drain:
  assumes "pool_inv g" and "\<forall>k \<in> set (pool_list g). k \<in> set (dp_closing g) \<and> con_real g k"
  shows "\<exists>g'. db_run (\<lambda>e. e = CloseCallback) g g' \<and> RealConnectionPool_empty g' \<and> dp_closing g' = []"
  using assms
proof (induction "length (dp_closing g)" arbitrary: g)
  case 0
  then have "pool_list g = []" using subset_empty by (cases "pool_list g") auto
  then show ?case using 0 db_run_refl by (auto simp: RealConnectionPool_empty_def)
next
  case (Suc n)
  then obtain i rest where cl: "dp_closing g = i # rest" by (cases "dp_closing g") auto
  obtain g1 where 1: "real_close_callback g = Inr g1" "pool_inv g1" "dp_closing g1 = rest" "set (pool_list g1) \<subseteq> set (pool_list g) - (if con_real g i then {i} else {})"
      "\<forall>k. k \<noteq> i \<longrightarrow> con_real g k \<longrightarrow> con_real g1 k" using CloseCallback_inv [OF Suc.prems(1) cl] by blast
  have "k \<in> set (dp_closing g1) \<and> con_real g1 k" if k: "k \<in> set (pool_list g1)" for k
  proof -
    have "k \<in> set (pool_list g)" "con_real g i \<longrightarrow> k \<noteq> i" using 1(4) k by (auto split: if_splits)
    then have "k \<noteq> i" using Suc.prems(2) by blast
    then show ?thesis using Suc.prems(2) \<open>k \<in> set (pool_list g)\<close> 1(3,5) cl by auto
  qed
  then obtain g' where g': "db_run (\<lambda>e. e = CloseCallback) g1 g'" "RealConnectionPool_empty g'" "dp_closing g' = []" using Suc.hyps(1) [of g1] 1(2,3) Suc.hyps(2) cl by auto
  have "db_run (\<lambda>e. e = CloseCallback) g g1" by (rule db_run_step [OF db_run_refl, of _ CloseCallback]) (use cl 1(1) in simp_all)
  then show ?case using db_run_trans [OF g'(1)] g'(2,3) by blast
qed

text \<open>
  C19. Shutting the pool down. If no connection is in use when \<open>Cleanup\<close> is called, the callbacks of the dispatcher that follow empty the pool, which is what
  \<open>BeginCleanup\<close> waits for. But a connection in use is not closed, and when it is given back it becomes free and stays open: unless the server
  closes it, or \<open>Cleanup\<close> is called again, the pool is not empty at any later time, and the callback of \<open>BeginCleanup\<close> is never called.
\<close>

theorem Pool_cleanup:
  assumes "db_reach g" and "RealConnectionPool_Cleanup g = Inr g1"
  shows "(dp_busy g = [] \<longrightarrow> (\<exists>g'. db_run (\<lambda>e. e = CloseCallback) g1 g' \<and> RealConnectionPool_empty g')) \<and>
    (\<forall>i g'. i \<in> set (dp_busy g) \<longrightarrow> i \<notin> set (dp_closing g) \<longrightarrow> db_run (\<lambda>e. e \<noteq> PeerClosed i \<and> e \<noteq> Cleanup) g1 g' \<longrightarrow> \<not> RealConnectionPool_empty g')"
proof -
  have inv: "pool_inv g" by (rule db_reach_inv [OF assms(1)])
  have c: "pool_inv g1" "dp_busy g1 = dp_busy g" "set (dp_free g1) \<union> set (dp_pending g1) \<subseteq> set (dp_closing g1)" "set (dp_closing g1) \<inter> set (dp_busy g) \<subseteq> set (dp_closing g)"
      "\<forall>k \<in> set (pool_list g1). con_real g1 k" using Cleanup_core [OF inv] assms(2) by auto
  have "\<exists>g'. db_run (\<lambda>e. e = CloseCallback) g1 g' \<and> RealConnectionPool_empty g'" if "dp_busy g = []"
    using drain [OF c(1)] c(2,3,5) that by auto
  moreover have "\<not> RealConnectionPool_empty g'"
    if i: "i \<in> set (dp_busy g)" "i \<notin> set (dp_closing g)" and run: "db_run (\<lambda>e. e \<noteq> PeerClosed i \<and> e \<noteq> Cleanup) g1 g'" for i g'
  proof -
    have "con_real g1 i" "i \<notin> set (dp_closing g1)" using c(2,4,5) i by auto
    then have "live_real g1 i" using core_realD [OF pool_invD(1) [OF c(1)]] by (auto simp: con_real_def live_real_def real_ok_def)
    moreover have "(\<lambda>e. e \<noteq> PeerClosed i \<and> e \<noteq> Cleanup) = (\<lambda>e. i \<notin> closed_by e)"
    proof
      show "(e \<noteq> PeerClosed i \<and> e \<noteq> Cleanup) = (i \<notin> closed_by e)" for e by (cases e) auto
    qed
    ultimately show ?thesis using run_live [of i g1 g'] run c(1) live_not_empty by auto
  qed
  ultimately show ?thesis by blast
qed

section \<open>Giving a connection back too early\<close>

lemma CheckAquireList_one:
  assumes "dp_free h = [r]" "dp_aquire h = b # cs"
    and "Connection_OnAquireRealConnectionSuccess b r (h\<lparr>dp_free := [], dp_aquire := cs, dp_busy := dp_busy h @ [r]\<rparr>) = Inr k0"
    and "\<And>check. dbconn_Release_with check b k0 = Inr k" "dp_free k = []"
  shows "CheckAquireList h = Inr k"
  unfolding CheckAquireList_def using assms by (subst CheckAquire_loop.simps) (simp add: CheckAquire_loop.simps [of _ k])

lemma dbconn_Release_more:
  "dp_conns g c = Some x \<Longrightarrow> 2 \<le> dc_ref x \<Longrightarrow> dbconn_Release_with check c g = Inr (put_dbconn c (x\<lparr>dc_ref := dc_ref x - 1\<rparr>) g)"
  by (simp add: dbconn_Release_with_def dbconn_at_def)

lemma in_use_authorised:
  assumes inv: "pool_inv g" and a: "dp_conns g a = Some x" "dc_real x = Some r" and r: "dp_reals g r = Some y" "rl_connect y"
  shows "rl_phase y = CONN_PHASE_OK"
proof -
  have "rl_handler y = Some a" using core_connD [OF pool_invD(1) [OF inv] a(1)] a(2) r(1) by (auto simp: dbconn_ok_def)
  then have "r \<notin> set (dp_pending g)" using core_realD [OF pool_invD(1) [OF inv] r(1)] by (simp add: real_ok_def)
  then show ?thesis using pool_invD(3) [OF inv] r by (auto simp: auth_pending_def)
qed

lemma crosstalk_state:
  assumes inv: "pool_inv g" and a: "dp_conns g a = Some x" "dc_user x = 1" "dc_real x = Some r" and r: "dp_reals g r = Some y" "rl_connect y"
    and aq: "dp_aquire g = b # cs" and b: "dp_conns g b = Some z" "0 < dc_user z" "dc_stmt z = Some t" "st_phase t = STATEMENT_WAIT"
  shows "\<exists>g'. db_step (Release a) g = Inr g' \<and> dp_conns g' a = None \<and>
    dp_reals g' r = Some (y\<lparr>rl_handler := Some b, rl_sent := rl_sent y @ [(st_seq t, COM_QUERY # st_sql t)]\<rparr>) \<and>
    dp_conns g' b = Some (z\<lparr>dc_ref := dc_ref z - 1, dc_real := Some r,
      dc_stmt := Some (t\<lparr>st_real := Some r, st_phase := STATEMENT_WAIT_RESPONSE, st_seq := (st_seq t + 1) mod 256\<rparr>)\<rparr>) \<and> dp_aquire g' = cs"
proof -
  note core = pool_invD(1) [OF inv]
  have ao: "dbconn_ok (\<lambda>_. 0) g a x" and bo: "dbconn_ok (\<lambda>_. 0) g b z" and yo: "real_ok (\<lambda>_. 0) g r y"
    using core_connD [OF core] core_realD [OF core] a(1) b(1) r(1) by blast+
  have f: "dp_free g = []" using pool_invD(2) [OF inv] aq by (simp add: no_wait_def)
  have ra: "dc_ref x = 1" "a \<notin> set (dp_aquire g)" using ao a(2,3) by (auto simp: dbconn_ok_def)
  have ab: "b \<noteq> a" using ra(2) aq by auto
  have hy: "rl_handler y = Some a" using ao a(3) r(1) by (auto simp: dbconn_ok_def)
  have ry: "rl_ref y = 3" using yo hy r(2) by (auto simp: real_ok_def)
  have rb: "2 \<le> dc_ref z" "dc_real z = None" using bo b(2) aq by (auto simp: dbconn_ok_def)
  let ?h = "g\<lparr>dp_conns := (dp_conns g)(a := None), dp_reals := (dp_reals g)(r \<mapsto> y\<lparr>rl_handler := None\<rparr>), dp_busy := removeAll r (dp_busy g), dp_free := [r]\<rparr>"
  have rel: "db_step (Release a) g = bindE (CheckAquireList ?h) (real_Release r)"
    using a(1,3) ra(1) r f by (simp add: user_Release_def dbconn_at_def dbconn_Release_def dbconn_Release_with_def ReleaseRealConnection_with_def dbreal_at_def put_real_def put_dbconn_def)
  let ?t = "t\<lparr>st_real := Some r, st_phase := STATEMENT_WAIT_RESPONSE, st_seq := (st_seq t + 1) mod 256\<rparr>"
  let ?y = "y\<lparr>rl_handler := Some b, rl_ref := 4, rl_sent := rl_sent y @ [(st_seq t, COM_QUERY # st_sql t)]\<rparr>"
  let ?z = "z\<lparr>dc_real := Some r, dc_stmt := Some ?t\<rparr>"
  let ?mid = "g\<lparr>dp_conns := (dp_conns g)(a := None, b \<mapsto> ?z), dp_reals := (dp_reals g)(r \<mapsto> ?y), dp_busy := removeAll r (dp_busy g) @ [r], dp_free := [], dp_aquire := cs\<rparr>"
  let ?k = "put_dbconn b (?z\<lparr>dc_ref := dc_ref ?z - 1\<rparr>) ?mid"
  have "CheckAquireList ?h = Inr ?k"
  proof (rule CheckAquireList_one [of _ r b cs ?mid])
    show "Connection_OnAquireRealConnectionSuccess b r (?h\<lparr>dp_free := [], dp_aquire := cs, dp_busy := dp_busy ?h @ [r]\<rparr>) = Inr ?mid"
      using b ab r ry by (simp add: Connection_OnAquireRealConnectionSuccess_def dbconn_at_def real_Retain_def dbreal_at_def Connection_TryExecuteStatement_def
        StatementBase_CallRealExecute_def Statement_OnCallRealExecute_def RealConnection_Send_def put_real_def put_dbconn_def) (cases g; cases y; simp)
    show "dbconn_Release_with check b ?mid = Inr ?k" for check
      by (rule dbconn_Release_more) (use rb(1) in simp_all)
  qed (use aq in \<open>simp_all add: put_dbconn_def\<close>)
  moreover have "real_Release r ?k = Inr (put_real r (?y\<lparr>rl_ref := 3\<rparr>) ?k)" by (simp add: real_Release_def dbreal_at_def put_dbconn_def)
  moreover have "?z\<lparr>dc_ref := dc_ref ?z - 1\<rparr> = z\<lparr>dc_ref := dc_ref z - 1, dc_real := Some r, dc_stmt := Some ?t\<rparr>" by simp
  moreover have "?y\<lparr>rl_ref := 3\<rparr> = y\<lparr>rl_handler := Some b, rl_sent := rl_sent y @ [(st_seq t, COM_QUERY # st_sql t)]\<rparr>" using ry by (cases y) simp
  ultimately show ?thesis using rel ab by (simp add: put_real_def put_dbconn_def)
qed

text \<open>
  C34. A connection that is given back while its statement is in progress. Let a connection wait for the answer to its statement and let user code drop its last
  reference. Then its real connection goes, with the answer outstanding, to the first waiter, whose statement is sent at once; and the next packet with
  the first number of an answer, which the server sends for the old statement, is parsed as the answer to the new one.
\<close>

theorem Connection_crosstalk:
  assumes "db_reach g" and "dp_conns g a = Some x" and "dc_user x = 1" and "dc_real x = Some r" and "dc_stmt x = Some s" and "st_phase s = STATEMENT_WAIT_RESPONSE"
    and "dp_reals g r = Some y" and "rl_connect y" and "dp_aquire g = b # cs"
    and "dp_conns g b = Some z" and "0 < dc_user z" and "dc_stmt z = Some t" and "st_phase t = STATEMENT_WAIT" and "st_seq t = 0"
  shows "\<exists>g' y' t'. db_step (Release a) g = Inr g' \<and> dp_conns g' a = None \<and> dp_reals g' r = Some y' \<and> rl_sent y' = rl_sent y @ [(0, COM_QUERY # st_sql t)] \<and>
    (\<forall>env m q rs. my_sequence_id q = 1 \<longrightarrow> ResultSet_Parse (en_float env) (en_junk env) (en_uninit env) PROTOCOL_TEXT m (my_pkt q) (st_rs t) = Inr (False, rs) \<longrightarrow>
      (\<exists>g2 z2. RealConnection_OnReceivePacket env m q r g' = Inr g2 \<and> dp_conns g2 b = Some z2 \<and>
         dc_stmt z2 = Some (t'\<lparr>st_rs := rs, st_seq := 2\<rparr>) \<and> st_sql t' = st_sql t))"
proof -
  let ?t = "t\<lparr>st_real := Some r, st_phase := STATEMENT_WAIT_RESPONSE, st_seq := (st_seq t + 1) mod 256\<rparr>"
  obtain g' where g': "db_step (Release a) g = Inr g'" "dp_conns g' a = None"
      "dp_reals g' r = Some (y\<lparr>rl_handler := Some b, rl_sent := rl_sent y @ [(st_seq t, COM_QUERY # st_sql t)]\<rparr>)"
      "dp_conns g' b = Some (z\<lparr>dc_ref := dc_ref z - 1, dc_real := Some r, dc_stmt := Some ?t\<rparr>)"
    using crosstalk_state [OF db_reach_inv [OF assms(1)] assms(2-4,7-13)] by blast
  have ph: "rl_phase y = CONN_PHASE_OK" by (rule in_use_authorised [OF db_reach_inv [OF assms(1)] assms(2,4,7,8)])
  have "\<exists>g2 z2. RealConnection_OnReceivePacket env m q r g' = Inr g2 \<and> dp_conns g2 b = Some z2 \<and> dc_stmt z2 = Some (?t\<lparr>st_rs := rs, st_seq := 2\<rparr>)"
    if "my_sequence_id q = 1" "ResultSet_Parse (en_float env) (en_junk env) (en_uninit env) PROTOCOL_TEXT m (my_pkt q) (st_rs t) = Inr (False, rs)" for env m q rs
    using g'(3,4) that ph assms(14) by (simp add: RealConnection_OnReceivePacket_def dbreal_at_def Connection_OnReceivePacket_def dbconn_at_def
      StatementBase_HandleRawResponse_def Statement_HandleResponse_def)
  then show ?thesis using g' assms(14) by (intro exI [of _ g'] exI [of _ "y\<lparr>rl_handler := Some b, rl_sent := rl_sent y @ [(st_seq t, COM_QUERY # st_sql t)]\<rparr>"] exI [of _ ?t]) simp
qed

section \<open>Witnesses\<close>

text \<open>
  A pool of one connection, which is authorised and given to the connection 1; that sends its statement, and the connection 2 waits with another one.
\<close>

fun db_exec :: "dbevent list \<Rightarrow> dbpool \<Rightarrow> dbpool result" where
  "db_exec [] g = Inr g"
| "db_exec (e # es) g = (if db_enabled e g then bindE (db_step e g) (db_exec es) else Inl HandlerFailed)"

lemma db_exec_reach: "db_exec es g = Inr g' \<Longrightarrow> db_reach g \<Longrightarrow> db_reach g'"
  by (induction es arbitrary: g) (auto simp: bindE_eq_Inr intro: db_next split: if_splits)

definition one_pending :: dbpool where
  "one_pending = (RealConnectionPool_new 1 (\<lambda>_. ConnDone))\<lparr>dp_reals := [0 \<mapsto> \<lparr>rl_connect = True, rl_connect_pending = False, rl_linked = True, rl_closed = False,
     rl_ref = 2, rl_phase = CONN_PHASE_INIT_HANDSHAKE, rl_handler = None, rl_sent = []\<rparr>], dp_pending := [0], dp_next := 1\<rparr>"

lemma one_pending_reach: "db_reach one_pending"
proof -
  have "RealConnectionPool_Setup (RealConnectionPool_new 1 (\<lambda>_. ConnDone)) = Inr one_pending"
    by (simp add: RealConnectionPool_Setup_def RealConnectionPool_CreateNewConnection_def RealConnectionPool_new_def one_pending_def put_real_def)
  then show ?thesis by (rule db_start)
qed

definition one_busy :: dbpool where
  "one_busy = (RealConnectionPool_new 1 (\<lambda>_. ConnDone))\<lparr>dp_reals := [0 \<mapsto> \<lparr>rl_connect = True, rl_connect_pending = False, rl_linked = True, rl_closed = False,
     rl_ref = 3, rl_phase = CONN_PHASE_OK, rl_handler = Some 1, rl_sent = [(1, hello_answer plain_sha1 plain_info plain_hello), (0, [3, 65])]\<rparr>],
     dp_conns := [1 \<mapsto> \<lparr>dc_ref = 1, dc_user = 1, dc_real = Some 0, dc_stmt = Some ((Statement_new [65])\<lparr>st_seq := 1, st_real := Some 0,
       st_phase := STATEMENT_WAIT_RESPONSE, st_cb := True\<rparr>)\<rparr>], dp_busy := [0], dp_next := 2\<rparr>"

lemmas db_defs = open_real_def user_conn_def RealConnection_OnReceivePacket_def RealConnection_HandleAuthInitHandshake_def RealConnection_greeted_def RealConnection_Send_def
  RealConnection_HandleAuthResponse_def RealConnection_authorised_def RealConnectionPool_OnAuthSuccess_def
  CheckAquireList_def CheckAquire_loop.simps Connection_Create_def RealConnectionPool_AquireRealConnection_def dbconn_Retain_def dbconn_at_def dbreal_at_def
  Connection_OnAquireRealConnectionSuccess_def real_Retain_def Connection_TryExecuteStatement_def dbconn_Release_with_def CheckCreateMore_def
  Connection_CreateStatement_def Connection_pending_def Statement_Execute_def StatementBase_CallRealExecute_def Statement_OnCallRealExecute_def Statement_new_def
  RealConnectionPool_new_def put_real_def put_dbconn_def

lemma one_busy_reach: "db_reach one_busy"
proof -
  obtain m hs p where h: "mem_inv m hs" "reading m p (10 # hello_bytes plain_hello)"
      "room m hs Packet_new (length (hello_answer plain_sha1 plain_info plain_hello) + 43 * mp_chunksize m + 500)" using plain_greeting by blast
  have l: "length (hello_answer plain_sha1 plain_info plain_hello) < 2 ^ 24" using length_plain_answer by simp
  obtain bs where a: "HandleAuthInitHandshake plain_sha1 plain_info m p = Inr (AuthSend bs)" "drop 4 bs = hello_answer plain_sha1 plain_info plain_hello"
    using handshake_hello [OF h(1,2) plain_hello_ok(1) l h(3)] plain_hello_ok(2) by simp
  obtain m' p' where b: "HandleAuthResponse m' p' = Inr AuthSuccess" using loaded_reading [of "[0]"] HandleAuthResponse_ok by fastforce
  let ?env = "\<lparr>en_float = undefined, en_junk = 0, en_uninit = (\<lambda>_. 0), en_sha1 = plain_sha1, en_info = plain_info\<rparr>"
  let ?q = "\<lambda>p. \<lparr>my_pkt = p, my_payload = 0, my_sequence_id = 0\<rparr>"
  have "db_exec [Received ?env m (?q p) 0, Received ?env m' (?q p') 0, Create, CreateStatement [65] 1, Execute True 1] one_pending = Inr one_busy"
    using a b by (simp add: one_pending_def one_busy_def db_defs)
  then show ?thesis by (rule db_exec_reach [OF _ one_pending_reach])
qed

theorem Pool_safe_witness:
  "db_reach one_busy \<and> (\<exists>g'. db_step (PeerClosed 0) one_busy = Inr g') \<and> 0 < rl_ref (the (dp_reals one_busy 0)) \<and> card (holders one_busy 0) \<le> 1"
proof -
  note safe = Pool_safe [OF one_busy_reach]
  have "db_enabled (PeerClosed 0) one_busy" by (simp add: open_real_def one_busy_def)
  with safe [THEN conjunct1, rule_format, of "PeerClosed 0"] have "\<exists>g'. db_step (PeerClosed 0) one_busy = Inr g'" by (simp only: parse_fails_def dbevent.distinct) blast
  moreover have "dp_reals one_busy 0 = Some (the (dp_reals one_busy 0))" by (simp add: one_busy_def)
  note safe [THEN conjunct2, THEN conjunct1, rule_format, OF this]
  ultimately show ?thesis using one_busy_reach by blast
qed

theorem Pool_cleanup_witness:
  "\<exists>g1. RealConnectionPool_Cleanup one_busy = Inr g1 \<and> \<not> RealConnectionPool_empty g1 \<and>
     (\<exists>g2 g3. RealConnectionPool_Cleanup one_pending = Inr g2 \<and> db_run (\<lambda>e. e = CloseCallback) g2 g3 \<and> RealConnectionPool_empty g3)"
proof -
  have 1: "RealConnectionPool_Cleanup one_busy = Inr one_busy" by (simp add: RealConnectionPool_Cleanup_def one_busy_def RealConnectionPool_new_def)
  have b: "0 \<in> set (dp_busy one_busy)" "0 \<notin> set (dp_closing one_busy)" "dp_busy one_pending = []" by (simp_all add: one_busy_def one_pending_def RealConnectionPool_new_def)
  obtain g2 where 2: "RealConnectionPool_Cleanup one_pending = Inr g2" using Cleanup_core [OF db_reach_inv [OF one_pending_reach]] by blast
  have "\<not> RealConnectionPool_empty one_busy" using Pool_cleanup [OF one_busy_reach 1] b(1,2) db_run_refl by blast
  moreover have "\<exists>g3. db_run (\<lambda>e. e = CloseCallback) g2 g3 \<and> RealConnectionPool_empty g3" using Pool_cleanup [OF one_pending_reach 2] b(3) by blast
  ultimately show ?thesis using 1 2 by blast
qed

definition two_conns :: dbpool where
  "two_conns = one_busy\<lparr>dp_conns := (dp_conns one_busy)(2 \<mapsto> \<lparr>dc_ref = Suc 1, dc_user = 1, dc_real = None, dc_stmt = Some ((Statement_new [66])\<lparr>st_phase := STATEMENT_WAIT, st_cb := True\<rparr>)\<rparr>),
     dp_aquire := [2], dp_next := 3\<rparr>"

lemma two_conns_reach: "db_reach two_conns"
proof (rule db_exec_reach [OF _ one_busy_reach])
  show "db_exec [Create, CreateStatement [66] 2, Execute True 2] one_busy = Inr two_conns"
    by (simp add: one_busy_def two_conns_def db_defs)
qed

theorem Connection_crosstalk_witness:
  "\<exists>g' y'. db_step (Release 1) two_conns = Inr g' \<and> dp_conns g' 1 = None \<and> dp_reals g' 0 = Some y' \<and> rl_sent y' = [(1, hello_answer plain_sha1 plain_info plain_hello), (0, [3, 65]), (0, [3, 66])]"
proof -
  let ?x = "the (dp_conns two_conns 1)" and ?z = "the (dp_conns two_conns 2)" and ?y = "the (dp_reals two_conns 0)"
  have "dp_conns two_conns 1 = Some ?x" "dc_user ?x = 1" "dc_real ?x = Some 0" "dc_stmt ?x = Some (the (dc_stmt ?x))" "st_phase (the (dc_stmt ?x)) = STATEMENT_WAIT_RESPONSE"
      "dp_reals two_conns 0 = Some ?y" "rl_connect ?y" "dp_aquire two_conns = 2 # []"
      "dp_conns two_conns 2 = Some ?z" "0 < dc_user ?z" "dc_stmt ?z = Some (the (dc_stmt ?z))" "st_phase (the (dc_stmt ?z)) = STATEMENT_WAIT" "st_seq (the (dc_stmt ?z)) = 0"
    by (simp_all add: two_conns_def one_busy_def Statement_new_def)
  from Connection_crosstalk [OF two_conns_reach this] show ?thesis by (auto simp: two_conns_def one_busy_def Statement_new_def)
qed

end
