(* ===== verification/Spec2Isabelle.thy ===== *)
theory Spec2Isabelle
  imports IntrusiveList ObjectModel Gateway Timer Crypto Files Event Command NodeMonitorSpec Rpc ClusterStream HttpClient ThreadPool DispatcherSpec RobotClient Action MysqlPoolSpec
begin

text \<open>
  A verification of the game server engine jengine.

  \<^bold>\<open>The program.\<close> The engine (\<open>base/\<close>) is a single-threaded event loop with an object model of its own. Objects are
  reference counted and may be handed to autorelease pools (\<open>base/object.*\<close>, \<open>autoreleasepool.*\<close>). The dispatcher
  (\<open>base/event/dispatcher.*\<close>) runs frames: it reads the clock, waits for descriptors, calls their handlers, runs due timers
  (\<open>base/timer.h\<close>) and commands (\<open>base/command\<close>), and empties the autorelease pool. Network clients
  (\<open>base/net/client.*\<close>) read into and write from chunks of a shared memory pool (\<open>base/memory\<close>). Two protocols use
  them: the gateway (\<open>base/gateway\<close>) cuts the stream of a player's connection into packets and hands them to the session, whose
  gate server variant (\<open>gateserver/gatesession.*\<close>) dispatches them to handlers; the cluster (\<open>base/cluster\<close>) connects the
  processes with each other, routes messages between mailboxes and carries remote procedure calls. \<open>base/thread/threadpool.*\<close> runs
  tasks on threads; \<open>robot/\<close> is a load-test client with its own packets, buffer and timers.

  \<^bold>\<open>Conventions.\<close> A class is a record, its objects live in stores (maps from addresses) where they are shared, an operation
  is a function on the state it changes. An exception, a failed assertion and an access the language leaves undefined are values of
  \<open>error\<close> (\<open>Prelude\<close>); a loop that does not end is \<open>Diverges\<close>. Fixed-width fields are words, or natural numbers with
  \<open>u16\<close> and \<open>u32\<close> written at every place where the code stores into such a field. Byte order is that of the
  machine the engine is built for, little-endian. What the operating system or user code answers is an argument: scripts of results for \<open>readv\<close>,
  \<open>writev\<close>, \<open>recv\<close>, \<open>send\<close>, the clock and \<open>epoll_wait\<close>, data describing what a callback does while it runs.
  Uninitialised memory that the code can read is an argument too (\<open>junk\<close>, \<open>uninit\<close>), as are \<open>strtof\<close> and \<open>strtod\<close> (\<open>floatlib\<close>).

  \<^bold>\<open>The theories.\<close>
  \<^item> \<open>Prelude\<close>: errors and their monad, bytes and little-endian numbers, maps and lists the components share.
  \<^item> \<open>IntrusiveList\<close> (\<open>base/utils/intrusive_list.h\<close>): hooks in a store. Every operation refines the operation on
    sequences; \<open>erase\<close> unlinks one element from any list and leaves the others.
  \<^item> \<open>ObjectModel\<close> (\<open>object.*\<close>, \<open>autoreleasepool.*\<close>, \<open>objectmaintainer.*\<close>): reference counts, the stack of pools, retained
    objects with tags. Popping a pool releases every object as often as it was added.
  \<^item> \<open>Memory\<close> (\<open>base/memory\<close>): chunks, counted views and the pool of free chunks. No chunk is on the free list, or
    deleted, while a view refers to it.
  \<^item> \<open>PacketBase\<close>, \<open>PacketSpec\<close> (\<open>base/gateway/packet_base.*\<close>): packets as sequences of views with a two-level cursor. They
    refine a byte string with a position; what a sequence of typed writes puts in, the same sequence of reads gets out, for every chunk size; reads never leave the packet.
  \<^item> \<open>Message\<close> (\<open>base/gateway/packet.*\<close>, \<open>base/cluster/message.*\<close>, \<open>mailboxid.*\<close>): heads of client packets and cluster
    messages, packed addresses; round trips, with the exact range in which addresses survive.
  \<^item> \<open>EventIO\<close>, \<open>NetClient\<close>, \<open>NetClientSpec\<close> (\<open>base/event/eventio.*\<close>, \<open>base/net/client.*\<close>): descriptors and connections. The
    receive queue is a byte queue; what is pushed to the send queue reaches the wire in order, and once the kernel
    accepts everything the queue drains.
  \<^item> \<open>UserClient\<close>, \<open>GateSession\<close> (\<open>base/gateway/userclient.*\<close>, \<open>gateserver/gatesession.*\<close>): the session receives exactly the
    packets of the stream, in order, however the stream was cut into reads; a malformed packet closes the connection.
  \<^item> \<open>Gateway\<close> (\<open>base/gateway/gateway.*\<close>, \<open>base/net/listener.*\<close>, \<open>gateserver/sessionmanager.*\<close>, \<open>gatewaymanager.*\<close>): the
    lifetimes of connections, sessions and players under every sequence of events; a clean-up that is requested completes.
  \<^item> \<open>Timer\<close> (\<open>base/timer.h\<close>): an \<open>Update\<close> runs exactly the due actions without a linker or with one that has exactly two references,
    the timer's and its holder's, in the order of their expiry.
  \<^item> \<open>Event\<close> (\<open>base/event.h\<close>): a trigger calls exactly the handlers that were attached when it began and are still linked.
  \<^item> \<open>Command\<close> (\<open>base/command\<close>): runners execute their commands one after the other, in the order they were pushed.
  \<^item> \<open>Dispatcher\<close>, \<open>DispatcherSpec\<close> (\<open>base/event/dispatcher.*\<close>, \<open>eventtimeout.*\<close>): the frame composed of the above. A frame never
    touches a deleted object and keeps the counts exact, whatever user code does through the public interface, as long as no timeout
    event expires; one that does expire makes the frame read the list element it has just erased.
  \<^item> \<open>ThreadPool\<close> (\<open>base/thread/threadpool.*\<close>): all interleavings of workers, callers and owner. Every task runs exactly once, waiting
    tasks never stall, and \<open>Stop\<close> can lose its wake-up.
  \<^item> \<open>Crypto\<close>, \<open>Strings\<close>, \<open>Files\<close> (\<open>base/utils\<close>, \<open>base/file\<close>): base64 with its inverse, splitting of strings against
    a reference definition, file contents, the bounds of the day's window, hashes, dumps and random numbers.
  \<^item> \<open>ClusterConfig\<close>, \<open>NodeMonitor\<close>, \<open>NodeMonitorSpec\<close>, \<open>Rpc\<close> (\<open>base/cluster\<close>): the configuration tree, process ids, connectors,
    named mailboxes and calls. A node whose set-up could be begun reports it once, one whose set-up could not reports failure and stays in it; a pending fetch is answered exactly when the
    mailbox is known; a call to a service on another node is delivered and answered over the connectors, once. (Messages within a node wait for the action manager,
    which nothing calls.)
  \<^item> \<open>ClusterStream\<close> (\<open>Connector\<close> in \<open>base/cluster/nodemonitor.*\<close>): a connection between processes at the level of bytes. Whatever the cuts of the
    stream, the peer is accepted exactly with the right cookie, and after that every message is delivered once and in order.
  \<^item> \<open>HttpClient\<close> (\<open>base/http\<close>): the request on the wire is the head with the length of the body and the body; it is sent when the connection is
    established, also later, and not at all when that fails; the response parser, a parameter, is given the received views in order until it stops in one.
  \<^item> \<open>Action\<close> (\<open>base/action\<close>): executors, their actions and the manager. A frame visits the actions that were there exactly once and deletes exactly those that
    are stopped or done, whatever new actions callbacks run and whichever they stop meanwhile.
  \<^item> \<open>CircularBuffer\<close>, \<open>RobotClient\<close> (\<open>robot/\<close>): the ring buffer refines a bounded byte queue; the robot cuts its stream exactly, its loop ends exactly if
    no header announces an empty packet, and its framing disagrees with that of the gateway.
  \<^item> \<open>MysqlPacket\<close>, \<open>MysqlRow\<close>, \<open>MysqlResult\<close> (\<open>base/dbo_bk\<close>): the engine's own implementation of the MySQL protocol. Packets and their fields
    with round trips; the rows of the binary and the text protocol, with type safety of the binary reader; the state machine that takes the
    packets of a response, from which the caller reads exactly the rows that were sent.
  \<^item> \<open>MysqlAuth\<close> (\<open>base/dbo_bk/internal/realconnection.cpp\<close>): the authentication. The exact bytes of the answer to a greeting; its token
    passes the check of the server; SHA-1 is a parameter with results of twenty bytes.
  \<^item> \<open>MysqlPool\<close>, \<open>MysqlPoolInv\<close>, \<open>MysqlPoolSpec\<close> (\<open>base/dbo_bk\<close>: \<open>connection.*\<close>, \<open>statement.*\<close>, \<open>internal/realconnection*\<close>): the pool of connections to the
    MySQL server, the connections of user code and their statements, as steps of user code, server and dispatcher. The reference counts are exact and no
    deleted object is touched; clean-up empties the pool exactly if no connection is in use; a connection given back
    too early lets the next statement take the answer to the previous one. A callback records the result it is called with; what user code does in it are later steps.

  \<^bold>\<open>Interfaces.\<close> The contracts between components are locales, interpreted on the definitions of the model:
  \<^item> \<open>linked_sequence\<close> (\<open>IntrusiveList\<close>): a representation of sequences with insertion, removal and traversal; provided by the intrusive list (\<open>il\<close>).
  \<^item> \<open>packet_codec\<close> (\<open>PacketSpec\<close>): a writer of fields and a reader that gets them back from any packet holding the bytes; provided by
    typed fields (\<open>stream\<close>), strings (\<open>strings\<close>), the raw bytes of HTTP (\<open>raw\<close>) and the fields of MySQL packets (\<open>my\<close>).
  \<^item> \<open>receiver\<close> (\<open>NetClientSpec\<close>): a handler that takes complete units from the front of a connection's byte queue and leaves the rest; the lemma that the cuts of
    the stream do not matter is proved once over it. Provided by the connector (\<open>conn\<close>) and, as a sublocale, by every
    \<open>packet_handler\<close> (\<open>UserClient\<close>), which the gate session interprets (\<open>gate\<close>).
  \<^item> \<open>byte_queue\<close> (\<open>CircularBuffer\<close>): a bounded queue of bytes; provided by the ring buffer (\<open>ring\<close>).

  The two parsers of the vendored \<open>http_parser\<close> are arguments without a hypothesis. Only the last part of the theorem on responses has one, for the bytes at hand: that calls on pieces have
  the effect of one call on all of them. The library is like that for input it accepts; for input it rejects, a body can be reported or not depending on the cuts.

  \<^bold>\<open>Bounds.\<close> Loops over data end by structural recursion or a measure (the bytes still queued, the timers still due, the commands left).
  Loops the operating system or user code can keep alive take their answers from a finite script, and a script that is used up inside
  the loop gives \<open>Diverges\<close>. The loop of \<open>Robot_OnRecvPacket\<close> takes a bound on its iterations: the length of
  the buffered bytes, at most 65536, is enough whenever the loop ends at all. The loops of \<open>ActionManager_Update\<close> take the
  lengths of the lists at their start: callbacks insert in front of the cursor only.

  \<^bold>\<open>Not modelled.\<close> Vendored libraries under \<open>base/3rd\<close>; logging, back-traces and console input, whose results nothing else uses; the Lua bindings, whose
  behaviour is that of the interpreter; the prepared statements, the manager of several pools and the configuration of \<open>base/dbo_bk\<close>, a directory that no build file compiles; system calls on addresses and descriptors; the player's data and
  messages of the game servers, which need the directories \<open>model/\<close> and \<open>engine/\<close> that are not in the repository.
\<close>

end
